(* ===== verification/Prelude.thy ===== *)
theory Prelude
  imports Main "HOL-Library.Word" "HOL-Library.Monad_Syntax"
begin

unbundle bit_operations_syntax

section \<open>Prelude: shared types, words and list lemmas\<close>

text \<open>
  What every component shares: the C integer types as words, the error codes of
  \<open>include/rtdef.h\<close>, the alignment macros, and generic lemmas on words, lists and
  options.  Fallible code is modelled in the option type: \<open>None\<close> stands for a failed
  \<open>RT_ASSERT\<close>, which the kernel's handler turns into an endless loop.
\<close>

named_theorems inv_defs \<open>definitions of the component invariants\<close>
named_theorems abs_simps \<open>how an operation acts on the abstraction of its state\<close>
named_theorems irq_simps \<open>operations that commute with the nesting counters of the CPU lock\<close>

type_synonym u8 = "8 word"
type_synonym u16 = "16 word"
type_synonym u32 = "32 word"
type_synonym u64 = "64 word"
type_synonym rt_err = int

abbreviation (input) RT_EOK :: rt_err where "RT_EOK \<equiv> 0"
abbreviation (input) RT_ERROR :: rt_err where "RT_ERROR \<equiv> 1"
abbreviation (input) RT_ETIMEOUT :: rt_err where "RT_ETIMEOUT \<equiv> 2"
abbreviation (input) RT_EFULL :: rt_err where "RT_EFULL \<equiv> 3"
abbreviation (input) RT_EEMPTY :: rt_err where "RT_EEMPTY \<equiv> 4"
abbreviation (input) RT_ENOMEM :: rt_err where "RT_ENOMEM \<equiv> 5"
abbreviation (input) RT_EBUSY :: rt_err where "RT_EBUSY \<equiv> 7"
abbreviation (input) RT_EINVAL :: rt_err where "RT_EINVAL \<equiv> 10"

subsection \<open>Assertions\<close>

definition rt_assert :: "bool \<Rightarrow> unit option" where
  "rt_assert b = (if b then Some () else None)"

lemma rt_assert_simps [simp]:
  "rt_assert True = Some ()" "rt_assert False = None"
  "rt_assert b = None \<longleftrightarrow> \<not> b" "rt_assert b = Some u \<longleftrightarrow> b"
  by (auto simp: rt_assert_def)

lemma rt_assert_bind [simp]:
  "Option.bind (rt_assert b) f = (if b then f () else None)"
  by (auto simp: rt_assert_def)

subsection \<open>Lists\<close>

lemma filter_neq_id: "t \<notin> set xs \<Longrightarrow> filter (\<lambda>x. x \<noteq> t) xs = xs"
  by (induction xs) auto

subsection \<open>Signed integers\<close>

text \<open>A value converted to the 32-bit \<open>int\<close>.\<close>

definition int32 :: "int \<Rightarrow> int" where
  "int32 x = (x + 2 ^ 31) mod 2 ^ 32 - 2 ^ 31"

lemma int32_id: "- (2 ^ 31) \<le> x \<Longrightarrow> x < 2 ^ 31 \<Longrightarrow> int32 x = x"
  by (simp add: int32_def mod_pos_pos_trivial)

lemma int32_range: "- (2 ^ 31) \<le> int32 x" "int32 x < 2 ^ 31"
  using pos_mod_bound [of "2 ^ 32" "x + 2 ^ 31"] pos_mod_sign [of "2 ^ 32" "x + 2 ^ 31"] by (simp_all add: int32_def)

lemma int32_le: "- (2 ^ 31) \<le> x \<Longrightarrow> int32 x \<le> x"
proof -
  assume "- (2 ^ 31) \<le> x"
  then have "(x + 2 ^ 31) mod 2 ^ 32 \<le> x + 2 ^ 31" by (intro zmod_le_nonneg_dividend) simp
  then show ?thesis by (simp add: int32_def)
qed

lemma int32_pos: "0 < int32 x \<Longrightarrow> int32 x = x mod 2 ^ 32"
proof -
  assume "0 < int32 x"
  moreover have "int32 x mod 2 ^ 32 = x mod 2 ^ 32" by (simp add: int32_def mod_simps)
  moreover have "int32 x < 2 ^ 31" by (rule int32_range)
  ultimately show ?thesis by (simp add: mod_pos_pos_trivial)
qed

lemma int32_step: "int32 (int32 x * k + d) = int32 (x * k + d)"
proof -
  define q where "q = (x + 2 ^ 31) div 2 ^ 32"
  have "int32 x = x - q * 2 ^ 32" unfolding int32_def q_def minus_div_mult_eq_mod [symmetric] by simp
  then have "int32 x * k + d + 2 ^ 31 = x * k + d + 2 ^ 31 + (- (q * k)) * 2 ^ 32" by (simp add: left_diff_distrib)
  then show ?thesis unfolding int32_def by (simp only: mod_mult_self1)
qed

text \<open>The 64-bit \<open>long\<close>, and \<open>time_t\<close>.\<close>

definition int64 :: "int \<Rightarrow> int" where
  "int64 x = (x + 2 ^ 63) mod 2 ^ 64 - 2 ^ 63"

lemma int64_id: "- (2 ^ 63) \<le> x \<Longrightarrow> x < 2 ^ 63 \<Longrightarrow> int64 x = x"
  by (simp add: int64_def mod_pos_pos_trivial)

lemma int32_sint: "int32 x = sint (word_of_int x :: u32)"
  by (simp add: int32_def int_word_sint)

subsection \<open>Integer promotions\<close>

text \<open>A widening conversion keeps the value.\<close>

lemma unat_ucast_up:
  assumes "LENGTH('a::len) \<le> LENGTH('b::len)"
  shows "unat (ucast (w :: 'a word) :: 'b word) = unat w"
proof -
  have "unat w < 2 ^ LENGTH('a)" by (rule unsigned_less)
  also have "(2 :: nat) ^ LENGTH('a) \<le> 2 ^ LENGTH('b)" using assms by simp
  finally show ?thesis by (simp add: unsigned_ucast_eq take_bit_nat_eq_self)
qed

lemma unat_ucast_down: "unat w < 2 ^ LENGTH('b) \<Longrightarrow> unat (ucast (w :: 'a::len word) :: 'b::len word) = unat w"
  by (simp add: unsigned_ucast_eq take_bit_nat_eq_self)

lemma unat_of_nat_small: "n < 2 ^ LENGTH('a) \<Longrightarrow> unat (of_nat n :: 'a::len word) = n"
  by (simp add: unat_of_nat take_bit_nat_eq_self)

lemma unat_ucast_simps [simp]:
  "unat (ucast (a :: 15 word) :: u64) = unat a"
  "unat (ucast (b :: u16) :: u64) = unat b"
  "unat (ucast (b :: u16) :: u32) = unat b"
  "unat (ucast (c :: u8) :: u16) = unat c"
  "unat (ucast (c :: u8) :: u32) = unat c"
  "unat (ucast (c :: u8) :: u64) = unat c"
  "unat (ucast (d :: u32) :: u64) = unat d"
  by (simp_all add: unat_ucast_up)

lemma u16_full: "x < (0xffff :: u16) \<or> x = 0xffff"
proof -
  have "unat x < 2 ^ LENGTH(16)" by (rule unsigned_less)
  then have "x \<le> 0xffff" by (simp add: word_le_nat_alt)
  then show ?thesis by auto
qed

subsection \<open>Alignment\<close>

text \<open>
  \<open>RT_ALIGN(size, align)\<close> and \<open>RT_ALIGN_DOWN\<close> with \<open>align = RT_ALIGN_SIZE = 8\<close>, on the
  64-bit \<open>rt_size_t\<close>, with the wrap-around of the addition.
\<close>

definition RT_ALIGN :: "u64 \<Rightarrow> u64" where
  "RT_ALIGN sz = (sz + 8 - 1) AND NOT (8 - 1)"

definition RT_ALIGN_DOWN :: "u64 \<Rightarrow> u64" where
  "RT_ALIGN_DOWN sz = sz AND NOT (8 - 1)"

lemma and_not_mask_unat:
  fixes w :: "'a::len word"
  shows "unat (w AND NOT (mask n)) = unat w - unat w mod 2 ^ n"
proof -
  have "(w AND mask n) + (w AND NOT (mask n)) = (w AND mask n) OR (w AND NOT (mask n))"
    by (rule disjunctive_add) (auto simp: bit_simps)
  also have "\<dots> = w"
    by (rule bit_eqI) (auto simp: bit_simps)
  finally have "w AND NOT (mask n) = w - (w AND mask n)"
    by (simp add: algebra_simps)
  moreover have "unat (w AND mask n) = unat w mod 2 ^ n"
    by (simp only: take_bit_eq_mask [symmetric] unsigned_take_bit_eq) (simp add: take_bit_eq_mod)
  moreover have "(w AND mask n) \<le> w"
    by (rule word_and_le2)
  ultimately show ?thesis
    by (simp add: unat_sub)
qed

lemma RT_ALIGN_DOWN_unat: "unat (RT_ALIGN_DOWN w) = unat w - unat w mod 8"
  using and_not_mask_unat [of w 3] by (simp add: RT_ALIGN_DOWN_def mask_eq_exp_minus_1)

lemma RT_ALIGN_unat:
  assumes "unat w < 2 ^ 64 - 7"
  shows "unat (RT_ALIGN w) = (unat w + 7) - (unat w + 7) mod 8"
proof -
  have "unat (w + 7) = unat w + 7"
    using assms by (subst unat_add_lem [THEN iffD1]) auto
  then show ?thesis
    using and_not_mask_unat [of "w + 7" 3]
    by (simp add: RT_ALIGN_def mask_eq_exp_minus_1 add.commute)
qed

text \<open>The addition wraps: a size within 7 of \<open>2 ^ 64\<close> aligns to 0.\<close>

lemma RT_ALIGN_wraps: "RT_ALIGN (- 1) = 0"
  by (simp add: RT_ALIGN_def)

end
