(* ===== verification/RtList.thy ===== *)
theory RtList
  imports Prelude
begin

section \<open>Intrusive lists (\<open>include/rtservice.h\<close>)\<close>

text \<open>
  \<open>rt_list_t\<close> is a circular doubly linked list through nodes embedded in other structs.
  The heap is a pair of functions from node addresses to node addresses, one per field.
  \<open>ring h l xs\<close> says that the circle through the head \<open>l\<close> visits exactly \<open>xs\<close>, in order,
  by \<open>next\<close> and backwards by \<open>prev\<close>.  The operations are shown to act on \<open>xs\<close> as list
  operations; the kernel theories use those list operations for the thread and timer
  queues.  \<open>rt_slist_t\<close> is the singly linked list, ended by \<open>RT_NULL\<close> (address 0).
\<close>

type_synonym node = nat

record list_heap =
  nxt :: "node \<Rightarrow> node"
  prv :: "node \<Rightarrow> node"

definition rt_list_init :: "node \<Rightarrow> list_heap \<Rightarrow> list_heap" where
  "rt_list_init l h = h\<lparr>nxt := (nxt h)(l := l), prv := (prv h)(l := l)\<rparr>"

definition rt_list_insert_after :: "node \<Rightarrow> node \<Rightarrow> list_heap \<Rightarrow> list_heap" where
  "rt_list_insert_after l n h =
     (let h = h\<lparr>prv := (prv h)(nxt h l := n)\<rparr>;
          h = h\<lparr>nxt := (nxt h)(n := nxt h l)\<rparr>;
          h = h\<lparr>nxt := (nxt h)(l := n)\<rparr>
      in h\<lparr>prv := (prv h)(n := l)\<rparr>)"

definition rt_list_insert_before :: "node \<Rightarrow> node \<Rightarrow> list_heap \<Rightarrow> list_heap" where
  "rt_list_insert_before l n h =
     (let h = h\<lparr>nxt := (nxt h)(prv h l := n)\<rparr>;
          h = h\<lparr>prv := (prv h)(n := prv h l)\<rparr>;
          h = h\<lparr>prv := (prv h)(l := n)\<rparr>
      in h\<lparr>nxt := (nxt h)(n := l)\<rparr>)"

definition rt_list_remove :: "node \<Rightarrow> list_heap \<Rightarrow> list_heap" where
  "rt_list_remove n h =
     (let h = h\<lparr>prv := (prv h)(nxt h n := prv h n)\<rparr>;
          h = h\<lparr>nxt := (nxt h)(prv h n := nxt h n)\<rparr>
      in h\<lparr>nxt := (nxt h)(n := n), prv := (prv h)(n := n)\<rparr>)"

definition rt_list_isempty :: "node \<Rightarrow> list_heap \<Rightarrow> bool" where
  "rt_list_isempty l h \<longleftrightarrow> nxt h l = l"

text \<open>The loop of \<open>rt_list_len\<close> may not return on a broken circle: \<open>None\<close>.\<close>

partial_function (option) list_len_loop :: "list_heap \<Rightarrow> node \<Rightarrow> node \<Rightarrow> nat \<Rightarrow> nat option" where
  "list_len_loop h l p len =
     (if nxt h p \<noteq> l then list_len_loop h l (nxt h p) (Suc len) else Some len)"

definition rt_list_len :: "node \<Rightarrow> list_heap \<Rightarrow> nat option" where
  "rt_list_len l h = list_len_loop h l l 0"

subsection \<open>The abstraction: a circle of nodes\<close>

fun seg :: "list_heap \<Rightarrow> node \<Rightarrow> node list \<Rightarrow> node \<Rightarrow> bool" where
  "seg h a [] b \<longleftrightarrow> nxt h a = b \<and> prv h b = a"
| "seg h a (x # xs) b \<longleftrightarrow> nxt h a = x \<and> prv h x = a \<and> seg h x xs b"

definition ring :: "list_heap \<Rightarrow> node \<Rightarrow> node list \<Rightarrow> bool" where
  "ring h l xs \<longleftrightarrow> distinct (l # xs) \<and> seg h l xs l"

lemma seg_append [simp]:
  "seg h a (xs @ y # ys) b \<longleftrightarrow> seg h a xs y \<and> seg h y ys b"
  by (induction xs arbitrary: a) auto

lemma seg_last: "seg h a xs b \<Longrightarrow> prv h b = last (a # xs)"
  by (induction xs arbitrary: a) auto

lemma seg_first: "seg h a xs b \<Longrightarrow> nxt h a = hd (xs @ [b])"
  by (cases xs) auto

text \<open>A segment does not notice writes outside the fields it runs through.\<close>

lemma seg_frame:
  assumes "seg h a xs b"
    and "\<And>x. x \<in> set (a # xs) \<Longrightarrow> nxt h' x = nxt h x"
    and "\<And>x. x \<in> set (xs @ [b]) \<Longrightarrow> prv h' x = prv h x"
  shows "seg h' a xs b"
  using assms by (induction xs arbitrary: a) auto

text \<open>A circle touches only its own nodes: the update of other circles keeps it.\<close>

lemma ring_frame:
  assumes "ring h l xs"
    and "\<And>x. x \<in> set (l # xs) \<Longrightarrow> nxt h' x = nxt h x \<and> prv h' x = prv h x"
  shows "ring h' l xs"
  using assms unfolding ring_def by (auto intro: seg_frame)

lemma ring_init [intro]: "ring (rt_list_init l h) l []"
  by (simp add: ring_def rt_list_init_def)

lemma ring_isempty [simp]: "ring h l xs \<Longrightarrow> rt_list_isempty l h \<longleftrightarrow> xs = []"
  by (cases xs) (auto simp: ring_def rt_list_isempty_def)

lemma ring_next: "ring h l xs \<Longrightarrow> xs \<noteq> [] \<Longrightarrow> nxt h l = hd xs"
  by (cases xs) (auto simp: ring_def)

text \<open>The circle seen from another of its nodes.\<close>

lemma ring_rotate: "ring h l (xs @ y # ys) \<Longrightarrow> ring h y (ys @ l # xs)"
  by (auto simp: ring_def)

lemma insert_after_ring:
  assumes "ring h l xs" and "n \<notin> set (l # xs)"
  shows "ring (rt_list_insert_after l n h) l (n # xs)"
proof (cases xs)
  case Nil
  with assms show ?thesis
    by (auto simp: ring_def rt_list_insert_after_def Let_def)
next
  case (Cons x ys)
  with assms have "seg h x ys l" by (simp add: ring_def)
  then have "seg (rt_list_insert_after l n h) x ys l"
    by (rule seg_frame) (use assms Cons in \<open>auto simp: ring_def rt_list_insert_after_def Let_def\<close>)
  with assms Cons show ?thesis
    by (auto simp: ring_def rt_list_insert_after_def Let_def)
qed

text \<open>
  Inserting before a node is inserting after its predecessor, so the general case follows
  by rotating the circle.
\<close>

lemma insert_before_eq_after:
  assumes "seg h p [] l" and "n \<noteq> p" and "n \<noteq> l"
  shows "rt_list_insert_before l n h = rt_list_insert_after p n h"
  using assms by (auto simp: rt_list_insert_before_def rt_list_insert_after_def Let_def
      fun_upd_def fun_eq_iff)

lemma insert_after_any:
  assumes "ring h l (xs @ ys)" and "n \<notin> set (l # xs @ ys)"
  shows "ring (rt_list_insert_after (last (l # xs)) n h) l (xs @ n # ys)"
proof (cases xs rule: rev_cases)
  case Nil
  with assms show ?thesis by (simp add: insert_after_ring)
next
  case (snoc us u)
  with assms have "ring h u (ys @ l # us)" by (auto intro: ring_rotate)
  then have "ring (rt_list_insert_after u n h) u (n # ys @ l # us)"
    by (rule insert_after_ring) (use assms snoc in auto)
  then have "ring (rt_list_insert_after u n h) l (us @ u # n # ys)"
    using ring_rotate [of _ u "n # ys" l us] by simp
  with snoc show ?thesis by simp
qed

lemma insert_before_eq:
  assumes "ring h l (xs @ ys)" and "n \<notin> set (l # xs @ ys)"
  shows "rt_list_insert_before (hd (ys @ [l])) n h = rt_list_insert_after (last (l # xs)) n h"
proof (rule insert_before_eq_after)
  show "seg h (last (l # xs)) [] (hd (ys @ [l]))"
    using assms(1) by (cases xs rule: rev_cases; cases ys) (auto simp: ring_def)
  show "n \<noteq> last (l # xs)" "n \<noteq> hd (ys @ [l])"
    using assms(2) by (auto simp: hd_append split: if_splits)
qed

text \<open>Cutting a segment loose from its end and joining it to another node.\<close>

lemma seg_redirect:
  assumes "seg h a xs b" "distinct (a # xs)"
    and "\<And>x. x \<in> set (a # xs) \<Longrightarrow> x \<noteq> last (a # xs) \<Longrightarrow> nxt h' x = nxt h x"
    and "\<And>x. x \<in> set xs \<Longrightarrow> prv h' x = prv h x"
    and "nxt h' (last (a # xs)) = c" "prv h' c = last (a # xs)"
  shows "seg h' a xs c"
  using assms
proof (induction xs arbitrary: a)
  case (Cons x xs)
  have "a \<noteq> last (x # xs)"
    using Cons.prems(2) last_in_set [of "x # xs"] by (metis distinct.simps(2) list.distinct(1))
  then have "nxt h' a = x" "prv h' x = a"
    using Cons.prems(1) Cons.prems(3) [of a] Cons.prems(4) [of x] by auto
  moreover have "seg h' x xs c"
    by (rule Cons.IH) (use Cons.prems in auto)
  ultimately show ?case by simp
qed simp

lemma remove_ring:
  assumes "ring h l (xs @ n # ys)"
  shows "ring (rt_list_remove n h) l (xs @ ys) \<and> ring (rt_list_remove n h) n []"
proof -
  define p q where "p = last (l # xs)" and "q = hd (ys @ [l])"
  have dist: "distinct (l # xs @ n # ys)" and seg: "seg h l xs n" "seg h n ys l"
    using assms by (auto simp: ring_def)
  have prv: "prv h n = p" and nxt: "nxt h n = q"
    using seg by (simp_all add: p_def q_def seg_last seg_first)
  have p: "p \<in> set (l # xs)" and q: "q \<in> set (ys @ [l])"
    by (auto simp: p_def q_def hd_append)
  then have pq: "p \<noteq> n" "q \<noteq> n" using dist by auto
  let ?h = "rt_list_remove n h"
  have upd: "nxt ?h = (nxt h)(p := q, n := n)" "prv ?h = (prv h)(q := p, n := n)"
    using prv nxt pq by (auto simp: rt_list_remove_def Let_def fun_eq_iff)
  have "seg ?h l xs q"
    by (rule seg_redirect [OF seg(1)]) (use dist pq q in \<open>auto simp: upd p_def\<close>)
  moreover have "seg ?h q (tl ys) l" if "ys \<noteq> []"
    by (rule seg_frame [where h = h])
      (use seg(2) dist that p in \<open>(cases ys; auto simp: upd q_def)+\<close>)
  ultimately have "seg ?h l (xs @ ys) l"
    by (cases ys) (auto simp: q_def)
  with dist show ?thesis
    by (auto simp: ring_def upd)
qed

text \<open>Removing an unlinked node changes nothing.\<close>

lemma remove_unlinked: "ring h n [] \<Longrightarrow> rt_list_remove n h = h"
  by (cases h) (auto simp: ring_def rt_list_remove_def Let_def fun_eq_iff)

text \<open>The other circles of the heap are untouched.\<close>

lemma ring_boundary:
  assumes "ring h l xs"
  shows "nxt h l \<in> set (l # xs)" "prv h l \<in> set (l # xs)"
proof -
  have "seg h l xs l" using assms by (simp add: ring_def)
  from seg_first [OF this] seg_last [OF this] show "nxt h l \<in> set (l # xs)" "prv h l \<in> set (l # xs)"
    by (auto simp: hd_append)
qed

lemma insert_after_other:
  assumes "ring h l xs" "ring h m zs" "set (m # zs) \<inter> set (n # l # xs) = {}"
  shows "ring (rt_list_insert_after l n h) m zs"
  using assms(2)
  by (rule ring_frame)
    (use assms(3) ring_boundary [OF assms(1)] in \<open>auto simp: rt_list_insert_after_def Let_def\<close>)

lemma remove_other:
  assumes "ring h l (xs @ n # ys)" "ring h m zs" "set (m # zs) \<inter> set (l # xs @ n # ys) = {}"
  shows "ring (rt_list_remove n h) m zs"
proof -
  have "ring h n (ys @ l # xs)" using assms(1) by (rule ring_rotate)
  from ring_boundary [OF this] assms(2,3) show ?thesis
    by (intro ring_frame [OF assms(2)]) (auto simp: rt_list_remove_def Let_def)
qed

lemma insert_after_any_other:
  assumes "ring h l (xs @ ys)" "ring h m zs" "set (m # zs) \<inter> set (n # l # xs @ ys) = {}"
  shows "ring (rt_list_insert_after (last (l # xs)) n h) m zs"
proof (cases xs rule: rev_cases)
  case Nil
  with assms show ?thesis using insert_after_other [of h l ys m zs n] by simp
next
  case (snoc us u)
  with assms(1) have "ring h u (ys @ l # us)" by (auto intro: ring_rotate)
  from insert_after_other [OF this assms(2)] assms(3) snoc show ?thesis by auto
qed

lemma list_len_loop_seg:
  "seg h p xs l \<Longrightarrow> l \<notin> set xs \<Longrightarrow> list_len_loop h l p n = Some (n + length xs)"
  by (induction xs arbitrary: p n; subst list_len_loop.simps) auto

subsection \<open>The list operations refine insertion and deletion\<close>

text \<open>Fact: Inserting a fresh node before the first node of \<open>ys\<close> (or before the head, when
  \<open>ys\<close> is empty), or after the last node of \<open>xs\<close> (or after the head), gives the circle
  \<open>xs @ n # ys\<close>, and leaves every other circle of the heap as it was.\<close>

theorem rt_list_insert_refines:
  assumes "ring h l (xs @ ys)" and "n \<notin> set (l # xs @ ys)"
    and "ring h m zs" and "set (m # zs) \<inter> set (n # l # xs @ ys) = {}"
  shows "ring (rt_list_insert_before (hd (ys @ [l])) n h) l (xs @ n # ys) \<and>
    ring (rt_list_insert_after (last (l # xs)) n h) l (xs @ n # ys) \<and>
    ring (rt_list_insert_before (hd (ys @ [l])) n h) m zs \<and>
    ring (rt_list_insert_after (last (l # xs)) n h) m zs"
  using insert_before_eq [OF assms(1,2)] insert_after_any [OF assms(1,2)]
    insert_after_any_other [OF assms(1,3,4)]
  by simp_all

definition two_rings :: list_heap where
  "two_rings = rt_list_insert_before 10 11 (rt_list_init 20 (rt_list_init 10 \<lparr>nxt = id, prv = id\<rparr>))"

lemma two_rings: "ring two_rings 10 [11]" "ring two_rings 20 []" "ring two_rings 12 []"
  by (simp_all add: two_rings_def ring_def rt_list_insert_before_def rt_list_init_def Let_def)

theorem rt_list_insert_refines_witness:
  "ring (rt_list_insert_before 10 12 two_rings) 10 [11, 12] \<and>
   ring (rt_list_insert_after 10 12 two_rings) 10 [12, 11]"
  using rt_list_insert_refines [of two_rings 10 "[11]" "[]" 12 20 "[]"]
    rt_list_insert_refines [of two_rings 10 "[]" "[11]" 12 20 "[]"] two_rings
  by simp

text \<open>Fact: Removing a node gives the circle without it and a node that is a circle of its
  own (so removing it again changes nothing), keeps every other circle, and the length loop
  returns the number of nodes left.\<close>

theorem rt_list_remove_refines:
  assumes "ring h l (xs @ n # ys)" and "ring h m zs"
    and "set (m # zs) \<inter> set (l # xs @ n # ys) = {}"
  shows "ring (rt_list_remove n h) l (xs @ ys) \<and>
    rt_list_remove n (rt_list_remove n h) = rt_list_remove n h \<and>
    ring (rt_list_remove n h) m zs \<and>
    rt_list_len l (rt_list_remove n h) = Some (length (xs @ ys)) \<and>
    (rt_list_isempty l (rt_list_remove n h) \<longleftrightarrow> xs @ ys = [])"
proof (intro conjI)
  note r = remove_ring [OF assms(1)]
  then show "ring (rt_list_remove n h) l (xs @ ys)" ..
  then show "rt_list_len l (rt_list_remove n h) = Some (length (xs @ ys))"
    using list_len_loop_seg [of _ l "xs @ ys" l 0] by (simp add: ring_def rt_list_len_def)
  from r show "rt_list_isempty l (rt_list_remove n h) \<longleftrightarrow> xs @ ys = []"
    by (blast dest: ring_isempty)
  show "rt_list_remove n (rt_list_remove n h) = rt_list_remove n h"
    using r by (blast intro: remove_unlinked)
  show "ring (rt_list_remove n h) m zs"
    by (rule remove_other [OF assms])
qed

theorem rt_list_remove_refines_witness:
  "ring (rt_list_remove 11 two_rings) 10 [] \<and> rt_list_len 10 (rt_list_remove 11 two_rings) = Some 0"
  using rt_list_remove_refines [of two_rings 10 "[]" 11 "[]" 20 "[]"] two_rings by simp

subsection \<open>Singly linked lists\<close>

type_synonym slist_heap = "node \<Rightarrow> node"

abbreviation RT_NULL :: node where "RT_NULL \<equiv> 0"

definition rt_slist_init :: "node \<Rightarrow> slist_heap \<Rightarrow> slist_heap" where
  "rt_slist_init l h = h(l := RT_NULL)"

partial_function (option) rt_slist_tail :: "slist_heap \<Rightarrow> node \<Rightarrow> node option" where
  "rt_slist_tail h l = (if h l \<noteq> RT_NULL then rt_slist_tail h (h l) else Some l)"

definition rt_slist_append :: "node \<Rightarrow> node \<Rightarrow> slist_heap \<Rightarrow> slist_heap option" where
  "rt_slist_append l n h =
     do { node \<leftarrow> rt_slist_tail h l;
          Some (h(node := n, n := RT_NULL)) }"

definition rt_slist_insert :: "node \<Rightarrow> node \<Rightarrow> slist_heap \<Rightarrow> slist_heap" where
  "rt_slist_insert l n h = (let h = h(n := h l) in h(l := n))"

partial_function (option) slist_len_loop :: "slist_heap \<Rightarrow> node \<Rightarrow> nat \<Rightarrow> nat option" where
  "slist_len_loop h p len = (if p \<noteq> RT_NULL then slist_len_loop h (h p) (Suc len) else Some len)"

definition rt_slist_len :: "node \<Rightarrow> slist_heap \<Rightarrow> nat option" where
  "rt_slist_len l h = slist_len_loop h (h l) 0"

partial_function (option) slist_find_pred :: "slist_heap \<Rightarrow> node \<Rightarrow> node \<Rightarrow> node option" where
  "slist_find_pred h n p =
     (if h p \<noteq> RT_NULL \<and> h p \<noteq> n then slist_find_pred h n (h p) else Some p)"

definition rt_slist_remove :: "node \<Rightarrow> node \<Rightarrow> slist_heap \<Rightarrow> slist_heap option" where
  "rt_slist_remove l n h =
     do { node \<leftarrow> slist_find_pred h n l;
          Some (if h node \<noteq> RT_NULL then h(node := h (h node)) else h) }"

definition rt_slist_first :: "node \<Rightarrow> slist_heap \<Rightarrow> node" where
  "rt_slist_first l h = h l"

definition rt_slist_isempty :: "node \<Rightarrow> slist_heap \<Rightarrow> bool" where
  "rt_slist_isempty l h \<longleftrightarrow> h l = RT_NULL"

text \<open>
  \<open>lseg h a xs b\<close>: from \<open>a\<close> the links lead through the nodes \<open>xs\<close> to \<open>b\<close>; a list ends in
  \<open>RT_NULL\<close>.
\<close>

fun lseg :: "slist_heap \<Rightarrow> node \<Rightarrow> node list \<Rightarrow> node \<Rightarrow> bool" where
  "lseg h a [] b \<longleftrightarrow> h a = b"
| "lseg h a (x # xs) b \<longleftrightarrow> h a = x \<and> x \<noteq> RT_NULL \<and> lseg h x xs b"

definition slist :: "slist_heap \<Rightarrow> node \<Rightarrow> node list \<Rightarrow> bool" where
  "slist h l xs \<longleftrightarrow> distinct (l # xs) \<and> lseg h l xs RT_NULL"

lemma lseg_append [simp]:
  "lseg h a (xs @ y # ys) b \<longleftrightarrow> lseg h a xs y \<and> y \<noteq> RT_NULL \<and> lseg h y ys b"
  by (induction xs arbitrary: a) auto

lemma lseg_frame:
  "lseg h a xs b \<Longrightarrow> (\<And>x. x \<in> set (a # xs) \<Longrightarrow> h' x = h x) \<Longrightarrow> lseg h' a xs b"
  by (induction xs arbitrary: a) auto

lemma lseg_last: "lseg h a xs b \<Longrightarrow> h (last (a # xs)) = b"
  by (induction xs arbitrary: a) auto

lemma lseg_redirect:
  "lseg h a xs b \<Longrightarrow> distinct (a # xs) \<Longrightarrow> h' (last (a # xs)) = c \<Longrightarrow>
   (\<And>x. x \<in> set (a # xs) \<Longrightarrow> x \<noteq> last (a # xs) \<Longrightarrow> h' x = h x) \<Longrightarrow> lseg h' a xs c"
proof (induction xs arbitrary: a)
  case (Cons x xs)
  have "a \<noteq> last (x # xs)"
    using Cons.prems(2) last_in_set [of "x # xs"] by (metis distinct.simps(2) list.distinct(1))
  then have "h' a = x" using Cons.prems(1) Cons.prems(4) [of a] by auto
  moreover have "lseg h' x xs c"
    by (rule Cons.IH) (use Cons.prems in auto)
  ultimately show ?case using Cons.prems(1) by simp
qed simp

lemma slist_tail_lseg: "lseg h a xs RT_NULL \<Longrightarrow> rt_slist_tail h a = Some (last (a # xs))"
  by (induction xs arbitrary: a; subst rt_slist_tail.simps) auto

lemma slist_len_lseg: "lseg h a xs RT_NULL \<Longrightarrow> slist_len_loop h (h a) n = Some (n + length xs)"
  by (induction xs arbitrary: a n; subst slist_len_loop.simps) auto

lemma slist_find_pred_lseg:
  "lseg h a xs n \<Longrightarrow> n \<notin> set xs \<Longrightarrow> slist_find_pred h n a = Some (last (a # xs))"
  by (induction xs arbitrary: a; subst slist_find_pred.simps) auto

lemma slist_find_pred_absent:
  "lseg h a xs RT_NULL \<Longrightarrow> n \<notin> set xs \<Longrightarrow> slist_find_pred h n a = Some (last (a # xs))"
  by (induction xs arbitrary: a; subst slist_find_pred.simps) auto

lemma last_distinct_neq: "distinct (xs @ n # ys) \<Longrightarrow> xs \<noteq> [] \<Longrightarrow> last xs \<noteq> n"
  using last_in_set [of xs] by auto

lemma slist_remove_lseg:
  assumes "slist h l (xs @ n # ys)"
  shows "slist (h(last (l # xs) := h n)) l (xs @ ys)"
proof -
  have seg: "lseg h l xs n" "lseg h n ys RT_NULL" and dist: "distinct (l # xs @ n # ys)"
    using assms by (auto simp: slist_def)
  let ?h = "h(last (l # xs) := h n)"
  have "lseg ?h l xs (h n)"
    by (rule lseg_redirect [OF seg(1)]) (use dist in auto)
  moreover have "last (l # xs) \<notin> set ys"
    using dist last_in_set [of "l # xs"] by (auto simp del: last.simps)
  then have "lseg ?h y zs RT_NULL" if "ys = y # zs" for y zs
    using that seg(2) by (auto simp del: last.simps intro: lseg_frame [where h = h])
  ultimately have "lseg ?h l (xs @ ys) RT_NULL"
    using seg(2) by (cases ys) (auto simp del: last.simps)
  with dist show ?thesis by (simp add: slist_def)
qed

lemma slist_insert_lseg:
  assumes "slist h l xs" "a \<noteq> RT_NULL" "a \<notin> set (l # xs)"
  shows "slist (rt_slist_insert l a h) l (a # xs)"
proof -
  let ?h = "rt_slist_insert l a h"
  have "lseg ?h x zs RT_NULL" if "xs = x # zs" for x zs
    by (rule lseg_frame [where h = h])
      (use that assms in \<open>auto simp: slist_def rt_slist_insert_def Let_def\<close>)
  with assms show ?thesis
    by (cases xs) (auto simp: slist_def rt_slist_insert_def Let_def)
qed

text \<open>Fact: On a list of distinct nodes, append adds a node at the end, insert at the front,
  remove takes a node out wherever it stands (and nothing when it is absent), and the length
  loop counts the nodes.  All the loops return.\<close>

theorem rt_slist_refines:
  assumes "slist h l (xs @ n # ys)" and "a \<noteq> RT_NULL" and "a \<notin> set (l # xs @ n # ys)"
  shows "(\<exists>h'. rt_slist_append l a h = Some h' \<and> slist h' l (xs @ n # ys @ [a])) \<and>
    slist (rt_slist_insert l a h) l (a # xs @ n # ys) \<and>
    (\<exists>h'. rt_slist_remove l n h = Some h' \<and> slist h' l (xs @ ys)) \<and>
    rt_slist_remove l a h = Some h \<and>
    rt_slist_len l h = Some (length (xs @ n # ys))"
proof (intro conjI)
  let ?xs = "xs @ n # ys"
  have seg: "lseg h l ?xs RT_NULL" and dist: "distinct (l # ?xs)"
    using assms(1) by (simp_all add: slist_def)
  have tail: "rt_slist_tail h l = Some (last (l # ?xs))"
    using seg by (rule slist_tail_lseg)
  have "lseg (h(last (l # ?xs) := a, a := RT_NULL)) l ?xs a"
    by (rule lseg_redirect [OF seg dist])
      (use assms(3) last_in_set [of "l # ?xs"] in \<open>auto simp del: last.simps\<close>)
  then show "\<exists>h'. rt_slist_append l a h = Some h' \<and> slist h' l (xs @ n # ys @ [a])"
    using tail dist assms(2,3) lseg_append [of _ l ?xs a "[]"]
    by (simp add: rt_slist_append_def slist_def del: last.simps lseg_append)
  show "slist (rt_slist_insert l a h) l (a # ?xs)"
    using assms by (intro slist_insert_lseg)
  have pred: "slist_find_pred h n l = Some (last (l # xs))"
    by (rule slist_find_pred_lseg) (use seg dist in auto)
  have "lseg h l xs n" "n \<noteq> RT_NULL" using seg by auto
  then have "h (last (l # xs)) = n"
    by (simp only: lseg_last)
  then show "\<exists>h'. rt_slist_remove l n h = Some h' \<and> slist h' l (xs @ ys)"
    using pred slist_remove_lseg [OF assms(1)] \<open>n \<noteq> RT_NULL\<close>
    by (simp add: rt_slist_remove_def del: last.simps)
  have "h (last (l # ?xs)) = RT_NULL"
    using seg by (rule lseg_last)
  moreover have "slist_find_pred h a l = Some (last (l # ?xs))"
    by (rule slist_find_pred_absent [OF seg]) (use assms(3) in auto)
  ultimately show "rt_slist_remove l a h = Some h"
    by (simp add: rt_slist_remove_def del: last.simps)
  show "rt_slist_len l h = Some (length ?xs)"
    using slist_len_lseg [OF seg, of 0] by (simp add: rt_slist_len_def)
qed

theorem rt_slist_refines_witness:
  "\<exists>h'. rt_slist_remove 1 3 ((rt_slist_init 1 (\<lambda>_. 0))(1 := 2, 2 := 3)) = Some h' \<and> slist h' 1 [2]"
  using rt_slist_refines [of "(rt_slist_init 1 (\<lambda>_. 0))(1 := 2, 2 := 3)" 1 "[2]" 3 "[]" 9]
  by (simp add: slist_def rt_slist_init_def)

end
