(* ===== verification/Fifo.thy ===== *)
theory Fifo
  imports Prelude
begin

section \<open>Bounded queues: the interface and circular buffers\<close>

text \<open>
  Four components of the code promise the same thing, a bounded first-in-first-out queue:
  the byte ring buffer, the mailbox, the message queue and the data queue.  The locale
  \<open>bounded_fifo\<close> states that contract over an abstraction function and an invariant; what
  follows from it for any sequence of operations is proved once, inside the locale.  The
  component theories interpret it on their own operations.  The second half holds the lemmas
  on reading a circular buffer as a list, which the array-based providers share.
\<close>

subsection \<open>Running a sequence of queue operations\<close>

datatype 'a qop = Enq 'a | Deq

text \<open>What an operation answers: whether the element was accepted, or the element delivered.\<close>

datatype 'a qres = Accepted bool | Delivered "'a option"

text \<open>
  A run collects the answers.  The state of an operation is the one the code leaves behind,
  also when it refuses; an operation that fails (a violated assertion, an error other than a
  refusal, a call that blocks) ends the run with \<open>None\<close>.
\<close>

fun run_ops ::
  "('a \<Rightarrow> 's \<Rightarrow> (bool \<times> 's) option) \<Rightarrow> ('s \<Rightarrow> ('a option \<times> 's) option) \<Rightarrow> 'a qop list \<Rightarrow> 's \<Rightarrow>
   ('a qres list \<times> 's) option"
where
  "run_ops enq deq [] s = Some ([], s)"
| "run_ops enq deq (Enq x # ops) s =
     (case enq x s of
        None \<Rightarrow> None
      | Some (b, s') \<Rightarrow> map_option (apfst ((#) (Accepted b))) (run_ops enq deq ops s'))"
| "run_ops enq deq (Deq # ops) s =
     (case deq s of
        None \<Rightarrow> None
      | Some (y, s') \<Rightarrow> map_option (apfst ((#) (Delivered y))) (run_ops enq deq ops s'))"

fun accepted :: "'a qop list \<Rightarrow> 'a qres list \<Rightarrow> 'a list" where
  "accepted (Enq x # ops) (Accepted b # rs) = (if b then x # accepted ops rs else accepted ops rs)"
| "accepted (_ # ops) (_ # rs) = accepted ops rs"
| "accepted _ _ = []"

fun delivered :: "'a qres list \<Rightarrow> 'a list" where
  "delivered [] = []"
| "delivered (Delivered (Some y) # rs) = y # delivered rs"
| "delivered (_ # rs) = delivered rs"

text \<open>The specification: a list of at most \<open>n\<close> elements.\<close>

definition spec_enq :: "nat \<Rightarrow> 'a \<Rightarrow> 'a list \<Rightarrow> (bool \<times> 'a list) option" where
  "spec_enq n x q = Some (if length q < n then (True, q @ [x]) else (False, q))"

definition spec_deq :: "'a list \<Rightarrow> ('a option \<times> 'a list) option" where
  "spec_deq q = Some (case q of [] \<Rightarrow> (None, []) | y # ys \<Rightarrow> (Some y, ys))"

locale bounded_fifo =
  fixes inv :: "'s \<Rightarrow> bool"
    and abs :: "'s \<Rightarrow> 'a list"
    and cap :: "'s \<Rightarrow> nat"
    and enq :: "'a \<Rightarrow> 's \<Rightarrow> (bool \<times> 's) option"
    and deq :: "'s \<Rightarrow> ('a option \<times> 's) option"
  assumes enq_ok: "inv s \<Longrightarrow> length (abs s) < cap s \<Longrightarrow>
      \<exists>s'. enq x s = Some (True, s') \<and> inv s' \<and> abs s' = abs s @ [x] \<and> cap s' = cap s"
    and enq_full: "inv s \<Longrightarrow> cap s \<le> length (abs s) \<Longrightarrow> enq x s = Some (False, s)"
    and deq_ok: "inv s \<Longrightarrow> abs s = y # ys \<Longrightarrow>
      \<exists>s'. deq s = Some (Some y, s') \<and> inv s' \<and> abs s' = ys \<and> cap s' = cap s"
    and deq_empty: "inv s \<Longrightarrow> abs s = [] \<Longrightarrow> deq s = Some (None, s)"
begin

lemma enq_refines:
  assumes "inv s"
  obtains b s' where "enq x s = Some (b, s')" "spec_enq (cap s) x (abs s) = Some (b, abs s')"
    "inv s'" "cap s' = cap s" "b \<or> s' = s" "abs s' = abs s @ (if b then [x] else [])"
proof (cases "length (abs s) < cap s")
  case True
  then obtain s' where "enq x s = Some (True, s')" "inv s'" "abs s' = abs s @ [x]" "cap s' = cap s"
    using enq_ok [OF assms] by blast
  with True show thesis by (intro that [of True s']) (simp_all add: spec_enq_def)
next
  case False
  with enq_full [OF assms, of x] assms show thesis by (intro that [of False s]) (simp_all add: spec_enq_def)
qed

lemma deq_refines:
  assumes "inv s"
  obtains r s' where "deq s = Some (r, s')" "spec_deq (abs s) = Some (r, abs s')"
    "inv s'" "cap s' = cap s" "r = None \<longrightarrow> s' = s" "abs s = (case r of None \<Rightarrow> [] | Some y \<Rightarrow> [y]) @ abs s'"
proof (cases "abs s")
  case Nil
  with deq_empty [OF assms] assms show thesis by (intro that [of None s]) (simp_all add: spec_deq_def)
next
  case (Cons y ys)
  then obtain s' where "deq s = Some (Some y, s')" "inv s'" "abs s' = ys" "cap s' = cap s"
    using deq_ok [OF assms] by blast
  with Cons show thesis by (intro that [of "Some y" s']) (simp_all add: spec_deq_def)
qed

text \<open>
  Any run completes, answers what the list specification answers, and is first in, first
  out: what was in the queue followed by what the run accepted is what the run delivered
  followed by what is left.
\<close>

lemma run_refines:
  "inv s \<Longrightarrow> \<exists>rs t. run_ops enq deq ops s = Some (rs, t) \<and>
     run_ops (spec_enq (cap s)) spec_deq ops (abs s) = Some (rs, abs t) \<and> inv t \<and> cap t = cap s \<and>
     abs s @ accepted ops rs = delivered rs @ abs t"
proof (induction ops arbitrary: s)
  case (Cons op ops)
  show ?case
  proof (cases op)
    case (Enq x)
    obtain b s' where e: "enq x s = Some (b, s')" "spec_enq (cap s) x (abs s) = Some (b, abs s')"
      "inv s'" "cap s' = cap s" "abs s' = abs s @ (if b then [x] else [])"
      by (rule enq_refines [OF Cons.prems, of x])
    from Cons.IH [OF e(3)] show ?thesis using Enq e by (cases b) auto
  next
    case Deq
    obtain r s' where d: "deq s = Some (r, s')" "spec_deq (abs s) = Some (r, abs s')"
      "inv s'" "cap s' = cap s" "abs s = (case r of None \<Rightarrow> [] | Some y \<Rightarrow> [y]) @ abs s'"
      by (rule deq_refines [OF Cons.prems])
    from Cons.IH [OF d(3)] show ?thesis using Deq d by (cases r) (auto split: option.splits)
  qed
qed simp

end

subsection \<open>Reading a circular buffer\<close>

text \<open>The \<open>len\<close> elements of the first \<open>n\<close> cells of \<open>buf\<close>, from cell \<open>r\<close> on, cyclically.\<close>

definition circ :: "'a list \<Rightarrow> nat \<Rightarrow> nat \<Rightarrow> nat \<Rightarrow> 'a list" where
  "circ buf n r len = map (\<lambda>i. buf ! ((r + i) mod n)) [0..<len]"

lemma length_circ [simp]: "length (circ buf n r len) = len"
  by (simp add: circ_def)

lemma nth_circ [simp]: "i < len \<Longrightarrow> circ buf n r len ! i = buf ! ((r + i) mod n)"
  by (simp add: circ_def)

lemma circ_0 [simp]: "circ buf n r 0 = []"
  by (simp add: circ_def)

lemma mod_add_inj:
  fixes r i j n :: nat
  assumes "i < n" "j < n" "(r + i) mod n = (r + j) mod n"
  shows "i = j"
proof -
  have "i = j" if "i \<le> j" "j < n" "(r + j) mod n = (r + i) mod n" for i j :: nat
  proof -
    have "n dvd (r + j) - (r + i)"
      using that by (subst (asm) mod_eq_dvd_iff_nat) auto
    then have "n dvd j - i" by simp
    with that(1,2) show ?thesis by (auto dest: dvd_imp_le)
  qed
  with assms show ?thesis by (metis nat_le_linear)
qed

lemma circ_cong:
  "(\<And>i. i < len \<Longrightarrow> buf' ! ((r + i) mod n) = buf ! ((r + i) mod n)) \<Longrightarrow>
   circ buf' n r len = circ buf n r len"
  by (simp add: circ_def)

lemma circ_append:
  assumes "\<And>i. i < len \<Longrightarrow> buf' ! ((r + i) mod n) = buf ! ((r + i) mod n)"
    and "\<And>j. j < k \<Longrightarrow> buf' ! ((r + len + j) mod n) = p ! j" and "k \<le> length p"
  shows "circ buf' n r (len + k) = circ buf n r len @ take k p"
proof (rule nth_equalityI)
  fix i assume "i < length (circ buf' n r (len + k))"
  then show "circ buf' n r (len + k) ! i = (circ buf n r len @ take k p) ! i"
    using assms(1) [of i] assms(2) [of "i - len"] assms(3)
    by (cases "i < len") (auto simp: nth_append)
qed (use assms(3) in simp)

lemma circ_snoc:
  assumes "len < n" "n \<le> length buf"
  shows "circ (buf[(r + len) mod n := x]) n r (Suc len) = circ buf n r len @ [x]"
proof -
  have "(r + len) mod n \<noteq> (r + i) mod n" if "i < len" for i
    using mod_add_inj [of i n len r] that assms(1) by auto
  then show ?thesis
    using circ_append [of len "buf[(r + len) mod n := x]" r n buf 1 "[x]"] assms
    by (simp add: less_le_trans [OF mod_less_divisor])
qed

lemma circ_Suc: "r < n \<Longrightarrow> circ buf n r (Suc len) = buf ! r # circ buf n ((r + 1) mod n) len"
  by (rule nth_equalityI) (auto simp: nth_Cons mod_add_left_eq split: nat.splits)

lemma circ_cons:
  assumes "len < n" "n \<le> length buf" "r' < n"
  shows "circ (buf[r' := x]) n r' (Suc len) = x # circ buf n ((r' + 1) mod n) len"
proof -
  have "r' \<noteq> (r' + 1 + i) mod n" if "i < len" for i
    using mod_add_inj [of "Suc i" n 0 r'] that assms by auto
  then have "circ (buf[r' := x]) n ((r' + 1) mod n) len = circ buf n ((r' + 1) mod n) len"
    by (intro circ_cong) (simp add: mod_add_left_eq)
  with assms show ?thesis by (simp add: circ_Suc)
qed

lemma circ_take: "k \<le> len \<Longrightarrow> take k (circ buf n r len) = circ buf n r k"
  by (rule nth_equalityI) auto

lemma circ_drop: "k \<le> len \<Longrightarrow> drop k (circ buf n r len) = circ buf n ((r + k) mod n) (len - k)"
  by (rule nth_equalityI) (auto simp: mod_add_left_eq add.assoc)

lemma circ_mod [simp]: "circ buf n (r mod n) len = circ buf n r len"
  by (simp add: circ_def mod_add_left_eq)

text \<open>A read that stays below the end, or that wraps once, is one or two \<open>memcpy\<close>s.\<close>

lemma circ_straight: "r + k \<le> n \<Longrightarrow> n \<le> length buf \<Longrightarrow> circ buf n r k = take k (drop r buf)"
  by (rule nth_equalityI) auto

lemma circ_wrap:
  assumes "r \<le> n" "n < r + k" "k \<le> n" "n \<le> length buf"
  shows "circ buf n r k = take (n - r) (drop r buf) @ take (k - (n - r)) buf"
proof (rule nth_equalityI)
  fix i assume "i < length (circ buf n r k)"
  with assms show "circ buf n r k ! i = (take (n - r) (drop r buf) @ take (k - (n - r)) buf) ! i"
    by (cases "r + i < n") (auto simp: nth_append mod_if add.commute)
qed (use assms in auto)

text \<open>\<open>memcpy\<close> into a buffer.\<close>

definition memcpy_to :: "'a list \<Rightarrow> nat \<Rightarrow> 'a list \<Rightarrow> 'a list" where
  "memcpy_to buf off src = take off buf @ src @ drop (off + length src) buf"

lemma length_memcpy_to [simp]:
  "off + length src \<le> length buf \<Longrightarrow> length (memcpy_to buf off src) = length buf"
  by (simp add: memcpy_to_def)

lemma nth_memcpy_to:
  "off + length src \<le> length buf \<Longrightarrow> i < length buf \<Longrightarrow>
   memcpy_to buf off src ! i = (if off \<le> i \<and> i < off + length src then src ! (i - off) else buf ! i)"
  by (auto simp: memcpy_to_def nth_append)

lemma memcpy_wrap:
  assumes "w < n" "k \<le> n" "k \<le> length p" "n \<le> length b" "n \<le> w + k"
  defines "b' \<equiv> memcpy_to (memcpy_to b w (take (n - w) p)) 0 (take (w + k - n) (drop (n - w) p))"
  shows memcpy_wrap_length: "length b' = length b"
    and memcpy_wrap_nth: "i < n \<Longrightarrow>
         b' ! i = (if w \<le> i then p ! (i - w) else if i + n < w + k then p ! (i + n - w) else b ! i)"
proof -
  define b1 where "b1 = memcpy_to b w (take (n - w) p)"
  have l1: "length (take (n - w) p) = n - w" and l2: "length (take (w + k - n) (drop (n - w) p)) = w + k - n"
    using assms by auto
  have b1: "length b1 = length b" using assms l1 by (simp add: b1_def)
  have b1n: "b1 ! i = (if w \<le> i \<and> i < n then p ! (i - w) else b ! i)" if "i < length b" for i
    unfolding b1_def using assms that l1 by (subst nth_memcpy_to) auto
  show "length b' = length b"
    unfolding b'_def b1_def [symmetric] using b1 l2 assms by (subst length_memcpy_to) auto
  show "b' ! i = (if w \<le> i then p ! (i - w) else if i + n < w + k then p ! (i + n - w) else b ! i)"
    if "i < n"
    unfolding b'_def b1_def [symmetric] using b1 l2 assms that b1n [of i]
    by (subst nth_memcpy_to) (auto simp: add.commute intro: arg_cong [where f = "(!) p"])
qed

end
