(* ===== verification/RingBuffer.thy ===== *)
theory RingBuffer
  imports Fifo
begin

section \<open>The byte ring buffer (\<open>components/drivers/src/ringbuffer.c\<close>)\<close>

text \<open>
  \<open>struct rt_ringbuffer\<close> keeps two 15-bit indices, each with a mirror bit, into a pool of
  \<open>buffer_size\<close> bytes.  Equal indices with equal mirrors mean empty, with different mirrors
  full.  Sizes are computed as the C code computes them: \<open>buffer_size - index\<close> in \<open>int\<close>,
  lengths in \<open>rt_uint16_t\<close>, \<open>data_len\<close> in \<open>rt_size_t\<close>; a mirror is one bit, so \<open>~\<close> is \<open>\<not>\<close>.
  \<open>rt_malloc\<close> is an argument of \<open>rt_ringbuffer_create\<close> (the pool it returned).
\<close>

record rt_ringbuffer =
  rb_buffer :: "u8 list"
  rb_read_mirror :: bool
  rb_read_index :: "15 word"
  rb_write_mirror :: bool
  rb_write_index :: "15 word"
  rb_buffer_size :: "16 word"

datatype rb_state = RT_RINGBUFFER_EMPTY | RT_RINGBUFFER_FULL | RT_RINGBUFFER_HALFFULL

definition rt_ringbuffer_status :: "rt_ringbuffer \<Rightarrow> rb_state" where
  "rt_ringbuffer_status rb =
     (if rb_read_index rb = rb_write_index rb
      then if rb_read_mirror rb = rb_write_mirror rb then RT_RINGBUFFER_EMPTY
           else RT_RINGBUFFER_FULL
      else RT_RINGBUFFER_HALFFULL)"

definition rt_ringbuffer_init :: "u8 list \<Rightarrow> 16 word \<Rightarrow> rt_ringbuffer option" where
  "rt_ringbuffer_init pool sz =
     do { rt_assert (0 < sint sz);
          Some \<lparr>rb_buffer = pool, rb_read_mirror = False, rb_read_index = 0,
                rb_write_mirror = False, rb_write_index = 0,
                rb_buffer_size = sz AND NOT (8 - 1)\<rparr> }"

definition rt_ringbuffer_data_len :: "rt_ringbuffer \<Rightarrow> u64" where
  "rt_ringbuffer_data_len rb =
     (case rt_ringbuffer_status rb of
        RT_RINGBUFFER_EMPTY \<Rightarrow> 0
      | RT_RINGBUFFER_FULL \<Rightarrow> scast (rb_buffer_size rb)
      | RT_RINGBUFFER_HALFFULL \<Rightarrow>
          (let wi = ucast (rb_write_index rb); ri = ucast (rb_read_index rb)
           in if ri < wi then wi - ri else scast (rb_buffer_size rb) - (ri - wi)))"

definition rt_ringbuffer_space_len :: "rt_ringbuffer \<Rightarrow> u64" where
  "rt_ringbuffer_space_len rb = scast (rb_buffer_size rb) - rt_ringbuffer_data_len rb"

definition rt_ringbuffer_get_size :: "rt_ringbuffer \<Rightarrow> u16" where
  "rt_ringbuffer_get_size rb = rb_buffer_size rb"

text \<open>\<open>buffer_size - write_index\<close> and \<open>buffer_size - read_index\<close>, in \<open>int\<close>.\<close>

abbreviation write_room :: "rt_ringbuffer \<Rightarrow> int" where
  "write_room rb \<equiv> sint (rb_buffer_size rb) - uint (rb_write_index rb)"

abbreviation read_room :: "rt_ringbuffer \<Rightarrow> int" where
  "read_room rb \<equiv> sint (rb_buffer_size rb) - uint (rb_read_index rb)"

text \<open>The common tail of \<open>put\<close> and \<open>put_force\<close>: the copy, and the new write index.\<close>

definition rb_copy_in :: "u8 list \<Rightarrow> u16 \<Rightarrow> rt_ringbuffer \<Rightarrow> rt_ringbuffer" where
  "rb_copy_in p len rb =
     (if uint len < write_room rb
      then rb\<lparr>rb_buffer := memcpy_to (rb_buffer rb) (unat (rb_write_index rb)) (take (unat len) p),
              rb_write_index := rb_write_index rb + ucast len\<rparr>
      else let n1 = nat (write_room rb);
               n2 = nat (uint len - write_room rb);
               buf = memcpy_to (rb_buffer rb) (unat (rb_write_index rb)) (take n1 p)
           in rb\<lparr>rb_buffer := memcpy_to buf 0 (take n2 (drop n1 p)),
                 rb_write_mirror := \<not> rb_write_mirror rb,
                 rb_write_index := word_of_int (uint len - write_room rb)\<rparr>)"

definition rt_ringbuffer_put :: "u8 list \<Rightarrow> u16 \<Rightarrow> rt_ringbuffer \<Rightarrow> u16 \<times> rt_ringbuffer" where
  "rt_ringbuffer_put p len rb =
     (let sz = ucast (rt_ringbuffer_space_len rb) :: u16
      in if sz = 0 then (0, rb)
         else let len = (if sz < len then sz else len) in (len, rb_copy_in p len rb))"

definition rt_ringbuffer_put_force ::
    "u8 list \<Rightarrow> u16 \<Rightarrow> rt_ringbuffer \<Rightarrow> u16 \<times> rt_ringbuffer" where
  "rt_ringbuffer_put_force p len rb =
     (let space_length = ucast (rt_ringbuffer_space_len rb) :: u16;
          over = sint (rb_buffer_size rb) < uint len;
          p = (if over then drop (nat (uint len - sint (rb_buffer_size rb))) p else p);
          len = (if over then rb_buffer_size rb else len);
          rb' = rb_copy_in p len rb
      in (len,
          if uint len < write_room rb
          then if space_length < len then rb'\<lparr>rb_read_index := rb_write_index rb'\<rparr> else rb'
          else if space_length < len
               then rb'\<lparr>rb_read_mirror := (if rb_write_index rb' \<le> rb_read_index rb
                                          then \<not> rb_read_mirror rb else rb_read_mirror rb),
                       rb_read_index := rb_write_index rb'\<rparr>
               else rb'))"

definition rt_ringbuffer_get :: "u16 \<Rightarrow> rt_ringbuffer \<Rightarrow> u8 list \<times> rt_ringbuffer" where
  "rt_ringbuffer_get len rb =
     (let sz = rt_ringbuffer_data_len rb
      in if sz = 0 then ([], rb)
         else let len = (if sz < ucast len then ucast sz else len)
              in if uint len < read_room rb
                 then (take (unat len) (drop (unat (rb_read_index rb)) (rb_buffer rb)),
                       rb\<lparr>rb_read_index := rb_read_index rb + ucast len\<rparr>)
                 else (take (nat (read_room rb)) (drop (unat (rb_read_index rb)) (rb_buffer rb)) @
                       take (nat (uint len - read_room rb)) (rb_buffer rb),
                       rb\<lparr>rb_read_mirror := \<not> rb_read_mirror rb,
                          rb_read_index := word_of_int (uint len - read_room rb)\<rparr>))"

text \<open>\<open>peak\<close> returns the address of the first byte (an offset into the pool) and a size.\<close>

definition rt_ringbuffer_peak :: "rt_ringbuffer \<Rightarrow> (nat \<times> u64) option \<times> rt_ringbuffer" where
  "rt_ringbuffer_peak rb =
     (let sz = rt_ringbuffer_data_len rb
      in if sz = 0 then (None, rb)
         else if sz < word_of_int (read_room rb)
         then (Some (unat (rb_read_index rb), sz), rb\<lparr>rb_read_index := rb_read_index rb + ucast sz\<rparr>)
         else (Some (unat (rb_read_index rb), word_of_int (read_room rb)),
               rb\<lparr>rb_read_mirror := \<not> rb_read_mirror rb, rb_read_index := 0\<rparr>))"

definition rb_step_write :: "rt_ringbuffer \<Rightarrow> rt_ringbuffer" where
  "rb_step_write rb =
     (if uint (rb_write_index rb) = sint (rb_buffer_size rb) - 1
      then rb\<lparr>rb_write_mirror := \<not> rb_write_mirror rb, rb_write_index := 0\<rparr>
      else rb\<lparr>rb_write_index := rb_write_index rb + 1\<rparr>)"

definition rt_ringbuffer_putchar :: "u8 \<Rightarrow> rt_ringbuffer \<Rightarrow> u64 \<times> rt_ringbuffer" where
  "rt_ringbuffer_putchar ch rb =
     (if rt_ringbuffer_space_len rb = 0 then (0, rb)
      else (1, rb_step_write (rb\<lparr>rb_buffer := (rb_buffer rb)[unat (rb_write_index rb) := ch]\<rparr>)))"

definition rt_ringbuffer_putchar_force :: "u8 \<Rightarrow> rt_ringbuffer \<Rightarrow> u64 \<times> rt_ringbuffer" where
  "rt_ringbuffer_putchar_force ch rb =
     (let old_state = rt_ringbuffer_status rb;
          rb1 = rb\<lparr>rb_buffer := (rb_buffer rb)[unat (rb_write_index rb) := ch]\<rparr>;
          rb2 = rb_step_write rb1
      in (1, if old_state = RT_RINGBUFFER_FULL
             then if uint (rb_write_index rb) = sint (rb_buffer_size rb) - 1
                  then rb2\<lparr>rb_read_mirror := \<not> rb_read_mirror rb2, rb_read_index := rb_write_index rb2\<rparr>
                  else rb2\<lparr>rb_read_index := rb_write_index rb2\<rparr>
             else rb2))"

definition rt_ringbuffer_getchar :: "rt_ringbuffer \<Rightarrow> (u64 \<times> u8 option) \<times> rt_ringbuffer" where
  "rt_ringbuffer_getchar rb =
     (if rt_ringbuffer_data_len rb = 0 then ((0, None), rb)
      else ((1, Some (rb_buffer rb ! unat (rb_read_index rb))),
            if uint (rb_read_index rb) = sint (rb_buffer_size rb) - 1
            then rb\<lparr>rb_read_mirror := \<not> rb_read_mirror rb, rb_read_index := 0\<rparr>
            else rb\<lparr>rb_read_index := rb_read_index rb + 1\<rparr>))"

definition rt_ringbuffer_reset :: "rt_ringbuffer \<Rightarrow> rt_ringbuffer" where
  "rt_ringbuffer_reset rb =
     rb\<lparr>rb_read_mirror := False, rb_read_index := 0, rb_write_mirror := False, rb_write_index := 0\<rparr>"

text \<open>
  \<open>rt_ringbuffer_create\<close>: \<open>heap\<close> is the result of its two calls of \<open>rt_malloc\<close> (the control
  block, then the pool); \<open>None\<close> inside is the \<open>RT_NULL\<close> it returns.
\<close>

definition rt_ringbuffer_create ::
    "bool \<Rightarrow> u8 list option \<Rightarrow> u16 \<Rightarrow> rt_ringbuffer option option" where
  "rt_ringbuffer_create got_rb pool sz =
     do { rt_assert (0 < sz);
          let sz = sz AND NOT (8 - 1);
          (case (got_rb, pool) of
             (True, Some p) \<Rightarrow> map_option Some (rt_ringbuffer_init p sz)
           | _ \<Rightarrow> Some None) }"


subsection \<open>What the ring buffer holds\<close>

text \<open>
  \<open>rb_abs\<close> is the list of bytes a reader would get; \<open>rb_inv\<close> ties indices and mirrors to
  the number of bytes held.  Sizes fit in 15 bits because \<open>buffer_size\<close> is a positive
  \<open>rt_int16_t\<close>.
\<close>

lemma sint_uint_15: "sint (s :: 16 word) = signed_take_bit 15 (uint s)"
  by (simp add: sint_uint)

lemma sint_pos:
  fixes s :: "16 word" assumes "0 < sint s"
  shows "sint s = int (unat s)" "0 < unat s" "unat s < 2 ^ 15" "uint s = int (unat s)"
proof -
  have "\<not> bit (uint s) 15"
    using assms by (metis sint_uint_15 signed_take_bit_negative_iff not_less_iff_gr_or_eq)
  then have "sint s = take_bit 15 (uint s)"
    by (simp add: sint_uint signed_take_bit_eq_if_positive)
  moreover have "take_bit 15 (uint s) = uint s"
  proof (rule bit_eqI)
    fix i show "bit (take_bit 15 (uint s)) i = bit (uint s) i"
      using \<open>\<not> bit (uint s) 15\<close> bit_imp_le_length [of s i]
      by (cases "i = 15"; cases "i < 15") (auto simp: bit_simps)
  qed
  ultimately show eq: "sint s = int (unat s)" by simp
  show "0 < unat s" using assms unfolding eq by linarith
  show "unat s < 2 ^ 15" using sint_lt [of s] unfolding eq by (simp del: of_nat_unat)
  show "uint s = int (unat s)" by simp
qed

lemma scast_pos:
  fixes s :: "16 word" assumes "0 < sint s"
  shows "unat (scast s :: u64) = unat s"
proof -
  have "(scast s :: u64) = ucast s"
    using sint_pos(1) [OF assms] by (metis of_int_of_nat_eq of_int_sint of_nat_unat)
  then show ?thesis by simp
qed

definition rb_count :: "rt_ringbuffer \<Rightarrow> nat" where
  "rb_count rb = unat (rt_ringbuffer_data_len rb)"

abbreviation rb_cap :: "rt_ringbuffer \<Rightarrow> nat" where
  "rb_cap rb \<equiv> unat (rb_buffer_size rb)"

abbreviation rb_r :: "rt_ringbuffer \<Rightarrow> nat" where
  "rb_r rb \<equiv> unat (rb_read_index rb)"

abbreviation rb_w :: "rt_ringbuffer \<Rightarrow> nat" where
  "rb_w rb \<equiv> unat (rb_write_index rb)"

text \<open>The indices and mirrors say that \<open>c\<close> bytes are held.\<close>

definition rb_pos :: "rt_ringbuffer \<Rightarrow> nat \<Rightarrow> bool" where
  "rb_pos rb c \<longleftrightarrow>
     rb_r rb < rb_cap rb \<and> c \<le> rb_cap rb \<and>
     rb_w rb = (if rb_r rb + c < rb_cap rb then rb_r rb + c else rb_r rb + c - rb_cap rb) \<and>
     (rb_write_mirror rb \<noteq> rb_read_mirror rb \<longleftrightarrow> rb_cap rb \<le> rb_r rb + c)"

definition rb_wf :: "rt_ringbuffer \<Rightarrow> bool" where
  "rb_wf rb \<longleftrightarrow> 0 < sint (rb_buffer_size rb) \<and> rb_cap rb \<le> length (rb_buffer rb)"

definition rb_inv :: "rt_ringbuffer \<Rightarrow> bool" where
  "rb_inv rb \<longleftrightarrow> rb_wf rb \<and> rb_pos rb (rb_count rb)"

definition rb_abs :: "rt_ringbuffer \<Rightarrow> u8 list" where
  "rb_abs rb = circ (rb_buffer rb) (rb_cap rb) (rb_r rb) (rb_count rb)"

lemma unat_eq_15: "(a :: 15 word) = b \<longleftrightarrow> unat a = unat b"
  by (rule word_unat_eq_iff)

lemma rb_count_nat:
  assumes wf: "rb_wf rb" and r: "rb_r rb \<le> rb_cap rb"
  shows "rb_count rb =
    (if rb_r rb = rb_w rb then if rb_read_mirror rb = rb_write_mirror rb then 0 else rb_cap rb
     else if rb_r rb < rb_w rb then rb_w rb - rb_r rb else rb_cap rb - (rb_r rb - rb_w rb))"
proof -
  have sz: "unat (scast (rb_buffer_size rb) :: u64) = rb_cap rb"
    using wf by (simp add: rb_wf_def scast_pos)
  define wi :: u64 where "wi = ucast (rb_write_index rb)"
  define ri :: u64 where "ri = ucast (rb_read_index rb)"
  have n: "unat wi = rb_w rb" "unat ri = rb_r rb" by (simp_all add: wi_def ri_def)
  have 1: "unat (wi - ri) = rb_w rb - rb_r rb" if "rb_r rb < rb_w rb"
    using that n by (simp add: unat_sub word_le_nat_alt)
  have 2: "unat (ri - wi) = rb_r rb - rb_w rb" if "\<not> rb_r rb < rb_w rb"
    using that n by (simp add: unat_sub word_le_nat_alt)
  have 3: "unat (scast (rb_buffer_size rb) - (ri - wi)) = rb_cap rb - (rb_r rb - rb_w rb)"
    if "\<not> rb_r rb < rb_w rb"
    using that 2 sz r by (simp add: unat_sub word_le_nat_alt)
  have 4: "ri < wi \<longleftrightarrow> rb_r rb < rb_w rb" using n by (simp add: word_less_nat_alt)
  show ?thesis
    unfolding rb_count_def rt_ringbuffer_data_len_def rt_ringbuffer_status_def Let_def
      wi_def [symmetric] ri_def [symmetric]
    by (simp add: 1 3 4 sz word_unat_eq_iff)
qed

lemma pos_count: "rb_wf rb \<Longrightarrow> rb_pos rb c \<Longrightarrow> rb_count rb = c"
  by (subst rb_count_nat) (auto simp: rb_pos_def split: if_splits)

text \<open>Sizes as the code computes them.\<close>

lemma space_unat: 
  assumes "rb_inv rb"
  shows "unat (rt_ringbuffer_space_len rb) = rb_cap rb - rb_count rb"
proof -
  have "unat (scast (rb_buffer_size rb) :: u64) = rb_cap rb"
    using assms by (simp add: rb_inv_def rb_wf_def scast_pos)
  then show ?thesis
    using assms by (simp add: rt_ringbuffer_space_len_def unat_sub word_le_nat_alt
        rb_inv_def rb_pos_def flip: rb_count_def)
qed

lemma cap_bounds: "rb_wf rb \<Longrightarrow> 0 < rb_cap rb \<and> rb_cap rb < 32768"
  using sint_pos(2,3) [of "rb_buffer_size rb"] by (simp add: rb_wf_def)

lemma rb_wf_sint: "rb_wf rb \<Longrightarrow> sint (rb_buffer_size rb) = int (rb_cap rb)"
  using sint_pos(1) [of "rb_buffer_size rb"] by (simp add: rb_wf_def)

lemma room_nat:
  assumes "rb_wf rb" 
  shows "write_room rb = int (rb_cap rb) - int (rb_w rb)" "read_room rb = int (rb_cap rb) - int (rb_r rb)"
  using assms by (simp_all add: rb_wf_sint)

text \<open>Advancing an index by \<open>k\<close>, as both branches of the code do.\<close>

lemma unat_word15 [simp]: "k < 32768 \<Longrightarrow> unat (word_of_nat k :: 15 word) = k"
  by (simp add: unat_of_nat take_bit_nat_eq_self)

lemma adv_index:
  fixes i :: "15 word" and len :: u16
  assumes "unat i + unat len < 32768"
  shows "unat (i + ucast len) = unat i + unat len"
proof -
  have "unat (ucast len :: 15 word) = unat len"
    using assms by (simp add: unat_ucast_down)
  then show ?thesis using assms by (subst unat_add_lem [THEN iffD1]) auto
qed


subsection \<open>Copying in\<close>

lemma copy_in_fields [simp]:
  "rb_read_index (rb_copy_in p len rb) = rb_read_index rb"
  "rb_read_mirror (rb_copy_in p len rb) = rb_read_mirror rb"
  "rb_buffer_size (rb_copy_in p len rb) = rb_buffer_size rb"
  by (simp_all add: rb_copy_in_def Let_def)

lemma copy_in_write:
  assumes wf: "rb_wf rb" and w: "rb_w rb < rb_cap rb" and len: "unat len \<le> rb_cap rb"
  shows "rb_w (rb_copy_in p len rb) =
           (if rb_w rb + unat len < rb_cap rb then rb_w rb + unat len
            else rb_w rb + unat len - rb_cap rb)"
    and "rb_write_mirror (rb_copy_in p len rb) =
           (rb_write_mirror rb \<noteq> (rb_cap rb \<le> rb_w rb + unat len))"
proof -
  have u: "uint len = int (unat len)" by simp
  have room: "uint len < write_room rb \<longleftrightarrow> rb_w rb + unat len < rb_cap rb"
    unfolding room_nat [OF wf] u by linarith
  have b: "rb_cap rb < 32768" using cap_bounds [OF wf] by simp
  have eq: "uint len - write_room rb = int (rb_w rb + unat len - rb_cap rb)"
    if "\<not> rb_w rb + unat len < rb_cap rb"
    using that unfolding room_nat [OF wf] u by linarith
  have wrap: "unat (word_of_int (uint len - write_room rb) :: 15 word) = rb_w rb + unat len - rb_cap rb"
    if "\<not> rb_w rb + unat len < rb_cap rb"
    unfolding eq [OF that] of_int_of_nat_eq using that b w len by (subst unat_word15) auto
  show "rb_w (rb_copy_in p len rb) =
           (if rb_w rb + unat len < rb_cap rb then rb_w rb + unat len
            else rb_w rb + unat len - rb_cap rb)"
    unfolding rb_copy_in_def room Let_def using wrap b by (simp add: adv_index)
  show "rb_write_mirror (rb_copy_in p len rb) =
           (rb_write_mirror rb \<noteq> (rb_cap rb \<le> rb_w rb + unat len))"
    unfolding rb_copy_in_def room Let_def by auto
qed

lemma copy_in_buffer:
  assumes wf: "rb_wf rb" and w: "rb_w rb < rb_cap rb" and len: "unat len \<le> rb_cap rb"
    and p: "unat len \<le> length p"
  shows "length (rb_buffer (rb_copy_in p len rb)) = length (rb_buffer rb)"
    and "j < unat len \<Longrightarrow> rb_buffer (rb_copy_in p len rb) ! ((rb_w rb + j) mod rb_cap rb) = p ! j"
    and "unat len \<le> j \<Longrightarrow> j < rb_cap rb \<Longrightarrow>
         rb_buffer (rb_copy_in p len rb) ! ((rb_w rb + j) mod rb_cap rb) =
         rb_buffer rb ! ((rb_w rb + j) mod rb_cap rb)"
proof -
  have u: "uint len = int (unat len)" by simp
  have room: "uint len < write_room rb \<longleftrightarrow> rb_w rb + unat len < rb_cap rb"
    unfolding room_nat [OF wf] u by linarith
  have n1: "nat (write_room rb) = rb_cap rb - rb_w rb"
    unfolding room_nat [OF wf] by linarith
  have n2: "nat (uint len - write_room rb) = rb_w rb + unat len - rb_cap rb"
    if "\<not> rb_w rb + unat len < rb_cap rb"
    unfolding room_nat [OF wf] u using that by linarith
  have l: "rb_cap rb \<le> length (rb_buffer rb)" using wf by (simp add: rb_wf_def)
  define w where "w = rb_w rb"
  define n where "n = rb_cap rb"
  define k where "k = unat len"
  define b where "b = rb_buffer rb"
  have buf: "rb_buffer (rb_copy_in p len rb) =
    (if w + k < n then memcpy_to b w (take k p)
     else memcpy_to (memcpy_to b w (take (n - w) p)) 0 (take (w + k - n) (drop (n - w) p)))"
    unfolding rb_copy_in_def room Let_def w_def n_def k_def b_def
    by (auto simp: n1 n2 simp del: nat_minus_as_int)
  note facts = w len p l
  note facts' = facts [folded w_def n_def k_def b_def]
  show "length (rb_buffer (rb_copy_in p len rb)) = length (rb_buffer rb)"
    unfolding buf b_def [symmetric] using facts' by (auto simp: min_absorb2 min_absorb1)
  have val: "rb_buffer (rb_copy_in p len rb) ! i =
      (if w \<le> i \<and> i < w + k then p ! (i - w)
       else if i + n < w + k then p ! (i + n - w) else b ! i)" if "i < n" for i
    unfolding buf using that facts'
    by (cases "w + k < n") (auto simp: nth_memcpy_to memcpy_wrap_nth add.commute)
  show "rb_buffer (rb_copy_in p len rb) ! ((rb_w rb + j) mod rb_cap rb) = p ! j" if "j < unat len"
  proof (cases "w + j < n")
    case True with that show ?thesis
      by (simp add: val flip: w_def n_def k_def)
  next
    case False
    with that facts' have "(w + j) mod n = w + j - n" by (simp add: mod_if flip: k_def)
    moreover have "\<not> w \<le> w + j - n" using that facts' False by (simp add: k_def)
    ultimately show ?thesis using that False facts'
      by (simp add: val flip: w_def n_def k_def)
  qed
  show "rb_buffer (rb_copy_in p len rb) ! ((rb_w rb + j) mod rb_cap rb) =
         rb_buffer rb ! ((rb_w rb + j) mod rb_cap rb)" if "unat len \<le> j" "j < rb_cap rb"
  proof (cases "w + j < n")
    case True with that show ?thesis
      by (simp add: val flip: w_def n_def k_def b_def)
  next
    case False
    with that facts' have "(w + j) mod n = w + j - n" by (simp add: mod_if flip: k_def n_def)
    moreover have "\<not> w \<le> w + j - n" using that facts' False by (simp add: n_def)
    ultimately show ?thesis using that False facts'
      by (simp add: val flip: w_def n_def k_def b_def)
  qed
qed


text \<open>The write index and mirror after \<open>k\<close> more bytes.\<close>

lemma rb_posD:
  assumes "rb_pos rb c" 
  shows "rb_r rb < rb_cap rb" "c \<le> rb_cap rb" "rb_w rb < rb_cap rb"
    "rb_w rb = (rb_r rb + c) mod rb_cap rb"
  using assms by (auto simp: rb_pos_def mod_if split: if_splits)

lemma copy_in_append:
  assumes wf: "rb_wf rb" and pos: "rb_pos rb c" and k: "c + unat len \<le> rb_cap rb"
    and p: "unat len \<le> length p"
  shows "rb_inv (rb_copy_in p len rb)"
    and "rb_abs (rb_copy_in p len rb) = rb_abs rb @ take (unat len) p"
proof -
  let ?rb = "rb_copy_in p len rb"
  note D = rb_posD [OF pos]
  have len: "unat len \<le> rb_cap rb" using k by simp
  note cw = copy_in_write [OF wf D(3) len, of p] and cb = copy_in_buffer [OF wf D(3) len p]
  have wf': "rb_wf ?rb" using wf cb(1) by (simp add: rb_wf_def)
  have pos': "rb_pos ?rb (c + unat len)"
    using pos k by (auto simp: rb_pos_def cw split: if_splits)
  have c: "rb_count rb = c" "rb_count ?rb = c + unat len"
    using pos_count wf wf' pos pos' by auto
  show "rb_inv ?rb" using wf' pos' c by (simp add: rb_inv_def)
  show "rb_abs ?rb = rb_abs rb @ take (unat len) p"
    unfolding rb_abs_def c copy_in_fields
  proof (rule circ_append [OF _ _ p])
    fix i assume i: "i < c"
    define j where "j = (rb_cap rb - c) + i"
    have "(rb_w rb + j) mod rb_cap rb = (rb_r rb + c + j) mod rb_cap rb"
      by (simp add: D(4) mod_add_left_eq)
    also have "\<dots> = (rb_r rb + i + rb_cap rb) mod rb_cap rb"
      using i k by (simp add: j_def add_ac)
    finally have "(rb_w rb + j) mod rb_cap rb = (rb_r rb + i) mod rb_cap rb"
      by (simp only: mod_add_self2)
    moreover have "unat len \<le> j" "j < rb_cap rb" using i k by (auto simp: j_def)
    ultimately show "rb_buffer ?rb ! ((rb_r rb + i) mod rb_cap rb) =
        rb_buffer rb ! ((rb_r rb + i) mod rb_cap rb)"
      using cb(3) [of j] by simp
  next
    fix j assume "j < unat len"
    then show "rb_buffer ?rb ! ((rb_r rb + c + j) mod rb_cap rb) = p ! j"
      using cb(2) [of j] by (simp add: D(4) mod_add_left_eq)
  qed
qed

lemma rb_invD:
  assumes "rb_inv rb"
  shows "rb_wf rb" "rb_pos rb (rb_count rb)" "rb_count rb \<le> rb_cap rb" "length (rb_abs rb) = rb_count rb"
  using assms rb_posD(2) by (auto simp: rb_inv_def rb_abs_def)

lemma space16:
  assumes "rb_inv rb"
  shows "unat (ucast (rt_ringbuffer_space_len rb) :: u16) = rb_cap rb - rb_count rb"
  using space_unat [OF assms] cap_bounds [OF rb_invD(1) [OF assms]]
  by (subst unat_ucast_down) auto

lemma rt_ringbuffer_put_spec:
  assumes inv: "rb_inv rb" and len: "unat len \<le> length p"
  defines "k \<equiv> min (unat len) (rb_cap rb - length (rb_abs rb))"
  shows "unat (fst (rt_ringbuffer_put p len rb)) = k \<and>
    rb_inv (snd (rt_ringbuffer_put p len rb)) \<and>
    rb_abs (snd (rt_ringbuffer_put p len rb)) = rb_abs rb @ take k p \<and>
    rb_cap (snd (rt_ringbuffer_put p len rb)) = rb_cap rb"
proof -
  note D = rb_invD [OF inv]
  define sz :: u16 where "sz = ucast (rt_ringbuffer_space_len rb)"
  have sz: "unat sz = rb_cap rb - rb_count rb" using space16 [OF inv] by (simp add: sz_def)
  show ?thesis
  proof (cases "sz = 0")
    case True
    then have "k = 0" using sz D(4) by (simp add: k_def)
    with True inv show ?thesis by (simp add: rt_ringbuffer_put_def flip: sz_def)
  next
    case False
    define n where "n = (if sz < len then sz else len)"
    have n: "unat n = k" using sz D(4) by (auto simp: n_def k_def word_less_nat_alt min_def)
    have put: "rt_ringbuffer_put p len rb = (n, rb_copy_in p n rb)"
      using False by (simp add: rt_ringbuffer_put_def Let_def n_def flip: sz_def)
    have "rb_count rb + unat n \<le> rb_cap rb" "unat n \<le> length p"
      using n D len by (auto simp: k_def)
    from copy_in_append [OF D(1,2) this] n show ?thesis by (simp add: put)
  qed
qed

lemma rt_ringbuffer_put_force_spec:
  assumes inv: "rb_inv rb" and len: "unat len \<le> length p"
  defines "q \<equiv> rb_abs rb @ take (unat len) p"
  shows "unat (fst (rt_ringbuffer_put_force p len rb)) = min (unat len) (rb_cap rb) \<and>
    rb_inv (snd (rt_ringbuffer_put_force p len rb)) \<and>
    rb_abs (snd (rt_ringbuffer_put_force p len rb)) = drop (length q - rb_cap rb) q \<and>
    rb_cap (snd (rt_ringbuffer_put_force p len rb)) = rb_cap rb"
proof -
  note D = rb_invD [OF inv]
  note P = rb_posD [OF D(2)]
  define n where "n = rb_cap rb"
  define c where "c = rb_count rb"
  define over where "over = (sint (rb_buffer_size rb) < uint len)"
  define p' where "p' = (if over then drop (nat (uint len - sint (rb_buffer_size rb))) p else p)"
  define l where "l = (if over then rb_buffer_size rb else len)"
  define rb' where "rb' = rb_copy_in p' l rb"
  have sint: "sint (rb_buffer_size rb) = int n" by (simp add: rb_wf_sint [OF D(1)] n_def)
  have u: "uint len = int (unat len)" by simp
  have over: "over \<longleftrightarrow> n < unat len" unfolding over_def sint u by (rule of_nat_less_iff)
  have b: "0 < n" "n < 32768" using cap_bounds [OF D(1)] by (auto simp: n_def)
  have l: "unat l = min (unat len) n" using over by (auto simp: l_def n_def)
  have p': "take (unat l) p' = drop (unat len - unat l) (take (unat len) p)" "unat l \<le> length p'"
    using len by (auto simp: p'_def over l drop_take sint u nat_diff_distrib' simp del: of_nat_unat)
  have res: "rt_ringbuffer_put_force p len rb = (l,
     if uint l < write_room rb
     then if (ucast (rt_ringbuffer_space_len rb) :: u16) < l then rb'\<lparr>rb_read_index := rb_write_index rb'\<rparr> else rb'
     else if (ucast (rt_ringbuffer_space_len rb) :: u16) < l
          then rb'\<lparr>rb_read_mirror := (if rb_write_index rb' \<le> rb_read_index rb
                                     then \<not> rb_read_mirror rb else rb_read_mirror rb),
                  rb_read_index := rb_write_index rb'\<rparr>
          else rb')"
    unfolding rt_ringbuffer_put_force_def Let_def over_def [symmetric] p'_def [symmetric]
      l_def [symmetric] rb'_def [symmetric] by (rule refl)
  have ul: "uint l = int (unat l)" by simp
  have room: "uint l < write_room rb \<longleftrightarrow> rb_w rb + unat l < n"
    unfolding n_def room_nat [OF D(1)] ul by linarith
  show ?thesis
  proof (cases "unat l \<le> n - c")
    case True
    have sp: "\<not> (ucast (rt_ringbuffer_space_len rb) :: u16) < l"
      using True space16 [OF inv] by (simp add: word_less_nat_alt n_def c_def)
    have fit: "rb_count rb + unat l \<le> rb_cap rb" using True D(3) by (simp add: n_def c_def)
    have q: "rb_abs rb @ drop (unat len - unat l) (take (unat len) p) = drop (length q - n) q"
    proof (cases "unat len \<le> n")
      case True
      with l fit D(4) len show ?thesis by (simp add: q_def n_def)
    next
      case False
      with l b fit D(4) have "rb_abs rb = []" by (simp add: n_def)
      with False l len show ?thesis by (simp add: q_def)
    qed
    from copy_in_append [OF D(1,2) fit p'(2)] show ?thesis
      unfolding res n_def [symmetric] q [symmetric] p'(1) [symmetric]
      using sp l copy_in_fields(3) [of p' l rb, folded rb'_def]
      by (simp add: n_def flip: rb'_def)
  next
    case False
    define r' where "r' = rb_w rb'"
    define rb'' where "rb'' = snd (rt_ringbuffer_put_force p len rb)"
    have ln: "unat l \<le> n" "unat l \<le> rb_cap rb" using l by (auto simp: n_def)
    have sp: "(ucast (rt_ringbuffer_space_len rb) :: u16) < l"
      using False space16 [OF inv] by (simp add: word_less_nat_alt n_def c_def)
    note cw = copy_in_write [OF D(1) P(3) ln(2), of p', folded rb'_def]
      and cb = copy_in_buffer [OF D(1) P(3) ln(2) p'(2), folded rb'_def]
    have f [simp]: "rb_buffer_size rb'' = rb_buffer_size rb" "rb_buffer rb'' = rb_buffer rb'"
      "rb_write_index rb'' = rb_write_index rb'" "rb_read_index rb'' = rb_write_index rb'"
      "rb_write_mirror rb'' = rb_write_mirror rb'"
      "rb_read_mirror rb'' = (if rb_w rb + unat l < n then rb_read_mirror rb
         else if rb_w rb' \<le> rb_r rb then \<not> rb_read_mirror rb else rb_read_mirror rb)"
      using sp by (auto simp: rb''_def res room word_le_nat_alt) (auto simp: rb'_def)
    have wf'': "rb_wf rb''" using D(1) cb(1) by (simp add: rb_wf_def)
    have pos'': "rb_pos rb'' n" using False D(2) cw ln b
      by (simp add: rb_pos_def flip: n_def c_def) (auto split: if_splits)
    have c'': "rb_count rb'' = n" by (rule pos_count [OF wf'' pos''])
    have q: "length q = c + unat len" using len D(4) by (simp add: q_def c_def)
    have w': "rb_w rb' = (rb_w rb + unat l) mod n"
      using cw(1) P(3) ln by (simp add: mod_if flip: n_def)
    have "rb_abs rb'' = drop (length q - n) q"
    proof (rule nth_equalityI)
      show "length (rb_abs rb'') = length (drop (length q - n) q)"
        using False q l by (auto simp: rb_abs_def c'' c_def)
      fix i assume "i < length (rb_abs rb'')"
      then have i: "i < n" by (simp add: rb_abs_def c'')
      have lhs: "rb_abs rb'' ! i = rb_buffer rb' ! ((rb_w rb + (unat l + i)) mod n)"
        using i by (simp add: rb_abs_def c'' w' mod_add_left_eq add.assoc flip: n_def)
      show "rb_abs rb'' ! i = drop (length q - n) q ! i"
      proof (cases "i < n - unat l")
        case True
        then have "c + unat l - n + i < c" using False by (simp add: c_def)
        have "rb_abs rb'' ! i = rb_buffer rb ! ((rb_w rb + (unat l + i)) mod n)"
          unfolding lhs n_def using True by (intro cb(3)) (auto simp: n_def)
        also have "(rb_w rb + (unat l + i)) mod n = (rb_r rb + (c + unat l - n + i)) mod n"
        proof -
          have "(rb_w rb + (unat l + i)) mod n = (rb_r rb + c + (unat l + i)) mod n"
            by (simp add: P(4) mod_add_left_eq c_def n_def)
          moreover have "rb_r rb + c + (unat l + i) = rb_r rb + (c + unat l - n + i) + n"
            using False by simp
          ultimately have "(rb_w rb + (unat l + i)) mod n = (rb_r rb + (c + unat l - n + i) + n) mod n"
            by simp
          then show ?thesis by (simp only: mod_add_self2)
        qed
        also have "rb_buffer rb ! ((rb_r rb + (c + unat l - n + i)) mod n) = rb_abs rb ! (c + unat l - n + i)"
          using True False by (simp add: rb_abs_def n_def c_def)
        also have "\<dots> = drop (length q - n) q ! i"
        proof -
          have "unat l = unat len" using True l by auto
          then show ?thesis
            using True False D(4) \<open>c + unat l - n + i < c\<close>
            by (simp add: q nth_append) (simp add: q_def nth_append c_def)
        qed
        finally show ?thesis .
      next
        case F: False
        have "(rb_w rb + (unat l + i)) mod n = (rb_w rb + (unat l + i - n) + n) mod n"
          using F by (simp add: add_ac)
        then have "rb_abs rb'' ! i = p' ! (unat l + i - n)"
          unfolding lhs using F i cb(2) [of "unat l + i - n"] ln by (simp add: n_def)
        also have "\<dots> = take (unat l) p' ! (unat l + i - n)"
        proof -
          have "unat l + i - n < unat l" using i F by linarith
          then show ?thesis by simp
        qed
        also have "\<dots> = drop (length q - n) q ! i"
        proof -
          have big: "n \<le> c + unat len" "unat l \<le> unat len" "n \<le> unat l + i"
            using False F l D(3) by (auto simp: c_def n_def)
          then have "drop (length q - n) q ! i = q ! (c + unat len - n + i)" using q by simp
          also have "c + unat len - n + i = c + (unat len + i - n)" using big by linarith
          also have "q ! \<dots> = take (unat len) p ! (unat len + i - n)"
            using D(4) by (simp only: q_def nth_append c_def) simp
          finally show ?thesis unfolding p'(1) using big len by simp
        qed
        finally show ?thesis .
      qed
    qed
    moreover have "rb_inv rb''" using wf'' pos'' c'' by (simp add: rb_inv_def)
    ultimately show ?thesis
      unfolding rb''_def [symmetric] using l by (simp add: res n_def)
  qed
qed


subsection \<open>Taking out\<close>

lemma rb_advance:
  assumes inv: "rb_inv rb" and k: "k \<le> rb_count rb"
    and i: "unat i = (if rb_r rb + k < rb_cap rb then rb_r rb + k else rb_r rb + k - rb_cap rb)"
    and m: "m = (rb_read_mirror rb \<noteq> (rb_cap rb \<le> rb_r rb + k))"
  defines "rb' \<equiv> rb\<lparr>rb_read_mirror := m, rb_read_index := i\<rparr>"
  shows "rb_inv rb' \<and> rb_abs rb' = drop k (rb_abs rb)"
proof -
  note D = rb_invD [OF inv]
  have wf: "rb_wf rb'" using D(1) by (simp add: rb_wf_def rb'_def)
  have pos: "rb_pos rb' (rb_count rb - k)"
    using D(2) k by (auto simp: rb'_def rb_pos_def i m split: if_splits)
  have c: "rb_count rb' = rb_count rb - k" by (rule pos_count [OF wf pos])
  have "unat i = (rb_r rb + k) mod rb_cap rb"
    using D(3) k rb_posD(1) [OF D(2)] by (simp add: i mod_if)
  then have "rb_abs rb' = drop k (rb_abs rb)"
    unfolding rb_abs_def c using k by (simp add: circ_drop) (simp add: rb'_def)
  with wf pos c show ?thesis by (simp add: rb_inv_def)
qed

lemma data_len_unat: "unat (rt_ringbuffer_data_len rb) = rb_count rb"
  by (simp add: rb_count_def)

lemma rt_ringbuffer_get_spec:
  assumes inv: "rb_inv rb"
  shows "fst (rt_ringbuffer_get len rb) = take (unat len) (rb_abs rb) \<and>
    rb_inv (snd (rt_ringbuffer_get len rb)) \<and>
    rb_abs (snd (rt_ringbuffer_get len rb)) = drop (unat len) (rb_abs rb) \<and>
    rb_cap (snd (rt_ringbuffer_get len rb)) = rb_cap rb"
proof -
  note D = rb_invD [OF inv]
  have b: "0 < rb_cap rb" "rb_cap rb < 32768" using cap_bounds [OF D(1)] by auto
  have buf: "rb_cap rb \<le> length (rb_buffer rb)" using D(1) by (simp add: rb_wf_def)
  have r: "rb_r rb < rb_cap rb" by (rule rb_posD(1) [OF D(2)])
  show ?thesis
  proof (cases "rt_ringbuffer_data_len rb = 0")
    case True
    then have "rb_abs rb = []" using D(4) by (simp add: rb_count_def)
    with True inv show ?thesis by (simp add: rt_ringbuffer_get_def)
  next
    case False
    define l :: u16 where "l = (if rt_ringbuffer_data_len rb < ucast len
      then ucast (rt_ringbuffer_data_len rb) else len)"
    have "unat (ucast (rt_ringbuffer_data_len rb) :: u16) = rb_count rb"
      using D(3) b by (subst unat_ucast_down) (auto simp: data_len_unat)
    then have l: "unat l = min (unat len) (rb_count rb)"
      by (auto simp: l_def word_less_nat_alt data_len_unat)
    have ul: "uint l = int (unat l)" by simp
    have room: "uint l < read_room rb \<longleftrightarrow> rb_r rb + unat l < rb_cap rb"
      unfolding room_nat [OF D(1)] ul by linarith
    have lc: "unat l \<le> rb_count rb" using l by simp
    have tk: "take (unat len) (rb_abs rb) = circ (rb_buffer rb) (rb_cap rb) (rb_r rb) (unat l)"
      using D(4) circ_take [OF lc, of "rb_buffer rb" "rb_cap rb" "rb_r rb"]
      by (cases "unat len \<le> rb_count rb") (auto simp: l rb_abs_def)
    have dr: "drop (unat l) (rb_abs rb) = drop (unat len) (rb_abs rb)"
      using D(4) by (cases "unat len \<le> rb_count rb") (auto simp: l)
    show ?thesis
    proof (cases "rb_r rb + unat l < rb_cap rb")
      case True
      have "unat (rb_read_index rb + ucast l) = rb_r rb + unat l"
        using True b by (intro adv_index) simp
      with True rb_advance [OF inv lc, of "rb_read_index rb + ucast l" "rb_read_mirror rb"]
      show ?thesis
        using False b buf by (simp add: rt_ringbuffer_get_def Let_def room tk dr circ_straight flip: l_def)
    next
      case w: False
      have n: "nat (read_room rb) = rb_cap rb - rb_r rb"
        "nat (uint l - read_room rb) = rb_r rb + unat l - rb_cap rb"
        using w unfolding room_nat [OF D(1)] ul by linarith+
      have "uint l - read_room rb = int (rb_r rb + unat l - rb_cap rb)"
        using w unfolding room_nat [OF D(1)] ul by linarith
      then have i: "unat (word_of_int (uint l - read_room rb) :: 15 word) = rb_r rb + unat l - rb_cap rb"
        using b r lc D(3) by (simp only: of_int_of_nat_eq) (subst unat_word15; simp)
      have out: "take (rb_cap rb - rb_r rb) (drop (rb_r rb) (rb_buffer rb)) @
          take (rb_r rb + unat l - rb_cap rb) (rb_buffer rb) =
          circ (rb_buffer rb) (rb_cap rb) (rb_r rb) (unat l)"
      proof (cases "rb_r rb + unat l = rb_cap rb")
        case True
        then show ?thesis using buf by (simp add: circ_straight flip: True)
      next
        case False
        then show ?thesis
          using w r lc D(3) buf circ_wrap [of "rb_r rb" "rb_cap rb" "unat l" "rb_buffer rb"]
          by (simp add: add.commute)
      qed
      from w i rb_advance [OF inv lc, of "word_of_int (uint l - read_room rb)" "\<not> rb_read_mirror rb"]
      show ?thesis
        using False
        by (simp add: rt_ringbuffer_get_def Let_def room tk dr out n flip: l_def
            del: diff_le_self of_int_diff)
    qed
  qed
qed

text \<open>\<open>peak\<close> consumes the contiguous run at the front and returns its offset and size.\<close>

lemma rt_ringbuffer_peak_spec:
  assumes inv: "rb_inv rb"
  shows "case rt_ringbuffer_peak rb of
      (None, rb') \<Rightarrow> rb_abs rb = [] \<and> rb' = rb
    | (Some (off, n), rb') \<Rightarrow> 0 < unat n \<and>
        take (unat n) (drop off (rb_buffer rb)) = take (unat n) (rb_abs rb) \<and>
        rb_inv rb' \<and> rb_abs rb' = drop (unat n) (rb_abs rb)"
proof -
  note D = rb_invD [OF inv]
  have b: "0 < rb_cap rb" "rb_cap rb < 32768" using cap_bounds [OF D(1)] by auto
  have buf: "rb_cap rb \<le> length (rb_buffer rb)" using D(1) by (simp add: rb_wf_def)
  have r: "rb_r rb < rb_cap rb" by (rule rb_posD(1) [OF D(2)])
  have front: "take (unat n) (drop (rb_r rb) (rb_buffer rb)) = take (unat n) (rb_abs rb)"
    if "unat n \<le> rb_count rb" "rb_r rb + unat n \<le> rb_cap rb" for n :: u64
    using that buf circ_take [OF that(1), of "rb_buffer rb" "rb_cap rb" "rb_r rb"]
    by (simp add: rb_abs_def circ_straight)
  show ?thesis
  proof (cases "rt_ringbuffer_data_len rb = 0")
    case True
    then show ?thesis using D(4) by (simp add: rt_ringbuffer_peak_def rb_count_def)
  next
    case False
    then have c: "0 < rb_count rb" 
      unfolding rb_count_def by (simp only: unat_gt_0) simp
    have "read_room rb = int (rb_cap rb - rb_r rb)" unfolding room_nat [OF D(1)] using r by linarith
    then have room: "unat (word_of_int (read_room rb) :: u64) = rb_cap rb - rb_r rb"
      using b by (simp only: of_int_of_nat_eq) (subst unat_of_nat_small; simp)
    show ?thesis
    proof (cases "rt_ringbuffer_data_len rb < word_of_int (read_room rb)")
      case True
      then have lt: "rb_r rb + rb_count rb < rb_cap rb"
        unfolding word_less_nat_alt room data_len_unat by linarith
      have "unat (ucast (rt_ringbuffer_data_len rb) :: 15 word) = rb_count rb"
        using D(3) b by (subst unat_ucast_down) (auto simp: data_len_unat)
      then have "unat (rb_read_index rb + ucast (rt_ringbuffer_data_len rb)) = rb_r rb + rb_count rb"
        using lt b by (subst unat_add_lem [THEN iffD1]) auto
      with lt rb_advance [OF inv order_refl, of "rb_read_index rb + ucast (rt_ringbuffer_data_len rb)"
          "rb_read_mirror rb"] front [of "rt_ringbuffer_data_len rb"]
      show ?thesis
        using False c by (simp only: rt_ringbuffer_peak_def Let_def True if_True if_False)
          (simp add: data_len_unat)
    next
      case w: False
      then have le: "rb_cap rb - rb_r rb \<le> rb_count rb"
        unfolding word_less_nat_alt room data_len_unat by linarith
      with r rb_advance [OF inv le, of 0 "\<not> rb_read_mirror rb"] front [of "word_of_int (read_room rb)"]
      show ?thesis
        using False c by (simp only: rt_ringbuffer_peak_def Let_def w if_True if_False)
          (simp only: room prod.case option.case, simp)
    qed
  qed
qed


subsection \<open>One byte at a time\<close>

lemma step_write_fields [simp]:
  "rb_read_index (rb_step_write rb) = rb_read_index rb"
  "rb_read_mirror (rb_step_write rb) = rb_read_mirror rb"
  "rb_buffer_size (rb_step_write rb) = rb_buffer_size rb"
  "rb_buffer (rb_step_write rb) = rb_buffer rb"
  by (simp_all add: rb_step_write_def)

lemma at_end:
  assumes "rb_wf rb" 
  shows "uint i = sint (rb_buffer_size rb) - 1 \<longleftrightarrow> unat i + 1 = rb_cap rb"
proof -
  have "uint i = int (unat i)" by simp
  then show ?thesis using cap_bounds [OF assms] unfolding rb_wf_sint [OF assms] by linarith
qed

lemma unat_plus1: "unat i + 1 < 32768 \<Longrightarrow> unat (i + 1 :: 15 word) = unat i + 1"
  by (subst unat_add_lem [THEN iffD1]) auto

lemma step_write:
  assumes wf: "rb_wf rb" and w: "rb_w rb < rb_cap rb"
  shows "rb_w (rb_step_write rb) = (if rb_w rb + 1 = rb_cap rb then 0 else rb_w rb + 1)"
    and "rb_write_mirror (rb_step_write rb) = (rb_write_mirror rb \<noteq> (rb_w rb + 1 = rb_cap rb))"
  using w cap_bounds [OF wf] by (auto simp: rb_step_write_def at_end [OF wf] unat_plus1)

lemma step_write_append:
  fixes ch :: u8
  assumes inv: "rb_inv rb" and c: "rb_count rb < rb_cap rb"
  defines "rb' \<equiv> rb_step_write (rb\<lparr>rb_buffer := (rb_buffer rb)[rb_w rb := ch]\<rparr>)"
  shows "rb_inv rb' \<and> rb_abs rb' = rb_abs rb @ [ch]"
proof -
  let ?b = "rb\<lparr>rb_buffer := (rb_buffer rb)[rb_w rb := ch]\<rparr>"
  note D = rb_invD [OF inv] and P = rb_posD [OF rb_invD(2) [OF inv]]
  have wf: "rb_wf ?b" "rb_wf rb'" using D(1) by (simp_all add: rb_wf_def rb'_def)
  have sw: "rb_w rb' = (if rb_w rb + 1 = rb_cap rb then 0 else rb_w rb + 1)"
    "rb_write_mirror rb' = (rb_write_mirror rb \<noteq> (rb_w rb + 1 = rb_cap rb))"
    using step_write [OF wf(1)] P(3) by (simp_all add: rb'_def)
  have pos: "rb_pos rb' (Suc (rb_count rb))"
    unfolding rb_pos_def sw using D(2) c by (auto simp: rb_pos_def rb'_def split: if_splits)
  have c': "rb_count rb' = Suc (rb_count rb)" by (rule pos_count [OF wf(2) pos])
  have "rb_abs rb' = rb_abs rb @ [ch]"
    unfolding rb_abs_def c'
    using circ_snoc [OF c, of "rb_buffer rb" "rb_r rb" ch] D(1) by (simp add: rb'_def rb_wf_def P(4))
  with wf pos c' show ?thesis by (simp add: rb_inv_def)
qed

lemma status_full: "rb_inv rb \<Longrightarrow> rt_ringbuffer_status rb = RT_RINGBUFFER_FULL \<longleftrightarrow> rb_count rb = rb_cap rb"
  using rb_posD(1) [OF rb_invD(2)]
  by (auto simp: rt_ringbuffer_status_def word_unat_eq_iff rb_inv_def rb_pos_def split: if_splits)

lemma rt_ringbuffer_putchar_spec:
  assumes inv: "rb_inv rb"
  shows "rt_ringbuffer_putchar ch rb =
      (if length (rb_abs rb) < rb_cap rb
       then (1, snd (rt_ringbuffer_putchar ch rb)) else (0, rb)) \<and>
    (length (rb_abs rb) < rb_cap rb \<longrightarrow>
      rb_inv (snd (rt_ringbuffer_putchar ch rb)) \<and>
      rb_abs (snd (rt_ringbuffer_putchar ch rb)) = rb_abs rb @ [ch] \<and>
      rb_cap (snd (rt_ringbuffer_putchar ch rb)) = rb_cap rb)"
proof -
  note D = rb_invD [OF inv]
  have "rt_ringbuffer_space_len rb = 0 \<longleftrightarrow> rb_count rb = rb_cap rb"
    using space_unat [OF inv] D(3) by (auto simp: unat_eq_zero [symmetric])
  then show ?thesis
    using step_write_append [OF inv, of ch] D(3,4) by (auto simp: rt_ringbuffer_putchar_def)
qed

lemma rt_ringbuffer_putchar_force_spec:
  assumes inv: "rb_inv rb"
  shows "fst (rt_ringbuffer_putchar_force ch rb) = 1 \<and>
    rb_inv (snd (rt_ringbuffer_putchar_force ch rb)) \<and>
    rb_abs (snd (rt_ringbuffer_putchar_force ch rb)) =
      drop (length (rb_abs rb) + 1 - rb_cap rb) (rb_abs rb @ [ch]) \<and>
    rb_cap (snd (rt_ringbuffer_putchar_force ch rb)) = rb_cap rb"
proof (cases "rb_count rb = rb_cap rb")
  case False
  with rb_invD(3,4) [OF inv] step_write_append [OF inv, of ch] status_full [OF inv]
  show ?thesis by (auto simp: rt_ringbuffer_putchar_force_def)
next
  case full: True
  note D = rb_invD [OF inv] and P = rb_posD [OF rb_invD(2) [OF inv]]
  have b: "0 < rb_cap rb" "rb_cap rb \<le> length (rb_buffer rb)"
    using cap_bounds [OF D(1)] D(1) by (auto simp: rb_wf_def)
  let ?b = "rb\<lparr>rb_buffer := (rb_buffer rb)[rb_w rb := ch]\<rparr>"
  define rb' where "rb' = snd (rt_ringbuffer_putchar_force ch rb)"
  have rw: "rb_w rb = rb_r rb" using P(1) by (simp add: P(4) full)
  have wf: "rb_wf ?b" "rb_wf rb'"
    using D(1) by (simp_all add: rb_wf_def rb'_def rt_ringbuffer_putchar_force_def Let_def)
  have sw: "rb_w (rb_step_write ?b) = (if rb_r rb + 1 = rb_cap rb then 0 else rb_r rb + 1)"
    using step_write [OF wf(1)] P(3) rw by simp
  have f: "rb_buffer rb' = rb_buffer ?b" "rb_cap rb' = rb_cap rb"
    "rb_r rb' = (if rb_r rb + 1 = rb_cap rb then 0 else rb_r rb + 1)"
    using status_full [OF inv] full
    by (simp_all add: rb'_def rt_ringbuffer_putchar_force_def Let_def sw)
  have pos: "rb_pos rb' (rb_count rb)"
    using D(2) status_full [OF inv] full step_write [OF wf(1)] P(3)
    by (auto simp: rb_pos_def rb'_def rt_ringbuffer_putchar_force_def Let_def at_end [OF D(1)] rw)
  have c': "rb_count rb' = rb_cap rb" using pos_count [OF wf(2) pos] full by simp
  have r': "rb_r rb' = (rb_r rb + 1) mod rb_cap rb" using P(1) f(3) by (auto simp: mod_if)
  obtain m where m: "rb_cap rb = Suc m" using b by (cases "rb_cap rb") auto
  have "rb_abs rb' = circ (rb_buffer ?b) (rb_cap rb) (rb_r rb') (Suc m)"
    by (simp add: rb_abs_def c' f m)
  also have "\<dots> = circ (rb_buffer rb) (rb_cap rb) ((rb_r rb + 1) mod rb_cap rb) m @ [ch]"
  proof -
    have "rb_w rb = ((rb_r rb + 1) mod rb_cap rb + m) mod rb_cap rb"
      using P(1) m rw by (simp add: mod_add_left_eq) (metis mod_add_self2 mod_less add_Suc_right add_Suc)
    then show ?thesis unfolding r' using circ_snoc [of m "rb_cap rb" "rb_buffer rb" "(rb_r rb + 1) mod rb_cap rb" ch] m b by simp
  qed
  also have "circ (rb_buffer rb) (rb_cap rb) ((rb_r rb + 1) mod rb_cap rb) m = drop 1 (rb_abs rb)"
    using circ_drop [of 1 "Suc m" "rb_buffer rb" "rb_cap rb" "rb_r rb"] by (simp add: rb_abs_def full m)
  finally have "rb_abs rb' = drop (length (rb_abs rb) + 1 - rb_cap rb) (rb_abs rb @ [ch])"
    using D(4) full m by simp
  then show ?thesis
    using wf(2) pos c' full f(2)
    by (simp add: rb_inv_def flip: rb'_def) (simp add: rt_ringbuffer_putchar_force_def Let_def)
qed

lemma rt_ringbuffer_getchar_spec:
  assumes inv: "rb_inv rb"
  shows "case rt_ringbuffer_getchar rb of
      ((n, None), rb') \<Rightarrow> n = 0 \<and> rb_abs rb = [] \<and> rb' = rb
    | ((n, Some ch), rb') \<Rightarrow> n = 1 \<and> rb_abs rb = ch # rb_abs rb' \<and> rb_inv rb' \<and> rb_cap rb' = rb_cap rb"
proof (cases "rt_ringbuffer_data_len rb = 0")
  case True
  then show ?thesis
    using rb_invD(4) [OF inv] by (simp add: rt_ringbuffer_getchar_def rb_count_def)
next
  case False
  note D = rb_invD [OF inv] and P = rb_posD [OF rb_invD(2) [OF inv]]
  have c: "0 < rb_count rb"
    using False unfolding rb_count_def by (simp only: unat_gt_0) simp
  then have hd: "rb_abs rb = rb_buffer rb ! rb_r rb # drop 1 (rb_abs rb)"
    using P(1) by (cases "rb_count rb") (simp_all add: rb_abs_def circ_Suc)
  have one: "1 \<le> rb_count rb" using c by simp
  show ?thesis
  proof (cases "rb_r rb + 1 = rb_cap rb")
    case True
    with rb_advance [OF inv one, of 0 "\<not> rb_read_mirror rb"] hd False show ?thesis
      by (simp add: rt_ringbuffer_getchar_def at_end [OF D(1)])
  next
    case F: False
    with P(1) have lt: "rb_r rb + 1 < rb_cap rb" by simp
    with rb_advance [OF inv one, of "rb_read_index rb + 1" "rb_read_mirror rb"] hd False F
      cap_bounds [OF D(1)] show ?thesis
      by (simp add: rt_ringbuffer_getchar_def at_end [OF D(1)] unat_plus1)
  qed
qed

lemma rt_ringbuffer_reset_spec:
  assumes "rb_wf rb"
  shows "rb_inv (rt_ringbuffer_reset rb) \<and> rb_abs (rt_ringbuffer_reset rb) = []"
proof -
  have wf: "rb_wf (rt_ringbuffer_reset rb)" and "rb_pos (rt_ringbuffer_reset rb) 0"
    using assms cap_bounds [OF assms] by (auto simp: rb_wf_def rb_pos_def rt_ringbuffer_reset_def)
  with pos_count [OF this] show ?thesis by (simp add: rb_inv_def rb_abs_def)
qed


lemma init_size:
  "unat ((sz :: u16) AND NOT (8 - 1)) = unat sz - unat sz mod 8"
  using and_not_mask_unat [of sz 3] by (simp add: mask_eq_exp_minus_1)

lemma rt_ringbuffer_init_spec:
  assumes "8 \<le> sint sz" "unat sz \<le> length pool"
  shows "\<exists>rb. rt_ringbuffer_init pool sz = Some rb \<and> rb_inv rb \<and> rb_abs rb = [] \<and>
    rb_cap rb = unat sz - unat sz mod 8 \<and> 8 \<le> rb_cap rb"
proof -
  have pos: "0 < sint sz" using assms(1) by linarith
  define s where "s = sz AND NOT (8 - 1)"
  have n: "8 \<le> unat sz" using assms(1) unfolding sint_pos(1) [OF pos] by linarith
  have s: "unat s = unat sz - unat sz mod 8" by (simp only: s_def init_size)
  have n8: "8 \<le> unat s" unfolding s using n by presburger
  have lt: "unat s < 32768" using sint_pos(3) [OF pos] s by simp
  have sp: "0 < sint s"
  proof -
    have "uint s = int (unat s)" by simp
    then have u: "0 < uint s" "uint s < 32768" using n8 lt by linarith+
    then have "take_bit 15 (uint s) = uint s" by (simp add: take_bit_int_eq_self)
    moreover have "\<not> bit (uint s) 15" using u by (simp add: bit_iff_odd)
    ultimately show ?thesis using u by (simp add: sint_uint_15 signed_take_bit_eq_if_positive)
  qed
  define rb where "rb = \<lparr>rb_buffer = pool, rb_read_mirror = False, rb_read_index = 0,
                rb_write_mirror = False, rb_write_index = 0, rb_buffer_size = s\<rparr>"
  have wf: "rb_wf rb" using sp s assms(2) by (simp add: rb_wf_def rb_def)
  have "rt_ringbuffer_reset rb = rb" by (simp add: rt_ringbuffer_reset_def rb_def)
  with rt_ringbuffer_reset_spec [OF wf] have "rb_inv rb \<and> rb_abs rb = []" by simp
  moreover have "rt_ringbuffer_init pool sz = Some rb"
    unfolding rt_ringbuffer_init_def s_def [symmetric] rb_def using pos by simp
  moreover have "rb_cap rb = unat s" by (simp add: rb_def)
  ultimately show ?thesis using s n8 by auto
qed

subsection \<open>The ring buffer as a bounded queue\<close>

text \<open>An answer of 0 is a refusal; the state is the one the call leaves in either case.\<close>

definition rb_enq :: "u8 \<Rightarrow> rt_ringbuffer \<Rightarrow> (bool \<times> rt_ringbuffer) option" where
  "rb_enq ch rb = (case rt_ringbuffer_putchar ch rb of (n, rb') \<Rightarrow> Some (n \<noteq> 0, rb'))"

definition rb_deq :: "rt_ringbuffer \<Rightarrow> (u8 option \<times> rt_ringbuffer) option" where
  "rb_deq rb = (case rt_ringbuffer_getchar rb of
     ((n, ch), rb') \<Rightarrow> if (n \<noteq> 0) = (ch \<noteq> None) then Some (ch, rb') else None)"

interpretation rb: bounded_fifo rb_inv rb_abs rb_cap rb_enq rb_deq
proof
  fix s and x :: u8
  assume inv: "rb_inv s"
  note p = rt_ringbuffer_putchar_spec [OF inv, of x] and g = rt_ringbuffer_getchar_spec [OF inv]
  show "\<exists>s'. rb_enq x s = Some (True, s') \<and> rb_inv s' \<and> rb_abs s' = rb_abs s @ [x] \<and> rb_cap s' = rb_cap s"
    if "length (rb_abs s) < rb_cap s"
    using p that by (cases "rt_ringbuffer_putchar x s") (auto simp: rb_enq_def)
  show "rb_enq x s = Some (False, s)" if "rb_cap s \<le> length (rb_abs s)"
    using p that by (auto simp: rb_enq_def)
  show "\<exists>s'. rb_deq s = Some (Some y, s') \<and> rb_inv s' \<and> rb_abs s' = ys \<and> rb_cap s' = rb_cap s"
    if "rb_abs s = y # ys" for y ys
    using g that by (auto simp: rb_deq_def split: prod.splits option.splits)
  show "rb_deq s = Some (None, s)" if "rb_abs s = []"
    using g that by (auto simp: rb_deq_def split: prod.splits option.splits)
qed

subsection \<open>Properties\<close>

definition rb_sample :: rt_ringbuffer where
  "rb_sample = the (rt_ringbuffer_init (replicate 8 0) 8)"

lemma rb_sample: "rb_inv rb_sample" "rb_abs rb_sample = []" "rb_cap rb_sample = 8"
proof -
  have "\<exists>rb. rt_ringbuffer_init (replicate 8 0) 8 = Some rb \<and> rb_inv rb \<and> rb_abs rb = [] \<and>
    rb_cap rb = unat (8 :: u16) - unat (8 :: u16) mod 8 \<and> 8 \<le> rb_cap rb"
    by (rule rt_ringbuffer_init_spec) simp_all
  then show "rb_inv rb_sample" "rb_abs rb_sample = []" "rb_cap rb_sample = 8"
    by (auto simp: rb_sample_def)
qed

text \<open>C36: on a ring buffer in a consistent state \<open>put\<close> appends as many bytes of the input as
  fit and returns how many, \<open>put_force\<close> appends all of them and keeps the newest
  \<open>buffer_size\<close> bytes, and \<open>get\<close> removes and returns the oldest bytes; each keeps the
  state consistent, for every position of the indices and mirrors.\<close>

theorem rt_ringbuffer_block_ops:
  assumes "rb_inv rb" and "unat len \<le> length p"
  shows "(case rt_ringbuffer_put p len rb of (n, rb') \<Rightarrow>
       unat n = min (unat len) (rb_cap rb - length (rb_abs rb)) \<and> rb_inv rb' \<and>
       rb_abs rb' = rb_abs rb @ take (unat n) p) \<and>
     (case rt_ringbuffer_put_force p len rb of (n, rb') \<Rightarrow>
       unat n = min (unat len) (rb_cap rb) \<and> rb_inv rb' \<and>
       rb_abs rb' = (let q = rb_abs rb @ take (unat len) p in drop (length q - rb_cap rb) q)) \<and>
     (case rt_ringbuffer_get len rb of (bs, rb') \<Rightarrow>
       bs = take (unat len) (rb_abs rb) \<and> rb_inv rb' \<and> rb_abs rb' = drop (unat len) (rb_abs rb))"
  using rt_ringbuffer_put_spec [OF assms] rt_ringbuffer_put_force_spec [OF assms]
    rt_ringbuffer_get_spec [OF assms(1), of len]
  by (simp add: case_prod_beta Let_def)

lemma rt_ringbuffer_block_ops_witness:
  "rb_abs (snd (rt_ringbuffer_put_force [1, 2, 3, 4, 5, 6, 7, 8, 9, 10] 10 rb_sample)) =
   [3, 4, 5, 6, 7, 8, 9, 10]"
  using rt_ringbuffer_block_ops [of rb_sample 10 "[1, 2, 3, 4, 5, 6, 7, 8, 9, 10]"]
  by (auto simp: rb_sample case_prod_beta)

text \<open>C37: whatever sequence of \<open>putchar\<close> and \<open>getchar\<close> is run, the ring buffer gives exactly the
  answers a list bounded by \<open>buffer_size\<close> would, and ends with its contents: bytes come out in the
  order in which they were accepted, and a refused call changes nothing.\<close>

theorem rt_ringbuffer_fifo:
  assumes "rb_inv rb"
  shows "\<exists>rs rb'. run_ops rb_enq rb_deq ops rb = Some (rs, rb') \<and>
    run_ops (spec_enq (rb_cap rb)) spec_deq ops (rb_abs rb) = Some (rs, rb_abs rb') \<and>
    rb_inv rb' \<and> rb_abs rb @ accepted ops rs = delivered rs @ rb_abs rb' \<and>
    (\<forall>x. length (rb_abs rb) = rb_cap rb \<longrightarrow> rb_enq x rb = Some (False, rb)) \<and>
    (rb_abs rb = [] \<longrightarrow> rb_deq rb = Some (None, rb))"
  using rb.run_refines [OF assms, of ops] rb.enq_full [OF assms] rb.deq_empty [OF assms] by auto

lemma rt_ringbuffer_fifo_witness:
  "\<exists>rb'. run_ops rb_enq rb_deq [Deq, Enq 1, Enq 2, Deq, Enq 3] rb_sample =
      Some ([Delivered None, Accepted True, Accepted True, Delivered (Some 1), Accepted True], rb') \<and>
    rb_abs rb' = [2, 3]"
  using rt_ringbuffer_fifo [OF rb_sample(1), of "[Deq, Enq 1, Enq 2, Deq, Enq 3]"]
  by (auto simp: rb_sample spec_enq_def spec_deq_def)

text \<open>
  A size below 8 is accepted and rounded down to no room at all: the assertion of
  \<open>rt_ringbuffer_init\<close> looks at the size before the rounding.
\<close>

lemma rt_ringbuffer_init_small:
  "map_option rb_buffer_size (rt_ringbuffer_init (replicate 7 0) 7) = Some 0"
  by (simp add: rt_ringbuffer_init_def)

end
