(* ===== verification/RingBlk.thy ===== *)
theory RingBlk
  imports Prelude
begin

section \<open>Ring block buffers (\<open>components/drivers/src/ringblk_buf.c\<close>)\<close>

text \<open>
  Blocks of a buffer that are allocated in ring order, filled, put, got and freed.  A block is known by
  its index in the block set; \<open>rbb_list\<close> is the singly linked list of blocks in the order of their
  allocation, a queue the index of its first block and a number of blocks.  Addresses are numbers; each operation holds the interrupt lock while it works.
\<close>

datatype rbb_status = RT_RBB_BLK_UNUSED | RT_RBB_BLK_INITED | RT_RBB_BLK_PUT | RT_RBB_BLK_GET

record rbb_blk =
  blk_status :: rbb_status
  blk_size :: "24 word"
  blk_buf :: nat

record rbb =
  rbb_buf :: nat
  rbb_buf_size :: u64
  rbb_set :: "rbb_blk list"
  rbb_max_num :: nat
  rbb_list :: "nat list"

record rbb_queue =
  rbq_blocks :: nat
  rbq_blk_num :: nat

abbreviation bk :: "rbb \<Rightarrow> nat \<Rightarrow> rbb_blk" where
  "bk r i \<equiv> rbb_set r ! i"

definition set_status :: "nat \<Rightarrow> rbb_status \<Rightarrow> rbb \<Rightarrow> rbb" where
  "set_status i st r = r\<lparr>rbb_set := (rbb_set r)[i := (bk r i)\<lparr>blk_status := st\<rparr>]\<rparr>"

definition rt_rbb_init :: "nat \<Rightarrow> u64 \<Rightarrow> rbb_blk list \<Rightarrow> rbb" where
  "rt_rbb_init buf buf_size block_set =
     \<lparr>rbb_buf = buf, rbb_buf_size = buf_size, rbb_set = map (\<lambda>b. b\<lparr>blk_status := RT_RBB_BLK_UNUSED\<rparr>) block_set,
      rbb_max_num = length block_set, rbb_list = []\<rparr>"

text \<open>The three results of \<open>rt_malloc\<close> are arguments; the second component is what is freed again.\<close>

definition rt_rbb_create :: "nat \<Rightarrow> nat \<Rightarrow> nat \<Rightarrow> u64 \<Rightarrow> rbb_blk list \<Rightarrow> (nat \<times> rbb) option \<times> nat list" where
  "rt_rbb_create p_rbb p_buf p_set buf_size block_set =
     (if p_rbb = 0 then (None, [])
      else if p_buf = 0 then (None, [p_rbb])
      else if p_set = 0 then (None, [p_buf, p_rbb])
      else (Some (p_rbb, rt_rbb_init p_buf buf_size block_set), []))"

definition find_empty_blk_in_set :: "rbb \<Rightarrow> nat option" where
  "find_empty_blk_in_set r = find (\<lambda>i. blk_status (bk r i) = RT_RBB_BLK_UNUSED) [0..<rbb_max_num r]"

definition rbb_place :: "nat \<Rightarrow> nat \<Rightarrow> u64 \<Rightarrow> rbb \<Rightarrow> nat option \<times> rbb" where
  "rbb_place i buf sz r =
     (Some i, r\<lparr>rbb_list := rbb_list r @ [i],
                rbb_set := (rbb_set r)[i := \<lparr>blk_status = RT_RBB_BLK_INITED, blk_size = ucast sz, blk_buf = buf\<rparr>]\<rparr>)"

definition rt_rbb_blk_alloc :: "u64 \<Rightarrow> rbb \<Rightarrow> (nat option \<times> rbb) option" where
  "rt_rbb_blk_alloc sz r =
     do { rt_assert (sz < 2 ^ 24);
          Some (case find_empty_blk_in_set r of
              None \<Rightarrow> (None, r)
            | Some new \<Rightarrow>
                if length (rbb_list r) < rbb_max_num r
                then if 0 < length (rbb_list r)
                  then let head = bk r (hd (rbb_list r));
                           tail = bk r (last (rbb_list r));
                           tail_end = blk_buf tail + unat (blk_size tail)
                       in if blk_buf head \<le> blk_buf tail
                          then let empty1 = (of_nat (rbb_buf r + unat (rbb_buf_size r)) - of_nat tail_end :: u64);
                                   empty2 = (of_nat (blk_buf head) - of_nat (rbb_buf r) :: u64)
                               in if empty1 \<ge> sz then rbb_place new tail_end sz r
                                  else if empty2 \<ge> sz then rbb_place new (rbb_buf r) sz r
                                  else (None, r)
                          else let empty1 = (of_nat (blk_buf head) - of_nat tail_end :: u64)
                               in if empty1 \<ge> sz then rbb_place new tail_end sz r
                                  else (None, r)
                  else rbb_place new (rbb_buf r) sz r
                else (None, r)) }"

definition rt_rbb_blk_put :: "nat \<Rightarrow> rbb \<Rightarrow> rbb option" where
  "rt_rbb_blk_put i r =
     do { rt_assert (blk_status (bk r i) = RT_RBB_BLK_INITED);
          Some (set_status i RT_RBB_BLK_PUT r) }"

definition rt_rbb_blk_get :: "rbb \<Rightarrow> nat option \<times> rbb" where
  "rt_rbb_blk_get r =
     (case find (\<lambda>i. blk_status (bk r i) = RT_RBB_BLK_PUT) (rbb_list r) of
        None \<Rightarrow> (None, r)
      | Some i \<Rightarrow> (Some i, set_status i RT_RBB_BLK_GET r))"

definition rt_rbb_blk_free :: "nat \<Rightarrow> rbb \<Rightarrow> rbb option" where
  "rt_rbb_blk_free i r =
     do { rt_assert (blk_status (bk r i) \<noteq> RT_RBB_BLK_UNUSED);
          Some (set_status i RT_RBB_BLK_UNUSED (r\<lparr>rbb_list := remove1 i (rbb_list r)\<rparr>)) }"

text \<open>The loop of \<open>rt_rbb_blk_queue_get\<close> runs over the list as it was: a removed node keeps its link.\<close>

fun queue_get_loop :: "u64 \<Rightarrow> nat list \<Rightarrow> nat option \<Rightarrow> u64 \<Rightarrow> rbb_queue \<Rightarrow> rbb \<Rightarrow> u64 \<times> rbb_queue \<times> rbb" where
  "queue_get_loop len [] lst tot q r = (tot, q, r)"
| "queue_get_loop len (i # xs) None tot q r =
     (if blk_status (bk r i) = RT_RBB_BLK_PUT
      then queue_get_loop len xs (Some i) (tot + ucast (blk_size (bk r i))) (q\<lparr>rbq_blocks := i, rbq_blk_num := 1\<rparr>)
             (set_status i RT_RBB_BLK_GET (r\<lparr>rbb_list := remove1 i (rbb_list r)\<rparr>))
      else queue_get_loop len xs None tot q r)"
| "queue_get_loop len (i # xs) (Some l) tot q r =
     (if blk_status (bk r i) \<noteq> RT_RBB_BLK_PUT \<or> blk_buf (bk r l) > blk_buf (bk r i) \<or>
         tot + ucast (blk_size (bk r i)) > len
      then (tot, q, r)
      else queue_get_loop len xs (Some i) (tot + ucast (blk_size (bk r i))) (q\<lparr>rbq_blk_num := rbq_blk_num q + 1\<rparr>)
             (set_status i RT_RBB_BLK_GET (r\<lparr>rbb_list := remove1 i (rbb_list r)\<rparr>)))"

definition rt_rbb_blk_queue_get :: "u64 \<Rightarrow> rbb_queue \<Rightarrow> rbb \<Rightarrow> u64 \<times> rbb_queue \<times> rbb" where
  "rt_rbb_blk_queue_get len q r = queue_get_loop len (rbb_list r) None 0 q r"

text \<open>The blocks of a queue are read as an array: behind the end of the block set is \<open>None\<close>.\<close>

fun queue_len_loop :: "nat \<Rightarrow> nat \<Rightarrow> u64 \<Rightarrow> rbb \<Rightarrow> u64 option" where
  "queue_len_loop i 0 tot r = Some tot"
| "queue_len_loop i (Suc n) tot r =
     do { rt_assert (i < length (rbb_set r)); queue_len_loop (Suc i) n (tot + ucast (blk_size (bk r i))) r }"

definition rt_rbb_blk_queue_len :: "rbb_queue \<Rightarrow> rbb \<Rightarrow> u64 option" where
  "rt_rbb_blk_queue_len q r = queue_len_loop (rbq_blocks q) (rbq_blk_num q) 0 r"

definition rt_rbb_blk_queue_buf :: "rbb_queue \<Rightarrow> rbb \<Rightarrow> nat" where
  "rt_rbb_blk_queue_buf q r = blk_buf (bk r (rbq_blocks q))"

fun queue_free_loop :: "nat \<Rightarrow> nat \<Rightarrow> rbb \<Rightarrow> rbb option" where
  "queue_free_loop i 0 r = Some r"
| "queue_free_loop i (Suc n) r =
     do { rt_assert (i < length (rbb_set r)); r \<leftarrow> rt_rbb_blk_free i r; queue_free_loop (Suc i) n r }"

definition rt_rbb_blk_queue_free :: "rbb_queue \<Rightarrow> rbb \<Rightarrow> rbb option" where
  "rt_rbb_blk_queue_free q r = queue_free_loop (rbq_blocks q) (rbq_blk_num q) r"

fun next_len_loop :: "nat list \<Rightarrow> nat option \<Rightarrow> u64 \<Rightarrow> rbb \<Rightarrow> u64" where
  "next_len_loop [] lst tot r = tot"
| "next_len_loop (i # xs) None tot r =
     (if blk_status (bk r i) = RT_RBB_BLK_PUT then next_len_loop xs (Some i) (tot + ucast (blk_size (bk r i))) r
      else next_len_loop xs None tot r)"
| "next_len_loop (i # xs) (Some l) tot r =
     (if blk_status (bk r i) \<noteq> RT_RBB_BLK_PUT \<or> blk_buf (bk r l) > blk_buf (bk r i) then tot
      else next_len_loop xs (Some i) (tot + ucast (blk_size (bk r i))) r)"

definition rt_rbb_next_blk_queue_len :: "rbb \<Rightarrow> u64" where
  "rt_rbb_next_blk_queue_len r = next_len_loop (rbb_list r) None 0 r"


subsection \<open>The layout of the blocks in the list\<close>

definition b_at :: "rbb \<Rightarrow> nat \<Rightarrow> nat" where
  "b_at r i = blk_buf (bk r i)"

definition b_end :: "rbb \<Rightarrow> nat \<Rightarrow> nat" where
  "b_end r i = blk_buf (bk r i) + unat (blk_size (bk r i))"

text \<open>The list is an ascending run \<open>us\<close>, followed, once the end of the buffer was reached, by an ascending
  run \<open>ls\<close> that lies below \<open>us\<close>.\<close>

definition rbb_layout :: "rbb \<Rightarrow> nat list \<Rightarrow> nat list \<Rightarrow> bool" where
  "rbb_layout r us ls \<longleftrightarrow> rbb_list r = us @ ls \<and> (us = [] \<longrightarrow> ls = []) \<and>
     sorted_wrt (\<lambda>i j. b_end r i \<le> b_at r j) us \<and> sorted_wrt (\<lambda>i j. b_end r i \<le> b_at r j) ls \<and>
     (\<forall>i\<in>set ls. \<forall>j\<in>set us. b_end r i \<le> b_at r j)"

definition rbb_blocks_ok :: "rbb \<Rightarrow> bool" where
  "rbb_blocks_ok r \<longleftrightarrow> length (rbb_set r) = rbb_max_num r \<and> rbb_buf r + unat (rbb_buf_size r) < 2 ^ 64 \<and> distinct (rbb_list r) \<and>
     (\<forall>i\<in>set (rbb_list r). i < rbb_max_num r \<and> blk_status (bk r i) \<noteq> RT_RBB_BLK_UNUSED \<and> b_at r i < b_end r i \<and>
        rbb_buf r \<le> b_at r i \<and> b_end r i \<le> rbb_buf r + unat (rbb_buf_size r))"

definition rbb_inv :: "rbb \<Rightarrow> bool" where
  "rbb_inv r \<longleftrightarrow> rbb_blocks_ok r \<and> (\<exists>us ls. rbb_layout r us ls)"

lemma layout_disjoint:
  assumes "rbb_inv r" "i \<in> set (rbb_list r)" "j \<in> set (rbb_list r)" "i \<noteq> j"
  shows "b_end r i \<le> b_at r j \<or> b_end r j \<le> b_at r i"
proof -
  obtain us ls where l: "rbb_list r = us @ ls" "sorted_wrt (\<lambda>i j. b_end r i \<le> b_at r j) us"
      "sorted_wrt (\<lambda>i j. b_end r i \<le> b_at r j) ls" "\<forall>i\<in>set ls. \<forall>j\<in>set us. b_end r i \<le> b_at r j"
    using assms(1) by (auto simp: rbb_inv_def rbb_layout_def)
  have pair: "b_end r i \<le> b_at r j \<or> b_end r j \<le> b_at r i" if "sorted_wrt (\<lambda>i j. b_end r i \<le> b_at r j) xs" "i \<in> set xs" "j \<in> set xs" for xs
  proof -
    note h = that
    obtain a b where "a < length xs" "xs ! a = i" "b < length xs" "xs ! b = j" using h(2,3) by (auto simp: in_set_conv_nth)
    then show ?thesis using sorted_wrt_nth_less [OF h(1), of a b] sorted_wrt_nth_less [OF h(1), of b a] assms(4)
      by (cases a b rule: linorder_cases) auto
  qed
  then show ?thesis using assms(2,3) l by auto
qed

text \<open>Taking blocks out of the list, or changing their status, keeps the layout.\<close>

lemma sorted_wrt_filter_le: "sorted_wrt P xs \<Longrightarrow> sorted_wrt P (filter Q xs)"
  by (induction xs) auto

lemma layout_filter:
  assumes "rbb_layout r us ls" "\<And>i. b_at r' i = b_at r i" "\<And>i. b_end r' i = b_end r i" "rbb_list r' = filter P (rbb_list r)"
  shows "\<exists>us ls. rbb_layout r' us ls"
proof (cases "filter P us = []")
  case True
  then have "rbb_layout r' (filter P ls) []" using assms by (auto simp: rbb_layout_def intro: sorted_wrt_filter_le)
  then show ?thesis by blast
next
  case False
  then have "rbb_layout r' (filter P us) (filter P ls)" using assms by (auto simp: rbb_layout_def intro: sorted_wrt_filter_le)
  then show ?thesis by blast
qed

lemma bk_set_status:
  "bk (set_status i st r) j = (if j = i \<and> i < length (rbb_set r) then (bk r i)\<lparr>blk_status := st\<rparr> else bk r j)"
  by (cases "i < length (rbb_set r)"; cases "j = i") (simp_all add: set_status_def list_update_beyond)

lemma set_status_simps [simp]:
  "rbb_buf (set_status i st r) = rbb_buf r" "rbb_buf_size (set_status i st r) = rbb_buf_size r"
  "rbb_max_num (set_status i st r) = rbb_max_num r" "rbb_list (set_status i st r) = rbb_list r"
  "length (rbb_set (set_status i st r)) = length (rbb_set r)"
  "b_at (set_status i st r) j = b_at r j" "b_end (set_status i st r) j = b_end r j"
  "blk_buf (bk (set_status i st r) j) = blk_buf (bk r j)" "blk_size (bk (set_status i st r) j) = blk_size (bk r j)"
  "i < length (rbb_set r) \<Longrightarrow> blk_status (bk (set_status i st r) j) = (if j = i then st else blk_status (bk r j))"
  by (simp_all add: bk_set_status b_at_def b_end_def) (simp_all add: set_status_def)

lemma list_update_simps [simp]:
  "b_at (r\<lparr>rbb_list := xs\<rparr>) j = b_at r j" "b_end (r\<lparr>rbb_list := xs\<rparr>) j = b_end r j"
  by (simp_all add: b_at_def b_end_def)

lemma rbb_inv_status:
  assumes "rbb_inv r" "st = RT_RBB_BLK_UNUSED \<longrightarrow> i \<notin> set (rbb_list r)" "i < rbb_max_num r"
  shows "rbb_inv (set_status i st r)"
proof -
  obtain us ls where l: "rbb_layout r us ls" using assms(1) by (auto simp: rbb_inv_def)
  have "\<exists>us ls. rbb_layout (set_status i st r) us ls"
    by (rule layout_filter [OF l, where P = "\<lambda>_. True"]) simp_all
  then show ?thesis using assms by (auto simp: rbb_inv_def rbb_blocks_ok_def)
qed

lemma rbb_inv_remove:
  assumes "rbb_inv r"
  shows "rbb_inv (r\<lparr>rbb_list := remove1 i (rbb_list r)\<rparr>)" "i \<notin> set (remove1 i (rbb_list r))"
    "set (remove1 i (rbb_list r)) = set (rbb_list r) - {i}"
proof -
  have d: "distinct (rbb_list r)" using assms by (simp add: rbb_inv_def rbb_blocks_ok_def)
  then show "i \<notin> set (remove1 i (rbb_list r))" "set (remove1 i (rbb_list r)) = set (rbb_list r) - {i}" by auto
  obtain us ls where l: "rbb_layout r us ls" using assms by (auto simp: rbb_inv_def)
  have "\<exists>us ls. rbb_layout (r\<lparr>rbb_list := remove1 i (rbb_list r)\<rparr>) us ls"
    by (rule layout_filter [OF l, where P = "(\<noteq>) i"]) (simp_all add: distinct_remove1_removeAll [OF d] removeAll_filter_not_eq)
  then show "rbb_inv (r\<lparr>rbb_list := remove1 i (rbb_list r)\<rparr>)"
    using assms d by (auto simp: rbb_inv_def rbb_blocks_ok_def)
qed


subsection \<open>Allocation\<close>

lemma find_empty:
  assumes "find_empty_blk_in_set r = Some i"
  shows "i < rbb_max_num r" "blk_status (bk r i) = RT_RBB_BLK_UNUSED" "\<forall>j<i. blk_status (bk r j) \<noteq> RT_RBB_BLK_UNUSED"
  using assms by (auto simp: find_empty_blk_in_set_def find_Some_iff)

lemma rbb_place_simps [simp]:
  assumes "i < length (rbb_set r)" "sz < 2 ^ 24"
  shows "b_at (snd (rbb_place i p sz r)) j = (if j = i then p else b_at r j)"
    "b_end (snd (rbb_place i p sz r)) j = (if j = i then p + unat sz else b_end r j)"
    "blk_status (bk (snd (rbb_place i p sz r)) j) = (if j = i then RT_RBB_BLK_INITED else blk_status (bk r j))"
proof -
  have "unat (ucast sz :: 24 word) = unat sz" using assms(2) by (subst unat_ucast_down) (simp_all add: word_less_nat_alt)
  then show "b_at (snd (rbb_place i p sz r)) j = (if j = i then p else b_at r j)"
    "b_end (snd (rbb_place i p sz r)) j = (if j = i then p + unat sz else b_end r j)"
    "blk_status (bk (snd (rbb_place i p sz r)) j) = (if j = i then RT_RBB_BLK_INITED else blk_status (bk r j))"
    using assms(1) by (simp_all add: rbb_place_def b_at_def b_end_def nth_list_update)
qed

lemma layout_edges:
  assumes "rbb_inv r" "rbb_layout r us ls" "xs = us \<or> xs = ls" "x \<in> set xs"
  shows "b_end r x \<le> b_end r (last xs)" "b_at r (hd xs) \<le> b_at r x"
proof -
  have s: "sorted_wrt (\<lambda>i j. b_end r i \<le> b_at r j) xs" using assms(2,3) by (auto simp: rbb_layout_def)
  have "set xs \<subseteq> set (rbb_list r)" using assms(2,3) by (auto simp: rbb_layout_def)
  then have pos: "\<forall>i\<in>set xs. b_at r i < b_end r i" using assms(1) by (auto simp: rbb_inv_def rbb_blocks_ok_def)
  show "b_at r (hd xs) \<le> b_at r x"
  proof (cases xs)
    case (Cons y ys)
    have "b_at r y < b_end r y" "x = y \<or> b_end r y \<le> b_at r x" using s pos assms(4) by (auto simp: Cons)
    then show ?thesis by (auto simp: Cons)
  qed (use assms(4) in simp)
  show "b_end r x \<le> b_end r (last xs)"
  proof (cases xs rule: rev_cases)
    case (snoc ys y)
    have "b_at r y < b_end r y" "x = y \<or> b_end r x \<le> b_at r y" using s pos assms(4) by (auto simp: snoc sorted_wrt_append)
    then show ?thesis by (auto simp: snoc)
  qed (use assms(4) in simp)
qed

text \<open>The new block behind the last one, or at the start of the buffer.\<close>

lemma rbb_blocks_ok_place:
  assumes inv: "rbb_inv r" and i: "i < rbb_max_num r" "i \<notin> set (rbb_list r)" and sz: "0 < sz" "sz < 2 ^ 24"
    and p: "rbb_buf r \<le> p" "p + unat sz \<le> rbb_buf r + unat (rbb_buf_size r)"
  shows "rbb_blocks_ok (snd (rbb_place i p sz r))"
proof -
  have len: "i < length (rbb_set r)" using inv i(1) by (simp add: rbb_inv_def rbb_blocks_ok_def)
  have pos: "0 < unat sz" using sz(1) by (simp add: word_less_nat_alt)
  have f: "rbb_list (snd (rbb_place i p sz r)) = rbb_list r @ [i]" "rbb_buf (snd (rbb_place i p sz r)) = rbb_buf r"
    "rbb_buf_size (snd (rbb_place i p sz r)) = rbb_buf_size r" "rbb_max_num (snd (rbb_place i p sz r)) = rbb_max_num r"
    "length (rbb_set (snd (rbb_place i p sz r))) = length (rbb_set r)" by (simp_all add: rbb_place_def)
  show ?thesis
    using inv i p pos unfolding rbb_inv_def rbb_blocks_ok_def f by (auto simp: rbb_place_simps [OF len sz(2)])
qed

lemma rbb_inv_place:
  assumes inv: "rbb_inv r" and i: "i < rbb_max_num r" "i \<notin> set (rbb_list r)" and sz: "0 < sz" "sz < 2 ^ 24"
    and l: "rbb_layout r us ls"
    and p: "rbb_buf r \<le> p" "p + unat sz \<le> rbb_buf r + unat (rbb_buf_size r)"
    and pos: "ls = [] \<and> (us \<noteq> [] \<longrightarrow> b_end r (last us) \<le> p) \<or>
      us \<noteq> [] \<and> (ls \<noteq> [] \<longrightarrow> b_end r (last ls) \<le> p) \<and> p + unat sz \<le> b_at r (hd us)"
  shows "rbb_inv (snd (rbb_place i p sz r))"
proof -
  let ?r = "snd (rbb_place i p sz r)"
  have len: "i < length (rbb_set r)" using inv i(1) by (simp add: rbb_inv_def rbb_blocks_ok_def)
  note P = rbb_place_simps [OF len sz(2), of p]
  have L: "rbb_list r = us @ ls" "rbb_list ?r = us @ ls @ [i]" using l by (simp_all add: rbb_layout_def rbb_place_def)
  have ni: "i \<notin> set us" "i \<notin> set ls" using i(2) L by auto
  have S: "sorted_wrt (\<lambda>a b. b_end ?r a \<le> b_at ?r b) us" "sorted_wrt (\<lambda>a b. b_end ?r a \<le> b_at ?r b) ls"
    "\<forall>a\<in>set ls. \<forall>b\<in>set us. b_end ?r a \<le> b_at ?r b"
    using l ni unfolding rbb_layout_def P by (auto elim!: sorted_wrt_mono_rel [rotated])
  note E = layout_edges [OF inv l]
  show ?thesis
  proof (cases "ls = [] \<and> (us \<noteq> [] \<longrightarrow> b_end r (last us) \<le> p)")
    case True
    have "\<forall>a\<in>set us. b_end r a \<le> p" using E(1) [of us] True by (auto intro: order_trans)
    then have "rbb_layout ?r (us @ [i]) []" using L S True ni by (auto simp: rbb_layout_def sorted_wrt_append P)
    then show ?thesis using rbb_blocks_ok_place [OF inv i sz p] by (auto simp: rbb_inv_def)
  next
    case False
    then have F: "us \<noteq> []" "ls \<noteq> [] \<longrightarrow> b_end r (last ls) \<le> p" "p + unat sz \<le> b_at r (hd us)" using pos by blast+
    have "\<forall>a\<in>set ls. b_end r a \<le> p" using E(1) [of ls] F(2) by (auto intro: order_trans)
    moreover have "\<forall>b\<in>set us. p + unat sz \<le> b_at r b" using E(2) [of us] F(3) by (auto intro: order_trans)
    ultimately have "rbb_layout ?r us (ls @ [i])" using L S F(1) ni by (auto simp: rbb_layout_def sorted_wrt_append P)
    then show ?thesis using rbb_blocks_ok_place [OF inv i sz p] by (auto simp: rbb_inv_def)
  qed
qed


text \<open>What allocation gives: a block that was unused, of the size asked for, apart from all blocks in the list.\<close>

lemma ptr_diff:
  assumes "b \<le> a" "a < 2 ^ 64"
  shows "unat (of_nat a - of_nat b :: u64) = a - b"
  using assms by (subst unat_sub) (simp_all add: word_le_nat_alt unat_of_nat_small)

text \<open>The place the code computes, with numbers for the pointer differences.\<close>

definition rbb_fits :: "rbb \<Rightarrow> nat list \<Rightarrow> nat list \<Rightarrow> nat \<Rightarrow> nat \<Rightarrow> bool" where
  "rbb_fits r us ls p n \<longleftrightarrow> rbb_buf r \<le> p \<and> p + n \<le> rbb_buf r + unat (rbb_buf_size r) \<and>
     (ls = [] \<and> (us \<noteq> [] \<longrightarrow> b_end r (last us) \<le> p) \<or>
      us \<noteq> [] \<and> (ls \<noteq> [] \<longrightarrow> b_end r (last ls) \<le> p) \<and> p + n \<le> b_at r (hd us))"

lemma place_choice:
  "x = Some (if A then f p else if B then f q else n) \<Longrightarrow> (A \<Longrightarrow> F p) \<Longrightarrow> (B \<Longrightarrow> F q) \<Longrightarrow>
   x = Some n \<or> (\<exists>p. x = Some (f p) \<and> F p)"
  by auto

lemma alloc_place:
  assumes inv: "rbb_inv r" and l: "rbb_layout r us ls" and sz: "sz < 2 ^ 24" "sz \<le> rbb_buf_size r"
    and i: "find_empty_blk_in_set r = Some i" and n: "length (rbb_list r) < rbb_max_num r" and ne: "rbb_list r \<noteq> []"
  shows "rt_rbb_blk_alloc sz r = Some (None, r) \<or> (\<exists>p. rt_rbb_blk_alloc sz r = Some (rbb_place i p sz r) \<and> rbb_fits r us ls p (unat sz))"
proof -
  let ?hd = "hd (rbb_list r)" and ?tl = "last (rbb_list r)"
  have us: "us \<noteq> []" using l ne by (auto simp: rbb_layout_def)
  have hd: "?hd = hd us" "?hd \<in> set us" using l us by (simp_all add: rbb_layout_def)
  have tl: "?tl = last (if ls = [] then us else ls)" using l ne by (simp add: rbb_layout_def)
  have "?tl \<in> set (rbb_list r)" "?hd \<in> set (rbb_list r)" using ne by simp_all
  then have b: "b_at r ?hd < b_end r ?hd" "rbb_buf r \<le> b_at r ?hd" "b_end r ?hd \<le> rbb_buf r + unat (rbb_buf_size r)"
    "b_at r ?tl < b_end r ?tl" "rbb_buf r \<le> b_at r ?tl" "b_end r ?tl \<le> rbb_buf r + unat (rbb_buf_size r)"
    "rbb_buf r + unat (rbb_buf_size r) < 2 ^ 64" using inv by (simp_all add: rbb_inv_def rbb_blocks_ok_def)
  have low: "ls \<noteq> [] \<Longrightarrow> b_end r ?tl \<le> b_at r ?hd" using l hd(2) tl by (simp add: rbb_layout_def)
  have wrapped: "b_at r ?hd \<le> b_at r ?tl \<longleftrightarrow> ls = []"
    using layout_edges(2) [OF inv l, of us ?tl] hd(1) tl us low b(4) by (cases "ls = []") simp_all
  let ?e1 = "if ls = [] then rbb_buf r + unat (rbb_buf_size r) - b_end r ?tl else b_at r ?hd - b_end r ?tl"
  have be: "b_at r x + unat (blk_size (bk r x)) = b_end r x" for x by (simp add: b_at_def b_end_def)
  have c: "sz \<le> of_nat (rbb_buf r + unat (rbb_buf_size r)) - of_nat (b_end r ?tl) \<longleftrightarrow> unat sz \<le> rbb_buf r + unat (rbb_buf_size r) - b_end r ?tl"
    "sz \<le> of_nat (b_at r ?hd) - of_nat (rbb_buf r) \<longleftrightarrow> unat sz \<le> b_at r ?hd - rbb_buf r"
    "ls \<noteq> [] \<Longrightarrow> sz \<le> of_nat (b_at r ?hd) - of_nat (b_end r ?tl) \<longleftrightarrow> unat sz \<le> b_at r ?hd - b_end r ?tl"
    using b low by (simp_all only: word_le_nat_alt) (subst ptr_diff, simp_all)+
  have e: "rt_rbb_blk_alloc sz r = Some (if unat sz \<le> ?e1 then rbb_place i (b_end r ?tl) sz r
      else if ls = [] \<and> unat sz \<le> b_at r ?hd - rbb_buf r then rbb_place i (rbb_buf r) sz r else (None, r))"
    using wrapped n ne sz(1) by (simp add: rt_rbb_blk_alloc_def i Let_def b_at_def [symmetric] be c del: of_nat_add)
  have "unat sz \<le> ?e1 \<Longrightarrow> rbb_fits r us ls (b_end r ?tl) (unat sz)"
    using b low us hd(1) tl by (auto simp: rbb_fits_def split: if_splits)
  moreover have "ls = [] \<and> unat sz \<le> b_at r ?hd - rbb_buf r \<Longrightarrow> rbb_fits r us ls (rbb_buf r) (unat sz)"
    using sz(2) b us hd(1) by (auto simp: rbb_fits_def word_le_nat_alt)
  ultimately show ?thesis by (rule place_choice [where f = "\<lambda>p. rbb_place i p sz r", OF e])
qed

lemma rt_rbb_blk_alloc_ok:
  assumes inv: "rbb_inv r" and sz: "0 < sz" "sz < 2 ^ 24" and fit: "sz \<le> rbb_buf_size r"
  obtains (none) "rt_rbb_blk_alloc sz r = Some (None, r)"
  | (some) i p where "rt_rbb_blk_alloc sz r = Some (Some i, snd (rbb_place i p sz r))" "rbb_inv (snd (rbb_place i p sz r))"
      "i < rbb_max_num r" "blk_status (bk r i) = RT_RBB_BLK_UNUSED" "i \<notin> set (rbb_list r)"
proof -
  obtain us ls where l: "rbb_layout r us ls" using inv by (auto simp: rbb_inv_def)
  show thesis
  proof (cases "\<exists>i p. rt_rbb_blk_alloc sz r = Some (rbb_place i p sz r) \<and> find_empty_blk_in_set r = Some i \<and> rbb_fits r us ls p (unat sz)")
    case True
    then obtain i p where A: "rt_rbb_blk_alloc sz r = Some (rbb_place i p sz r)" "find_empty_blk_in_set r = Some i" "rbb_fits r us ls p (unat sz)" by blast
    have i: "i < rbb_max_num r" "blk_status (bk r i) = RT_RBB_BLK_UNUSED" using find_empty [OF A(2)] by simp_all
    then have ni: "i \<notin> set (rbb_list r)" using inv by (auto simp: rbb_inv_def rbb_blocks_ok_def)
    have "rbb_inv (snd (rbb_place i p sz r))"
      by (rule rbb_inv_place [OF inv i(1) ni sz l]) (use A(3) in \<open>simp_all add: rbb_fits_def\<close>)
    then show thesis using some [of i p] A(1) i ni by (simp add: rbb_place_def)
  next
    case False
    consider (slot) "find_empty_blk_in_set r = None" | (full) "\<not> length (rbb_list r) < rbb_max_num r"
      | (empty) i where "find_empty_blk_in_set r = Some i" "length (rbb_list r) < rbb_max_num r" "rbb_list r = []"
      | (blocks) i where "find_empty_blk_in_set r = Some i" "length (rbb_list r) < rbb_max_num r" "rbb_list r \<noteq> []"
      by (cases "find_empty_blk_in_set r") blast+
    then show thesis
    proof cases
      case slot
      then show thesis using none sz(2) by (simp add: rt_rbb_blk_alloc_def)
    next
      case full
      then show thesis using none sz(2) by (simp add: rt_rbb_blk_alloc_def split: option.split)
    next
      case (empty i)
      have "rbb_fits r us ls (rbb_buf r) (unat sz)" using l empty(3) fit by (auto simp: rbb_layout_def rbb_fits_def word_le_nat_alt)
      moreover have "rt_rbb_blk_alloc sz r = Some (rbb_place i (rbb_buf r) sz r)" using empty sz(2) by (simp add: rt_rbb_blk_alloc_def)
      ultimately show thesis using False empty(1) by blast
    next
      case (blocks i)
      then show thesis using alloc_place [OF inv l sz(2) fit blocks] False none by blast
    qed
  qed
qed


subsection \<open>Getting and freeing\<close>

lemma rt_rbb_blk_get_ok:
  assumes "rbb_inv r"
  shows "rbb_inv (snd (rt_rbb_blk_get r))" "rbb_list (snd (rt_rbb_blk_get r)) = rbb_list r"
    "fst (rt_rbb_blk_get r) = find (\<lambda>i. blk_status (bk r i) = RT_RBB_BLK_PUT) (rbb_list r)"
proof -
  show "rbb_inv (snd (rt_rbb_blk_get r))"
  proof (cases "find (\<lambda>i. blk_status (bk r i) = RT_RBB_BLK_PUT) (rbb_list r)")
    case (Some i)
    then have "i \<in> set (rbb_list r)" by (metis find_Some_iff nth_mem)
    then have "i < rbb_max_num r" using assms by (simp add: rbb_inv_def rbb_blocks_ok_def)
    then show ?thesis using rbb_inv_status [OF assms, of RT_RBB_BLK_GET i] Some by (simp add: rt_rbb_blk_get_def)
  qed (use assms in \<open>simp add: rt_rbb_blk_get_def\<close>)
  show "rbb_list (snd (rt_rbb_blk_get r)) = rbb_list r"
    "fst (rt_rbb_blk_get r) = find (\<lambda>i. blk_status (bk r i) = RT_RBB_BLK_PUT) (rbb_list r)"
    by (simp_all add: rt_rbb_blk_get_def split: option.split)
qed

lemma rbb_inv_drop:
  assumes "rbb_inv r" "i < rbb_max_num r"
  shows "rbb_inv (set_status i st (r\<lparr>rbb_list := remove1 i (rbb_list r)\<rparr>))"
  using rbb_inv_status [OF rbb_inv_remove(1) [OF assms(1)], of st i i] rbb_inv_remove(2) [OF assms(1), of i] assms(2) by simp

text \<open>The run of blocks \<open>rt_rbb_blk_queue_get\<close> takes, behind its first one: put, not behind the wrap, and within the length.\<close>

fun queue_run :: "rbb \<Rightarrow> u64 \<Rightarrow> nat \<Rightarrow> u64 \<Rightarrow> nat list \<Rightarrow> nat list" where
  "queue_run r len l tot [] = []"
| "queue_run r len l tot (i # xs) =
     (if blk_status (bk r i) = RT_RBB_BLK_PUT \<and> b_at r l \<le> b_at r i \<and> tot + ucast (blk_size (bk r i)) \<le> len
      then i # queue_run r len i (tot + ucast (blk_size (bk r i))) xs else [])"

definition queue_taken :: "rbb \<Rightarrow> u64 \<Rightarrow> nat list" where
  "queue_taken r len =
     (case dropWhile (\<lambda>i. blk_status (bk r i) \<noteq> RT_RBB_BLK_PUT) (rbb_list r) of
        [] \<Rightarrow> []
      | i # xs \<Rightarrow> i # queue_run r len i (ucast (blk_size (bk r i))) xs)"

text \<open>All the blocks of a list are taken out and marked.\<close>

definition take_blocks :: "nat list \<Rightarrow> rbb \<Rightarrow> rbb" where
  "take_blocks xs r = fold (\<lambda>i r. set_status i RT_RBB_BLK_GET (r\<lparr>rbb_list := remove1 i (rbb_list r)\<rparr>)) xs r"

lemma take_blocks_simps [simp]:
  "take_blocks [] r = r"
  "take_blocks (i # xs) r = take_blocks xs (set_status i RT_RBB_BLK_GET (r\<lparr>rbb_list := remove1 i (rbb_list r)\<rparr>))"
  by (simp_all add: take_blocks_def)

definition blocks_len :: "rbb \<Rightarrow> nat list \<Rightarrow> u64" where
  "blocks_len r xs = sum_list (map (\<lambda>i. ucast (blk_size (bk r i))) xs)"

lemma queue_run_cong:
  "(\<And>i. i \<in> set xs \<Longrightarrow> blk_status (bk r' i) = blk_status (bk r i)) \<Longrightarrow> (\<And>i. b_at r' i = b_at r i) \<Longrightarrow>
   (\<And>i. blk_size (bk r' i) = blk_size (bk r i)) \<Longrightarrow> queue_run r' len l tot xs = queue_run r len l tot xs"
  by (induction xs arbitrary: l tot) auto

lemma queue_get_loop_run:
  "distinct xs \<Longrightarrow> queue_get_loop len xs (Some l) tot q r =
     (tot + blocks_len r (queue_run r len l tot xs), q\<lparr>rbq_blk_num := rbq_blk_num q + length (queue_run r len l tot xs)\<rparr>,
      take_blocks (queue_run r len l tot xs) r)"
proof (induction xs arbitrary: l tot q r)
  case (Cons i xs)
  let ?r = "set_status i RT_RBB_BLK_GET (r\<lparr>rbb_list := remove1 i (rbb_list r)\<rparr>)"
  have f: "\<And>j. blk_size (bk ?r j) = blk_size (bk r j)" "\<And>j. b_at ?r j = b_at r j" "\<And>j. j \<in> set xs \<Longrightarrow> blk_status (bk ?r j) = blk_status (bk r j)"
    using Cons.prems by (auto simp: bk_set_status)
  have "queue_run ?r len i t xs = queue_run r len i t xs" for t by (rule queue_run_cong) (simp_all add: f)
  moreover have "blocks_len ?r ys = blocks_len r ys" for ys by (simp add: blocks_len_def f)
  moreover note Cons.IH [of i "tot + ucast (blk_size (bk r i))" "q\<lparr>rbq_blk_num := rbq_blk_num q + 1\<rparr>" ?r]
  ultimately show ?case
    using Cons.prems by (auto simp: b_at_def blocks_len_def add.assoc dest: leD)
qed (simp add: blocks_len_def)


lemma queue_get_loop_start:
  "distinct xs \<Longrightarrow> queue_get_loop len xs None 0 q r =
     (case dropWhile (\<lambda>i. blk_status (bk r i) \<noteq> RT_RBB_BLK_PUT) xs of
        [] \<Rightarrow> (0, q, r)
      | i # ys \<Rightarrow> let ts = i # queue_run r len i (ucast (blk_size (bk r i))) ys
          in (blocks_len r ts, \<lparr>rbq_blocks = i, rbq_blk_num = length ts\<rparr>, take_blocks ts r))"
proof (induction xs)
  case (Cons i xs)
  let ?r = "set_status i RT_RBB_BLK_GET (r\<lparr>rbb_list := remove1 i (rbb_list r)\<rparr>)"
  show ?case
  proof (cases "blk_status (bk r i) = RT_RBB_BLK_PUT")
    case True
    have f: "\<And>j. blk_size (bk ?r j) = blk_size (bk r j)" "\<And>j. b_at ?r j = b_at r j" "\<And>j. j \<in> set xs \<Longrightarrow> blk_status (bk ?r j) = blk_status (bk r j)"
      using Cons.prems by (auto simp: bk_set_status)
    have "queue_run ?r len i t xs = queue_run r len i t xs" for t by (rule queue_run_cong) (simp_all add: f)
    moreover have "blocks_len ?r ys = blocks_len r ys" for ys by (simp add: blocks_len_def f)
    ultimately show ?thesis
      using True Cons.prems queue_get_loop_run [of xs len i "ucast (blk_size (bk r i))" "q\<lparr>rbq_blocks := i, rbq_blk_num := 1\<rparr>" ?r]
      by (simp add: Let_def blocks_len_def)
  qed (use Cons in simp)
qed simp

lemma rt_rbb_blk_queue_get_eq:
  assumes "rbb_inv r"
  shows "rt_rbb_blk_queue_get len q r =
    (blocks_len r (queue_taken r len),
     if queue_taken r len = [] then q else \<lparr>rbq_blocks = hd (queue_taken r len), rbq_blk_num = length (queue_taken r len)\<rparr>,
     take_blocks (queue_taken r len) r)"
proof -
  have "distinct (rbb_list r)" using assms by (simp add: rbb_inv_def rbb_blocks_ok_def)
  then show ?thesis
    unfolding rt_rbb_blk_queue_get_def queue_taken_def
    by (cases "dropWhile (\<lambda>i. blk_status (bk r i) \<noteq> RT_RBB_BLK_PUT) (rbb_list r)")
      (simp_all add: queue_get_loop_start Let_def blocks_len_def del: dropWhile_eq_Nil_conv)
qed

lemma queue_taken_props:
  shows "set (queue_run r len l tot xs) \<subseteq> set xs" "\<forall>i\<in>set (queue_run r len l tot xs). blk_status (bk r i) = RT_RBB_BLK_PUT"
    "set (queue_taken r len) \<subseteq> set (rbb_list r)" "\<forall>i\<in>set (queue_taken r len). blk_status (bk r i) = RT_RBB_BLK_PUT"
proof -
  show s: "set (queue_run r len l tot xs) \<subseteq> set xs" for len l tot xs by (induction xs arbitrary: l tot) auto
  show p: "\<forall>i\<in>set (queue_run r len l tot xs). blk_status (bk r i) = RT_RBB_BLK_PUT" for len l tot xs by (induction xs arbitrary: l tot) auto
  let ?P = "\<lambda>i. blk_status (bk r i) \<noteq> RT_RBB_BLK_PUT"
  have "set (queue_taken r len) \<subseteq> set (rbb_list r) \<and> (\<forall>i\<in>set (queue_taken r len). blk_status (bk r i) = RT_RBB_BLK_PUT)"
  proof (cases "dropWhile ?P (rbb_list r)")
    case (Cons i ys)
    then have i: "blk_status (bk r i) = RT_RBB_BLK_PUT" by (simp add: dropWhile_eq_Cons_conv)
    have sub: "insert i (set ys) \<subseteq> set (rbb_list r)" using set_dropWhileD [of _ ?P "rbb_list r"] Cons by auto
    show ?thesis using i sub s [of len i "ucast (blk_size (bk r i))" ys] p [of len i "ucast (blk_size (bk r i))" ys]
      by (auto simp: queue_taken_def Cons)
  qed (simp add: queue_taken_def del: dropWhile_eq_Nil_conv)
  then show "set (queue_taken r len) \<subseteq> set (rbb_list r)" "\<forall>i\<in>set (queue_taken r len). blk_status (bk r i) = RT_RBB_BLK_PUT"
    by blast+
qed

lemma take_blocks_ok:
  "rbb_inv r \<Longrightarrow> set xs \<subseteq> {i. i < rbb_max_num r} \<Longrightarrow>
   rbb_inv (take_blocks xs r) \<and> rbb_list (take_blocks xs r) = filter (\<lambda>i. i \<notin> set xs) (rbb_list r) \<and>
   rbb_max_num (take_blocks xs r) = rbb_max_num r \<and>
   (\<forall>j. blk_status (bk (take_blocks xs r) j) = (if j \<in> set xs then RT_RBB_BLK_GET else blk_status (bk r j)))"
proof (induction xs arbitrary: r)
  case (Cons i xs)
  let ?r = "set_status i RT_RBB_BLK_GET (r\<lparr>rbb_list := remove1 i (rbb_list r)\<rparr>)"
  have i: "i < rbb_max_num r" "distinct (rbb_list r)" "i < length (rbb_set r)" using Cons.prems by (simp_all add: rbb_inv_def rbb_blocks_ok_def)
  have l: "remove1 i (rbb_list r) = filter ((\<noteq>) i) (rbb_list r)" using i(2) by (simp add: distinct_remove1_removeAll removeAll_filter_not_eq)
  have "rbb_inv ?r" by (rule rbb_inv_drop [OF Cons.prems(1) i(1)])
  then have "rbb_inv (take_blocks xs ?r) \<and> rbb_list (take_blocks xs ?r) = filter (\<lambda>i. i \<notin> set xs) (rbb_list ?r) \<and>
      rbb_max_num (take_blocks xs ?r) = rbb_max_num ?r \<and>
      (\<forall>j. blk_status (bk (take_blocks xs ?r) j) = (if j \<in> set xs then RT_RBB_BLK_GET else blk_status (bk ?r j)))"
    using Cons.prems by (intro Cons.IH) simp_all
  then show ?case using i(3) by (auto simp: l intro!: filter_cong)
qed simp


subsection \<open>Correctness\<close>

text \<open>The states a producer and a consumer bring a buffer to.  They allocate no more than the buffer, and
  never nothing: an empty buffer does not check a request against its size.\<close>

inductive rbb_run :: "rbb \<Rightarrow> bool" where
  rbb_start: "rbb_run (rt_rbb_init buf sz bs)" if "buf + unat sz < 2 ^ 64"
| rbb_alloc: "rbb_run r'" if "rbb_run r" "0 < sz" "sz < 2 ^ 24" "sz \<le> rbb_buf_size r" "rt_rbb_blk_alloc sz r = Some (i, r')"
| rbb_put: "rbb_run r'" if "rbb_run r" "i < rbb_max_num r" "rt_rbb_blk_put i r = Some r'"
| rbb_get: "rbb_run r'" if "rbb_run r" "rt_rbb_blk_get r = (i, r')"
| rbb_free: "rbb_run r'" if "rbb_run r" "i < rbb_max_num r" "rt_rbb_blk_free i r = Some r'"
| rbb_queue_get: "rbb_run r'" if "rbb_run r" "rt_rbb_blk_queue_get len q r = (tot, q', r')"

lemma rt_rbb_init_ok: "buf + unat sz < 2 ^ 64 \<Longrightarrow> rbb_inv (rt_rbb_init buf sz bs)"
  by (auto simp: rbb_inv_def rbb_blocks_ok_def rbb_layout_def rt_rbb_init_def)

lemma rbb_run_inv: "rbb_run r \<Longrightarrow> rbb_inv r"
proof (induction rule: rbb_run.induct)
  case (rbb_start buf sz bs)
  then show ?case by (rule rt_rbb_init_ok)
next
  case (rbb_alloc r sz i r')
  show ?case
    by (rule rt_rbb_blk_alloc_ok [OF rbb_alloc.IH rbb_alloc(2-4)]) (use rbb_alloc in auto)
next
  case (rbb_put r i r')
  then show ?case using rbb_inv_status [of r RT_RBB_BLK_PUT i] by (auto simp: rt_rbb_blk_put_def split: if_splits)
next
  case (rbb_get r i r')
  then show ?case using rt_rbb_blk_get_ok(1) [of r] by simp
next
  case (rbb_free r i r')
  then show ?case using rbb_inv_drop [of r i] by (auto simp: rt_rbb_blk_free_def split: if_splits)
next
  case (rbb_queue_get r len q tot q' r')
  have "set (queue_taken r len) \<subseteq> {i. i < rbb_max_num r}"
    using queue_taken_props(3) [of r len] rbb_queue_get.IH by (auto simp: rbb_inv_def rbb_blocks_ok_def)
  then show ?case
    using take_blocks_ok [OF rbb_queue_get.IH] rbb_queue_get by (auto simp: rt_rbb_blk_queue_get_eq)
qed

text \<open>Fact: In every state of a ring block buffer that can be reached with requests between 1 and the size of the
  buffer, allocation fails no assertion, changes nothing when it returns NULL, and otherwise returns an unused block
  at the end of the list that holds the request, lies in the buffer and is apart from every other block of the list.\<close>

theorem rbb_alloc_safe:
  assumes "rbb_run r" "0 < sz" "sz < 2 ^ 24" "sz \<le> rbb_buf_size r"
  shows "\<exists>res r'. rt_rbb_blk_alloc sz r = Some (res, r') \<and>
    (case res of
       None \<Rightarrow> r' = r
     | Some i \<Rightarrow> blk_status (bk r i) = RT_RBB_BLK_UNUSED \<and> blk_status (bk r' i) = RT_RBB_BLK_INITED \<and>
         rbb_list r' = rbb_list r @ [i] \<and> b_end r' i = b_at r' i + unat sz \<and>
         rbb_buf r' \<le> b_at r' i \<and> b_end r' i \<le> rbb_buf r' + unat (rbb_buf_size r') \<and>
         (\<forall>j\<in>set (rbb_list r). b_at r' j = b_at r j \<and> b_end r' j = b_end r j \<and> (b_end r' j \<le> b_at r' i \<or> b_end r' i \<le> b_at r' j)))"
proof (cases rule: rt_rbb_blk_alloc_ok [OF rbb_run_inv [OF assms(1)] assms(2-4)])
  case 1
  then show ?thesis by simp
next
  case (2 i p)
  let ?r = "snd (rbb_place i p sz r)"
  have inv: "rbb_inv r" by (rule rbb_run_inv [OF assms(1)])
  have len: "i < length (rbb_set r)" using inv 2(3) by (simp add: rbb_inv_def rbb_blocks_ok_def)
  note P = rbb_place_simps [OF len assms(3), of p]
  have L: "rbb_list ?r = rbb_list r @ [i]" by (simp add: rbb_place_def)
  have "b_end ?r j \<le> b_at ?r i \<or> b_end ?r i \<le> b_at ?r j" if "j \<in> set (rbb_list r)" for j
    using layout_disjoint [OF 2(2), of j i] that 2(5) L by auto
  moreover have "rbb_buf ?r \<le> b_at ?r i \<and> b_end ?r i \<le> rbb_buf ?r + unat (rbb_buf_size ?r)"
    using 2(2) L by (simp add: rbb_inv_def rbb_blocks_ok_def)
  moreover have "j \<noteq> i" if "j \<in> set (rbb_list r)" for j using that 2(5) by blast
  ultimately show ?thesis using 2(1,4) L P by auto
qed

text \<open>Fact: rt_rbb_blk_queue_get takes the first filled block and the filled blocks that follow it without a wrap, as
  long as the length allows: it returns their total size, takes exactly them out of the list and marks them.\<close>

theorem rt_rbb_blk_queue_get_spec:
  assumes "rbb_run r"
  shows "\<exists>q' r'. rt_rbb_blk_queue_get len q r = (blocks_len r (queue_taken r len), q', r') \<and>
    (queue_taken r len \<noteq> [] \<longrightarrow> rbq_blocks q' = hd (queue_taken r len) \<and> rbq_blk_num q' = length (queue_taken r len)) \<and>
    rbb_list r' = filter (\<lambda>i. i \<notin> set (queue_taken r len)) (rbb_list r) \<and>
    (\<forall>i\<in>set (queue_taken r len). blk_status (bk r i) = RT_RBB_BLK_PUT \<and> blk_status (bk r' i) = RT_RBB_BLK_GET) \<and>
    (\<forall>i. i \<notin> set (queue_taken r len) \<longrightarrow> blk_status (bk r' i) = blk_status (bk r i))"
proof -
  have inv: "rbb_inv r" by (rule rbb_run_inv [OF assms])
  have "set (queue_taken r len) \<subseteq> {i. i < rbb_max_num r}"
    using queue_taken_props(3) [of r len] inv by (auto simp: rbb_inv_def rbb_blocks_ok_def)
  from take_blocks_ok [OF inv this] show ?thesis
    using queue_taken_props(4) [of r len] by (simp add: rt_rbb_blk_queue_get_eq [OF inv])
qed

text \<open>A buffer of 8 bytes at 100 with two blocks.\<close>

definition sample_rbb :: rbb where
  "sample_rbb = rt_rbb_init 100 8 (replicate 2 \<lparr>blk_status = RT_RBB_BLK_UNUSED, blk_size = 0, blk_buf = 0\<rparr>)"

theorem rbb_alloc_safe_witness:
  "\<exists>res r'. rt_rbb_blk_alloc 4 sample_rbb = Some (res, r')"
  using rbb_alloc_safe [OF rbb_start, of 100 8 4 "replicate 2 \<lparr>blk_status = RT_RBB_BLK_UNUSED, blk_size = 0, blk_buf = 0\<rparr>"]
  by (auto simp: sample_rbb_def rt_rbb_init_def)

text \<open>What \<open>rt_rbb_blk_queue_get\<close> has taken out is not protected until it is freed: its place is given to the next block.\<close>

lemma queue_get_unprotected:
  "do { (i, r) \<leftarrow> rt_rbb_blk_alloc 8 sample_rbb;
        r \<leftarrow> rt_rbb_blk_put 0 r;
        let (n, q, r) = rt_rbb_blk_queue_get 8 \<lparr>rbq_blocks = 0, rbq_blk_num = 0\<rparr> r;
        (j, r) \<leftarrow> rt_rbb_blk_alloc 8 r;
        Some (n, i, j, blk_status (bk r 0), blk_buf (bk r 0), blk_buf (bk r 1)) }
   = Some (8, Some 0, Some 1, RT_RBB_BLK_GET, 100, 100)"
  by code_simp

text \<open>An empty buffer gives out a block that is longer than it.\<close>

lemma empty_rbb_unchecked:
  "map_option (\<lambda>(i, r). (i, blk_buf (bk r 0), unat (blk_size (bk r 0)))) (rt_rbb_blk_alloc 100 sample_rbb) = Some (Some 0, 100, 100)"
  by code_simp

end
