(* ===== verification/Kservice.thy ===== *)
theory Kservice
  imports Prelude
begin

section \<open>Kernel services (\<open>src/kservice.c\<close>)\<close>

subsection \<open>Find first set\<close>

text \<open>The table gives the index of the lowest set bit of a byte; 0 for byte 0.\<close>

definition lowest_bit_bitmap :: "nat list" where
  "lowest_bit_bitmap =
    [0, 0, 1, 0, 2, 0, 1, 0, 3, 0, 1, 0, 2, 0, 1, 0,
     4, 0, 1, 0, 2, 0, 1, 0, 3, 0, 1, 0, 2, 0, 1, 0,
     5, 0, 1, 0, 2, 0, 1, 0, 3, 0, 1, 0, 2, 0, 1, 0,
     4, 0, 1, 0, 2, 0, 1, 0, 3, 0, 1, 0, 2, 0, 1, 0,
     6, 0, 1, 0, 2, 0, 1, 0, 3, 0, 1, 0, 2, 0, 1, 0,
     4, 0, 1, 0, 2, 0, 1, 0, 3, 0, 1, 0, 2, 0, 1, 0,
     5, 0, 1, 0, 2, 0, 1, 0, 3, 0, 1, 0, 2, 0, 1, 0,
     4, 0, 1, 0, 2, 0, 1, 0, 3, 0, 1, 0, 2, 0, 1, 0,
     7, 0, 1, 0, 2, 0, 1, 0, 3, 0, 1, 0, 2, 0, 1, 0,
     4, 0, 1, 0, 2, 0, 1, 0, 3, 0, 1, 0, 2, 0, 1, 0,
     5, 0, 1, 0, 2, 0, 1, 0, 3, 0, 1, 0, 2, 0, 1, 0,
     4, 0, 1, 0, 2, 0, 1, 0, 3, 0, 1, 0, 2, 0, 1, 0,
     6, 0, 1, 0, 2, 0, 1, 0, 3, 0, 1, 0, 2, 0, 1, 0,
     4, 0, 1, 0, 2, 0, 1, 0, 3, 0, 1, 0, 2, 0, 1, 0,
     5, 0, 1, 0, 2, 0, 1, 0, 3, 0, 1, 0, 2, 0, 1, 0,
     4, 0, 1, 0, 2, 0, 1, 0, 3, 0, 1, 0, 2, 0, 1, 0]"

definition rt_ffs :: "u32 \<Rightarrow> nat" where
  "rt_ffs v =
     (if v = 0 then 0
      else if v AND 0xff \<noteq> 0 then lowest_bit_bitmap ! unat (v AND 0xff) + 1
      else if v AND 0xff00 \<noteq> 0 then lowest_bit_bitmap ! unat (drop_bit 8 (v AND 0xff00)) + 9
      else if v AND 0xff0000 \<noteq> 0 then lowest_bit_bitmap ! unat (drop_bit 16 (v AND 0xff0000)) + 17
      else lowest_bit_bitmap ! unat (drop_bit 24 (v AND 0xff000000)) + 25)"

definition lowest_of :: "int \<Rightarrow> nat \<Rightarrow> bool" where
  "lowest_of b n \<longleftrightarrow> bit b n \<and> list_all (\<lambda>m. \<not> bit b m) [0..<n] \<and> n < 8"

lemma table_zip: "list_all (\<lambda>(b, n). lowest_of b n) (zip [1..255] (tl lowest_bit_bitmap))"
  by code_simp

lemma length_table [simp]: "length lowest_bit_bitmap = 256"
  by (simp add: lowest_bit_bitmap_def)

lemma table_byte:
  assumes "b < 256" "b \<noteq> 0"
  shows "bit b (lowest_bit_bitmap ! b)" "m < lowest_bit_bitmap ! b \<Longrightarrow> \<not> bit b m"
    "lowest_bit_bitmap ! b < 8"
proof -
  have "lowest_of ([1..255] ! (b - 1)) (tl lowest_bit_bitmap ! (b - 1))"
    using table_zip assms by (auto simp: list_all_length dest!: spec [of _ "b - 1"])
  moreover have "[1..255] ! (b - 1) = int b" using assms by (simp add: nth_upto of_nat_diff)
  moreover have "tl lowest_bit_bitmap ! (b - 1) = lowest_bit_bitmap ! b"
    using assms by (simp add: nth_tl)
  ultimately have "lowest_of (int b) (lowest_bit_bitmap ! b)" by simp
  then show "bit b (lowest_bit_bitmap ! b)" "m < lowest_bit_bitmap ! b \<Longrightarrow> \<not> bit b m"
    "lowest_bit_bitmap ! b < 8"
    by (auto simp: lowest_of_def list_all_iff bit_of_nat_iff_bit)
qed

text \<open>The byte of \<open>v\<close> that a mask selects.\<close>

definition byte_at :: "u32 \<Rightarrow> nat \<Rightarrow> u32" where
  "byte_at v n = take_bit 8 (drop_bit n v)"

lemma bit_byte_at: "n \<le> 24 \<Longrightarrow> bit (byte_at v n) j \<longleftrightarrow> j < 8 \<and> bit v (n + j)"
  by (auto simp: byte_at_def bit_simps)

lemma unat_byte_at: "bit (unat (byte_at v n)) j \<longleftrightarrow> bit (byte_at v n) j" "unat (byte_at v n) < 256"
proof -
  show "bit (unat (byte_at v n)) j \<longleftrightarrow> bit (byte_at v n) j"
    by (auto simp: bit_simps dest: bit_imp_le_length)
  have "unat (byte_at v n) = take_bit 8 (unat (drop_bit n v))"
    by (simp add: byte_at_def unsigned_take_bit_eq)
  then show "unat (byte_at v n) < 256"
    using take_bit_nat_less_exp [of 8 "unat (drop_bit n v)"] by simp
qed

lemma mask_byte_at:
  "v AND 0xff = byte_at v 0"
  "v AND 0xff00 = push_bit 8 (byte_at v 8)"
  "v AND 0xff0000 = push_bit 16 (byte_at v 16)"
  "v AND 0xff000000 = push_bit 24 (byte_at v 24)"
proof -
  have "(0xff :: u32) = push_bit 0 (mask 8)" "(0xff00 :: u32) = push_bit 8 (mask 8)"
    "(0xff0000 :: u32) = push_bit 16 (mask 8)" "(0xff000000 :: u32) = push_bit 24 (mask 8)"
    by (simp_all add: mask_eq_exp_minus_1 push_bit_eq_mult)
  note eqs = this
  have g: "v AND push_bit n (mask 8) = push_bit n (byte_at v n)" if "n \<le> 24" for n
    using that by (intro bit_eqI) (auto simp: bit_simps byte_at_def)
  show "v AND 0xff = byte_at v 0" using g [of 0] by (simp add: eqs(1))
  show "v AND 0xff00 = push_bit 8 (byte_at v 8)" unfolding eqs using g by simp
  show "v AND 0xff0000 = push_bit 16 (byte_at v 16)" unfolding eqs using g by simp
  show "v AND 0xff000000 = push_bit 24 (byte_at v 24)" unfolding eqs using g by simp
qed

lemma push_byte_at:
  "n \<le> 24 \<Longrightarrow> drop_bit n (push_bit n (byte_at v n)) = byte_at v n"
  "n \<le> 24 \<Longrightarrow> push_bit n (byte_at v n) = 0 \<longleftrightarrow> byte_at v n = 0"
proof -
  show *: "drop_bit n (push_bit n (byte_at v n)) = byte_at v n" if "n \<le> 24"
    using that by (intro bit_eqI) (auto simp: bit_simps byte_at_def)
  show "push_bit n (byte_at v n) = 0 \<longleftrightarrow> byte_at v n = 0" if "n \<le> 24"
    using * [OF that] by auto
qed

lemma lowest_in_byte:
  assumes "byte_at v n \<noteq> 0" and "n \<le> 24"
    and low: "\<And>m. m < n \<Longrightarrow> \<not> bit v m"
  defines "i \<equiv> n + lowest_bit_bitmap ! unat (byte_at v n)"
  shows "i < 32 \<and> bit v i \<and> (\<forall>m < i. \<not> bit v m)"
proof -
  have nz: "unat (byte_at v n) \<noteq> 0" using assms(1) by (simp add: unat_eq_zero)
  note T = table_byte [OF unat_byte_at(2) nz]
  have "\<not> bit v m" if "m < i" for m
  proof (cases "m < n")
    case False
    with that have "m - n < lowest_bit_bitmap ! unat (byte_at v n)" by (auto simp: i_def)
    with T(2) [OF this] T(3) assms(2) False show ?thesis
      by (auto simp: unat_byte_at bit_byte_at)
  qed (use low in blast)
  with T assms(2) show ?thesis by (auto simp: i_def unat_byte_at bit_byte_at)
qed

lemma byte_zero: "byte_at v n = 0 \<Longrightarrow> n \<le> 24 \<Longrightarrow> n \<le> m \<Longrightarrow> m < n + 8 \<Longrightarrow> \<not> bit v m"
  using bit_byte_at [of n v "m - n"] by auto

lemma ffs_least:
  "rt_ffs v = (if v = 0 then 0 else Suc (LEAST n. bit v n))"
proof (cases "v = 0")
  case False
  let ?ok = "\<lambda>i. i < 32 \<and> bit v i \<and> (\<forall>m < i. \<not> bit v m)"
  have "\<exists>i. rt_ffs v = Suc i \<and> ?ok i"
  proof -
    consider (0) "byte_at v 0 \<noteq> 0"
      | (8) "byte_at v 0 = 0" "byte_at v 8 \<noteq> 0"
      | (16) "byte_at v 0 = 0" "byte_at v 8 = 0" "byte_at v 16 \<noteq> 0"
      | (24) "byte_at v 0 = 0" "byte_at v 8 = 0" "byte_at v 16 = 0"
      by blast
    then show ?thesis
    proof cases
      case 0
      with False lowest_in_byte [OF 0] show ?thesis
        by (simp add: rt_ffs_def mask_byte_at)
    next
      case 8
      have "\<not> bit v m" if "m < 8" for m using byte_zero [OF 8(1), of m] that by simp
      with False 8 lowest_in_byte [OF 8(2)] show ?thesis
        by (simp add: rt_ffs_def mask_byte_at push_byte_at)
    next
      case 16
      have "\<not> bit v m" if "m < 16" for m
        using byte_zero [OF 16(1), of m] byte_zero [OF 16(2), of m] that by (cases "m < 8") auto
      with False 16 lowest_in_byte [OF 16(3)] show ?thesis
        by (simp add: rt_ffs_def mask_byte_at push_byte_at)
    next
      case 24
      have low: "\<not> bit v m" if "m < 24" for m
        using byte_zero [OF 24(1), of m] byte_zero [OF 24(2), of m] byte_zero [OF 24(3), of m] that
        by (cases "m < 8"; cases "m < 16") auto
      have "byte_at v 24 \<noteq> 0"
      proof
        assume z: "byte_at v 24 = 0"
        have "v = 0"
        proof (rule bit_eqI)
          fix m show "bit v m = bit 0 m"
            using low byte_zero [OF z, of m] bit_imp_le_length [of v m] by (cases "m < 24") auto
        qed
        with False show False by simp
      qed
      with False 24 low lowest_in_byte [of v 24] show ?thesis
        by (simp add: rt_ffs_def mask_byte_at push_byte_at)
    qed
  qed
  then obtain i where i: "rt_ffs v = Suc i" "?ok i" by blast
  then have "(LEAST n. bit v n) = i" by (intro Least_equality) (auto simp: not_less [symmetric])
  with i False show ?thesis by simp
qed (simp add: rt_ffs_def)

subsection \<open>Copying a name\<close>

text \<open>
  \<open>rt_strncpy\<close> on the bytes from \<open>src\<close> on; the result is what the \<open>n\<close> bytes at \<open>dst\<close> hold.
  \<open>None\<close>: the source array ends before a NUL and before \<open>n\<close> bytes.
\<close>

fun rt_strncpy :: "u8 list \<Rightarrow> nat \<Rightarrow> u8 list option" where
  "rt_strncpy s 0 = Some []"
| "rt_strncpy [] (Suc n) = None"
| "rt_strncpy (b # s) (Suc n) =
     (if b = 0 then Some (replicate (Suc n) 0) else map_option ((#) b) (rt_strncpy s n))"

lemma strncpy_name:
  "0 \<notin> set s \<Longrightarrow> rt_strncpy (s @ [0]) n = Some (take n (s @ replicate n 0))"
proof (induction s arbitrary: n)
  case Nil
  then show ?case by (cases n) auto
next
  case (Cons b s)
  then show ?case by (cases n) (auto simp: replicate_append_same [symmetric] take_Cons')
qed

lemma strncpy_length: "rt_strncpy s n = Some d \<Longrightarrow> length d = n"
  by (induction s n arbitrary: d rule: rt_strncpy.induct) (auto split: if_splits)

text \<open>Fact: \<open>__rt_ffs\<close> returns 0 for 0 and otherwise one more than the index of the lowest set
  bit, for every 32-bit value.\<close>

theorem rt_ffs_lowest:
  "rt_ffs v = (if v = 0 then 0 else Suc (LEAST n. bit v n))"
  by (rule ffs_least)

end
