(* ===== verification/Sched.thy ===== *)
theory Sched
  imports Kservice
begin

section \<open>Threads, CPUs and the scheduler (\<open>src/scheduler.c\<close>, \<open>src/cpu.c\<close>, \<open>src/irq.c\<close>)\<close>

text \<open>
  The scheduler's state.  Threads are named by the address of their control block, 0 is
  \<open>RT_NULL\<close>.  A thread has one list node, \<open>tlist\<close>; the list heads it may be linked to are the
  ready table of a CPU, the waiting lists of an IPC object and the list of dead threads.  The
  circles of these nodes are kept as the lists that theory \<open>RtList\<close> shows the pointer
  operations to implement: unlinking a node takes it out of whatever list it is on.  Every
  operation takes the CPU \<open>c\<close> it runs on (\<open>rt_hw_cpu_id\<close>).  \<open>rt_hw_interrupt_disable\<close> is
  \<open>rt_cpus_lock\<close> in this configuration: it only counts in the running thread.  A
  disable/enable pair around code that does not read the counters is the identity
  (\<open>cpus_lock_unlock\<close>) and is left out of the definitions; it is kept where the counters
  matter.  \<open>None\<close> is a failed assertion, a wild access or an endless loop of the C code.
\<close>

subsection \<open>Data\<close>

abbreviation (input) RT_CPUS_NR :: nat where "RT_CPUS_NR \<equiv> 2"
abbreviation (input) RT_CPU_DETACHED :: nat where "RT_CPU_DETACHED \<equiv> 2"
abbreviation (input) RT_THREAD_PRIORITY_MAX :: nat where "RT_THREAD_PRIORITY_MAX \<equiv> 32"

abbreviation (input) RT_THREAD_INIT :: u8 where "RT_THREAD_INIT \<equiv> 0x00"
abbreviation (input) RT_THREAD_READY :: u8 where "RT_THREAD_READY \<equiv> 0x01"
abbreviation (input) RT_THREAD_SUSPEND :: u8 where "RT_THREAD_SUSPEND \<equiv> 0x02"
abbreviation (input) RT_THREAD_RUNNING :: u8 where "RT_THREAD_RUNNING \<equiv> 0x03"
abbreviation (input) RT_THREAD_CLOSE :: u8 where "RT_THREAD_CLOSE \<equiv> 0x04"
abbreviation (input) RT_THREAD_STAT_MASK :: u8 where "RT_THREAD_STAT_MASK \<equiv> 0x07"
abbreviation (input) RT_THREAD_STAT_YIELD :: u8 where "RT_THREAD_STAT_YIELD \<equiv> 0x08"

record rt_thread =
  th_entry :: nat
  th_parameter :: nat
  th_sp :: u64
  th_stack_addr :: u64
  th_stack_size :: u32
  th_stack_guard :: u8  \<comment> \<open>the byte at \<open>stack_addr\<close>\<close>
  th_error :: rt_err
  th_stat :: u8
  th_bind_cpu :: nat
  th_oncpu :: nat
  th_scheduler_lock_nest :: u16
  th_cpus_lock_nest :: u16
  th_critical_lock_nest :: u16
  th_current_priority :: u8
  th_init_priority :: u8
  th_number_mask :: u32
  th_event_set :: u32
  th_event_info :: u8
  th_init_tick :: u64
  th_remaining_tick :: u64
  th_cleanup :: nat
  th_user_data :: u64

record rt_cpu =
  cpu_current_thread :: nat
  cpu_irq_nest :: u16
  cpu_irq_switch_flag :: u8
  cpu_current_priority :: u8
  cpu_priority_group :: u32
  cpu_tick :: u32
  cpu_ipi_type :: nat
  cpu_recent_total_ticks :: u32
  cpu_idle_ticks :: u32

text \<open>The heads a thread's \<open>tlist\<close> can be linked to; \<open>Suspend\<close> takes the object's address.\<close>

datatype lhead = Ready nat nat | Suspend nat | SuspendSender nat | Defunct

record sched =
  s_thread :: "nat \<Rightarrow> rt_thread"
  s_cpu :: "nat \<Rightarrow> rt_cpu"
  s_list :: "lhead \<Rightarrow> nat list"
  s_cpus_lock :: "bool \<times> nat"  \<comment> \<open>\<open>_cpus_lock\<close>: taken, and its owner\<close>
  s_ipi :: "nat list"  \<comment> \<open>CPUs that \<open>clint_ipi_send\<close> was called for\<close>

definition upd_thread :: "nat \<Rightarrow> (rt_thread \<Rightarrow> rt_thread) \<Rightarrow> sched \<Rightarrow> sched" where
  "upd_thread t f s = s\<lparr>s_thread := (s_thread s)(t := f (s_thread s t))\<rparr>"

definition upd_cpu :: "nat \<Rightarrow> (rt_cpu \<Rightarrow> rt_cpu) \<Rightarrow> sched \<Rightarrow> sched" where
  "upd_cpu c f s = s\<lparr>s_cpu := (s_cpu s)(c := f (s_cpu s c))\<rparr>"

definition upd_list :: "lhead \<Rightarrow> (nat list \<Rightarrow> nat list) \<Rightarrow> sched \<Rightarrow> sched" where
  "upd_list h f s = s\<lparr>s_list := (s_list s)(h := f (s_list s h))\<rparr>"

text \<open>\<open>rt_list_remove(&thread->tlist)\<close>.\<close>

definition tlist_remove :: "nat \<Rightarrow> sched \<Rightarrow> sched" where
  "tlist_remove t s = s\<lparr>s_list := (\<lambda>h. filter (\<lambda>x. x \<noteq> t) (s_list s h))\<rparr>"

abbreviation current :: "nat \<Rightarrow> sched \<Rightarrow> nat" where
  "current c s \<equiv> cpu_current_thread (s_cpu s c)"

definition stat_base :: "u8 \<Rightarrow> u8" where
  "stat_base st = st AND RT_THREAD_STAT_MASK"

definition with_stat :: "u8 \<Rightarrow> rt_thread \<Rightarrow> rt_thread" where
  "with_stat b th = th\<lparr>th_stat := b OR (th_stat th AND NOT RT_THREAD_STAT_MASK)\<rparr>"

subsection \<open>\<open>cpu.c\<close>\<close>

definition rt_cpus_lock :: "nat \<Rightarrow> sched \<Rightarrow> sched" where
  "rt_cpus_lock c s =
     (let t = current c s
      in if t \<noteq> 0
         then upd_thread t (\<lambda>th.
           let lock_nest = th_cpus_lock_nest th;
               th = th\<lparr>th_cpus_lock_nest := th_cpus_lock_nest th + 1\<rparr>
           in if lock_nest = 0
              then th\<lparr>th_scheduler_lock_nest := th_scheduler_lock_nest th + 1\<rparr> else th) s
         else s)"

definition rt_cpus_unlock :: "nat \<Rightarrow> sched \<Rightarrow> sched" where
  "rt_cpus_unlock c s =
     (let t = current c s
      in if t \<noteq> 0
         then upd_thread t (\<lambda>th.
           let th = th\<lparr>th_cpus_lock_nest := th_cpus_lock_nest th - 1\<rparr>
           in if th_cpus_lock_nest th = 0
              then th\<lparr>th_scheduler_lock_nest := th_scheduler_lock_nest th - 1\<rparr> else th) s
         else s)"

text \<open>\<open>rt_spin_lock\<close> on \<open>_cpus_lock\<close> spins for ever when another thread holds it.\<close>

definition rt_spin_lock_cpus :: "nat \<Rightarrow> sched \<Rightarrow> sched option" where
  "rt_spin_lock_cpus c s =
     do { rt_assert (snd (s_cpus_lock s) = current c s \<or> \<not> fst (s_cpus_lock s));
          Some (s\<lparr>s_cpus_lock := (fst (s_cpus_lock s) \<or> snd (s_cpus_lock s) \<noteq> current c s,
                                 current c s)\<rparr>) }"

definition rt_spin_unlock_cpus :: "sched \<Rightarrow> sched" where
  "rt_spin_unlock_cpus s = s\<lparr>s_cpus_lock := (False, 0)\<rparr>"

definition rt_cpus_lock_status_restore :: "nat \<Rightarrow> nat \<Rightarrow> sched \<Rightarrow> sched" where
  "rt_cpus_lock_status_restore c t s =
     (let s = upd_cpu c (\<lambda>p. p\<lparr>cpu_current_thread := t\<rparr>) s
      in if th_cpus_lock_nest (s_thread s t) = 0 then rt_spin_unlock_cpus s else s)"

text \<open>
  \<open>rt_hw_context_switch\<close> (assembly) restores the lock status and resumes \<open>t\<close>.  A thread that
  left the CPU inside \<open>rt_schedule\<close> returns into it and runs its last statement,
  \<open>rt_hw_interrupt_enable\<close>; one that was never run, or was switched out by
  \<open>rt_scheduler_do_irq_switch\<close>, has the count 0 and starts outside.
\<close>

definition rt_hw_context_switch :: "nat \<Rightarrow> nat \<Rightarrow> sched \<Rightarrow> sched" where
  "rt_hw_context_switch c t s =
     (let s = rt_cpus_lock_status_restore c t s
      in if th_cpus_lock_nest (s_thread s t) \<noteq> 0 then rt_cpus_unlock c s else s)"

subsection \<open>Inter-processor interrupts (\<open>irq.c\<close>)\<close>

abbreviation (input) IPI_RESCHEDULE :: nat where "IPI_RESCHEDULE \<equiv> 1"

text \<open>
  \<open>trigger_ipi_irq\<close> for \<open>IPI_RESCHEDULE\<close>.  With a destination of \<open>RT_CPUS_NR\<close> or more it
  indexes \<open>_cpus[dest_core_id]\<close>, outside the array: \<open>None\<close>.
\<close>

definition trigger_ipi_irq :: "nat \<Rightarrow> sched \<Rightarrow> sched option" where
  "trigger_ipi_irq dest s =
     do { rt_assert (dest < RT_CPUS_NR);
          Some (fold (\<lambda>i s. if i = dest
                  then upd_cpu dest (\<lambda>p. p\<lparr>cpu_ipi_type := IPI_RESCHEDULE\<rparr>) s\<lparr>s_ipi := s_ipi s @ [dest]\<rparr>
                  else upd_cpu i (\<lambda>p. p\<lparr>cpu_ipi_type := 0\<rparr>) s) [0..<RT_CPUS_NR] s) }"

definition rt_interrupt_enter :: "nat \<Rightarrow> sched \<Rightarrow> sched" where
  "rt_interrupt_enter c s = upd_cpu c (\<lambda>p. p\<lparr>cpu_irq_nest := cpu_irq_nest p + 1\<rparr>) s"

definition rt_interrupt_leave :: "nat \<Rightarrow> sched \<Rightarrow> sched" where
  "rt_interrupt_leave c s = upd_cpu c (\<lambda>p. p\<lparr>cpu_irq_nest := cpu_irq_nest p - 1\<rparr>) s"

definition rt_interrupt_get_nest :: "nat \<Rightarrow> sched \<Rightarrow> u8" where
  "rt_interrupt_get_nest c s = ucast (cpu_irq_nest (s_cpu s c))"

subsection \<open>\<open>scheduler.c\<close>\<close>

definition rt_system_scheduler_init :: "sched \<Rightarrow> sched" where
  "rt_system_scheduler_init s =
     fold (\<lambda>cpu s.
        let s = fold (\<lambda>offset s. upd_list (Ready cpu offset) (\<lambda>_. []) s)
                  [0..<RT_THREAD_PRIORITY_MAX] s
        in upd_cpu cpu (\<lambda>p. p\<lparr>cpu_irq_switch_flag := 0, cpu_current_priority := 31,
                              cpu_current_thread := 0, cpu_priority_group := 0\<rparr>) s)
       [0..<RT_CPUS_NR] s"

text \<open>
  \<open>_rt_scheduler_stack_check\<close>: an overflow is reported and the CPU hangs (\<open>None\<close>); the
  warning near the end of the stack only prints.
\<close>

definition rt_scheduler_stack_check :: "rt_thread \<Rightarrow> unit option" where
  "rt_scheduler_stack_check th =
     rt_assert (\<not> (th_stack_guard th \<noteq> 0x23 \<or> th_sp th \<le> th_stack_addr th \<or>
                   th_stack_addr th + ucast (th_stack_size th) < th_sp th))"

text \<open>The first thread of the list is read without a test; on an empty list the code would
  take the list head for a thread: \<open>None\<close>.\<close>

definition scheduler_get_highest_priority_thread :: "nat \<Rightarrow> sched \<Rightarrow> (nat \<times> nat) option" where
  "scheduler_get_highest_priority_thread c s =
     (let local_highest = rt_ffs (cpu_priority_group (s_cpu s c)) - 1
      in case s_list s (Ready c local_highest) of
           [] \<Rightarrow> None
         | t # _ \<Rightarrow> Some (t, local_highest))"

text \<open>
  Out of range \<open>bind_cpu\<close> or \<open>current_priority\<close> index past \<open>_cpus\<close> or its
  \<open>priority_table\<close>: \<open>None\<close>.
\<close>

definition rt_schedule_insert_thread :: "nat \<Rightarrow> nat \<Rightarrow> sched \<Rightarrow> sched option" where
  "rt_schedule_insert_thread c t s =
     do { rt_assert (t \<noteq> 0);
          let th = s_thread s t;
          (if th_oncpu th \<noteq> RT_CPU_DETACHED
           then Some (upd_thread t (with_stat RT_THREAD_RUNNING) s)
           else do {
             let s = upd_thread t (with_stat RT_THREAD_READY) s;
             let bind_cpu = th_bind_cpu th;
             let prio = unat (th_current_priority th);
             rt_assert (bind_cpu < RT_CPUS_NR \<and> prio < RT_THREAD_PRIORITY_MAX);
             let s = upd_cpu bind_cpu
               (\<lambda>p. p\<lparr>cpu_priority_group := cpu_priority_group p OR th_number_mask th\<rparr>) s;
             let s = upd_list (Ready bind_cpu prio) (\<lambda>ts. ts @ [t]) s;
             (if c \<noteq> bind_cpu then trigger_ipi_irq bind_cpu s else Some s) }) }"

definition rt_schedule_remove_thread :: "nat \<Rightarrow> sched \<Rightarrow> sched option" where
  "rt_schedule_remove_thread t s =
     do { rt_assert (t \<noteq> 0);
          let th = s_thread s t;
          let s = tlist_remove t s;
          rt_assert (th_bind_cpu th < RT_CPUS_NR \<and> unat (th_current_priority th) < RT_THREAD_PRIORITY_MAX);
          Some (if s_list s (Ready (th_bind_cpu th) (unat (th_current_priority th))) = []
                then upd_cpu (th_bind_cpu th)
                  (\<lambda>p. p\<lparr>cpu_priority_group := cpu_priority_group p AND NOT (th_number_mask th)\<rparr>) s
                else s) }"

text \<open>
  The body that \<open>rt_schedule\<close> and \<open>rt_scheduler_do_irq_switch\<close> share, from
  \<open>_scheduler_get_highest_priority_thread\<close> to the stack check: it yields the thread to run.
\<close>

definition scheduler_pick :: "nat \<Rightarrow> sched \<Rightarrow> (nat \<times> sched) option" where
  "scheduler_pick c s =
     do { let cur = current c s;
          (to, highest) \<leftarrow> scheduler_get_highest_priority_thread c s;
          let s = upd_thread cur (\<lambda>th. th\<lparr>th_oncpu := RT_CPU_DETACHED\<rparr>) s;
          let th = s_thread s cur;
          (to, s) \<leftarrow>
            (if stat_base (th_stat th) = RT_THREAD_RUNNING
             then do {
               (to, s) \<leftarrow>
                 (if unat (th_current_priority th) < highest then Some (cur, s)
                  else if unat (th_current_priority th) = highest \<and>
                          th_stat th AND RT_THREAD_STAT_YIELD = 0 then Some (cur, s)
                  else do { s \<leftarrow> rt_schedule_insert_thread c cur s; Some (to, s) });
               Some (to, upd_thread cur (\<lambda>th. th\<lparr>th_stat := th_stat th AND NOT RT_THREAD_STAT_YIELD\<rparr>) s) }
             else Some (to, s));
          let s = upd_thread to (\<lambda>th. th\<lparr>th_oncpu := c\<rparr>) s;
          (if to \<noteq> cur
           then do {
             let s = upd_cpu c (\<lambda>p. p\<lparr>cpu_current_priority := of_nat highest\<rparr>) s;
             s \<leftarrow> rt_schedule_remove_thread to s;
             let s = upd_thread to (with_stat RT_THREAD_RUNNING) s;
             rt_scheduler_stack_check (s_thread s to);
             Some (to, s) }
           else Some (to, s)) }"

definition rt_schedule :: "nat \<Rightarrow> sched \<Rightarrow> sched option" where
  "rt_schedule c s =
     do { let s = rt_cpus_lock c s;
          (if cpu_irq_nest (s_cpu s c) \<noteq> 0
           then Some (rt_cpus_unlock c (upd_cpu c (\<lambda>p. p\<lparr>cpu_irq_switch_flag := 1\<rparr>) s))
           else do {
             rt_assert (current c s \<noteq> 0);
             (if th_scheduler_lock_nest (s_thread s (current c s)) = 1 \<and>
                 cpu_priority_group (s_cpu s c) \<noteq> 0
              then do {
                let cur = current c s;
                (to, s) \<leftarrow> scheduler_pick c s;
                Some (if to \<noteq> cur then rt_hw_context_switch c to s else rt_cpus_unlock c s) }
              else Some (rt_cpus_unlock c s)) }) }"

definition rt_scheduler_do_irq_switch :: "nat \<Rightarrow> sched \<Rightarrow> sched option" where
  "rt_scheduler_do_irq_switch c s =
     do { let s = rt_cpus_lock c s;
          (if cpu_irq_switch_flag (s_cpu s c) = 0 then Some (rt_cpus_unlock c s)
           else do {
             rt_assert (current c s \<noteq> 0);
             (if th_scheduler_lock_nest (s_thread s (current c s)) = 1 \<and>
                 cpu_irq_nest (s_cpu s c) = 0
              then do {
                let s = upd_cpu c (\<lambda>p. p\<lparr>cpu_irq_switch_flag := 0\<rparr>) s;
                (if cpu_priority_group (s_cpu s c) \<noteq> 0
                 then do {
                   let cur = current c s;
                   (to, s) \<leftarrow> scheduler_pick c s;
                   Some (if to \<noteq> cur
                         then rt_hw_context_switch c to (upd_thread cur
                           (\<lambda>th. th\<lparr>th_cpus_lock_nest := th_cpus_lock_nest th - 1,
                                   th_scheduler_lock_nest := th_scheduler_lock_nest th - 1\<rparr>) s)
                         else rt_cpus_unlock c s) }
                 else Some (rt_cpus_unlock c s)) }
              else Some (rt_cpus_unlock c s)) }) }"

definition rt_system_scheduler_start :: "nat \<Rightarrow> sched \<Rightarrow> sched option" where
  "rt_system_scheduler_start c s =
     do { (to, highest) \<leftarrow> scheduler_get_highest_priority_thread c s;
          let s = upd_thread to (\<lambda>th. th\<lparr>th_oncpu := c\<rparr>) s;
          s \<leftarrow> rt_schedule_remove_thread to s;
          let s = upd_thread to (\<lambda>th. th\<lparr>th_stat := RT_THREAD_RUNNING\<rparr>) s;
          Some (rt_hw_context_switch c to s) }"

definition rt_scheduler_ipi_handler :: "nat \<Rightarrow> sched \<Rightarrow> sched option" where
  "rt_scheduler_ipi_handler c s = rt_schedule c s"

definition rt_enter_critical :: "nat \<Rightarrow> sched \<Rightarrow> sched option" where
  "rt_enter_critical c s =
     (let t = current c s
      in if t = 0 then Some s
         else do {
           let lock_nest = th_cpus_lock_nest (s_thread s t);
           let s = upd_thread t (\<lambda>th. th\<lparr>th_cpus_lock_nest := th_cpus_lock_nest th + 1\<rparr>) s;
           s \<leftarrow> (if lock_nest = 0
                then rt_spin_lock_cpus c
                  (upd_thread t (\<lambda>th. th\<lparr>th_scheduler_lock_nest := th_scheduler_lock_nest th + 1\<rparr>) s)
                else Some s);
           Some (upd_thread t (\<lambda>th. th\<lparr>th_critical_lock_nest := th_critical_lock_nest th + 1,
                                     th_scheduler_lock_nest := th_scheduler_lock_nest th + 1\<rparr>) s) })"

text \<open>\<open>scheduler_lock_nest <= 0\<close> compares an unsigned field: it tests for 0.\<close>

definition rt_exit_critical :: "nat \<Rightarrow> sched \<Rightarrow> sched option" where
  "rt_exit_critical c s =
     (let t = current c s
      in if t = 0 then Some s
         else let s = upd_thread t (\<lambda>th. th\<lparr>th_scheduler_lock_nest := th_scheduler_lock_nest th - 1,
                       th_critical_lock_nest := th_critical_lock_nest th - 1,
                       th_cpus_lock_nest := th_cpus_lock_nest th - 1\<rparr>) s;
                  s = (if th_cpus_lock_nest (s_thread s t) = 0
                       then rt_spin_unlock_cpus (upd_thread t
                         (\<lambda>th. th\<lparr>th_scheduler_lock_nest := th_scheduler_lock_nest th - 1\<rparr>) s)
                       else s)
              in if th_scheduler_lock_nest (s_thread s t) \<le> 0
                 then rt_schedule c (upd_thread t (\<lambda>th. th\<lparr>th_scheduler_lock_nest := 0\<rparr>) s)
                 else Some s)"

definition rt_critical_level :: "nat \<Rightarrow> sched \<Rightarrow> u16" where
  "rt_critical_level c s = th_critical_lock_nest (s_thread s (current c s))"

end
