(* ===== verification/SchedInv.thy ===== *)
theory SchedInv
  imports Sched
begin

section \<open>The scheduler's invariant and what each operation does\<close>

text \<open>
  The ready tables, the priority bitmaps, the thread states and the current threads say the
  same thing; every scheduler operation keeps it so.  The theorems at the end state what
  \<open>rt_schedule\<close> chooses and when it leaves the CPU to the running thread.
\<close>

subsection \<open>Selectors after the basic updates\<close>

lemma upd_simps [simp]:
  "s_thread (upd_thread t f s) = (s_thread s)(t := f (s_thread s t))"
  "s_cpu (upd_thread t f s) = s_cpu s"
  "s_list (upd_thread t f s) = s_list s"
  "s_cpus_lock (upd_thread t f s) = s_cpus_lock s"
  "s_ipi (upd_thread t f s) = s_ipi s"
  "s_thread (upd_cpu c g s) = s_thread s"
  "s_cpu (upd_cpu c g s) = (s_cpu s)(c := g (s_cpu s c))"
  "s_list (upd_cpu c g s) = s_list s"
  "s_cpus_lock (upd_cpu c g s) = s_cpus_lock s"
  "s_ipi (upd_cpu c g s) = s_ipi s"
  "s_thread (upd_list h l s) = s_thread s"
  "s_cpu (upd_list h l s) = s_cpu s"
  "s_list (upd_list h l s) = (s_list s)(h := l (s_list s h))"
  "s_cpus_lock (upd_list h l s) = s_cpus_lock s"
  "s_ipi (upd_list h l s) = s_ipi s"
  "s_thread (tlist_remove t s) = s_thread s"
  "s_cpu (tlist_remove t s) = s_cpu s"
  "s_list (tlist_remove t s) h' = filter (\<lambda>x. x \<noteq> t) (s_list s h')"
  "s_cpus_lock (tlist_remove t s) = s_cpus_lock s"
  "s_ipi (tlist_remove t s) = s_ipi s"
  by (simp_all add: upd_thread_def upd_cpu_def upd_list_def tlist_remove_def)

text \<open>The state byte: three bits of state, and flags above them.\<close>

lemma stat_simps [simp]:
  "stat_base (b OR x AND - 8) = stat_base b"
  "stat_base (x AND - 9) = stat_base x"
  "stat_base (x OR 8) = stat_base x"
  "stat_base 0 = 0" "stat_base 1 = 1" "stat_base 2 = 2" "stat_base 3 = 3" "stat_base 4 = 4"
proof -
  have "(- 8 AND 7 :: u8) = 0" "(- 9 AND 7 :: u8) = 7" "(8 AND 7 :: u8) = 0" by simp_all
  then show "stat_base (b OR x AND - 8) = stat_base b"
    "stat_base (x AND - 9) = stat_base x" "stat_base (x OR 8) = stat_base x"
    by (simp_all only: stat_base_def and.assoc bit.conj_disj_distrib2) (simp_all)
qed (simp_all add: stat_base_def)

lemma with_stat_simps [simp]:
  "stat_base (th_stat (with_stat b th)) = stat_base b"
  "th_entry (with_stat b th) = th_entry th"
  "th_bind_cpu (with_stat b th) = th_bind_cpu th"
  "th_oncpu (with_stat b th) = th_oncpu th"
  "th_current_priority (with_stat b th) = th_current_priority th"
  "th_init_priority (with_stat b th) = th_init_priority th"
  "th_number_mask (with_stat b th) = th_number_mask th"
  "th_scheduler_lock_nest (with_stat b th) = th_scheduler_lock_nest th"
  "th_cpus_lock_nest (with_stat b th) = th_cpus_lock_nest th"
  "th_critical_lock_nest (with_stat b th) = th_critical_lock_nest th"
  "th_error (with_stat b th) = th_error th"
  "th_sp (with_stat b th) = th_sp th"
  "th_stack_addr (with_stat b th) = th_stack_addr th"
  "th_stack_size (with_stat b th) = th_stack_size th"
  "th_stack_guard (with_stat b th) = th_stack_guard th"
  "th_event_set (with_stat b th) = th_event_set th"
  "th_event_info (with_stat b th) = th_event_info th"
  by (simp_all add: with_stat_def)

lemma with_stat_yield: "b AND 8 = 0 \<Longrightarrow> th_stat (with_stat b th) AND 8 = th_stat th AND 8"
proof -
  assume "b AND 8 = 0"
  moreover have "(- 8 AND 8 :: u8) = 8" by simp
  moreover have "th_stat (with_stat b th) = b OR th_stat th AND - 8" by (simp add: with_stat_def)
  ultimately show ?thesis
    by (simp only: bit.conj_disj_distrib2 and.assoc) simp
qed

subsection \<open>The invariant\<close>

definition thread_wf :: "rt_thread \<Rightarrow> bool" where
  "thread_wf th \<longleftrightarrow> th_bind_cpu th < RT_CPUS_NR \<and> unat (th_current_priority th) < RT_THREAD_PRIORITY_MAX \<and>
     th_number_mask th = push_bit (unat (th_current_priority th)) 1"

definition in_no_list :: "nat \<Rightarrow> sched \<Rightarrow> bool" where
  "in_no_list t s \<longleftrightarrow> (\<forall>h. t \<notin> set (s_list s h))"

definition ready_ok :: "rt_thread \<Rightarrow> nat \<Rightarrow> nat \<Rightarrow> bool" where
  "ready_ok th c p \<longleftrightarrow> thread_wf th \<and> th_bind_cpu th = c \<and> unat (th_current_priority th) = p \<and>
     stat_base (th_stat th) = RT_THREAD_READY \<and> th_oncpu th = RT_CPU_DETACHED"

definition wait_ok :: "rt_thread \<Rightarrow> bool" where
  "wait_ok th \<longleftrightarrow> thread_wf th \<and> stat_base (th_stat th) = RT_THREAD_SUSPEND"

fun node_ok :: "lhead \<Rightarrow> rt_thread \<Rightarrow> bool" where
  "node_ok (Ready c p) th \<longleftrightarrow> ready_ok th c p"
| "node_ok (Suspend q) th \<longleftrightarrow> wait_ok th"
| "node_ok (SuspendSender q) th \<longleftrightarrow> wait_ok th"
| "node_ok Defunct th \<longleftrightarrow> stat_base (th_stat th) = RT_THREAD_CLOSE"

text \<open>Every thread is linked to one list at most, and fits the list it is linked to.\<close>

definition lists_ok :: "sched \<Rightarrow> bool" where
  "lists_ok s \<longleftrightarrow>
     (\<forall>h. distinct (s_list s h)) \<and>
     (\<forall>h h' t. t \<in> set (s_list s h) \<longrightarrow> t \<in> set (s_list s h') \<longrightarrow> h = h') \<and>
     (\<forall>h t. t \<in> set (s_list s h) \<longrightarrow> t \<noteq> 0 \<and> node_ok h (s_thread s t))"

text \<open>A bit of \<open>priority_group\<close> is set exactly when the list of that priority is not empty.\<close>

definition groups_ok :: "sched \<Rightarrow> bool" where
  "groups_ok s \<longleftrightarrow>
     (\<forall>c < RT_CPUS_NR. \<forall>p. bit (cpu_priority_group (s_cpu s c)) p \<longleftrightarrow> s_list s (Ready c p) \<noteq> [])"

definition thread_ok :: "sched \<Rightarrow> nat \<Rightarrow> bool" where
  "thread_ok s t \<longleftrightarrow> (let th = s_thread s t; b = stat_base (th_stat th) in
     (b = RT_THREAD_READY \<longrightarrow> t \<in> set (s_list s (Ready (th_bind_cpu th) (unat (th_current_priority th))))) \<and>
     (b = RT_THREAD_RUNNING \<longrightarrow> th_oncpu th \<noteq> RT_CPU_DETACHED) \<and>
     (b \<in> {RT_THREAD_READY, RT_THREAD_SUSPEND, RT_THREAD_RUNNING} \<longrightarrow> thread_wf th) \<and>
     (th_oncpu th \<noteq> RT_CPU_DETACHED \<longrightarrow> th_oncpu th < RT_CPUS_NR \<and> current (th_oncpu th) s = t))"

definition cpu_ok :: "sched \<Rightarrow> nat \<Rightarrow> bool" where
  "cpu_ok s c \<longleftrightarrow> (let t = current c s; th = s_thread s t in
     t \<noteq> 0 \<longrightarrow> th_oncpu th = c \<and> th_bind_cpu th = c \<and> thread_wf th)"

definition sched_inv :: "sched \<Rightarrow> bool" where
  "sched_inv s \<longleftrightarrow> lists_ok s \<and> groups_ok s \<and> (\<forall>t. t \<noteq> 0 \<longrightarrow> thread_ok s t) \<and>
     (\<forall>c < RT_CPUS_NR. cpu_ok s c)"

lemma in_list_ok: "lists_ok s \<Longrightarrow> t \<in> set (s_list s h) \<Longrightarrow> t \<noteq> 0 \<and> node_ok h (s_thread s t)"
  by (simp add: lists_ok_def)

lemma in_list_unique: "lists_ok s \<Longrightarrow> t \<in> set (s_list s h) \<Longrightarrow> t \<in> set (s_list s h') \<Longrightarrow> h = h'"
  by (auto simp: lists_ok_def)

lemma in_ready: "lists_ok s \<Longrightarrow> t \<in> set (s_list s (Ready c p)) \<Longrightarrow> t \<noteq> 0 \<and> ready_ok (s_thread s t) c p"
  using in_list_ok by fastforce

lemma group_bit_or: "p < 32 \<Longrightarrow> bit (g OR (2 :: u32) ^ p) q \<longleftrightarrow> bit g q \<or> q = p"
  by (auto simp: bit_simps)

lemma group_bit_andnot: "p < 32 \<Longrightarrow> bit (g AND NOT ((2 :: u32) ^ p)) q \<longleftrightarrow> bit g q \<and> q \<noteq> p"
  using bit_imp_le_length [of g q] by (auto simp: bit_simps)

text \<open>Changing a thread that is on no list does not disturb lists and bitmaps.\<close>

lemma upd_thread_lists:
  "lists_ok s \<Longrightarrow> in_no_list t s \<Longrightarrow> lists_ok (upd_thread t f s)"
  "groups_ok s \<Longrightarrow> groups_ok (upd_thread t f s)"
  by (auto simp: lists_ok_def in_no_list_def groups_ok_def)

text \<open>Changing fields the lists do not look at.\<close>

lemma upd_thread_lists_same:
  assumes "lists_ok s" and "\<And>h. node_ok h (s_thread s t) \<Longrightarrow> node_ok h (f (s_thread s t))"
  shows "lists_ok (upd_thread t f s)"
  using assms by (auto simp: lists_ok_def)

subsection \<open>Unlinking and linking\<close>

lemma remove_thread_ok:
  assumes "lists_ok s" "groups_ok s" "t \<noteq> 0" "thread_wf (s_thread s t)"
  shows "\<exists>s'. rt_schedule_remove_thread t s = Some s' \<and> lists_ok s' \<and> groups_ok s' \<and> in_no_list t s' \<and>
    s_thread s' = s_thread s \<and> s_list s' = (\<lambda>h. filter (\<lambda>x. x \<noteq> t) (s_list s h)) \<and>
    (\<forall>c. \<exists>g. s_cpu s' c = (s_cpu s c)\<lparr>cpu_priority_group := g\<rparr>) \<and>
    s_cpus_lock s' = s_cpus_lock s \<and> s_ipi s' = s_ipi s"
proof -
  let ?th = "s_thread s t"
  let ?c = "th_bind_cpu ?th" and ?p = "unat (th_current_priority ?th)"
  have wf: "?c < 2" "?p < 32" "th_number_mask ?th = push_bit ?p 1"
    using assms(4) by (auto simp: thread_wf_def)
  define s1 where "s1 = tlist_remove t s"
  define s' where "s' = (if s_list s1 (Ready ?c ?p) = []
    then upd_cpu ?c (\<lambda>p. p\<lparr>cpu_priority_group := cpu_priority_group p AND NOT (th_number_mask ?th)\<rparr>) s1
    else s1)"
  have eq: "rt_schedule_remove_thread t s = Some s'"
    using assms(3) wf by (simp add: rt_schedule_remove_thread_def s'_def s1_def Let_def)
  have l: "s_list s' = (\<lambda>h. filter (\<lambda>x. x \<noteq> t) (s_list s h))"
    by (auto simp: s'_def s1_def fun_eq_iff)
  have th: "s_thread s' = s_thread s" by (simp add: s'_def s1_def)
  have lo: "lists_ok s'"
    using assms(1) unfolding lists_ok_def l th by auto
  have other: "filter (\<lambda>x. x \<noteq> t) (s_list s (Ready c p)) = s_list s (Ready c p)"
    if "(c, p) \<noteq> (?c, ?p)" for c p
    using that in_ready [OF assms(1), of t c p] by (auto simp: filter_id_conv ready_ok_def)
  have "groups_ok s'"
  proof -
    have "bit (cpu_priority_group (s_cpu s' c)) p \<longleftrightarrow> s_list s' (Ready c p) \<noteq> []" if "c < 2" for c p
    proof (cases "(c, p) = (?c, ?p)")
      case True
      have "s_list s (Ready ?c ?p) \<noteq> [] \<longleftrightarrow> bit (cpu_priority_group (s_cpu s ?c)) ?p"
        using assms(2) wf by (simp add: groups_ok_def)
      moreover have "filter (\<lambda>x. x \<noteq> t) (s_list s (Ready ?c ?p)) \<noteq> [] \<Longrightarrow> s_list s (Ready ?c ?p) \<noteq> []"
        by auto
      ultimately show ?thesis
        using True wf by (auto simp: s'_def s1_def group_bit_andnot)
    next
      case False
      with assms(2) that wf other [OF False] show ?thesis
        by (auto simp: groups_ok_def s'_def s1_def group_bit_andnot)
    qed
    then show ?thesis by (simp add: groups_ok_def)
  qed
  moreover have "\<exists>g. s_cpu s' c = (s_cpu s c)\<lparr>cpu_priority_group := g\<rparr>" for c
    by (cases "s_cpu s c") (auto simp: s'_def s1_def)
  ultimately show ?thesis
    using eq lo th l by (auto simp: in_no_list_def s'_def s1_def)
qed

text \<open>What \<open>trigger_ipi_irq\<close> leaves alone.\<close>

lemma trigger_ipi_ok:
  assumes "d < 2"
  shows "\<exists>s'. trigger_ipi_irq d s = Some s' \<and> s_thread s' = s_thread s \<and> s_list s' = s_list s \<and>
    s_cpus_lock s' = s_cpus_lock s \<and> s_ipi s' = s_ipi s @ [d] \<and>
    (\<forall>c. \<exists>i. s_cpu s' c = (s_cpu s c)\<lparr>cpu_ipi_type := i\<rparr>)"
proof -
  have "d = 0 \<or> d = 1" using assms by auto
  moreover have same: "\<exists>i. p = p\<lparr>cpu_ipi_type := i\<rparr>" for p :: rt_cpu
    by (rule exI [of _ "cpu_ipi_type p"]) simp
  ultimately show ?thesis
    by (auto simp: trigger_ipi_irq_def numeral_2_eq_2 upd_cpu_def intro: same)
qed

lemma insert_thread_ok:
  assumes "lists_ok s" "groups_ok s" "t \<noteq> 0" "thread_wf (s_thread s t)" "in_no_list t s"
    and "th_oncpu (s_thread s t) = RT_CPU_DETACHED"
  defines "th \<equiv> s_thread s t"
  defines "h \<equiv> Ready (th_bind_cpu th) (unat (th_current_priority th))"
  shows "\<exists>s'. rt_schedule_insert_thread c t s = Some s' \<and> lists_ok s' \<and> groups_ok s' \<and>
    s_thread s' = (s_thread s)(t := with_stat RT_THREAD_READY th) \<and>
    s_list s' = (s_list s)(h := s_list s h @ [t]) \<and>
    (\<forall>c. \<exists>g i. s_cpu s' c = (s_cpu s c)\<lparr>cpu_priority_group := g, cpu_ipi_type := i\<rparr>) \<and>
    s_cpus_lock s' = s_cpus_lock s \<and>
    s_ipi s' = s_ipi s @ (if c = th_bind_cpu th then [] else [th_bind_cpu th])"
proof -
  let ?b = "th_bind_cpu th" and ?p = "unat (th_current_priority th)"
  have wf: "?b < 2" "?p < 32" "th_number_mask th = push_bit ?p 1"
    using assms(4) by (auto simp: thread_wf_def th_def)
  define s1 where "s1 = upd_list (Ready ?b ?p) (\<lambda>ts. ts @ [t])
     (upd_cpu ?b (\<lambda>p. p\<lparr>cpu_priority_group := cpu_priority_group p OR th_number_mask th\<rparr>)
       (upd_thread t (with_stat RT_THREAD_READY) s))"
  have eq: "rt_schedule_insert_thread c t s = (if c \<noteq> ?b then trigger_ipi_irq ?b s1 else Some s1)"
    using assms(3,6) wf by (simp add: rt_schedule_insert_thread_def s1_def th_def Let_def)
  have f: "s_thread s1 = (s_thread s)(t := with_stat RT_THREAD_READY th)"
    "s_list s1 = (s_list s)(h := s_list s h @ [t])" "s_cpus_lock s1 = s_cpus_lock s" "s_ipi s1 = s_ipi s"
    "s_cpu s1 = (s_cpu s)(?b := (s_cpu s ?b)\<lparr>cpu_priority_group :=
       cpu_priority_group (s_cpu s ?b) OR th_number_mask th\<rparr>)"
    by (simp_all add: s1_def h_def th_def)
  have nl: "t \<notin> set (s_list s h')" for h' using assms(5) by (simp add: in_no_list_def)
  have rok: "node_ok h (with_stat RT_THREAD_READY th)"
    using assms(4,6) by (simp add: h_def ready_ok_def thread_wf_def th_def)
  have lo: "lists_ok s1"
    unfolding lists_ok_def f using assms(1,3) nl rok by (auto simp: lists_ok_def)
  have go: "groups_ok s1"
    unfolding groups_ok_def f using assms(2) wf
    by (auto simp: groups_ok_def h_def group_bit_or)
  have cp: "\<exists>g. s_cpu s1 c = (s_cpu s c)\<lparr>cpu_priority_group := g\<rparr>" for c
    by (cases "s_cpu s c") (auto simp: f)
  show ?thesis
  proof (cases "c = ?b")
    case True
    have "\<exists>g i. s_cpu s1 c = (s_cpu s c)\<lparr>cpu_priority_group := g, cpu_ipi_type := i\<rparr>" for c
      using cp [of c] by (metis (no_types) rt_cpu.surjective rt_cpu.update_convs(7) rt_cpu.update_convs(5))
    with True eq lo go f show ?thesis by auto
  next
    case False
    obtain s' where s': "trigger_ipi_irq ?b s1 = Some s'" "s_thread s' = s_thread s1" "s_list s' = s_list s1"
      "s_cpus_lock s' = s_cpus_lock s1" "s_ipi s' = s_ipi s1 @ [?b]"
      "\<And>c. \<exists>i. s_cpu s' c = (s_cpu s1 c)\<lparr>cpu_ipi_type := i\<rparr>"
      using trigger_ipi_ok [OF wf(1), of s1] by auto
    have g: "cpu_priority_group (s_cpu s' c) = cpu_priority_group (s_cpu s1 c)" for c
      using s'(6) [of c] by auto
    have "lists_ok s'" "groups_ok s'"
      using lo go s' g by (auto simp: lists_ok_def groups_ok_def)
    moreover have "\<exists>g i. s_cpu s' c = (s_cpu s c)\<lparr>cpu_priority_group := g, cpu_ipi_type := i\<rparr>" for c
    proof -
      obtain g i where "s_cpu s1 c = (s_cpu s c)\<lparr>cpu_priority_group := g\<rparr>"
        "s_cpu s' c = (s_cpu s1 c)\<lparr>cpu_ipi_type := i\<rparr>"
        using cp [of c] s'(6) [of c] by blast
      then have "s_cpu s' c = (s_cpu s c)\<lparr>cpu_priority_group := g, cpu_ipi_type := i\<rparr>" by simp
      then show ?thesis by blast
    qed
    ultimately show ?thesis using False eq s' f by auto
  qed
qed

subsection \<open>The invariant depends on these fields only\<close>

definition core :: "rt_thread \<Rightarrow> u8 \<times> nat \<times> nat \<times> u8 \<times> u32" where
  "core th = (stat_base (th_stat th), th_bind_cpu th, th_oncpu th, th_current_priority th, th_number_mask th)"

lemma core_wf: "core th = core th' \<Longrightarrow> thread_wf th \<longleftrightarrow> thread_wf th'"
  by (simp add: core_def thread_wf_def)

lemma core_node: "core th = core th' \<Longrightarrow> node_ok h th \<longleftrightarrow> node_ok h th'"
  by (cases h) (auto simp: core_def thread_wf_def ready_ok_def wait_ok_def)

lemma inv_cong:
  assumes "\<And>t. core (s_thread s' t) = core (s_thread s t)" and "s_list s' = s_list s"
    and "\<And>c. current c s' = current c s"
    and "\<And>c. cpu_priority_group (s_cpu s' c) = cpu_priority_group (s_cpu s c)"
  shows "sched_inv s' \<longleftrightarrow> sched_inv s"
proof -
  have "lists_ok s' = lists_ok s"
    using core_node [OF assms(1)] by (simp add: lists_ok_def assms(2))
  moreover have "groups_ok s' = groups_ok s" by (simp add: groups_ok_def assms)
  moreover have "thread_ok s' t = thread_ok s t" for t
    using core_wf [OF assms(1), of t] assms(1) [of t]
    by (simp add: thread_ok_def Let_def assms(2,3) core_def)
  moreover have "cpu_ok s' c = cpu_ok s c" for c
    using core_wf [OF assms(1), of "current c s"] assms(1) [of "current c s"]
    by (simp add: cpu_ok_def Let_def assms(3) core_def)
  ultimately show ?thesis by (simp add: sched_inv_def)
qed

text \<open>Operations on the lock counters and on the spin lock.\<close>

lemma cpus_lock_frame [simp]:
  "s_list (rt_cpus_lock c s) = s_list s" "s_cpu (rt_cpus_lock c s) = s_cpu s"
  "s_list (rt_cpus_unlock c s) = s_list s" "s_cpu (rt_cpus_unlock c s) = s_cpu s"
  "core (s_thread (rt_cpus_lock c s) t) = core (s_thread s t)"
  "core (s_thread (rt_cpus_unlock c s) t) = core (s_thread s t)"
  "th_stat (s_thread (rt_cpus_lock c s) t) = th_stat (s_thread s t)"
  "th_stat (s_thread (rt_cpus_unlock c s) t) = th_stat (s_thread s t)"
  "th_current_priority (s_thread (rt_cpus_lock c s) t) = th_current_priority (s_thread s t)"
  "th_current_priority (s_thread (rt_cpus_unlock c s) t) = th_current_priority (s_thread s t)"
  "rt_scheduler_stack_check (s_thread (rt_cpus_lock c s) t) = rt_scheduler_stack_check (s_thread s t)"
  by (simp_all add: rt_cpus_lock_def rt_cpus_unlock_def Let_def core_def rt_scheduler_stack_check_def)

lemma cpus_lock_inv [simp]:
  "sched_inv (rt_cpus_lock c s) \<longleftrightarrow> sched_inv s" "sched_inv (rt_cpus_unlock c s) \<longleftrightarrow> sched_inv s"
  by (rule inv_cong; simp)+

text \<open>Disabling and enabling in turn is the identity, which is why such pairs are left out.\<close>

lemma cpus_lock_unlock: "rt_cpus_unlock c (rt_cpus_lock c s) = s"
proof -
  have same: "n = th_cpus_lock_nest th \<Longrightarrow> th\<lparr>th_cpus_lock_nest := n\<rparr> = th" for n and th :: rt_thread
    by simp
  have "s\<lparr>s_thread := (s_thread s)(t := th)\<rparr> = s" if "th = s_thread s t" for t th
    using that by simp
  then show ?thesis
    by (simp add: rt_cpus_lock_def rt_cpus_unlock_def Let_def upd_thread_def same)
qed

subsection \<open>Choosing a thread\<close>

lemma highest_ok:
  assumes "groups_ok s" "c < 2" "cpu_priority_group (s_cpu s c) \<noteq> 0"
  obtains t ts p where "scheduler_get_highest_priority_thread c s = Some (t, p)"
    "s_list s (Ready c p) = t # ts" "\<And>q. q < p \<Longrightarrow> s_list s (Ready c q) = []"
proof -
  let ?g = "cpu_priority_group (s_cpu s c)"
  define p where "p = (LEAST n. bit ?g n)"
  have g: "bit ?g n \<longleftrightarrow> s_list s (Ready c n) \<noteq> []" for n
    using assms(1,2) by (simp add: groups_ok_def)
  obtain n where "bit ?g n" using assms(3) by (metis bit_eqI bit_0_eq bot_apply bot_bool_def)
  then have "bit ?g p" and least: "\<And>q. q < p \<Longrightarrow> \<not> bit ?g q"
    unfolding p_def by (auto intro: LeastI dest: not_less_Least)
  then obtain t ts where "s_list s (Ready c p) = t # ts" using g by (cases "s_list s (Ready c p)") auto
  moreover have "rt_ffs ?g - 1 = p" using assms(3) by (simp add: ffs_least p_def)
  ultimately show ?thesis
    using that least g by (simp add: scheduler_get_highest_priority_thread_def)
qed

text \<open>Whether the running thread keeps the CPU against a ready thread of priority \<open>p\<close>.\<close>

definition keeps_cpu :: "rt_thread \<Rightarrow> nat \<Rightarrow> bool" where
  "keeps_cpu th p \<longleftrightarrow> stat_base (th_stat th) = RT_THREAD_RUNNING \<and>
     (unat (th_current_priority th) < p \<or>
      unat (th_current_priority th) = p \<and> th_stat th AND RT_THREAD_STAT_YIELD = 0)"


text \<open>
  The state \<open>scheduler_pick\<close> leaves when the running thread gives way to \<open>to\<close>: the lists,
  bitmaps and thread states agree again once \<open>to\<close> is the current thread.
\<close>

lemma pick_keep:
  assumes "scheduler_get_highest_priority_thread c s = Some (t, p)"
    and "keeps_cpu (s_thread s (current c s)) p"
  shows "scheduler_pick c s = Some (current c s, upd_thread (current c s) (\<lambda>th.
           th\<lparr>th_stat := th_stat th AND NOT RT_THREAD_STAT_YIELD, th_oncpu := c\<rparr>) s)"
  using assms by (auto simp: scheduler_pick_def keeps_cpu_def upd_thread_def Let_def)

text \<open>Unlinking reads the thread's binding and priority only.\<close>

lemma remove_upd_thread:
  assumes "\<And>th. th_bind_cpu (f th) = th_bind_cpu th" "\<And>th. th_current_priority (f th) = th_current_priority th"
    and "\<And>th. th_number_mask (f th) = th_number_mask th"
  shows "rt_schedule_remove_thread t (upd_thread u f s) = map_option (upd_thread u f) (rt_schedule_remove_thread t s)"
  using assms
  by (auto simp: rt_schedule_remove_thread_def Let_def upd_thread_def tlist_remove_def upd_cpu_def)

lemma remove_upd_cpu_prio:
  "rt_schedule_remove_thread t (upd_cpu c (\<lambda>p. p\<lparr>cpu_current_priority := x\<rparr>) s) =
   map_option (upd_cpu c (\<lambda>p. p\<lparr>cpu_current_priority := x\<rparr>)) (rt_schedule_remove_thread t s)"
proof -
  have comm: "p\<lparr>cpu_current_priority := x, cpu_priority_group := g\<rparr> =
    p\<lparr>cpu_priority_group := g, cpu_current_priority := x\<rparr>" for p :: rt_cpu and g by simp
  show ?thesis
    by (auto simp: comm rt_schedule_remove_thread_def Let_def upd_thread_def tlist_remove_def upd_cpu_def
        fun_upd_twist)
qed

lemma upd_thread_comp: "upd_thread t f (upd_thread t g s) = upd_thread t (\<lambda>th. f (g th)) s"
  by (simp add: upd_thread_def)

text \<open>The running thread is on no list, and a current thread is never on a ready list.\<close>

lemma running_no_list: "lists_ok s \<Longrightarrow> stat_base (th_stat (s_thread s t)) = RT_THREAD_RUNNING \<Longrightarrow> in_no_list t s"
  unfolding in_no_list_def
proof (intro allI notI)
  fix h assume "lists_ok s" "stat_base (th_stat (s_thread s t)) = 3" "t \<in> set (s_list s h)"
  with in_list_ok [of s t h] show False by (cases h) (auto simp: ready_ok_def wait_ok_def)
qed

lemma current_not_ready:
  assumes "sched_inv s" "c < 2" "current c s \<noteq> 0"
  shows "stat_base (th_stat (s_thread s (current c s))) \<noteq> RT_THREAD_READY"
    "current c s \<notin> set (s_list s (Ready d p))"
    "th_oncpu (s_thread s (current c s)) = c" "thread_wf (s_thread s (current c s))"
    "th_bind_cpu (s_thread s (current c s)) = c"
proof -
  show c: "th_oncpu (s_thread s (current c s)) = c" "thread_wf (s_thread s (current c s))"
    "th_bind_cpu (s_thread s (current c s)) = c"
    using assms by (auto simp: sched_inv_def cpu_ok_def Let_def)
  show n: "current c s \<notin> set (s_list s (Ready d p))" for d p
    using in_ready [of s "current c s" d p] assms c by (auto simp: sched_inv_def ready_ok_def)
  show "stat_base (th_stat (s_thread s (current c s))) \<noteq> RT_THREAD_READY"
    using n assms by (auto simp: sched_inv_def thread_ok_def Let_def)
qed

text \<open>
  The running thread gives way to \<open>to\<close>: lists, bitmaps and thread states agree again once
  \<open>to\<close> is the current thread.
\<close>

definition giveway_list :: "nat \<Rightarrow> nat \<Rightarrow> sched \<Rightarrow> lhead \<Rightarrow> nat list" where
  "giveway_list c to s h = filter (\<lambda>x. x \<noteq> to) (s_list s h @
     (let th = s_thread s (current c s)
      in if stat_base (th_stat th) = RT_THREAD_RUNNING \<and> h = Ready c (unat (th_current_priority th))
         then [current c s] else []))"

lemma give_way:
  assumes inv: "sched_inv s" and c: "c < 2" and cur: "current c s \<noteq> 0"
  defines "s0 \<equiv> upd_thread (current c s) (\<lambda>th. th\<lparr>th_oncpu := 2\<rparr>) s"
  shows "\<exists>s2. (if stat_base (th_stat (s_thread s (current c s))) = RT_THREAD_RUNNING
      then map_option (upd_thread (current c s) (\<lambda>th. th\<lparr>th_stat := th_stat th AND - 9\<rparr>))
             (rt_schedule_insert_thread c (current c s) s0)
      else Some s0) = Some s2 \<and> lists_ok s2 \<and> groups_ok s2 \<and>
    s_list s2 = (\<lambda>h. s_list s h @
     (let th = s_thread s (current c s)
      in if stat_base (th_stat th) = RT_THREAD_RUNNING \<and> h = Ready c (unat (th_current_priority th))
         then [current c s] else [])) \<and>
    (\<exists>th. s_thread s2 = (s_thread s)(current c s := th) \<and> th_oncpu th = 2 \<and> 
       core th = (if stat_base (th_stat (s_thread s (current c s))) = RT_THREAD_RUNNING then 1
                    else stat_base (th_stat (s_thread s (current c s))), c, 2,
         th_current_priority (s_thread s (current c s)), th_number_mask (s_thread s (current c s))) \<and>
       th_cpus_lock_nest th = th_cpus_lock_nest (s_thread s (current c s))) \<and>
    (\<forall>d. \<exists>g i. s_cpu s2 d = (s_cpu s d)\<lparr>cpu_priority_group := g, cpu_ipi_type := i\<rparr>) \<and>
    s_cpus_lock s2 = s_cpus_lock s"
proof -
  let ?cur = "current c s"
  let ?th = "s_thread s ?cur"
  note C = current_not_ready [OF inv c cur]
  have lo: "lists_ok s" and go: "groups_ok s" using inv by (auto simp: sched_inv_def)
  have lo0: "lists_ok s0"
    unfolding s0_def
  proof (rule upd_thread_lists_same [OF lo])
    fix h show "node_ok h ?th \<Longrightarrow> node_ok h (?th\<lparr>th_oncpu := 2\<rparr>)"
      by (cases h) (auto simp: ready_ok_def wait_ok_def thread_wf_def)
  qed
  have go0: "groups_ok s0" unfolding s0_def by (rule upd_thread_lists(2) [OF go])
  have cpu_same: "\<exists>g i. p = p\<lparr>cpu_priority_group := g, cpu_ipi_type := i\<rparr>" for p :: rt_cpu
    by (rule exI [of _ "cpu_priority_group p"], rule exI [of _ "cpu_ipi_type p"]) simp
  show ?thesis
  proof (cases "stat_base (th_stat ?th) = 3")
    case True
    have nl: "in_no_list ?cur s0" using running_no_list [OF lo True] by (simp add: in_no_list_def s0_def)
    have wf0: "thread_wf (s_thread s0 ?cur)" using C(4) by (simp add: s0_def thread_wf_def)
    obtain s1 where s1: "rt_schedule_insert_thread c ?cur s0 = Some s1" "lists_ok s1" "groups_ok s1"
      "s_thread s1 = (s_thread s0)(?cur := with_stat 1 (s_thread s0 ?cur))"
      "s_list s1 = (s_list s0)(Ready c (unat (th_current_priority ?th)) :=
          s_list s0 (Ready c (unat (th_current_priority ?th))) @ [?cur])"
      "\<forall>c. \<exists>g i. s_cpu s1 c = (s_cpu s0 c)\<lparr>cpu_priority_group := g, cpu_ipi_type := i\<rparr>"
      "s_cpus_lock s1 = s_cpus_lock s0"
      using insert_thread_ok [OF lo0 go0 cur wf0 nl, of c] C by (auto simp: s0_def)
    have "lists_ok (upd_thread ?cur (\<lambda>th. th\<lparr>th_stat := th_stat th AND - 9\<rparr>) s1)"
      by (rule upd_thread_lists_same [OF s1(2)])
        (subst core_node, auto simp: core_def)
    with s1 True C show ?thesis
      by (auto simp: upd_thread_lists s0_def fun_eq_iff core_def
          intro!: exI [of _ "(with_stat 1 (?th\<lparr>th_oncpu := 2\<rparr>))\<lparr>th_stat := th_stat (with_stat 1 (?th\<lparr>th_oncpu := 2\<rparr>)) AND - 9\<rparr>"])
  next
    case False
    with lo0 go0 C cpu_same show ?thesis
      by (auto simp: s0_def fun_eq_iff core_def intro!: exI [of _ "?th\<lparr>th_oncpu := 2\<rparr>"])
  qed
qed


lemma giveway_eq: "giveway_list c to s h = filter (\<lambda>x. x \<noteq> to) (s_list s h @
     (let th = s_thread s (current c s)
      in if stat_base (th_stat th) = RT_THREAD_RUNNING \<and> h = Ready c (unat (th_current_priority th))
         then [current c s] else []))"
  by (simp add: giveway_list_def)

lemma pick_switch:
  assumes inv: "sched_inv s" and c: "c < 2" and cur: "current c s \<noteq> 0"
    and hi: "scheduler_get_highest_priority_thread c s = Some (to, p)"
    and l: "s_list s (Ready c p) = to # ts"
    and no: "\<not> keeps_cpu (s_thread s (current c s)) p"
    and st: "rt_scheduler_stack_check (s_thread s to) = Some ()"
  shows "\<exists>s'. scheduler_pick c s = Some (to, s') \<and> to \<noteq> current c s \<and> to \<noteq> 0 \<and>
    sched_inv (upd_cpu c (\<lambda>p. p\<lparr>cpu_current_thread := to\<rparr>) s') \<and>
    (\<forall>d. \<exists>g i x. s_cpu s' d = (s_cpu s d)\<lparr>cpu_priority_group := g, cpu_ipi_type := i, cpu_current_priority := x\<rparr>) \<and>
    (\<forall>t. th_current_priority (s_thread s' t) = th_current_priority (s_thread s t)) \<and>
    (\<forall>t. th_cpus_lock_nest (s_thread s' t) = th_cpus_lock_nest (s_thread s t)) \<and>
    (\<forall>t. t \<notin> {to, current c s} \<longrightarrow> s_thread s' t = s_thread s t) \<and>
    s_list s' = giveway_list c to s \<and> s_cpus_lock s' = s_cpus_lock s \<and>
    stat_base (th_stat (s_thread s' to)) = RT_THREAD_RUNNING"
proof -
  let ?cur = "current c s"
  let ?th = "s_thread s ?cur"
  note C = current_not_ready [OF inv c cur]
  have lo: "lists_ok s" and go: "groups_ok s" using inv by (auto simp: sched_inv_def)
  have to: "to \<in> set (s_list s (Ready c p))" using l by simp
  note T = in_ready [OF lo to, unfolded ready_ok_def]
  have ne: "to \<noteq> ?cur" using C(2) to by metis
  define s0 where "s0 = upd_thread ?cur (\<lambda>th. th\<lparr>th_oncpu := 2\<rparr>) s"
  obtain s2 cth where s2: "(if stat_base (th_stat ?th) = 3
      then map_option (upd_thread ?cur (\<lambda>th. th\<lparr>th_stat := th_stat th AND - 9\<rparr>))
             (rt_schedule_insert_thread c ?cur s0)
      else Some s0) = Some s2"
    and ok2: "lists_ok s2" "groups_ok s2"
    and l2: "s_list s2 = (\<lambda>h. s_list s h @
       (if stat_base (th_stat ?th) = 3 \<and> h = Ready c (unat (th_current_priority ?th)) then [?cur] else []))"
    and th2: "s_thread s2 = (s_thread s)(?cur := cth)" "th_oncpu cth = 2"
      "core cth = (if stat_base (th_stat ?th) = 3 then 1 else stat_base (th_stat ?th), c, 2,
         th_current_priority ?th, th_number_mask ?th)"
      "th_cpus_lock_nest cth = th_cpus_lock_nest ?th"
    and cpu2: "\<And>d. \<exists>g i. s_cpu s2 d = (s_cpu s d)\<lparr>cpu_priority_group := g, cpu_ipi_type := i\<rparr>"
    and lk2: "s_cpus_lock s2 = s_cpus_lock s"
    using give_way [OF inv c cur] unfolding s0_def [symmetric] Let_def by blast
  have to2: "s_thread s2 to = s_thread s to" using th2 ne by simp
  obtain s3 where s3: "rt_schedule_remove_thread to s2 = Some s3"
    and ok3: "lists_ok s3" "groups_ok s3" "in_no_list to s3"
    and th3: "s_thread s3 = s_thread s2" and l3: "s_list s3 = (\<lambda>h. filter (\<lambda>x. x \<noteq> to) (s_list s2 h))"
    and cpu3: "\<And>d. \<exists>g. s_cpu s3 d = (s_cpu s2 d)\<lparr>cpu_priority_group := g\<rparr>"
    and lk3: "s_cpus_lock s3 = s_cpus_lock s2"
    using remove_thread_ok [OF ok2, of to] T to2 by auto
  define s' where "s' = upd_thread to (\<lambda>th. with_stat 3 (th\<lparr>th_oncpu := c\<rparr>))
     (upd_cpu c (\<lambda>q. q\<lparr>cpu_current_priority := of_nat p\<rparr>) s3)"
  have "upd_cpu c f (upd_thread to g s3) = upd_thread to g (upd_cpu c f s3)" for f g
    by (simp add: upd_cpu_def upd_thread_def)
  then have rem: "rt_schedule_remove_thread to (upd_cpu c (\<lambda>q. q\<lparr>cpu_current_priority := of_nat p\<rparr>)
      (upd_thread to (\<lambda>th. th\<lparr>th_oncpu := c\<rparr>) s2)) =
     Some (upd_thread to (\<lambda>th. th\<lparr>th_oncpu := c\<rparr>) (upd_cpu c (\<lambda>q. q\<lparr>cpu_current_priority := of_nat p\<rparr>) s3))"
    by (simp add: remove_upd_cpu_prio remove_upd_thread s3)
  have stk: "rt_scheduler_stack_check (s_thread s' to) = Some ()"
    using st to2 by (simp add: s'_def th3 rt_scheduler_stack_check_def)
  have s0f: "th_stat (s_thread s0 ?cur) = th_stat ?th"
    "th_current_priority (s_thread s0 ?cur) = th_current_priority ?th"
    by (simp_all add: s0_def)
  have pick: "scheduler_pick c s = Some (to, s')"
  proof (cases "stat_base (th_stat ?th) = 3")
    case True
    then obtain s1 where s1: "rt_schedule_insert_thread c ?cur s0 = Some s1"
      "s2 = upd_thread ?cur (\<lambda>th. th\<lparr>th_stat := th_stat th AND - 9\<rparr>) s1"
      using s2 by auto
    from True no have "\<not> unat (th_current_priority ?th) < p"
      "\<not> (unat (th_current_priority ?th) = p \<and> th_stat ?th AND 8 = 0)"
      by (auto simp: keeps_cpu_def)
    then show ?thesis
      using True ne s1 rem stk hi
      by (auto simp: scheduler_pick_def Let_def s'_def upd_thread_comp s0f simp flip: s0_def)
  next
    case False
    with s2 have "s2 = s0" by simp
    with False ne rem stk hi show ?thesis
      by (auto simp: scheduler_pick_def Let_def s'_def upd_thread_comp s0f simp flip: s0_def)
  qed
  define F where "F = upd_cpu c (\<lambda>p. p\<lparr>cpu_current_thread := to\<rparr>) s'"
  have cpu': "\<exists>g i x. s_cpu s' d = (s_cpu s d)\<lparr>cpu_priority_group := g, cpu_ipi_type := i, cpu_current_priority := x\<rparr>" for d
  proof -
    obtain g i where 1: "s_cpu s2 d = (s_cpu s d)\<lparr>cpu_priority_group := g, cpu_ipi_type := i\<rparr>" using cpu2 by blast
    obtain g' where 2: "s_cpu s3 d = (s_cpu s2 d)\<lparr>cpu_priority_group := g'\<rparr>" using cpu3 by blast
    have "s_cpu s' d = (s_cpu s d)\<lparr>cpu_priority_group := g', cpu_ipi_type := i,
      cpu_current_priority := (if d = c then of_nat p else cpu_current_priority (s_cpu s d))\<rparr>"
      by (cases "d = c") (use 1 2 in \<open>auto simp: s'_def\<close>)
    then show ?thesis by blast
  qed
  have Fl: "s_list F = giveway_list c to s"
    by (auto simp: F_def s'_def l3 l2 giveway_list_def Let_def fun_eq_iff)
  have Fth: "s_thread F = ((s_thread s)(?cur := cth))(to := with_stat 3 ((s_thread s to)\<lparr>th_oncpu := c\<rparr>))"
    using ne by (simp add: F_def s'_def th3 th2)
  have Fcur: "current d F = (if d = c then to else current d s)" for d
    using cpu' [of d] by (auto simp: F_def)
  have inF: "t \<in> set (s_list F h) \<longleftrightarrow> t \<noteq> to \<and> (t \<in> set (s_list s h) \<or>
      t = ?cur \<and> stat_base (th_stat ?th) = 3 \<and> h = Ready c (unat (th_current_priority ?th)))" for t h
    by (auto simp: Fl giveway_list_def Let_def)
  have loF: "lists_ok F"
  proof -
    have "lists_ok s'" unfolding s'_def
      by (rule upd_thread_lists(1)) (use ok3 in \<open>auto simp: lists_ok_def in_no_list_def\<close>)
    then show ?thesis by (simp add: F_def lists_ok_def)
  qed
  have goF: "groups_ok F" using ok3(2) by (simp add: F_def s'_def groups_ok_def)
  have thF: "thread_ok F t" if "t \<noteq> 0" for t
  proof -
    have old: "thread_ok s t" using inv that by (simp add: sched_inv_def)
    consider "t = to" | "t = ?cur" "t \<noteq> to" | "t \<noteq> to" "t \<noteq> ?cur" by blast
    then show ?thesis
    proof cases
      case 1
      then show ?thesis using T c ne Fcur by (auto simp: thread_ok_def Fth thread_wf_def Let_def)
    next
      case 2
      then show ?thesis using th2 C cur
        by (auto simp: thread_ok_def Fth Let_def inF core_def thread_wf_def split: if_splits)
    next
      case 3
      then have "th_oncpu (s_thread s t) \<noteq> 2 \<Longrightarrow> th_oncpu (s_thread s t) \<noteq> c"
        using old by (auto simp: thread_ok_def Let_def)
      with 3 old show ?thesis
        by (auto simp: thread_ok_def Fth Let_def inF Fcur)
    qed
  qed
  have cpF: "cpu_ok F d" if "d < 2" for d
  proof (cases "d = c")
    case True
    then show ?thesis using T ne Fcur by (simp add: cpu_ok_def Let_def Fth thread_wf_def)
  next
    case False
    note CD = current_not_ready [OF inv that]
    have "current d s \<noteq> 0 \<Longrightarrow> current d s \<noteq> to" "current d s \<noteq> 0 \<Longrightarrow> current d s \<noteq> ?cur"
      using CD(3) T C(3) that False by auto
    with CD False show ?thesis by (auto simp: cpu_ok_def Let_def Fth Fcur)
  qed
  have "sched_inv F" using loF goF thF cpF by (simp add: sched_inv_def)
  moreover have "s_list s' = s_list F" "s_thread s' = s_thread F" by (simp_all add: F_def)
  moreover have "th_current_priority (s_thread F t) = th_current_priority (s_thread s t)"
    "th_cpus_lock_nest (s_thread F t) = th_cpus_lock_nest (s_thread s t)"
    "t \<notin> {to, ?cur} \<Longrightarrow> s_thread F t = s_thread s t" for t
    using th2 by (auto simp: Fth core_def)
  moreover have "s_cpus_lock s' = s_cpus_lock s" by (simp add: s'_def lk2 lk3)
  moreover have "stat_base (th_stat (s_thread s' to)) = RT_THREAD_RUNNING" by (simp add: s'_def)
  ultimately show ?thesis
    using pick ne T Fl cpu' by (auto simp flip: F_def)
qed


subsection \<open>\<open>rt_schedule\<close>\<close>

definition stacks_ok :: "nat \<Rightarrow> sched \<Rightarrow> bool" where
  "stacks_ok c s \<longleftrightarrow> (\<forall>p. \<forall>t \<in> set (s_list s (Ready c p)). rt_scheduler_stack_check (s_thread s t) = Some ())"

lemma switch_inv:
  assumes "sched_inv (upd_cpu c (\<lambda>p. p\<lparr>cpu_current_thread := to\<rparr>) s)"
  shows "sched_inv (rt_hw_context_switch c to s)"
    "current d (rt_hw_context_switch c to s) = (if d = c then to else current d s)"
    "s_list (rt_hw_context_switch c to s) = s_list s"
    "th_current_priority (s_thread (rt_hw_context_switch c to s) t) = th_current_priority (s_thread s t)"
    "core (s_thread (rt_hw_context_switch c to s) t) = core (s_thread s t)"
proof -
  let ?F = "upd_cpu c (\<lambda>p. p\<lparr>cpu_current_thread := to\<rparr>) s"
  have "sched_inv (rt_hw_context_switch c to s) = sched_inv ?F"
    by (rule inv_cong) (auto simp: rt_hw_context_switch_def rt_cpus_lock_status_restore_def
        rt_spin_unlock_cpus_def Let_def)
  with assms show "sched_inv (rt_hw_context_switch c to s)" by simp
qed (auto simp: rt_hw_context_switch_def rt_cpus_lock_status_restore_def rt_spin_unlock_cpus_def Let_def)

text \<open>One more level of \<open>rt_hw_interrupt_disable\<close> as the scheduler reads it.\<close>

definition may_switch :: "nat \<Rightarrow> sched \<Rightarrow> bool" where
  "may_switch c s \<longleftrightarrow> (let th = s_thread s (current c s) in
     if th_cpus_lock_nest th = 0 then th_scheduler_lock_nest th = 0 else th_scheduler_lock_nest th = 1)"

lemma lock_nest_1:
  "current c s \<noteq> 0 \<Longrightarrow> th_scheduler_lock_nest (s_thread (rt_cpus_lock c s) (current c s)) = 1 \<longleftrightarrow> may_switch c s"
  by (simp add: rt_cpus_lock_def Let_def may_switch_def)

lemma schedule_irq:
  assumes "cpu_irq_nest (s_cpu s c) \<noteq> 0"
  shows "rt_schedule c s = Some (upd_cpu c (\<lambda>p. p\<lparr>cpu_irq_switch_flag := 1\<rparr>) s)"
proof -
  let ?f = "\<lambda>p :: rt_cpu. p\<lparr>cpu_irq_switch_flag := 1\<rparr>"
  have "rt_cpus_unlock c (upd_cpu c ?f (rt_cpus_lock c s)) = upd_cpu c ?f (rt_cpus_unlock c (rt_cpus_lock c s))"
    by (simp add: rt_cpus_unlock_def Let_def upd_cpu_def upd_thread_def)
  with assms show ?thesis by (simp add: rt_schedule_def cpus_lock_unlock)
qed

lemma schedule_none:
  assumes "cpu_irq_nest (s_cpu s c) = 0" "current c s \<noteq> 0"
    and "\<not> may_switch c s \<or> cpu_priority_group (s_cpu s c) = 0"
  shows "rt_schedule c s = Some s"
  using assms by (auto simp: rt_schedule_def cpus_lock_unlock lock_nest_1)

lemma stat_nest_comm:
  "th\<lparr>th_stat := x, th_cpus_lock_nest := n\<rparr> = th\<lparr>th_cpus_lock_nest := n, th_stat := x\<rparr>"
  "th\<lparr>th_stat := x, th_scheduler_lock_nest := m\<rparr> = th\<lparr>th_scheduler_lock_nest := m, th_stat := x\<rparr>"
  for th :: rt_thread
  by simp_all

text \<open>The running thread keeps the CPU and loses its yield mark.\<close>

lemma schedule_keep:
  assumes "cpu_irq_nest (s_cpu s c) = 0" "current c s \<noteq> 0" "may_switch c s"
    and "cpu_priority_group (s_cpu s c) \<noteq> 0"
    and "scheduler_get_highest_priority_thread c s = Some (t, p)"
    and "keeps_cpu (s_thread s (current c s)) p" and "th_oncpu (s_thread s (current c s)) = c"
  shows "rt_schedule c s = Some (upd_thread (current c s)
           (\<lambda>th. th\<lparr>th_stat := th_stat th AND NOT RT_THREAD_STAT_YIELD\<rparr>) s)"
proof -
  let ?s = "rt_cpus_lock c s"
  have hi: "scheduler_get_highest_priority_thread c ?s = Some (t, p)"
    using assms(5) by (simp add: scheduler_get_highest_priority_thread_def)
  have keep: "keeps_cpu (s_thread ?s (current c ?s)) p"
    using assms(6) by (simp add: keeps_cpu_def)
  have on: "th_oncpu (s_thread ?s (current c s)) = c"
    using assms(2,7) by (simp add: rt_cpus_lock_def Let_def)
  have "rt_schedule c s = Some (rt_cpus_unlock c (upd_thread (current c s)
      (\<lambda>th. th\<lparr>th_stat := th_stat th AND NOT 8, th_oncpu := c\<rparr>) ?s))"
    using assms(1-4) pick_keep [OF hi keep] lock_nest_1 [of s c] by (simp add: rt_schedule_def Let_def)
  also have "upd_thread (current c s) (\<lambda>th. th\<lparr>th_stat := th_stat th AND NOT 8, th_oncpu := c\<rparr>) ?s =
      upd_thread (current c s) (\<lambda>th. th\<lparr>th_stat := th_stat th AND NOT 8\<rparr>) ?s"
  proof -
    have "(s_thread ?s (current c s))\<lparr>th_stat := x, th_oncpu := c\<rparr> =
      (s_thread ?s (current c s))\<lparr>th_stat := x\<rparr>" for x using on by simp
    then show ?thesis by (simp only: upd_thread_def)
  qed
  also have "rt_cpus_unlock c \<dots> = upd_thread (current c s) (\<lambda>th. th\<lparr>th_stat := th_stat th AND NOT 8\<rparr>)
      (rt_cpus_unlock c ?s)"
    using assms(2) by (simp add: rt_cpus_unlock_def Let_def upd_thread_def stat_nest_comm)
  finally show ?thesis by (simp add: cpus_lock_unlock)
qed

lemma lock_stacks: "stacks_ok c (rt_cpus_lock d s) = stacks_ok c s"
  by (simp add: stacks_ok_def)

lemma giveway_lock: "giveway_list c to (rt_cpus_lock d s) = giveway_list c to s"
  by (simp add: giveway_list_def fun_eq_iff Let_def)

lemma schedule_switch:
  assumes inv: "sched_inv s" and c: "c < 2" and cur: "current c s \<noteq> 0"
    and "cpu_irq_nest (s_cpu s c) = 0" "may_switch c s" "cpu_priority_group (s_cpu s c) \<noteq> 0"
    and hi: "scheduler_get_highest_priority_thread c s = Some (to, p)"
    and l: "s_list s (Ready c p) = to # ts"
    and no: "\<not> keeps_cpu (s_thread s (current c s)) p" and st: "stacks_ok c s"
  shows "\<exists>s'. rt_schedule c s = Some s' \<and> sched_inv s' \<and> s_list s' = giveway_list c to s \<and>
    (\<forall>d. current d s' = (if d = c then to else current d s)) \<and>
    (\<forall>t. th_current_priority (s_thread s' t) = th_current_priority (s_thread s t)) \<and>
    stat_base (th_stat (s_thread s' to)) = RT_THREAD_RUNNING"
proof -
  let ?s = "rt_cpus_lock c s"
  have hi': "scheduler_get_highest_priority_thread c ?s = Some (to, p)"
    using hi by (simp add: scheduler_get_highest_priority_thread_def)
  have no': "\<not> keeps_cpu (s_thread ?s (current c ?s)) p"
    using no by (simp add: keeps_cpu_def)
  have st': "rt_scheduler_stack_check (s_thread ?s to) = Some ()"
    using st [unfolded stacks_ok_def, rule_format, of to p] l by simp
  have "\<exists>s'. scheduler_pick c ?s = Some (to, s') \<and> to \<noteq> current c ?s \<and> to \<noteq> 0 \<and>
    sched_inv (upd_cpu c (\<lambda>p. p\<lparr>cpu_current_thread := to\<rparr>) s') \<and>
    (\<forall>d. \<exists>g i x. s_cpu s' d = (s_cpu ?s d)\<lparr>cpu_priority_group := g, cpu_ipi_type := i, cpu_current_priority := x\<rparr>) \<and>
    (\<forall>t. th_current_priority (s_thread s' t) = th_current_priority (s_thread ?s t)) \<and>
    (\<forall>t. th_cpus_lock_nest (s_thread s' t) = th_cpus_lock_nest (s_thread ?s t)) \<and>
    (\<forall>t. t \<notin> {to, current c ?s} \<longrightarrow> s_thread s' t = s_thread ?s t) \<and>
    s_list s' = giveway_list c to ?s \<and> s_cpus_lock s' = s_cpus_lock ?s \<and>
    stat_base (th_stat (s_thread s' to)) = RT_THREAD_RUNNING"
    by (rule pick_switch [OF _ c _ hi' _ no' st']) (use inv cur l in auto)
  then obtain s' where s': "scheduler_pick c ?s = Some (to, s')" "to \<noteq> current c s"
    "sched_inv (upd_cpu c (\<lambda>p. p\<lparr>cpu_current_thread := to\<rparr>) s')"
    "\<And>d. \<exists>g i x. s_cpu s' d = (s_cpu ?s d)\<lparr>cpu_priority_group := g, cpu_ipi_type := i, cpu_current_priority := x\<rparr>"
    "\<And>t. th_current_priority (s_thread s' t) = th_current_priority (s_thread s t)"
    "s_list s' = giveway_list c to s" "stat_base (th_stat (s_thread s' to)) = RT_THREAD_RUNNING"
    by (auto simp: giveway_lock)
  have cur': "current d s' = current d s" for d using s'(4) [of d] by auto
  have "rt_schedule c s = Some (rt_hw_context_switch c to s')"
    using assms(4-6) cur s'(1,2) lock_nest_1 [of s c] by (simp add: rt_schedule_def Let_def)
  moreover have "stat_base (th_stat (s_thread (rt_hw_context_switch c to s') to)) = RT_THREAD_RUNNING"
    using switch_inv(5) [OF s'(3), of to] s'(7) by (simp add: core_def)
  ultimately show ?thesis using switch_inv [OF s'(3)] s'(5,6) cur' by auto
qed

text \<open>All cases together: what \<open>rt_schedule\<close> does in a consistent state.\<close>

lemma schedule_cases:
  assumes inv: "sched_inv s" and c: "c < 2" and cur: "current c s \<noteq> 0" and st: "stacks_ok c s"
  obtains
    (irq) "cpu_irq_nest (s_cpu s c) \<noteq> 0"
      "rt_schedule c s = Some (upd_cpu c (\<lambda>p. p\<lparr>cpu_irq_switch_flag := 1\<rparr>) s)"
  | (none) "cpu_irq_nest (s_cpu s c) = 0" "\<not> may_switch c s \<or> (\<forall>p. s_list s (Ready c p) = [])"
      "rt_schedule c s = Some s"
  | (keep) t p where "cpu_irq_nest (s_cpu s c) = 0" "may_switch c s"
      "t \<in> set (s_list s (Ready c p))" "\<And>q. q < p \<Longrightarrow> s_list s (Ready c q) = []"
      "keeps_cpu (s_thread s (current c s)) p"
      "rt_schedule c s = Some (upd_thread (current c s)
           (\<lambda>th. th\<lparr>th_stat := th_stat th AND NOT RT_THREAD_STAT_YIELD\<rparr>) s)"
  | (switch) t ts p s' where "cpu_irq_nest (s_cpu s c) = 0" "may_switch c s"
      "s_list s (Ready c p) = t # ts" "\<And>q. q < p \<Longrightarrow> s_list s (Ready c q) = []"
      "\<not> keeps_cpu (s_thread s (current c s)) p"
      "rt_schedule c s = Some s'" "sched_inv s'" "s_list s' = giveway_list c t s"
      "\<And>d. current d s' = (if d = c then t else current d s)"
      "\<And>t. th_current_priority (s_thread s' t) = th_current_priority (s_thread s t)"
      "stat_base (th_stat (s_thread s' t)) = RT_THREAD_RUNNING"
proof (cases "cpu_irq_nest (s_cpu s c) = 0")
  case False
  with irq schedule_irq show thesis by blast
next
  case nest: True
  have go: "groups_ok s" using inv by (simp add: sched_inv_def)
  show thesis
  proof (cases "may_switch c s \<and> cpu_priority_group (s_cpu s c) \<noteq> 0")
    case False
    have "\<not> may_switch c s \<or> (\<forall>p. s_list s (Ready c p) = [])"
      using False go c by (auto simp: groups_ok_def)
    moreover have "rt_schedule c s = Some s" using schedule_none [OF nest cur] False by blast
    ultimately show thesis using none nest by blast
  next
    case True
    then obtain t ts p where hi: "scheduler_get_highest_priority_thread c s = Some (t, p)"
      "s_list s (Ready c p) = t # ts" "\<And>q. q < p \<Longrightarrow> s_list s (Ready c q) = []"
      by (elim conjE) (rule highest_ok [OF go c], assumption, blast)
    show thesis
    proof (cases "keeps_cpu (s_thread s (current c s)) p")
      case k: True
      show thesis
      proof (rule keep [OF nest _ _ hi(3) k])
        show "may_switch c s" using True by simp
        show "t \<in> set (s_list s (Ready c p))" using hi(2) by simp
        show "rt_schedule c s = Some (upd_thread (current c s)
           (\<lambda>th. th\<lparr>th_stat := th_stat th AND NOT RT_THREAD_STAT_YIELD\<rparr>) s)"
          by (rule schedule_keep [OF nest cur _ _ hi(1) k current_not_ready(3) [OF inv c cur]])
            (use True in simp_all)
      qed assumption
    next
      case k: False
      then obtain s' where "rt_schedule c s = Some s'" "sched_inv s'" "s_list s' = giveway_list c t s"
        "\<And>d. current d s' = (if d = c then t else current d s)"
        "\<And>t. th_current_priority (s_thread s' t) = th_current_priority (s_thread s t)"
        "stat_base (th_stat (s_thread s' t)) = RT_THREAD_RUNNING"
        using schedule_switch [OF inv c cur nest _ _ hi(1,2) k st] True by blast
      with switch [of p t ts s'] True hi nest k show thesis by blast
    qed
  qed
qed


lemma irq_flag_inv [simp]:
  "sched_inv (upd_cpu c (\<lambda>p. p\<lparr>cpu_irq_switch_flag := x\<rparr>) s) \<longleftrightarrow> sched_inv s"
  by (rule inv_cong) auto

lemma yield_clear_inv [simp]:
  "sched_inv (upd_thread t (\<lambda>th. th\<lparr>th_stat := th_stat th AND - 9\<rparr>) s) \<longleftrightarrow> sched_inv s"
  by (rule inv_cong) (auto simp: core_def)

lemma schedule_ok:
  assumes "sched_inv s" "c < 2" "current c s \<noteq> 0" "stacks_ok c s"
  shows "\<exists>s'. rt_schedule c s = Some s' \<and> sched_inv s' \<and>
    (\<forall>d. d \<noteq> c \<longrightarrow> current d s' = current d s) \<and> current c s' \<noteq> 0"
  using assms
proof (cases rule: schedule_cases)
  case (switch t ts p s')
  have "t \<noteq> 0" using in_ready [of s t c p] assms(1) switch(3) by (auto simp: sched_inv_def)
  with switch show ?thesis by auto
qed (use assms in auto)

text \<open>
  The current thread is a running one, and its priority is at least that of every ready thread
  of the CPU.
\<close>

definition runs_highest :: "nat \<Rightarrow> sched \<Rightarrow> bool" where
  "runs_highest c s \<longleftrightarrow>
     stat_base (th_stat (s_thread s (current c s))) = RT_THREAD_RUNNING \<and>
     (\<forall>q. s_list s (Ready c q) \<noteq> [] \<longrightarrow> unat (th_current_priority (s_thread s (current c s))) \<le> q)"

text \<open>
  There is a thread to run: a ready one or the current one.  (The idle thread is always one of
  them once the system runs.)
\<close>

definition can_run :: "nat \<Rightarrow> sched \<Rightarrow> bool" where
  "can_run c s \<longleftrightarrow> stat_base (th_stat (s_thread s (current c s))) = RT_THREAD_RUNNING \<or>
     (\<exists>p. s_list s (Ready c p) \<noteq> [])"

lemma schedule_highest:
  assumes inv: "sched_inv s" and c: "c < 2" and cur: "current c s \<noteq> 0" and st: "stacks_ok c s"
    and "cpu_irq_nest (s_cpu s c) = 0" "may_switch c s"
  shows "\<exists>s'. rt_schedule c s = Some s' \<and> sched_inv s' \<and> (can_run c s \<longrightarrow> runs_highest c s') \<and>
    (\<not> can_run c s \<longrightarrow> s' = s) \<and>
    s_list s' = (if current c s' = current c s then s_list s else giveway_list c (current c s') s) \<and>
    (if current c s' = current c s
     then can_run c s \<longrightarrow> stat_base (th_stat (s_thread s (current c s))) = RT_THREAD_RUNNING
     else \<exists>p ts. s_list s (Ready c p) = current c s' # ts)"
  using inv c cur st
proof (cases rule: schedule_cases)
  case none
  have "\<forall>p. s_list s (Ready c p) = []" using none(2) assms(6) by blast
  then show ?thesis using none(3) inv by (simp add: runs_highest_def can_run_def)
next
  case (keep t p)
  have "unat (th_current_priority (s_thread s (current c s))) \<le> q" if "s_list s (Ready c q) \<noteq> []" for q
  proof -
    have "p \<le> q" using keep(4) [of q] that by (cases "q < p") auto
    then show ?thesis using keep(5) by (auto simp: keeps_cpu_def)
  qed
  moreover have "stat_base (th_stat (s_thread s (current c s))) = RT_THREAD_RUNNING"
    using keep(5) by (simp add: keeps_cpu_def)
  ultimately show ?thesis using keep(6) inv by (simp add: runs_highest_def can_run_def)
next
  case (switch t ts p s')
  have T: "unat (th_current_priority (s_thread s t)) = p"
    using in_ready [of s t c p] inv switch(3) by (auto simp: sched_inv_def ready_ok_def)
  have ne: "t \<noteq> current c s" using current_not_ready(2) [OF inv c cur, of c p] switch(3) by auto
  have le: "p \<le> q" if "giveway_list c t s (Ready c q) \<noteq> []" for q
  proof (cases "s_list s (Ready c q) = []")
    case True
    with that have "stat_base (th_stat (s_thread s (current c s))) = 3"
      "q = unat (th_current_priority (s_thread s (current c s)))"
      by (auto simp: giveway_list_def Let_def split: if_splits)
    with switch(5) show ?thesis by (auto simp: keeps_cpu_def)
  next
    case False
    with switch(4) [of q] show ?thesis by (meson not_le)
  qed
  have rh: "runs_highest c s'" using le switch T by (simp add: runs_highest_def)
  have run: "can_run c s" using switch(3) by (auto simp: can_run_def)
  have l: "s_list s' = giveway_list c (current c s') s" "current c s' = t" using switch(8,9) by simp_all
  show ?thesis using switch(3,6,7) rh run l ne by (intro exI [of _ s']) auto
qed (use assms in auto)

text \<open>
  A thread that yields goes behind the other ready threads of its priority, and the first of
  them runs.
\<close>

lemma schedule_yield:
  assumes inv: "sched_inv s" and c: "c < 2" and cur: "current c s \<noteq> 0" and st: "stacks_ok c s"
    and "cpu_irq_nest (s_cpu s c) = 0" "may_switch c s"
  defines "th \<equiv> s_thread s (current c s)"
  defines "p \<equiv> unat (th_current_priority th)"
  assumes run: "stat_base (th_stat th) = RT_THREAD_RUNNING" and y: "th_stat th AND RT_THREAD_STAT_YIELD \<noteq> 0"
    and l: "s_list s (Ready c p) = t # ts" and hi: "\<And>q. q < p \<Longrightarrow> s_list s (Ready c q) = []"
  shows "\<exists>s'. rt_schedule c s = Some s' \<and> sched_inv s' \<and> current c s' = t \<and>
    s_list s' (Ready c p) = ts @ [current c s] \<and> (\<forall>h. h \<noteq> Ready c p \<longrightarrow> s_list s' h = s_list s h)"
  using inv c cur st
proof (cases rule: schedule_cases)
  case (keep t' p')
  have "p = p'"
    using keep(3) keep(4) [of p] l hi [of p'] by (cases p p' rule: linorder_cases) auto
  with keep(5) y have False by (simp add: keeps_cpu_def flip: th_def p_def)
  then show ?thesis ..
next
  case (switch t' ts' p' s')
  have pp: "p = p'"
    using switch(3) switch(4) [of p] l hi [of p'] by (cases p p' rule: linorder_cases) auto
  then have "t' = t" "ts' = ts" using switch(3) l by auto
  have lo: "lists_ok s" using inv by (simp add: sched_inv_def)
  have d: "distinct (t # ts)" using lo l by (metis lists_ok_def)
  have nc: "current c s \<noteq> t" using current_not_ready(2) [OF inv c cur, of c p] l by auto
  have o: "t \<notin> set (s_list s h)" if "h \<noteq> Ready c p" for h
    using in_list_unique [OF lo, of t h "Ready c p"] that l by auto
  have "s_list s' (Ready c p) = ts @ [current c s]"
    using switch(8) l d nc run \<open>t' = t\<close>
    by (auto simp: giveway_list_def Let_def filter_id_conv simp flip: th_def p_def)
  moreover have "s_list s' h = s_list s h" if "h \<noteq> Ready c p" for h
    using switch(8) o [OF that] that \<open>t' = t\<close>
    by (auto simp: giveway_list_def Let_def filter_id_conv simp flip: th_def p_def)
  ultimately show ?thesis using switch \<open>t' = t\<close> by auto
qed (use assms in auto)


subsection \<open>Switching at the end of an interrupt\<close>

lemma irq_switch_idle:
  assumes "cpu_irq_switch_flag (s_cpu s c) = 0 \<or> current c s \<noteq> 0 \<and> (\<not> may_switch c s \<or> cpu_irq_nest (s_cpu s c) \<noteq> 0)"
  shows "rt_scheduler_do_irq_switch c s = Some s"
  using assms lock_nest_1 [of s c] by (auto simp: rt_scheduler_do_irq_switch_def Let_def cpus_lock_unlock)

text \<open>
  A pending switch is carried out: as in \<open>rt_schedule\<close> the best thread runs, and the
  interrupted thread keeps the lock counters it had, so that it resumes unlocked.
\<close>

lemma irq_switch_ok:
  assumes inv: "sched_inv s" and c: "c < 2" and cur: "current c s \<noteq> 0" and st: "stacks_ok c s"
    and fl: "cpu_irq_switch_flag (s_cpu s c) \<noteq> 0" and nest: "cpu_irq_nest (s_cpu s c) = 0"
    and may: "may_switch c s"
  shows "\<exists>s'. rt_scheduler_do_irq_switch c s = Some s' \<and> sched_inv s' \<and>
    (can_run c s \<longrightarrow> runs_highest c s') \<and>
    cpu_irq_switch_flag (s_cpu s' c) = 0 \<and>
    (current c s' \<noteq> current c s \<longrightarrow>
       th_cpus_lock_nest (s_thread s' (current c s)) = th_cpus_lock_nest (s_thread s (current c s)))"
proof -
  let ?f = "\<lambda>p :: rt_cpu. p\<lparr>cpu_irq_switch_flag := 0\<rparr>"
  let ?cur = "current c s"
  define s1 where "s1 = upd_cpu c ?f (rt_cpus_lock c s)"
  have inv1: "sched_inv s1" using inv by (simp add: s1_def)
  have go1: "groups_ok s1" using inv1 by (simp add: sched_inv_def)
  have cur1: "current d s1 = current d s" for d by (simp add: s1_def)
  have l1: "s_list s1 = s_list s" by (simp add: s1_def)
  have pr1: "th_current_priority (s_thread s1 t) = th_current_priority (s_thread s t)"
    "th_stat (s_thread s1 t) = th_stat (s_thread s t)" for t by (simp_all add: s1_def)
  have nest1: "th_cpus_lock_nest (s_thread s1 ?cur) = th_cpus_lock_nest (s_thread s ?cur) + 1"
    using cur by (simp add: s1_def rt_cpus_lock_def Let_def)
  have eq: "rt_scheduler_do_irq_switch c s =
     (if cpu_priority_group (s_cpu s1 c) \<noteq> 0
      then map_option (\<lambda>(to, s). if to \<noteq> ?cur
             then rt_hw_context_switch c to (upd_thread ?cur
                (\<lambda>th. th\<lparr>th_cpus_lock_nest := th_cpus_lock_nest th - 1,
                        th_scheduler_lock_nest := th_scheduler_lock_nest th - 1\<rparr>) s)
             else rt_cpus_unlock c s) (scheduler_pick c s1)
      else Some (rt_cpus_unlock c s1))"
    using fl nest may cur lock_nest_1 [of s c]
    by (cases "scheduler_pick c s1") (auto simp: rt_scheduler_do_irq_switch_def s1_def Let_def)
  show ?thesis
  proof (cases "cpu_priority_group (s_cpu s1 c) = 0")
    case True
    then have "s_list s (Ready c p) = []" for p using go1 c l1 by (auto simp: groups_ok_def)
    with True eq inv1 show ?thesis
      by (simp add: runs_highest_def can_run_def l1 pr1 cur1) (simp add: s1_def)
  next
    case False
    obtain t ts p where hi: "scheduler_get_highest_priority_thread c s1 = Some (t, p)"
      "s_list s1 (Ready c p) = t # ts" "\<And>q. q < p \<Longrightarrow> s_list s1 (Ready c q) = []"
      by (rule highest_ok [OF go1 c False]) (rule that)
    have le: "p \<le> q" if "s_list s (Ready c q) \<noteq> []" for q
      using hi(3) [of q] that l1 by (cases "q < p") auto
    show ?thesis
    proof (cases "keeps_cpu (s_thread s1 (current c s1)) p")
      case True
      have prio: "unat (th_current_priority (s_thread s ?cur)) \<le> p"
        using True by (auto simp: keeps_cpu_def cur1 pr1)
      have running: "stat_base (th_stat (s_thread s ?cur)) = RT_THREAD_RUNNING"
        using True by (simp add: keeps_cpu_def cur1 pr1)
      define s2 where "s2 = upd_thread ?cur (\<lambda>th. th\<lparr>th_stat := th_stat th AND - 9, th_oncpu := c\<rparr>) s1"
      have on: "th_oncpu (s_thread s1 ?cur) = c"
        using current_not_ready(3) [OF inv1 c] cur cur1 by simp
      have "sched_inv s2 = sched_inv s1"
        unfolding s2_def by (rule inv_cong) (use on in \<open>auto simp: core_def\<close>)
      moreover have "rt_scheduler_do_irq_switch c s = Some (rt_cpus_unlock c s2)"
        unfolding eq using False pick_keep [OF hi(1) True] cur1 by (simp add: s2_def)
      moreover have "runs_highest c (rt_cpus_unlock c s2)"
        using le prio running by (auto simp: runs_highest_def s2_def l1 cur1 pr1 intro: le_trans)
      moreover have "cpu_irq_switch_flag (s_cpu (rt_cpus_unlock c s2) c) = 0" by (simp add: s2_def s1_def)
      moreover have "current c (rt_cpus_unlock c s2) = ?cur" by (simp add: s2_def cur1)
      ultimately show ?thesis using inv1 by simp
    next
      case k: False
      have st1: "rt_scheduler_stack_check (s_thread s1 t) = Some ()"
        using st [unfolded stacks_ok_def, rule_format, of t p] hi(2) l1 by (simp add: s1_def)
      have "current c s1 \<noteq> 0" using cur cur1 by simp
      from pick_switch [OF inv1 c this hi(1,2) k st1] obtain s2 where
        s2: "scheduler_pick c s1 = Some (t, s2)" "t \<noteq> ?cur"
        "sched_inv (upd_cpu c (\<lambda>p. p\<lparr>cpu_current_thread := t\<rparr>) s2)"
        "\<forall>d. \<exists>g i x. s_cpu s2 d = (s_cpu s1 d)\<lparr>cpu_priority_group := g, cpu_ipi_type := i, cpu_current_priority := x\<rparr>"
        "\<forall>u. th_current_priority (s_thread s2 u) = th_current_priority (s_thread s1 u)"
        "\<forall>u. th_cpus_lock_nest (s_thread s2 u) = th_cpus_lock_nest (s_thread s1 u)"
        "s_list s2 = giveway_list c t s1" "stat_base (th_stat (s_thread s2 t)) = RT_THREAD_RUNNING"
        unfolding cur1 by (elim exE conjE) (rule that; assumption)
      define s3 where "s3 = upd_thread ?cur
                (\<lambda>th. th\<lparr>th_cpus_lock_nest := th_cpus_lock_nest th - 1,
                        th_scheduler_lock_nest := th_scheduler_lock_nest th - 1\<rparr>) s2"
      have inv3: "sched_inv (upd_cpu c (\<lambda>p. p\<lparr>cpu_current_thread := t\<rparr>) s3)"
        using s2(3) by (subst inv_cong [where s = "upd_cpu c (\<lambda>p. p\<lparr>cpu_current_thread := t\<rparr>) s2"])
          (auto simp: s3_def core_def)
      note S = switch_inv [OF inv3]
      have res: "rt_scheduler_do_irq_switch c s = Some (rt_hw_context_switch c t s3)"
        unfolding eq using False s2(1,2) by (simp add: s3_def)
      have T: "unat (th_current_priority (s_thread s1 t)) = p"
        using in_ready [of s1 t c p] inv1 hi(2) by (auto simp: sched_inv_def ready_ok_def)
      have rh: "p \<le> q" if "giveway_list c t s1 (Ready c q) \<noteq> []" for q
      proof (cases "s_list s (Ready c q) = []")
        case True
        with that have "stat_base (th_stat (s_thread s1 (current c s1))) = 3"
          "q = unat (th_current_priority (s_thread s1 (current c s1)))"
          by (auto simp: giveway_list_def Let_def l1 split: if_splits)
        with k show ?thesis by (auto simp: keeps_cpu_def)
      qed (rule le)
      have "runs_highest c (rt_hw_context_switch c t s3)"
      proof -
        have "stat_base (th_stat (s_thread (rt_hw_context_switch c t s3) t)) = RT_THREAD_RUNNING"
          using S(5) [of t] s2(2,8) by (simp add: core_def s3_def)
        then show ?thesis using rh S T s2(5,7) by (auto simp: runs_highest_def s3_def)
      qed
      moreover have "th_cpus_lock_nest (s_thread (rt_hw_context_switch c t s3) ?cur) =
          th_cpus_lock_nest (s_thread s ?cur)"
        using s2(2,6) nest1 by (simp add: rt_hw_context_switch_def rt_cpus_lock_status_restore_def
            rt_spin_unlock_cpus_def rt_cpus_unlock_def Let_def s3_def)
      moreover have "cpu_irq_switch_flag (s_cpu (rt_hw_context_switch c t s3) c) = 0"
      proof -
        have "cpu_irq_switch_flag (s_cpu s2 c) = 0" using s2(4) [rule_format, of c] by (auto simp: s1_def)
        then show ?thesis
          by (simp add: rt_hw_context_switch_def rt_cpus_lock_status_restore_def
            rt_spin_unlock_cpus_def Let_def s3_def)
      qed
      ultimately show ?thesis using res S(1) by auto
    qed
  qed
qed

subsection \<open>Critical sections\<close>

lemma enter_critical_ok:
  assumes "current c s \<noteq> 0" and "cpu_irq_nest (s_cpu s c) = 0"
    and "th_cpus_lock_nest (s_thread s (current c s)) = 0"
    and "th_scheduler_lock_nest (s_thread s (current c s)) = 0"
    and "th_critical_lock_nest (s_thread s (current c s)) = 0" and "\<not> fst (s_cpus_lock s)"
    and "snd (s_cpus_lock s) \<noteq> current c s"
  shows "\<exists>s1. rt_enter_critical c s = Some s1 \<and> rt_critical_level c s1 = 1 \<and> fst (s_cpus_lock s1) \<and>
    rt_schedule c s1 = Some s1 \<and>
    rt_exit_critical c s1 = rt_schedule c (s\<lparr>s_cpus_lock := (False, 0)\<rparr>)"
proof -
  let ?t = "current c s"
  let ?th = "s_thread s ?t"
  define s1 where "s1 = s\<lparr>s_cpus_lock := (True, ?t), s_thread := (s_thread s)(?t :=
     ?th\<lparr>th_cpus_lock_nest := 1, th_critical_lock_nest := 1, th_scheduler_lock_nest := 2\<rparr>)\<rparr>"
  have en: "rt_enter_critical c s = Some s1"
    using assms by (simp add: rt_enter_critical_def rt_spin_lock_cpus_def Let_def s1_def upd_thread_def)
  moreover have "rt_critical_level c s1 = 1" "fst (s_cpus_lock s1)"
    by (simp_all add: rt_critical_level_def s1_def)
  moreover have "rt_schedule c s1 = Some s1"
    by (rule schedule_none) (use assms in \<open>simp_all add: s1_def may_switch_def Let_def\<close>)
  moreover have "rt_exit_critical c s1 = rt_schedule c (s\<lparr>s_cpus_lock := (False, 0)\<rparr>)"
  proof -
    have same: "?th\<lparr>th_critical_lock_nest := 0, th_cpus_lock_nest := 0, th_scheduler_lock_nest := 0\<rparr> = ?th"
      using assms by simp
    have "rt_exit_critical c s1 = rt_schedule c (s\<lparr>s_cpus_lock := (False, 0), s_thread := (s_thread s)
        (?t := ?th\<lparr>th_critical_lock_nest := 0, th_cpus_lock_nest := 0, th_scheduler_lock_nest := 0\<rparr>)\<rparr>)"
      using assms(1) by (simp add: rt_exit_critical_def Let_def s1_def upd_thread_def rt_spin_unlock_cpus_def)
    then show ?thesis unfolding same by simp
  qed
  ultimately show ?thesis by blast
qed

lemma nested_critical_ok:
  assumes "current c s \<noteq> 0"
    and "0 < unat (th_cpus_lock_nest (s_thread s (current c s)))"
    and "th_cpus_lock_nest (s_thread s (current c s)) + 1 \<noteq> 0"
    and "th_scheduler_lock_nest (s_thread s (current c s)) \<noteq> 0"
    and "th_scheduler_lock_nest (s_thread s (current c s)) + 1 \<noteq> 0"
  shows "\<exists>s1. rt_enter_critical c s = Some s1 \<and> rt_exit_critical c s1 = Some s"
proof -
  let ?t = "current c s"
  let ?th = "s_thread s ?t"
  have n: "th_cpus_lock_nest ?th \<noteq> 0" using assms(2) by auto
  have same: "?th\<lparr>th_cpus_lock_nest := th_cpus_lock_nest ?th, th_scheduler_lock_nest := th_scheduler_lock_nest ?th,
     th_critical_lock_nest := th_critical_lock_nest ?th\<rparr> = ?th" by simp
  show ?thesis
    using assms n by (simp add: rt_enter_critical_def rt_exit_critical_def Let_def upd_thread_def)
qed


subsection \<open>A sample state\<close>

text \<open>
  CPU 0 runs thread 1 (priority 10); threads 2 (priority 10) and 3 (priority 20) are ready
  there; CPU 1 runs its idle thread 4.
\<close>

definition sample_thread :: "u8 \<Rightarrow> u8 \<Rightarrow> nat \<Rightarrow> nat \<Rightarrow> rt_thread" where
  "sample_thread prio st bcpu on =
     \<lparr>th_entry = 0, th_parameter = 0, th_sp = 0x1800, th_stack_addr = 0x1000, th_stack_size = 0x1000,
      th_stack_guard = 0x23, th_error = 0, th_stat = st, th_bind_cpu = bcpu, th_oncpu = on,
      th_scheduler_lock_nest = 0, th_cpus_lock_nest = 0, th_critical_lock_nest = 0,
      th_current_priority = prio, th_init_priority = prio, th_number_mask = push_bit (unat prio) 1,
      th_event_set = 0, th_event_info = 0, th_init_tick = 5, th_remaining_tick = 5, th_cleanup = 0,
      th_user_data = 0\<rparr>"

definition sample_cpu :: "nat \<Rightarrow> u32 \<Rightarrow> rt_cpu" where
  "sample_cpu t g =
     \<lparr>cpu_current_thread = t, cpu_irq_nest = 0, cpu_irq_switch_flag = 0, cpu_current_priority = 31,
      cpu_priority_group = g, cpu_tick = 0, cpu_ipi_type = 0, cpu_recent_total_ticks = 0,
      cpu_idle_ticks = 0\<rparr>"

definition sample_sched :: "u8 \<Rightarrow> sched" where
  "sample_sched st =
     \<lparr>s_thread = (\<lambda>_. sample_thread 10 0 0 2)(1 := sample_thread 10 st 0 0, 2 := sample_thread 10 1 0 2,
        3 := sample_thread 20 1 0 2, 4 := sample_thread 31 3 1 1),
      s_cpu = (\<lambda>_. sample_cpu 0 0)(0 := sample_cpu 1 0x100400, 1 := sample_cpu 4 0),
      s_list = (\<lambda>_. [])(Ready 0 10 := [2], Ready 0 20 := [3]),
      s_cpus_lock = (False, 0), s_ipi = []\<rparr>"

lemma sample_group: "bit (0x100400 :: u32) p \<longleftrightarrow> p = 10 \<or> p = 20"
proof -
  have "(0x100400 :: u32) = 2 ^ 10 OR 2 ^ 20" by simp
  then show ?thesis by (simp only: bit_or_iff bit_exp_iff) (auto simp: bit_simps)
qed

lemma sample_sched_facts [simp]:
  "current 0 (sample_sched st) = 1" "current (Suc 0) (sample_sched st) = 4"
  "s_thread (sample_sched st) (Suc 0) = sample_thread 10 st 0 0"
  "s_thread (sample_sched st) 2 = sample_thread 10 1 0 2"
  "s_thread (sample_sched st) 3 = sample_thread 20 1 0 2"
  "may_switch 0 (sample_sched st)"
  "s_list (sample_sched st) (Ready 0 10) = [2]" "s_list (sample_sched st) (Ready 0 20) = [3]"
  "cpu_irq_nest (s_cpu (sample_sched st) c) = 0" "s_cpus_lock (sample_sched st) = (False, 0)"
  by (simp_all add: sample_sched_def sample_cpu_def may_switch_def Let_def sample_thread_def)

lemma sample_lists: "t \<in> set (s_list (sample_sched st) h) \<longleftrightarrow>
    h = Ready 0 10 \<and> t = 2 \<or> h = Ready 0 20 \<and> t = 3"
  by (auto simp: sample_sched_def)

lemma sample_inv_any: "stat_base st \<in> {2, 3} \<Longrightarrow> sched_inv (sample_sched st)"
  unfolding sched_inv_def
proof (intro conjI allI impI)
  assume st: "stat_base st \<in> {2, 3}"
  show "lists_ok (sample_sched st)"
    unfolding lists_ok_def sample_lists
    by (auto simp: ready_ok_def thread_wf_def sample_thread_def) (auto simp: sample_sched_def)
  have g: "cpu_priority_group (s_cpu (sample_sched st) 0) = 0x100400"
    "cpu_priority_group (s_cpu (sample_sched st) 1) = 0"
    by (simp_all add: sample_sched_def sample_cpu_def)
  have l: "s_list (sample_sched st) (Ready c p) \<noteq> [] \<longleftrightarrow> c = 0 \<and> (p = 10 \<or> p = 20)" for c p
    by (simp add: sample_sched_def)
  have "bit (cpu_priority_group (s_cpu (sample_sched st) c)) p \<longleftrightarrow> c = 0 \<and> (p = 10 \<or> p = 20)"
    if c: "c < 2" for c p
  proof -
    consider "c = 0" | "c = 1" using c by linarith
    then show ?thesis by cases (simp_all only: g sample_group bit_0_eq, simp_all)
  qed
  then show "groups_ok (sample_sched st)" unfolding groups_ok_def l by blast
  show "thread_ok (sample_sched st) t" if "t \<noteq> 0" for t
  proof -
    consider "t = 1" | "t = 2" | "t = 3" | "t = 4" | "t \<notin> {1, 2, 3, 4}" by blast
    then show ?thesis
      by cases (use st in \<open>auto simp: thread_ok_def Let_def sample_lists sample_thread_def thread_wf_def,
        auto simp: sample_sched_def sample_thread_def sample_cpu_def thread_wf_def\<close>)
  qed
  show "cpu_ok (sample_sched st) c" if "c < 2" for c
    using that by (auto simp: cpu_ok_def less_2_cases_iff Let_def)
      (auto simp: sample_sched_def sample_thread_def thread_wf_def)
qed

lemma sample_inv: "stat_base st = 3 \<Longrightarrow> sched_inv (sample_sched st)"
  by (rule sample_inv_any) simp

lemma sample_stacks: "stacks_ok c (sample_sched st)"
  by (auto simp: stacks_ok_def sample_lists sample_thread_def rt_scheduler_stack_check_def)

end
