(* ===== verification/SchedProps.thy ===== *)
theory SchedProps
  imports SchedInv
begin

section \<open>Properties of the scheduler\<close>

text \<open>C11: unlinking a thread from the ready table or a waiting list, and linking a detached
  thread at the end of the ready list of its CPU and priority, both succeed on a consistent
  table and keep lists and priority bitmaps in agreement; linking a thread bound to another
  CPU sends that CPU one reschedule interrupt.\<close>

theorem rt_schedule_table_ops:
  assumes "lists_ok s" "groups_ok s" "t \<noteq> 0" "thread_wf (s_thread s t)"
    and "lists_ok s0" "groups_ok s0" "in_no_list t s0" "s_thread s0 t = s_thread s t"
    and "th_oncpu (s_thread s t) = RT_CPU_DETACHED"
  defines "h \<equiv> Ready (th_bind_cpu (s_thread s t)) (unat (th_current_priority (s_thread s t)))"
  shows "(\<exists>s'. rt_schedule_remove_thread t s = Some s' \<and> lists_ok s' \<and> groups_ok s' \<and> in_no_list t s' \<and>
      s_thread s' = s_thread s \<and> s_list s' = (\<lambda>h. filter (\<lambda>x. x \<noteq> t) (s_list s h))) \<and>
    (\<exists>s'. rt_schedule_insert_thread c t s0 = Some s' \<and> lists_ok s' \<and> groups_ok s' \<and>
      s_list s' = (s_list s0)(h := s_list s0 h @ [t]) \<and>
      stat_base (th_stat (s_thread s' t)) = RT_THREAD_READY \<and>
      s_ipi s' = s_ipi s0 @ (if c = th_bind_cpu (s_thread s t) then [] else [th_bind_cpu (s_thread s t)]))"
proof
  show "\<exists>s'. rt_schedule_remove_thread t s = Some s' \<and> lists_ok s' \<and> groups_ok s' \<and> in_no_list t s' \<and>
      s_thread s' = s_thread s \<and> s_list s' = (\<lambda>h. filter (\<lambda>x. x \<noteq> t) (s_list s h))"
    using remove_thread_ok [OF assms(1-4)] by blast
  have "thread_wf (s_thread s0 t)" "th_oncpu (s_thread s0 t) = RT_CPU_DETACHED"
    using assms by simp_all
  from insert_thread_ok [OF assms(5,6,3) this(1) assms(7) this(2), of c, unfolded assms(8), folded h_def]
  show "\<exists>s'. rt_schedule_insert_thread c t s0 = Some s' \<and> lists_ok s' \<and> groups_ok s' \<and>
      s_list s' = (s_list s0)(h := s_list s0 h @ [t]) \<and>
      stat_base (th_stat (s_thread s' t)) = RT_THREAD_READY \<and>
      s_ipi s' = s_ipi s0 @ (if c = th_bind_cpu (s_thread s t) then [] else [th_bind_cpu (s_thread s t)])"
    by auto
qed

lemma sample_removed: "\<exists>s'. rt_schedule_remove_thread 2 (sample_sched 3) = Some s' \<and> lists_ok s' \<and>
    groups_ok s' \<and> in_no_list 2 s' \<and> s_thread s' = s_thread (sample_sched 3)"
proof -
  have "lists_ok (sample_sched 3)" "groups_ok (sample_sched 3)"
    using sample_inv [of 3] by (simp_all add: sched_inv_def)
  moreover have "thread_wf (s_thread (sample_sched 3) 2)" by (simp add: sample_thread_def thread_wf_def)
  ultimately show ?thesis using remove_thread_ok [of "sample_sched 3" 2] by auto
qed

lemma rt_schedule_table_ops_witness:
  "\<exists>s s'. rt_schedule_insert_thread 1 2 s = Some s' \<and> s_ipi s' = s_ipi s @ [0]"
proof -
  obtain s0 where s0: "lists_ok s0" "groups_ok s0" "in_no_list 2 s0" "s_thread s0 = s_thread (sample_sched 3)"
    using sample_removed by blast
  have inv: "lists_ok (sample_sched 3)" "groups_ok (sample_sched 3)"
    using sample_inv [of 3] by (simp_all add: sched_inv_def)
  have th: "thread_wf (s_thread (sample_sched 3) 2)" "th_oncpu (s_thread (sample_sched 3) 2) = 2"
    "th_bind_cpu (s_thread (sample_sched 3) 2) = 0"
    by (simp_all add: sample_thread_def thread_wf_def)
  have "\<exists>s'. rt_schedule_insert_thread 1 2 s0 = Some s' \<and> s_ipi s' = s_ipi s0 @ [0]"
    using rt_schedule_table_ops [OF inv _ th(1) s0(1-3) _ th(2), of 1] s0(4) th(3) by auto
  then show ?thesis by blast
qed

text \<open>C1: in a consistent state \<open>rt_schedule\<close> returns, keeps the state consistent, and with
  interrupts and locks at rest leaves the CPU to a running thread whose priority is at least that of
  every thread ready on that CPU, as soon as there is a thread to run (ready or current).  Only a
  thread that was running keeps the CPU, one that takes over is the first of its ready list, and a running thread that gives way goes to the
  end of the ready list of its priority; the other CPU's thread is untouched.\<close>

theorem rt_schedule_highest:
  assumes "sched_inv s" "c < RT_CPUS_NR" "current c s \<noteq> 0" "stacks_ok c s"
  shows "\<exists>s'. rt_schedule c s = Some s' \<and> sched_inv s' \<and> current c s' \<noteq> 0 \<and>
    (\<forall>d. d \<noteq> c \<longrightarrow> current d s' = current d s) \<and>
    (cpu_irq_nest (s_cpu s c) = 0 \<and> may_switch c s \<longrightarrow>
       (can_run c s \<longrightarrow> runs_highest c s') \<and> (\<not> can_run c s \<longrightarrow> s' = s) \<and>
       s_list s' = (if current c s' = current c s then s_list s else giveway_list c (current c s') s) \<and>
       (if current c s' = current c s
        then can_run c s \<longrightarrow> stat_base (th_stat (s_thread s (current c s))) = RT_THREAD_RUNNING
        else \<exists>p ts. s_list s (Ready c p) = current c s' # ts))"
  using schedule_ok [OF assms] schedule_highest [OF assms] by fastforce

lemma rt_schedule_highest_witness:
  "\<exists>s'. rt_schedule 0 (sample_sched 2) = Some s' \<and> runs_highest 0 s' \<and> current 0 s' \<noteq> 1"
proof -
  have b: "stat_base 2 = 2" by (simp add: stat_base_def)
  have run: "can_run 0 (sample_sched 2)" unfolding can_run_def by (rule disjI2, rule exI [of _ 10]) simp
  have "stat_base (th_stat (s_thread (sample_sched 2) 1)) = 2" by (simp add: sample_thread_def b)
  with rt_schedule_highest [of "sample_sched 2" 0] run sample_inv_any [of 2] b sample_stacks [of 0 2]
  show ?thesis by (auto split: if_splits)
qed

text \<open>Fact: round robin: a running thread that has set its yield mark goes to the end of the
  ready list of its priority and the first thread of that list runs; no other list moves.\<close>

theorem rt_schedule_round_robin:
  assumes "sched_inv s" "c < RT_CPUS_NR" "current c s \<noteq> 0" "stacks_ok c s"
    and "cpu_irq_nest (s_cpu s c) = 0" "may_switch c s"
    and "stat_base (th_stat (s_thread s (current c s))) = RT_THREAD_RUNNING"
    and "th_stat (s_thread s (current c s)) AND RT_THREAD_STAT_YIELD \<noteq> 0"
    and "s_list s (Ready c (unat (th_current_priority (s_thread s (current c s))))) = t # ts"
    and "\<And>q. q < unat (th_current_priority (s_thread s (current c s))) \<Longrightarrow> s_list s (Ready c q) = []"
  shows "\<exists>s'. rt_schedule c s = Some s' \<and> sched_inv s' \<and> current c s' = t \<and>
    s_list s' (Ready c (unat (th_current_priority (s_thread s (current c s))))) = ts @ [current c s] \<and>
    (\<forall>h. h \<noteq> Ready c (unat (th_current_priority (s_thread s (current c s)))) \<longrightarrow> s_list s' h = s_list s h)"
  using schedule_yield [OF assms(1-8)] assms(9,10) by blast

lemma rt_schedule_round_robin_witness:
  "\<exists>s'. rt_schedule 0 (sample_sched 11) = Some s' \<and> current 0 s' = 2 \<and> s_list s' (Ready 0 10) = [1]"
proof -
  have b: "stat_base 11 = 3" by (simp add: stat_base_def)
  have p: "unat (th_current_priority (s_thread (sample_sched 11) (current 0 (sample_sched 11)))) = 10"
    by (simp add: sample_thread_def)
  have q: "s_list (sample_sched 11) (Ready 0 q) = []" if "q < 10" for q
    using that by (simp add: sample_sched_def)
  have "\<exists>s'. rt_schedule 0 (sample_sched 11) = Some s' \<and> sched_inv s' \<and> current 0 s' = 2 \<and>
    s_list s' (Ready 0 10) = [] @ [current 0 (sample_sched 11)] \<and>
    (\<forall>h. h \<noteq> Ready 0 10 \<longrightarrow> s_list s' h = s_list (sample_sched 11) h)"
    by (rule rt_schedule_round_robin [of "sample_sched 11" 0 2 "[]", unfolded p])
      (use sample_inv [OF b] sample_stacks q b in \<open>auto simp: sample_thread_def\<close>)
  then show ?thesis by auto
qed

text \<open>Fact: between \<open>rt_enter_critical\<close> and \<open>rt_exit_critical\<close> a call of \<open>rt_schedule\<close> changes
  nothing; leaving the outermost section releases the CPU lock and is exactly a call of
  \<open>rt_schedule\<close>, leaving an inner one restores the state.\<close>

theorem critical_section:
  assumes "current c s \<noteq> 0" "cpu_irq_nest (s_cpu s c) = 0"
    and "th_cpus_lock_nest (s_thread s (current c s)) = 0"
    and "th_scheduler_lock_nest (s_thread s (current c s)) = 0"
    and "th_critical_lock_nest (s_thread s (current c s)) = 0"
    and "\<not> fst (s_cpus_lock s)" "snd (s_cpus_lock s) \<noteq> current c s"
  shows "\<exists>s1 s2. rt_enter_critical c s = Some s1 \<and> rt_schedule c s1 = Some s1 \<and> fst (s_cpus_lock s1) \<and>
    rt_enter_critical c s1 = Some s2 \<and> rt_schedule c s2 = Some s2 \<and> rt_exit_critical c s2 = Some s1 \<and>
    rt_exit_critical c s1 = rt_schedule c (s\<lparr>s_cpus_lock := (False, 0)\<rparr>)"
proof -
  obtain s1 where s1: "rt_enter_critical c s = Some s1" "fst (s_cpus_lock s1)" "rt_schedule c s1 = Some s1"
    "rt_exit_critical c s1 = rt_schedule c (s\<lparr>s_cpus_lock := (False, 0)\<rparr>)"
    using enter_critical_ok [OF assms] by blast
  have eq: "s1 = s\<lparr>s_cpus_lock := (True, current c s), s_thread := (s_thread s)(current c s :=
     (s_thread s (current c s))\<lparr>th_cpus_lock_nest := 1, th_critical_lock_nest := 1, th_scheduler_lock_nest := 2\<rparr>)\<rparr>"
    using s1(1) assms
    by (simp add: rt_enter_critical_def rt_spin_lock_cpus_def Let_def upd_thread_def)
  have c1: "current c s1 = current c s" "cpu_irq_nest (s_cpu s1 c) = 0"
    "th_cpus_lock_nest (s_thread s1 (current c s)) = 1"
    "th_scheduler_lock_nest (s_thread s1 (current c s)) = 2"
    using assms(2) by (simp_all add: eq)
  obtain s2 where s2: "rt_enter_critical c s1 = Some s2" "rt_exit_critical c s2 = Some s1"
    using nested_critical_ok [of s1 c] assms(1) c1 by auto
  have "rt_schedule c s2 = Some s2"
    by (rule schedule_none) (use s2(1) c1 assms(1) in \<open>auto simp: rt_enter_critical_def Let_def may_switch_def\<close>)
  with s1 s2 show ?thesis by blast
qed

lemma critical_section_witness:
  "\<exists>s1. rt_enter_critical 0 (sample_sched 3) = Some s1 \<and> rt_schedule 0 s1 = Some s1"
  using critical_section [of "sample_sched 3" 0] by (auto simp: sample_thread_def)

text \<open>Fact: a switch requested inside an interrupt is only recorded there; when the last
  interrupt level is left it is carried out, the best thread runs, the request is cleared, and
  the interrupted thread keeps the lock count it had.\<close>

theorem rt_scheduler_irq_switch:
  assumes "sched_inv s" "c < RT_CPUS_NR" "current c s \<noteq> 0" "stacks_ok c s" "may_switch c s"
    and "cpu_irq_nest (s_cpu s c) = 0"
  shows "\<exists>s1 s'. rt_schedule c (rt_interrupt_enter c s) = Some s1 \<and>
    current c s1 = current c s \<and> s_list s1 = s_list s \<and>
    rt_scheduler_do_irq_switch c (rt_interrupt_leave c s1) = Some s' \<and> sched_inv s' \<and>
    (can_run c s \<longrightarrow> runs_highest c s') \<and> cpu_irq_switch_flag (s_cpu s' c) = 0 \<and>
    (current c s' \<noteq> current c s \<longrightarrow>
       th_cpus_lock_nest (s_thread s' (current c s)) = th_cpus_lock_nest (s_thread s (current c s)))"
proof -
  define s1 where "s1 = upd_cpu c (\<lambda>p. p\<lparr>cpu_irq_switch_flag := 1\<rparr>) (rt_interrupt_enter c s)"
  define s2 where "s2 = rt_interrupt_leave c s1"
  have "rt_schedule c (rt_interrupt_enter c s) = Some s1"
    unfolding s1_def by (rule schedule_irq) (use assms(6) in \<open>simp add: rt_interrupt_enter_def\<close>)
  moreover have f: "current d s2 = current d s" "s_list s2 = s_list s" "s_thread s2 = s_thread s" for d
    by (simp_all add: s2_def s1_def rt_interrupt_enter_def rt_interrupt_leave_def)
  moreover have "sched_inv s2"
    by (subst inv_cong [where s = s])
      (use f assms(1) in \<open>auto simp: s2_def s1_def rt_interrupt_enter_def rt_interrupt_leave_def\<close>)
  moreover have "stacks_ok c s2" "may_switch c s2"
    using assms(4,5) f by (simp_all add: stacks_ok_def may_switch_def)
  moreover have "cpu_irq_switch_flag (s_cpu s2 c) = 1" "cpu_irq_nest (s_cpu s2 c) = 0"
    using assms(6) by (simp_all add: s2_def s1_def rt_interrupt_enter_def rt_interrupt_leave_def)
  moreover have "\<exists>s'. rt_scheduler_do_irq_switch c s2 = Some s' \<and> sched_inv s' \<and> (can_run c s2 \<longrightarrow> runs_highest c s') \<and>
    cpu_irq_switch_flag (s_cpu s' c) = 0 \<and> (current c s' \<noteq> current c s2 \<longrightarrow>
       th_cpus_lock_nest (s_thread s' (current c s2)) = th_cpus_lock_nest (s_thread s2 (current c s2)))"
    by (rule irq_switch_ok) (use calculation assms(2,3) in auto)
  moreover have "can_run c s2 = can_run c s" using f by (simp add: can_run_def)
  moreover have "current c s1 = current c s" "s_list s1 = s_list s"
    by (simp_all add: s1_def rt_interrupt_enter_def)
  ultimately show ?thesis by - (rule exI [of _ s1], fold s2_def, auto)
qed

lemma rt_scheduler_irq_switch_witness:
  "\<exists>s1 s'. rt_schedule 0 (rt_interrupt_enter 0 (sample_sched 3)) = Some s1 \<and>
    rt_scheduler_do_irq_switch 0 (rt_interrupt_leave 0 s1) = Some s' \<and> runs_highest 0 s'"
proof -
  have run: "can_run 0 (sample_sched 3)" unfolding can_run_def by (rule disjI2, rule exI [of _ 10]) simp
  have "\<exists>s1 s'. rt_schedule 0 (rt_interrupt_enter 0 (sample_sched 3)) = Some s1 \<and>
    current 0 s1 = current 0 (sample_sched 3) \<and> s_list s1 = s_list (sample_sched 3) \<and>
    rt_scheduler_do_irq_switch 0 (rt_interrupt_leave 0 s1) = Some s' \<and> sched_inv s' \<and>
    (can_run 0 (sample_sched 3) \<longrightarrow> runs_highest 0 s') \<and> cpu_irq_switch_flag (s_cpu s' 0) = 0 \<and>
    (current 0 s' \<noteq> current 0 (sample_sched 3) \<longrightarrow>
       th_cpus_lock_nest (s_thread s' (current 0 (sample_sched 3))) =
       th_cpus_lock_nest (s_thread (sample_sched 3) (current 0 (sample_sched 3))))"
    by (rule rt_scheduler_irq_switch) (use sample_inv [of 3] sample_stacks [of 0 3] in simp_all)
  with run show ?thesis by blast
qed

end
