(* ===== verification/Objects.thy ===== *)
theory Objects
  imports Sched
begin

section \<open>Kernel objects (\<open>src/object.c\<close>)\<close>

text \<open>
  Every kernel object embeds a \<open>struct rt_object\<close> with its name, type and flags, linked into
  the container of its class.  \<open>Obj a\<close> is the object at address \<open>a\<close> (\<open>Obj 0\<close> is \<open>RT_NULL\<close>);
  \<open>ThTimer t\<close> is the timer inside the control block of thread \<open>t\<close>.  The timer fields and
  lists are in the same record, which theory \<open>Timer\<close> works on.  Results of \<open>rt_malloc\<close> are
  arguments.
\<close>

datatype oid = Obj nat | ThTimer nat

record rt_object =
  o_name :: "u8 list"
  o_type :: u8
  o_flag :: u8

text \<open>A time-out function: the thread time-out, or any other with its address and argument.\<close>

datatype timeout_func = rt_thread_timeout nat | user_timeout nat nat

record rt_timer =
  tm_func :: timeout_func
  tm_init_tick :: u32
  tm_timeout_tick :: u32

record objs =
  ob_obj :: "oid \<Rightarrow> rt_object"
  ob_container :: "u8 \<Rightarrow> oid list"
  ob_timer :: "oid \<Rightarrow> rt_timer"
  ob_timer_list :: "oid list"  \<comment> \<open>\<open>_timer_list\<close>\<close>
  ob_fired :: "oid list"  \<comment> \<open>the local \<open>list\<close> of \<open>rt_timer_check\<close>\<close>

abbreviation (input) RT_Object_Class_Thread :: u8 where "RT_Object_Class_Thread \<equiv> 0x01"
abbreviation (input) RT_Object_Class_Semaphore :: u8 where "RT_Object_Class_Semaphore \<equiv> 0x02"
abbreviation (input) RT_Object_Class_Mutex :: u8 where "RT_Object_Class_Mutex \<equiv> 0x03"
abbreviation (input) RT_Object_Class_Event :: u8 where "RT_Object_Class_Event \<equiv> 0x04"
abbreviation (input) RT_Object_Class_MailBox :: u8 where "RT_Object_Class_MailBox \<equiv> 0x05"
abbreviation (input) RT_Object_Class_MessageQueue :: u8 where "RT_Object_Class_MessageQueue \<equiv> 0x06"
abbreviation (input) RT_Object_Class_MemPool :: u8 where "RT_Object_Class_MemPool \<equiv> 0x08"
abbreviation (input) RT_Object_Class_Timer :: u8 where "RT_Object_Class_Timer \<equiv> 0x0a"
abbreviation (input) RT_Object_Class_Static :: u8 where "RT_Object_Class_Static \<equiv> 0x80"

definition upd_obj :: "oid \<Rightarrow> (rt_object \<Rightarrow> rt_object) \<Rightarrow> objs \<Rightarrow> objs" where
  "upd_obj i f k = k\<lparr>ob_obj := (ob_obj k)(i := f (ob_obj k i))\<rparr>"

text \<open>The classes \<open>_object_container\<close> has an entry for.\<close>

definition rt_object_get_information :: "u8 \<Rightarrow> bool" where
  "rt_object_get_information class \<longleftrightarrow> class \<in> {1, 2, 3, 4, 5, 6, 7, 8, 9, 10}"

definition rt_object_get_length :: "u8 \<Rightarrow> objs \<Rightarrow> nat" where
  "rt_object_get_length class k =
     (if \<not> rt_object_get_information class then 0 else length (ob_container k class))"

definition rt_object_get_pointers :: "u8 \<Rightarrow> int \<Rightarrow> objs \<Rightarrow> oid list" where
  "rt_object_get_pointers class maxlen k =
     (if maxlen \<le> 0 \<or> \<not> rt_object_get_information class then []
      else take (nat maxlen) (ob_container k class))"

definition olist_remove :: "oid \<Rightarrow> objs \<Rightarrow> objs" where
  "olist_remove i k = k\<lparr>ob_container := (\<lambda>c. filter (\<lambda>x. x \<noteq> i) (ob_container k c))\<rparr>"

definition olist_insert :: "u8 \<Rightarrow> oid \<Rightarrow> objs \<Rightarrow> objs" where
  "olist_insert class i k = k\<lparr>ob_container := (ob_container k)(class := i # ob_container k class)\<rparr>"

text \<open>
  \<open>rt_object_init\<close> without the scheduler lock it holds during the search (theory \<open>Thread\<close>
  has the pair); \<open>name\<close> is the bytes of the string.
\<close>

definition rt_object_init :: "oid \<Rightarrow> u8 \<Rightarrow> u8 list \<Rightarrow> objs \<Rightarrow> objs option" where
  "rt_object_init i class name k =
     do { rt_assert (rt_object_get_information class);
          rt_assert (i \<notin> set (ob_container k class));
          nm \<leftarrow> rt_strncpy name 8;
          Some (olist_insert class i
            (upd_obj i (\<lambda>ob. ob\<lparr>o_type := class OR RT_Object_Class_Static, o_name := nm\<rparr>) k)) }"

definition rt_object_detach :: "oid \<Rightarrow> objs \<Rightarrow> objs option" where
  "rt_object_detach i k =
     do { rt_assert (i \<noteq> Obj 0);
          Some (olist_remove i (upd_obj i (\<lambda>ob. ob\<lparr>o_type := 0\<rparr>) k)) }"

text \<open>\<open>mem\<close> is the block \<open>rt_malloc\<close> returned, 0 when it had none.\<close>

definition rt_object_allocate :: "nat \<Rightarrow> u8 \<Rightarrow> u8 list \<Rightarrow> objs \<Rightarrow> (nat \<times> objs) option" where
  "rt_object_allocate mem class name k =
     do { rt_assert (rt_object_get_information class);
          (if mem = 0 then Some (0, k)
           else do {
             nm \<leftarrow> rt_strncpy name 8;
             Some (mem, olist_insert class (Obj mem)
               (upd_obj (Obj mem) (\<lambda>_. \<lparr>o_name = nm, o_type = class, o_flag = 0\<rparr>) k)) }) }"

text \<open>The block goes back to the heap: \<open>rt_free\<close> is theory \<open>SmallMem\<close>'s.\<close>

definition rt_object_delete :: "oid \<Rightarrow> objs \<Rightarrow> objs option" where
  "rt_object_delete i k =
     do { rt_assert (i \<noteq> Obj 0);
          rt_assert (o_type (ob_obj k i) AND RT_Object_Class_Static = 0);
          Some (olist_remove i (upd_obj i (\<lambda>ob. ob\<lparr>o_type := 0\<rparr>) k)) }"

definition rt_object_is_systemobject :: "oid \<Rightarrow> objs \<Rightarrow> bool" where
  "rt_object_is_systemobject i k \<longleftrightarrow> o_type (ob_obj k i) AND RT_Object_Class_Static \<noteq> 0"

definition rt_object_get_type :: "oid \<Rightarrow> objs \<Rightarrow> u8" where
  "rt_object_get_type i k = o_type (ob_obj k i) AND NOT RT_Object_Class_Static"

text \<open>
  \<open>rt_strncmp(object->name, name, 8) == 0\<close>: the difference of two bytes is kept in a
  \<open>signed char\<close>, which is 0 only for equal bytes.
\<close>

fun names_match :: "u8 list \<Rightarrow> u8 list \<Rightarrow> nat \<Rightarrow> bool" where
  "names_match _ _ 0 \<longleftrightarrow> True"
| "names_match (a # s) (b # t) (Suc n) \<longleftrightarrow> a = b \<and> (a = 0 \<or> names_match s t n)"
| "names_match _ _ (Suc n) \<longleftrightarrow> False"

definition rt_object_find :: "u8 list \<Rightarrow> u8 \<Rightarrow> objs \<Rightarrow> oid option" where
  "rt_object_find name class k =
     (if \<not> rt_object_get_information class then None
      else find (\<lambda>i. names_match (o_name (ob_obj k i)) name 8) (ob_container k class))"

subsection \<open>What registration guarantees\<close>

lemma obj_simps [simp]:
  "ob_obj (upd_obj i f k) = (ob_obj k)(i := f (ob_obj k i))"
  "ob_container (upd_obj i f k) = ob_container k"
  "ob_timer (upd_obj i f k) = ob_timer k"
  "ob_timer_list (upd_obj i f k) = ob_timer_list k"
  "ob_fired (upd_obj i f k) = ob_fired k"
  "ob_obj (olist_remove i k) = ob_obj k"
  "ob_container (olist_remove i k) c = filter (\<lambda>x. x \<noteq> i) (ob_container k c)"
  "ob_timer (olist_remove i k) = ob_timer k"
  "ob_timer_list (olist_remove i k) = ob_timer_list k"
  "ob_fired (olist_remove i k) = ob_fired k"
  "ob_obj (olist_insert class i k) = ob_obj k"
  "ob_container (olist_insert class i k) = (ob_container k)(class := i # ob_container k class)"
  "ob_timer (olist_insert class i k) = ob_timer k"
  "ob_timer_list (olist_insert class i k) = ob_timer_list k"
  "ob_fired (olist_insert class i k) = ob_fired k"
  by (simp_all add: upd_obj_def olist_remove_def olist_insert_def)

text \<open>The containers hold exactly the objects of their class, each once.\<close>

definition containers_ok :: "objs \<Rightarrow> bool" where
  "containers_ok k \<longleftrightarrow> (\<forall>class. distinct (ob_container k class)) \<and>
     (\<forall>class i. i \<in> set (ob_container k class) \<longrightarrow>
        rt_object_get_information class \<and> i \<noteq> Obj 0 \<and> rt_object_get_type i k = class \<and> length (o_name (ob_obj k i)) = 8)"

lemma class_type [simp]:
  "rt_object_get_information class \<Longrightarrow> (class OR 0x80) AND NOT 0x80 = class"
  "rt_object_get_information class \<Longrightarrow> class AND 0x80 = 0"
  "rt_object_get_information class \<Longrightarrow> class AND NOT 0x80 = class"
  "rt_object_get_information class \<Longrightarrow> (class OR 0x80) AND 0x80 = 0x80"
  by (auto simp: rt_object_get_information_def)

lemma not_class_0: "rt_object_get_information class \<Longrightarrow> class \<noteq> 0"
  by (auto simp: rt_object_get_information_def)

lemma names_match_name:
  assumes "0 \<notin> set s" "0 \<notin> set t" "d = take 8 (s @ replicate 8 0)"
  shows "names_match d (t @ [0]) 8 \<longleftrightarrow> take 8 s = take 8 t"
proof -
  have "n \<le> m \<Longrightarrow> names_match (take n (s @ replicate m 0)) (t @ [0]) n \<longleftrightarrow> take n s = take n t" for n m
    using assms(1,2)
  proof (induction n arbitrary: s t)
    case (Suc n)
    then have m: "n \<le> m" "m = Suc (m - 1)" by auto
    have r: "replicate m (0 :: u8) = 0 # replicate (m - 1) 0" using m(2) by (metis replicate_Suc)
    show ?case
      using Suc.IH [OF m(1)] Suc.prems by (cases s; cases t) (auto simp: r simp del: take_append)
  qed simp
  from this [of 8 8] show ?thesis unfolding assms(3) by simp
qed


lemma init_ok:
  assumes "containers_ok k" "rt_object_get_information class" "i \<noteq> Obj 0"
    and "\<And>c. i \<notin> set (ob_container k c)" "0 \<notin> set name"
  shows "\<exists>k'. rt_object_init i class (name @ [0]) k = Some k' \<and> containers_ok k' \<and>
    ob_container k' = (ob_container k)(class := i # ob_container k class) \<and>
    o_name (ob_obj k' i) = take 8 (name @ replicate 8 0) \<and>
    rt_object_get_type i k' = class \<and> rt_object_is_systemobject i k' \<and>
    (\<forall>j. j \<noteq> i \<longrightarrow> ob_obj k' j = ob_obj k j)"
proof -
  let ?k = "olist_insert class i (upd_obj i (\<lambda>ob. ob\<lparr>o_type := class OR 0x80,
      o_name := take 8 (name @ replicate 8 0)\<rparr>) k)"
  have "rt_object_init i class (name @ [0]) k = Some ?k"
    using assms strncpy_name [OF assms(5), of 8] by (simp add: rt_object_init_def)
  moreover have "containers_ok ?k"
    using assms class_type(1) [OF assms(2)]
    by (auto simp: containers_ok_def rt_object_get_type_def)
  ultimately show ?thesis
    using assms(2) class_type [OF assms(2)]
    by (auto simp: rt_object_get_type_def rt_object_is_systemobject_def)
qed

lemma detach_ok:
  assumes "containers_ok k" "i \<noteq> Obj 0"
  shows "\<exists>k'. rt_object_detach i k = Some k' \<and> containers_ok k' \<and>
    ob_container k' = (\<lambda>c. filter (\<lambda>x. x \<noteq> i) (ob_container k c)) \<and> o_type (ob_obj k' i) = 0"
  using assms by (auto simp: rt_object_detach_def containers_ok_def rt_object_get_type_def fun_eq_iff)

text \<open>Fact: an object registered under a name is the first of its class that a search for that
  name finds (names count up to eight bytes), the containers stay consistent, and detaching it
  brings the containers back to what they were.\<close>

theorem rt_object_register:
  assumes "containers_ok k" "rt_object_get_information class" "i \<noteq> Obj 0"
    and "\<And>c. i \<notin> set (ob_container k c)" "0 \<notin> set name"
  shows "\<exists>k' k''. rt_object_init i class (name @ [0]) k = Some k' \<and> containers_ok k' \<and>
    rt_object_find (name @ [0]) class k' = Some i \<and>
    rt_object_get_length class k' = Suc (rt_object_get_length class k) \<and>
    rt_object_get_type i k' = class \<and> rt_object_is_systemobject i k' \<and>
    rt_object_detach i k' = Some k'' \<and> containers_ok k'' \<and> ob_container k'' = ob_container k \<and>
    o_type (ob_obj k'' i) = 0"
proof -
  obtain k' where k': "rt_object_init i class (name @ [0]) k = Some k'" "containers_ok k'"
    "ob_container k' = (ob_container k)(class := i # ob_container k class)"
    "o_name (ob_obj k' i) = take 8 (name @ replicate 8 0)"
    "rt_object_get_type i k' = class" "rt_object_is_systemobject i k'"
    using init_ok [OF assms] by blast
  obtain k'' where k'': "rt_object_detach i k' = Some k''" "containers_ok k''"
    "ob_container k'' = (\<lambda>c. filter (\<lambda>x. x \<noteq> i) (ob_container k' c))" "o_type (ob_obj k'' i) = 0"
    using detach_ok [OF k'(2) assms(3)] by blast
  have "names_match (o_name (ob_obj k' i)) (name @ [0]) 8"
    using names_match_name [OF assms(5,5) k'(4)] by simp
  then have "rt_object_find (name @ [0]) class k' = Some i"
    using assms(2) by (simp add: rt_object_find_def k'(3))
  moreover have "ob_container k'' = ob_container k"
    using assms(4) by (auto simp: k''(3) k'(3) fun_eq_iff filter_id_conv)
  moreover have "rt_object_get_length class k' = Suc (rt_object_get_length class k)"
    using assms(2) by (simp add: rt_object_get_length_def k'(3))
  ultimately show ?thesis using k' k'' by blast
qed

definition empty_objs :: objs where
  "empty_objs = \<lparr>ob_obj = (\<lambda>_. \<lparr>o_name = [], o_type = 0, o_flag = 0\<rparr>), ob_container = (\<lambda>_. []),
     ob_timer = (\<lambda>_. \<lparr>tm_func = user_timeout 0 0, tm_init_tick = 0, tm_timeout_tick = 0\<rparr>),
     ob_timer_list = [], ob_fired = []\<rparr>"

lemma empty_objs_simps [simp]:
  "ob_container empty_objs c = []" "ob_timer_list empty_objs = []" "ob_fired empty_objs = []"
  "containers_ok empty_objs"
  by (simp_all add: empty_objs_def containers_ok_def)

lemma rt_object_register_witness:
  "\<exists>k'. rt_object_init (Obj 64) RT_Object_Class_Mutex ([0x6c, 0x6f, 0x63, 0x6b] @ [0]) empty_objs = Some k' \<and>
     rt_object_find ([0x6c, 0x6f, 0x63, 0x6b] @ [0]) RT_Object_Class_Mutex k' = Some (Obj 64)"
  using rt_object_register [of empty_objs 3 "Obj 64" "[0x6c, 0x6f, 0x63, 0x6b]"]
  by (auto simp: rt_object_get_information_def)

end
