(* ===== verification/Timer.thy ===== *)
theory Timer
  imports Objects
begin

section \<open>Software timers (\<open>src/timer.c\<close>)\<close>

text \<open>
  The timer list is kept in order of \<open>timeout_tick\<close> (the skip list has one level in this
  configuration, so \<open>random_nr\<close> has no effect).  Ticks are 32-bit and wrap; two of them are
  compared by the sign of their difference, \<open>(a - b) < RT_TICK_MAX / 2\<close>.  \<open>now\<close> is the value
  \<open>rt_tick_get\<close> returns.
\<close>

abbreviation (input) RT_TIMER_FLAG_ACTIVATED :: u8 where "RT_TIMER_FLAG_ACTIVATED \<equiv> 0x1"
abbreviation (input) RT_TIMER_FLAG_PERIODIC :: u8 where "RT_TIMER_FLAG_PERIODIC \<equiv> 0x2"
abbreviation (input) TICK_HALF :: u32 where "TICK_HALF \<equiv> 0x7fffffff"  \<comment> \<open>\<open>RT_TICK_MAX / 2\<close>\<close>

definition upd_timer :: "oid \<Rightarrow> (rt_timer \<Rightarrow> rt_timer) \<Rightarrow> objs \<Rightarrow> objs" where
  "upd_timer i f k = k\<lparr>ob_timer := (ob_timer k)(i := f (ob_timer k i))\<rparr>"

definition timer_activated :: "oid \<Rightarrow> objs \<Rightarrow> bool" where
  "timer_activated i k \<longleftrightarrow> o_flag (ob_obj k i) AND RT_TIMER_FLAG_ACTIVATED \<noteq> 0"

definition timer_periodic :: "oid \<Rightarrow> objs \<Rightarrow> bool" where
  "timer_periodic i k \<longleftrightarrow> o_flag (ob_obj k i) AND RT_TIMER_FLAG_PERIODIC \<noteq> 0"

definition set_flag :: "oid \<Rightarrow> u8 \<Rightarrow> objs \<Rightarrow> objs" where
  "set_flag i fl k = upd_obj i (\<lambda>ob. ob\<lparr>o_flag := o_flag ob OR fl\<rparr>) k"

definition clear_flag :: "oid \<Rightarrow> u8 \<Rightarrow> objs \<Rightarrow> objs" where
  "clear_flag i fl k = upd_obj i (\<lambda>ob. ob\<lparr>o_flag := o_flag ob AND NOT fl\<rparr>) k"

definition timer_init :: "oid \<Rightarrow> timeout_func \<Rightarrow> u32 \<Rightarrow> u8 \<Rightarrow> objs \<Rightarrow> objs" where
  "timer_init i func time flag k =
     (let k = upd_obj i (\<lambda>ob. ob\<lparr>o_flag := flag\<rparr>) k;
          k = clear_flag i RT_TIMER_FLAG_ACTIVATED k
      in upd_timer i (\<lambda>_. \<lparr>tm_func = func, tm_init_tick = time, tm_timeout_tick = 0\<rparr>) k)"

text \<open>\<open>rt_list_remove(&timer->row[0])\<close>: off \<open>_timer_list\<close> or the list of fired timers.\<close>

definition timer_remove :: "oid \<Rightarrow> objs \<Rightarrow> objs" where
  "timer_remove i k = k\<lparr>ob_timer_list := filter (\<lambda>x. x \<noteq> i) (ob_timer_list k),
                        ob_fired := filter (\<lambda>x. x \<noteq> i) (ob_fired k)\<rparr>"

definition timer_list_next_timeout :: "objs \<Rightarrow> u32" where
  "timer_list_next_timeout k =
     (case ob_timer_list k of [] \<Rightarrow> 0xffffffff | i # _ \<Rightarrow> tm_timeout_tick (ob_timer k i))"

definition rt_timer_next_timeout_tick :: "objs \<Rightarrow> u32" where
  "rt_timer_next_timeout_tick k = timer_list_next_timeout k"

definition rt_system_timer_init :: "objs \<Rightarrow> objs" where
  "rt_system_timer_init k = k\<lparr>ob_timer_list := []\<rparr>"

definition rt_timer_init :: "oid \<Rightarrow> u8 list \<Rightarrow> timeout_func \<Rightarrow> u32 \<Rightarrow> u8 \<Rightarrow> objs \<Rightarrow> objs option" where
  "rt_timer_init i name func time flag k =
     do { rt_assert (i \<noteq> Obj 0);
          k \<leftarrow> rt_object_init i RT_Object_Class_Timer name k;
          Some (timer_init i func time flag k) }"

definition rt_timer_detach :: "oid \<Rightarrow> objs \<Rightarrow> objs option" where
  "rt_timer_detach i k =
     do { rt_assert (i \<noteq> Obj 0);
          rt_assert (rt_object_get_type i k = RT_Object_Class_Timer);
          rt_assert (rt_object_is_systemobject i k);
          rt_object_detach i (clear_flag i RT_TIMER_FLAG_ACTIVATED (timer_remove i k)) }"

definition rt_timer_create ::
    "nat \<Rightarrow> u8 list \<Rightarrow> timeout_func \<Rightarrow> u32 \<Rightarrow> u8 \<Rightarrow> objs \<Rightarrow> (nat \<times> objs) option" where
  "rt_timer_create mem name func time flag k =
     do { (a, k) \<leftarrow> rt_object_allocate mem RT_Object_Class_Timer name k;
          Some (if a = 0 then (0, k) else (a, timer_init (Obj a) func time flag k)) }"

definition rt_timer_delete :: "oid \<Rightarrow> objs \<Rightarrow> objs option" where
  "rt_timer_delete i k =
     do { rt_assert (i \<noteq> Obj 0);
          rt_assert (rt_object_get_type i k = RT_Object_Class_Timer);
          rt_assert (\<not> rt_object_is_systemobject i k);
          rt_object_delete i (clear_flag i RT_TIMER_FLAG_ACTIVATED (timer_remove i k)) }"

text \<open>
  The search loop of \<open>rt_timer_start\<close>: it passes every timer that does not expire strictly
  later than the new one.
\<close>

fun timer_insert :: "(oid \<Rightarrow> u32) \<Rightarrow> oid \<Rightarrow> oid list \<Rightarrow> oid list" where
  "timer_insert to i [] = [i]"
| "timer_insert to i (j # js) =
     (if to j - to i = 0 then j # timer_insert to i js
      else if to j - to i < TICK_HALF then i # j # js
      else j # timer_insert to i js)"

definition rt_timer_start :: "u32 \<Rightarrow> oid \<Rightarrow> objs \<Rightarrow> objs option" where
  "rt_timer_start now i k =
     do { rt_assert (i \<noteq> Obj 0);
          rt_assert (rt_object_get_type i k = RT_Object_Class_Timer);
          let k = clear_flag i RT_TIMER_FLAG_ACTIVATED (timer_remove i k);
          rt_assert (tm_init_tick (ob_timer k i) < TICK_HALF);
          let k = upd_timer i (\<lambda>t. t\<lparr>tm_timeout_tick := now + tm_init_tick t\<rparr>) k;
          let k = k\<lparr>ob_timer_list := timer_insert (\<lambda>j. tm_timeout_tick (ob_timer k j)) i (ob_timer_list k)\<rparr>;
          Some (set_flag i RT_TIMER_FLAG_ACTIVATED k) }"

definition rt_timer_stop :: "oid \<Rightarrow> objs \<Rightarrow> (rt_err \<times> objs) option" where
  "rt_timer_stop i k =
     do { rt_assert (i \<noteq> Obj 0);
          rt_assert (rt_object_get_type i k = RT_Object_Class_Timer);
          Some (if \<not> timer_activated i k then (- RT_ERROR, k)
                else (RT_EOK, clear_flag i RT_TIMER_FLAG_ACTIVATED (timer_remove i k))) }"

datatype timer_cmd = TIMER_GET_TIME | TIMER_SET_TIME u32 | TIMER_SET_ONESHOT | TIMER_SET_PERIODIC
  | TIMER_GET_STATE

text \<open>The value read through \<open>arg\<close> is in the command, the value written to it is returned.\<close>

definition rt_timer_control :: "oid \<Rightarrow> timer_cmd \<Rightarrow> objs \<Rightarrow> (u32 option \<times> objs) option" where
  "rt_timer_control i cmd k =
     do { rt_assert (i \<noteq> Obj 0);
          rt_assert (rt_object_get_type i k = RT_Object_Class_Timer);
          Some (case cmd of
            TIMER_GET_TIME \<Rightarrow> (Some (tm_init_tick (ob_timer k i)), k)
          | TIMER_SET_TIME t \<Rightarrow> (None, upd_timer i (\<lambda>tm. tm\<lparr>tm_init_tick := t\<rparr>) k)
          | TIMER_SET_ONESHOT \<Rightarrow> (None, clear_flag i RT_TIMER_FLAG_PERIODIC k)
          | TIMER_SET_PERIODIC \<Rightarrow> (None, set_flag i RT_TIMER_FLAG_PERIODIC k)
          | TIMER_GET_STATE \<Rightarrow> (Some (if timer_activated i k then 1 else 0), k)) }"

subsection \<open>\<open>rt_timer_check\<close>\<close>

text \<open>
  The loop over a state \<open>'s\<close> that holds the timers; \<open>get\<close> and \<open>put\<close> access them, \<open>tick\<close> is
  \<open>rt_tick_get\<close> and \<open>call\<close> runs a time-out function.  The loop need not end (a periodic timer
  of period 0 is always due), so it is a partial function: \<open>None\<close> also stands for that.
\<close>

definition expired :: "u32 \<Rightarrow> oid \<Rightarrow> objs \<Rightarrow> bool" where
  "expired now i k \<longleftrightarrow> now - tm_timeout_tick (ob_timer k i) < TICK_HALF"

definition timer_fire ::
  "('s \<Rightarrow> objs) \<Rightarrow> (objs \<Rightarrow> 's \<Rightarrow> 's) \<Rightarrow> ('s \<Rightarrow> u32) \<Rightarrow> (timeout_func \<Rightarrow> 's \<Rightarrow> 's option) \<Rightarrow> oid \<Rightarrow> 's \<Rightarrow> 's option"
where
  "timer_fire get put tick call i s =
     do { let k = timer_remove i (get s);
          let k = (if \<not> timer_periodic i k then clear_flag i RT_TIMER_FLAG_ACTIVATED k else k);
          let k = k\<lparr>ob_fired := i # ob_fired k\<rparr>;
          s \<leftarrow> call (tm_func (ob_timer k i)) (put k s);
          (if ob_fired (get s) = [] then Some s
           else do {
             let k = timer_remove i (get s);
             (if timer_periodic i k \<and> timer_activated i k
              then do { k \<leftarrow> rt_timer_start (tick s) i (clear_flag i RT_TIMER_FLAG_ACTIVATED k);
                        Some (put k s) }
              else Some (put k s)) }) }"

partial_function (option) timer_check_loop ::
  "('s \<Rightarrow> objs) \<Rightarrow> (objs \<Rightarrow> 's \<Rightarrow> 's) \<Rightarrow> ('s \<Rightarrow> u32) \<Rightarrow> (timeout_func \<Rightarrow> 's \<Rightarrow> 's option) \<Rightarrow> u32 \<Rightarrow> 's \<Rightarrow> 's option"
where
  "timer_check_loop get put tick call current_tick s =
     (case ob_timer_list (get s) of
        [] \<Rightarrow> Some s
      | i # _ \<Rightarrow>
          if expired current_tick i (get s)
          then do { s \<leftarrow> timer_fire get put tick call i s;
                    timer_check_loop get put tick call (tick s) s }
          else Some s)"

subsection \<open>The order of the timer list\<close>

lemma timer_simps [simp]:
  "ob_obj (upd_timer i f k) = ob_obj k" "ob_container (upd_timer i f k) = ob_container k"
  "ob_timer (upd_timer i f k) = (ob_timer k)(i := f (ob_timer k i))"
  "ob_timer_list (upd_timer i f k) = ob_timer_list k" "ob_fired (upd_timer i f k) = ob_fired k"
  "ob_obj (timer_remove i k) = ob_obj k" "ob_container (timer_remove i k) = ob_container k"
  "ob_timer (timer_remove i k) = ob_timer k"
  "ob_timer_list (timer_remove i k) = filter (\<lambda>x. x \<noteq> i) (ob_timer_list k)"
  "ob_fired (timer_remove i k) = filter (\<lambda>x. x \<noteq> i) (ob_fired k)"
  by (simp_all add: upd_timer_def timer_remove_def)

lemma flag_simps [simp]:
  "ob_container (set_flag i fl k) = ob_container k" "ob_container (clear_flag i fl k) = ob_container k"
  "ob_timer (set_flag i fl k) = ob_timer k" "ob_timer (clear_flag i fl k) = ob_timer k"
  "ob_timer_list (set_flag i fl k) = ob_timer_list k" "ob_timer_list (clear_flag i fl k) = ob_timer_list k"
  "ob_fired (set_flag i fl k) = ob_fired k" "ob_fired (clear_flag i fl k) = ob_fired k"
  "o_type (ob_obj (set_flag i fl k) j) = o_type (ob_obj k j)"
  "o_type (ob_obj (clear_flag i fl k) j) = o_type (ob_obj k j)"
  "o_name (ob_obj (set_flag i fl k) j) = o_name (ob_obj k j)"
  "o_name (ob_obj (clear_flag i fl k) j) = o_name (ob_obj k j)"
  "o_flag (ob_obj (set_flag i fl k) j) = (if j = i then o_flag (ob_obj k j) OR fl else o_flag (ob_obj k j))"
  "o_flag (ob_obj (clear_flag i fl k) j) = (if j = i then o_flag (ob_obj k j) AND NOT fl else o_flag (ob_obj k j))"
  by (simp_all add: set_flag_def clear_flag_def)

lemma type_simps [simp]:
  "rt_object_get_type j (set_flag i fl k) = rt_object_get_type j k"
  "rt_object_get_type j (clear_flag i fl k) = rt_object_get_type j k"
  "rt_object_get_type j (timer_remove i k) = rt_object_get_type j k"
  "rt_object_get_type j (upd_timer i f k) = rt_object_get_type j k"
  "rt_object_get_type j (k\<lparr>ob_timer_list := l\<rparr>) = rt_object_get_type j k"
  "rt_object_get_type j (k\<lparr>ob_fired := l\<rparr>) = rt_object_get_type j k"
  "rt_object_is_systemobject j (set_flag i fl k) = rt_object_is_systemobject j k"
  "rt_object_is_systemobject j (clear_flag i fl k) = rt_object_is_systemobject j k"
  "rt_object_is_systemobject j (timer_remove i k) = rt_object_is_systemobject j k"
  by (simp_all add: rt_object_get_type_def rt_object_is_systemobject_def)

text \<open>The two flags do not disturb each other.\<close>

lemma flag_bits [simp]:
  "(x OR 1) AND 1 = (1 :: u8)" "(x OR 2) AND 2 = (2 :: u8)" 
  "(x AND - 2) AND 1 = (0 :: u8)" "(x AND - 2) AND 2 = x AND (2 :: u8)"
  "(x OR 1) AND 2 = x AND (2 :: u8)" "(x AND - 3) AND 1 = x AND (1 :: u8)"
  "(x AND - 3) AND 2 = (0 :: u8)" "(x OR 2) AND 1 = x AND (1 :: u8)"
proof -
  have c: "(- 2 AND 1 :: u8) = 0" "(- 2 AND 2 :: u8) = 2" "(1 AND 2 :: u8) = 0" "(- 3 AND 1 :: u8) = 1"
    "(- 3 AND 2 :: u8) = 0" "(2 AND 1 :: u8) = 0" by simp_all
  show "(x OR 1) AND 1 = (1 :: u8)" "(x OR 2) AND 2 = (2 :: u8)"
    by (rule bit_eqI, auto simp: bit_and_iff bit_or_iff)+
  show "(x AND - 2) AND 1 = (0 :: u8)" "(x AND - 2) AND 2 = x AND (2 :: u8)"
  "(x AND - 3) AND 1 = x AND (1 :: u8)"
  "(x AND - 3) AND 2 = (0 :: u8)" 
    by (simp_all only: and.assoc c) simp_all
  show "(x OR 1) AND 2 = x AND (2 :: u8)" "(x OR 2) AND 1 = x AND (1 :: u8)"
    by (simp_all only: bit.conj_disj_distrib2 c) simp_all
qed

text \<open>The distance of a timer's expiry from a base tick, and the order it gives.\<close>

abbreviation key :: "u32 \<Rightarrow> objs \<Rightarrow> oid \<Rightarrow> nat" where
  "key b k i \<equiv> unat (tm_timeout_tick (ob_timer k i) - b)"

definition sorted_from :: "u32 \<Rightarrow> objs \<Rightarrow> bool" where
  "sorted_from b k \<longleftrightarrow> sorted (map (key b k) (ob_timer_list k)) \<and>
     (\<forall>i \<in> set (ob_timer_list k). key b k i < 0x7fffffff)"

lemma tick_sub_less:
  fixes x y :: u32
  assumes "unat x < 0x7fffffff" "unat y < 0x7fffffff"
  shows "x - y < 0x7fffffff \<longleftrightarrow> unat y \<le> unat x"
  unfolding word_less_nat_alt unat_sub_if' using assms by auto

lemma tick_cmp:
  fixes a b c :: u32
  assumes "unat (a - b) < 0x7fffffff" "unat (c - b) < 0x7fffffff"
  shows "a - c = 0 \<longleftrightarrow> unat (a - b) = unat (c - b)"
    and "a - c < TICK_HALF \<longleftrightarrow> unat (c - b) \<le> unat (a - b)"
proof -
  have e: "a - c = (a - b) - (c - b)" by simp
  show "a - c = 0 \<longleftrightarrow> unat (a - b) = unat (c - b)" by (simp add: word_unat_eq_iff [symmetric])
  show "a - c < TICK_HALF \<longleftrightarrow> unat (c - b) \<le> unat (a - b)"
    unfolding e by (rule tick_sub_less [OF assms])
qed

lemma timer_insert_set [simp]: "set (timer_insert to i js) = insert i (set js)"
  by (induction js) auto

lemma timer_insert_filter: "\<not> P i \<Longrightarrow> filter P (timer_insert to i js) = filter P js"
  by (induction js) auto

lemma timer_insert_distinct: "i \<notin> set js \<Longrightarrow> distinct js \<Longrightarrow> distinct (timer_insert to i js)"
  by (induction js) auto

lemma timer_insert_sorted:
  assumes "sorted (map (\<lambda>j. unat (to j - b)) js)" "\<forall>j \<in> set (i # js). unat (to j - b) < 0x7fffffff"
  shows "sorted (map (\<lambda>j. unat (to j - b)) (timer_insert to i js))"
  using assms
proof (induction js)
  case (Cons j js)
  then have c: "to j - to i = 0 \<longleftrightarrow> unat (to j - b) = unat (to i - b)"
    "to j - to i < TICK_HALF \<longleftrightarrow> unat (to i - b) \<le> unat (to j - b)"
    using tick_cmp [of "to j" b "to i"] by auto
  from Cons have ih: "sorted (map (\<lambda>j. unat (to j - b)) (timer_insert to i js))" by simp
  show ?case
    using Cons.prems ih by (auto simp: c)
qed simp

lemma timer_insert_cong:
  "(\<And>j. j \<in> set (i # js) \<Longrightarrow> f j = g j) \<Longrightarrow> timer_insert f i js = timer_insert g i js"
  by (induction js) auto


subsection \<open>Starting and stopping\<close>

definition timer_ok :: "oid \<Rightarrow> objs \<Rightarrow> bool" where
  "timer_ok i k \<longleftrightarrow> i \<noteq> Obj 0 \<and> rt_object_get_type i k = RT_Object_Class_Timer"

lemma start_eq:
  fixes now :: u32
  assumes "timer_ok i k" "tm_init_tick (ob_timer k i) < TICK_HALF"
  defines "to \<equiv> (\<lambda>j. tm_timeout_tick (ob_timer k j))(i := now + tm_init_tick (ob_timer k i))"
  shows "rt_timer_start now i k = Some (set_flag i 1 ((upd_timer i
     (\<lambda>t. t\<lparr>tm_timeout_tick := now + tm_init_tick t\<rparr>) (clear_flag i 1 (timer_remove i k)))
       \<lparr>ob_timer_list := timer_insert to i (filter (\<lambda>x. x \<noteq> i) (ob_timer_list k))\<rparr>))"
proof -
  have "(\<lambda>j. tm_timeout_tick (ob_timer (upd_timer i (\<lambda>t. t\<lparr>tm_timeout_tick := now + tm_init_tick t\<rparr>)
      (clear_flag i 1 (timer_remove i k))) j)) = to"
    by (auto simp: to_def fun_eq_iff)
  with assms(1,2) show ?thesis
    by (simp add: rt_timer_start_def timer_ok_def Let_def cong: if_cong)
qed

lemma start_ok:
  assumes "timer_ok i k" "tm_init_tick (ob_timer k i) < TICK_HALF"
    and "sorted_from b k" "unat (now + tm_init_tick (ob_timer k i) - b) < 0x7fffffff"
  shows "\<exists>k'. rt_timer_start now i k = Some k' \<and> sorted_from b k' \<and>
    set (ob_timer_list k') = insert i (set (ob_timer_list k)) \<and>
    filter (\<lambda>x. x \<noteq> i) (ob_timer_list k') = filter (\<lambda>x. x \<noteq> i) (ob_timer_list k) \<and>
    (distinct (ob_timer_list k) \<longrightarrow> distinct (ob_timer_list k')) \<and>
    ob_timer k' = (ob_timer k)(i := (ob_timer k i)\<lparr>tm_timeout_tick := now + tm_init_tick (ob_timer k i)\<rparr>) \<and>
    timer_activated i k' \<and> (\<forall>j. timer_periodic j k' = timer_periodic j k) \<and>
    (\<forall>j. j \<noteq> i \<longrightarrow> timer_activated j k' = timer_activated j k) \<and>
    (\<forall>j. rt_object_get_type j k' = rt_object_get_type j k) \<and> ob_fired k' = filter (\<lambda>x. x \<noteq> i) (ob_fired k) \<and>
    (\<forall>P. \<not> P i \<longrightarrow> filter P (ob_timer_list k') = filter P (filter (\<lambda>x. x \<noteq> i) (ob_timer_list k)))"
proof -
  let ?to = "(\<lambda>j. tm_timeout_tick (ob_timer k j))(i := now + tm_init_tick (ob_timer k i))"
  let ?l = "timer_insert ?to i (filter (\<lambda>x. x \<noteq> i) (ob_timer_list k))"
  define k' where "k' = set_flag i 1 ((upd_timer i
     (\<lambda>t. t\<lparr>tm_timeout_tick := now + tm_init_tick t\<rparr>) (clear_flag i 1 (timer_remove i k)))\<lparr>ob_timer_list := ?l\<rparr>)"
  have "sorted (map (key b k) (filter (\<lambda>x. x \<noteq> i) (ob_timer_list k)))"
    using assms(3) by (simp add: sorted_from_def sorted_filter)
  moreover have "map (key b k) (filter (\<lambda>x. x \<noteq> i) (ob_timer_list k)) =
      map (\<lambda>j. unat (?to j - b)) (filter (\<lambda>x. x \<noteq> i) (ob_timer_list k))"
    by simp
  ultimately have "sorted (map (\<lambda>j. unat (?to j - b)) ?l)"
    using assms(3,4) by (intro timer_insert_sorted) (auto simp: sorted_from_def)
  moreover have "map (key b k') (ob_timer_list k') = map (\<lambda>j. unat (?to j - b)) ?l"
    by (auto simp: k'_def)
  moreover have "\<forall>j \<in> set (ob_timer_list k'). key b k' j < 0x7fffffff"
    using assms(3,4) by (auto simp: k'_def sorted_from_def)
  ultimately have "sorted_from b k'" unfolding sorted_from_def by simp
  moreover have "rt_timer_start now i k = Some k'" unfolding k'_def by (rule start_eq [OF assms(1,2)])
  moreover have "distinct (ob_timer_list k) \<longrightarrow> distinct (ob_timer_list k')"
    by (auto simp: k'_def intro: timer_insert_distinct)
  moreover have "filter P (ob_timer_list k') = filter P (filter (\<lambda>x. x \<noteq> i) (ob_timer_list k))"
    if "\<not> P i" for P using timer_insert_filter [of P i ?to] that by (simp add: k'_def)
  ultimately show ?thesis
    using timer_insert_filter [of "\<lambda>x. x \<noteq> i" i]
    by (auto simp: k'_def timer_activated_def timer_periodic_def)
qed


subsection \<open>What a check does\<close>

text \<open>A client that records the time-out functions called, in order, at a fixed tick.\<close>

abbreviation log_get :: "timeout_func list \<times> objs \<Rightarrow> objs" where "log_get \<equiv> snd"
abbreviation log_put :: "objs \<Rightarrow> timeout_func list \<times> objs \<Rightarrow> timeout_func list \<times> objs" where
  "log_put \<equiv> \<lambda>k s. (fst s, k)"
abbreviation log_call :: "timeout_func \<Rightarrow> timeout_func list \<times> objs \<Rightarrow> (timeout_func list \<times> objs) option" where
  "log_call \<equiv> \<lambda>f s. Some (fst s @ [f], snd s)"

definition check_log :: "u32 \<Rightarrow> timeout_func list \<times> objs \<Rightarrow> (timeout_func list \<times> objs) option" where
  "check_log now s = timer_check_loop log_get log_put (\<lambda>_. now) log_call now s"

definition timers_ok :: "objs \<Rightarrow> bool" where
  "timers_ok k \<longleftrightarrow> distinct (ob_timer_list k) \<and> ob_fired k = [] \<and>
     (\<forall>i \<in> set (ob_timer_list k). timer_ok i k \<and> timer_activated i k \<and>
        (timer_periodic i k \<longrightarrow> 0 < tm_init_tick (ob_timer k i) \<and> unat (tm_init_tick (ob_timer k i)) < 2 ^ 30))"

lemma expired_key:
  assumes "unat (now - b) < 2 ^ 30" "key b k i < 0x7fffffff"
  shows "expired now i k \<longleftrightarrow> key b k i \<le> unat (now - b)"
  unfolding expired_def
  using tick_cmp(2) [of now b "tm_timeout_tick (ob_timer k i)"] assms by simp

text \<open>Distances up to \<open>2 ^ 30\<close> add up below the horizon of the comparison.\<close>

lemma key_after:
  fixes now b x :: u32
  assumes "unat (now - b) < 2 ^ 30" "unat x < 2 ^ 30"
  shows "unat (now + x - b) = unat (now - b) + unat x"
proof -
  have eq: "now + x - b = (now - b) + x" by (simp add: algebra_simps)
  show ?thesis
    unfolding eq using assms by (subst unat_add_lem [THEN iffD1]) auto
qed

lemma fire_log:
  assumes ok: "timers_ok k" and s: "sorted_from b k" and now: "unat (now - b) < 2 ^ 30"
    and l: "ob_timer_list k = i # js" and ex: "expired now i k"
  shows "\<exists>k'. timer_fire log_get log_put (\<lambda>_. now) log_call i (fs, k) = Some (fs @ [tm_func (ob_timer k i)], k') \<and>
    timers_ok k' \<and> sorted_from b k' \<and>
    filter (\<lambda>j. expired now j k') (ob_timer_list k') = filter (\<lambda>j. expired now j k) js \<and>
    set (ob_timer_list k') = (if timer_periodic i k then set (i # js) else set js) \<and>
    (\<forall>j. j \<noteq> i \<longrightarrow> ob_timer k' j = ob_timer k j) \<and>
    (\<forall>j. tm_func (ob_timer k' j) = tm_func (ob_timer k j)) \<and>
    (\<forall>j. timer_periodic j k' = timer_periodic j k) \<and>
    (\<forall>j. j \<noteq> i \<longrightarrow> timer_activated j k' = timer_activated j k) \<and>
    (timer_activated i k' = timer_periodic i k) \<and>
    (timer_periodic i k \<longrightarrow> \<not> expired now i k')"
proof -
  have i: "timer_ok i k" "timer_activated i k" "i \<notin> set js" "distinct js" "ob_fired k = []"
    using ok l by (auto simp: timers_ok_def)
  show ?thesis
  proof (cases "timer_periodic i k")
    case False
    define k' where "k' = (timer_remove i (clear_flag i 1 (timer_remove i k)))"
    have "timer_fire log_get log_put (\<lambda>_. now) log_call i (fs, k) = Some (fs @ [tm_func (ob_timer k i)], k')"
      using False i(5) by (simp add: timer_fire_def Let_def timer_periodic_def k'_def timer_remove_def clear_flag_def upd_obj_def)
    moreover have f: "ob_timer_list k' = js" "ob_fired k' = []" "ob_timer k' = ob_timer k"
      "\<And>j. timer_periodic j k' = timer_periodic j k" "\<And>j. j \<noteq> i \<Longrightarrow> timer_activated j k' = timer_activated j k"
      "\<not> timer_activated i k'" "\<And>j. timer_ok j k' = timer_ok j k"
      using i l by (auto simp: k'_def timer_periodic_def timer_activated_def timer_ok_def filter_id_conv)
    moreover have "timers_ok k'"
    proof -
      have "j \<noteq> i" if "j \<in> set js" for j using that i(3) by blast
      then show ?thesis using ok f i l by (simp add: timers_ok_def)
    qed
    moreover have "sorted_from b k'" using s l f by (simp add: sorted_from_def)
    ultimately show ?thesis using False by (simp add: expired_def)
  next
    case per: True
    define k1 where "k1 = clear_flag i 1 (timer_remove i ((timer_remove i k)\<lparr>ob_fired := [i]\<rparr>))"
    have f1: "ob_timer_list k1 = js" "ob_fired k1 = []" "ob_timer k1 = ob_timer k"
      "\<And>j. timer_periodic j k1 = timer_periodic j k" "\<And>j. j \<noteq> i \<Longrightarrow> timer_activated j k1 = timer_activated j k"
      "\<And>j. timer_ok j k1 = timer_ok j k"
      using i l by (auto simp: k1_def timer_periodic_def timer_activated_def timer_ok_def filter_id_conv)
    have init: "0 < tm_init_tick (ob_timer k i)" "unat (tm_init_tick (ob_timer k i)) < 2 ^ 30"
      using ok per l by (auto simp: timers_ok_def)
    have key1: "unat (now + tm_init_tick (ob_timer k i) - b) = unat (now - b) + unat (tm_init_tick (ob_timer k i))"
      by (rule key_after [OF now init(2)])
    have lt: "unat (now + tm_init_tick (ob_timer k1 i) - b) < 0x7fffffff"
      unfolding f1 key1 using now init(2) by simp
    have "tm_init_tick (ob_timer k1 i) < 0x7fffffff"
      using init(2) by (simp add: f1 word_less_nat_alt)
    note start_ok [OF _ this _ lt]
    moreover have "timer_ok i k1" using i f1 by simp
    moreover have "sorted_from b k1" using s l f1 by (simp add: sorted_from_def)
    ultimately obtain k' where k': "rt_timer_start now i k1 = Some k'" "sorted_from b k'"
      "set (ob_timer_list k') = insert i (set (ob_timer_list k1))"
      "distinct (ob_timer_list k1) \<longrightarrow> distinct (ob_timer_list k')"
      "ob_timer k' = (ob_timer k1)(i := (ob_timer k1 i)\<lparr>tm_timeout_tick := now + tm_init_tick (ob_timer k1 i)\<rparr>)"
      "timer_activated i k'" "\<forall>j. timer_periodic j k' = timer_periodic j k1"
      "\<forall>j. j \<noteq> i \<longrightarrow> timer_activated j k' = timer_activated j k1"
      "\<forall>j. rt_object_get_type j k' = rt_object_get_type j k1" "ob_fired k' = filter (\<lambda>x. x \<noteq> i) (ob_fired k1)"
      "\<forall>P. \<not> P i \<longrightarrow> filter P (ob_timer_list k') = filter P (filter (\<lambda>x. x \<noteq> i) (ob_timer_list k1))"
      by metis
    have act: "o_flag (ob_obj k i) AND 1 \<noteq> 0" "o_flag (ob_obj k i) AND 2 \<noteq> 0"
      using i(2) per by (simp_all add: timer_activated_def timer_periodic_def)
    have ne: "j \<noteq> i" if "j \<in> set js" for j using that i(3) by blast
    have "timer_fire log_get log_put (\<lambda>_. now) log_call i (fs, k) = Some (fs @ [tm_func (ob_timer k i)], k')"
      using k'(1) act i(5) by (simp add: timer_fire_def Let_def timer_periodic_def timer_activated_def k1_def)
    moreover have nex: "\<not> expired now i k'"
    proof -
      have "key b k' i = unat (now - b) + unat (tm_init_tick (ob_timer k i))"
        using key1 by (simp add: k'(5) f1)
      moreover have "0 < unat (tm_init_tick (ob_timer k i))" using init(1) by (simp add: unat_gt_0)
      ultimately show ?thesis using expired_key [OF now, of k' i] now init(2) by simp
    qed
    moreover have "filter (\<lambda>j. expired now j k') (ob_timer_list k') = filter (\<lambda>j. expired now j k) js"
    proof -
      have "filter (\<lambda>j. expired now j k') (ob_timer_list k') = filter (\<lambda>j. expired now j k') (filter (\<lambda>x. x \<noteq> i) js)"
        using k'(11) nex f1(1) by simp
      also have "filter (\<lambda>x. x \<noteq> i) js = js" using i(3) by (auto simp: filter_id_conv)
      also have "filter (\<lambda>j. expired now j k') js = filter (\<lambda>j. expired now j k) js"
        using ne by (intro filter_cong) (auto simp: expired_def k'(5) f1)
      finally show ?thesis .
    qed
    moreover have "timers_ok k'"
      using ok l i init k'(3-10) f1 ne by (simp add: timers_ok_def timer_ok_def) 
    ultimately show ?thesis using k' f1 per by simp
  qed
qed


lemma check_log_ok:
  assumes "timers_ok k" "sorted_from b k" "unat (now - b) < 2 ^ 30"
  shows "\<exists>k'. check_log now (fs, k) =
      Some (fs @ map (\<lambda>i. tm_func (ob_timer k i)) (filter (\<lambda>i. expired now i k) (ob_timer_list k)), k') \<and>
    timers_ok k' \<and> sorted_from b k' \<and> (\<forall>i \<in> set (ob_timer_list k'). \<not> expired now i k') \<and>
    set (ob_timer_list k') = {i \<in> set (ob_timer_list k). \<not> expired now i k \<or> timer_periodic i k} \<and>
    (\<forall>i. i \<notin> set (ob_timer_list k') \<longrightarrow>
       timer_activated i k' = (timer_activated i k \<and> i \<notin> set (ob_timer_list k)))"
  using assms(1,2)
proof (induction "length (filter (\<lambda>i. expired now i k) (ob_timer_list k))" arbitrary: k fs)
  case 0
  then have n: "\<forall>i \<in> set (ob_timer_list k). \<not> expired now i k" by (simp add: filter_empty_conv)
  then have "check_log now (fs, k) = Some (fs, k)"
    unfolding check_log_def
    by (subst timer_check_loop.simps) (simp split: list.split)
  moreover have "filter (\<lambda>i. expired now i k) (ob_timer_list k) = []" using n by (simp add: filter_empty_conv)
  ultimately show ?case using 0 n by (auto simp: timers_ok_def)
next
  case (Suc n)
  obtain i js where l: "ob_timer_list k = i # js"
    using Suc.hyps(2) by (cases "ob_timer_list k") auto
  have small: "key b k j < 0x7fffffff" if "j \<in> set (i # js)" for j
    using Suc.prems(2) l that by (auto simp: sorted_from_def)
  have ex: "expired now i k"
  proof (rule ccontr)
    assume no: "\<not> expired now i k"
    have "\<not> expired now j k" if "j \<in> set (i # js)" for j
    proof -
      have "key b k i \<le> key b k j" using Suc.prems(2) l that by (auto simp: sorted_from_def)
      then show ?thesis using no expired_key [OF assms(3) small [OF that]]
          expired_key [OF assms(3) small [of i]] by simp
    qed
    then have "filter (\<lambda>i. expired now i k) (ob_timer_list k) = []" using l by (simp add: filter_empty_conv)
    with Suc.hyps(2) show False by simp
  qed
  have i: "i \<notin> set js" using Suc.prems(1) l by (simp add: timers_ok_def)
  have act: "timer_activated i k" "\<forall>j \<in> set js. timer_activated j k"
    using Suc.prems(1) l by (auto simp: timers_ok_def)
  from fire_log [OF Suc.prems assms(3) l ex, of fs]
  obtain k1 where k1: "timer_fire log_get log_put (\<lambda>_. now) log_call i (fs, k) = Some (fs @ [tm_func (ob_timer k i)], k1)"
    "timers_ok k1" "sorted_from b k1"
    "filter (\<lambda>j. expired now j k1) (ob_timer_list k1) = filter (\<lambda>j. expired now j k) js"
    "set (ob_timer_list k1) = (if timer_periodic i k then set (i # js) else set js)"
    "\<forall>j. j \<noteq> i \<longrightarrow> ob_timer k1 j = ob_timer k j"
    "\<forall>j. tm_func (ob_timer k1 j) = tm_func (ob_timer k j)"
    "\<forall>j. timer_periodic j k1 = timer_periodic j k"
    "\<forall>j. j \<noteq> i \<longrightarrow> timer_activated j k1 = timer_activated j k"
    "timer_activated i k1 = timer_periodic i k" "timer_periodic i k \<longrightarrow> \<not> expired now i k1"
    by (elim exE conjE) (rule that; assumption)
  have step: "check_log now (fs, k) = check_log now (fs @ [tm_func (ob_timer k i)], k1)"
    unfolding check_log_def by (subst timer_check_loop.simps) (simp add: l ex k1(1))
  have "n = length (filter (\<lambda>i. expired now i k1) (ob_timer_list k1))"
    using Suc.hyps(2) by (simp add: l ex k1(4))
  from Suc.hyps(1) [OF this k1(2,3), of "fs @ [tm_func (ob_timer k i)]"]
  obtain k' where k': "check_log now (fs @ [tm_func (ob_timer k i)], k1) =
      Some ((fs @ [tm_func (ob_timer k i)]) @ map (\<lambda>i. tm_func (ob_timer k1 i))
        (filter (\<lambda>i. expired now i k1) (ob_timer_list k1)), k')"
    "timers_ok k'" "sorted_from b k'" "\<forall>i \<in> set (ob_timer_list k'). \<not> expired now i k'"
    "set (ob_timer_list k') = {i \<in> set (ob_timer_list k1). \<not> expired now i k1 \<or> timer_periodic i k1}"
    "\<forall>i. i \<notin> set (ob_timer_list k') \<longrightarrow>
       timer_activated i k' = (timer_activated i k1 \<and> i \<notin> set (ob_timer_list k1))"
    by (elim exE conjE) (rule that; assumption)
  have ne: "j \<noteq> i" if "j \<in> set js" for j using that i by blast
  have same: "expired now j k1 = expired now j k" if "j \<noteq> i" for j
    using k1(6) that by (simp add: expired_def)
  have "map (\<lambda>i. tm_func (ob_timer k1 i)) (filter (\<lambda>i. expired now i k1) (ob_timer_list k1)) =
      map (\<lambda>i. tm_func (ob_timer k i)) (filter (\<lambda>i. expired now i k) js)"
    by (simp add: k1(4,7))
  then have "check_log now (fs, k) = Some (fs @ map (\<lambda>i. tm_func (ob_timer k i))
      (filter (\<lambda>i. expired now i k) (ob_timer_list k)), k')"
    using step k'(1) by (simp add: l ex)
  moreover have "set (ob_timer_list k') = {i \<in> set (ob_timer_list k). \<not> expired now i k \<or> timer_periodic i k}"
    using k'(5) k1(5,8,11) ne same l ex by (auto split: if_splits)
  moreover have "timer_activated j k' = (timer_activated j k \<and> j \<notin> set (ob_timer_list k))"
    if "j \<notin> set (ob_timer_list k')" for j
  proof (cases "j = i")
    case True
    have "\<not> timer_periodic i k" using that k'(5) k1(5,11) True by auto
    with True k'(6) that k1(10) l show ?thesis by simp
  next
    case False
    have "j \<in> set (ob_timer_list k1) \<longleftrightarrow> j \<in> set (ob_timer_list k)"
      using k1(5) False l by (auto split: if_splits)
    with False k'(6) that k1(9) show ?thesis by simp
  qed
  ultimately show ?case using k'(2-4) by blast
qed


subsection \<open>Properties of timers\<close>

lemma timer_insert_split:
  assumes "sorted (map (\<lambda>j. unat (to j - b)) js)" "\<forall>j \<in> set (i # js). unat (to j - b) < 0x7fffffff"
  defines "le \<equiv> (\<lambda>j. unat (to j - b) \<le> unat (to i - b))"
  shows "timer_insert to i js = takeWhile le js @ i # dropWhile le js"
  using assms(1,2)
proof (induction js)
  case (Cons j js)
  then have c: "to j - to i = 0 \<longleftrightarrow> unat (to j - b) = unat (to i - b)"
    "to j - to i < TICK_HALF \<longleftrightarrow> unat (to i - b) \<le> unat (to j - b)"
    using tick_cmp [of "to j" b "to i"] by auto
  have "to j = to i" if "unat (to j - b) = unat (to i - b)" using c(1) that by simp
  with Cons show ?case
    by (auto simp: c le_def)
qed simp

lemma start_place:
  assumes "timer_ok i k" "tm_init_tick (ob_timer k i) < TICK_HALF"
    and "sorted_from b k" "unat (now + tm_init_tick (ob_timer k i) - b) < 0x7fffffff"
    and "rt_timer_start now i k = Some k'"
  defines "others \<equiv> filter (\<lambda>x. x \<noteq> i) (ob_timer_list k)"
    and "le \<equiv> (\<lambda>j. key b k j \<le> unat (now + tm_init_tick (ob_timer k i) - b))"
  shows "ob_timer_list k' = takeWhile le others @ i # dropWhile le others"
proof -
  let ?to = "(\<lambda>j. tm_timeout_tick (ob_timer k j))(i := now + tm_init_tick (ob_timer k i))"
  let ?le = "\<lambda>j. unat (?to j - b) \<le> unat (?to i - b)"
  have m: "map (\<lambda>j. unat (?to j - b)) others = map (key b k) others" by (auto simp: others_def)
  have "sorted (map (\<lambda>j. unat (?to j - b)) others)"
    using assms(3) unfolding m by (simp add: sorted_from_def sorted_filter others_def)
  moreover have "\<forall>j \<in> set (i # others). unat (?to j - b) < 0x7fffffff"
    using assms(3,4) by (auto simp: sorted_from_def others_def)
  ultimately have "timer_insert ?to i others = takeWhile ?le others @ i # dropWhile ?le others"
    by (rule timer_insert_split)
  moreover have "takeWhile ?le others = takeWhile le others" "dropWhile ?le others = dropWhile le others"
    by (intro takeWhile_cong dropWhile_cong, auto simp: others_def le_def)+
  moreover have "ob_timer_list k' = timer_insert ?to i others"
    using assms(5) unfolding start_eq [OF assms(1,2)] others_def by auto
  ultimately show ?thesis by simp
qed

text \<open>Fact: starting a timer puts it, once, behind every timer that expires no later and in front
  of the others, counted from a base tick with all expiries within half the tick range,
  whatever the wrap-around of the tick; stopping it takes it out again and a second stop
  reports an error.\<close>

theorem rt_timer_start_stop:
  assumes "timer_ok i k" "tm_init_tick (ob_timer k i) < TICK_HALF" "distinct (ob_timer_list k)"
    and "sorted_from b k" "unat (now + tm_init_tick (ob_timer k i) - b) < 0x7fffffff"
  defines "others \<equiv> filter (\<lambda>x. x \<noteq> i) (ob_timer_list k)"
    and "le \<equiv> (\<lambda>j. key b k j \<le> unat (now + tm_init_tick (ob_timer k i) - b))"
  shows "\<exists>k' k''. rt_timer_start now i k = Some k' \<and> sorted_from b k' \<and> distinct (ob_timer_list k') \<and>
    ob_timer_list k' = takeWhile le others @ i # dropWhile le others \<and> timer_activated i k' \<and>
    tm_timeout_tick (ob_timer k' i) = now + tm_init_tick (ob_timer k i) \<and>
    rt_timer_stop i k' = Some (RT_EOK, k'') \<and> ob_timer_list k'' = others \<and> \<not> timer_activated i k'' \<and>
    rt_timer_stop i k'' = Some (- RT_ERROR, k'')"
proof -
  obtain k' where k': "rt_timer_start now i k = Some k'" "sorted_from b k'"
    "filter (\<lambda>x. x \<noteq> i) (ob_timer_list k') = others" "distinct (ob_timer_list k')"
    "tm_timeout_tick (ob_timer k' i) = now + tm_init_tick (ob_timer k i)" "timer_activated i k'"
    "timer_ok i k'"
    using start_ok [OF assms(1,2,4,5)] assms(1,3) by (auto simp: others_def timer_ok_def)
  define k'' where "k'' = clear_flag i 1 (timer_remove i k')"
  have "timer_ok i k''" using k'(7) by (simp add: k''_def timer_ok_def)
  moreover have "\<not> timer_activated i k''" by (simp add: k''_def timer_activated_def)
  moreover have "rt_timer_stop i k' = Some (RT_EOK, k'')" "ob_timer_list k'' = others"
    using k'(3,6,7) by (simp_all add: rt_timer_stop_def timer_ok_def k''_def)
  ultimately show ?thesis
    using k' start_place [OF assms(1,2,4,5) k'(1)]
    by (intro exI [of _ k'] exI [of _ k'']) (simp add: rt_timer_stop_def timer_ok_def others_def le_def)
qed

text \<open>Three timers: two one-shot timers and a periodic one, near the wrap-around of the tick.\<close>

definition sample_timers :: objs where
  "sample_timers =
    \<lparr>ob_obj = (\<lambda>i. \<lparr>o_name = [], o_type = 10, o_flag = if i = Obj 2 then 3 else 1\<rparr>),
     ob_container = (\<lambda>_. []),
     ob_timer = (\<lambda>i. if i = Obj 1 then \<lparr>tm_func = user_timeout 1 0, tm_init_tick = 5, tm_timeout_tick = 0xfffffffe\<rparr>
                     else if i = Obj 2 then \<lparr>tm_func = user_timeout 2 0, tm_init_tick = 7, tm_timeout_tick = 1\<rparr>
                     else \<lparr>tm_func = user_timeout 3 0, tm_init_tick = 9, tm_timeout_tick = 6\<rparr>),
     ob_timer_list = [Obj 1, Obj 2, Obj 3], ob_fired = []\<rparr>"

lemma sample_timers_simps:
  "ob_timer_list sample_timers = [Obj 1, Obj 2, Obj 3]" "ob_fired sample_timers = []"
  "timer_ok (Obj 1) sample_timers" "timer_ok (Obj 2) sample_timers" "timer_ok (Obj 3) sample_timers"
  "timer_activated i sample_timers" "timer_periodic i sample_timers \<longleftrightarrow> i = Obj 2"
  "ob_timer sample_timers (Obj 1) = \<lparr>tm_func = user_timeout 1 0, tm_init_tick = 5, tm_timeout_tick = 0xfffffffe\<rparr>"
  "ob_timer sample_timers (Obj 2) = \<lparr>tm_func = user_timeout 2 0, tm_init_tick = 7, tm_timeout_tick = 1\<rparr>"
  "ob_timer sample_timers (Obj 3) = \<lparr>tm_func = user_timeout 3 0, tm_init_tick = 9, tm_timeout_tick = 6\<rparr>"
  by (simp_all add: sample_timers_def timer_ok_def rt_object_get_type_def timer_activated_def timer_periodic_def)

lemma sample_timers_ok: "timers_ok sample_timers" "sorted_from 0xfffffff0 sample_timers"
  by (simp_all add: timers_ok_def sorted_from_def sample_timers_simps [simplified])

lemma rt_timer_start_stop_witness:
  "\<exists>k'. rt_timer_start 0xffffffff (Obj 1) sample_timers = Some k' \<and> ob_timer_list k' = [Obj 2, Obj 1, Obj 3]"
  using rt_timer_start_stop [OF sample_timers_simps(3) _ _ sample_timers_ok(2), of "0xffffffff"]
  by (auto simp: sample_timers_simps [simplified])

text \<open>C6: one run of the check loop at a fixed tick ends; it calls the time-out functions of
  exactly the timers that have expired, in the order of the timer list and each once; what it
  leaves on the list is in order and not expired: the timers that had not expired and the
  expired periodic ones, restarted; one-shot timers are deactivated.\<close>

theorem rt_timer_check_exact:
  assumes "timers_ok k" "sorted_from b k" "unat (now - b) < 2 ^ 30"
  shows "\<exists>k'. timer_check_loop log_get log_put (\<lambda>_. now) log_call now ([], k) =
      Some (map (\<lambda>i. tm_func (ob_timer k i)) (filter (\<lambda>i. expired now i k) (ob_timer_list k)), k') \<and>
    timers_ok k' \<and> sorted_from b k' \<and> (\<forall>i. i \<in> set (ob_timer_list k') = (i \<in> set (ob_timer_list k) \<and>
       (\<not> expired now i k \<or> timer_periodic i k))) \<and>
    (\<forall>i. i \<in> set (ob_timer_list k') = (i \<in> set (ob_timer_list k') \<and> \<not> expired now i k')) \<and>
    (\<forall>i. (i \<in> set (ob_timer_list k) \<and> expired now i k \<and> \<not> timer_periodic i k) \<longrightarrow> \<not> timer_activated i k')"
proof -
  from check_log_ok [OF assms, of "[]"]
  obtain k' where k': "check_log now ([], k) =
      Some ([] @ map (\<lambda>i. tm_func (ob_timer k i)) (filter (\<lambda>i. expired now i k) (ob_timer_list k)), k')"
    "timers_ok k'" "sorted_from b k'" "\<forall>i \<in> set (ob_timer_list k'). \<not> expired now i k'"
    "set (ob_timer_list k') = {i \<in> set (ob_timer_list k). \<not> expired now i k \<or> timer_periodic i k}"
    "\<forall>i. i \<notin> set (ob_timer_list k') \<longrightarrow> timer_activated i k' = (timer_activated i k \<and> i \<notin> set (ob_timer_list k))"
    by (elim exE conjE) (rule that; assumption)
  show ?thesis
    using k' by (intro exI [of _ k']) (auto simp: check_log_def)
qed

lemma rt_timer_check_exact_witness:
  "\<exists>k'. timer_check_loop log_get log_put (\<lambda>_. 2) log_call 2 ([], sample_timers) =
      Some ([user_timeout 1 0, user_timeout 2 0], k') \<and> Obj 2 \<in> set (ob_timer_list k') \<and>
      \<not> timer_activated (Obj 1) k'"
proof -
  have e: "expired 2 (Obj 1) sample_timers" "expired 2 (Obj 2) sample_timers" "\<not> expired 2 (Obj 3) sample_timers"
    by (simp_all add: expired_def sample_timers_simps [simplified])
  show ?thesis
    using rt_timer_check_exact [OF sample_timers_ok, of 2] e
    by (auto simp: sample_timers_simps [simplified])
qed

text \<open>A periodic timer whose period is 0 is due again as soon as it is restarted.\<close>

lemma restart_period_0:
  assumes "timer_ok i k" "tm_init_tick (ob_timer k i) = 0" "rt_timer_start now i k = Some k'"
  shows "expired now i k'"
  using assms(3) unfolding start_eq [OF assms(1), of now, unfolded assms(2), simplified]
  by (auto simp: expired_def assms(2))

end
