(* ===== verification/Kernel.thy ===== *)
theory Kernel
  imports Timer
begin

section \<open>The kernel's state, and blocking and waking threads (\<open>src/thread.c\<close>, \<open>src/ipc.c\<close>)\<close>

text \<open>
  The whole state: the scheduler's, the objects and timers, and the IPC objects by address.
  The waiting list of the object at \<open>a\<close> is \<open>Suspend a\<close> (\<open>SuspendSender a\<close> for the senders of
  mailboxes and queues), its flags are those of the object \<open>Obj a\<close>, its spin lock is
  \<open>k_spin k a\<close>; the thread at \<open>t\<close> is the object \<open>Obj t\<close> with the timer \<open>ThTimer t\<close>.

  An operation that may block ends where it has called \<open>rt_schedule\<close>: it then yields \<open>None\<close>
  for its result, and what the thread does when it runs again is the operation's
  \<open>_resumed\<close> part.
\<close>

record rt_semaphore =
  sem_value :: u16

record rt_mutex =
  mtx_value :: u16
  mtx_original_priority :: u8
  mtx_hold :: u8
  mtx_owner :: nat

record rt_event =
  ev_set :: u32

record rt_mailbox =
  mb_msg_pool :: "u64 list"
  mb_size :: u16
  mb_entry :: u16
  mb_in_offset :: u16
  mb_out_offset :: u16

text \<open>A node of a message queue: the link, and the bytes that follow it.  Address 0 is \<open>RT_NULL\<close>.\<close>

record rt_mq_message =
  mqm_next :: nat
  mqm_data :: "u8 list"

record rt_messagequeue =
  mq_msg_pool :: nat
  mq_node :: "nat \<Rightarrow> rt_mq_message"
  mq_msg_size :: u16
  mq_max_msgs :: u16
  mq_entry :: u16
  mq_queue_head :: nat
  mq_queue_tail :: nat
  mq_queue_free :: nat

text \<open>\<open>mp_link\<close> is the word in front of a block: the next free block, or the pool itself.\<close>

record rt_mempool =
  mp_start_address :: nat
  mp_size :: u64
  mp_block_size :: u64
  mp_block_list :: nat
  mp_link :: "nat \<Rightarrow> nat"
  mp_block_total_count :: u64
  mp_block_free_count :: u64

record kernel =
  k_s :: sched
  k_o :: objs
  k_spin :: "nat \<Rightarrow> bool"
  k_sem :: "nat \<Rightarrow> rt_semaphore"
  k_mutex :: "nat \<Rightarrow> rt_mutex"
  k_event :: "nat \<Rightarrow> rt_event"
  k_mb :: "nat \<Rightarrow> rt_mailbox"
  k_mq :: "nat \<Rightarrow> rt_messagequeue"
  k_mp :: "nat \<Rightarrow> rt_mempool"

abbreviation (input) RT_IPC_FLAG_FIFO :: u8 where "RT_IPC_FLAG_FIFO \<equiv> 0"
abbreviation (input) RT_IPC_FLAG_PRIO :: u8 where "RT_IPC_FLAG_PRIO \<equiv> 1"

subsection \<open>Access to the parts\<close>

definition on_s :: "(sched \<Rightarrow> sched) \<Rightarrow> kernel \<Rightarrow> kernel" where
  "on_s f k = k\<lparr>k_s := f (k_s k)\<rparr>"

definition on_o :: "(objs \<Rightarrow> objs) \<Rightarrow> kernel \<Rightarrow> kernel" where
  "on_o f k = k\<lparr>k_o := f (k_o k)\<rparr>"

definition lift_s :: "(sched \<Rightarrow> sched option) \<Rightarrow> kernel \<Rightarrow> kernel option" where
  "lift_s f k = map_option (\<lambda>s. k\<lparr>k_s := s\<rparr>) (f (k_s k))"

definition lift_o :: "(objs \<Rightarrow> objs option) \<Rightarrow> kernel \<Rightarrow> kernel option" where
  "lift_o f k = map_option (\<lambda>x. k\<lparr>k_o := x\<rparr>) (f (k_o k))"

abbreviation thread :: "kernel \<Rightarrow> nat \<Rightarrow> rt_thread" where
  "thread k t \<equiv> s_thread (k_s k) t"

abbreviation set_error :: "nat \<Rightarrow> rt_err \<Rightarrow> kernel \<Rightarrow> kernel" where
  "set_error t e \<equiv> on_s (upd_thread t (\<lambda>th. th\<lparr>th_error := e\<rparr>))"

definition rt_thread_self :: "nat \<Rightarrow> kernel \<Rightarrow> nat" where
  "rt_thread_self c k = current c (k_s k)"

definition rt_tick_get :: "nat \<Rightarrow> kernel \<Rightarrow> u32" where
  "rt_tick_get c k = cpu_tick (s_cpu (k_s k) c)"

definition kschedule :: "nat \<Rightarrow> kernel \<Rightarrow> kernel option" where
  "kschedule c = lift_s (rt_schedule c)"

text \<open>\<open>RT_DEBUG_NOT_IN_INTERRUPT\<close> and \<open>RT_DEBUG_IN_THREAD_CONTEXT\<close>.\<close>

definition not_in_interrupt :: "nat \<Rightarrow> kernel \<Rightarrow> unit option" where
  "not_in_interrupt c k = rt_assert (rt_interrupt_get_nest c (k_s k) = 0)"

definition in_thread_context :: "nat \<Rightarrow> kernel \<Rightarrow> unit option" where
  "in_thread_context c k = rt_assert (rt_thread_self c k \<noteq> 0 \<and> rt_interrupt_get_nest c (k_s k) = 0)"

text \<open>\<open>spinlock_lock\<close> on a lock that is taken spins for ever.\<close>

definition spinlock_lock :: "nat \<Rightarrow> kernel \<Rightarrow> kernel option" where
  "spinlock_lock a k = do { rt_assert (\<not> k_spin k a); Some (k\<lparr>k_spin := (k_spin k)(a := True)\<rparr>) }"

definition spinlock_unlock :: "nat \<Rightarrow> kernel \<Rightarrow> kernel" where
  "spinlock_unlock a k = k\<lparr>k_spin := (k_spin k)(a := False)\<rparr>"

subsection \<open>Suspending and resuming\<close>

abbreviation is_thread :: "nat \<Rightarrow> kernel \<Rightarrow> bool" where
  "is_thread t k \<equiv> rt_object_get_type (Obj t) (k_o k) = RT_Object_Class_Thread"

definition thread_timer_stop :: "nat \<Rightarrow> kernel \<Rightarrow> kernel option" where
  "thread_timer_stop t = lift_o (\<lambda>x. do { (_, x) \<leftarrow> rt_timer_stop (ThTimer t) x; Some x })"

text \<open>\<open>rt_timer_control(.., RT_TIMER_CTRL_SET_TIME, &time); rt_timer_start(..)\<close> on a thread's timer.\<close>

definition thread_timer_start :: "nat \<Rightarrow> nat \<Rightarrow> u32 \<Rightarrow> kernel \<Rightarrow> kernel option" where
  "thread_timer_start c t ticks k = lift_o (\<lambda>x.
     do { (_, x) \<leftarrow> rt_timer_control (ThTimer t) (TIMER_SET_TIME ticks) x;
          rt_timer_start (rt_tick_get c k) (ThTimer t) x }) k"

definition rt_thread_suspend :: "nat \<Rightarrow> nat \<Rightarrow> kernel \<Rightarrow> (rt_err \<times> kernel) option" where
  "rt_thread_suspend c t k =
     do { rt_assert (t \<noteq> 0);
          rt_assert (is_thread t k);
          let stat = stat_base (th_stat (thread k t));
          (if stat \<noteq> RT_THREAD_READY \<and> stat \<noteq> RT_THREAD_RUNNING then Some (- RT_ERROR, k)
           else do {
             rt_assert (stat = RT_THREAD_RUNNING \<longrightarrow> t = rt_thread_self c k);
             k \<leftarrow> lift_s (rt_schedule_remove_thread t) k;
             let k = on_s (upd_thread t (with_stat RT_THREAD_SUSPEND)) k;
             k \<leftarrow> thread_timer_stop t k;
             Some (RT_EOK, k) }) }"

definition rt_thread_resume :: "nat \<Rightarrow> nat \<Rightarrow> kernel \<Rightarrow> (rt_err \<times> kernel) option" where
  "rt_thread_resume c t k =
     do { rt_assert (t \<noteq> 0);
          rt_assert (is_thread t k);
          (if stat_base (th_stat (thread k t)) \<noteq> RT_THREAD_SUSPEND then Some (- RT_ERROR, k)
           else do {
             let k = on_s (tlist_remove t) k;
             k \<leftarrow> thread_timer_stop t k;
             k \<leftarrow> lift_s (rt_schedule_insert_thread c t) k;
             Some (RT_EOK, k) }) }"

definition rt_thread_timeout_body :: "nat \<Rightarrow> nat \<Rightarrow> kernel \<Rightarrow> kernel option" where
  "rt_thread_timeout_body c t k =
     do { rt_assert (t \<noteq> 0);
          rt_assert (stat_base (th_stat (thread k t)) = RT_THREAD_SUSPEND);
          rt_assert (is_thread t k);
          let k = set_error t (- RT_ETIMEOUT) k;
          let k = on_s (tlist_remove t) k;
          k \<leftarrow> lift_s (rt_schedule_insert_thread c t) k;
          kschedule c k }"

subsection \<open>Waiting lists\<close>

text \<open>The search of \<open>_ipc_list_suspend\<close> for the first waiting thread of lower priority.\<close>

fun prio_insert :: "(nat \<Rightarrow> u8) \<Rightarrow> nat \<Rightarrow> nat list \<Rightarrow> nat list" where
  "prio_insert prio t [] = [t]"
| "prio_insert prio t (u # us) = (if prio t < prio u then t # u # us else u # prio_insert prio t us)"

definition ipc_list_suspend :: "nat \<Rightarrow> lhead \<Rightarrow> nat \<Rightarrow> u8 \<Rightarrow> kernel \<Rightarrow> kernel option" where
  "ipc_list_suspend c h t flag k =
     do { (_, k) \<leftarrow> rt_thread_suspend c t k;
          (if flag = RT_IPC_FLAG_FIFO then Some (on_s (upd_list h (\<lambda>ts. ts @ [t])) k)
           else if flag = RT_IPC_FLAG_PRIO
           then Some (on_s (upd_list h (prio_insert (\<lambda>u. th_current_priority (thread k u)) t)) k)
           else None) }"

text \<open>
  What every blocking call does before it calls \<open>rt_schedule\<close>: the thread joins the waiting
  list and, for a positive \<open>time\<close>, starts its timer.  \<open>time\<close> is a 32-bit \<open>int\<close>.
\<close>

definition ipc_wait :: "nat \<Rightarrow> lhead \<Rightarrow> nat \<Rightarrow> u8 \<Rightarrow> int \<Rightarrow> kernel \<Rightarrow> kernel option" where
  "ipc_wait c h t flag time k =
     do { k \<leftarrow> ipc_list_suspend c h t flag k;
          (if 0 < time then thread_timer_start c t (of_int time) k else Some k) }"

text \<open>With an empty list the code would take the list head for a thread: \<open>None\<close>.\<close>

definition ipc_list_resume :: "nat \<Rightarrow> lhead \<Rightarrow> kernel \<Rightarrow> kernel option" where
  "ipc_list_resume c h k =
     (case s_list (k_s k) h of
        [] \<Rightarrow> None
      | t # _ \<Rightarrow> do { (_, k) \<leftarrow> rt_thread_resume c t k; Some k })"

text \<open>A thread that cannot be resumed stays on the list and the loop never ends.\<close>

partial_function (option) ipc_list_resume_all :: "nat \<Rightarrow> lhead \<Rightarrow> kernel \<Rightarrow> kernel option" where
  "ipc_list_resume_all c h k =
     (case s_list (k_s k) h of
        [] \<Rightarrow> Some k
      | t # _ \<Rightarrow> do { (_, k) \<leftarrow> rt_thread_resume c t (set_error t (- RT_ERROR) k);
                      ipc_list_resume_all c h k })"

definition ipc_object_init :: "nat \<Rightarrow> kernel \<Rightarrow> kernel" where
  "ipc_object_init a k = on_s (upd_list (Suspend a) (\<lambda>_. [])) (spinlock_unlock a k)"

text \<open>The tail every blocking call shares: the thread gives way; its result is not known yet.\<close>

definition block :: "nat \<Rightarrow> kernel \<Rightarrow> ('r option \<times> kernel) option" where
  "block c k = do { k \<leftarrow> kschedule c k; Some (None, k) }"

subsection \<open>Yield, sleep and delay\<close>

definition rt_thread_yield :: "nat \<Rightarrow> kernel \<Rightarrow> kernel option" where
  "rt_thread_yield c k =
     do { let t = rt_thread_self c k;
          rt_assert (t \<noteq> 0);
          let k = on_s (rt_cpus_lock c) k;
          kschedule c (on_s (upd_thread t (\<lambda>th. th\<lparr>th_remaining_tick := th_init_tick th,
                                                 th_stat := th_stat th OR RT_THREAD_STAT_YIELD\<rparr>)) k) }"

text \<open>Back from \<open>rt_schedule\<close>, the thread enables interrupts again.\<close>

definition rt_thread_yield_resumed :: "nat \<Rightarrow> kernel \<Rightarrow> kernel" where
  "rt_thread_yield_resumed c k = on_s (rt_cpus_unlock c) k"

definition rt_thread_sleep :: "nat \<Rightarrow> u32 \<Rightarrow> kernel \<Rightarrow> kernel option" where
  "rt_thread_sleep c tick k =
     do { let t = rt_thread_self c k;
          rt_assert (t \<noteq> 0);
          rt_assert (is_thread t k);
          (_, k) \<leftarrow> rt_thread_suspend c t k;
          k \<leftarrow> thread_timer_start c t tick k;
          kschedule c k }"

definition rt_thread_sleep_resumed :: "nat \<Rightarrow> kernel \<Rightarrow> kernel" where
  "rt_thread_sleep_resumed t k = (if th_error (thread k t) = - RT_ETIMEOUT then set_error t RT_EOK k else k)"

definition rt_thread_delay :: "nat \<Rightarrow> u32 \<Rightarrow> kernel \<Rightarrow> kernel option" where
  "rt_thread_delay c tick k = rt_thread_sleep c tick k"

text \<open>The value written to \<open>*tick\<close>, and whether the thread was suspended.\<close>

definition rt_thread_delay_until :: "nat \<Rightarrow> u32 \<Rightarrow> u32 \<Rightarrow> kernel \<Rightarrow> (u32 \<times> bool \<times> kernel) option" where
  "rt_thread_delay_until c tick inc_tick k =
     do { let t = rt_thread_self c k;
          rt_assert (t \<noteq> 0);
          rt_assert (is_thread t k);
          let cur_tick = rt_tick_get c k;
          (if cur_tick - tick < inc_tick
           then do {
             let tick = tick + inc_tick;
             let left_tick = tick - cur_tick;
             (_, k) \<leftarrow> rt_thread_suspend c t k;
             k \<leftarrow> thread_timer_start c t left_tick k;
             k \<leftarrow> kschedule c k;
             Some (tick, True, k) }
           else Some (cur_tick, False, k)) }"

text \<open>\<open>rt_tick_from_millisecond\<close> with \<open>RT_TICK_PER_SECOND = 1000\<close>; \<open>ms\<close> is a 32-bit \<open>int\<close>.\<close>

definition rt_tick_from_millisecond :: "int \<Rightarrow> u32" where
  "rt_tick_from_millisecond ms =
     (if ms < 0 then - 1
      else of_int (1000 * (ms div 1000)) + of_int ((1000 * (ms mod 1000) + 999) div 1000))"

definition rt_thread_mdelay :: "nat \<Rightarrow> int \<Rightarrow> kernel \<Rightarrow> kernel option" where
  "rt_thread_mdelay c ms k = rt_thread_sleep c (rt_tick_from_millisecond ms) k"

subsection \<open>The clock (\<open>src/clock.c\<close>)\<close>

definition rt_tick_set :: "u32 \<Rightarrow> kernel \<Rightarrow> kernel" where
  "rt_tick_set tick k = on_s (upd_cpu 0 (\<lambda>p. p\<lparr>cpu_tick := tick\<rparr>)) k"

text \<open>
  \<open>rt_timer_check\<close> on the kernel: \<open>user f p\<close> runs the time-out function at address \<open>f\<close> of a
  timer that is not a thread's.
\<close>

definition run_timeout :: "(nat \<Rightarrow> nat \<Rightarrow> kernel \<Rightarrow> kernel option) \<Rightarrow> nat \<Rightarrow> timeout_func \<Rightarrow> kernel \<Rightarrow> kernel option" where
  "run_timeout user c f k =
     (case f of rt_thread_timeout t \<Rightarrow> rt_thread_timeout_body c t k | user_timeout f p \<Rightarrow> user f p k)"

definition rt_timer_check :: "(nat \<Rightarrow> nat \<Rightarrow> kernel \<Rightarrow> kernel option) \<Rightarrow> nat \<Rightarrow> kernel \<Rightarrow> kernel option" where
  "rt_timer_check user c k =
     do { let current_tick = rt_tick_get c k;
          k \<leftarrow> timer_check_loop k_o (\<lambda>x k. k\<lparr>k_o := x\<rparr>) (rt_tick_get c) (run_timeout user c)
                 current_tick (on_s (rt_cpus_lock c) k);
          Some (on_s (rt_cpus_unlock c) k) }"

definition cpu_usage_tick :: "u8 \<Rightarrow> rt_cpu \<Rightarrow> rt_cpu" where
  "cpu_usage_tick prio p =
     (if cpu_recent_total_ticks p < 5000
      then p\<lparr>cpu_recent_total_ticks := cpu_recent_total_ticks p + 1,
             cpu_idle_ticks := cpu_idle_ticks p + (if 27 \<le> prio then 1 else 0)\<rparr>
      else p\<lparr>cpu_recent_total_ticks := 0, cpu_idle_ticks := 0\<rparr>)"

definition rt_tick_increase :: "(nat \<Rightarrow> nat \<Rightarrow> kernel \<Rightarrow> kernel option) \<Rightarrow> nat \<Rightarrow> kernel \<Rightarrow> kernel option" where
  "rt_tick_increase user c k =
     do { let k = on_s (upd_cpu c (\<lambda>p. p\<lparr>cpu_tick := cpu_tick p + 1\<rparr>)) k;
          let t = rt_thread_self c k;
          rt_assert (t \<noteq> 0);
          let k = on_s (upd_cpu c (cpu_usage_tick (th_current_priority (thread k t)))) k;
          let k = on_s (upd_thread t (\<lambda>th. th\<lparr>th_remaining_tick := th_remaining_tick th - 1\<rparr>)) k;
          k \<leftarrow> (if th_remaining_tick (thread k t) = 0
               then kschedule c (on_s (upd_thread t (\<lambda>th. th\<lparr>th_remaining_tick := th_init_tick th,
                      th_stat := th_stat th OR RT_THREAD_STAT_YIELD\<rparr>)) k)
               else Some k);
          rt_timer_check user c k }"

end
