(* ===== verification/KernelInv.thy ===== *)
theory KernelInv
  imports Kernel SchedInv
begin

section \<open>The kernel's invariant, and what suspending and resuming do\<close>

text \<open>
  The scheduler's invariant, and the agreement of thread states with thread objects and thread
  timers.  One set of lemmas about suspending, resuming and linking a thread serves all the
  components that block and wake threads.
\<close>

subsection \<open>Selectors\<close>

lemma on_simps [simp]:
  "k_s (on_s f k) = f (k_s k)" "k_o (on_s f k) = k_o k" "k_s (on_o g k) = k_s k" "k_o (on_o g k) = g (k_o k)"
  "k_spin (on_s f k) = k_spin k" "k_spin (on_o g k) = k_spin k"
  "k_sem (on_s f k) = k_sem k" "k_sem (on_o g k) = k_sem k"
  "k_mutex (on_s f k) = k_mutex k" "k_mutex (on_o g k) = k_mutex k"
  "k_event (on_s f k) = k_event k" "k_event (on_o g k) = k_event k"
  "k_mb (on_s f k) = k_mb k" "k_mb (on_o g k) = k_mb k"
  "k_mq (on_s f k) = k_mq k" "k_mq (on_o g k) = k_mq k"
  "k_mp (on_s f k) = k_mp k" "k_mp (on_o g k) = k_mp k"
  by (simp_all add: on_s_def on_o_def)

lemma spin_simps [simp]:
  "k_s (spinlock_unlock a k) = k_s k" "k_o (spinlock_unlock a k) = k_o k"
  "k_spin (spinlock_unlock a k) = (k_spin k)(a := False)"
  "k_sem (spinlock_unlock a k) = k_sem k" "k_mutex (spinlock_unlock a k) = k_mutex k"
  "k_event (spinlock_unlock a k) = k_event k" "k_mb (spinlock_unlock a k) = k_mb k"
  "k_mq (spinlock_unlock a k) = k_mq k" "k_mp (spinlock_unlock a k) = k_mp k"
  by (simp_all add: spinlock_unlock_def)

lemma spin_lock_simp [simp]:
  "spinlock_lock a k = (if k_spin k a then None else Some (k\<lparr>k_spin := (k_spin k)(a := True)\<rparr>))"
  by (simp add: spinlock_lock_def)

text \<open>Taking a free lock and releasing it is the identity.\<close>

lemma spin_unlock_lock:
  "\<not> k_spin k a \<Longrightarrow> spinlock_unlock a (k\<lparr>k_spin := (k_spin k)(a := True)\<rparr>) = k"
  by (simp add: spinlock_unlock_def fun_upd_idem)

lemma tick_get_simps [simp]:
  "rt_thread_self c (k\<lparr>k_o := x\<rparr>) = rt_thread_self c k"
  "rt_tick_get c (k\<lparr>k_o := x\<rparr>) = rt_tick_get c k"
  by (simp_all add: rt_thread_self_def rt_tick_get_def)

subsection \<open>One thread changes\<close>

lemma inv_one_thread:
  assumes inv: "sched_inv s" and lo: "lists_ok s'" and go: "groups_ok s'" and t: "t \<noteq> 0"
    and th: "s_thread s' = (s_thread s)(t := th')" and cur: "\<And>d. current d s' = current d s"
    and others: "\<And>u h. u \<noteq> t \<Longrightarrow> u \<in> set (s_list s' h) \<longleftrightarrow> u \<in> set (s_list s h)"
    and same: "th_bind_cpu th' = th_bind_cpu (s_thread s t)" "th_oncpu th' = th_oncpu (s_thread s t)"
    and wf: "thread_wf th'"
    and ready: "stat_base (th_stat th') = RT_THREAD_READY \<Longrightarrow>
      t \<in> set (s_list s' (Ready (th_bind_cpu th') (unat (th_current_priority th'))))"
    and run: "stat_base (th_stat th') = RT_THREAD_RUNNING \<Longrightarrow> th_oncpu th' \<noteq> RT_CPU_DETACHED"
  shows "sched_inv s'"
  unfolding sched_inv_def
proof (intro conjI allI impI lo go)
  have tok: "thread_ok s u" if "u \<noteq> 0" for u using inv that by (simp add: sched_inv_def)
  show "thread_ok s' u" if "u \<noteq> 0" for u
  proof (cases "u = t")
    case True
    have "th_oncpu th' \<noteq> 2 \<Longrightarrow> th_oncpu th' < 2 \<and> current (th_oncpu th') s' = t"
      using tok [OF t] same cur by (auto simp: thread_ok_def Let_def)
    with True ready run wf show ?thesis by (simp add: thread_ok_def Let_def th)
  next
    case False
    with tok [OF that] others show ?thesis by (simp add: thread_ok_def Let_def th cur)
  qed
  show "cpu_ok s' d" if "d < RT_CPUS_NR" for d
    using inv that same wf by (auto simp: cpu_ok_def sched_inv_def Let_def th cur)
qed

lemma sched_suspend_ok:
  assumes "sched_inv s" "t \<noteq> 0"
    and st: "stat_base (th_stat (s_thread s t)) = RT_THREAD_READY \<or> stat_base (th_stat (s_thread s t)) = RT_THREAD_RUNNING"
  shows "\<exists>s1. rt_schedule_remove_thread t s = Some s1 \<and>
    sched_inv (upd_thread t (with_stat RT_THREAD_SUSPEND) s1) \<and> in_no_list t s1 \<and>
    s_list s1 = (\<lambda>h. filter (\<lambda>x. x \<noteq> t) (s_list s h)) \<and> s_thread s1 = s_thread s \<and>
    (\<forall>d. \<exists>g. s_cpu s1 d = (s_cpu s d)\<lparr>cpu_priority_group := g\<rparr>) \<and>
    s_cpus_lock s1 = s_cpus_lock s \<and> s_ipi s1 = s_ipi s"
proof -
  have l: "lists_ok s" "groups_ok s" and tok: "thread_ok s t" using assms by (auto simp: sched_inv_def)
  have wf: "thread_wf (s_thread s t)" using tok st by (auto simp: thread_ok_def Let_def)
  obtain s1 where s1: "rt_schedule_remove_thread t s = Some s1" "lists_ok s1" "groups_ok s1" "in_no_list t s1"
    "s_thread s1 = s_thread s" "s_list s1 = (\<lambda>h. filter (\<lambda>x. x \<noteq> t) (s_list s h))"
    "\<forall>d. \<exists>g. s_cpu s1 d = (s_cpu s d)\<lparr>cpu_priority_group := g\<rparr>" "s_cpus_lock s1 = s_cpus_lock s" "s_ipi s1 = s_ipi s"
    using remove_thread_ok [OF l assms(2) wf] by blast
  have cur: "current d s1 = current d s" for d using spec [OF s1(7), of d] by auto
  have "sched_inv (upd_thread t (with_stat RT_THREAD_SUSPEND) s1)"
    by (rule inv_one_thread [OF assms(1) _ _ assms(2), where th' = "with_stat RT_THREAD_SUSPEND (s_thread s t)"])
      (use upd_thread_lists(1) [OF s1(2,4)] upd_thread_lists(2) [OF s1(3)] wf cur in
        \<open>auto simp: s1(5,6) thread_wf_def\<close>)
  with s1 show ?thesis by blast
qed

lemma sched_wake_ok:
  assumes inv: "sched_inv s" and t: "t \<noteq> 0" and st: "stat_base (th_stat (s_thread s t)) = RT_THREAD_SUSPEND"
  defines "th \<equiv> s_thread s t"
  defines "h \<equiv> Ready (th_bind_cpu th) (unat (th_current_priority th))"
  shows "\<exists>s'. rt_schedule_insert_thread c t (tlist_remove t s) = Some s' \<and> sched_inv s' \<and>
    s_thread s' = (s_thread s)(t := with_stat (if th_oncpu th = RT_CPU_DETACHED then RT_THREAD_READY
                                              else RT_THREAD_RUNNING) th) \<and>
    s_list s' = (\<lambda>g. filter (\<lambda>x. x \<noteq> t) (s_list s g) @
       (if g = h \<and> th_oncpu th = RT_CPU_DETACHED then [t] else [])) \<and>
    (\<forall>d. \<exists>g i. s_cpu s' d = (s_cpu s d)\<lparr>cpu_priority_group := g, cpu_ipi_type := i\<rparr>) \<and>
    s_cpus_lock s' = s_cpus_lock s"
proof -
  let ?s = "tlist_remove t s"
  have l: "lists_ok s" "groups_ok s" and tok: "thread_ok s t" using inv t by (auto simp: sched_inv_def)
  have wf: "thread_wf th" using tok st by (auto simp: thread_ok_def Let_def th_def)
  have notready: "t \<notin> set (s_list s (Ready d p))" for d p
    using in_ready [OF l(1), of t d p] st by (auto simp: ready_ok_def)
  have lo: "lists_ok ?s" using l(1) by (auto simp: lists_ok_def)
  have "filter (\<lambda>x. x \<noteq> t) (s_list s (Ready d p)) = s_list s (Ready d p)" for d p
    using notready [of d p] by (auto simp: filter_id_conv)
  then have go: "groups_ok ?s" using l(2) by (simp add: groups_ok_def)
  have nl: "in_no_list t ?s" by (simp add: in_no_list_def)
  show ?thesis
  proof (cases "th_oncpu th = RT_CPU_DETACHED")
    case True
    from insert_thread_ok [OF lo go t, of c] wf nl True
    obtain s' where s': "rt_schedule_insert_thread c t ?s = Some s'" "lists_ok s'" "groups_ok s'"
      "s_thread s' = (s_thread s)(t := with_stat RT_THREAD_READY th)"
      "s_list s' = (s_list ?s)(h := s_list ?s h @ [t])"
      "\<forall>d. \<exists>g i. s_cpu s' d = (s_cpu s d)\<lparr>cpu_priority_group := g, cpu_ipi_type := i\<rparr>"
      "s_cpus_lock s' = s_cpus_lock s"
      by (auto simp: th_def h_def)
    have cur: "current d s' = current d s" for d using spec [OF s'(6), of d] by auto
    have "sched_inv s'"
      by (rule inv_one_thread [OF inv s'(2,3) t s'(4)])
        (use wf cur in \<open>auto simp: s'(5) h_def th_def thread_wf_def\<close>)
    with s' True show ?thesis by (auto simp: fun_eq_iff)
  next
    case False
    let ?s' = "upd_thread t (with_stat RT_THREAD_RUNNING) ?s"
    have "rt_schedule_insert_thread c t ?s = Some ?s'"
      using t False by (simp add: rt_schedule_insert_thread_def th_def)
    moreover have "sched_inv ?s'"
      by (rule inv_one_thread [OF inv _ _ t, where th' = "with_stat RT_THREAD_RUNNING th"])
        (use upd_thread_lists(1) [OF lo nl] upd_thread_lists(2) [OF go] wf False in \<open>auto simp: th_def thread_wf_def\<close>)
    moreover have "\<exists>g i. s_cpu ?s' d = (s_cpu s d)\<lparr>cpu_priority_group := g, cpu_ipi_type := i\<rparr>" for d
      by (rule exI [of _ "cpu_priority_group (s_cpu s d)"], rule exI [of _ "cpu_ipi_type (s_cpu s d)"]) simp
    ultimately show ?thesis using False by (auto simp: th_def)
  qed
qed

lemma sched_link_ok:
  assumes inv: "sched_inv s" and t: "t \<noteq> 0" "in_no_list t s" and h: "\<And>d p. h \<noteq> Ready d p" "h \<noteq> Defunct"
    and st: "stat_base (th_stat (s_thread s t)) = RT_THREAD_SUSPEND"
    and l': "set l' = insert t (set (s_list s h))" "distinct l'"
  shows "sched_inv (upd_list h (\<lambda>_. l') s)"
proof -
  have wf: "thread_wf (s_thread s t)" using inv t(1) st by (auto simp: sched_inv_def thread_ok_def Let_def)
  have n: "node_ok h (s_thread s t)" using h st wf by (cases h) (auto simp: wait_ok_def)
  have "lists_ok (upd_list h (\<lambda>_. l') s)"
    using inv t n l' by (auto simp: sched_inv_def lists_ok_def in_no_list_def)
  moreover have "groups_ok (upd_list h (\<lambda>_. l') s)"
    using inv h(1) by (auto simp: sched_inv_def groups_ok_def)
  ultimately show ?thesis
    by (rule inv_one_thread [OF inv _ _ t(1), where th' = "s_thread s t"])
      (use wf l' st in auto)
qed

subsection \<open>The kernel invariant\<close>

definition thread_obj :: "nat \<Rightarrow> objs \<Rightarrow> bool" where
  "thread_obj t x \<longleftrightarrow> rt_object_get_type (Obj t) x = RT_Object_Class_Thread \<and> timer_ok (ThTimer t) x \<and>
     \<not> timer_periodic (ThTimer t) x \<and> tm_func (ob_timer x (ThTimer t)) = rt_thread_timeout t"

definition live :: "rt_thread \<Rightarrow> bool" where
  "live th \<longleftrightarrow> stat_base (th_stat th) \<in> {RT_THREAD_READY, RT_THREAD_SUSPEND, RT_THREAD_RUNNING}"

text \<open>
  Threads that take part are thread objects with a one-shot timer of their own; a thread's
  timer is on the timer list exactly when it is activated, and only while the thread is
  suspended.
\<close>

definition kok :: "sched \<Rightarrow> objs \<Rightarrow> bool" where
  "kok s x \<longleftrightarrow> sched_inv s \<and>
     (\<forall>t. t \<noteq> 0 \<longrightarrow> live (s_thread s t) \<longrightarrow> thread_obj t x) \<and>
     (\<forall>t. timer_activated (ThTimer t) x \<longleftrightarrow> ThTimer t \<in> set (ob_timer_list x)) \<and>
     (\<forall>t. ThTimer t \<in> set (ob_timer_list x) \<longrightarrow>
        t \<noteq> 0 \<and> stat_base (th_stat (s_thread s t)) = RT_THREAD_SUSPEND)"

definition kinv :: "kernel \<Rightarrow> bool" where
  "kinv k \<longleftrightarrow> kok (k_s k) (k_o k)"

text \<open>The invariant looks at the scheduler and the objects alone.\<close>

lemma kinv_simps [simp]:
  "kinv (spinlock_unlock a k) = kinv k" "kinv (k\<lparr>k_spin := x1\<rparr>) = kinv k" "kinv (k\<lparr>k_sem := x2\<rparr>) = kinv k"
  "kinv (k\<lparr>k_mutex := x3\<rparr>) = kinv k" "kinv (k\<lparr>k_event := x4\<rparr>) = kinv k" "kinv (k\<lparr>k_mb := x5\<rparr>) = kinv k"
  "kinv (k\<lparr>k_mq := x6\<rparr>) = kinv k" "kinv (k\<lparr>k_mp := x7\<rparr>) = kinv k"
  by (simp_all add: kinv_def)

lemma kok_sched: "kok s x \<Longrightarrow> sched_inv s"
  by (simp add: kok_def)

lemma kok_obj: "kok s x \<Longrightarrow> t \<noteq> 0 \<Longrightarrow> live (s_thread s t) \<Longrightarrow> thread_obj t x"
  by (simp add: kok_def)

lemma live_simps:
  "live th \<longleftrightarrow> stat_base (th_stat th) = 1 \<or> stat_base (th_stat th) = 2 \<or> stat_base (th_stat th) = 3"
  by (simp add: live_def)

text \<open>A scheduler step that keeps the scheduler's invariant and the base states of the
  threads keeps the kernel's.\<close>

lemma kok_step:
  assumes "kok s x" "sched_inv s'" "\<And>t. stat_base (th_stat (s_thread s' t)) = stat_base (th_stat (s_thread s t))"
  shows "kok s' x"
  using assms by (simp add: kok_def live_def)

lemma kok_core:
  assumes "kok s x" "\<And>t. core (s_thread s' t) = core (s_thread s t)" "s_list s' = s_list s"
    "\<And>c. current c s' = current c s"
    "\<And>c. cpu_priority_group (s_cpu s' c) = cpu_priority_group (s_cpu s c)"
  shows "kok s' x"
proof (rule kok_step [OF assms(1)])
  show "sched_inv s'" using inv_cong [OF assms(2-5)] assms(1) by (simp add: kok_def)
  show "stat_base (th_stat (s_thread s' t)) = stat_base (th_stat (s_thread s t))" for t
    using assms(2) [of t] by (simp add: core_def)
qed

subsection \<open>A thread's timer\<close>

definition stopped :: "nat \<Rightarrow> objs \<Rightarrow> objs" where
  "stopped t x = (if timer_activated (ThTimer t) x
     then clear_flag (ThTimer t) RT_TIMER_FLAG_ACTIVATED (timer_remove (ThTimer t) x) else x)"

lemma stopped_simps [simp]:
  "rt_object_get_type i (stopped t x) = rt_object_get_type i x"
  "rt_object_is_systemobject i (stopped t x) = rt_object_is_systemobject i x"
  "ob_timer (stopped t x) = ob_timer x" "ob_container (stopped t x) = ob_container x"
  "o_flag (ob_obj (stopped t x) (Obj a)) = o_flag (ob_obj x (Obj a))"
  "timer_periodic i (stopped t x) = timer_periodic i x"
  "timer_ok i (stopped t x) = timer_ok i x"
  "timer_activated i (stopped t x) \<longleftrightarrow> i \<noteq> ThTimer t \<and> timer_activated i x"
  "thread_obj u (stopped t x) = thread_obj u x"
  by (auto simp: stopped_def timer_periodic_def timer_ok_def timer_activated_def thread_obj_def)

lemma stopped_list:
  assumes "kok s x"
  shows "ob_timer_list (stopped t x) = filter (\<lambda>i. i \<noteq> ThTimer t) (ob_timer_list x)"
proof (cases "timer_activated (ThTimer t) x")
  case False
  then have "ThTimer t \<notin> set (ob_timer_list x)" using assms by (simp add: kok_def)
  with False show ?thesis by (simp add: stopped_def filter_neq_id)
qed (simp add: stopped_def)

lemma thread_timer_stop_ok:
  "thread_obj t (k_o k) \<Longrightarrow> thread_timer_stop t k = Some (on_o (stopped t) k)"
  by (simp add: thread_timer_stop_def lift_o_def rt_timer_stop_def thread_obj_def timer_ok_def stopped_def on_o_def)

lemma stopped_idle:
  "kok s x \<Longrightarrow> stat_base (th_stat (s_thread s t)) \<noteq> RT_THREAD_SUSPEND \<Longrightarrow> stopped t x = x"
  unfolding kok_def stopped_def by metis

lemma kok_stopped: "kok s x \<Longrightarrow> kok s (stopped t x)"
  using stopped_list [of s x t] by (auto simp: kok_def)

subsection \<open>Suspend and resume\<close>

lemma suspend_ok:
  assumes inv: "kinv k" and t: "t \<noteq> 0"
    and st: "stat_base (th_stat (thread k t)) = RT_THREAD_READY \<or>
             stat_base (th_stat (thread k t)) = RT_THREAD_RUNNING \<and> t = rt_thread_self c k"
  shows "\<exists>s'. rt_thread_suspend c t k = Some (RT_EOK, k\<lparr>k_s := s'\<rparr>) \<and> kok s' (k_o k) \<and> in_no_list t s' \<and>
    s_list s' = (\<lambda>h. filter (\<lambda>x. x \<noteq> t) (s_list (k_s k) h)) \<and>
    s_thread s' = (s_thread (k_s k))(t := with_stat RT_THREAD_SUSPEND (thread k t)) \<and>
    (\<forall>d. \<exists>g. s_cpu s' d = (s_cpu (k_s k) d)\<lparr>cpu_priority_group := g\<rparr>) \<and>
    s_cpus_lock s' = s_cpus_lock (k_s k) \<and> s_ipi s' = s_ipi (k_s k)"
proof -
  have ok: "kok (k_s k) (k_o k)" using inv by (simp add: kinv_def)
  have st': "stat_base (th_stat (thread k t)) = 1 \<or> stat_base (th_stat (thread k t)) = 3" using st by auto
  then have lv: "live (thread k t)" by (auto simp: live_def)
  obtain s1 where s1: "rt_schedule_remove_thread t (k_s k) = Some s1"
    "sched_inv (upd_thread t (with_stat 2) s1)" "in_no_list t s1"
    "s_list s1 = (\<lambda>h. filter (\<lambda>x. x \<noteq> t) (s_list (k_s k) h))" "s_thread s1 = s_thread (k_s k)"
    "\<forall>d. \<exists>g. s_cpu s1 d = (s_cpu (k_s k) d)\<lparr>cpu_priority_group := g\<rparr>"
    "s_cpus_lock s1 = s_cpus_lock (k_s k)" "s_ipi s1 = s_ipi (k_s k)"
    using sched_suspend_ok [OF kok_sched [OF ok] t st'] by blast
  let ?s = "upd_thread t (with_stat 2) s1"
  have obj: "thread_obj t (k_o k)" by (rule kok_obj [OF ok t lv])
  have idle: "stopped t (k_o k) = k_o k" using stopped_idle [OF ok, of t] st' by auto
  have "rt_thread_suspend c t k = Some (RT_EOK, k\<lparr>k_s := ?s\<rparr>)"
    using t st obj thread_timer_stop_ok [of t "on_s (upd_thread t (with_stat 2)) (k\<lparr>k_s := s1\<rparr>)"]
    by (auto simp: rt_thread_suspend_def Let_def lift_s_def s1(1) thread_obj_def on_s_def on_o_def idle)
  moreover have "kok ?s (k_o k)"
    using ok s1(2,5) lv by (auto simp: kok_def live_def)
  ultimately show ?thesis using s1 by (intro exI [of _ ?s]) (auto simp: in_no_list_def)
qed

lemma resume_ok:
  assumes inv: "kinv k" and t: "t \<noteq> 0" and st: "stat_base (th_stat (thread k t)) = RT_THREAD_SUSPEND"
  defines "h \<equiv> Ready (th_bind_cpu (thread k t)) (unat (th_current_priority (thread k t)))"
  shows "\<exists>s'. rt_thread_resume c t k = Some (RT_EOK, (on_o (stopped t) k)\<lparr>k_s := s'\<rparr>) \<and>
    kok s' (stopped t (k_o k)) \<and>
    s_thread s' = (s_thread (k_s k))(t := with_stat (if th_oncpu (thread k t) = RT_CPU_DETACHED then RT_THREAD_READY
                                              else RT_THREAD_RUNNING) (thread k t)) \<and>
    s_list s' = (\<lambda>g. filter (\<lambda>x. x \<noteq> t) (s_list (k_s k) g) @
       (if g = h \<and> th_oncpu (thread k t) = RT_CPU_DETACHED then [t] else [])) \<and>
    (\<forall>d. \<exists>g i. s_cpu s' d = (s_cpu (k_s k) d)\<lparr>cpu_priority_group := g, cpu_ipi_type := i\<rparr>) \<and>
    s_cpus_lock s' = s_cpus_lock (k_s k)"
proof -
  have ok: "kok (k_s k) (k_o k)" using inv by (simp add: kinv_def)
  have lv: "live (thread k t)" using st by (simp add: live_def)
  have obj: "thread_obj t (k_o k)" by (rule kok_obj [OF ok t lv])
  from sched_wake_ok [OF kok_sched [OF ok] t st, of c, folded h_def]
  obtain s' where s': "rt_schedule_insert_thread c t (tlist_remove t (k_s k)) = Some s'" "sched_inv s'"
    "s_thread s' = (s_thread (k_s k))(t := with_stat (if th_oncpu (thread k t) = RT_CPU_DETACHED then RT_THREAD_READY
                                              else RT_THREAD_RUNNING) (thread k t))"
    "s_list s' = (\<lambda>g. filter (\<lambda>x. x \<noteq> t) (s_list (k_s k) g) @
       (if g = h \<and> th_oncpu (thread k t) = RT_CPU_DETACHED then [t] else []))"
    "\<forall>d. \<exists>g i. s_cpu s' d = (s_cpu (k_s k) d)\<lparr>cpu_priority_group := g, cpu_ipi_type := i\<rparr>"
    "s_cpus_lock s' = s_cpus_lock (k_s k)"
    by (elim exE conjE) (rule that; assumption)
  have "rt_thread_resume c t k = Some (RT_EOK, (on_o (stopped t) k)\<lparr>k_s := s'\<rparr>)"
    using t st obj thread_timer_stop_ok [of t "on_s (tlist_remove t) k"] s'(1)
    by (simp add: rt_thread_resume_def Let_def lift_s_def thread_obj_def on_s_def on_o_def)
  moreover have "kok s' (stopped t (k_o k))"
    using ok s'(2) lv stopped_list [OF ok, of t] by (auto simp: kok_def s'(3) live_def)
  ultimately show ?thesis using s'(3-6) by blast
qed

end
