(* ===== verification/SchedFrame.thy ===== *)
theory SchedFrame
  imports SchedInv
begin

section \<open>What the scheduler leaves alone\<close>

text \<open>
  Whatever \<open>rt_schedule\<close> decides, it changes of a thread only the CPU it runs on, its lock
  counters, its yield mark, and its state between ready and running; it leaves waiting lists,
  ticks and interrupt levels alone.
\<close>

definition same_data :: "rt_thread \<Rightarrow> rt_thread \<Rightarrow> bool" where
  "same_data th th' \<longleftrightarrow> th_error th' = th_error th \<and> th_event_set th' = th_event_set th \<and>
     th_event_info th' = th_event_info th \<and> th_current_priority th' = th_current_priority th \<and>
     th_init_priority th' = th_init_priority th \<and> th_bind_cpu th' = th_bind_cpu th \<and>
     th_number_mask th' = th_number_mask th \<and> th_init_tick th' = th_init_tick th \<and>
     th_remaining_tick th' = th_remaining_tick th \<and> th_cleanup th' = th_cleanup th \<and>
     th_sp th' = th_sp th \<and> th_stack_addr th' = th_stack_addr th \<and>
     th_stack_size th' = th_stack_size th \<and> th_stack_guard th' = th_stack_guard th"

lemma same_data_stat [simp]: "same_data th (with_stat b th)"
  by (simp add: same_data_def with_stat_def)

definition same_run :: "rt_thread \<Rightarrow> rt_thread \<Rightarrow> bool" where
  "same_run th th' \<longleftrightarrow> same_data th th' \<and>
     (stat_base (th_stat th') = stat_base (th_stat th) \<or>
      stat_base (th_stat th) \<in> {RT_THREAD_READY, RT_THREAD_RUNNING} \<and>
      stat_base (th_stat th') \<in> {RT_THREAD_READY, RT_THREAD_RUNNING})"

definition same_cpu :: "rt_cpu \<Rightarrow> rt_cpu \<Rightarrow> bool" where
  "same_cpu p p' \<longleftrightarrow> cpu_tick p' = cpu_tick p \<and> cpu_irq_nest p' = cpu_irq_nest p \<and>
     cpu_recent_total_ticks p' = cpu_recent_total_ticks p \<and> cpu_idle_ticks p' = cpu_idle_ticks p"

definition sframe :: "sched \<Rightarrow> sched \<Rightarrow> bool" where
  "sframe s s' \<longleftrightarrow> (\<forall>t. same_run (s_thread s t) (s_thread s' t)) \<and> (\<forall>d. same_cpu (s_cpu s d) (s_cpu s' d))"

lemma same_run_refl [simp]: "same_run th th" "same_cpu p p" "sframe s s"
  by (simp_all add: same_run_def same_data_def same_cpu_def sframe_def)

lemma same_run_trans: "same_run a b \<Longrightarrow> same_run b c \<Longrightarrow> same_run a c"
  by (auto simp: same_run_def same_data_def)

lemma sframe_trans: "sframe a b \<Longrightarrow> sframe b c \<Longrightarrow> sframe a c"
  unfolding sframe_def by (metis same_run_trans same_cpu_def)

lemma sframe_upd_thread: "same_run (s_thread s t) (f (s_thread s t)) \<Longrightarrow> sframe s (upd_thread t f s)"
  by (simp add: sframe_def)

lemma sframe_upd_cpu: "same_cpu (s_cpu s d) (f (s_cpu s d)) \<Longrightarrow> sframe s (upd_cpu d f s)"
  by (simp add: sframe_def)

lemma sframe_upd_list: "sframe s (upd_list h f s)" "sframe s (tlist_remove t s)" "sframe s (s\<lparr>s_cpus_lock := x\<rparr>)"
  by (simp_all add: sframe_def)

lemma sframe_lock: "sframe s (rt_cpus_lock c s)" "sframe s (rt_cpus_unlock c s)"
  by (auto simp: rt_cpus_lock_def rt_cpus_unlock_def Let_def same_run_def same_data_def
      intro: sframe_upd_thread)

lemma sframe_ipi:
  assumes "trigger_ipi_irq d s = Some s'"
  shows "sframe s s'" "s_thread s' = s_thread s" "s_list s' = s_list s" "\<And>e. current e s' = current e s"
proof -
  have d: "d < 2" using assms by (auto simp: trigger_ipi_irq_def split: if_splits)
  from trigger_ipi_ok [OF d, of s] assms
  have s': "s_thread s' = s_thread s" "s_list s' = s_list s"
    "\<forall>c. \<exists>i. s_cpu s' c = (s_cpu s c)\<lparr>cpu_ipi_type := i\<rparr>" by auto
  then show "s_thread s' = s_thread s" "s_list s' = s_list s" by simp_all
  have "same_cpu (s_cpu s c) (s_cpu s' c)" "current c s' = current c s" for c
    using spec [OF s'(3), of c] by (auto simp: same_cpu_def)
  with s' show "sframe s s'" "\<And>e. current e s' = current e s" by (simp_all add: sframe_def)
qed

lemma sframe_insert:
  assumes "rt_schedule_insert_thread c t s = Some s'"
    and "stat_base (th_stat (s_thread s t)) \<in> {RT_THREAD_READY, RT_THREAD_RUNNING}"
  shows "sframe s s'"
proof -
  have w: "b \<in> {1, 3} \<Longrightarrow> sframe s (upd_thread t (with_stat b) s)" for b
    using assms(2) by (intro sframe_upd_thread) (auto simp: same_run_def)
  let ?th = "s_thread s t"
  let ?s1 = "upd_list (Ready (th_bind_cpu ?th) (unat (th_current_priority ?th))) (\<lambda>ts. ts @ [t])
     (upd_cpu (th_bind_cpu ?th) (\<lambda>p. p\<lparr>cpu_priority_group := cpu_priority_group p OR th_number_mask ?th\<rparr>)
       (upd_thread t (with_stat RT_THREAD_READY) s))"
  show ?thesis
  proof (cases "th_oncpu ?th = 2")
    case False
    with assms(1) have "s' = upd_thread t (with_stat 3) s"
      by (auto simp: rt_schedule_insert_thread_def Let_def split: if_splits)
    then show ?thesis using w [of 3] by simp
  next
    case True
    have f: "sframe s ?s1"
      by (rule sframe_trans [OF w [of 1]], simp)
        (rule sframe_trans [OF sframe_upd_cpu sframe_upd_list(1)], simp add: same_cpu_def)
    have "rt_schedule_insert_thread c t s =
       (if t \<noteq> 0 \<and> th_bind_cpu ?th < 2 \<and> unat (th_current_priority ?th) < 32
        then if c \<noteq> th_bind_cpu ?th then trigger_ipi_irq (th_bind_cpu ?th) ?s1 else Some ?s1 else None)"
      using True by (simp add: rt_schedule_insert_thread_def Let_def)
    then have "trigger_ipi_irq (th_bind_cpu ?th) ?s1 = Some s' \<or> ?s1 = s'"
      unfolding assms(1) by (simp only: option.inject split: if_split_asm) simp_all
    then show ?thesis
    proof
      assume "trigger_ipi_irq (th_bind_cpu ?th) ?s1 = Some s'"
      from sframe_trans [OF f sframe_ipi(1) [OF this]] show ?thesis .
    next
      assume "?s1 = s'"
      with f show ?thesis by (simp only:)
    qed
  qed
qed

lemma sframe_remove:
  assumes "rt_schedule_remove_thread t s = Some s'"
  shows "sframe s s'"
  using assms
  by (auto simp: rt_schedule_remove_thread_def Let_def same_cpu_def split: if_splits
      intro!: sframe_upd_list sframe_trans [OF sframe_upd_list(2) sframe_upd_cpu])

lemma sframe_switch: "sframe s (rt_hw_context_switch c t s)"
proof -
  have "sframe s (rt_cpus_lock_status_restore c t s)"
    by (auto simp: rt_cpus_lock_status_restore_def rt_spin_unlock_cpus_def Let_def same_cpu_def
        intro: sframe_upd_cpu sframe_trans [OF sframe_upd_cpu sframe_upd_list(3)])
  then show ?thesis
    using sframe_trans [OF _ sframe_lock(2)] by (auto simp: rt_hw_context_switch_def Let_def)
qed

lemma sframe_oncpu: "sframe s (upd_thread t (\<lambda>th. th\<lparr>th_oncpu := x\<rparr>) s)"
  "sframe s (upd_thread t (\<lambda>th. th\<lparr>th_stat := th_stat th AND NOT RT_THREAD_STAT_YIELD\<rparr>) s)"
  by (rule sframe_upd_thread, simp add: same_run_def same_data_def)+

lemma sframe_pick:
  assumes "scheduler_pick c s = Some (to, s')" "sched_inv s" "c < 2" "current c s \<noteq> 0"
  shows "sframe s s'"
proof -
  let ?cur = "current c s" 
  let ?s0 = "upd_thread ?cur (\<lambda>th. th\<lparr>th_oncpu := 2\<rparr>) s"
  have lo: "lists_ok s" using assms(2) by (simp add: sched_inv_def)
  obtain x p where hi: "scheduler_get_highest_priority_thread c s = Some (x, p)"
    using assms(1) by (cases "scheduler_get_highest_priority_thread c s") (auto simp: scheduler_pick_def)
  have x: "x \<in> set (s_list s (Ready c p))"
    using hi by (auto simp: scheduler_get_highest_priority_thread_def Let_def split: list.splits)
  have rx: "stat_base (th_stat (s_thread s x)) = 1" using in_ready [OF lo x] by (simp add: ready_ok_def)
  have f0: "sframe s ?s0" by (rule sframe_oncpu)
  have main: "sframe s s''" if a: "sframe s s1" "y = ?cur \<or> y = x" 
    and b: "(if y \<noteq> ?cur then do {
             let s = upd_cpu c (\<lambda>p. p\<lparr>cpu_current_priority := of_nat p0\<rparr>) (upd_thread y (\<lambda>th. th\<lparr>th_oncpu := c\<rparr>) s1);
             s \<leftarrow> rt_schedule_remove_thread y s;
             let s = upd_thread y (with_stat RT_THREAD_RUNNING) s;
             rt_scheduler_stack_check (s_thread s y);
             Some (y, s) }
           else Some (y, upd_thread y (\<lambda>th. th\<lparr>th_oncpu := c\<rparr>) s1)) = Some (to, s'')" for s1 y s'' p0
  proof -
    have f1: "sframe s (upd_thread y (\<lambda>th. th\<lparr>th_oncpu := c\<rparr>) s1)"
      by (rule sframe_trans [OF a(1) sframe_oncpu(1)])
    show ?thesis
    proof (cases "y = ?cur")
      case True
      with b have "s'' = upd_thread y (\<lambda>th. th\<lparr>th_oncpu := c\<rparr>) s1" by auto
      with f1 show ?thesis by (simp only:)
    next
      case False
      let ?s2 = "upd_cpu c (\<lambda>p. p\<lparr>cpu_current_priority := of_nat p0\<rparr>) (upd_thread y (\<lambda>th. th\<lparr>th_oncpu := c\<rparr>) s1)"
      have f2: "sframe s ?s2"
        by (rule sframe_trans [OF f1 sframe_upd_cpu]) (simp add: same_cpu_def)
      from False b obtain s3 where s3: "rt_schedule_remove_thread y ?s2 = Some s3"
        "s'' = upd_thread y (with_stat 3) s3"
        by (auto simp: Let_def split: bind_splits)
      have f3: "sframe s s3" by (rule sframe_trans [OF f2 sframe_remove [OF s3(1)]])
      have y: "stat_base (th_stat (s_thread s y)) = 1" using False a(2) rx by simp
      have f3y: "same_run (s_thread s y) (s_thread s3 y)" using f3 by (simp add: sframe_def)
      have "stat_base (th_stat (s_thread s3 y)) \<in> {1, 3}" using f3y y by (auto simp: same_run_def)
      then have "sframe s3 (upd_thread y (with_stat 3) s3)"
        by (intro sframe_upd_thread) (auto simp: same_run_def)
      with f3 s3(2) sframe_trans show ?thesis by blast
    qed
  qed
  show ?thesis
  proof (cases "stat_base (th_stat (s_thread s ?cur)) = 3")
    case False
    with assms(1) hi show ?thesis
      by (intro main [of ?s0 x p s']) (auto simp: scheduler_pick_def Let_def f0)
  next
    case True
    let ?ny = "upd_thread ?cur (\<lambda>th. th\<lparr>th_stat := th_stat th AND NOT RT_THREAD_STAT_YIELD\<rparr>)"
    show ?thesis
    proof (cases "keeps_cpu (s_thread s ?cur) p")
      case k: True
      with True assms(1) hi sframe_trans [OF f0 sframe_oncpu(2), of ?cur] show ?thesis
        by (intro main [of "?ny ?s0" ?cur p s'])
          (auto simp: scheduler_pick_def Let_def keeps_cpu_def split: if_splits)
    next
      case k: False
      with True assms(1) hi obtain s1 where s1: "rt_schedule_insert_thread c ?cur ?s0 = Some s1"
        "scheduler_pick c s = Some (to, s')"
        by (auto simp: scheduler_pick_def Let_def keeps_cpu_def split: if_splits bind_splits)
      have "sframe ?s0 s1" by (rule sframe_insert [OF s1(1)]) (use True in simp)
      then have f1: "sframe s (?ny s1)" using f0 sframe_trans sframe_oncpu(2) by blast
      show ?thesis
        using k True s1(2) hi
        by (intro main [OF f1, of x p s']) (auto simp: scheduler_pick_def Let_def keeps_cpu_def s1(1) split: if_splits)
    qed
  qed
qed

lemma schedule_frame:
  assumes "rt_schedule c s = Some s'" "sched_inv s" "c < 2"
  shows "sframe s s'"
proof (cases "cpu_irq_nest (s_cpu s c) = 0")
  case False
  with assms(1) schedule_irq [OF False] show ?thesis
    by (auto intro!: sframe_upd_cpu simp: same_cpu_def)
next
  case nest: True
  let ?s = "rt_cpus_lock c s"
  have cur: "current c s \<noteq> 0" using assms(1) nest by (auto simp: rt_schedule_def Let_def split: if_splits)
  show ?thesis
  proof (cases "may_switch c s \<and> cpu_priority_group (s_cpu s c) \<noteq> 0")
    case False
    with assms(1) schedule_none [OF nest cur] show ?thesis by auto
  next
    case True
    with assms(1) nest cur lock_nest_1 [OF cur] obtain to s1 where s1:
      "scheduler_pick c ?s = Some (to, s1)"
      "s' = (if to \<noteq> current c s then rt_hw_context_switch c to s1 else rt_cpus_unlock c s1)"
      by (auto simp: rt_schedule_def Let_def split: if_splits bind_splits)
    have "sframe ?s s1" by (rule sframe_pick [OF s1(1)]) (use assms cur in auto)
    then have "sframe s s1" using sframe_trans sframe_lock(1) by blast
    then show ?thesis using s1(2) sframe_trans sframe_switch sframe_lock(2) by (auto split: if_splits)
  qed
qed

text \<open>What a thread that gives way leaves behind.\<close>

fun is_ready :: "lhead \<Rightarrow> bool" where
  "is_ready (Ready c p) = True"
| "is_ready _ = False"

lemma schedule_all:
  assumes "sched_inv s" "c < 2" "current c s \<noteq> 0" "stacks_ok c s"
  shows "\<exists>s'. rt_schedule c s = Some s' \<and> sched_inv s' \<and> current c s' \<noteq> 0 \<and>
    (\<forall>d. d \<noteq> c \<longrightarrow> current d s' = current d s) \<and> sframe s s' \<and>
    (\<forall>h. \<not> is_ready h \<longrightarrow> s_list s' h = s_list s h)"
proof -
  obtain s' where s': "rt_schedule c s = Some s'" "sched_inv s'" "\<forall>d. d \<noteq> c \<longrightarrow> current d s' = current d s"
    "current c s' \<noteq> 0"
    using schedule_ok [OF assms] by blast
  have f: "sframe s s'" by (rule schedule_frame [OF s'(1) assms(1,2)])
  from assms have "\<forall>h. \<not> is_ready h \<longrightarrow> s_list s' h = s_list s h"
  proof (cases rule: schedule_cases)
    case (switch t ts p s'')
    have lo: "lists_ok s" using assms(1) by (simp add: sched_inv_def)
    have "t \<notin> set (s_list s h)" if "\<not> is_ready h" for h
      using in_list_unique [OF lo, of t "Ready c p" h] switch(3) that by auto
    then have "s_list s'' h = s_list s h" if "\<not> is_ready h" for h
      using that switch(8) by (auto simp: giveway_list_def filter_neq_id Let_def)
    with switch(6) s'(1) show ?thesis by simp
  qed (use s'(1) in auto)
  with s' f show ?thesis by blast
qed

end
