(* ===== verification/Blocking.thy ===== *)
theory Blocking
  imports KernelInv SchedFrame
begin

section \<open>Waiting lists, time-outs and giving way\<close>

text \<open>
  The lemmas the IPC components rest on: how a thread joins a waiting list (an interface with
  an interpretation for each order the kernel offers), starts its timer, gives way, and how
  waiters are resumed.
\<close>

subsection \<open>The order of a waiting list\<close>

text \<open>
  A discipline puts a new waiter somewhere into the list of waiters.  A ranked one puts it
  behind every waiter of its rank or better, so that the first waiter is the best-ranked one
  that has waited longest.
\<close>

locale wait_discipline =
  fixes ins :: "(nat \<Rightarrow> u8) \<Rightarrow> nat \<Rightarrow> nat list \<Rightarrow> nat list"
  assumes ins_split: "\<exists>us vs. ts = us @ vs \<and> ins p t ts = us @ t # vs"
begin

lemma ins_set: "set (ins p t ts) = insert t (set ts)"
  using ins_split [of ts p t] by auto

lemma ins_distinct: "t \<notin> set ts \<Longrightarrow> distinct ts \<Longrightarrow> distinct (ins p t ts)"
  using ins_split [of ts p t] by auto

lemma ins_length: "length (ins p t ts) = Suc (length ts)"
  using ins_split [of ts p t] by auto

lemma ins_remove: "t \<notin> set ts \<Longrightarrow> filter (\<lambda>x. x \<noteq> t) (ins p t ts) = ts"
  using ins_split [of ts p t] by (auto simp: filter_neq_id)

end

locale ranked_discipline = wait_discipline +
  fixes rank :: "(nat \<Rightarrow> u8) \<Rightarrow> nat \<Rightarrow> nat"
  assumes ins_ranked: "sorted (map (rank p) ts) \<Longrightarrow>
    ins p t ts = takeWhile (\<lambda>u. rank p u \<le> rank p t) ts @ t # dropWhile (\<lambda>u. rank p u \<le> rank p t) ts"
begin

lemma ins_sorted: "sorted (map (rank p) ts) \<Longrightarrow> sorted (map (rank p) (ins p t ts))"
proof -
  assume s: "sorted (map (rank p) ts)"
  let ?le = "\<lambda>u. rank p u \<le> rank p t"
  have "sorted (map (rank p) (takeWhile ?le ts @ dropWhile ?le ts))" using s by simp
  then have "sorted (map (rank p) (takeWhile ?le ts))" "sorted (map (rank p) (dropWhile ?le ts))"
    by (simp_all only: map_append sorted_append)
  moreover have "\<forall>u \<in> set (takeWhile ?le ts). ?le u" by (auto dest: set_takeWhileD)
  moreover have "rank p t \<le> rank p u" if "u \<in> set (dropWhile ?le ts)" for u
  proof (cases "dropWhile ?le ts")
    case Nil
    then have "u \<in> set []" using that by (simp only:)
    then show ?thesis by simp
  next
    case (Cons v vs)
    then have "\<not> ?le v" by (metis hd_dropWhile list.distinct(1) list.sel(1))
    moreover have "rank p v \<le> rank p u"
      using calculation \<open>sorted (map (rank p) (dropWhile ?le ts))\<close> that Cons by auto
    ultimately show ?thesis by simp
  qed
  ultimately show ?thesis
    unfolding ins_ranked [OF s] using s by (auto simp: sorted_append intro: order_trans)
qed

lemma first_is_best:
  assumes "sorted (map (rank p) (t # ts))" "u \<in> set ts"
  shows "rank p t \<le> rank p u"
  using assms by auto

end

text \<open>The two orders a flag selects; any other number stands for the order of memory pools, newest first.\<close>

definition enq :: "u8 \<Rightarrow> (nat \<Rightarrow> u8) \<Rightarrow> nat \<Rightarrow> nat list \<Rightarrow> nat list" where
  "enq flag p t ts = (if flag = RT_IPC_FLAG_FIFO then ts @ [t]
     else if flag = RT_IPC_FLAG_PRIO then prio_insert p t ts else t # ts)"

lemma prio_insert_split: "\<exists>us vs. ts = us @ vs \<and> prio_insert p t ts = us @ t # vs"
proof (induction ts)
  case (Cons u ts)
  then obtain us vs where "ts = us @ vs" "prio_insert p t ts = us @ t # vs" by blast
  then have "u # ts = (u # us) @ vs \<and> u # prio_insert p t ts = (u # us) @ t # vs" by simp
  moreover have "u # ts = [] @ u # ts \<and> t # u # ts = [] @ t # u # ts" by simp
  ultimately show ?case unfolding prio_insert.simps by (cases "p t < p u") (simp only: if_True if_False, blast)+
qed simp

lemma while_True: "takeWhile (\<lambda>_. True) ts = ts" "dropWhile (\<lambda>_. True) ts = []"
  by simp_all

interpretation fifo: ranked_discipline "enq RT_IPC_FLAG_FIFO" "\<lambda>_ _. 0"
proof
  show "\<exists>us vs. ts = us @ vs \<and> enq 0 p t ts = us @ t # vs" for p t ts by (auto simp: enq_def)
qed (simp add: enq_def while_True)

interpretation prio: ranked_discipline "enq RT_IPC_FLAG_PRIO" "\<lambda>p t. unat (p t)"
proof
  show "\<exists>us vs. ts = us @ vs \<and> enq 1 p t ts = us @ t # vs" for p t ts
    using prio_insert_split by (simp add: enq_def)
  show "sorted (map (\<lambda>u. unat (p u)) ts) \<Longrightarrow> enq 1 p t ts =
      takeWhile (\<lambda>u. unat (p u) \<le> unat (p t)) ts @ t # dropWhile (\<lambda>u. unat (p u) \<le> unat (p t)) ts" for p t ts
    by (induction ts) (auto simp: enq_def word_less_nat_alt)
qed

interpretation enq: wait_discipline "enq flag" for flag
proof
  show "\<exists>us vs. ts = us @ vs \<and> enq flag p t ts = us @ t # vs" for p t ts
    using fifo.ins_split [of ts p t] prio_insert_split [of ts p t] by (auto simp: enq_def)
qed

subsection \<open>Stacks and the CPU at hand\<close>

definition all_stacks :: "sched \<Rightarrow> bool" where
  "all_stacks s \<longleftrightarrow> (\<forall>t. live (s_thread s t) \<longrightarrow> rt_scheduler_stack_check (s_thread s t) = Some ())"

lemma all_stacks_ok: "sched_inv s \<Longrightarrow> all_stacks s \<Longrightarrow> stacks_ok c s"
  unfolding stacks_ok_def all_stacks_def sched_inv_def
  by (metis in_ready ready_ok_def live_simps)

lemma stack_same_data: "same_data th th' \<Longrightarrow> rt_scheduler_stack_check th' = rt_scheduler_stack_check th"
  by (simp add: rt_scheduler_stack_check_def same_data_def)

lemma stack_with_stat [simp]: "rt_scheduler_stack_check (with_stat b th) = rt_scheduler_stack_check th"
  by (simp add: rt_scheduler_stack_check_def)

lemma same_run_live: "same_run th th' \<Longrightarrow> live th' = live th"
  by (auto simp: same_run_def live_def)

lemma all_stacks_frame: "sframe s s' \<Longrightarrow> all_stacks s \<Longrightarrow> all_stacks s'"
  unfolding all_stacks_def sframe_def
  by (metis same_run_live stack_same_data same_run_def)

text \<open>The state an operation starts from on CPU \<open>c\<close>, which every operation keeps.\<close>

definition okc :: "nat \<Rightarrow> kernel \<Rightarrow> bool" where
  "okc c k \<longleftrightarrow> kinv k \<and> c < RT_CPUS_NR \<and> rt_thread_self c k \<noteq> 0 \<and> all_stacks (k_s k)"

definition running :: "nat \<Rightarrow> kernel \<Rightarrow> bool" where
  "running c k \<longleftrightarrow> stat_base (th_stat (thread k (rt_thread_self c k))) = RT_THREAD_RUNNING"

lemma okc_simps [simp]:
  "okc c (spinlock_unlock a k) = okc c k" "okc c (k\<lparr>k_spin := x1\<rparr>) = okc c k" "okc c (k\<lparr>k_sem := x2\<rparr>) = okc c k"
  "okc c (k\<lparr>k_mutex := x3\<rparr>) = okc c k" "okc c (k\<lparr>k_event := x4\<rparr>) = okc c k" "okc c (k\<lparr>k_mb := x5\<rparr>) = okc c k"
  "okc c (k\<lparr>k_mq := x6\<rparr>) = okc c k" "okc c (k\<lparr>k_mp := x7\<rparr>) = okc c k"
  "rt_thread_self c (spinlock_unlock a k) = rt_thread_self c k"
  "rt_thread_self c (k\<lparr>k_spin := x1\<rparr>) = rt_thread_self c k" "rt_thread_self c (k\<lparr>k_sem := x2\<rparr>) = rt_thread_self c k"
  "rt_thread_self c (k\<lparr>k_mutex := x3\<rparr>) = rt_thread_self c k" "rt_thread_self c (k\<lparr>k_event := x4\<rparr>) = rt_thread_self c k"
  "rt_thread_self c (k\<lparr>k_mb := x5\<rparr>) = rt_thread_self c k" "rt_thread_self c (k\<lparr>k_mq := x6\<rparr>) = rt_thread_self c k"
  "rt_thread_self c (k\<lparr>k_mp := x7\<rparr>) = rt_thread_self c k"
  by (simp_all add: okc_def rt_thread_self_def)

lemma okc_kok: "okc c k \<Longrightarrow> kok (k_s k) (k_o k)"
  by (simp add: okc_def kinv_def)

subsection \<open>Giving way\<close>

lemma kschedule_ok:
  assumes "okc c k"
  shows "\<exists>s'. kschedule c k = Some (k\<lparr>k_s := s'\<rparr>) \<and> okc c (k\<lparr>k_s := s'\<rparr>) \<and> sframe (k_s k) s' \<and>
    (\<forall>h. \<not> is_ready h \<longrightarrow> s_list s' h = s_list (k_s k) h) \<and>
    (\<forall>d. d \<noteq> c \<longrightarrow> current d s' = current d (k_s k))"
proof -
  have ok: "kok (k_s k) (k_o k)" "c < 2" "current c (k_s k) \<noteq> 0" "all_stacks (k_s k)"
    using assms by (auto simp: okc_def kinv_def rt_thread_self_def)
  have inv: "sched_inv (k_s k)" by (rule kok_sched [OF ok(1)])
  obtain s' where s': "rt_schedule c (k_s k) = Some s'" "sched_inv s'" "current c s' \<noteq> 0"
    "\<forall>d. d \<noteq> c \<longrightarrow> current d s' = current d (k_s k)" "sframe (k_s k) s'"
    "\<forall>h. \<not> is_ready h \<longrightarrow> s_list s' h = s_list (k_s k) h"
    using schedule_all [OF inv ok(2,3) all_stacks_ok [OF inv ok(4)]] by blast
  have r: "same_run (thread k t) (s_thread s' t)" for t using s'(5) by (simp add: sframe_def)
  have b: "stat_base (th_stat (s_thread s' t)) = 2" if "stat_base (th_stat (thread k t)) = 2" for t
    using r [of t] that by (auto simp: same_run_def)
  have "kok s' (k_o k)"
    using ok(1) s'(2) same_run_live [OF r] b by (auto simp: kok_def)
  with s' ok all_stacks_frame [OF s'(5)] show ?thesis
    by (intro exI [of _ s']) (auto simp: kschedule_def lift_s_def okc_def kinv_def rt_thread_self_def)
qed

lemma block_ok:
  assumes "okc c k"
  shows "\<exists>s'. block c k = Some (None, k\<lparr>k_s := s'\<rparr>) \<and> okc c (k\<lparr>k_s := s'\<rparr>) \<and> sframe (k_s k) s' \<and>
    (\<forall>h. \<not> is_ready h \<longrightarrow> s_list s' h = s_list (k_s k) h)"
  using kschedule_ok [OF assms] by (auto simp: block_def)


subsection \<open>Joining a waiting list\<close>

text \<open>The running thread becomes a waiter of \<open>h\<close>.\<close>

definition joined :: "nat \<Rightarrow> lhead \<Rightarrow> nat \<Rightarrow> u8 \<Rightarrow> sched \<Rightarrow> sched \<Rightarrow> bool" where
  "joined c h t flag s s' \<longleftrightarrow>
     s_list s' = (s_list s)(h := enq flag (\<lambda>u. th_current_priority (s_thread s u)) t (s_list s h)) \<and>
     s_thread s' = (s_thread s)(t := with_stat RT_THREAD_SUSPEND (s_thread s t)) \<and>
     (\<forall>d. \<exists>g. s_cpu s' d = (s_cpu s d)\<lparr>cpu_priority_group := g\<rparr>)"

lemma join_ok:
  assumes ok: "okc c k" "running c k" and h: "\<not> is_ready h" "h \<noteq> Defunct"
  defines "t \<equiv> rt_thread_self c k" and "p \<equiv> \<lambda>u. th_current_priority (thread k u)"
  shows "\<exists>s1. rt_thread_suspend c t k = Some (RT_EOK, k\<lparr>k_s := s1\<rparr>) \<and> s_list s1 = s_list (k_s k) \<and>
    (\<lambda>u. th_current_priority (s_thread s1 u)) = p \<and>
    okc c (k\<lparr>k_s := upd_list h (enq flag p t) s1\<rparr>) \<and> joined c h t flag (k_s k) (upd_list h (enq flag p t) s1)"
proof -
  have kv: "kinv k" and t0: "t \<noteq> 0" and st: "stat_base (th_stat (thread k t)) = 3"
    using ok by (auto simp: okc_def running_def t_def)
  have inv: "sched_inv (k_s k)" using kv by (simp add: kinv_def kok_def)
  then have lo: "lists_ok (k_s k)" by (simp add: sched_inv_def)
  have nl: "in_no_list t (k_s k)" by (rule running_no_list [OF lo st])
  from suspend_ok [OF kv t0, of c] st t_def
  obtain s1 where s1: "rt_thread_suspend c t k = Some (RT_EOK, k\<lparr>k_s := s1\<rparr>)" "kok s1 (k_o k)"
    "in_no_list t s1" "s_list s1 = (\<lambda>h. filter (\<lambda>x. x \<noteq> t) (s_list (k_s k) h))"
    "s_thread s1 = (s_thread (k_s k))(t := with_stat 2 (thread k t))"
    "\<forall>d. \<exists>g. s_cpu s1 d = (s_cpu (k_s k) d)\<lparr>cpu_priority_group := g\<rparr>"
    by auto
  have l1: "s_list s1 = s_list (k_s k)"
    using nl by (simp add: s1(4) fun_eq_iff in_no_list_def filter_neq_id)
  have prio: "(\<lambda>u. th_current_priority (s_thread s1 u)) = p"
    by (auto simp: s1(5) fun_eq_iff p_def)
  define l' where "l' = enq flag p t (s_list (k_s k) h)"
  define s' where "s' = upd_list h (\<lambda>_. l') s1"
  have s'_eq: "upd_list h (enq flag p t) s1 = s'" by (simp add: s'_def l'_def l1 upd_list_def)
  have "sched_inv s'"
    unfolding s'_def
  proof (rule sched_link_ok)
    show "sched_inv s1" using s1(2) by (simp add: kok_def)
    show "set l' = insert t (set (s_list s1 h))" by (simp add: l1 l'_def enq.ins_set)
    have "t \<notin> set (s_list (k_s k) h)" "distinct (s_list (k_s k) h)"
      using nl lo by (auto simp: in_no_list_def lists_ok_def)
    then show "distinct l'" unfolding l'_def by (rule enq.ins_distinct)
  qed (use t0 s1(3) h in \<open>auto simp: s1(5)\<close>)
  then have "kok s' (k_o k)"
    by (rule kok_step [OF s1(2)]) (simp add: s'_def)
  moreover have "joined c h t flag (k_s k) s'"
    using s1(6) by (auto simp: joined_def s'_def l1 l'_def s1(5) p_def)
  moreover have "current c s' = current c (k_s k)"
    using spec [OF s1(6), of c] by (auto simp: s'_def)
  moreover have "all_stacks s'"
    using ok(1) st by (auto simp: all_stacks_def okc_def s'_def s1(5) live_def)
  ultimately show ?thesis using ok(1) s1(1) l1 prio
    unfolding s'_eq [symmetric] by (intro exI [of _ s1]) (auto simp: okc_def kinv_def rt_thread_self_def)
qed

lemma ipc_list_suspend_ok:
  assumes ok: "okc c k" "running c k" and h: "\<not> is_ready h" "h \<noteq> Defunct"
    and fl: "flag \<in> {RT_IPC_FLAG_FIFO, RT_IPC_FLAG_PRIO}"
  defines "t \<equiv> rt_thread_self c k"
  shows "\<exists>s'. ipc_list_suspend c h t flag k = Some (k\<lparr>k_s := s'\<rparr>) \<and> okc c (k\<lparr>k_s := s'\<rparr>) \<and>
    joined c h t flag (k_s k) s'"
proof -
  let ?p = "\<lambda>u. th_current_priority (thread k u)"
  obtain s1 where s1: "rt_thread_suspend c t k = Some (RT_EOK, k\<lparr>k_s := s1\<rparr>)"
    "(\<lambda>u. th_current_priority (s_thread s1 u)) = ?p" "okc c (k\<lparr>k_s := upd_list h (enq flag ?p t) s1\<rparr>)"
    "joined c h t flag (k_s k) (upd_list h (enq flag ?p t) s1)"
    using join_ok [OF ok h, of flag] unfolding t_def by blast
  have "enq flag ?p t = (if flag = 0 then (\<lambda>ts. ts @ [t]) else prio_insert ?p t)"
    using fl by (auto simp: enq_def fun_eq_iff)
  then have "ipc_list_suspend c h t flag k = Some (k\<lparr>k_s := upd_list h (enq flag ?p t) s1\<rparr>)"
    using fl s1(2) by (auto simp: ipc_list_suspend_def s1(1) on_s_def)
  with s1(3,4) show ?thesis by blast
qed

subsection \<open>A thread's time-out\<close>

text \<open>The object state after a thread's timer was set to \<open>ticks\<close> and started.\<close>

definition started :: "u32 \<Rightarrow> nat \<Rightarrow> u32 \<Rightarrow> objs \<Rightarrow> objs" where
  "started now t ticks x =
     the (rt_timer_start now (ThTimer t) (upd_timer (ThTimer t) (\<lambda>tm. tm\<lparr>tm_init_tick := ticks\<rparr>) x))"

lemma started_eq:
  assumes "timer_ok (ThTimer t) x" "ticks < TICK_HALF"
  shows "\<exists>l. rt_timer_start now (ThTimer t) (upd_timer (ThTimer t) (\<lambda>tm. tm\<lparr>tm_init_tick := ticks\<rparr>) x) =
      Some (started now t ticks x) \<and> set l = insert (ThTimer t) (set (ob_timer_list x)) \<and>
    started now t ticks x = set_flag (ThTimer t) 1 ((upd_timer (ThTimer t)
     (\<lambda>t. t\<lparr>tm_timeout_tick := now + tm_init_tick t\<rparr>) (clear_flag (ThTimer t) 1 (timer_remove (ThTimer t)
       (upd_timer (ThTimer t) (\<lambda>tm. tm\<lparr>tm_init_tick := ticks\<rparr>) x))))\<lparr>ob_timer_list := l\<rparr>)"
proof -
  let ?x = "upd_timer (ThTimer t) (\<lambda>tm. tm\<lparr>tm_init_tick := ticks\<rparr>) x"
  let ?to = "(\<lambda>j. tm_timeout_tick (ob_timer ?x j))(ThTimer t := now + tm_init_tick (ob_timer ?x (ThTimer t)))"
  have ok: "timer_ok (ThTimer t) ?x" "tm_init_tick (ob_timer ?x (ThTimer t)) < TICK_HALF"
    using assms by (simp_all add: timer_ok_def)
  note e = start_eq [OF ok, of now]
  show ?thesis
    unfolding started_def e option.sel
    by (rule exI [of _ "timer_insert ?to (ThTimer t) (filter (\<lambda>x. x \<noteq> ThTimer t) (ob_timer_list ?x))"])
      auto
qed

lemma started_facts:
  assumes "timer_ok (ThTimer t) x" "ticks < TICK_HALF"
  shows "set (ob_timer_list (started now t ticks x)) = insert (ThTimer t) (set (ob_timer_list x))"
    "rt_object_get_type i (started now t ticks x) = rt_object_get_type i x"
    "rt_object_is_systemobject i (started now t ticks x) = rt_object_is_systemobject i x"
    "o_flag (ob_obj (started now t ticks x) (Obj a)) = o_flag (ob_obj x (Obj a))"
    "ob_container (started now t ticks x) = ob_container x"
    "ob_timer (started now t ticks x) = (ob_timer x)(ThTimer t :=
       (ob_timer x (ThTimer t))\<lparr>tm_init_tick := ticks, tm_timeout_tick := now + ticks\<rparr>)"
    "timer_activated i (started now t ticks x) \<longleftrightarrow> i = ThTimer t \<or> timer_activated i x"
    "timer_periodic i (started now t ticks x) = timer_periodic i x"
    "timer_ok i (started now t ticks x) = timer_ok i x"
    "thread_obj u (started now t ticks x) = thread_obj u x"
proof -
  obtain l where l: "set l = insert (ThTimer t) (set (ob_timer_list x))"
    and e: "started now t ticks x = set_flag (ThTimer t) 1 ((upd_timer (ThTimer t)
     (\<lambda>t. t\<lparr>tm_timeout_tick := now + tm_init_tick t\<rparr>) (clear_flag (ThTimer t) 1 (timer_remove (ThTimer t)
       (upd_timer (ThTimer t) (\<lambda>tm. tm\<lparr>tm_init_tick := ticks\<rparr>) x))))\<lparr>ob_timer_list := l\<rparr>)"
    using started_eq [OF assms, of now] by blast
  show "set (ob_timer_list (started now t ticks x)) = insert (ThTimer t) (set (ob_timer_list x))"
    "rt_object_get_type i (started now t ticks x) = rt_object_get_type i x"
    "rt_object_is_systemobject i (started now t ticks x) = rt_object_is_systemobject i x"
    "o_flag (ob_obj (started now t ticks x) (Obj a)) = o_flag (ob_obj x (Obj a))"
    "ob_container (started now t ticks x) = ob_container x"
    "ob_timer (started now t ticks x) = (ob_timer x)(ThTimer t :=
       (ob_timer x (ThTimer t))\<lparr>tm_init_tick := ticks, tm_timeout_tick := now + ticks\<rparr>)"
    "timer_activated i (started now t ticks x) \<longleftrightarrow> i = ThTimer t \<or> timer_activated i x"
    "timer_periodic i (started now t ticks x) = timer_periodic i x"
    "timer_ok i (started now t ticks x) = timer_ok i x"
    "thread_obj u (started now t ticks x) = thread_obj u x"
    using l by (auto simp: e timer_activated_def timer_periodic_def timer_ok_def thread_obj_def
        rt_object_get_type_def rt_object_is_systemobject_def)
qed

lemma thread_timer_start_ok:
  assumes "kok (k_s k) (k_o k)" "t \<noteq> 0" "stat_base (th_stat (thread k t)) = RT_THREAD_SUSPEND" "ticks < TICK_HALF"
  shows "thread_timer_start c t ticks k = Some (k\<lparr>k_o := started (rt_tick_get c k) t ticks (k_o k)\<rparr>)"
    "kok (k_s k) (started (rt_tick_get c k) t ticks (k_o k))"
proof -
  have obj: "thread_obj t (k_o k)" using assms by (intro kok_obj [OF assms(1,2)]) (simp add: live_def)
  then have tok: "timer_ok (ThTimer t) (k_o k)" by (simp add: thread_obj_def)
  have "rt_timer_start now (ThTimer t) (upd_timer (ThTimer t) (\<lambda>tm. tm\<lparr>tm_init_tick := ticks\<rparr>) (k_o k)) =
      Some (started now t ticks (k_o k))" for now
    using started_eq [OF tok assms(4)] by blast
  then show "thread_timer_start c t ticks k = Some (k\<lparr>k_o := started (rt_tick_get c k) t ticks (k_o k)\<rparr>)"
    using tok by (simp add: thread_timer_start_def lift_o_def rt_timer_control_def timer_ok_def)
  show "kok (k_s k) (started (rt_tick_get c k) t ticks (k_o k))"
    using assms(1-3) by (auto simp: kok_def started_facts [OF tok assms(4)])
qed


lemma of_int_tick:
  assumes "0 < time" "time < 0x7fffffff"
  shows "(of_int time :: u32) < TICK_HALF" "uint (of_int time :: u32) = time"
proof -
  show u: "uint (of_int time :: u32) = time" using assms by (simp add: uint_word_of_int_eq take_bit_int_eq_self)
  show "(of_int time :: u32) < TICK_HALF" unfolding word_less_def u using assms by simp
qed

text \<open>The object state after \<open>ipc_wait\<close>.\<close>

definition timed :: "nat \<Rightarrow> nat \<Rightarrow> int \<Rightarrow> kernel \<Rightarrow> objs" where
  "timed c t time k = (if 0 < time then started (rt_tick_get c k) t (of_int time) (k_o k) else k_o k)"

lemma timed_ok:
  assumes ok: "okc c k" and t: "t \<noteq> 0" and time: "time < 0x7fffffff"
    and s': "okc c (k\<lparr>k_s := s'\<rparr>)" "joined c h t flag (k_s k) s'"
  shows "(if 0 < time then thread_timer_start c t (of_int time) (k\<lparr>k_s := s'\<rparr>) else Some (k\<lparr>k_s := s'\<rparr>)) =
      Some (k\<lparr>k_s := s', k_o := timed c t time k\<rparr>)" "okc c (k\<lparr>k_s := s', k_o := timed c t time k\<rparr>)"
proof -
  have j: "stat_base (th_stat (s_thread s' t)) = 2" "\<exists>g. s_cpu s' c = (s_cpu (k_s k) c)\<lparr>cpu_priority_group := g\<rparr>"
    using s'(2) by (auto simp: joined_def)
  have now: "rt_tick_get c (k\<lparr>k_s := s'\<rparr>) = rt_tick_get c k" using j(2) by (auto simp: rt_tick_get_def)
  have "kok (k_s (k\<lparr>k_s := s'\<rparr>)) (k_o (k\<lparr>k_s := s'\<rparr>))" by (rule okc_kok [OF s'(1)])
  note st = thread_timer_start_ok [OF this t, of "of_int time" c]
  have "0 < time \<Longrightarrow> thread_timer_start c t (of_int time) (k\<lparr>k_s := s'\<rparr>) = Some (k\<lparr>k_s := s', k_o := timed c t time k\<rparr>) \<and>
      kok s' (timed c t time k)"
    using st j(1) of_int_tick(1) [OF _ time] by (simp add: timed_def now)
  then show "(if 0 < time then thread_timer_start c t (of_int time) (k\<lparr>k_s := s'\<rparr>) else Some (k\<lparr>k_s := s'\<rparr>)) =
      Some (k\<lparr>k_s := s', k_o := timed c t time k\<rparr>)" "okc c (k\<lparr>k_s := s', k_o := timed c t time k\<rparr>)"
    using s'(1) by (auto simp: timed_def okc_def kinv_def rt_thread_self_def)
qed

lemma ipc_wait_ok:
  assumes ok: "okc c k" "running c k" and h: "\<not> is_ready h" "h \<noteq> Defunct"
    and fl: "flag \<in> {RT_IPC_FLAG_FIFO, RT_IPC_FLAG_PRIO}" and time: "time < 0x7fffffff"
  defines "t \<equiv> rt_thread_self c k"
  shows "\<exists>s'. ipc_wait c h t flag time k = Some (k\<lparr>k_s := s', k_o := timed c t time k\<rparr>) \<and>
    okc c (k\<lparr>k_s := s', k_o := timed c t time k\<rparr>) \<and> joined c h t flag (k_s k) s'"
proof -
  obtain s' where s': "ipc_list_suspend c h t flag k = Some (k\<lparr>k_s := s'\<rparr>)" "okc c (k\<lparr>k_s := s'\<rparr>)"
    "joined c h t flag (k_s k) s'"
    using ipc_list_suspend_ok [OF ok h fl] unfolding t_def by blast
  have t0: "t \<noteq> 0" using ok by (simp add: okc_def t_def)
  from timed_ok [OF ok(1) t0 time s'(2,3)] s' show ?thesis
    by (intro exI [of _ s']) (simp add: ipc_wait_def)
qed

subsection \<open>Waking waiters\<close>

definition woken :: "nat \<Rightarrow> sched \<Rightarrow> sched \<Rightarrow> bool" where
  "woken t s s' \<longleftrightarrow> (let th = s_thread s t in
     s_thread s' = (s_thread s)(t := with_stat (if th_oncpu th = RT_CPU_DETACHED then RT_THREAD_READY
                                                else RT_THREAD_RUNNING) th) \<and>
     s_list s' = (\<lambda>g. filter (\<lambda>x. x \<noteq> t) (s_list s g) @
       (if g = Ready (th_bind_cpu th) (unat (th_current_priority th)) \<and> th_oncpu th = RT_CPU_DETACHED
        then [t] else [])) \<and>
     (\<forall>d. \<exists>g i. s_cpu s' d = (s_cpu s d)\<lparr>cpu_priority_group := g, cpu_ipi_type := i\<rparr>))"

lemma woken_cpu:
  assumes "woken t s s'"
  shows "current d s' = current d s" "cpu_irq_nest (s_cpu s' d) = cpu_irq_nest (s_cpu s d)"
    "cpu_tick (s_cpu s' d) = cpu_tick (s_cpu s d)" "same_cpu (s_cpu s d) (s_cpu s' d)"
proof -
  have "\<exists>g i. s_cpu s' d = (s_cpu s d)\<lparr>cpu_priority_group := g, cpu_ipi_type := i\<rparr>"
    using assms unfolding woken_def Let_def by blast
  then show "current d s' = current d s" "cpu_irq_nest (s_cpu s' d) = cpu_irq_nest (s_cpu s d)"
    "cpu_tick (s_cpu s' d) = cpu_tick (s_cpu s d)" "same_cpu (s_cpu s d) (s_cpu s' d)"
    by (auto simp: same_cpu_def)
qed

lemma resume_woken:
  assumes ok: "okc c k" and t: "t \<noteq> 0" "stat_base (th_stat (thread k t)) = RT_THREAD_SUSPEND"
  shows "\<exists>s'. rt_thread_resume c t k = Some (RT_EOK, k\<lparr>k_s := s', k_o := stopped t (k_o k)\<rparr>) \<and>
    okc c (k\<lparr>k_s := s', k_o := stopped t (k_o k)\<rparr>) \<and> woken t (k_s k) s'"
proof -
  have kv: "kinv k" using ok by (simp add: okc_def)
  from resume_ok [OF kv t, of c] obtain s' where
    s': "rt_thread_resume c t k = Some (RT_EOK, (on_o (stopped t) k)\<lparr>k_s := s'\<rparr>)"
    "kok s' (stopped t (k_o k))" and w: "woken t (k_s k) s'"
    by (auto simp: woken_def Let_def)
  have "(on_o (stopped t) k)\<lparr>k_s := s'\<rparr> = k\<lparr>k_s := s', k_o := stopped t (k_o k)\<rparr>"
    by (simp add: on_o_def)
  moreover note woken_cpu(1) [OF w, of c]
  moreover have "all_stacks s'"
  proof -
    have "live (s_thread s' u) \<longrightarrow> rt_scheduler_stack_check (s_thread s' u) = Some ()" for u
      using ok t(2) w by (cases "u = t") (auto simp: okc_def all_stacks_def woken_def Let_def live_def)
    then show ?thesis by (simp add: all_stacks_def)
  qed
  ultimately show ?thesis using s' w ok
    by (intro exI [of _ s']) (auto simp: okc_def kinv_def rt_thread_self_def)
qed

lemma waiter_suspended:
  assumes "okc c k" "t \<in> set (s_list (k_s k) h)" "\<not> is_ready h" "h \<noteq> Defunct"
  shows "t \<noteq> 0" "stat_base (th_stat (thread k t)) = RT_THREAD_SUSPEND"
proof -
  have "lists_ok (k_s k)" using assms(1) by (simp add: okc_def kinv_def kok_def sched_inv_def)
  from in_list_ok [OF this assms(2)] assms(3,4)
  show "t \<noteq> 0" "stat_base (th_stat (thread k t)) = 2" by (cases h; simp add: wait_ok_def)+
qed

text \<open>Resuming a waiter changes no other waiting list, and takes it off its own.\<close>

lemma woken_lists:
  assumes "sched_inv s" "t \<in> set (s_list s h)" "\<not> is_ready h" "woken t s s'"
  shows "\<And>g. \<not> is_ready g \<Longrightarrow> s_list s' g = (if g = h then filter (\<lambda>x. x \<noteq> t) (s_list s h) else s_list s g)"
proof -
  fix g assume g: "\<not> is_ready g"
  have lo: "lists_ok s" using assms(1) by (simp add: sched_inv_def)
  have "s_list s' g = filter (\<lambda>x. x \<noteq> t) (s_list s g)"
    using assms(4) g by (auto simp: woken_def Let_def)
  moreover have "g \<noteq> h \<Longrightarrow> t \<notin> set (s_list s g)" using in_list_unique [OF lo assms(2)] by metis
  ultimately show "s_list s' g = (if g = h then filter (\<lambda>x. x \<noteq> t) (s_list s h) else s_list s g)"
    by (auto simp: filter_neq_id)
qed

lemma ipc_list_resume_ok:
  assumes ok: "okc c k" and l: "s_list (k_s k) h = t # ts" and h: "\<not> is_ready h" "h \<noteq> Defunct"
  shows "\<exists>s'. ipc_list_resume c h k = Some (k\<lparr>k_s := s', k_o := stopped t (k_o k)\<rparr>) \<and>
    okc c (k\<lparr>k_s := s', k_o := stopped t (k_o k)\<rparr>) \<and> woken t (k_s k) s' \<and>
    (\<forall>g. \<not> is_ready g \<longrightarrow> s_list s' g = (if g = h then ts else s_list (k_s k) g))"
proof -
  have t: "t \<in> set (s_list (k_s k) h)" using l by simp
  obtain s' where s': "rt_thread_resume c t k = Some (RT_EOK, k\<lparr>k_s := s', k_o := stopped t (k_o k)\<rparr>)"
    "okc c (k\<lparr>k_s := s', k_o := stopped t (k_o k)\<rparr>)" "woken t (k_s k) s'"
    using resume_woken [OF ok waiter_suspended [OF ok t h]] by blast
  have inv: "sched_inv (k_s k)" using ok by (simp add: okc_def kinv_def kok_def)
  have "filter (\<lambda>x. x \<noteq> t) (s_list (k_s k) h) = ts"
  proof -
    have "distinct (t # ts)" using inv l by (metis sched_inv_def lists_ok_def)
    then show ?thesis by (simp add: l filter_neq_id)
  qed
  with woken_lists [OF inv t h(1) s'(3)] s' show ?thesis
    by (intro exI [of _ s']) (simp add: ipc_list_resume_def l)
qed

text \<open>Changing what the scheduler does not look at in a thread: its error code, its event data.\<close>

lemma thread_data_ok:
  assumes "\<And>th. core (f th) = core th" "\<And>th. th_stat (f th) = th_stat th"
    "\<And>th. rt_scheduler_stack_check (f th) = rt_scheduler_stack_check th"
  shows "okc c (on_s (upd_thread t f) k) = okc c k"
proof -
  have A: "sched_inv (upd_thread t f s) = sched_inv s" for s
    by (rule inv_cong) (simp_all add: assms(1))
  have B: "th_stat (s_thread (upd_thread t f s) u) = th_stat (s_thread s u)" for s u
    by (simp add: assms(2))
  have E: "rt_scheduler_stack_check (s_thread (upd_thread t f s) u) = rt_scheduler_stack_check (s_thread s u)" for s u
    by (simp add: assms(3))
  have C: "kok (upd_thread t f s) x = kok s x" for s x
    unfolding kok_def live_def A B ..
  have D: "all_stacks (upd_thread t f s) = all_stacks s" for s
    unfolding all_stacks_def live_def B E ..
  show ?thesis unfolding okc_def kinv_def rt_thread_self_def on_simps C D by simp
qed

lemma set_error_ok: "okc c (set_error t e k) = okc c k"
  by (rule thread_data_ok) (simp_all add: core_def rt_scheduler_stack_check_def)

lemma resume_all_ok:
  assumes "okc c k" "\<not> is_ready h" "h \<noteq> Defunct"
  shows "\<exists>s' x'. ipc_list_resume_all c h k = Some (k\<lparr>k_s := s', k_o := x'\<rparr>) \<and>
    okc c (k\<lparr>k_s := s', k_o := x'\<rparr>) \<and>
    (\<forall>g. \<not> is_ready g \<longrightarrow> s_list s' g = (if g = h then [] else s_list (k_s k) g)) \<and>
    (\<forall>t \<in> set (s_list (k_s k) h). th_error (s_thread s' t) = - RT_ERROR \<and>
       stat_base (th_stat (s_thread s' t)) \<in> {RT_THREAD_READY, RT_THREAD_RUNNING} \<and>
       \<not> timer_activated (ThTimer t) x') \<and>
    (\<forall>t. t \<notin> set (s_list (k_s k) h) \<longrightarrow> s_thread s' t = thread k t) \<and>
    (\<forall>i. rt_object_get_type i x' = rt_object_get_type i (k_o k)) \<and>
    (\<forall>i. rt_object_is_systemobject i x' = rt_object_is_systemobject i (k_o k)) \<and>
    ob_container x' = ob_container (k_o k) \<and>
    (\<forall>b. o_flag (ob_obj x' (Obj b)) = o_flag (ob_obj (k_o k) (Obj b))) \<and>
    (\<forall>d. current d s' = current d (k_s k) \<and> cpu_irq_nest (s_cpu s' d) = cpu_irq_nest (s_cpu (k_s k) d))"
  using assms(1)
proof (induction "s_list (k_s k) h" arbitrary: k)
  case Nil
  then have "ipc_list_resume_all c h k = Some k" by (subst ipc_list_resume_all.simps) simp
  with Nil show ?case
    by (intro exI [of _ "k_s k"] exI [of _ "k_o k"]) auto
next
  case (Cons t ts)
  have l: "s_list (k_s k) h = t # ts" using Cons.hyps(2) by simp
  let ?k = "set_error t (- RT_ERROR) k"
  have okk: "okc c ?k" using Cons.prems by (simp add: set_error_ok)
  have lk: "s_list (k_s ?k) h = t # ts" using l by simp
  have "distinct (t # ts)"
    using Cons.prems l by (metis okc_def kinv_def kok_def sched_inv_def lists_ok_def)
  then have nt: "t \<notin> set ts" by simp
  have th: "t \<in> set (s_list (k_s ?k) h)" using lk by simp
  obtain s1 where s1: "rt_thread_resume c t ?k = Some (RT_EOK, ?k\<lparr>k_s := s1, k_o := stopped t (k_o ?k)\<rparr>)"
    "okc c (?k\<lparr>k_s := s1, k_o := stopped t (k_o ?k)\<rparr>)" "woken t (k_s ?k) s1"
    using resume_woken [OF okk waiter_suspended [OF okk th assms(2,3)]] by blast
  have eqk: "?k\<lparr>k_s := s1, k_o := stopped t (k_o ?k)\<rparr> = k\<lparr>k_s := s1, k_o := stopped t (k_o k)\<rparr>"
    by (simp add: on_s_def)
  have invk: "sched_inv (k_s ?k)" using okk by (simp add: okc_def kinv_def kok_def)
  have lists1: "s_list s1 g = (if g = h then ts else s_list (k_s k) g)" if "\<not> is_ready g" for g
    using woken_lists [OF invk th assms(2) s1(3) that] lk nt by (simp add: filter_neq_id)
  define k1 where "k1 = k\<lparr>k_s := s1, k_o := stopped t (k_o k)\<rparr>"
  have ts: "ts = s_list (k_s k1) h" using lists1 [OF assms(2)] by (simp add: k1_def)
  have ok1: "okc c k1" using s1(2) unfolding eqk k1_def .
  from Cons.hyps(1) [OF ts ok1]
  obtain s' x' where IH: "ipc_list_resume_all c h k1 = Some (k1\<lparr>k_s := s', k_o := x'\<rparr>)"
    "okc c (k1\<lparr>k_s := s', k_o := x'\<rparr>)"
    "\<forall>g. \<not> is_ready g \<longrightarrow> s_list s' g = (if g = h then [] else s_list (k_s k1) g)"
    "\<forall>t \<in> set (s_list (k_s k1) h). th_error (s_thread s' t) = - RT_ERROR \<and>
       stat_base (th_stat (s_thread s' t)) \<in> {RT_THREAD_READY, RT_THREAD_RUNNING} \<and>
       \<not> timer_activated (ThTimer t) x'"
    "\<forall>t. t \<notin> set (s_list (k_s k1) h) \<longrightarrow> s_thread s' t = thread k1 t"
    "\<forall>i. rt_object_get_type i x' = rt_object_get_type i (k_o k1)"
    "\<forall>i. rt_object_is_systemobject i x' = rt_object_is_systemobject i (k_o k1)"
    "ob_container x' = ob_container (k_o k1)"
    "\<forall>b. o_flag (ob_obj x' (Obj b)) = o_flag (ob_obj (k_o k1) (Obj b))"
    "\<forall>d. current d s' = current d (k_s k1) \<and> cpu_irq_nest (s_cpu s' d) = cpu_irq_nest (s_cpu (k_s k1) d)"
    by (elim exE conjE) (rule that; assumption)
  have eqk': "?k\<lparr>k_s := s1, k_o := stopped t (k_o k)\<rparr> = k\<lparr>k_s := s1, k_o := stopped t (k_o k)\<rparr>"
    using eqk by simp
  have step: "ipc_list_resume_all c h k = ipc_list_resume_all c h k1"
    by (subst ipc_list_resume_all.simps) (simp add: l s1(1) eqk' k1_def)
  have eq1: "k1\<lparr>k_s := s', k_o := x'\<rparr> = k\<lparr>k_s := s', k_o := x'\<rparr>" by (simp add: k1_def)
  have th1: "s_thread s1 u = (if u = t then s_thread s1 t else thread k u)" for u
    using s1(3) by (auto simp: woken_def Let_def)
  have w: "th_error (s_thread s1 t) = - RT_ERROR" "stat_base (th_stat (s_thread s1 t)) \<in> {1, 3}"
    using s1(3) by (auto simp: woken_def Let_def)
  have thn: "s_thread s' t = s_thread s1 t" using IH(5) nt ts by (simp add: k1_def)
  have lvt: "stat_base (th_stat (s_thread s' t)) \<noteq> 2" using w(2) thn by auto
  have "\<not> timer_activated (ThTimer t) x'"
    using IH(2) lvt by (auto simp: okc_def kinv_def kok_def)
  with w thn IH(4) ts l have a: "\<forall>t \<in> set (s_list (k_s k) h). th_error (s_thread s' t) = - RT_ERROR \<and>
       stat_base (th_stat (s_thread s' t)) \<in> {1, 3} \<and> \<not> timer_activated (ThTimer t) x'"
    by simp
  have b: "s_thread s' u = thread k u" if "u \<notin> set (s_list (k_s k) h)" for u
    using IH(5) that ts l th1 [of u] by (simp add: k1_def)
  show ?case
    using IH(1-3,6-10) lists1 a b woken_cpu [OF s1(3)] unfolding step eq1
    by (intro exI [of _ s'] exI [of _ x']) (simp add: k1_def)
qed

end
