(* ===== verification/Sample.thy ===== *)
theory Sample
  imports Blocking
begin

section \<open>A sample kernel state\<close>

text \<open>
  The state the properties of the kernel components are applied to: the threads of
  \<open>sample_sched\<close> (and thread 5, not started; thread 3 is dynamic) with their objects and timers, and at every other address an object of class
  \<open>cls\<close> whose waiters are ordered by priority.
\<close>

definition sample_objs :: "u8 \<Rightarrow> objs" where
  "sample_objs cls =
    \<lparr>ob_obj = (\<lambda>i. case i of
        Obj a \<Rightarrow> \<lparr>o_name = replicate 8 0, o_type = if a = 3 then 1 else if a \<le> 5 then 0x81 else cls OR 0x80,
                  o_flag = if a \<le> 5 then 0 else RT_IPC_FLAG_PRIO\<rparr>
      | ThTimer t \<Rightarrow> \<lparr>o_name = replicate 8 0, o_type = 0x8a, o_flag = 0\<rparr>),
     ob_container = (\<lambda>_. []),
     ob_timer = (\<lambda>i. case i of
        Obj a \<Rightarrow> \<lparr>tm_func = user_timeout 0 0, tm_init_tick = 0, tm_timeout_tick = 0\<rparr>
      | ThTimer t \<Rightarrow> \<lparr>tm_func = rt_thread_timeout t, tm_init_tick = 0, tm_timeout_tick = 0\<rparr>),
     ob_timer_list = [], ob_fired = []\<rparr>"

definition sample_kernel :: "u8 \<Rightarrow> kernel" where
  "sample_kernel cls =
    \<lparr>k_s = sample_sched 3, k_o = sample_objs cls, k_spin = (\<lambda>_. False),
     k_sem = (\<lambda>_. \<lparr>sem_value = 0\<rparr>),
     k_mutex = (\<lambda>_. \<lparr>mtx_value = 1, mtx_original_priority = 0xff, mtx_hold = 0, mtx_owner = 0\<rparr>),
     k_event = (\<lambda>_. \<lparr>ev_set = 0\<rparr>),
     k_mb = (\<lambda>_. \<lparr>mb_msg_pool = [0, 0], mb_size = 2, mb_entry = 0, mb_in_offset = 0, mb_out_offset = 0\<rparr>),
     k_mq = (\<lambda>_. \<lparr>mq_msg_pool = 16, mq_node = (\<lambda>n. \<lparr>mqm_next = if n = 32 then 16 else 0, mqm_data = replicate 8 0\<rparr>),
        mq_msg_size = 8, mq_max_msgs = 2, mq_entry = 0, mq_queue_head = 0, mq_queue_tail = 0, mq_queue_free = 32\<rparr>),
     k_mp = (\<lambda>_. \<lparr>mp_start_address = 16, mp_size = 64, mp_block_size = 24, mp_block_list = 16,
        mp_link = (\<lambda>n. if n = 16 then 48 else 0), mp_block_total_count = 2, mp_block_free_count = 2\<rparr>)\<rparr>"

lemma sample_kernel_simps [simp]:
  "k_s (sample_kernel cls) = sample_sched 3" "k_o (sample_kernel cls) = sample_objs cls"
  "k_spin (sample_kernel cls) a = False" "sem_value (k_sem (sample_kernel cls) a) = 0"
  "k_mutex (sample_kernel cls) a = \<lparr>mtx_value = 1, mtx_original_priority = 0xff, mtx_hold = 0, mtx_owner = 0\<rparr>"
  "k_event (sample_kernel cls) a = \<lparr>ev_set = 0\<rparr>"
  "k_mb (sample_kernel cls) a = \<lparr>mb_msg_pool = [0, 0], mb_size = 2, mb_entry = 0, mb_in_offset = 0, mb_out_offset = 0\<rparr>"
  by (simp_all add: sample_kernel_def)

lemma sample_objs_simps [simp]:
  "o_flag (ob_obj (sample_objs cls) (Obj a)) = (if a \<le> 5 then 0 else 1)"
  "o_flag (ob_obj (sample_objs cls) (ThTimer t)) = 0" "ob_timer_list (sample_objs cls) = []"
  "ob_container (sample_objs cls) c = []" "ob_fired (sample_objs cls) = []"
  "tm_func (ob_timer (sample_objs cls) (ThTimer t)) = rt_thread_timeout t"
  "a \<le> 5 \<Longrightarrow> rt_object_get_type (Obj a) (sample_objs cls) = RT_Object_Class_Thread"
  "rt_object_get_type (ThTimer t) (sample_objs cls) = RT_Object_Class_Timer"
  "5 < a \<Longrightarrow> rt_object_get_information cls \<Longrightarrow> rt_object_get_type (Obj a) (sample_objs cls) = cls"
  "5 < a \<Longrightarrow> rt_object_is_systemobject (Obj a) (sample_objs cls)"
proof -
  show "5 < a \<Longrightarrow> rt_object_is_systemobject (Obj a) (sample_objs cls)"
  proof -
    have "(cls OR 0x80) AND 0x80 = 0x80" by (rule bit_eqI) (auto simp: bit_simps)
    then show "5 < a \<Longrightarrow> rt_object_is_systemobject (Obj a) (sample_objs cls)"
      by (simp add: rt_object_is_systemobject_def sample_objs_def)
  qed
qed (use class_type(1) in \<open>auto simp: sample_objs_def rt_object_get_type_def split: oid.splits\<close>)

lemma sample_thread_obj [simp]: "t \<le> 5 \<Longrightarrow> thread_obj t (sample_objs cls)"
  by (simp add: thread_obj_def timer_ok_def timer_periodic_def)

lemma sample_live: "live (s_thread (sample_sched 3) t) \<longleftrightarrow> t \<in> {1, 2, 3, 4}"
  by (simp add: sample_sched_def live_def sample_thread_def)

lemma sample_kok: "kok (sample_sched 3) (sample_objs cls)"
  using sample_inv [of 3] by (auto simp: kok_def sample_live timer_activated_def)

lemma sample_okc: "okc 0 (sample_kernel cls)"
proof -
  have "all_stacks (sample_sched 3)"
    unfolding all_stacks_def sample_live
    by (auto simp: sample_sched_def sample_thread_def rt_scheduler_stack_check_def)
  then show ?thesis
    using sample_kok [of cls] by (simp add: okc_def kinv_def rt_thread_self_def)
qed

lemma sample_running [simp]: "running 0 (sample_kernel cls)" "rt_thread_self 0 (sample_kernel cls) = 1"
  "cpu_irq_nest (s_cpu (sample_sched 3) 0) = 0"
  by (simp_all add: running_def rt_thread_self_def sample_thread_def)

lemma sample_waiters [simp]: "\<not> is_ready h \<Longrightarrow> s_list (sample_sched 3) h = []"
  by (cases h) (simp_all add: sample_sched_def)

end
