(* ===== verification/Waiting.thy ===== *)
theory Waiting
  imports Sample
begin

section \<open>Blocking on, and waking from, an IPC object\<close>

text \<open>
  The two state changes all IPC components share: a call that blocks (\<open>waits\<close>) and the
  resumption of the first waiter (\<open>wakes\<close>), each with everything it changes and keeps.
\<close>

abbreviation is_obj :: "nat \<Rightarrow> u8 \<Rightarrow> kernel \<Rightarrow> bool" where
  "is_obj a cls k \<equiv> rt_object_get_type (Obj a) (k_o k) = cls"

abbreviation obj_flag :: "nat \<Rightarrow> kernel \<Rightarrow> u8" where
  "obj_flag a k \<equiv> o_flag (ob_obj (k_o k) (Obj a))"

definition set_obj_flag :: "nat \<Rightarrow> u8 \<Rightarrow> kernel \<Rightarrow> kernel" where
  "set_obj_flag a flag = on_o (upd_obj (Obj a) (\<lambda>ob. ob\<lparr>o_flag := flag\<rparr>))"

text \<open>
  What a blocking call does from the moment it holds the spin lock: the running thread joins
  the waiting list in its place, with its timer started exactly for a positive \<open>time\<close>, releases
  the lock and gives way.
\<close>

definition waits :: "nat \<Rightarrow> lhead \<Rightarrow> nat \<Rightarrow> u8 \<Rightarrow> int \<Rightarrow> kernel \<Rightarrow> kernel \<Rightarrow> bool" where
  "waits c h t flag time k k' \<longleftrightarrow>
     (\<forall>g. \<not> is_ready g \<longrightarrow> s_list (k_s k') g = (if g = h
        then enq flag (\<lambda>u. th_current_priority (thread k u)) t (s_list (k_s k) h) else s_list (k_s k) g)) \<and>
     stat_base (th_stat (thread k' t)) = RT_THREAD_SUSPEND \<and> th_error (thread k' t) = RT_EOK \<and>
     (timer_activated (ThTimer t) (k_o k') \<longleftrightarrow> 0 < time) \<and>
     (0 < time \<longrightarrow> tm_timeout_tick (ob_timer (k_o k') (ThTimer t)) = rt_tick_get c k + of_int time) \<and>
     (\<forall>i. rt_object_get_type i (k_o k') = rt_object_get_type i (k_o k)) \<and>
     (\<forall>i. rt_object_is_systemobject i (k_o k') = rt_object_is_systemobject i (k_o k)) \<and>
     (\<forall>b. obj_flag b k' = obj_flag b k) \<and> (\<forall>u. u \<noteq> t \<longrightarrow> same_run (thread k u) (thread k' u)) \<and>
     th_event_set (thread k' t) = th_event_set (thread k t) \<and>
     th_event_info (thread k' t) = th_event_info (thread k t)"

lemma waits_spin [simp]:
  "waits c h t flag time (k\<lparr>k_spin := x1\<rparr>) k' = waits c h t flag time k k'"
  "waits c h t flag time k (k'\<lparr>k_spin := x1\<rparr>) = waits c h t flag time k k'"
  by (simp_all add: waits_def rt_tick_get_def)

lemma set_error_simps:
  "rt_thread_self c (set_error t e k) = rt_thread_self c k" "rt_tick_get c (set_error t e k) = rt_tick_get c k"
  "running c (set_error t e k) = running c k"
  "th_current_priority (thread (set_error t e k) u) = th_current_priority (thread k u)"
  by (simp_all add: rt_thread_self_def rt_tick_get_def running_def)

lemma joined_block_ok:
  assumes ok: "okc c k" "running c k" and time: "time < 0x7fffffff"
  defines "t \<equiv> rt_thread_self c k" and "x' \<equiv> timed c (rt_thread_self c k) time k"
  assumes err: "th_error (thread k t) = RT_EOK"
    and s1: "okc c (k\<lparr>k_s := s1, k_o := x'\<rparr>)" "joined c h t flag (k_s k) s1"
  shows "\<exists>s'. block c (k\<lparr>k_s := s1, k_o := x', k_spin := sp\<rparr>) = Some (None :: 'r option, k\<lparr>k_s := s', k_o := x', k_spin := sp\<rparr>) \<and>
    okc c (k\<lparr>k_s := s', k_o := x', k_spin := sp\<rparr>) \<and> waits c h t flag time k (k\<lparr>k_s := s', k_o := x', k_spin := sp\<rparr>)"
proof -
  let ?k1 = "k\<lparr>k_s := s1, k_o := x', k_spin := sp\<rparr>"
  have ok1: "okc c ?k1" using s1(1) by simp
  obtain s' where s': "block c ?k1 = Some (None :: 'r option, ?k1\<lparr>k_s := s'\<rparr>)" "okc c (?k1\<lparr>k_s := s'\<rparr>)"
    "sframe (k_s ?k1) s'" "\<forall>h. \<not> is_ready h \<longrightarrow> s_list s' h = s_list (k_s ?k1) h"
    using block_ok [OF ok1] by blast
  have eq: "?k1\<lparr>k_s := s'\<rparr> = k\<lparr>k_s := s', k_o := x', k_spin := sp\<rparr>" by simp
  have tne: "t \<noteq> 0" using ok by (simp add: okc_def t_def)
  have "live (thread k t)" using ok(2) by (simp add: running_def t_def live_def)
  then have "thread_obj t (k_o k)" using okc_kok [OF ok(1)] tne kok_obj by blast
  then have tok: "timer_ok (ThTimer t) (k_o k)" by (simp add: thread_obj_def)
  have na: "\<not> timer_activated (ThTimer t) (k_o k)"
    using okc_kok [OF ok(1)] ok(2) by (auto simp: kok_def running_def t_def)
  have st1: "s_thread s1 = (s_thread (k_s k))(t := with_stat 2 (thread k t))"
    "s_list s1 = (s_list (k_s k))(h := enq flag (\<lambda>u. th_current_priority (thread k u)) t (s_list (k_s k) h))"
    using s1(2) by (simp_all add: joined_def)
  have run: "same_run (s_thread s1 u) (s_thread s' u)" for u
    using s'(3) by (simp add: sframe_def)
  have x: "timer_activated (ThTimer t) x' \<longleftrightarrow> 0 < time"
    "0 < time \<longrightarrow> tm_timeout_tick (ob_timer x' (ThTimer t)) = rt_tick_get c k + of_int time"
    "rt_object_get_type i x' = rt_object_get_type i (k_o k)"
    "rt_object_is_systemobject i x' = rt_object_is_systemobject i (k_o k)"
    "o_flag (ob_obj x' (Obj a)) = o_flag (ob_obj (k_o k) (Obj a))" for i a
    using started_facts [OF tok of_int_tick(1) [OF _ time]] na
    by (auto simp: x'_def timed_def t_def)
  have "stat_base (th_stat (s_thread s' t)) = 2 \<and> th_error (s_thread s' t) = 0 \<and>
      th_event_set (s_thread s' t) = th_event_set (thread k t) \<and>
      th_event_info (s_thread s' t) = th_event_info (thread k t)"
    using run [of t] err by (auto simp: same_run_def same_data_def st1)
  moreover have "same_run (thread k u) (s_thread s' u)" if "u \<noteq> t" for u
    using run [of u] that by (simp add: st1)
  moreover have "s_list s' g = (if g = h then enq flag (\<lambda>u. th_current_priority (thread k u)) t (s_list (k_s k) h)
      else s_list (k_s k) g)" if "\<not> is_ready g" for g
    using s'(4) that by (simp add: st1)
  ultimately have "waits c h t flag time k (k\<lparr>k_s := s', k_o := x', k_spin := sp\<rparr>)"
    using x by (simp add: waits_def)
  then show ?thesis using s'(1,2) unfolding eq by (intro exI [of _ s']) simp
qed

lemma wait_ok:
  assumes ok: "okc c k" "running c k" and h: "\<not> is_ready h" "h \<noteq> Defunct"
    and fl: "flag \<in> {RT_IPC_FLAG_FIFO, RT_IPC_FLAG_PRIO}" and time: "time < 0x7fffffff"
  defines "t \<equiv> rt_thread_self c k"
  assumes err: "th_error (thread k t) = RT_EOK"
  shows "\<exists>s' x'. do { k1 \<leftarrow> ipc_wait c h t flag time k; block c (spinlock_unlock b k1) } =
      Some (None :: 'r option, k\<lparr>k_s := s', k_o := x', k_spin := (k_spin k)(b := False)\<rparr>) \<and>
    okc c (k\<lparr>k_s := s', k_o := x', k_spin := (k_spin k)(b := False)\<rparr>) \<and>
    waits c h t flag time k (k\<lparr>k_s := s', k_o := x', k_spin := (k_spin k)(b := False)\<rparr>)"
proof -
  from ipc_wait_ok [OF ok h fl time, folded t_def]
  obtain s1 where s1: "ipc_wait c h t flag time k = Some (k\<lparr>k_s := s1, k_o := timed c t time k\<rparr>)"
    "okc c (k\<lparr>k_s := s1, k_o := timed c t time k\<rparr>)" "joined c h t flag (k_s k) s1"
    by blast
  then show ?thesis
    using joined_block_ok [OF ok time, folded t_def, OF err s1(2,3), of "(k_spin k)(b := False)"]
    by (auto simp: spinlock_unlock_def)
qed

lemma waits_set_error [simp]: "waits c h t flag time (set_error t e k) k' = waits c h t flag time k k'"
proof -
  have "(\<lambda>u. th_current_priority (thread (set_error t e k) u)) = (\<lambda>u. th_current_priority (thread k u))"
    by (rule ext) (simp only: set_error_simps)
  then show ?thesis unfolding waits_def by (simp add: set_error_simps)
qed

lemma wait_block_ok:
  assumes ok: "okc c k" "running c k" and h: "\<not> is_ready h" "h \<noteq> Defunct"
    and fl: "flag \<in> {RT_IPC_FLAG_FIFO, RT_IPC_FLAG_PRIO}" and time: "time < 0x7fffffff"
  defines "t \<equiv> rt_thread_self c k"
  shows "\<exists>s' x'. do { k1 \<leftarrow> ipc_wait c h t flag time (set_error t RT_EOK k); block c (spinlock_unlock b k1) } =
      Some (None :: 'r option, k\<lparr>k_s := s', k_o := x', k_spin := (k_spin k)(b := False)\<rparr>) \<and>
    okc c (k\<lparr>k_s := s', k_o := x', k_spin := (k_spin k)(b := False)\<rparr>) \<and>
    waits c h t flag time k (k\<lparr>k_s := s', k_o := x', k_spin := (k_spin k)(b := False)\<rparr>)"
proof -
  let ?k = "set_error t RT_EOK k"
  have okk: "okc c ?k" "running c ?k" using ok by (simp_all only: set_error_ok set_error_simps)
  have self: "rt_thread_self c ?k = t" by (simp add: set_error_simps t_def)
  have err: "th_error (thread ?k (rt_thread_self c ?k)) = RT_EOK" by (simp add: self)
  have eq: "?k\<lparr>k_s := s', k_o := x', k_spin := (k_spin ?k)(b := False)\<rparr> =
      k\<lparr>k_s := s', k_o := x', k_spin := (k_spin k)(b := False)\<rparr>" for s' x' by (simp add: on_s_def)
  show ?thesis
    using wait_ok [OF okk h fl time err, of b] unfolding eq self waits_set_error .
qed

text \<open>The same for the components that have no spin lock of their own.\<close>

lemma wait_plain_ok:
  assumes ok: "okc c k" "running c k" and h: "\<not> is_ready h" "h \<noteq> Defunct"
    and fl: "flag \<in> {RT_IPC_FLAG_FIFO, RT_IPC_FLAG_PRIO}" and time: "time < 0x7fffffff"
  defines "t \<equiv> rt_thread_self c k"
  shows "\<exists>s' x'. do { k1 \<leftarrow> ipc_wait c h t flag time (set_error t RT_EOK k); block c k1 } =
      Some (None :: 'r option, k\<lparr>k_s := s', k_o := x'\<rparr>) \<and>
    okc c (k\<lparr>k_s := s', k_o := x'\<rparr>) \<and> waits c h t flag time k (k\<lparr>k_s := s', k_o := x'\<rparr>)"
proof -
  let ?k = "set_error t RT_EOK k"
  have okk: "okc c ?k" "running c ?k" using ok by (simp_all only: set_error_ok set_error_simps)
  have self: "rt_thread_self c ?k = t" by (simp add: set_error_simps t_def)
  have err: "th_error (thread ?k (rt_thread_self c ?k)) = RT_EOK" by (simp add: self)
  obtain s1 where s1: "ipc_wait c h t flag time ?k = Some (?k\<lparr>k_s := s1, k_o := timed c t time ?k\<rparr>)"
    "okc c (?k\<lparr>k_s := s1, k_o := timed c t time ?k\<rparr>)" "joined c h t flag (k_s ?k) s1"
    using ipc_wait_ok [OF okk h fl time, unfolded self] by blast
  have eq: "?k\<lparr>k_s := s', k_o := x', k_spin := k_spin ?k\<rparr> = k\<lparr>k_s := s', k_o := x'\<rparr>" for s' x' by (simp add: on_s_def)
  have eq1: "?k\<lparr>k_s := s', k_o := x'\<rparr> = k\<lparr>k_s := s', k_o := x'\<rparr>" for s' x' by (simp add: on_s_def)
  obtain s' where "block c (k\<lparr>k_s := s1, k_o := timed c t time ?k\<rparr>) = Some (None :: 'r option, k\<lparr>k_s := s', k_o := timed c t time ?k\<rparr>)"
    "okc c (k\<lparr>k_s := s', k_o := timed c t time ?k\<rparr>)" "waits c h t flag time k (k\<lparr>k_s := s', k_o := timed c t time ?k\<rparr>)"
    using joined_block_ok [OF okk time err, unfolded self, OF s1(2,3), of "k_spin ?k"] unfolding eq waits_set_error by blast
  then show ?thesis unfolding s1(1) eq1 by auto
qed

text \<open>Resuming the first waiter, releasing the lock and calling the scheduler.\<close>

definition wakes :: "lhead \<Rightarrow> nat \<Rightarrow> nat list \<Rightarrow> kernel \<Rightarrow> kernel \<Rightarrow> bool" where
  "wakes h t ts k k' \<longleftrightarrow>
     (\<forall>g. \<not> is_ready g \<longrightarrow> s_list (k_s k') g = (if g = h then ts else s_list (k_s k) g)) \<and>
     stat_base (th_stat (thread k' t)) \<in> {RT_THREAD_READY, RT_THREAD_RUNNING} \<and>
     th_error (thread k' t) = th_error (thread k t) \<and> \<not> timer_activated (ThTimer t) (k_o k') \<and>
     (\<forall>i. rt_object_get_type i (k_o k') = rt_object_get_type i (k_o k)) \<and>
     (\<forall>b. obj_flag b k' = obj_flag b k) \<and> (\<forall>u. u \<noteq> t \<longrightarrow> same_run (thread k u) (thread k' u)) \<and>
     th_event_set (thread k' t) = th_event_set (thread k t) \<and>
     th_event_info (thread k' t) = th_event_info (thread k t)"

lemma wakes_other: "wakes h t ts k k' \<Longrightarrow> u \<noteq> t \<Longrightarrow> same_run (thread k u) (thread k' u)"
  unfolding wakes_def by blast

lemma wakes_list: "wakes h t ts k k' \<Longrightarrow> \<not> is_ready g \<Longrightarrow> s_list (k_s k') g = (if g = h then ts else s_list (k_s k) g)"
  unfolding wakes_def by blast

lemma wakes_spin [simp]:
  "wakes h t ts (k\<lparr>k_spin := x1\<rparr>) k' = wakes h t ts k k'"
  "wakes h t ts k (k'\<lparr>k_spin := x1\<rparr>) = wakes h t ts k k'"
  by (simp_all add: wakes_def)

lemma woken_schedule_ok:
  assumes h: "\<not> is_ready h"
    and s1: "okc c (k\<lparr>k_s := s1, k_o := stopped t (k_o k)\<rparr>)" "woken t (k_s k) s1"
      "\<forall>g. \<not> is_ready g \<longrightarrow> s_list s1 g = (if g = h then ts else s_list (k_s k) g)"
  defines "x' \<equiv> stopped t (k_o k)"
  shows "\<exists>s'. kschedule c (k\<lparr>k_s := s1, k_o := x', k_spin := sp\<rparr>) = Some (k\<lparr>k_s := s', k_o := x', k_spin := sp\<rparr>) \<and>
    okc c (k\<lparr>k_s := s', k_o := x', k_spin := sp\<rparr>) \<and> wakes h t ts k (k\<lparr>k_s := s', k_o := x', k_spin := sp\<rparr>)"
proof -
  let ?k1 = "k\<lparr>k_s := s1, k_o := x', k_spin := sp\<rparr>"
  have ok1: "okc c ?k1" using s1(1) by (simp add: x'_def)
  obtain s' where s': "kschedule c ?k1 = Some (?k1\<lparr>k_s := s'\<rparr>)" "okc c (?k1\<lparr>k_s := s'\<rparr>)"
    "sframe (k_s ?k1) s'" "\<forall>h. \<not> is_ready h \<longrightarrow> s_list s' h = s_list (k_s ?k1) h"
    using kschedule_ok [OF ok1] by blast
  have eq: "?k1\<lparr>k_s := s'\<rparr> = k\<lparr>k_s := s', k_o := x', k_spin := sp\<rparr>" by simp
  have run: "same_run (s_thread s1 u) (s_thread s' u)" for u
    using s'(3) by (simp add: sframe_def)
  have th: "s_thread s1 = (s_thread (k_s k))(t := with_stat (if th_oncpu (thread k t) = 2 then 1 else 3) (thread k t))"
    using s1(2) by (simp add: woken_def Let_def)
  have "stat_base (th_stat (s_thread s' t)) \<in> {1, 3} \<and> th_error (s_thread s' t) = th_error (thread k t) \<and>
      th_event_set (s_thread s' t) = th_event_set (thread k t) \<and>
      th_event_info (s_thread s' t) = th_event_info (thread k t)"
    using run [of t] by (auto simp: same_run_def same_data_def th split: if_splits)
  moreover have "same_run (thread k u) (s_thread s' u)" if "u \<noteq> t" for u
    using run [of u] that by (simp add: th)
  ultimately have "wakes h t ts k (k\<lparr>k_s := s', k_o := x', k_spin := sp\<rparr>)"
    using s1(3) s'(4) by (simp add: wakes_def x'_def)
  then show ?thesis using s'(1,2) unfolding eq by (intro exI [of _ s']) simp
qed

lemma wake_ok:
  assumes ok: "okc c k" and h: "\<not> is_ready h" "h \<noteq> Defunct" and l: "s_list (k_s k) h = t # ts"
  shows "\<exists>s' x'. do { k1 \<leftarrow> ipc_list_resume c h k; kschedule c (spinlock_unlock b k1) } =
      Some (k\<lparr>k_s := s', k_o := x', k_spin := (k_spin k)(b := False)\<rparr>) \<and>
    okc c (k\<lparr>k_s := s', k_o := x', k_spin := (k_spin k)(b := False)\<rparr>) \<and>
    wakes h t ts k (k\<lparr>k_s := s', k_o := x', k_spin := (k_spin k)(b := False)\<rparr>)"
proof -
  obtain s1 where s1: "ipc_list_resume c h k = Some (k\<lparr>k_s := s1, k_o := stopped t (k_o k)\<rparr>)"
    "okc c (k\<lparr>k_s := s1, k_o := stopped t (k_o k)\<rparr>)" "woken t (k_s k) s1"
    "\<forall>g. \<not> is_ready g \<longrightarrow> s_list s1 g = (if g = h then ts else s_list (k_s k) g)"
    using ipc_list_resume_ok [OF ok l h] by blast
  then show ?thesis
    using woken_schedule_ok [OF h(1) s1(2-4), of "(k_spin k)(b := False)"] by (auto simp: spinlock_unlock_def)
qed

lemma wake_plain_ok:
  assumes ok: "okc c k" and h: "\<not> is_ready h" "h \<noteq> Defunct" and l: "s_list (k_s k) h = t # ts"
  shows "\<exists>s' x'. do { k1 \<leftarrow> ipc_list_resume c h k; kschedule c k1 } = Some (k\<lparr>k_s := s', k_o := x'\<rparr>) \<and>
    okc c (k\<lparr>k_s := s', k_o := x'\<rparr>) \<and> wakes h t ts k (k\<lparr>k_s := s', k_o := x'\<rparr>)"
proof -
  obtain s1 where s1: "ipc_list_resume c h k = Some (k\<lparr>k_s := s1, k_o := stopped t (k_o k)\<rparr>)"
    "okc c (k\<lparr>k_s := s1, k_o := stopped t (k_o k)\<rparr>)" "woken t (k_s k) s1"
    "\<forall>g. \<not> is_ready g \<longrightarrow> s_list s1 g = (if g = h then ts else s_list (k_s k) g)"
    using ipc_list_resume_ok [OF ok l h] by blast
  have eq: "k\<lparr>k_s := s', k_o := x', k_spin := k_spin k\<rparr> = k\<lparr>k_s := s', k_o := x'\<rparr>" for s' x' by simp
  show ?thesis using woken_schedule_ok [OF h(1) s1(2-4), of "k_spin k"] s1(1) unfolding eq by auto
qed

text \<open>Taking the lock, running a body that ends by releasing it, is the body's change alone.\<close>

lemma spin_restored: "\<not> k_spin k a \<Longrightarrow> (k_spin k)(a := False) = k_spin k"
  by (simp add: fun_upd_idem)

lemma in_context:
  "cpu_irq_nest (s_cpu (k_s k) c) = 0 \<Longrightarrow> not_in_interrupt c k = Some ()"
  "cpu_irq_nest (s_cpu (k_s k) c) = 0 \<Longrightarrow> rt_thread_self c k \<noteq> 0 \<Longrightarrow> in_thread_context c k = Some ()"
  by (simp_all add: not_in_interrupt_def in_thread_context_def rt_interrupt_get_nest_def)

lemma okc_self: "okc c k \<Longrightarrow> rt_thread_self c k \<noteq> 0"
  by (simp add: okc_def)

end
