(* ===== verification/Sem.thy ===== *)
theory Sem
  imports Waiting
begin

section \<open>Semaphores (\<open>src/ipc.c\<close>)\<close>

text \<open>
  \<open>rt_sem_init\<close> to \<open>rt_sem_control\<close>.  A semaphore is its 16-bit value and a waiting list; the
  invariant is that nobody waits while the value is positive.
\<close>

definition upd_sem :: "nat \<Rightarrow> u16 \<Rightarrow> kernel \<Rightarrow> kernel" where
  "upd_sem a v k = k\<lparr>k_sem := (k_sem k)(a := \<lparr>sem_value = v\<rparr>)\<rparr>"

definition rt_sem_init :: "nat \<Rightarrow> u8 list \<Rightarrow> u32 \<Rightarrow> u8 \<Rightarrow> kernel \<Rightarrow> (rt_err \<times> kernel) option" where
  "rt_sem_init a name value flag k =
     do { rt_assert (a \<noteq> 0);
          rt_assert (value < 0x10000);
          rt_assert (flag = RT_IPC_FLAG_FIFO \<or> flag = RT_IPC_FLAG_PRIO);
          k \<leftarrow> lift_o (rt_object_init (Obj a) RT_Object_Class_Semaphore name) k;
          Some (RT_EOK, set_obj_flag a flag (upd_sem a (ucast value) (ipc_object_init a k))) }"

definition rt_sem_detach :: "nat \<Rightarrow> nat \<Rightarrow> kernel \<Rightarrow> (rt_err \<times> kernel) option" where
  "rt_sem_detach c a k =
     do { rt_assert (a \<noteq> 0);
          rt_assert (is_obj a RT_Object_Class_Semaphore k);
          rt_assert (rt_object_is_systemobject (Obj a) (k_o k));
          k \<leftarrow> ipc_list_resume_all c (Suspend a) k;
          k \<leftarrow> lift_o (rt_object_detach (Obj a)) k;
          Some (RT_EOK, k) }"

definition rt_sem_create :: "nat \<Rightarrow> nat \<Rightarrow> u8 list \<Rightarrow> u32 \<Rightarrow> u8 \<Rightarrow> kernel \<Rightarrow> (nat \<times> kernel) option" where
  "rt_sem_create c mem name value flag k =
     do { rt_assert (value < 0x10000);
          rt_assert (flag = RT_IPC_FLAG_FIFO \<or> flag = RT_IPC_FLAG_PRIO);
          not_in_interrupt c k;
          (a, x) \<leftarrow> rt_object_allocate mem RT_Object_Class_Semaphore name (k_o k);
          let k = k\<lparr>k_o := x\<rparr>;
          (if a = 0 then Some (0, k)
           else Some (a, set_obj_flag a flag (upd_sem a (ucast value) (ipc_object_init a k)))) }"

definition rt_sem_delete :: "nat \<Rightarrow> nat \<Rightarrow> kernel \<Rightarrow> (rt_err \<times> kernel) option" where
  "rt_sem_delete c a k =
     do { rt_assert (a \<noteq> 0);
          rt_assert (is_obj a RT_Object_Class_Semaphore k);
          rt_assert (\<not> rt_object_is_systemobject (Obj a) (k_o k));
          not_in_interrupt c k;
          k \<leftarrow> ipc_list_resume_all c (Suspend a) k;
          k \<leftarrow> lift_o (rt_object_delete (Obj a)) k;
          Some (RT_EOK, k) }"

definition rt_sem_take :: "nat \<Rightarrow> nat \<Rightarrow> int \<Rightarrow> kernel \<Rightarrow> (rt_err option \<times> kernel) option" where
  "rt_sem_take c a time k =
     do { rt_assert (a \<noteq> 0);
          rt_assert (is_obj a RT_Object_Class_Semaphore k);
          k \<leftarrow> spinlock_lock a k;
          (if 0 < sem_value (k_sem k a)
           then Some (Some RT_EOK, spinlock_unlock a (upd_sem a (sem_value (k_sem k a) - 1) k))
           else if time = 0 then Some (Some (- RT_ETIMEOUT), spinlock_unlock a k)
           else do {
             in_thread_context c k;
             let t = rt_thread_self c k;
             let k = set_error t RT_EOK k;
             k \<leftarrow> ipc_wait c (Suspend a) t (obj_flag a k) time k;
             block c (spinlock_unlock a k) }) }"

definition rt_sem_take_resumed :: "nat \<Rightarrow> kernel \<Rightarrow> rt_err" where
  "rt_sem_take_resumed t k = (if th_error (thread k t) \<noteq> RT_EOK then th_error (thread k t) else RT_EOK)"

definition rt_sem_trytake :: "nat \<Rightarrow> nat \<Rightarrow> kernel \<Rightarrow> (rt_err option \<times> kernel) option" where
  "rt_sem_trytake c a k = rt_sem_take c a 0 k"

definition rt_sem_release :: "nat \<Rightarrow> nat \<Rightarrow> kernel \<Rightarrow> (rt_err \<times> kernel) option" where
  "rt_sem_release c a k =
     do { rt_assert (a \<noteq> 0);
          rt_assert (is_obj a RT_Object_Class_Semaphore k);
          k \<leftarrow> spinlock_lock a k;
          (if s_list (k_s k) (Suspend a) \<noteq> []
           then do {
             k \<leftarrow> ipc_list_resume c (Suspend a) k;
             k \<leftarrow> kschedule c (spinlock_unlock a k);
             Some (RT_EOK, k) }
           else if sem_value (k_sem k a) < 0xffff
           then Some (RT_EOK, spinlock_unlock a (upd_sem a (sem_value (k_sem k a) + 1) k))
           else Some (- RT_EFULL, spinlock_unlock a k)) }"

text \<open>\<open>arg\<close> is \<open>Some v\<close> for \<open>RT_IPC_CMD_RESET\<close> with the new value \<open>v\<close>, \<open>None\<close> for any other command.\<close>

definition rt_sem_control :: "nat \<Rightarrow> nat \<Rightarrow> u64 option \<Rightarrow> kernel \<Rightarrow> (rt_err \<times> kernel) option" where
  "rt_sem_control c a arg k =
     do { rt_assert (a \<noteq> 0);
          rt_assert (is_obj a RT_Object_Class_Semaphore k);
          (case arg of
             None \<Rightarrow> Some (- RT_ERROR, k)
           | Some value \<Rightarrow> do {
               k \<leftarrow> ipc_list_resume_all c (Suspend a) k;
               k \<leftarrow> kschedule c (upd_sem a (ucast value) k);
               Some (RT_EOK, k) }) }"

subsection \<open>Selectors\<close>

lemma upd_sem_simps [simp]:
  "k_s (upd_sem a v k) = k_s k" "k_o (upd_sem a v k) = k_o k" "k_spin (upd_sem a v k) = k_spin k"
  "k_sem (upd_sem a v k) = (k_sem k)(a := \<lparr>sem_value = v\<rparr>)" "okc c (upd_sem a v k) = okc c k"
  "rt_thread_self c (upd_sem a v k) = rt_thread_self c k"
  by (simp_all add: upd_sem_def)


subsection \<open>What taking and releasing do\<close>

definition sem_ok :: "nat \<Rightarrow> kernel \<Rightarrow> bool" where
  "sem_ok a k \<longleftrightarrow> a \<noteq> 0 \<and> is_obj a RT_Object_Class_Semaphore k \<and>
     obj_flag a k \<in> {RT_IPC_FLAG_FIFO, RT_IPC_FLAG_PRIO} \<and> \<not> k_spin k a \<and>
     (s_list (k_s k) (Suspend a) \<noteq> [] \<longrightarrow> sem_value (k_sem k a) = 0)"

lemma upd_sem_unlock: "\<not> k_spin k a \<Longrightarrow>
    spinlock_unlock a (upd_sem a v (k\<lparr>k_spin := (k_spin k)(a := True)\<rparr>)) = upd_sem a v k"
  by (simp add: spinlock_unlock_def upd_sem_def spin_restored)

lemma sem_take_waits:
  assumes "okc c k" "running c k" "sem_ok a k" "cpu_irq_nest (s_cpu (k_s k) c) = 0" "time < 0x7fffffff"
    and "sem_value (k_sem k a) = 0" "time \<noteq> 0"
  shows "\<exists>s' x'. rt_sem_take c a time k = Some (None, k\<lparr>k_s := s', k_o := x'\<rparr>) \<and>
    okc c (k\<lparr>k_s := s', k_o := x'\<rparr>) \<and>
    waits c (Suspend a) (rt_thread_self c k) (obj_flag a k) time k (k\<lparr>k_s := s', k_o := x'\<rparr>)"
proof -
  let ?k = "k\<lparr>k_spin := (k_spin k)(a := True)\<rparr>"
  have sp: "\<not> k_spin k a" using assms(3) by (simp add: sem_ok_def)
  have pre: "okc c ?k" "running c ?k" "k_spin ?k a" "obj_flag a ?k \<in> {0, 1}"
    using assms(1-3) by (simp_all add: running_def sem_ok_def)
  obtain s' x' where w: "do { k1 \<leftarrow> ipc_wait c (Suspend a) (rt_thread_self c ?k) (obj_flag a ?k) time
        (set_error (rt_thread_self c ?k) RT_EOK ?k); block c (spinlock_unlock a k1) } =
      Some (None :: rt_err option, ?k\<lparr>k_s := s', k_o := x', k_spin := (k_spin ?k)(a := False)\<rparr>)"
    "okc c (?k\<lparr>k_s := s', k_o := x', k_spin := (k_spin ?k)(a := False)\<rparr>)"
    "waits c (Suspend a) (rt_thread_self c ?k) (obj_flag a ?k) time ?k
       (?k\<lparr>k_s := s', k_o := x', k_spin := (k_spin ?k)(a := False)\<rparr>)"
    using wait_block_ok [OF pre(1,2) _ _ pre(4) assms(5), of "Suspend a" a] by auto
  have eq: "?k\<lparr>k_s := s', k_o := x', k_spin := (k_spin ?k)(a := False)\<rparr> = k\<lparr>k_s := s', k_o := x'\<rparr>"
    using sp by (simp add: spin_restored)
  have "in_thread_context c ?k = Some ()"
    using in_context(2) [of ?k c] assms(4) okc_self [OF pre(1)] by simp
  moreover have "obj_flag a (set_error (rt_thread_self c ?k) RT_EOK ?k) = obj_flag a ?k" by simp
  ultimately have "rt_sem_take c a time k = Some (None, k\<lparr>k_s := s', k_o := x'\<rparr>)"
    using w(1) sp assms(3,6,7) unfolding eq by (simp add: rt_sem_take_def sem_ok_def)
  with w(2,3) show ?thesis unfolding eq by (intro exI [of _ s'] exI [of _ x']) simp
qed

text \<open>C29: \<open>rt_sem_take\<close>: with a positive value it takes one and returns; with value 0 it reports
  a time-out at once when it may not wait, and otherwise the calling thread, suspended, takes
  its place in the waiting list, with its timer running exactly if a time was given.  Nobody
  waits for a semaphore with a positive value.\<close>

theorem rt_sem_take_spec:
  assumes "okc c k" "running c k" "sem_ok a k" "cpu_irq_nest (s_cpu (k_s k) c) = 0" "time < 0x7fffffff"
  shows "\<exists>r k'. rt_sem_take c a time k = Some (r, k') \<and> okc c k' \<and> sem_ok a k' \<and>
    (0 < sem_value (k_sem k a) \<longrightarrow> r = Some RT_EOK \<and> k' = upd_sem a (sem_value (k_sem k a) - 1) k) \<and>
    (sem_value (k_sem k a) = 0 \<and> time = 0 \<longrightarrow> r = Some (- RT_ETIMEOUT) \<and> k' = k) \<and>
    (sem_value (k_sem k a) = 0 \<and> time \<noteq> 0 \<longrightarrow> r = None \<and> k_sem k' = k_sem k \<and>
       waits c (Suspend a) (rt_thread_self c k) (obj_flag a k) time k k')"
proof -
  have sp: "\<not> k_spin k a" and ty: "a \<noteq> 0" "is_obj a RT_Object_Class_Semaphore k"
    using assms(3) by (simp_all add: sem_ok_def)
  consider (pos) "0 < sem_value (k_sem k a)" | (now) "sem_value (k_sem k a) = 0" "time = 0"
    | (wait) "sem_value (k_sem k a) = 0" "time \<noteq> 0"
    by (metis word_gt_0)
  then show ?thesis
  proof cases
    case pos
    then have "rt_sem_take c a time k = Some (Some RT_EOK, upd_sem a (sem_value (k_sem k a) - 1) k)"
      using sp ty by (simp add: rt_sem_take_def upd_sem_unlock)
    with pos assms show ?thesis by (auto simp: sem_ok_def)
  next
    case now
    then have "rt_sem_take c a time k = Some (Some (- RT_ETIMEOUT), k)"
      using sp ty by (simp add: rt_sem_take_def spin_unlock_lock)
    with now assms show ?thesis by auto
  next
    case wait
    obtain s' x' where w: "rt_sem_take c a time k = Some (None, k\<lparr>k_s := s', k_o := x'\<rparr>)"
      "okc c (k\<lparr>k_s := s', k_o := x'\<rparr>)"
      "waits c (Suspend a) (rt_thread_self c k) (obj_flag a k) time k (k\<lparr>k_s := s', k_o := x'\<rparr>)"
      using sem_take_waits [OF assms wait] by blast
    have "sem_ok a (k\<lparr>k_s := s', k_o := x'\<rparr>)"
      using assms(3) w(3) wait(1) by (simp add: sem_ok_def waits_def)
    with w wait show ?thesis by (intro exI [of _ "None"] exI [of _ "k\<lparr>k_s := s', k_o := x'\<rparr>"]) simp
  qed
qed

lemma sample_sem_ok: "sem_ok 100 (sample_kernel RT_Object_Class_Semaphore)"
  by (simp add: sem_ok_def rt_object_get_information_def)

lemma rt_sem_take_spec_witness:
  "\<exists>k'. rt_sem_take 0 100 7 (sample_kernel 2) = Some (None, k') \<and> s_list (k_s k') (Suspend 100) = [1]"
  using rt_sem_take_spec [OF sample_okc sample_running(1) sample_sem_ok, of 7]
  by (auto simp: waits_def enq_def)

lemma sem_release_ok:
  assumes "okc c k" "sem_ok a k"
  shows "\<exists>r k'. rt_sem_release c a k = Some (r, k') \<and> okc c k' \<and> sem_ok a k' \<and>
    (\<forall>t ts. s_list (k_s k) (Suspend a) = t # ts \<longrightarrow> r = RT_EOK \<and> k_sem k' = k_sem k \<and>
       wakes (Suspend a) t ts k k' \<and>
       (th_error (thread k t) = RT_EOK \<longrightarrow> rt_sem_take_resumed t k' = RT_EOK)) \<and>
    (s_list (k_s k) (Suspend a) = [] \<and> sem_value (k_sem k a) < 0xffff \<longrightarrow>
       r = RT_EOK \<and> k' = upd_sem a (sem_value (k_sem k a) + 1) k) \<and>
    (s_list (k_s k) (Suspend a) = [] \<and> sem_value (k_sem k a) = 0xffff \<longrightarrow> r = - RT_EFULL \<and> k' = k)"
proof (cases "s_list (k_s k) (Suspend a)")
  case Nil
  then show ?thesis
    using assms by (auto simp: sem_ok_def rt_sem_release_def upd_sem_unlock spin_unlock_lock)
next
  case (Cons t ts)
  let ?k = "k\<lparr>k_spin := (k_spin k)(a := True)\<rparr>"
  have sp: "\<not> k_spin k a" using assms(2) by (simp add: sem_ok_def)
  have pre: "okc c ?k" "s_list (k_s ?k) (Suspend a) = t # ts" using assms(1) Cons by simp_all
  obtain s' x' where w: "do { k1 \<leftarrow> ipc_list_resume c (Suspend a) ?k; kschedule c (spinlock_unlock a k1) } =
      Some (?k\<lparr>k_s := s', k_o := x', k_spin := (k_spin ?k)(a := False)\<rparr>)"
    "okc c (?k\<lparr>k_s := s', k_o := x', k_spin := (k_spin ?k)(a := False)\<rparr>)"
    "wakes (Suspend a) t ts ?k (?k\<lparr>k_s := s', k_o := x', k_spin := (k_spin ?k)(a := False)\<rparr>)"
    using wake_ok [OF pre(1) _ _ pre(2), of a] by auto
  have eq: "?k\<lparr>k_s := s', k_o := x', k_spin := (k_spin ?k)(a := False)\<rparr> = k\<lparr>k_s := s', k_o := x'\<rparr>"
    using sp by (simp add: spin_restored)
  let ?k' = "k\<lparr>k_s := s', k_o := x'\<rparr>"
  have wk: "wakes (Suspend a) t ts k ?k'" using w(3) unfolding eq by simp
  have "rt_sem_release c a k = do { k \<leftarrow> do { k1 \<leftarrow> ipc_list_resume c (Suspend a) ?k; kschedule c (spinlock_unlock a k1) };
      Some (RT_EOK, k) }"
    using assms(2) Cons sp by (simp add: rt_sem_release_def sem_ok_def)
  also have "\<dots> = Some (RT_EOK, ?k')" unfolding w(1) eq by simp
  finally have r: "rt_sem_release c a k = Some (RT_EOK, ?k')" .
  have "sem_ok a ?k'" using assms(2) Cons wk by (auto simp: sem_ok_def wakes_def)
  moreover have "th_error (thread k t) = RT_EOK \<longrightarrow> rt_sem_take_resumed t ?k' = RT_EOK"
    using wk by (simp add: rt_sem_take_resumed_def wakes_def)
  ultimately show ?thesis using w(2) wk r Cons unfolding eq
    by (intro exI [of _ "RT_EOK"] exI [of _ ?k']) simp
qed

text \<open>C2: \<open>rt_sem_release\<close>: with waiters it makes the first of them runnable with its error
  code as it was, and leaves the value; without it adds one, or refuses at the maximum.  The
  thread that was resumed returns success from its \<open>rt_sem_take\<close>.\<close>

theorem rt_sem_release_spec:
  assumes "okc c k" "sem_ok a k"
  shows "\<exists>r k'. rt_sem_release c a k = Some (r, k') \<and> okc c k' \<and> sem_ok a k' \<and>
    (\<forall>t ts. s_list (k_s k) (Suspend a) = t # ts \<longrightarrow> r = RT_EOK \<and> k_sem k' = k_sem k \<and>
       wakes (Suspend a) t ts k k' \<and>
       (th_error (thread k t) = RT_EOK \<longrightarrow> rt_sem_take_resumed t k' = RT_EOK)) \<and>
    (s_list (k_s k) (Suspend a) = [] \<and> sem_value (k_sem k a) < 0xffff \<longrightarrow>
       r = RT_EOK \<and> k' = upd_sem a (sem_value (k_sem k a) + 1) k) \<and>
    (s_list (k_s k) (Suspend a) = [] \<and> sem_value (k_sem k a) = 0xffff \<longrightarrow> r = - RT_EFULL \<and> k' = k)"
  using sem_release_ok [OF assms] by blast

lemma rt_sem_release_spec_witness:
  "\<exists>k'. rt_sem_release 0 100 (sample_kernel 2) = Some (RT_EOK, k') \<and> sem_value (k_sem k' 100) = 1"
  using rt_sem_release_spec [OF sample_okc sample_sem_ok] by (auto simp: upd_sem_def)

text \<open>C39: detaching a semaphore, and resetting it, makes every waiter runnable with the error
  \<open>-RT_ERROR\<close> as the result of its \<open>rt_sem_take\<close>, with no timer left running, and leaves this waiting
  list empty and every other as it was; a reset sets the value, a detach takes the object out of its class
  and leaves every thread that did not wait as it was.\<close>

theorem rt_sem_wakes_all:
  assumes "okc c k" "sem_ok a k" "rt_object_is_systemobject (Obj a) (k_o k)"
  shows "\<exists>k1 k2. rt_sem_detach c a k = Some (RT_EOK, k1) \<and> okc c k1 \<and> s_list (k_s k1) (Suspend a) = [] \<and>
    rt_object_get_type (Obj a) (k_o k1) = 0 \<and>
    rt_sem_control c a (Some v) k = Some (RT_EOK, k2) \<and> okc c k2 \<and> s_list (k_s k2) (Suspend a) = [] \<and>
    sem_value (k_sem k2 a) = ucast v \<and> sem_ok a k2 \<and>
    (\<forall>t \<in> set (s_list (k_s k) (Suspend a)).
       rt_sem_take_resumed t k1 = - RT_ERROR \<and> rt_sem_take_resumed t k2 = - RT_ERROR \<and>
       \<not> timer_activated (ThTimer t) (k_o k1) \<and> \<not> timer_activated (ThTimer t) (k_o k2) \<and>
       stat_base (th_stat (thread k1 t)) \<in> {RT_THREAD_READY, RT_THREAD_RUNNING} \<and>
       stat_base (th_stat (thread k2 t)) \<in> {RT_THREAD_READY, RT_THREAD_RUNNING}) \<and>
    (\<forall>t. t \<notin> set (s_list (k_s k) (Suspend a)) \<longrightarrow>
       thread k1 t = thread k t \<and> same_run (thread k t) (thread k2 t)) \<and>
    (\<forall>h. \<not> is_ready h \<and> h \<noteq> Suspend a \<longrightarrow>
       s_list (k_s k1) h = s_list (k_s k) h \<and> s_list (k_s k2) h = s_list (k_s k) h)"
proof -
  have h: "\<not> is_ready (Suspend a)" "Suspend a \<noteq> Defunct" by simp_all
  obtain s1 x1 where r: "ipc_list_resume_all c (Suspend a) k = Some (k\<lparr>k_s := s1, k_o := x1\<rparr>)"
    "okc c (k\<lparr>k_s := s1, k_o := x1\<rparr>)"
    "\<forall>g. \<not> is_ready g \<longrightarrow> s_list s1 g = (if g = Suspend a then [] else s_list (k_s k) g)"
    "\<forall>t \<in> set (s_list (k_s k) (Suspend a)). th_error (s_thread s1 t) = - RT_ERROR \<and>
       stat_base (th_stat (s_thread s1 t)) \<in> {RT_THREAD_READY, RT_THREAD_RUNNING} \<and>
       \<not> timer_activated (ThTimer t) x1"
    "\<forall>t. t \<notin> set (s_list (k_s k) (Suspend a)) \<longrightarrow> s_thread s1 t = thread k t"
    "\<forall>i. rt_object_get_type i x1 = rt_object_get_type i (k_o k)"
    "\<forall>b. o_flag (ob_obj x1 (Obj b)) = o_flag (ob_obj (k_o k) (Obj b))"
    using resume_all_ok [OF assms(1) h] by (elim exE conjE) (rule that; assumption)
  define x2 where "x2 = olist_remove (Obj a) (upd_obj (Obj a) (\<lambda>ob. ob\<lparr>o_type := 0\<rparr>) x1)"
  let ?k1 = "k\<lparr>k_s := s1, k_o := x2\<rparr>"
  have "rt_sem_detach c a k = Some (RT_EOK, ?k1)"
    using assms(2,3) r(1) by (simp add: rt_sem_detach_def sem_ok_def lift_o_def rt_object_detach_def x2_def)
  moreover have notthread: "t \<noteq> a" if "t \<noteq> 0" "live (s_thread s1 t)" for t
    using kok_obj [OF okc_kok [OF r(2)], of t] that assms(2) r(6) by (auto simp: thread_obj_def sem_ok_def)
  have "okc c ?k1"
  proof -
    have "kok s1 x1" using okc_kok [OF r(2)] by simp
    then have "kok s1 x2"
      using notthread by (auto simp: kok_def x2_def thread_obj_def timer_ok_def timer_periodic_def
          timer_activated_def rt_object_get_type_def)
    with r(2) show ?thesis by (simp add: okc_def kinv_def rt_thread_self_def)
  qed
  moreover have "timer_activated (ThTimer t) x2 = timer_activated (ThTimer t) x1" for t
    by (simp add: x2_def timer_activated_def)
  moreover have "rt_object_get_type (Obj a) x2 = 0" by (simp add: x2_def rt_object_get_type_def)
  moreover obtain s2 where s2: "kschedule c (upd_sem a (ucast v) (k\<lparr>k_s := s1, k_o := x1\<rparr>)) =
      Some ((upd_sem a (ucast v) (k\<lparr>k_s := s1, k_o := x1\<rparr>))\<lparr>k_s := s2\<rparr>)"
    "okc c ((upd_sem a (ucast v) (k\<lparr>k_s := s1, k_o := x1\<rparr>))\<lparr>k_s := s2\<rparr>)" "sframe s1 s2"
    "\<forall>h. \<not> is_ready h \<longrightarrow> s_list s2 h = s_list s1 h"
    using kschedule_ok [of c "upd_sem a (ucast v) (k\<lparr>k_s := s1, k_o := x1\<rparr>)"] r(2) by auto
  let ?k2 = "(upd_sem a (ucast v) (k\<lparr>k_s := s1, k_o := x1\<rparr>))\<lparr>k_s := s2\<rparr>"
  have "rt_sem_control c a (Some v) k = Some (RT_EOK, ?k2)"
    using assms(2) r(1) s2(1) by (simp add: rt_sem_control_def sem_ok_def)
  moreover have run: "same_run (s_thread s1 t) (s_thread s2 t)" for t using s2(3) by (simp add: sframe_def)
  moreover have "rt_sem_take_resumed t ?k1 = - RT_ERROR \<and> rt_sem_take_resumed t ?k2 = - RT_ERROR \<and>
       \<not> timer_activated (ThTimer t) x1 \<and>
       stat_base (th_stat (thread ?k1 t)) \<in> {RT_THREAD_READY, RT_THREAD_RUNNING} \<and>
       stat_base (th_stat (thread ?k2 t)) \<in> {RT_THREAD_READY, RT_THREAD_RUNNING}"
    if "t \<in> set (s_list (k_s k) (Suspend a))" for t
    using r(4) that run [of t]
    by (auto simp: rt_sem_take_resumed_def same_run_def same_data_def)
  moreover have "same_run (thread k t) (thread ?k2 t)" if "t \<notin> set (s_list (k_s k) (Suspend a))" for t
    using r(5) that run [of t] by simp
  ultimately show ?thesis
    using r(3,5,6,7) s2(2,4) assms(2)
    by (intro exI [of _ ?k1] exI [of _ ?k2]) (simp add: sem_ok_def)
qed

text \<open>A thread waits for the semaphore when it is detached.\<close>

lemma rt_sem_wakes_all_witness:
  "\<exists>k k1. rt_sem_take 0 100 7 (sample_kernel 2) = Some (None, k) \<and> s_list (k_s k) (Suspend 100) = [1] \<and>
     stat_base (th_stat (thread k 1)) = RT_THREAD_SUSPEND \<and>
     rt_sem_detach 0 100 k = Some (RT_EOK, k1) \<and> rt_sem_take_resumed 1 k1 = - RT_ERROR \<and>
     stat_base (th_stat (thread k1 1)) \<in> {RT_THREAD_READY, RT_THREAD_RUNNING}"
proof -
  obtain s' x' where k': "rt_sem_take 0 100 7 (sample_kernel 2) = Some (None, (sample_kernel 2)\<lparr>k_s := s', k_o := x'\<rparr>)"
    "okc 0 ((sample_kernel 2)\<lparr>k_s := s', k_o := x'\<rparr>)"
    "waits 0 (Suspend 100) 1 (obj_flag 100 (sample_kernel 2)) 7 (sample_kernel 2) ((sample_kernel 2)\<lparr>k_s := s', k_o := x'\<rparr>)"
    using sem_take_waits [OF sample_okc sample_running(1) sample_sem_ok, of 7] by auto
  define k where "k = (sample_kernel 2)\<lparr>k_s := s', k_o := x'\<rparr>"
  note k = k'(1,2) [folded k_def] and w = k'(3) [folded k_def]
  have so: "sem_ok 100 k" using sample_sem_ok w unfolding k_def by (simp add: sem_ok_def waits_def)
  have l: "s_list (k_s k) (Suspend 100) = [1]" "stat_base (th_stat (thread k 1)) = RT_THREAD_SUSPEND"
    "rt_object_is_systemobject (Obj 100) (k_o k)"
    using w by (simp_all add: waits_def enq_def)
  show ?thesis using rt_sem_wakes_all [OF k(2) so l(3), of 3] k(1) l(1,2) by auto
qed

end
