(* ===== verification/Thread.thy ===== *)
theory Thread
  imports Sem Complex_Main
begin

section \<open>The life of a thread (\<open>src/thread.c\<close>, \<open>src/idle.c\<close>)\<close>

text \<open>
  Creating, starting, controlling and ending threads, and the system thread that reclaims the
  ones that ended.  \<open>cln f t\<close> runs the cleanup function at address \<open>f\<close>; \<open>usage\<close> is
  \<open>get_cpu_usage\<close>, which computes in floating point; \<open>sp\<close> is the result of the assembly
  port's \<open>rt_hw_stack_init\<close>; \<open>sys\<close> is the address of \<open>system_sem\<close>.
\<close>

subsection \<open>Choosing a CPU\<close>

definition get_lowest_usage_cpu :: "(nat \<Rightarrow> rat) \<Rightarrow> u32 \<Rightarrow> nat" where
  "get_lowest_usage_cpu usage candidate_cpus =
     snd (fold (\<lambda>i (min_usage, dst). if bit candidate_cpus i \<and> usage i < min_usage then (usage i, i)
                                     else (min_usage, dst)) [0..<RT_CPUS_NR] (255, 0))"

definition cpu_mask :: "(nat \<Rightarrow> bool) \<Rightarrow> u32" where
  "cpu_mask P = fold (\<lambda>i m. if P i then m OR push_bit i 1 else m) [0..<RT_CPUS_NR] 0"

definition get_thread_distribute_cpu :: "(nat \<Rightarrow> rat) \<Rightarrow> nat \<Rightarrow> kernel \<Rightarrow> nat" where
  "get_thread_distribute_cpu usage t k =
     (let free_cpus = cpu_mask (\<lambda>i. 27 < cpu_current_priority (s_cpu (k_s k) i));
          low_priority_cpus = cpu_mask (\<lambda>i. th_current_priority (thread k t) < cpu_current_priority (s_cpu (k_s k) i));
          all_cpus = cpu_mask (\<lambda>i. True)
      in if free_cpus \<noteq> 0 then get_lowest_usage_cpu usage free_cpus
         else if low_priority_cpus \<noteq> 0 then get_lowest_usage_cpu usage low_priority_cpus
         else get_lowest_usage_cpu usage all_cpus)"

subsection \<open>Creation and start\<close>

record thread_args =
  ta_entry :: nat
  ta_parameter :: nat
  ta_stack_start :: u64
  ta_stack_size :: u32
  ta_priority :: u8
  ta_tick :: u32

definition thread_init :: "(nat \<Rightarrow> rat) \<Rightarrow> u64 \<Rightarrow> nat \<Rightarrow> thread_args \<Rightarrow> kernel \<Rightarrow> kernel option" where
  "thread_init usage sp t ar k =
     do { rt_assert (ta_priority ar < 32);
          let k = on_s (upd_thread t (\<lambda>th. th\<lparr>th_entry := ta_entry ar, th_parameter := ta_parameter ar,
                th_stack_addr := ta_stack_start ar, th_stack_size := ta_stack_size ar,
                th_stack_guard := (if ta_stack_size ar = 0 then th_stack_guard th else 0x23), th_sp := sp,
                th_init_priority := ta_priority ar, th_current_priority := ta_priority ar,
                th_number_mask := 0, th_init_tick := ucast (ta_tick ar), th_remaining_tick := ucast (ta_tick ar),
                th_error := RT_EOK, th_stat := RT_THREAD_INIT\<rparr>)) k;
          let cpu = get_thread_distribute_cpu usage t k;
          let k = on_s (upd_thread t (\<lambda>th. th\<lparr>th_bind_cpu := cpu, th_oncpu := RT_CPU_DETACHED,
                th_scheduler_lock_nest := 0, th_cpus_lock_nest := 0, th_critical_lock_nest := 0,
                th_cleanup := 0, th_user_data := 0\<rparr>)) k;
          lift_o (\<lambda>x. rt_timer_init (ThTimer t) (o_name (ob_obj x (Obj t))) (rt_thread_timeout t) 0 0 x) k }"

definition rt_thread_init :: "(nat \<Rightarrow> rat) \<Rightarrow> u64 \<Rightarrow> nat \<Rightarrow> u8 list \<Rightarrow> thread_args \<Rightarrow> kernel \<Rightarrow> (rt_err \<times> kernel) option" where
  "rt_thread_init usage sp t name ar k =
     do { rt_assert (t \<noteq> 0);
          rt_assert (ta_stack_start ar \<noteq> 0);
          k \<leftarrow> lift_o (rt_object_init (Obj t) RT_Object_Class_Thread name) k;
          k \<leftarrow> thread_init usage sp t ar k;
          Some (RT_EOK, k) }"

text \<open>\<open>mem\<close> and \<open>stack\<close> are the two results of \<open>rt_malloc\<close>, 0 when it has no memory.\<close>

definition rt_thread_create ::
    "(nat \<Rightarrow> rat) \<Rightarrow> u64 \<Rightarrow> nat \<Rightarrow> nat \<Rightarrow> u64 \<Rightarrow> u8 list \<Rightarrow> thread_args \<Rightarrow> kernel \<Rightarrow> (nat \<times> kernel) option" where
  "rt_thread_create usage sp c mem stack name ar k =
     do { not_in_interrupt c k;
          (t, x) \<leftarrow> rt_object_allocate mem RT_Object_Class_Thread name (k_o k);
          let k = k\<lparr>k_o := x\<rparr>;
          (if t = 0 then Some (0, k)
           else if stack = 0
           then do { k \<leftarrow> lift_o (rt_object_delete (Obj t)) k; Some (0, k) }
           else do { k \<leftarrow> thread_init usage sp t (ar\<lparr>ta_stack_start := stack\<rparr>) k; Some (t, k) }) }"

definition rt_thread_startup :: "nat \<Rightarrow> nat \<Rightarrow> kernel \<Rightarrow> (rt_err \<times> kernel) option" where
  "rt_thread_startup c t k =
     do { rt_assert (t \<noteq> 0);
          rt_assert (stat_base (th_stat (thread k t)) = RT_THREAD_INIT);
          rt_assert (is_thread t k);
          let k = on_s (upd_thread t (\<lambda>th. th\<lparr>th_current_priority := th_init_priority th,
                th_number_mask := push_bit (unat (th_init_priority th)) 1, th_stat := RT_THREAD_SUSPEND\<rparr>)) k;
          (_, k) \<leftarrow> rt_thread_resume c t k;
          k \<leftarrow> (if rt_thread_self c k \<noteq> 0 then kschedule c k else Some k);
          Some (RT_EOK, k) }"

subsection \<open>The end of a thread\<close>

definition thread_cleanup_execute :: "(nat \<Rightarrow> nat \<Rightarrow> kernel \<Rightarrow> kernel option) \<Rightarrow> nat \<Rightarrow> kernel \<Rightarrow> kernel option" where
  "thread_cleanup_execute cln t k =
     (if th_cleanup (thread k t) \<noteq> 0 then cln (th_cleanup (thread k t)) t k else Some k)"

definition rt_thread_defunct_enqueue :: "nat \<Rightarrow> nat \<Rightarrow> nat \<Rightarrow> kernel \<Rightarrow> kernel option" where
  "rt_thread_defunct_enqueue c sys t k =
     do { (_, k) \<leftarrow> rt_sem_release c sys (on_s (upd_list Defunct (\<lambda>ts. t # ts)) k); Some k }"

text \<open>The thread is 0 when the list is empty.\<close>

definition rt_thread_defunct_dequeue :: "kernel \<Rightarrow> nat \<times> kernel" where
  "rt_thread_defunct_dequeue k =
     (case s_list (k_s k) Defunct of [] \<Rightarrow> (0, k) | t # _ \<Rightarrow> (t, on_s (tlist_remove t) k))"

definition set_stat :: "nat \<Rightarrow> u8 \<Rightarrow> kernel \<Rightarrow> kernel" where
  "set_stat t st = on_s (upd_thread t (\<lambda>th. th\<lparr>th_stat := st\<rparr>))"

text \<open>
  \<open>rt_schedule\<close> does not come back to a thread that ended; the one in \<open>rt_sem_release\<close> may
  already have switched.
\<close>

definition thread_exit :: "(nat \<Rightarrow> nat \<Rightarrow> kernel \<Rightarrow> kernel option) \<Rightarrow> nat \<Rightarrow> nat \<Rightarrow> kernel \<Rightarrow> kernel option" where
  "thread_exit cln c sys k =
     do { let t = rt_thread_self c k;
          let k = on_s (rt_cpus_lock c) k;
          k \<leftarrow> thread_cleanup_execute cln t k;
          k \<leftarrow> lift_s (rt_schedule_remove_thread t) k;
          let k = set_stat t RT_THREAD_CLOSE k;
          k \<leftarrow> lift_o (rt_timer_detach (ThTimer t)) k;
          k \<leftarrow> (if rt_object_is_systemobject (Obj t) (k_o k) then lift_o (rt_object_detach (Obj t)) k
               else rt_thread_defunct_enqueue c sys t k);
          (if rt_thread_self c k = t then kschedule c k else Some k) }"

definition rt_thread_detach :: "(nat \<Rightarrow> nat \<Rightarrow> kernel \<Rightarrow> kernel option) \<Rightarrow> nat \<Rightarrow> nat \<Rightarrow> nat \<Rightarrow> kernel \<Rightarrow> (rt_err \<times> kernel) option" where
  "rt_thread_detach cln c sys t k =
     do { rt_assert (t \<noteq> 0);
          rt_assert (is_thread t k);
          rt_assert (rt_object_is_systemobject (Obj t) (k_o k));
          let stat = stat_base (th_stat (thread k t));
          (if stat = RT_THREAD_CLOSE then Some (RT_EOK, k)
           else do {
             k \<leftarrow> (if stat \<noteq> RT_THREAD_INIT then lift_s (rt_schedule_remove_thread t) k else Some k);
             k \<leftarrow> thread_cleanup_execute cln t k;
             k \<leftarrow> lift_o (rt_timer_detach (ThTimer t)) k;
             let k = set_stat t RT_THREAD_CLOSE k;
             k \<leftarrow> (if rt_object_is_systemobject (Obj t) (k_o k) then lift_o (rt_object_detach (Obj t)) k
                  else rt_thread_defunct_enqueue c sys t k);
             Some (RT_EOK, k) }) }"

definition rt_thread_delete :: "(nat \<Rightarrow> nat \<Rightarrow> kernel \<Rightarrow> kernel option) \<Rightarrow> nat \<Rightarrow> nat \<Rightarrow> nat \<Rightarrow> kernel \<Rightarrow> (rt_err \<times> kernel) option" where
  "rt_thread_delete cln c sys t k =
     do { rt_assert (t \<noteq> 0);
          rt_assert (is_thread t k);
          rt_assert (\<not> rt_object_is_systemobject (Obj t) (k_o k));
          let stat = stat_base (th_stat (thread k t));
          (if stat = RT_THREAD_CLOSE then Some (RT_EOK, k)
           else do {
             k \<leftarrow> (if stat \<noteq> RT_THREAD_INIT then lift_s (rt_schedule_remove_thread t) k else Some k);
             k \<leftarrow> thread_cleanup_execute cln t k;
             k \<leftarrow> lift_o (rt_timer_detach (ThTimer t)) k;
             k \<leftarrow> rt_thread_defunct_enqueue c sys t (set_stat t RT_THREAD_CLOSE k);
             Some (RT_EOK, k) }) }"

text \<open>The loop of the system thread; it also yields the stacks it gave back to the heap.\<close>

partial_function (option) rt_defunct_execute ::
    "(nat \<Rightarrow> nat \<Rightarrow> kernel \<Rightarrow> kernel option) \<Rightarrow> nat \<Rightarrow> u64 list \<Rightarrow> kernel \<Rightarrow> (u64 list \<times> kernel) option" where
  "rt_defunct_execute cln c freed k =
     do { not_in_interrupt c k;
          (let (t, k) = rt_thread_defunct_dequeue k
           in if t = 0 then Some (freed, k)
              else do {
                k \<leftarrow> thread_cleanup_execute cln t k;
                (if rt_object_is_systemobject (Obj t) (k_o k)
                 then do { k \<leftarrow> lift_o (rt_object_detach (Obj t)) k; rt_defunct_execute cln c freed k }
                 else do { k \<leftarrow> lift_o (rt_object_delete (Obj t)) k;
                           rt_defunct_execute cln c (freed @ [th_stack_addr (thread k t)]) k }) }) }"

subsection \<open>Control\<close>

datatype thread_cmd = THREAD_CHANGE_PRIORITY u8 | THREAD_STARTUP | THREAD_CLOSE | THREAD_BIND_CPU u8 | THREAD_OTHER

text \<open>\<open>1 << current_priority\<close> with an \<open>int\<close> is defined for the priorities below 32.\<close>

definition set_priority :: "nat \<Rightarrow> u8 \<Rightarrow> kernel \<Rightarrow> kernel" where
  "set_priority t prio = on_s (upd_thread t (\<lambda>th. th\<lparr>th_current_priority := prio,
                                                    th_number_mask := push_bit (unat prio) 1\<rparr>))"

definition change_priority :: "nat \<Rightarrow> nat \<Rightarrow> u8 \<Rightarrow> kernel \<Rightarrow> kernel option" where
  "change_priority c t prio k =
     (if stat_base (th_stat (thread k t)) = RT_THREAD_READY
      then do { k \<leftarrow> lift_s (rt_schedule_remove_thread t) k;
                lift_s (rt_schedule_insert_thread c t) (set_priority t prio k) }
      else Some (set_priority t prio k))"

definition rt_thread_control ::
    "(nat \<Rightarrow> nat \<Rightarrow> kernel \<Rightarrow> kernel option) \<Rightarrow> nat \<Rightarrow> nat \<Rightarrow> nat \<Rightarrow> thread_cmd \<Rightarrow> kernel \<Rightarrow> (rt_err \<times> kernel) option" where
  "rt_thread_control cln c sys t cmd k =
     do { rt_assert (t \<noteq> 0);
          rt_assert (is_thread t k);
          (case cmd of
             THREAD_CHANGE_PRIORITY prio \<Rightarrow> do { k \<leftarrow> change_priority c t prio k; Some (RT_EOK, k) }
           | THREAD_STARTUP \<Rightarrow> rt_thread_startup c t k
           | THREAD_CLOSE \<Rightarrow> do {
               (rt_err, k) \<leftarrow> (if rt_object_is_systemobject (Obj t) (k_o k) then rt_thread_detach cln c sys t k
                              else rt_thread_delete cln c sys t k);
               k \<leftarrow> kschedule c k;
               Some (rt_err, k) }
           | THREAD_BIND_CPU cpu \<Rightarrow>
               (if stat_base (th_stat (thread k t)) \<noteq> RT_THREAD_INIT then Some (RT_ERROR, k)
                else Some (RT_EOK, on_s (upd_thread t (\<lambda>th. th\<lparr>th_bind_cpu :=
                       (if RT_CPUS_NR < unat cpu then RT_CPUS_NR else unat cpu)\<rparr>)) k))
           | THREAD_OTHER \<Rightarrow> Some (RT_EOK, k)) }"

definition rt_thread_find :: "u8 list \<Rightarrow> kernel \<Rightarrow> oid option" where
  "rt_thread_find name k = rt_object_find name RT_Object_Class_Thread (k_o k)"

subsection \<open>The idle threads and the system thread\<close>

text \<open>
  \<open>rt_thread_idle_init\<close> for the control blocks \<open>idle i\<close> with the stacks \<open>stk i\<close>, and the system
  thread at \<open>st\<close>; \<open>sps\<close> are the stack pointers.
\<close>

definition idle_start ::
    "(nat \<Rightarrow> rat) \<Rightarrow> nat \<Rightarrow> u64 \<Rightarrow> nat \<Rightarrow> u8 list \<Rightarrow> thread_args \<Rightarrow> nat \<Rightarrow> kernel \<Rightarrow> kernel option" where
  "idle_start usage c sp t name ar cpu k =
     do { (_, k) \<leftarrow> rt_thread_init usage sp t name ar k;
          let k = on_s (upd_thread t (\<lambda>th. th\<lparr>th_bind_cpu := cpu\<rparr>)) k;
          Some k }"

definition rt_thread_idle_init ::
    "(nat \<Rightarrow> rat) \<Rightarrow> nat \<Rightarrow> nat \<Rightarrow> (nat \<Rightarrow> nat) \<Rightarrow> (nat \<Rightarrow> u64) \<Rightarrow> (nat \<Rightarrow> u64) \<Rightarrow> nat \<Rightarrow> nat \<Rightarrow> nat \<Rightarrow> kernel \<Rightarrow> kernel option" where
  "rt_thread_idle_init usage c sys idle stk sps st idle_entry sys_entry k =
     do { let one = (\<lambda>i k. do {
            k \<leftarrow> idle_start usage c (sps i) (idle i) [0x74, 0x69, 0x64, 0x6c, 0x65, 0x30 + of_nat i, 0]
                  \<lparr>ta_entry = idle_entry, ta_parameter = 0, ta_stack_start = stk i, ta_stack_size = 4096,
                   ta_priority = 31, ta_tick = 32\<rparr> i k;
            (_, k) \<leftarrow> rt_thread_control (\<lambda>_ _. Some) c sys (idle i) (THREAD_BIND_CPU (of_nat i)) k;
            (_, k) \<leftarrow> rt_thread_startup c (idle i) k;
            Some k });
          k \<leftarrow> one 0 k;
          k \<leftarrow> one 1 k;
          (_, k) \<leftarrow> rt_sem_init sys [0x64, 0x65, 0x66, 0x75, 0x6e, 0x63, 0x74, 0] 1 RT_IPC_FLAG_FIFO k;
          k \<leftarrow> idle_start usage c (sps 2) st [0x74, 0x73, 0x79, 0x73, 0x74, 0x65, 0x6d, 0]
                \<lparr>ta_entry = sys_entry, ta_parameter = 0, ta_stack_start = stk 2, ta_stack_size = 4096,
                 ta_priority = 30, ta_tick = 32\<rparr> 0 k;
          (_, k) \<leftarrow> rt_thread_startup c st k;
          Some k }"

end
