(* ===== verification/ThreadProps.thy ===== *)
theory ThreadProps
  imports Thread
begin

section \<open>Properties of threads\<close>

subsection \<open>Suspending and resuming\<close>

text \<open>Fact: a ready or the running thread can be suspended: it leaves its list, and a second
  suspension is refused; resuming it puts it at the end of the ready list of its priority (or,
  when it still has its CPU, back to running), and a second resumption is refused; no other
  thread changes.\<close>

theorem rt_thread_suspend_resume:
  assumes "okc c k" "t \<noteq> 0"
    and "stat_base (th_stat (thread k t)) = RT_THREAD_READY \<or>
         stat_base (th_stat (thread k t)) = RT_THREAD_RUNNING \<and> t = rt_thread_self c k"
  defines "h \<equiv> Ready (th_bind_cpu (thread k t)) (unat (th_current_priority (thread k t)))"
  shows "\<exists>k1 k2. rt_thread_suspend c t k = Some (RT_EOK, k1) \<and> kinv k1 \<and> in_no_list t (k_s k1) \<and>
    stat_base (th_stat (thread k1 t)) = RT_THREAD_SUSPEND \<and> rt_thread_suspend c t k1 = Some (- RT_ERROR, k1) \<and>
    rt_thread_resume c t k1 = Some (RT_EOK, k2) \<and> kinv k2 \<and> rt_thread_resume c t k2 = Some (- RT_ERROR, k2) \<and>
    (\<forall>u. u \<noteq> t \<longrightarrow> thread k2 u = thread k u) \<and>
    stat_base (th_stat (thread k2 t)) = stat_base (th_stat (thread k t)) \<and>
    (\<forall>g. s_list (k_s k2) g = filter (\<lambda>x. x \<noteq> t) (s_list (k_s k) g) @
       (if g = h \<and> stat_base (th_stat (thread k t)) = RT_THREAD_READY then [t] else []))"
proof -
  have kv: "kinv k" and ok: "kok (k_s k) (k_o k)" using assms(1) by (simp_all add: okc_def kinv_def)
  obtain s1 where s1: "rt_thread_suspend c t k = Some (RT_EOK, k\<lparr>k_s := s1\<rparr>)" "kok s1 (k_o k)" "in_no_list t s1"
    "s_list s1 = (\<lambda>h. filter (\<lambda>x. x \<noteq> t) (s_list (k_s k) h))"
    "s_thread s1 = (s_thread (k_s k))(t := with_stat RT_THREAD_SUSPEND (thread k t))"
    using suspend_ok [OF kv assms(2,3)] by blast
  let ?k1 = "k\<lparr>k_s := s1\<rparr>"
  have kv1: "kinv ?k1" using s1(2) by (simp add: kinv_def)
  have st1: "stat_base (th_stat (thread ?k1 t)) = 2" by (simp add: s1(5))
  from resume_ok [OF kv1 assms(2) st1, of c] obtain s2 where
    s2: "rt_thread_resume c t ?k1 = Some (RT_EOK, (on_o (stopped t) ?k1)\<lparr>k_s := s2\<rparr>)"
    "kok s2 (stopped t (k_o k))"
    "s_thread s2 = (s_thread s1)(t := with_stat (if th_oncpu (thread k t) = 2 then 1 else 3)
        (with_stat RT_THREAD_SUSPEND (thread k t)))"
    "s_list s2 = (\<lambda>g. filter (\<lambda>x. x \<noteq> t) (s_list s1 g) @ (if g = h \<and> th_oncpu (thread k t) = 2 then [t] else []))"
    by (auto simp: s1(5) h_def)
  let ?k2 = "(on_o (stopped t) ?k1)\<lparr>k_s := s2\<rparr>"
  have inv: "sched_inv (k_s k)" using ok by (simp add: kok_def)
  have on: "th_oncpu (thread k t) = 2 \<longleftrightarrow> stat_base (th_stat (thread k t)) = 1"
  proof (cases "stat_base (th_stat (thread k t)) = 1")
    case True
    have "t \<in> set (s_list (k_s k) (Ready (th_bind_cpu (thread k t)) (unat (th_current_priority (thread k t)))))"
      using inv assms(2) True by (auto simp: sched_inv_def thread_ok_def Let_def)
    then have "th_oncpu (thread k t) = 2" using inv in_ready by (auto simp: sched_inv_def ready_ok_def)
    with True show ?thesis by simp
  next
    case False
    then show ?thesis using assms(2,3) inv by (auto simp: sched_inv_def thread_ok_def Let_def)
  qed
  have "is_thread t k" using kok_obj [OF ok assms(2)] assms(3) by (auto simp: live_def thread_obj_def)
  then have "rt_thread_suspend c t ?k1 = Some (- RT_ERROR, ?k1)" "rt_thread_resume c t ?k2 = Some (- RT_ERROR, ?k2)"
    using st1 assms(2) by (simp_all add: rt_thread_suspend_def rt_thread_resume_def s2(3))
  moreover have "stat_base (th_stat (s_thread s2 t)) = stat_base (th_stat (thread k t))"
    using on assms(3) by (auto simp: s2(3))
  ultimately show ?thesis
    using s1 s2 st1 kv1 on
    by (intro exI [of _ ?k1] exI [of _ ?k2]) (auto simp: kinv_def)
qed

lemma rt_thread_suspend_resume_witness:
  "\<exists>k1 k2. rt_thread_suspend 0 2 (sample_kernel 2) = Some (RT_EOK, k1) \<and> rt_thread_resume 0 2 k1 = Some (RT_EOK, k2) \<and>
     s_list (k_s k2) (Ready 0 10) = [2]"
proof -
  have "stat_base (th_stat (thread (sample_kernel 2) 2)) = 1" "th_bind_cpu (thread (sample_kernel 2) 2) = 0"
    "th_current_priority (thread (sample_kernel 2) 2) = 10"
    by (simp_all add: sample_thread_def)
  with rt_thread_suspend_resume [OF sample_okc, of 2 2] show ?thesis by auto
qed

subsection \<open>Time-outs\<close>

lemma timeout_ok:
  assumes ok: "okc c k" and t: "t \<noteq> 0" "stat_base (th_stat (thread k t)) = RT_THREAD_SUSPEND"
    and na: "\<not> timer_activated (ThTimer t) (k_o k)"
  shows "\<exists>s'. rt_thread_timeout_body c t k = Some (k\<lparr>k_s := s'\<rparr>) \<and> okc c (k\<lparr>k_s := s'\<rparr>) \<and>
    th_error (s_thread s' t) = - RT_ETIMEOUT \<and>
    stat_base (th_stat (s_thread s' t)) \<in> {RT_THREAD_READY, RT_THREAD_RUNNING} \<and>
    (\<forall>u. u \<noteq> t \<longrightarrow> same_run (thread k u) (s_thread s' u)) \<and>
    (\<forall>g. \<not> is_ready g \<longrightarrow> s_list s' g = filter (\<lambda>x. x \<noteq> t) (s_list (k_s k) g)) \<and>
    (\<forall>d. same_cpu (s_cpu (k_s k) d) (s_cpu s' d))"
proof -
  let ?k = "set_error t (- RT_ETIMEOUT) k"
  have okk: "okc c ?k" using ok by (simp add: set_error_ok)
  have stk: "stat_base (th_stat (thread ?k t)) = 2" using t(2) by simp
  have "live (thread k t)" using t(2) by (simp add: live_def)
  then have obj: "is_thread t k" using kok_obj [OF okc_kok [OF ok] t(1)] by (simp add: thread_obj_def)
  have same: "stopped t (k_o k) = k_o k" using na by (simp add: stopped_def)
  from resume_woken [OF okk t(1) stk]
  obtain s1 where r: "rt_thread_resume c t ?k = Some (RT_EOK, ?k\<lparr>k_s := s1, k_o := stopped t (k_o ?k)\<rparr>)"
    "okc c (?k\<lparr>k_s := s1, k_o := stopped t (k_o ?k)\<rparr>)" "woken t (k_s ?k) s1" by blast
  have eq: "?k\<lparr>k_s := s1, k_o := stopped t (k_o ?k)\<rparr> = k\<lparr>k_s := s1\<rparr>" by (simp add: on_s_def same)
  have tobj: "thread_obj t (k_o (on_s (tlist_remove t) ?k))"
    using kok_obj [OF okc_kok [OF ok] t(1)] t(2) by (simp add: live_def)
  have "on_o (stopped t) (on_s (tlist_remove t) ?k) = on_s (tlist_remove t) ?k"
    by (simp add: on_o_def same)
  then have ins: "lift_s (rt_schedule_insert_thread c t) (on_s (tlist_remove t) ?k) = Some (k\<lparr>k_s := s1\<rparr>)"
    using r(1) t obj thread_timer_stop_ok [OF tobj] unfolding eq
    by (auto simp: rt_thread_resume_def split: bind_splits if_splits)
  have ok1: "okc c (k\<lparr>k_s := s1\<rparr>)" using r(2) unfolding eq .
  obtain s' where s': "kschedule c (k\<lparr>k_s := s1\<rparr>) = Some (k\<lparr>k_s := s1\<rparr>\<lparr>k_s := s'\<rparr>)"
    "okc c (k\<lparr>k_s := s1\<rparr>\<lparr>k_s := s'\<rparr>)" "sframe s1 s'" "\<forall>h. \<not> is_ready h \<longrightarrow> s_list s' h = s_list s1 h"
    using kschedule_ok [OF ok1] by auto
  have run: "same_run (s_thread s1 u) (s_thread s' u)" for u using s'(3) by (simp add: sframe_def)
  have th: "s_thread s1 = (s_thread (k_s ?k))(t := with_stat (if th_oncpu (thread k t) = 2 then 1 else 3) (thread ?k t))"
    "\<And>g. \<not> is_ready g \<Longrightarrow> s_list s1 g = filter (\<lambda>x. x \<noteq> t) (s_list (k_s k) g)"
    using r(3) by (auto simp: woken_def Let_def)
  have cpu1: "same_cpu (s_cpu (k_s k) d) (s_cpu s1 d)" for d using woken_cpu(4) [OF r(3)] by simp
  have cpu: "same_cpu (s_cpu (k_s k) d) (s_cpu s' d)" for d
    using cpu1 [of d] s'(3) by (auto simp: sframe_def same_cpu_def)
  have "rt_thread_timeout_body c t k = kschedule c (k\<lparr>k_s := s1\<rparr>)"
    using t obj ins by (simp add: rt_thread_timeout_body_def)
  moreover have "th_error (s_thread s' t) = - 2 \<and> stat_base (th_stat (s_thread s' t)) \<in> {1, 3}"
    using run [of t] by (auto simp: th(1) same_run_def same_data_def split: if_splits)
  moreover have "same_run (thread k u) (s_thread s' u)" if "u \<noteq> t" for u
    using run [of u] that by (simp add: th(1))
  ultimately show ?thesis
    using s' th(2) cpu by (intro exI [of _ s']) simp
qed


text \<open>A timer list that holds thread timers only, in order.\<close>

definition sleepers :: "u32 \<Rightarrow> objs \<Rightarrow> bool" where
  "sleepers b x \<longleftrightarrow> sorted_from b x \<and> distinct (ob_timer_list x) \<and> ob_fired x = [] \<and>
     (\<forall>i \<in> set (ob_timer_list x). \<exists>t. i = ThTimer t)"

lemma fire_thread:
  assumes ok: "okc c k" and sl: "sleepers b (k_o k)" and l: "ob_timer_list (k_o k) = ThTimer t # js"
  shows "\<exists>s' x'. timer_fire k_o (\<lambda>x k. k\<lparr>k_o := x\<rparr>) (rt_tick_get c) (run_timeout user c) (ThTimer t) k =
      Some (k\<lparr>k_s := s', k_o := x'\<rparr>) \<and> okc c (k\<lparr>k_s := s', k_o := x'\<rparr>) \<and> sleepers b x' \<and>
    ob_timer_list x' = js \<and> ob_timer x' = ob_timer (k_o k) \<and>
    th_error (s_thread s' t) = - RT_ETIMEOUT \<and>
    stat_base (th_stat (s_thread s' t)) \<in> {RT_THREAD_READY, RT_THREAD_RUNNING} \<and>
    (\<forall>u. u \<noteq> t \<longrightarrow> same_run (thread k u) (s_thread s' u)) \<and>
    (\<forall>g. \<not> is_ready g \<longrightarrow> s_list s' g = filter (\<lambda>x. x \<noteq> t) (s_list (k_s k) g)) \<and>
    (\<forall>d. same_cpu (s_cpu (k_s k) d) (s_cpu s' d))"
proof -
  let ?i = "ThTimer t"
  have kk: "kok (k_s k) (k_o k)" by (rule okc_kok [OF ok])
  have t: "t \<noteq> 0" "stat_base (th_stat (thread k t)) = 2" using kk l by (auto simp: kok_def)
  have obj: "thread_obj t (k_o k)" using kok_obj [OF kk t(1)] t(2) by (simp add: live_def)
  define x1 where "x1 = (clear_flag ?i 1 (timer_remove ?i (k_o k)))\<lparr>ob_fired := [?i]\<rparr>"
  define x2 where "x2 = timer_remove ?i x1"
  have nin: "?i \<notin> set js" "distinct js" using sl l by (simp_all add: sleepers_def)
  have fr: "filter (\<lambda>x. x \<noteq> ?i) (ob_timer_list (k_o k)) = js" using nin by (simp add: l filter_neq_id)
  have fl: "ob_fired (k_o k) = []" using sl by (simp add: sleepers_def)
  have simps1: "timer_activated i x1 \<longleftrightarrow> i \<noteq> ?i \<and> timer_activated i (k_o k)"
    "timer_periodic i x1 = timer_periodic i (k_o k)" "thread_obj u x1 = thread_obj u (k_o k)" for i u
    by (auto simp: x1_def timer_activated_def timer_periodic_def thread_obj_def timer_ok_def rt_object_get_type_def)
  have simps2: "timer_activated i x2 = timer_activated i x1" "thread_obj u x2 = thread_obj u x1"
    "timer_periodic i x2 = timer_periodic i x1" for i u
    by (auto simp: x2_def timer_activated_def timer_periodic_def thread_obj_def timer_ok_def rt_object_get_type_def)
  have lists: "ob_timer_list x1 = js" "ob_timer_list x2 = js" "ob_fired x1 = [?i]" "ob_fired x2 = []"
    "ob_timer x1 = ob_timer (k_o k)" "ob_timer x2 = ob_timer (k_o k)"
    using fr nin(1) by (simp_all add: x1_def x2_def filter_neq_id)
  have kok1: "kok (k_s k) x1" using kk nin l by (auto simp: kok_def simps1 lists)
  have ok1: "okc c (k\<lparr>k_o := x1\<rparr>)" using ok kok1 by (simp add: okc_def kinv_def)
  have na: "\<not> timer_activated ?i (k_o (k\<lparr>k_o := x1\<rparr>))" by (simp add: simps1)
  have t2: "stat_base (th_stat (thread (k\<lparr>k_o := x1\<rparr>) t)) = 2" using t(2) by simp
  from timeout_ok [OF ok1 t(1) t2 na] obtain s' where
    s': "rt_thread_timeout_body c t (k\<lparr>k_o := x1\<rparr>) = Some (k\<lparr>k_o := x1\<rparr>\<lparr>k_s := s'\<rparr>)"
    "okc c (k\<lparr>k_o := x1\<rparr>\<lparr>k_s := s'\<rparr>)" "th_error (s_thread s' t) = - RT_ETIMEOUT"
    "stat_base (th_stat (s_thread s' t)) \<in> {RT_THREAD_READY, RT_THREAD_RUNNING}"
    "\<forall>u. u \<noteq> t \<longrightarrow> same_run (thread k u) (s_thread s' u)"
    "\<forall>g. \<not> is_ready g \<longrightarrow> s_list s' g = filter (\<lambda>x. x \<noteq> t) (s_list (k_s k) g)"
    "\<forall>d. same_cpu (s_cpu (k_s k) d) (s_cpu s' d)" by auto
  have np: "\<not> timer_periodic ?i (k_o k)" and fn: "tm_func (ob_timer (k_o k) ?i) = rt_thread_timeout t"
    using obj by (simp_all add: thread_obj_def)
  have np1: "\<not> timer_periodic ?i (timer_remove ?i (k_o k))" using np by (simp add: timer_periodic_def)
  have np2: "\<not> timer_periodic ?i (timer_remove ?i x1)" using np simps2(3) [of ?i] simps1(2) by (simp add: x2_def)
  have "timer_fire k_o (\<lambda>x k. k\<lparr>k_o := x\<rparr>) (rt_tick_get c) (run_timeout user c) ?i k =
      Some (k\<lparr>k_s := s', k_o := x2\<rparr>)"
    using np1 np2 fn fl s'(1)
    by (simp add: timer_fire_def Let_def run_timeout_def x1_def [symmetric] x2_def [symmetric] lists
        x1_def [unfolded fl, simplified, symmetric])
  moreover have "kok s' x2"
    using okc_kok [OF s'(2)] by (simp add: kok_def simps2 lists)
  then have "okc c (k\<lparr>k_s := s', k_o := x2\<rparr>)" using s'(2) by (simp add: okc_def kinv_def rt_thread_self_def)
  moreover have "sleepers b x2"
    using sl l nin by (simp add: sleepers_def lists sorted_from_def)
  ultimately show ?thesis using s'(3-7) lists by blast
qed


definition due :: "u32 \<Rightarrow> objs \<Rightarrow> nat \<Rightarrow> bool" where
  "due now x t \<longleftrightarrow> ThTimer t \<in> set (ob_timer_list x) \<and> expired now (ThTimer t) x"

text \<open>What the check does to threads and waiting lists, when \<open>D\<close> are the threads that time out.\<close>

definition timed_out :: "(nat \<Rightarrow> bool) \<Rightarrow> sched \<Rightarrow> sched \<Rightarrow> bool" where
  "timed_out D s s' \<longleftrightarrow>
     (\<forall>t. D t \<longrightarrow> th_error (s_thread s' t) = - RT_ETIMEOUT \<and>
        stat_base (th_stat (s_thread s' t)) \<in> {RT_THREAD_READY, RT_THREAD_RUNNING}) \<and>
     (\<forall>t. \<not> D t \<longrightarrow> same_run (s_thread s t) (s_thread s' t)) \<and>
     (\<forall>g. \<not> is_ready g \<longrightarrow> s_list s' g = filter (\<lambda>t. \<not> D t) (s_list s g)) \<and>
     (\<forall>d. same_cpu (s_cpu s d) (s_cpu s' d))"

lemma sorted_head_expired:
  assumes "sorted_from b x" "unat (now - b) < 2 ^ 30" "ob_timer_list x = i # js" "\<not> expired now i x"
    "j \<in> set (i # js)"
  shows "\<not> expired now j x"
proof -
  have small: "key b x j < 0x7fffffff" if "j \<in> set (i # js)" for j
    using assms(1,3) that by (auto simp: sorted_from_def)
  have "key b x i \<le> key b x j" using assms(1,3,5) by (auto simp: sorted_from_def)
  then show ?thesis
    using assms(4) expired_key [OF assms(2) small [OF assms(5)]] expired_key [OF assms(2) small [of i]] by simp
qed

lemma check_threads:
  assumes "okc c k" "sleepers b (k_o k)" "unat (rt_tick_get c k - b) < 2 ^ 30"
  defines "now \<equiv> rt_tick_get c k"
  shows "\<exists>s' x'. timer_check_loop k_o (\<lambda>x k. k\<lparr>k_o := x\<rparr>) (rt_tick_get c) (run_timeout user c) now k =
      Some (k\<lparr>k_s := s', k_o := x'\<rparr>) \<and> okc c (k\<lparr>k_s := s', k_o := x'\<rparr>) \<and> sleepers b x' \<and>
    ob_timer_list x' = filter (\<lambda>i. \<not> expired now i (k_o k)) (ob_timer_list (k_o k)) \<and>
    ob_timer x' = ob_timer (k_o k) \<and> timed_out (due now (k_o k)) (k_s k) s'"
  using assms(1-3) unfolding now_def
proof (induction "ob_timer_list (k_o k)" arbitrary: k)
  case Nil
  have "\<not> due n (k_o k) t" for n t using Nil(1) by (simp add: due_def Nil(1) [symmetric])
  then show ?case
    using Nil by (intro exI [of _ "k_s k"] exI [of _ "k_o k"], subst timer_check_loop.simps)
      (simp add: Nil(1) [symmetric] timed_out_def)
next
  case (Cons i js)
  let ?now = "rt_tick_get c k"
  have l: "ob_timer_list (k_o k) = i # js" using Cons.hyps(2) by simp
  obtain t where it: "i = ThTimer t" using Cons.prems(2) l by (auto simp: sleepers_def)
  show ?case
  proof (cases "expired ?now i (k_o k)")
    case False
    have none: "\<not> expired ?now j (k_o k)" if "j \<in> set (i # js)" for j
      using sorted_head_expired [OF _ Cons.prems(3) l False that] Cons.prems(2) by (simp add: sleepers_def)
    then have "\<not> due ?now (k_o k) u" for u by (auto simp: due_def l)
    moreover have "filter (\<lambda>i. \<not> expired ?now i (k_o k)) (i # js) = i # js" using none by (simp add: filter_id_conv)
    ultimately show ?thesis
      using Cons.prems False l by (intro exI [of _ "k_s k"] exI [of _ "k_o k"], subst timer_check_loop.simps)
        (simp add: timed_out_def)
  next
    case ex: True
    have lt: "ob_timer_list (k_o k) = ThTimer t # js" using l it by simp
    obtain s1 x1 where f: "timer_fire k_o (\<lambda>x k. k\<lparr>k_o := x\<rparr>) (rt_tick_get c) (run_timeout user c) i k =
        Some (k\<lparr>k_s := s1, k_o := x1\<rparr>)" "okc c (k\<lparr>k_s := s1, k_o := x1\<rparr>)" "sleepers b x1"
      "ob_timer_list x1 = js" "ob_timer x1 = ob_timer (k_o k)" "th_error (s_thread s1 t) = - RT_ETIMEOUT"
      "stat_base (th_stat (s_thread s1 t)) \<in> {RT_THREAD_READY, RT_THREAD_RUNNING}"
      "\<forall>u. u \<noteq> t \<longrightarrow> same_run (thread k u) (s_thread s1 u)"
      "\<forall>g. \<not> is_ready g \<longrightarrow> s_list s1 g = filter (\<lambda>x. x \<noteq> t) (s_list (k_s k) g)"
      "\<forall>d. same_cpu (s_cpu (k_s k) d) (s_cpu s1 d)"
      using fire_thread [OF Cons.prems(1,2) lt, of user, folded it] by (elim exE conjE) (rule that; (assumption | simp only: it))
    let ?k1 = "k\<lparr>k_s := s1, k_o := x1\<rparr>"
    have now1: "rt_tick_get c ?k1 = ?now" using f(10) by (simp add: rt_tick_get_def same_cpu_def)
    have js: "js = ob_timer_list (k_o ?k1)" by (simp add: f(4))
    have sl1: "sleepers b (k_o ?k1)" and n1: "unat (rt_tick_get c ?k1 - b) < 2 ^ 30"
      using f(3) Cons.prems(3) now1 by simp_all
    from Cons.hyps(1) [OF js f(2) sl1 n1, unfolded now1]
    obtain s' x' where ih: "timer_check_loop k_o (\<lambda>x k. k\<lparr>k_o := x\<rparr>) (rt_tick_get c) (run_timeout user c) ?now ?k1 =
        Some (?k1\<lparr>k_s := s', k_o := x'\<rparr>)" "okc c (?k1\<lparr>k_s := s', k_o := x'\<rparr>)" "sleepers b x'"
      "ob_timer_list x' = filter (\<lambda>i. \<not> expired ?now i x1) js" "ob_timer x' = ob_timer x1"
      "timed_out (due ?now x1) s1 s'"
      by (auto simp: f(4))
    have exp: "expired ?now j x1 = expired ?now j (k_o k)" for j by (simp add: expired_def f(5))
    have "distinct (ThTimer t # js)" using Cons.prems(2) lt by (simp add: sleepers_def)
    then have nin: "ThTimer t \<notin> set js" by simp
    have due1: "due ?now (k_o k) u \<longleftrightarrow> u = t \<or> due ?now x1 u" for u
      using ex by (auto simp: due_def l it f(4) exp)
    have ndue: "\<not> due ?now x1 t" using nin by (simp add: due_def f(4))
    have "timed_out (due ?now (k_o k)) (k_s k) s'"
      unfolding timed_out_def
    proof (intro conjI allI impI)
      fix u
      have r: "same_run (s_thread s1 t) (s_thread s' t)" using ih(6) ndue by (simp add: timed_out_def)
      show "th_error (s_thread s' u) = - 2" if "due ?now (k_o k) u"
        using that due1 ih(6) r f(6) by (auto simp: timed_out_def same_run_def same_data_def)
      show "stat_base (th_stat (s_thread s' u)) \<in> {1, 3}" if "due ?now (k_o k) u"
        using that due1 [of u] ih(6) r f(7) by (auto simp: timed_out_def same_run_def)
      show "same_run (thread k u) (s_thread s' u)" if "\<not> due ?now (k_o k) u"
        using that due1 [of u] ih(6) f(8) same_run_trans by (auto simp: timed_out_def)
    next
      fix g assume "\<not> is_ready g"
      then show "s_list s' g = filter (\<lambda>t. \<not> due ?now (k_o k) t) (s_list (k_s k) g)"
        using ih(6) f(9) by (simp add: timed_out_def due1 conj_commute)
    next
      fix d show "same_cpu (s_cpu (k_s k) d) (s_cpu s' d)"
        using ih(6) f(10) by (simp add: timed_out_def same_cpu_def)
    qed
    moreover have "timer_check_loop k_o (\<lambda>x k. k\<lparr>k_o := x\<rparr>) (rt_tick_get c) (run_timeout user c) ?now k =
        Some (k\<lparr>k_s := s', k_o := x'\<rparr>)"
      by (subst timer_check_loop.simps) (use ih(1) in \<open>simp add: l ex f(1) now1 [simplified]\<close>)
    moreover have "okc c (k\<lparr>k_s := s', k_o := x'\<rparr>)" using ih(2) by simp
    ultimately show ?thesis
      using ih(3-5) f(5) ex by (intro exI [of _ s'] exI [of _ x']) (simp add: l exp)
  qed
qed

lemma okc_lock: "okc c (on_s (rt_cpus_lock d) k) = okc c k" "okc c (on_s (rt_cpus_unlock d) k) = okc c k"
proof -
  have st: "th_stat (s_thread (rt_cpus_lock d s) t) = th_stat (s_thread s t)"
    "th_stat (s_thread (rt_cpus_unlock d s) t) = th_stat (s_thread s t)" for s t by simp_all
  have stk: "rt_scheduler_stack_check (s_thread (rt_cpus_unlock d s) t) = rt_scheduler_stack_check (s_thread s t)" for s t
    by (simp add: rt_cpus_unlock_def Let_def rt_scheduler_stack_check_def)
  show "okc c (on_s (rt_cpus_lock d) k) = okc c k" "okc c (on_s (rt_cpus_unlock d) k) = okc c k"
    by (simp_all add: okc_def kinv_def kok_def live_def all_stacks_def st stk rt_thread_self_def)
qed

lemma lock_same_run: "same_run (s_thread s t) (s_thread (rt_cpus_lock c s) t)"
  "same_run (s_thread s t) (s_thread (rt_cpus_unlock c s) t)"
  using sframe_lock by (simp_all add: sframe_def)

lemma timed_out_run:
  assumes "timed_out D s1 s2" "\<And>t. same_run (s_thread s t) (s_thread s1 t)" "\<And>t. same_run (s_thread s2 t) (s_thread s' t)"
    and "s_list s1 = s_list s" "s_list s' = s_list s2" "s_cpu s1 = s_cpu s" "s_cpu s' = s_cpu s2"
  shows "timed_out D s s'"
  unfolding timed_out_def
proof (intro conjI allI impI)
  fix t assume "D t"
  then have "th_error (s_thread s2 t) = - 2" "stat_base (th_stat (s_thread s2 t)) \<in> {1, 3}"
    using assms(1) unfolding timed_out_def by blast+
  with assms(3) [of t] show "th_error (s_thread s' t) = - 2" "stat_base (th_stat (s_thread s' t)) \<in> {1, 3}"
    unfolding same_run_def same_data_def by auto
next
  fix t assume "\<not> D t"
  then have "same_run (s_thread s1 t) (s_thread s2 t)" using assms(1) unfolding timed_out_def by blast
  then show "same_run (s_thread s t) (s_thread s' t)"
    using same_run_trans [OF same_run_trans [OF assms(2)] assms(3)] by blast
qed (use assms(1,4-7) in \<open>auto simp: timed_out_def\<close>)

subsection \<open>Sleeping\<close>

lemma started_sleepers:
  assumes "sleepers b x" "timer_ok (ThTimer t) x" "ticks < TICK_HALF" "unat (now + ticks - b) < 0x7fffffff"
  shows "sleepers b (started now t ticks x)"
proof -
  let ?i = "ThTimer t"
  let ?x = "upd_timer ?i (\<lambda>tm. tm\<lparr>tm_init_tick := ticks\<rparr>) x"
  have s: "sorted_from b ?x"
  proof -
    have "(\<lambda>i. key b ?x i) = (\<lambda>i. key b x i)" by (rule ext) simp
    then have "sorted (map (key b ?x) (ob_timer_list ?x))"
      using assms(1) unfolding sleepers_def sorted_from_def by (simp only: timer_simps)
    moreover have "\<forall>i \<in> set (ob_timer_list ?x). key b ?x i < 0x7fffffff"
      using assms(1) by (simp add: sleepers_def sorted_from_def)
    ultimately show ?thesis by (simp add: sorted_from_def)
  qed
  have ok: "timer_ok ?i ?x" "tm_init_tick (ob_timer ?x ?i) < TICK_HALF"
    "unat (now + tm_init_tick (ob_timer ?x ?i) - b) < 0x7fffffff"
    using assms by (simp_all add: timer_ok_def)
  obtain x' where x': "rt_timer_start now ?i ?x = Some x'" "sorted_from b x'"
    "set (ob_timer_list x') = insert ?i (set (ob_timer_list ?x))"
    "distinct (ob_timer_list ?x) \<longrightarrow> distinct (ob_timer_list x')"
    "ob_fired x' = filter (\<lambda>x. x \<noteq> ?i) (ob_fired ?x)"
    using start_ok [OF ok(1,2) s ok(3)] by blast
  have "started now t ticks x = x'" by (simp add: started_def x'(1))
  with x' assms(1) show ?thesis by (auto simp: sleepers_def)
qed

lemma sleep_ok:
  assumes ok: "okc c k" "running c k" and sl: "sleepers b (k_o k)" and tick: "tick < TICK_HALF"
    and key: "unat (rt_tick_get c k + tick - b) < 0x7fffffff"
  defines "t \<equiv> rt_thread_self c k"
  shows "\<exists>k'. rt_thread_sleep c tick k = Some k' \<and> okc c k' \<and> sleepers b (k_o k') \<and>
    stat_base (th_stat (thread k' t)) = RT_THREAD_SUSPEND \<and>
    set (ob_timer_list (k_o k')) = insert (ThTimer t) (set (ob_timer_list (k_o k))) \<and>
    tm_timeout_tick (ob_timer (k_o k') (ThTimer t)) = rt_tick_get c k + tick \<and>
    rt_tick_get c k' = rt_tick_get c k \<and>
    (\<forall>g. \<not> is_ready g \<longrightarrow> s_list (k_s k') g = s_list (k_s k) g) \<and>
    (\<forall>u. u \<noteq> t \<longrightarrow> same_run (thread k u) (thread k' u) \<and> ob_timer (k_o k') (ThTimer u) = ob_timer (k_o k) (ThTimer u))"
proof -
  have t0: "t \<noteq> 0" and kv: "kinv k" using ok(1) by (simp_all add: okc_def t_def)
  have st: "stat_base (th_stat (thread k t)) = 3" using ok(2) by (simp add: running_def t_def)
  then have obj: "thread_obj t (k_o k)" using kok_obj [OF okc_kok [OF ok(1)] t0] by (simp add: live_def)
  obtain s1 where s1: "rt_thread_suspend c t k = Some (RT_EOK, k\<lparr>k_s := s1\<rparr>)" "kok s1 (k_o k)" "in_no_list t s1"
    "s_list s1 = (\<lambda>h. filter (\<lambda>x. x \<noteq> t) (s_list (k_s k) h))"
    "s_thread s1 = (s_thread (k_s k))(t := with_stat RT_THREAD_SUSPEND (thread k t))"
    "\<forall>d. \<exists>g. s_cpu s1 d = (s_cpu (k_s k) d)\<lparr>cpu_priority_group := g\<rparr>"
    using suspend_ok [OF kv t0, of c] st t_def by auto
  have cpu: "cpu_tick (s_cpu s1 c) = cpu_tick (s_cpu (k_s k) c)" "current c s1 = current c (k_s k)"
    using spec [OF s1(6), of c] by auto
  let ?k1 = "k\<lparr>k_s := s1\<rparr>"
  have now1: "rt_tick_get c ?k1 = rt_tick_get c k" using cpu by (simp add: rt_tick_get_def)
  let ?x = "started (rt_tick_get c k) t tick (k_o k)"
  have kk: "kok (k_s ?k1) (k_o ?k1)" "stat_base (th_stat (thread ?k1 t)) = 2" using s1(2,5) by simp_all
  have ts: "thread_timer_start c t tick ?k1 = Some (?k1\<lparr>k_o := ?x\<rparr>)" "kok s1 ?x"
    using thread_timer_start_ok [OF kk(1) t0 kk(2) tick, of c] by (simp_all add: now1)
  let ?k2 = "?k1\<lparr>k_o := ?x\<rparr>"
  have stacks: "all_stacks s1"
    using ok(1) st by (auto simp: okc_def all_stacks_def s1(5) live_def)
  have "okc c ?k2"
    using ts(2) ok(1) cpu(2) stacks by (simp add: okc_def kinv_def rt_thread_self_def)
  from kschedule_ok [OF this] obtain s' where s': "kschedule c ?k2 = Some (?k2\<lparr>k_s := s'\<rparr>)"
    "okc c (?k2\<lparr>k_s := s'\<rparr>)" "sframe s1 s'" "\<forall>h. \<not> is_ready h \<longrightarrow> s_list s' h = s_list s1 h" by auto
  have tok: "timer_ok (ThTimer t) (k_o k)" using obj by (simp add: thread_obj_def)
  note sf = started_facts [OF tok tick]
  have nl: "t \<notin> set (s_list (k_s k) g)" for g
    using running_no_list [of "k_s k" t] okc_kok [OF ok(1)] st by (auto simp: kok_def sched_inv_def in_no_list_def)
  have run: "same_run (s_thread s1 u) (s_thread s' u)" for u using s'(3) by (simp add: sframe_def)
  have "rt_thread_sleep c tick k = Some (?k2\<lparr>k_s := s'\<rparr>)"
    using t0 obj s1(1) ts(1) s'(1) by (simp add: rt_thread_sleep_def t_def [symmetric] thread_obj_def Let_def)
  moreover have "stat_base (th_stat (s_thread s' t)) = 2" using run [of t] by (auto simp: same_run_def s1(5))
  moreover have "same_run (thread k u) (s_thread s' u)" if "u \<noteq> t" for u using run [of u] that by (simp add: s1(5))
  moreover have "s_list s' g = s_list (k_s k) g" if "\<not> is_ready g" for g
    using s'(4) that nl by (simp add: s1(4) filter_neq_id)
  moreover have "cpu_tick (s_cpu s' c) = cpu_tick (s_cpu (k_s k) c)"
    using s'(3) cpu by (simp add: sframe_def same_cpu_def)
  ultimately show ?thesis
    using s'(2) started_sleepers [OF sl tok tick key]
    by (intro exI [of _ "?k2\<lparr>k_s := s'\<rparr>"]) (auto simp: sf rt_tick_get_def)
qed

text \<open>Fact: \<open>rt_thread_sleep\<close> suspends the running thread with its timer, due at the current tick
  plus the given ticks, in order on the timer list; it gives way, and no waiting list and no
  other thread's timer changes.\<close>

theorem rt_thread_sleep_spec:
  assumes "okc c k" "running c k" "sleepers b (k_o k)" "tick < TICK_HALF"
    and "unat (rt_tick_get c k + tick - b) < 0x7fffffff"
  defines "t \<equiv> rt_thread_self c k"
  shows "\<exists>k'. rt_thread_sleep c tick k = Some k' \<and> okc c k' \<and> sleepers b (k_o k') \<and>
    stat_base (th_stat (thread k' t)) = RT_THREAD_SUSPEND \<and>
    set (ob_timer_list (k_o k')) = insert (ThTimer t) (set (ob_timer_list (k_o k))) \<and>
    tm_timeout_tick (ob_timer (k_o k') (ThTimer t)) = rt_tick_get c k + tick \<and>
    (\<forall>g. \<not> is_ready g \<longrightarrow> s_list (k_s k') g = s_list (k_s k) g) \<and>
    (\<forall>u. u \<noteq> t \<longrightarrow> same_run (thread k u) (thread k' u) \<and> ob_timer (k_o k') (ThTimer u) = ob_timer (k_o k) (ThTimer u))"
  using sleep_ok [OF assms(1-5)] unfolding t_def by blast

lemma sample_sleepers: "sleepers 0 (k_o (sample_kernel cls))"
  by (simp add: sleepers_def sorted_from_def)

lemma sample_tick [simp]: "rt_tick_get 0 (sample_kernel cls) = 0"
  by (simp add: rt_tick_get_def sample_sched_def sample_cpu_def)

lemma rt_thread_sleep_spec_witness:
  "\<exists>k'. rt_thread_sleep 0 5 (sample_kernel 2) = Some k' \<and> set (ob_timer_list (k_o k')) = {ThTimer 1}"
  using rt_thread_sleep_spec [OF sample_okc [of 2] sample_running(1) sample_sleepers, of 5] by auto

text \<open>C14: \<open>rt_timer_check\<close> on a timer list of sleeping threads ends, and it wakes exactly the
  threads whose time has come: each becomes runnable with the error \<open>-RT_ETIMEOUT\<close>, leaves
  whatever waiting list it was on, and its timer is gone; all other threads and waiters stay as
  they were, across a wrap-around of the tick.\<close>

theorem rt_timer_check_wakes:
  assumes "okc c k" "sleepers b (k_o k)" "unat (rt_tick_get c k - b) < 2 ^ 30"
  defines "now \<equiv> rt_tick_get c k"
  shows "\<exists>k'. rt_timer_check user c k = Some k' \<and> okc c k' \<and> sleepers b (k_o k') \<and>
    ob_timer_list (k_o k') = filter (\<lambda>i. \<not> expired now i (k_o k)) (ob_timer_list (k_o k)) \<and>
    timed_out (due now (k_o k)) (k_s k) (k_s k') \<and>
    (\<forall>t. due now (k_o k) t \<longrightarrow> rt_sem_take_resumed t k' = - RT_ETIMEOUT \<and>
       th_error (thread (rt_thread_sleep_resumed t k') t) = RT_EOK)"
proof -
  let ?k = "on_s (rt_cpus_lock c) k"
  have pre: "okc c ?k" "sleepers b (k_o ?k)" "unat (rt_tick_get c ?k - b) < 2 ^ 30"
    using assms(1-3) by (simp_all add: okc_lock rt_tick_get_def)
  have now: "rt_tick_get c ?k = now" by (simp add: now_def rt_tick_get_def)
  from check_threads [OF pre, of user, unfolded now] obtain s' x' where
    k': "timer_check_loop k_o (\<lambda>x k. k\<lparr>k_o := x\<rparr>) (rt_tick_get c) (run_timeout user c) now ?k =
      Some (?k\<lparr>k_s := s', k_o := x'\<rparr>)" "okc c (?k\<lparr>k_s := s', k_o := x'\<rparr>)" "sleepers b x'"
    "ob_timer_list x' = filter (\<lambda>i. \<not> expired now i (k_o k)) (ob_timer_list (k_o k))"
    "timed_out (due now (k_o k)) (rt_cpus_lock c (k_s k)) s'"
    unfolding on_simps by (elim exE conjE) (rule that; assumption)
  let ?k' = "on_s (rt_cpus_unlock c) (?k\<lparr>k_s := s', k_o := x'\<rparr>)"
  have "rt_timer_check user c k = Some ?k'"
    using k'(1) by (simp add: rt_timer_check_def now_def [symmetric])
  moreover have "okc c ?k'" using k'(2) by (simp only: okc_lock)
  moreover have to: "timed_out (due now (k_o k)) (k_s k) (rt_cpus_unlock c s')"
    by (rule timed_out_run [OF k'(5) lock_same_run(1) lock_same_run(2)]) simp_all
  moreover have "rt_sem_take_resumed t ?k' = - 2 \<and> th_error (thread (rt_thread_sleep_resumed t ?k') t) = 0"
    if "due now (k_o k) t" for t
    using to that by (simp add: timed_out_def rt_sem_take_resumed_def rt_thread_sleep_resumed_def)
  ultimately show ?thesis
    using k'(3,4) by (intro exI [of _ ?k']) simp
qed


lemma rt_timer_check_wakes_witness:
  "\<exists>k k'. rt_thread_sleep 0 0 (sample_kernel 2) = Some k \<and> stat_base (th_stat (thread k 1)) = RT_THREAD_SUSPEND \<and>
     rt_timer_check (\<lambda>_ _. Some) 0 k = Some k' \<and> th_error (thread k' 1) = - RT_ETIMEOUT \<and>
     ThTimer 1 \<notin> set (ob_timer_list (k_o k'))"
proof -
  obtain k where k: "rt_thread_sleep 0 0 (sample_kernel 2) = Some k" "okc 0 k" "sleepers 0 (k_o k)"
    "stat_base (th_stat (thread k 1)) = 2" "set (ob_timer_list (k_o k)) = {ThTimer 1}"
    "tm_timeout_tick (ob_timer (k_o k) (ThTimer 1)) = 0" "rt_tick_get 0 k = 0"
    using sleep_ok [OF sample_okc [of 2] sample_running(1) sample_sleepers, of 0] by auto
  have "due 0 (k_o k) 1" using k(5,6) by (simp add: due_def expired_def)
  with k rt_timer_check_wakes [OF k(2,3), of "\<lambda>_ _. Some"] show ?thesis
    by (auto simp: timed_out_def due_def)
qed

end
