(* ===== verification/ThreadLife.thy ===== *)
theory ThreadLife
  imports Thread
begin

section \<open>Properties of a thread's life\<close>

subsection \<open>Starting\<close>

lemma startup_state:
  assumes ok: "okc c k" and t: "t \<noteq> 0" "stat_base (th_stat (thread k t)) = RT_THREAD_INIT" "thread_obj t (k_o k)"
    and th: "unat (th_init_priority (thread k t)) < 32" "th_bind_cpu (thread k t) < RT_CPUS_NR"
      "th_oncpu (thread k t) = RT_CPU_DETACHED" "in_no_list t (k_s k)"
      "rt_scheduler_stack_check (thread k t) = Some ()"
  defines "k0 \<equiv> on_s (upd_thread t (\<lambda>th. th\<lparr>th_current_priority := th_init_priority th,
                th_number_mask := push_bit (unat (th_init_priority th)) 1, th_stat := RT_THREAD_SUSPEND\<rparr>)) k"
  shows "okc c k0"
proof -
  let ?f = "\<lambda>th :: rt_thread. th\<lparr>th_current_priority := th_init_priority th,
                th_number_mask := push_bit (unat (th_init_priority th)) 1, th_stat := RT_THREAD_SUSPEND\<rparr>"
  let ?s = "upd_thread t ?f (k_s k)"
  have kk: "kok (k_s k) (k_o k)" by (rule okc_kok [OF ok])
  then have inv: "sched_inv (k_s k)" by (simp add: kok_def)
  have lo: "lists_ok ?s" "groups_ok ?s"
    using inv upd_thread_lists(1) [OF _ th(4)] upd_thread_lists(2) by (auto simp: sched_inv_def)
  have "sched_inv ?s"
    by (rule inv_one_thread [OF inv lo t(1), where th' = "?f (thread k t)"]) (use th in \<open>auto simp: thread_wf_def\<close>)
  moreover have "timer_activated (ThTimer t) (k_o k) = False" "ThTimer t \<notin> set (ob_timer_list (k_o k))"
    using kk t(2) by (auto simp: kok_def)
  ultimately have "kok ?s (k_o k)"
    using kk t by (auto simp: kok_def live_def)
  moreover have "all_stacks ?s"
    using ok th(5) by (auto simp: okc_def all_stacks_def live_def rt_scheduler_stack_check_def)
  ultimately show ?thesis using ok by (simp add: okc_def k0_def kinv_def rt_thread_self_def)
qed

text \<open>Fact: starting an initialised thread succeeds: it gets its initial priority, joins the end of
  the ready list of its CPU, and the scheduler is called, in a consistent state.\<close>

theorem rt_thread_startup_spec:
  assumes "okc c k" "t \<noteq> 0" "stat_base (th_stat (thread k t)) = RT_THREAD_INIT" "thread_obj t (k_o k)"
    and "unat (th_init_priority (thread k t)) < 32" "th_bind_cpu (thread k t) < RT_CPUS_NR"
      "th_oncpu (thread k t) = RT_CPU_DETACHED" "in_no_list t (k_s k)"
      "rt_scheduler_stack_check (thread k t) = Some ()"
  defines "h \<equiv> Ready (th_bind_cpu (thread k t)) (unat (th_init_priority (thread k t)))"
  shows "\<exists>k1 k'. okc c k1 \<and> s_list (k_s k1) h = s_list (k_s k) h @ [t] \<and>
    stat_base (th_stat (thread k1 t)) = RT_THREAD_READY \<and>
    th_current_priority (thread k1 t) = th_init_priority (thread k t) \<and>
    (\<forall>u. u \<noteq> t \<longrightarrow> thread k1 u = thread k u) \<and>
    kschedule c k1 = Some k' \<and> rt_thread_startup c t k = Some (RT_EOK, k') \<and> okc c k' \<and> live (thread k' t)"
proof -
  let ?k0 = "on_s (upd_thread t (\<lambda>th. th\<lparr>th_current_priority := th_init_priority th,
                th_number_mask := push_bit (unat (th_init_priority th)) 1, th_stat := RT_THREAD_SUSPEND\<rparr>)) k"
  have ok0: "okc c ?k0" by (rule startup_state [OF assms(1-9)])
  have st0: "stat_base (th_stat (thread ?k0 t)) = 2" by simp
  obtain s1 where s1: "rt_thread_resume c t ?k0 = Some (RT_EOK, ?k0\<lparr>k_s := s1, k_o := stopped t (k_o ?k0)\<rparr>)"
    "okc c (?k0\<lparr>k_s := s1, k_o := stopped t (k_o ?k0)\<rparr>)" "woken t (k_s ?k0) s1"
    using resume_woken [OF ok0 assms(2) st0] by blast
  let ?k1 = "?k0\<lparr>k_s := s1, k_o := stopped t (k_o ?k0)\<rparr>"
  obtain s' where s': "kschedule c ?k1 = Some (?k1\<lparr>k_s := s'\<rparr>)" "okc c (?k1\<lparr>k_s := s'\<rparr>)" "sframe s1 s'"
    using kschedule_ok [OF s1(2)] by auto
  have w: "s_list s1 h = s_list (k_s k) h @ [t]" "stat_base (th_stat (s_thread s1 t)) = 1"
    "th_current_priority (s_thread s1 t) = th_init_priority (thread k t)" "\<forall>u. u \<noteq> t \<longrightarrow> s_thread s1 u = thread k u"
    using s1(3) assms(7,8) by (auto simp: woken_def Let_def h_def in_no_list_def filter_neq_id)
  have "same_run (s_thread s1 t) (s_thread s' t)" using s'(3) by (simp add: sframe_def)
  then have "live (s_thread s' t)" using w(2) same_run_live by (simp add: live_def same_run_def) auto
  moreover have "rt_thread_startup c t k = Some (RT_EOK, ?k1\<lparr>k_s := s'\<rparr>)"
    using assms(2-4) s1(1) s'(1) okc_self [OF s1(2)] by (simp add: rt_thread_startup_def thread_obj_def)
  ultimately show ?thesis
    using s1(2) s'(1,2) w by (intro exI [of _ ?k1] exI [of _ "?k1\<lparr>k_s := s'\<rparr>"]) simp
qed


lemma rt_thread_startup_spec_witness:
  "\<exists>k'. rt_thread_startup 0 5 (sample_kernel 2) = Some (RT_EOK, k') \<and> live (thread k' 5)"
proof -
  have th: "s_thread (sample_sched 3) 5 = sample_thread 10 0 0 2" by (simp add: sample_sched_def)
  have "in_no_list 5 (sample_sched 3)" by (simp add: in_no_list_def sample_lists)
  with rt_thread_startup_spec [OF sample_okc [of 2], of 5] show ?thesis
    by (auto simp: th sample_thread_def rt_scheduler_stack_check_def)
qed

subsection \<open>Ending\<close>

text \<open>The scheduler and object state once a live thread is off its list, closed, and its timer detached.\<close>

definition detached :: "oid \<Rightarrow> objs \<Rightarrow> objs" where
  "detached i x = olist_remove i (upd_obj i (\<lambda>ob. ob\<lparr>o_type := 0\<rparr>) x)"

lemma detached_simps [simp]:
  "ob_timer (detached i x) = ob_timer x" "ob_timer_list (detached i x) = ob_timer_list x"
  "o_flag (ob_obj (detached i x) j) = o_flag (ob_obj x j)"
  "timer_activated j (detached i x) = timer_activated j x" "timer_periodic j (detached i x) = timer_periodic j x"
  "rt_object_get_type j (detached i x) = (if j = i then 0 else rt_object_get_type j x)"
  "j \<noteq> i \<Longrightarrow> rt_object_is_systemobject j (detached i x) = rt_object_is_systemobject j x"
  "timer_ok j (detached i x) \<longleftrightarrow> j \<noteq> i \<and> timer_ok j x"
  by (auto simp: detached_def timer_activated_def timer_periodic_def rt_object_get_type_def
      rt_object_is_systemobject_def timer_ok_def)

definition timer_gone :: "nat \<Rightarrow> objs \<Rightarrow> objs" where
  "timer_gone t x = detached (ThTimer t) (clear_flag (ThTimer t) RT_TIMER_FLAG_ACTIVATED (timer_remove (ThTimer t) x))"

lemma timer_gone_simps [simp]:
  "ob_timer (timer_gone t x) = ob_timer x"
  "ob_timer_list (timer_gone t x) = filter (\<lambda>i. i \<noteq> ThTimer t) (ob_timer_list x)"
  "o_flag (ob_obj (timer_gone t x) (Obj a)) = o_flag (ob_obj x (Obj a))"
  "timer_activated j (timer_gone t x) \<longleftrightarrow> j \<noteq> ThTimer t \<and> timer_activated j x"
  "timer_periodic j (timer_gone t x) = timer_periodic j x"
  "rt_object_get_type j (timer_gone t x) = (if j = ThTimer t then 0 else rt_object_get_type j x)"
  "j \<noteq> ThTimer t \<Longrightarrow> rt_object_is_systemobject j (timer_gone t x) = rt_object_is_systemobject j x"
  "timer_ok j (timer_gone t x) \<longleftrightarrow> j \<noteq> ThTimer t \<and> timer_ok j x"
  by (auto simp: timer_gone_def timer_activated_def timer_periodic_def timer_ok_def)

lemma timer_detach_ok:
  assumes "timer_ok (ThTimer t) x" "rt_object_is_systemobject (ThTimer t) x"
  shows "rt_timer_detach (ThTimer t) x = Some (timer_gone t x)"
  using assms by (simp add: rt_timer_detach_def timer_ok_def rt_object_detach_def timer_gone_def detached_def)

lemma set_stat_simps [simp]:
  "k_o (set_stat t st k) = k_o k" "k_s (set_stat t st k) = upd_thread t (\<lambda>th. th\<lparr>th_stat := st\<rparr>) (k_s k)"
  "k_spin (set_stat t st k) = k_spin k" "k_sem (set_stat t st k) = k_sem k"
  by (simp_all add: set_stat_def)

lemma close_ok:
  assumes ok: "okc c k" and t: "t \<noteq> 0" "live (thread k t)"
  shows "\<exists>s1. rt_schedule_remove_thread t (k_s k) = Some s1 \<and> in_no_list t s1 \<and> s_thread s1 = s_thread (k_s k) \<and>
    s_list s1 = (\<lambda>h. filter (\<lambda>x. x \<noteq> t) (s_list (k_s k) h)) \<and>
    okc c (k\<lparr>k_s := upd_thread t (\<lambda>th. th\<lparr>th_stat := RT_THREAD_CLOSE\<rparr>) s1, k_o := timer_gone t (k_o k)\<rparr>) \<and>
    kok (upd_thread t (\<lambda>th. th\<lparr>th_stat := RT_THREAD_CLOSE\<rparr>) s1) (detached (Obj t) (timer_gone t (k_o k))) \<and>
    thread_wf (thread k t) \<and> (\<forall>d. cpu_irq_nest (s_cpu s1 d) = cpu_irq_nest (s_cpu (k_s k) d))"
proof -
  let ?f = "\<lambda>th :: rt_thread. th\<lparr>th_stat := RT_THREAD_CLOSE\<rparr>"
  have kk: "kok (k_s k) (k_o k)" by (rule okc_kok [OF ok])
  then have inv: "sched_inv (k_s k)" by (simp add: kok_def)
  then have l: "lists_ok (k_s k)" "groups_ok (k_s k)" "thread_ok (k_s k) t" using t by (auto simp: sched_inv_def)
  have wf: "thread_wf (thread k t)" using l(3) t(2) by (auto simp: thread_ok_def Let_def live_def)
  obtain s1 where s1: "rt_schedule_remove_thread t (k_s k) = Some s1" "lists_ok s1" "groups_ok s1" "in_no_list t s1"
    "s_thread s1 = s_thread (k_s k)" "s_list s1 = (\<lambda>h. filter (\<lambda>x. x \<noteq> t) (s_list (k_s k) h))"
    "\<forall>d. \<exists>g. s_cpu s1 d = (s_cpu (k_s k) d)\<lparr>cpu_priority_group := g\<rparr>"
    using remove_thread_ok [OF l(1,2) t(1) wf] by blast
  have cur: "current d s1 = current d (k_s k)" "cpu_irq_nest (s_cpu s1 d) = cpu_irq_nest (s_cpu (k_s k) d)" for d
    using spec [OF s1(7), of d] by auto
  let ?s = "upd_thread t ?f s1"
  have inv': "sched_inv ?s"
    by (rule inv_one_thread [OF inv _ _ t(1), where th' = "?f (thread k t)"])
      (use upd_thread_lists(1) [OF s1(2,4)] upd_thread_lists(2) [OF s1(3)] wf cur in
        \<open>auto simp: s1(5,6) thread_wf_def\<close>)
  have dead: "\<not> live (?f th)" for th by (simp add: live_def)
  have kok1: "kok ?s (timer_gone t (k_o k))" "kok ?s (detached (Obj t) (timer_gone t (k_o k)))"
    using kk inv' dead by (auto simp: kok_def s1(5) thread_obj_def)
  have st: "all_stacks ?s"
    using ok dead by (auto simp: okc_def all_stacks_def s1(5))
  show ?thesis
    using s1(1,4-6) kok1 st ok cur wf
    by (intro exI [of _ s1]) (simp add: okc_def kinv_def rt_thread_self_def)
qed

text \<open>Fact: detaching a live static thread takes it off whatever ready or waiting list it is on,
  closes it, removes its timer, and unregisters thread and timer; everyone else stays on their
  lists, and detaching it once more fails the assertion that it is a thread.\<close>

theorem rt_thread_detach_spec:
  assumes "okc c k" "t \<noteq> 0" "live (thread k t)" "th_cleanup (thread k t) = 0"
    and "rt_object_is_systemobject (Obj t) (k_o k)" "rt_object_is_systemobject (ThTimer t) (k_o k)"
  shows "\<exists>k'. rt_thread_detach cln c sys t k = Some (RT_EOK, k') \<and> okc c k' \<and> in_no_list t (k_s k') \<and>
    stat_base (th_stat (thread k' t)) = RT_THREAD_CLOSE \<and> ThTimer t \<notin> set (ob_timer_list (k_o k')) \<and>
    rt_object_get_type (Obj t) (k_o k') = 0 \<and> rt_object_get_type (ThTimer t) (k_o k') = 0 \<and>
    (\<forall>g. s_list (k_s k') g = filter (\<lambda>x. x \<noteq> t) (s_list (k_s k) g)) \<and>
    (\<forall>u. u \<noteq> t \<longrightarrow> thread k' u = thread k u) \<and> rt_thread_detach cln c sys t k' = None"
proof -
  have obj: "thread_obj t (k_o k)" using kok_obj [OF okc_kok [OF assms(1)] assms(2,3)] .
  obtain s1 where s1: "rt_schedule_remove_thread t (k_s k) = Some s1" "in_no_list t s1" "s_thread s1 = s_thread (k_s k)"
    "s_list s1 = (\<lambda>h. filter (\<lambda>x. x \<noteq> t) (s_list (k_s k) h))"
    "okc c (k\<lparr>k_s := upd_thread t (\<lambda>th. th\<lparr>th_stat := RT_THREAD_CLOSE\<rparr>) s1, k_o := timer_gone t (k_o k)\<rparr>)"
    "kok (upd_thread t (\<lambda>th. th\<lparr>th_stat := RT_THREAD_CLOSE\<rparr>) s1) (detached (Obj t) (timer_gone t (k_o k)))"
    using close_ok [OF assms(1-3)] by blast
  let ?k' = "k\<lparr>k_s := upd_thread t (\<lambda>th. th\<lparr>th_stat := RT_THREAD_CLOSE\<rparr>) s1, k_o := detached (Obj t) (timer_gone t (k_o k))\<rparr>"
  have "stat_base (th_stat (thread k t)) \<noteq> 4" "stat_base (th_stat (thread k t)) \<noteq> 0"
    using assms(3) by (auto simp: live_def)
  then have "rt_thread_detach cln c sys t k = Some (RT_EOK, ?k')"
    using assms(2,4-6) obj s1(1,3)
    by (simp add: rt_thread_detach_def thread_obj_def Let_def lift_s_def lift_o_def thread_cleanup_execute_def
        timer_detach_ok set_stat_def on_s_def rt_object_detach_def detached_def)
  moreover have "okc c ?k'" using s1(5,6) by (simp add: okc_def kinv_def rt_thread_self_def)
  moreover have "rt_thread_detach cln c sys t ?k' = None" by (simp add: rt_thread_detach_def)
  ultimately show ?thesis
    using s1(2-4) by (intro exI [of _ ?k']) (simp add: in_no_list_def)
qed

lemma rt_thread_detach_spec_witness:
  "\<exists>k'. rt_thread_detach (\<lambda>_ _. Some) 0 0 2 (sample_kernel 2) = Some (RT_EOK, k') \<and> s_list (k_s k') (Ready 0 10) = []"
proof -
  have "live (s_thread (sample_sched 3) 2)" unfolding sample_live by simp
  moreover have "rt_object_is_systemobject (Obj 2) (sample_objs 2)" "rt_object_is_systemobject (ThTimer 2) (sample_objs 2)"
    by (simp_all add: rt_object_is_systemobject_def sample_objs_def)
  ultimately show ?thesis
    using rt_thread_detach_spec [OF sample_okc [of 2], of 2 "\<lambda>_ _. Some" 0] by (auto simp: sample_thread_def)
qed

subsection \<open>Priorities\<close>

lemma change_priority_ok:
  assumes "okc c k" "t \<noteq> 0" "live (thread k t)" "unat prio < 32"
  defines "h \<equiv> Ready (th_bind_cpu (thread k t)) (unat prio)"
  shows "\<exists>s'. change_priority c t prio k = Some (k\<lparr>k_s := s'\<rparr>) \<and> is_thread t k \<and> okc c (k\<lparr>k_s := s'\<rparr>) \<and>
    th_current_priority (s_thread s' t) = prio \<and> th_error (s_thread s' t) = th_error (thread k t) \<and>
    stat_base (th_stat (s_thread s' t)) = stat_base (th_stat (thread k t)) \<and>
    (\<forall>u. u \<noteq> t \<longrightarrow> s_thread s' u = thread k u) \<and>
    s_list s' = (if stat_base (th_stat (thread k t)) = RT_THREAD_READY
      then (\<lambda>g. filter (\<lambda>x. x \<noteq> t) (s_list (k_s k) g) @ (if g = h then [t] else [])) else s_list (k_s k)) \<and>
    (\<forall>d. current d s' = current d (k_s k) \<and> same_cpu (s_cpu (k_s k) d) (s_cpu s' d))"
proof -
  let ?f = "\<lambda>th :: rt_thread. th\<lparr>th_current_priority := prio, th_number_mask := push_bit (unat prio) 1\<rparr>"
  have kk: "kok (k_s k) (k_o k)" by (rule okc_kok [OF assms(1)])
  then have inv: "sched_inv (k_s k)" by (simp add: kok_def)
  then have l: "lists_ok (k_s k)" "groups_ok (k_s k)" "thread_ok (k_s k) t" using assms(2) by (auto simp: sched_inv_def)
  have wf: "thread_wf (thread k t)" using l(3) assms(3) by (auto simp: thread_ok_def Let_def live_def)
  then have wf': "thread_wf (?f (thread k t))" using assms(4) by (simp add: thread_wf_def)
  have obj: "is_thread t k" using kok_obj [OF kk assms(2,3)] by (simp add: thread_obj_def)
  have stk: "rt_scheduler_stack_check (?f th) = rt_scheduler_stack_check th" for th
    by (simp add: rt_scheduler_stack_check_def)
  show ?thesis
  proof (cases "stat_base (th_stat (thread k t)) = RT_THREAD_READY")
    case ready: True
    obtain s1 where s1: "rt_schedule_remove_thread t (k_s k) = Some s1" "lists_ok s1" "groups_ok s1" "in_no_list t s1"
      "s_thread s1 = s_thread (k_s k)" "s_list s1 = (\<lambda>h. filter (\<lambda>x. x \<noteq> t) (s_list (k_s k) h))"
      "\<forall>d. \<exists>g. s_cpu s1 d = (s_cpu (k_s k) d)\<lparr>cpu_priority_group := g\<rparr>"
      using remove_thread_ok [OF l(1,2) assms(2) wf] by blast
    let ?s2 = "upd_thread t ?f s1"
    have "t \<in> set (s_list (k_s k) (Ready (th_bind_cpu (thread k t)) (unat (th_current_priority (thread k t)))))"
      using l(3) ready by (auto simp: thread_ok_def Let_def)
    then have on: "th_oncpu (thread k t) = 2" using in_ready [OF l(1)] by (auto simp: ready_ok_def)
    have "lists_ok ?s2" "groups_ok ?s2" "in_no_list t ?s2" "thread_wf (s_thread ?s2 t)" "th_oncpu (s_thread ?s2 t) = 2"
      using upd_thread_lists(1) [OF s1(2,4)] upd_thread_lists(2) [OF s1(3)] s1(4) wf' on
      by (simp_all add: in_no_list_def s1(5))
    from insert_thread_ok [OF this(1,2) assms(2) this(4,3,5), of c]
    obtain s' where s': "rt_schedule_insert_thread c t ?s2 = Some s'" "lists_ok s'" "groups_ok s'"
      "s_thread s' = (s_thread (k_s k))(t := with_stat 1 (?f (thread k t)))"
      "s_list s' = (s_list s1)(h := s_list s1 h @ [t])"
      "\<forall>c. \<exists>g i. s_cpu s' c = (s_cpu s1 c)\<lparr>cpu_priority_group := g, cpu_ipi_type := i\<rparr>"
      by (auto simp: s1(5) h_def)
    have cur: "current d s' = current d (k_s k)" "same_cpu (s_cpu (k_s k) d) (s_cpu s' d)" for d
      using spec [OF s1(7), of d] spec [OF s'(6), of d] by (auto simp: same_cpu_def)
    have "sched_inv s'"
      by (rule inv_one_thread [OF inv s'(2,3) assms(2) s'(4) cur(1)])
        (use wf' ready in \<open>auto simp: s'(5) s1(6) h_def thread_wf_def\<close>)
    then have kok': "kok s' (k_o k)"
      by (rule kok_step [OF kk]) (simp add: s'(4) ready)
    have "all_stacks s'"
      using assms(1) ready stk by (auto simp: okc_def all_stacks_def s'(4) live_def)
    with kok' have "okc c (k\<lparr>k_s := s'\<rparr>)" using assms(1) cur by (simp add: okc_def kinv_def rt_thread_self_def)
    moreover have "change_priority c t prio k = Some (k\<lparr>k_s := s'\<rparr>)"
      using assms(2) ready s1(1) s'(1)
      by (simp add: change_priority_def lift_s_def set_priority_def on_s_def)
    ultimately show ?thesis
      using ready obj cur by (intro exI [of _ s']) (auto simp: s'(4,5) s1(6) fun_eq_iff)
  next
    case other: False
    let ?s = "upd_thread t ?f (k_s k)"
    have notready: "\<And>d p. t \<notin> set (s_list (k_s k) (Ready d p))" using in_ready [OF l(1)] other by (auto simp: ready_ok_def)
    have lo: "lists_ok ?s"
      unfolding lists_ok_def
    proof (intro conjI allI impI)
      fix g u assume u: "u \<in> set (s_list ?s g)"
      then have n: "u \<noteq> 0" "node_ok g (thread k u)" using in_list_ok [OF l(1)] by auto
      show "u \<noteq> 0" by (rule n)
      show "node_ok g (s_thread ?s u)"
        using n(2) wf' notready u by (cases g) (auto simp: wait_ok_def)
    qed (use l(1) in \<open>auto simp: lists_ok_def\<close>)
    have "sched_inv ?s"
      by (rule inv_one_thread [OF inv lo _ assms(2), where th' = "?f (thread k t)"])
        (use l(2,3) wf' other in \<open>auto simp: groups_ok_def thread_ok_def Let_def\<close>)
    then have "kok ?s (k_o k)" by (rule kok_step [OF kk]) simp
    moreover have "all_stacks ?s" using assms(1) stk by (auto simp: okc_def all_stacks_def live_def)
    ultimately have "okc c (k\<lparr>k_s := ?s\<rparr>)" using assms(1) by (simp add: okc_def kinv_def rt_thread_self_def)
    then show ?thesis
      using obj other
      by (intro exI [of _ ?s]) (simp add: change_priority_def set_priority_def on_s_def)
  qed
qed

text \<open>Fact: changing a live thread's priority keeps the kernel consistent; a ready thread moves to the
  end of the ready list of its new priority, any other stays where it is; no other list and no
  other thread changes.\<close>

theorem change_priority_spec:
  assumes "okc c k" "t \<noteq> 0" "live (thread k t)" "unat prio < 32"
  defines "h \<equiv> Ready (th_bind_cpu (thread k t)) (unat prio)"
  shows "\<exists>k'. rt_thread_control cln c sys t (THREAD_CHANGE_PRIORITY prio) k = Some (RT_EOK, k') \<and> okc c k' \<and>
    th_current_priority (thread k' t) = prio \<and>
    stat_base (th_stat (thread k' t)) = stat_base (th_stat (thread k t)) \<and>
    (\<forall>u. u \<noteq> t \<longrightarrow> thread k' u = thread k u) \<and>
    s_list (k_s k') = (if stat_base (th_stat (thread k t)) = RT_THREAD_READY
      then (\<lambda>g. filter (\<lambda>x. x \<noteq> t) (s_list (k_s k) g) @ (if g = h then [t] else [])) else s_list (k_s k))"
proof -
  obtain s' where s': "change_priority c t prio k = Some (k\<lparr>k_s := s'\<rparr>)" "is_thread t k" "okc c (k\<lparr>k_s := s'\<rparr>)"
    "th_current_priority (s_thread s' t) = prio"
    "stat_base (th_stat (s_thread s' t)) = stat_base (th_stat (thread k t))"
    "\<forall>u. u \<noteq> t \<longrightarrow> s_thread s' u = thread k u"
    "s_list s' = (if stat_base (th_stat (thread k t)) = RT_THREAD_READY
      then (\<lambda>g. filter (\<lambda>x. x \<noteq> t) (s_list (k_s k) g) @ (if g = h then [t] else [])) else s_list (k_s k))"
    using change_priority_ok [OF assms(1-4), folded h_def] by blast
  show ?thesis
    by (rule exI [of _ "k\<lparr>k_s := s'\<rparr>"]) (use s' assms(2) in \<open>simp add: rt_thread_control_def\<close>)
qed

lemma change_priority_spec_witness:
  "\<exists>k'. rt_thread_control (\<lambda>_ _. Some) 0 0 2 (THREAD_CHANGE_PRIORITY 20) (sample_kernel 2) = Some (RT_EOK, k') \<and>
     s_list (k_s k') (Ready 0 20) = [3, 2]"
proof -
  have "live (s_thread (sample_sched 3) 2)" unfolding sample_live by simp
  then show ?thesis
    using change_priority_spec [OF sample_okc [of 2], of 2 20 "\<lambda>_ _. Some" 0]
    by (auto simp: sample_thread_def)
qed


subsection \<open>Reclaiming\<close>

lemma okc_defunct:
  assumes ok: "okc c k" and t: "t \<noteq> 0" "in_no_list t (k_s k)" "stat_base (th_stat (thread k t)) = RT_THREAD_CLOSE"
    "thread_wf (thread k t)"
  shows "okc c (on_s (upd_list Defunct (\<lambda>ts. t # ts)) k)"
proof -
  let ?s = "upd_list Defunct (\<lambda>ts. t # ts) (k_s k)"
  have kk: "kok (k_s k) (k_o k)" by (rule okc_kok [OF ok])
  then have inv: "sched_inv (k_s k)" by (simp add: kok_def)
  then have lo: "lists_ok (k_s k)" by (simp add: sched_inv_def)
  have "stat_base (th_stat (thread k u)) = 4" if "u \<in> set (s_list (k_s k) Defunct)" for u
    using in_list_ok [OF lo that] by simp
  then have l: "lists_ok ?s" "groups_ok ?s"
    using t inv by (auto simp: sched_inv_def lists_ok_def groups_ok_def in_no_list_def)
  have "sched_inv ?s"
    by (rule inv_one_thread [OF inv l t(1), where th' = "thread k t"]) (use t(3,4) in auto)
  then have "kok ?s (k_o k)" by (rule kok_step [OF kk]) simp
  with ok show ?thesis by (simp add: okc_def kinv_def all_stacks_def rt_thread_self_def)
qed

text \<open>C40: deleting a live dynamic thread closes it, removes its timer and hands it to the system
  thread: it is first on the list of dead threads, and the system semaphore is released, which
  resumes the system thread when it waits.\<close>

theorem rt_thread_delete_spec:
  assumes "okc c k" "t \<noteq> 0" "live (thread k t)" "th_cleanup (thread k t) = 0" "sem_ok sys k" "sys \<noteq> t"
    and "\<not> rt_object_is_systemobject (Obj t) (k_o k)" "rt_object_is_systemobject (ThTimer t) (k_o k)"
    and "t \<notin> set (s_list (k_s k) (Suspend sys))"
  shows "\<exists>k'. rt_thread_delete cln c sys t k = Some (RT_EOK, k') \<and> okc c k' \<and> sem_ok sys k' \<and>
    s_list (k_s k') Defunct = t # s_list (k_s k) Defunct \<and>
    stat_base (th_stat (thread k' t)) = RT_THREAD_CLOSE \<and> ThTimer t \<notin> set (ob_timer_list (k_o k')) \<and>
    (\<forall>u us. s_list (k_s k) (Suspend sys) = u # us \<longrightarrow> s_list (k_s k') (Suspend sys) = us \<and>
       stat_base (th_stat (thread k' u)) \<noteq> RT_THREAD_SUSPEND)"
proof -
  have obj: "thread_obj t (k_o k)" using kok_obj [OF okc_kok [OF assms(1)] assms(2,3)] .
  obtain s1 where s1: "rt_schedule_remove_thread t (k_s k) = Some s1" "in_no_list t s1" "s_thread s1 = s_thread (k_s k)"
    "s_list s1 = (\<lambda>h. filter (\<lambda>x. x \<noteq> t) (s_list (k_s k) h))"
    "okc c (k\<lparr>k_s := upd_thread t (\<lambda>th. th\<lparr>th_stat := RT_THREAD_CLOSE\<rparr>) s1, k_o := timer_gone t (k_o k)\<rparr>)"
    "thread_wf (thread k t)"
    using close_ok [OF assms(1-3)] by blast
  let ?k1 = "k\<lparr>k_s := upd_thread t (\<lambda>th. th\<lparr>th_stat := RT_THREAD_CLOSE\<rparr>) s1, k_o := timer_gone t (k_o k)\<rparr>"
  let ?k2 = "on_s (upd_list Defunct (\<lambda>ts. t # ts)) ?k1"
  have ok2: "okc c ?k2"
    by (rule okc_defunct [OF s1(5) assms(2)]) (use s1(2,3,6) in \<open>auto simp: in_no_list_def thread_wf_def\<close>)
  have ndef: "t \<notin> set (s_list (k_s k) Defunct)"
  proof
    assume "t \<in> set (s_list (k_s k) Defunct)"
    moreover have "lists_ok (k_s k)" using okc_kok [OF assms(1)] by (simp add: kok_def sched_inv_def)
    ultimately show False using in_list_ok [of "k_s k" t Defunct] assms(3) by (auto simp: live_def)
  qed
  have lists: "s_list (k_s ?k2) Defunct = t # s_list (k_s k) Defunct"
    "s_list (k_s ?k2) (Suspend sys) = s_list (k_s k) (Suspend sys)"
    using ndef assms(9) by (simp_all add: s1(4) filter_neq_id)
  have sem2: "sem_ok sys ?k2"
    using assms(5,6) lists(2) by (simp add: sem_ok_def)
  obtain r k' where k': "rt_sem_release c sys ?k2 = Some (r, k')" "okc c k'" "sem_ok sys k'"
    "\<forall>u us. s_list (k_s ?k2) (Suspend sys) = u # us \<longrightarrow> wakes (Suspend sys) u us ?k2 k'"
    "s_list (k_s ?k2) (Suspend sys) = [] \<longrightarrow> k_s k' = k_s ?k2 \<and> k_o k' = k_o ?k2"
  proof -
    obtain r k' where *: "rt_sem_release c sys ?k2 = Some (r, k')" "okc c k'" "sem_ok sys k'"
      "\<forall>u us. s_list (k_s ?k2) (Suspend sys) = u # us \<longrightarrow> wakes (Suspend sys) u us ?k2 k'"
      "s_list (k_s ?k2) (Suspend sys) = [] \<and> sem_value (k_sem ?k2 sys) < 0xffff \<longrightarrow>
         k' = upd_sem sys (sem_value (k_sem ?k2 sys) + 1) ?k2"
      "s_list (k_s ?k2) (Suspend sys) = [] \<and> sem_value (k_sem ?k2 sys) = 0xffff \<longrightarrow> k' = ?k2"
      using sem_release_ok [OF ok2 sem2] by blast
    have "sem_value (k_sem ?k2 sys) < 0xffff \<or> sem_value (k_sem ?k2 sys) = 0xffff"
      by (rule u16_full)
    with * show thesis by (intro that [of r k']) auto
  qed
  have closed: "stat_base (th_stat (thread k' t)) = 4 \<and> s_list (k_s k') Defunct = t # s_list (k_s k) Defunct \<and>
    ThTimer t \<notin> set (ob_timer_list (k_o k'))"
  proof (cases "s_list (k_s ?k2) (Suspend sys)")
    case Nil
    with k'(5) lists(1) show ?thesis by simp
  next
    case (Cons u us)
    have w: "wakes (Suspend sys) u us ?k2 k'" using k'(4) Cons by blast
    have ut: "u \<noteq> t" using Cons assms(9) unfolding lists(2) by auto
    have "same_run (thread ?k2 t) (thread k' t)" by (rule wakes_other [OF w]) (use ut in simp)
    then have "stat_base (th_stat (thread k' t)) = 4" by (auto simp: same_run_def)
    moreover from this have "ThTimer t \<notin> set (ob_timer_list (k_o k'))"
      using okc_kok [OF k'(2)] by (auto simp: kok_def)
    moreover have "s_list (k_s k') Defunct = s_list (k_s ?k2) Defunct" using wakes_list [OF w, of Defunct] by simp
    ultimately show ?thesis using lists(1) by simp
  qed
  have ne: "stat_base (th_stat (thread k t)) \<noteq> 4" "stat_base (th_stat (thread k t)) \<noteq> 0"
    using assms(3) by (auto simp: live_def)
  have "rt_thread_delete cln c sys t k = Some (RT_EOK, k')"
    using assms(2,4,7,8) obj ne s1(1,3) k'(1)
    by (simp add: rt_thread_delete_def thread_obj_def Let_def lift_s_def lift_o_def thread_cleanup_execute_def
        timer_detach_ok set_stat_def on_s_def rt_thread_defunct_enqueue_def)
  with k'(2-4) closed lists show ?thesis by (intro exI [of _ k']) (auto simp: wakes_def)
qed

lemma dequeue_ok:
  assumes ok: "okc c k" and l: "s_list (k_s k) Defunct = t # ts"
  shows "okc c (k\<lparr>k_s := tlist_remove t (k_s k), k_o := detached (Obj t) (k_o k)\<rparr>)" "t \<noteq> 0"
    "s_list (tlist_remove t (k_s k)) Defunct = ts"
proof -
  have kk: "kok (k_s k) (k_o k)" by (rule okc_kok [OF ok])
  then have lo: "lists_ok (k_s k)" and inv: "sched_inv (k_s k)" by (simp_all add: kok_def sched_inv_def)
  have t: "t \<in> set (s_list (k_s k) Defunct)" using l by simp
  note T = in_list_ok [OF lo t]
  then show t0: "t \<noteq> 0" by simp
  have st: "stat_base (th_stat (thread k t)) = 4" using T by simp
  have "distinct (t # ts)" using lo l by (metis lists_ok_def)
  then show "s_list (tlist_remove t (k_s k)) Defunct = ts" using l by (simp add: filter_neq_id)
  let ?s = "tlist_remove t (k_s k)"
  have nr: "t \<notin> set (s_list (k_s k) (Ready d p))" for d p
    using in_list_unique [OF lo t, of "Ready d p"] by blast
  have "sched_inv ?s"
    unfolding sched_inv_def
  proof (intro conjI allI impI)
    show "lists_ok ?s" using lo by (auto simp: lists_ok_def)
    show "groups_ok ?s" using inv nr by (simp add: sched_inv_def groups_ok_def filter_neq_id)
    show "thread_ok ?s u" if "u \<noteq> 0" for u
      using inv that st by (auto simp: sched_inv_def thread_ok_def Let_def)
    show "cpu_ok ?s d" if "d < 2" for d
      using inv that by (auto simp: sched_inv_def cpu_ok_def Let_def)
  qed
  then have "kok ?s (k_o k)" by (rule kok_step [OF kk]) simp
  then have "kok ?s (detached (Obj t) (k_o k))"
    using st by (auto simp: kok_def live_def thread_obj_def)
  with ok show "okc c (k\<lparr>k_s := tlist_remove t (k_s k), k_o := detached (Obj t) (k_o k)\<rparr>)"
    by (simp add: okc_def kinv_def all_stacks_def rt_thread_self_def)
qed

lemma defunct_execute_ok:
  assumes "okc c k" "cpu_irq_nest (s_cpu (k_s k) c) = 0"
    and "\<forall>t \<in> set (s_list (k_s k) Defunct). th_cleanup (thread k t) = 0 \<and> \<not> rt_object_is_systemobject (Obj t) (k_o k)"
  shows "\<exists>k'. rt_defunct_execute cln c freed k =
      Some (freed @ map (\<lambda>t. th_stack_addr (thread k t)) (s_list (k_s k) Defunct), k') \<and> okc c k' \<and>
    s_list (k_s k') Defunct = [] \<and> s_thread (k_s k') = s_thread (k_s k) \<and>
    (\<forall>t \<in> set (s_list (k_s k) Defunct). rt_object_get_type (Obj t) (k_o k') = 0) \<and>
    (\<forall>i. i \<notin> Obj ` set (s_list (k_s k) Defunct) \<longrightarrow> rt_object_get_type i (k_o k') = rt_object_get_type i (k_o k))"
  using assms
proof (induction "s_list (k_s k) Defunct" arbitrary: k freed)
  case Nil
  have "rt_defunct_execute cln c freed k = Some (freed, k)"
    by (subst rt_defunct_execute.simps) (simp add: in_context(1) [OF Nil.prems(2)] rt_thread_defunct_dequeue_def Nil(1) [symmetric])
  with Nil show ?case by simp
next
  case (Cons t ts)
  have l: "s_list (k_s k) Defunct = t # ts" using Cons.hyps(2) by simp
  note d = dequeue_ok [OF Cons.prems(1) l]
  let ?k1 = "k\<lparr>k_s := tlist_remove t (k_s k), k_o := detached (Obj t) (k_o k)\<rparr>"
  have "distinct (t # ts)" using l okc_kok [OF Cons.prems(1)] by (metis kok_def sched_inv_def lists_ok_def)
  then have nt: "t \<notin> set ts" by simp
  have tt: "th_cleanup (thread k t) = 0" "\<not> rt_object_is_systemobject (Obj t) (k_o k)" using Cons.prems(3) l by auto
  have ts: "ts = s_list (k_s ?k1) Defunct" using d(3) by simp
  have p: "cpu_irq_nest (s_cpu (k_s ?k1) c) = 0" using Cons.prems(2) by simp
  have q: "\<forall>u \<in> set (s_list (k_s ?k1) Defunct). th_cleanup (thread ?k1 u) = 0 \<and> \<not> rt_object_is_systemobject (Obj u) (k_o ?k1)"
    unfolding ts [symmetric]
  proof
    fix u assume u: "u \<in> set ts"
    then have "u \<noteq> t" using nt by blast
    with u Cons.prems(3) l
    show "th_cleanup (thread ?k1 u) = 0 \<and> \<not> rt_object_is_systemobject (Obj u) (k_o ?k1)" by simp
  qed
  from Cons.hyps(1) [OF ts d(1) p q, of "freed @ [th_stack_addr (thread k t)]"]
  obtain k' where k': "rt_defunct_execute cln c (freed @ [th_stack_addr (thread k t)]) ?k1 =
      Some ((freed @ [th_stack_addr (thread k t)]) @ map (\<lambda>t. th_stack_addr (thread ?k1 t)) (s_list (k_s ?k1) Defunct), k')"
    "okc c k'" "s_list (k_s k') Defunct = []" "s_thread (k_s k') = s_thread (k_s ?k1)"
    "\<forall>t \<in> set (s_list (k_s ?k1) Defunct). rt_object_get_type (Obj t) (k_o k') = 0"
    "\<forall>i. i \<notin> Obj ` set (s_list (k_s ?k1) Defunct) \<longrightarrow> rt_object_get_type i (k_o k') = rt_object_get_type i (k_o ?k1)"
    by (elim exE conjE) (rule that; assumption)
  have del: "lift_o (rt_object_delete (Obj t)) (on_s (tlist_remove t) k) = Some ?k1"
    using tt(2) d(2) by (simp add: lift_o_def rt_object_delete_def rt_object_is_systemobject_def on_s_def detached_def)
  have "rt_defunct_execute cln c freed k = rt_defunct_execute cln c (freed @ [th_stack_addr (thread k t)]) ?k1"
    by (subst rt_defunct_execute.simps)
      (use tt d(2) del in \<open>simp add: in_context(1) [OF Cons.prems(2)] rt_thread_defunct_dequeue_def l thread_cleanup_execute_def\<close>)
  moreover have "rt_object_get_type (Obj t) (k_o k') = 0"
    using spec [OF k'(6) [unfolded ts [symmetric]], of "Obj t"] nt by auto
  ultimately show ?case
    using k' unfolding ts [symmetric] l
    by (intro exI [of _ k']) auto
qed

text \<open>Fact: the system thread's loop ends: it takes every dead dynamic thread off the list, in order,
  gives its stack back to the heap and unregisters it, and nothing else.\<close>

theorem rt_defunct_execute_spec:
  assumes "okc c k" "cpu_irq_nest (s_cpu (k_s k) c) = 0"
    and "\<forall>t \<in> set (s_list (k_s k) Defunct). th_cleanup (thread k t) = 0 \<and> \<not> rt_object_is_systemobject (Obj t) (k_o k)"
  shows "\<exists>k'. rt_defunct_execute cln c [] k =
      Some (map (\<lambda>t. th_stack_addr (thread k t)) (s_list (k_s k) Defunct), k') \<and> okc c k' \<and>
    s_list (k_s k') Defunct = [] \<and> s_thread (k_s k') = s_thread (k_s k) \<and>
    (\<forall>t \<in> set (s_list (k_s k) Defunct). rt_object_get_type (Obj t) (k_o k') = 0) \<and>
    (\<forall>i. i \<notin> Obj ` set (s_list (k_s k) Defunct) \<longrightarrow> rt_object_get_type i (k_o k') = rt_object_get_type i (k_o k))"
  using defunct_execute_ok [OF assms, of cln "[]"] by simp


lemma sample_dynamic:
  "\<not> rt_object_is_systemobject (Obj 3) (sample_objs cls)" "rt_object_is_systemobject (ThTimer t) (sample_objs cls)"
  "live (s_thread (sample_sched 3) 3)" "th_cleanup (s_thread (sample_sched 3) 3) = 0"
  by (simp_all add: rt_object_is_systemobject_def sample_objs_def live_def)
    (simp_all add: sample_thread_def)

lemma rt_thread_delete_spec_witness:
  "\<exists>k'. rt_thread_delete (\<lambda>_ _. Some) 0 100 3 (sample_kernel 2) = Some (RT_EOK, k') \<and> s_list (k_s k') Defunct = [3]"
  using rt_thread_delete_spec [OF sample_okc [of 2] _ _ _ sample_sem_ok, of 3 "\<lambda>_ _. Some"] sample_dynamic
  by (auto simp del: sample_sched_facts)

lemma sample_defunct:
  "\<exists>k. okc 0 k \<and> cpu_irq_nest (s_cpu (k_s k) 0) = 0 \<and> s_list (k_s k) Defunct = [3] \<and> th_cleanup (thread k 3) = 0 \<and>
     th_stack_addr (thread k 3) = 0x1000 \<and> \<not> rt_object_is_systemobject (Obj 3) (k_o k)"
proof -
  let ?k = "sample_kernel 2"
  have lv: "live (thread ?k 3)" using sample_dynamic(3) by (simp del: sample_sched_facts)
  obtain s1 where s1: "in_no_list 3 s1" "s_thread s1 = s_thread (k_s ?k)"
    "s_list s1 = (\<lambda>h. filter (\<lambda>x. x \<noteq> 3) (s_list (k_s ?k) h))"
    "okc 0 (?k\<lparr>k_s := upd_thread 3 (\<lambda>th. th\<lparr>th_stat := RT_THREAD_CLOSE\<rparr>) s1, k_o := timer_gone 3 (k_o ?k)\<rparr>)"
    "thread_wf (thread ?k 3)" "\<forall>d. cpu_irq_nest (s_cpu s1 d) = cpu_irq_nest (s_cpu (k_s ?k) d)"
    using close_ok [OF sample_okc [of 2] _ lv] by auto
  let ?k1 = "?k\<lparr>k_s := upd_thread 3 (\<lambda>th. th\<lparr>th_stat := RT_THREAD_CLOSE\<rparr>) s1, k_o := timer_gone 3 (k_o ?k)\<rparr>"
  have "okc 0 (on_s (upd_list Defunct (\<lambda>ts. 3 # ts)) ?k1)"
    by (rule okc_defunct [OF s1(4)]) (use s1(1,2,5) in \<open>auto simp: in_no_list_def thread_wf_def\<close>)
  then show ?thesis
    using s1(2,3,6) sample_dynamic
    by (intro exI [of _ "on_s (upd_list Defunct (\<lambda>ts. 3 # ts)) ?k1"]) (auto simp: sample_thread_def)
qed

lemma rt_defunct_execute_spec_witness:
  "\<exists>k k'. s_list (k_s k) Defunct = [3] \<and> rt_defunct_execute (\<lambda>_ _. Some) 0 [] k = Some ([0x1000], k') \<and>
     s_list (k_s k') Defunct = []"
proof -
  obtain k where k: "okc 0 k" "cpu_irq_nest (s_cpu (k_s k) 0) = 0" "s_list (k_s k) Defunct = [3]"
    "th_cleanup (thread k 3) = 0" "th_stack_addr (thread k 3) = 0x1000"
    "\<not> rt_object_is_systemobject (Obj 3) (k_o k)"
    using sample_defunct by blast
  with rt_defunct_execute_spec [OF k(1,2), of "\<lambda>_ _. Some"] show ?thesis by auto
qed

end
