(* ===== verification/Mutex.thy ===== *)
theory Mutex
  imports ThreadLife
begin

section \<open>Mutexes (\<open>src/ipc.c\<close>)\<close>

text \<open>
  \<open>rt_mutex_init\<close> to \<open>rt_mutex_control\<close>: recursive locks with an owner and priority
  inheritance.  The invariant ties value, owner, hold count and waiters together.
\<close>

definition upd_mutex :: "nat \<Rightarrow> (rt_mutex \<Rightarrow> rt_mutex) \<Rightarrow> kernel \<Rightarrow> kernel" where
  "upd_mutex a f k = k\<lparr>k_mutex := (k_mutex k)(a := f (k_mutex k a))\<rparr>"

definition free_mutex :: rt_mutex where
  "free_mutex = \<lparr>mtx_value = 1, mtx_original_priority = 0xff, mtx_hold = 0, mtx_owner = 0\<rparr>"

definition rt_mutex_init :: "nat \<Rightarrow> u8 list \<Rightarrow> u8 \<Rightarrow> kernel \<Rightarrow> (rt_err \<times> kernel) option" where
  "rt_mutex_init a name flag k =
     do { rt_assert (a \<noteq> 0);
          k \<leftarrow> lift_o (rt_object_init (Obj a) RT_Object_Class_Mutex name) k;
          Some (RT_EOK, set_obj_flag a RT_IPC_FLAG_PRIO (upd_mutex a (\<lambda>_. free_mutex) (ipc_object_init a k))) }"

definition rt_mutex_detach :: "nat \<Rightarrow> nat \<Rightarrow> kernel \<Rightarrow> (rt_err \<times> kernel) option" where
  "rt_mutex_detach c a k =
     do { rt_assert (a \<noteq> 0);
          rt_assert (is_obj a RT_Object_Class_Mutex k);
          rt_assert (rt_object_is_systemobject (Obj a) (k_o k));
          k \<leftarrow> ipc_list_resume_all c (Suspend a) k;
          k \<leftarrow> lift_o (rt_object_detach (Obj a)) k;
          Some (RT_EOK, k) }"

definition rt_mutex_create :: "nat \<Rightarrow> nat \<Rightarrow> u8 list \<Rightarrow> u8 \<Rightarrow> kernel \<Rightarrow> (nat \<times> kernel) option" where
  "rt_mutex_create c mem name flag k =
     do { not_in_interrupt c k;
          (a, x) \<leftarrow> rt_object_allocate mem RT_Object_Class_Mutex name (k_o k);
          let k = k\<lparr>k_o := x\<rparr>;
          (if a = 0 then Some (0, k)
           else Some (a, set_obj_flag a RT_IPC_FLAG_PRIO (upd_mutex a (\<lambda>_. free_mutex) (ipc_object_init a k)))) }"

definition rt_mutex_delete :: "nat \<Rightarrow> nat \<Rightarrow> kernel \<Rightarrow> (rt_err \<times> kernel) option" where
  "rt_mutex_delete c a k =
     do { rt_assert (a \<noteq> 0);
          rt_assert (is_obj a RT_Object_Class_Mutex k);
          rt_assert (\<not> rt_object_is_systemobject (Obj a) (k_o k));
          not_in_interrupt c k;
          k \<leftarrow> ipc_list_resume_all c (Suspend a) k;
          k \<leftarrow> lift_o (rt_object_delete (Obj a)) k;
          Some (RT_EOK, k) }"

text \<open>\<open>rt_thread_control(t, RT_THREAD_CTRL_CHANGE_PRIORITY, &prio)\<close>.\<close>

definition thread_change_priority :: "nat \<Rightarrow> nat \<Rightarrow> u8 \<Rightarrow> kernel \<Rightarrow> kernel option" where
  "thread_change_priority c t prio k =
     do { (_, k) \<leftarrow> rt_thread_control (\<lambda>_ _ _. None) c 0 t (THREAD_CHANGE_PRIORITY prio) k; Some k }"

definition rt_mutex_take :: "nat \<Rightarrow> nat \<Rightarrow> int \<Rightarrow> kernel \<Rightarrow> (rt_err option \<times> kernel) option" where
  "rt_mutex_take c a time k =
     do { in_thread_context c k;
          rt_assert (a \<noteq> 0);
          rt_assert (is_obj a RT_Object_Class_Mutex k);
          let t = rt_thread_self c k;
          k \<leftarrow> spinlock_lock a k;
          let k = set_error t RT_EOK k;
          let m = k_mutex k a;
          (if mtx_owner m = t
           then (if mtx_hold m < 0xff
                 then Some (Some RT_EOK, spinlock_unlock a (upd_mutex a (\<lambda>m. m\<lparr>mtx_hold := mtx_hold m + 1\<rparr>) k))
                 else Some (Some (- RT_EFULL), spinlock_unlock a k))
           else if 0 < mtx_value m
           then (let k = upd_mutex a (\<lambda>m. m\<lparr>mtx_value := mtx_value m - 1, mtx_owner := t,
                            mtx_original_priority := th_current_priority (thread k t)\<rparr>) k
                 in if mtx_hold m < 0xff
                    then Some (Some RT_EOK, spinlock_unlock a (upd_mutex a (\<lambda>m. m\<lparr>mtx_hold := mtx_hold m + 1\<rparr>) k))
                    else Some (Some (- RT_EFULL), spinlock_unlock a k))
           else if time = 0
           then Some (Some (- RT_ETIMEOUT), spinlock_unlock a (set_error t (- RT_ETIMEOUT) k))
           else do {
             rt_assert (mtx_owner m \<noteq> 0);
             k \<leftarrow> (if th_current_priority (thread k t) < th_current_priority (thread k (mtx_owner m))
                  then thread_change_priority c (mtx_owner m) (th_current_priority (thread k t)) k else Some k);
             k \<leftarrow> ipc_wait c (Suspend a) t (obj_flag a k) time k;
             block c (spinlock_unlock a k) }) }"

text \<open>Back from \<open>rt_schedule\<close>: a thread that was given the mutex takes and releases the lock again.\<close>

definition rt_mutex_take_resumed :: "nat \<Rightarrow> nat \<Rightarrow> kernel \<Rightarrow> (rt_err \<times> kernel) option" where
  "rt_mutex_take_resumed a t k =
     (if th_error (thread k t) \<noteq> RT_EOK then Some (th_error (thread k t), k)
      else do { k \<leftarrow> spinlock_lock a k; Some (RT_EOK, spinlock_unlock a k) })"

definition rt_mutex_trytake :: "nat \<Rightarrow> nat \<Rightarrow> kernel \<Rightarrow> (rt_err option \<times> kernel) option" where
  "rt_mutex_trytake c a k = rt_mutex_take c a 0 k"

definition rt_mutex_release :: "nat \<Rightarrow> nat \<Rightarrow> kernel \<Rightarrow> (rt_err \<times> kernel) option" where
  "rt_mutex_release c a k =
     do { rt_assert (a \<noteq> 0);
          rt_assert (is_obj a RT_Object_Class_Mutex k);
          in_thread_context c k;
          let t = rt_thread_self c k;
          k \<leftarrow> spinlock_lock a k;
          (if t \<noteq> mtx_owner (k_mutex k a)
           then Some (- RT_ERROR, spinlock_unlock a (set_error t (- RT_ERROR) k))
           else do {
             let k = upd_mutex a (\<lambda>m. m\<lparr>mtx_hold := mtx_hold m - 1\<rparr>) k;
             (if mtx_hold (k_mutex k a) \<noteq> 0 then Some (RT_EOK, spinlock_unlock a k)
              else do {
                k \<leftarrow> (if mtx_original_priority (k_mutex k a) \<noteq> th_current_priority (thread k t)
                     then thread_change_priority c t (mtx_original_priority (k_mutex k a)) k else Some k);
                (case s_list (k_s k) (Suspend a) of
                   u # _ \<Rightarrow> do {
                     let k = upd_mutex a (\<lambda>m. m\<lparr>mtx_owner := u,
                               mtx_original_priority := th_current_priority (thread k u)\<rparr>) k;
                     (if mtx_hold (k_mutex k a) < 0xff
                      then do {
                        let k = upd_mutex a (\<lambda>m. m\<lparr>mtx_hold := mtx_hold m + 1\<rparr>) k;
                        k \<leftarrow> ipc_list_resume c (Suspend a) k;
                        k \<leftarrow> kschedule c (spinlock_unlock a k);
                        Some (RT_EOK, k) }
                      else Some (- RT_EFULL, spinlock_unlock a k)) }
                 | [] \<Rightarrow>
                     if mtx_value (k_mutex k a) < 0xffff
                     then Some (RT_EOK, spinlock_unlock a (upd_mutex a (\<lambda>m. m\<lparr>mtx_value := mtx_value m + 1,
                                  mtx_owner := 0, mtx_original_priority := 0xff\<rparr>) k))
                     else Some (- RT_EFULL, spinlock_unlock a k)) }) }) }"

definition rt_mutex_control :: "nat \<Rightarrow> kernel \<Rightarrow> (rt_err \<times> kernel) option" where
  "rt_mutex_control a k =
     do { rt_assert (a \<noteq> 0); rt_assert (is_obj a RT_Object_Class_Mutex k); Some (- RT_ERROR, k) }"

subsection \<open>The invariant\<close>

definition mtx_ok :: "nat \<Rightarrow> kernel \<Rightarrow> bool" where
  "mtx_ok a k \<longleftrightarrow> a \<noteq> 0 \<and> is_obj a RT_Object_Class_Mutex k \<and> obj_flag a k = RT_IPC_FLAG_PRIO \<and> \<not> k_spin k a \<and>
     (if mtx_owner (k_mutex k a) = 0
      then k_mutex k a = free_mutex \<and> s_list (k_s k) (Suspend a) = []
      else mtx_value (k_mutex k a) = 0 \<and> 0 < mtx_hold (k_mutex k a) \<and>
           unat (mtx_original_priority (k_mutex k a)) < 32 \<and> live (thread k (mtx_owner (k_mutex k a))) \<and>
           mtx_owner (k_mutex k a) \<notin> set (s_list (k_s k) (Suspend a)))"

lemma upd_mutex_simps [simp]:
  "k_s (upd_mutex a f k) = k_s k" "k_o (upd_mutex a f k) = k_o k" "k_spin (upd_mutex a f k) = k_spin k"
  "k_mutex (upd_mutex a f k) = (k_mutex k)(a := f (k_mutex k a))" "okc c (upd_mutex a f k) = okc c k"
  "rt_thread_self c (upd_mutex a f k) = rt_thread_self c k"
  by (simp_all add: upd_mutex_def)

lemma upd_mutex_unlock: "\<not> k_spin k a \<Longrightarrow>
    spinlock_unlock a (upd_mutex a f (k\<lparr>k_spin := (k_spin k)(a := True)\<rparr>)) = upd_mutex a f k"
  by (simp add: spinlock_unlock_def upd_mutex_def spin_restored)

lemma change_priority_thread:
  assumes "okc c k" "t \<noteq> 0" "live (thread k t)" "unat prio < 32"
  shows "\<exists>s'. thread_change_priority c t prio k = Some (k\<lparr>k_s := s'\<rparr>) \<and> okc c (k\<lparr>k_s := s'\<rparr>) \<and>
    th_current_priority (s_thread s' t) = prio \<and> th_error (s_thread s' t) = th_error (thread k t) \<and>
    stat_base (th_stat (s_thread s' t)) = stat_base (th_stat (thread k t)) \<and>
    (\<forall>u. u \<noteq> t \<longrightarrow> s_thread s' u = thread k u) \<and>
    (\<forall>g. \<not> is_ready g \<longrightarrow> s_list s' g = s_list (k_s k) g) \<and>
    (\<forall>d. current d s' = current d (k_s k) \<and> same_cpu (s_cpu (k_s k) d) (s_cpu s' d))"
proof -
  obtain s' where s': "change_priority c t prio k = Some (k\<lparr>k_s := s'\<rparr>)" "is_thread t k" "okc c (k\<lparr>k_s := s'\<rparr>)"
    "th_current_priority (s_thread s' t) = prio" "th_error (s_thread s' t) = th_error (thread k t)"
    "stat_base (th_stat (s_thread s' t)) = stat_base (th_stat (thread k t))"
    "\<forall>u. u \<noteq> t \<longrightarrow> s_thread s' u = thread k u"
    "s_list s' = (if stat_base (th_stat (thread k t)) = RT_THREAD_READY
      then (\<lambda>g. filter (\<lambda>x. x \<noteq> t) (s_list (k_s k) g) @
             (if g = Ready (th_bind_cpu (thread k t)) (unat prio) then [t] else [])) else s_list (k_s k))"
    "\<forall>d. current d s' = current d (k_s k) \<and> same_cpu (s_cpu (k_s k) d) (s_cpu s' d)"
    using change_priority_ok [OF assms] by blast
  have "s_list s' g = s_list (k_s k) g" if "\<not> is_ready g" for g
  proof (cases "stat_base (th_stat (thread k t)) = 1")
    case True
    have inv: "sched_inv (k_s k)" using okc_kok [OF assms(1)] by (simp add: kok_def)
    then have lo: "lists_ok (k_s k)" by (simp add: sched_inv_def)
    have "t \<in> set (s_list (k_s k) (Ready (th_bind_cpu (thread k t)) (unat (th_current_priority (thread k t)))))"
      using inv assms(2) True by (auto simp: sched_inv_def thread_ok_def Let_def)
    from in_list_unique [OF lo this, of g] have "t \<notin> set (s_list (k_s k) g)" using that by auto
    with that True show ?thesis by (auto simp: s'(8) filter_neq_id)
  next
    case False
    then show ?thesis by (simp add: s'(8))
  qed
  with s' assms(2) show ?thesis by (intro exI [of _ s']) (simp add: thread_change_priority_def rt_thread_control_def)
qed

text \<open>The guarded change of priority of \<open>rt_mutex_take\<close> (inheritance) and \<open>rt_mutex_release\<close> (return).\<close>

lemma priority_step:
  assumes "okc c k" "t \<noteq> 0" "live (thread k t)" "unat prio < 32"
  shows "\<exists>s'. (if b then thread_change_priority c t prio k else Some k) = Some (k\<lparr>k_s := s'\<rparr>) \<and> okc c (k\<lparr>k_s := s'\<rparr>) \<and>
    th_current_priority (s_thread s' t) = (if b then prio else th_current_priority (thread k t)) \<and>
    th_error (s_thread s' t) = th_error (thread k t) \<and>
    stat_base (th_stat (s_thread s' t)) = stat_base (th_stat (thread k t)) \<and>
    (\<forall>u. u \<noteq> t \<longrightarrow> s_thread s' u = thread k u) \<and>
    (\<forall>g. \<not> is_ready g \<longrightarrow> s_list s' g = s_list (k_s k) g) \<and>
    (\<forall>d. current d s' = current d (k_s k) \<and> same_cpu (s_cpu (k_s k) d) (s_cpu s' d))"
proof (cases b)
  case True
  then show ?thesis using change_priority_thread [OF assms] by simp
next
  case False
  then show ?thesis using assms(1) by (intro exI [of _ "k_s k"]) simp
qed

lemma live_priority: "okc c k \<Longrightarrow> t \<noteq> 0 \<Longrightarrow> live (thread k t) \<Longrightarrow> unat (th_current_priority (thread k t)) < 32"
  using okc_kok [of c k] by (auto simp: kok_def sched_inv_def thread_ok_def Let_def live_def thread_wf_def)

lemma same_run_stat2: "same_run th th' \<Longrightarrow> stat_base (th_stat th') = 2 \<longleftrightarrow> stat_base (th_stat th) = 2"
  by (auto simp: same_run_def)


lemma prio_insert_cong:
  "(\<And>u. u \<in> insert t (set ts) \<Longrightarrow> p u = q u) \<Longrightarrow> prio_insert p t ts = prio_insert q t ts"
  by (induction ts) auto

lemma enq_cong: "(\<And>u. u \<in> insert t (set ts) \<Longrightarrow> p u = q u) \<Longrightarrow> enq flag p t ts = enq flag q t ts"
  using prio_insert_cong [of t ts p q] by (simp add: enq_def)

lemma set_error_frame [simp]:
  "k_s (set_error t e k) = upd_thread t (\<lambda>th. th\<lparr>th_error := e\<rparr>) (k_s k)" "is_obj a cls (set_error t e k) = is_obj a cls k"
  "k_mutex (set_error t e k) = k_mutex k"
  by simp_all

lemma set_error_prio: "th_current_priority (thread (set_error t e k) u) = th_current_priority (thread k u)"
  "live (thread (set_error t e k) u) = live (thread k u)"
  by (simp_all add: live_def)

lemma set_error_unlock: "\<not> k_spin k a \<Longrightarrow>
    spinlock_unlock a (set_error t e (k\<lparr>k_spin := (k_spin k)(a := True)\<rparr>)) = set_error t e k"
  "\<not> k_spin k a \<Longrightarrow>
    spinlock_unlock a (upd_mutex a f (set_error t e (k\<lparr>k_spin := (k_spin k)(a := True)\<rparr>))) = upd_mutex a f (set_error t e k)"
  by (simp_all add: spinlock_unlock_def upd_mutex_def on_s_def spin_restored)

lemma set_error_twice: "set_error t e (set_error t e' k) = set_error t e k"
  by (simp add: on_s_def upd_thread_def)

lemma mtx_ok_set_error [simp]: "mtx_ok a (set_error t e k) = mtx_ok a k"
  unfolding mtx_ok_def set_error_prio by simp

text \<open>A contended take: the owner's priority is raised, then the caller waits.\<close>

lemma mutex_take_waits:
  assumes ok: "okc c k" "running c k" and m: "mtx_ok a k" and nest: "cpu_irq_nest (s_cpu (k_s k) c) = 0"
    and time: "time < 0x7fffffff" "time \<noteq> 0"
  defines "t \<equiv> rt_thread_self c k" and "w \<equiv> mtx_owner (k_mutex k a)"
  assumes w: "w \<noteq> 0" "w \<noteq> t"
  shows "\<exists>k'. rt_mutex_take c a time k = Some (None, k') \<and> okc c k' \<and> mtx_ok a k' \<and> k_mutex k' = k_mutex k \<and>
    (\<forall>g. \<not> is_ready g \<longrightarrow> s_list (k_s k') g = (if g = Suspend a
       then enq RT_IPC_FLAG_PRIO (\<lambda>u. th_current_priority (thread k u)) t (s_list (k_s k) g) else s_list (k_s k) g)) \<and>
    stat_base (th_stat (thread k' t)) = RT_THREAD_SUSPEND \<and> (timer_activated (ThTimer t) (k_o k') \<longleftrightarrow> 0 < time) \<and>
    th_current_priority (thread k' w) = min (th_current_priority (thread k t)) (th_current_priority (thread k w)) \<and>
    (\<forall>u. u \<noteq> t \<longrightarrow> u \<noteq> w \<longrightarrow> same_run (thread k u) (thread k' u)) \<and>
    (\<forall>u. live (thread k u) \<longrightarrow> live (thread k' u))"
proof -
  have M: "a \<noteq> 0" "is_obj a 3 k" "obj_flag a k = 1" "\<not> k_spin k a" "mtx_value (k_mutex k a) = 0"
    "live (thread k w)" "w \<notin> set (s_list (k_s k) (Suspend a))"
    using m w(1) by (simp_all add: mtx_ok_def w_def)
  have t0: "t \<noteq> 0" and st: "stat_base (th_stat (thread k t)) = 3" using ok by (simp_all add: okc_def running_def t_def)
  then have lt: "live (thread k t)" by (simp add: live_def)
  let ?kl = "k\<lparr>k_spin := (k_spin k)(a := True)\<rparr>"
  let ?k0 = "set_error t RT_EOK ?kl"
  have ok0: "okc c ?k0" using ok(1) by (simp add: set_error_ok)
  have p0: "th_current_priority (thread ?k0 u) = th_current_priority (thread k u)" "live (thread ?k0 u) = live (thread k u)" for u
    by (simp_all only: set_error_prio) simp_all
  have lw0: "live (thread ?k0 w)" using M(6) by (simp only: p0)
  have pr: "unat (th_current_priority (thread ?k0 t)) < 32" using live_priority [OF ok(1) t0 lt] by (simp only: p0)
  obtain s1 where s1: "(if th_current_priority (thread ?k0 t) < th_current_priority (thread ?k0 w)
             then thread_change_priority c w (th_current_priority (thread ?k0 t)) ?k0 else Some ?k0) = Some (?k0\<lparr>k_s := s1\<rparr>)"
      "okc c (?k0\<lparr>k_s := s1\<rparr>)"
      "th_current_priority (s_thread s1 w) = (if th_current_priority (thread ?k0 t) < th_current_priority (thread ?k0 w)
         then th_current_priority (thread ?k0 t) else th_current_priority (thread ?k0 w))"
      "stat_base (th_stat (s_thread s1 w)) = stat_base (th_stat (thread ?k0 w))"
      "\<forall>u. u \<noteq> w \<longrightarrow> s_thread s1 u = thread ?k0 u" "\<forall>g. \<not> is_ready g \<longrightarrow> s_list s1 g = s_list (k_s ?k0) g"
      "\<forall>d. current d s1 = current d (k_s ?k0) \<and> same_cpu (s_cpu (k_s ?k0) d) (s_cpu s1 d)"
    using priority_step [OF ok0 w(1) lw0 pr, of "th_current_priority (thread ?k0 t) < th_current_priority (thread ?k0 w)"]
    by (elim exE conjE) (rule that; assumption)
  let ?k1 = "?k0\<lparr>k_s := s1\<rparr>"
  have self1: "rt_thread_self c ?k1 = t" using s1(7) by (simp add: rt_thread_self_def t_def)
  have th1: "s_thread s1 t = (thread k t)\<lparr>th_error := 0\<rparr>" using s1(5) w(2) by simp
  have run1: "running c ?k1" using st by (simp add: running_def self1 th1)
  have err1: "th_error (thread ?k1 (rt_thread_self c ?k1)) = RT_EOK" by (simp add: self1 th1)
  have fl1: "obj_flag a ?k1 = 1" using M(3) by simp
  obtain s' x' where k': "do { k1 \<leftarrow> ipc_wait c (Suspend a) t 1 time ?k1; block c (spinlock_unlock a k1) } =
      Some (None :: rt_err option, ?k1\<lparr>k_s := s', k_o := x', k_spin := (k_spin ?k1)(a := False)\<rparr>)"
    "okc c (?k1\<lparr>k_s := s', k_o := x', k_spin := (k_spin ?k1)(a := False)\<rparr>)"
    "waits c (Suspend a) t 1 time ?k1 (?k1\<lparr>k_s := s', k_o := x', k_spin := (k_spin ?k1)(a := False)\<rparr>)"
    using wait_ok [OF s1(2) run1 _ _ _ time(1) err1, of "Suspend a" 1 a] unfolding self1 by auto
  define kf where "kf = k\<lparr>k_s := s', k_o := x'\<rparr>"
  have eq: "?k1\<lparr>k_s := s', k_o := x', k_spin := (k_spin ?k1)(a := False)\<rparr> = kf"
    using M(4) by (simp add: kf_def on_s_def spin_restored)
  have wt: "waits c (Suspend a) t 1 time ?k1 kf" using k'(3) unfolding eq .
  have prios: "th_current_priority (s_thread s1 u) = th_current_priority (thread k u)" if "u \<noteq> w" for u
    using s1(5) that by simp
  have tw: "t \<notin> set (s_list (k_s k) (Suspend a))"
    using running_no_list [of "k_s k" t] okc_kok [OF ok(1)] st by (auto simp: kok_def sched_inv_def in_no_list_def)
  have enq: "enq 1 (\<lambda>u. th_current_priority (s_thread s1 u)) t (s_list s1 (Suspend a)) =
      enq 1 (\<lambda>u. th_current_priority (thread k u)) t (s_list (k_s k) (Suspend a))"
    using s1(6) M(7) w(2) by (simp, intro enq_cong prios) auto
  have lists: "s_list (k_s kf) g = (if g = Suspend a
       then enq 1 (\<lambda>u. th_current_priority (thread k u)) t (s_list (k_s k) g) else s_list (k_s k) g)" if "\<not> is_ready g" for g
    using wt that enq s1(6) by (simp add: waits_def)
  have runs: "same_run (s_thread s1 u) (thread kf u)" if "u \<noteq> t" for u using wt that by (simp add: waits_def)
  have wprio: "th_current_priority (thread kf w) = min (th_current_priority (thread k t)) (th_current_priority (thread k w))"
    using runs [OF w(2)] s1(3) by (simp add: same_run_def same_data_def)
  have lw: "live (thread kf w)"
    using same_run_live [OF runs [OF w(2)]] s1(4) M(6) w(2) by (simp add: live_def)
  have oth: "same_run (thread k u) (thread kf u)" if "u \<noteq> t" "u \<noteq> w" for u
    using runs [OF that(1)] s1(5) that by simp
  have st': "stat_base (th_stat (thread kf t)) = 2" using wt by (simp add: waits_def)
  have lvs: "live (thread kf u)" if "live (thread k u)" for u
    using that lw st' same_run_live [OF oth, of u] by (cases "u = t"; cases "u = w") (auto simp: live_def)
  have frame: "is_obj a 3 kf" "obj_flag a kf = 1" "\<not> k_spin kf a" "k_mutex kf = k_mutex k"
    using wt M by (simp_all add: waits_def kf_def)
  have "mtx_ok a kf"
    using m frame lists [of "Suspend a"] lw w M(7) by (auto simp: mtx_ok_def w_def enq.ins_set)
  moreover have "rt_mutex_take c a time k = Some (None, kf)"
  proof -
    have ctx: "in_thread_context c k = Some ()" using in_context(2) [OF nest] t0 by (simp add: t_def)
    have "\<not> 0 < mtx_value (k_mutex k a)" using M(5) by simp
    then have "rt_mutex_take c a time k = do {
        k \<leftarrow> (if th_current_priority (thread ?k0 t) < th_current_priority (thread ?k0 w)
             then thread_change_priority c w (th_current_priority (thread ?k0 t)) ?k0 else Some ?k0);
        k \<leftarrow> ipc_wait c (Suspend a) t (obj_flag a k) time k;
        block c (spinlock_unlock a k) }"
      using ctx M(1,2,4) w time(2)
      unfolding rt_mutex_take_def by (simp add: t_def [symmetric] w_def [symmetric] Let_def)
    also have "\<dots> = do { k1 \<leftarrow> ipc_wait c (Suspend a) t 1 time ?k1; block c (spinlock_unlock a k1) }"
      unfolding s1(1) using fl1 by simp
    finally show ?thesis unfolding k'(1) eq .
  qed
  moreover have "okc c kf" using k'(2) unfolding eq .
  ultimately show ?thesis
    using frame(4) lists st' wprio oth lvs wt by (intro exI [of _ kf]) (auto simp: waits_def)
qed


subsection \<open>Properties\<close>

text \<open>C28: \<open>rt_mutex_take\<close>: a free mutex is taken by the calling thread, the owner takes it again up
  to 255 times and is refused beyond; a thread that may not wait gets a time-out at once; and one
  that may is suspended in order of priority, after the owner's priority was raised to its own if
  that is higher (priority inheritance).  The mutex always has at most the one owner recorded.\<close>

theorem rt_mutex_take_spec:
  assumes "okc c k" "running c k" "mtx_ok a k" "cpu_irq_nest (s_cpu (k_s k) c) = 0" "time < 0x7fffffff"
  defines "t \<equiv> rt_thread_self c k" and "m \<equiv> k_mutex k a"
  shows "\<exists>r k'. rt_mutex_take c a time k = Some (r, k') \<and> okc c k' \<and> mtx_ok a k' \<and>
    (mtx_owner m = 0 \<longrightarrow> r = Some RT_EOK \<and> k' = upd_mutex a (\<lambda>_. \<lparr>mtx_value = 0,
        mtx_original_priority = th_current_priority (thread k t), mtx_hold = 1, mtx_owner = t\<rparr>) (set_error t RT_EOK k)) \<and>
    (mtx_owner m = t \<and> mtx_hold m < 0xff \<longrightarrow> r = Some RT_EOK \<and>
       k' = upd_mutex a (\<lambda>m. m\<lparr>mtx_hold := mtx_hold m + 1\<rparr>) (set_error t RT_EOK k)) \<and>
    (mtx_owner m = t \<and> mtx_hold m = 0xff \<longrightarrow> r = Some (- RT_EFULL) \<and> k' = set_error t RT_EOK k) \<and>
    (mtx_owner m \<noteq> 0 \<and> mtx_owner m \<noteq> t \<and> time = 0 \<longrightarrow>
       r = Some (- RT_ETIMEOUT) \<and> k' = set_error t (- RT_ETIMEOUT) k) \<and>
    (mtx_owner m \<noteq> 0 \<and> mtx_owner m \<noteq> t \<and> time \<noteq> 0 \<longrightarrow> r = None \<and> k_mutex k' = k_mutex k \<and>
       s_list (k_s k') (Suspend a) = enq RT_IPC_FLAG_PRIO (\<lambda>u. th_current_priority (thread k u)) t (s_list (k_s k) (Suspend a)) \<and>
       stat_base (th_stat (thread k' t)) = RT_THREAD_SUSPEND \<and> (timer_activated (ThTimer t) (k_o k') \<longleftrightarrow> 0 < time) \<and>
       th_current_priority (thread k' (mtx_owner m)) =
         min (th_current_priority (thread k t)) (th_current_priority (thread k (mtx_owner m))))"
proof -
  have M: "a \<noteq> 0" "is_obj a 3 k" "obj_flag a k = 1" "\<not> k_spin k a" using assms(3) by (simp_all add: mtx_ok_def)
  have t0: "t \<noteq> 0" and lt: "live (thread k t)" using assms(1,2) by (simp_all add: okc_def running_def t_def live_def)
  have ctx: "in_thread_context c k = Some ()" using in_context(2) [OF assms(4)] t0 by (simp add: t_def)
  have tw: "t \<notin> set (s_list (k_s k) (Suspend a))"
    using running_no_list [of "k_s k" t] okc_kok [OF assms(1)] assms(2)
    by (auto simp: kok_def sched_inv_def in_no_list_def running_def t_def)
  note simps = rt_mutex_take_def ctx M t_def [symmetric] m_def [symmetric] Let_def set_error_unlock set_error_ok set_error_twice
  have hold_cases: "mtx_hold m < 0xff \<or> mtx_hold m = 0xff"
  proof -
    have "unat (mtx_hold m) < 2 ^ LENGTH(8)" by (rule unsigned_less)
    then have "mtx_hold m \<le> 0xff" by (simp add: word_le_nat_alt)
    then show ?thesis by (auto simp: order_le_less)
  qed
  consider (free) "mtx_owner m = 0" | (mine) "mtx_owner m = t" "mtx_hold m < 0xff" | (full) "mtx_owner m = t" "mtx_hold m = 0xff"
    | (now) "mtx_owner m \<noteq> 0" "mtx_owner m \<noteq> t" "time = 0" | (wait) "mtx_owner m \<noteq> 0" "mtx_owner m \<noteq> t" "time \<noteq> 0"
    using hold_cases by blast
  then show ?thesis
  proof cases
    case free
    then have f: "m = free_mutex" "s_list (k_s k) (Suspend a) = []" using assms(3) by (simp_all add: mtx_ok_def m_def)
    let ?k' = "upd_mutex a (\<lambda>_. \<lparr>mtx_value = 0, mtx_original_priority = th_current_priority (thread k t), mtx_hold = 1, mtx_owner = t\<rparr>) (set_error t RT_EOK k)"
    have "rt_mutex_take c a time k = Some (Some RT_EOK, ?k')"
      using free t0 M unfolding simps
      by (simp add: simps f(1) free_mutex_def) (simp add: upd_mutex_def spinlock_unlock_def on_s_def spin_restored M(4) f(1) m_def [symmetric] free_mutex_def)
    moreover have "mtx_ok a ?k'"
      using M t0 lt live_priority [OF assms(1) t0 lt] f(2) by (simp add: mtx_ok_def live_def)
    ultimately show ?thesis using free t0 assms(1) by (auto simp: set_error_ok)
  next
    case mine
    let ?k' = "upd_mutex a (\<lambda>m. m\<lparr>mtx_hold := mtx_hold m + 1\<rparr>) (set_error t RT_EOK k)"
    have "rt_mutex_take c a time k = Some (Some RT_EOK, ?k')" using mine M unfolding simps by (simp add: simps)
    moreover have "mtx_hold m + 1 \<noteq> 0"
    proof
      assume "mtx_hold m + 1 = 0"
      then have "mtx_hold m = - 1" by (simp add: eq_neg_iff_add_eq_0)
      with mine(2) show False by simp
    qed
    then have "0 < mtx_hold m + 1" by (simp add: word_gt_0)
    then have "mtx_ok a ?k'"
      using assms(3) mine t0 lt tw by (simp add: mtx_ok_def m_def [symmetric] live_def)
    ultimately show ?thesis using mine t0 assms(1) by (auto simp: set_error_ok)
  next
    case full
    have "rt_mutex_take c a time k = Some (Some (- RT_EFULL), set_error t RT_EOK k)" using full M unfolding simps by (simp add: simps)
    then show ?thesis using full t0 assms(1,3) by (auto simp: set_error_ok)
  next
    case now
    have "mtx_value m = 0" using assms(3) now(1) by (simp add: mtx_ok_def m_def)
    then have "rt_mutex_take c a time k = Some (Some (- RT_ETIMEOUT), set_error t (- RT_ETIMEOUT) k)"
      using now M unfolding simps by (simp add: simps)
    then show ?thesis using now assms(1,3) by (auto simp: set_error_ok)
  next
    case wait
    obtain k' where "rt_mutex_take c a time k = Some (None, k') \<and> okc c k' \<and> mtx_ok a k' \<and> k_mutex k' = k_mutex k \<and>
      (\<forall>g. \<not> is_ready g \<longrightarrow> s_list (k_s k') g = (if g = Suspend a
         then enq RT_IPC_FLAG_PRIO (\<lambda>u. th_current_priority (thread k u)) t (s_list (k_s k) g) else s_list (k_s k) g)) \<and>
      stat_base (th_stat (thread k' t)) = RT_THREAD_SUSPEND \<and> (timer_activated (ThTimer t) (k_o k') \<longleftrightarrow> 0 < time) \<and>
      th_current_priority (thread k' (mtx_owner m)) =
        min (th_current_priority (thread k t)) (th_current_priority (thread k (mtx_owner m)))"
      using mutex_take_waits [OF assms(1-5) wait(3), folded t_def m_def] wait by blast
    then show ?thesis using wait by (intro exI [of _ "None"] exI [of _ k']) simp
  qed
qed


lemma rt_mutex_take_spec_witness:
  "\<exists>k'. rt_mutex_take 0 100 7 ((sample_kernel 3)\<lparr>k_mutex := \<lambda>_.
      \<lparr>mtx_value = 0, mtx_original_priority = 20, mtx_hold = 1, mtx_owner = 3\<rparr>\<rparr>) = Some (None, k') \<and>
    s_list (k_s k') (Suspend 100) = [1] \<and> timer_activated (ThTimer 1) (k_o k')"
proof -
  let ?k = "(sample_kernel 3)\<lparr>k_mutex := \<lambda>_. \<lparr>mtx_value = 0, mtx_original_priority = 20, mtx_hold = 1, mtx_owner = 3\<rparr>\<rparr>"
  have "okc 0 ?k" "running 0 ?k" using sample_okc [of 3] sample_running(1) [of 3] by (simp_all add: okc_def kinv_def running_def rt_thread_self_def)
  moreover have "mtx_ok 100 ?k" "cpu_irq_nest (s_cpu (k_s ?k) 0) = 0" "rt_thread_self 0 ?k = 1"
    using sample_live [of 3] sample_running(2) [of 3]
    by (simp_all add: mtx_ok_def rt_object_get_information_def rt_thread_self_def del: sample_sched_facts)
  ultimately show ?thesis
    using rt_mutex_take_spec [of 0 ?k 100 7] by (auto simp: enq_def)
qed

subsection \<open>Releasing\<close>

lemma mutex_fields:
  "m\<lparr>mtx_hold := h, mtx_value := v, mtx_owner := w, mtx_original_priority := p\<rparr> =
    \<lparr>mtx_value = v, mtx_original_priority = p, mtx_hold = h, mtx_owner = w\<rparr>"
  "m\<lparr>mtx_owner := w, mtx_original_priority := p, mtx_hold := h\<rparr> =
    \<lparr>mtx_value = mtx_value m, mtx_original_priority = p, mtx_hold = h, mtx_owner = w\<rparr>"
  by (cases m, simp)+

lemma mutex_hand_over:
  assumes ok: "okc c k" and m: "mtx_ok a k" and nest: "cpu_irq_nest (s_cpu (k_s k) c) = 0"
  defines "t \<equiv> rt_thread_self c k" and "m \<equiv> k_mutex k a"
  assumes mine: "mtx_owner m = t" "mtx_hold m = 1"
  shows "\<exists>k'. rt_mutex_release c a k = Some (RT_EOK, k') \<and> okc c k' \<and> mtx_ok a k' \<and>
    th_current_priority (thread k' t) = mtx_original_priority m \<and>
    (s_list (k_s k) (Suspend a) = [] \<longrightarrow> k_mutex k' a = free_mutex) \<and>
    (\<forall>u us. s_list (k_s k) (Suspend a) = u # us \<longrightarrow> s_list (k_s k') (Suspend a) = us \<and>
       k_mutex k' a = \<lparr>mtx_value = 0, mtx_original_priority = th_current_priority (thread k u), mtx_hold = 1, mtx_owner = u\<rparr> \<and>
       stat_base (th_stat (thread k' u)) \<in> {RT_THREAD_READY, RT_THREAD_RUNNING} \<and> \<not> timer_activated (ThTimer u) (k_o k') \<and>
       (th_error (thread k u) = RT_EOK \<longrightarrow> rt_mutex_take_resumed a u k' = Some (RT_EOK, k')))"
proof -
  have t0: "t \<noteq> 0" using ok by (simp add: okc_def t_def)
  have M: "a \<noteq> 0" "is_obj a 3 k" "obj_flag a k = 1" "\<not> k_spin k a" "mtx_value m = 0" "unat (mtx_original_priority m) < 32"
    "live (thread k t)" "t \<notin> set (s_list (k_s k) (Suspend a))"
    using m t0 mine(1) by (simp_all add: mtx_ok_def m_def)
  have ctx: "in_thread_context c k = Some ()" using in_context(2) [OF nest] t0 by (simp add: t_def)
  let ?k0 = "upd_mutex a (\<lambda>m. m\<lparr>mtx_hold := mtx_hold m - 1\<rparr>) (k\<lparr>k_spin := (k_spin k)(a := True)\<rparr>)"
  have pre: "okc c ?k0" "live (thread ?k0 t)" using ok M(7) by simp_all
  let ?b = "mtx_original_priority m \<noteq> th_current_priority (thread k t)"
  obtain s1 where s1: "(if ?b then thread_change_priority c t (mtx_original_priority m) ?k0 else Some ?k0) = Some (?k0\<lparr>k_s := s1\<rparr>)"
      "okc c (?k0\<lparr>k_s := s1\<rparr>)"
      "th_current_priority (s_thread s1 t) = (if ?b then mtx_original_priority m else th_current_priority (thread ?k0 t))"
      "th_error (s_thread s1 t) = th_error (thread ?k0 t)"
      "stat_base (th_stat (s_thread s1 t)) = stat_base (th_stat (thread ?k0 t))"
      "\<forall>u. u \<noteq> t \<longrightarrow> s_thread s1 u = thread ?k0 u" "\<forall>g. \<not> is_ready g \<longrightarrow> s_list s1 g = s_list (k_s ?k0) g"
      "\<forall>d. current d s1 = current d (k_s ?k0) \<and> same_cpu (s_cpu (k_s ?k0) d) (s_cpu s1 d)"
    using priority_step [OF pre(1) t0 pre(2) M(6), of ?b] by (elim exE conjE) (rule that; assumption)
  have tp: "th_current_priority (s_thread s1 t) = mtx_original_priority m" using s1(3) by simp
  let ?cont = "\<lambda>k. case s_list (k_s k) (Suspend a) of
       u # _ \<Rightarrow> do {
         let k = upd_mutex a (\<lambda>m. m\<lparr>mtx_owner := u, mtx_original_priority := th_current_priority (thread k u)\<rparr>) k;
         (if mtx_hold (k_mutex k a) < 0xff
          then do {
            let k = upd_mutex a (\<lambda>m. m\<lparr>mtx_hold := mtx_hold m + 1\<rparr>) k;
            k \<leftarrow> ipc_list_resume c (Suspend a) k;
            k \<leftarrow> kschedule c (spinlock_unlock a k);
            Some (RT_EOK, k) }
          else Some (- RT_EFULL, spinlock_unlock a k)) }
     | [] \<Rightarrow>
         if mtx_value (k_mutex k a) < 0xffff
         then Some (RT_EOK, spinlock_unlock a (upd_mutex a (\<lambda>m. m\<lparr>mtx_value := mtx_value m + 1,
                      mtx_owner := 0, mtx_original_priority := 0xff\<rparr>) k))
         else Some (- RT_EFULL, spinlock_unlock a k)"
  have "rt_mutex_release c a k =
      do { k \<leftarrow> (if ?b then thread_change_priority c t (mtx_original_priority m) ?k0 else Some ?k0); ?cont k }"
    using M mine by (simp add: rt_mutex_release_def ctx t_def [symmetric] m_def [symmetric] Let_def)
  then have rel: "rt_mutex_release c a k = ?cont (?k0\<lparr>k_s := s1\<rparr>)" unfolding s1(1) by simp
  show ?thesis
  proof (cases "s_list (k_s k) (Suspend a)")
    case Nil
    let ?k' = "upd_mutex a (\<lambda>_. free_mutex) (k\<lparr>k_s := s1\<rparr>)"
    have "rt_mutex_release c a k = Some (RT_EOK, ?k')"
      using rel s1(7) Nil M(4,5) mine(2) by (simp add: mutex_fields m_def free_mutex_def upd_mutex_def spinlock_unlock_def spin_restored)
    moreover have "okc c (k\<lparr>k_s := s1\<rparr>)" using s1(2) by (simp add: okc_def kinv_def rt_thread_self_def)
    moreover have "mtx_ok a ?k'" using M s1(7) Nil by (simp add: mtx_ok_def free_mutex_def)
    ultimately show ?thesis using tp Nil by (intro exI [of _ ?k']) simp
  next
    case (Cons u us)
    let ?f = "\<lambda>m. \<lparr>mtx_value = 0, mtx_original_priority = th_current_priority (thread k u), mtx_hold = 1, mtx_owner = u\<rparr>"
    let ?k2 = "upd_mutex a ?f (k\<lparr>k_spin := (k_spin k)(a := True), k_s := s1\<rparr>)"
    have ut: "u \<noteq> t" using Cons M(8) by auto
    have ok2: "okc c ?k2" using s1(2) by (simp add: okc_def kinv_def rt_thread_self_def)
    have l2: "s_list (k_s ?k2) (Suspend a) = u # us" using s1(7) Cons by simp
    obtain s' x' where w: "do { k1 \<leftarrow> ipc_list_resume c (Suspend a) ?k2; kschedule c (spinlock_unlock a k1) } =
        Some (?k2\<lparr>k_s := s', k_o := x', k_spin := (k_spin ?k2)(a := False)\<rparr>)"
      "okc c (?k2\<lparr>k_s := s', k_o := x', k_spin := (k_spin ?k2)(a := False)\<rparr>)"
      "wakes (Suspend a) u us ?k2 (?k2\<lparr>k_s := s', k_o := x', k_spin := (k_spin ?k2)(a := False)\<rparr>)"
      using wake_ok [OF ok2 _ _ l2, of a] by auto
    define kf where "kf = upd_mutex a ?f (k\<lparr>k_s := s', k_o := x'\<rparr>)"
    have eq: "?k2\<lparr>k_s := s', k_o := x', k_spin := (k_spin ?k2)(a := False)\<rparr> = kf"
      using M(4) by (simp add: kf_def upd_mutex_def spin_restored)
    have wk: "wakes (Suspend a) u us ?k2 kf" using w(3) unfolding eq .
    have "rt_mutex_release c a k = do { k \<leftarrow> do { k1 \<leftarrow> ipc_list_resume c (Suspend a) ?k2; kschedule c (spinlock_unlock a k1) };
        Some (RT_EOK, k) }"
      using rel s1(6,7) Cons ut M(5) mine(2) by (simp add: mutex_fields m_def upd_mutex_def Let_def)
    also have "\<dots> = Some (RT_EOK, kf)" unfolding w(1) eq by simp
    finally have r: "rt_mutex_release c a k = Some (RT_EOK, kf)" .
    have un: "live (thread k u)" "unat (th_current_priority (thread k u)) < 32" "u \<noteq> 0" "u \<notin> set us"
    proof -
      have lo: "lists_ok (k_s k)" using okc_kok [OF ok] by (simp add: kok_def sched_inv_def)
      have u: "u \<in> set (s_list (k_s k) (Suspend a))" using Cons by simp
      then show u0: "u \<noteq> 0" using in_list_ok [OF lo] by blast
      have "stat_base (th_stat (thread k u)) = 2" using waiter_suspended [OF ok u] by simp
      then show lu: "live (thread k u)" by (simp add: live_def)
      show "unat (th_current_priority (thread k u)) < 32" using live_priority [OF ok u0 lu] .
      have "distinct (u # us)" using lo Cons by (metis lists_ok_def)
      then show "u \<notin> set us" by simp
    qed
    have "mtx_ok a kf"
      using wk M un by (auto simp: mtx_ok_def kf_def wakes_def live_def)
    moreover have "th_current_priority (thread kf t) = mtx_original_priority m"
      using wakes_other [OF wk, of t] ut tp by (simp add: same_run_def same_data_def)
    moreover have "th_error (thread k u) = RT_EOK \<longrightarrow> rt_mutex_take_resumed a u kf = Some (RT_EOK, kf)"
      using wk s1(6) ut M(4)
      by (simp add: rt_mutex_take_resumed_def wakes_def spin_unlock_lock) (simp add: kf_def)
    moreover have "okc c kf" using w(2) unfolding eq .
    ultimately show ?thesis using r wk Cons
      by (intro exI [of _ kf]) (simp add: wakes_def, simp add: kf_def)
  qed
qed


text \<open>C3: \<open>rt_mutex_release\<close>: a thread that is not the owner is refused and nothing changes but its
  error code; the owner gives up one of its holds; with the last one its original priority comes
  back, and the mutex is free or, with waiters, belongs to the first of them, held once, which
  is runnable and returns success from its \<open>rt_mutex_take\<close>.\<close>

theorem rt_mutex_release_spec:
  assumes "okc c k" "mtx_ok a k" "cpu_irq_nest (s_cpu (k_s k) c) = 0"
  defines "t \<equiv> rt_thread_self c k" and "m \<equiv> k_mutex k a"
  shows "\<exists>r k'. rt_mutex_release c a k = Some (r, k') \<and> okc c k' \<and> mtx_ok a k' \<and>
    (mtx_owner m \<noteq> t \<longrightarrow> r = - RT_ERROR \<and> k' = set_error t (- RT_ERROR) k) \<and>
    (mtx_owner m = t \<and> 1 < mtx_hold m \<longrightarrow> r = RT_EOK \<and> k' = upd_mutex a (\<lambda>m. m\<lparr>mtx_hold := mtx_hold m - 1\<rparr>) k) \<and>
    (mtx_owner m = t \<and> mtx_hold m = 1 \<longrightarrow> r = RT_EOK \<and>
       th_current_priority (thread k' t) = mtx_original_priority m \<and>
       (s_list (k_s k) (Suspend a) = [] \<longrightarrow> k_mutex k' a = free_mutex) \<and>
       (\<forall>u us. s_list (k_s k) (Suspend a) = u # us \<longrightarrow> s_list (k_s k') (Suspend a) = us \<and>
          k_mutex k' a = \<lparr>mtx_value = 0, mtx_original_priority = th_current_priority (thread k u), mtx_hold = 1, mtx_owner = u\<rparr> \<and>
          stat_base (th_stat (thread k' u)) \<in> {RT_THREAD_READY, RT_THREAD_RUNNING} \<and> \<not> timer_activated (ThTimer u) (k_o k') \<and>
          (th_error (thread k u) = RT_EOK \<longrightarrow> rt_mutex_take_resumed a u k' = Some (RT_EOK, k'))))"
proof -
  have M: "a \<noteq> 0" "is_obj a 3 k" "\<not> k_spin k a" using assms(2) by (simp_all add: mtx_ok_def)
  have t0: "t \<noteq> 0" using assms(1) by (simp add: okc_def t_def)
  have ctx: "in_thread_context c k = Some ()" using in_context(2) [OF assms(3)] t0 by (simp add: t_def)
  consider (other) "mtx_owner m \<noteq> t" | (more) "mtx_owner m = t" "1 < mtx_hold m" | (last) "mtx_owner m = t" "mtx_hold m = 1"
  proof -
    have "mtx_owner m = t \<Longrightarrow> mtx_hold m \<noteq> 0" using assms(2) t0 by (auto simp: mtx_ok_def m_def)
    then have "mtx_owner m = t \<Longrightarrow> 1 \<le> mtx_hold m"
      by (simp add: word_le_nat_alt Suc_le_eq unat_gt_0)
    then have "mtx_owner m = t \<Longrightarrow> 1 < mtx_hold m \<or> mtx_hold m = 1" by (auto simp: order_le_less)
    with that show thesis by blast
  qed
  then show ?thesis
  proof cases
    case other
    then have "rt_mutex_release c a k = Some (- RT_ERROR, set_error t (- RT_ERROR) k)"
      using M by (simp add: rt_mutex_release_def ctx t_def [symmetric] m_def [symmetric] set_error_unlock)
    then show ?thesis using other assms(1,2) by (simp add: set_error_ok)
  next
    case more
    have h: "mtx_hold m - 1 \<noteq> 0" using more(2) by auto
    let ?k' = "upd_mutex a (\<lambda>m. m\<lparr>mtx_hold := mtx_hold m - 1\<rparr>) k"
    have "rt_mutex_release c a k = Some (RT_EOK, ?k')"
      using more M h by (simp add: rt_mutex_release_def ctx t_def [symmetric] m_def [symmetric] upd_mutex_unlock)
    moreover have "mtx_ok a ?k'" using assms(2) more h t0 by (simp add: mtx_ok_def m_def word_gt_0)
    ultimately show ?thesis using more assms(1) by auto
  next
    case last
    obtain k' where "rt_mutex_release c a k = Some (RT_EOK, k')" "okc c k'" "mtx_ok a k'"
      "th_current_priority (thread k' t) = mtx_original_priority m"
      "s_list (k_s k) (Suspend a) = [] \<longrightarrow> k_mutex k' a = free_mutex"
      "\<forall>u us. s_list (k_s k) (Suspend a) = u # us \<longrightarrow> s_list (k_s k') (Suspend a) = us \<and>
         k_mutex k' a = \<lparr>mtx_value = 0, mtx_original_priority = th_current_priority (thread k u), mtx_hold = 1, mtx_owner = u\<rparr> \<and>
         stat_base (th_stat (thread k' u)) \<in> {RT_THREAD_READY, RT_THREAD_RUNNING} \<and> \<not> timer_activated (ThTimer u) (k_o k') \<and>
         (th_error (thread k u) = RT_EOK \<longrightarrow> rt_mutex_take_resumed a u k' = Some (RT_EOK, k'))"
      using mutex_hand_over [OF assms(1-3), folded t_def m_def, OF last] by (elim exE conjE) (rule that; assumption)
    then show ?thesis using last by (intro exI [of _ "RT_EOK"] exI [of _ k']) simp
  qed
qed

lemma rt_mutex_release_spec_witness:
  "\<exists>k'. rt_mutex_release 0 100 ((sample_kernel 3)\<lparr>k_mutex := \<lambda>_.
      \<lparr>mtx_value = 0, mtx_original_priority = 12, mtx_hold = 1, mtx_owner = 1\<rparr>\<rparr>) = Some (RT_EOK, k') \<and>
    k_mutex k' 100 = free_mutex \<and> th_current_priority (thread k' 1) = 12"
proof -
  let ?k = "(sample_kernel 3)\<lparr>k_mutex := \<lambda>_. \<lparr>mtx_value = 0, mtx_original_priority = 12, mtx_hold = 1, mtx_owner = 1\<rparr>\<rparr>"
  have "okc 0 ?k" using sample_okc [of 3] by (simp add: okc_def kinv_def rt_thread_self_def)
  moreover have "mtx_ok 100 ?k" "cpu_irq_nest (s_cpu (k_s ?k) 0) = 0" "rt_thread_self 0 ?k = 1"
    using sample_live [of 1] sample_running(2) [of 3]
    by (simp_all add: mtx_ok_def rt_object_get_information_def rt_thread_self_def del: sample_sched_facts)
  ultimately show ?thesis using rt_mutex_release_spec [of 0 ?k 100] by auto
qed

end
