(* ===== verification/Event.thy ===== *)
theory Event
  imports Mutex
begin

section \<open>Event sets (\<open>src/ipc.c\<close>)\<close>

text \<open>
  \<open>rt_event_init\<close> to \<open>rt_event_control\<close>.  A thread waits for some (OR) or all (AND) bits of
  its \<open>event_set\<close>; \<open>rt_event_send\<close> walks the waiting list once, and a woken thread that asked
  for it clears its bits before the next one is looked at.
\<close>

abbreviation (input) RT_EVENT_FLAG_AND :: u8 where "RT_EVENT_FLAG_AND \<equiv> 1"
abbreviation (input) RT_EVENT_FLAG_OR :: u8 where "RT_EVENT_FLAG_OR \<equiv> 2"
abbreviation (input) RT_EVENT_FLAG_CLEAR :: u8 where "RT_EVENT_FLAG_CLEAR \<equiv> 4"

definition upd_event :: "nat \<Rightarrow> u32 \<Rightarrow> kernel \<Rightarrow> kernel" where
  "upd_event a v k = k\<lparr>k_event := (k_event k)(a := \<lparr>ev_set = v\<rparr>)\<rparr>"

abbreviation ev :: "nat \<Rightarrow> kernel \<Rightarrow> u32" where
  "ev a k \<equiv> ev_set (k_event k a)"

abbreviation set_event_set :: "nat \<Rightarrow> u32 \<Rightarrow> kernel \<Rightarrow> kernel" where
  "set_event_set t v \<equiv> on_s (upd_thread t (\<lambda>th. th\<lparr>th_event_set := v\<rparr>))"

abbreviation set_event_info :: "nat \<Rightarrow> u8 \<Rightarrow> kernel \<Rightarrow> kernel" where
  "set_event_info t v \<equiv> on_s (upd_thread t (\<lambda>th. th\<lparr>th_event_info := v\<rparr>))"

definition rt_event_init :: "nat \<Rightarrow> u8 list \<Rightarrow> u8 \<Rightarrow> kernel \<Rightarrow> (rt_err \<times> kernel) option" where
  "rt_event_init a name flag k =
     do { rt_assert (a \<noteq> 0);
          rt_assert (flag = RT_IPC_FLAG_FIFO \<or> flag = RT_IPC_FLAG_PRIO);
          k \<leftarrow> lift_o (rt_object_init (Obj a) RT_Object_Class_Event name) k;
          Some (RT_EOK, upd_event a 0 (ipc_object_init a (set_obj_flag a flag k))) }"

definition rt_event_detach :: "nat \<Rightarrow> nat \<Rightarrow> kernel \<Rightarrow> (rt_err \<times> kernel) option" where
  "rt_event_detach c a k =
     do { rt_assert (a \<noteq> 0);
          rt_assert (is_obj a RT_Object_Class_Event k);
          rt_assert (rt_object_is_systemobject (Obj a) (k_o k));
          k \<leftarrow> ipc_list_resume_all c (Suspend a) k;
          k \<leftarrow> lift_o (rt_object_detach (Obj a)) k;
          Some (RT_EOK, k) }"

definition rt_event_create :: "nat \<Rightarrow> nat \<Rightarrow> u8 list \<Rightarrow> u8 \<Rightarrow> kernel \<Rightarrow> (nat \<times> kernel) option" where
  "rt_event_create c mem name flag k =
     do { rt_assert (flag = RT_IPC_FLAG_FIFO \<or> flag = RT_IPC_FLAG_PRIO);
          not_in_interrupt c k;
          (a, x) \<leftarrow> rt_object_allocate mem RT_Object_Class_Event name (k_o k);
          let k = k\<lparr>k_o := x\<rparr>;
          (if a = 0 then Some (0, k)
           else Some (a, upd_event a 0 (ipc_object_init a (set_obj_flag a flag k)))) }"

definition rt_event_delete :: "nat \<Rightarrow> nat \<Rightarrow> kernel \<Rightarrow> (rt_err \<times> kernel) option" where
  "rt_event_delete c a k =
     do { rt_assert (a \<noteq> 0);
          rt_assert (is_obj a RT_Object_Class_Event k);
          rt_assert (\<not> rt_object_is_systemobject (Obj a) (k_o k));
          not_in_interrupt c k;
          k \<leftarrow> ipc_list_resume_all c (Suspend a) k;
          k \<leftarrow> lift_o (rt_object_delete (Obj a)) k;
          Some (RT_EOK, k) }"

text \<open>
  The loop of \<open>rt_event_send\<close> over the waiting list: each node's successor is read before the
  node is taken off.  A waiter with neither AND nor OR ends the call with \<open>-RT_EINVAL\<close>
  (\<open>None\<close> here for \<open>need_schedule\<close>).
\<close>

fun event_send_loop :: "nat \<Rightarrow> nat \<Rightarrow> nat list \<Rightarrow> bool \<Rightarrow> kernel \<Rightarrow> (bool option \<times> kernel) option" where
  "event_send_loop c a [] need k = Some (Some need, k)"
| "event_send_loop c a (t # ts) need k =
     (let info = th_event_info (thread k t); want = th_event_set (thread k t) in
      if info AND RT_EVENT_FLAG_AND \<noteq> 0 \<or> info AND RT_EVENT_FLAG_OR \<noteq> 0
      then let anded = info AND RT_EVENT_FLAG_AND \<noteq> 0;
               hit = (if anded then want AND ev a k = want else want AND ev a k \<noteq> 0);
               k = (if hit \<and> \<not> anded then set_event_set t (want AND ev a k) k else k)
           in if hit
              then do { let k = (if info AND RT_EVENT_FLAG_CLEAR \<noteq> 0
                                 then upd_event a (ev a k AND NOT (th_event_set (thread k t))) k else k);
                        (_, k) \<leftarrow> rt_thread_resume c t k;
                        event_send_loop c a ts True k }
              else event_send_loop c a ts need k
      else Some (None, k))"

definition rt_event_send :: "nat \<Rightarrow> nat \<Rightarrow> u32 \<Rightarrow> kernel \<Rightarrow> (rt_err \<times> kernel) option" where
  "rt_event_send c a bits k =
     do { rt_assert (a \<noteq> 0);
          rt_assert (is_obj a RT_Object_Class_Event k);
          (if bits = 0 then Some (- RT_ERROR, k)
           else do {
             k \<leftarrow> spinlock_lock a k;
             let k = upd_event a (ev a k OR bits) k;
             (need, k) \<leftarrow> event_send_loop c a (s_list (k_s k) (Suspend a)) False k;
             (case need of
                None \<Rightarrow> Some (- RT_EINVAL, spinlock_unlock a k)
              | Some n \<Rightarrow> do {
                  let k = spinlock_unlock a k;
                  k \<leftarrow> (if n then kschedule c k else Some k);
                  Some (RT_EOK, k) }) }) }"

text \<open>The test of \<open>rt_event_recv\<close>; an option with neither AND nor OR fails an assertion.\<close>

definition event_match :: "u8 \<Rightarrow> u32 \<Rightarrow> u32 \<Rightarrow> bool option" where
  "event_match opt bits e =
     (if opt AND RT_EVENT_FLAG_AND \<noteq> 0 then Some (e AND bits = bits)
      else if opt AND RT_EVENT_FLAG_OR \<noteq> 0 then Some (e AND bits \<noteq> 0)
      else None)"

text \<open>The result is the error code with the bits received, where they are known.\<close>

definition rt_event_recv ::
    "nat \<Rightarrow> nat \<Rightarrow> u32 \<Rightarrow> u8 \<Rightarrow> int \<Rightarrow> kernel \<Rightarrow> ((rt_err \<times> u32 option) option \<times> kernel) option" where
  "rt_event_recv c a bits opt timeout k =
     do { in_thread_context c k;
          rt_assert (a \<noteq> 0);
          rt_assert (is_obj a RT_Object_Class_Event k);
          (if bits = 0 then Some (Some (- RT_ERROR, None), k)
           else do {
             let t = rt_thread_self c k;
             let k = set_error t RT_EOK k;
             k \<leftarrow> spinlock_lock a k;
             hit \<leftarrow> event_match opt bits (ev a k);
             (if hit
              then do {
                let got = ev a k AND bits;
                let k = set_event_info t opt (set_event_set t got k);
                let k = (if opt AND RT_EVENT_FLAG_CLEAR \<noteq> 0 then upd_event a (ev a k AND NOT bits) k else k);
                Some (Some (th_error (thread k t), Some got), spinlock_unlock a k) }
              else if timeout = 0
              then Some (Some (- RT_ETIMEOUT, None), spinlock_unlock a (set_error t (- RT_ETIMEOUT) k))
              else do {
                let k = set_event_info t opt (set_event_set t bits k);
                k \<leftarrow> ipc_wait c (Suspend a) t (obj_flag a k) timeout k;
                block c (spinlock_unlock a k) }) }) }"

text \<open>Back from \<open>rt_schedule\<close>.  The lock is released here although it is not held.\<close>

definition rt_event_recv_resumed :: "nat \<Rightarrow> nat \<Rightarrow> kernel \<Rightarrow> (rt_err \<times> u32 option) \<times> kernel" where
  "rt_event_recv_resumed a t k =
     (if th_error (thread k t) \<noteq> RT_EOK then ((th_error (thread k t), None), k)
      else let k = spinlock_unlock a k in
           ((th_error (thread k t), Some (th_event_set (thread k t))), spinlock_unlock a k))"

definition rt_event_control :: "nat \<Rightarrow> nat \<Rightarrow> bool \<Rightarrow> kernel \<Rightarrow> (rt_err \<times> kernel) option" where
  "rt_event_control c a reset k =
     do { rt_assert (a \<noteq> 0);
          rt_assert (is_obj a RT_Object_Class_Event k);
          (if reset
           then do { k \<leftarrow> ipc_list_resume_all c (Suspend a) k;
                     k \<leftarrow> kschedule c (upd_event a 0 k);
                     Some (RT_EOK, k) }
           else Some (- RT_ERROR, k)) }"


subsection \<open>What a send means\<close>

text \<open>Whether a thread that waits for \<open>want\<close> in the way \<open>info\<close> says can go on with the set \<open>e\<close>.\<close>

definition satisfied :: "u8 \<Rightarrow> u32 \<Rightarrow> u32 \<Rightarrow> bool" where
  "satisfied info want e \<longleftrightarrow>
     (if info AND RT_EVENT_FLAG_AND \<noteq> 0 then want AND e = want else want AND e \<noteq> 0)"

text \<open>The waiters a set releases, with the bits each receives, those that stay, and the set left.\<close>

fun event_pass :: "(nat \<Rightarrow> u8) \<Rightarrow> (nat \<Rightarrow> u32) \<Rightarrow> nat list \<Rightarrow> u32 \<Rightarrow> (nat \<times> u32) list \<times> nat list \<times> u32" where
  "event_pass info want [] e = ([], [], e)"
| "event_pass info want (t # ts) e =
     (if satisfied (info t) (want t) e
      then let (w, r, e') = event_pass info want ts
                 (if info t AND RT_EVENT_FLAG_CLEAR \<noteq> 0 then e AND NOT (want t AND e) else e)
           in ((t, want t AND e) # w, r, e')
      else let (w, r, e') = event_pass info want ts e in (w, t # r, e'))"

lemma event_pass_cong:
  "(\<And>t. t \<in> set ts \<Longrightarrow> info t = info' t \<and> want t = want' t) \<Longrightarrow> event_pass info want ts e = event_pass info' want' ts e"
  by (induction ts arbitrary: e) (auto simp: Let_def split: prod.splits)

text \<open>A set only shrinks while it is handed out, and a waiter that a smaller set releases a larger one
  does too, so nobody who stays could go on with what is left.\<close>

lemma satisfied_mono:
  assumes "satisfied info want e" "e AND f = e"
  shows "satisfied info want f"
proof -
  have "want AND f = want" if "want AND e = want"
    using that assms(2) by (auto simp: bit_eq_iff bit_and_iff)
  moreover have "want AND e = 0" if "want AND f = 0"
    using that assms(2) by (auto simp: bit_eq_iff bit_and_iff)
  ultimately show ?thesis using assms(1) by (auto simp: satisfied_def split: if_splits)
qed

lemma event_pass_props:
  "event_pass info want ts e = (w, r, e') \<Longrightarrow>
     e' AND e = e' \<and> set ts = fst ` set w \<union> set r \<and>
     (\<forall>t \<in> set r. \<not> satisfied (info t) (want t) e')"
proof (induction ts arbitrary: e w r e')
  case Nil
  then show ?case by simp
next
  case (Cons t ts)
  have sub: "x AND e = x" if "x AND e AND y = x" for x y
    using that by (auto simp: bit_eq_iff bit_and_iff)
  show ?case
  proof (cases "satisfied (info t) (want t) e")
    case True
    let ?e = "if info t AND 4 \<noteq> 0 then e AND NOT (want t AND e) else e"
    obtain w1 where p: "event_pass info want ts ?e = (w1, r, e')" "w = (t, want t AND e) # w1"
      using Cons.prems True by (auto simp: Let_def split: prod.splits)
    from Cons.IH [OF p(1)] p(2) sub show ?thesis by (auto split: if_splits)
  next
    case False
    obtain r1 where p: "event_pass info want ts e = (w, r1, e')" "r = t # r1"
      using Cons.prems False by (auto simp: Let_def split: prod.splits)
    have "\<not> satisfied (info t) (want t) e'" using satisfied_mono False Cons.IH [OF p(1)] by blast
    with Cons.IH [OF p(1)] p(2) show ?thesis by auto
  qed
qed

lemma event_pass_disjoint:
  "event_pass info want ts e = (w, r, e') \<Longrightarrow> distinct ts \<Longrightarrow> fst ` set w \<inter> set r = {}"
proof (induction ts arbitrary: e w r e')
  case Nil
  then show ?case by simp
next
  case (Cons t ts)
  show ?case
  proof (cases "satisfied (info t) (want t) e")
    case True
    let ?e = "if info t AND 4 \<noteq> 0 then e AND NOT (want t AND e) else e"
    obtain w1 where p: "event_pass info want ts ?e = (w1, r, e')" "w = (t, want t AND e) # w1"
      using Cons.prems True by (auto simp: Let_def split: prod.splits)
    have "set r \<subseteq> set ts" using event_pass_props [OF p(1)] by blast
    then show ?thesis using Cons.IH [OF p(1)] Cons.prems(2) p(2) by auto
  next
    case False
    obtain r1 where p: "event_pass info want ts e = (w, r1, e')" "r = t # r1"
      using Cons.prems False by (auto simp: Let_def split: prod.splits)
    have "fst ` set w \<subseteq> set ts" using event_pass_props [OF p(1)] by blast
    then show ?thesis using Cons.IH [OF p(1)] Cons.prems(2) p(2) by auto
  qed
qed

subsection \<open>Selectors and frames\<close>

lemma upd_event_simps [simp]:
  "k_s (upd_event a v k) = k_s k" "k_o (upd_event a v k) = k_o k" "k_spin (upd_event a v k) = k_spin k"
  "k_event (upd_event a v k) = (k_event k)(a := \<lparr>ev_set = v\<rparr>)" "okc c (upd_event a v k) = okc c k"
  "rt_thread_self c (upd_event a v k) = rt_thread_self c k"
  by (simp_all add: upd_event_def)

lemma event_data_ok [simp]:
  "okc c (set_event_set t v k) = okc c k" "okc c (set_event_info t i k) = okc c k"
  by (rule thread_data_ok; simp add: core_def rt_scheduler_stack_check_def)+


lemma event_same [simp]: "set_event_set t (th_event_set (thread k t)) k = k" "upd_event a (ev a k) k = k"
proof -
  have "upd_thread t (\<lambda>th. th\<lparr>th_event_set := th_event_set (thread k t)\<rparr>) (k_s k) = k_s k"
    by (simp add: upd_thread_def)
  then show "set_event_set t (th_event_set (thread k t)) k = k" by (simp add: on_s_def)
  have "\<lparr>ev_set = ev a k\<rparr> = k_event k a" by simp
  then show "upd_event a (ev a k) k = k" by (simp only: upd_event_def) simp
qed

definition event_waiter :: "rt_thread \<Rightarrow> bool" where
  "event_waiter th \<longleftrightarrow> th_event_info th AND RT_EVENT_FLAG_AND \<noteq> 0 \<or> th_event_info th AND RT_EVENT_FLAG_OR \<noteq> 0"

definition event_ok :: "nat \<Rightarrow> kernel \<Rightarrow> bool" where
  "event_ok a k \<longleftrightarrow> a \<noteq> 0 \<and> is_obj a RT_Object_Class_Event k \<and>
     obj_flag a k \<in> {RT_IPC_FLAG_FIFO, RT_IPC_FLAG_PRIO} \<and> \<not> k_spin k a \<and>
     (\<forall>t \<in> set (s_list (k_s k) (Suspend a)). event_waiter (thread k t) \<and>
        \<not> satisfied (th_event_info (thread k t)) (th_event_set (thread k t)) (ev a k))"

text \<open>What the loop does to the state, in terms of the pass.\<close>

abbreviation pass :: "kernel \<Rightarrow> nat list \<Rightarrow> u32 \<Rightarrow> (nat \<times> u32) list \<times> nat list \<times> u32" where
  "pass k \<equiv> event_pass (\<lambda>t. th_event_info (thread k t)) (\<lambda>t. th_event_set (thread k t))"

definition passed :: "nat \<Rightarrow> (nat \<times> u32) list \<Rightarrow> nat list \<Rightarrow> kernel \<Rightarrow> sched \<Rightarrow> objs \<Rightarrow> bool" where
  "passed a w r k s' x' \<longleftrightarrow>
     (\<forall>g. \<not> is_ready g \<longrightarrow> s_list s' g = (if g = Suspend a then r else s_list (k_s k) g)) \<and>
     (\<forall>(t, got) \<in> set w. stat_base (th_stat (s_thread s' t)) \<in> {RT_THREAD_READY, RT_THREAD_RUNNING} \<and>
        th_error (s_thread s' t) = th_error (thread k t) \<and> th_event_set (s_thread s' t) = got \<and>
        \<not> timer_activated (ThTimer t) x') \<and>
     (\<forall>u. u \<notin> fst ` set w \<longrightarrow> s_thread s' u = thread k u) \<and>
     (\<forall>i. rt_object_get_type i x' = rt_object_get_type i (k_o k)) \<and>
     (\<forall>b. o_flag (ob_obj x' (Obj b)) = o_flag (ob_obj (k_o k) (Obj b)))"

lemma loop_hit:
  assumes "event_waiter (thread k t)" "satisfied (th_event_info (thread k t)) (th_event_set (thread k t)) (ev a k)"
  defines "got \<equiv> th_event_set (thread k t) AND ev a k"
  defines "e \<equiv> (if th_event_info (thread k t) AND RT_EVENT_FLAG_CLEAR \<noteq> 0 then ev a k AND NOT got else ev a k)"
  shows "event_send_loop c a (t # ts) need k =
    do { (_, k) \<leftarrow> rt_thread_resume c t (upd_event a e (set_event_set t got k)); event_send_loop c a ts True k }"
proof (cases "th_event_info (thread k t) AND RT_EVENT_FLAG_AND \<noteq> 0")
  case True
  then have "th_event_set (thread k t) AND ev a k = th_event_set (thread k t)"
    using assms(2) by (simp add: satisfied_def)
  with True show ?thesis by (simp add: e_def got_def Let_def)
next
  case False
  then have g: "th_event_set (thread k t) AND ev a k \<noteq> 0" "th_event_info (thread k t) AND 2 \<noteq> 0"
    using assms(1,2) by (simp_all add: satisfied_def event_waiter_def)
  have "upd_event a (ev a (set_event_set t got k)) (set_event_set t got k) = set_event_set t got k" by (rule event_same)
  with False g show ?thesis by (simp add: e_def got_def [symmetric] Let_def)
qed

lemma loop_miss:
  assumes "event_waiter (thread k t)" "\<not> satisfied (th_event_info (thread k t)) (th_event_set (thread k t)) (ev a k)"
  shows "event_send_loop c a (t # ts) need k = event_send_loop c a ts need k"
  using assms by (cases "th_event_info (thread k t) AND 1 = 0") (simp_all add: satisfied_def event_waiter_def Let_def)


lemma event_send_loop_ok:
  assumes "okc c k" "s_list (k_s k) (Suspend a) = keep @ ts" "\<forall>t \<in> set ts. event_waiter (thread k t)"
    and "pass k ts (ev a k) = (w, r, e')"
  shows "\<exists>s' x'. event_send_loop c a ts need k =
      Some (Some (need \<or> w \<noteq> []), upd_event a e' (k\<lparr>k_s := s', k_o := x'\<rparr>)) \<and>
    okc c (k\<lparr>k_s := s', k_o := x'\<rparr>) \<and> passed a w (keep @ r) k s' x'"
  using assms
proof (induction ts arbitrary: k keep need w r e')
  case Nil
  then show ?case by (intro exI [of _ "k_s k"] exI [of _ "k_o k"]) (auto simp: passed_def)
next
  case (Cons t ts)
  have h: "\<not> is_ready (Suspend a)" "Suspend a \<noteq> Defunct" by simp_all
  have lo: "lists_ok (k_s k)" using okc_kok [OF Cons.prems(1)] by (simp add: kok_def sched_inv_def)
  have "distinct (keep @ t # ts)" using lo Cons.prems(2) by (metis lists_ok_def)
  then have dis: "t \<notin> set keep" "t \<notin> set ts" by auto
  have tm: "t \<in> set (s_list (k_s k) (Suspend a))" using Cons.prems(2) by simp
  note sus = waiter_suspended [OF Cons.prems(1) tm h]
  show ?case
  proof (cases "satisfied (th_event_info (thread k t)) (th_event_set (thread k t)) (ev a k)")
    case True
    let ?got = "th_event_set (thread k t) AND ev a k"
    let ?e = "if th_event_info (thread k t) AND RT_EVENT_FLAG_CLEAR \<noteq> 0 then ev a k AND NOT ?got else ev a k"
    let ?k2 = "upd_event a ?e (set_event_set t ?got k)"
    have st: "event_send_loop c a (t # ts) need k =
        do { (_, k) \<leftarrow> rt_thread_resume c t ?k2; event_send_loop c a ts True k }"
      by (rule loop_hit) (use True Cons.prems(3) in simp_all)
    have ok2: "okc c ?k2" using Cons.prems(1) by (simp del: on_simps)
    have t2: "thread ?k2 u = (if u = t then (thread k t)\<lparr>th_event_set := ?got\<rparr> else thread k u)" for u by simp
    have sus2: "stat_base (th_stat (thread ?k2 t)) = 2" using sus(2) by simp
    obtain s1 where s1: "rt_thread_resume c t ?k2 = Some (RT_EOK, ?k2\<lparr>k_s := s1, k_o := stopped t (k_o ?k2)\<rparr>)"
      "okc c (?k2\<lparr>k_s := s1, k_o := stopped t (k_o ?k2)\<rparr>)" "woken t (k_s ?k2) s1"
      using resume_woken [OF ok2 sus(1) sus2] by blast
    define k3 where "k3 = ?k2\<lparr>k_s := s1, k_o := stopped t (k_o ?k2)\<rparr>"
    have th1: "s_thread s1 u = (if u = t then with_stat (if th_oncpu (thread k t) = 2 then 1 else 3)
        ((thread k t)\<lparr>th_event_set := ?got\<rparr>) else thread k u)" for u
      using s1(3) by (simp add: woken_def Let_def)
    have inv2: "sched_inv (k_s ?k2)" using okc_kok [OF ok2] by (simp add: kok_def)
    have tm2: "t \<in> set (s_list (k_s ?k2) (Suspend a))" using tm by simp
    have lists: "s_list s1 g = (if g = Suspend a then keep @ ts else s_list (k_s k) g)" if "\<not> is_ready g" for g
      using woken_lists [OF inv2 tm2 h(1) s1(3) that] Cons.prems(2) dis by (simp add: filter_neq_id)
    obtain w1 where p: "pass k ts ?e = (w1, r, e')" "w = (t, ?got) # w1"
      using Cons.prems(4) True by (auto simp: Let_def split: prod.splits)
    have "pass k3 ts ?e = pass k ts ?e"
      by (rule event_pass_cong) (use dis(2) th1 in \<open>auto simp: k3_def\<close>)
    then have p3: "pass k3 ts (ev a k3) = (w1, r, e')" using p(1) by (simp add: k3_def)
    have pre3: "okc c k3" "s_list (k_s k3) (Suspend a) = keep @ ts" "\<forall>u \<in> set ts. event_waiter (thread k3 u)"
      using s1(2) lists [OF h(1)] Cons.prems(3) dis(2) by (auto simp: k3_def th1)
    obtain s' x' where IH: "event_send_loop c a ts True k3 = Some (Some (True \<or> w1 \<noteq> []), upd_event a e' (k3\<lparr>k_s := s', k_o := x'\<rparr>))"
      "okc c (k3\<lparr>k_s := s', k_o := x'\<rparr>)" "passed a w1 (keep @ r) k3 s' x'"
      using Cons.IH [OF pre3 p3, of True] by blast
    have eq: "upd_event a e' (k3\<lparr>k_s := s', k_o := x'\<rparr>) = upd_event a e' (k\<lparr>k_s := s', k_o := x'\<rparr>)"
      by (simp add: k3_def upd_event_def on_s_def)
    have ok': "okc c (k\<lparr>k_s := s', k_o := x'\<rparr>)" using IH(2) by (simp add: k3_def okc_def kinv_def rt_thread_self_def)
    have nt: "t \<notin> fst ` set w1" using event_pass_props [OF p(1)] dis(2) by auto
    have tt: "s_thread s' t = s_thread s1 t" using IH(3) nt by (simp add: passed_def k3_def)
    have nact: "\<not> timer_activated (ThTimer t) x'"
      using okc_kok [OF ok'] tt by (auto simp: kok_def th1 split: if_splits)
    have oth: "u \<in> fst ` set w1 \<Longrightarrow> u \<noteq> t" for u using nt by auto
    have "passed a w (keep @ r) k s' x'"
      unfolding passed_def
    proof (intro conjI allI impI ballI)
      fix g assume "\<not> is_ready g"
      then show "s_list s' g = (if g = Suspend a then keep @ r else s_list (k_s k) g)"
        using IH(3) lists by (simp add: passed_def k3_def)
    next
      fix z assume z: "z \<in> set w"
      show "case z of (t, got) \<Rightarrow> stat_base (th_stat (s_thread s' t)) \<in> {1, 3} \<and>
        th_error (s_thread s' t) = th_error (thread k t) \<and> th_event_set (s_thread s' t) = got \<and> \<not> timer_activated (ThTimer t) x'"
      proof (cases "z = (t, ?got)")
        case True
        with tt nact show ?thesis by (simp add: th1)
      next
        case False
        then have z1: "z \<in> set w1" using z p(2) by simp
        then have "fst z \<noteq> t" using nt by auto
        then show ?thesis using IH(3) z1 by (auto simp: passed_def k3_def th1)
      qed
    next
      fix u assume "u \<notin> fst ` set w"
      then show "s_thread s' u = thread k u" using IH(3) p(2) by (auto simp: passed_def k3_def th1)
    qed (use IH(3) in \<open>simp_all add: passed_def k3_def\<close>)
    moreover have "event_send_loop c a (t # ts) need k = Some (Some True, upd_event a e' (k\<lparr>k_s := s', k_o := x'\<rparr>))"
      unfolding st s1(1) using IH(1) eq by (simp add: k3_def)
    ultimately show ?thesis using ok' p(2) by (intro exI [of _ s'] exI [of _ x']) simp
  next
    case False
    then obtain r1 where p: "pass k ts (ev a k) = (w, r1, e')" "r = t # r1"
      using Cons.prems(4) by (auto simp: Let_def split: prod.splits)
    have "event_send_loop c a (t # ts) need k = event_send_loop c a ts need k"
      by (rule loop_miss) (use False Cons.prems(3) in simp_all)
    moreover have "s_list (k_s k) (Suspend a) = (keep @ [t]) @ ts" using Cons.prems(2) by simp
    ultimately show ?thesis using Cons.IH [OF Cons.prems(1) _ _ p(1), of "keep @ [t]" need] Cons.prems(3) p(2) by simp
  qed
qed


lemma upd_event_unlock: "\<not> k_spin k a \<Longrightarrow>
    spinlock_unlock a (upd_event a v (k\<lparr>k_spin := (k_spin k)(a := True), k_s := s', k_o := x'\<rparr>)) = upd_event a v (k\<lparr>k_s := s', k_o := x'\<rparr>)"
  by (simp add: spinlock_unlock_def upd_event_def spin_restored)

lemma event_unlock: "\<not> k_spin k a \<Longrightarrow>
    spinlock_unlock a (upd_event a v (k\<lparr>k_spin := (k_spin k)(a := True)\<rparr>)) = upd_event a v k"
  by (simp add: spinlock_unlock_def upd_event_def spin_restored)

lemma event_recv_unlock: "\<not> k_spin k a \<Longrightarrow>
    spinlock_unlock a (upd_event a v (set_event_info t i (set_event_set t w (set_error t e (k\<lparr>k_spin := (k_spin k)(a := True)\<rparr>))))) =
    upd_event a v (set_event_info t i (set_event_set t w (set_error t e k)))"
  "\<not> k_spin k a \<Longrightarrow>
    spinlock_unlock a (set_event_info t i (set_event_set t w (set_error t e (k\<lparr>k_spin := (k_spin k)(a := True)\<rparr>)))) =
    set_event_info t i (set_event_set t w (set_error t e k))"
  by (simp_all add: spinlock_unlock_def upd_event_def on_s_def spin_restored)

text \<open>C4: \<open>rt_event_send\<close> adds the bits to the set and walks the waiting list once: exactly the threads
  the pass releases become runnable, each returning from its \<open>rt_event_recv\<close> with the bits it
  received, the others stay in their order, and nobody who stays could go on with the set that
  is left.\<close>

theorem rt_event_send_spec:
  assumes "okc c k" "event_ok a k" "bits \<noteq> 0"
  defines "p \<equiv> pass k (s_list (k_s k) (Suspend a)) (ev a k OR bits)"
  shows "\<exists>k'. rt_event_send c a bits k = Some (RT_EOK, k') \<and> okc c k' \<and> event_ok a k' \<and>
    s_list (k_s k') (Suspend a) = fst (snd p) \<and> ev a k' = snd (snd p) \<and>
    (\<forall>(t, got) \<in> set (fst p). stat_base (th_stat (thread k' t)) \<in> {RT_THREAD_READY, RT_THREAD_RUNNING} \<and>
       \<not> timer_activated (ThTimer t) (k_o k') \<and>
       (th_error (thread k t) = RT_EOK \<longrightarrow> fst (rt_event_recv_resumed a t k') = (RT_EOK, Some got)))"
proof -
  obtain w r e' where p: "p = (w, r, e')" by (cases p) auto
  let ?l = "s_list (k_s k) (Suspend a)"
  let ?k1 = "upd_event a (ev a k OR bits) (k\<lparr>k_spin := (k_spin k)(a := True)\<rparr>)"
  have E: "a \<noteq> 0" "is_obj a 4 k" "obj_flag a k \<in> {0, 1}" "\<not> k_spin k a" "\<forall>t \<in> set ?l. event_waiter (thread k t)"
    using assms(2) by (simp_all add: event_ok_def)
  have pre: "okc c ?k1" "s_list (k_s ?k1) (Suspend a) = [] @ ?l" "\<forall>t \<in> set ?l. event_waiter (thread ?k1 t)"
    "pass ?k1 ?l (ev a ?k1) = (w, r, e')"
    using assms(1) E(5) p by (simp_all add: p_def)
  obtain s' x' where lp: "event_send_loop c a ?l False ?k1 = Some (Some (False \<or> w \<noteq> []), upd_event a e' (?k1\<lparr>k_s := s', k_o := x'\<rparr>))"
    "okc c (?k1\<lparr>k_s := s', k_o := x'\<rparr>)" "passed a w ([] @ r) ?k1 s' x'"
    using event_send_loop_ok [OF pre, of False] by blast
  let ?k2 = "upd_event a e' (k\<lparr>k_s := s', k_o := x'\<rparr>)"
  have eq: "upd_event a e' (?k1\<lparr>k_s := s', k_o := x'\<rparr>) = upd_event a e' (k\<lparr>k_spin := (k_spin k)(a := True), k_s := s', k_o := x'\<rparr>)"
    by (simp add: upd_event_def)
  have ok2: "okc c ?k2" using lp(2) by (simp add: okc_def kinv_def rt_thread_self_def)
  have pd: "passed a w r k s' x'" using lp(3) by (simp add: passed_def)
  obtain s2 where s2: "(if w \<noteq> [] then kschedule c ?k2 else Some ?k2) = Some (?k2\<lparr>k_s := s2\<rparr>)" "okc c (?k2\<lparr>k_s := s2\<rparr>)"
    "\<forall>u. same_run (s_thread s' u) (s_thread s2 u)" "\<forall>h. \<not> is_ready h \<longrightarrow> s_list s2 h = s_list s' h"
  proof (cases "w = []")
    case True
    show thesis by (rule that [of s']) (use True ok2 in \<open>simp_all add: upd_event_def okc_def kinv_def rt_thread_self_def\<close>)
  next
    case False
    obtain s2 where "kschedule c ?k2 = Some (?k2\<lparr>k_s := s2\<rparr>)" "okc c (?k2\<lparr>k_s := s2\<rparr>)"
      "sframe (k_s ?k2) s2" "\<forall>h. \<not> is_ready h \<longrightarrow> s_list s2 h = s_list (k_s ?k2) h"
      using kschedule_ok [OF ok2] by blast
    then show thesis using False by (intro that [of s2]) (simp_all add: sframe_def)
  qed
  define kf where "kf = ?k2\<lparr>k_s := s2\<rparr>"
  have "rt_event_send c a bits k = do { (need, k) \<leftarrow> event_send_loop c a ?l False ?k1;
      (case need of None \<Rightarrow> Some (- RT_EINVAL, spinlock_unlock a k)
       | Some n \<Rightarrow> do { let k = spinlock_unlock a k; k \<leftarrow> (if n then kschedule c k else Some k); Some (RT_EOK, k) }) }"
    using E assms(3) by (simp add: rt_event_send_def)
  also have "\<dots> = do { k \<leftarrow> (if w \<noteq> [] then kschedule c ?k2 else Some ?k2); Some (RT_EOK, k) }"
    unfolding lp(1) eq using E(4) by (simp add: upd_event_unlock)
  also have "\<dots> = Some (RT_EOK, kf)" unfolding s2(1) kf_def by simp
  finally have res: "rt_event_send c a bits k = Some (RT_EOK, kf)" .
  have lf: "s_list (k_s kf) (Suspend a) = r" "ev a kf = e'" "thread kf = s_thread s2" "k_o kf = x'" "k_spin kf = k_spin k"
    using s2(4) pd by (simp_all add: kf_def passed_def upd_event_def)
  have ps: "pass k ?l (ev a k OR bits) = (w, r, e')" using p by (simp only: p_def)
  note pp = event_pass_props [OF ps] event_pass_disjoint [OF ps]
  have oth: "same_run (thread k u) (thread kf u)" if "u \<notin> fst ` set w" for u
  proof -
    have "s_thread s' u = thread k u" using pd that unfolding passed_def by blast
    then show ?thesis using s2(3) [rule_format, of u] lf(3) by simp
  qed
  have dl: "distinct ?l"
    using okc_kok [OF assms(1)] by (simp add: kok_def sched_inv_def lists_ok_def)
  have stay: "th_event_info (thread kf u) = th_event_info (thread k u)" "th_event_set (thread kf u) = th_event_set (thread k u)"
    "u \<in> set ?l" if "u \<in> set r" for u
    using oth [of u] pp dl that by (auto simp: same_run_def same_data_def)
  have "event_ok a kf"
    using E stay pp pd unfolding event_ok_def lf by (auto simp: passed_def event_waiter_def)
  moreover have "stat_base (th_stat (thread kf t)) \<in> {1, 3} \<and> \<not> timer_activated (ThTimer t) (k_o kf) \<and>
       (th_error (thread k t) = RT_EOK \<longrightarrow> fst (rt_event_recv_resumed a t kf) = (RT_EOK, Some got))" if "(t, got) \<in> set w" for t got
  proof -
    have "stat_base (th_stat (s_thread s' t)) \<in> {1, 3} \<and> th_error (s_thread s' t) = th_error (thread k t) \<and>
        th_event_set (s_thread s' t) = got \<and> \<not> timer_activated (ThTimer t) x'"
      using pd that by (auto simp: passed_def)
    moreover have "same_run (s_thread s' t) (s_thread s2 t)" using s2(3) by blast
    ultimately have "stat_base (th_stat (s_thread s2 t)) \<in> {1, 3}" "th_error (s_thread s2 t) = th_error (thread k t)"
      "th_event_set (s_thread s2 t) = got" "\<not> timer_activated (ThTimer t) x'"
      unfolding same_run_def same_data_def by auto
    then show ?thesis by (simp add: lf rt_event_recv_resumed_def)
  qed
  ultimately show ?thesis
    using res lf(1,2) s2(2) [folded kf_def] unfolding p by (intro exI [of _ kf]) (simp only: fst_conv snd_conv, blast)
qed


lemma rt_event_send_spec_witness:
  "\<exists>k'. rt_event_send 0 100 5 (sample_kernel 4) = Some (RT_EOK, k') \<and> ev 100 k' = 5"
proof -
  have "event_ok 100 (sample_kernel 4)" by (simp add: event_ok_def rt_object_get_information_def)
  then show ?thesis using rt_event_send_spec [OF sample_okc, of 100 4 5] by auto
qed

lemma on_s_spin: "(on_s f k)\<lparr>k_spin := p\<rparr> = on_s f (k\<lparr>k_spin := p\<rparr>)"
  by (simp add: on_s_def)

lemma event_fields:
  "th\<lparr>th_error := e, th_event_set := b, th_event_info := i\<rparr> = th\<lparr>th_event_set := b, th_event_info := i, th_error := e\<rparr>"
  by (cases th) simp

lemma event_recv_unfold:
  assumes "in_thread_context c k = Some ()" "a \<noteq> 0" "is_obj a RT_Object_Class_Event k" "\<not> k_spin k a" "bits \<noteq> 0"
    and "opt AND RT_EVENT_FLAG_AND \<noteq> 0 \<or> opt AND RT_EVENT_FLAG_OR \<noteq> 0"
  defines "t \<equiv> rt_thread_self c k" and "e \<equiv> ev a k" and "kl \<equiv> k\<lparr>k_spin := (k_spin k)(a := True)\<rparr>"
  shows "rt_event_recv c a bits opt timeout k =
    (if satisfied opt bits e
     then Some (Some (RT_EOK, Some (e AND bits)), upd_event a (if opt AND RT_EVENT_FLAG_CLEAR \<noteq> 0 then e AND NOT bits else e)
        (set_event_info t opt (set_event_set t (e AND bits) (set_error t RT_EOK k))))
     else if timeout = 0 then Some (Some (- RT_ETIMEOUT, None), set_error t (- RT_ETIMEOUT) k)
     else do { k \<leftarrow> ipc_wait c (Suspend a) t (obj_flag a k) timeout (set_event_info t opt (set_event_set t bits (set_error t RT_EOK kl)));
               block c (spinlock_unlock a k) })"
proof -
  have hit: "event_match opt bits e = Some (satisfied opt bits e)"
    using assms(6) by (auto simp: event_match_def satisfied_def and.commute)
  have nop: "upd_event a e (set_event_info t opt (set_event_set t g (set_error t 0 k))) = set_event_info t opt (set_event_set t g (set_error t 0 k))" for g
    using event_same(2) [of a "set_event_info t opt (set_event_set t g (set_error t 0 k))"] by (simp add: e_def del: event_same)
  show ?thesis
    using assms(1-5) unfolding rt_event_recv_def t_def [symmetric] kl_def
    by (cases "satisfied opt bits e"; cases "opt AND 4 = 0")
      (simp_all add: hit [unfolded e_def] Let_def e_def nop [unfolded e_def] on_s_spin event_recv_unlock set_error_unlock set_error_twice)
qed

text \<open>C30: \<open>rt_event_recv\<close>: with the bits there the calling thread receives them at once, and takes
  them out of the set if it asked to; otherwise it gets a time-out at once or waits, its request
  recorded; asking for nothing is an error.  Nobody waits for what is there.\<close>

theorem rt_event_recv_spec:
  assumes "okc c k" "running c k" "event_ok a k" "cpu_irq_nest (s_cpu (k_s k) c) = 0" "timeout < 0x7fffffff"
    and "opt AND RT_EVENT_FLAG_AND \<noteq> 0 \<or> opt AND RT_EVENT_FLAG_OR \<noteq> 0"
  defines "t \<equiv> rt_thread_self c k" and "e \<equiv> ev a k"
  shows "\<exists>r k'. rt_event_recv c a bits opt timeout k = Some (r, k') \<and> okc c k' \<and> event_ok a k' \<and>
    (bits = 0 \<longrightarrow> r = Some (- RT_ERROR, None) \<and> k' = k) \<and>
    (bits \<noteq> 0 \<and> satisfied opt bits e \<longrightarrow> r = Some (RT_EOK, Some (e AND bits)) \<and>
       ev a k' = (if opt AND RT_EVENT_FLAG_CLEAR \<noteq> 0 then e AND NOT bits else e) \<and> s_list (k_s k') = s_list (k_s k)) \<and>
    (bits \<noteq> 0 \<and> \<not> satisfied opt bits e \<and> timeout = 0 \<longrightarrow> r = Some (- RT_ETIMEOUT, None) \<and> k' = set_error t (- RT_ETIMEOUT) k) \<and>
    (bits \<noteq> 0 \<and> \<not> satisfied opt bits e \<and> timeout \<noteq> 0 \<longrightarrow> r = None \<and> ev a k' = e \<and>
       waits c (Suspend a) t (obj_flag a k) timeout (set_event_info t opt (set_event_set t bits k)) k')"
proof -
  have E: "a \<noteq> 0" "is_obj a 4 k" "obj_flag a k \<in> {0, 1}" "\<not> k_spin k a"
    using assms(3) by (simp_all add: event_ok_def)
  have t0: "t \<noteq> 0" using assms(1) by (simp add: okc_def t_def)
  have ctx: "in_thread_context c k = Some ()" using in_context(2) [OF assms(4)] t0 by (simp add: t_def)
  have tw: "t \<notin> set (s_list (k_s k) (Suspend a))"
    using running_no_list [of "k_s k" t] okc_kok [OF assms(1)] assms(2)
    by (auto simp: kok_def sched_inv_def in_no_list_def running_def t_def)
  let ?l = "s_list (k_s k) (Suspend a)"
  let ?kl = "k\<lparr>k_spin := (k_spin k)(a := True)\<rparr>"
  consider (zero) "bits = 0" | (hit) "bits \<noteq> 0" "satisfied opt bits e" | (now) "bits \<noteq> 0" "\<not> satisfied opt bits e" "timeout = 0"
    | (wait) "bits \<noteq> 0" "\<not> satisfied opt bits e" "timeout \<noteq> 0" by blast
  then show ?thesis
  proof cases
    case zero
    then have "rt_event_recv c a bits opt timeout k = Some (Some (- RT_ERROR, None), k)"
      using E by (simp add: rt_event_recv_def ctx)
    with zero assms(1,3) show ?thesis by auto
  next
    case hit
    let ?e = "if opt AND RT_EVENT_FLAG_CLEAR \<noteq> 0 then e AND NOT bits else e"
    let ?k' = "upd_event a ?e (set_event_info t opt (set_event_set t (e AND bits) (set_error t RT_EOK k)))"
    have "rt_event_recv c a bits opt timeout k = Some (Some (RT_EOK, Some (e AND bits)), ?k')"
      using hit event_recv_unfold [OF ctx E(1,2,4) _ assms(6)] by (simp add: t_def e_def)
    moreover have "okc c ?k'" using assms(1) by (simp only: upd_event_simps event_data_ok set_error_ok)
    moreover have "event_ok a ?k'"
    proof -
      have "?e AND e = ?e" by (auto simp: bit_eq_iff bit_and_iff)
      then have "\<not> satisfied (th_event_info (thread k u)) (th_event_set (thread k u)) ?e" if "u \<in> set ?l" for u
        using assms(3) satisfied_mono that unfolding event_ok_def e_def [symmetric] by blast
      then show ?thesis using assms(3) tw by (auto simp: event_ok_def simp del: if_split)
    qed
    ultimately show ?thesis using hit by (intro exI [of _ "Some (RT_EOK, Some (e AND bits))"] exI [of _ ?k']) simp
  next
    case now
    have "rt_event_recv c a bits opt timeout k = Some (Some (- RT_ETIMEOUT, None), set_error t (- RT_ETIMEOUT) k)"
      using now event_recv_unfold [OF ctx E(1,2,4) _ assms(6)] by (simp add: t_def e_def)
    moreover have "event_ok a (set_error t (- RT_ETIMEOUT) k)" using assms(3) tw by (auto simp: event_ok_def)
    ultimately show ?thesis using now assms(1) by (auto simp: set_error_ok)
  next
    case wait
    let ?k1 = "set_event_info t opt (set_event_set t bits ?kl)"
    let ?k2 = "set_event_info t opt (set_event_set t bits k)"
    have self1: "rt_thread_self c ?k1 = t" by (simp add: rt_thread_self_def t_def)
    have ok1: "okc c ?k1" using assms(1) by (simp only: event_data_ok okc_simps)
    have run1: "running c ?k1" using assms(2) unfolding running_def self1 by (simp add: t_def)
    have fl: "obj_flag a ?k1 \<in> {0, 1}" using E(3) by simp
    obtain s' x' where w: "do { k1 \<leftarrow> ipc_wait c (Suspend a) t (obj_flag a ?k1) timeout (set_error t RT_EOK ?k1); block c (spinlock_unlock a k1) } =
        Some (None :: (rt_err \<times> u32 option) option, ?k1\<lparr>k_s := s', k_o := x', k_spin := (k_spin ?k1)(a := False)\<rparr>)"
      "okc c (?k1\<lparr>k_s := s', k_o := x', k_spin := (k_spin ?k1)(a := False)\<rparr>)"
      "waits c (Suspend a) t (obj_flag a ?k1) timeout ?k1 (?k1\<lparr>k_s := s', k_o := x', k_spin := (k_spin ?k1)(a := False)\<rparr>)"
      using wait_block_ok [OF ok1 run1 _ _ fl assms(5), of "Suspend a" a] unfolding self1 by auto
    define kf where "kf = k\<lparr>k_s := s', k_o := x'\<rparr>"
    have eq: "?k1\<lparr>k_s := s', k_o := x', k_spin := (k_spin ?k1)(a := False)\<rparr> = kf"
      using E(4) by (simp add: kf_def on_s_def spin_restored)
    have swap: "set_event_info t opt (set_event_set t bits (set_error t 0 ?kl)) = set_error t 0 ?k1"
      by (simp add: on_s_def upd_thread_def event_fields)
    have k12: "?k1 = ?k2\<lparr>k_spin := (k_spin ?k2)(a := True)\<rparr>" by (simp add: on_s_def)
    have wt: "waits c (Suspend a) t (obj_flag a k) timeout ?k2 kf"
    proof -
      have f: "obj_flag a ?k1 = obj_flag a k" by simp
      show ?thesis using w(3) unfolding eq f unfolding k12 waits_spin .
    qed
    have "rt_event_recv c a bits opt timeout k =
        do { k1 \<leftarrow> ipc_wait c (Suspend a) t (obj_flag a ?k1) timeout (set_error t RT_EOK ?k1); block c (spinlock_unlock a k1) }"
      using wait event_recv_unfold [OF ctx E(1,2,4) _ assms(6), folded t_def e_def] swap by simp
    also have "\<dots> = Some (None, kf)" unfolding w(1) eq ..
    finally have res: "rt_event_recv c a bits opt timeout k = Some (None, kf)" .
    have "event_ok a kf"
    proof -
      have l: "s_list (k_s kf) (Suspend a) = enq (obj_flag a k) (\<lambda>u. th_current_priority (thread ?k2 u)) t ?l"
        "th_event_info (thread kf t) = opt" "th_event_set (thread kf t) = bits" using wt by (simp_all add: waits_def)
      have o: "th_event_info (thread kf u) = th_event_info (thread k u)" "th_event_set (thread kf u) = th_event_set (thread k u)" if "u \<noteq> t" for u
        using wt that by (auto simp: waits_def same_run_def same_data_def)
      have f: "is_obj a 4 kf" "obj_flag a kf = obj_flag a k" "\<not> k_spin kf a" "ev a kf = e"
        using wt E by (simp_all add: waits_def kf_def e_def)
      have "event_waiter (thread kf u) \<and> \<not> satisfied (th_event_info (thread kf u)) (th_event_set (thread kf u)) e"
        if "u \<in> insert t (set ?l)" for u
        using that assms(3,6) l(2,3) wait(2) o [of u] by (cases "u = t") (auto simp: event_ok_def event_waiter_def e_def)
      then show ?thesis using E f l(1) by (simp add: event_ok_def enq.ins_set)
    qed
    then show ?thesis
      using res w(2) wait wt unfolding eq by (intro exI [of _ None] exI [of _ kf]) (simp add: kf_def e_def)
  qed
qed


lemma rt_event_recv_spec_witness:
  "\<exists>k'. rt_event_recv 0 100 5 RT_EVENT_FLAG_AND 7 (sample_kernel 4) = Some (None, k') \<and>
    s_list (k_s k') (Suspend 100) = [1] \<and> timer_activated (ThTimer 1) (k_o k')"
proof -
  have "event_ok 100 (sample_kernel 4)" by (simp add: event_ok_def rt_object_get_information_def)
  then show ?thesis
    using rt_event_recv_spec [OF sample_okc sample_running(1), of 100 4 7 1 5] by (auto simp: satisfied_def waits_def enq_def)
qed

end
