(* ===== verification/Mailbox.thy ===== *)
theory Mailbox
  imports Event Fifo
begin

section \<open>Mailboxes (\<open>src/ipc.c\<close>)\<close>

text \<open>
  \<open>rt_mb_init\<close> to \<open>rt_mb_control\<close>: a circular buffer of machine words with a waiting list of
  receivers (\<open>Suspend\<close>) and one of senders (\<open>SuspendSender\<close>).  A writing or reading outside the
  pool is \<open>None\<close>.
\<close>

definition upd_mb :: "nat \<Rightarrow> (rt_mailbox \<Rightarrow> rt_mailbox) \<Rightarrow> kernel \<Rightarrow> kernel" where
  "upd_mb a f k = k\<lparr>k_mb := (k_mb k)(a := f (k_mb k a))\<rparr>"

text \<open>\<open>rt_list_init(&(mb->suspend_sender_thread))\<close>.\<close>

definition senders_init :: "nat \<Rightarrow> kernel \<Rightarrow> kernel" where
  "senders_init a = on_s (upd_list (SuspendSender a) (\<lambda>_. []))"

definition fresh_mailbox :: "u64 list \<Rightarrow> u16 \<Rightarrow> rt_mailbox" where
  "fresh_mailbox pool sz = \<lparr>mb_msg_pool = pool, mb_size = sz, mb_entry = 0, mb_in_offset = 0, mb_out_offset = 0\<rparr>"

definition rt_mb_init :: "nat \<Rightarrow> u8 list \<Rightarrow> u64 list \<Rightarrow> u64 \<Rightarrow> u8 \<Rightarrow> kernel \<Rightarrow> (rt_err \<times> kernel) option" where
  "rt_mb_init a name msgpool sz flag k =
     do { rt_assert (a \<noteq> 0);
          rt_assert (flag = RT_IPC_FLAG_FIFO \<or> flag = RT_IPC_FLAG_PRIO);
          k \<leftarrow> lift_o (rt_object_init (Obj a) RT_Object_Class_MailBox name) k;
          let k = ipc_object_init a (set_obj_flag a flag k);
          Some (RT_EOK, senders_init a (upd_mb a (\<lambda>_. fresh_mailbox msgpool (ucast sz)) k)) }"

definition rt_mb_detach :: "nat \<Rightarrow> nat \<Rightarrow> kernel \<Rightarrow> (rt_err \<times> kernel) option" where
  "rt_mb_detach c a k =
     do { rt_assert (a \<noteq> 0);
          rt_assert (is_obj a RT_Object_Class_MailBox k);
          rt_assert (rt_object_is_systemobject (Obj a) (k_o k));
          k \<leftarrow> ipc_list_resume_all c (Suspend a) k;
          k \<leftarrow> ipc_list_resume_all c (SuspendSender a) k;
          k \<leftarrow> lift_o (rt_object_detach (Obj a)) k;
          Some (RT_EOK, k) }"

text \<open>\<open>pool\<close> is what \<open>rt_malloc\<close> gives for the messages (\<open>None\<close> for \<open>RT_NULL\<close>), \<open>mem\<close> for the object.\<close>

definition rt_mb_create ::
    "nat \<Rightarrow> nat \<Rightarrow> u64 list option \<Rightarrow> u8 list \<Rightarrow> u64 \<Rightarrow> u8 \<Rightarrow> kernel \<Rightarrow> (nat \<times> kernel) option" where
  "rt_mb_create c mem pool name sz flag k =
     do { rt_assert (flag = RT_IPC_FLAG_FIFO \<or> flag = RT_IPC_FLAG_PRIO);
          not_in_interrupt c k;
          (a, x) \<leftarrow> rt_object_allocate mem RT_Object_Class_MailBox name (k_o k);
          let k = k\<lparr>k_o := x\<rparr>;
          (if a = 0 then Some (0, k)
           else do {
             let k = ipc_object_init a (set_obj_flag a flag k);
             let k = upd_mb a (\<lambda>m. m\<lparr>mb_size := ucast sz\<rparr>) k;
             (case pool of
                None \<Rightarrow> do {
                 k \<leftarrow> lift_o (rt_object_delete (Obj a)) (upd_mb a (\<lambda>m. m\<lparr>mb_msg_pool := []\<rparr>) k);
                 Some (0, k) }
              | Some p \<Rightarrow> Some (a, senders_init a (upd_mb a (\<lambda>_. fresh_mailbox p (ucast sz)) k))) }) }"

definition rt_mb_delete :: "nat \<Rightarrow> nat \<Rightarrow> kernel \<Rightarrow> (rt_err \<times> kernel) option" where
  "rt_mb_delete c a k =
     do { rt_assert (a \<noteq> 0);
          rt_assert (is_obj a RT_Object_Class_MailBox k);
          rt_assert (\<not> rt_object_is_systemobject (Obj a) (k_o k));
          not_in_interrupt c k;
          k \<leftarrow> ipc_list_resume_all c (Suspend a) k;
          k \<leftarrow> ipc_list_resume_all c (SuspendSender a) k;
          k \<leftarrow> lift_o (rt_object_delete (Obj a)) k;
          Some (RT_EOK, k) }"

text \<open>The accesses to the buffer; the result of \<open>mb_put\<close> is false when the entry count is at its maximum.\<close>

definition mb_put :: "u64 \<Rightarrow> rt_mailbox \<Rightarrow> (bool \<times> rt_mailbox) option" where
  "mb_put value m =
     do { rt_assert (unat (mb_in_offset m) < length (mb_msg_pool m));
          let m = m\<lparr>mb_msg_pool := (mb_msg_pool m)[unat (mb_in_offset m) := value]\<rparr>;
          let m = m\<lparr>mb_in_offset := mb_in_offset m + 1\<rparr>;
          let m = (if mb_size m \<le> mb_in_offset m then m\<lparr>mb_in_offset := 0\<rparr> else m);
          (if mb_entry m < 0xffff then Some (True, m\<lparr>mb_entry := mb_entry m + 1\<rparr>) else Some (False, m)) }"

definition mb_put_front :: "u64 \<Rightarrow> rt_mailbox \<Rightarrow> rt_mailbox option" where
  "mb_put_front value m =
     do { let m = (if 0 < mb_out_offset m then m\<lparr>mb_out_offset := mb_out_offset m - 1\<rparr>
                   else m\<lparr>mb_out_offset := mb_size m - 1\<rparr>);
          rt_assert (unat (mb_out_offset m) < length (mb_msg_pool m));
          let m = m\<lparr>mb_msg_pool := (mb_msg_pool m)[unat (mb_out_offset m) := value]\<rparr>;
          Some (m\<lparr>mb_entry := mb_entry m + 1\<rparr>) }"

definition mb_get :: "rt_mailbox \<Rightarrow> (u64 \<times> rt_mailbox) option" where
  "mb_get m =
     do { rt_assert (unat (mb_out_offset m) < length (mb_msg_pool m));
          let value = mb_msg_pool m ! unat (mb_out_offset m);
          let m = m\<lparr>mb_out_offset := mb_out_offset m + 1\<rparr>;
          let m = (if mb_size m \<le> mb_out_offset m then m\<lparr>mb_out_offset := 0\<rparr> else m);
          Some (value, if 0 < mb_entry m then m\<lparr>mb_entry := mb_entry m - 1\<rparr> else m) }"

text \<open>Waking the first thread of the list \<open>h\<close>, if there is one, and releasing the lock.\<close>

definition notify :: "nat \<Rightarrow> nat \<Rightarrow> lhead \<Rightarrow> kernel \<Rightarrow> kernel option" where
  "notify c a h k =
     (if s_list (k_s k) h \<noteq> []
      then do { k \<leftarrow> ipc_list_resume c h k; kschedule c (spinlock_unlock a k) }
      else Some (spinlock_unlock a k))"

text \<open>
  The loop of \<open>rt_mb_send_wait\<close>, one turn: with room the message goes in; without, the thread \<open>t\<close>
  gives up or waits.  \<open>rt_mb_send_wait_resumed\<close> is what it does when it runs again, \<open>before\<close>
  being the tick at which it began to wait, and takes the next turn.
\<close>

definition mb_send_turn :: "nat \<Rightarrow> nat \<Rightarrow> nat \<Rightarrow> u64 \<Rightarrow> int \<Rightarrow> kernel \<Rightarrow> (rt_err option \<times> kernel) option" where
  "mb_send_turn c a t value timeout k =
     (if mb_entry (k_mb k a) = mb_size (k_mb k a)
      then do {
        let k = set_error t RT_EOK k;
        (if timeout = 0 then Some (Some (- RT_EFULL), spinlock_unlock a k)
         else do {
           in_thread_context c k;
           k \<leftarrow> ipc_wait c (SuspendSender a) t (obj_flag a k) timeout k;
           block c (spinlock_unlock a k) }) }
      else do {
        (ok, m) \<leftarrow> mb_put value (k_mb k a);
        let k = upd_mb a (\<lambda>_. m) k;
        (if ok
         then do { k \<leftarrow> notify c a (Suspend a) k; Some (Some RT_EOK, k) }
         else Some (Some (- RT_EFULL), spinlock_unlock a k)) })"

definition rt_mb_send_wait :: "nat \<Rightarrow> nat \<Rightarrow> u64 \<Rightarrow> int \<Rightarrow> kernel \<Rightarrow> (rt_err option \<times> kernel) option" where
  "rt_mb_send_wait c a value timeout k =
     do { rt_assert (a \<noteq> 0);
          rt_assert (is_obj a RT_Object_Class_MailBox k);
          let t = rt_thread_self c k;
          k \<leftarrow> spinlock_lock a k;
          (if mb_entry (k_mb k a) = mb_size (k_mb k a) \<and> timeout = 0
           then Some (Some (- RT_EFULL), spinlock_unlock a k)
           else mb_send_turn c a t value timeout k) }"

text \<open>\<open>timeout -= rt_tick_get() - before\<close>, computed in 32 bits, and 0 for a negative result.\<close>

definition remaining_time :: "nat \<Rightarrow> u32 \<Rightarrow> int \<Rightarrow> kernel \<Rightarrow> int" where
  "remaining_time c before timeout k =
     (if 0 < timeout
      then let left = sint (word_of_int timeout - (rt_tick_get c k - before))
           in if left < 0 then 0 else left
      else timeout)"

text \<open>The code releases the lock here where it should take it.\<close>

definition rt_mb_send_wait_resumed ::
    "nat \<Rightarrow> nat \<Rightarrow> nat \<Rightarrow> u64 \<Rightarrow> int \<Rightarrow> u32 \<Rightarrow> kernel \<Rightarrow> (rt_err option \<times> kernel) option" where
  "rt_mb_send_wait_resumed c a t value timeout before k =
     (if th_error (thread k t) \<noteq> RT_EOK then Some (Some (th_error (thread k t)), k)
      else mb_send_turn c a t value (remaining_time c before timeout k) (spinlock_unlock a k))"

definition rt_mb_send :: "nat \<Rightarrow> nat \<Rightarrow> u64 \<Rightarrow> kernel \<Rightarrow> (rt_err option \<times> kernel) option" where
  "rt_mb_send c a value k = rt_mb_send_wait c a value 0 k"

definition rt_mb_urgent :: "nat \<Rightarrow> nat \<Rightarrow> u64 \<Rightarrow> kernel \<Rightarrow> (rt_err \<times> kernel) option" where
  "rt_mb_urgent c a value k =
     do { rt_assert (a \<noteq> 0);
          rt_assert (is_obj a RT_Object_Class_MailBox k);
          k \<leftarrow> spinlock_lock a k;
          (if mb_entry (k_mb k a) = mb_size (k_mb k a) then Some (- RT_EFULL, spinlock_unlock a k)
           else do {
             m \<leftarrow> mb_put_front value (k_mb k a);
             k \<leftarrow> notify c a (Suspend a) (upd_mb a (\<lambda>_. m) k);
             Some (RT_EOK, k) }) }"

definition mb_recv_turn :: "nat \<Rightarrow> nat \<Rightarrow> nat \<Rightarrow> int \<Rightarrow> kernel \<Rightarrow> ((rt_err \<times> u64 option) option \<times> kernel) option" where
  "mb_recv_turn c a t timeout k =
     (if mb_entry (k_mb k a) = 0
      then do {
        let k = set_error t RT_EOK k;
        (if timeout = 0 then Some (Some (- RT_ETIMEOUT, None), set_error t (- RT_ETIMEOUT) (spinlock_unlock a k))
         else do {
           in_thread_context c k;
           k \<leftarrow> ipc_wait c (Suspend a) t (obj_flag a k) timeout k;
           block c (spinlock_unlock a k) }) }
      else do {
        (value, m) \<leftarrow> mb_get (k_mb k a);
        k \<leftarrow> notify c a (SuspendSender a) (upd_mb a (\<lambda>_. m) k);
        Some (Some (RT_EOK, Some value), k) })"

definition rt_mb_recv :: "nat \<Rightarrow> nat \<Rightarrow> int \<Rightarrow> kernel \<Rightarrow> ((rt_err \<times> u64 option) option \<times> kernel) option" where
  "rt_mb_recv c a timeout k =
     do { rt_assert (a \<noteq> 0);
          rt_assert (is_obj a RT_Object_Class_MailBox k);
          let t = rt_thread_self c k;
          k \<leftarrow> spinlock_lock a k;
          (if mb_entry (k_mb k a) = 0 \<and> timeout = 0
           then Some (Some (- RT_ETIMEOUT, None), spinlock_unlock a k)
           else mb_recv_turn c a t timeout k) }"

definition rt_mb_recv_resumed ::
    "nat \<Rightarrow> nat \<Rightarrow> nat \<Rightarrow> int \<Rightarrow> u32 \<Rightarrow> kernel \<Rightarrow> ((rt_err \<times> u64 option) option \<times> kernel) option" where
  "rt_mb_recv_resumed c a t timeout before k =
     (if th_error (thread k t) \<noteq> RT_EOK then Some (Some (th_error (thread k t), None), k)
      else mb_recv_turn c a t (remaining_time c before timeout k) (spinlock_unlock a k))"

definition rt_mb_control :: "nat \<Rightarrow> nat \<Rightarrow> bool \<Rightarrow> kernel \<Rightarrow> (rt_err \<times> kernel) option" where
  "rt_mb_control c a reset k =
     do { rt_assert (a \<noteq> 0);
          rt_assert (is_obj a RT_Object_Class_MailBox k);
          (if reset
           then do { k \<leftarrow> ipc_list_resume_all c (Suspend a) k;
                     k \<leftarrow> ipc_list_resume_all c (SuspendSender a) k;
                     k \<leftarrow> kschedule c (upd_mb a (\<lambda>m. m\<lparr>mb_entry := 0, mb_in_offset := 0, mb_out_offset := 0\<rparr>) k);
                     Some (RT_EOK, k) }
           else Some (- RT_ERROR, k)) }"


subsection \<open>The mailbox as a bounded list\<close>

definition mb_wf :: "rt_mailbox \<Rightarrow> bool" where
  "mb_wf m \<longleftrightarrow> 0 < unat (mb_size m) \<and> unat (mb_size m) \<le> length (mb_msg_pool m) \<and> mb_entry m \<le> mb_size m \<and>
     unat (mb_in_offset m) < unat (mb_size m) \<and> unat (mb_out_offset m) < unat (mb_size m) \<and>
     unat (mb_in_offset m) = (unat (mb_out_offset m) + unat (mb_entry m)) mod unat (mb_size m)"

definition mb_list :: "rt_mailbox \<Rightarrow> u64 list" where
  "mb_list m = circ (mb_msg_pool m) (unat (mb_size m)) (unat (mb_out_offset m)) (unat (mb_entry m))"

lemma mb_list_length: "length (mb_list m) = unat (mb_entry m)"
  by (simp add: mb_list_def)

text \<open>Advancing an offset by one, with the wrap at \<open>n\<close>.\<close>

lemma offset_step:
  fixes i n :: u16
  assumes "unat i < unat n"
  shows "unat (if n \<le> i + 1 then 0 else i + 1) = (unat i + 1) mod unat n"
proof -
  have "unat n < 65536" using unsigned_less [of n] by simp
  then have u: "unat (i + 1) = unat i + 1" using assms by (simp add: unat_word_ariths)
  show ?thesis
  proof (cases "unat i + 1 = unat n")
    case True
    then show ?thesis using u by (simp add: word_le_nat_alt)
  next
    case False
    then show ?thesis using assms u by (simp add: word_le_nat_alt)
  qed
qed

lemma mb_put_ok:
  assumes "mb_wf m" "mb_entry m < mb_size m"
  shows "\<exists>m'. mb_put v m = Some (True, m') \<and> mb_wf m' \<and> mb_list m' = mb_list m @ [v] \<and> mb_size m' = mb_size m"
proof -
  define n where "n = unat (mb_size m)"
  have W: "0 < n" "n \<le> length (mb_msg_pool m)" "unat (mb_in_offset m) < n" "unat (mb_out_offset m) < n"
    "unat (mb_in_offset m) = (unat (mb_out_offset m) + unat (mb_entry m)) mod n" "unat (mb_entry m) < n" "n < 65536"
    using assms unsigned_less [of "mb_size m"] by (simp_all add: mb_wf_def n_def word_less_nat_alt)
  have e: "mb_entry m < 0xffff" "unat (mb_entry m + 1) = unat (mb_entry m) + 1"
    using W(6,7) by (simp_all add: word_less_nat_alt unat_word_ariths)
  let ?in = "if mb_size m \<le> mb_in_offset m + 1 then 0 else mb_in_offset m + 1"
  let ?m = "m\<lparr>mb_msg_pool := (mb_msg_pool m)[unat (mb_in_offset m) := v], mb_in_offset := ?in, mb_entry := mb_entry m + 1\<rparr>"
  have st: "unat ?in = (unat (mb_in_offset m) + 1) mod n" using offset_step [of "mb_in_offset m" "mb_size m"] W(3) by (simp add: n_def)
  have "mb_put v m = Some (True, ?m)" using W(2,3) e(1) by (simp add: mb_put_def)
  moreover have "mb_wf ?m"
    using W e(2) st unfolding mb_wf_def by (simp add: n_def [symmetric] word_le_nat_alt mod_simps ac_simps)
  moreover have "mb_list ?m = mb_list m @ [v]"
    using W(2,6) e(2) unfolding mb_list_def by (simp add: n_def [symmetric] W(5) circ_snoc)
  ultimately show ?thesis by (intro exI [of _ ?m]) simp
qed

lemma mb_put_front_ok:
  assumes "mb_wf m" "mb_entry m < mb_size m"
  shows "\<exists>m'. mb_put_front v m = Some m' \<and> mb_wf m' \<and> mb_list m' = v # mb_list m \<and> mb_size m' = mb_size m"
proof -
  define n where "n = unat (mb_size m)"
  have W: "0 < n" "n \<le> length (mb_msg_pool m)" "unat (mb_in_offset m) < n" "unat (mb_out_offset m) < n"
    "unat (mb_in_offset m) = (unat (mb_out_offset m) + unat (mb_entry m)) mod n" "unat (mb_entry m) < n" "n < 65536"
    using assms unsigned_less [of "mb_size m"] by (simp_all add: mb_wf_def n_def word_less_nat_alt)
  have e: "unat (mb_entry m + 1) = unat (mb_entry m) + 1" using W(6,7) by (simp add: unat_word_ariths)
  define off where "off = (if 0 < mb_out_offset m then mb_out_offset m - 1 else mb_size m - 1)"
  have uo: "unat off = (if 0 < unat (mb_out_offset m) then unat (mb_out_offset m) - 1 else n - 1)"
    using W(1) by (auto simp: off_def n_def word_less_nat_alt unat_sub word_le_nat_alt)
  have bk: "(unat off + 1) mod n = unat (mb_out_offset m)" "unat off < n" using W(1,4) uo by auto
  let ?m = "m\<lparr>mb_out_offset := off, mb_msg_pool := (mb_msg_pool m)[unat off := v], mb_entry := mb_entry m + 1\<rparr>"
  have "mb_put_front v m = Some ?m"
  proof -
    have "(if 0 < mb_out_offset m then m\<lparr>mb_out_offset := mb_out_offset m - 1\<rparr>
          else m\<lparr>mb_out_offset := mb_size m - 1\<rparr>) = m\<lparr>mb_out_offset := off\<rparr>"
      by (simp add: off_def)
    then show ?thesis using W(2) bk(2) by (simp add: mb_put_front_def)
  qed
  moreover have "mb_wf ?m"
  proof -
    have "(unat off + (unat (mb_entry m) + 1)) mod n = ((unat off + 1) mod n + unat (mb_entry m)) mod n"
      by (simp add: mod_simps ac_simps)
    then show ?thesis
      using W e bk unfolding mb_wf_def by (simp add: n_def [symmetric] word_le_nat_alt)
  qed
  moreover have "mb_list ?m = v # mb_list m"
    using W(2,6) e bk unfolding mb_list_def by (simp add: n_def [symmetric] circ_cons)
  ultimately show ?thesis by (intro exI [of _ ?m]) simp
qed

lemma mb_get_ok:
  assumes "mb_wf m" "0 < mb_entry m"
  shows "\<exists>v m'. mb_get m = Some (v, m') \<and> mb_wf m' \<and> mb_list m = v # mb_list m' \<and> mb_size m' = mb_size m"
proof -
  define n where "n = unat (mb_size m)"
  have W: "0 < n" "n \<le> length (mb_msg_pool m)" "unat (mb_in_offset m) < n" "unat (mb_out_offset m) < n"
    "unat (mb_in_offset m) = (unat (mb_out_offset m) + unat (mb_entry m)) mod n" "unat (mb_entry m) \<le> n" "0 < unat (mb_entry m)"
    using assms by (simp_all add: mb_wf_def n_def word_less_nat_alt word_le_nat_alt)
  obtain j where j: "unat (mb_entry m) = Suc j" using W(7) by (cases "unat (mb_entry m)") auto
  have e: "unat (mb_entry m - 1) = j" using j by (simp add: unat_sub word_le_nat_alt)
  let ?out = "if mb_size m \<le> mb_out_offset m + 1 then 0 else mb_out_offset m + 1"
  let ?m = "m\<lparr>mb_out_offset := ?out, mb_entry := mb_entry m - 1\<rparr>"
  have st: "unat ?out = (unat (mb_out_offset m) + 1) mod n" using offset_step [of "mb_out_offset m" "mb_size m"] W(4) by (simp add: n_def)
  have "mb_get m = Some (mb_msg_pool m ! unat (mb_out_offset m), ?m)"
    using W assms(2) by (simp add: mb_get_def)
  moreover have "mb_wf ?m"
    using W e st j unfolding mb_wf_def by (simp add: n_def [symmetric] word_le_nat_alt mod_simps ac_simps)
  moreover have "mb_list m = mb_msg_pool m ! unat (mb_out_offset m) # mb_list ?m"
    using W(4) e st j unfolding mb_list_def by (simp add: n_def [symmetric] circ_Suc)
  ultimately show ?thesis by (intro exI [of _ "mb_msg_pool m ! unat (mb_out_offset m)"] exI [of _ ?m]) simp
qed


subsection \<open>Waking one thread, or none\<close>

definition notified :: "lhead \<Rightarrow> kernel \<Rightarrow> kernel \<Rightarrow> bool" where
  "notified h k k' \<longleftrightarrow> (case s_list (k_s k) h of
       [] \<Rightarrow> k_s k' = k_s k \<and> k_o k' = k_o k
     | t # ts \<Rightarrow> wakes h t ts k k')"

lemma notify_ok:
  assumes "okc c k" "\<not> is_ready h" "h \<noteq> Defunct"
  shows "\<exists>s' x'. notify c a h k = Some (k\<lparr>k_s := s', k_o := x', k_spin := (k_spin k)(a := False)\<rparr>) \<and>
    okc c (k\<lparr>k_s := s', k_o := x', k_spin := (k_spin k)(a := False)\<rparr>) \<and>
    notified h k (k\<lparr>k_s := s', k_o := x', k_spin := (k_spin k)(a := False)\<rparr>)"
proof (cases "s_list (k_s k) h")
  case Nil
  then show ?thesis
    using assms(1) by (intro exI [of _ "k_s k"] exI [of _ "k_o k"]) (simp add: notify_def notified_def spinlock_unlock_def)
next
  case (Cons t ts)
  then show ?thesis using wake_ok [OF assms Cons, of a] by (simp add: notify_def notified_def)
qed

lemma notified_frame:
  "notified h k k' \<Longrightarrow> rt_object_get_type i (k_o k') = rt_object_get_type i (k_o k) \<and> obj_flag b k' = obj_flag b k"
  by (cases "s_list (k_s k) h") (auto simp: notified_def wakes_def)

lemma notified_cong:
  "k_s k1 = k_s k \<Longrightarrow> k_o k1 = k_o k \<Longrightarrow> k_s k2 = k_s k' \<Longrightarrow> k_o k2 = k_o k' \<Longrightarrow> notified h k1 k2 = notified h k k'"
  by (cases "s_list (k_s k) h") (simp_all add: notified_def wakes_def)

lemma waits_cong:
  "k_s k1 = k_s k \<Longrightarrow> k_o k1 = k_o k \<Longrightarrow> k_s k2 = k_s k' \<Longrightarrow> k_o k2 = k_o k' \<Longrightarrow>
   waits c h t flag time k1 k2 = waits c h t flag time k k'"
  by (simp add: waits_def rt_tick_get_def)

subsection \<open>Sending and receiving\<close>

definition mbox_ok :: "nat \<Rightarrow> kernel \<Rightarrow> bool" where
  "mbox_ok a k \<longleftrightarrow> a \<noteq> 0 \<and> is_obj a RT_Object_Class_MailBox k \<and>
     obj_flag a k \<in> {RT_IPC_FLAG_FIFO, RT_IPC_FLAG_PRIO} \<and> mb_wf (k_mb k a)"

abbreviation mbox :: "nat \<Rightarrow> kernel \<Rightarrow> u64 list" where
  "mbox a k \<equiv> mb_list (k_mb k a)"

abbreviation mbox_size :: "nat \<Rightarrow> kernel \<Rightarrow> nat" where
  "mbox_size a k \<equiv> unat (mb_size (k_mb k a))"

lemma upd_mb_simps [simp]:
  "k_s (upd_mb a f k) = k_s k" "k_o (upd_mb a f k) = k_o k" "k_spin (upd_mb a f k) = k_spin k"
  "k_mb (upd_mb a f k) = (k_mb k)(a := f (k_mb k a))" "okc c (upd_mb a f k) = okc c k"
  "rt_thread_self c (upd_mb a f k) = rt_thread_self c k"
  by (simp_all add: upd_mb_def)

lemma mb_entry_cases: "mb_wf m \<Longrightarrow> mb_entry m = mb_size m \<or> mb_entry m < mb_size m"
  by (auto simp: mb_wf_def)

lemma mb_full: "mb_wf m \<Longrightarrow> mb_entry m = mb_size m \<longleftrightarrow> length (mb_list m) = unat (mb_size m)"
  "mb_wf m \<Longrightarrow> mb_entry m = 0 \<longleftrightarrow> mb_list m = []"
proof -
  show "mb_wf m \<Longrightarrow> mb_entry m = mb_size m \<longleftrightarrow> length (mb_list m) = unat (mb_size m)"
    by (simp add: mb_list_length word_unat_eq_iff)
  show "mb_wf m \<Longrightarrow> mb_entry m = 0 \<longleftrightarrow> mb_list m = []"
    using mb_list_length [of m] by (metis length_0_conv unat_eq_0)
qed

text \<open>What a call that waits needs: it is made by the running thread, outside interrupts.\<close>

definition may_wait :: "nat \<Rightarrow> nat \<Rightarrow> int \<Rightarrow> kernel \<Rightarrow> bool" where
  "may_wait c t timeout k \<longleftrightarrow> t = rt_thread_self c k \<and> running c k \<and>
     cpu_irq_nest (s_cpu (k_s k) c) = 0 \<and> timeout < 0x7fffffff"

lemma may_wait_ok:
  assumes "okc c k" "may_wait c t timeout k" "\<not> is_ready h" "h \<noteq> Defunct" "flag \<in> {RT_IPC_FLAG_FIFO, RT_IPC_FLAG_PRIO}"
  shows "in_thread_context c k = Some ()" "in_thread_context c (set_error t e k) = Some ()"
    "\<exists>s' x'. do { k1 \<leftarrow> ipc_wait c h t flag timeout (set_error t RT_EOK k); block c (spinlock_unlock a k1) } =
        Some (None :: 'r option, k\<lparr>k_s := s', k_o := x', k_spin := (k_spin k)(a := False)\<rparr>) \<and>
      okc c (k\<lparr>k_s := s', k_o := x', k_spin := (k_spin k)(a := False)\<rparr>) \<and>
      waits c h t flag timeout k (k\<lparr>k_s := s', k_o := x', k_spin := (k_spin k)(a := False)\<rparr>)"
proof -
  have C: "t = rt_thread_self c k" "running c k" "cpu_irq_nest (s_cpu (k_s k) c) = 0" "timeout < 0x7fffffff"
    using assms(2) by (simp_all add: may_wait_def)
  show "in_thread_context c k = Some ()" using in_context(2) [OF C(3)] okc_self [OF assms(1)] by simp
  show "in_thread_context c (set_error t e k) = Some ()"
    using in_context(2) [of "set_error t e k" c] C(3) okc_self [OF assms(1)] by (simp add: rt_thread_self_def)
  show "\<exists>s' x'. do { k1 \<leftarrow> ipc_wait c h t flag timeout (set_error t RT_EOK k); block c (spinlock_unlock a k1) } =
        Some (None :: 'r option, k\<lparr>k_s := s', k_o := x', k_spin := (k_spin k)(a := False)\<rparr>) \<and>
      okc c (k\<lparr>k_s := s', k_o := x', k_spin := (k_spin k)(a := False)\<rparr>) \<and>
      waits c h t flag timeout k (k\<lparr>k_s := s', k_o := x', k_spin := (k_spin k)(a := False)\<rparr>)"
    using wait_block_ok [OF assms(1) C(2) assms(3-5) C(4), of a] unfolding C(1) .
qed

lemma mb_send_turn_ok:
  assumes ok: "okc c k" "mbox_ok a k"
    and ctx: "length (mbox a k) = mbox_size a k \<Longrightarrow> timeout \<noteq> 0 \<Longrightarrow> may_wait c t timeout k"
  shows "\<exists>r k'. mb_send_turn c a t v timeout k = Some (r, k') \<and> okc c k' \<and> mbox_ok a k' \<and>
    mb_size (k_mb k' a) = mb_size (k_mb k a) \<and> k_spin k' = (k_spin k)(a := False) \<and>
    (length (mbox a k) < mbox_size a k \<longrightarrow> r = Some RT_EOK \<and> mbox a k' = mbox a k @ [v] \<and> notified (Suspend a) k k') \<and>
    (length (mbox a k) = mbox_size a k \<and> timeout = 0 \<longrightarrow> r = Some (- RT_EFULL) \<and> k' = spinlock_unlock a (set_error t RT_EOK k)) \<and>
    (length (mbox a k) = mbox_size a k \<and> timeout \<noteq> 0 \<longrightarrow> r = None \<and> k_mb k' = k_mb k \<and>
       waits c (SuspendSender a) t (obj_flag a k) timeout k k')"
proof -
  have M: "a \<noteq> 0" "is_obj a 5 k" "obj_flag a k \<in> {0, 1}" "mb_wf (k_mb k a)" using ok(2) by (simp_all add: mbox_ok_def)
  consider (room) "mb_entry (k_mb k a) < mb_size (k_mb k a)" | (now) "mb_entry (k_mb k a) = mb_size (k_mb k a)" "timeout = 0"
    | (wait) "mb_entry (k_mb k a) = mb_size (k_mb k a)" "timeout \<noteq> 0"
    using mb_entry_cases [OF M(4)] by blast
  then show ?thesis
  proof cases
    case room
    have l: "length (mbox a k) < mbox_size a k" using room by (simp add: mb_list_length word_less_nat_alt)
    obtain m where m: "mb_put v (k_mb k a) = Some (True, m)" "mb_wf m" "mb_list m = mbox a k @ [v]" "mb_size m = mb_size (k_mb k a)"
      using mb_put_ok [OF M(4) room] by blast
    let ?k = "upd_mb a (\<lambda>_. m) k"
    have okk: "okc c ?k" using ok(1) by simp
    obtain s' x' where n: "notify c a (Suspend a) ?k = Some (?k\<lparr>k_s := s', k_o := x', k_spin := (k_spin ?k)(a := False)\<rparr>)"
      "okc c (?k\<lparr>k_s := s', k_o := x', k_spin := (k_spin ?k)(a := False)\<rparr>)"
      "notified (Suspend a) ?k (?k\<lparr>k_s := s', k_o := x', k_spin := (k_spin ?k)(a := False)\<rparr>)"
      using notify_ok [OF okk, of "Suspend a" a] by auto
    define kf where "kf = ?k\<lparr>k_s := s', k_o := x', k_spin := (k_spin ?k)(a := False)\<rparr>"
    have nf: "notified (Suspend a) k kf" using n(3) unfolding kf_def by (subst (asm) notified_cong [of _ k _ kf]) (simp_all add: kf_def)
    have "mb_send_turn c a t v timeout k = Some (Some RT_EOK, kf)"
    proof -
      have "mb_entry (k_mb k a) \<noteq> mb_size (k_mb k a)" using room by simp
      then show ?thesis using m(1) n(1) [folded kf_def] by (simp add: mb_send_turn_def)
    qed
    moreover have "mbox_ok a kf" using notified_frame [OF nf] M m(2) by (simp add: mbox_ok_def kf_def)
    ultimately show ?thesis
      using n(2) nf m l by (intro exI [of _ "Some RT_EOK"] exI [of _ kf]) (simp add: kf_def)
  next
    case now
    have l: "length (mbox a k) = mbox_size a k" using now by (simp add: mb_list_length)
    have "mb_send_turn c a t v timeout k = Some (Some (- RT_EFULL), spinlock_unlock a (set_error t RT_EOK k))"
      using now by (simp add: mb_send_turn_def)
    moreover have "mbox_ok a (spinlock_unlock a (set_error t RT_EOK k))" using M by (simp add: mbox_ok_def)
    ultimately show ?thesis using ok(1) now l by (simp add: set_error_ok)
  next
    case wait
    have l: "length (mbox a k) = mbox_size a k" using wait by (simp add: mb_list_length)
    have C: "may_wait c t timeout k" by (rule ctx [OF l wait(2)])
    obtain s' x' where w: "do { k1 \<leftarrow> ipc_wait c (SuspendSender a) t (obj_flag a k) timeout (set_error t RT_EOK k); block c (spinlock_unlock a k1) } =
        Some (None :: rt_err option, k\<lparr>k_s := s', k_o := x', k_spin := (k_spin k)(a := False)\<rparr>)"
      "okc c (k\<lparr>k_s := s', k_o := x', k_spin := (k_spin k)(a := False)\<rparr>)"
      "waits c (SuspendSender a) t (obj_flag a k) timeout k (k\<lparr>k_s := s', k_o := x', k_spin := (k_spin k)(a := False)\<rparr>)"
      using may_wait_ok(3) [OF ok(1) C _ _ M(3), of "SuspendSender a" a] by auto
    let ?kf = "k\<lparr>k_s := s', k_o := x', k_spin := (k_spin k)(a := False)\<rparr>"
    have "mb_send_turn c a t v timeout k = Some (None, ?kf)"
      using wait w(1) may_wait_ok(2) [OF ok(1) C _ _ M(3), of "Suspend a" 0] by (simp add: mb_send_turn_def)
    moreover have "mbox_ok a ?kf" using w(3) M by (simp add: mbox_ok_def waits_def)
    ultimately show ?thesis using w(2,3) wait l by (intro exI [of _ None] exI [of _ ?kf]) simp
  qed
qed


lemma mb_recv_turn_ok:
  assumes ok: "okc c k" "mbox_ok a k"
    and ctx: "mbox a k = [] \<Longrightarrow> timeout \<noteq> 0 \<Longrightarrow> may_wait c t timeout k"
  shows "\<exists>r k'. mb_recv_turn c a t timeout k = Some (r, k') \<and> okc c k' \<and> mbox_ok a k' \<and>
    mb_size (k_mb k' a) = mb_size (k_mb k a) \<and> k_spin k' = (k_spin k)(a := False) \<and>
    (\<forall>v vs. mbox a k = v # vs \<longrightarrow> r = Some (RT_EOK, Some v) \<and> mbox a k' = vs \<and> notified (SuspendSender a) k k') \<and>
    (mbox a k = [] \<and> timeout = 0 \<longrightarrow> r = Some (- RT_ETIMEOUT, None) \<and> k' = spinlock_unlock a (set_error t (- RT_ETIMEOUT) k)) \<and>
    (mbox a k = [] \<and> timeout \<noteq> 0 \<longrightarrow> r = None \<and> k_mb k' = k_mb k \<and>
       waits c (Suspend a) t (obj_flag a k) timeout k k')"
proof -
  have M: "a \<noteq> 0" "is_obj a 5 k" "obj_flag a k \<in> {0, 1}" "mb_wf (k_mb k a)" using ok(2) by (simp_all add: mbox_ok_def)
  consider (some) "0 < mb_entry (k_mb k a)" | (now) "mb_entry (k_mb k a) = 0" "timeout = 0"
    | (wait) "mb_entry (k_mb k a) = 0" "timeout \<noteq> 0"
    by (cases "mb_entry (k_mb k a) = 0"; cases "timeout = 0") (simp_all add: word_gt_0)
  then show ?thesis
  proof cases
    case some
    obtain v m where m: "mb_get (k_mb k a) = Some (v, m)" "mb_wf m" "mbox a k = v # mb_list m" "mb_size m = mb_size (k_mb k a)"
      using mb_get_ok [OF M(4) some] by blast
    let ?k = "upd_mb a (\<lambda>_. m) k"
    have okk: "okc c ?k" using ok(1) by simp
    obtain s' x' where n: "notify c a (SuspendSender a) ?k = Some (?k\<lparr>k_s := s', k_o := x', k_spin := (k_spin ?k)(a := False)\<rparr>)"
      "okc c (?k\<lparr>k_s := s', k_o := x', k_spin := (k_spin ?k)(a := False)\<rparr>)"
      "notified (SuspendSender a) ?k (?k\<lparr>k_s := s', k_o := x', k_spin := (k_spin ?k)(a := False)\<rparr>)"
      using notify_ok [OF okk, of "SuspendSender a" a] by auto
    define kf where "kf = ?k\<lparr>k_s := s', k_o := x', k_spin := (k_spin ?k)(a := False)\<rparr>"
    have nf: "notified (SuspendSender a) k kf" using n(3) unfolding kf_def by (subst (asm) notified_cong [of _ k _ kf]) (simp_all add: kf_def)
    have "mb_recv_turn c a t timeout k = Some (Some (RT_EOK, Some v), kf)"
    proof -
      have "mb_entry (k_mb k a) \<noteq> 0" using some by auto
      then show ?thesis using m(1) n(1) [folded kf_def] by (simp add: mb_recv_turn_def)
    qed
    moreover have "mbox_ok a kf" using notified_frame [OF nf] M m(2) by (simp add: mbox_ok_def kf_def)
    ultimately show ?thesis
      using n(2) nf m by (intro exI [of _ "Some (RT_EOK, Some v)"] exI [of _ kf]) (simp add: kf_def)
  next
    case now
    have l: "mbox a k = []" using now mb_full(2) [OF M(4)] by simp
    have "mb_recv_turn c a t timeout k = Some (Some (- RT_ETIMEOUT, None), spinlock_unlock a (set_error t (- RT_ETIMEOUT) k))"
      using now by (simp add: mb_recv_turn_def spinlock_unlock_def on_s_def upd_thread_def)
    moreover have "mbox_ok a (spinlock_unlock a (set_error t (- RT_ETIMEOUT) k))" using M by (simp add: mbox_ok_def)
    ultimately show ?thesis using ok(1) now l by (simp add: set_error_ok)
  next
    case wait
    have l: "mbox a k = []" using wait mb_full(2) [OF M(4)] by simp
    have C: "may_wait c t timeout k" by (rule ctx [OF l wait(2)])
    obtain s' x' where w: "do { k1 \<leftarrow> ipc_wait c (Suspend a) t (obj_flag a k) timeout (set_error t RT_EOK k); block c (spinlock_unlock a k1) } =
        Some (None :: (rt_err \<times> u64 option) option, k\<lparr>k_s := s', k_o := x', k_spin := (k_spin k)(a := False)\<rparr>)"
      "okc c (k\<lparr>k_s := s', k_o := x', k_spin := (k_spin k)(a := False)\<rparr>)"
      "waits c (Suspend a) t (obj_flag a k) timeout k (k\<lparr>k_s := s', k_o := x', k_spin := (k_spin k)(a := False)\<rparr>)"
      using may_wait_ok(3) [OF ok(1) C _ _ M(3), of "Suspend a" a] by auto
    let ?kf = "k\<lparr>k_s := s', k_o := x', k_spin := (k_spin k)(a := False)\<rparr>"
    have "mb_recv_turn c a t timeout k = Some (None, ?kf)"
      using wait w(1) may_wait_ok(2) [OF ok(1) C _ _ M(3), of "Suspend a" 0] by (simp add: mb_recv_turn_def)
    moreover have "mbox_ok a ?kf" using w(3) M by (simp add: mbox_ok_def waits_def)
    ultimately show ?thesis using w(2,3) wait l by (intro exI [of _ None] exI [of _ ?kf]) simp
  qed
qed

text \<open>With the lock taken first: it is free again afterwards.\<close>

lemma locked:
  assumes "okc c k" "mbox_ok a k" "\<not> k_spin k a"
  defines "kl \<equiv> k\<lparr>k_spin := (k_spin k)(a := True)\<rparr>"
  shows "okc c kl" "mbox_ok a kl" "(k_spin kl)(a := False) = k_spin k" "may_wait c t timeout kl = may_wait c t timeout k"
    "spinlock_unlock a kl = k" "notified h kl k' = notified h k k'" "waits c h t flag time kl k' = waits c h t flag time k k'"
    "k_mb kl = k_mb k" "obj_flag a kl = obj_flag a k"
proof -
  show "notified h kl k' = notified h k k'" by (rule notified_cong) (simp_all add: kl_def)
qed (use assms in \<open>simp_all add: mbox_ok_def spin_restored may_wait_def running_def spin_unlock_lock\<close>)


subsection \<open>Properties\<close>

lemma mb_send_ok:
  assumes ok: "okc c k" "mbox_ok a k" "\<not> k_spin k a"
    and ctx: "timeout \<noteq> 0 \<Longrightarrow> may_wait c (rt_thread_self c k) timeout k"
  shows "\<exists>r k'. rt_mb_send_wait c a v timeout k = Some (r, k') \<and> okc c k' \<and> mbox_ok a k' \<and>
    mb_size (k_mb k' a) = mb_size (k_mb k a) \<and> k_spin k' = k_spin k \<and>
    (length (mbox a k) < mbox_size a k \<longrightarrow> r = Some RT_EOK \<and> mbox a k' = mbox a k @ [v] \<and> notified (Suspend a) k k') \<and>
    (length (mbox a k) = mbox_size a k \<and> timeout = 0 \<longrightarrow> r = Some (- RT_EFULL) \<and> k' = k) \<and>
    (length (mbox a k) = mbox_size a k \<and> timeout \<noteq> 0 \<longrightarrow> r = None \<and> k_mb k' = k_mb k \<and>
       waits c (SuspendSender a) (rt_thread_self c k) (obj_flag a k) timeout k k')"
proof -
  let ?kl = "k\<lparr>k_spin := (k_spin k)(a := True)\<rparr>"
  note L = locked [OF ok]
  have wf: "a \<noteq> 0" "is_obj a 5 k" "mb_wf (k_mb k a)" using ok(2) by (simp_all add: mbox_ok_def)
  show ?thesis
  proof (cases "length (mbox a k) = mbox_size a k \<and> timeout = 0")
    case True
    then have "rt_mb_send_wait c a v timeout k = Some (Some (- RT_EFULL), k)"
      using wf ok(3) mb_full(1) [OF wf(3)] by (simp add: rt_mb_send_wait_def L(5))
    then show ?thesis using True ok by auto
  next
    case False
    then have "rt_mb_send_wait c a v timeout k = mb_send_turn c a (rt_thread_self c k) v timeout ?kl"
      using wf ok(3) mb_full(1) [OF wf(3)] by (auto simp: rt_mb_send_wait_def)
    then show ?thesis
      using mb_send_turn_ok [OF L(1,2), of timeout "rt_thread_self c k" v] ctx False unfolding L(3,4,6,7,8,9) by auto
  qed
qed

lemma mb_recv_ok:
  assumes ok: "okc c k" "mbox_ok a k" "\<not> k_spin k a"
    and ctx: "mbox a k = [] \<Longrightarrow> timeout \<noteq> 0 \<Longrightarrow> may_wait c (rt_thread_self c k) timeout k"
  shows "\<exists>r k'. rt_mb_recv c a timeout k = Some (r, k') \<and> okc c k' \<and> mbox_ok a k' \<and>
    mb_size (k_mb k' a) = mb_size (k_mb k a) \<and> k_spin k' = k_spin k \<and>
    (\<forall>v vs. mbox a k = v # vs \<longrightarrow> r = Some (RT_EOK, Some v) \<and> mbox a k' = vs \<and> notified (SuspendSender a) k k') \<and>
    (mbox a k = [] \<and> timeout = 0 \<longrightarrow> r = Some (- RT_ETIMEOUT, None) \<and> k' = k) \<and>
    (mbox a k = [] \<and> timeout \<noteq> 0 \<longrightarrow> r = None \<and> k_mb k' = k_mb k \<and>
       waits c (Suspend a) (rt_thread_self c k) (obj_flag a k) timeout k k')"
proof -
  let ?kl = "k\<lparr>k_spin := (k_spin k)(a := True)\<rparr>"
  note L = locked [OF ok]
  have wf: "a \<noteq> 0" "is_obj a 5 k" "mb_wf (k_mb k a)" using ok(2) by (simp_all add: mbox_ok_def)
  show ?thesis
  proof (cases "mbox a k = [] \<and> timeout = 0")
    case True
    then have "rt_mb_recv c a timeout k = Some (Some (- RT_ETIMEOUT, None), k)"
      using wf ok(3) mb_full(2) [OF wf(3)] by (simp add: rt_mb_recv_def L(5))
    then show ?thesis using True ok by auto
  next
    case False
    then have "rt_mb_recv c a timeout k = mb_recv_turn c a (rt_thread_self c k) timeout ?kl"
      using wf ok(3) mb_full(2) [OF wf(3)] by (auto simp: rt_mb_recv_def)
    then show ?thesis
      using mb_recv_turn_ok [OF L(1,2), of timeout "rt_thread_self c k"] ctx False unfolding L(3,4,6,7,8,9) by auto
  qed
qed


text \<open>C32: \<open>rt_mb_send_wait\<close>: with room the message goes to the end of the mailbox and the first waiting
  receiver is woken; a full mailbox refuses at once or makes the sender wait, in its place in the
  list of senders.  The lock is free afterwards.\<close>

theorem rt_mb_send_wait_spec:
  assumes "okc c k" "mbox_ok a k" "\<not> k_spin k a" "timeout \<noteq> 0 \<longrightarrow> may_wait c (rt_thread_self c k) timeout k"
  shows "\<exists>r k'. rt_mb_send_wait c a v timeout k = Some (r, k') \<and> okc c k' \<and> mbox_ok a k' \<and> k_spin k' = k_spin k \<and>
    (length (mbox a k) < mbox_size a k \<longrightarrow> r = Some RT_EOK \<and> mbox a k' = mbox a k @ [v] \<and> notified (Suspend a) k k') \<and>
    (length (mbox a k) = mbox_size a k \<and> timeout = 0 \<longrightarrow> r = Some (- RT_EFULL) \<and> k' = k) \<and>
    (length (mbox a k) = mbox_size a k \<and> timeout \<noteq> 0 \<longrightarrow> r = None \<and> k_mb k' = k_mb k \<and>
       waits c (SuspendSender a) (rt_thread_self c k) (obj_flag a k) timeout k k')"
  using mb_send_ok [OF assms(1-3), of timeout v] assms(4) by auto

lemma sample_mbox: "mbox_ok 100 (sample_kernel 5)" "mbox 100 (sample_kernel 5) = []" "mbox_size 100 (sample_kernel 5) = 2"
  by (simp_all add: mbox_ok_def mb_wf_def rt_object_get_information_def mb_list_def)

lemma rt_mb_send_wait_spec_witness:
  "\<exists>k'. rt_mb_send_wait 0 100 7 0 (sample_kernel 5) = Some (Some RT_EOK, k') \<and> mbox 100 k' = [7]"
  using rt_mb_send_wait_spec [OF sample_okc sample_mbox(1), of 0 7] sample_mbox by auto

text \<open>Fact: \<open>rt_mb_recv\<close>: the oldest message is taken and the first waiting sender woken; an empty mailbox
  gives a time-out at once or makes the receiver wait.  A receiver that was woken and finds a
  message takes it.\<close>

theorem rt_mb_recv_spec:
  assumes "okc c k" "mbox_ok a k" "\<not> k_spin k a" "timeout \<noteq> 0 \<longrightarrow> may_wait c (rt_thread_self c k) timeout k"
  shows "\<exists>r k'. rt_mb_recv c a timeout k = Some (r, k') \<and> okc c k' \<and> mbox_ok a k' \<and> k_spin k' = k_spin k \<and>
    (\<forall>v vs. mbox a k = v # vs \<longrightarrow> r = Some (RT_EOK, Some v) \<and> mbox a k' = vs \<and> notified (SuspendSender a) k k' \<and>
       (\<forall>u t0. th_error (thread k u) = RT_EOK \<longrightarrow>
          (\<exists>k''. rt_mb_recv_resumed c a u timeout t0 k = Some (Some (RT_EOK, Some v), k'') \<and> mbox a k'' = vs \<and> okc c k''))) \<and>
    (mbox a k = [] \<and> timeout = 0 \<longrightarrow> r = Some (- RT_ETIMEOUT, None) \<and> k' = k) \<and>
    (mbox a k = [] \<and> timeout \<noteq> 0 \<longrightarrow> r = None \<and> k_mb k' = k_mb k \<and>
       waits c (Suspend a) (rt_thread_self c k) (obj_flag a k) timeout k k')"
proof -
  have ok: "okc c (spinlock_unlock a k)" "mbox_ok a (spinlock_unlock a k)" using assms(1,2) by (simp_all add: mbox_ok_def)
  have "\<exists>k''. rt_mb_recv_resumed c a u timeout t0 k = Some (Some (RT_EOK, Some v), k'') \<and> mbox a k'' = vs \<and> okc c k''"
    if "th_error (thread k u) = RT_EOK" "mbox a k = v # vs" for u t0 v vs
    using mb_recv_turn_ok [OF ok, of "remaining_time c t0 timeout k" u] that by (auto simp: rt_mb_recv_resumed_def)
  with mb_recv_ok [OF assms(1-3), of timeout] assms(4) show ?thesis by blast
qed

text \<open>The answers of the calls that do not wait: accepted or \<open>-RT_EFULL\<close>, a message or \<open>-RT_ETIMEOUT\<close>;
  every other outcome is a failure.\<close>

definition mb_enq :: "nat \<Rightarrow> nat \<Rightarrow> u64 \<Rightarrow> kernel \<Rightarrow> (bool \<times> kernel) option" where
  "mb_enq c a v k = (case rt_mb_send c a v k of
     Some (Some e, k') \<Rightarrow> if e = RT_EOK then Some (True, k') else if e = - RT_EFULL then Some (False, k') else None
   | _ \<Rightarrow> None)"

definition mb_deq :: "nat \<Rightarrow> nat \<Rightarrow> kernel \<Rightarrow> (u64 option \<times> kernel) option" where
  "mb_deq c a k = (case rt_mb_recv c a 0 k of
     Some (Some (e, Some v), k') \<Rightarrow> if e = RT_EOK then Some (Some v, k') else None
   | Some (Some (e, None), k') \<Rightarrow> if e = - RT_ETIMEOUT then Some (None, k') else None
   | _ \<Rightarrow> None)"

definition mbox_inv :: "nat \<Rightarrow> nat \<Rightarrow> kernel \<Rightarrow> bool" where
  "mbox_inv c a k \<longleftrightarrow> okc c k \<and> mbox_ok a k \<and> \<not> k_spin k a"

lemma rt_mb_recv_spec_witness:
  "\<exists>k'. rt_mb_recv 0 100 9 (sample_kernel 5) = Some (None, k') \<and> s_list (k_s k') (Suspend 100) = [1]"
proof -
  have "may_wait 0 (rt_thread_self 0 (sample_kernel 5)) 9 (sample_kernel 5)"
    by (simp add: may_wait_def)
  then show ?thesis
    using rt_mb_recv_spec [OF sample_okc sample_mbox(1), of 9] sample_mbox by (auto simp: waits_def enq_def)
qed

text \<open>The contract of a bounded queue, for the calls that do not wait.\<close>

interpretation mbq: bounded_fifo "mbox_inv c a" "mbox a" "mbox_size a" "mb_enq c a" "mb_deq c a" for c a
proof
  fix k v assume inv: "mbox_inv c a k"
  then have I: "okc c k" "mbox_ok a k" "\<not> k_spin k a" by (simp_all add: mbox_inv_def)
  note sd = mb_send_ok [OF I, of 0 v, simplified] and rc = mb_recv_ok [OF I, of 0, simplified]
  have le: "length (mbox a k) \<le> mbox_size a k" using I(2) by (simp add: mbox_ok_def mb_wf_def mb_list_length word_le_nat_alt)
  show "\<exists>k'. mb_enq c a v k = Some (True, k') \<and> mbox_inv c a k' \<and> mbox a k' = mbox a k @ [v] \<and> mbox_size a k' = mbox_size a k"
    if "length (mbox a k) < mbox_size a k"
    using sd that I(3) by (auto simp: mb_enq_def rt_mb_send_def mbox_inv_def)
  show "mb_enq c a v k = Some (False, k)" if "mbox_size a k \<le> length (mbox a k)"
    using sd that le by (auto simp: mb_enq_def rt_mb_send_def)
  show "\<exists>k'. mb_deq c a k = Some (Some y, k') \<and> mbox_inv c a k' \<and> mbox a k' = ys \<and> mbox_size a k' = mbox_size a k"
    if "mbox a k = y # ys" for y ys
    using rc that I(3) by (auto simp: mb_deq_def mbox_inv_def)
  show "mb_deq c a k = Some (None, k)" if "mbox a k = []"
    using rc that by (auto simp: mb_deq_def)
qed

text \<open>C5: any sequence of \<open>rt_mb_send\<close> and \<open>rt_mb_recv\<close> without waiting runs without a failure and gives the
  answers that a list bounded by the mailbox's size would: messages come out in the order in which they
  went in, none is lost or duplicated, and a refused call leaves the kernel as it was.\<close>

theorem rt_mb_fifo:
  assumes "mbox_inv c a k"
  shows "\<exists>rs k'. run_ops (mb_enq c a) (mb_deq c a) ops k = Some (rs, k') \<and>
    run_ops (spec_enq (mbox_size a k)) spec_deq ops (mbox a k) = Some (rs, mbox a k') \<and> mbox_inv c a k' \<and>
    mbox a k @ accepted ops rs = delivered rs @ mbox a k' \<and>
    (\<forall>v. length (mbox a k) = mbox_size a k \<longrightarrow> mb_enq c a v k = Some (False, k)) \<and>
    (mbox a k = [] \<longrightarrow> mb_deq c a k = Some (None, k))"
  using mbq.run_refines [OF assms, of ops] mbq.enq_full [OF assms] mbq.deq_empty [OF assms] by auto

lemma rt_mb_fifo_witness:
  "\<exists>k'. run_ops (mb_enq 0 100) (mb_deq 0 100) [Enq 7, Enq 8, Enq 9, Deq] (sample_kernel 5) =
      Some ([Accepted True, Accepted True, Accepted False, Delivered (Some 7)], k') \<and> mbox 100 k' = [8]"
proof -
  have inv: "mbox_inv 0 100 (sample_kernel 5)" using sample_okc sample_mbox by (simp add: mbox_inv_def)
  show ?thesis using rt_mb_fifo [OF inv, of "[Enq 7, Enq 8, Enq 9, Deq]"] sample_mbox by (auto simp: spec_enq_def spec_deq_def)
qed

text \<open>Fact: an urgent message is received first, and after that the mailbox is as before.\<close>

theorem rt_mb_urgent_first:
  assumes "okc c k" "mbox_ok a k" "\<not> k_spin k a"
  shows "(length (mbox a k) = mbox_size a k \<longrightarrow> rt_mb_urgent c a v k = Some (- RT_EFULL, k)) \<and>
    (length (mbox a k) < mbox_size a k \<longrightarrow> (\<exists>k1 k2. rt_mb_urgent c a v k = Some (RT_EOK, k1) \<and>
       okc c k1 \<and> mbox_ok a k1 \<and> notified (Suspend a) k k1 \<and>
       rt_mb_recv c a timeout k1 = Some (Some (RT_EOK, Some v), k2) \<and> mbox a k2 = mbox a k))"
proof -
  have M: "a \<noteq> 0" "is_obj a 5 k" "obj_flag a k \<in> {0, 1}" "mb_wf (k_mb k a)" using assms(2) by (simp_all add: mbox_ok_def)
  let ?kl = "k\<lparr>k_spin := (k_spin k)(a := True)\<rparr>"
  show ?thesis
  proof (cases "mb_entry (k_mb k a) = mb_size (k_mb k a)")
    case True
    then have "rt_mb_urgent c a v k = Some (- RT_EFULL, k)"
      using M assms(3) by (simp add: rt_mb_urgent_def spin_unlock_lock)
    then show ?thesis using True by (simp add: mb_list_length)
  next
    case False
    then have lt: "mb_entry (k_mb k a) < mb_size (k_mb k a)" using mb_entry_cases [OF M(4)] by blast
    obtain m where m: "mb_put_front v (k_mb k a) = Some m" "mb_wf m" "mb_list m = v # mbox a k" "mb_size m = mb_size (k_mb k a)"
      using mb_put_front_ok [OF M(4) lt] by blast
    let ?k = "upd_mb a (\<lambda>_. m) ?kl"
    have okk: "okc c ?k" using assms(1) by simp
    obtain s' x' where n: "notify c a (Suspend a) ?k = Some (?k\<lparr>k_s := s', k_o := x', k_spin := (k_spin ?k)(a := False)\<rparr>)"
      "okc c (?k\<lparr>k_s := s', k_o := x', k_spin := (k_spin ?k)(a := False)\<rparr>)"
      "notified (Suspend a) ?k (?k\<lparr>k_s := s', k_o := x', k_spin := (k_spin ?k)(a := False)\<rparr>)"
      using notify_ok [OF okk, of "Suspend a" a] by auto
    define k1 where "k1 = upd_mb a (\<lambda>_. m) (k\<lparr>k_s := s', k_o := x'\<rparr>)"
    have eq: "?k\<lparr>k_s := s', k_o := x', k_spin := (k_spin ?k)(a := False)\<rparr> = k1"
      using assms(3) by (simp add: k1_def upd_mb_def spin_restored)
    have nf: "notified (Suspend a) k k1" using n(3) unfolding eq by (subst (asm) notified_cong [of _ k _ k1]) simp_all
    have u: "rt_mb_urgent c a v k = Some (RT_EOK, k1)"
      using M assms(3) False m(1) n(1) unfolding eq by (simp add: rt_mb_urgent_def)
    have k1: "okc c k1" "mbox_ok a k1" "\<not> k_spin k1 a" "mbox a k1 = v # mbox a k"
      using n(2) notified_frame [OF nf] M m assms(3) unfolding eq by (simp_all add: mbox_ok_def k1_def)
    obtain k2 where "rt_mb_recv c a timeout k1 = Some (Some (RT_EOK, Some v), k2)" "mbox a k2 = mbox a k"
      using mb_recv_ok [OF k1(1-3), of timeout] k1(4) by auto
    then show ?thesis using u k1 nf lt by (auto simp: mb_list_length word_less_nat_alt)
  qed
qed

lemma rt_mb_urgent_first_witness:
  "\<exists>k1 k2. rt_mb_urgent 0 100 9 (sample_kernel 5) = Some (RT_EOK, k1) \<and>
    rt_mb_recv 0 100 0 k1 = Some (Some (RT_EOK, Some 9), k2) \<and> mbox 100 k2 = []"
  using rt_mb_urgent_first [OF sample_okc sample_mbox(1), of 9 0] sample_mbox by auto

end
