(* ===== verification/MsgQueue.thy ===== *)
theory MsgQueue
  imports Mailbox
begin

section \<open>Message queues (\<open>src/ipc.c\<close>)\<close>

text \<open>
  \<open>rt_mq_init\<close> to \<open>rt_mq_control\<close>: nodes of a pool, linked into a queue with head and tail and into a
  free list.  A node is a link and the bytes behind it.  The two halves of a call between which
  the code releases the lock to copy the message run one after the other here.
\<close>

definition upd_mq :: "nat \<Rightarrow> (rt_messagequeue \<Rightarrow> rt_messagequeue) \<Rightarrow> kernel \<Rightarrow> kernel" where
  "upd_mq a f k = k\<lparr>k_mq := (k_mq k)(a := f (k_mq k a))\<rparr>"

definition set_next :: "nat \<Rightarrow> nat \<Rightarrow> rt_messagequeue \<Rightarrow> rt_messagequeue" where
  "set_next n p m = m\<lparr>mq_node := (mq_node m)(n := (mq_node m n)\<lparr>mqm_next := p\<rparr>)\<rparr>"

abbreviation nxt :: "rt_messagequeue \<Rightarrow> nat \<Rightarrow> nat" where
  "nxt m n \<equiv> mqm_next (mq_node m n)"

definition rt_align :: "u64 \<Rightarrow> u64" where
  "rt_align x = (x + 7) AND NOT 7"

text \<open>The loop that links the nodes of the pool into the free list.\<close>

definition mq_link_pool :: "rt_messagequeue \<Rightarrow> rt_messagequeue" where
  "mq_link_pool m =
     fold (\<lambda>temp m. let head = mq_msg_pool m + temp * (unat (mq_msg_size m) + 8)
                    in (set_next head (mq_queue_free m) m)\<lparr>mq_queue_free := head\<rparr>)
       [0..<unat (mq_max_msgs m)] m"

text \<open>\<open>nodes\<close> is the memory the pool lies in.\<close>

definition mq_fresh :: "nat \<Rightarrow> (nat \<Rightarrow> rt_mq_message) \<Rightarrow> u16 \<Rightarrow> u16 \<Rightarrow> rt_messagequeue" where
  "mq_fresh pool nodes sz maxm =
     (mq_link_pool \<lparr>mq_msg_pool = pool, mq_node = nodes, mq_msg_size = sz, mq_max_msgs = maxm, mq_entry = 0,
                    mq_queue_head = 0, mq_queue_tail = 0, mq_queue_free = 0\<rparr>)\<lparr>mq_entry := 0\<rparr>"

definition rt_mq_init ::
    "nat \<Rightarrow> u8 list \<Rightarrow> nat \<Rightarrow> (nat \<Rightarrow> rt_mq_message) \<Rightarrow> u64 \<Rightarrow> u64 \<Rightarrow> u8 \<Rightarrow> kernel \<Rightarrow> (rt_err \<times> kernel) option" where
  "rt_mq_init a name msgpool nodes msg_size pool_size flag k =
     do { rt_assert (a \<noteq> 0);
          rt_assert (flag = RT_IPC_FLAG_FIFO \<or> flag = RT_IPC_FLAG_PRIO);
          k \<leftarrow> lift_o (rt_object_init (Obj a) RT_Object_Class_MessageQueue name) k;
          let k = ipc_object_init a (set_obj_flag a flag k);
          let sz = (ucast (rt_align msg_size) :: u16);
          let maxm = (ucast (pool_size div (ucast sz + 8)) :: u16);
          Some (RT_EOK, senders_init a (upd_mq a (\<lambda>_. mq_fresh msgpool nodes sz maxm) k)) }"

definition rt_mq_detach :: "nat \<Rightarrow> nat \<Rightarrow> kernel \<Rightarrow> (rt_err \<times> kernel) option" where
  "rt_mq_detach c a k =
     do { rt_assert (a \<noteq> 0);
          rt_assert (is_obj a RT_Object_Class_MessageQueue k);
          rt_assert (rt_object_is_systemobject (Obj a) (k_o k));
          k \<leftarrow> ipc_list_resume_all c (Suspend a) k;
          k \<leftarrow> ipc_list_resume_all c (SuspendSender a) k;
          k \<leftarrow> lift_o (rt_object_detach (Obj a)) k;
          Some (RT_EOK, k) }"

text \<open>\<open>pool\<close> is the address \<open>rt_malloc\<close> returns for the messages, 0 for \<open>RT_NULL\<close>.\<close>

definition rt_mq_create ::
    "nat \<Rightarrow> nat \<Rightarrow> nat \<Rightarrow> (nat \<Rightarrow> rt_mq_message) \<Rightarrow> u8 list \<Rightarrow> u64 \<Rightarrow> u64 \<Rightarrow> u8 \<Rightarrow> kernel \<Rightarrow> (nat \<times> kernel) option" where
  "rt_mq_create c mem pool nodes name msg_size max_msgs flag k =
     do { rt_assert (flag = RT_IPC_FLAG_FIFO \<or> flag = RT_IPC_FLAG_PRIO);
          not_in_interrupt c k;
          (a, x) \<leftarrow> rt_object_allocate mem RT_Object_Class_MessageQueue name (k_o k);
          let k = k\<lparr>k_o := x\<rparr>;
          (if a = 0 then Some (0, k)
           else do {
             let k = ipc_object_init a (set_obj_flag a flag k);
             let sz = (ucast (rt_align msg_size) :: u16);
             let maxm = (ucast max_msgs :: u16);
             (if pool = 0
              then do {
                let k = upd_mq a (\<lambda>m. m\<lparr>mq_msg_size := sz, mq_max_msgs := maxm, mq_msg_pool := 0\<rparr>) k;
                k \<leftarrow> lift_o (rt_object_delete (Obj a)) k;
                Some (0, k) }
              else Some (a, senders_init a (upd_mq a (\<lambda>_. mq_fresh pool nodes sz maxm) k))) }) }"

definition rt_mq_delete :: "nat \<Rightarrow> nat \<Rightarrow> kernel \<Rightarrow> (rt_err \<times> kernel) option" where
  "rt_mq_delete c a k =
     do { rt_assert (a \<noteq> 0);
          rt_assert (is_obj a RT_Object_Class_MessageQueue k);
          rt_assert (\<not> rt_object_is_systemobject (Obj a) (k_o k));
          not_in_interrupt c k;
          k \<leftarrow> ipc_list_resume_all c (Suspend a) k;
          k \<leftarrow> ipc_list_resume_all c (SuspendSender a) k;
          k \<leftarrow> lift_o (rt_object_delete (Obj a)) k;
          Some (RT_EOK, k) }"

subsection \<open>The linked lists of the queue\<close>

text \<open>\<open>rt_memcpy(msg + 1, buffer, size)\<close>.\<close>

definition fill :: "nat \<Rightarrow> u8 list \<Rightarrow> rt_messagequeue \<Rightarrow> rt_messagequeue option" where
  "fill n buf m =
     do { rt_assert (length buf \<le> length (mqm_data (mq_node m n)));
          Some (m\<lparr>mq_node := (mq_node m)(n := (mq_node m n)\<lparr>mqm_data := memcpy_to (mqm_data (mq_node m n)) 0 buf\<rparr>)\<rparr>) }"

text \<open>Taking the first free node, \<open>msg\<close>, for the message, and linking it at the end or in front.\<close>

definition mq_put :: "u8 list \<Rightarrow> rt_messagequeue \<Rightarrow> (bool \<times> rt_messagequeue) option" where
  "mq_put buf m =
     do { let msg = mq_queue_free m;
          let m = m\<lparr>mq_queue_free := nxt m msg\<rparr>;
          let m = set_next msg 0 m;
          m \<leftarrow> fill msg buf m;
          let m = (if mq_queue_tail m \<noteq> 0 then set_next (mq_queue_tail m) msg m else m);
          let m = m\<lparr>mq_queue_tail := msg\<rparr>;
          let m = (if mq_queue_head m = 0 then m\<lparr>mq_queue_head := msg\<rparr> else m);
          (if mq_entry m < 0xffff then Some (True, m\<lparr>mq_entry := mq_entry m + 1\<rparr>) else Some (False, m)) }"

definition mq_put_front :: "u8 list \<Rightarrow> rt_messagequeue \<Rightarrow> (bool \<times> rt_messagequeue) option" where
  "mq_put_front buf m =
     do { let msg = mq_queue_free m;
          let m = m\<lparr>mq_queue_free := nxt m msg\<rparr>;
          m \<leftarrow> fill msg buf m;
          let m = set_next msg (mq_queue_head m) m;
          let m = m\<lparr>mq_queue_head := msg\<rparr>;
          let m = (if mq_queue_tail m = 0 then m\<lparr>mq_queue_tail := msg\<rparr> else m);
          (if mq_entry m < 0xffff then Some (True, m\<lparr>mq_entry := mq_entry m + 1\<rparr>) else Some (False, m)) }"

text \<open>Taking the first message, of which at most \<open>sz\<close> bytes are copied out.\<close>

definition mq_get :: "nat \<Rightarrow> rt_messagequeue \<Rightarrow> (u8 list \<times> rt_messagequeue) option" where
  "mq_get sz m =
     do { let msg = mq_queue_head m;
          rt_assert (msg \<noteq> 0);
          let m = m\<lparr>mq_queue_head := nxt m msg\<rparr>;
          let m = (if mq_queue_tail m = msg then m\<lparr>mq_queue_tail := 0\<rparr> else m);
          let m = (if 0 < mq_entry m then m\<lparr>mq_entry := mq_entry m - 1\<rparr> else m);
          let n = (if unat (mq_msg_size m) < sz then unat (mq_msg_size m) else sz);
          rt_assert (n \<le> length (mqm_data (mq_node m msg)));
          let buf = take n (mqm_data (mq_node m msg));
          let m = set_next msg (mq_queue_free m) m;
          Some (buf, m\<lparr>mq_queue_free := msg\<rparr>) }"

subsection \<open>Sending and receiving\<close>

definition mq_finish :: "nat \<Rightarrow> nat \<Rightarrow> (bool \<times> rt_messagequeue) \<Rightarrow> kernel \<Rightarrow> (rt_err \<times> kernel) option" where
  "mq_finish c a r k =
     (let k = upd_mq a (\<lambda>_. snd r) k in
      if fst r then do { k \<leftarrow> notify c a (Suspend a) k; Some (RT_EOK, k) }
      else Some (- RT_EFULL, spinlock_unlock a k))"

definition mq_send_turn :: "nat \<Rightarrow> nat \<Rightarrow> nat \<Rightarrow> u8 list \<Rightarrow> int \<Rightarrow> kernel \<Rightarrow> (rt_err option \<times> kernel) option" where
  "mq_send_turn c a t buf timeout k =
     (if mq_queue_free (k_mq k a) = 0
      then do {
        let k = set_error t RT_EOK k;
        (if timeout = 0 then Some (Some (- RT_EFULL), spinlock_unlock a k)
         else do {
           in_thread_context c k;
           k \<leftarrow> ipc_wait c (SuspendSender a) t (obj_flag a k) timeout k;
           block c (spinlock_unlock a k) }) }
      else do {
        r \<leftarrow> mq_put buf (k_mq k a);
        (e, k) \<leftarrow> mq_finish c a r k;
        Some (Some e, k) })"

definition rt_mq_send_wait :: "nat \<Rightarrow> nat \<Rightarrow> u8 list \<Rightarrow> int \<Rightarrow> kernel \<Rightarrow> (rt_err option \<times> kernel) option" where
  "rt_mq_send_wait c a buf timeout k =
     do { rt_assert (a \<noteq> 0);
          rt_assert (is_obj a RT_Object_Class_MessageQueue k);
          rt_assert (length buf \<noteq> 0);
          (if unat (mq_msg_size (k_mq k a)) < length buf then Some (Some (- RT_ERROR), k)
           else do {
             let t = rt_thread_self c k;
             k \<leftarrow> spinlock_lock a k;
             (if mq_queue_free (k_mq k a) = 0 \<and> timeout = 0
              then Some (Some (- RT_EFULL), spinlock_unlock a k)
              else mq_send_turn c a t buf timeout k) }) }"

definition rt_mq_send_wait_resumed ::
    "nat \<Rightarrow> nat \<Rightarrow> nat \<Rightarrow> u8 list \<Rightarrow> int \<Rightarrow> u32 \<Rightarrow> kernel \<Rightarrow> (rt_err option \<times> kernel) option" where
  "rt_mq_send_wait_resumed c a t buf timeout before k =
     (if th_error (thread k t) \<noteq> RT_EOK then Some (Some (th_error (thread k t)), k)
      else do { k \<leftarrow> spinlock_lock a k;
                mq_send_turn c a t buf (remaining_time c before timeout k) k })"

definition rt_mq_send :: "nat \<Rightarrow> nat \<Rightarrow> u8 list \<Rightarrow> kernel \<Rightarrow> (rt_err option \<times> kernel) option" where
  "rt_mq_send c a buf k = rt_mq_send_wait c a buf 0 k"

definition rt_mq_urgent :: "nat \<Rightarrow> nat \<Rightarrow> u8 list \<Rightarrow> kernel \<Rightarrow> (rt_err \<times> kernel) option" where
  "rt_mq_urgent c a buf k =
     do { rt_assert (a \<noteq> 0);
          rt_assert (is_obj a RT_Object_Class_MessageQueue k);
          rt_assert (length buf \<noteq> 0);
          (if unat (mq_msg_size (k_mq k a)) < length buf then Some (- RT_ERROR, k)
           else do {
             k \<leftarrow> spinlock_lock a k;
             (if mq_queue_free (k_mq k a) = 0 then Some (- RT_EFULL, spinlock_unlock a k)
              else do { r \<leftarrow> mq_put_front buf (k_mq k a); mq_finish c a r k }) }) }"

definition mq_recv_turn ::
    "nat \<Rightarrow> nat \<Rightarrow> nat \<Rightarrow> nat \<Rightarrow> int \<Rightarrow> kernel \<Rightarrow> ((rt_err \<times> u8 list) option \<times> kernel) option" where
  "mq_recv_turn c a t sz timeout k =
     (if mq_entry (k_mq k a) = 0
      then do {
        in_thread_context c k;
        let k = set_error t RT_EOK k;
        (if timeout = 0
         then Some (Some (- RT_ETIMEOUT, []), set_error t (- RT_ETIMEOUT) (spinlock_unlock a k))
         else do {
           k \<leftarrow> ipc_wait c (Suspend a) t (obj_flag a k) timeout k;
           block c (spinlock_unlock a k) }) }
      else do {
        (buf, m) \<leftarrow> mq_get sz (k_mq k a);
        k \<leftarrow> notify c a (SuspendSender a) (upd_mq a (\<lambda>_. m) k);
        Some (Some (RT_EOK, buf), k) })"

definition rt_mq_recv :: "nat \<Rightarrow> nat \<Rightarrow> nat \<Rightarrow> int \<Rightarrow> kernel \<Rightarrow> ((rt_err \<times> u8 list) option \<times> kernel) option" where
  "rt_mq_recv c a sz timeout k =
     do { rt_assert (a \<noteq> 0);
          rt_assert (is_obj a RT_Object_Class_MessageQueue k);
          rt_assert (sz \<noteq> 0);
          let t = rt_thread_self c k;
          k \<leftarrow> spinlock_lock a k;
          (if mq_entry (k_mq k a) = 0 \<and> timeout = 0
           then Some (Some (- RT_ETIMEOUT, []), spinlock_unlock a k)
           else mq_recv_turn c a t sz timeout k) }"

definition rt_mq_recv_resumed ::
    "nat \<Rightarrow> nat \<Rightarrow> nat \<Rightarrow> nat \<Rightarrow> int \<Rightarrow> u32 \<Rightarrow> kernel \<Rightarrow> ((rt_err \<times> u8 list) option \<times> kernel) option" where
  "rt_mq_recv_resumed c a t sz timeout before k =
     (if th_error (thread k t) \<noteq> RT_EOK then Some (Some (th_error (thread k t), []), k)
      else do { k \<leftarrow> spinlock_lock a k;
                mq_recv_turn c a t sz (remaining_time c before timeout k) k })"

text \<open>The loop of \<open>RT_IPC_CMD_RESET\<close>, which need not end when the queue is circular.\<close>

partial_function (option) mq_flush :: "rt_messagequeue \<Rightarrow> rt_messagequeue option" where
  "mq_flush m =
     (if mq_queue_head m = 0 then Some m
      else let msg = mq_queue_head m;
               m = m\<lparr>mq_queue_head := nxt m msg\<rparr>;
               m = (if mq_queue_tail m = msg then m\<lparr>mq_queue_tail := 0\<rparr> else m);
               m = set_next msg (mq_queue_free m) m
           in mq_flush (m\<lparr>mq_queue_free := msg\<rparr>))"

definition rt_mq_control :: "nat \<Rightarrow> nat \<Rightarrow> bool \<Rightarrow> kernel \<Rightarrow> (rt_err \<times> kernel) option" where
  "rt_mq_control c a reset k =
     do { rt_assert (a \<noteq> 0);
          rt_assert (is_obj a RT_Object_Class_MessageQueue k);
          (if reset
           then do { k \<leftarrow> ipc_list_resume_all c (Suspend a) k;
                     k \<leftarrow> ipc_list_resume_all c (SuspendSender a) k;
                     m \<leftarrow> mq_flush (k_mq k a);
                     k \<leftarrow> kschedule c (upd_mq a (\<lambda>_. m\<lparr>mq_entry := 0\<rparr>) k);
                     Some (RT_EOK, k) }
           else Some (- RT_ERROR, k)) }"


subsection \<open>The queue as a list\<close>

fun linked :: "(nat \<Rightarrow> nat) \<Rightarrow> nat \<Rightarrow> nat list \<Rightarrow> bool" where
  "linked f p [] \<longleftrightarrow> p = 0"
| "linked f p (n # ns) \<longleftrightarrow> p = n \<and> n \<noteq> 0 \<and> linked f (f n) ns"

fun nodes_from :: "(nat \<Rightarrow> nat) \<Rightarrow> nat \<Rightarrow> nat \<Rightarrow> nat list" where
  "nodes_from f p 0 = []"
| "nodes_from f p (Suc n) = p # nodes_from f (f p) n"

lemma nodes_from_linked: "linked f p ns \<Longrightarrow> nodes_from f p (length ns) = ns"
  by (induction ns arbitrary: p) auto

lemma linked_upd [simp]: "n \<notin> set ns \<Longrightarrow> linked (f(n := x)) p ns = linked f p ns"
  by (induction ns arbitrary: p) auto

lemma linked_nonzero: "linked f p ns \<Longrightarrow> 0 \<notin> set ns"
  by (induction ns arbitrary: p) auto

lemma linked_head: "linked f p ns \<Longrightarrow> p = 0 \<longleftrightarrow> ns = []"
  by (cases ns) auto

lemma linked_snoc:
  "linked f p ns \<Longrightarrow> ns \<noteq> [] \<Longrightarrow> distinct ns \<Longrightarrow> n \<noteq> 0 \<Longrightarrow> n \<notin> set ns \<Longrightarrow> f n = 0 \<Longrightarrow>
   linked (f(last ns := n)) p (ns @ [n])"
proof (induction ns arbitrary: p)
  case (Cons a ns)
  show ?case
  proof (cases "ns = []")
    case False
    then have "last ns \<in> set ns" by simp
    then have "a \<noteq> last ns" using Cons.prems(3) by auto
    then show ?thesis using Cons False by simp
  qed (use Cons in auto)
qed simp

definition mq_rep :: "rt_messagequeue \<Rightarrow> nat list \<Rightarrow> nat list \<Rightarrow> bool" where
  "mq_rep m qs fs \<longleftrightarrow> linked (nxt m) (mq_queue_head m) qs \<and> linked (nxt m) (mq_queue_free m) fs \<and>
     distinct (qs @ fs) \<and> length qs + length fs \<le> 0xffff \<and> unat (mq_entry m) = length qs \<and>
     mq_queue_tail m = (if qs = [] then 0 else last qs) \<and>
     (\<forall>n \<in> set (qs @ fs). length (mqm_data (mq_node m n)) = unat (mq_msg_size m))"

text \<open>The messages in the queue, and the number of free nodes.\<close>

definition mq_list :: "rt_messagequeue \<Rightarrow> u8 list list" where
  "mq_list m = map (\<lambda>n. mqm_data (mq_node m n)) (nodes_from (nxt m) (mq_queue_head m) (unat (mq_entry m)))"

lemma mq_list_rep: "mq_rep m qs fs \<Longrightarrow> mq_list m = map (\<lambda>n. mqm_data (mq_node m n)) qs"
  by (simp add: mq_list_def mq_rep_def nodes_from_linked)

lemma set_next_simps [simp]:
  "nxt (set_next n p m) = (nxt m)(n := p)" "mqm_data (mq_node (set_next n p m) i) = mqm_data (mq_node m i)"
  "mq_queue_head (set_next n p m) = mq_queue_head m" "mq_queue_tail (set_next n p m) = mq_queue_tail m"
  "mq_queue_free (set_next n p m) = mq_queue_free m" "mq_entry (set_next n p m) = mq_entry m"
  "mq_msg_size (set_next n p m) = mq_msg_size m" "mq_max_msgs (set_next n p m) = mq_max_msgs m"
  "mq_msg_pool (set_next n p m) = mq_msg_pool m"
  by (auto simp: set_next_def)

text \<open>What a put writes into a node, and that it changes nothing else.\<close>

definition filled :: "nat \<Rightarrow> u8 list \<Rightarrow> rt_messagequeue \<Rightarrow> rt_messagequeue" where
  "filled n buf m = m\<lparr>mq_node := (mq_node m)(n := (mq_node m n)\<lparr>mqm_data := memcpy_to (mqm_data (mq_node m n)) 0 buf\<rparr>)\<rparr>"

lemma fill_filled: "length buf \<le> length (mqm_data (mq_node m n)) \<Longrightarrow> fill n buf m = Some (filled n buf m)"
  by (simp add: fill_def filled_def)

lemma filled_simps [simp]:
  "nxt (filled n buf m) = nxt m"
  "mqm_data (mq_node (filled n buf m) i) = (if i = n then memcpy_to (mqm_data (mq_node m n)) 0 buf else mqm_data (mq_node m i))"
  "mq_queue_head (filled n buf m) = mq_queue_head m" "mq_queue_tail (filled n buf m) = mq_queue_tail m"
  "mq_queue_free (filled n buf m) = mq_queue_free m" "mq_entry (filled n buf m) = mq_entry m"
  "mq_msg_size (filled n buf m) = mq_msg_size m" "mq_max_msgs (filled n buf m) = mq_max_msgs m"
  by (auto simp: filled_def)

lemma entry_step:
  fixes e :: u16
  assumes "unat e < 0xffff"
  shows "e < 0xffff" "unat (e + 1) = unat e + 1"
  using assms by (simp_all add: word_less_nat_alt unat_word_ariths)

lemma mq_put_ok:
  assumes "mq_rep m qs (n # fs)" "length buf \<le> unat (mq_msg_size m)"
  shows "\<exists>m'. mq_put buf m = Some (True, m') \<and> mq_rep m' (qs @ [n]) fs \<and> mq_msg_size m' = mq_msg_size m \<and> mq_max_msgs m' = mq_max_msgs m \<and>
    mq_list m' = mq_list m @ [buf @ drop (length buf) (mqm_data (mq_node m n))]"
proof -
  have R: "linked (nxt m) (mq_queue_head m) qs" "mq_queue_free m = n" "n \<noteq> 0" "linked (nxt m) (nxt m n) fs"
    "distinct qs" "distinct fs" "n \<notin> set qs" "n \<notin> set fs" "set qs \<inter> set fs = {}" "length qs + Suc (length fs) \<le> 0xffff"
    "unat (mq_entry m) = length qs" "mq_queue_tail m = (if qs = [] then 0 else last qs)"
    "\<forall>i \<in> set qs \<union> set fs. length (mqm_data (mq_node m i)) = unat (mq_msg_size m)"
    "length (mqm_data (mq_node m n)) = unat (mq_msg_size m)"
    using assms(1) by (auto simp: mq_rep_def)
  have e: "mq_entry m < 0xffff" "unat (mq_entry m + 1) = length qs + 1" using entry_step [of "mq_entry m"] R(10,11) by simp_all
  let ?m1 = "filled n buf (set_next n 0 (m\<lparr>mq_queue_free := nxt m n\<rparr>))"
  have f: "fill n buf (set_next n 0 (m\<lparr>mq_queue_free := nxt m n\<rparr>)) = Some ?m1"
    using assms(2) R(14) by (intro fill_filled) (simp add: set_next_def)
  have nx: "nxt ?m1 = (nxt m)(n := 0)" by simp
  have l1: "linked (nxt ?m1) (mq_queue_head m) qs" "linked (nxt ?m1) (nxt m n) fs" using R by (simp_all add: nx)
  have len: "length (memcpy_to (mqm_data (mq_node m n)) 0 buf) = unat (mq_msg_size m)" using assms(2) R(14) by simp
  show ?thesis
  proof (cases "qs = []")
    case True
    let ?m = "?m1\<lparr>mq_queue_tail := n, mq_queue_head := n, mq_entry := mq_entry m + 1\<rparr>"
    have "mq_put buf m = Some (True, ?m)"
      using R(1,2,12) True f e(1) by (simp add: mq_put_def)
    moreover have "mq_rep ?m (qs @ [n]) fs"
      using R e l1 True len by (simp add: mq_rep_def)
    ultimately show ?thesis
      using True mq_list_rep [OF assms(1)] mq_list_rep [of ?m "qs @ [n]" fs] by (intro exI [of _ ?m]) (simp add: memcpy_to_def)
  next
    case False
    have hd0: "mq_queue_head m \<noteq> 0" using linked_head [OF R(1)] False by simp
    have lm: "last qs \<in> set qs" using False by simp
    have t0: "last qs \<noteq> 0" "last qs \<noteq> n" "last qs \<notin> set fs"
      using lm R(7,9) linked_nonzero [OF R(1)] by (metis, metis, blast)
    let ?m = "(set_next (last qs) n ?m1)\<lparr>mq_queue_tail := n, mq_entry := mq_entry m + 1\<rparr>"
    have "mq_put buf m = Some (True, ?m)"
      using R(2,12) False hd0 t0(1) f e(1) by (simp add: mq_put_def)
    moreover have "linked (nxt ?m) (mq_queue_head m) (qs @ [n])"
      using linked_snoc [OF l1(1) False R(5,3,7)] fun_cong [OF nx, of n] by simp
    then have "mq_rep ?m (qs @ [n]) fs"
      using R(3,5-11,13,14) e l1(2) t0 len by (auto simp: mq_rep_def)
    moreover have "map (\<lambda>i. mqm_data (mq_node ?m i)) (qs @ [n]) = mq_list m @ [buf @ drop (length buf) (mqm_data (mq_node m n))]"
      using R(7) mq_list_rep [OF assms(1)] by (auto simp: memcpy_to_def)
    ultimately show ?thesis
      using mq_list_rep [of ?m "qs @ [n]" fs] by (intro exI [of _ ?m]) simp
  qed
qed


lemma mq_put_front_ok:
  assumes "mq_rep m qs (n # fs)" "length buf \<le> unat (mq_msg_size m)"
  shows "\<exists>m'. mq_put_front buf m = Some (True, m') \<and> mq_rep m' (n # qs) fs \<and> mq_msg_size m' = mq_msg_size m \<and> mq_max_msgs m' = mq_max_msgs m \<and>
    mq_list m' = (buf @ drop (length buf) (mqm_data (mq_node m n))) # mq_list m"
proof -
  have R: "linked (nxt m) (mq_queue_head m) qs" "mq_queue_free m = n" "n \<noteq> 0" "linked (nxt m) (nxt m n) fs"
    "distinct qs" "distinct fs" "n \<notin> set qs" "n \<notin> set fs" "set qs \<inter> set fs = {}" "length qs + Suc (length fs) \<le> 0xffff"
    "unat (mq_entry m) = length qs" "mq_queue_tail m = (if qs = [] then 0 else last qs)"
    "\<forall>i \<in> set qs \<union> set fs. length (mqm_data (mq_node m i)) = unat (mq_msg_size m)"
    "length (mqm_data (mq_node m n)) = unat (mq_msg_size m)"
    using assms(1) by (auto simp: mq_rep_def)
  have e: "mq_entry m < 0xffff" "unat (mq_entry m + 1) = length qs + 1" using entry_step [of "mq_entry m"] R(10,11) by simp_all
  let ?m1 = "filled n buf (m\<lparr>mq_queue_free := nxt m n\<rparr>)"
  have f: "fill n buf (m\<lparr>mq_queue_free := nxt m n\<rparr>) = Some ?m1"
    using assms(2) R(14) by (intro fill_filled) simp
  have len: "length (memcpy_to (mqm_data (mq_node m n)) 0 buf) = unat (mq_msg_size m)" using assms(2) R(14) by simp
  have tl: "last qs \<noteq> 0" if "qs \<noteq> []" using that linked_nonzero [OF R(1)] last_in_set [of qs] by metis
  let ?t = "if qs = [] then n else last qs"
  let ?m = "(set_next n (mq_queue_head m) ?m1)\<lparr>mq_queue_head := n, mq_queue_tail := ?t, mq_entry := mq_entry m + 1\<rparr>"
  have "mq_put_front buf m = Some (True, ?m)"
    using R(2,12) f e(1) tl by (cases "qs = []") (simp_all add: mq_put_front_def set_next_def filled_def)
  moreover have r: "mq_rep ?m (n # qs) fs" using R e len by (auto simp: mq_rep_def)
  moreover have "map (\<lambda>i. mqm_data (mq_node ?m i)) (n # qs) = (buf @ drop (length buf) (mqm_data (mq_node m n))) # mq_list m"
    using R(7) mq_list_rep [OF assms(1)] by (auto simp: memcpy_to_def)
  ultimately show ?thesis using mq_list_rep [OF r] by (intro exI [of _ ?m]) simp
qed

lemma mq_get_ok:
  assumes "mq_rep m (q # qs) fs"
  shows "\<exists>m'. mq_get sz m = Some (take sz (hd (mq_list m)), m') \<and> mq_rep m' qs (q # fs) \<and>
    mq_msg_size m' = mq_msg_size m \<and> mq_max_msgs m' = mq_max_msgs m \<and> mq_list m' = tl (mq_list m)"
proof -
  have R: "mq_queue_head m = q" "q \<noteq> 0" "linked (nxt m) (nxt m q) qs" "linked (nxt m) (mq_queue_free m) fs"
    "distinct qs" "distinct fs" "q \<notin> set qs" "q \<notin> set fs" "set qs \<inter> set fs = {}" "Suc (length qs) + length fs \<le> 0xffff"
    "unat (mq_entry m) = Suc (length qs)" "mq_queue_tail m = (if qs = [] then q else last qs)"
    "\<forall>i \<in> set qs \<union> set fs. length (mqm_data (mq_node m i)) = unat (mq_msg_size m)"
    "length (mqm_data (mq_node m q)) = unat (mq_msg_size m)"
    using assms by (auto simp: mq_rep_def)
  have e: "0 < mq_entry m" "unat (mq_entry m - 1) = length qs" using R(11) by (simp_all add: word_less_nat_alt unat_sub word_le_nat_alt)
  have tl: "last qs \<noteq> q" if "qs \<noteq> []" using that R(7) last_in_set [of qs] by metis
  let ?t = "if qs = [] then 0 else last qs"
  let ?m = "(set_next q (mq_queue_free m) (m\<lparr>mq_queue_head := nxt m q, mq_queue_tail := ?t, mq_entry := mq_entry m - 1\<rparr>))\<lparr>mq_queue_free := q\<rparr>"
  have "mq_get sz m = Some (take (min sz (unat (mq_msg_size m))) (mqm_data (mq_node m q)), ?m)"
    using R(1,2,12,14) e(1) tl by (cases "qs = []") (simp_all add: mq_get_def min_def Let_def set_next_def)
  also have "take (min sz (unat (mq_msg_size m))) (mqm_data (mq_node m q)) = take sz (hd (mq_list m))"
    using R(14) mq_list_rep [OF assms] by (simp add: min_def)
  finally have g: "mq_get sz m = Some (take sz (hd (mq_list m)), ?m)" .
  moreover have r: "mq_rep ?m qs (q # fs)" using R e by (auto simp: mq_rep_def)
  moreover have "map (\<lambda>i. mqm_data (mq_node ?m i)) qs = tl (mq_list m)"
    using mq_list_rep [OF assms] by auto
  ultimately show ?thesis using mq_list_rep [OF r] by (intro exI [of _ ?m]) simp
qed

text \<open>The flush does not look at the entry count, which is reset afterwards.\<close>

lemma mq_flush_ok:
  "mq_rep (m\<lparr>mq_entry := of_nat (length qs)\<rparr>) qs fs \<Longrightarrow>
   \<exists>m'. mq_flush m = Some m' \<and> mq_rep (m'\<lparr>mq_entry := 0\<rparr>) [] (rev qs @ fs) \<and> mq_msg_size m' = mq_msg_size m \<and> mq_max_msgs m' = mq_max_msgs m"
proof (induction qs arbitrary: m fs)
  case Nil
  then have "mq_queue_head m = 0" by (simp add: mq_rep_def)
  then show ?case using Nil by (subst mq_flush.simps) simp
next
  case (Cons q qs)
  let ?m = "(set_next q (mq_queue_free m) (m\<lparr>mq_queue_head := nxt m q,
     mq_queue_tail := if mq_queue_tail m = q then 0 else mq_queue_tail m\<rparr>))\<lparr>mq_queue_free := q\<rparr>"
  have R: "mq_queue_head m = q" "q \<noteq> 0" "linked (nxt m) (nxt m q) qs" "linked (nxt m) (mq_queue_free m) fs"
    "distinct qs" "distinct fs" "q \<notin> set qs" "q \<notin> set fs" "set qs \<inter> set fs = {}" "Suc (length qs) + length fs \<le> 0xffff"
    "mq_queue_tail m = (if qs = [] then q else last qs)"
    "\<forall>i \<in> set qs \<union> set fs. length (mqm_data (mq_node m i)) = unat (mq_msg_size m)"
    "length (mqm_data (mq_node m q)) = unat (mq_msg_size m)"
    using Cons.prems by (auto simp: mq_rep_def)
  have tl: "last qs \<noteq> q" if "qs \<noteq> []" using that R(7) last_in_set [of qs] by metis
  have "unat (of_nat (length qs) :: u16) = length qs" using R(10) by (simp add: unat_of_nat)
  then have "mq_rep (?m\<lparr>mq_entry := of_nat (length qs)\<rparr>) qs (q # fs)"
    using R tl by (cases "qs = []") (auto simp: mq_rep_def)
  from Cons.IH [OF this] obtain m' where
    "mq_flush ?m = Some m'" "mq_rep (m'\<lparr>mq_entry := 0\<rparr>) [] (rev qs @ q # fs)" "mq_msg_size m' = mq_msg_size m" "mq_max_msgs m' = mq_max_msgs m" by auto
  moreover have "mq_flush m = mq_flush ?m"
    using R(1,2) by (subst mq_flush.simps) (simp add: Let_def)
  ultimately show ?case by simp
qed

text \<open>A pool of \<open>n\<close> nodes that lie \<open>d\<close> apart.\<close>

lemma mq_link_pool_ok:
  assumes "0 < p" "\<And>i. length (mqm_data (nodes i)) = unat sz" "mq_queue_head m = 0" "mq_queue_tail m = 0" "mq_queue_free m = 0"
    "mq_node m = nodes" "mq_msg_pool m = p" "mq_msg_size m = sz" "mq_entry m = 0"
  defines "d \<equiv> unat sz + 8" and "k \<equiv> unat (mq_max_msgs m)"
  shows "mq_rep (mq_link_pool m) [] (rev (map (\<lambda>i. p + i * d) [0..<k]))"
proof -
  define step where "step = (\<lambda>temp m. let head = mq_msg_pool m + temp * (unat (mq_msg_size m) + 8)
                    in (set_next head (mq_queue_free m) m)\<lparr>mq_queue_free := head\<rparr>)"
  have k: "k < 65536" using unsigned_less [of "mq_max_msgs m"] by (simp add: k_def)
  have "mq_rep (fold step [0..<j] m) [] (rev (map (\<lambda>i. p + i * d) [0..<j])) \<and>
      mq_msg_pool (fold step [0..<j] m) = p \<and> mq_msg_size (fold step [0..<j] m) = sz \<and>
      (\<forall>i. length (mqm_data (mq_node (fold step [0..<j] m) i)) = unat sz)" if "j \<le> k" for j
    using that
  proof (induction j)
    case 0
    then show ?case using assms by (simp add: mq_rep_def)
  next
    case (Suc j)
    let ?m = "fold step [0..<j] m"
    have IH: "mq_rep ?m [] (rev (map (\<lambda>i. p + i * d) [0..<j]))" "mq_msg_pool ?m = p" "mq_msg_size ?m = sz"
      "\<forall>i. length (mqm_data (mq_node ?m i)) = unat sz" using Suc by simp_all
    have new: "p + j * d \<notin> set (rev (map (\<lambda>i. p + i * d) [0..<j]))" by (auto simp: d_def)
    show ?case using IH new Suc.prems k assms(1) by (auto simp: step_def mq_rep_def d_def Let_def)
  qed
  from this [of k] show ?thesis by (simp add: mq_link_pool_def step_def k_def)
qed


definition mq_wf :: "rt_messagequeue \<Rightarrow> bool" where
  "mq_wf m \<longleftrightarrow> (\<exists>qs fs. mq_rep m qs fs \<and> length qs + length fs = unat (mq_max_msgs m))"

lemma mq_wf_facts:
  assumes "mq_wf m"
  shows "length (mq_list m) = unat (mq_entry m)" "mq_entry m = 0 \<longleftrightarrow> mq_list m = []"
    "mq_queue_free m = 0 \<longleftrightarrow> length (mq_list m) = unat (mq_max_msgs m)" "length (mq_list m) \<le> unat (mq_max_msgs m)"
    "\<forall>x \<in> set (mq_list m). length x = unat (mq_msg_size m)"
proof -
  obtain qs fs where R: "mq_rep m qs fs" "length qs + length fs = unat (mq_max_msgs m)" using assms by (auto simp: mq_wf_def)
  note L = mq_list_rep [OF R(1)]
  have lf: "linked (nxt m) (mq_queue_free m) fs" "unat (mq_entry m) = length qs"
    "\<forall>n \<in> set qs. length (mqm_data (mq_node m n)) = unat (mq_msg_size m)" using R(1) by (auto simp: mq_rep_def)
  show l: "length (mq_list m) = unat (mq_entry m)" "length (mq_list m) \<le> unat (mq_max_msgs m)"
    "\<forall>x \<in> set (mq_list m). length x = unat (mq_msg_size m)"
    using L lf R(2) by auto
  show "mq_entry m = 0 \<longleftrightarrow> mq_list m = []" using l(1) by (metis length_0_conv unat_eq_0)
  show "mq_queue_free m = 0 \<longleftrightarrow> length (mq_list m) = unat (mq_max_msgs m)"
    using linked_head [OF lf(1)] L R(2) by auto
qed

lemma mq_put_wf:
  assumes "mq_wf m" "mq_queue_free m \<noteq> 0" "length buf \<le> unat (mq_msg_size m)"
  shows "\<exists>m' rest. mq_put buf m = Some (True, m') \<and> mq_wf m' \<and> mq_msg_size m' = mq_msg_size m \<and>
    mq_max_msgs m' = mq_max_msgs m \<and> mq_list m' = mq_list m @ [buf @ rest] \<and> length (buf @ rest) = unat (mq_msg_size m)"
    "\<exists>m' rest. mq_put_front buf m = Some (True, m') \<and> mq_wf m' \<and> mq_msg_size m' = mq_msg_size m \<and>
    mq_max_msgs m' = mq_max_msgs m \<and> mq_list m' = (buf @ rest) # mq_list m \<and> length (buf @ rest) = unat (mq_msg_size m)"
proof -
  obtain qs fs where R: "mq_rep m qs fs" "length qs + length fs = unat (mq_max_msgs m)" using assms(1) by (auto simp: mq_wf_def)
  then have "fs \<noteq> []" using assms(2) by (auto simp: mq_rep_def)
  then obtain n fs' where f: "fs = n # fs'" by (cases fs) auto
  have len: "length (buf @ drop (length buf) (mqm_data (mq_node m n))) = unat (mq_msg_size m)"
    using R(1) assms(3) f by (simp add: mq_rep_def)
  show "\<exists>m' rest. mq_put buf m = Some (True, m') \<and> mq_wf m' \<and> mq_msg_size m' = mq_msg_size m \<and>
    mq_max_msgs m' = mq_max_msgs m \<and> mq_list m' = mq_list m @ [buf @ rest] \<and> length (buf @ rest) = unat (mq_msg_size m)"
    using mq_put_ok [OF R(1) [unfolded f] assms(3)] len R(2) f unfolding mq_wf_def by fastforce
  show "\<exists>m' rest. mq_put_front buf m = Some (True, m') \<and> mq_wf m' \<and> mq_msg_size m' = mq_msg_size m \<and>
    mq_max_msgs m' = mq_max_msgs m \<and> mq_list m' = (buf @ rest) # mq_list m \<and> length (buf @ rest) = unat (mq_msg_size m)"
    using mq_put_front_ok [OF R(1) [unfolded f] assms(3)] len R(2) f unfolding mq_wf_def by fastforce
qed

lemma mq_get_wf:
  assumes "mq_wf m" "mq_list m = x # xs"
  shows "\<exists>m'. mq_get sz m = Some (take sz x, m') \<and> mq_wf m' \<and> mq_msg_size m' = mq_msg_size m \<and>
    mq_max_msgs m' = mq_max_msgs m \<and> mq_list m' = xs"
proof -
  obtain qs fs where R: "mq_rep m qs fs" "length qs + length fs = unat (mq_max_msgs m)" using assms(1) by (auto simp: mq_wf_def)
  then obtain q qs' where q: "qs = q # qs'" using mq_list_rep [OF R(1)] assms(2) by (cases qs) auto
  show ?thesis
    using mq_get_ok [OF R(1) [unfolded q], of sz] R(2) q assms(2) unfolding mq_wf_def by fastforce
qed

definition mqueue_ok :: "nat \<Rightarrow> kernel \<Rightarrow> bool" where
  "mqueue_ok a k \<longleftrightarrow> a \<noteq> 0 \<and> is_obj a RT_Object_Class_MessageQueue k \<and>
     obj_flag a k \<in> {RT_IPC_FLAG_FIFO, RT_IPC_FLAG_PRIO} \<and> mq_wf (k_mq k a)"

abbreviation msgs :: "nat \<Rightarrow> kernel \<Rightarrow> u8 list list" where
  "msgs a k \<equiv> mq_list (k_mq k a)"

lemma upd_mq_simps [simp]:
  "k_s (upd_mq a f k) = k_s k" "k_o (upd_mq a f k) = k_o k" "k_spin (upd_mq a f k) = k_spin k"
  "k_mq (upd_mq a f k) = (k_mq k)(a := f (k_mq k a))" "okc c (upd_mq a f k) = okc c k"
  "rt_thread_self c (upd_mq a f k) = rt_thread_self c k"
  by (simp_all add: upd_mq_def)


lemma mq_finish_ok:
  assumes ok: "okc c k" "mqueue_ok a k" and m: "mq_wf m"
  shows "\<exists>k'. mq_finish c a (True, m) k = Some (RT_EOK, k') \<and> okc c k' \<and> mqueue_ok a k' \<and> k_mq k' a = m \<and>
    k_spin k' = (k_spin k)(a := False) \<and> notified (Suspend a) k k'"
proof -
  have M: "a \<noteq> 0" "is_obj a 6 k" "obj_flag a k \<in> {0, 1}" using ok(2) by (simp_all add: mqueue_ok_def)
  let ?k = "upd_mq a (\<lambda>_. m) k"
  have okk: "okc c ?k" using ok(1) by simp
  obtain s' x' where n: "notify c a (Suspend a) ?k = Some (?k\<lparr>k_s := s', k_o := x', k_spin := (k_spin ?k)(a := False)\<rparr>)"
    "okc c (?k\<lparr>k_s := s', k_o := x', k_spin := (k_spin ?k)(a := False)\<rparr>)"
    "notified (Suspend a) ?k (?k\<lparr>k_s := s', k_o := x', k_spin := (k_spin ?k)(a := False)\<rparr>)"
    using notify_ok [OF okk, of "Suspend a" a] by auto
  define kf where "kf = ?k\<lparr>k_s := s', k_o := x', k_spin := (k_spin ?k)(a := False)\<rparr>"
  have nf: "notified (Suspend a) k kf" using n(3) unfolding kf_def by (subst (asm) notified_cong [of _ k _ kf]) (simp_all add: kf_def)
  have "mqueue_ok a kf" using notified_frame [OF nf] M m by (simp add: mqueue_ok_def kf_def)
  then show ?thesis using n(1,2) nf unfolding kf_def [symmetric] by (intro exI [of _ kf]) (simp add: mq_finish_def, simp add: kf_def)
qed

lemma mq_send_turn_ok:
  assumes ok: "okc c k" "mqueue_ok a k" and buf: "length buf \<le> unat (mq_msg_size (k_mq k a))"
    and ctx: "mq_queue_free (k_mq k a) = 0 \<Longrightarrow> timeout \<noteq> 0 \<Longrightarrow> may_wait c t timeout k"
  shows "\<exists>r k'. mq_send_turn c a t buf timeout k = Some (r, k') \<and> okc c k' \<and> mqueue_ok a k' \<and> k_spin k' = (k_spin k)(a := False) \<and>
    (mq_queue_free (k_mq k a) \<noteq> 0 \<longrightarrow> r = Some RT_EOK \<and> notified (Suspend a) k k' \<and>
       (\<exists>rest. msgs a k' = msgs a k @ [buf @ rest] \<and> length (buf @ rest) = unat (mq_msg_size (k_mq k a)))) \<and>
    (mq_queue_free (k_mq k a) = 0 \<and> timeout = 0 \<longrightarrow> r = Some (- RT_EFULL) \<and> k' = spinlock_unlock a (set_error t RT_EOK k)) \<and>
    (mq_queue_free (k_mq k a) = 0 \<and> timeout \<noteq> 0 \<longrightarrow> r = None \<and> k_mq k' = k_mq k \<and>
       waits c (SuspendSender a) t (obj_flag a k) timeout k k')"
proof -
  have M: "a \<noteq> 0" "is_obj a 6 k" "obj_flag a k \<in> {0, 1}" "mq_wf (k_mq k a)" using ok(2) by (simp_all add: mqueue_ok_def)
  consider (room) "mq_queue_free (k_mq k a) \<noteq> 0" | (now) "mq_queue_free (k_mq k a) = 0" "timeout = 0"
    | (wait) "mq_queue_free (k_mq k a) = 0" "timeout \<noteq> 0" by blast
  then show ?thesis
  proof cases
    case room
    obtain m rest where m: "mq_put buf (k_mq k a) = Some (True, m)" "mq_wf m" "mq_list m = msgs a k @ [buf @ rest]"
      "length (buf @ rest) = unat (mq_msg_size (k_mq k a))"
      using mq_put_wf(1) [OF M(4) room buf] by blast
    obtain k' where k': "mq_finish c a (True, m) k = Some (RT_EOK, k')" "okc c k'" "mqueue_ok a k'" "k_mq k' a = m"
      "k_spin k' = (k_spin k)(a := False)" "notified (Suspend a) k k'"
      using mq_finish_ok [OF ok m(2)] by blast
    have "mq_send_turn c a t buf timeout k = Some (Some RT_EOK, k')"
      using room m(1) k'(1) by (simp add: mq_send_turn_def)
    then show ?thesis using k' m room by (intro exI [of _ "Some RT_EOK"] exI [of _ k']) auto
  next
    case now
    have "mq_send_turn c a t buf timeout k = Some (Some (- RT_EFULL), spinlock_unlock a (set_error t RT_EOK k))"
      using now by (simp add: mq_send_turn_def)
    moreover have "mqueue_ok a (spinlock_unlock a (set_error t RT_EOK k))" using M by (simp add: mqueue_ok_def)
    ultimately show ?thesis using ok(1) now by (simp add: set_error_ok)
  next
    case wait
    have C: "may_wait c t timeout k" by (rule ctx [OF wait])
    obtain s' x' where w: "do { k1 \<leftarrow> ipc_wait c (SuspendSender a) t (obj_flag a k) timeout (set_error t RT_EOK k); block c (spinlock_unlock a k1) } =
        Some (None :: rt_err option, k\<lparr>k_s := s', k_o := x', k_spin := (k_spin k)(a := False)\<rparr>)"
      "okc c (k\<lparr>k_s := s', k_o := x', k_spin := (k_spin k)(a := False)\<rparr>)"
      "waits c (SuspendSender a) t (obj_flag a k) timeout k (k\<lparr>k_s := s', k_o := x', k_spin := (k_spin k)(a := False)\<rparr>)"
      using may_wait_ok(3) [OF ok(1) C _ _ M(3), of "SuspendSender a" a] by auto
    let ?kf = "k\<lparr>k_s := s', k_o := x', k_spin := (k_spin k)(a := False)\<rparr>"
    have "mq_send_turn c a t buf timeout k = Some (None, ?kf)"
      using wait w(1) may_wait_ok(2) [OF ok(1) C _ _ M(3), of "Suspend a" 0] by (simp add: mq_send_turn_def)
    moreover have "mqueue_ok a ?kf" using w(3) M by (simp add: mqueue_ok_def waits_def)
    ultimately show ?thesis using w(2,3) wait by (intro exI [of _ None] exI [of _ ?kf]) simp
  qed
qed

lemma mq_recv_turn_ok:
  assumes ok: "okc c k" "mqueue_ok a k"
    and ctx: "msgs a k = [] \<Longrightarrow> in_thread_context c k = Some () \<and> (timeout \<noteq> 0 \<longrightarrow> may_wait c t timeout k)"
  shows "\<exists>r k'. mq_recv_turn c a t sz timeout k = Some (r, k') \<and> okc c k' \<and> mqueue_ok a k' \<and> k_spin k' = (k_spin k)(a := False) \<and>
    (\<forall>x xs. msgs a k = x # xs \<longrightarrow> r = Some (RT_EOK, take sz x) \<and> msgs a k' = xs \<and> notified (SuspendSender a) k k') \<and>
    (msgs a k = [] \<and> timeout = 0 \<longrightarrow> r = Some (- RT_ETIMEOUT, []) \<and> k' = spinlock_unlock a (set_error t (- RT_ETIMEOUT) k)) \<and>
    (msgs a k = [] \<and> timeout \<noteq> 0 \<longrightarrow> r = None \<and> k_mq k' = k_mq k \<and> waits c (Suspend a) t (obj_flag a k) timeout k k')"
proof -
  have M: "a \<noteq> 0" "is_obj a 6 k" "obj_flag a k \<in> {0, 1}" "mq_wf (k_mq k a)" using ok(2) by (simp_all add: mqueue_ok_def)
  show ?thesis
  proof (cases "msgs a k")
    case (Cons x xs)
    obtain m where m: "mq_get sz (k_mq k a) = Some (take sz x, m)" "mq_wf m" "mq_list m = xs"
      using mq_get_wf [OF M(4) Cons, of sz] by blast
    let ?k = "upd_mq a (\<lambda>_. m) k"
    have okk: "okc c ?k" using ok(1) by simp
    obtain s' x' where n: "notify c a (SuspendSender a) ?k = Some (?k\<lparr>k_s := s', k_o := x', k_spin := (k_spin ?k)(a := False)\<rparr>)"
      "okc c (?k\<lparr>k_s := s', k_o := x', k_spin := (k_spin ?k)(a := False)\<rparr>)"
      "notified (SuspendSender a) ?k (?k\<lparr>k_s := s', k_o := x', k_spin := (k_spin ?k)(a := False)\<rparr>)"
      using notify_ok [OF okk, of "SuspendSender a" a] by auto
    define kf where "kf = ?k\<lparr>k_s := s', k_o := x', k_spin := (k_spin ?k)(a := False)\<rparr>"
    have nf: "notified (SuspendSender a) k kf" using n(3) unfolding kf_def by (subst (asm) notified_cong [of _ k _ kf]) (simp_all add: kf_def)
    have "mq_entry (k_mq k a) \<noteq> 0" using mq_wf_facts(2) [OF M(4)] Cons by simp
    then have "mq_recv_turn c a t sz timeout k = Some (Some (RT_EOK, take sz x), kf)"
      using m(1) n(1) [folded kf_def] by (simp add: mq_recv_turn_def)
    moreover have "mqueue_ok a kf" using notified_frame [OF nf] M m(2) by (simp add: mqueue_ok_def kf_def)
    ultimately show ?thesis
      using n(2) nf m Cons by (intro exI [of _ "Some (RT_EOK, take sz x)"] exI [of _ kf]) (simp add: kf_def)
  next
    case Nil
    have e: "mq_entry (k_mq k a) = 0" using mq_wf_facts(2) [OF M(4)] Nil by simp
    show ?thesis
    proof (cases "timeout = 0")
      case True
      have "mq_recv_turn c a t sz timeout k = Some (Some (- RT_ETIMEOUT, []), spinlock_unlock a (set_error t (- RT_ETIMEOUT) k))"
        using True e ctx [OF Nil] by (simp add: mq_recv_turn_def spinlock_unlock_def on_s_def upd_thread_def)
      moreover have "mqueue_ok a (spinlock_unlock a (set_error t (- RT_ETIMEOUT) k))" using M by (simp add: mqueue_ok_def)
      ultimately show ?thesis using ok(1) True Nil by (simp add: set_error_ok)
    next
      case False
      have C: "may_wait c t timeout k" using ctx [OF Nil] False by simp
      obtain s' x' where w: "do { k1 \<leftarrow> ipc_wait c (Suspend a) t (obj_flag a k) timeout (set_error t RT_EOK k); block c (spinlock_unlock a k1) } =
          Some (None :: (rt_err \<times> u8 list) option, k\<lparr>k_s := s', k_o := x', k_spin := (k_spin k)(a := False)\<rparr>)"
        "okc c (k\<lparr>k_s := s', k_o := x', k_spin := (k_spin k)(a := False)\<rparr>)"
        "waits c (Suspend a) t (obj_flag a k) timeout k (k\<lparr>k_s := s', k_o := x', k_spin := (k_spin k)(a := False)\<rparr>)"
        using may_wait_ok(3) [OF ok(1) C _ _ M(3), of "Suspend a" a] by auto
      let ?kf = "k\<lparr>k_s := s', k_o := x', k_spin := (k_spin k)(a := False)\<rparr>"
      have "mq_recv_turn c a t sz timeout k = Some (None, ?kf)"
        using False e w(1) ctx [OF Nil] by (simp add: mq_recv_turn_def)
      moreover have "mqueue_ok a ?kf" using w(3) M by (simp add: mqueue_ok_def waits_def)
      ultimately show ?thesis using w(2,3) False Nil by (intro exI [of _ None] exI [of _ ?kf]) simp
    qed
  qed
qed


lemma mq_locked:
  assumes "okc c k" "mqueue_ok a k" "\<not> k_spin k a"
  defines "kl \<equiv> k\<lparr>k_spin := (k_spin k)(a := True)\<rparr>"
  shows "okc c kl" "mqueue_ok a kl" "(k_spin kl)(a := False) = k_spin k" "may_wait c t timeout kl = may_wait c t timeout k"
    "spinlock_unlock a kl = k" "notified h kl k' = notified h k k'" "waits c h t flag time kl k' = waits c h t flag time k k'"
    "k_mq kl = k_mq k" "obj_flag a kl = obj_flag a k" "in_thread_context c kl = in_thread_context c k"
proof -
  show "notified h kl k' = notified h k k'" by (rule notified_cong) (simp_all add: kl_def)
qed (use assms in \<open>simp_all add: mqueue_ok_def spin_restored may_wait_def running_def spin_unlock_lock in_thread_context_def\<close>)

lemma mq_send_ok:
  assumes ok: "okc c k" "mqueue_ok a k" "\<not> k_spin k a" and buf: "buf \<noteq> []" "length buf \<le> unat (mq_msg_size (k_mq k a))"
    and ctx: "timeout \<noteq> 0 \<Longrightarrow> may_wait c (rt_thread_self c k) timeout k"
  shows "\<exists>r k'. rt_mq_send_wait c a buf timeout k = Some (r, k') \<and> okc c k' \<and> mqueue_ok a k' \<and> k_spin k' = k_spin k \<and>
    (mq_queue_free (k_mq k a) \<noteq> 0 \<longrightarrow> r = Some RT_EOK \<and> notified (Suspend a) k k' \<and>
       (\<exists>rest. msgs a k' = msgs a k @ [buf @ rest] \<and> length (buf @ rest) = unat (mq_msg_size (k_mq k a)))) \<and>
    (mq_queue_free (k_mq k a) = 0 \<and> timeout = 0 \<longrightarrow> r = Some (- RT_EFULL) \<and> k' = k) \<and>
    (mq_queue_free (k_mq k a) = 0 \<and> timeout \<noteq> 0 \<longrightarrow> r = None \<and> k_mq k' = k_mq k \<and>
       waits c (SuspendSender a) (rt_thread_self c k) (obj_flag a k) timeout k k')"
proof -
  let ?kl = "k\<lparr>k_spin := (k_spin k)(a := True)\<rparr>"
  note L = mq_locked [OF ok]
  have wf: "a \<noteq> 0" "is_obj a 6 k" using ok(2) by (simp_all add: mqueue_ok_def)
  show ?thesis
  proof (cases "mq_queue_free (k_mq k a) = 0 \<and> timeout = 0")
    case True
    then have "rt_mq_send_wait c a buf timeout k = Some (Some (- RT_EFULL), k)"
      using wf ok(3) buf by (simp add: rt_mq_send_wait_def L(5))
    then show ?thesis using True ok by auto
  next
    case False
    then have "rt_mq_send_wait c a buf timeout k = mq_send_turn c a (rt_thread_self c k) buf timeout ?kl"
      using wf ok(3) buf by (auto simp: rt_mq_send_wait_def)
    then show ?thesis
      using mq_send_turn_ok [OF L(1,2), of buf timeout "rt_thread_self c k"] ctx False buf(2) unfolding L(3,4,6,7,8,9) by auto
  qed
qed

text \<open>C31: \<open>rt_mq_send_wait\<close>: a message longer than the queue's message size is refused; with a free node
  the message's bytes go to the end of the queue and the first waiting receiver is woken; a full
  queue refuses at once or makes the sender wait.\<close>

theorem rt_mq_send_wait_spec:
  assumes "okc c k" "mqueue_ok a k" "\<not> k_spin k a" "buf \<noteq> []" "timeout \<noteq> 0 \<longrightarrow> may_wait c (rt_thread_self c k) timeout k"
  shows "\<exists>r k'. rt_mq_send_wait c a buf timeout k = Some (r, k') \<and> okc c k' \<and> mqueue_ok a k' \<and> k_spin k' = k_spin k \<and>
    (unat (mq_msg_size (k_mq k a)) < length buf \<longrightarrow> r = Some (- RT_ERROR) \<and> k' = k) \<and>
    (length buf \<le> unat (mq_msg_size (k_mq k a)) \<and> length (msgs a k) < unat (mq_max_msgs (k_mq k a)) \<longrightarrow>
       r = Some RT_EOK \<and> notified (Suspend a) k k' \<and>
       (\<exists>rest. msgs a k' = msgs a k @ [buf @ rest] \<and> length (buf @ rest) = unat (mq_msg_size (k_mq k a)))) \<and>
    (length buf \<le> unat (mq_msg_size (k_mq k a)) \<and> length (msgs a k) = unat (mq_max_msgs (k_mq k a)) \<and> timeout = 0 \<longrightarrow>
       r = Some (- RT_EFULL) \<and> k' = k) \<and>
    (length buf \<le> unat (mq_msg_size (k_mq k a)) \<and> length (msgs a k) = unat (mq_max_msgs (k_mq k a)) \<and> timeout \<noteq> 0 \<longrightarrow>
       r = None \<and> k_mq k' = k_mq k \<and> waits c (SuspendSender a) (rt_thread_self c k) (obj_flag a k) timeout k k')"
proof (cases "length buf \<le> unat (mq_msg_size (k_mq k a))")
  case True
  have wf: "mq_wf (k_mq k a)" using assms(2) by (simp add: mqueue_ok_def)
  show ?thesis
    using mq_send_ok [OF assms(1-4) True, of timeout] assms(5) mq_wf_facts(3) [OF wf] True by auto
next
  case False
  then have "rt_mq_send_wait c a buf timeout k = Some (Some (- RT_ERROR), k)"
    using assms(2,4) by (simp add: rt_mq_send_wait_def mqueue_ok_def)
  with False assms(1-3) show ?thesis by auto
qed

lemma sample_mqueue: "mqueue_ok 100 (sample_kernel 6)" "msgs 100 (sample_kernel 6) = []"
  "mq_msg_size (k_mq (sample_kernel 6) 100) = 8" "mq_max_msgs (k_mq (sample_kernel 6) 100) = 2"
proof -
  have "mq_rep (k_mq (sample_kernel 6) 100) [] [32, 16]" by (simp add: mq_rep_def sample_kernel_def)
  then have "mq_wf (k_mq (sample_kernel 6) 100)"
    unfolding mq_wf_def by (intro exI [of _ "[]"] exI [of _ "[32, 16]"]) (simp add: sample_kernel_def)
  then show "mqueue_ok 100 (sample_kernel 6)" by (simp add: mqueue_ok_def rt_object_get_information_def)
qed (simp_all add: sample_kernel_def mq_list_def)

lemma rt_mq_send_wait_spec_witness:
  "\<exists>k' rest. rt_mq_send_wait 0 100 [1, 2, 3] 0 (sample_kernel 6) = Some (Some RT_EOK, k') \<and> msgs 100 k' = [[1, 2, 3] @ rest]"
  using rt_mq_send_wait_spec [OF sample_okc sample_mqueue(1), of "[1, 2, 3]" 0] sample_mqueue by auto

lemma mq_recv_ok:
  assumes ok: "okc c k" "mqueue_ok a k" "\<not> k_spin k a" and sz: "sz \<noteq> 0"
    and ctx: "msgs a k = [] \<Longrightarrow> timeout \<noteq> 0 \<Longrightarrow> may_wait c (rt_thread_self c k) timeout k"
  shows "\<exists>r k'. rt_mq_recv c a sz timeout k = Some (r, k') \<and> okc c k' \<and> mqueue_ok a k' \<and> k_spin k' = k_spin k \<and>
    (\<forall>x xs. msgs a k = x # xs \<longrightarrow> r = Some (RT_EOK, take sz x) \<and> msgs a k' = xs \<and> notified (SuspendSender a) k k') \<and>
    (msgs a k = [] \<and> timeout = 0 \<longrightarrow> r = Some (- RT_ETIMEOUT, []) \<and> k' = k) \<and>
    (msgs a k = [] \<and> timeout \<noteq> 0 \<longrightarrow> r = None \<and> k_mq k' = k_mq k \<and>
       waits c (Suspend a) (rt_thread_self c k) (obj_flag a k) timeout k k')"
proof -
  let ?kl = "k\<lparr>k_spin := (k_spin k)(a := True)\<rparr>"
  note L = mq_locked [OF ok]
  have wf: "a \<noteq> 0" "is_obj a 6 k" "mq_wf (k_mq k a)" "obj_flag a k \<in> {0, 1}" using ok(2) by (simp_all add: mqueue_ok_def)
  show ?thesis
  proof (cases "msgs a k = [] \<and> timeout = 0")
    case True
    then have "rt_mq_recv c a sz timeout k = Some (Some (- RT_ETIMEOUT, []), k)"
      using wf ok(3) sz mq_wf_facts(2) [OF wf(3)] by (simp add: rt_mq_recv_def L(5))
    then show ?thesis using True ok by auto
  next
    case False
    have ctx': "in_thread_context c k = Some () \<and> (timeout \<noteq> 0 \<longrightarrow> may_wait c (rt_thread_self c k) timeout k)" if "msgs a k = []"
      using ctx that False may_wait_ok(1) [OF ok(1) _ _ _ wf(4), of "rt_thread_self c k" timeout "Suspend a"] by auto
    from False have "rt_mq_recv c a sz timeout k = mq_recv_turn c a (rt_thread_self c k) sz timeout ?kl"
      using wf ok(3) sz mq_wf_facts(2) [OF wf(3)] by (auto simp: rt_mq_recv_def)
    then show ?thesis
      using mq_recv_turn_ok [OF L(1,2), of timeout "rt_thread_self c k" sz] ctx' False unfolding L(3,4,6,7,8,9,10) by auto
  qed
qed

text \<open>C13: \<open>rt_mq_recv\<close>: the first \<open>sz\<close> bytes of the oldest message, which is taken out, and the first
  waiting sender is woken; an empty queue gives a time-out at once or makes the receiver wait.  An
  urgent message, or one sent to an empty queue, is what the next receiver gets.\<close>

theorem rt_mq_recv_spec:
  assumes "okc c k" "mqueue_ok a k" "\<not> k_spin k a" "sz \<noteq> 0" "timeout \<noteq> 0 \<longrightarrow> may_wait c (rt_thread_self c k) timeout k"
  shows "\<exists>r k'. rt_mq_recv c a sz timeout k = Some (r, k') \<and> okc c k' \<and> mqueue_ok a k' \<and> k_spin k' = k_spin k \<and>
    (\<forall>x xs. msgs a k = x # xs \<longrightarrow> r = Some (RT_EOK, take sz x) \<and> msgs a k' = xs \<and> notified (SuspendSender a) k k') \<and>
    (msgs a k = [] \<and> timeout = 0 \<longrightarrow> r = Some (- RT_ETIMEOUT, []) \<and> k' = k) \<and>
    (msgs a k = [] \<and> timeout \<noteq> 0 \<longrightarrow> r = None \<and> k_mq k' = k_mq k \<and>
       waits c (Suspend a) (rt_thread_self c k) (obj_flag a k) timeout k k') \<and>
    (\<forall>buf. buf \<noteq> [] \<and> length buf \<le> unat (mq_msg_size (k_mq k a)) \<and> length (msgs a k) < unat (mq_max_msgs (k_mq k a)) \<longrightarrow>
       (\<exists>k1 k2. rt_mq_urgent c a buf k = Some (RT_EOK, k1) \<and>
          rt_mq_recv c a (length buf) 0 k1 = Some (Some (RT_EOK, buf), k2) \<and> msgs a k2 = msgs a k))"
proof -
  let ?kl = "k\<lparr>k_spin := (k_spin k)(a := True)\<rparr>"
  note L = mq_locked [OF assms(1-3)]
  have wf: "a \<noteq> 0" "is_obj a 6 k" "mq_wf (k_mq k a)" using assms(2) by (simp_all add: mqueue_ok_def)
  have "\<exists>k1 k2. rt_mq_urgent c a buf k = Some (RT_EOK, k1) \<and>
          rt_mq_recv c a (length buf) 0 k1 = Some (Some (RT_EOK, buf), k2) \<and> msgs a k2 = msgs a k"
    if b: "buf \<noteq> []" "length buf \<le> unat (mq_msg_size (k_mq k a))" "length (msgs a k) < unat (mq_max_msgs (k_mq k a))" for buf
  proof -
    have fr: "mq_queue_free (k_mq k a) \<noteq> 0" using mq_wf_facts(3) [OF wf(3)] b(3) by simp
    obtain m rest where m: "mq_put_front buf (k_mq k a) = Some (True, m)" "mq_wf m" "mq_list m = (buf @ rest) # msgs a k"
      using mq_put_wf(2) [OF wf(3) fr b(2)] by blast
    obtain k1 where k1: "mq_finish c a (True, m) ?kl = Some (RT_EOK, k1)" "okc c k1" "mqueue_ok a k1" "k_mq k1 a = m"
      "k_spin k1 = (k_spin ?kl)(a := False)"
      using mq_finish_ok [OF L(1,2) m(2)] by blast
    have "rt_mq_urgent c a buf k = Some (RT_EOK, k1)"
      using wf(1,2) b(1,2) assms(3) fr m(1) k1(1) by (simp add: rt_mq_urgent_def)
    moreover have "\<not> k_spin k1 a" using k1(5) by simp
    ultimately show ?thesis using mq_recv_ok [OF k1(2,3), of "length buf" 0] b(1) m(3) k1(4) by fastforce
  qed
  with mq_recv_ok [OF assms(1-4), of timeout] assms(5) show ?thesis by blast
qed

lemma rt_mq_recv_spec_witness:
  "\<exists>k'. rt_mq_recv 0 100 8 5 (sample_kernel 6) = Some (None, k') \<and> s_list (k_s k') (Suspend 100) = [1]"
proof -
  have "may_wait 0 (rt_thread_self 0 (sample_kernel 6)) 5 (sample_kernel 6)" by (simp add: may_wait_def)
  then show ?thesis
    using rt_mq_recv_spec [OF sample_okc sample_mqueue(1), of 8 5] sample_mqueue by (auto simp: waits_def enq_def)
qed


lemma mq_flush_wf:
  assumes "mq_wf m"
  shows "\<exists>m'. mq_flush m = Some m' \<and> mq_wf (m'\<lparr>mq_entry := 0\<rparr>) \<and> mq_list (m'\<lparr>mq_entry := 0\<rparr>) = [] \<and> mq_max_msgs m' = mq_max_msgs m"
proof -
  obtain qs fs where R: "mq_rep m qs fs" "length qs + length fs = unat (mq_max_msgs m)" using assms by (auto simp: mq_wf_def)
  have "m\<lparr>mq_entry := of_nat (length qs)\<rparr> = m"
  proof -
    have "length qs = unat (mq_entry m)" using R(1) by (simp add: mq_rep_def)
    then have "(of_nat (length qs) :: u16) = mq_entry m" by (simp only: of_nat_unat ucast_id)
    then show ?thesis by simp
  qed
  then obtain m' where m': "mq_flush m = Some m'" "mq_rep (m'\<lparr>mq_entry := 0\<rparr>) [] (rev qs @ fs)" "mq_max_msgs m' = mq_max_msgs m"
    using mq_flush_ok [of qs m fs] R(1) by auto
  have "mq_wf (m'\<lparr>mq_entry := 0\<rparr>)"
    unfolding mq_wf_def using m'(2,3) R(2) by (intro exI [of _ "[]"] exI [of _ "rev qs @ fs"]) simp
  then show ?thesis using m' mq_list_rep [OF m'(2)] by simp
qed

text \<open>Fact: resetting a message queue ends: every message goes back to the free list, and every thread that
  waited to receive or to send is runnable and gets \<open>-RT_ERROR\<close>.\<close>

theorem rt_mq_control_reset:
  assumes "okc c k" "mqueue_ok a k"
  shows "\<exists>k'. rt_mq_control c a True k = Some (RT_EOK, k') \<and> okc c k' \<and> mqueue_ok a k' \<and> msgs a k' = [] \<and>
    s_list (k_s k') (Suspend a) = [] \<and> s_list (k_s k') (SuspendSender a) = [] \<and>
    (\<forall>t \<in> set (s_list (k_s k) (Suspend a) @ s_list (k_s k) (SuspendSender a)).
       th_error (thread k' t) = - RT_ERROR \<and> stat_base (th_stat (thread k' t)) \<in> {RT_THREAD_READY, RT_THREAD_RUNNING})"
proof -
  have M: "a \<noteq> 0" "is_obj a 6 k" "obj_flag a k \<in> {0, 1}" "mq_wf (k_mq k a)" using assms(2) by (simp_all add: mqueue_ok_def)
  have h: "\<not> is_ready (Suspend a)" "Suspend a \<noteq> Defunct" "\<not> is_ready (SuspendSender a)" "SuspendSender a \<noteq> Defunct" by simp_all
  obtain s1 x1 where r1: "ipc_list_resume_all c (Suspend a) k = Some (k\<lparr>k_s := s1, k_o := x1\<rparr>)" "okc c (k\<lparr>k_s := s1, k_o := x1\<rparr>)"
    "\<forall>g. \<not> is_ready g \<longrightarrow> s_list s1 g = (if g = Suspend a then [] else s_list (k_s k) g)"
    "\<forall>t \<in> set (s_list (k_s k) (Suspend a)). th_error (s_thread s1 t) = - RT_ERROR \<and>
       stat_base (th_stat (s_thread s1 t)) \<in> {RT_THREAD_READY, RT_THREAD_RUNNING} \<and> \<not> timer_activated (ThTimer t) x1"
    "\<forall>i. rt_object_get_type i x1 = rt_object_get_type i (k_o k)"
    "\<forall>b. o_flag (ob_obj x1 (Obj b)) = o_flag (ob_obj (k_o k) (Obj b))"
    using resume_all_ok [OF assms(1) h(1,2)] by (elim exE conjE) (rule that; assumption)
  let ?k1 = "k\<lparr>k_s := s1, k_o := x1\<rparr>"
  obtain s2 x2 where r2: "ipc_list_resume_all c (SuspendSender a) ?k1 = Some (?k1\<lparr>k_s := s2, k_o := x2\<rparr>)" "okc c (?k1\<lparr>k_s := s2, k_o := x2\<rparr>)"
    "\<forall>g. \<not> is_ready g \<longrightarrow> s_list s2 g = (if g = SuspendSender a then [] else s_list (k_s ?k1) g)"
    "\<forall>t \<in> set (s_list (k_s ?k1) (SuspendSender a)). th_error (s_thread s2 t) = - RT_ERROR \<and>
       stat_base (th_stat (s_thread s2 t)) \<in> {RT_THREAD_READY, RT_THREAD_RUNNING} \<and> \<not> timer_activated (ThTimer t) x2"
    "\<forall>t. t \<notin> set (s_list (k_s ?k1) (SuspendSender a)) \<longrightarrow> s_thread s2 t = thread ?k1 t"
    "\<forall>i. rt_object_get_type i x2 = rt_object_get_type i (k_o ?k1)"
    "\<forall>b. o_flag (ob_obj x2 (Obj b)) = o_flag (ob_obj (k_o ?k1) (Obj b))"
    using resume_all_ok [OF r1(2) h(3,4)] by (elim exE conjE) (rule that; assumption)
  obtain m where m: "mq_flush (k_mq k a) = Some m" "mq_wf (m\<lparr>mq_entry := 0\<rparr>)" "mq_list (m\<lparr>mq_entry := 0\<rparr>) = []"
    using mq_flush_wf [OF M(4)] by blast
  define k2 where "k2 = upd_mq a (\<lambda>_. m\<lparr>mq_entry := 0\<rparr>) (k\<lparr>k_s := s2, k_o := x2\<rparr>)"
  have ok2: "okc c k2" using r2(2) by (simp add: k2_def)
  obtain s3 where s3: "kschedule c k2 = Some (k2\<lparr>k_s := s3\<rparr>)" "okc c (k2\<lparr>k_s := s3\<rparr>)" "sframe (k_s k2) s3"
    "\<forall>h. \<not> is_ready h \<longrightarrow> s_list s3 h = s_list (k_s k2) h"
    using kschedule_ok [OF ok2] by blast
  have res: "rt_mq_control c a True k = Some (RT_EOK, k2\<lparr>k_s := s3\<rparr>)"
    using M(1,2) r1(1) r2(1) m(1) s3(1) by (simp add: rt_mq_control_def k2_def)
  have "mqueue_ok a (k2\<lparr>k_s := s3\<rparr>)" using M r1(5,6) r2(6,7) m(2) by (simp add: mqueue_ok_def k2_def)
  moreover have "s_list s3 (Suspend a) = []" "s_list s3 (SuspendSender a) = []"
    using s3(4) r1(3) r2(3) by (simp_all add: k2_def)
  moreover have "th_error (s_thread s3 t) = - RT_ERROR \<and> stat_base (th_stat (s_thread s3 t)) \<in> {1, 3}"
    if "t \<in> set (s_list (k_s k) (Suspend a) @ s_list (k_s k) (SuspendSender a))" for t
  proof -
    have l: "s_list s1 (SuspendSender a) = s_list (k_s k) (SuspendSender a)" using r1(3) by simp
    have "th_error (s_thread s2 t) = - 1 \<and> stat_base (th_stat (s_thread s2 t)) \<in> {1, 3}"
      using that r1(4) r2(4,5) l by (cases "t \<in> set (s_list (k_s k) (SuspendSender a))") auto
    moreover have "same_run (s_thread s2 t) (s_thread s3 t)" using s3(3) by (simp add: sframe_def k2_def)
    ultimately show ?thesis by (auto simp: same_run_def same_data_def)
  qed
  ultimately show ?thesis
    using res s3(2) m(3) by (intro exI [of _ "k2\<lparr>k_s := s3\<rparr>"]) (simp add: k2_def)
qed

lemma rt_mq_control_reset_witness:
  "\<exists>k'. rt_mq_control 0 100 True (sample_kernel 6) = Some (RT_EOK, k') \<and> msgs 100 k' = []"
  using rt_mq_control_reset [OF sample_okc sample_mqueue(1)] by blast

text \<open>A queue just initialised is empty and has all its nodes free.\<close>

lemma mq_fresh_wf:
  assumes "0 < p" "\<And>i. length (mqm_data (nodes i)) = unat sz"
  shows "mq_wf (mq_fresh p nodes sz maxm) \<and> mq_list (mq_fresh p nodes sz maxm) = []"
proof -
  let ?m0 = "\<lparr>mq_msg_pool = p, mq_node = nodes, mq_msg_size = sz, mq_max_msgs = maxm, mq_entry = 0,
       mq_queue_head = 0, mq_queue_tail = 0, mq_queue_free = 0\<rparr>"
  let ?fs = "rev (map (\<lambda>i. p + i * (unat sz + 8)) [0..<unat maxm])"
  have r: "mq_rep (mq_link_pool ?m0) [] ?fs"
    using mq_link_pool_ok [of p nodes sz ?m0] assms by simp
  have mx: "mq_max_msgs (fold (\<lambda>temp m. let head = mq_msg_pool m + temp * (unat (mq_msg_size m) + 8)
        in (set_next head (mq_queue_free m) m)\<lparr>mq_queue_free := head\<rparr>) xs m) = mq_max_msgs m" for xs m
    by (induction xs arbitrary: m) (simp_all add: Let_def)
  have e: "mq_entry (mq_link_pool ?m0) = 0" using r by (simp add: mq_rep_def unat_eq_0)
  then have f: "mq_fresh p nodes sz maxm = mq_link_pool ?m0" by (simp add: mq_fresh_def)
  have "mq_wf (mq_link_pool ?m0)"
    unfolding mq_wf_def using r by (intro exI [of _ "[]"] exI [of _ ?fs]) (simp add: mq_link_pool_def mx)
  then show ?thesis using mq_list_rep [OF r] f by simp
qed

end
