(* ===== verification/Mempool.thy ===== *)
theory Mempool
  imports MsgQueue
begin

section \<open>Memory pools (\<open>src/mempool.c\<close>)\<close>

text \<open>
  \<open>rt_mp_init\<close> to \<open>rt_mp_free\<close>: blocks of one size, each behind a word that links the free blocks and
  names the pool of a block in use.  Threads wait for a block newest first: the code links them
  behind the list head.
\<close>

definition upd_mp :: "nat \<Rightarrow> (rt_mempool \<Rightarrow> rt_mempool) \<Rightarrow> kernel \<Rightarrow> kernel" where
  "upd_mp a f k = k\<lparr>k_mp := (k_mp k)(a := f (k_mp k a))\<rparr>"

definition mp_set_link :: "nat \<Rightarrow> nat \<Rightarrow> rt_mempool \<Rightarrow> rt_mempool" where
  "mp_set_link b p m = m\<lparr>mp_link := (mp_link m)(b := p)\<rparr>"

text \<open>\<open>block_ptr + offset * (block_size + sizeof(rt_uint8_t *))\<close>, the product in 64 bits.\<close>

definition mp_block :: "rt_mempool \<Rightarrow> u64 \<Rightarrow> nat" where
  "mp_block m offset = mp_start_address m + unat (offset * (mp_block_size m + 8))"

text \<open>With no block at all the last assignment writes in front of the pool: \<open>None\<close>.\<close>

definition mp_link_blocks :: "rt_mempool \<Rightarrow> rt_mempool option" where
  "mp_link_blocks m =
     do { let n = unat (mp_block_total_count m);
          let m = fold (\<lambda>offset m. mp_set_link (mp_block m (of_nat offset)) (mp_block m (of_nat offset + 1)) m) [0..<n] m;
          rt_assert (n \<noteq> 0);
          let m = mp_set_link (mp_block m (of_nat n - 1)) 0 m;
          Some (m\<lparr>mp_block_list := mp_start_address m\<rparr>) }"

definition rt_mp_init ::
    "nat \<Rightarrow> u8 list \<Rightarrow> nat \<Rightarrow> u64 \<Rightarrow> u64 \<Rightarrow> kernel \<Rightarrow> (rt_err \<times> kernel) option" where
  "rt_mp_init a name start sz block_size k =
     do { rt_assert (a \<noteq> 0);
          rt_assert (start \<noteq> 0);
          rt_assert (0 < sz \<and> 0 < block_size);
          k \<leftarrow> lift_o (rt_object_init (Obj a) RT_Object_Class_MemPool name) k;
          let sz = sz AND NOT 7;
          let block_size = rt_align block_size;
          let count = sz div (block_size + 8);
          let m = (k_mp k a)\<lparr>mp_start_address := start, mp_size := sz, mp_block_size := block_size,
                             mp_block_total_count := count, mp_block_free_count := count\<rparr>;
          let k = on_s (upd_list (Suspend a) (\<lambda>_. [])) k;
          m \<leftarrow> mp_link_blocks m;
          Some (RT_EOK, upd_mp a (\<lambda>_. m) k) }"

text \<open>The loops that wake the waiters with an error do what \<open>_ipc_list_resume_all\<close> does.\<close>

definition rt_mp_detach :: "nat \<Rightarrow> nat \<Rightarrow> kernel \<Rightarrow> (rt_err \<times> kernel) option" where
  "rt_mp_detach c a k =
     do { rt_assert (a \<noteq> 0);
          rt_assert (is_obj a RT_Object_Class_MemPool k);
          rt_assert (rt_object_is_systemobject (Obj a) (k_o k));
          k \<leftarrow> ipc_list_resume_all c (Suspend a) k;
          k \<leftarrow> lift_o (rt_object_detach (Obj a)) k;
          Some (RT_EOK, k) }"

text \<open>\<open>mem\<close> and \<open>start\<close> are what the heap gives for the object and for the blocks.\<close>

definition rt_mp_create ::
    "nat \<Rightarrow> nat \<Rightarrow> nat \<Rightarrow> u8 list \<Rightarrow> u64 \<Rightarrow> u64 \<Rightarrow> kernel \<Rightarrow> (nat \<times> kernel) option" where
  "rt_mp_create c mem start name block_count block_size k =
     do { not_in_interrupt c k;
          rt_assert (0 < block_count \<and> 0 < block_size);
          (a, x) \<leftarrow> rt_object_allocate mem RT_Object_Class_MemPool name (k_o k);
          let k = k\<lparr>k_o := x\<rparr>;
          (if a = 0 then Some (0, k)
           else do {
             let block_size = rt_align block_size;
             let m = (k_mp k a)\<lparr>mp_block_size := block_size, mp_size := (block_size + 8) * block_count,
                                mp_start_address := start\<rparr>;
             (if start = 0
              then do { k \<leftarrow> lift_o (rt_object_delete (Obj a)) (upd_mp a (\<lambda>_. m) k); Some (0, k) }
              else do {
                let m = m\<lparr>mp_block_total_count := block_count, mp_block_free_count := block_count\<rparr>;
                let k = on_s (upd_list (Suspend a) (\<lambda>_. [])) k;
                m \<leftarrow> mp_link_blocks m;
                Some (a, upd_mp a (\<lambda>_. m) k) }) }) }"

definition rt_mp_delete :: "nat \<Rightarrow> nat \<Rightarrow> kernel \<Rightarrow> (rt_err \<times> kernel) option" where
  "rt_mp_delete c a k =
     do { not_in_interrupt c k;
          rt_assert (a \<noteq> 0);
          rt_assert (is_obj a RT_Object_Class_MemPool k);
          rt_assert (\<not> rt_object_is_systemobject (Obj a) (k_o k));
          k \<leftarrow> ipc_list_resume_all c (Suspend a) k;
          k \<leftarrow> lift_o (rt_object_delete (Obj a)) k;
          Some (RT_EOK, k) }"

text \<open>\<open>rt_set_errno\<close> for a thread; the error number of interrupts is left out.\<close>

definition rt_set_errno :: "nat \<Rightarrow> rt_err \<Rightarrow> kernel \<Rightarrow> kernel" where
  "rt_set_errno c e k =
     (if rt_interrupt_get_nest c (k_s k) \<noteq> 0 \<or> rt_thread_self c k = 0 then k else set_error (rt_thread_self c k) e k)"

text \<open>Taking the first free block \<open>b\<close>; the caller gets the address behind its link.\<close>

definition mp_take :: "nat \<Rightarrow> rt_mempool \<Rightarrow> (nat \<times> rt_mempool) option" where
  "mp_take a m =
     do { let m = m\<lparr>mp_block_free_count := mp_block_free_count m - 1\<rparr>;
          let b = mp_block_list m;
          rt_assert (b \<noteq> 0);
          let m = m\<lparr>mp_block_list := mp_link m b\<rparr>;
          Some (b + 8, mp_set_link b a m) }"

definition mp_alloc_turn :: "nat \<Rightarrow> nat \<Rightarrow> nat \<Rightarrow> int \<Rightarrow> kernel \<Rightarrow> (nat option \<times> kernel) option" where
  "mp_alloc_turn c a t time k =
     (if mp_block_free_count (k_mp k a) = 0
      then (if time = 0 then Some (Some 0, rt_set_errno c (- RT_ETIMEOUT) k)
            else do {
              not_in_interrupt c k;
              let k = set_error t RT_EOK k;
              (_, k) \<leftarrow> rt_thread_suspend c t k;
              let k = on_s (upd_list (Suspend a) (\<lambda>ts. t # ts)) k;
              k \<leftarrow> (if 0 < time then thread_timer_start c t (of_int time) k else Some k);
              block c k })
      else do {
        (b, m) \<leftarrow> mp_take a (k_mp k a);
        Some (Some b, upd_mp a (\<lambda>_. m) k) })"

definition rt_mp_alloc :: "nat \<Rightarrow> nat \<Rightarrow> int \<Rightarrow> kernel \<Rightarrow> (nat option \<times> kernel) option" where
  "rt_mp_alloc c a time k =
     do { rt_assert (a \<noteq> 0);
          mp_alloc_turn c a (rt_thread_self c k) time k }"

definition rt_mp_alloc_resumed :: "nat \<Rightarrow> nat \<Rightarrow> nat \<Rightarrow> int \<Rightarrow> u32 \<Rightarrow> kernel \<Rightarrow> (nat option \<times> kernel) option" where
  "rt_mp_alloc_resumed c a t time before_sleep k =
     (if th_error (thread k t) \<noteq> RT_EOK then Some (Some 0, k)
      else mp_alloc_turn c a t (remaining_time c before_sleep time k) k)"

text \<open>
  \<open>rt_mp_free\<close> finds the pool in the word in front of the block; \<open>a\<close> is the pool whose memory the
  block lies in, and the word must name it.
\<close>

definition rt_mp_free :: "nat \<Rightarrow> nat \<Rightarrow> nat \<Rightarrow> kernel \<Rightarrow> kernel option" where
  "rt_mp_free c a blk k =
     (if blk = 0 then Some k
      else do {
        let b = blk - 8;
        rt_assert (mp_link (k_mp k a) b = a);
        let k = upd_mp a (\<lambda>m. (mp_set_link b (mp_block_list m) (m\<lparr>mp_block_free_count := mp_block_free_count m + 1\<rparr>))
                               \<lparr>mp_block_list := b\<rparr>) k;
        (case s_list (k_s k) (Suspend a) of
           [] \<Rightarrow> Some k
         | t # _ \<Rightarrow> do {
             (_, k) \<leftarrow> rt_thread_resume c t (set_error t RT_EOK k);
             kschedule c k }) })"


subsection \<open>Free blocks and blocks in use\<close>

definition mp_fit :: "rt_mempool \<Rightarrow> bool" where
  "mp_fit m \<longleftrightarrow> mp_start_address m \<noteq> 0 \<and> 0 < unat (mp_block_total_count m) \<and>
     unat (mp_block_total_count m) * (unat (mp_block_size m) + 8) < 2 ^ 64"

definition mp_blocks :: "rt_mempool \<Rightarrow> nat list" where
  "mp_blocks m = map (\<lambda>i. mp_start_address m + i * (unat (mp_block_size m) + 8)) [0..<unat (mp_block_total_count m)]"

lemma mp_block_nat:
  assumes "mp_fit m" "i \<le> unat (mp_block_total_count m)"
  shows "mp_block m (of_nat i) = mp_start_address m + i * (unat (mp_block_size m) + 8)"
proof -
  let ?n = "unat (mp_block_total_count m)" and ?d = "unat (mp_block_size m) + 8"
  have d: "1 * ?d \<le> ?n * ?d" using assms(1) by (intro mult_right_mono) (simp_all add: mp_fit_def)
  have nd: "?n * ?d < 2 ^ 64" using assms(1) unfolding mp_fit_def by blast
  have "?d < 2 ^ 64" using le_less_trans [OF d nd] by (simp only: mult_1)
  then have u8: "unat (mp_block_size m + 8) = ?d" by (simp add: unat_word_ariths)
  have "i * ?d \<le> ?n * ?d" using assms(2) by (rule mult_right_mono) simp
  then have lt: "i * ?d < 2 ^ 64" using nd by (rule le_less_trans)
  have "?n < 2 ^ LENGTH(64)" by (rule unsigned_less)
  then have "i < 2 ^ 64" using assms(2) by simp
  then have "unat (of_nat i :: u64) = i" by (simp add: unat_of_nat)
  then have "unat (of_nat i * (mp_block_size m + 8)) = i * ?d"
    using lt u8 by (simp add: unat_word_ariths(2))
  then show ?thesis by (simp add: mp_block_def)
qed

lemma mp_blocks_distinct: "distinct (mp_blocks m)"
  by (auto simp: mp_blocks_def distinct_map inj_on_def)

text \<open>Two different blocks do not overlap.\<close>

lemma mp_blocks_apart:
  assumes "b \<in> set (mp_blocks m)" "d \<in> set (mp_blocks m)" "b \<noteq> d"
  shows "b + (unat (mp_block_size m) + 8) \<le> d \<or> d + (unat (mp_block_size m) + 8) \<le> b"
proof -
  let ?w = "unat (mp_block_size m) + 8"
  obtain i j where ij: "b = mp_start_address m + i * ?w" "d = mp_start_address m + j * ?w"
    using assms(1,2) by (auto simp: mp_blocks_def)
  then have "i \<noteq> j" using assms(3) by auto
  then consider "i + 1 \<le> j" | "j + 1 \<le> i" by linarith
  then show ?thesis
  proof cases
    case 1
    then have "(i + 1) * ?w \<le> j * ?w" by (rule mult_right_mono) simp
    then show ?thesis using ij by (simp add: algebra_simps)
  next
    case 2
    then have "(j + 1) * ?w \<le> i * ?w" by (rule mult_right_mono) simp
    then show ?thesis using ij by (simp add: algebra_simps)
  qed
qed

definition mp_rep :: "nat \<Rightarrow> rt_mempool \<Rightarrow> nat list \<Rightarrow> bool" where
  "mp_rep a m fs \<longleftrightarrow> mp_fit m \<and> linked (mp_link m) (mp_block_list m) fs \<and> distinct fs \<and> set fs \<subseteq> set (mp_blocks m) \<and>
     unat (mp_block_free_count m) = length fs \<and> (\<forall>b \<in> set (mp_blocks m) - set fs. mp_link m b = a)"

definition mp_free_blocks :: "rt_mempool \<Rightarrow> nat list" where
  "mp_free_blocks m = nodes_from (mp_link m) (mp_block_list m) (unat (mp_block_free_count m))"

definition mp_used :: "rt_mempool \<Rightarrow> nat set" where
  "mp_used m = set (mp_blocks m) - set (mp_free_blocks m)"

lemma mp_free_blocks_rep: "mp_rep a m fs \<Longrightarrow> mp_free_blocks m = fs"
  unfolding mp_rep_def mp_free_blocks_def by (metis nodes_from_linked)

lemma mp_set_link_simps [simp]:
  "mp_link (mp_set_link b p m) = (mp_link m)(b := p)" "mp_block_list (mp_set_link b p m) = mp_block_list m"
  "mp_block_free_count (mp_set_link b p m) = mp_block_free_count m" "mp_block_size (mp_set_link b p m) = mp_block_size m"
  "mp_block_total_count (mp_set_link b p m) = mp_block_total_count m" "mp_start_address (mp_set_link b p m) = mp_start_address m"
  "mp_blocks (mp_set_link b p m) = mp_blocks m" "mp_fit (mp_set_link b p m) = mp_fit m"
  by (simp_all add: mp_set_link_def mp_blocks_def mp_fit_def)

lemma mp_upd_simps [simp]:
  "mp_blocks (m\<lparr>mp_block_list := l\<rparr>) = mp_blocks m" "mp_fit (m\<lparr>mp_block_list := l\<rparr>) = mp_fit m"
  "mp_blocks (m\<lparr>mp_block_free_count := n\<rparr>) = mp_blocks m" "mp_fit (m\<lparr>mp_block_free_count := n\<rparr>) = mp_fit m"
  by (simp_all add: mp_blocks_def mp_fit_def)

lemma mp_take_ok:
  assumes "mp_rep a m (b # fs)"
  shows "\<exists>m'. mp_take a m = Some (b + 8, m') \<and> mp_rep a m' fs \<and> mp_blocks m' = mp_blocks m \<and> mp_block_size m' = mp_block_size m"
proof -
  have R: "mp_fit m" "mp_block_list m = b" "b \<noteq> 0" "linked (mp_link m) (mp_link m b) fs" "distinct fs" "b \<notin> set fs"
    "set fs \<subseteq> set (mp_blocks m)" "b \<in> set (mp_blocks m)" "unat (mp_block_free_count m) = Suc (length fs)"
    "\<forall>d \<in> set (mp_blocks m) - insert b (set fs). mp_link m d = a"
    using assms by (auto simp: mp_rep_def)
  have e: "unat (mp_block_free_count m - 1) = length fs" using R(9) by (simp add: unat_sub word_le_nat_alt)
  let ?m = "mp_set_link b a (m\<lparr>mp_block_free_count := mp_block_free_count m - 1, mp_block_list := mp_link m b\<rparr>)"
  have "mp_take a m = Some (b + 8, ?m)" using R(2,3) by (simp add: mp_take_def)
  moreover have "mp_rep a ?m fs" using R e by (auto simp: mp_rep_def)
  ultimately show ?thesis by (intro exI [of _ ?m]) simp
qed

lemma mp_give_ok:
  assumes "mp_rep a m fs" "b \<in> set (mp_blocks m)" "b \<notin> set fs"
  shows "mp_rep a ((mp_set_link b (mp_block_list m) (m\<lparr>mp_block_free_count := mp_block_free_count m + 1\<rparr>))\<lparr>mp_block_list := b\<rparr>) (b # fs)"
proof -
  have R: "mp_fit m" "linked (mp_link m) (mp_block_list m) fs" "distinct fs" "set fs \<subseteq> set (mp_blocks m)"
    "unat (mp_block_free_count m) = length fs" "\<forall>d \<in> set (mp_blocks m) - set fs. mp_link m d = a"
    using assms(1) by (auto simp: mp_rep_def)
  have b0: "b \<noteq> 0" using assms(2) R(1) by (auto simp: mp_blocks_def mp_fit_def)
  have "length fs < length (mp_blocks m)"
  proof -
    have "set fs \<subset> set (mp_blocks m)" using R(4) assms(2,3) by blast
    then have "card (set fs) < card (set (mp_blocks m))" by (simp add: psubset_card_mono)
    then show ?thesis using R(3) by (simp add: distinct_card mp_blocks_distinct)
  qed
  then have "unat (mp_block_free_count m) < unat (mp_block_total_count m)" using R(5) by (simp add: mp_blocks_def)
  moreover have "unat (mp_block_total_count m) < 2 ^ LENGTH(64)" by (rule unsigned_less)
  ultimately have "unat (mp_block_free_count m + 1) = Suc (length fs)"
    using R(5) by (simp add: unat_word_ariths)
  then show ?thesis using R b0 assms(2,3) by (auto simp: mp_rep_def)
qed


text \<open>A pool just linked has all its blocks free, in order.\<close>

lemma linked_fold:
  assumes "\<And>i. i < n \<Longrightarrow> g i \<noteq> 0" "inj_on g {..<n}"
  shows "linked ((fold (\<lambda>i f. f(g i := g (Suc i))) [0..<n] f)(g (n - 1) := 0)) (g 0) (map g [0..<n]) \<or> n = 0"
proof -
  define F where "F = (fold (\<lambda>i f. f(g i := g (Suc i))) [0..<n] f)(g (n - 1) := 0)"
  have ev: "fold (\<lambda>i f. f(g i := g (Suc i))) [0..<k] f (g j) = g (Suc j)" if "j < k" "k \<le> n" for j k
    using that
  proof (induction k)
    case (Suc k)
    show ?case
    proof (cases "j = k")
      case False
      then have "j < k" using Suc.prems(1) by simp
      then have "g j \<noteq> g k" using inj_onD [OF assms(2), of j k] Suc.prems(2) by auto
      then show ?thesis using Suc \<open>j < k\<close> by simp
    qed simp
  qed simp
  have "linked F (g j) (map g [j..<n])" if "j < n" for j
    using that
  proof (induction "n - j" arbitrary: j)
    case (Suc d)
    show ?case
    proof (cases "Suc j = n")
      case True
      then have "F (g j) = 0" by (simp add: F_def flip: True)
      then show ?thesis using assms(1) [OF Suc.prems] True by (simp add: upt_rec)
    next
      case False
      then have "g j \<noteq> g (n - 1)" using inj_onD [OF assms(2), of j "n - 1"] Suc.prems by auto
      then have "F (g j) = g (Suc j)" using ev [of j n] Suc.prems by (simp add: F_def)
      moreover have "linked F (g (Suc j)) (map g [Suc j..<n])" using Suc.hyps(1) [of "Suc j"] Suc.hyps(2) Suc.prems False by simp
      ultimately show ?thesis using assms(1) [OF Suc.prems] Suc.prems by (simp add: upt_rec)
    qed
  qed simp
  then show ?thesis unfolding F_def by blast
qed

lemma mp_link_blocks_ok:
  assumes "mp_fit m" "mp_block_free_count m = mp_block_total_count m"
  shows "\<exists>m'. mp_link_blocks m = Some m' \<and> mp_rep a m' (mp_blocks m) \<and> mp_blocks m' = mp_blocks m"
proof -
  define n where "n = unat (mp_block_total_count m)"
  define g where "g = (\<lambda>i. mp_start_address m + i * (unat (mp_block_size m) + 8))"
  define fm where "fm = (\<lambda>k. fold (\<lambda>offset m. mp_set_link (mp_block m (of_nat offset)) (mp_block m (of_nat offset + 1)) m) [0..<k] m)"
  have n0: "0 < n" and st: "mp_start_address m \<noteq> 0" using assms(1) by (simp_all add: mp_fit_def n_def)
  have fm: "fm k = m\<lparr>mp_link := fold (\<lambda>i f. f(g i := g (Suc i))) [0..<k] (mp_link m)\<rparr>" if "k \<le> n" for k
    using that
  proof (induction k)
    case (Suc k)
    let ?mk = "m\<lparr>mp_link := fold (\<lambda>i f. f(g i := g (Suc i))) [0..<k] (mp_link m)\<rparr>"
    have "mp_fit ?mk" using assms(1) by (simp add: mp_fit_def)
    then have "mp_block ?mk (of_nat k) = g k" "mp_block ?mk (of_nat (Suc k)) = g (Suc k)"
      using mp_block_nat [of ?mk k] mp_block_nat [of ?mk "Suc k"] Suc.prems by (simp_all add: g_def n_def)
    moreover have "(of_nat k + 1 :: u64) = of_nat (Suc k)" by simp
    ultimately show ?case using Suc by (simp add: fm_def mp_set_link_def del: of_nat_Suc fun_upd_apply)
  qed (simp add: fm_def)
  let ?m = "(mp_set_link (g (n - 1)) 0 (fm n))\<lparr>mp_block_list := mp_start_address m\<rparr>"
  have last: "mp_block (fm n) (of_nat n - 1) = g (n - 1)"
  proof -
    have "(of_nat n - 1 :: u64) = of_nat (n - 1)" using n0 by (simp add: of_nat_diff)
    moreover have "mp_fit (fm n)" using assms(1) fm [of n] by (simp add: mp_fit_def)
    ultimately show ?thesis using mp_block_nat [of "fm n" "n - 1"] fm [of n] by (simp add: g_def n_def)
  qed
  have "mp_link_blocks m = Some ?m"
    using n0 last fm [of n] unfolding fm_def by (simp add: mp_link_blocks_def n_def [symmetric] Let_def)
  moreover have "mp_rep a ?m (mp_blocks m)"
  proof -
    have "mp_blocks m = map g [0..<n]" by (simp add: mp_blocks_def g_def n_def)
    moreover have "linked ((fold (\<lambda>i f. f(g i := g (Suc i))) [0..<n] (mp_link m))(g (n - 1) := 0)) (g 0) (map g [0..<n])"
      using linked_fold [of n g "mp_link m"] n0 st by (auto simp: g_def inj_on_def)
    ultimately show ?thesis
      using assms mp_blocks_distinct [of m] fm [of n]
      by (simp add: mp_rep_def mp_set_link_def mp_fit_def mp_blocks_def g_def n_def)
  qed
  moreover have "mp_blocks ?m = mp_blocks m" using fm [of n] by (simp add: mp_blocks_def)
  ultimately show ?thesis by blast
qed


subsection \<open>Allocating and freeing\<close>

definition mempool_ok :: "nat \<Rightarrow> kernel \<Rightarrow> bool" where
  "mempool_ok a k \<longleftrightarrow> a \<noteq> 0 \<and> is_obj a RT_Object_Class_MemPool k \<and> (\<exists>fs. mp_rep a (k_mp k a) fs)"

abbreviation frees :: "nat \<Rightarrow> kernel \<Rightarrow> nat list" where
  "frees a k \<equiv> mp_free_blocks (k_mp k a)"

abbreviation used :: "nat \<Rightarrow> kernel \<Rightarrow> nat set" where
  "used a k \<equiv> mp_used (k_mp k a)"

lemma upd_mp_simps [simp]:
  "k_s (upd_mp a f k) = k_s k" "k_o (upd_mp a f k) = k_o k" "k_spin (upd_mp a f k) = k_spin k"
  "k_mp (upd_mp a f k) = (k_mp k)(a := f (k_mp k a))" "okc c (upd_mp a f k) = okc c k"
  "rt_thread_self c (upd_mp a f k) = rt_thread_self c k"
  by (simp_all add: upd_mp_def)

lemma mempool_rep: "mempool_ok a k \<Longrightarrow> mp_rep a (k_mp k a) (frees a k)"
  using mp_free_blocks_rep by (auto simp: mempool_ok_def)

lemma mp_wait_ok:
  assumes ok: "okc c k" and w: "may_wait c t time k"
  shows "\<exists>s' x'. do { (_, k) \<leftarrow> rt_thread_suspend c t (set_error t RT_EOK k);
        let k = on_s (upd_list (Suspend a) (\<lambda>ts. t # ts)) k;
        k \<leftarrow> (if 0 < time then thread_timer_start c t (of_int time) k else Some k);
        block c k } = Some (None :: nat option, k\<lparr>k_s := s', k_o := x'\<rparr>) \<and>
    okc c (k\<lparr>k_s := s', k_o := x'\<rparr>) \<and> waits c (Suspend a) t 2 time k (k\<lparr>k_s := s', k_o := x'\<rparr>)"
proof -
  let ?k = "set_error t RT_EOK k"
  let ?p = "\<lambda>u. th_current_priority (thread ?k u)"
  have W: "t = rt_thread_self c k" "running c k" "time < 0x7fffffff" using w by (simp_all add: may_wait_def)
  have okk: "okc c ?k" "running c ?k" using ok W(2) by (simp_all only: set_error_ok set_error_simps)
  have self: "rt_thread_self c ?k = t" by (simp add: set_error_simps W(1))
  have t0: "t \<noteq> 0" using okc_self [OF ok] W(1) by simp
  obtain s1 where s1: "rt_thread_suspend c t ?k = Some (RT_EOK, ?k\<lparr>k_s := s1\<rparr>)"
    "okc c (?k\<lparr>k_s := upd_list (Suspend a) (enq 2 ?p t) s1\<rparr>)"
    "joined c (Suspend a) t 2 (k_s ?k) (upd_list (Suspend a) (enq 2 ?p t) s1)"
    using join_ok [OF okk, of "Suspend a" 2] unfolding self by auto
  let ?s1 = "upd_list (Suspend a) (enq 2 ?p t) s1"
  have e: "enq 2 ?p t = (\<lambda>ts. t # ts)" by (simp add: enq_def fun_eq_iff)
  have l: "on_s (upd_list (Suspend a) (\<lambda>ts. t # ts)) (?k\<lparr>k_s := s1\<rparr>) = ?k\<lparr>k_s := ?s1\<rparr>"
    unfolding e by (simp add: on_s_def)
  note tm = timed_ok [OF okk(1) t0 W(3) s1(2,3)]
  have err: "th_error (thread ?k (rt_thread_self c ?k)) = RT_EOK" by (simp add: self)
  obtain s' where s': "block c (?k\<lparr>k_s := ?s1, k_o := timed c t time ?k, k_spin := k_spin ?k\<rparr>) =
      Some (None :: nat option, ?k\<lparr>k_s := s', k_o := timed c t time ?k, k_spin := k_spin ?k\<rparr>)"
    "okc c (?k\<lparr>k_s := s', k_o := timed c t time ?k, k_spin := k_spin ?k\<rparr>)"
    "waits c (Suspend a) t 2 time ?k (?k\<lparr>k_s := s', k_o := timed c t time ?k, k_spin := k_spin ?k\<rparr>)"
    using joined_block_ok [OF okk W(3) err, unfolded self, OF tm(2) s1(3), of "k_spin ?k"] by blast
  have k1: "?k\<lparr>k_s := ?s1, k_o := timed c t time ?k, k_spin := k_spin ?k\<rparr> = ?k\<lparr>k_s := ?s1, k_o := timed c t time ?k\<rparr>"
    by (simp add: on_s_def)
  have k2: "?k\<lparr>k_s := s', k_o := timed c t time ?k, k_spin := k_spin ?k\<rparr> = k\<lparr>k_s := s', k_o := timed c t time ?k\<rparr>"
    by (simp add: on_s_def)
  show ?thesis
    using s' unfolding k1 k2 waits_set_error
    by (intro exI [of _ s'] exI [of _ "timed c t time ?k"]) (simp only: s1(1) l tm(1) Let_def Option.bind.bind_lunit prod.case simp_thms)
qed


lemma mp_alloc_ok:
  assumes "okc c k" "mempool_ok a k" "frees a k = b # bs"
  shows "\<exists>k'. mp_alloc_turn c a t time k = Some (Some (b + 8), k') \<and> okc c k' \<and> mempool_ok a k' \<and> frees a k' = bs \<and>
    mp_blocks (k_mp k' a) = mp_blocks (k_mp k a)"
proof -
  have M: "a \<noteq> 0" "is_obj a 8 k" using assms(2) by (simp_all add: mempool_ok_def)
  have R: "mp_rep a (k_mp k a) (b # bs)" using mempool_rep [OF assms(2)] assms(3) by simp
  obtain m where m: "mp_take a (k_mp k a) = Some (b + 8, m)" "mp_rep a m bs" "mp_blocks m = mp_blocks (k_mp k a)"
    using mp_take_ok [OF R] by blast
  have "mp_block_free_count (k_mp k a) \<noteq> 0" using R by (auto simp: mp_rep_def)
  then have "mp_alloc_turn c a t time k = Some (Some (b + 8), upd_mp a (\<lambda>_. m) k)"
    using m(1) by (simp add: mp_alloc_turn_def)
  then show ?thesis
    using assms(1) M m mp_free_blocks_rep [OF m(2)] by (intro exI [of _ "upd_mp a (\<lambda>_. m) k"]) (auto simp: mempool_ok_def)
qed

text \<open>C12: \<open>rt_mp_alloc\<close>: a free block, which was in no use and does not overlap a block in use; from an
  empty pool \<open>RT_NULL\<close> at once with the error number set, or the thread waits, in front of those that
  wait already.\<close>

theorem rt_mp_alloc_spec:
  assumes "okc c k" "mempool_ok a k" "time \<noteq> 0 \<longrightarrow> may_wait c (rt_thread_self c k) time k"
  shows "\<exists>r k'. rt_mp_alloc c a time k = Some (r, k') \<and> okc c k' \<and> mempool_ok a k' \<and>
    (\<forall>b bs. frees a k = b # bs \<longrightarrow> r = Some (b + 8) \<and> frees a k' = bs \<and> used a k' = insert b (used a k) \<and>
       (\<forall>d \<in> used a k. b + (unat (mp_block_size (k_mp k a)) + 8) \<le> d \<or> d + (unat (mp_block_size (k_mp k a)) + 8) \<le> b)) \<and>
    (frees a k = [] \<and> time = 0 \<longrightarrow> r = Some 0 \<and> k' = rt_set_errno c (- RT_ETIMEOUT) k) \<and>
    (frees a k = [] \<and> time \<noteq> 0 \<longrightarrow> r = None \<and> k_mp k' = k_mp k \<and>
       waits c (Suspend a) (rt_thread_self c k) 2 time k k')"
proof -
  let ?t = "rt_thread_self c k"
  have M: "a \<noteq> 0" "is_obj a 8 k" using assms(2) by (simp_all add: mempool_ok_def)
  note R = mempool_rep [OF assms(2)]
  have al: "rt_mp_alloc c a time k = mp_alloc_turn c a ?t time k" using M by (simp add: rt_mp_alloc_def)
  have cnt: "mp_block_free_count (k_mp k a) = 0 \<longleftrightarrow> frees a k = []"
    using R by (auto simp: mp_rep_def unat_eq_0 simp flip: length_0_conv)
  show ?thesis
  proof (cases "frees a k")
    case (Cons b bs)
    obtain k' where k': "mp_alloc_turn c a ?t time k = Some (Some (b + 8), k')" "okc c k'" "mempool_ok a k'" "frees a k' = bs"
      "mp_blocks (k_mp k' a) = mp_blocks (k_mp k a)"
      using mp_alloc_ok [OF assms(1,2) Cons] by blast
    have b: "b \<in> set (mp_blocks (k_mp k a))" "b \<notin> set bs" using R Cons by (auto simp: mp_rep_def)
    have "used a k' = insert b (used a k)" using k'(4,5) b Cons by (auto simp: mp_used_def)
    moreover have "b + (unat (mp_block_size (k_mp k a)) + 8) \<le> d \<or> d + (unat (mp_block_size (k_mp k a)) + 8) \<le> b" if "d \<in> used a k" for d
    proof (rule mp_blocks_apart)
      show "b \<in> set (mp_blocks (k_mp k a))" by (rule b(1))
    qed (use that Cons in \<open>auto simp: mp_used_def\<close>)
    ultimately show ?thesis using k' al Cons by (intro exI [of _ "Some (b + 8)"] exI [of _ k']) simp
  next
    case Nil
    show ?thesis
    proof (cases "time = 0")
      case True
      let ?k' = "rt_set_errno c (- RT_ETIMEOUT) k"
      have "rt_mp_alloc c a time k = Some (Some 0, ?k')" using al cnt Nil True by (simp add: mp_alloc_turn_def)
      moreover have "okc c ?k'" "mempool_ok a ?k'"
        using assms(1,2) by (simp_all add: rt_set_errno_def set_error_ok mempool_ok_def)
      ultimately show ?thesis using Nil True by (intro exI [of _ "Some 0"] exI [of _ ?k']) simp
    next
      case False
      have w: "may_wait c ?t time k" using assms(3) False by simp
      then have ni: "not_in_interrupt c k = Some ()" using in_context(1) [of k c] by (simp add: may_wait_def)
      obtain s' x' where wk: "do { (_, k) \<leftarrow> rt_thread_suspend c ?t (set_error ?t RT_EOK k);
          let k = on_s (upd_list (Suspend a) (\<lambda>ts. ?t # ts)) k;
          k \<leftarrow> (if 0 < time then thread_timer_start c ?t (of_int time) k else Some k);
          block c k } = Some (None :: nat option, k\<lparr>k_s := s', k_o := x'\<rparr>)"
        "okc c (k\<lparr>k_s := s', k_o := x'\<rparr>)" "waits c (Suspend a) ?t 2 time k (k\<lparr>k_s := s', k_o := x'\<rparr>)"
        using mp_wait_ok [OF assms(1) w] by blast
      have "rt_mp_alloc c a time k = Some (None, k\<lparr>k_s := s', k_o := x'\<rparr>)"
        unfolding al mp_alloc_turn_def using cnt Nil False ni wk(1) by (simp add: Let_def)
      moreover have "mempool_ok a (k\<lparr>k_s := s', k_o := x'\<rparr>)" using wk(3) assms(2) by (simp add: mempool_ok_def waits_def)
      ultimately show ?thesis using wk(2,3) Nil False
        by (intro exI [of _ None] exI [of _ "k\<lparr>k_s := s', k_o := x'\<rparr>"]) simp
    qed
  qed
qed

lemma sample_mempool: "mempool_ok 100 (sample_kernel 8)" "frees 100 (sample_kernel 8) = [16, 48]"
proof -
  have "mp_rep 100 (k_mp (sample_kernel 8) 100) [16, 48]"
    by (simp add: mp_rep_def mp_fit_def mp_blocks_def sample_kernel_def upt_rec)
  then show "mempool_ok 100 (sample_kernel 8)" "frees 100 (sample_kernel 8) = [16, 48]"
    using mp_free_blocks_rep by (auto simp: mempool_ok_def rt_object_get_information_def)
qed

lemma rt_mp_alloc_spec_witness:
  "\<exists>k'. rt_mp_alloc 0 100 0 (sample_kernel 8) = Some (Some 24, k') \<and> frees 100 k' = [48]"
  using rt_mp_alloc_spec [OF sample_okc sample_mempool(1), of 0] sample_mempool(2) by auto

text \<open>Fact: \<open>rt_mp_free\<close>: a block in use becomes the first free one; a waiting thread, the one that came last,
  is woken and gets that very block from its \<open>rt_mp_alloc\<close>.\<close>

theorem rt_mp_free_spec:
  assumes "okc c k" "mempool_ok a k" "b \<in> used a k"
  shows "\<exists>k'. rt_mp_free c a (b + 8) k = Some k' \<and> okc c k' \<and> mempool_ok a k' \<and> frees a k' = b # frees a k \<and>
    used a k' = used a k - {b} \<and> (s_list (k_s k) (Suspend a) = [] \<longrightarrow> k_s k' = k_s k \<and> k_o k' = k_o k) \<and>
    (\<forall>t ts. s_list (k_s k) (Suspend a) = t # ts \<longrightarrow> wakes (Suspend a) t ts (set_error t RT_EOK k) k' \<and>
       (\<exists>k''. rt_mp_alloc_resumed c a t time before k' = Some (Some (b + 8), k'') \<and> okc c k'' \<and> mempool_ok a k''))"
proof -
  have M: "a \<noteq> 0" "is_obj a 8 k" using assms(2) by (simp_all add: mempool_ok_def)
  note R = mempool_rep [OF assms(2)]
  have b: "b \<in> set (mp_blocks (k_mp k a))" "b \<notin> set (frees a k)" "mp_link (k_mp k a) b = a"
    using assms(3) R by (auto simp: mp_used_def mp_rep_def)
  let ?m = "(mp_set_link b (mp_block_list (k_mp k a)) ((k_mp k a)\<lparr>mp_block_free_count := mp_block_free_count (k_mp k a) + 1\<rparr>))\<lparr>mp_block_list := b\<rparr>"
  let ?k = "upd_mp a (\<lambda>m. (mp_set_link b (mp_block_list m) (m\<lparr>mp_block_free_count := mp_block_free_count m + 1\<rparr>))\<lparr>mp_block_list := b\<rparr>) k"
  have rep: "mp_rep a ?m (b # frees a k)" by (rule mp_give_ok [OF R b(1,2)])
  have fr: "frees a ?k = b # frees a k" "used a ?k = used a k - {b}"
    using mp_free_blocks_rep [OF rep] by (auto simp: mp_used_def)
  have okk: "okc c ?k" "mempool_ok a ?k" using assms(1) M rep by (auto simp: mempool_ok_def)
  show ?thesis
  proof (cases "s_list (k_s k) (Suspend a)")
    case Nil
    then have "rt_mp_free c a (b + 8) k = Some ?k" using b(3) by (simp add: rt_mp_free_def)
    then show ?thesis using okk fr Nil by (intro exI [of _ ?k]) simp
  next
    case (Cons t ts)
    let ?ke = "set_error t RT_EOK ?k"
    have l: "s_list (k_s ?ke) (Suspend a) = t # ts" using Cons by simp
    have oke: "okc c ?ke" using okk(1) by (simp only: set_error_ok)
    have h: "\<not> is_ready (Suspend a)" "Suspend a \<noteq> Defunct" by simp_all
    obtain s1 where s1: "ipc_list_resume c (Suspend a) ?ke = Some (?ke\<lparr>k_s := s1, k_o := stopped t (k_o ?ke)\<rparr>)"
      "okc c (?ke\<lparr>k_s := s1, k_o := stopped t (k_o ?ke)\<rparr>)" "woken t (k_s ?ke) s1"
      "\<forall>g. \<not> is_ready g \<longrightarrow> s_list s1 g = (if g = Suspend a then ts else s_list (k_s ?ke) g)"
      using ipc_list_resume_ok [OF oke l h] by blast
    obtain s' where s': "kschedule c (?ke\<lparr>k_s := s1, k_o := stopped t (k_o ?ke), k_spin := k_spin ?ke\<rparr>) =
        Some (?ke\<lparr>k_s := s', k_o := stopped t (k_o ?ke), k_spin := k_spin ?ke\<rparr>)"
      "okc c (?ke\<lparr>k_s := s', k_o := stopped t (k_o ?ke), k_spin := k_spin ?ke\<rparr>)"
      "wakes (Suspend a) t ts ?ke (?ke\<lparr>k_s := s', k_o := stopped t (k_o ?ke), k_spin := k_spin ?ke\<rparr>)"
      using woken_schedule_ok [OF h(1) s1(2-4), of "k_spin ?ke"] by blast
    define kf where "kf = ?ke\<lparr>k_s := s', k_o := stopped t (k_o ?ke), k_spin := k_spin ?ke\<rparr>"
    have nospin: "K\<lparr>k_s := s, k_o := x, k_spin := k_spin K\<rparr> = K\<lparr>k_s := s, k_o := x\<rparr>" for K :: kernel and s x by simp
    have "rt_mp_free c a (b + 8) k = do { k \<leftarrow> ipc_list_resume c (Suspend a) ?ke; kschedule c k }"
      using b(3) Cons l by (simp add: rt_mp_free_def ipc_list_resume_def case_prod_unfold)
    then have res: "rt_mp_free c a (b + 8) k = Some kf" using s1(1) s'(1) unfolding nospin kf_def by simp
    have okf: "okc c kf" using s'(2) by (simp add: kf_def)
    have mp: "k_mp kf = k_mp ?k" by (simp add: kf_def)
    have wk: "wakes (Suspend a) t ts ?ke kf" using s'(3) by (simp only: kf_def)
    then have mok: "mempool_ok a kf" using okk(2) mp by (simp add: mempool_ok_def wakes_def)
    have fre: "frees a kf = b # frees a k" using fr mp by simp
    have err: "th_error (thread kf t) = RT_EOK" using wk by (simp add: wakes_def)
    have "\<exists>k''. rt_mp_alloc_resumed c a t time before kf = Some (Some (b + 8), k'') \<and> okc c k'' \<and> mempool_ok a k''"
      using mp_alloc_ok [OF okf mok fre, of t "remaining_time c before time kf"] err by (auto simp: rt_mp_alloc_resumed_def)
    moreover have "wakes (Suspend a) t ts (set_error t RT_EOK k) kf" using wk by (simp add: wakes_def)
    ultimately show ?thesis using res okf mok fre fr(2) mp Cons by (intro exI [of _ kf]) simp
  qed
qed

lemma rt_mp_free_spec_witness:
  "\<exists>k k'. rt_mp_alloc 0 100 0 (sample_kernel 8) = Some (Some 24, k) \<and> rt_mp_free 0 100 24 k = Some k' \<and> frees 100 k' = [16, 48]"
proof -
  obtain k where k: "mp_alloc_turn 0 100 1 0 (sample_kernel 8) = Some (Some 24, k)" "okc 0 k" "mempool_ok 100 k" "frees 100 k = [48]"
    "mp_blocks (k_mp k 100) = mp_blocks (k_mp (sample_kernel 8) 100)"
    using mp_alloc_ok [OF sample_okc sample_mempool, of 1 0] by auto
  have "16 \<in> used 100 k"
    using k(4,5) by (simp add: mp_used_def mp_blocks_def sample_kernel_def upt_rec)
  then obtain k' where k': "rt_mp_free 0 100 24 k = Some k'" "frees 100 k' = 16 # frees 100 k"
    using rt_mp_free_spec [OF k(2,3), of 16 0 0] by auto
  have "rt_mp_alloc 0 100 0 (sample_kernel 8) = Some (Some 24, k)" using k(1) by (simp add: rt_mp_alloc_def)
  with k' k(4) show ?thesis by (intro exI [of _ k] exI [of _ k']) simp
qed

end
