(* ===== verification/SmallMem.thy ===== *)
theory SmallMem
  imports Prelude
begin

section \<open>The heap (\<open>src/mem.c\<close>)\<close>

text \<open>
  The small memory manager: \<open>rt_system_heap_init\<close>, \<open>rt_malloc\<close>, \<open>rt_realloc\<close>, \<open>rt_calloc\<close>, \<open>rt_free\<close>.
  Block headers are found by their offset from \<open>heap_ptr\<close>; pointers into the heap are kept as
  64-bit offsets.  The heap semaphore, which makes each call exclusive, is left out, and so are
  the bytes of the blocks: \<open>rt_realloc\<close> and \<open>rt_calloc\<close> also yield the copy and the fill they make.
\<close>

record heap_mem =
  hb_magic :: u16
  hb_used :: u16
  hb_next :: u64
  hb_prev :: u64

record heap =
  hp_ptr :: u64  \<comment> \<open>\<open>heap_ptr\<close>\<close>
  hp_blk :: "nat \<Rightarrow> heap_mem"
  hp_end :: u64  \<comment> \<open>\<open>heap_end - heap_ptr\<close>\<close>
  hp_lfree :: u64  \<comment> \<open>\<open>lfree - heap_ptr\<close>\<close>
  hp_size :: u64  \<comment> \<open>\<open>mem_size_aligned\<close>\<close>
  hp_used_mem :: u64
  hp_max_mem :: u64

abbreviation (input) HEAP_MAGIC :: u16 where "HEAP_MAGIC \<equiv> 0x1ea0"
abbreviation (input) SIZEOF_STRUCT_MEM :: u64 where "SIZEOF_STRUCT_MEM \<equiv> 24"
abbreviation (input) MIN_SIZE_ALIGNED :: u64 where "MIN_SIZE_ALIGNED \<equiv> 24"

abbreviation blk :: "heap \<Rightarrow> u64 \<Rightarrow> heap_mem" where
  "blk h p \<equiv> hp_blk h (unat p)"

definition upd_blk :: "u64 \<Rightarrow> (heap_mem \<Rightarrow> heap_mem) \<Rightarrow> heap \<Rightarrow> heap" where
  "upd_blk p f h = h\<lparr>hp_blk := (hp_blk h)(unat p := f (blk h p))\<rparr>"

text \<open>The two halves of \<open>plug_holes\<close>.\<close>

definition plug_forward :: "u64 \<Rightarrow> heap \<Rightarrow> heap" where
  "plug_forward mem h =
     (let nmem = hb_next (blk h mem)
      in if mem \<noteq> nmem \<and> hb_used (blk h nmem) = 0 \<and> nmem \<noteq> hp_end h
         then let h = (if hp_lfree h = nmem then h\<lparr>hp_lfree := mem\<rparr> else h);
                  h = upd_blk mem (\<lambda>b. b\<lparr>hb_next := hb_next (blk h nmem)\<rparr>) h
              in upd_blk (hb_next (blk h nmem)) (\<lambda>b. b\<lparr>hb_prev := mem\<rparr>) h
         else h)"

definition plug_backward :: "u64 \<Rightarrow> heap \<Rightarrow> heap" where
  "plug_backward mem h =
     (let pmem = hb_prev (blk h mem)
      in if pmem \<noteq> mem \<and> hb_used (blk h pmem) = 0
         then let h = (if hp_lfree h = mem then h\<lparr>hp_lfree := pmem\<rparr> else h);
                  h = upd_blk pmem (\<lambda>b. b\<lparr>hb_next := hb_next (blk h mem)\<rparr>) h
              in upd_blk (hb_next (blk h mem)) (\<lambda>b. b\<lparr>hb_prev := pmem\<rparr>) h
         else h)"

definition plug_holes :: "u64 \<Rightarrow> heap \<Rightarrow> heap option" where
  "plug_holes mem h =
     do { rt_assert (mem < hp_end h);
          rt_assert (hb_used (blk h mem) = 0);
          Some (plug_backward mem (plug_forward mem h)) }"

text \<open>\<open>None\<close> here is the error return for a range that is too small: nothing is set up.\<close>

definition rt_system_heap_init :: "u64 \<Rightarrow> u64 \<Rightarrow> (nat \<Rightarrow> heap_mem) \<Rightarrow> heap option" where
  "rt_system_heap_init begin_addr end_addr mem0 =
     (let begin_align = RT_ALIGN begin_addr;
          end_align = RT_ALIGN_DOWN end_addr
      in if 2 * SIZEOF_STRUCT_MEM < end_align \<and> begin_align \<le> end_align - 2 * SIZEOF_STRUCT_MEM
         then let sz = end_align - begin_align - 2 * SIZEOF_STRUCT_MEM;
                  e = sz + SIZEOF_STRUCT_MEM;
                  h = \<lparr>hp_ptr = begin_align, hp_blk = mem0, hp_end = e, hp_lfree = 0, hp_size = sz,
                       hp_used_mem = 0, hp_max_mem = 0\<rparr>;
                  h = upd_blk 0 (\<lambda>_. \<lparr>hb_magic = HEAP_MAGIC, hb_used = 0, hb_next = e, hb_prev = 0\<rparr>) h
              in Some (upd_blk e (\<lambda>_. \<lparr>hb_magic = HEAP_MAGIC, hb_used = 1, hb_next = e, hb_prev = e\<rparr>) h)
         else None)"

text \<open>\<open>while (lfree->used && lfree != heap_end) lfree = lfree->next\<close>.\<close>

partial_function (option) skip_used :: "heap \<Rightarrow> heap option" where
  "skip_used h =
     (if hb_used (blk h (hp_lfree h)) \<noteq> 0 \<and> hp_lfree h \<noteq> hp_end h
      then skip_used (h\<lparr>hp_lfree := hb_next (blk h (hp_lfree h))\<rparr>)
      else Some h)"

definition count_used :: "u64 \<Rightarrow> heap \<Rightarrow> heap" where
  "count_used n h =
     (let h = h\<lparr>hp_used_mem := hp_used_mem h + n\<rparr>
      in if hp_max_mem h < hp_used_mem h then h\<lparr>hp_max_mem := hp_used_mem h\<rparr> else h)"

text \<open>The block at \<open>ptr\<close> is marked, the rest of it split off when it is large enough.\<close>

definition malloc_carve :: "u64 \<Rightarrow> u64 \<Rightarrow> heap \<Rightarrow> heap" where
  "malloc_carve sz ptr h =
     (if sz + SIZEOF_STRUCT_MEM + MIN_SIZE_ALIGNED \<le> hb_next (blk h ptr) - (ptr + SIZEOF_STRUCT_MEM)
      then let ptr2 = ptr + SIZEOF_STRUCT_MEM + sz;
               h = upd_blk ptr2 (\<lambda>b. b\<lparr>hb_magic := HEAP_MAGIC, hb_used := 0, hb_next := hb_next (blk h ptr), hb_prev := ptr\<rparr>) h;
               h = upd_blk ptr (\<lambda>b. b\<lparr>hb_next := ptr2, hb_used := 1\<rparr>) h;
               h = (if hb_next (blk h ptr2) \<noteq> hp_size h + SIZEOF_STRUCT_MEM
                    then upd_blk (hb_next (blk h ptr2)) (\<lambda>b. b\<lparr>hb_prev := ptr2\<rparr>) h else h)
           in count_used (sz + SIZEOF_STRUCT_MEM) h
      else let h = upd_blk ptr (\<lambda>b. b\<lparr>hb_used := 1\<rparr>) h
           in count_used (hb_next (blk h ptr) - ptr) h)"

text \<open>The block is given out, and \<open>lfree\<close> moved on when it was the lowest free one.\<close>

definition malloc_at :: "u64 \<Rightarrow> u64 \<Rightarrow> heap \<Rightarrow> (u64 \<times> heap) option" where
  "malloc_at sz ptr h =
     do { let h = upd_blk ptr (\<lambda>b. b\<lparr>hb_magic := HEAP_MAGIC\<rparr>) (malloc_carve sz ptr h);
          h \<leftarrow> (if ptr = hp_lfree h
               then do { h \<leftarrow> skip_used h;
                         rt_assert (hp_lfree h = hp_end h \<or> hb_used (blk h (hp_lfree h)) = 0);
                         Some h }
               else Some h);
          rt_assert (hp_ptr h + ptr + SIZEOF_STRUCT_MEM + sz \<le> hp_ptr h + hp_end h);
          rt_assert ((hp_ptr h + ptr + SIZEOF_STRUCT_MEM) mod 8 = 0);
          rt_assert ((hp_ptr h + ptr) AND 7 = 0);
          Some (hp_ptr h + ptr + SIZEOF_STRUCT_MEM, h) }"

partial_function (option) malloc_loop :: "u64 \<Rightarrow> u64 \<Rightarrow> heap \<Rightarrow> (u64 \<times> heap) option" where
  "malloc_loop sz ptr h =
     (if ptr < hp_size h - sz
      then if hb_used (blk h ptr) = 0 \<and> sz \<le> hb_next (blk h ptr) - (ptr + SIZEOF_STRUCT_MEM)
           then malloc_at sz ptr h
           else malloc_loop sz (hb_next (blk h ptr)) h
      else Some (0, h))"

definition rt_malloc :: "u64 \<Rightarrow> heap \<Rightarrow> (u64 \<times> heap) option" where
  "rt_malloc sz h =
     (if sz = 0 then Some (0, h)
      else let sz = RT_ALIGN sz
           in if hp_size h < sz then Some (0, h)
              else let sz = (if sz < MIN_SIZE_ALIGNED then MIN_SIZE_ALIGNED else sz)
                   in malloc_loop sz (hp_lfree h) h)"

definition rt_free :: "u64 \<Rightarrow> heap \<Rightarrow> heap option" where
  "rt_free rmem h =
     (if rmem = 0 then Some h
      else do {
        rt_assert (rmem AND 7 = 0);
        rt_assert (hp_ptr h \<le> rmem \<and> rmem < hp_ptr h + hp_end h);
        rt_assert (hp_ptr h + SIZEOF_STRUCT_MEM \<le> rmem);  \<comment> \<open>else the header is read in front of the heap\<close>
        let mem = rmem - SIZEOF_STRUCT_MEM - hp_ptr h;
        rt_assert (hb_used (blk h mem) \<noteq> 0);
        rt_assert (hb_magic (blk h mem) = HEAP_MAGIC);
        let h = upd_blk mem (\<lambda>b. b\<lparr>hb_used := 0, hb_magic := HEAP_MAGIC\<rparr>) h;
        let h = (if mem < hp_lfree h then h\<lparr>hp_lfree := mem\<rparr> else h);
        let h = h\<lparr>hp_used_mem := hp_used_mem h - (hb_next (blk h mem) - mem)\<rparr>;
        plug_holes mem h })"

text \<open>A block is made smaller where it stands: its tail becomes a free block.\<close>

definition realloc_shrink :: "u64 \<Rightarrow> u64 \<Rightarrow> u64 \<Rightarrow> heap \<Rightarrow> heap option" where
  "realloc_shrink newsize sz ptr h =
     do { let h = h\<lparr>hp_used_mem := hp_used_mem h - (sz - newsize)\<rparr>;
          let ptr2 = ptr + SIZEOF_STRUCT_MEM + newsize;
          let h = upd_blk ptr2 (\<lambda>b. b\<lparr>hb_magic := HEAP_MAGIC, hb_used := 0, hb_next := hb_next (blk h ptr), hb_prev := ptr\<rparr>) h;
          let h = upd_blk ptr (\<lambda>b. b\<lparr>hb_next := ptr2\<rparr>) h;
          let h = (if hb_next (blk h ptr2) \<noteq> hp_size h + SIZEOF_STRUCT_MEM
                   then upd_blk (hb_next (blk h ptr2)) (\<lambda>b. b\<lparr>hb_prev := ptr2\<rparr>) h else h);
          let h = (if ptr2 < hp_lfree h then h\<lparr>hp_lfree := ptr2\<rparr> else h);
          plug_holes ptr2 h }"

text \<open>The middle component is the \<open>rt_memcpy\<close>: destination, source and length.\<close>

definition rt_realloc :: "u64 \<Rightarrow> u64 \<Rightarrow> heap \<Rightarrow> (u64 \<times> (u64 \<times> u64 \<times> u64) option \<times> heap) option" where
  "rt_realloc rmem newsize h =
     (let newsize = RT_ALIGN newsize in
      if hp_size h < newsize then Some (0, None, h)
      else if newsize = 0 then do { h \<leftarrow> rt_free rmem h; Some (0, None, h) }
      else if rmem = 0 then do { (p, h) \<leftarrow> rt_malloc newsize h; Some (p, None, h) }
      else if rmem < hp_ptr h \<or> hp_ptr h + hp_end h \<le> rmem then Some (rmem, None, h)
      else if rmem < hp_ptr h + SIZEOF_STRUCT_MEM then None  \<comment> \<open>the header is read in front of the heap\<close>
      else let ptr = rmem - SIZEOF_STRUCT_MEM - hp_ptr h;
               sz = hb_next (blk h ptr) - ptr - SIZEOF_STRUCT_MEM
           in if sz = newsize then Some (rmem, None, h)
              else if newsize + SIZEOF_STRUCT_MEM + 24 < sz
              then do {
                h \<leftarrow> realloc_shrink newsize sz ptr h;
                Some (rmem, None, h) }
              else do {
                (nmem, h) \<leftarrow> rt_malloc newsize h;
                (if nmem \<noteq> 0
                 then do { h' \<leftarrow> rt_free rmem h;
                           Some (nmem, Some (nmem, rmem, if sz < newsize then sz else newsize), h') }
                 else Some (nmem, None, h)) })"

text \<open>The second component is the \<open>rt_memset\<close>: where, and how many bytes.\<close>

definition rt_calloc :: "u64 \<Rightarrow> u64 \<Rightarrow> heap \<Rightarrow> (u64 \<times> (u64 \<times> u64) option \<times> heap) option" where
  "rt_calloc count sz h =
     do { (p, h) \<leftarrow> rt_malloc (count * sz) h;
          Some (p, if p \<noteq> 0 then Some (p, count * sz) else None, h) }"

definition rt_memory_info :: "heap \<Rightarrow> u32 \<times> u32 \<times> u32" where
  "rt_memory_info h = (ucast (hp_size h), ucast (hp_used_mem h), ucast (hp_max_mem h))"


subsection \<open>The heap as a list of blocks\<close>

text \<open>A block is its extent, header included, and whether it is in use.\<close>

type_synonym blocks = "(nat \<times> bool) list"

definition total :: "blocks \<Rightarrow> nat" where
  "total bs = sum_list (map fst bs)"

definition hdr :: "(nat \<Rightarrow> heap_mem) \<Rightarrow> nat \<Rightarrow> nat \<Rightarrow> nat \<Rightarrow> bool \<Rightarrow> bool" where
  "hdr B p off n u \<longleftrightarrow> 24 \<le> n \<and> 8 dvd n \<and> hb_used (B off) = (if u then 1 else 0) \<and> hb_magic (B off) = HEAP_MAGIC \<and>
     unat (hb_next (B off)) = off + n \<and> unat (hb_prev (B off)) = p"

fun seg :: "(nat \<Rightarrow> heap_mem) \<Rightarrow> nat \<Rightarrow> nat \<Rightarrow> blocks \<Rightarrow> bool" where
  "seg B p off [] \<longleftrightarrow> True"
| "seg B p off ((n, u) # bs) \<longleftrightarrow> hdr B p off n u \<and> seg B off (off + n) bs"

text \<open>The offset of the last block of a list, the \<open>prev\<close> of what follows it.\<close>

definition last_off :: "nat \<Rightarrow> nat \<Rightarrow> blocks \<Rightarrow> nat" where
  "last_off p off bs = (if bs = [] then p else off + total (butlast bs))"

lemma total_simps [simp]:
  "total [] = 0" "total (b # bs) = fst b + total bs" "total (xs @ ys) = total xs + total ys"
  by (simp_all add: total_def)

lemma hseg_append: "seg B p off (xs @ ys) \<longleftrightarrow> seg B p off xs \<and> seg B (last_off p off xs) (off + total xs) ys"
proof (induction xs arbitrary: p off)
  case (Cons x xs)
  obtain n u where x: "x = (n, u)" by force
  have "last_off off (off + n) xs = last_off p off ((n, u) # xs)" by (cases xs) (simp_all add: last_off_def)
  then show ?case using Cons by (simp add: x add.assoc)
qed (simp add: last_off_def)

lemma seg_cong: "(\<And>x. off \<le> x \<Longrightarrow> x < off + total bs \<Longrightarrow> B' x = B x) \<Longrightarrow> seg B' p off bs = seg B p off bs"
proof (induction bs arbitrary: p off)
  case (Cons b bs)
  obtain n u where b: "b = (n, u)" by force
  show ?case
  proof (cases "24 \<le> n")
    case True
    have "seg B' off (off + n) bs = seg B off (off + n) bs" by (rule Cons.IH) (use Cons.prems b in auto)
    moreover have "B' off = B off" using Cons.prems b True by simp
    ultimately show ?thesis by (simp add: b hdr_def)
  qed (simp add: b hdr_def)
qed simp

text \<open>Only the \<open>prev\<close> of the first header depends on what lies in front.\<close>

lemma seg_prev:
  assumes "seg B p off bs" "B' off = (B off)\<lparr>hb_prev := q\<rparr> \<or> bs = []" "unat q = p'"
    "\<And>x. off < x \<Longrightarrow> x < off + total bs \<Longrightarrow> B' x = B x"
  shows "seg B' p' off bs"
proof (cases bs)
  case (Cons b bs')
  obtain n u where b: "b = (n, u)" by force
  have n: "24 \<le> n" using assms(1) Cons b by (simp add: hdr_def)
  have "seg B' off (off + n) bs' = seg B off (off + n) bs'" by (rule seg_cong) (use assms(4) Cons b n in auto)
  then show ?thesis using assms Cons b by (auto simp: hdr_def)
qed simp

definition heap_seg :: "heap \<Rightarrow> blocks \<Rightarrow> bool" where
  "heap_seg h bs \<longleftrightarrow> seg (hp_blk h) 0 0 bs \<and> total bs = unat (hp_end h) \<and> unat (hp_size h) + 24 = unat (hp_end h) \<and>
     unat (hp_ptr h) + unat (hp_end h) + 24 < 2 ^ 64 \<and> 8 dvd unat (hp_ptr h) \<and> hp_ptr h \<noteq> 0 \<and> hb_used (blk h (hp_end h)) = 1"

definition lfree_ok :: "heap \<Rightarrow> blocks \<Rightarrow> bool" where
  "lfree_ok h bs \<longleftrightarrow> unat (hp_lfree h) = total (takeWhile snd bs)"

definition used_total :: "blocks \<Rightarrow> nat" where
  "used_total bs = total (filter snd bs)"

fun coalesced :: "blocks \<Rightarrow> bool" where
  "coalesced (b # c # bs) \<longleftrightarrow> (snd b \<or> snd c) \<and> coalesced (c # bs)"
| "coalesced _ \<longleftrightarrow> True"

definition heap_ok :: "heap \<Rightarrow> blocks \<Rightarrow> bool" where
  "heap_ok h bs \<longleftrightarrow> heap_seg h bs \<and> lfree_ok h bs \<and> unat (hp_used_mem h) = used_total bs \<and> coalesced bs"

lemma total_filter_le: "total (filter P bs) \<le> total bs" "total (takeWhile P bs) \<le> total bs"
  by (induction bs) auto

text \<open>Where a block lies and what its header says.\<close>

lemma heap_seg_at:
  assumes "heap_seg h (pre @ (n, u) # post)"
  shows "hdr (hp_blk h) (last_off 0 0 pre) (total pre) n u" "total pre + n + total post = unat (hp_end h)"
    "seg (hp_blk h) (total pre) (total pre + n) post" "total pre + n < 2 ^ 64" "unat (of_nat (total pre) :: u64) = total pre"
    "unat (of_nat (total pre + n) :: u64) = total pre + n"
proof -
  show A: "hdr (hp_blk h) (last_off 0 0 pre) (total pre) n u" "seg (hp_blk h) (total pre) (total pre + n) post"
    using assms by (simp_all add: heap_seg_def hseg_append)
  show t: "total pre + n + total post = unat (hp_end h)" using assms by (simp add: heap_seg_def)
  have "unat (hp_end h) < 2 ^ LENGTH(64)" by (rule unsigned_less)
  then show l: "total pre + n < 2 ^ 64" using t by simp
  then show "unat (of_nat (total pre) :: u64) = total pre" "unat (of_nat (total pre + n) :: u64) = total pre + n"
    by (simp_all only: unat_of_nat) (use l in \<open>simp_all add: take_bit_nat_eq_self\<close>)
qed

subsection \<open>Splitting and merging blocks\<close>

lemma upd_blk_simps [simp]:
  "hp_ptr (upd_blk p f h) = hp_ptr h" "hp_end (upd_blk p f h) = hp_end h" "hp_lfree (upd_blk p f h) = hp_lfree h"
  "hp_size (upd_blk p f h) = hp_size h" "hp_used_mem (upd_blk p f h) = hp_used_mem h" "hp_max_mem (upd_blk p f h) = hp_max_mem h"
  "hp_blk (upd_blk p f h) = (hp_blk h)(unat p := f (blk h p))"
  by (simp_all add: upd_blk_def)

lemma heap_seg_intro:
  assumes "heap_seg h bs" "seg (hp_blk h') 0 0 bs'" "total bs' = total bs"
    "hp_end h' = hp_end h" "hp_size h' = hp_size h" "hp_ptr h' = hp_ptr h" "hb_used (blk h' (hp_end h)) = hb_used (blk h (hp_end h))"
  shows "heap_seg h' bs'"
proof -
  have "total bs = unat (hp_end h)" using assms(1) unfolding heap_seg_def by blast
  then have "total bs' = unat (hp_end h')" by (simp only: assms(3,4))
  moreover have "hb_used (blk h' (hp_end h)) = 1" using assms(1,7) unfolding heap_seg_def by (elim conjE) (rule trans)
  ultimately show ?thesis using assms(1,2) unfolding heap_seg_def assms(4-6) by blast
qed

text \<open>Two neighbouring free blocks become one.\<close>

definition merge_blk :: "u64 \<Rightarrow> u64 \<Rightarrow> heap \<Rightarrow> heap" where
  "merge_blk a b h = (let h = upd_blk a (\<lambda>x. x\<lparr>hb_next := hb_next (blk h b)\<rparr>) h
                  in upd_blk (hb_next (blk h b)) (\<lambda>x. x\<lparr>hb_prev := a\<rparr>) h)"

lemma merge_blk_ok:
  assumes seg: "heap_seg h (pre @ (n, False) # (m, False) # post)" and a: "unat a = total pre" and b: "unat b = total pre + n"
  shows "heap_seg (merge_blk a b h) (pre @ (n + m, False) # post)"
proof -
  let ?B = "hp_blk h" and ?o = "total pre"
  note A = heap_seg_at [OF seg]
  have H: "hdr ?B (last_off 0 0 pre) ?o n False" "hdr ?B ?o (?o + n) m False" "seg ?B (?o + n) (?o + n + m) post"
    using A(1,3) by simp_all
  have pr: "seg ?B 0 0 pre" using seg by (simp add: heap_seg_def hseg_append)
  let ?nx = "hb_next (blk h b)"
  have nx: "unat ?nx = ?o + n + m" using H(2) b by (simp add: hdr_def)
  have ab: "unat a \<noteq> unat b" using a b H(1) by (simp add: hdr_def)
  let ?B' = "hp_blk (merge_blk a b h)"
  have B': "?B' = (?B(?o := (?B ?o)\<lparr>hb_next := ?nx\<rparr>))(?o + n + m := (?B (?o + n + m))\<lparr>hb_prev := a\<rparr>)"
    using ab a b nx H(1,2) by (auto simp: merge_blk_def hdr_def fun_eq_iff)
  have n0: "24 \<le> n" "24 \<le> m" using H(1,2) by (simp_all add: hdr_def)
  have "seg ?B' 0 0 (pre @ (n + m, False) # post)"
    unfolding hseg_append seg.simps
  proof (intro conjI)
    show "seg ?B' 0 0 pre" using pr by (subst seg_cong [of _ _ _ ?B]) (auto simp: B')
    show "hdr ?B' (last_off 0 0 pre) (0 + total pre) (n + m) False"
      using H(1,2) n0 nx by (simp add: B' hdr_def)
    have "seg ?B' ?o (?o + n + m) post"
      by (rule seg_prev [OF H(3), of _ a]) (use a n0 in \<open>auto simp: B'\<close>)
    then show "seg ?B' (0 + total pre) (0 + total pre + (n + m)) post" by (simp add: add.assoc)
  qed
  moreover have "hb_used (blk (merge_blk a b h) (hp_end h)) = hb_used (blk h (hp_end h))"
  proof -
    have "unat (hp_end h) \<noteq> ?o" using A(2) n0 by simp
    then show ?thesis by (auto simp: B')
  qed
  ultimately show ?thesis by (intro heap_seg_intro [OF seg]) (simp_all add: merge_blk_def Let_def)
qed

text \<open>A block is cut in two; what is left becomes a free block.\<close>

definition split_blk :: "u64 \<Rightarrow> u64 \<Rightarrow> u16 \<Rightarrow> heap \<Rightarrow> heap" where
  "split_blk a b v h =
     (let h = upd_blk b (\<lambda>x. x\<lparr>hb_magic := HEAP_MAGIC, hb_used := 0, hb_next := hb_next (blk h a), hb_prev := a\<rparr>) h;
          h = upd_blk a (\<lambda>x. x\<lparr>hb_next := b, hb_used := v\<rparr>) h
      in if hb_next (blk h b) \<noteq> hp_size h + SIZEOF_STRUCT_MEM
         then upd_blk (hb_next (blk h b)) (\<lambda>x. x\<lparr>hb_prev := b\<rparr>) h else h)"

lemma split_blk_simps [simp]:
  "hp_ptr (split_blk a b v h) = hp_ptr h" "hp_end (split_blk a b v h) = hp_end h" "hp_lfree (split_blk a b v h) = hp_lfree h"
  "hp_size (split_blk a b v h) = hp_size h" "hp_used_mem (split_blk a b v h) = hp_used_mem h"
  "hp_max_mem (split_blk a b v h) = hp_max_mem h"
  by (simp_all add: split_blk_def Let_def)

lemma merge_blk_simps [simp]:
  "hp_ptr (merge_blk a b h) = hp_ptr h" "hp_end (merge_blk a b h) = hp_end h" "hp_lfree (merge_blk a b h) = hp_lfree h"
  "hp_size (merge_blk a b h) = hp_size h" "hp_used_mem (merge_blk a b h) = hp_used_mem h"
  "hp_max_mem (merge_blk a b h) = hp_max_mem h"
  by (simp_all add: merge_blk_def Let_def)

lemma split_blk_ok:
  assumes seg: "heap_seg h (pre @ (n, u) # post)" and a: "unat a = total pre" and b: "unat b = total pre + k"
    and k: "24 \<le> k" "k + 24 \<le> n" "8 dvd k" and v: "v = (if w then 1 else 0)"
  shows "heap_seg (split_blk a b v h) (pre @ (k, w) # (n - k, False) # post)"
proof -
  let ?B = "hp_blk h" and ?o = "total pre"
  note A = heap_seg_at [OF seg]
  have pr: "seg ?B 0 0 pre" using seg by (simp add: heap_seg_def hseg_append)
  have ab: "unat a \<noteq> unat b" using a b k by simp
  let ?nx = "hb_next (blk h a)"
  have nx: "unat ?nx = ?o + n" using A(1) a by (simp add: hdr_def)
  have se: "?nx = hp_size h + SIZEOF_STRUCT_MEM \<longleftrightarrow> post = []"
  proof -
    have e: "hp_end h = hp_size h + 24"
      using seg unfolding heap_seg_def by (intro word_unat_eq_iff [THEN iffD2]) (simp add: unat_word_ariths)
    have "post = [] \<longleftrightarrow> total post = 0" using A(3) by (cases post) (auto simp: hdr_def)
    also have "\<dots> \<longleftrightarrow> unat ?nx = unat (hp_end h)" unfolding A(2) [symmetric] nx by simp
    finally show ?thesis by (simp only: e word_unat_eq_iff)
  qed
  let ?B1 = "?B(?o + k := (?B (?o + k))\<lparr>hb_magic := HEAP_MAGIC, hb_used := 0, hb_next := ?nx, hb_prev := a\<rparr>,
      ?o := (?B ?o)\<lparr>hb_next := b, hb_used := v\<rparr>)"
  let ?B' = "hp_blk (split_blk a b v h)"
  have B': "?B' = (if post = [] then ?B1 else ?B1(?o + n := (?B (?o + n))\<lparr>hb_prev := b\<rparr>))"
    using ab a b nx k se by (auto simp: split_blk_def Let_def fun_eq_iff)
  have dv: "8 dvd n - k" using A(1) k by (simp add: hdr_def)
  have "seg ?B' 0 0 (pre @ (k, w) # (n - k, False) # post)"
    unfolding hseg_append seg.simps
  proof (intro conjI)
    show "seg ?B' 0 0 pre" unfolding B' using pr k by (subst seg_cong [of _ _ _ ?B]) auto
    show "hdr ?B' (last_off 0 0 pre) (0 + total pre) k w"
      unfolding B' using A(1) k b v by (auto simp: hdr_def)
    show "hdr ?B' (0 + total pre) (0 + total pre + k) (n - k) False"
      unfolding B' using A(1) k a b nx dv by (auto simp: hdr_def)
    have "seg ?B' (?o + k) (?o + n) post"
      by (rule seg_prev [OF A(3), of _ b]) (unfold B', use b k in auto)
    then show "seg ?B' (0 + total pre + k) (0 + total pre + k + (n - k)) post" using k by simp
  qed
  moreover have "hb_used (blk (split_blk a b v h) (hp_end h)) = hb_used (blk h (hp_end h))"
  proof -
    have "unat (hp_end h) \<noteq> ?o" "unat (hp_end h) \<noteq> ?o + k" using A(2) k by simp_all
    then show ?thesis unfolding B' by auto
  qed
  ultimately show ?thesis using k by (intro heap_seg_intro [OF seg]) simp_all
qed

text \<open>Only the flag of a block changes.\<close>

lemma flag_blk_ok:
  assumes seg: "heap_seg h (pre @ (n, u) # post)" and a: "unat a = total pre"
    and f: "f (blk h a) = (blk h a)\<lparr>hb_used := if w then 1 else 0\<rparr>"
  shows "heap_seg (upd_blk a f h) (pre @ (n, w) # post)"
proof -
  let ?B = "hp_blk h" and ?o = "total pre"
  note A = heap_seg_at [OF seg]
  have pr: "seg ?B 0 0 pre" using seg by (simp add: heap_seg_def hseg_append)
  have n: "24 \<le> n" using A(1) by (simp add: hdr_def)
  let ?B' = "hp_blk (upd_blk a f h)"
  have B': "?B' = ?B(?o := (?B ?o)\<lparr>hb_used := if w then 1 else 0\<rparr>)" using a f by simp
  have "seg ?B' 0 0 (pre @ (n, w) # post)"
    unfolding hseg_append seg.simps
  proof (intro conjI)
    show "seg ?B' 0 0 pre" using pr by (subst seg_cong [of _ _ _ ?B]) (simp_all del: upd_blk_simps add: B')
    show "hdr ?B' (last_off 0 0 pre) (0 + total pre) n w" using A(1) by (simp del: upd_blk_simps add: B' hdr_def)
    show "seg ?B' (0 + total pre) (0 + total pre + n) post" using A(3) n by (subst seg_cong [of _ _ _ ?B]) (simp_all del: upd_blk_simps add: B')
  qed
  moreover have "hb_used (blk (upd_blk a f h) (hp_end h)) = hb_used (blk h (hp_end h))"
  proof -
    have "unat (hp_end h) \<noteq> ?o" using A(2) n by simp
    then show ?thesis by (simp only: B' fun_upd_apply if_False)
  qed
  ultimately show ?thesis by (intro heap_seg_intro [OF seg]) simp_all
qed

text \<open>Neighbouring free blocks become one.\<close>

fun coalesce :: "blocks \<Rightarrow> blocks" where
  "coalesce ((n, False) # (m, False) # bs) = coalesce ((n + m, False) # bs)"
| "coalesce (b # bs) = b # coalesce bs"
| "coalesce [] = []"

lemma coalesced_Cons: "coalesced (b # bs) \<longleftrightarrow> coalesced bs \<and> (snd b \<or> bs = [] \<or> snd (hd bs))"
  by (cases bs) auto

lemma coalesce_id: "coalesced bs \<Longrightarrow> coalesce bs = bs"
  by (induction bs rule: coalesce.induct) (auto simp: coalesced_Cons)

lemma coalesced_append:
  "coalesced (xs @ ys) \<longleftrightarrow> coalesced xs \<and> coalesced ys \<and> (xs = [] \<or> ys = [] \<or> snd (last xs) \<or> snd (hd ys))"
  by (induction xs) (auto simp: coalesced_Cons)

lemma hd_coalesce: "bs \<noteq> [] \<Longrightarrow> coalesce bs \<noteq> [] \<and> snd (hd (coalesce bs)) = snd (hd bs)"
  by (induction bs rule: coalesce.induct) auto

lemma coalesced_coalesce: "coalesced (coalesce bs)"
  by (induction bs rule: coalesce.induct) (auto simp: coalesced_Cons hd_coalesce)

lemma coalesce_total [simp]:
  "total (coalesce bs) = total bs" "used_total (coalesce bs) = used_total bs"
  "total (takeWhile snd (coalesce bs)) = total (takeWhile snd bs)"
  by (induction bs rule: coalesce.induct) (auto simp: used_total_def)

lemma coalesce_append_used:
  "coalesced pre \<Longrightarrow> pre = [] \<or> snd (last pre) \<Longrightarrow> coalesce (pre @ ys) = pre @ coalesce ys"
  by (induction pre rule: coalesce.induct) (auto simp: coalesced_Cons split: if_splits)

lemma coalesce_append_free:
  "coalesced (pre @ [(k, False)]) \<Longrightarrow> coalesce (pre @ (k, False) # ys) = pre @ coalesce ((k, False) # ys)"
  by (rule coalesce_append_used) (auto simp: coalesced_append)

lemma coalesce_free_free: "coalesced ((m, False) # bs) \<Longrightarrow> coalesce ((n, False) # (m, False) # bs) = (n + m, False) # bs"
  by (cases bs) (auto simp: coalesce_id)

lemma coalesce_free_used: "coalesced bs \<Longrightarrow> bs = [] \<or> snd (hd bs) \<Longrightarrow> coalesce ((n, False) # bs) = (n, False) # bs"
  by (cases bs) (auto simp: coalesce_id)

lemma coalesce_grow:
  "coalesce ((n, False) # bs) = (n', False) # bs' \<Longrightarrow> coalesce ((k + n, False) # bs) = (k + n', False) # bs'"
proof (induction bs arbitrary: n)
  case (Cons b bs)
  obtain m u where b: "b = (m, u)" by force
  show ?case using Cons.IH [of "n + m"] Cons.prems by (cases u) (auto simp: b add.assoc)
qed simp

lemma takeWhile_free_le: "total (takeWhile snd (xs @ (k, False) # ys)) \<le> total xs"
  by (induction xs) auto

definition same_frame :: "heap \<Rightarrow> heap \<Rightarrow> bool" where
  "same_frame h h' \<longleftrightarrow> hp_ptr h' = hp_ptr h \<and> hp_end h' = hp_end h \<and> hp_size h' = hp_size h"

lemma plug_forward_ok:
  assumes seg: "heap_seg h (pre @ (n, False) # post)" and c: "coalesced post" and m: "unat mem = total pre"
    and lf: "unat (hp_lfree h) \<le> total pre"
  obtains n' post' where "coalesce ((n, False) # post) = (n', False) # post'" "heap_seg (plug_forward mem h) (pre @ (n', False) # post')"
    "same_frame h (plug_forward mem h)" "hp_lfree (plug_forward mem h) = hp_lfree h" "hp_used_mem (plug_forward mem h) = hp_used_mem h"
    "hp_max_mem (plug_forward mem h) = hp_max_mem h"
proof -
  note A = heap_seg_at [OF seg]
  let ?nm = "hb_next (blk h mem)"
  have nm: "unat ?nm = total pre + n" and n: "24 \<le> n" using A(1) m by (simp_all add: hdr_def)
  have ne: "mem \<noteq> ?nm" "hp_lfree h \<noteq> ?nm" using nm m n lf by auto
  show thesis
  proof (cases "post \<noteq> [] \<and> \<not> snd (hd post)")
    case True
    then obtain k post' where post: "post = (k, False) # post'" by (cases post) auto
    have H: "hdr (hp_blk h) (total pre) (total pre + n) k False" using A(3) post by simp
    have "?nm \<noteq> hp_end h" using A(2) nm H post by (auto simp: hdr_def)
    moreover have "hb_used (blk h ?nm) = 0" using H nm by (simp add: hdr_def)
    ultimately have e: "plug_forward mem h = merge_blk mem ?nm h" using ne by (simp add: plug_forward_def merge_blk_def Let_def)
    show thesis
    proof (rule that [of "n + k" post'])
      show "coalesce ((n, False) # post) = (n + k, False) # post'" using c post by (simp only: coalesce_free_free)
      show "heap_seg (plug_forward mem h) (pre @ (n + k, False) # post')"
        unfolding e by (rule merge_blk_ok) (use seg post m nm in simp_all)
    qed (simp_all add: e same_frame_def)
  next
    case False
    then have "hb_used (blk h ?nm) = 1"
    proof (cases post)
      case Nil
      then have "?nm = hp_end h" using A(2) nm by (intro word_unat_eq_iff [THEN iffD2]) simp
      moreover have "hb_used (blk h (hp_end h)) = 1" using seg unfolding heap_seg_def by blast
      ultimately show ?thesis by (simp only:)
    next
      case (Cons b bs)
      obtain k u where b: "b = (k, u)" by force
      show ?thesis using False A(3) Cons nm by (simp add: b hdr_def)
    qed
    then have e: "plug_forward mem h = h" by (simp add: plug_forward_def)
    show thesis
      by (rule that [of n post]) (use False c seg in \<open>auto simp: e same_frame_def intro: coalesce_free_used\<close>)
  qed
qed

lemma plug_backward_ok:
  assumes seg: "heap_seg h (pre @ (n, False) # post)" and c: "coalesced pre" and m: "unat mem = total pre"
    and lf: "unat (hp_lfree h) = total (takeWhile snd (pre @ (n, False) # post))" and d: "coalesce ((n, False) # post) = (n, False) # post"
  shows "heap_seg (plug_backward mem h) (coalesce (pre @ (n, False) # post))"
    "same_frame h (plug_backward mem h)" "hp_lfree (plug_backward mem h) = hp_lfree h" "hp_used_mem (plug_backward mem h) = hp_used_mem h"
    "hp_max_mem (plug_backward mem h) = hp_max_mem h"
proof -
  note A = heap_seg_at [OF seg]
  let ?pm = "hb_prev (blk h mem)"
  have pm: "unat ?pm = last_off 0 0 pre" using A(1) m by (simp add: hdr_def)
  have "heap_seg (plug_backward mem h) (coalesce (pre @ (n, False) # post)) \<and>
    same_frame h (plug_backward mem h) \<and> hp_lfree (plug_backward mem h) = hp_lfree h \<and> hp_used_mem (plug_backward mem h) = hp_used_mem h
    \<and> hp_max_mem (plug_backward mem h) = hp_max_mem h"
  proof (cases pre rule: rev_cases)
    case Nil
    then have "?pm = mem" using pm m by (auto simp: word_unat_eq_iff last_off_def)
    then have "plug_backward mem h = h" by (simp add: plug_backward_def)
    then show ?thesis using Nil seg d by (simp add: same_frame_def)
  next
    case (snoc pre' b)
    obtain k u where b: "b = (k, u)" by force
    have pmo: "unat ?pm = total pre'" using pm by (simp add: snoc last_off_def)
    have seg': "heap_seg h (pre' @ (k, u) # (n, False) # post)" using seg by (simp add: snoc b)
    have H: "hdr (hp_blk h) (last_off 0 0 pre') (total pre') k u" using heap_seg_at(1) [OF seg'] .
    have ne: "?pm \<noteq> mem" using pmo m H by (auto simp: snoc b hdr_def)
    show ?thesis
    proof (cases u)
      case True
      then have e: "plug_backward mem h = h" using H pmo by (simp add: plug_backward_def hdr_def)
      have "coalesce (pre @ (n, False) # post) = pre @ (n, False) # post"
        using True c d by (subst coalesce_append_used) (simp_all add: snoc b)
      then show ?thesis using seg by (simp add: e same_frame_def)
    next
      case False
      have "unat (hp_lfree h) \<le> total pre'"
        unfolding lf using takeWhile_free_le [of pre' k] by (simp add: snoc b False)
      then have "hp_lfree h \<noteq> mem" using m H by (auto simp: snoc b hdr_def)
      moreover have "hb_used (blk h ?pm) = 0" using H pmo False by (simp add: hdr_def)
      ultimately have e: "plug_backward mem h = merge_blk ?pm mem h" using ne by (simp add: plug_backward_def merge_blk_def Let_def)
      have d': "coalesced ((n, False) # post)" using coalesced_coalesce [of "(n, False) # post"] unfolding d .
      have co: "coalesce (pre @ (n, False) # post) = pre' @ (k + n, False) # post"
        using c coalesce_append_free [of pre' k] coalesce_free_free [OF d'] by (simp add: snoc b False)
      have "heap_seg (merge_blk ?pm mem h) (pre' @ (k + n, False) # post)"
        by (rule merge_blk_ok) (use seg' False pmo m in \<open>simp_all add: snoc b\<close>)
      then show ?thesis by (simp add: e co same_frame_def)
    qed
  qed
  then show "heap_seg (plug_backward mem h) (coalesce (pre @ (n, False) # post))"
    "same_frame h (plug_backward mem h)" "hp_lfree (plug_backward mem h) = hp_lfree h" "hp_used_mem (plug_backward mem h) = hp_used_mem h"
    "hp_max_mem (plug_backward mem h) = hp_max_mem h" by simp_all
qed

lemma plug_holes_ok:
  assumes seg: "heap_seg h (pre @ (n, False) # post)" and c: "coalesced pre" "coalesced post" and m: "unat mem = total pre"
    and lf: "lfree_ok h (pre @ (n, False) # post)"
  obtains h' where "plug_holes mem h = Some h'" "heap_seg h' (coalesce (pre @ (n, False) # post))"
    "lfree_ok h' (coalesce (pre @ (n, False) # post))" "same_frame h h'" "hp_used_mem h' = hp_used_mem h" "hp_max_mem h' = hp_max_mem h"
proof -
  note A = heap_seg_at [OF seg]
  have lf1: "unat (hp_lfree h) = total (takeWhile snd (pre @ (n, False) # post))" using lf by (simp add: lfree_ok_def)
  have le: "unat (hp_lfree h) \<le> total pre"
    unfolding lf1 by (rule takeWhile_free_le)
  obtain n' post' where F: "coalesce ((n, False) # post) = (n', False) # post'"
      "heap_seg (plug_forward mem h) (pre @ (n', False) # post')"
      "same_frame h (plug_forward mem h)" "hp_lfree (plug_forward mem h) = hp_lfree h" "hp_used_mem (plug_forward mem h) = hp_used_mem h"
      "hp_max_mem (plug_forward mem h) = hp_max_mem h"
    by (rule plug_forward_ok [OF seg c(2) m le])
  have co: "coalesce ((n', False) # post') = (n', False) # post'"
    unfolding F(1) [symmetric] by (rule coalesce_id [OF coalesced_coalesce])
  have tw: "takeWhile snd (pre @ (n', False) # post') = takeWhile snd (pre @ (n, False) # post)"
    by (simp add: takeWhile_append)
  have cc: "coalesce (pre @ (n', False) # post') = coalesce (pre @ (n, False) # post)"
  proof (cases pre rule: rev_cases)
    case (snoc pre' b)
    obtain k u where b: "b = (k, u)" by force
    show ?thesis
    proof (cases u)
      case False
      have "coalesce ((k, False) # (n', False) # post') = coalesce ((k, False) # (n, False) # post)"
        using coalesce_grow [OF F(1)] coalesced_coalesce [of "(n, False) # post"] unfolding F(1)
        by (simp add: coalesced_Cons coalesce_id)
      then show ?thesis using c coalesce_append_free [of pre' k] by (simp add: snoc b False)
    qed (use c co F(1) coalesce_append_used [of pre] in \<open>simp add: snoc b\<close>)
  qed (simp only: append_Nil co F(1))
  have lf2: "unat (hp_lfree (plug_forward mem h)) = total (takeWhile snd (pre @ (n', False) # post'))"
    by (simp only: F(4) tw lf1)
  note B = plug_backward_ok [OF F(2) c(1) m lf2 co, unfolded cc]
  have "mem < hp_end h" using A(1,2) m by (simp add: hdr_def word_less_nat_alt)
  moreover have "hb_used (blk h mem) = 0" using A(1) m by (simp add: hdr_def)
  ultimately have e: "plug_holes mem h = Some (plug_backward mem (plug_forward mem h))" by (simp add: plug_holes_def)
  show thesis
    by (rule that [OF e B(1)]) (use lf1 B(2-5) F(3-6) in \<open>simp_all add: lfree_ok_def same_frame_def\<close>)
qed

lemma and_mask_unat: "unat (w AND mask n) = unat (w :: 'a::len word) mod 2 ^ n"
  by (simp only: take_bit_eq_mask [symmetric] unsigned_take_bit_eq) (simp add: take_bit_eq_mod)

text \<open>The pointer handed out for the block at an offset.\<close>

definition user_ptr :: "heap \<Rightarrow> nat \<Rightarrow> u64" where
  "user_ptr h off = hp_ptr h + of_nat off + SIZEOF_STRUCT_MEM"

lemma heap_segD:
  assumes "heap_seg h bs"
  shows "total bs = unat (hp_end h)" "unat (hp_size h) + 24 = unat (hp_end h)" "unat (hp_ptr h) + unat (hp_end h) + 24 < 2 ^ 64"
    "8 dvd unat (hp_ptr h)" "hp_ptr h \<noteq> 0" "hb_used (blk h (hp_end h)) = 1"
  using assms unfolding heap_seg_def by blast+

lemma seg_dvd: "seg B p off bs \<Longrightarrow> 8 dvd total bs"
  by (induction bs arbitrary: p off) (auto simp: hdr_def)

lemma user_ptr_facts:
  assumes "heap_seg h (pre @ (n, u) # post)"
  shows "unat (user_ptr h (total pre)) = unat (hp_ptr h) + total pre + 24"
    "user_ptr h (total pre) \<noteq> 0" "user_ptr h (total pre) AND 7 = 0" "user_ptr h (total pre) mod 8 = 0"
    "user_ptr h (total pre) - SIZEOF_STRUCT_MEM - hp_ptr h = of_nat (total pre)"
    "hp_ptr h \<le> user_ptr h (total pre)" "hp_ptr h + SIZEOF_STRUCT_MEM \<le> user_ptr h (total pre)"
    "24 < n \<Longrightarrow> user_ptr h (total pre) < hp_ptr h + hp_end h"
proof -
  note A = heap_seg_at [OF assms] and D = heap_segD [OF assms]
  have o: "unat (of_nat (total pre) :: u64) = total pre" by (rule A(5))
  have l: "unat (hp_ptr h) + total pre + 24 < 2 ^ 64" using A(2) D(3) by simp
  have 1: "unat (hp_ptr h + of_nat (total pre)) = unat (hp_ptr h) + total pre"
    using l o by (subst unat_add_lem [THEN iffD1]) simp_all
  show 2: "unat (user_ptr h (total pre)) = unat (hp_ptr h) + total pre + 24"
    unfolding user_ptr_def using l 1 by (subst unat_add_lem [THEN iffD1]) simp_all
  have d: "8 dvd total pre" using assms seg_dvd [of "hp_blk h" 0 0 pre] by (simp add: heap_seg_def hseg_append)
  then have m: "unat (user_ptr h (total pre)) mod 8 = 0" unfolding 2 using D(4) by (simp add: dvd_eq_mod_eq_0 [symmetric])
  then show "user_ptr h (total pre) mod 8 = 0" by (simp add: word_unat_eq_iff unat_mod)
  show "user_ptr h (total pre) AND 7 = 0"
    using m and_mask_unat [of "user_ptr h (total pre)" 3] by (simp add: mask_eq_exp_minus_1 word_unat_eq_iff)
  show "user_ptr h (total pre) \<noteq> 0" using 2 by (auto simp: word_unat_eq_iff)
  show "user_ptr h (total pre) - SIZEOF_STRUCT_MEM - hp_ptr h = of_nat (total pre)" by (simp add: user_ptr_def)
  show "hp_ptr h \<le> user_ptr h (total pre)" using 2 by (simp add: word_le_nat_alt)
  have "unat (hp_ptr h + 24) = unat (hp_ptr h) + 24" using l by (subst unat_add_lem [THEN iffD1]) simp_all
  then show "hp_ptr h + SIZEOF_STRUCT_MEM \<le> user_ptr h (total pre)" using 2 by (simp add: word_le_nat_alt)
  have "unat (hp_ptr h + hp_end h) = unat (hp_ptr h) + unat (hp_end h)"
    using D(3) by (subst unat_add_lem [THEN iffD1]) simp_all
  then show "24 < n \<Longrightarrow> user_ptr h (total pre) < hp_ptr h + hp_end h" using 2 A(2) by (simp add: word_less_nat_alt)
qed

lemma used_total_simps [simp]:
  "used_total [] = 0" "used_total (b # bs) = (if snd b then fst b else 0) + used_total bs"
  "used_total (xs @ ys) = used_total xs + used_total ys"
  by (simp_all add: used_total_def)

text \<open>The lowest free block when one more is freed.\<close>

lemma takeWhile_freed:
  assumes "24 \<le> n"
  shows "total (takeWhile snd (pre @ (n, False) # post)) =
    (if total pre < total (takeWhile snd (pre @ (n, True) # post)) then total pre else total (takeWhile snd (pre @ (n, True) # post)))"
proof (cases "\<forall>x\<in>set pre. snd x")
  case True
  then show ?thesis using assms by simp
next
  case False
  then obtain xs k ys where e: "pre = xs @ (k, False) # ys" by (metis split_list snd_conv surj_pair)
  have "takeWhile snd (pre @ (n, False) # post) = takeWhile snd (pre @ (n, True) # post)"
    unfolding e by (simp add: takeWhile_append)
  moreover have "total (takeWhile snd (pre @ (n, True) # post)) \<le> total pre"
    using takeWhile_free_le [of xs k "ys @ (n, True) # post"] by (simp add: e)
  ultimately show ?thesis by simp
qed

lemma rt_free_ok:
  assumes ok: "heap_ok h (pre @ (n, True) # post)" and n: "24 < n"
  obtains h' where "rt_free (user_ptr h (total pre)) h = Some h'" "heap_ok h' (coalesce (pre @ (n, False) # post))" "same_frame h h'"
proof -
  let ?bs = "pre @ (n, True) # post" and ?fs = "pre @ (n, False) # post"
  let ?p = "user_ptr h (total pre)" and ?m = "of_nat (total pre) :: u64"
  have seg: "heap_seg h ?bs" and lf: "lfree_ok h ?bs" and um: "unat (hp_used_mem h) = used_total ?bs" and co: "coalesced ?bs"
    using ok by (simp_all add: heap_ok_def)
  note A = heap_seg_at [OF seg] and U = user_ptr_facts [OF seg]
  let ?f = "\<lambda>b. b\<lparr>hb_used := 0, hb_magic := HEAP_MAGIC\<rparr>"
  have H: "hb_used (blk h ?m) = 1" "hb_magic (blk h ?m) = HEAP_MAGIC" using A(1,5) by (simp_all add: hdr_def)
  have "?f (blk h ?m) = (blk h ?m)\<lparr>hb_used := if False then 1 else 0\<rparr>" using H(2) by simp
  then have s1: "heap_seg (upd_blk ?m ?f h) ?fs" by (rule flag_blk_ok [OF seg A(5), of ?f False])
  define h2 where "h2 = (if ?m < hp_lfree h then (upd_blk ?m ?f h)\<lparr>hp_lfree := ?m\<rparr> else upd_blk ?m ?f h)"
  define h3 where "h3 = h2\<lparr>hp_used_mem := hp_used_mem h2 - (hb_next (blk h2 ?m) - ?m)\<rparr>"
  have s3: "heap_seg h3 ?fs" by (rule heap_seg_intro [OF s1]) (use s1 in \<open>simp_all add: h3_def h2_def heap_seg_def\<close>)
  have fr: "same_frame h h3" by (simp add: h3_def h2_def same_frame_def)
  have tw: "total (takeWhile snd ?fs) = (if total pre < unat (hp_lfree h) then total pre else unat (hp_lfree h))"
    using takeWhile_freed [of n pre post] A(1) lf by (simp add: lfree_ok_def hdr_def)
  have l3: "lfree_ok h3 ?fs" using A(5) unfolding lfree_ok_def tw by (simp add: h3_def h2_def word_less_nat_alt)
  have "hb_next (blk h2 ?m) = hb_next (blk h ?m)" by (simp add: h2_def)
  then have "unat (hb_next (blk h2 ?m)) = total pre + n" using A(1,5) by (simp add: hdr_def)
  then have "unat (hb_next (blk h2 ?m) - ?m) = n" using A(5) by (subst unat_sub) (simp_all add: word_le_nat_alt)
  then have "unat (hp_used_mem h2 - (hb_next (blk h2 ?m) - ?m)) = unat (hp_used_mem h2) - n"
    using um by (subst unat_sub) (simp_all add: h2_def word_le_nat_alt)
  then have u3: "unat (hp_used_mem h3) = used_total ?fs" using um by (simp add: h3_def) (simp add: h2_def)
  have cp: "coalesced pre" "coalesced post" using co by (simp_all add: coalesced_append coalesced_Cons)
  obtain h' where h': "plug_holes ?m h3 = Some h'" "heap_seg h' (coalesce ?fs)" "lfree_ok h' (coalesce ?fs)" "same_frame h3 h'"
      "hp_used_mem h' = hp_used_mem h3" "hp_max_mem h' = hp_max_mem h3"
    by (rule plug_holes_ok [OF s3 cp A(5) l3])
  have "rt_free ?p h = Some h'"
    using U(2,3,5,6,7) U(8) [OF n] H h'(1) unfolding h3_def h2_def by (simp add: rt_free_def Let_def)
  moreover have "heap_ok h' (coalesce ?fs)" using h' u3 by (simp add: heap_ok_def coalesced_coalesce)
  moreover have "same_frame h h'" using fr h'(4) by (simp add: same_frame_def)
  ultimately show thesis by (rule that)
qed

end
