(* ===== verification/SmallMemAlloc.thy ===== *)
theory SmallMemAlloc
  imports SmallMem
begin

section \<open>Allocation is first fit over the list of blocks\<close>

text \<open>
  \<open>first_fit\<close> is the allocator over the abstract list of blocks; the search loop of \<open>rt_malloc\<close>, the
  cut of the block it finds and the walk of \<open>lfree\<close> are shown to implement it.
\<close>

text \<open>
  The allocator over the block list: the first free block that starts below \<open>lim\<close> and holds \<open>sz\<close>
  bytes behind its header is taken, and cut when what is left can hold a block of the least size.
\<close>

definition carve :: "nat \<Rightarrow> nat \<Rightarrow> blocks" where
  "carve sz n = (if sz + 72 \<le> n then [(sz + 24, True), (n - sz - 24, False)] else [(n, True)])"

fun first_fit :: "nat \<Rightarrow> nat \<Rightarrow> nat \<Rightarrow> blocks \<Rightarrow> (nat \<times> blocks) option" where
  "first_fit sz lim off [] = None"
| "first_fit sz lim off ((n, u) # bs) =
     (if lim \<le> off then None
      else if \<not> u \<and> sz + 24 \<le> n then Some (off, carve sz n @ bs)
      else map_option (\<lambda>(x, bs'). (x, (n, u) # bs')) (first_fit sz lim (off + n) bs))"

lemma first_fit_skip:
  "\<forall>x\<in>set us. snd x \<Longrightarrow>
   first_fit sz lim off (us @ bs) = map_option (\<lambda>(x, bs'). (x, us @ bs')) (first_fit sz lim (off + total us) bs)"
proof (induction us arbitrary: off)
  case Nil
  show ?case by (cases "first_fit sz lim off bs") auto
next
  case (Cons b us)
  obtain n u where b: "b = (n, u)" by force
  have late: "lim \<le> x \<Longrightarrow> first_fit sz lim x bs = None" for x by (cases bs) auto
  show ?case using Cons.IH [of "off + n"] Cons.prems late [of "off + (n + total us)"]
    by (auto simp: b add.assoc option.map_comp comp_def case_prod_unfold)
qed

lemma total_carve: "sz + 24 \<le> n \<Longrightarrow> total (carve sz n) = n"
  by (simp add: carve_def)

lemma skip_used_ok:
  "heap_seg h (pre @ post) \<Longrightarrow> unat (hp_lfree h) = total pre \<Longrightarrow>
   skip_used h = Some (h\<lparr>hp_lfree := of_nat (total pre + total (takeWhile snd post))\<rparr>)"
proof (induction post arbitrary: h pre)
  case Nil
  have "hp_lfree h = hp_end h" using Nil heap_segD(1) [OF Nil(1)] by (simp add: word_unat_eq_iff)
  moreover have "h = h\<lparr>hp_lfree := of_nat (total pre)\<rparr>"
    by (simp add: Nil(2) [symmetric])
  ultimately show ?case by (subst skip_used.simps) simp
next
  case (Cons b post)
  obtain n u where b: "b = (n, u)" by force
  note A = heap_seg_at [OF Cons.prems(1) [unfolded b]]
  show ?case
  proof (cases u)
    case True
    let ?h = "h\<lparr>hp_lfree := hb_next (blk h (hp_lfree h))\<rparr>"
    have u: "hb_used (blk h (hp_lfree h)) \<noteq> 0" using A(1) True Cons.prems(2) by (simp add: hdr_def)
    have e: "hp_lfree h \<noteq> hp_end h" using A(1,2) Cons.prems(2) by (auto simp: hdr_def)
    have "heap_seg ?h ((pre @ [b]) @ post)" using Cons.prems(1) by (simp add: heap_seg_def)
    moreover have "unat (hp_lfree ?h) = total (pre @ [b])" using A(1) Cons.prems(2) by (simp add: b hdr_def)
    ultimately have "skip_used ?h = Some (?h\<lparr>hp_lfree := of_nat (total (pre @ [b]) + total (takeWhile snd post))\<rparr>)"
      by (rule Cons.IH)
    then show ?thesis using u e True by (subst skip_used.simps) (simp add: b add.assoc)
  next
    case False
    have "h = h\<lparr>hp_lfree := of_nat (total pre)\<rparr>" by (simp add: Cons.prems(2) [symmetric])
    moreover have "hb_used (blk h (hp_lfree h)) = 0" using A(1) False Cons.prems(2) by (simp add: hdr_def)
    ultimately show ?thesis using False by (subst skip_used.simps) (simp add: b)
  qed
qed

lemma count_used_simps [simp]:
  "hp_ptr (count_used n h) = hp_ptr h" "hp_end (count_used n h) = hp_end h" "hp_lfree (count_used n h) = hp_lfree h"
  "hp_size (count_used n h) = hp_size h" "hp_blk (count_used n h) = hp_blk h" "hp_used_mem (count_used n h) = hp_used_mem h + n"
  "hp_max_mem (count_used n h) = (if hp_max_mem h < hp_used_mem h + n then hp_used_mem h + n else hp_max_mem h)"
  by (simp_all add: count_used_def Let_def)

lemma malloc_carve_alt:
  "malloc_carve sz ptr h =
     (if sz + SIZEOF_STRUCT_MEM + MIN_SIZE_ALIGNED \<le> hb_next (blk h ptr) - (ptr + SIZEOF_STRUCT_MEM)
      then count_used (sz + SIZEOF_STRUCT_MEM) (split_blk ptr (ptr + SIZEOF_STRUCT_MEM + sz) 1 h)
      else count_used (hb_next (blk h ptr) - ptr) (upd_blk ptr (\<lambda>b. b\<lparr>hb_used := 1\<rparr>) h))"
  by (simp add: malloc_carve_def split_blk_def Let_def)

lemma word_room:
  fixes ptr nx sz :: u64
  assumes "unat nx = unat ptr + n" "24 \<le> n" "unat ptr + n + 24 < 2 ^ 64"
  shows "unat (nx - (ptr + 24)) = n - 24" "unat (ptr + 24) = unat ptr + 24"
    "unat sz + 24 \<le> n \<Longrightarrow> unat (ptr + 24 + sz) = unat ptr + (unat sz + 24)" "unat (nx - ptr) = n"
proof -
  show a: "unat (ptr + 24) = unat ptr + 24" using assms by (subst unat_add_lem [THEN iffD1]) simp_all
  show "unat (nx - (ptr + 24)) = n - 24" using assms a by (subst unat_sub) (simp_all add: word_le_nat_alt)
  show "unat (nx - ptr) = n" using assms by (subst unat_sub) (simp_all add: word_le_nat_alt)
  show "unat sz + 24 \<le> n \<Longrightarrow> unat (ptr + 24 + sz) = unat ptr + (unat sz + 24)"
    using assms a by (subst unat_add_lem [THEN iffD1]) simp_all
qed

lemma malloc_carve_ok:
  assumes seg: "heap_seg h (pre @ (n, False) # post)" and p: "unat ptr = total pre" and sz: "unat sz + 24 \<le> n" "8 dvd unat sz"
    and um: "unat (hp_used_mem h) = used_total (pre @ (n, False) # post)"
  shows "heap_seg (malloc_carve sz ptr h) (pre @ carve (unat sz) n @ post)"
    "unat (hp_used_mem (malloc_carve sz ptr h)) = used_total (pre @ carve (unat sz) n @ post)"
    "same_frame h (malloc_carve sz ptr h)" "hp_lfree (malloc_carve sz ptr h) = hp_lfree h"
proof -
  note A = heap_seg_at [OF seg] and D = heap_segD [OF seg]
  have nx: "unat (hb_next (blk h ptr)) = unat ptr + n" using A(1) p by (simp add: hdr_def)
  have r: "unat ptr + n + 24 < 2 ^ 64" using A(2) D(3) p by simp
  have n24: "24 \<le> n" using A(1) by (simp add: hdr_def)
  note W = word_room [OF nx n24 r]
  have s: "unat (sz + 24) = unat sz + 24" using sz r by (subst unat_add_lem [THEN iffD1]) simp_all
  have u: "used_total (pre @ (n, False) # post) + n < 2 ^ 64"
  proof -
    have "used_total bs \<le> total bs" for bs by (simp add: used_total_def total_filter_le)
    from this [of pre] this [of post] show ?thesis using A(2) D(3) by simp
  qed
  have add: "k \<le> n \<Longrightarrow> unat w = k \<Longrightarrow> unat (hp_used_mem h + w) = used_total (pre @ (n, False) # post) + k" for k w
    using um u by (subst unat_add_lem [THEN iffD1]) simp_all
  have "heap_seg (malloc_carve sz ptr h) (pre @ carve (unat sz) n @ post) \<and>
    unat (hp_used_mem (malloc_carve sz ptr h)) = used_total (pre @ carve (unat sz) n @ post)"
  proof (cases "unat sz + 72 \<le> n")
    case True
    have s2: "unat (sz + 24 + 24) = unat sz + 48" using True r s by (subst unat_add_lem [THEN iffD1]) simp_all
    then have "sz + 24 + 24 \<le> hb_next (blk h ptr) - (ptr + 24)" using W(1) True by (simp add: word_le_nat_alt)
    then have e: "malloc_carve sz ptr h = count_used (sz + 24) (split_blk ptr (ptr + 24 + sz) 1 h)"
      by (simp only: malloc_carve_alt if_True)
    have "heap_seg (split_blk ptr (ptr + 24 + sz) 1 h) (pre @ (unat sz + 24, True) # (n - (unat sz + 24), False) # post)"
      by (rule split_blk_ok [OF seg p]) (use W(3) p sz True in auto)
    then have "heap_seg (malloc_carve sz ptr h) (pre @ carve (unat sz) n @ post)"
      using True by (simp add: e carve_def heap_seg_def)
    then show ?thesis using True add [of "unat sz + 24" "sz + 24"] s by (simp add: e carve_def)
  next
    case False
    have s2: "unat (sz + 24 + 24) = unat sz + 48" using False sz r s by (subst unat_add_lem [THEN iffD1]) simp_all
    then have "\<not> sz + 24 + 24 \<le> hb_next (blk h ptr) - (ptr + 24)" using W(1) False sz by (simp add: word_le_nat_alt)
    then have e: "malloc_carve sz ptr h = count_used (hb_next (blk h ptr) - ptr) (upd_blk ptr (\<lambda>b. b\<lparr>hb_used := 1\<rparr>) h)"
      by (simp only: malloc_carve_alt if_False)
    have "heap_seg (upd_blk ptr (\<lambda>b. b\<lparr>hb_used := 1\<rparr>) h) (pre @ (n, True) # post)"
      by (rule flag_blk_ok [OF seg p]) simp
    then have "heap_seg (malloc_carve sz ptr h) (pre @ carve (unat sz) n @ post)"
      using False by (simp add: e carve_def heap_seg_def)
    then show ?thesis using False add [of n "hb_next (blk h ptr) - ptr"] W(4) sz by (simp add: e carve_def)
  qed
  then show "heap_seg (malloc_carve sz ptr h) (pre @ carve (unat sz) n @ post)"
    "unat (hp_used_mem (malloc_carve sz ptr h)) = used_total (pre @ carve (unat sz) n @ post)" by simp_all
  show "same_frame h (malloc_carve sz ptr h)" "hp_lfree (malloc_carve sz ptr h) = hp_lfree h"
    by (simp_all add: malloc_carve_alt same_frame_def)
qed

lemma coalesced_carve:
  "coalesced (pre @ (n, False) # post) \<Longrightarrow> coalesced (pre @ carve sz n @ post)"
  by (auto simp: carve_def coalesced_append coalesced_Cons)

lemma malloc_at_ok:
  assumes ok: "heap_ok h (pre @ (n, False) # post)" and p: "unat ptr = total pre" and sz: "unat sz + 24 \<le> n" "8 dvd unat sz"
  obtains h' where "malloc_at sz ptr h = Some (user_ptr h (total pre), h')" "heap_ok h' (pre @ carve (unat sz) n @ post)" "same_frame h h'"
proof -
  let ?bs = "pre @ (n, False) # post" and ?cs = "pre @ carve (unat sz) n @ post"
  have seg: "heap_seg h ?bs" and lf: "lfree_ok h ?bs" and um: "unat (hp_used_mem h) = used_total ?bs" and co: "coalesced ?bs"
    using ok by (simp_all add: heap_ok_def)
  note A = heap_seg_at [OF seg] and D = heap_segD [OF seg] and U = user_ptr_facts [OF seg]
  let ?h1 = "malloc_carve sz ptr h"
  note C = malloc_carve_ok [OF seg p sz um]
  obtain m c' where cv: "carve (unat sz) n = (m, True) # c'" by (rule that [of "if unat sz + 72 \<le> n then unat sz + 24 else n"
        "if unat sz + 72 \<le> n then [(n - unat sz - 24, False)] else []"]) (simp add: carve_def)
  have s1: "heap_seg ?h1 (pre @ (m, True) # c' @ post)" using C(1) cv by simp
  have mg: "hb_magic (blk ?h1 ptr) = HEAP_MAGIC" using heap_seg_at(1) [OF s1] p by (simp add: hdr_def)
  have e1: "upd_blk ptr (\<lambda>b. b\<lparr>hb_magic := HEAP_MAGIC\<rparr>) ?h1 = ?h1"
    using mg by (simp add: upd_blk_def) (metis fun_upd_triv heap.surjective heap.update_convs(2) heap_mem.surjective heap_mem.update_convs(1) mg)
  have pe: "ptr = of_nat (total pre)" by (simp add: p [symmetric])
  define h2 where "h2 = (if ptr = hp_lfree ?h1 then ?h1\<lparr>hp_lfree := of_nat (total (takeWhile snd ?cs))\<rparr> else ?h1)"
  have tw: "total (takeWhile snd ?cs) < 2 ^ 64"
    using total_filter_le(2) [of snd ?cs] heap_segD(1,3) [OF C(1)] by simp
  have lp: "ptr = hp_lfree h \<longleftrightarrow> (\<forall>x\<in>set pre. snd x)"
  proof
    assume "\<forall>x\<in>set pre. snd x"
    then show "ptr = hp_lfree h" using lf p by (simp add: lfree_ok_def word_unat_eq_iff)
  next
    assume e: "ptr = hp_lfree h"
    show "\<forall>x\<in>set pre. snd x"
    proof (rule ccontr)
      assume "\<not> (\<forall>x\<in>set pre. snd x)"
      then obtain xs k ys where x: "pre = xs @ (k, False) # ys" by (metis split_list snd_conv surj_pair)
      have "heap_seg h (xs @ (k, False) # ys @ (n, False) # post)" using seg by (simp add: x)
      then have "24 \<le> k" using heap_seg_at(1) by (auto simp: hdr_def)
      moreover have "total pre \<le> total xs"
        using lf p e takeWhile_free_le [of xs k "ys @ (n, False) # post"] by (simp add: lfree_ok_def x)
      ultimately show False by (simp add: x)
    qed
  qed
  have skip: "(if ptr = hp_lfree ?h1
      then do { h \<leftarrow> skip_used ?h1; rt_assert (hp_lfree h = hp_end h \<or> hb_used (blk h (hp_lfree h)) = 0); Some h }
      else Some ?h1) = Some h2"
  proof (cases "ptr = hp_lfree ?h1")
    case True
    then have all: "\<forall>x\<in>set pre. snd x" using lp C(4) by simp
    have "skip_used ?h1 = Some h2"
      using skip_used_ok [OF C(1)] True p all by (simp add: h2_def)
    moreover have "hp_lfree h2 = hp_end h2 \<or> hb_used (blk h2 (hp_lfree h2)) = 0"
    proof (cases "\<forall>x\<in>set ?cs. snd x")
      case True
      then have "takeWhile snd ?cs = ?cs" by (simp only: takeWhile_eq_all_conv)
      then have "unat (hp_lfree h2) = unat (hp_end h2)"
        using tw heap_segD(1) [OF C(1)] \<open>ptr = hp_lfree ?h1\<close> by (simp only: h2_def if_True heap.simps unat_of_nat) (simp add: take_bit_nat_eq_self)
      then show ?thesis by (simp add: word_unat_eq_iff)
    next
      case False
      then obtain b ys where ys: "dropWhile snd ?cs = b # ys" "\<not> snd b"
        by (metis dropWhile_eq_Nil_conv hd_dropWhile list.collapse)
      obtain k where b: "b = (k, False)" using ys(2) by (cases b) simp
      have "heap_seg ?h1 (takeWhile snd ?cs @ (k, False) # ys)"
        using C(1) takeWhile_dropWhile_id [of snd ?cs] unfolding ys(1) b by (simp only:)
      from heap_seg_at(1,5) [OF this] show ?thesis using \<open>ptr = hp_lfree ?h1\<close> by (simp add: h2_def hdr_def)
    qed
    ultimately show ?thesis using True by simp
  qed (simp add: h2_def)
  have fr: "same_frame h h2" using C(3) by (simp add: h2_def same_frame_def)
  have s2: "heap_seg h2 ?cs"
    by (rule heap_seg_intro [OF C(1)]) (use C(1) in \<open>simp_all add: h2_def heap_seg_def\<close>)
  have l2: "lfree_ok h2 ?cs"
  proof (cases "ptr = hp_lfree ?h1")
    case True
    then show ?thesis using tw by (simp add: lfree_ok_def h2_def unat_of_nat take_bit_nat_eq_self)
  next
    case False
    then have "\<not> (\<forall>x\<in>set pre. snd x)" using lp C(4) by simp
    then have "takeWhile snd ?cs = takeWhile snd ?bs" by (auto simp: takeWhile_append)
    then show ?thesis using lf C(4) False by (simp add: lfree_ok_def h2_def)
  qed
  have "heap_ok h2 ?cs"
    using s2 l2 C(2) coalesced_carve [OF co] by (simp add: heap_ok_def h2_def)
  moreover have "malloc_at sz ptr h = Some (user_ptr h (total pre), h2)"
  proof -
    have up: "hp_ptr h2 + ptr + 24 = user_ptr h (total pre)" using fr by (simp add: user_ptr_def pe same_frame_def)
    have "hp_ptr h2 + ptr = user_ptr h (total pre) - 24" by (simp add: up [symmetric])
    moreover have "unat (user_ptr h (total pre) - 24) = unat (hp_ptr h) + total pre"
      using U(1) by (subst unat_sub) (simp_all add: word_le_nat_alt)
    ultimately have "unat (hp_ptr h2 + ptr) = unat (hp_ptr h) + total pre" by simp
    moreover have "8 dvd unat (hp_ptr h) + total pre"
      using seg_dvd [of "hp_blk h" 0 0 pre] seg D(4) by (simp add: heap_seg_def hseg_append)
    ultimately have a7: "(hp_ptr h2 + ptr) AND 7 = 0"
      using and_mask_unat [of "hp_ptr h2 + ptr" 3] by (simp add: mask_eq_exp_minus_1 word_unat_eq_iff)
    have "unat (user_ptr h (total pre) + sz) = unat (hp_ptr h) + total pre + 24 + unat sz"
      using U(1) D(3) A(2) sz by (subst unat_add_lem [THEN iffD1]) simp_all
    moreover have "unat (hp_ptr h2 + hp_end h2) = unat (hp_ptr h) + unat (hp_end h)"
      using D(3) fr by (simp only: same_frame_def) (subst unat_add_lem [THEN iffD1], simp_all)
    ultimately have "user_ptr h (total pre) + sz \<le> hp_ptr h2 + hp_end h2" using A(2) sz by (simp add: word_le_nat_alt)
    then show ?thesis using U(4) a7 unfolding malloc_at_def Let_def e1 skip by (simp add: up)
  qed
  ultimately show thesis using fr that by blast
qed

lemma malloc_loop_ok:
  assumes "heap_seg h (pre @ post)" "unat ptr = total pre" "unat sz \<le> unat (hp_size h)"
  shows "(first_fit (unat sz) (unat (hp_size h) - unat sz) (total pre) post = None \<and> malloc_loop sz ptr h = Some (0, h)) \<or>
    (\<exists>xs n ys. post = xs @ (n, False) # ys \<and> unat sz + 24 \<le> n \<and>
       first_fit (unat sz) (unat (hp_size h) - unat sz) (total pre) post = Some (total (pre @ xs), xs @ carve (unat sz) n @ ys) \<and>
       malloc_loop sz ptr h = malloc_at sz (of_nat (total (pre @ xs))) h)"
  using assms
proof (induction post arbitrary: pre ptr)
  case Nil
  have "unat (hp_size h - sz) = unat (hp_size h) - unat sz" using Nil(3) by (subst unat_sub) (simp_all add: word_le_nat_alt)
  then have "\<not> ptr < hp_size h - sz" using Nil(2) heap_segD(1,2) [OF Nil(1)] by (simp add: word_less_nat_alt)
  then show ?case by (simp add: malloc_loop.simps [of sz ptr])
next
  case (Cons b post)
  obtain n u where b: "b = (n, u)" by force
  note seg = Cons.prems(1) [unfolded b] and p = Cons.prems(2)
  note A = heap_seg_at [OF seg] and D = heap_segD [OF seg]
  have lim: "unat (hp_size h - sz) = unat (hp_size h) - unat sz"
    using Cons.prems(3) by (subst unat_sub) (simp_all add: word_le_nat_alt)
  have less: "ptr < hp_size h - sz \<longleftrightarrow> total pre < unat (hp_size h) - unat sz" by (simp add: word_less_nat_alt lim p)
  have nx: "unat (hb_next (blk h ptr)) = unat ptr + n" and n24: "24 \<le> n" using A(1) p by (simp_all add: hdr_def)
  have room: "sz \<le> hb_next (blk h ptr) - (ptr + 24) \<longleftrightarrow> unat sz + 24 \<le> n"
    using word_room(1) [OF nx n24] A(2) D(3) p n24 by (auto simp: word_le_nat_alt)
  have us: "hb_used (blk h ptr) = 0 \<longleftrightarrow> \<not> u" using A(1) p by (simp add: hdr_def)
  show ?case
  proof (cases "total pre < unat (hp_size h) - unat sz")
    case False
    then show ?thesis using less by (simp add: malloc_loop.simps [of sz ptr] b)
  next
    case True
    show ?thesis
    proof (cases "\<not> u \<and> unat sz + 24 \<le> n")
      case fit: True
      have "malloc_loop sz ptr h = malloc_at sz (of_nat (total pre)) h"
        using fit True less us room by (simp add: malloc_loop.simps [of sz ptr] p [symmetric])
      then show ?thesis using fit True b by (intro disjI2 exI [of _ "[]"] exI [of _ n] exI [of _ post]) simp
    next
      case nofit: False
      have l: "malloc_loop sz ptr h = malloc_loop sz (hb_next (blk h ptr)) h"
        using nofit True less us room by (subst malloc_loop.simps) auto
      have "heap_seg h ((pre @ [b]) @ post)" using Cons.prems(1) by simp
      moreover have "unat (hb_next (blk h ptr)) = total (pre @ [b])" using nx p b by simp
      ultimately have IH: "(first_fit (unat sz) (unat (hp_size h) - unat sz) (total (pre @ [b])) post = None \<and>
           malloc_loop sz (hb_next (blk h ptr)) h = Some (0, h)) \<or>
        (\<exists>xs m ys. post = xs @ (m, False) # ys \<and> unat sz + 24 \<le> m \<and>
           first_fit (unat sz) (unat (hp_size h) - unat sz) (total (pre @ [b])) post
             = Some (total ((pre @ [b]) @ xs), xs @ carve (unat sz) m @ ys) \<and>
           malloc_loop sz (hb_next (blk h ptr)) h = malloc_at sz (of_nat (total ((pre @ [b]) @ xs))) h)"
        by (rule Cons.IH [OF _ _ Cons.prems(3)])
      from IH show ?thesis
      proof (elim disjE conjE exE)
        assume "first_fit (unat sz) (unat (hp_size h) - unat sz) (total (pre @ [b])) post = None"
          "malloc_loop sz (hb_next (blk h ptr)) h = Some (0, h)"
        then show ?thesis using nofit True l by (intro disjI1) (auto simp: b)
      next
        fix xs m ys
        assume I: "post = xs @ (m, False) # ys" "unat sz + 24 \<le> m"
          "first_fit (unat sz) (unat (hp_size h) - unat sz) (total (pre @ [b])) post
             = Some (total ((pre @ [b]) @ xs), xs @ carve (unat sz) m @ ys)"
          "malloc_loop sz (hb_next (blk h ptr)) h = malloc_at sz (of_nat (total ((pre @ [b]) @ xs))) h"
        show ?thesis
          by (intro disjI2 exI [of _ "b # xs"] exI [of _ m] exI [of _ ys]) (use I nofit True l in \<open>simp add: b add.assoc\<close>)
      qed
    qed
  qed
qed

text \<open>The size a request is rounded to.\<close>

definition need :: "u64 \<Rightarrow> nat" where
  "need n = (if unat (RT_ALIGN n) < 24 then 24 else unat (RT_ALIGN n))"

lemma need_ge: "unat n < 2 ^ 64 - 7 \<Longrightarrow> unat n \<le> need n"
  by (auto simp: need_def RT_ALIGN_unat not_less)

lemma need_dvd: "8 dvd need n"
  by (auto simp: need_def RT_ALIGN_def [unfolded RT_ALIGN_DOWN_def [symmetric]] RT_ALIGN_DOWN_unat)

theorem rt_malloc_ok:
  assumes ok: "heap_ok h bs" and n: "n \<noteq> 0" and big: "24 \<le> unat (hp_size h)"
  shows "case first_fit (need n) (unat (hp_size h) - need n) 0 bs of
      None \<Rightarrow> rt_malloc n h = Some (0, h)
    | Some (off, bs') \<Rightarrow> \<exists>h'. rt_malloc n h = Some (user_ptr h off, h') \<and> heap_ok h' bs' \<and> same_frame h h'"
proof -
  define sz where "sz = (if RT_ALIGN n < 24 then 24 else RT_ALIGN n)"
  have sz: "unat sz = need n" by (simp add: sz_def need_def word_less_nat_alt)
  show ?thesis
  proof (cases "hp_size h < RT_ALIGN n")
    case True
    then have "unat (hp_size h) - need n = 0" by (simp add: need_def word_less_nat_alt)
    then have "first_fit (need n) (unat (hp_size h) - need n) 0 bs = None" by (cases bs) auto
    then show ?thesis using True n by (simp add: rt_malloc_def Let_def)
  next
    case False
    have le: "unat sz \<le> unat (hp_size h)" using False big by (auto simp: sz need_def word_less_nat_alt not_less)
    have e: "rt_malloc n h = malloc_loop sz (hp_lfree h) h" using False n by (simp add: rt_malloc_def sz_def Let_def)
    let ?us = "takeWhile snd bs" and ?ds = "dropWhile snd bs"
    have all: "\<forall>x\<in>set ?us. snd x" by (auto dest: set_takeWhileD)
    have seg: "heap_seg h (?us @ ?ds)" using ok by (simp add: heap_ok_def)
    have lf: "unat (hp_lfree h) = total ?us" using ok by (simp add: heap_ok_def lfree_ok_def)
    have ff: "first_fit (need n) (unat (hp_size h) - need n) 0 bs =
        map_option (\<lambda>(x, bs'). (x, ?us @ bs')) (first_fit (unat sz) (unat (hp_size h) - unat sz) (total ?us) ?ds)"
      using first_fit_skip [OF all, of "unat sz" "unat (hp_size h) - unat sz" 0 ?ds] by (simp add: sz)
    from malloc_loop_ok [OF seg lf le] show ?thesis
    proof (elim disjE conjE exE)
      assume "first_fit (unat sz) (unat (hp_size h) - unat sz) (total ?us) ?ds = None" "malloc_loop sz (hp_lfree h) h = Some (0, h)"
      then show ?thesis using e by (simp add: ff)
    next
      fix xs m ys
      assume I: "?ds = xs @ (m, False) # ys" "unat sz + 24 \<le> m"
        "first_fit (unat sz) (unat (hp_size h) - unat sz) (total ?us) ?ds = Some (total (?us @ xs), xs @ carve (unat sz) m @ ys)"
        "malloc_loop sz (hp_lfree h) h = malloc_at sz (of_nat (total (?us @ xs))) h"
      have bs: "bs = (?us @ xs) @ (m, False) # ys" using takeWhile_dropWhile_id [of snd bs] unfolding I(1) by simp
      have ok': "heap_ok h ((?us @ xs) @ (m, False) # ys)" using ok by (subst (asm) bs)
      have "heap_seg h ((?us @ xs) @ (m, False) # ys)" using ok' by (simp add: heap_ok_def)
      note o = heap_seg_at(5) [OF this]
      have dv: "8 dvd unat sz" by (simp add: sz need_dvd)
      obtain h' where "malloc_at sz (of_nat (total (?us @ xs))) h = Some (user_ptr h (total (?us @ xs)), h')"
          "heap_ok h' ((?us @ xs) @ carve (unat sz) m @ ys)" "same_frame h h'"
        by (rule malloc_at_ok [OF ok' o I(2) dv])
      then show ?thesis using I e by (simp add: ff)
    qed
  qed
qed

end
