(* ===== verification/Allocator.thy ===== *)
theory Allocator
  imports Prelude
begin

section \<open>What a heap promises its clients\<close>

text \<open>
  The contract of \<open>rt_malloc\<close>, \<open>rt_free\<close>, \<open>rt_realloc\<close> and of their counterparts on memory heaps: a
  client that releases and resizes only what it holds never makes an operation fail, and the blocks it
  holds do not overlap.  The small memory heap and the memory heaps of \<open>memheap.c\<close> provide it.
\<close>

text \<open>The states a client can bring a heap to, with the pointers it holds.\<close>

inductive alloc_run :: "(u64 \<Rightarrow> 's \<Rightarrow> ('p \<times> 's) option) \<Rightarrow> ('p \<Rightarrow> 's \<Rightarrow> 's option) \<Rightarrow> ('p \<Rightarrow> u64 \<Rightarrow> 's \<Rightarrow> ('p \<times> 's) option) \<Rightarrow>
    'p \<Rightarrow> (u64 \<Rightarrow> bool) \<Rightarrow> (u64 \<Rightarrow> bool) \<Rightarrow> 's \<Rightarrow> 's \<Rightarrow> 'p set \<Rightarrow> bool"
  for al fr re null zero sane s0 where
  run_start: "alloc_run al fr re null zero sane s0 s0 {}"
| run_alloc: "alloc_run al fr re null zero sane s0 s' (if p = null then L else insert p L)"
    if "alloc_run al fr re null zero sane s0 s L" "al n s = Some (p, s')"
| run_free: "alloc_run al fr re null zero sane s0 s' (L - {p})"
    if "alloc_run al fr re null zero sane s0 s L" "p = null \<or> p \<in> L" "fr p s = Some s'"
| run_realloc: "alloc_run al fr re null zero sane s0 s' (if q \<noteq> null then insert q (L - {p}) else if zero n then L - {p} else L)"
    if "alloc_run al fr re null zero sane s0 s L" "p = null \<or> p \<in> L" "sane n" "re p n s = Some (q, s')"

text \<open>\<open>rel\<close> relates a heap to a view of it, \<open>held\<close> are the pointers the view has in use, \<open>span\<close> the
  address and the size of what one points to.  \<open>zero\<close> are the sizes for which a resize is a release.\<close>

locale allocator =
  fixes rel :: "'s \<Rightarrow> 'a \<Rightarrow> bool" and held :: "'s \<Rightarrow> 'a \<Rightarrow> 'p set" and span :: "'s \<Rightarrow> 'p \<Rightarrow> nat \<times> nat"
    and al :: "u64 \<Rightarrow> 's \<Rightarrow> ('p \<times> 's) option" and fr :: "'p \<Rightarrow> 's \<Rightarrow> 's option" and re :: "'p \<Rightarrow> u64 \<Rightarrow> 's \<Rightarrow> ('p \<times> 's) option"
    and null :: 'p and zero :: "u64 \<Rightarrow> bool" and sane :: "u64 \<Rightarrow> bool"
  assumes alloc_law: "rel s a \<Longrightarrow> \<exists>p s' a'. al n s = Some (p, s') \<and> rel s' a' \<and> p \<notin> held s a \<and>
      held s' a' = (if p = null then held s a else insert p (held s a))"
    and free_law: "rel s a \<Longrightarrow> p = null \<or> p \<in> held s a \<Longrightarrow> \<exists>s' a'. fr p s = Some s' \<and> rel s' a' \<and> held s' a' = held s a - {p}"
    and realloc_law: "rel s a \<Longrightarrow> p = null \<or> p \<in> held s a \<Longrightarrow> sane n \<Longrightarrow> \<exists>q s' a'. re p n s = Some (q, s') \<and> rel s' a' \<and>
      held s' a' = (if q \<noteq> null then insert q (held s a - {p}) else if zero n then held s a - {p} else held s a)"
    and apart_law: "rel s a \<Longrightarrow> p \<in> held s a \<Longrightarrow> q \<in> held s a \<Longrightarrow> p \<noteq> q \<Longrightarrow>
      fst (span s p) + snd (span s p) \<le> fst (span s q) \<or> fst (span s q) + snd (span s q) \<le> fst (span s p)"
begin

abbreviation run :: "'s \<Rightarrow> 's \<Rightarrow> 'p set \<Rightarrow> bool" where
  "run \<equiv> alloc_run al fr re null zero sane"

lemma run_rel:
  assumes "run s0 s L" "rel s0 a0" "held s0 a0 = {}"
  shows "\<exists>a. rel s a \<and> held s a = L"
  using assms
proof (induction rule: alloc_run.induct)
  case (run_alloc s L n p s')
  then obtain a where a: "rel s a" "held s a = L" by blast
  show ?case using alloc_law [OF a(1), of n] run_alloc(2) a(2) by auto
next
  case (run_free s L p s')
  then obtain a where a: "rel s a" "held s a = L" by blast
  show ?case using free_law [OF a(1), of p] run_free(2,3) a(2) by auto
next
  case (run_realloc s L p n q s')
  then obtain a where a: "rel s a" "held s a = L" by blast
  show ?case using realloc_law [OF a(1), of p n] run_realloc(2-4) a(2) by auto
qed blast

lemma run_safe:
  assumes "run s0 s L" "rel s0 a0" "held s0 a0 = {}"
  shows "al n s \<noteq> None" "p = null \<or> p \<in> L \<Longrightarrow> fr p s \<noteq> None" "p = null \<or> p \<in> L \<Longrightarrow> sane n \<Longrightarrow> re p n s \<noteq> None"
    "p \<in> L \<Longrightarrow> q \<in> L \<Longrightarrow> p \<noteq> q \<Longrightarrow>
      fst (span s p) + snd (span s p) \<le> fst (span s q) \<or> fst (span s q) + snd (span s q) \<le> fst (span s p)"
proof -
  obtain a where a: "rel s a" "held s a = L" using run_rel [OF assms] by blast
  show "al n s \<noteq> None" using alloc_law [OF a(1), of n] by auto
  show "fr p s \<noteq> None" if "p = null \<or> p \<in> L" using free_law [OF a(1), of p] that a(2) by auto
  show "re p n s \<noteq> None" if "p = null \<or> p \<in> L" "sane n" using realloc_law [OF a(1) _ that(2), of p] that a(2) by auto
  show "fst (span s p) + snd (span s p) \<le> fst (span s q) \<or> fst (span s q) + snd (span s q) \<le> fst (span s p)"
    if "p \<in> L" "q \<in> L" "p \<noteq> q" using apart_law [OF a(1) _ _ that(3)] that a(2) by auto
qed

end

end
