(* ===== verification/SmallMemProps.thy ===== *)
theory SmallMemProps
  imports SmallMemAlloc Allocator
begin

section \<open>The heap as its clients see it\<close>

text \<open>
  The set of blocks in use, what each operation does to it, and the states a client can bring the
  heap to.
\<close>

subsection \<open>The blocks in use\<close>

text \<open>Offset and extent of each block in use.\<close>

fun live :: "nat \<Rightarrow> blocks \<Rightarrow> (nat \<times> nat) set" where
  "live off [] = {}"
| "live off ((n, u) # bs) = (if u then insert (off, n) (live (off + n) bs) else live (off + n) bs)"

lemma live_append: "live off (xs @ ys) = live off xs \<union> live (off + total xs) ys"
  by (induction off xs rule: live.induct) (auto simp: add.assoc)

lemma live_range: "(q, m) \<in> live off bs \<Longrightarrow> off \<le> q \<and> q + m \<le> off + total bs"
  by (induction off bs rule: live.induct) (auto split: if_splits)

lemma live_split: "(q, m) \<in> live off bs \<Longrightarrow> \<exists>pre post. bs = pre @ (m, True) # post \<and> q = off + total pre"
proof (induction off bs rule: live.induct)
  case (2 off n u bs)
  show ?case
  proof (cases "u \<and> (q, m) = (off, n)")
    case True
    then show ?thesis by (intro exI [of _ "[]"] exI [of _ bs]) simp
  next
    case False
    then have "(q, m) \<in> live (off + n) bs" using 2(3) by (auto split: if_splits)
    then obtain pre post where "bs = pre @ (m, True) # post" "q = off + n + total pre" using 2(1,2) by (cases u) blast+
    then show ?thesis by (intro exI [of _ "(n, u) # pre"] exI [of _ post]) simp
  qed
qed simp

lemma live_Cons: "live off (b # bs) = (if snd b then {(off, fst b)} else {}) \<union> live (off + fst b) bs"
  by (cases b) simp

lemma live_coalesce [simp]: "live off (coalesce bs) = live off bs"
proof (induction bs arbitrary: off rule: coalesce.induct)
  case (1 n m bs)
  show ?case using 1 [of off] by (simp add: add.assoc)
qed (simp_all split: prod.splits add: live_Cons)

lemma live_disjoint: "(q, m) \<in> live off bs \<Longrightarrow> (x, n) \<in> live off bs \<Longrightarrow> (q, m) = (x, n) \<or> q + m \<le> x \<or> x + n \<le> q"
  by (induction off bs rule: live.induct) (auto split: if_splits dest: live_range)

lemma live_flag:
  assumes "\<forall>b\<in>set pre. 0 < fst b" "0 < n"
  shows "live off (pre @ (n, False) # post) = live off (pre @ (n, True) # post) - {(off + total pre, n)}"
proof -
  have "(off + total pre, n) \<notin> live off pre" using live_range [of "off + total pre" n off pre] assms(2) by auto
  moreover have "(off + total pre, n) \<notin> live (off + total pre + n) post"
    using live_range [of "off + total pre" n "off + total pre + n" post] assms(2) by auto
  ultimately show ?thesis by (auto simp: live_append)
qed

definition heap_inv :: "heap \<Rightarrow> blocks \<Rightarrow> bool" where
  "heap_inv h bs \<longleftrightarrow> heap_ok h bs \<and> (\<forall>b\<in>set bs. snd b \<longrightarrow> 24 < fst b) \<and> 24 \<le> unat (hp_size h)"

lemma seg_pos: "seg B p off bs \<Longrightarrow> b \<in> set bs \<Longrightarrow> 24 \<le> fst b"
  by (induction bs arbitrary: p off) (auto simp: hdr_def)

lemma heap_inv_pos: "heap_inv h bs \<Longrightarrow> b \<in> set bs \<Longrightarrow> 24 \<le> fst b"
  unfolding heap_inv_def heap_ok_def heap_seg_def by (blast intro: seg_pos)

lemma coalesce_set_used: "b \<in> set (coalesce bs) \<Longrightarrow> snd b \<Longrightarrow> b \<in> set bs"
  by (induction bs rule: coalesce.induct) auto

lemma first_fit_split:
  "first_fit sz lim off bs = Some (x, bs') \<Longrightarrow>
   \<exists>xs n ys. bs = xs @ (n, False) # ys \<and> sz + 24 \<le> n \<and> bs' = xs @ carve sz n @ ys \<and> x = off + total xs \<and> x < lim \<and>
     (\<forall>us m vs. xs = us @ (m, False) # vs \<longrightarrow> m < sz + 24)"
proof (induction sz lim off bs arbitrary: bs' rule: first_fit.induct)
  case (2 sz lim off n u bs)
  show ?case
  proof (cases "\<not> u \<and> sz + 24 \<le> n")
    case True
    then show ?thesis using 2(2) by (intro exI [of _ "[]"] exI [of _ n] exI [of _ bs]) (auto split: if_splits)
  next
    case False
    then obtain bs'' where r: "off < lim" "first_fit sz lim (off + n) bs = Some (x, bs'')" "bs' = (n, u) # bs''"
      using 2(2) by (auto split: if_splits)
    then obtain xs m ys where I: "bs = xs @ (m, False) # ys" "sz + 24 \<le> m" "bs'' = xs @ carve sz m @ ys" "x = off + n + total xs" "x < lim"
        "\<forall>us k vs. xs = us @ (k, False) # vs \<longrightarrow> k < sz + 24"
      using 2(1) [OF _ False] by (metis not_less)
    show ?thesis
      by (intro exI [of _ "(n, u) # xs"] exI [of _ m] exI [of _ ys]) (use I r False in \<open>auto simp: Cons_eq_append_conv\<close>)
  qed
qed simp

lemma first_fit_None:
  "first_fit sz lim off bs = None \<Longrightarrow> bs = pre @ (m, False) # post \<Longrightarrow> m < sz + 24 \<or> lim \<le> off + total pre"
proof (induction sz lim off bs arbitrary: pre rule: first_fit.induct)
  case (2 sz lim off n u bs)
  show ?case
  proof (cases pre)
    case Nil
    then show ?thesis using 2 by (auto split: if_splits)
  next
    case (Cons c pre')
    then show ?thesis using 2 by (fastforce split: if_splits)
  qed
qed simp

text \<open>A fresh block: new, apart from every other one, aligned and large enough.\<close>

definition fresh_block :: "u64 \<Rightarrow> heap \<Rightarrow> blocks \<Rightarrow> nat \<Rightarrow> nat \<Rightarrow> bool" where
  "fresh_block n h bs off m \<longleftrightarrow>
     need n + 24 \<le> m \<and> off + m \<le> unat (hp_end h) \<and> (\<forall>(q, k)\<in>live 0 bs. q + k \<le> off \<or> off + m \<le> q) \<and>
     unat (user_ptr h off) = unat (hp_ptr h) + off + 24 \<and> unat (user_ptr h off) mod 8 = 0 \<and> user_ptr h off \<noteq> 0"

lemma malloc_live:
  assumes inv: "heap_inv h bs" and n: "n \<noteq> 0"
  obtains (none) "rt_malloc n h = Some (0, h)" "first_fit (need n) (unat (hp_size h) - need n) 0 bs = None"
  | (some) off m bs' h' where "rt_malloc n h = Some (user_ptr h off, h')" "heap_inv h' bs'" "same_frame h h'"
      "live 0 bs' = insert (off, m) (live 0 bs)" "fresh_block n h bs off m"
      "first_fit (need n) (unat (hp_size h) - need n) 0 bs = Some (off, bs')"
proof (cases "first_fit (need n) (unat (hp_size h) - need n) 0 bs")
  case None
  then show thesis using rt_malloc_ok [of h bs n] inv n none by (simp add: heap_inv_def)
next
  case (Some r)
  obtain off bs' where r: "r = (off, bs')" by force
  obtain h' where h': "rt_malloc n h = Some (user_ptr h off, h')" "heap_ok h' bs'" "same_frame h h'"
    using rt_malloc_ok [of h bs n] inv n Some by (auto simp: heap_inv_def r)
  obtain xs k ys where I: "bs = xs @ (k, False) # ys" "need n + 24 \<le> k" "bs' = xs @ carve (need n) k @ ys" "off = total xs"
    using first_fit_split [OF Some [unfolded r]] by auto
  define m where "m = (if need n + 72 \<le> k then need n + 24 else k)"
  have seg: "heap_seg h (xs @ (k, False) # ys)" using inv I(1) by (simp add: heap_inv_def heap_ok_def)
  note A = heap_seg_at [OF seg] and U = user_ptr_facts [OF seg]
  have n24: "24 \<le> need n" by (simp add: need_def)
  have "heap_inv h' bs'"
    using h'(2,3) inv I(2) n24 unfolding I(1,3) by (auto simp: heap_inv_def carve_def same_frame_def)
  moreover have "live 0 bs' = insert (off, m) (live 0 bs)"
    using I(2) unfolding I(1,3) by (auto simp: live_append carve_def m_def I(4))
  moreover have "fresh_block n h bs off m"
  proof -
    have "q + l \<le> off \<or> off + m \<le> q" if "(q, l) \<in> live 0 bs" for q l
      using that I(2) live_range [of q l 0 xs] live_range [of q l "total xs + k" ys]
      by (auto simp: I(1,4) live_append m_def)
    then have "\<forall>(q, l)\<in>live 0 bs. q + l \<le> off \<or> off + m \<le> q" by blast
    moreover have "unat (user_ptr h off) mod 8 = 0"
      using U(4) by (simp add: I(4) word_unat_eq_iff unat_mod)
    ultimately show ?thesis using A(2) I(2) U(1,2) unfolding fresh_block_def I(4) by (auto simp: m_def)
  qed
  ultimately show thesis using some h'(1,3) Some r by blast
qed

lemma live_block:
  assumes inv: "heap_inv h bs" and l: "(off, n) \<in> live 0 bs"
  obtains pre post where "bs = pre @ (n, True) # post" "off = total pre" "24 < n" "heap_seg h (pre @ (n, True) # post)"
proof -
  obtain pre post where "bs = pre @ (n, True) # post" "off = total pre" using live_split [OF l] by auto
  then show thesis using that inv by (auto simp: heap_inv_def heap_ok_def)
qed

lemma free_live:
  assumes inv: "heap_inv h bs" and l: "(off, n) \<in> live 0 bs"
  obtains h' bs' where "rt_free (user_ptr h off) h = Some h'" "heap_inv h' bs'" "same_frame h h'" "live 0 bs' = live 0 bs - {(off, n)}"
    "unat (hp_used_mem h') + n = unat (hp_used_mem h)"
proof -
  obtain pre post where I: "bs = pre @ (n, True) # post" "off = total pre" "24 < n" by (rule live_block [OF inv l])
  have ok: "heap_ok h (pre @ (n, True) # post)" using inv I(1) by (simp add: heap_inv_def)
  let ?fs = "pre @ (n, False) # post"
  obtain h' where h': "rt_free (user_ptr h (total pre)) h = Some h'" "heap_ok h' (coalesce ?fs)" "same_frame h h'"
    by (rule rt_free_ok [OF ok I(3)])
  have "\<forall>b\<in>set (coalesce ?fs). snd b \<longrightarrow> 24 < fst b"
  proof (intro ballI impI)
    fix b
    assume "b \<in> set (coalesce ?fs)" "snd b"
    then have "b \<in> set ?fs" "snd b" by (blast dest: coalesce_set_used)+
    then have "b \<in> set bs" by (auto simp: I(1))
    then show "24 < fst b" using inv \<open>snd b\<close> by (simp add: heap_inv_def)
  qed
  then have "heap_inv h' (coalesce ?fs)"
    using h'(2,3) inv by (simp add: heap_inv_def same_frame_def)
  moreover have "live 0 (coalesce ?fs) = live 0 bs - {(off, n)}"
  proof -
    have "0 < fst b" if "b \<in> set pre" for b using heap_inv_pos [OF inv, of b] that I(1) by simp
    then show ?thesis using live_flag [of pre n 0 post] I by simp
  qed
  moreover have "unat (hp_used_mem h') + n = unat (hp_used_mem h)"
    using ok h'(2) by (simp add: heap_ok_def)
  ultimately show thesis using that h'(1,3) I(2) by blast
qed

lemma upd_blk_same: "f (blk h a) = g (blk h a) \<Longrightarrow> upd_blk a f h = upd_blk a g h"
  by (simp add: upd_blk_def)

lemma realloc_shrink_ok:
  assumes ok: "heap_ok h (pre @ (n, True) # post)" and p: "unat ptr = total pre" and sz: "unat sz = n - 24"
    and ns: "unat ns + 48 < unat sz" "8 dvd unat ns"
  obtains h' where "realloc_shrink ns sz ptr h = Some h'" "same_frame h h'"
    "heap_ok h' (coalesce (pre @ (unat ns + 24, True) # (n - (unat ns + 24), False) # post))"
proof -
  let ?k = "unat ns + 24" and ?bs = "pre @ (n, True) # post"
  let ?pre = "pre @ [(?k, True)]"
  let ?fs = "?pre @ (n - ?k, False) # post"
  have seg: "heap_seg h ?bs" and lf: "lfree_ok h ?bs" and um: "unat (hp_used_mem h) = used_total ?bs" and co: "coalesced ?bs"
    using ok by (simp_all add: heap_ok_def)
  note A = heap_seg_at [OF seg] and D = heap_segD [OF seg]
  let ?b = "ptr + SIZEOF_STRUCT_MEM + ns"
  have nx: "unat (hb_next (blk h ptr)) = unat ptr + n" and n24: "24 \<le> n" using A(1) p by (simp_all add: hdr_def)
  have r: "unat ptr + n + 24 < 2 ^ 64" using A(2) D(3) p by simp
  note W = word_room [OF nx n24 r]
  have b: "unat ?b = total pre + ?k" using W(3) ns sz p by simp
  let ?h0 = "h\<lparr>hp_used_mem := hp_used_mem h - (sz - ns)\<rparr>"
  have s0: "heap_seg ?h0 ?bs" using seg by (simp add: heap_seg_def)
  let ?h1 = "split_blk ptr ?b 1 ?h0"
  have s1: "heap_seg ?h1 (pre @ (?k, True) # (n - ?k, False) # post)"
    by (rule split_blk_ok [OF s0 p b]) (use ns sz in auto)
  define h2 where "h2 = (if ?b < hp_lfree ?h1 then ?h1\<lparr>hp_lfree := ?b\<rparr> else ?h1)"
  have s2: "heap_seg h2 ?fs" by (rule heap_seg_intro [OF s1]) (use s1 in \<open>simp_all add: h2_def heap_seg_def\<close>)
  have "total (takeWhile snd (?pre @ (n - ?k, True) # post)) = total (takeWhile snd ?bs)"
    using ns sz by (simp add: takeWhile_append)
  then have l2: "lfree_ok h2 ?fs"
    using takeWhile_freed [of "n - ?k" ?pre post] ns sz b lf by (simp add: lfree_ok_def h2_def word_less_nat_alt)
  have c: "coalesced ?pre" "coalesced post" using co by (simp_all add: coalesced_append coalesced_Cons)
  have bp: "unat ?b = total ?pre" using b by simp
  obtain h' where h': "plug_holes ?b h2 = Some h'" "heap_seg h' (coalesce ?fs)" "lfree_ok h' (coalesce ?fs)" "same_frame h2 h'"
      "hp_used_mem h' = hp_used_mem h2" "hp_max_mem h' = hp_max_mem h2"
    by (rule plug_holes_ok [OF s2 c bp l2])
  have us: "hb_used (blk h ptr) = 1" using A(1) p by (simp add: hdr_def)
  have ab: "unat ptr \<noteq> unat ?b" using b p by simp
  have e: "realloc_shrink ns sz ptr h = plug_holes ?b h2"
  proof -
    let ?g = "upd_blk ?b (\<lambda>x. x\<lparr>hb_magic := HEAP_MAGIC, hb_used := 0, hb_next := hb_next (blk ?h0 ptr), hb_prev := ptr\<rparr>) ?h0"
    have "upd_blk ptr (\<lambda>x. x\<lparr>hb_next := ?b\<rparr>) ?g = upd_blk ptr (\<lambda>x. x\<lparr>hb_next := ?b, hb_used := 1\<rparr>) ?g"
      by (rule upd_blk_same) (use us ab in simp)
    then show ?thesis unfolding realloc_shrink_def h2_def split_blk_def Let_def by (simp only:)
  qed
  have "unat (sz - ns) = n - ?k" using ns sz by (subst unat_sub) (simp_all add: word_le_nat_alt)
  then have "unat (hp_used_mem h - (sz - ns)) = unat (hp_used_mem h) - (n - ?k)"
    using um by (subst unat_sub) (simp_all add: word_le_nat_alt)
  moreover have "hp_used_mem h' = hp_used_mem h - (sz - ns)" using h'(5) by (simp add: h2_def)
  ultimately have "unat (hp_used_mem h') = used_total ?fs" using um ns sz by simp
  then have "heap_ok h' (coalesce ?fs)" using h'(2,3) by (simp add: heap_ok_def coalesced_coalesce)
  moreover have "same_frame h h'" using h'(4) by (simp add: same_frame_def h2_def)
  ultimately show thesis using that e h'(1) by simp
qed

lemma realloc_shrink_live:
  assumes inv: "heap_inv h bs" and l: "(off, n) \<in> live 0 bs" and p: "unat ptr = off" and sz: "unat sz = n - 24"
    and ns: "unat ns + 48 < unat sz" "8 dvd unat ns" "ns \<noteq> 0"
  obtains h' bs' where "realloc_shrink ns sz ptr h = Some h'" "heap_inv h' bs'" "same_frame h h'"
    "live 0 bs' = insert (off, unat ns + 24) (live 0 bs - {(off, n)})"
proof -
  obtain pre post where I: "bs = pre @ (n, True) # post" "off = total pre" "24 < n" by (rule live_block [OF inv l])
  let ?k = "unat ns + 24"
  let ?fs = "pre @ (?k, True) # (n - ?k, False) # post"
  have ok: "heap_ok h (pre @ (n, True) # post)" using inv I(1) by (simp add: heap_inv_def)
  obtain h' where h': "realloc_shrink ns sz ptr h = Some h'" "same_frame h h'" "heap_ok h' (coalesce ?fs)"
    by (rule realloc_shrink_ok [OF ok _ sz ns(1,2)]) (use p I(2) in simp_all)
  have k: "0 < unat ns" using ns(3) by (metis gr0I unsigned_eq_0_iff)
  have "\<forall>b\<in>set (coalesce ?fs). snd b \<longrightarrow> 24 < fst b"
  proof (intro ballI impI)
    fix b
    assume "b \<in> set (coalesce ?fs)" "snd b"
    then have "b \<in> set ?fs" "snd b" by (blast dest: coalesce_set_used)+
    then have "b \<in> set bs \<or> b = (?k, True)" by (auto simp: I(1))
    then show "24 < fst b" using inv \<open>snd b\<close> k by (auto simp: heap_inv_def)
  qed
  then have "heap_inv h' (coalesce ?fs)" using h'(2,3) inv by (simp add: heap_inv_def same_frame_def)
  moreover have "live 0 (coalesce ?fs) = insert (off, ?k) (live 0 bs - {(off, n)})"
  proof -
    have "0 < fst b" if "b \<in> set pre" for b using heap_inv_pos [OF inv, of b] that I(1) by simp
    then have "live 0 (pre @ (n, False) # post) = live 0 bs - {(off, n)}" using live_flag [of pre n 0 post] I by simp
    moreover have "total pre + ?k + (n - ?k) = total pre + n" using ns(1) sz by simp
    ultimately show ?thesis by (simp add: live_append I(2) add.assoc)
  qed
  ultimately show thesis using that h'(1,2) by blast
qed

lemma user_ptr_frame [simp]: "same_frame h h' \<Longrightarrow> user_ptr h' = user_ptr h"
  by (auto simp: user_ptr_def same_frame_def fun_eq_iff)

lemma same_frame_trans: "same_frame h h' \<Longrightarrow> same_frame h' h'' \<Longrightarrow> same_frame h h''"
  by (simp add: same_frame_def)

lemma same_frame_refl [simp]: "same_frame h h"
  by (simp add: same_frame_def)

text \<open>
  What \<open>rt_realloc\<close> does with a block in use, of extent \<open>n\<close> at the offset \<open>off\<close>: refused when larger than the heap,
  freed for the size 0, kept for its own size, cut when more than two headers too large, and otherwise
  moved to where the first fit is, or refused when there is none.
\<close>

definition realloc_result ::
  "u64 \<Rightarrow> heap \<Rightarrow> blocks \<Rightarrow> nat \<Rightarrow> nat \<Rightarrow> u64 \<Rightarrow> (u64 \<times> u64 \<times> u64) option \<Rightarrow> heap \<Rightarrow> blocks \<Rightarrow> bool"
where
  "realloc_result sz h bs off n q c h' bs' \<longleftrightarrow>
     (if hp_size h < sz then q = 0 \<and> c = None \<and> h' = h \<and> bs' = bs
      else if sz = 0 then q = 0 \<and> c = None \<and> live 0 bs' = live 0 bs - {(off, n)}
      else if unat sz + 24 = n then q = user_ptr h off \<and> c = None \<and> h' = h \<and> bs' = bs
      else if unat sz + 48 < n - 24
      then q = user_ptr h off \<and> c = None \<and> live 0 bs' = insert (off, unat sz + 24) (live 0 bs - {(off, n)})
      else case first_fit (need sz) (unat (hp_size h) - need sz) 0 bs of
        None \<Rightarrow> q = 0 \<and> c = None \<and> h' = h \<and> bs' = bs
      | Some (x, _) \<Rightarrow> q = user_ptr h x \<and>
          (\<exists>k. c = Some (q, user_ptr h off, k) \<and> unat k = min (n - 24) (unat sz)) \<and>
          (\<exists>m. fresh_block sz h bs x m \<and> live 0 bs' = insert (x, m) (live 0 bs - {(off, n)})))"

lemma realloc_live:
  assumes inv: "heap_inv h bs" and l: "(off, n) \<in> live 0 bs"
  obtains q c h' bs' where "rt_realloc (user_ptr h off) new h = Some (q, c, h')" "heap_inv h' bs'" "same_frame h h'"
    "realloc_result (RT_ALIGN new) h bs off n q c h' bs'"
proof -
  obtain pre post where I: "bs = pre @ (n, True) # post" "off = total pre" "24 < n" "heap_seg h (pre @ (n, True) # post)"
    by (rule live_block [OF inv l])
  note A = heap_seg_at [OF I(4)] and D = heap_segD [OF I(4)] and U = user_ptr_facts [OF I(4), folded I(2)]
  let ?p = "user_ptr h off" and ?ns = "RT_ALIGN new"
  define sz where "sz = hb_next (blk h (of_nat off)) - of_nat off - 24"
  have nx: "unat (hb_next (blk h (of_nat off))) = unat (of_nat off :: u64) + n" using A(1,5) I(2) by (simp add: hdr_def)
  have "unat (of_nat off :: u64) + n + 24 < 2 ^ 64" using A(2,5) D(3) I(2) by simp
  from word_room(1) [OF nx _ this] have sz: "unat sz = n - 24" using I(3) by (simp add: sz_def diff_diff_eq)
  note e = rt_realloc_def [of ?p new h, unfolded Let_def U(5), folded sz_def]
  have guard: "\<not> (?p < hp_ptr h \<or> hp_ptr h + hp_end h \<le> ?p)" "\<not> ?p < hp_ptr h + 24"
    using U(6,7) U(8) [OF I(3)] by (simp_all add: not_less not_le)
  show thesis
  proof (cases "hp_size h < ?ns")
    case True
    then show thesis by (intro that [of 0 None h bs]) (use True inv in \<open>simp_all add: e realloc_result_def\<close>)
  next
    case small: False
    show thesis
    proof (cases "?ns = 0")
      case True
      obtain h' bs' where "rt_free ?p h = Some h'" "heap_inv h' bs'" "same_frame h h'" "live 0 bs' = live 0 bs - {(off, n)}"
        by (rule free_live [OF inv l])
      then show thesis by (intro that [of 0 None h' bs']) (use True small in \<open>simp_all add: e realloc_result_def\<close>)
    next
      case pos: False
      have szn: "sz = ?ns \<longleftrightarrow> unat ?ns + 24 = n" using sz I(3) by (auto simp: word_unat_eq_iff)
      have "unat ?ns \<le> unat (hp_size h)" using small by (simp add: word_le_nat_alt not_less)
      then have r48: "unat ?ns + 48 < 2 ^ 64" using D(2,3) by linarith
      then have "unat (?ns + 24) = unat ?ns + 24" by (subst unat_add_lem [THEN iffD1]) simp_all
      with r48 have "unat (?ns + 24 + 24) = unat ?ns + 48" by (subst unat_add_lem [THEN iffD1]) simp_all
      then have lt: "?ns + 24 + 24 < sz \<longleftrightarrow> unat ?ns + 48 < n - 24" using sz by (simp add: word_less_nat_alt)
      consider "sz = ?ns" | "sz \<noteq> ?ns" "?ns + 24 + 24 < sz" | "sz \<noteq> ?ns" "\<not> ?ns + 24 + 24 < sz" by blast
      then show thesis
      proof cases
        case 1
        have "rt_realloc ?p new h = Some (?p, None, h)" using 1 pos small guard U(2) by (simp add: e)
        then show thesis by (rule that [OF _ inv same_frame_refl]) (use 1 pos small szn in \<open>simp add: realloc_result_def\<close>)
      next
        case 2
        have o: "unat (of_nat off :: u64) = off" using A(5) I(2) by simp
        have dv: "8 dvd unat ?ns" by (simp add: RT_ALIGN_def [unfolded RT_ALIGN_DOWN_def [symmetric]] RT_ALIGN_DOWN_unat)
        obtain h' bs' where s: "realloc_shrink ?ns sz (of_nat off) h = Some h'" "heap_inv h' bs'" "same_frame h h'"
            "live 0 bs' = insert (off, unat ?ns + 24) (live 0 bs - {(off, n)})"
          by (rule realloc_shrink_live [OF inv l o sz _ dv pos]) (use 2(2) lt sz in simp)
        have "rt_realloc ?p new h = Some (?p, None, h')" using 2 pos small guard U(2) s(1) by (simp add: e)
        then show thesis by (rule that [OF _ s(2,3)]) (use 2 lt szn pos small in \<open>simp add: realloc_result_def s(4)\<close>)
      next
        case 3
        show thesis
        proof (cases rule: malloc_live [OF inv pos])
          case 1
          have "rt_realloc ?p new h = Some (0, None, h)" using 3 pos small guard U(2) 1(1) by (simp add: e)
          then show thesis by (rule that [OF _ inv same_frame_refl]) (use 1(2) 3 lt szn pos small in \<open>simp add: realloc_result_def\<close>)
        next
          case (2 x m bs1 h1)
          have l1: "(off, n) \<in> live 0 bs1" using l by (simp add: 2(4))
          obtain h' bs' where f: "rt_free (user_ptr h1 off) h1 = Some h'" "heap_inv h' bs'" "same_frame h1 h'"
              "live 0 bs' = live 0 bs1 - {(off, n)}"
            by (rule free_live [OF 2(2) l1])
          have fr: "same_frame h h'" using 2(3) f(3) by (rule same_frame_trans)
          have q: "user_ptr h x \<noteq> 0" using 2(5) by (simp add: fresh_block_def)
          have "(x, m) \<noteq> (off, n)" using 2(5) l I(3) by (fastforce simp: fresh_block_def)
          then have lv: "live 0 bs' = insert (x, m) (live 0 bs - {(off, n)})" using f(4) 2(4) by auto
          let ?k = "if sz < ?ns then sz else ?ns"
          have "rt_realloc ?p new h = Some (user_ptr h x, Some (user_ptr h x, ?p, ?k), h')"
            using 3 pos small guard U(2) 2(1) q f(1) 2(3) by (simp add: e)
          moreover have "unat ?k = min (n - 24) (unat ?ns)" using sz by (auto simp: word_less_nat_alt)
          ultimately show thesis
            using 2(5,6) 3 lt szn pos small lv by (intro that [OF _ f(2) fr]) (auto simp: realloc_result_def)
        qed
      qed
    qed
  qed
qed

subsection \<open>Runs of a client\<close>

lemma heap_init_ok:
  assumes h: "rt_system_heap_init b e m = Some h" and b: "b \<noteq> 0" "unat b < 2 ^ 64 - 7" and s: "24 \<le> unat (hp_size h)"
  shows "heap_inv h [(unat (hp_end h), False)]"
proof -
  let ?b = "RT_ALIGN b" and ?e = "RT_ALIGN_DOWN e"
  have g: "2 * 24 < ?e" "?b \<le> ?e - 2 * 24" using h by (simp_all add: rt_system_heap_init_def Let_def split: if_splits)
  have e48: "unat (?e - 48) = unat ?e - 48" using g(1) by (subst unat_sub) (simp_all add: word_le_nat_alt word_less_nat_alt)
  have le: "unat ?b + 48 \<le> unat ?e" using g e48 by (simp add: word_le_nat_alt word_less_nat_alt)
  have sz: "unat (?e - ?b - 48) = unat ?e - unat ?b - 48"
  proof -
    have 1: "unat (?e - ?b) = unat ?e - unat ?b" using le by (subst unat_sub) (simp_all add: word_le_nat_alt)
    then show ?thesis using le by (subst unat_sub) (simp_all add: word_le_nat_alt)
  qed
  have lt: "unat ?e < 2 ^ LENGTH(64)" by (rule unsigned_less)
  have en: "unat (?e - ?b - 48 + 24) = unat ?e - unat ?b - 24"
    using sz le lt by (subst unat_add_lem [THEN iffD1]) simp_all
  have d: "8 dvd unat ?b" "8 dvd unat ?e"
    by (simp_all add: RT_ALIGN_def [unfolded RT_ALIGN_DOWN_def [symmetric]] RT_ALIGN_DOWN_unat)
  have b0: "0 < unat b" using b(1) by (metis gr0I unsigned_eq_0_iff)
  have "unat b \<le> unat ?b" using b(2) by (simp add: RT_ALIGN_unat)
  then have nz: "?b \<noteq> 0" using b0 by auto
  let ?h0 = "\<lparr>hp_ptr = ?b, hp_blk = m, hp_end = ?e - ?b - 48 + 24, hp_lfree = 0, hp_size = ?e - ?b - 48, hp_used_mem = 0, hp_max_mem = 0\<rparr>"
  have hh: "h = upd_blk (?e - ?b - 48 + 24) (\<lambda>_. \<lparr>hb_magic = HEAP_MAGIC, hb_used = 1, hb_next = ?e - ?b - 48 + 24, hb_prev = ?e - ?b - 48 + 24\<rparr>)
      (upd_blk 0 (\<lambda>_. \<lparr>hb_magic = HEAP_MAGIC, hb_used = 0, hb_next = ?e - ?b - 48 + 24, hb_prev = 0\<rparr>) ?h0)"
    using h by (simp add: rt_system_heap_init_def Let_def split: if_splits)
  have F: "hp_ptr h = ?b" "hp_end h = ?e - ?b - 48 + 24" "hp_size h = ?e - ?b - 48" "hp_lfree h = 0" "hp_used_mem h = 0"
    unfolding hh upd_blk_simps by simp_all
  have E: "unat (hp_end h) = unat ?e - unat ?b - 24" unfolding F by (rule en)
  have n0: "unat (hp_end h) \<noteq> 0" using E le by simp
  have B: "blk h 0 = \<lparr>hb_magic = HEAP_MAGIC, hb_used = 0, hb_next = hp_end h, hb_prev = 0\<rparr>" "hb_used (blk h (hp_end h)) = 1"
    using n0 unfolding F(2) by (simp_all add: hh)
  have "hdr (hp_blk h) 0 0 (unat (hp_end h)) False"
    using B(1) E le d by (simp add: hdr_def)
  then have "heap_seg h [(unat (hp_end h), False)]"
    unfolding heap_seg_def using B(2) E le lt d(1) nz sz by (simp add: F(1,3))
  then show ?thesis using s by (simp add: heap_inv_def heap_ok_def lfree_ok_def F(4,5))
qed

text \<open>The states a client can bring the heap to, with the pointers it holds.\<close>

inductive heap_run :: "heap \<Rightarrow> u64 set \<Rightarrow> bool" where
  heap_init: "heap_run h {}"
    if "rt_system_heap_init b e m = Some h" "b \<noteq> 0" "unat b < 2 ^ 64 - 7" "24 \<le> unat (hp_size h)"
| heap_malloc: "heap_run h' (if p = 0 then L else insert p L)"
    if "heap_run h L" "rt_malloc n h = Some (p, h')"
| heap_calloc: "heap_run h' (if p = 0 then L else insert p L)"
    if "heap_run h L" "rt_calloc k n h = Some (p, c, h')"
| heap_free: "heap_run h' (L - {p})"
    if "heap_run h L" "p = 0 \<or> p \<in> L" "rt_free p h = Some h'"
| heap_realloc: "heap_run h' (if q \<noteq> 0 then insert q (L - {p}) else if RT_ALIGN n = 0 then L - {p} else L)"
    if "heap_run h L" "p = 0 \<or> p \<in> L" "rt_realloc p n h = Some (q, c, h')"

definition ptrs :: "heap \<Rightarrow> blocks \<Rightarrow> u64 set" where
  "ptrs h bs = (\<lambda>(off, n). user_ptr h off) ` live 0 bs"

lemma live_ptr:
  assumes "heap_inv h bs" "(off, n) \<in> live 0 bs"
  shows "unat (user_ptr h off) = unat (hp_ptr h) + off + 24" "user_ptr h off \<noteq> 0"
    "unat (hb_next (blk h (user_ptr h off - 24 - hp_ptr h)) - (user_ptr h off - hp_ptr h)) = n - 24" "24 < n"
proof -
  obtain pre post where I: "bs = pre @ (n, True) # post" "off = total pre" "24 < n" "heap_seg h (pre @ (n, True) # post)"
    by (rule live_block [OF assms])
  note A = heap_seg_at [OF I(4)] and D = heap_segD [OF I(4)] and U = user_ptr_facts [OF I(4), folded I(2)]
  show "unat (user_ptr h off) = unat (hp_ptr h) + off + 24" "user_ptr h off \<noteq> 0" "24 < n" using U(1,2) I(3) by simp_all
  have nx: "unat (hb_next (blk h (of_nat off))) = unat (of_nat off :: u64) + n" using A(1,5) I(2) by (simp add: hdr_def)
  have l: "unat (of_nat off :: u64) + n + 24 < 2 ^ 64" using A(2,5) D(3) I(2) by simp
  have "user_ptr h off - hp_ptr h = of_nat off + 24" by (simp add: user_ptr_def)
  then show "unat (hb_next (blk h (user_ptr h off - 24 - hp_ptr h)) - (user_ptr h off - hp_ptr h)) = n - 24"
    using word_room(1) [OF nx _ l] I(3) U(5) by simp
qed

lemma ptrs_inj: "heap_inv h bs \<Longrightarrow> inj_on (\<lambda>(off, n). user_ptr h off) (live 0 bs)"
proof (rule inj_onI, clarify)
  fix a n b m
  assume I: "heap_inv h bs" "(a, n) \<in> live 0 bs" "(b, m) \<in> live 0 bs" "user_ptr h a = user_ptr h b"
  have "unat (hp_ptr h) + a + 24 = unat (hp_ptr h) + b + 24"
    by (simp only: live_ptr(1) [OF I(1,2), symmetric] live_ptr(1) [OF I(1,3), symmetric] I(4))
  then have "a = b" by simp
  then show "a = b \<and> n = m" using live_disjoint [OF I(2,3)] live_ptr(4) [OF I(1,2)] live_ptr(4) [OF I(1,3)] by auto
qed

lemma ptrs_remove: "heap_inv h bs \<Longrightarrow> (off, n) \<in> live 0 bs \<Longrightarrow> live 0 bs' = live 0 bs - {(off, n)} \<Longrightarrow> same_frame h h' \<Longrightarrow>
    ptrs h' bs' = ptrs h bs - {user_ptr h off}"
  using inj_on_image_set_diff [OF ptrs_inj, of h bs "live 0 bs" "{(off, n)}"] by (simp add: ptrs_def)

lemma zero_not_ptr: "heap_inv h bs \<Longrightarrow> 0 \<notin> ptrs h bs"
  by (auto simp: ptrs_def dest!: live_ptr(2))

lemma fresh_not_held:
  assumes "heap_inv h bs" "fresh_block n h bs off m"
  shows "user_ptr h off \<notin> ptrs h bs"
proof
  assume "user_ptr h off \<in> ptrs h bs"
  then obtain q k where q: "(q, k) \<in> live 0 bs" "user_ptr h off = user_ptr h q" by (auto simp: ptrs_def)
  have "unat (hp_ptr h) + off + 24 = unat (hp_ptr h) + q + 24"
    unfolding live_ptr(1) [OF assms(1) q(1), symmetric] q(2) [symmetric] using assms(2) by (simp add: fresh_block_def)
  moreover have "q + k \<le> off \<or> off + m \<le> q" "24 \<le> m" using assms(2) q(1) by (auto simp: fresh_block_def)
  ultimately show False using live_ptr(4) [OF assms(1) q(1)] by auto
qed

lemma malloc_run:
  assumes inv: "heap_inv h bs"
  obtains p h' bs' where "rt_malloc n h = Some (p, h')" "heap_inv h' bs'" "ptrs h' bs' = (if p = 0 then ptrs h bs else insert p (ptrs h bs))"
    "p \<notin> ptrs h bs"
proof (cases "n = 0")
  case True
  then show thesis using that [of 0 h bs] inv zero_not_ptr [OF inv] by (simp add: rt_malloc_def)
next
  case False
  show thesis
  proof (cases rule: malloc_live [OF inv False])
    case 1
    then show thesis using that [of 0 h bs] inv zero_not_ptr [OF inv] by simp
  next
    case (2 off m bs' h')
    then show thesis using that [of "user_ptr h off" h' bs'] fresh_not_held [OF inv 2(5)] by (simp add: ptrs_def fresh_block_def)
  qed
qed

lemma free_run:
  assumes inv: "heap_inv h bs" and p: "p = 0 \<or> p \<in> ptrs h bs"
  obtains h' bs' where "rt_free p h = Some h'" "heap_inv h' bs'" "ptrs h' bs' = ptrs h bs - {p}"
proof (cases "p = 0")
  case True
  then show thesis using that [of h bs] inv zero_not_ptr [OF inv] by (simp add: rt_free_def)
next
  case False
  then obtain off n where l: "p = user_ptr h off" "(off, n) \<in> live 0 bs" using p by (auto simp: ptrs_def)
  obtain h' bs' where f: "rt_free (user_ptr h off) h = Some h'" "heap_inv h' bs'" "same_frame h h'" "live 0 bs' = live 0 bs - {(off, n)}"
    by (rule free_live [OF inv l(2)])
  show thesis by (rule that [of h' bs']) (use f l ptrs_remove [OF inv l(2) f(4,3)] in simp_all)
qed

lemma realloc_run:
  assumes inv: "heap_inv h bs" and p: "p = 0 \<or> p \<in> ptrs h bs"
  obtains q c h' bs' where "rt_realloc p n h = Some (q, c, h')" "heap_inv h' bs'"
    "ptrs h' bs' = (if q \<noteq> 0 then insert q (ptrs h bs - {p}) else if RT_ALIGN n = 0 then ptrs h bs - {p} else ptrs h bs)"
proof (cases "p = 0")
  case True
  have z: "ptrs h bs - {0} = ptrs h bs" using zero_not_ptr [OF inv] by blast
  obtain q h' bs' where m: "rt_malloc (RT_ALIGN n) h = Some (q, h')" "heap_inv h' bs'"
      "ptrs h' bs' = (if q = 0 then ptrs h bs else insert q (ptrs h bs))"
    by (rule malloc_run [OF inv])
  show thesis
  proof (cases "hp_size h < RT_ALIGN n \<or> RT_ALIGN n = 0")
    case True
    then show thesis using that [of 0 None h bs] inv \<open>p = 0\<close> by (auto simp: rt_realloc_def rt_free_def z)
  next
    case False
    then show thesis using that [of q None h' bs'] m \<open>p = 0\<close> by (simp add: rt_realloc_def z)
  qed
next
  case False
  then obtain off k where l: "p = user_ptr h off" "(off, k) \<in> live 0 bs" using p by (auto simp: ptrs_def)
  obtain q c h' bs' where R: "rt_realloc (user_ptr h off) n h = Some (q, c, h')" "heap_inv h' bs'" "same_frame h h'" and
    C: "realloc_result (RT_ALIGN n) h bs off k q c h' bs'"
    by (rule realloc_live [OF inv l(2)])
  have im: "(\<lambda>(off, n). user_ptr h off) ` (live 0 bs - {(off, k)}) = ptrs h bs - {p}"
    using inj_on_image_set_diff [OF ptrs_inj [OF inv], of "live 0 bs" "{(off, k)}"] l by (simp add: ptrs_def)
  have pin: "insert p (ptrs h bs - {p}) = ptrs h bs" using p False by blast
  show thesis
  proof (rule that [OF _ R(2)])
    show "rt_realloc p n h = Some (q, c, h')" using R(1) l(1) by simp
    show "ptrs h' bs' = (if q \<noteq> 0 then insert q (ptrs h bs - {p}) else if RT_ALIGN n = 0 then ptrs h bs - {p} else ptrs h bs)"
      using C R(3) False l(1) im pin unfolding realloc_result_def
      by (auto simp: ptrs_def fresh_block_def image_insert split: if_splits option.splits prod.splits)
  qed
qed

lemma heap_run_inv: "heap_run h L \<Longrightarrow> \<exists>bs. heap_inv h bs \<and> L = ptrs h bs"
proof (induction rule: heap_run.induct)
  case (heap_init b e m h)
  then show ?case using heap_init_ok by (intro exI [of _ "[(unat (hp_end h), False)]"]) (auto simp: ptrs_def)
next
  case (heap_malloc h L n p h')
  then obtain bs where bs: "heap_inv h bs" "L = ptrs h bs" by blast
  show ?case by (rule malloc_run [OF bs(1), of n]) (use heap_malloc(2) bs(2) in auto)
next
  case (heap_calloc h L k n p c h')
  then obtain bs where bs: "heap_inv h bs" "L = ptrs h bs" by blast
  have m: "rt_malloc (k * n) h = Some (p, h')"
    using heap_calloc(2) by (auto simp: rt_calloc_def split: Option.bind_splits)
  show ?case by (rule malloc_run [OF bs(1), of "k * n"]) (use m bs(2) in auto)
next
  case (heap_free h L p h')
  then obtain bs where bs: "heap_inv h bs" "L = ptrs h bs" by blast
  show ?case by (rule free_run [OF bs(1), of p]) (use heap_free(2,3) bs(2) in auto)
next
  case (heap_realloc h L p n q c h')
  then obtain bs where bs: "heap_inv h bs" "L = ptrs h bs" by blast
  show ?case by (rule realloc_run [OF bs(1), of p n]) (use heap_realloc(2,3) bs(2) in auto)
qed

text \<open>The bytes a block in use offers, read off its header.\<close>

definition usable :: "heap \<Rightarrow> u64 \<Rightarrow> u64" where
  "usable h p = hb_next (blk h (p - SIZEOF_STRUCT_MEM - hp_ptr h)) - (p - hp_ptr h)"

lemma usable_live: "heap_inv h bs \<Longrightarrow> (off, n) \<in> live 0 bs \<Longrightarrow> unat (usable h (user_ptr h off)) = n - 24"
  unfolding usable_def by (rule live_ptr(3))

lemma ptrs_apart:
  assumes inv: "heap_inv h bs" and p: "p \<in> ptrs h bs" and q: "q \<in> ptrs h bs" and ne: "p \<noteq> q"
  shows "unat p + unat (usable h p) \<le> unat q \<or> unat q + unat (usable h q) \<le> unat p"
proof -
  obtain a n where a: "(a, n) \<in> live 0 bs" "p = user_ptr h a" using p by (auto simp: ptrs_def)
  obtain b m where b: "(b, m) \<in> live 0 bs" "q = user_ptr h b" using q by (auto simp: ptrs_def)
  have "(a, n) \<noteq> (b, m)" using ne a b by auto
  then have "a + n \<le> b \<or> b + m \<le> a" using live_disjoint [OF a(1) b(1)] by blast
  then show ?thesis
    unfolding a(2) b(2) usable_live [OF inv a(1)] usable_live [OF inv b(1)] live_ptr(1) [OF inv a(1)] live_ptr(1) [OF inv b(1)]
    using live_ptr(4) [OF inv a(1)] live_ptr(4) [OF inv b(1)] by linarith
qed

text \<open>The heap of the system is an allocator.\<close>

interpretation sm: allocator heap_inv ptrs "\<lambda>h p. (unat p, unat (usable h p))" rt_malloc rt_free
  "\<lambda>p n h. map_option (\<lambda>(q, c, h). (q, h)) (rt_realloc p n h)" 0 "\<lambda>n. RT_ALIGN n = 0" "\<lambda>_. True"
proof (unfold_locales, goal_cases)
  case (1 h bs n)
  then show ?case by (metis malloc_run)
next
  case (2 h bs p)
  then show ?case by (metis free_run)
next
  case (3 h bs p n)
  then obtain q c h' bs' where "rt_realloc p n h = Some (q, c, h')" "heap_inv h' bs'"
    "ptrs h' bs' = (if q \<noteq> 0 then insert q (ptrs h bs - {p}) else if RT_ALIGN n = 0 then ptrs h bs - {p} else ptrs h bs)"
    using realloc_run [of h bs p n] by metis
  then show ?case by auto
next
  case (4 h bs p q)
  then show ?case using ptrs_apart [of h bs p q] by simp
qed

subsection \<open>Correctness\<close>

definition sample_heap :: heap where
  "sample_heap = the (rt_system_heap_init 8 1000 (\<lambda>_. \<lparr>hb_magic = 0, hb_used = 0, hb_next = 0, hb_prev = 0\<rparr>))"

lemma sample_heap_init:
  "rt_system_heap_init 8 1000 (\<lambda>_. \<lparr>hb_magic = 0, hb_used = 0, hb_next = 0, hb_prev = 0\<rparr>) = Some sample_heap"
  "hp_ptr sample_heap = 8" "hp_size sample_heap = 944" "hp_end sample_heap = 968"
  by (simp_all add: sample_heap_def rt_system_heap_init_def RT_ALIGN_def RT_ALIGN_DOWN_def)

lemma sample_heap_inv: "heap_inv sample_heap [(968, False)]"
  using heap_init_ok [OF sample_heap_init(1)] by (simp add: sample_heap_init)

text \<open>C8: rt_malloc is the first fit over the list of blocks: it returns NULL and changes nothing when
  that finds nothing, and otherwise a block that is aligned, apart from every block in use and at least as
  large as the request.\<close>

theorem rt_malloc_spec:
  assumes "heap_inv h bs" "n \<noteq> 0" "unat n < 2 ^ 64 - 7"
  shows "case first_fit (need n) (unat (hp_size h) - need n) 0 bs of
      None \<Rightarrow> rt_malloc n h = Some (0, h)
    | Some (off, bs') \<Rightarrow> \<exists>h' m. rt_malloc n h = Some (user_ptr h off, h') \<and> heap_inv h' bs' \<and>
        live 0 bs' = insert (off, m) (live 0 bs) \<and> fresh_block n h bs off m \<and> n \<le> usable h' (user_ptr h off)"
proof (cases rule: malloc_live [OF assms(1,2)])
  case (2 off m bs' h')
  have "(off, m) \<in> live 0 bs'" by (simp add: 2(4))
  then have "unat (usable h' (user_ptr h off)) = m - 24" using usable_live [OF 2(2)] 2(3) by simp
  moreover have "need n + 24 \<le> m" using 2(5) by (simp add: fresh_block_def)
  ultimately have "n \<le> usable h' (user_ptr h off)" using need_ge [OF assms(3)] by (simp add: word_le_nat_alt)
  then show ?thesis using 2 by auto
qed simp

theorem rt_malloc_spec_witness:
  "\<exists>h'. rt_malloc 100 sample_heap = Some (32, h') \<and> heap_inv h' [(128, True), (840, False)]"
  using rt_malloc_spec [OF sample_heap_inv, of 100]
  by (auto simp: need_def RT_ALIGN_def sample_heap_init carve_def user_ptr_def)

text \<open>C38: rt_realloc of a block in use never fails an assertion, and which of its outcomes it has is decided by the
  sizes and the first fit alone: it is refused, with nothing changed, when larger than the heap or when the first fit
  finds nothing, freed for the size 0, kept as it is when the size fits it exactly, cut in place when it is more than
  a header and the least size too large, and otherwise moved to a fresh block where the first fit is, into which the
  smaller of the two sizes is copied.\<close>

theorem rt_realloc_spec:
  assumes "heap_inv h bs" "(off, n) \<in> live 0 bs"
  shows "\<exists>q c h' bs'. rt_realloc (user_ptr h off) new h = Some (q, c, h') \<and> heap_inv h' bs' \<and> same_frame h h' \<and>
    realloc_result (RT_ALIGN new) h bs off n q c h' bs'"
  by (rule realloc_live [OF assms, of new]) blast

text \<open>A block of 104 bytes grows to 200: it moves behind itself, and 104 bytes are copied.\<close>

theorem rt_realloc_spec_witness:
  "\<exists>h1. rt_malloc 100 sample_heap = Some (32, h1) \<and>
     (\<exists>c h'. rt_realloc 32 200 h1 = Some (160, Some (160, 32, c), h') \<and> unat c = 104)"
proof -
  have ff: "first_fit (need 100) (unat (hp_size sample_heap) - need 100) 0 [(968, False)] = Some (0, [(128, True), (840, False)])"
    by (simp add: need_def RT_ALIGN_def sample_heap_init carve_def)
  obtain h1 m where h1: "rt_malloc 100 sample_heap = Some (user_ptr sample_heap 0, h1)" "heap_inv h1 [(128, True), (840, False)]"
      "same_frame sample_heap h1"
    by (cases rule: malloc_live [OF sample_heap_inv, of 100]) (use ff in auto)
  have f: "hp_ptr h1 = 8" "hp_size h1 = 944" using h1(3) sample_heap_init by (simp_all add: same_frame_def)
  have "first_fit (need 200) (unat (hp_size h1) - need 200) 0 [(128, True), (840, False)] = Some (128, [(128, True), (224, True), (616, False)])"
    by (simp add: need_def RT_ALIGN_def f carve_def)
  moreover have "RT_ALIGN 200 = 200" by (simp add: RT_ALIGN_def)
  moreover obtain q c h' bs' where R: "rt_realloc (user_ptr h1 0) 200 h1 = Some (q, c, h')"
      "realloc_result (RT_ALIGN 200) h1 [(128, True), (840, False)] 0 128 q c h' bs'"
    using rt_realloc_spec [of h1 "[(128, True), (840, False)]" 0 128 200] h1(2) by auto
  ultimately show ?thesis using h1(1) f by (auto simp: realloc_result_def user_ptr_def sample_heap_init)
qed

text \<open>C7: In every state a client can reach from rt_system_heap_init by allocating, growing, shrinking
  and freeing what it holds, the heap is consistent, no operation fails an assertion or hangs, and the
  blocks the client holds do not overlap.\<close>

theorem heap_run_safe:
  assumes "heap_run h L"
  shows "(\<exists>bs. heap_inv h bs \<and> L = ptrs h bs) \<and> rt_malloc n h \<noteq> None \<and> rt_calloc k n h \<noteq> None \<and>
    (p = 0 \<or> p \<in> L \<longrightarrow> rt_free p h \<noteq> None \<and> rt_realloc p n h \<noteq> None) \<and>
    (p \<in> L \<and> q \<in> L \<and> p \<noteq> q \<longrightarrow> unat p + unat (usable h p) \<le> unat q \<or> unat q + unat (usable h q) \<le> unat p)"
proof -
  obtain bs where bs: "heap_inv h bs" "L = ptrs h bs" using heap_run_inv [OF assms] by blast
  have m: "rt_malloc x h \<noteq> None" for x by (rule malloc_run [OF bs(1), of x]) simp
  then have c: "rt_calloc k n h \<noteq> None" by (auto simp: rt_calloc_def split: Option.bind_splits)
  have f: "rt_free p h \<noteq> None" if "p = 0 \<or> p \<in> L" by (rule free_run [OF bs(1), of p]) (use that bs(2) in auto)
  have r: "rt_realloc p n h \<noteq> None" if "p = 0 \<or> p \<in> L" by (rule realloc_run [OF bs(1), of p n]) (use that bs(2) in auto)
  show ?thesis using bs m c f r ptrs_apart [OF bs(1), of p q] by blast
qed

theorem heap_run_safe_witness:
  "heap_run sample_heap {} \<and> rt_malloc 100 sample_heap \<noteq> None \<and> rt_realloc 0 200 sample_heap \<noteq> None"
proof -
  have r: "heap_run sample_heap {}" by (rule heap_init [OF sample_heap_init(1)]) (simp_all add: sample_heap_init)
  then show ?thesis using heap_run_safe [OF r, of 100 0 0 0] heap_run_safe [OF r, of 200 0 0 0] by blast
qed

end
