(* ===== verification/Kstring.thy ===== *)
theory Kstring
  imports Prelude
begin

section \<open>Memory and strings (\<open>src/kservice.c\<close>)\<close>

text \<open>
  The byte and string routines of the kernel service library, over a memory that maps an address to a
  byte where it may be accessed; an access anywhere else gives \<open>None\<close>, and so does a loop that never
  ends.  A plain \<open>char\<close> is unsigned (the RISC-V ABI); \<open>long\<close> has 8 bytes, read and written as a whole.
\<close>

type_synonym cmem = "nat \<rightharpoonup> u8"

definition wr :: "cmem \<Rightarrow> nat \<Rightarrow> u8 \<Rightarrow> cmem option" where
  "wr m a v = (if m a = None then None else Some (m(a \<mapsto> v)))"

fun rd_list :: "cmem \<Rightarrow> nat \<Rightarrow> nat \<Rightarrow> u8 list option" where
  "rd_list m a 0 = Some []"
| "rd_list m a (Suc n) = do { v \<leftarrow> m a; vs \<leftarrow> rd_list m (a + 1) n; Some (v # vs) }"

fun wr_list :: "cmem \<Rightarrow> nat \<Rightarrow> u8 list \<Rightarrow> cmem option" where
  "wr_list m a [] = Some m"
| "wr_list m a (v # vs) = do { m \<leftarrow> wr m a v; wr_list m (a + 1) vs }"

text \<open>The bytes of a \<open>long\<close> in memory.\<close>

definition long_bytes :: "u64 \<Rightarrow> u8 list" where
  "long_bytes w = map (\<lambda>i. ucast (drop_bit (8 * i) w)) [0..<8]"

subsection \<open>\<open>rt_memset\<close>\<close>

definition memset_buffer :: "u8 \<Rightarrow> u64" where
  "memset_buffer d = ((\<lambda>b. push_bit 8 b OR ucast d) ^^ 8) 0"

fun memset_blocks :: "u64 \<Rightarrow> nat \<Rightarrow> nat \<Rightarrow> cmem \<Rightarrow> (nat \<times> nat \<times> cmem) option" where
  "memset_blocks w count a m =
     (if 8 * 4 \<le> count
      then do { m \<leftarrow> wr_list m a (long_bytes w);
                m \<leftarrow> wr_list m (a + 8) (long_bytes w);
                m \<leftarrow> wr_list m (a + 16) (long_bytes w);
                m \<leftarrow> wr_list m (a + 24) (long_bytes w);
                memset_blocks w (count - 4 * 8) (a + 32) m }
      else Some (count, a, m))"

fun memset_longs :: "u64 \<Rightarrow> nat \<Rightarrow> nat \<Rightarrow> cmem \<Rightarrow> (nat \<times> nat \<times> cmem) option" where
  "memset_longs w count a m =
     (if 8 \<le> count
      then do { m \<leftarrow> wr_list m a (long_bytes w); memset_longs w (count - 8) (a + 8) m }
      else Some (count, a, m))"

fun memset_bytes :: "u8 \<Rightarrow> nat \<Rightarrow> nat \<Rightarrow> cmem \<Rightarrow> cmem option" where
  "memset_bytes d 0 a m = Some m"
| "memset_bytes d (Suc n) a m = do { m \<leftarrow> wr m a d; memset_bytes d n (a + 1) m }"

definition rt_memset :: "nat \<Rightarrow> u32 \<Rightarrow> u64 \<Rightarrow> cmem \<Rightarrow> cmem option" where
  "rt_memset s c count m =
     (let d = ucast (c AND 0xff) :: u8 in
      if \<not> unat count < 8 \<and> s mod 8 = 0
      then do { (n, a, m) \<leftarrow> memset_blocks (memset_buffer d) (unat count) s m;
                (n, a, m) \<leftarrow> memset_longs (memset_buffer d) n a m;
                memset_bytes d n a m }
      else memset_bytes d (unat count) s m)"

subsection \<open>\<open>rt_memcpy\<close> and \<open>rt_memmove\<close>\<close>

definition copy_long :: "nat \<Rightarrow> nat \<Rightarrow> cmem \<Rightarrow> cmem option" where
  "copy_long d s m = do { bs \<leftarrow> rd_list m s 8; wr_list m d bs }"

text \<open>\<open>len\<close> is an \<open>int\<close>; in the comparisons with \<open>sizeof (long)\<close> it is converted to \<open>unsigned long\<close>.\<close>

function memcpy_blocks :: "u32 \<Rightarrow> nat \<Rightarrow> nat \<Rightarrow> cmem \<Rightarrow> (u32 \<times> nat \<times> nat \<times> cmem) option" where
  "memcpy_blocks len d s m =
     (if (32 :: u64) \<le> scast len
      then do { m \<leftarrow> copy_long d s m;
                m \<leftarrow> copy_long (d + 8) (s + 8) m;
                m \<leftarrow> copy_long (d + 16) (s + 16) m;
                m \<leftarrow> copy_long (d + 24) (s + 24) m;
                memcpy_blocks (len - 32) (d + 32) (s + 32) m }
      else Some (len, d, s, m))"
  by auto

function memcpy_longs :: "u32 \<Rightarrow> nat \<Rightarrow> nat \<Rightarrow> cmem \<Rightarrow> (u32 \<times> nat \<times> nat \<times> cmem) option" where
  "memcpy_longs len d s m =
     (if (8 :: u64) \<le> scast len
      then do { m \<leftarrow> copy_long d s m; memcpy_longs (len - 8) (d + 8) (s + 8) m }
      else Some (len, d, s, m))"
  by auto

text \<open>A length that is negative as an \<open>int\<close> counts as a large one.\<close>

lemma unat_scast_32:
  "unat (scast (len :: u32) :: u64) = (if unat len < 2 ^ 31 then unat len else unat len + (2 ^ 64 - 2 ^ 32))"
proof -
  have u: "uint len < 2 ^ 32" "0 \<le> uint len" using uint_bounded [of len] by simp_all
  have s: "sint len = (uint len + 2 ^ 31) mod 2 ^ 32 - 2 ^ 31"
    by (simp add: sint_uint signed_take_bit_eq_take_bit_shift take_bit_eq_mod)
  have "uint (scast len :: u64) = sint len mod 2 ^ 64"
    by (simp only: scast_eq uint_word_of_int) simp
  also have "\<dots> = (if uint len < 2 ^ 31 then uint len else uint len + (2 ^ 64 - 2 ^ 32))"
  proof (cases "uint len < 2 ^ 31")
    case False
    have "(uint len + 2 ^ 31) mod 2 ^ 32 = ((uint len - 2 ^ 31) + 2 ^ 32) mod 2 ^ 32" by (simp add: add.commute)
    also have "\<dots> = uint len - 2 ^ 31" unfolding mod_add_self2 using u False by (intro mod_pos_pos_trivial) auto
    finally have "sint len mod 2 ^ 64 = (uint len - 2 ^ 32 + 2 ^ 64) mod 2 ^ 64" unfolding s mod_add_self2 by simp
    also have "\<dots> = uint len - 2 ^ 32 + 2 ^ 64" using u False by (intro mod_pos_pos_trivial) auto
    finally show ?thesis using False by simp
  qed (use u in \<open>simp add: s\<close>)
  finally have e: "int (unat (scast len :: u64)) = (if uint len < 2 ^ 31 then uint len else uint len + (2 ^ 64 - 2 ^ 32))"
    by (simp only: uint_nat)
  have "int (unat (scast len :: u64)) = int (if unat len < 2 ^ 31 then unat len else unat len + (2 ^ 64 - 2 ^ 32))"
    unfolding e using of_nat_less_iff [of "unat len" "2 ^ 31", where 'a = int] by simp
  then show ?thesis by (simp only: of_nat_eq_iff)
qed

lemma len_at_least: "k < 2 ^ 31 \<Longrightarrow> (of_nat k :: u64) \<le> scast (len :: u32) \<longleftrightarrow> k \<le> unat len"
  by (simp add: word_le_nat_alt unat_of_nat take_bit_nat_eq_self unat_scast_32)

termination memcpy_blocks
  by (relation "measure (\<lambda>(len, _). unat len)") (use len_at_least [of 32] in \<open>auto simp: unat_sub word_le_nat_alt\<close>)

termination memcpy_longs
  by (relation "measure (\<lambda>(len, _). unat len)") (use len_at_least [of 8] in \<open>auto simp: unat_sub word_le_nat_alt\<close>)

text \<open>\<open>while (len--)\<close> and the byte loops of \<open>rt_memmove\<close>.\<close>

fun copy_forward :: "nat \<Rightarrow> nat \<Rightarrow> nat \<Rightarrow> cmem \<Rightarrow> cmem option" where
  "copy_forward 0 d s m = Some m"
| "copy_forward (Suc n) d s m = do { v \<leftarrow> m s; m \<leftarrow> wr m d v; copy_forward n (d + 1) (s + 1) m }"

fun copy_backward :: "nat \<Rightarrow> nat \<Rightarrow> nat \<Rightarrow> cmem \<Rightarrow> cmem option" where
  "copy_backward 0 d s m = Some m"
| "copy_backward (Suc n) d s m = do { v \<leftarrow> m (s - 1); m \<leftarrow> wr m (d - 1) v; copy_backward n (d - 1) (s - 1) m }"

definition rt_memcpy :: "nat \<Rightarrow> nat \<Rightarrow> u64 \<Rightarrow> cmem \<Rightarrow> cmem option" where
  "rt_memcpy d s count m =
     (let len = ucast count :: u32 in
      if \<not> (scast len :: u64) < 32 \<and> s mod 8 = 0 \<and> d mod 8 = 0
      then do { (len, d, s, m) \<leftarrow> memcpy_blocks len d s m;
                (len, d, s, m) \<leftarrow> memcpy_longs len d s m;
                copy_forward (unat len) d s m }
      else copy_forward (unat len) d s m)"

definition rt_memmove :: "nat \<Rightarrow> nat \<Rightarrow> u64 \<Rightarrow> cmem \<Rightarrow> cmem option" where
  "rt_memmove d s n m =
     (if s < d \<and> d < s + unat n then copy_backward (unat n) (d + unat n) (s + unat n) m
      else copy_forward (unat n) d s m)"

subsection \<open>Comparing and searching\<close>

fun memcmp_loop :: "nat \<Rightarrow> nat \<Rightarrow> nat \<Rightarrow> cmem \<Rightarrow> int option" where
  "memcmp_loop 0 a b m = Some 0"
| "memcmp_loop (Suc n) a b m =
     do { x \<leftarrow> m a; y \<leftarrow> m b;
          if uint x - uint y \<noteq> 0 then Some (uint x - uint y) else memcmp_loop n (a + 1) (b + 1) m }"

definition rt_memcmp :: "nat \<Rightarrow> nat \<Rightarrow> u64 \<Rightarrow> cmem \<Rightarrow> int option" where
  "rt_memcmp a b count m = memcmp_loop (unat count) a b m"

partial_function (option) rt_strlen_from :: "nat \<Rightarrow> nat \<Rightarrow> cmem \<Rightarrow> nat option" where
  "rt_strlen_from s sc m = do { c \<leftarrow> m sc; if c \<noteq> 0 then rt_strlen_from s (sc + 1) m else Some (sc - s) }"

definition rt_strlen :: "nat \<Rightarrow> cmem \<Rightarrow> nat option" where
  "rt_strlen s m = rt_strlen_from s s m"

text \<open>The byte is read before the bound is looked at.\<close>

partial_function (option) rt_strnlen_from :: "nat \<Rightarrow> nat \<Rightarrow> nat \<Rightarrow> cmem \<Rightarrow> nat option" where
  "rt_strnlen_from s maxlen sc m =
     do { c \<leftarrow> m sc; if c \<noteq> 0 \<and> sc - s < maxlen then rt_strnlen_from s maxlen (sc + 1) m else Some (sc - s) }"

definition rt_strnlen :: "nat \<Rightarrow> nat \<Rightarrow> cmem \<Rightarrow> nat option" where
  "rt_strnlen s maxlen m = rt_strnlen_from s maxlen s m"

partial_function (option) rt_strcmp :: "nat \<Rightarrow> nat \<Rightarrow> cmem \<Rightarrow> int option" where
  "rt_strcmp a b m =
     do { x \<leftarrow> m a;
          y \<leftarrow> m b;
          if x \<noteq> 0 \<and> x = y then rt_strcmp (a + 1) (b + 1) m else Some (uint x - uint y) }"

text \<open>The difference is kept in a \<open>signed char\<close>.\<close>

fun strncmp_loop :: "nat \<Rightarrow> u8 \<Rightarrow> nat \<Rightarrow> nat \<Rightarrow> cmem \<Rightarrow> int option" where
  "strncmp_loop 0 r a b m = Some (sint r)"
| "strncmp_loop (Suc n) r a b m =
     do { x \<leftarrow> m a;
          y \<leftarrow> m b;
          let r = x - y;
          if r \<noteq> 0 \<or> x = 0 then Some (sint r) else strncmp_loop n r (a + 1) (b + 1) m }"

definition rt_strncmp :: "nat \<Rightarrow> nat \<Rightarrow> u64 \<Rightarrow> cmem \<Rightarrow> int option" where
  "rt_strncmp a b count m = strncmp_loop (unat count) 0 a b m"

definition lower :: "u8 \<Rightarrow> u8" where
  "lower c = (if 65 \<le> c \<and> c \<le> 90 then c + 32 else c)"

partial_function (option) rt_strcasecmp :: "nat \<Rightarrow> nat \<Rightarrow> cmem \<Rightarrow> int option" where
  "rt_strcasecmp a b m =
     do { x \<leftarrow> m a;
          y \<leftarrow> m b;
          if lower x = lower y \<and> lower x \<noteq> 0 then rt_strcasecmp (a + 1) (b + 1) m
          else Some (uint (lower x) - uint (lower y)) }"

text \<open>\<open>int l = rt_strlen(s)\<close>.\<close>

definition int_of_len :: "nat \<Rightarrow> int" where
  "int_of_len n = sint (of_nat n :: u32)"

function strstr_loop :: "int \<Rightarrow> int \<Rightarrow> nat \<Rightarrow> nat \<Rightarrow> cmem \<Rightarrow> nat option option" where
  "strstr_loop l1 l2 a b m =
     (if l2 \<le> l1
      then do { r \<leftarrow> rt_memcmp a b (word_of_int l2) m;
                if r = 0 then Some (Some a) else strstr_loop (l1 - 1) l2 (a + 1) b m }
      else Some None)"
  by auto

termination strstr_loop
  by (relation "measure (\<lambda>(l1, l2, _). nat (l1 - l2 + 1))") auto

text \<open>\<open>Some None\<close> is \<open>RT_NULL\<close>.\<close>

definition rt_strstr :: "nat \<Rightarrow> nat \<Rightarrow> cmem \<Rightarrow> nat option option" where
  "rt_strstr a b m =
     do { l2 \<leftarrow> rt_strlen b m;
          if int_of_len l2 = 0 then Some (Some a)
          else do { l1 \<leftarrow> rt_strlen a m; strstr_loop (int_of_len l1) (int_of_len l2) a b m } }"

declare memset_blocks.simps [simp del] memset_longs.simps [simp del] memcpy_blocks.simps [simp del]
  memcpy_longs.simps [simp del] strstr_loop.simps [simp del]

subsection \<open>Regions of memory\<close>

definition writable :: "cmem \<Rightarrow> nat \<Rightarrow> nat \<Rightarrow> bool" where
  "writable m a n \<longleftrightarrow> (\<forall>x. a \<le> x \<and> x < a + n \<longrightarrow> m x \<noteq> None)"

definition holds :: "cmem \<Rightarrow> nat \<Rightarrow> u8 list \<Rightarrow> bool" where
  "holds m a bs \<longleftrightarrow> (\<forall>i < length bs. m (a + i) = Some (bs ! i))"

definition put :: "cmem \<Rightarrow> nat \<Rightarrow> u8 list \<Rightarrow> cmem" where
  "put m a bs = (\<lambda>x. if a \<le> x \<and> x < a + length bs then Some (bs ! (x - a)) else m x)"

lemma put_Nil [simp]: "put m a [] = m"
  by (rule ext) (auto simp: put_def)

lemma put_Cons: "put m a (b # bs) = put (m(a \<mapsto> b)) (a + 1) bs"
  by (rule ext) (auto simp: put_def nth_Cons')

lemma put_append: "put (put m a xs) (a + length xs) ys = put m a (xs @ ys)"
  by (auto simp: put_def fun_eq_iff nth_append)

lemma writable_put: "writable m b n \<Longrightarrow> writable (put m a bs) b n"
  by (simp add: writable_def put_def)

lemma holds_Cons: "holds m a (b # bs) \<longleftrightarrow> m a = Some b \<and> holds m (a + 1) bs"
  by (simp add: holds_def All_less_Suc2)

lemma holds_Nil [simp]: "holds m a []"
  by (simp add: holds_def)

lemma holds_append: "holds m a (xs @ ys) \<longleftrightarrow> holds m a xs \<and> holds m (a + length xs) ys"
  by (induction xs arbitrary: a) (simp_all add: holds_Cons holds_Nil)

lemma holds_put: "s + length bs \<le> d \<or> d + length cs \<le> s \<Longrightarrow> holds (put m d cs) s bs = holds m s bs"
  by (auto simp: holds_def put_def intro!: all_cong1)

lemma wr_list_ok: "writable m a (length bs) \<Longrightarrow> wr_list m a bs = Some (put m a bs)"
proof (induction bs arbitrary: m a)
  case (Cons b bs)
  have "writable (m(a \<mapsto> b)) (a + 1) (length bs)" "m a \<noteq> None" using Cons.prems by (auto simp: writable_def)
  then show ?case using Cons.IH by (auto simp: wr_def put_Cons)
qed simp

lemma rd_list_ok: "holds m a bs \<Longrightarrow> rd_list m a (length bs) = Some bs"
  by (induction bs arbitrary: a) (auto simp: holds_Cons)

subsection \<open>What the block operations do\<close>

lemma memset_bytes_ok: "writable m a n \<Longrightarrow> memset_bytes d n a m = Some (put m a (replicate n d))"
proof (induction n arbitrary: a m)
  case (Suc n)
  have "writable (m(a \<mapsto> d)) (a + 1) n" "m a \<noteq> None" using Suc.prems by (auto simp: writable_def)
  then show ?case using Suc.IH by (auto simp: wr_def put_Cons)
qed simp

lemma bit_buffer: "bit (((\<lambda>b. push_bit 8 b OR ucast (d :: u8)) ^^ k) (0 :: u64)) j \<longleftrightarrow> j < 8 * k \<and> j < 64 \<and> bit d (j mod 8)"
proof (induction k arbitrary: j)
  case (Suc k)
  show ?case
  proof (cases "j < 8")
    case True
    then show ?thesis by (auto simp: bit_simps)
  next
    case False
    then have "\<not> bit d j" by (auto dest: bit_imp_le_length)
    then show ?thesis using False by (auto simp: bit_simps Suc le_mod_geq [symmetric])
  qed
qed simp

lemma long_bytes_buffer: "long_bytes (memset_buffer d) = replicate 8 d"
proof (rule nth_equalityI)
  fix i
  assume "i < length (long_bytes (memset_buffer d))"
  then have i: "i < 8" by (simp add: long_bytes_def)
  show "long_bytes (memset_buffer d) ! i = replicate 8 d ! i"
  proof (rule bit_word_eqI)
    fix n
    assume "n < LENGTH(8)"
    then show "bit (long_bytes (memset_buffer d) ! i) n \<longleftrightarrow> bit (replicate 8 d ! i) n"
      using i by (auto simp: long_bytes_def memset_buffer_def bit_simps bit_buffer)
  qed
qed (simp add: long_bytes_def)

text \<open>A run of long stores of the same byte.\<close>

lemma put_replicate: "put (put m a (replicate k d)) (a + k) (replicate n d) = put m a (replicate (k + n) d)"
  using put_append [of m a "replicate k d" "replicate n d"] by (simp add: replicate_add)

lemma store_run:
  assumes "long_bytes w = replicate 8 d" "writable m a (k + 8)"
  shows "wr_list (put m a (replicate k d)) (a + k) (long_bytes w) = Some (put m a (replicate (k + 8) d))"
proof -
  have "writable (put m a (replicate k d)) (a + k) (length (long_bytes w))"
    using assms by (intro writable_put) (auto simp: writable_def)
  from wr_list_ok [OF this] show ?thesis by (simp only: assms(1) put_replicate)
qed

lemma memset_blocks_ok:
  assumes w: "long_bytes w = replicate 8 d"
  shows "writable m a n \<Longrightarrow> \<exists>k. k \<le> n \<and> memset_blocks w n a m = Some (n - k, a + k, put m a (replicate k d))"
proof (induction n arbitrary: a m rule: less_induct)
  case (less n)
  show ?case
  proof (cases "32 \<le> n")
    case False
    then show ?thesis by (intro exI [of _ 0]) (simp add: memset_blocks.simps)
  next
    case True
    have wm: "writable m a (j + 8)" if "j \<le> 24" for j using less.prems that True by (auto simp: writable_def)
    note S = store_run [OF w wm]
    let ?m = "put m a (replicate 32 d)"
    have "writable ?m (a + 32) (n - 32)" using less.prems True by (intro writable_put) (auto simp: writable_def)
    then obtain k where k: "k \<le> n - 32" "memset_blocks w (n - 32) (a + 32) ?m = Some (n - 32 - k, a + 32 + k, put ?m (a + 32) (replicate k d))"
      using less.IH [of "n - 32"] True by auto
    have "memset_blocks w n a m = memset_blocks w (n - 32) (a + 32) ?m"
      using S [of 0] S [of 8] S [of 16] S [of 24] True by (simp add: memset_blocks.simps [of w n a m])
    then show ?thesis using k True by (intro exI [of _ "32 + k"]) (simp add: put_replicate)
  qed
qed

lemma memset_longs_ok:
  assumes w: "long_bytes w = replicate 8 d"
  shows "writable m a n \<Longrightarrow> \<exists>k. k \<le> n \<and> memset_longs w n a m = Some (n - k, a + k, put m a (replicate k d))"
proof (induction n arbitrary: a m rule: less_induct)
  case (less n)
  show ?case
  proof (cases "8 \<le> n")
    case False
    then show ?thesis by (intro exI [of _ 0]) (simp add: memset_longs.simps)
  next
    case True
    let ?m = "put m a (replicate 8 d)"
    have "writable m a (0 + 8)" using less.prems True by (auto simp: writable_def)
    note S = store_run [OF w this]
    have "writable ?m (a + 8) (n - 8)" using less.prems True by (intro writable_put) (auto simp: writable_def)
    then obtain k where k: "k \<le> n - 8" "memset_longs w (n - 8) (a + 8) ?m = Some (n - 8 - k, a + 8 + k, put ?m (a + 8) (replicate k d))"
      using less.IH [of "n - 8"] True by auto
    have "memset_longs w n a m = memset_longs w (n - 8) (a + 8) ?m"
      using S True by (simp add: memset_longs.simps [of w n a m])
    then show ?thesis using k True by (intro exI [of _ "8 + k"]) (simp add: put_replicate)
  qed
qed

lemma memset_ok:
  assumes "writable m a (unat n)"
  shows "rt_memset a c n m = Some (put m a (replicate (unat n) (ucast (c AND 0xff))))"
proof (cases "\<not> unat n < 8 \<and> a mod 8 = 0")
  case False
  then show ?thesis using memset_bytes_ok [OF assms] by (auto simp: rt_memset_def)
next
  case True
  let ?d = "ucast (c AND 0xff) :: u8"
  note w = long_bytes_buffer [of ?d]
  obtain k where k: "k \<le> unat n" "memset_blocks (memset_buffer ?d) (unat n) a m = Some (unat n - k, a + k, put m a (replicate k ?d))"
    using memset_blocks_ok [OF w assms] by blast
  have "writable (put m a (replicate k ?d)) (a + k) (unat n - k)" using assms k(1) by (intro writable_put) (auto simp: writable_def)
  then obtain j where j: "j \<le> unat n - k" "memset_longs (memset_buffer ?d) (unat n - k) (a + k) (put m a (replicate k ?d)) =
      Some (unat n - k - j, a + k + j, put m a (replicate (k + j) ?d))"
    using memset_longs_ok [OF w] by (metis put_replicate)
  have "writable (put m a (replicate (k + j) ?d)) (a + k + j) (unat n - k - j)"
    using assms k(1) j(1) by (intro writable_put) (auto simp: writable_def)
  from memset_bytes_ok [OF this, of ?d]
  have "memset_bytes ?d (unat n - k - j) (a + k + j) (put m a (replicate (k + j) ?d)) = Some (put m a (replicate (unat n) ?d))"
    using put_replicate [of m a "k + j" ?d "unat n - k - j"] k(1) j(1) by (simp add: add.assoc)
  then show ?thesis using True k(2) j(2) by (simp add: rt_memset_def)
qed

lemma copy_forward_ok:
  "holds m s bs \<Longrightarrow> writable m d (length bs) \<Longrightarrow> d \<le> s \<or> s + length bs \<le> d \<Longrightarrow>
   copy_forward (length bs) d s m = Some (put m d bs)"
proof (induction bs arbitrary: m d s)
  case (Cons b bs)
  have 1: "holds (m(d \<mapsto> b)) (s + 1) bs" using Cons.prems by (auto simp: holds_def)
  have 2: "writable (m(d \<mapsto> b)) (d + 1) (length bs)" "m d \<noteq> None" using Cons.prems(2) by (auto simp: writable_def)
  have "d + 1 \<le> s + 1 \<or> s + 1 + length bs \<le> d + 1" using Cons.prems(3) by auto
  then have "copy_forward (length bs) (d + 1) (s + 1) (m(d \<mapsto> b)) = Some (put (m(d \<mapsto> b)) (d + 1) bs)"
    by (rule Cons.IH [OF 1 2(1)])
  then show ?case using Cons.prems(1) 2(2) by (auto simp: wr_def put_Cons holds_Cons)
qed simp

lemma copy_backward_ok:
  "holds m s bs \<Longrightarrow> writable m d (length bs) \<Longrightarrow> s \<le> d \<Longrightarrow>
   copy_backward (length bs) (d + length bs) (s + length bs) m = Some (put m d bs)"
proof (induction bs arbitrary: m rule: rev_induct)
  case (snoc b bs)
  let ?m = "m(d + length bs \<mapsto> b)"
  have 1: "holds ?m s bs" using snoc.prems by (auto simp: holds_def nth_append)
  have 2: "writable ?m d (length bs)" "m (d + length bs) \<noteq> None" using snoc.prems(2) by (auto simp: writable_def)
  have 3: "m (s + length bs) = Some b" using snoc.prems(1) by (simp add: holds_append holds_Cons)
  have "put ?m d bs = put m d (bs @ [b])" by (rule ext) (auto simp: put_def nth_append)
  moreover have "copy_backward (length bs) (d + length bs) (s + length bs) ?m = Some (put ?m d bs)"
    by (rule snoc.IH [OF 1 2(1) snoc.prems(3)])
  ultimately show ?case using 2(2) 3 by (auto simp: wr_def)
qed simp

lemma copy_long_ok:
  assumes "holds m s bs" "length bs = 8" "writable m d 8"
  shows "copy_long d s m = Some (put m d bs)"
  using rd_list_ok [OF assms(1)] wr_list_ok [of m d bs] assms(2,3) by (simp add: copy_long_def)

text \<open>A run of long copies.\<close>

definition copied :: "nat \<Rightarrow> nat \<Rightarrow> u8 list \<Rightarrow> cmem \<Rightarrow> nat \<Rightarrow> cmem" where
  "copied d s bs m k = put m d (take k bs)"

lemma copied_step:
  assumes "holds m s bs" "writable m d (length bs)" "d \<le> s \<or> s + length bs \<le> d" "k + 8 \<le> length bs"
  shows "copy_long (d + k) (s + k) (copied d s bs m k) = Some (copied d s bs m (k + 8))"
proof -
  have "holds (copied d s bs m k) (s + k) (take 8 (drop k bs))"
    using assms by (auto simp: holds_def copied_def put_def add.assoc)
  moreover have "writable (copied d s bs m k) (d + k) 8"
    unfolding copied_def using assms(2,4) by (intro writable_put) (auto simp: writable_def)
  ultimately have "copy_long (d + k) (s + k) (copied d s bs m k) = Some (put (copied d s bs m k) (d + k) (take 8 (drop k bs)))"
    using assms(4) by (intro copy_long_ok) simp_all
  moreover have "put (copied d s bs m k) (d + k) (take 8 (drop k bs)) = copied d s bs m (k + 8)"
    using put_append [of m d "take k bs" "take 8 (drop k bs)"] assms(4) by (simp add: copied_def take_add)
  ultimately show ?thesis by simp
qed

lemma memcpy_longs_ok:
  assumes region: "holds m s bs" "writable m d (length bs)" "d \<le> s \<or> s + length bs \<le> d"
  shows "k + unat len = length bs \<Longrightarrow>
   \<exists>j len'. j + unat len' = length bs \<and> memcpy_longs len (d + k) (s + k) (copied d s bs m k) = Some (len', d + j, s + j, copied d s bs m j)"
proof (induction "unat len" arbitrary: len k rule: less_induct)
  case less
  show ?case
  proof (cases "(8 :: u64) \<le> scast len")
    case False
    then show ?thesis using less.prems by (intro exI [of _ k] exI [of _ len]) (simp add: memcpy_longs.simps)
  next
    case True
    then have l: "8 \<le> unat len" using len_at_least [of 8 len] by simp
    then have u: "unat (len - 8) = unat len - 8" by (simp add: unat_sub word_le_nat_alt)
    have "copy_long (d + k) (s + k) (copied d s bs m k) = Some (copied d s bs m (k + 8))"
      by (rule copied_step [OF region]) (use less.prems l in simp)
    then have e: "memcpy_longs len (d + k) (s + k) (copied d s bs m k) = memcpy_longs (len - 8) (d + (k + 8)) (s + (k + 8)) (copied d s bs m (k + 8))"
      using True by (simp add: memcpy_longs.simps [of len] add.assoc)
    show ?thesis unfolding e by (rule less.hyps) (use u l less.prems in simp_all)
  qed
qed

lemma memcpy_blocks_ok:
  assumes region: "holds m s bs" "writable m d (length bs)" "d \<le> s \<or> s + length bs \<le> d"
  shows "k + unat len = length bs \<Longrightarrow>
   \<exists>j len'. j + unat len' = length bs \<and> memcpy_blocks len (d + k) (s + k) (copied d s bs m k) = Some (len', d + j, s + j, copied d s bs m j)"
proof (induction "unat len" arbitrary: len k rule: less_induct)
  case less
  show ?case
  proof (cases "(32 :: u64) \<le> scast len")
    case False
    then show ?thesis using less.prems by (intro exI [of _ k] exI [of _ len]) (simp add: memcpy_blocks.simps)
  next
    case True
    then have l: "32 \<le> unat len" using len_at_least [of 32 len] by simp
    then have u: "unat (len - 32) = unat len - 32" by (simp add: unat_sub word_le_nat_alt)
    have S: "copy_long (d + (k + i)) (s + (k + i)) (copied d s bs m (k + i)) = Some (copied d s bs m (k + (i + 8)))" if "i \<le> 24" for i
      using copied_step [OF region, of "k + i"] that less.prems l by (simp add: add.assoc)
    have e: "memcpy_blocks len (d + k) (s + k) (copied d s bs m k) = memcpy_blocks (len - 32) (d + (k + 32)) (s + (k + 32)) (copied d s bs m (k + 32))"
      using True S [of 0] S [of 8] S [of 16] S [of 24] by (simp add: memcpy_blocks.simps [of len "d + k"] add.assoc)
    show ?thesis unfolding e by (rule less.hyps) (use u l less.prems in simp_all)
  qed
qed

lemma copy_rest:
  assumes region: "holds m s bs" "writable m d (length bs)" "d \<le> s \<or> s + length bs \<le> d"
  shows "j + n = length bs \<Longrightarrow> copy_forward n (d + j) (s + j) (copied d s bs m j) = Some (put m d bs)"
proof -
  assume j: "j + n = length bs"
  have h: "holds (copied d s bs m j) (s + j) (drop j bs)"
    using region j by (auto simp: holds_def copied_def put_def add.assoc)
  have w: "writable (copied d s bs m j) (d + j) (length (drop j bs))"
    unfolding copied_def using region(2) j by (intro writable_put) (auto simp: writable_def)
  have f: "d + j \<le> s + j \<or> s + j + length (drop j bs) \<le> d + j" using region(3) j by auto
  have "copy_forward (length (drop j bs)) (d + j) (s + j) (copied d s bs m j) = Some (put (copied d s bs m j) (d + j) (drop j bs))"
    by (rule copy_forward_ok [OF h w f])
  moreover have "put (copied d s bs m j) (d + j) (drop j bs) = put m d bs"
    using put_append [of m d "take j bs" "drop j bs"] j by (simp add: copied_def)
  moreover have "length (drop j bs) = n" using j by simp
  ultimately show ?thesis by simp
qed

lemma memcpy_ok:
  assumes r: "holds m s bs" "writable m d (length bs)" "d \<le> s \<or> s + length bs \<le> d" and n: "length bs = unat (ucast n :: u32)"
  shows "rt_memcpy d s n m = Some (put m d bs)"
proof (cases "\<not> (scast (ucast n :: u32) :: u64) < 32 \<and> s mod 8 = 0 \<and> d mod 8 = 0")
  case False
  then show ?thesis using copy_forward_ok [OF r] n by (auto simp: rt_memcpy_def Let_def)
next
  case True
  have c0: "copied d s bs m 0 = m" by (simp add: copied_def)
  obtain j l where j: "j + unat l = length bs" "memcpy_blocks (ucast n) d s m = Some (l, d + j, s + j, copied d s bs m j)"
    using memcpy_blocks_ok [OF r, of 0 "ucast n"] n c0 by auto
  obtain i l' where i: "i + unat l' = length bs" "memcpy_longs l (d + j) (s + j) (copied d s bs m j) = Some (l', d + i, s + i, copied d s bs m i)"
    using memcpy_longs_ok [OF r j(1)] by blast
  show ?thesis using True j(2) i(2) copy_rest [OF r i(1)] by (simp add: rt_memcpy_def)
qed

lemma memmove_ok:
  assumes "holds m s bs" "writable m d (length bs)" "unat n = length bs"
  shows "rt_memmove d s n m = Some (put m d bs)"
  using copy_backward_ok [OF assms(1,2)] copy_forward_ok [OF assms(1,2)] assms(3) by (auto simp: rt_memmove_def)

subsection \<open>What the string operations do\<close>

definition cstr :: "cmem \<Rightarrow> nat \<Rightarrow> u8 list \<Rightarrow> bool" where
  "cstr m a xs \<longleftrightarrow> holds m a (xs @ [0]) \<and> 0 \<notin> set xs"

lemma cstr_simps:
  "cstr m a [] \<longleftrightarrow> m a = Some 0"
  "cstr m a (x # xs) \<longleftrightarrow> m a = Some x \<and> x \<noteq> 0 \<and> cstr m (a + 1) xs"
  by (auto simp: cstr_def holds_Cons)

lemma cstr_append: "cstr m a (xs @ ys) \<Longrightarrow> cstr m (a + length xs) ys"
  by (simp add: cstr_def holds_append)

lemma strlen_ok: "cstr m a xs \<Longrightarrow> rt_strlen a m = Some (length xs)"
proof -
  have "cstr m (a + k) xs \<Longrightarrow> rt_strlen_from a (a + k) m = Some (k + length xs)" for k
  proof (induction xs arbitrary: k)
    case Nil
    then show ?case by (simp add: rt_strlen_from.simps [of a "a + k"] cstr_simps)
  next
    case (Cons x xs)
    then show ?case using Cons.IH [of "Suc k"] by (subst rt_strlen_from.simps) (simp add: cstr_simps)
  qed
  from this [of 0] show "cstr m a xs \<Longrightarrow> ?thesis" by (simp add: rt_strlen_def)
qed

lemma strnlen_ok:
  assumes "holds m a xs" "0 \<notin> set xs"
  shows "length xs < n \<Longrightarrow> m (a + length xs) = Some 0 \<Longrightarrow> rt_strnlen a n m = Some (length xs)"
    "length xs = n \<Longrightarrow> rt_strnlen a n m = map_option (\<lambda>_. n) (m (a + n))"
proof -
  have step: "k \<le> length xs \<Longrightarrow> k \<le> n \<Longrightarrow> rt_strnlen a n m = rt_strnlen_from a n (a + k) m" for k
  proof (induction k)
    case (Suc k)
    then have "m (a + k) = Some (xs ! k)" "xs ! k \<noteq> 0" using assms by (auto simp: holds_def in_set_conv_nth)
    then show ?case using Suc by (simp add: rt_strnlen_from.simps [of a n "a + k"])
  qed (simp add: rt_strnlen_def)
  show "length xs < n \<Longrightarrow> m (a + length xs) = Some 0 \<Longrightarrow> rt_strnlen a n m = Some (length xs)"
    using step [of "length xs"] by (simp add: rt_strnlen_from.simps [of a n "a + length xs"])
  show "length xs = n \<Longrightarrow> rt_strnlen a n m = map_option (\<lambda>_. n) (m (a + n))"
    using step [of "length xs"] by (cases "m (a + n)") (simp_all add: rt_strnlen_from.simps [of a n "a + n"])
qed

text \<open>The difference of the first bytes that differ, the terminator included.\<close>

fun str_diff :: "u8 list \<Rightarrow> u8 list \<Rightarrow> int" where
  "str_diff (x # xs) (y # ys) = (if x = y then str_diff xs ys else uint x - uint y)"
| "str_diff [] (y # ys) = - uint y"
| "str_diff (x # xs) [] = uint x"
| "str_diff [] [] = 0"

lemma str_diff_zero: "0 \<notin> set xs \<Longrightarrow> 0 \<notin> set ys \<Longrightarrow> str_diff xs ys = 0 \<longleftrightarrow> xs = ys"
  by (induction xs ys rule: str_diff.induct) (auto simp: word_uint_eq_iff)

lemma str_diff_zero_length: "length xs = length ys \<Longrightarrow> str_diff xs ys = 0 \<longleftrightarrow> xs = ys"
  by (induction xs ys rule: str_diff.induct) (auto simp: word_uint_eq_iff)

lemma str_diff_less:
  "0 \<notin> set xs \<Longrightarrow> 0 \<notin> set ys \<Longrightarrow> str_diff xs ys < 0 \<longleftrightarrow> (xs, ys) \<in> lexord {(x, y). x < y}"
proof (induction xs ys rule: str_diff.induct)
  case (1 x xs y ys)
  then show ?case by (auto simp: word_less_def)
next
  case (2 y ys)
  then have "0 < uint y" using uint_nonnegative [of y] by (auto simp: word_uint_eq_iff order.strict_iff_order)
  then show ?case by simp
qed (simp_all add: not_less)

lemma strcmp_ok: "cstr m a xs \<Longrightarrow> cstr m b ys \<Longrightarrow> rt_strcmp a b m = Some (str_diff xs ys)"
proof (induction xs ys arbitrary: a b rule: str_diff.induct)
  case (1 x xs y ys)
  then show ?case by (subst rt_strcmp.simps) (auto simp: cstr_simps)
qed (subst rt_strcmp.simps; auto simp: cstr_simps)+

lemma lower_zero [simp]: "lower 0 = 0" "lower x = 0 \<longleftrightarrow> x = 0"
proof -
  have "x + 32 \<noteq> 0" if "x \<le> 90"
  proof
    assume "x + 32 = 0"
    then have "x = - 32" by (simp only: eq_neg_iff_add_eq_0)
    then show False using that by simp
  qed
  then show "lower x = 0 \<longleftrightarrow> x = 0" by (auto simp: lower_def)
qed (simp add: lower_def)

lemma strcasecmp_ok: "cstr m a xs \<Longrightarrow> cstr m b ys \<Longrightarrow> rt_strcasecmp a b m = Some (str_diff (map lower xs) (map lower ys))"
proof (induction xs arbitrary: a b ys)
  case Nil
  then show ?case by (subst rt_strcasecmp.simps) (cases ys; auto simp: cstr_simps)
next
  case (Cons x xs)
  then show ?case by (subst rt_strcasecmp.simps) (cases ys; auto simp: cstr_simps)
qed

lemma memcmp_ok:
  "holds m a xs \<Longrightarrow> holds m b ys \<Longrightarrow> length xs = length ys \<Longrightarrow> memcmp_loop (length xs) a b m = Some (str_diff xs ys)"
  by (induction xs ys arbitrary: a b rule: str_diff.induct) (auto simp: holds_Cons word_uint_eq_iff)

lemma strncmp_ok:
  "cstr m a xs \<Longrightarrow> cstr m b ys \<Longrightarrow> \<exists>r. strncmp_loop n 0 a b m = Some r \<and> (r = 0 \<longleftrightarrow> take n xs = take n ys)"
proof (induction n arbitrary: a b xs ys)
  case (Suc n)
  show ?case
  proof (cases xs; cases ys)
    fix x xs' y ys'
    assume "xs = x # xs'" "ys = y # ys'"
    then show ?thesis using Suc by (auto simp: cstr_simps Let_def signed_eq_0_iff)
  qed (use Suc.prems in \<open>auto simp: cstr_simps Let_def signed_eq_0_iff\<close>)
qed simp

text \<open>With bytes below 128 the difference of two bytes fits a \<open>signed char\<close>.\<close>

lemma sint_diff: "uint (x :: u8) < 128 \<Longrightarrow> uint (y :: u8) < 128 \<Longrightarrow> sint (x - y) = uint x - uint y"
proof -
  assume b: "uint x < 128" "uint y < 128"
  have r: "- 127 \<le> uint x - uint y" "uint x - uint y \<le> 127"
    using b uint_nonnegative [of x] uint_nonnegative [of y] by linarith+
  have "x - y = word_of_int (uint x - uint y)" by (rule word_sub_wi)
  then have "sint (x - y) = sint (word_of_int (uint x - uint y) :: u8)" by (simp only:)
  also have "\<dots> = uint x - uint y" by (subst int_word_sint) (use r in \<open>simp add: mod_pos_pos_trivial\<close>)
  finally show ?thesis .
qed

lemma strncmp_ascii:
  "cstr m a xs \<Longrightarrow> cstr m b ys \<Longrightarrow> \<forall>x \<in> set xs \<union> set ys. uint x < 128 \<Longrightarrow>
   strncmp_loop n 0 a b m = Some (str_diff (take n xs) (take n ys))"
proof (induction n arbitrary: a b xs ys)
  case (Suc n)
  show ?case
  proof (cases xs; cases ys)
    fix x xs' y ys'
    assume "xs = x # xs'" "ys = y # ys'"
    then show ?thesis using Suc sint_diff [of x y] by (auto simp: cstr_simps Let_def)
  next
    fix y ys'
    assume "xs = []" "ys = y # ys'"
    then show ?thesis using Suc sint_diff [of 0 y] by (auto simp: cstr_simps Let_def)
  next
    fix x xs'
    assume "xs = x # xs'" "ys = []"
    then show ?thesis using Suc sint_diff [of x 0] by (auto simp: cstr_simps Let_def)
  qed (use Suc.prems in \<open>auto simp: cstr_simps Let_def\<close>)
qed simp

text \<open>Where the difference does not fit a \<open>signed char\<close> its sign is wrong.\<close>

lemma strncmp_sign: "cstr m a [200] \<Longrightarrow> cstr m b [1] \<Longrightarrow> rt_strncmp a b 1 m = Some (- 57) \<and> rt_strcmp a b m = Some 199"
  by (simp add: rt_strncmp_def strcmp_ok) (simp add: cstr_simps)

fun find_at :: "u8 list \<Rightarrow> u8 list \<Rightarrow> nat option" where
  "find_at ys xs =
     (if length xs < length ys then None
      else if take (length ys) xs = ys then Some 0
      else case xs of [] \<Rightarrow> None | _ # xs' \<Rightarrow> map_option Suc (find_at ys xs'))"

declare find_at.simps [simp del]

lemma find_at_first:
  "find_at ys xs = Some i \<Longrightarrow> take (length ys) (drop i xs) = ys \<and> (\<forall>j < i. take (length ys) (drop j xs) \<noteq> ys)"
proof (induction xs arbitrary: i)
  case (Cons x xs)
  show ?case
  proof (cases "take (length ys) (x # xs) = ys")
    case True
    then show ?thesis using Cons.prems by (auto simp: find_at.simps [of ys "x # xs"] split: if_splits)
  next
    case False
    then obtain k where "find_at ys xs = Some k" "i = Suc k"
      using Cons.prems by (auto simp: find_at.simps [of ys "x # xs"] split: if_splits)
    then show ?thesis using Cons.IH False by (auto simp: less_Suc_eq_0_disj)
  qed
qed (auto simp: find_at.simps [of ys "[]"] split: if_splits)

lemma find_at_none: "find_at ys xs = None \<Longrightarrow> take (length ys) (drop j xs) \<noteq> ys"
proof (induction xs arbitrary: j)
  case (Cons x xs)
  show ?case
  proof (cases "length (x # xs) < length ys")
    case True
    then show ?thesis by (metis length_drop length_take less_imp_diff_less min_less_iff_disj nat_neq_iff)
  next
    case False
    then have "take (length ys) (x # xs) \<noteq> ys" "find_at ys xs = None"
      using Cons.prems by (auto simp: find_at.simps [of ys "x # xs"] split: if_splits)
    then show ?thesis using Cons.IH by (cases j) auto
  qed
qed (auto simp: find_at.simps [of ys "[]"] split: if_splits)

lemma strstr_loop_ok:
  assumes "holds m b ys" "ys \<noteq> []" "length ys < 2 ^ 31"
  shows "holds m a xs \<Longrightarrow> strstr_loop (int (length xs)) (int (length ys)) a b m = Some (map_option ((+) a) (find_at ys xs))"
proof (induction xs arbitrary: a)
  case Nil
  then show ?case using assms(2) by (simp add: strstr_loop.simps find_at.simps)
next
  case (Cons x xs)
  show ?case
  proof (cases "length ys \<le> length (x # xs)")
    case False
    then show ?thesis by (subst strstr_loop.simps, subst find_at.simps) simp
  next
    case True
    let ?t = "take (length ys) (x # xs)"
    have "unat (word_of_int (int (length ys)) :: u64) = length ys"
      using assms(3) by (simp add: unat_of_nat take_bit_nat_eq_self)
    moreover have "holds m a ?t" using Cons.prems True by (auto simp: holds_def)
    ultimately have c: "rt_memcmp a b (word_of_int (int (length ys))) m = Some (str_diff ?t ys)"
      using memcmp_ok [of m a ?t b ys] assms(1) True by (simp add: rt_memcmp_def min_absorb2)
    have z: "str_diff ?t ys = 0 \<longleftrightarrow> ?t = ys" by (rule str_diff_zero_length) (use True in simp)
    have i: "strstr_loop (int (length xs)) (int (length ys)) (a + 1) b m = Some (map_option ((+) (a + 1)) (find_at ys xs))"
      by (rule Cons.IH) (use Cons.prems in \<open>simp add: holds_Cons\<close>)
    show ?thesis
      by (subst strstr_loop.simps, subst find_at.simps) (cases "find_at ys xs"; use c z True i in auto)
  qed
qed

lemma int_of_len_small: "n < 2 ^ 31 \<Longrightarrow> int_of_len n = int n"
proof -
  assume n: "n < 2 ^ 31"
  have "uint (of_nat n :: u32) = int n" using n by (simp add: unsigned_of_nat take_bit_nat_eq_self)
  moreover have "signed_take_bit 31 (int n) = int n"
    using n by (subst signed_take_bit_int_eq_self_iff) simp
  ultimately show ?thesis by (simp add: int_of_len_def sint_uint)
qed

lemma strstr_ok:
  assumes "cstr m a xs" "cstr m b ys" "length xs < 2 ^ 31" "length ys < 2 ^ 31"
  shows "rt_strstr a b m = Some (map_option ((+) a) (find_at ys xs))"
proof (cases "ys = []")
  case True
  then have "find_at ys xs = Some 0" by (simp add: find_at.simps)
  then show ?thesis using True strlen_ok [OF assms(2)] by (simp add: rt_strstr_def int_of_len_small)
next
  case False
  have "holds m b ys" "holds m a xs" using assms(1,2) by (simp_all add: cstr_def holds_append)
  then show ?thesis
    using strstr_loop_ok [of m b ys a xs] False assms strlen_ok [OF assms(1)] strlen_ok [OF assms(2)]
    by (simp add: rt_strstr_def int_of_len_small)
qed

subsection \<open>Correctness\<close>

definition sample_mem :: cmem where
  "sample_mem = put (put (\<lambda>_. None) 16 (map of_nat [97, 98, 99, 98, 99, 100, 0])) 32 (map of_nat [98, 99, 100, 0])"

text \<open>C16: rt_memset fills exactly the given bytes, rt_memcpy copies when no byte is overwritten before it
  is read, and rt_memmove copies between any two regions; each leaves every other byte alone and touches
  nothing outside the regions it is given.\<close>

theorem rt_mem_ops_spec:
  assumes "writable m d (length bs)" "unat n = length bs"
  shows "rt_memset d c n m = Some (put m d (replicate (length bs) (ucast (c AND 0xff)))) \<and>
    (holds m s bs \<longrightarrow> rt_memmove d s n m = Some (put m d bs)) \<and>
    (holds m s bs \<and> (d \<le> s \<or> s + length bs \<le> d) \<and> length bs < 2 ^ 32 \<longrightarrow> rt_memcpy d s n m = Some (put m d bs)) \<and>
    holds (put m d bs) d bs \<and> (\<forall>x. x < d \<or> d + length bs \<le> x \<longrightarrow> put m d bs x = m x)"
proof (intro conjI impI allI)
  show "rt_memset d c n m = Some (put m d (replicate (length bs) (ucast (c AND 0xff))))"
    using memset_ok [of m d n c] assms by simp
  show "rt_memmove d s n m = Some (put m d bs)" if "holds m s bs" using memmove_ok [OF that assms] .
  show "rt_memcpy d s n m = Some (put m d bs)" if "holds m s bs \<and> (d \<le> s \<or> s + length bs \<le> d) \<and> length bs < 2 ^ 32"
  proof (rule memcpy_ok)
    show "length bs = unat (ucast n :: u32)" using that assms(2) by (simp add: unat_ucast_down)
  qed (use that assms in simp_all)
qed (auto simp: put_def holds_def)

theorem rt_mem_ops_spec_witness:
  "rt_memmove 17 16 5 sample_mem = Some (put sample_mem 17 (map of_nat [97, 98, 99, 98, 99]))"
proof -
  let ?bs = "map of_nat [97, 98, 99, 98, 99] :: u8 list"
  have w: "writable sample_mem 17 (length ?bs)" by (auto simp: writable_def sample_mem_def put_def)
  have h: "holds sample_mem 16 ?bs" by (simp add: holds_Cons sample_mem_def put_def)
  show ?thesis using rt_mem_ops_spec [OF w, of 5 0 16] h by simp
qed

text \<open>C34: On terminated strings every search and comparison ends and stays inside them: rt_strlen is the
  length, rt_strcmp is 0 on equal strings and negative exactly when the first comes first in the order of the
  bytes, rt_strcasecmp compares the same way, in sign too, the strings with their letters made small,
  rt_strncmp is 0 exactly when the first n bytes agree and on strings of bytes below 128 negative exactly when the
  first n bytes of the first string come first, and rt_strstr gives the first place the second string occurs at,
  or NULL.\<close>

theorem rt_str_ops_spec:
  assumes "cstr m a xs" "cstr m b ys" "length xs < 2 ^ 31" "length ys < 2 ^ 31"
  shows "rt_strlen a m = Some (length xs) \<and>
    (\<exists>r. rt_strcmp a b m = Some r \<and> (r = 0 \<longleftrightarrow> xs = ys) \<and> (r < 0 \<longleftrightarrow> (xs, ys) \<in> lexord {(x, y). x < y})) \<and>
    (\<exists>r. rt_strcasecmp a b m = Some r \<and> (r = 0 \<longleftrightarrow> map lower xs = map lower ys) \<and>
       (r < 0 \<longleftrightarrow> (map lower xs, map lower ys) \<in> lexord {(x, y). x < y})) \<and>
    (\<exists>r. rt_strncmp a b n m = Some r \<and> (r = 0 \<longleftrightarrow> take (unat n) xs = take (unat n) ys) \<and>
       ((\<forall>x \<in> set xs \<union> set ys. uint x < 128) \<longrightarrow>
          (r < 0 \<longleftrightarrow> (take (unat n) xs, take (unat n) ys) \<in> lexord {(x, y). x < y}))) \<and>
    (case rt_strstr a b m of
       Some (Some p) \<Rightarrow> \<exists>i. p = a + i \<and> take (length ys) (drop i xs) = ys \<and> (\<forall>j < i. take (length ys) (drop j xs) \<noteq> ys)
     | Some None \<Rightarrow> \<forall>j. take (length ys) (drop j xs) \<noteq> ys
     | None \<Rightarrow> False)"
proof -
  have z: "0 \<notin> set xs" "0 \<notin> set ys" using assms(1,2) by (simp_all add: cstr_def)
  then have l: "0 \<notin> set (map lower xs)" "0 \<notin> set (map lower ys)" by auto
  have n: "(\<forall>x \<in> set xs \<union> set ys. uint x < 128) \<Longrightarrow> strncmp_loop k 0 a b m = Some (str_diff (take k xs) (take k ys))"
    "str_diff (take k xs) (take k ys) < 0 \<longleftrightarrow> (take k xs, take k ys) \<in> lexord {(x, y). x < y}" for k
    using strncmp_ascii [OF assms(1,2)] str_diff_less [of "take k xs" "take k ys"] z by (blast dest: in_set_takeD)+
  have nc: "\<exists>r. rt_strncmp a b n m = Some r \<and> (r = 0 \<longleftrightarrow> take (unat n) xs = take (unat n) ys) \<and>
       ((\<forall>x \<in> set xs \<union> set ys. uint x < 128) \<longrightarrow>
          (r < 0 \<longleftrightarrow> (take (unat n) xs, take (unat n) ys) \<in> lexord {(x, y). x < y}))"
    using strncmp_ok [OF assms(1,2), of "unat n"] n [of "unat n"] unfolding rt_strncmp_def by fastforce
  have s: "case rt_strstr a b m of
       Some (Some p) \<Rightarrow> \<exists>i. p = a + i \<and> take (length ys) (drop i xs) = ys \<and> (\<forall>j < i. take (length ys) (drop j xs) \<noteq> ys)
     | Some None \<Rightarrow> \<forall>j. take (length ys) (drop j xs) \<noteq> ys
     | None \<Rightarrow> False"
    using find_at_first [of ys xs] find_at_none [of ys xs] by (cases "find_at ys xs") (auto simp: strstr_ok [OF assms])
  show ?thesis
    using strlen_ok [OF assms(1)] strcmp_ok [OF assms(1,2)] str_diff_zero [OF z] str_diff_less [OF z]
      strcasecmp_ok [OF assms(1,2)] str_diff_zero [OF l] str_diff_less [OF l] nc s
    by simp
qed

theorem rt_str_ops_spec_witness:
  "rt_strlen 16 sample_mem = Some 6 \<and> (\<exists>p. rt_strstr 16 32 sample_mem = Some p) \<and>
   (\<exists>r. rt_strcasecmp 16 32 sample_mem = Some r \<and> r < 0)"
proof -
  have c: "cstr sample_mem 16 (map of_nat [97, 98, 99, 98, 99, 100])" "cstr sample_mem 32 (map of_nat [98, 99, 100])"
    by (simp_all add: cstr_simps sample_mem_def put_def)
  have "(map lower (map of_nat [97, 98, 99, 98, 99, 100]), map lower (map of_nat [98, 99, 100])) \<in> lexord {(x, y). x < y}"
    by (simp add: lower_def)
  with rt_str_ops_spec [OF c, of 3] show ?thesis by (auto split: option.splits)
qed

end
