(* ===== verification/KernelAlloc.thy ===== *)
theory KernelAlloc
  imports SmallMemProps Kstring
begin

section \<open>Allocation on top of the heap (\<open>src/kservice.c\<close>)\<close>

text \<open>
  \<open>rt_strdup\<close> and the aligned allocation, which keeps the pointer of the real block in the word in front of
  the one it hands out.  These see the bytes of the blocks: the memory of theory Kstring.
\<close>

definition rt_strdup :: "u64 \<Rightarrow> heap \<Rightarrow> cmem \<Rightarrow> (u64 \<times> heap \<times> cmem) option" where
  "rt_strdup s h m =
     do { n \<leftarrow> rt_strlen (unat s) m;
          let len = (of_nat n + 1 :: u64);
          (tmp, h) \<leftarrow> rt_malloc len h;
          if tmp = 0 then Some (0, h, m)
          else do { m \<leftarrow> rt_memcpy (unat tmp) (unat s) len m; Some (tmp, h, m) } }"

definition rt_malloc_align :: "u64 \<Rightarrow> u64 \<Rightarrow> heap \<Rightarrow> cmem \<Rightarrow> (u64 \<times> heap \<times> cmem) option" where
  "rt_malloc_align sz align h m =
     do { let align = (align + 7) AND NOT 7;
          let align_size = ((sz + 7) AND NOT 7) + align;
          (ptr, h) \<leftarrow> rt_malloc align_size h;
          if ptr \<noteq> 0
          then do { let align_ptr = (if ptr AND (align - 1) = 0 then ptr + align
                                     else (ptr + (align - 1)) AND NOT (align - 1));
                    m \<leftarrow> wr_list m (unat (align_ptr - 8)) (long_bytes ptr);
                    Some (align_ptr, h, m) }
          else Some (ptr, h, m) }"

text \<open>A \<open>long\<close> read back from its bytes.\<close>

definition long_of :: "u8 list \<Rightarrow> u64" where
  "long_of bs = foldr (\<lambda>b w. push_bit 8 w OR ucast b) bs 0"

definition rt_free_align :: "u64 \<Rightarrow> heap \<Rightarrow> cmem \<Rightarrow> heap option" where
  "rt_free_align ptr h m =
     do { bs \<leftarrow> rd_list m (unat (ptr - 8)) 8; rt_free (long_of bs) h }"

lemma bit_long_of: "bit (long_of bs) j \<longleftrightarrow> j < 64 \<and> j < 8 * length bs \<and> bit (bs ! (j div 8)) (j mod 8)"
proof (induction bs arbitrary: j)
  case (Cons b bs)
  have e: "long_of (b # bs) = push_bit 8 (long_of bs) OR ucast b" by (simp add: long_of_def)
  show ?case
  proof (cases "j < 8")
    case True
    then show ?thesis by (auto simp: e bit_simps)
  next
    case False
    then have "\<not> bit b j" by (auto dest: bit_imp_le_length)
    then show ?thesis using False Cons.IH [of "j - 8"] by (auto simp: e bit_simps le_mod_geq [symmetric] le_div_geq)
  qed
qed (simp add: long_of_def)

lemma long_of_bytes: "long_of (long_bytes w) = w"
proof (rule bit_word_eqI)
  fix j
  assume "j < LENGTH(64)"
  then show "bit (long_of (long_bytes w)) j = bit w j"
    by (auto simp: bit_long_of long_bytes_def bit_simps)
qed

text \<open>Rounding a block's pointer up.\<close>

lemma align_up:
  fixes u :: u64
  assumes u: "unat u mod 8 = 0" and k: "3 \<le> k" "k < 62" and s: "unat u + 2 ^ k < 2 ^ 64"
  defines "p \<equiv> if u AND (2 ^ k - 1) = 0 then u + 2 ^ k else (u + (2 ^ k - 1)) AND NOT (2 ^ k - 1)"
  shows "unat p mod 2 ^ k = 0 \<and> unat u + 8 \<le> unat p \<and> unat p \<le> unat u + 2 ^ k"
proof -
  have m: "(2 ^ k - 1 :: u64) = mask k" by (simp add: mask_eq_exp_minus_1)
  have pk: "unat (2 ^ k :: u64) = 2 ^ k" using k unat_of_nat_small [of "2 ^ k", where 'a = 64] power_strict_increasing [of k 64 "2 :: nat"] by simp
  have mk: "unat (mask k :: u64) = 2 ^ k - 1"
    using pk by (simp only: m [symmetric]) (subst unat_sub, simp_all add: word_le_nat_alt)
  have d8: "(8 :: nat) dvd 2 ^ k" using k(1) using le_imp_power_dvd [of 3 k 2] by simp
  have a: "u AND mask k = 0 \<longleftrightarrow> unat u mod 2 ^ k = 0"
    using and_mask_unat [of u k] by (metis unat_0 word_unat_eq_iff)
  show ?thesis
  proof (cases "unat u mod 2 ^ k = 0")
    case True
    have "unat (u + 2 ^ k) = unat u + 2 ^ k" using s pk by (subst unat_add_lem [THEN iffD1]) simp_all
    moreover have "(8 :: nat) \<le> 2 ^ k" using d8 by (rule dvd_imp_le) simp
    ultimately show ?thesis using True a by (simp add: p_def m)
  next
    case False
    have "unat (u + mask k) = unat u + (2 ^ k - 1)" using s mk by (subst unat_add_lem [THEN iffD1]) simp_all
    then have p: "unat p = (unat u + (2 ^ k - 1)) - (unat u + (2 ^ k - 1)) mod 2 ^ k"
      using False a and_not_mask_unat [of "u + mask k" k] by (simp add: p_def m)
    define r where "r = unat u mod 2 ^ k"
    have r0: "0 < r" using False by (simp only: r_def neq0_conv)
    have r: "0 < r" "r < 2 ^ k" by (fact r0) (simp add: r_def)
    have "8 dvd unat u" using u by (simp only: dvd_eq_mod_eq_0)
    then have r8: "8 dvd r" unfolding r_def using d8 by (intro dvd_mod)
    have "(unat u + (2 ^ k - 1)) mod 2 ^ k = (r + (2 ^ k - 1)) mod 2 ^ k" unfolding r_def by (simp only: mod_add_left_eq)
    also have "\<dots> = (r - 1 + 2 ^ k) mod 2 ^ k" using r by simp
    also have "\<dots> = r - 1" unfolding mod_add_self2 using r by simp
    finally have e: "unat p = unat u - r + 2 ^ k" using p r mod_less_eq_dividend [of "unat u" "2 ^ k"] by (simp add: r_def)
    have "8 dvd 2 ^ k - r" using r8 d8 by (intro dvd_diff_nat)
    then have "8 \<le> 2 ^ k - r" using r by (intro dvd_imp_le) simp_all
    then have "8 + r \<le> 2 ^ k" by simp
    moreover have "r \<le> unat u" by (simp add: r_def)
    moreover have "(unat u - r + 2 ^ k) mod 2 ^ k = 0" unfolding mod_add_self2 by (simp add: r_def minus_mod_eq_mult_div)
    ultimately show ?thesis unfolding e by simp
  qed
qed

text \<open>Bytes written are the bytes read.\<close>

lemma long_written:
  assumes "writable m a 8"
  obtains m' where "wr_list m a (long_bytes w) = Some m'" "rd_list m' a 8 = Some (long_bytes w)"
    "\<forall>x. x < a \<or> a + 8 \<le> x \<longrightarrow> m' x = m x"
proof -
  have l: "length (long_bytes w) = 8" by (simp add: long_bytes_def)
  have "wr_list m a (long_bytes w) = Some (put m a (long_bytes w))" using assms l by (intro wr_list_ok) simp
  moreover have "holds (put m a (long_bytes w)) a (long_bytes w)" by (simp add: holds_def put_def)
  then have "rd_list (put m a (long_bytes w)) a 8 = Some (long_bytes w)" using rd_list_ok l by metis
  ultimately show thesis using that l by (auto simp: put_def)
qed

text \<open>Fact: Aligned allocation gives NULL or a pointer that is a multiple of the alignment, behind which the
  requested bytes lie inside one fresh block of the heap; the only bytes it writes are the eight in front of
  that pointer, inside the same block, and rt_free_align gives exactly this block back.\<close>

theorem rt_malloc_align_roundtrip:
  assumes inv: "heap_inv h bs" and k: "3 \<le> k" "k < 62" and sz: "unat sz < 2 ^ 62"
    and m: "writable m (unat (hp_ptr h)) (unat (hp_end h))"
  shows "\<exists>p h' m'. rt_malloc_align sz (2 ^ k) h m = Some (p, h', m') \<and>
    (p = 0 \<and> h' = h \<and> m' = m \<or>
     (\<exists>off n bs' h'' bs''. heap_inv h' bs' \<and> live 0 bs' = insert (off, n) (live 0 bs) \<and> (off, n) \<notin> live 0 bs \<and>
        unat p mod 2 ^ k = 0 \<and> unat (user_ptr h off) + 8 \<le> unat p \<and>
        unat p + unat sz \<le> unat (user_ptr h off) + unat (usable h' (user_ptr h off)) \<and>
        (\<forall>x. x < unat p - 8 \<or> unat p \<le> x \<longrightarrow> m' x = m x) \<and>
        rt_free_align p h' m' = Some h'' \<and> heap_inv h'' bs'' \<and> live 0 bs'' = live 0 bs))"
proof -
  have pk: "unat (2 ^ k :: u64) = 2 ^ k"
    using k unat_of_nat_small [of "2 ^ k", where 'a = 64] power_strict_increasing [of k 64 "2 :: nat"] by simp
  have p62: "(2 :: nat) ^ k < 2 ^ 62" using k by (intro power_strict_increasing) simp_all
  have d8: "(8 :: nat) dvd 2 ^ k" using le_imp_power_dvd [of 3 k 2] k(1) by simp
  have ra: "(x + 7) AND NOT 7 = RT_ALIGN x" for x by (simp add: RT_ALIGN_def add.commute)
  have al: "((2 ^ k + 7) AND NOT 7 :: u64) = 2 ^ k"
  proof -
    obtain q where q: "(2 :: nat) ^ k = 8 * q" using d8 by blast
    have "unat (RT_ALIGN (2 ^ k)) = 2 ^ k" using p62 RT_ALIGN_unat [of "2 ^ k"] unfolding pk by (simp add: q)
    then show ?thesis unfolding ra by (simp only: word_unat_eq_iff pk)
  qed
  define r where "r = (sz + 7) AND NOT (7 :: u64)"
  have r: "unat sz \<le> unat r" "unat r < 2 ^ 62 + 8"
    using sz unfolding r_def ra by (simp_all add: RT_ALIGN_unat)
  have N: "unat (r + 2 ^ k) = unat r + 2 ^ k" using r(2) pk p62 by (subst unat_add_lem [THEN iffD1]) simp_all
  then have N0: "r + 2 ^ k \<noteq> 0" by (metis add_is_0 power_not_zero unat_0 zero_neq_numeral)
  note E = rt_malloc_align_def [of sz "2 ^ k" h m, unfolded al r_def [symmetric] Let_def]
  show ?thesis
  proof (cases rule: malloc_live [OF inv N0])
    case 1
    then show ?thesis by (simp add: E)
  next
    case (2 off n bs' h')
    let ?u = "user_ptr h off"
    define p where "p = (if ?u AND (2 ^ k - 1) = 0 then ?u + 2 ^ k else (?u + (2 ^ k - 1)) AND NOT (2 ^ k - 1))"
    have l1: "(off, n) \<in> live 0 bs'" by (simp add: 2(4))
    have F: "need (r + 2 ^ k) + 24 \<le> n" "off + n \<le> unat (hp_end h)" "unat ?u = unat (hp_ptr h) + off + 24"
        "unat ?u mod 8 = 0" "?u \<noteq> 0" "\<forall>(q, k)\<in>live 0 bs. q + k \<le> off \<or> off + n \<le> q"
      using 2(5) unfolding fresh_block_def by blast+
    have seg: "heap_seg h bs" using inv by (simp add: heap_inv_def heap_ok_def)
    have top: "unat (hp_ptr h) + unat (hp_end h) + 24 < 2 ^ 64" by (rule heap_segD(3) [OF seg])
    have "unat (r + 2 ^ k) \<le> need (r + 2 ^ k)" using N r(2) p62 by (intro need_ge) simp
    then have n: "unat r + 2 ^ k + 24 \<le> n" using F(1) N by simp
    have ub: "unat ?u + 2 ^ k + unat r \<le> unat (hp_ptr h) + unat (hp_end h)" using F(2,3) n by simp
    have P: "unat p mod 2 ^ k = 0 \<and> unat ?u + 8 \<le> unat p \<and> unat p \<le> unat ?u + 2 ^ k"
      unfolding p_def by (rule align_up [OF F(4) k]) (use ub top in simp)
    then have p8: "unat (p - 8) = unat p - 8" by (subst unat_sub) (simp_all add: word_le_nat_alt)
    have "writable m (unat (p - 8)) 8" unfolding p8 using m P ub F(3) by (auto simp: writable_def)
    then obtain m' where m': "wr_list m (unat (p - 8)) (long_bytes ?u) = Some m'" "rd_list m' (unat (p - 8)) 8 = Some (long_bytes ?u)"
        "\<forall>x. x < unat (p - 8) \<or> unat (p - 8) + 8 \<le> x \<longrightarrow> m' x = m x"
      by (rule long_written)
    have alloc: "rt_malloc_align sz (2 ^ k) h m = Some (p, h', m')"
      using 2(1) F(5) m'(1) by (simp add: E p_def)
    obtain h'' bs'' where f: "rt_free (user_ptr h' off) h' = Some h''" "heap_inv h'' bs''" "live 0 bs'' = live 0 bs' - {(off, n)}"
      by (rule free_live [OF 2(2) l1])
    have fresh: "(off, n) \<notin> live 0 bs" using F(6) n by fastforce
    have free: "rt_free_align p h' m' = Some h''"
      using f(1) m'(2) 2(3) by (simp add: rt_free_align_def long_of_bytes)
    have us: "unat (usable h' ?u) = n - 24" using usable_live [OF 2(2) l1] 2(3) by simp
    have fit: "unat p + unat sz \<le> unat ?u + unat (usable h' ?u)" unfolding us using P n r(1) by linarith
    have fr: "\<forall>x. x < unat p - 8 \<or> unat p \<le> x \<longrightarrow> m' x = m x" using m'(3) P by (simp add: p8)
    show ?thesis
      by (rule exI [of _ p], rule exI [of _ h'], rule exI [of _ m'], rule conjI [OF alloc], rule disjI2,
          rule exI [of _ off], rule exI [of _ n], rule exI [of _ bs'], rule exI [of _ h''], rule exI [of _ bs''])
        (use 2(2,4) fresh P fit fr free f(2,3) in simp)
  qed
qed

theorem rt_malloc_align_roundtrip_witness:
  "\<exists>p h' m'. rt_malloc_align 100 (2 ^ 6) sample_heap (\<lambda>_. Some 0) = Some (p, h', m')"
  using rt_malloc_align_roundtrip [OF sample_heap_inv, of 6 100 "\<lambda>_. Some 0"] by (auto simp: writable_def)

text \<open>Fact: rt_strdup gives NULL or a fresh block of the heap that holds a copy of the string, terminator
  included, with every byte outside the block as it was.\<close>

theorem rt_strdup_spec:
  assumes inv: "heap_inv h bs" and s: "cstr m (unat s) xs" "length xs < 2 ^ 31"
    and m: "writable m (unat (hp_ptr h)) (unat (hp_end h))"
    and out: "unat s + length xs < unat (hp_ptr h) \<or> unat (hp_ptr h) + unat (hp_end h) \<le> unat s"
  shows "\<exists>p h' m'. rt_strdup s h m = Some (p, h', m') \<and>
    (p = 0 \<and> h' = h \<and> m' = m \<or>
     (\<exists>off n bs'. p = user_ptr h off \<and> heap_inv h' bs' \<and> live 0 bs' = insert (off, n) (live 0 bs) \<and>
        length xs < unat (usable h' p) \<and> cstr m' (unat p) xs \<and>
        (\<forall>x. x < unat p \<or> unat p + length xs < x \<longrightarrow> m' x = m x)))"
proof -
  have l: "rt_strlen (unat s) m = Some (length xs)" by (rule strlen_ok [OF s(1)])
  let ?n = "of_nat (length xs) + 1 :: u64"
  have "?n = of_nat (length xs + 1)" by simp
  moreover have "unat (of_nat (length xs + 1) :: u64) = length xs + 1" using s(2) by (intro unat_of_nat_small) simp
  ultimately have n: "unat ?n = length xs + 1" by (simp only:)
  then have n0: "?n \<noteq> 0" by (metis Suc_eq_plus1 nat.distinct(1) unat_0)
  show ?thesis
  proof (cases rule: malloc_live [OF inv n0])
    case 1
    then show ?thesis by (simp add: rt_strdup_def l)
  next
    case (2 off k bs' h')
    let ?u = "user_ptr h off"
    have F: "need ?n + 24 \<le> k" "off + k \<le> unat (hp_end h)" "unat ?u = unat (hp_ptr h) + off + 24" "?u \<noteq> 0"
      using 2(5) by (simp_all add: fresh_block_def)
    have "unat ?n \<le> need ?n" using n s(2) by (intro need_ge) simp
    then have k: "length xs + 25 \<le> k" using F(1) n by simp
    have h: "holds m (unat s) (xs @ [0])" using s(1) by (simp add: cstr_def)
    have w: "writable m (unat ?u) (length (xs @ [0]))" unfolding F(3) using m F(2) k by (auto simp: writable_def)
    have a: "unat ?u \<le> unat s \<or> unat s + length (xs @ [0]) \<le> unat ?u"
      unfolding F(3) using out F(2) k by (elim disjE) simp_all
    have "unat (ucast ?n :: u32) = length (xs @ [0])" using n s(2) by (simp add: unat_ucast_down)
    then have c: "rt_memcpy (unat ?u) (unat s) ?n m = Some (put m (unat ?u) (xs @ [0]))"
      by (intro memcpy_ok [OF h w a]) simp
    have "unat (usable h' ?u) = k - 24" using usable_live [OF 2(2), of off k] 2(3,4) by simp
    moreover have "cstr (put m (unat ?u) (xs @ [0])) (unat ?u) xs" using s(1) by (simp add: cstr_def holds_def put_def)
    moreover have "rt_strdup s h m = Some (?u, h', put m (unat ?u) (xs @ [0]))" using 2(1) F(4) c by (simp add: rt_strdup_def l)
    moreover have "\<forall>x. x < unat ?u \<or> unat ?u + length xs < x \<longrightarrow> put m (unat ?u) (xs @ [0]) x = m x"
      by (auto simp: put_def)
    ultimately show ?thesis using 2(2,4) k
      by (intro exI [of _ ?u] exI [of _ h'] exI [of _ "put m (unat ?u) (xs @ [0])"] conjI disjI2 exI [of _ off] exI [of _ k] exI [of _ bs'])
        simp_all
  qed
qed

definition sample_bytes :: cmem where
  "sample_bytes = put (\<lambda>_. Some 0) 2000 (map of_nat [104, 105, 0])"

theorem rt_strdup_spec_witness:
  "\<exists>p h' m'. rt_strdup 2000 sample_heap sample_bytes = Some (p, h', m')"
proof -
  have s: "cstr sample_bytes (unat (2000 :: u64)) (map of_nat [104, 105])" by (simp add: cstr_simps sample_bytes_def put_def)
  show ?thesis
    using rt_strdup_spec [OF sample_heap_inv s] by (auto simp: sample_heap_init writable_def sample_bytes_def put_def)
qed

end
