(* ===== verification/Kprintf.thy ===== *)
theory Kprintf
  imports Prelude
begin

section \<open>Formatted output (\<open>src/kservice.c\<close>)\<close>

text \<open>
  \<open>rt_vsnprintf\<close> as it is configured here: \<open>RT_PRINTF_LONGLONG\<close> and \<open>RT_PRINTF_PRECISION\<close>
  without \<open>RT_PRINTF_SPECIAL\<close>.  The format is the list of characters in front of its terminator; the
  buffer is part of a memory that maps an address to a character where it may be accessed, and \<open>None\<close>
  is an access anywhere else or an argument of the wrong type.  What the code computes in \<open>int\<close> or returns
  as \<open>rt_int32_t\<close> goes through \<open>int32\<close>, and \<open>str\<close> is a 64-bit address.
\<close>

type_synonym smem = "nat \<rightharpoonup> char"

text \<open>The variable arguments, by the type they are passed with.\<close>

datatype va_val = VInt u32 | VLong u64 | VPtr u64 | VStr "string option"

abbreviation (input) ZEROPAD :: u8 where "ZEROPAD \<equiv> 1"
abbreviation (input) SIGN :: u8 where "SIGN \<equiv> 2"
abbreviation (input) PLUS :: u8 where "PLUS \<equiv> 4"
abbreviation (input) SPACE :: u8 where "SPACE \<equiv> 8"
abbreviation (input) LEFT :: u8 where "LEFT \<equiv> 16"
abbreviation (input) SPECIAL :: u8 where "SPECIAL \<equiv> 32"
abbreviation (input) LARGE :: u8 where "LARGE \<equiv> 64"

text \<open>\<open>if (str < end) *str = c; ++str\<close>.\<close>

definition putc :: "nat \<Rightarrow> char \<Rightarrow> nat \<times> smem \<Rightarrow> (nat \<times> smem) option" where
  "putc e c st =
     (case st of (p, m) \<Rightarrow>
        if p < e then (if m p = None then None else Some ((p + 1) mod 2 ^ 64, m(p \<mapsto> c))) else Some ((p + 1) mod 2 ^ 64, m))"

fun puts :: "nat \<Rightarrow> string \<Rightarrow> nat \<times> smem \<Rightarrow> (nat \<times> smem) option" where
  "puts e [] st = Some st"
| "puts e (c # cs) st = do { st \<leftarrow> putc e c st; puts e cs st }"

text \<open>\<open>while (size-- > 0)\<close> a character is put; the value is what is left in \<open>size\<close>.\<close>

function pad_loop :: "nat \<Rightarrow> char \<Rightarrow> int \<Rightarrow> nat \<times> smem \<Rightarrow> (int \<times> nat \<times> smem) option" where
  "pad_loop e c n st =
     (if 0 < n then do { st \<leftarrow> putc e c st; pad_loop e c (n - 1) st } else Some (int32 (n - 1), st))"
  by auto
termination by (relation "measure (\<lambda>(e, c, n, st). nat n)") auto

declare pad_loop.simps [simp del]

subsection \<open>Numbers\<close>

definition divide :: "u64 \<Rightarrow> nat \<Rightarrow> nat \<times> u64" where
  "divide n base = (if base = 10 then (unat (n mod 10), n div 10) else (unat (n mod 16), n div 16))"

text \<open>The digits in the order they are put into \<open>tmp\<close>, which has 32 places.\<close>

function digit_loop :: "string \<Rightarrow> nat \<Rightarrow> u64 \<Rightarrow> string \<Rightarrow> string option" where
  "digit_loop digits base num tmp =
     (if num \<noteq> 0
      then if length tmp < 32
           then let (r, num) = divide num base in digit_loop digits base num (tmp @ [digits ! r])
           else None
      else Some tmp)"
  by auto
termination by (relation "measure (\<lambda>(ds, b, n, tmp). 32 - length tmp)") auto

declare digit_loop.simps [simp del]

text \<open>\<open>while (i-- > 0 && precision_bak != 0)\<close>.\<close>

fun put_tmp :: "nat \<Rightarrow> string \<Rightarrow> nat \<Rightarrow> int \<Rightarrow> nat \<times> smem \<Rightarrow> (nat \<times> smem) option" where
  "put_tmp e tmp 0 pb st = Some st"
| "put_tmp e tmp (Suc i) pb st =
     (if pb \<noteq> 0 then do { st \<leftarrow> putc e (tmp ! i) st; put_tmp e tmp i pb st } else Some st)"

definition print_number :: "nat \<Rightarrow> u64 \<Rightarrow> nat \<Rightarrow> int \<Rightarrow> int \<Rightarrow> u8 \<Rightarrow> nat \<times> smem \<Rightarrow> (nat \<times> smem) option" where
  "print_number e num base s precision ty st =
     (let precision_bak = precision;
          size = s;
          digits = (if ty AND LARGE \<noteq> 0 then ''0123456789ABCDEF'' else ''0123456789abcdef'');
          ty = (if ty AND LEFT \<noteq> 0 then ty AND NOT ZEROPAD else ty);
          c = (if ty AND ZEROPAD \<noteq> 0 then CHR ''0'' else CHR '' '');
          neg = (ty AND SIGN \<noteq> 0 \<and> sint num < 0);
          sign = (if ty AND SIGN = 0 then None
                  else if neg then Some (CHR ''-'')
                  else if ty AND PLUS \<noteq> 0 then Some (CHR ''+'')
                  else if ty AND SPACE \<noteq> 0 then Some (CHR '' '') else None);
          num = (if neg then - num else num)
      in do {
        tmp \<leftarrow> (if num = 0 then Some ''0'' else digit_loop digits base num []);
        let i = length tmp;
        let precision = (if int i > precision then int i else precision);
        let size = int32 (size - precision);
        (size, st) \<leftarrow> (if ty AND (ZEROPAD OR LEFT) = 0
                      then pad_loop e (CHR '' '') (if sign \<noteq> None \<and> 0 < size then size - 1 else size) st
                      else Some (size, st));
        (size, st) \<leftarrow> (case sign of Some ch \<Rightarrow> do { st \<leftarrow> putc e ch st; Some (int32 (size - 1), st) } | None \<Rightarrow> Some (size, st));
        (size, st) \<leftarrow> (if ty AND LEFT = 0 then pad_loop e c size st else Some (size, st));
        (_, st) \<leftarrow> pad_loop e (CHR ''0'') (precision - int i) st;
        st \<leftarrow> put_tmp e tmp i precision_bak st;
        (_, st) \<leftarrow> pad_loop e (CHR '' '') size st;
        Some st })"

subsection \<open>The format\<close>

text \<open>What stands between a percent sign and its conversion character.\<close>

record directive =
  dv_flags :: u8
  dv_width :: int
  dv_precision :: int
  dv_qualifier :: "char option"

fun parse_flags :: "string \<Rightarrow> u8 \<Rightarrow> string \<times> u8" where
  "parse_flags [] flags = ([], flags)"
| "parse_flags (c # f) flags =
     (if c = CHR ''-'' then parse_flags f (flags OR LEFT)
      else if c = CHR ''+'' then parse_flags f (flags OR PLUS)
      else if c = CHR '' '' then parse_flags f (flags OR SPACE)
      else if c = CHR ''#'' then parse_flags f (flags OR SPECIAL)
      else if c = CHR ''0'' then parse_flags f (flags OR ZEROPAD)
      else (c # f, flags))"

definition is_digit :: "char \<Rightarrow> bool" where
  "is_digit c \<longleftrightarrow> of_char c - (48 :: u32) < 10"

fun skip_atoi :: "string \<Rightarrow> int \<Rightarrow> int \<times> string" where
  "skip_atoi [] i = (i, [])"
| "skip_atoi (c # f) i = (if is_digit c then skip_atoi f (int32 (i * 10 + of_char c - 48)) else (i, c # f))"

text \<open>The character at the head of the format, the terminator at its end.\<close>

definition cur :: "string \<Rightarrow> char" where
  "cur f = (case f of [] \<Rightarrow> CHR 0x00 | c # _ \<Rightarrow> c)"

definition va_int :: "va_val list \<Rightarrow> (u32 \<times> va_val list) option" where
  "va_int vs = (case vs of VInt w # vs \<Rightarrow> Some (w, vs) | _ \<Rightarrow> None)"

definition parse_width :: "string \<Rightarrow> u8 \<Rightarrow> va_val list \<Rightarrow> (int \<times> u8 \<times> string \<times> va_val list) option" where
  "parse_width f flags vs =
     (if is_digit (cur f) then let (w, f) = skip_atoi f 0 in Some (w, flags, f, vs)
      else if cur f = CHR ''*''
      then do { (w, vs) \<leftarrow> va_int vs;
                Some (if sint w < 0 then (int32 (- sint w), flags OR LEFT, tl f, vs) else (sint w, flags, tl f, vs)) }
      else Some (- 1, flags, f, vs))"

definition parse_precision :: "string \<Rightarrow> va_val list \<Rightarrow> (int \<times> string \<times> va_val list) option" where
  "parse_precision f vs =
     (if cur f = CHR ''.''
      then do { let f = tl f;
                (p, f, vs) \<leftarrow> (if is_digit (cur f) then let (p, f) = skip_atoi f 0 in Some (p, f, vs)
                               else if cur f = CHR ''*'' then do { (w, vs) \<leftarrow> va_int vs; Some (sint w, tl f, vs) }
                               else Some (- 1, f, vs));
                Some (if p < 0 then 0 else p, f, vs) }
      else Some (- 1, f, vs))"

definition parse_qualifier :: "string \<Rightarrow> char option \<times> string" where
  "parse_qualifier f =
     (if cur f = CHR ''h'' \<or> cur f = CHR ''l'' \<or> cur f = CHR ''L''
      then if cur f = CHR ''l'' \<and> cur (tl f) = CHR ''l'' then (Some (CHR ''L''), tl (tl f)) else (Some (cur f), tl f)
      else (None, f))"

definition parse_directive :: "string \<Rightarrow> va_val list \<Rightarrow> (directive \<times> string \<times> va_val list) option" where
  "parse_directive f vs =
     do { let (f, flags) = parse_flags f 0;
          (w, flags, f, vs) \<leftarrow> parse_width f flags vs;
          (p, f, vs) \<leftarrow> parse_precision f vs;
          let (q, f) = parse_qualifier f;
          Some (\<lparr>dv_flags = flags, dv_width = w, dv_precision = p, dv_qualifier = q\<rparr>, f, vs) }"

text \<open>\<open>while (--field_width > 0)\<close>.\<close>

function pad_before :: "nat \<Rightarrow> int \<Rightarrow> nat \<times> smem \<Rightarrow> (int \<times> nat \<times> smem) option" where
  "pad_before e w st =
     (let w = int32 (w - 1) in
      if 0 < w then do { st \<leftarrow> putc e (CHR '' '') st; pad_before e w st } else Some (w, st))"
  by auto
termination
proof (relation "measure (\<lambda>(e, w, st). nat ((w - 1) mod 2 ^ 32))", simp, goal_cases)
  case (1 e w st w' st')
  then have "w' = (w - 1) mod 2 ^ 32" using int32_pos [of "w - 1"] by simp
  moreover from this have "w' < 2 ^ 32" by simp
  ultimately show ?case using 1(2) by (simp add: mod_pos_pos_trivial)
qed

declare pad_before.simps [simp del]

text \<open>\<open>for (len = 0; (len != field_width) && (s[len] != '\0'); len++)\<close>; an \<open>int\<close> that has
wrapped to the negative numbers would read in front of the string.\<close>

fun field_len :: "string \<Rightarrow> int \<Rightarrow> nat \<Rightarrow> nat option" where
  "field_len [] w len = Some len"
| "field_len (_ # s) w len =
     (if int len \<noteq> w then (if int len + 1 < 2 ^ 31 then field_len s w (len + 1) else None) else Some len)"

text \<open>\<open>while (len < field_width--)\<close>.\<close>

function width_loop :: "nat \<Rightarrow> nat \<Rightarrow> int \<Rightarrow> nat \<times> smem \<Rightarrow> (int \<times> nat \<times> smem) option" where
  "width_loop e len w st =
     (if int len < w then do { st \<leftarrow> putc e (CHR '' '') st; width_loop e len (w - 1) st } else Some (int32 (w - 1), st))"
  by auto
termination by (relation "measure (\<lambda>(e, len, w, st). nat w)") auto

declare width_loop.simps [simp del]

definition put_string :: "nat \<Rightarrow> directive \<Rightarrow> string \<Rightarrow> nat \<times> smem \<Rightarrow> (nat \<times> smem) option" where
  "put_string e d s st =
     do { let w = dv_width d;
          len \<leftarrow> field_len s w 0;
          let len = (if dv_precision d > 0 \<and> int len > dv_precision d then nat (dv_precision d) else len);
          (w, st) \<leftarrow> (if dv_flags d AND LEFT = 0
                      then width_loop e len w st
                      else Some (w, st));
          st \<leftarrow> puts e (take len s) st;
          (_, st) \<leftarrow> width_loop e len w st;
          Some st }"

definition put_char :: "nat \<Rightarrow> directive \<Rightarrow> u32 \<Rightarrow> nat \<times> smem \<Rightarrow> (nat \<times> smem) option" where
  "put_char e d w st =
     do { (fw, st) \<leftarrow> (if dv_flags d AND LEFT = 0 then pad_before e (dv_width d) st else Some (dv_width d, st));
          st \<leftarrow> putc e (char_of (unat (ucast w :: u8))) st;
          (_, st) \<leftarrow> pad_before e fw st;
          Some st }"

text \<open>The argument of an integer conversion.\<close>

definition va_number :: "directive \<Rightarrow> bool \<Rightarrow> va_val list \<Rightarrow> (u64 \<times> va_val list) option" where
  "va_number d signed_conv vs =
     (if dv_qualifier d = Some (CHR ''L'')
      then (case vs of VLong w # vs \<Rightarrow> Some (w, vs) | _ \<Rightarrow> None)
      else if dv_qualifier d = Some (CHR ''h'')
      then do { (w, vs) \<leftarrow> va_int vs;
                Some (if signed_conv then scast (ucast w :: u16) else ucast (ucast w :: u16), vs) }
      else do { (w, vs) \<leftarrow> va_int vs; Some (if signed_conv then scast w else ucast w, vs) })"

definition put_directive :: "nat \<Rightarrow> directive \<Rightarrow> string \<Rightarrow> va_val list \<Rightarrow> nat \<times> smem \<Rightarrow> (va_val list \<times> nat \<times> smem) option" where
  "put_directive e d f vs st =
     (let c = cur f; fl = dv_flags d; w = dv_width d; p = dv_precision d in
      if c = CHR ''c''
      then do { (v, vs) \<leftarrow> va_int vs; st \<leftarrow> put_char e d v st; Some (vs, st) }
      else if c = CHR ''s''
      then (case vs of
              VStr s # vs \<Rightarrow> do { st \<leftarrow> put_string e d (case s of None \<Rightarrow> ''(NULL)'' | Some s \<Rightarrow> s) st; Some (vs, st) }
            | _ \<Rightarrow> None)
      else if c = CHR ''p''
      then (case vs of
              VPtr a # vs \<Rightarrow> do { st \<leftarrow> (if w = - 1 then print_number e a 16 16 p (fl OR ZEROPAD) st
                                         else print_number e a 16 w p fl st);
                                  Some (vs, st) }
            | _ \<Rightarrow> None)
      else if c = CHR ''%'' then do { st \<leftarrow> putc e (CHR ''%'') st; Some (vs, st) }
      else if c = CHR ''o'' then do { (n, vs) \<leftarrow> va_number d (fl AND SIGN \<noteq> 0) vs; st \<leftarrow> print_number e n 8 w p fl st; Some (vs, st) }
      else if c = CHR ''X''
      then do { (n, vs) \<leftarrow> va_number d (fl AND SIGN \<noteq> 0) vs; st \<leftarrow> print_number e n 16 w p (fl OR LARGE) st; Some (vs, st) }
      else if c = CHR ''x'' then do { (n, vs) \<leftarrow> va_number d (fl AND SIGN \<noteq> 0) vs; st \<leftarrow> print_number e n 16 w p fl st; Some (vs, st) }
      else if c = CHR ''d'' \<or> c = CHR ''i''
      then do { (n, vs) \<leftarrow> va_number d True vs; st \<leftarrow> print_number e n 10 w p (fl OR SIGN) st; Some (vs, st) }
      else if c = CHR ''u'' then do { (n, vs) \<leftarrow> va_number d (fl AND SIGN \<noteq> 0) vs; st \<leftarrow> print_number e n 10 w p fl st; Some (vs, st) }
      else do { st \<leftarrow> putc e (CHR ''%'') st;
                st \<leftarrow> (if f \<noteq> [] then putc e c st else Some st);
                Some (vs, st) })"

subsection \<open>The loop over the format\<close>

lemma parse_flags_length: "parse_flags f fl = (f', fl') \<Longrightarrow> length f' \<le> length f"
  by (induction f fl arbitrary: f' fl' rule: parse_flags.induct) (auto split: if_splits intro: le_SucI)

lemma skip_atoi_length: "skip_atoi f i = (n, f') \<Longrightarrow> length f' \<le> length f"
  by (induction f i arbitrary: n f' rule: skip_atoi.induct) (auto split: if_splits intro: le_SucI)

lemma parse_width_length: "parse_width f fl vs = Some (w, fl', f', vs') \<Longrightarrow> length f' \<le> length f"
  by (auto simp: parse_width_def split: if_splits prod.splits Option.bind_splits dest: skip_atoi_length)

lemma parse_precision_length: "parse_precision f vs = Some (p, f', vs') \<Longrightarrow> length f' \<le> length f"
  by (auto simp: parse_precision_def Let_def split: if_splits prod.splits Option.bind_splits dest!: skip_atoi_length)

lemma parse_qualifier_length: "parse_qualifier f = (q, f') \<Longrightarrow> length f' \<le> length f"
  by (auto simp: parse_qualifier_def split: if_splits)

lemma parse_directive_length: "parse_directive f vs = Some (d, f', vs') \<Longrightarrow> length f' \<le> length f"
  by (auto simp: parse_directive_def split: prod.splits Option.bind_splits
      dest!: parse_flags_length parse_width_length parse_precision_length parse_qualifier_length)

function format_loop :: "nat \<Rightarrow> string \<Rightarrow> va_val list \<Rightarrow> nat \<times> smem \<Rightarrow> (nat \<times> smem) option" where
  "format_loop e [] vs st = Some st"
| "format_loop e (c # f) vs st =
     (if c \<noteq> CHR ''%'' then do { st \<leftarrow> putc e c st; format_loop e f vs st }
      else case parse_directive f vs of
          None \<Rightarrow> None
        | Some (d, f, vs) \<Rightarrow> do { (vs, st) \<leftarrow> put_directive e d f vs st; format_loop e (tl f) vs st })"
  by pat_completeness auto
termination
  by (relation "measure (\<lambda>(e, f, vs, st). length f)") (auto dest!: parse_directive_length)

text \<open>\<open>end = buf + size\<close>, moved to the top of the address space when the sum wraps.\<close>

definition rt_vsnprintf :: "nat \<Rightarrow> nat \<Rightarrow> string \<Rightarrow> va_val list \<Rightarrow> smem \<Rightarrow> (int \<times> smem) option" where
  "rt_vsnprintf buf len f vs m =
     do { let (e, len) = (if buf + len < 2 ^ 64 then (buf + len, len) else (2 ^ 64 - 1, 2 ^ 64 - 1 - buf));
          (str, m) \<leftarrow> format_loop e f vs (buf, m);
          m \<leftarrow> (if 0 < len
               then if str < e then (if m str = None then None else Some (m(str \<mapsto> CHR 0x00)))
                    else (if m (e - 1) = None then None else Some (m(e - 1 \<mapsto> CHR 0x00)))
               else Some m);
          Some (int32 (int str - int buf), m) }"

definition rt_snprintf :: "nat \<Rightarrow> nat \<Rightarrow> string \<Rightarrow> va_val list \<Rightarrow> smem \<Rightarrow> (int \<times> smem) option" where
  "rt_snprintf buf len f vs m = rt_vsnprintf buf len f vs m"

definition rt_vsprintf :: "nat \<Rightarrow> string \<Rightarrow> va_val list \<Rightarrow> smem \<Rightarrow> (int \<times> smem) option" where
  "rt_vsprintf buf f vs m = rt_vsnprintf buf (2 ^ 64 - 1) f vs m"

definition rt_sprintf :: "nat \<Rightarrow> string \<Rightarrow> va_val list \<Rightarrow> smem \<Rightarrow> (int \<times> smem) option" where
  "rt_sprintf buf f vs m = rt_vsprintf buf f vs m"

text \<open>
  \<open>rt_kprintf\<close> formats into its static buffer of \<open>RT_CONSOLEBUF_SIZE\<close> = 128 characters and hands the
  string in it to the console.
\<close>

partial_function (option) read_string :: "nat \<Rightarrow> smem \<Rightarrow> string option" where
  "read_string a m =
     do { c \<leftarrow> m a; if c = CHR 0x00 then Some [] else do { cs \<leftarrow> read_string (a + 1) m; Some (c # cs) } }"

definition rt_kprintf :: "nat \<Rightarrow> string \<Rightarrow> va_val list \<Rightarrow> smem \<Rightarrow> (string \<times> smem) option" where
  "rt_kprintf log_buf f vs m =
     do { (_, m) \<leftarrow> rt_vsnprintf log_buf (128 - 1) f vs m;
          out \<leftarrow> read_string log_buf m;
          Some (out, m) }"

subsection \<open>The text a format stands for\<close>

text \<open>The digits of a number, least significant first.\<close>

fun digits_of :: "string \<Rightarrow> nat \<Rightarrow> nat \<Rightarrow> string" where
  "digits_of ds b n = (if n = 0 \<or> b < 2 then [] else ds ! (n mod b) # digits_of ds b (n div b))"

declare digits_of.simps [simp del]

definition blanks :: "int \<Rightarrow> string" where
  "blanks n = replicate (nat n) (CHR '' '')"

definition number_sign :: "u64 \<Rightarrow> u8 \<Rightarrow> string" where
  "number_sign num ty =
     (if ty AND SIGN = 0 then [] else if sint num < 0 then ''-'' else if ty AND PLUS \<noteq> 0 then ''+''
      else if ty AND SPACE \<noteq> 0 then '' '' else [])"

definition number_digits :: "u64 \<Rightarrow> nat \<Rightarrow> u8 \<Rightarrow> string" where
  "number_digits num base ty =
     (let v = (if ty AND SIGN \<noteq> 0 \<and> sint num < 0 then - num else num)
      in if v = 0 then ''0''
         else rev (digits_of (if ty AND LARGE \<noteq> 0 then ''0123456789ABCDEF'' else ''0123456789abcdef'')
                    (if base = 10 then 10 else 16) (unat v)))"

definition number_text :: "u64 \<Rightarrow> nat \<Rightarrow> int \<Rightarrow> int \<Rightarrow> u8 \<Rightarrow> string" where
  "number_text num base s precision ty =
     (let sg = number_sign num ty;
          ds = number_digits num base ty;
          body = replicate (nat (precision - int (length ds))) (CHR ''0'') @ (if precision = 0 then [] else ds);
          room = s - max precision (int (length ds)) - int (length sg)
      in if ty AND LEFT \<noteq> 0 then sg @ body @ blanks room
         else if ty AND ZEROPAD \<noteq> 0 then sg @ replicate (nat room) (CHR ''0'') @ body
         else blanks room @ sg @ body)"

definition string_text :: "directive \<Rightarrow> string \<Rightarrow> string" where
  "string_text d s =
     (let w = dv_width d;
          t = (if 0 \<le> w then take (nat w) s else s);
          t = (if 0 < dv_precision d then take (nat (dv_precision d)) t else t)
      in if dv_flags d AND LEFT \<noteq> 0 then t @ blanks (w - int (length t)) else blanks (w - int (length t)) @ t)"

definition char_text :: "directive \<Rightarrow> u32 \<Rightarrow> string" where
  "char_text d w =
     (if dv_flags d AND LEFT \<noteq> 0 then char_of (unat (ucast w :: u8)) # blanks (dv_width d - 1)
      else blanks (dv_width d - 1) @ [char_of (unat (ucast w :: u8))])"

subsection \<open>Every loop is a run of characters\<close>

lemma puts_append: "puts e (xs @ ys) st = do { st \<leftarrow> puts e xs st; puts e ys st }"
  by (induction xs arbitrary: st) (auto split: Option.bind_splits)

lemma puts_single: "puts e [c] st = putc e c st"
  by (simp split: Option.bind_splits)

text \<open>The size when its loop has ended.\<close>

definition size_after :: "int \<Rightarrow> int" where
  "size_after n = (if 0 < n then - 1 else int32 (n - 1))"

lemma size_after_le: "- (2 ^ 31) < n \<Longrightarrow> size_after n < 0 \<and> min (n - 1) (- 1) \<le> size_after n"
  by (auto simp: size_after_def int32_id)

lemma pad_loop_puts:
  "pad_loop e c n st = map_option (\<lambda>st. (size_after n, st)) (puts e (replicate (nat n) c) st)"
proof (induction e c n st rule: pad_loop.induct)
  case (1 e c n st)
  show ?case
  proof (cases "0 < n")
    case True
    then have n: "nat n = Suc (nat (n - 1))" by simp
    have "size_after (n - 1) = size_after n" using True by (cases "n = 1") (simp_all add: size_after_def int32_id)
    then show ?thesis using 1 True n by (subst pad_loop.simps) (auto split: Option.bind_splits)
  qed (simp add: pad_loop.simps size_after_def)
qed

lemma pad_before_puts:
  "- (2 ^ 31) < w \<Longrightarrow> w < 2 ^ 31 \<Longrightarrow>
   pad_before e w st = map_option (\<lambda>st. (if 1 < w then 0 else w - 1, st)) (puts e (blanks (w - 1)) st)"
proof (induction e w st rule: pad_before.induct)
  case (1 e w st)
  have i: "int32 (w - 1) = w - 1" using 1(2,3) by (intro int32_id) simp_all
  show ?case
  proof (cases "1 < w")
    case True
    then have "nat (w - 1) = Suc (nat (w - 2))" by simp
    then show ?thesis using 1(1) [OF refl] 1(2,3) True i by (subst pad_before.simps) (auto simp: blanks_def split: Option.bind_splits)
  qed (simp add: pad_before.simps blanks_def i)
qed

lemma width_loop_pad: "width_loop e len w st = map_option (\<lambda>st. (if int len < w then int32 (int len - 1) else int32 (w - 1), st))
    (puts e (blanks (w - int len)) st)"
proof (induction e len w st rule: width_loop.induct)
  case (1 e len w st)
  show ?case
  proof (cases "int len < w")
    case True
    then have "nat (w - int len) = Suc (nat (w - 1 - int len))" by simp
    then have b: "blanks (w - int len) = CHR '' '' # blanks (w - 1 - int len)" by (simp add: blanks_def)
    have "(if int len < w - 1 then int32 (int len - 1) else int32 (w - 1 - 1)) = int32 (int len - 1)"
      using True by (cases "w = int len + 1") simp_all
    then have "width_loop e len (w - 1) st' = map_option (\<lambda>st. (int32 (int len - 1), st)) (puts e (blanks (w - 1 - int len)) st')"
      if "putc e (CHR '' '') st = Some st'" for st' using 1 [OF True that] by simp
    then show ?thesis using True by (subst width_loop.simps) (auto simp: b split: Option.bind_splits)
  qed (simp add: width_loop.simps blanks_def)
qed

lemma put_tmp_puts: "i \<le> length tmp \<Longrightarrow> put_tmp e tmp i pb st = puts e (if pb = 0 then [] else rev (take i tmp)) st"
proof (induction i arbitrary: st)
  case (Suc i)
  then have "rev (take (Suc i) tmp) = tmp ! i # rev (take i tmp)" by (simp add: take_Suc_conv_app_nth)
  then show ?case using Suc by (auto split: Option.bind_splits)
qed simp

text \<open>\<open>tmp\<close> is large enough for every 64-bit number.\<close>

lemma digits_of_length: "2 \<le> b \<Longrightarrow> n < b ^ k \<Longrightarrow> length (digits_of ds b n) \<le> k"
proof (induction k arbitrary: n)
  case (Suc k)
  then have "n div b < b ^ k" by (simp add: less_mult_imp_div_less mult.commute)
  then show ?case using Suc by (subst digits_of.simps) simp
qed (simp add: digits_of.simps)

lemma digit_loop_ok:
  "b = (if base = 10 then 10 else 16) \<Longrightarrow> length tmp + length (digits_of ds b (unat num)) \<le> 32 \<Longrightarrow>
   digit_loop ds base num tmp = Some (tmp @ digits_of ds b (unat num))"
proof (induction ds base num tmp rule: digit_loop.induct)
  case (1 ds base num tmp)
  show ?case
  proof (cases "num = 0")
    case True
    then show ?thesis by (simp add: digit_loop.simps [of ds base 0] digits_of.simps)
  next
    case False
    obtain r q where d: "divide num base = (r, q)" by force
    have rq: "r = unat num mod b" "unat q = unat num div b"
      using d 1(2) by (auto simp: divide_def unat_mod unat_div split: if_splits)
    have e: "digits_of ds b (unat num) = ds ! r # digits_of ds b (unat q)"
      using False 1(2) rq by (subst digits_of.simps) (auto simp: unat_eq_zero)
    have l: "length tmp < 32" using 1(3) e by simp
    have "digit_loop ds base q (tmp @ [ds ! r]) = Some ((tmp @ [ds ! r]) @ digits_of ds b (unat q))"
      by (rule 1(1) [OF False l d [symmetric] refl 1(2)]) (use 1(3) e in simp)
    then show ?thesis using False l d e by (subst digit_loop.simps) simp
  qed
qed

text \<open>Chains of runs are one run.\<close>

lemma nat_room: "nat (if 0 < x then x - 1 else x) = nat (x - 1)"
  by simp

lemma puts_chain:
  "pad_loop e c n st \<bind> f = puts e (replicate (nat n) c) st \<bind> (\<lambda>st. f (size_after n, st))"
  "putc e c st \<bind> g = puts e [c] st \<bind> g"
  "puts e xs st \<bind> (\<lambda>st. puts e ys st \<bind> k) = puts e (xs @ ys) st \<bind> k"
  "puts e xs st \<bind> Some = puts e xs st"
  "puts e [] st \<bind> h = h st"
  "puts e xs st \<bind> puts e ys = puts e (xs @ ys) st"
  by (simp_all add: pad_loop_puts bind_map_option comp_def puts_append)

lemma put_tmp_all: "put_tmp e tmp (length tmp) pb st = puts e (if pb = 0 then [] else rev tmp) st"
  by (simp add: put_tmp_puts)

lemma print_flag_simps:
  "(ty AND NOT ZEROPAD) AND SIGN = ty AND SIGN" "(ty AND NOT ZEROPAD) AND PLUS = ty AND PLUS"
  "(ty AND NOT ZEROPAD) AND SPACE = ty AND SPACE" "(ty AND NOT ZEROPAD) AND LEFT = ty AND LEFT"
  "(ty AND NOT ZEROPAD) AND ZEROPAD = 0"
  by (simp_all add: and.assoc)

lemma flag_either: "ty AND (ZEROPAD OR LEFT) = 0 \<longleftrightarrow> ty AND ZEROPAD = 0 \<and> ty AND LEFT = 0" for ty :: u8
  unfolding bit.conj_disj_distrib by (simp only: or_eq_0_iff)

text \<open>No \<open>int\<close> overflows for these widths and precisions.\<close>

definition int_ok :: "int \<Rightarrow> int \<Rightarrow> bool" where
  "int_ok w p \<longleftrightarrow> - 1 \<le> w \<and> w < 2 ^ 31 \<and> p \<le> 2 ^ 31 - 4"

lemma sizes_ok:
  fixes n :: int
  assumes n: "- (2 ^ 31) + 3 \<le> n" "n < 2 ^ 31"
  shows "int32 n = n" "int32 (n - 1) = n - 1" "nat (size_after n) = 0" "nat (size_after (size_after n)) = 0" "nat (size_after (n - 1)) = 0"
    "nat (int32 (size_after (if 0 < n then n - 1 else n) - 1)) = 0"
    "nat (size_after (int32 (size_after (if 0 < n then n - 1 else n) - 1))) = 0"
proof -
  let ?a = "size_after (if 0 < n then n - 1 else n)"
  have a: "- (2 ^ 31) + 2 \<le> ?a" "?a < 0" using size_after_le [of "n - 1"] size_after_le [of n] n by auto
  then have b: "int32 (?a - 1) = ?a - 1" by (intro int32_id) simp_all
  show "int32 n = n" "int32 (n - 1) = n - 1" using n by (simp_all add: int32_id)
  show "nat (size_after n) = 0" "nat (size_after (size_after n)) = 0" "nat (size_after (n - 1)) = 0"
    using size_after_le [of n] size_after_le [of "n - 1"] size_after_le [of "size_after n"] n
    by (simp_all add: min_def split: if_splits)
  show "nat (int32 (?a - 1)) = 0" "nat (size_after (int32 (?a - 1))) = 0" unfolding b using a size_after_le [of "?a - 1"] by auto
qed

lemma length_number_digits: "length (number_digits num base ty) \<le> 32"
proof -
  have "unat v < (if base = 10 then 10 else 16) ^ 32" for v :: u64
  proof -
    have "unat v < 2 ^ LENGTH(64)" by (rule unsigned_less)
    then show ?thesis by simp
  qed
  then show ?thesis by (auto simp: number_digits_def Let_def intro!: digits_of_length)
qed

lemma print_number_puts:
  assumes "int_ok s p"
  shows "print_number e num base s p ty st = puts e (number_text num base s p ty) st"
proof -
  define v where "v = (if ty AND SIGN \<noteq> 0 \<and> sint num < 0 then - num else num)"
  define ds where "ds = (if ty AND LARGE \<noteq> 0 then ''0123456789ABCDEF'' else ''0123456789abcdef'')"
  define tmp where "tmp = rev (number_digits num base ty)"
  have "(if v = 0 then Some ''0'' else digit_loop ds base v []) = Some tmp"
  proof (cases "v = 0")
    case True
    then show ?thesis by (simp add: tmp_def number_digits_def v_def)
  next
    case False
    let ?b = "if base = 10 then 10 else (16 :: nat)"
    have "unat v < 2 ^ LENGTH(64)" by (rule unsigned_less)
    then have "unat v < ?b ^ 32" by simp
    then have "length (digits_of ds ?b (unat v)) \<le> 32" by (intro digits_of_length) auto
    then have "digit_loop ds base v [] = Some (digits_of ds ?b (unat v))" by (subst digit_loop_ok) simp_all
    then show ?thesis using False by (simp add: tmp_def number_digits_def v_def ds_def Let_def)
  qed
  note T = this
  let ?sg = "number_sign num ty"
  let ?sign = "if ty AND SIGN = 0 then None else if ty AND SIGN \<noteq> 0 \<and> sint num < 0 then Some (CHR ''-'')
    else if ty AND PLUS \<noteq> 0 then Some (CHR ''+'') else if ty AND SPACE \<noteq> 0 then Some (CHR '' '') else None"
  have sg: "?sg = (case ?sign of None \<Rightarrow> [] | Some c \<Rightarrow> [c])" by (simp add: number_sign_def)
  let ?i = "length tmp"
  have L: "number_digits num base ty = rev tmp" by (simp add: tmp_def)
  have P: "(if int ?i > p then int ?i else p) = max p (int ?i)" by simp
  have Z: "nat (max p (int ?i) - int ?i) = nat (p - int ?i)" by simp
  let ?c = "if ty AND LEFT \<noteq> 0 then CHR '' '' else if ty AND ZEROPAD \<noteq> 0 then CHR ''0'' else CHR '' ''"
  let ?size = "int32 (s - max p (int ?i))"
  have "print_number e num base s p ty st = do {
        (size, st) \<leftarrow> (if ty AND ZEROPAD = 0 \<and> ty AND LEFT = 0
                      then pad_loop e (CHR '' '') (if ?sign \<noteq> None \<and> 0 < ?size then ?size - 1 else ?size) st
                      else Some (?size, st));
        (size, st) \<leftarrow> (case ?sign of Some ch \<Rightarrow> do { st \<leftarrow> putc e ch st; Some (int32 (size - 1), st) } | None \<Rightarrow> Some (size, st));
        (size, st) \<leftarrow> (if ty AND LEFT = 0 then pad_loop e ?c size st else Some (size, st));
        (_, st) \<leftarrow> pad_loop e (CHR ''0'') (max p (int ?i) - int ?i) st;
        st \<leftarrow> put_tmp e tmp ?i p st;
        (_, st) \<leftarrow> pad_loop e (CHR '' '') size st;
        Some st }"
  proof (cases "ty AND LEFT = 0")
    case True
    then show ?thesis
      unfolding print_number_def Let_def v_def [symmetric] ds_def [symmetric] P [symmetric]
      by (simp only: True simp_thms if_True if_False v_def [symmetric] ds_def [symmetric] T Option.bind.bind_lunit flag_either)
  next
    case False
    then show ?thesis
      unfolding print_number_def Let_def P [symmetric]
      by (simp only: False simp_thms if_True if_False print_flag_simps flag_either v_def [symmetric] ds_def [symmetric] T
          Option.bind.bind_lunit)
  qed
  note E = this
  obtain sg where S: "?sign = sg" by blast
  have N: "number_sign num ty = (case sg of None \<Rightarrow> [] | Some c \<Rightarrow> [c])" by (simp only: sg S)
  obtain sz where sz: "s - max p (int ?i) = sz" by blast
  have "?i \<le> 32" using length_number_digits [of num base ty] by (simp add: tmp_def)
  then have "- (2 ^ 31) + 3 \<le> sz" "sz < 2 ^ 31" using assms by (auto simp: int_ok_def sz [symmetric])
  note B = sizes_ok [OF this]
  show ?thesis
    unfolding E S number_text_def Let_def N L blanks_def length_rev sz B(1)
    by (cases "ty AND LEFT = 0"; cases "ty AND ZEROPAD = 0"; cases sg)
      (simp_all add: puts_chain put_tmp_all Z B Option.bind_assoc nat_room del: puts.simps)
qed

lemma pad_before_chain:
  "- (2 ^ 31) < w \<Longrightarrow> w < 2 ^ 31 \<Longrightarrow> pad_before e w st \<bind> f = puts e (blanks (w - 1)) st \<bind> (\<lambda>st. f (if 1 < w then 0 else w - 1, st))"
  by (simp add: pad_before_puts bind_map_option comp_def)

lemma blanks_done: "blanks ((if 1 < w then 0 else w - 1) - 1) = []"
  by (simp add: blanks_def)

lemma put_char_puts: "int_ok (dv_width d) p \<Longrightarrow> put_char e d w st = puts e (char_text d w) st"
  unfolding int_ok_def
  by (cases "dv_flags d AND LEFT = 0")
    (simp_all add: put_char_def char_text_def pad_before_chain puts_chain blanks_done del: puts.simps)

lemma field_len_ok:
  "int len \<le> w \<and> w < 2 ^ 31 \<or> len + length s < 2 ^ 31 \<Longrightarrow>
   field_len s w len = Some (if int len \<le> w then min (nat w) (len + length s) else len + length s)"
  by (induction s w len rule: field_len.induct) auto

lemma width_chain:
  "width_loop e len w st \<bind> f =
   puts e (blanks (w - int len)) st \<bind> (\<lambda>st. f (if int len < w then int32 (int len - 1) else int32 (w - 1), st))"
  by (simp add: width_loop_pad bind_map_option comp_def)

lemma put_string_puts:
  assumes w: "int_ok (dv_width d) p" and s: "0 \<le> dv_width d \<or> length s < 2 ^ 31"
  shows "put_string e d s st = puts e (string_text d s) st"
proof -
  let ?w = "dv_width d" and ?p = "dv_precision d"
  let ?t = "if 0 \<le> ?w then take (nat ?w) s else s"
  define l where "l = length ?t"
  have f: "field_len s ?w 0 = Some l" using w s by (subst field_len_ok) (auto simp: int_ok_def l_def min_def)
  define len where "len = (if ?p > 0 \<and> int l > ?p then nat ?p else l)"
  have l: "take l s = ?t" "l = length ?t" by (auto simp: l_def min_def)
  have "l \<le> length s" using l(2) by simp
  then have t: "take len s = (if 0 < ?p then take (nat ?p) ?t else ?t)" "len = length (take len s)"
    unfolding l(1) [symmetric]
    by (cases "?p < int l"; simp add: len_def min_absorb1 min_absorb2 nat_le_iff le_nat_iff)+
  obtain tx where tx: "take len s = tx" by blast
  have n: "len = length tx" using t(2) tx by simp
  have "int l < 2 ^ 31" using w s by (auto simp: l_def int_ok_def min_def)
  then have len31: "int len < 2 ^ 31" by (auto simp: len_def)
  have nb: "blanks ((if int len < ?w then int32 (int len - 1) else int32 (?w - 1)) - int len) = []"
    using w len31 by (auto simp: blanks_def int_ok_def int32_id)
  have "put_string e d s st = do {
      (w, st) \<leftarrow> (if dv_flags d AND LEFT = 0 then width_loop e len ?w st else Some (?w, st));
      st \<leftarrow> puts e (take len s) st;
      (_, st) \<leftarrow> width_loop e len w st;
      Some st }"
    by (simp only: put_string_def Let_def f Option.bind.bind_lunit len_def [symmetric])
  then show ?thesis
    unfolding string_text_def Let_def t(1) [symmetric] tx
    by (cases "dv_flags d AND LEFT = 0") (simp_all add: width_chain puts_chain nb tx n [symmetric] del: puts.simps)
qed

text \<open>The text of one directive, and what is left of the arguments.\<close>

definition directive_body :: "directive \<Rightarrow> string \<Rightarrow> va_val list \<Rightarrow> (string \<times> va_val list) option" where
  "directive_body d f vs =
     (let c = cur f; fl = dv_flags d; w = dv_width d; p = dv_precision d;
          number = (\<lambda>base signed fl. map_option (\<lambda>(n, vs). (number_text n base w p fl, vs)) (va_number d signed vs))
      in if c = CHR ''c'' then map_option (\<lambda>(v, vs). (char_text d v, vs)) (va_int vs)
         else if c = CHR ''s''
         then (case vs of VStr s # vs \<Rightarrow> Some (string_text d (case s of None \<Rightarrow> ''(NULL)'' | Some s \<Rightarrow> s), vs) | _ \<Rightarrow> None)
         else if c = CHR ''p''
         then (case vs of
                 VPtr a # vs \<Rightarrow> Some (if w = - 1 then number_text a 16 16 p (fl OR ZEROPAD) else number_text a 16 w p fl, vs)
               | _ \<Rightarrow> None)
         else if c = CHR ''%'' then Some (''%'', vs)
         else if c = CHR ''o'' then number 8 (fl AND SIGN \<noteq> 0) fl
         else if c = CHR ''X'' then number 16 (fl AND SIGN \<noteq> 0) (fl OR LARGE)
         else if c = CHR ''x'' then number 16 (fl AND SIGN \<noteq> 0) fl
         else if c = CHR ''d'' \<or> c = CHR ''i'' then number 10 True (fl OR SIGN)
         else if c = CHR ''u'' then number 10 (fl AND SIGN \<noteq> 0) fl
         else Some (''%'' @ (if f = [] then [] else [c]), vs))"

text \<open>The length of a string that is printed whole is an \<open>int\<close>.\<close>

definition string_ok :: "directive \<Rightarrow> va_val list \<Rightarrow> bool" where
  "string_ok d vs \<longleftrightarrow> 0 \<le> dv_width d \<or> (case vs of VStr (Some s) # _ \<Rightarrow> length s < 2 ^ 31 | _ \<Rightarrow> True)"

definition directive_text :: "directive \<Rightarrow> string \<Rightarrow> va_val list \<Rightarrow> (string \<times> va_val list) option" where
  "directive_text d f vs =
     (if int_ok (dv_width d) (dv_precision d) \<and> (cur f = CHR ''s'' \<longrightarrow> string_ok d vs) then directive_body d f vs else None)"

function format_text :: "string \<Rightarrow> va_val list \<Rightarrow> string option" where
  "format_text [] vs = Some []"
| "format_text (c # f) vs =
     (if c \<noteq> CHR ''%'' then map_option ((#) c) (format_text f vs)
      else case parse_directive f vs of
          None \<Rightarrow> None
        | Some (d, f, vs) \<Rightarrow> do { (t, vs) \<leftarrow> directive_text d f vs; r \<leftarrow> format_text (tl f) vs; Some (t @ r) })"
  by pat_completeness auto
termination
  by (relation "measure (\<lambda>(f, vs). length f)") (auto dest!: parse_directive_length)

lemma put_directive_body:
  assumes w: "int_ok (dv_width d) (dv_precision d)" and s: "cur f = CHR ''s'' \<longrightarrow> string_ok d vs"
  shows "put_directive e d f vs st = do { (t, vs) \<leftarrow> directive_body d f vs; st \<leftarrow> puts e t st; Some (vs, st) }"
proof -
  have w16: "int_ok 16 (dv_precision d)" using w by (simp add: int_ok_def)
  note n = print_number_puts [OF w] print_number_puts [OF w16] put_char_puts [OF w]
  show ?thesis
  proof (cases "cur f = CHR ''s''")
    case True
    have "put_string e d (case a of None \<Rightarrow> ''(NULL)'' | Some s \<Rightarrow> s) st =
        puts e (string_text d (case a of None \<Rightarrow> ''(NULL)'' | Some s \<Rightarrow> s)) st" if "vs = VStr a # vs'" for a vs'
      by (rule put_string_puts [OF w]) (use s True that in \<open>auto simp: string_ok_def split: option.splits\<close>)
    then show ?thesis using True
      by (auto simp: put_directive_def directive_body_def Let_def split: list.splits va_val.splits Option.bind_splits)
  next
    case False
    then show ?thesis
      unfolding put_directive_def directive_body_def Let_def n puts_single [symmetric]
      by (auto simp: bind_map_option comp_def case_prod_unfold puts_append split: list.splits va_val.splits option.splits Option.bind_splits)
  qed
qed

lemma put_directive_puts:
  "directive_text d f vs = Some (t, vs') \<Longrightarrow> put_directive e d f vs st = do { st \<leftarrow> puts e t st; Some (vs', st) }"
  by (simp add: directive_text_def put_directive_body split: if_splits)

lemma format_loop_puts: "format_text f vs = Some t \<Longrightarrow> format_loop e f vs st = puts e t st"
proof (induction e f vs st arbitrary: t rule: format_loop.induct)
  case (2 e c f vs st)
  show ?case
  proof (cases "c = CHR ''%''")
    case False
    then show ?thesis using 2(1) "2.prems" by (auto split: Option.bind_splits)
  next
    case True
    then show ?thesis
      using 2(2) "2.prems" by (auto simp: put_directive_puts puts_append split: option.splits Option.bind_splits)
  qed
qed simp

subsection \<open>Correctness\<close>

definition room :: "smem \<Rightarrow> nat \<Rightarrow> nat \<Rightarrow> bool" where
  "room m a n \<longleftrightarrow> (\<forall>x. a \<le> x \<and> x < a + n \<longrightarrow> m x \<noteq> None)"

definition store :: "smem \<Rightarrow> nat \<Rightarrow> string \<Rightarrow> smem" where
  "store m a cs = (\<lambda>x. if a \<le> x \<and> x < a + length cs then Some (cs ! (x - a)) else m x)"

lemma store_Nil [simp]: "store m a [] = m"
  by (rule ext) (auto simp: store_def)

lemma store_Cons: "store m a (c # cs) = store (m(a \<mapsto> c)) (a + 1) cs"
  by (rule ext) (auto simp: store_def nth_Cons')

lemma puts_ok: "room m p (e - p) \<Longrightarrow> p + length t < 2 ^ 64 \<Longrightarrow> puts e t (p, m) = Some (p + length t, store m p (take (e - p) t))"
proof (induction t arbitrary: p m)
  case (Cons c t)
  show ?case
  proof (cases "p < e")
    case True
    have "m p \<noteq> None" using Cons.prems True by (auto simp: room_def)
    have "room (m(p \<mapsto> c)) (p + 1) (e - (p + 1))" using Cons.prems True by (auto simp: room_def)
    then have "puts e t (p + 1, m(p \<mapsto> c)) = Some (p + 1 + length t, store (m(p \<mapsto> c)) (p + 1) (take (e - (p + 1)) t))"
      using Cons.prems(2) by (intro Cons.IH) (assumption, simp)
    moreover have "e - p = Suc (e - (p + 1))" using True by simp
    ultimately show ?thesis using True \<open>m p \<noteq> None\<close> Cons.prems(2) by (auto simp: putc_def store_Cons)
  next
    case False
    then have "room m (p + 1) (e - (p + 1))" by (auto simp: room_def)
    then show ?thesis using Cons.IH [of m "p + 1"] False Cons.prems(2) by (simp add: putc_def)
  qed
qed simp

text \<open>The buffer holds as much of the text as fits in front of a terminator.\<close>

definition formatted :: "nat \<Rightarrow> string \<Rightarrow> string" where
  "formatted len t = (if len = 0 then [] else take (len - 1) t @ [CHR 0x00])"

lemma vsnprintf_ok:
  assumes t: "format_text f vs = Some t" and b: "buf + len < 2 ^ 64" "buf + length t < 2 ^ 64" and r: "room m buf len"
  shows "rt_vsnprintf buf len f vs m = Some (int32 (int (length t)), store m buf (formatted len t))"
proof -
  have l: "format_loop (buf + len) f vs (buf, m) = Some (buf + length t, store m buf (take len t))"
    using puts_ok [of m buf "buf + len" t] r b(2) by (simp add: format_loop_puts t)
  show ?thesis
  proof (cases "len = 0")
    case True
    then show ?thesis using l b by (simp add: rt_vsnprintf_def formatted_def)
  next
    case False
    show ?thesis
    proof (cases "length t < len")
      case True
      then have "store m buf (take len t) (buf + length t) \<noteq> None" using r by (simp add: store_def room_def)
      moreover have "(store m buf (take len t))(buf + length t \<mapsto> CHR 0x00) = store m buf (t @ [CHR 0x00])"
        using True by (auto simp: store_def fun_eq_iff nth_append)
      ultimately show ?thesis using l b True False by (auto simp: rt_vsnprintf_def formatted_def)
    next
      case over: False
      have "store m buf (take len t) (buf + len - 1) \<noteq> None" using r False by (auto simp: store_def room_def)
      moreover have "(store m buf (take len t))(buf + len - 1 \<mapsto> CHR 0x00) = store m buf (take (len - 1) t @ [CHR 0x00])"
        using over False by (auto simp: store_def fun_eq_iff nth_append)
      ultimately show ?thesis using l b over False by (auto simp: rt_vsnprintf_def formatted_def)
    qed
  qed
qed

lemma read_string_ok: "CHR 0x00 \<notin> set t \<Longrightarrow> read_string a (store m a (t @ [CHR 0x00])) = Some t"
proof -
  have "CHR 0x00 \<notin> set t \<Longrightarrow> (\<forall>i < length t. m' (a + i) = Some (t ! i)) \<Longrightarrow> m' (a + length t) = Some (CHR 0x00) \<Longrightarrow>
      read_string a m' = Some t" for m'
  proof (induction t arbitrary: a)
    case Nil
    then show ?case by (subst read_string.simps) simp
  next
    case (Cons c t)
    have "read_string (a + 1) m' = Some t" by (rule Cons.IH) (use Cons.prems in \<open>auto simp: All_less_Suc2\<close>)
    then show ?case using Cons.prems by (subst read_string.simps) (auto simp: All_less_Suc2)
  qed
  moreover have "\<forall>i < length t. store m a (t @ [CHR 0x00]) (a + i) = Some (t ! i)" by (simp add: store_def nth_append)
  moreover have "store m a (t @ [CHR 0x00]) (a + length t) = Some (CHR 0x00)" by (simp add: store_def)
  ultimately show "CHR 0x00 \<notin> set t \<Longrightarrow> ?thesis" by blast
qed


text \<open>A field width, a string, a negative and a hexadecimal number.\<close>

lemma sample_format:
  "format_text ''a%5d|%-4s|%x'' [VInt (- 42), VStr (Some ''xy''), VInt 255] = Some ''a  -42|xy  |ff''"
  by code_simp


subsection \<open>Numbers read back\<close>

lemma decimal_digit: "r < 10 \<Longrightarrow> is_digit (''0123456789abcdef'' ! r) \<and> of_char (''0123456789abcdef'' ! r) = (48 + int r)"
  by (simp add: less_Suc_eq numeral_eq_Suc is_digit_def) auto

text \<open>The number a text of digits stands for.\<close>

definition decimal_value :: "string \<Rightarrow> int" where
  "decimal_value ds = foldl (\<lambda>n c. n * 10 + (of_char c - 48)) 0 ds"

lemma decimal_value_digits:
  "foldl (\<lambda>n c. n * 10 + (of_char c - 48)) i (rev (digits_of ''0123456789abcdef'' 10 n)) =
     i * 10 ^ length (digits_of ''0123456789abcdef'' 10 n) + int n \<and>
   list_all is_digit (rev (digits_of ''0123456789abcdef'' 10 n))"
proof (induction "''0123456789abcdef''" "10 :: nat" n rule: digits_of.induct)
  case (1 n)
  show ?case
  proof (cases "n = 0")
    case False
    let ?d = "''0123456789abcdef'' ! (n mod 10)"
    have D: "digits_of ''0123456789abcdef'' 10 n = ?d # digits_of ''0123456789abcdef'' 10 (n div 10)"
      using False by (subst digits_of.simps) simp
    have d: "is_digit ?d" "of_char ?d = 48 + int (n mod 10)" using decimal_digit [of "n mod 10"] by simp_all
    have n: "int n = int (n div 10) * 10 + int (n mod 10)" by (simp add: zdiv_int zmod_int)
    have "\<not> (n = 0 \<or> (10 :: nat) < 2)" using False by simp
    note IH = 1 [OF this]
    show ?thesis unfolding D rev.simps foldl_append length_Cons list_all_append
      using IH d by (simp add: n distrib_right)
  qed (simp add: digits_of.simps)
qed

text \<open>Reading takes every number modulo 2^32.\<close>

lemma skip_atoi_value:
  "list_all is_digit ds \<Longrightarrow> skip_atoi ds (int32 i) = (int32 (foldl (\<lambda>n c. n * 10 + (of_char c - 48)) i ds), [])"
proof (induction ds arbitrary: i)
  case (Cons c ds)
  have "int32 (int32 i * 10 + of_char c - 48) = int32 (i * 10 + (of_char c - 48))"
    using int32_step [of i 10 "of_char c - 48"] by (simp only: add_diff_eq)
  then show ?case using Cons.IH [of "i * 10 + (of_char c - 48)"] Cons.prems by simp
qed simp

lemma unat_magnitude:
  "int (unat (if ty AND SIGN \<noteq> 0 \<and> sint num < 0 then - num else num)) = \<bar>if ty AND SIGN = 0 then uint num else sint num\<bar>"
  for num :: u64
proof (cases "ty AND SIGN \<noteq> 0 \<and> sint num < 0")
  case True
  have b: "- (2 ^ 63) \<le> sint num" using sint_ge [of num] by simp
  have "uint (- num) = uint (word_of_int (- sint num) :: u64)" by simp
  also have "\<dots> = - sint num mod 2 ^ 64" by (simp only: uint_word_of_int) simp
  also have "\<dots> = - sint num" using True b by (intro mod_pos_pos_trivial) simp_all
  finally show ?thesis using True by simp
next
  case False
  have "uint num = sint num" if "0 \<le> sint num"
  proof -
    have "uint num = uint (word_of_int (sint num) :: u64)" by simp
    also have "\<dots> = sint num mod 2 ^ 64" by (simp only: uint_word_of_int) simp
    also have "\<dots> = sint num" using that sint_lt [of num] by (intro mod_pos_pos_trivial) simp_all
    finally show ?thesis .
  qed
  then show ?thesis using False by auto
qed

lemma number_digits_value:
  assumes "ty AND LARGE = 0"
  shows "decimal_value (number_digits num 10 ty) = \<bar>if ty AND SIGN = 0 then uint num else sint num\<bar> \<and>
    list_all is_digit (number_digits num 10 ty)"
proof -
  define v where "v = (if ty AND SIGN \<noteq> 0 \<and> sint num < 0 then - num else num)"
  have "decimal_value (number_digits num 10 ty) = int (unat v) \<and> list_all is_digit (number_digits num 10 ty)"
  proof (cases "v = 0")
    case True
    then show ?thesis by (simp add: number_digits_def v_def [symmetric] is_digit_def decimal_value_def)
  next
    case False
    then have "number_digits num 10 ty = rev (digits_of ''0123456789abcdef'' 10 (unat v))"
      using assms by (simp add: number_digits_def v_def [symmetric])
    then show ?thesis using decimal_value_digits [of 0 "unat v"] by (simp add: decimal_value_def)
  qed
  then show ?thesis unfolding v_def unat_magnitude .
qed

text \<open>C35: A number printed in decimal, with no width and no precision, is digits that stand for it, over the whole
  64-bit range: for an unsigned number they have its value, for a signed one its absolute value behind a minus sign
  when it is negative; and \<open>skip_atoi\<close> reads back from them the number converted to a 32-bit \<open>int\<close>.\<close>

theorem print_number_roundtrip:
  "(\<exists>ds. print_number e num 10 (- 1) (- 1) 0 st = puts e ds st \<and> list_all is_digit ds \<and> decimal_value ds = uint num \<and>
     skip_atoi ds 0 = (int32 (uint num), [])) \<and>
   (\<exists>ds. print_number e num 10 (- 1) (- 1) SIGN st = puts e ((if sint num < 0 then ''-'' else []) @ ds) st \<and>
     list_all is_digit ds \<and> decimal_value ds = \<bar>sint num\<bar> \<and> skip_atoi ds 0 = (int32 \<bar>sint num\<bar>, []))"
proof -
  have "number_text num 10 (- 1) (- 1) 0 = number_digits num 10 0"
    by (simp add: number_text_def number_sign_def blanks_def Let_def)
  moreover have "number_text num 10 (- 1) (- 1) SIGN = (if sint num < 0 then ''-'' else []) @ number_digits num 10 SIGN"
    by (simp add: number_text_def number_sign_def blanks_def Let_def)
  moreover have "skip_atoi ds 0 = (int32 (decimal_value ds), [])" if "list_all is_digit ds" for ds
    using skip_atoi_value [OF that, of 0] by (simp add: int32_id decimal_value_def)
  moreover have "int_ok (- 1) (- 1)" by (simp add: int_ok_def)
  ultimately show ?thesis
    using number_digits_value [of 0 num] number_digits_value [of SIGN num] by (auto simp: print_number_puts)
qed

text \<open>A field width above 2^31 - 1 wraps.\<close>

lemma width_wraps: "skip_atoi ''4294967297'' 0 = (1, [])"
  by code_simp

text \<open>Conversions that do not print what they stand for: an octal number comes out in hexadecimal,
  a number with precision 0 not at all, and a field width cuts a string.\<close>

lemma format_oddities:
  "format_text ''%o'' [VInt 64] = Some ''40''"
  "format_text ''%.0d'' [VInt 5] = Some []"
  "format_text ''%3s'' [VStr (Some ''hello'')] = Some ''hel''"
  by code_simp+

end
