(* ===== verification/CTime.thy ===== *)
theory CTime
  imports Prelude "HOL-Library.Signed_Division"
begin

section \<open>Calendar time (\<open>components/libc/compilers/common/time.c\<close>)\<close>

text \<open>
  Conversion between seconds since 1970 and broken-down time, and its text.  The fields of \<open>struct tm\<close> are
  32-bit \<open>int\<close>s: what is computed in \<open>int\<close>, or stored there from a 64-bit \<open>time_t\<close>, goes through \<open>int32\<close>.
  Sums of \<open>time_t\<close> with an argument go through \<open>int64\<close>; those of 32-bit fields stay below 2^57.  Division is
  C's (\<open>sdiv\<close> and \<open>smod\<close> round towards zero); \<open>None\<close> is an access outside the table \<open>__spm\<close>.
\<close>

record tm =
  tm_sec :: int
  tm_min :: int
  tm_hour :: int
  tm_mday :: int
  tm_mon :: int
  tm_year :: int
  tm_wday :: int
  tm_yday :: int
  tm_isdst :: int

definition spm_table :: "int list" where
  "spm_table = [0, 31, 59, 90, 120, 151, 181, 212, 243, 273, 304, 334, 365]"

definition spm :: "int \<Rightarrow> int option" where
  "spm i = (if 0 \<le> i \<and> i < 13 then Some (spm_table ! nat i) else None)"

definition isleap :: "int \<Rightarrow> bool" where
  "isleap year \<longleftrightarrow> year smod 4 = 0 \<and> (year smod 100 \<noteq> 0 \<or> year smod 400 = 0)"

definition SPD :: int where "SPD = 24 * 60 * 60"

subsection \<open>\<open>gmtime_r\<close>\<close>

function year_loop :: "int \<Rightarrow> int \<Rightarrow> int \<times> int" where
  "year_loop work i =
     (let k = (if isleap (int32 i) then 366 else 365) in
      if k \<le> work then year_loop (work - k) (i + 1) else (work, i))"
  by auto
termination by (relation "measure (\<lambda>(work, i). nat work)") (auto split: if_splits)

declare year_loop.simps [simp del]

text \<open>\<open>for (i = 11; i && (__spm[i] > work); --i);\<close>\<close>

fun month_loop :: "nat \<Rightarrow> int \<Rightarrow> nat" where
  "month_loop 0 work = 0"
| "month_loop (Suc i) work = (if work < spm_table ! Suc i then month_loop i work else Suc i)"

definition tz_is_dst :: int where "tz_is_dst = 0"

definition gmtime_r :: "int \<Rightarrow> tm" where
  "gmtime_r t =
     (let work = t smod SPD;
          sec = int32 (work smod 60);
          work = work sdiv 60;
          mi = int32 (work smod 60);
          hour = int32 (work sdiv 60);
          work = t sdiv SPD;
          wday = int32 ((4 + work) smod 7);
          (work, i) = year_loop work 1970;
          year = int32 (i - 1900);
          yday = int32 work;
          (mday, work) = (if isleap (int32 i) \<and> 58 < work then ((if work = 59 then 2 else 1), work - 1) else (1, work));
          mon = month_loop 11 work
      in \<lparr>tm_sec = sec, tm_min = mi, tm_hour = hour, tm_mday = int32 (mday + (work - spm_table ! mon)), tm_mon = int mon,
          tm_year = year, tm_wday = wday, tm_yday = yday, tm_isdst = tz_is_dst\<rparr>)"

subsection \<open>\<open>timegm\<close>\<close>

lemma spm_table_bounds: "\<forall>k<13. 0 \<le> spm_table ! k \<and> (0 < k \<longrightarrow> 31 \<le> spm_table ! k)"
  by (simp add: spm_table_def All_less_Suc eval_nat_numeral)

lemma spm_table_le: "\<forall>k<13. spm_table ! k \<le> 365"
  by (simp add: spm_table_def All_less_Suc eval_nat_numeral)

lemma spm_SomeD: "spm i = Some n \<Longrightarrow> 0 \<le> i \<and> i \<le> 12 \<and> 0 \<le> n \<and> (0 < i \<longrightarrow> 31 \<le> n) \<and> n \<le> 365"
  using spm_table_bounds spm_table_le by (auto simp: spm_def nat_less_iff split: if_splits)

text \<open>What one round takes from the day of the month.\<close>

lemma mday_less:
  assumes "0 < d" "0 \<le> n" "n \<le> 365" "d' = int32 (d - 1) \<or> d' = d"
  shows "int32 (d' - n) \<le> d" "0 < n \<or> d' \<noteq> d \<Longrightarrow> int32 (d' - n) < d"
proof -
  have "int32 (d' - n) \<le> d \<and> (0 < n \<or> d' \<noteq> d \<longrightarrow> int32 (d' - n) < d)"
  proof (cases "d < 2 ^ 31")
    case True
    then have "int32 (d - 1) = d - 1" using assms(1) by (intro int32_id) simp_all
    then have d': "d' = d - 1 \<or> d' = d" using assms(4) by simp
    then have "int32 (d' - n) \<le> d' - n" using assms(1,3) by (intro int32_le) auto
    then show ?thesis using d' assms(2) by auto
  next
    case False
    then show ?thesis using int32_range(2) [of "d' - n"] by simp
  qed
  then show "int32 (d' - n) \<le> d" "0 < n \<or> d' \<noteq> d \<Longrightarrow> int32 (d' - n) < d" by blast+
qed

text \<open>The loop that brings the day of the month into range, as it is.\<close>

function mday_loop :: "tm \<Rightarrow> tm option" where
  "mday_loop t =
     (case spm (int32 (1 + tm_mon t)) of
        None \<Rightarrow> None
      | Some m \<Rightarrow>
          if m < tm_mday t
          then let t = (if tm_mon t = 1 \<and> isleap (int32 (tm_year t + 1900)) then t\<lparr>tm_mday := int32 (tm_mday t - 1)\<rparr> else t)
               in (case spm (tm_mon t) of
                     None \<Rightarrow> None
                   | Some n \<Rightarrow>
                       let t = t\<lparr>tm_mday := int32 (tm_mday t - n), tm_mon := int32 (tm_mon t + 1)\<rparr>
                       in mday_loop (if 11 < tm_mon t then t\<lparr>tm_mon := 0, tm_year := int32 (tm_year t + 1)\<rparr> else t))
          else Some t)"
  by auto
termination
proof (relation "measures [\<lambda>t. nat (tm_mday t), \<lambda>t. nat (12 - tm_mon t)]", simp, goal_cases)
  case (1 t m t1 n t2)
  have m: "0 < tm_mday t" using spm_SomeD [OF 1(1)] 1(2) by simp
  have t1: "tm_mon t1 = tm_mon t" "tm_mday t1 = int32 (tm_mday t - 1) \<or> tm_mday t1 = tm_mday t"
    by (simp_all add: 1(3))
  have n: "0 \<le> tm_mon t" "tm_mon t \<le> 12" "0 \<le> n" "0 < tm_mon t \<longrightarrow> 31 \<le> n" "n \<le> 365" using spm_SomeD [OF 1(4)] t1(1) by simp_all
  have mon: "int32 (tm_mon t + 1) = tm_mon t + 1" using n by (intro int32_id) simp_all
  have less: "int32 (tm_mday t1 - n) \<le> tm_mday t" "0 < n \<Longrightarrow> int32 (tm_mday t1 - n) < tm_mday t"
    using mday_less [OF m n(3,5) t1(2)] by simp_all
  show ?case using m n less mon t1(1) unfolding 1(5) by (auto simp: nat_mono_iff)
qed

declare mday_loop.simps [simp del]

definition timegm :: "tm \<Rightarrow> (int \<times> tm) option" where
  "timegm t =
     do { let years = int32 (tm_year t - 70);
          let t = (if 60 < tm_sec t then t\<lparr>tm_min := int32 (tm_min t + tm_sec t sdiv 60), tm_sec := tm_sec t smod 60\<rparr> else t);
          let t = (if 60 < tm_min t then t\<lparr>tm_hour := int32 (tm_hour t + tm_min t sdiv 60), tm_min := tm_min t smod 60\<rparr> else t);
          let t = (if 24 < tm_hour t then t\<lparr>tm_mday := int32 (tm_mday t + tm_hour t sdiv 24), tm_hour := tm_hour t smod 24\<rparr> else t);
          let t = (if 12 < tm_mon t then t\<lparr>tm_year := int32 (tm_year t + tm_mon t sdiv 12), tm_mon := tm_mon t smod 12\<rparr> else t);
          t \<leftarrow> mday_loop t;
          if tm_year t < 70 then Some (- 1, t)
          else do {
            let day = years * 365 + (years + 1) sdiv 4;
            let day = (if 131 \<le> years
                       then let years = (years - 131) sdiv 100;
                                day = day - ((years div 4) * 3 + 1);
                                years = (if years mod 4 = 3 then years mod 4 - 1 else years mod 4)
                            in day - years
                       else day);
            m \<leftarrow> spm (tm_mon t);
            let yday = int32 (m + tm_mday t - 1 + (if isleap (int32 (tm_year t + 1900)) \<and> 1 < tm_mon t then 1 else 0));
            let t = t\<lparr>tm_yday := yday\<rparr>;
            let day = day + yday;
            let t = t\<lparr>tm_wday := (day + 4) smod 7\<rparr>;
            Some (((day * 24 + tm_hour t) * 60 + tm_min t) * 60 + tm_sec t, t) } }"

subsection \<open>Local time\<close>

text \<open>The time zone is a signed byte.\<close>

definition localtime_r :: "u8 \<Rightarrow> int \<Rightarrow> tm" where
  "localtime_r tz t = gmtime_r (int64 (t + sint tz * 3600))"

definition mktime :: "u8 \<Rightarrow> tm \<Rightarrow> (int \<times> tm) option" where
  "mktime tz t = do { (timestamp, t) \<leftarrow> timegm t; Some (int64 (timestamp - 3600 * sint tz), t) }"

subsection \<open>Text\<close>

definition days :: string where "days = ''Sun Mon Tue Wed Thu Fri Sat ''"
definition months :: string where "months = ''Jan Feb Mar Apr May Jun Jul Aug Sep Oct Nov Dec ''"

definition digit_char :: "int \<Rightarrow> char" where
  "digit_char i = char_of ((i + 48) mod 256)"

definition num2str :: "int \<Rightarrow> string" where
  "num2str i = [digit_char (i sdiv 10), digit_char (i smod 10)]"

text \<open>The 26 bytes put into the buffer; a day or month below 0 reads in front of its table.\<close>

definition asctime_r :: "tm \<Rightarrow> string option" where
  "asctime_r t =
     (let mday = num2str (tm_mday t);
          mday = (if mday ! 0 = CHR ''0'' then mday[0 := CHR '' ''] else mday);
          rest = mday @ '' '' @ num2str (tm_hour t) @ '':'' @ num2str (tm_min t) @ '':'' @ num2str (tm_sec t) @ '' ''
      in if int (length days) \<le> int32 (tm_wday t * 4) \<or> int (length months) \<le> int32 (tm_mon t * 4)
         then Some (take 4 days @ take 4 months @ rest @ num2str (2000 sdiv 100) @ num2str (2000 smod 100) @ [CHR 0x0A, CHR 0x00])
         else if int32 (tm_wday t * 4) < 0 \<or> int32 (tm_mon t * 4) < 0 then None
         else Some (take 4 (drop (nat (int32 (tm_wday t * 4))) days) @ take 4 (drop (nat (int32 (tm_mon t * 4))) months) @ rest @
                    num2str (int32 (tm_year t + 1900) sdiv 100) @ num2str (int32 (tm_year t + 1900) smod 100) @ [CHR 0x0A, CHR 0x00]))"

definition ctime_r :: "u8 \<Rightarrow> int \<Rightarrow> string option" where
  "ctime_r tz t = asctime_r (localtime_r tz t)"

subsection \<open>Counting days\<close>

definition days_to_year :: "int \<Rightarrow> int" where
  "days_to_year n = n * 365 + (n + 1) div 4 - (n + 69) div 100 + (n + 369) div 400"

abbreviation year_days :: "int \<Rightarrow> int" where
  "year_days y \<equiv> if isleap y then 366 else 365"

lemma sdiv_pos: "0 \<le> a \<Longrightarrow> 0 < b \<Longrightarrow> a sdiv b = (a :: int) div b"
  by (cases "a = 0") (simp_all add: signed_divide_int_def)

lemma smod_pos: "0 \<le> a \<Longrightarrow> 0 < b \<Longrightarrow> a smod b = (a :: int) mod b"
  by (cases "a = 0") (simp_all add: signed_modulo_int_def)

lemma isleap_iff: "0 \<le> y \<Longrightarrow> isleap y \<longleftrightarrow> y mod 4 = 0 \<and> (y mod 100 \<noteq> 0 \<or> y mod 400 = 0)"
  by (simp add: isleap_def smod_pos)

lemma div_plus_1:
  assumes "0 < (k :: int)"
  shows "(a + 1) div k = a div k + (if (a + 1) mod k = 0 then 1 else 0)"
proof -
  have e: "a = a div k * k + a mod k" and r: "0 \<le> a mod k" "a mod k < k" using assms by simp_all
  have a: "a + 1 = a div k * k + (a mod k + 1)" using e by linarith
  show ?thesis
  proof (cases "a mod k + 1 = k")
    case True
    then have "a + 1 = (a div k + 1) * k" using a by (simp add: distrib_right)
    then show ?thesis using assms by simp
  next
    case False
    then have "a + 1 = k * (a div k) + (a mod k + 1)" "0 \<le> a mod k + 1" "a mod k + 1 < k" using a r by (simp_all add: mult.commute)
    from int_div_pos_eq [OF this] int_mod_pos_eq [OF this] show ?thesis using r by simp
  qed
qed

lemma leap_count_step:
  fixes n :: int
  shows "(n + 1 + 1) div 4 = (n + 1) div 4 + (if (1970 + n) mod 4 = 0 then 1 else 0)"
    and "(n + 1 + 69) div 100 = (n + 69) div 100 + (if (1970 + n) mod 100 = 0 then 1 else 0)"
    and "(n + 1 + 369) div 400 = (n + 369) div 400 + (if (1970 + n) mod 400 = 0 then 1 else 0)"
proof -
  have shift: "(x + 1) div k = x div k + (if (x + 1 + q * k) mod k = 0 then 1 else 0)" if "0 < k" for x q k :: int
    using div_plus_1 [OF that, of x] by (simp only: mod_mult_self1)
  have e: "n + 1 + 1 + 492 * 4 = 1970 + n" "n + 69 + 1 + 19 * 100 = 1970 + n" "n + 369 + 1 + 4 * 400 = 1970 + n"
    "n + 1 + 69 = n + 69 + 1" "n + 1 + 369 = n + 369 + 1" by simp_all
  show "(n + 1 + 1) div 4 = (n + 1) div 4 + (if (1970 + n) mod 4 = 0 then 1 else 0)"
    using shift [of 4 "n + 1" 492] by (simp only: e zero_less_numeral simp_thms)
  show "(n + 1 + 69) div 100 = (n + 69) div 100 + (if (1970 + n) mod 100 = 0 then 1 else 0)"
    using shift [of 100 "n + 69" 19] by (simp only: e zero_less_numeral simp_thms)
  show "(n + 1 + 369) div 400 = (n + 369) div 400 + (if (1970 + n) mod 400 = 0 then 1 else 0)"
    using shift [of 400 "n + 369" 4] by (simp only: e zero_less_numeral simp_thms)
qed

lemma days_to_year_step:
  assumes "0 \<le> n"
  shows "days_to_year (n + 1) = days_to_year n + year_days (1970 + n)"
proof -
  have i: "(1970 + n) mod 400 = 0 \<Longrightarrow> (1970 + n) mod 100 = 0" "(1970 + n) mod 100 = 0 \<Longrightarrow> (1970 + n) mod 4 = 0"
    using mod_mod_cancel [of 100 400 "1970 + n"] mod_mod_cancel [of 4 100 "1970 + n"] by auto
  have l: "isleap (1970 + n) \<longleftrightarrow> (1970 + n) mod 4 = 0 \<and> ((1970 + n) mod 100 \<noteq> 0 \<or> (1970 + n) mod 400 = 0)"
    using assms by (intro isleap_iff) simp
  show ?thesis unfolding days_to_year_def leap_count_step l
    by (cases "(1970 + n) mod 4 = 0"; cases "(1970 + n) mod 100 = 0"; cases "(1970 + n) mod 400 = 0") (use i in simp_all)
qed

lemma days_to_year_0: "days_to_year 0 = 0"
  by (simp add: days_to_year_def)

lemma days_to_year_mono: "0 \<le> n \<Longrightarrow> days_to_year n + year_days (1970 + n) \<le> days_to_year (n + 1 + int k)"
  using days_to_year_step [of n]
proof (induction k)
  case (Suc k)
  have "days_to_year (n + 1 + int k) \<le> days_to_year (n + 1 + int (Suc k))"
    using days_to_year_step [of "n + 1 + int k"] Suc.prems by (simp add: add.assoc add.commute split: if_splits)
  then show ?case using Suc.IH Suc.prems by linarith
qed simp

text \<open>The years that an \<open>int\<close> holds, from 1970 on.\<close>

abbreviation YEAR_END :: int where "YEAR_END \<equiv> 2 ^ 31 - 1970"

definition TIME_END :: int where "TIME_END = days_to_year YEAR_END * 86400"

lemma TIME_END_value: "TIME_END = 67767976233532800"
  by (simp add: TIME_END_def days_to_year_def)

lemma year_bound: "days_to_year n + w < days_to_year m \<Longrightarrow> 0 \<le> w \<Longrightarrow> 0 \<le> m \<Longrightarrow> n < m"
  using days_to_year_mono [of m "nat (n - m - 1)"] by (cases "n = m"; cases "m < n") (auto split: if_splits)

lemma century_count: "(c :: int) div 4 * 3 + 1 + (if c mod 4 = 3 then c mod 4 - 1 else c mod 4) = 1 + c - (c + 1) div 4"
proof -
  have "c = 4 * (c div 4) + c mod 4" by simp
  moreover have "(c + 1) div 4 = c div 4 + (if c mod 4 = 3 then 1 else 0)" by presburger
  ultimately show ?thesis by (auto split: if_splits)
qed

lemma days_formula:
  assumes "0 \<le> n"
  shows "n * 365 + (n + 1) sdiv 4 - (if 131 \<le> n
           then ((n - 131) sdiv 100) div 4 * 3 + 1
                + (if ((n - 131) sdiv 100) mod 4 = 3 then ((n - 131) sdiv 100) mod 4 - 1 else ((n - 131) sdiv 100) mod 4)
           else 0) = days_to_year n"
proof (cases "131 \<le> n")
  case True
  define m where "m = n - 131"
  have n: "n = m + 131" "0 \<le> m" using True by (simp_all add: m_def)
  have "(m + 100 + 1 * 400) div 400 = (m + 100) div (100 * 4) + 1" by (simp only: div_mult_self1) simp
  also have "\<dots> = (m div 100 + 1) div 4 + 1" by (simp only: zdiv_zmult2_eq)
  finally have "(m + 500) div 400 = (m div 100 + 1) div 4 + 1" by simp
  moreover have "(m + 2 * 100) div 100 = 2 + m div 100" by (simp only: div_mult_self1)
  ultimately have e: "(n + 69) div 100 = 2 + m div 100" "(n + 369) div 400 = (m div 100 + 1) div 4 + 1" by (simp_all add: n(1))
  have d: "(n - 131) sdiv 100 = m div 100" "(n + 1) sdiv 4 = (n + 1) div 4" using n by (simp_all add: sdiv_pos)
  show ?thesis unfolding days_to_year_def e d by (simp only: True if_True century_count)
next
  case False
  then have "(n + 69) div 100 = (if 31 \<le> n then 1 else 0)" "(n + 369) div 400 = (if 31 \<le> n then 1 else 0)"
    using assms by (auto simp: div_pos_geq)
  then show ?thesis using False assms by (simp add: days_to_year_def sdiv_pos)
qed

subsection \<open>Broken-down time and back\<close>

text \<open>The loop over the years.\<close>

lemma year_loop_spec:
  assumes "0 \<le> work" "0 \<le> n" "days_to_year n + work < days_to_year YEAR_END"
  obtains w m where "year_loop work (1970 + n) = (w, 1970 + m)" "n \<le> m" "0 \<le> w" "w < year_days (1970 + m)"
    "days_to_year m + w = days_to_year n + work" "m < YEAR_END"
proof -
  have "\<exists>w m. year_loop work (1970 + n) = (w, 1970 + m) \<and> n \<le> m \<and> 0 \<le> w \<and> w < year_days (1970 + m) \<and>
          days_to_year m + w = days_to_year n + work \<and> m < YEAR_END" (is "?P work n")
    using assms
  proof (induction "nat work" arbitrary: work n rule: less_induct)
    case less
    have n: "n < YEAR_END" using year_bound [OF less.prems(3,1)] by simp
    then have i: "int32 (1970 + n) = 1970 + n" using less.prems(2) by (intro int32_id) simp_all
    show ?case
    proof (cases "year_days (1970 + n) \<le> work")
      case True
      have "?P (work - year_days (1970 + n)) (n + 1)" by (rule less.hyps) (use less.prems True days_to_year_step [OF less.prems(2)] in \<open>auto split: if_splits\<close>)
      then obtain w m where "year_loop (work - year_days (1970 + n)) (1970 + (n + 1)) = (w, 1970 + m)" "n \<le> m" "0 \<le> w"
        "w < year_days (1970 + m)" "days_to_year m + w = days_to_year n + work" "m < YEAR_END"
        using days_to_year_step [OF less.prems(2)] by fastforce
      then show ?thesis using True i by (subst year_loop.simps) (auto simp: add.assoc Let_def)
    next
      case False
      then show ?thesis using less.prems i n by (subst year_loop.simps) (auto simp: Let_def intro!: exI [of _ n])
    qed
  qed
  then show thesis using that by blast
qed

text \<open>The months: the day of the year \<open>w\<close>, 29 February taken out.\<close>

lemma month_loop_spec:
  assumes "0 \<le> w" "w < 365"
  shows "month_loop 11 w < 12" "spm_table ! month_loop 11 w \<le> w" "w < spm_table ! Suc (month_loop 11 w)"
proof -
  have "month_loop n w \<le> n" for n by (induction n) auto
  from this [of 11] show "month_loop 11 w < 12" by simp
  have "spm_table ! month_loop n w \<le> w" for n by (induction n) (use assms in \<open>auto simp: spm_table_def\<close>)
  then show "spm_table ! month_loop 11 w \<le> w" .
  have "w < spm_table ! Suc n \<Longrightarrow> w < spm_table ! Suc (month_loop n w)" for n by (induction n) auto
  from this [of 11] show "w < spm_table ! Suc (month_loop 11 w)" using assms by (simp add: spm_table_def)
qed

lemma month_loop_unique:
  assumes "m < 12" "spm_table ! m \<le> w" "w < spm_table ! Suc m"
  shows "month_loop 11 w = m"
proof -
  have "m = 0 \<or> m = 1 \<or> m = 2 \<or> m = 3 \<or> m = 4 \<or> m = 5 \<or> m = 6 \<or> m = 7 \<or> m = 8 \<or> m = 9 \<or> m = 10 \<or> m = 11"
    using assms(1) by presburger
  then show ?thesis using assms(2,3) by (auto simp: spm_table_def eval_nat_numeral)
qed

text \<open>A date and time of day that exists, from 1970 to the last year an \<open>int\<close> holds.\<close>

definition month_days :: "int \<Rightarrow> int \<Rightarrow> int" where
  "month_days year mon = (if mon = 1 \<and> isleap (1900 + year) then 29 else spm_table ! Suc (nat mon) - spm_table ! nat mon)"

definition valid_tm :: "tm \<Rightarrow> bool" where
  "valid_tm t \<longleftrightarrow> 0 \<le> tm_sec t \<and> tm_sec t < 60 \<and> 0 \<le> tm_min t \<and> tm_min t < 60 \<and> 0 \<le> tm_hour t \<and> tm_hour t < 24 \<and>
     70 \<le> tm_year t \<and> tm_year t + 1900 < 2 ^ 31 \<and> 0 \<le> tm_mon t \<and> tm_mon t < 12 \<and> 1 \<le> tm_mday t \<and> tm_mday t \<le> month_days (tm_year t) (tm_mon t)"

definition day_of_year :: "tm \<Rightarrow> int" where
  "day_of_year t = spm_table ! nat (tm_mon t) + tm_mday t - 1 + (if isleap (1900 + tm_year t) \<and> 1 < tm_mon t then 1 else 0)"

definition seconds_of :: "tm \<Rightarrow> int" where
  "seconds_of t = (days_to_year (tm_year t - 70) + day_of_year t) * 86400 + tm_hour t * 3600 + tm_min t * 60 + tm_sec t"

lemma month_days_31: "0 \<le> m \<Longrightarrow> m < 12 \<Longrightarrow> 28 \<le> month_days y m \<and> month_days y m \<le> 31"
proof -
  assume "0 \<le> m" "m < 12"
  then have "m = 0 \<or> m = 1 \<or> m = 2 \<or> m = 3 \<or> m = 4 \<or> m = 5 \<or> m = 6 \<or> m = 7 \<or> m = 8 \<or> m = 9 \<or> m = 10 \<or> m = 11" by presburger
  then show ?thesis by (auto simp: month_days_def spm_table_def)
qed

lemma spm_nth: "0 \<le> i \<Longrightarrow> i < 13 \<Longrightarrow> spm i = Some (spm_table ! nat i)"
  by (simp add: spm_def)

lemma timegm_valid:
  assumes v: "valid_tm t"
  shows "timegm t = Some (seconds_of t, t\<lparr>tm_yday := day_of_year t, tm_wday := (days_to_year (tm_year t - 70) + day_of_year t + 4) smod 7\<rparr>)"
proof -
  have m: "0 \<le> tm_mon t" "tm_mon t < 12" "70 \<le> tm_year t" using v by (simp_all add: valid_tm_def)
  have "31 \<le> spm_table ! nat (1 + tm_mon t)" using spm_table_bounds m by (auto simp: nat_less_iff)
  then have "tm_mday t \<le> spm_table ! nat (1 + tm_mon t)" using v month_days_31 [OF m(1,2), of "tm_year t"] by (simp add: valid_tm_def)
  then have l: "mday_loop t = Some t" using m by (subst mday_loop.simps) (simp add: spm_nth int32_id)
  have y32: "int32 (tm_year t - 70) = tm_year t - 70" "int32 (tm_year t + 1900) = tm_year t + 1900"
    using v by (auto simp: valid_tm_def intro!: int32_id)
  have e: "\<not> 60 < tm_sec t" "\<not> 60 < tm_min t" "\<not> 24 < tm_hour t" "\<not> 12 < tm_mon t" "\<not> tm_year t < 70"
    using v by (auto simp: valid_tm_def)
  have d: "(if 131 \<le> tm_year t - 70
      then (tm_year t - 70) * 365 + (tm_year t - 70 + 1) sdiv 4 - ((tm_year t - 70 - 131) sdiv 100 div 4 * 3 + 1) -
           (if (tm_year t - 70 - 131) sdiv 100 mod 4 = 3 then (tm_year t - 70 - 131) sdiv 100 mod 4 - 1 else (tm_year t - 70 - 131) sdiv 100 mod 4)
      else (tm_year t - 70) * 365 + (tm_year t - 70 + 1) sdiv 4) = days_to_year (tm_year t - 70)"
    using days_formula [of "tm_year t - 70"] m by (auto split: if_splits)
  have "0 \<le> spm_table ! nat (tm_mon t)" "spm_table ! nat (tm_mon t) \<le> 365"
    using spm_table_bounds spm_table_le m by (auto simp: nat_less_iff)
  then have d32: "int32 (day_of_year t) = day_of_year t"
    using v month_days_31 [OF m(1,2), of "tm_year t"] by (intro int32_id) (auto simp: day_of_year_def valid_tm_def)
  have y: "int32 (spm_table ! nat (tm_mon t) + tm_mday t - 1 + (if isleap (tm_year t + 1900) \<and> 1 < tm_mon t then 1 else 0)) = day_of_year t"
    using d32 by (simp add: day_of_year_def add.commute)
  have "timegm t = (let day = days_to_year (tm_year t - 70) + day_of_year t in
      Some (((day * 24 + tm_hour t) * 60 + tm_min t) * 60 + tm_sec t, t\<lparr>tm_yday := day_of_year t, tm_wday := (day + 4) smod 7\<rparr>))"
    using m(1,2) by (simp only: timegm_def Let_def e if_False l y32 Option.bind.bind_lunit spm_nth [OF m(1)] d y) (simp add: spm_nth d y)
  then show ?thesis 
    by (simp add: spm_nth d y seconds_of_def algebra_simps del: diff_diff_eq split del: if_split)
qed

text \<open>The day of the year determines month and day.\<close>

definition plain_day :: "int \<Rightarrow> int \<Rightarrow> int" where
  "plain_day year doy = (if isleap (1900 + year) \<and> 58 < doy then doy - 1 else doy)"

lemma month_cases: "0 \<le> (m :: int) \<Longrightarrow> m < 12 \<Longrightarrow>
    m = 0 \<or> m = 1 \<or> m = 2 \<or> m = 3 \<or> m = 4 \<or> m = 5 \<or> m = 6 \<or> m = 7 \<or> m = 8 \<or> m = 9 \<or> m = 10 \<or> m = 11"
  by presburger

lemma spm_table_nth [simp]:
  "spm_table ! 0 = 0" "spm_table ! Suc 0 = 31" "spm_table ! Suc (Suc 0) = 59" "spm_table ! 2 = 59" "spm_table ! 3 = 90" "spm_table ! 4 = 120" "spm_table ! 5 = 151"
  "spm_table ! 6 = 181" "spm_table ! 7 = 212" "spm_table ! 8 = 243" "spm_table ! 9 = 273" "spm_table ! 10 = 304" "spm_table ! 11 = 334"
  "spm_table ! 12 = 365"
  by (simp_all add: spm_table_def)

lemma valid_month:
  assumes "valid_tm t"
  shows "month_loop 11 (plain_day (tm_year t) (day_of_year t)) = nat (tm_mon t)"
    and "0 \<le> day_of_year t" "day_of_year t < year_days (1900 + tm_year t)"
proof -
  have m: "0 \<le> tm_mon t" "tm_mon t < 12" and d: "1 \<le> tm_mday t" "tm_mday t \<le> month_days (tm_year t) (tm_mon t)"
    using assms by (simp_all add: valid_tm_def)
  have r: "spm_table ! nat (tm_mon t) \<le> plain_day (tm_year t) (day_of_year t) \<and> plain_day (tm_year t) (day_of_year t) < spm_table ! Suc (nat (tm_mon t)) \<and>
      0 \<le> day_of_year t \<and> day_of_year t < year_days (1900 + tm_year t)"
    using d month_cases [OF m] by (elim disjE) (auto simp: plain_day_def day_of_year_def month_days_def)
  then show "month_loop 11 (plain_day (tm_year t) (day_of_year t)) = nat (tm_mon t)"
    by (intro month_loop_unique) (use m in auto)
  show "0 \<le> day_of_year t" "day_of_year t < year_days (1900 + tm_year t)" using r by blast+
qed

lemma gmtime_ok:
  assumes "0 \<le> t" "t < TIME_END"
  shows "valid_tm (gmtime_r t) \<and> seconds_of (gmtime_r t) = t \<and> tm_yday (gmtime_r t) = day_of_year (gmtime_r t) \<and>
    tm_wday (gmtime_r t) = (4 + t div 86400) mod 7 \<and> tm_isdst (gmtime_r t) = 0"
proof -
  have "t div 86400 < days_to_year YEAR_END" using assms(2) by (simp add: TIME_END_def div_less_iff_less_mult)
  then have y: "0 \<le> t div 86400" "days_to_year 0 + t div 86400 < days_to_year YEAR_END"
    using assms(1) by (simp_all add: days_to_year_0 pos_imp_zdiv_nonneg_iff)
  obtain w m where "year_loop (t div 86400) (1970 + 0) = (w, 1970 + m)" "0 \<le> m" "0 \<le> w" "w < year_days (1970 + m)"
    "days_to_year m + w = days_to_year 0 + t div 86400" "m < YEAR_END"
    by (rule year_loop_spec [OF y(1) order_refl y(2)])
  then have l: "year_loop (t div 86400) 1970 = (w, 1970 + m)" "0 \<le> m" "0 \<le> w" "w < year_days (1970 + m)"
    "days_to_year m + w = t div 86400" "m < YEAR_END"
    by (simp_all add: days_to_year_0)
  define w' where "w' = plain_day (70 + m) w"
  define mon where "mon = month_loop 11 w'"
  have w': "0 \<le> w'" "w' < 365" "w' = (if isleap (1970 + m) \<and> 58 < w then w - 1 else w)"
    using l by (auto simp: w'_def plain_day_def split: if_splits)
  note mo = month_loop_spec [OF w'(1,2), folded mon_def]
  define S where "S = t mod 86400"
  have S: "0 \<le> S" "S < 86400" "t = t div 86400 * 86400 + S" by (simp_all add: S_def)
  have c: "t smod SPD = S" "t sdiv SPD = t div 86400" "S smod 60 = S mod 60" "S sdiv 60 = S div 60"
    "(S div 60) smod 60 = S div 60 mod 60" "(S div 60) sdiv 60 = S div 60 div 60" "(4 + t div 86400) smod 7 = (4 + t div 86400) mod 7"
    using S(1) assms by (simp_all add: S_def SPD_def sdiv_pos smod_pos pos_imp_zdiv_nonneg_iff)
  have b: "(if isleap (1970 + m) \<and> 58 < w then (if w = 59 then 2 else 1, w - 1) else (1, w)) = (if isleap (1970 + m) \<and> w = 59 then 2 else 1, w')"
    using w'(3) by simp
  have q: "S = S div 60 * 60 + S mod 60" "S div 60 = S div 60 div 60 * 60 + S div 60 mod 60" by simp_all
  have h: "S div 60 div 60 < 24" "0 \<le> S div 60 div 60" using S q by (auto simp: pos_imp_zdiv_nonneg_iff intro!: div_int_pos_iff [THEN iffD2])
  have "0 \<le> spm_table ! mon" using spm_table_bounds mo(1) by simp
  then have dm: "0 \<le> w' - spm_table ! mon" "w' - spm_table ! mon < 365" using w' mo by simp_all
  have wb: "w < 366" using l(4) by (simp split: if_splits)
  have small: "0 \<le> x mod k \<Longrightarrow> x mod k < k \<Longrightarrow> k < 100 \<Longrightarrow> int32 (x mod k) = x mod k" for x k :: int by (rule int32_id) simp_all
  have i32: "int32 (S mod 60) = S mod 60" "int32 (S div 60 mod 60) = S div 60 mod 60" "int32 (S div 60 div 60) = S div 60 div 60"
    "int32 ((4 + t div 86400) mod 7) = (4 + t div 86400) mod 7" "int32 (1970 + m - 1900) = 1970 + m - 1900" "int32 w = w"
    "int32 (1970 + m) = 1970 + m"
    using h l wb by (auto intro!: small int32_id)
  have "int32 (x + (w' - spm_table ! mon)) = x + (w' - spm_table ! mon)" if "x = 1 \<or> x = 2" for x
    using dm that by (intro int32_id) auto
  note i32 = i32 this
  have g: "gmtime_r t = \<lparr>tm_sec = S mod 60, tm_min = S div 60 mod 60, tm_hour = S div 60 div 60,
      tm_mday = (if isleap (1970 + m) \<and> w = 59 then 2 else 1) + (w' - spm_table ! mon), tm_mon = int mon, tm_year = 1970 + m - 1900,
      tm_wday = (4 + t div 86400) mod 7, tm_yday = w, tm_isdst = 0\<rparr>"
    unfolding gmtime_r_def Let_def c l(1) prod.case i32(1-7) b mon_def [symmetric] tz_is_dst_def
    by (simp only: i32(8) simp_thms split: if_split)
  have "int mon = 0 \<or> int mon = 1 \<or> int mon = 2 \<or> int mon = 3 \<or> int mon = 4 \<or> int mon = 5 \<or> int mon = 6 \<or> int mon = 7 \<or> int mon = 8 \<or>
      int mon = 9 \<or> int mon = 10 \<or> int mon = 11"
    using mo(1) by (intro month_cases) simp_all
  then have d: "day_of_year (gmtime_r t) = w \<and> 1 \<le> tm_mday (gmtime_r t) \<and> tm_mday (gmtime_r t) \<le> month_days (70 + m) (int mon)"
    unfolding g using mo(2,3) w'(3) by (elim disjE) (auto simp: day_of_year_def month_days_def split: if_splits)
  have "valid_tm (gmtime_r t)"
    using d mo(1) l(2,6) h unfolding g valid_tm_def by simp
  moreover have "seconds_of (gmtime_r t) = t"
  proof -
    have "seconds_of (gmtime_r t) = (days_to_year m + w) * 86400 + (S div 60 div 60 * 3600 + S div 60 mod 60 * 60 + S mod 60)"
      using d by (simp add: seconds_of_def) (simp add: g)
    also have "S div 60 div 60 * 3600 + S div 60 mod 60 * 60 + S mod 60 = S" using q by linarith
    finally show ?thesis by (simp only: l(5) S(3) [symmetric])
  qed
  moreover have "tm_yday (gmtime_r t) = w" "tm_wday (gmtime_r t) = (4 + t div 86400) mod 7" "tm_isdst (gmtime_r t) = 0" by (simp_all add: g)
  ultimately show ?thesis using d by metis
qed

lemma digit_unique:
  assumes "a * k + r = b * k + (q :: int)" "0 \<le> r" "r < k" "0 \<le> q" "q < k"
  shows "a = b \<and> r = q"
proof -
  have "a * k + r = k * a + r" "a * k + r = k * b + q" using assms(1) by (simp_all add: mult.commute)
  then have "(a * k + r) div k = a" "(a * k + r) div k = b" using assms by (blast intro: int_div_pos_eq)+
  then show ?thesis using assms(1) by simp
qed

lemma seconds_unique:
  assumes "(A :: int) * 86400 + h * 3600 + m * 60 + s = A' * 86400 + h' * 3600 + m' * 60 + s'"
    and r: "0 \<le> s" "s < 60" "0 \<le> m" "m < 60" "0 \<le> h" "h < 24" "0 \<le> s'" "s' < 60" "0 \<le> m'" "m' < 60" "0 \<le> h'" "h' < 24"
  shows "A = A' \<and> h = h' \<and> m = m' \<and> s = s'"
proof -
  have "((A * 24 + h) * 60 + m) * 60 + s = ((A' * 24 + h') * 60 + m') * 60 + s'" using assms(1) by simp
  with r have "(A * 24 + h) * 60 + m = (A' * 24 + h') * 60 + m' \<and> s = s'" by (intro digit_unique) simp_all
  moreover from this r have "A * 24 + h = A' * 24 + h' \<and> m = m'" by (intro digit_unique) simp_all
  moreover from this r have "A = A' \<and> h = h'" by (intro digit_unique) simp_all
  ultimately show ?thesis by blast
qed

lemma year_unique:
  assumes "days_to_year n + d = days_to_year m + e" "0 \<le> n" "0 \<le> m" "0 \<le> d" "0 \<le> e" "d < year_days (1970 + n)" "e < year_days (1970 + m)"
  shows "n = m \<and> d = e"
proof -
  have "\<not> n < m" if "0 \<le> n" "d < year_days (1970 + n)" "0 \<le> e" "days_to_year n + d = days_to_year m + e" for n m d e
    using days_to_year_mono [OF that(1), of "nat (m - n - 1)"] that by (auto split: if_splits)
  from this [of n d e m] this [of m e d n] show ?thesis using assms by simp
qed

lemma valid_tm_unique:
  assumes v: "valid_tm t" "valid_tm u" and s: "seconds_of t = seconds_of u"
  shows "tm_sec t = tm_sec u \<and> tm_min t = tm_min u \<and> tm_hour t = tm_hour u \<and> tm_mday t = tm_mday u \<and> tm_mon t = tm_mon u \<and> tm_year t = tm_year u"
proof -
  have *: "days_to_year (tm_year t - 70) + day_of_year t = days_to_year (tm_year u - 70) + day_of_year u \<and> tm_hour t = tm_hour u \<and>
      tm_min t = tm_min u \<and> tm_sec t = tm_sec u"
    by (rule seconds_unique [OF s [unfolded seconds_of_def]]) (use v in \<open>simp_all add: valid_tm_def\<close>)
  have "tm_year t - 70 = tm_year u - 70 \<and> day_of_year t = day_of_year u"
    by (rule year_unique [OF conjunct1 [OF *]]) (use v valid_month [OF v(1)] valid_month [OF v(2)] in \<open>simp_all add: valid_tm_def\<close>)
  then have y: "tm_year t = tm_year u" "day_of_year t = day_of_year u" by simp_all
  then have "nat (tm_mon t) = nat (tm_mon u)" using valid_month(1) [OF v(1)] valid_month(1) [OF v(2)] by simp
  moreover have "0 \<le> tm_mon t" "0 \<le> tm_mon u" using v by (simp_all add: valid_tm_def)
  ultimately have "tm_mon t = tm_mon u" by simp
  then show ?thesis using * y by (simp add: day_of_year_def)
qed

lemma timegm_gmtime_ok:
  assumes "0 \<le> t" "t < TIME_END"
  shows "timegm (gmtime_r t) = Some (t, gmtime_r t)"
proof -
  note g = gmtime_ok [OF assms]
  have "days_to_year (tm_year (gmtime_r t) - 70) + day_of_year (gmtime_r t) = t div 86400"
  proof -
    have v: "valid_tm (gmtime_r t)" "seconds_of (gmtime_r t) = t" using g by blast+
    let ?r = "tm_hour (gmtime_r t) * 3600 + tm_min (gmtime_r t) * 60 + tm_sec (gmtime_r t)"
    have "t = 86400 * (days_to_year (tm_year (gmtime_r t) - 70) + day_of_year (gmtime_r t)) + ?r" using v(2) by (simp add: seconds_of_def)
    moreover have "0 \<le> ?r" "?r < 86400" using v(1) by (simp_all add: valid_tm_def)
    ultimately show ?thesis by (intro int_div_pos_eq [symmetric])
  qed
  moreover have "(t div 86400 + 4) smod 7 = tm_wday (gmtime_r t)"
    using g assms by (simp add: smod_pos add.commute pos_imp_zdiv_nonneg_iff)
  ultimately show ?thesis using g by (simp add: timegm_valid)
qed

lemma gmtime_timegm_ok:
  assumes "valid_tm r"
  shows "\<exists>t \<ge> 0. t < TIME_END \<and> timegm r = Some (t, (gmtime_r t)\<lparr>tm_isdst := tm_isdst r\<rparr>)"
proof -
  let ?t = "seconds_of r"
  have "0 \<le> days_to_year (tm_year r - 70)"
    using days_to_year_mono [of 0 "nat (tm_year r - 71)"] assms by (cases "tm_year r = 70") (auto simp: valid_tm_def days_to_year_0 split: if_splits)
  then have t: "0 \<le> ?t" using assms valid_month(2) [OF assms] by (simp add: seconds_of_def valid_tm_def)
  have te: "?t < TIME_END"
  proof -
    have "days_to_year (tm_year r - 70) + year_days (1970 + (tm_year r - 70)) \<le> days_to_year YEAR_END"
      using days_to_year_mono [of "tm_year r - 70" "nat (YEAR_END - (tm_year r - 70) - 1)"] assms by (simp add: valid_tm_def)
    then have "days_to_year (tm_year r - 70) + day_of_year r + 1 \<le> days_to_year YEAR_END"
      using valid_month(3) [OF assms] by (simp add: add.commute)
    then have "(days_to_year (tm_year r - 70) + day_of_year r + 1) * 86400 \<le> TIME_END" unfolding TIME_END_def by (rule mult_right_mono) simp
    then show ?thesis using assms by (simp add: seconds_of_def valid_tm_def)
  qed
  note g = gmtime_ok [OF t te]
  have f: "tm_sec (gmtime_r ?t) = tm_sec r \<and> tm_min (gmtime_r ?t) = tm_min r \<and> tm_hour (gmtime_r ?t) = tm_hour r \<and>
      tm_mday (gmtime_r ?t) = tm_mday r \<and> tm_mon (gmtime_r ?t) = tm_mon r \<and> tm_year (gmtime_r ?t) = tm_year r"
    using g by (intro valid_tm_unique [OF _ assms]) blast+
  then have "day_of_year (gmtime_r ?t) = day_of_year r" by (simp add: day_of_year_def)
  then have y: "tm_yday (gmtime_r ?t) = day_of_year r" using g by simp
  have "timegm (gmtime_r ?t) = Some (?t, gmtime_r ?t)" by (rule timegm_gmtime_ok [OF t te])
  then have w: "tm_wday (gmtime_r ?t) = (days_to_year (tm_year r - 70) + day_of_year r + 4) smod 7"
    using g f y by (simp add: timegm_valid) (metis tm.select_convs(7) tm.surjective tm.update_convs(7))
  have "timegm r = Some (?t, (gmtime_r ?t)\<lparr>tm_isdst := tm_isdst r\<rparr>)"
    using f y w by (simp add: timegm_valid [OF assms])
  then show ?thesis using t te by blast
qed

subsection \<open>The text\<close>

text \<open>Reading two digits of the text; a blank is 0.\<close>

definition two_digits :: "string \<Rightarrow> nat \<Rightarrow> int" where
  "two_digits s i = (if s ! i = CHR '' '' then 0 else (of_char (s ! i) - 48) * 10) + (of_char (s ! Suc i) - 48)"

lemma digit_char_val: "0 \<le> i \<Longrightarrow> i < 10 \<Longrightarrow> of_char (digit_char i) = 48 + i"
  by (simp add: digit_char_def)

lemma length_num2str [simp]: "length (num2str i) = 2"
  by (simp add: num2str_def)

text \<open>The day of the month with a blank for a leading 0.\<close>

abbreviation day2str :: "int \<Rightarrow> string" where
  "day2str i \<equiv> (if num2str i ! 0 = CHR ''0'' then (num2str i)[0 := CHR '' ''] else num2str i)"

lemma two_digits_num2str:
  assumes "0 \<le> i" "i < 100"
  shows "two_digits (xs @ num2str i @ ys) (length xs) = i" and "two_digits (xs @ day2str i @ ys) (length xs) = i"
proof -
  have a: "(of_char (digit_char (i div 10)) :: int) = 48 + i div 10" "(of_char (digit_char (i mod 10)) :: int) = 48 + i mod 10"
    using assms by (simp_all add: digit_char_val)
  have n: "num2str i = [digit_char (i div 10), digit_char (i mod 10)]" using assms by (simp add: num2str_def sdiv_pos smod_pos)
  have "(of_char (CHR ''0'') :: int) = 48" "(of_char (CHR '' '') :: int) = 32" by simp_all
  then have "digit_char (i div 10) = CHR ''0'' \<longleftrightarrow> i div 10 = 0" "digit_char (i div 10) \<noteq> CHR '' ''"
    using a(1) assms of_char_eq_iff [where 'a = int, of "digit_char (i div 10)" "CHR ''0''"] by auto
  then show "two_digits (xs @ num2str i @ ys) (length xs) = i" "two_digits (xs @ day2str i @ ys) (length xs) = i"
    using a assms by (auto simp: two_digits_def n nth_append digit_char_val)
qed

lemma asctime_ok:
  assumes v: "valid_tm t" and w: "0 \<le> tm_wday t" "tm_wday t < 7" and y: "tm_year t < 8100"
  shows "\<exists>s. asctime_r t = Some s \<and> length s = 26 \<and> drop 24 s = [CHR 0x0A, CHR 0x00] \<and>
    take 4 s = take 4 (drop (nat (tm_wday t * 4)) days) \<and> take 4 (drop 4 s) = take 4 (drop (nat (tm_mon t * 4)) months) \<and>
    two_digits s 8 = tm_mday t \<and> two_digits s 11 = tm_hour t \<and> two_digits s 14 = tm_min t \<and> two_digits s 17 = tm_sec t \<and>
    two_digits s 20 * 100 + two_digits s 22 - 1900 = tm_year t"
proof -
  have r: "0 \<le> tm_mday t" "tm_mday t < 100" "0 \<le> tm_hour t" "tm_hour t < 100" "0 \<le> tm_min t" "tm_min t < 100" "0 \<le> tm_sec t"
    "tm_sec t < 100" "0 \<le> tm_mon t" "tm_mon t < 12" "70 \<le> tm_year t"
    using v month_days_31 [of "tm_mon t" "tm_year t"] by (auto simp: valid_tm_def)
  define Y where "Y = tm_year t + 1900"
  have Y: "0 \<le> Y div 100" "Y div 100 < 100" "0 \<le> Y mod 100" "Y mod 100 < 100" "Y div 100 * 100 + Y mod 100 - 1900 = tm_year t" "0 \<le> Y"
    using r(11) y by (auto simp: Y_def pos_imp_zdiv_nonneg_iff int_div_less_self)
  define D where "D = take 4 (drop (nat (tm_wday t * 4)) days)"
  define M where "M = take 4 (drop (nat (tm_mon t * 4)) months)"
  define d where "d = day2str (tm_mday t)"
  define tl where "tl = num2str (Y div 100) @ num2str (Y mod 100) @ [CHR 0x0A, CHR 0x00]"
  let ?s = "D @ M @ d @ '' '' @ num2str (tm_hour t) @ '':'' @ num2str (tm_min t) @ '':'' @ num2str (tm_sec t) @ '' '' @ tl"
  have l: "length days = 28" "length months = 48" by (simp_all add: days_def months_def)
  then have L: "length D = 4" "length M = 4" "length d = 2" "length tl = 6" using w r by (auto simp: D_def M_def d_def tl_def)
  have i32: "int32 (tm_wday t * 4) = tm_wday t * 4" "int32 (tm_mon t * 4) = tm_mon t * 4" "int32 Y = Y"
    using w r y by (simp_all add: int32_id Y_def)
  have "asctime_r t = Some ?s" using w r l Y
    by (simp add: i32 asctime_r_def Let_def sdiv_pos smod_pos Y_def [symmetric] D_def M_def d_def tl_def)
  moreover have "two_digits ?s 8 = tm_mday t" using two_digits_num2str(2) [OF r(1,2), of "D @ M"] L by (simp add: d_def [symmetric])
  moreover have "two_digits ?s 11 = tm_hour t" using two_digits_num2str(1) [OF r(3,4), of "D @ M @ d @ '' ''"] L by simp
  moreover have "two_digits ?s 14 = tm_min t"
    using two_digits_num2str(1) [OF r(5,6), of "D @ M @ d @ '' '' @ num2str (tm_hour t) @ '':''"] L by simp
  moreover have "two_digits ?s 17 = tm_sec t"
    using two_digits_num2str(1) [OF r(7,8), of "D @ M @ d @ '' '' @ num2str (tm_hour t) @ '':'' @ num2str (tm_min t) @ '':''"] L by simp
  moreover have "two_digits ?s 20 = Y div 100"
    using two_digits_num2str(1) [OF Y(1,2), of "D @ M @ d @ '' '' @ num2str (tm_hour t) @ '':'' @ num2str (tm_min t) @ '':'' @ num2str (tm_sec t) @ '' ''"] L
    by (simp add: tl_def)
  moreover have "two_digits ?s 22 = Y mod 100"
    using two_digits_num2str(1) [OF Y(3,4), of "D @ M @ d @ '' '' @ num2str (tm_hour t) @ '':'' @ num2str (tm_min t) @ '':'' @ num2str (tm_sec t) @ '' '' @ num2str (Y div 100)"] L
    by (simp add: tl_def)
  ultimately show ?thesis using L Y(5) by (simp add: D_def [symmetric] M_def [symmetric]) (simp add: tl_def)
qed

subsection \<open>Properties\<close>

text \<open>A day of the month beyond the end of January is taken for one of February: 40 January gives the 71st day of the year, not the 40th.\<close>

lemma timegm_day_overflow:
  "map_option fst (timegm \<lparr>tm_sec = 0, tm_min = 0, tm_hour = 0, tm_mday = 40, tm_mon = 0, tm_year = 70, tm_wday = 0, tm_yday = 0, tm_isdst = 0\<rparr>)
   = Some (70 * 86400)"
  by code_simp

text \<open>C18: Seconds and broken-down time determine each other, up to the end of the last year an \<open>int\<close> holds (2^31 - 1): every
time from 1970 on is broken down into a date and time of day that exists, which \<open>timegm\<close> takes back to it (\<open>mktime\<close> for local
time, in any time zone), and every date in that range, leap days included, is the date of the seconds \<open>timegm\<close> gives for it.\<close>

theorem time_roundtrip:
  "(0 \<le> t \<and> t < TIME_END \<longrightarrow> valid_tm (gmtime_r t) \<and> timegm (gmtime_r t) = Some (t, gmtime_r t)) \<and>
   (0 \<le> t + sint tz * 3600 \<and> t + sint tz * 3600 < TIME_END \<longrightarrow> mktime tz (localtime_r tz t) = Some (t, localtime_r tz t)) \<and>
   (valid_tm r \<longrightarrow> (\<exists>u \<ge> 0. u < TIME_END \<and> timegm r = Some (u, (gmtime_r u)\<lparr>tm_isdst := tm_isdst r\<rparr>)))"
proof -
  have tz: "- 128 \<le> sint (tz :: u8)" "sint tz < 128" using sint_ge [of tz] sint_lt [of tz] by simp_all
  have "int64 (t + sint tz * 3600) = t + sint tz * 3600" "int64 t = t"
    if "0 \<le> t + sint tz * 3600" "t + sint tz * 3600 < TIME_END"
    using that tz by (simp_all add: int64_id TIME_END_value)
  then show ?thesis
    using gmtime_ok [of t] timegm_gmtime_ok [of t] timegm_gmtime_ok [of "t + sint tz * 3600"] gmtime_timegm_ok [of r]
    by (simp add: mktime_def localtime_r_def)
qed

theorem time_roundtrip_witness:
  "valid_tm (gmtime_r 951782400) \<and> timegm (gmtime_r 951782400) = Some (951782400, gmtime_r 951782400) \<and>
   mktime 8 (localtime_r 8 951782400) = Some (951782400, localtime_r 8 951782400) \<and>
   (\<exists>u \<ge> 0. timegm \<lparr>tm_sec = 59, tm_min = 59, tm_hour = 23, tm_mday = 29, tm_mon = 1, tm_year = 100, tm_wday = 0, tm_yday = 0, tm_isdst = 0\<rparr>
      = Some (u, (gmtime_r u)\<lparr>tm_isdst := 0\<rparr>))"
  using time_roundtrip [of 951782400 8
      "\<lparr>tm_sec = 59, tm_min = 59, tm_hour = 23, tm_mday = 29, tm_mon = 1, tm_year = 100, tm_wday = 0, tm_yday = 0, tm_isdst = 0\<rparr>"]
  by (auto simp: valid_tm_def month_days_def isleap_def TIME_END_value)

text \<open>Fact: The 26 bytes of \<open>asctime_r\<close> name the day of the week and the month, and every number of the time can be read back from them.\<close>

theorem asctime_fields:
  assumes "valid_tm t" "0 \<le> tm_wday t" "tm_wday t < 7" "tm_year t < 8100"
  shows "\<exists>s. asctime_r t = Some s \<and> length s = 26 \<and> drop 24 s = [CHR 0x0A, CHR 0x00] \<and>
    take 4 s = take 4 (drop (nat (tm_wday t * 4)) days) \<and> take 4 (drop 4 s) = take 4 (drop (nat (tm_mon t * 4)) months) \<and>
    two_digits s 8 = tm_mday t \<and> two_digits s 11 = tm_hour t \<and> two_digits s 14 = tm_min t \<and> two_digits s 17 = tm_sec t \<and>
    two_digits s 20 * 100 + two_digits s 22 - 1900 = tm_year t"
  by (rule asctime_ok [OF assms])

theorem asctime_fields_witness:
  "\<exists>s. asctime_r \<lparr>tm_sec = 1, tm_min = 2, tm_hour = 3, tm_mday = 29, tm_mon = 1, tm_year = 100, tm_wday = 2, tm_yday = 59, tm_isdst = 0\<rparr> = Some s \<and>
     length s = 26 \<and> take 4 s = ''Tue '' \<and> two_digits s 8 = 29"
  using asctime_fields [of "\<lparr>tm_sec = 1, tm_min = 2, tm_hour = 3, tm_mday = 29, tm_mon = 1, tm_year = 100, tm_wday = 2, tm_yday = 59, tm_isdst = 0\<rparr>"]
  by (auto simp: valid_tm_def month_days_def isleap_def smod_pos days_def)

end
