(* ===== verification/DfsPath.thy ===== *)
theory DfsPath
  imports Kprintf
begin

section \<open>Path names of the device file system (\<open>components/dfs/src/dfs.c\<close>)\<close>

text \<open>
  \<open>dfs_normalize_path\<close> rewrites a path in place, in a block of memory it has allocated: \<open>src\<close> reads
  ahead of \<open>dst\<close>, which writes.  The memory maps an address to a character where it may be
  accessed.  The result of \<open>rt_malloc\<close> and of the allocation of \<open>rt_strdup\<close> is the argument \<open>p\<close>, 0 when it fails.
\<close>

definition wr_char :: "smem \<Rightarrow> nat \<Rightarrow> char \<Rightarrow> smem option" where
  "wr_char m a c = (if m a = None then None else Some (m(a \<mapsto> c)))"

text \<open>\<open>while ((*src == '/') && (*src != '\0')) src++\<close>.\<close>

partial_function (option) skip_slashes :: "nat \<Rightarrow> smem \<Rightarrow> nat option" where
  "skip_slashes src m =
     do { c \<leftarrow> m src; if c = CHR ''/'' \<and> c \<noteq> CHR 0x00 then skip_slashes (src + 1) m else Some src }"

text \<open>What a dot at the start of a component asks for.\<close>

datatype dot_step = NextPart nat | UpOne nat | CopyPart nat

definition dot_case :: "nat \<Rightarrow> smem \<Rightarrow> dot_step option" where
  "dot_case src m =
     do { c \<leftarrow> m src;
          if c = CHR ''.''
          then do { c1 \<leftarrow> m (src + 1);
                    if c1 = CHR 0x00 then Some (CopyPart (src + 1))
                    else if c1 = CHR ''/'' then do { s \<leftarrow> skip_slashes (src + 2) m; Some (NextPart s) }
                    else if c1 = CHR ''.''
                    then do { c2 \<leftarrow> m (src + 2);
                              if c2 = CHR 0x00 then Some (UpOne (src + 2))
                              else if c2 = CHR ''/'' then do { s \<leftarrow> skip_slashes (src + 3) m; Some (UpOne s) }
                              else Some (CopyPart src) }
                    else Some (CopyPart src) }
          else Some (CopyPart src) }"

text \<open>\<open>while ((c = *src++) != '\0' && c != '/') *dst++ = c\<close>.\<close>

partial_function (option) copy_part :: "nat \<Rightarrow> nat \<Rightarrow> smem \<Rightarrow> (char \<times> nat \<times> nat \<times> smem) option" where
  "copy_part src dst m =
     do { c \<leftarrow> m src;
          if c \<noteq> CHR 0x00 \<and> c \<noteq> CHR ''/''
          then do { m \<leftarrow> wr_char m dst c; copy_part (src + 1) (dst + 1) m }
          else Some (c, src + 1, dst, m) }"

text \<open>\<open>while (c == '/') c = *src++\<close>.\<close>

partial_function (option) slash_run :: "char \<Rightarrow> nat \<Rightarrow> smem \<Rightarrow> nat option" where
  "slash_run c src m = (if c = CHR ''/'' then do { c \<leftarrow> m src; slash_run c (src + 1) m } else Some src)"

text \<open>\<open>while (dst0 < dst && dst[-1] != '/') dst--\<close>.\<close>

function up_loop :: "nat \<Rightarrow> nat \<Rightarrow> smem \<Rightarrow> nat option" where
  "up_loop dst0 dst m =
     (if dst0 < dst
      then do { c \<leftarrow> m (dst - 1); if c \<noteq> CHR ''/'' then up_loop dst0 (dst - 1) m else Some dst }
      else Some dst)"
  by auto
termination by (relation "measure (\<lambda>(dst0, dst, m). dst)") auto

declare up_loop.simps [simp del]

text \<open>The main loop; \<open>Some None\<close> when \<open>dst\<close> would go below its start.\<close>

partial_function (option) normalize_loop :: "nat \<Rightarrow> nat \<Rightarrow> nat \<Rightarrow> smem \<Rightarrow> (nat \<times> smem) option option" where
  "normalize_loop dst0 src dst m =
     do { st \<leftarrow> dot_case src m;
          case st of
            NextPart src \<Rightarrow> normalize_loop dst0 src dst m
          | UpOne src \<Rightarrow>
              if dst - 1 < dst0 then Some None
              else do { dst \<leftarrow> up_loop dst0 (dst - 1) m; normalize_loop dst0 src dst m }
          | CopyPart src \<Rightarrow>
              do { (c, src, dst, m) \<leftarrow> copy_part src dst m;
                   if c = CHR ''/''
                   then do { m \<leftarrow> wr_char m dst (CHR ''/'');
                             src \<leftarrow> slash_run c src m;
                             normalize_loop dst0 (src - 1) (dst + 1) m }
                   else Some (Some (dst, m)) } }"

text \<open>
  The end: the terminator, the last slash cut off, and an empty path made the root.  When nothing has been
  written the byte in front of the block is looked at.
\<close>

definition close_path :: "nat \<Rightarrow> nat \<Rightarrow> smem \<Rightarrow> smem option" where
  "close_path p dst m =
     do { m \<leftarrow> wr_char m dst (CHR 0x00);
          let dst = dst - 1;
          m \<leftarrow> (if dst \<noteq> p
                then do { c \<leftarrow> m dst; if c = CHR ''/'' then wr_char m dst (CHR 0x00) else Some m }
                else Some m);
          c \<leftarrow> m p;
          if c = CHR 0x00 then do { m \<leftarrow> wr_char m p (CHR ''/''); wr_char m (p + 1) (CHR 0x00) } else Some m }"

definition dfs_normalize_path :: "string \<Rightarrow> string option \<Rightarrow> string \<Rightarrow> nat \<Rightarrow> smem \<Rightarrow> (nat \<times> smem) option" where
  "dfs_normalize_path working_directory directory filename p m =
     (let directory = (case directory of None \<Rightarrow> working_directory | Some d \<Rightarrow> d) in
      if p = 0 then Some (0, m)
      else do {
        m \<leftarrow> (if cur filename \<noteq> CHR ''/''
              then do { (_, m) \<leftarrow> rt_snprintf p (length directory + length filename + 2) ''%s/%s''
                                    [VStr (Some directory), VStr (Some filename)] m;
                        Some m }
              else do { (_, m) \<leftarrow> puts (p + length filename + 1) (filename @ [CHR 0x00]) (p, m); Some m });
        r \<leftarrow> normalize_loop p p p m;
        case r of
          None \<Rightarrow> Some (0, m)
        | Some (dst, m) \<Rightarrow> do { m \<leftarrow> close_path p dst m; Some (p, m) } })"

declare skip_slashes.simps [code] copy_part.simps [code] slash_run.simps [code] normalize_loop.simps [code]

definition dfs_subdir :: "string \<Rightarrow> string \<Rightarrow> string option" where
  "dfs_subdir directory filename =
     (if length directory = length filename then None
      else let dir = length directory
           in Some (drop (if cur (drop dir filename) \<noteq> CHR ''/'' \<and> dir \<noteq> 0 then dir - 1 else dir) filename))"

subsection \<open>The loop on texts\<close>

text \<open>What has been written (\<open>out\<close>) and what is still to be read (\<open>rest\<close>).\<close>

definition up_text :: "string \<Rightarrow> string" where
  "up_text out = rev (dropWhile (\<lambda>c. c \<noteq> CHR ''/'') (rev (butlast out)))"

abbreviation part :: "string \<Rightarrow> string" where
  "part rest \<equiv> takeWhile (\<lambda>c. c \<noteq> CHR ''/'') rest"

abbreviation after_part :: "string \<Rightarrow> string" where
  "after_part rest \<equiv> dropWhile (\<lambda>c. c \<noteq> CHR ''/'') rest"

abbreviation skip :: "string \<Rightarrow> string" where
  "skip rest \<equiv> dropWhile (\<lambda>c. c = CHR ''/'') rest"

lemma skip_after_part_less: "rest \<noteq> [] \<Longrightarrow> length (skip (after_part rest)) < length rest"
proof (cases "after_part rest")
  case Nil
  assume "rest \<noteq> []"
  then show ?thesis unfolding Nil by simp
next
  case (Cons c cs)
  then have "c = CHR ''/''" using hd_dropWhile [of "\<lambda>c. c \<noteq> CHR ''/''" rest] by auto
  then show ?thesis using Cons length_dropWhile_le [of "\<lambda>c. c = CHR ''/''" cs] length_dropWhile_le [of "\<lambda>c. c \<noteq> CHR ''/''" rest]
    by simp
qed

function norm :: "string \<Rightarrow> string \<Rightarrow> string option" where
  "norm out rest =
     (if part rest = ''.'' then (if after_part rest = [] then Some out else norm out (skip (after_part rest)))
      else if part rest = ''..'' then (if out = [] then None else norm (up_text out) (skip (after_part rest)))
      else if after_part rest = [] then Some (out @ part rest)
      else norm (out @ part rest @ ''/'') (skip (after_part rest)))"
  by auto
termination by (relation "measure (\<lambda>(out, rest). length rest)") (auto intro!: skip_after_part_less)

declare norm.simps [simp del]

definition text_at :: "smem \<Rightarrow> nat \<Rightarrow> string \<Rightarrow> bool" where
  "text_at m a s \<longleftrightarrow> (\<forall>i < length s. m (a + i) = Some (s ! i))"

lemma text_at_Nil [simp]: "text_at m a []"
  by (simp add: text_at_def)

lemma text_at_Cons [simp]: "text_at m a (c # s) \<longleftrightarrow> m a = Some c \<and> text_at m (Suc a) s"
  by (simp add: text_at_def All_less_Suc2)

lemma text_at_append [simp]: "text_at m a (s @ t) \<longleftrightarrow> text_at m a s \<and> text_at m (a + length s) t"
  by (induction s arbitrary: a) simp_all

lemma text_at_upd: "x < a \<or> a + length s \<le> x \<Longrightarrow> text_at (m(x \<mapsto> c)) a s = text_at m a s"
  by (auto simp: text_at_def intro!: all_cong1)

abbreviation NUL :: string where "NUL \<equiv> [CHR 0x00]"

lemma skip_slashes_ok:
  "text_at m a (rest @ NUL) \<Longrightarrow> CHR 0x00 \<notin> set rest \<Longrightarrow>
   \<exists>b. skip_slashes a m = Some b \<and> b + length (skip rest) = a + length rest \<and> text_at m b (skip rest @ NUL)"
proof (induction rest arbitrary: a)
  case Nil
  then show ?case by (subst skip_slashes.simps) simp
next
  case (Cons c rest)
  then show ?case using Cons.IH [of "a + 1"] by (subst skip_slashes.simps) auto
qed

lemma slash_run_ok:
  "text_at m a (rest @ NUL) \<Longrightarrow> CHR 0x00 \<notin> set rest \<Longrightarrow>
   \<exists>b. slash_run (CHR ''/'') a m = Some (Suc b) \<and> b + length (skip rest) = a + length rest \<and> text_at m b (skip rest @ NUL)"
proof (induction rest arbitrary: a)
  case Nil
  then show ?case by (subst slash_run.simps, subst slash_run.simps) auto
next
  case (Cons c rest)
  show ?case
  proof (cases "c = CHR ''/''")
    case True
    then show ?thesis using Cons.IH [of "a + 1"] Cons.prems by (subst slash_run.simps) auto
  next
    case False
    then show ?thesis using Cons.prems by (subst slash_run.simps, subst slash_run.simps) auto
  qed
qed

lemma up_loop_ok:
  "text_at m p out \<Longrightarrow> up_loop p (p + length out) m = Some (p + length (dropWhile (\<lambda>c. c \<noteq> CHR ''/'') (rev out)))"
proof (induction out rule: rev_induct)
  case (snoc c out)
  then show ?case by (subst up_loop.simps) (auto simp: add.assoc [symmetric])
qed (simp add: up_loop.simps)

text \<open>Outside the region the memory stays, inside it stays accessible.\<close>

definition same_outside :: "nat \<Rightarrow> nat \<Rightarrow> smem \<Rightarrow> smem \<Rightarrow> bool" where
  "same_outside a b m m' \<longleftrightarrow> dom m' = dom m \<and> (\<forall>x. x < a \<or> b \<le> x \<longrightarrow> m' x = m x)"

lemma same_outside_trans: "same_outside a b m m' \<Longrightarrow> same_outside a b m' m'' \<Longrightarrow> same_outside a b m m''"
  by (simp add: same_outside_def)

lemma same_outside_refl [simp]: "same_outside a b m m"
  by (simp add: same_outside_def)

lemma same_outside_mono: "same_outside a b m m' \<Longrightarrow> b \<le> c \<Longrightarrow> same_outside a c m m'"
  by (auto simp: same_outside_def)

lemma same_outside_upd: "m x \<noteq> None \<Longrightarrow> a \<le> x \<Longrightarrow> x < b \<Longrightarrow> same_outside a b m (m(x \<mapsto> c))"
  by (auto simp: same_outside_def)

lemma same_outside_text: "same_outside a b m m' \<Longrightarrow> b \<le> x \<Longrightarrow> text_at m' x s = text_at m x s"
  by (auto simp: same_outside_def text_at_def)

lemma same_outside_mapped: "same_outside a b m m' \<Longrightarrow> m' x = None \<longleftrightarrow> m x = None"
  unfolding same_outside_def by (metis domIff)

text \<open>Copying up to the next slash.\<close>

lemma copy_part_ok:
  assumes "text_at m src (rest @ NUL)" "text_at m p out" "p + length out \<le> src" "CHR 0x00 \<notin> set rest"
    and "\<forall>x. p \<le> x \<and> x \<le> src + length rest \<longrightarrow> m x \<noteq> None"
  shows "\<exists>m'. copy_part src (p + length out) m =
      Some (hd (after_part rest @ NUL), src + length (part rest) + 1, p + length (out @ part rest), m') \<and>
    text_at m' p (out @ part rest) \<and> same_outside p (src + length (part rest)) m m'"
  using assms
proof (induction rest arbitrary: src out m)
  case Nil
  then show ?case by (subst copy_part.simps) auto
next
  case (Cons c rest)
  show ?case
  proof (cases "c = CHR ''/''")
    case True
    then show ?thesis using Cons.prems by (subst copy_part.simps) auto
  next
    case False
    let ?m = "m(p + length out \<mapsto> c)"
    have n: "m (p + length out) \<noteq> None" using Cons.prems(3,5) by auto
    then obtain y where y: "m (p + length out) = Some y" by blast
    have "\<exists>m'. copy_part (src + 1) (p + length (out @ [c])) ?m =
        Some (hd (after_part rest @ NUL), src + 1 + length (part rest) + 1, p + length ((out @ [c]) @ part rest), m') \<and>
      text_at m' p ((out @ [c]) @ part rest) \<and> same_outside p (src + 1 + length (part rest)) ?m m'"
    proof (rule Cons.IH)
      have "src + 1 > p + length out" using Cons.prems(3) by simp
      then show "text_at ?m (src + 1) (rest @ NUL)" using Cons.prems(1) by (subst text_at_upd) simp_all
      have "text_at ?m p out" using Cons.prems(2) by (subst text_at_upd) simp_all
      then show "text_at ?m p (out @ [c])" by simp
    qed (use Cons.prems in simp_all)
    then obtain m' where m': "copy_part (src + 1) (p + length (out @ [c])) ?m =
        Some (hd (after_part rest @ NUL), src + 1 + length (part rest) + 1, p + length ((out @ [c]) @ part rest), m')"
      "text_at m' p ((out @ [c]) @ part rest)" "same_outside p (src + 1 + length (part rest)) ?m m'" by blast
    have "same_outside p (src + 1 + length (part rest)) m m'"
      by (rule same_outside_trans [OF same_outside_upd m'(3)]) (use n Cons.prems(3) in auto)
    moreover have "copy_part src (p + length out) m = copy_part (src + 1) (p + length (out @ [c])) ?m"
      using Cons.prems y False by (subst copy_part.simps) (auto simp: wr_char_def)
    ultimately show ?thesis using m' False by (intro exI [of _ m']) simp
  qed
qed

lemma dot_case_ok:
  assumes "text_at m src (rest @ NUL)" "CHR 0x00 \<notin> set rest"
  shows "part rest = ''.'' \<Longrightarrow> after_part rest = [] \<Longrightarrow> dot_case src m = Some (CopyPart (src + 1))"
    and "part rest = ''.'' \<Longrightarrow> after_part rest \<noteq> [] \<Longrightarrow> \<exists>b. dot_case src m = Some (NextPart b) \<and>
          b + length (skip (after_part rest)) = src + length rest \<and> text_at m b (skip (after_part rest) @ NUL)"
    and "part rest = ''..'' \<Longrightarrow> \<exists>b. dot_case src m = Some (UpOne b) \<and>
          b + length (skip (after_part rest)) = src + length rest \<and> text_at m b (skip (after_part rest) @ NUL)"
    and "part rest \<noteq> ''.'' \<Longrightarrow> part rest \<noteq> ''..'' \<Longrightarrow> dot_case src m = Some (CopyPart src)"
proof -
  have split: "rest = part rest @ after_part rest" by simp
  have h: "after_part rest \<noteq> [] \<Longrightarrow> \<exists>r. after_part rest = CHR ''/'' # r"
    using hd_dropWhile [of "\<lambda>c. c \<noteq> CHR ''/''" rest] by (cases "after_part rest") auto
  { assume p: "part rest = ''.''"
    show "dot_case src m = Some (CopyPart (src + 1))" if "after_part rest = []"
    proof -
      have "rest = ''.''" using split p that by simp
      then show ?thesis using assms by (simp add: dot_case_def)
    qed
    show "\<exists>b. dot_case src m = Some (NextPart b) \<and>
          b + length (skip (after_part rest)) = src + length rest \<and> text_at m b (skip (after_part rest) @ NUL)" if n: "after_part rest \<noteq> []"
    proof -
      obtain r where r: "after_part rest = CHR ''/'' # r" using h [OF n] by blast
      then have e: "rest = CHR ''.'' # CHR ''/'' # r" using split p by simp
      have t: "text_at m (src + 2) (r @ NUL)" "CHR 0x00 \<notin> set r" using assms unfolding e by simp_all
      show ?thesis using skip_slashes_ok [OF t] assms unfolding r by (auto simp: dot_case_def e)
    qed }
  { assume p: "part rest = ''..''"
    show "\<exists>b. dot_case src m = Some (UpOne b) \<and>
          b + length (skip (after_part rest)) = src + length rest \<and> text_at m b (skip (after_part rest) @ NUL)"
    proof (cases "after_part rest")
      case Nil
      then have e: "rest = ''..''" using p takeWhile_dropWhile_id [of "\<lambda>c. c \<noteq> CHR ''/''" rest] by (metis append_Nil2)
      show ?thesis using assms unfolding Nil by (auto simp: dot_case_def e)
    next
      case (Cons c r')
      then have "after_part rest \<noteq> []" by (metis list.distinct(1))
      then obtain r where r: "after_part rest = CHR ''/'' # r" using h by blast
      then have e: "rest = CHR ''.'' # CHR ''.'' # CHR ''/'' # r" using split p by simp
      have t: "text_at m (src + 3) (r @ NUL)" "CHR 0x00 \<notin> set r" using assms unfolding e by (simp_all add: eval_nat_numeral)
      show ?thesis using skip_slashes_ok [OF t] assms unfolding r by (auto simp: dot_case_def e)
    qed }
  assume p: "part rest \<noteq> ''.''" "part rest \<noteq> ''..''"
  show "dot_case src m = Some (CopyPart src)"
  proof (cases rest)
    case Nil
    then show ?thesis using assms by (simp add: dot_case_def)
  next
    case (Cons a r)
    then show ?thesis using p assms
      by (cases r; cases "tl r") (auto simp: dot_case_def split: if_splits)
  qed
qed

lemma up_prefix: "\<exists>zs. out = up_text out @ zs"
proof (cases out rule: rev_cases)
  case (snoc ys y)
  have "rev ys = takeWhile (\<lambda>c. c \<noteq> CHR ''/'') (rev ys) @ dropWhile (\<lambda>c. c \<noteq> CHR ''/'') (rev ys)" by simp
  then have "ys = rev (dropWhile (\<lambda>c. c \<noteq> CHR ''/'') (rev ys)) @ rev (takeWhile (\<lambda>c. c \<noteq> CHR ''/'') (rev ys))"
    by (metis rev_append rev_rev_ident)
  then show ?thesis unfolding snoc up_text_def butlast_snoc by (metis append.assoc)
qed (simp add: up_text_def)

lemma after_part_Cons: "after_part rest \<noteq> [] \<Longrightarrow> \<exists>r. after_part rest = CHR ''/'' # r"
  using hd_dropWhile [of "\<lambda>c. c \<noteq> CHR ''/''" rest] by (cases "after_part rest") auto

lemma part_length: "length (part rest) + length (after_part rest) = length rest"
  by (metis length_append takeWhile_dropWhile_id)

lemma after_part_set: "set (skip (after_part rest)) \<subseteq> set rest" "set (after_part rest) \<subseteq> set rest"
  by (auto dest!: set_dropWhileD)

text \<open>The loop in memory is the loop on texts.\<close>

definition loop_result :: "string option \<Rightarrow> nat \<Rightarrow> nat \<Rightarrow> smem \<Rightarrow> (nat \<times> smem) option option \<Rightarrow> bool" where
  "loop_result res p e m r \<longleftrightarrow>
     (case res of None \<Rightarrow> r = Some None
      | Some out \<Rightarrow> \<exists>m'. r = Some (Some (p + length out, m')) \<and> text_at m' p out \<and> p + length out \<le> e \<and> same_outside p e m m')"

lemma loop_result_step:
  "loop_result res p e m' r \<Longrightarrow> same_outside p e m m' \<Longrightarrow> loop_result res p e m r"
  by (auto simp: loop_result_def split: option.splits intro: same_outside_trans)

lemma copy_step:
  assumes t: "text_at m src (rest @ NUL)" "text_at m p out" "p + length out \<le> src" "CHR 0x00 \<notin> set rest"
    and a: "\<forall>x. p \<le> x \<and> x \<le> src + length rest \<longrightarrow> m x \<noteq> None" and d: "dot_case src m = Some (CopyPart src)"
  shows "after_part rest = [] \<Longrightarrow> loop_result (Some (out @ part rest)) p (src + length rest) m (normalize_loop p src (p + length out) m)"
    and "after_part rest \<noteq> [] \<Longrightarrow> \<exists>b m'. normalize_loop p src (p + length out) m = normalize_loop p b (p + length (out @ part rest @ ''/'')) m' \<and>
      same_outside p (src + length rest) m m' \<and> b + length (skip (after_part rest)) = src + length rest \<and>
      text_at m' b (skip (after_part rest) @ NUL) \<and> text_at m' p (out @ part rest @ ''/'') \<and> p + length (out @ part rest @ ''/'') \<le> b"
proof -
  note l = part_length [of rest]
  obtain m' where m': "copy_part src (p + length out) m =
      Some (hd (after_part rest @ NUL), src + length (part rest) + 1, p + length (out @ part rest), m')"
    "text_at m' p (out @ part rest)" "same_outside p (src + length (part rest)) m m'"
    using copy_part_ok [OF t a] by blast
  show "loop_result (Some (out @ part rest)) p (src + length rest) m (normalize_loop p src (p + length out) m)" if "after_part rest = []"
  proof -
    have "normalize_loop p src (p + length out) m = Some (Some (p + length (out @ part rest), m'))"
      using m'(1) that by (subst normalize_loop.simps) (simp add: d)
    then show ?thesis using m'(2,3) l t(3) by (auto simp: loop_result_def intro: same_outside_mono)
  qed
  assume "after_part rest \<noteq> []"
  then obtain r where r: "after_part rest = CHR ''/'' # r" using after_part_Cons by blast
  have lr: "length rest = length (part rest) + Suc (length r)" using l r by simp
  have tr: "text_at m' (src + length (part rest) + 1) (r @ NUL)"
  proof -
    have "text_at m src ((part rest @ after_part rest) @ NUL)" using t(1) by simp
    then have "text_at m (src + length (part rest) + 1) (r @ NUL)" by (simp only: append_assoc text_at_append r) simp
    then show ?thesis by (subst same_outside_text [OF m'(3)]) simp_all
  qed
  let ?d = "p + length (out @ part rest)"
  let ?m = "m'(?d \<mapsto> CHR ''/'')"
  have "m' ?d \<noteq> None" using a l t(3) lr same_outside_mapped [OF m'(3)] by simp
  then obtain y where y: "m' ?d = Some y" by blast
  have tm: "text_at ?m (src + length (part rest) + 1) (r @ NUL)" using tr t(3) by (subst text_at_upd) simp_all
  have "CHR 0x00 \<notin> set r" using t(4) after_part_set(2) [of rest] r by auto
  then obtain b where b: "slash_run (CHR ''/'') (src + length (part rest) + 1) ?m = Some (Suc b)"
    "b + length (skip r) = src + length (part rest) + 1 + length r" "text_at ?m b (skip r @ NUL)"
    using slash_run_ok [OF tm] by blast
  have "normalize_loop p src (p + length out) m = normalize_loop p b (?d + 1) ?m"
    using m'(1) y b(1) by (subst normalize_loop.simps) (simp add: d r wr_char_def)
  moreover have "same_outside p (src + length rest) m ?m"
    by (rule same_outside_trans [OF same_outside_mono [OF m'(3)] same_outside_upd]) (use y t(3) lr in auto)
  moreover have "text_at ?m p (out @ part rest @ ''/'')"
  proof -
    have "text_at ?m p (out @ part rest)" using m'(2) by (subst text_at_upd) simp_all
    then show ?thesis by simp
  qed
  moreover have "skip (after_part rest) = skip r" "length (skip r) \<le> length r" using r by (simp_all add: length_dropWhile_le)
  ultimately show "\<exists>b m'. normalize_loop p src (p + length out) m = normalize_loop p b (p + length (out @ part rest @ ''/'')) m' \<and>
      same_outside p (src + length rest) m m' \<and> b + length (skip (after_part rest)) = src + length rest \<and>
      text_at m' b (skip (after_part rest) @ NUL) \<and> text_at m' p (out @ part rest @ ''/'') \<and> p + length (out @ part rest @ ''/'') \<le> b"
    using b lr t(3) by (intro exI [of _ b] exI [of _ ?m]) simp
qed

lemma normalize_loop_ok:
  assumes "text_at m src (rest @ NUL)" "text_at m p out" "p + length out \<le> src" "CHR 0x00 \<notin> set rest" "0 < p"
    and "\<forall>x. p \<le> x \<and> x \<le> src + length rest \<longrightarrow> m x \<noteq> None"
  shows "loop_result (norm out rest) p (src + length rest) m (normalize_loop p src (p + length out) m)"
  using assms
proof (induction "length rest" arbitrary: out rest src m rule: less_induct)
  case less
  note t = less.prems(1-4) and l = part_length [of rest]
  have nul: "CHR 0x00 \<notin> set (skip (after_part rest))" using t(4) after_part_set(1) [of rest] by auto
  consider (dot_end) "part rest = ''.''" "after_part rest = []" | (dot) "part rest = ''.''" "after_part rest \<noteq> []"
    | (up) "part rest = ''..''" | (copy) "part rest \<noteq> ''.''" "part rest \<noteq> ''..''" by blast
  then show ?case
  proof cases
    case dot_end
    then have "rest = ''.''" by (metis append_Nil2 takeWhile_dropWhile_id)
    then have "normalize_loop p src (p + length out) m = Some (Some (p + length out, m))"
      using dot_case_ok(1) [OF t(1,4) dot_end] t(1) by (subst normalize_loop.simps, subst copy_part.simps) simp
    then show ?thesis using dot_end t(2,3) by (subst norm.simps) (simp add: loop_result_def)
  next
    case dot
    obtain b where b: "dot_case src m = Some (NextPart b)" "b + length (skip (after_part rest)) = src + length rest"
      "text_at m b (skip (after_part rest) @ NUL)"
      using dot_case_ok(2) [OF t(1,4) dot] by blast
    have less_rest: "length (skip (after_part rest)) < length rest" using dot by (intro skip_after_part_less) auto
    have "loop_result (norm out (skip (after_part rest))) p (b + length (skip (after_part rest))) m (normalize_loop p b (p + length out) m)"
      by (rule less.hyps [OF less_rest b(3) t(2) _ nul]) (use less.prems(3,5,6) b(2) less_rest in auto)
    moreover have "normalize_loop p src (p + length out) m = normalize_loop p b (p + length out) m"
      using b(1) by (subst normalize_loop.simps) simp
    ultimately show ?thesis using dot b(2) by (subst norm.simps) (simp del: dropWhile_eq_Nil_conv)
  next
    case up
    obtain b where b: "dot_case src m = Some (UpOne b)" "b + length (skip (after_part rest)) = src + length rest"
      "text_at m b (skip (after_part rest) @ NUL)"
      using dot_case_ok(3) [OF t(1,4) up] by blast
    have less_rest: "length (skip (after_part rest)) < length rest" using up by (intro skip_after_part_less) auto
    show ?thesis
    proof (cases "out = []")
      case True
      then have "normalize_loop p src (p + length out) m = Some None"
        using b(1) less.prems(5) by (subst normalize_loop.simps) simp
      then show ?thesis using up True by (subst norm.simps) (simp add: loop_result_def)
    next
      case False
      have bl: "p + length out - 1 = p + length (butlast out)" using False by (cases out rule: rev_cases) simp_all
      have "text_at m p (butlast out)" using t(2) False by (metis append_butlast_last_id text_at_append)
      from up_loop_ok [OF this] have u: "up_loop p (p + length out - 1) m = Some (p + length (up_text out))" unfolding bl up_text_def by simp
      have ge: "\<not> p + length out - 1 < p" unfolding bl by simp
      obtain zs where zs: "out = up_text out @ zs" using up_prefix by blast
      then have tu: "text_at m p (up_text out)" "length (up_text out) \<le> length out" using t(2) by (metis text_at_append, metis le_add1 length_append)
      have "loop_result (norm (up_text out) (skip (after_part rest))) p (b + length (skip (after_part rest))) m
          (normalize_loop p b (p + length (up_text out)) m)"
        by (rule less.hyps [OF less_rest b(3) tu(1) _ nul]) (use less.prems(3,5,6) b(2) less_rest tu(2) in auto)
      moreover have "normalize_loop p src (p + length out) m = normalize_loop p b (p + length (up_text out)) m"
        using b(1) u ge by (subst normalize_loop.simps) simp
      ultimately show ?thesis using up False b(2) by (subst norm.simps) simp
    qed
  next
    case copy
    note c = copy_step [OF t less.prems(6) dot_case_ok(4) [OF t(1,4) copy]]
    show ?thesis
    proof (cases "after_part rest = []")
      case True
      then show ?thesis using c(1) copy by (subst norm.simps) simp
    next
      case False
      obtain b m' where b: "normalize_loop p src (p + length out) m = normalize_loop p b (p + length (out @ part rest @ ''/'')) m'"
        "same_outside p (src + length rest) m m'" "b + length (skip (after_part rest)) = src + length rest"
        "text_at m' b (skip (after_part rest) @ NUL)" "text_at m' p (out @ part rest @ ''/'')" "p + length (out @ part rest @ ''/'') \<le> b"
        using c(2) [OF False] by blast
      have less_rest: "length (skip (after_part rest)) < length rest" using False by (intro skip_after_part_less) auto
      have "loop_result (norm (out @ part rest @ ''/'') (skip (after_part rest))) p (b + length (skip (after_part rest))) m'
          (normalize_loop p b (p + length (out @ part rest @ ''/'')) m')"
        by (rule less.hyps [OF less_rest b(4,5,6) nul less.prems(5)]) (use less.prems(6) b(3) same_outside_mapped [OF b(2)] in auto)
      from loop_result_step [OF this [unfolded b(3)] b(2)] show ?thesis unfolding b(1) using copy False by (subst norm.simps) (simp del: dropWhile_eq_Nil_conv)
    qed
  qed
qed

subsection \<open>Components\<close>

text \<open>The components of a path: what stands between its slashes.\<close>

function components :: "string \<Rightarrow> string list" where
  "components s = (if skip s = [] then [] else part (skip s) # components (after_part (skip s)))"
  by auto
termination
proof (relation "measure length", goal_cases)
  case (2 s)
  then obtain c cs where c: "skip s = c # cs" by (cases "skip s") auto
  then have "c \<noteq> CHR ''/''" using hd_dropWhile [of "\<lambda>c. c = CHR ''/''" s] by auto
  then have "length (after_part (skip s)) \<le> length cs" unfolding c by (simp add: length_dropWhile_le)
  moreover have "Suc (length cs) \<le> length s" using length_dropWhile_le [of "\<lambda>c. c = CHR ''/''" s] by (simp add: c)
  ultimately show ?case by simp
qed simp

declare components.simps [simp del]

text \<open>
  Resolving the components: the directories entered so far, and whether the path still starts at the root.
  \<open>None\<close> when there is nothing left to go up from.
\<close>

fun resolve :: "bool \<Rightarrow> string list \<Rightarrow> string list \<Rightarrow> (bool \<times> string list) option" where
  "resolve lead st [] = Some (lead, st)"
| "resolve lead st (c # cs) =
     (if c = ''.'' then resolve lead st cs
      else if c = ''..'' then (if st \<noteq> [] then resolve lead (butlast st) cs else if lead then resolve False [] cs else None)
      else resolve lead (st @ [c]) cs)"

definition dir_text :: "bool \<Rightarrow> string list \<Rightarrow> string" where
  "dir_text lead st = (if lead then ''/'' else []) @ concat (map (\<lambda>c. c @ ''/'') st)"

fun join :: "string list \<Rightarrow> string" where
  "join [] = []"
| "join [c] = c"
| "join (c # cs) = c @ ''/'' @ join cs"

definition path_text :: "bool \<Rightarrow> string list \<Rightarrow> string" where
  "path_text lead st = (if st = [] then ''/'' else (if lead then ''/'' else []) @ join st)"

text \<open>What is done at the end of the loop: the last slash is cut off, except the first character.\<close>

definition finish :: "string \<Rightarrow> string" where
  "finish out = (let out = (if length out \<noteq> 1 \<and> out \<noteq> [] \<and> last out = CHR ''/'' then butlast out else out)
                 in if out = [] then ''/'' else out)"

abbreviation component :: "string \<Rightarrow> bool" where
  "component c \<equiv> c \<noteq> [] \<and> CHR ''/'' \<notin> set c"

lemma join_snoc: "join (st @ [c]) = concat (map (\<lambda>c. c @ ''/'') st) @ c"
proof (induction st)
  case (Cons a st)
  then show ?case by (cases "st @ [c]") auto
qed simp

lemma dir_text_snoc: "dir_text lead (st @ [c]) = dir_text lead st @ c @ ''/''"
  by (simp add: dir_text_def)

lemma finish_set: "set (finish out) \<subseteq> insert (CHR ''/'') (set out)"
  by (auto simp: finish_def Let_def dest: in_set_butlastD)

lemma finish_dir: "\<forall>c \<in> set st. component c \<Longrightarrow> finish (dir_text lead st) = path_text lead st"
proof (cases st rule: rev_cases)
  case (snoc ss s)
  assume "\<forall>c \<in> set st. component c"
  then have "s \<noteq> []" using snoc by simp
  then have "length (dir_text lead st) \<noteq> 1" "dir_text lead st \<noteq> []" "last (dir_text lead st) = CHR ''/''"
    "butlast (dir_text lead st) = dir_text lead ss @ s"
    by (simp_all add: snoc dir_text_snoc butlast_append)
  then show ?thesis using \<open>s \<noteq> []\<close> by (simp add: finish_def Let_def snoc path_text_def join_snoc) (simp add: dir_text_def)
qed (auto simp: finish_def dir_text_def path_text_def)

lemma finish_file:
  assumes "component c"
  shows "finish (dir_text lead st @ c) = path_text lead (st @ [c])"
proof -
  have "last (dir_text lead st @ c) \<noteq> CHR ''/''" using assms by (metis last_appendR last_in_set)
  then show ?thesis using assms by (simp add: finish_def Let_def path_text_def join_snoc dir_text_def)
qed

lemma up_dir: "\<forall>c \<in> set st. component c \<Longrightarrow> up_text (dir_text lead st) = (if st = [] then [] else dir_text lead (butlast st))"
proof (cases st rule: rev_cases)
  case (snoc ss s)
  assume c: "\<forall>c \<in> set st. component c"
  have b: "butlast (dir_text lead st) = dir_text lead ss @ s" unfolding snoc dir_text_snoc by (simp add: butlast_append)
  have s: "CHR ''/'' \<notin> set s" using c snoc by simp
  have e: "dir_text lead ss = [] \<or> (\<exists>ys. dir_text lead ss = ys @ ''/'')"
    by (cases ss rule: rev_cases) (auto simp: dir_text_snoc dir_text_def)
  have "dropWhile (\<lambda>c. c \<noteq> CHR ''/'') (rev s @ rev (dir_text lead ss)) = dropWhile (\<lambda>c. c \<noteq> CHR ''/'') (rev (dir_text lead ss))"
    using s by (intro dropWhile_append2) auto
  also have "\<dots> = rev (dir_text lead ss)" using e by auto
  finally show ?thesis using snoc b by (simp add: up_text_def)
qed (auto simp: up_text_def dir_text_def)

lemma components_skip: "components (skip s) = components s"
proof -
  have "skip (skip s) = skip s" by (cases "skip s") (use hd_dropWhile [of "\<lambda>c. c = CHR ''/''" s] in auto)
  then show ?thesis by (subst (1 2) components.simps) (simp only:)
qed

lemma norm_components:
  assumes "\<forall>c \<in> set st. component c" "rest = [] \<or> hd rest \<noteq> CHR ''/''"
  shows "map_option finish (norm (dir_text lead st) rest) = map_option (\<lambda>(lead, st). path_text lead st) (resolve lead st (components rest))"
  using assms
proof (induction "length rest" arbitrary: lead st rest rule: less_induct)
  case less
  show ?case
  proof (cases "rest = []")
    case True
    then show ?thesis using finish_dir [OF less.prems(1)] by (simp add: norm.simps components.simps)
  next
    case False
    let ?s = "skip (after_part rest)"
    have sk: "skip rest = rest" using False less.prems(2) by (cases rest) auto
    have c: "components rest = part rest # components ?s"
      using False sk by (subst components.simps) (simp only: components_skip if_False)
    have p: "component (part rest)" using False less.prems(2) by (cases rest) (auto dest: set_takeWhileD)
    have h: "?s = [] \<or> hd ?s \<noteq> CHR ''/''" using hd_dropWhile by blast
    have l: "length ?s < length rest" by (rule skip_after_part_less [OF False])
    have IH: "map_option finish (norm (dir_text lead st) ?s) = map_option (\<lambda>(lead, st). path_text lead st) (resolve lead st (components ?s))"
      if "\<forall>c \<in> set st. component c" for lead st by (rule less.hyps [OF l that h])
    consider (dot) "part rest = ''.''" | (up) "part rest = ''..''" | (last) "part rest \<noteq> ''.''" "part rest \<noteq> ''..''" "after_part rest = []"
      | (more) "part rest \<noteq> ''.''" "part rest \<noteq> ''..''" "after_part rest \<noteq> []" by blast
    then show ?thesis
    proof cases
      case dot
      have n: "norm (dir_text lead st) [] = Some (dir_text lead st)" by (simp add: norm.simps)
      have "norm (dir_text lead st) rest = norm (dir_text lead st) ?s"
      proof (cases "after_part rest = []")
        case True
        then have "?s = []" by (simp del: dropWhile_eq_Nil_conv)
        then show ?thesis using dot True n by (subst norm.simps) (simp del: dropWhile_eq_Nil_conv)
      next
        case False
        then show ?thesis using dot by (subst norm.simps) (simp del: dropWhile_eq_Nil_conv)
      qed
      then show ?thesis using IH [OF less.prems(1)] dot c by simp
    next
      case up
      show ?thesis
      proof (cases "st = []")
        case True
        then show ?thesis using IH [of "[]" False] up c by (subst norm.simps) (auto simp: dir_text_def up_text_def)
      next
        case False
        then have "dir_text lead st \<noteq> []" by (cases st) (simp_all add: dir_text_def)
        then show ?thesis using IH [of "butlast st"] less.prems(1) up c False
          by (subst norm.simps) (simp add: up_dir [OF less.prems(1)] in_set_butlastD)
      qed
    next
      case last
      then have n: "norm (dir_text lead st) rest = Some (dir_text lead st @ part rest)" by (subst norm.simps) simp
      show ?thesis unfolding n c using last p by (simp add: finish_file components.simps del: dropWhile_eq_Nil_conv)
    next
      case more
      then have "norm (dir_text lead st) rest = norm (dir_text lead (st @ [part rest])) ?s"
        by (subst norm.simps) (simp add: dir_text_snoc del: dropWhile_eq_Nil_conv)
      then show ?thesis using IH [of "st @ [part rest]"] less.prems(1) p more(1,2) c by simp
    qed
  qed
qed

text \<open>Nothing is left exactly when the leading slash is lost and no component follows.\<close>

lemma norm_empty:
  assumes "\<forall>c \<in> set st. component c" "rest = [] \<or> hd rest \<noteq> CHR ''/''"
  shows "norm (dir_text lead st) rest = Some [] \<longleftrightarrow> resolve lead st (components rest) = Some (False, [])"
  using assms
proof (induction "length rest" arbitrary: lead st rest rule: less_induct)
  case less
  have e: "dir_text lead st = [] \<longleftrightarrow> \<not> lead \<and> st = []" for lead st by (cases st) (auto simp: dir_text_def)
  show ?case
  proof (cases "rest = []")
    case True
    then show ?thesis using e by (simp add: norm.simps components.simps)
  next
    case False
    let ?s = "skip (after_part rest)"
    have sk: "skip rest = rest" using False less.prems(2) by (cases rest) auto
    have c: "components rest = part rest # components ?s"
      using False sk by (subst components.simps) (simp only: components_skip if_False)
    have p: "component (part rest)" using False less.prems(2) by (cases rest) (auto dest: set_takeWhileD)
    have h: "?s = [] \<or> hd ?s \<noteq> CHR ''/''" using hd_dropWhile by blast
    have l: "length ?s < length rest" by (rule skip_after_part_less [OF False])
    have IH: "norm (dir_text lead st) ?s = Some [] \<longleftrightarrow> resolve lead st (components ?s) = Some (False, [])"
      if "\<forall>c \<in> set st. component c" for lead st by (rule less.hyps [OF l that h])
    consider (dot) "part rest = ''.''" | (up) "part rest = ''..''" | (last) "part rest \<noteq> ''.''" "part rest \<noteq> ''..''" "after_part rest = []"
      | (more) "part rest \<noteq> ''.''" "part rest \<noteq> ''..''" "after_part rest \<noteq> []" by blast
    then show ?thesis
    proof cases
      case dot
      have n: "norm (dir_text lead st) [] = Some (dir_text lead st)" by (simp add: norm.simps)
      have "norm (dir_text lead st) rest = norm (dir_text lead st) ?s"
      proof (cases "after_part rest = []")
        case True
        then have "?s = []" by (simp del: dropWhile_eq_Nil_conv)
        then show ?thesis using dot True n by (subst norm.simps) (simp del: dropWhile_eq_Nil_conv)
      next
        case False
        then show ?thesis using dot by (subst norm.simps) (simp del: dropWhile_eq_Nil_conv)
      qed
      then show ?thesis using IH [OF less.prems(1)] dot c by simp
    next
      case up
      show ?thesis
      proof (cases "st = []")
        case True
        then show ?thesis using IH [of "[]" False] up c by (subst norm.simps) (auto simp: dir_text_def up_text_def)
      next
        case False
        then have "dir_text lead st \<noteq> []" by (cases st) (simp_all add: dir_text_def)
        then show ?thesis using IH [of "butlast st"] less.prems(1) up c False
          by (subst norm.simps) (simp add: up_dir [OF less.prems(1)] in_set_butlastD)
      qed
    next
      case last
      then have n: "norm (dir_text lead st) rest = Some (dir_text lead st @ part rest)" by (subst norm.simps) simp
      show ?thesis unfolding n c using last p by (simp add: components.simps del: dropWhile_eq_Nil_conv)
    next
      case more
      then have "norm (dir_text lead st) rest = norm (dir_text lead (st @ [part rest])) ?s"
        by (subst norm.simps) (simp add: dir_text_snoc del: dropWhile_eq_Nil_conv)
      then show ?thesis using IH [of "st @ [part rest]"] less.prems(1) p more(1,2) c by simp
    qed
  qed
qed

lemma norm_path_empty:
  "norm [] path = Some [] \<longleftrightarrow> resolve (cur path = CHR ''/'') [] (components path) = Some (False, [])"
proof (cases "cur path = CHR ''/''")
  case True
  then obtain r where r: "path = CHR ''/'' # r" by (cases path) (auto simp: cur_def)
  have "norm [] path = norm (dir_text True []) (skip r)" unfolding r by (subst norm.simps) (simp add: dir_text_def)
  moreover have "components path = components (skip r)" using components_skip [of path] by (simp add: r)
  ultimately show ?thesis using norm_empty [of "[]" "skip r" True] hd_dropWhile [of "\<lambda>c. c = CHR ''/''" r] True by auto
next
  case False
  have "path = [] \<or> hd path \<noteq> CHR ''/''" using False by (cases path) (auto simp: cur_def)
  then show ?thesis using norm_empty [of "[]" path False] False by (simp add: dir_text_def)
qed

text \<open>The whole path, from its first character.\<close>

lemma norm_path:
  "map_option finish (norm [] path) =
   map_option (\<lambda>(lead, st). path_text lead st) (resolve (cur path = CHR ''/'') [] (components path))"
proof (cases "cur path = CHR ''/''")
  case True
  then obtain r where r: "path = CHR ''/'' # r" by (cases path) (auto simp: cur_def)
  have "norm [] path = norm (dir_text True []) (skip r)" unfolding r by (subst norm.simps) (simp add: dir_text_def)
  moreover have "components path = components (skip r)" using components_skip [of path] by (simp add: r)
  ultimately show ?thesis using norm_components [of "[]" "skip r" True] hd_dropWhile [of "\<lambda>c. c = CHR ''/''" r] True by auto
next
  case False
  have "path = [] \<or> hd path \<noteq> CHR ''/''" using False by (cases path) (auto simp: cur_def)
  then show ?thesis using norm_components [of "[]" path False] False by (simp add: dir_text_def)
qed

subsection \<open>The whole function\<close>

definition full_path :: "string \<Rightarrow> string option \<Rightarrow> string \<Rightarrow> string" where
  "full_path wd dir file = (if cur file = CHR ''/'' then file else (case dir of None \<Rightarrow> wd | Some d \<Rightarrow> d) @ ''/'' @ file)"

lemma format_join:
  "length d < 2 ^ 31 \<Longrightarrow> length f < 2 ^ 31 \<Longrightarrow> format_text ''%s/%s'' [VStr (Some d), VStr (Some f)] = Some (d @ ''/'' @ f)"
  by (simp add: parse_directive_def parse_width_def parse_precision_def parse_qualifier_def cur_def is_digit_def directive_text_def
      directive_body_def string_ok_def int_ok_def string_text_def blanks_def Let_def)

lemma store_text_at: "text_at (store m a s) a s"
  by (simp add: text_at_def store_def)

lemma store_same_outside: "room m a (length s) \<Longrightarrow> length s \<le> n \<Longrightarrow> same_outside a (a + n) m (store m a s)"
  by (auto simp: same_outside_def store_def room_def dom_def split: if_splits)

lemma text_at_update: "text_at m a s \<Longrightarrow> i < length s \<Longrightarrow> text_at (m(a + i \<mapsto> c)) a (s[i := c])"
  by (auto simp: text_at_def nth_list_update)

text \<open>When nothing has been written the byte in front of the block decides, and is overwritten when it is a slash.\<close>

lemma close_path_empty:
  assumes "0 < p" "m p \<noteq> None" "m (p + 1) \<noteq> None"
  shows "close_path p p m = (case m (p - 1) of
      None \<Rightarrow> None
    | Some b \<Rightarrow> Some ((if b = CHR ''/'' then m(p - 1 \<mapsto> CHR 0x00) else m)(p \<mapsto> CHR ''/'', p + 1 \<mapsto> CHR 0x00)))"
  using assms by (cases "m (p - 1)") (auto simp: close_path_def wr_char_def Let_def fun_eq_iff)

lemma close_path_ok:
  assumes t: "text_at m p out" and o: "p + length out < e" "out \<noteq> []" "CHR 0x00 \<notin> set out"
    and a: "\<forall>x. p \<le> x \<and> x < e \<longrightarrow> m x \<noteq> None"
  shows "\<exists>m'. close_path p (p + length out) m = Some m' \<and> text_at m' p (finish out @ NUL) \<and> same_outside p e m m'"
proof (cases out rule: rev_cases)
  case Nil
  then show ?thesis using o by simp
next
  case (snoc xs c)
  have "m (p + length out) \<noteq> None" using a o(1) by simp
  then obtain y where y: "m (p + length out) = Some y" by blast
  have c: "m (p + length xs) = Some c" using t snoc by simp
  show ?thesis
  proof (cases "xs \<noteq> [] \<and> c = CHR ''/''")
    case True
    let ?m = "m(p + length out \<mapsto> CHR 0x00, p + length xs \<mapsto> CHR 0x00)"
    obtain x xs' where xs: "xs = x # xs'" using True by (cases xs) auto
    have "text_at ?m p xs" using t snoc by (subst text_at_upd, simp, subst text_at_upd) simp_all
    moreover have "same_outside p e m ?m" using y c o snoc by (auto simp: same_outside_def)
    moreover have "m p = Some x" "x \<noteq> CHR 0x00" using t o(3) snoc xs by auto
    ultimately show ?thesis using y c snoc True o xs
      by (intro exI [of _ ?m]) (auto simp: close_path_def wr_char_def Let_def finish_def)
  next
    case False
    let ?m = "m(p + length out \<mapsto> CHR 0x00)"
    have "text_at ?m p out" using t by (subst text_at_upd) simp_all
    moreover have "same_outside p e m ?m" using y o by (auto simp: same_outside_def)
    moreover have "\<exists>x. ?m p = Some x \<and> x \<noteq> CHR 0x00" using t o(3) snoc by (cases xs) auto
    moreover have "finish out = out" using False snoc by (auto simp: finish_def Let_def)
    ultimately show ?thesis using y c snoc False by (intro exI [of _ ?m]) (auto simp: close_path_def wr_char_def Let_def)
  qed
qed

lemma norm_set: "norm out rest = Some r \<Longrightarrow> set r \<subseteq> set out \<union> set rest \<union> {CHR ''/''}"
proof (induction out rest rule: norm.induct)
  case (1 out rest)
  have "set (up_text out) \<subseteq> set out" using up_prefix [of out] by (metis Un_upper1 set_append)
  moreover have "set (part rest) \<subseteq> set rest" by (auto dest: set_takeWhileD)
  moreover note after_part_set(1) [of rest]
  ultimately show ?case using 1 norm.simps [of out rest] by (auto split: if_splits simp del: dropWhile_eq_Nil_conv)
qed

lemma text_at_mapped: "text_at m a s \<Longrightarrow> a \<le> x \<Longrightarrow> x < a + length s \<Longrightarrow> m x \<noteq> None"
  unfolding text_at_def by (metis le_iff_add nat_add_left_cancel_less option.distinct(1))

text \<open>The path is put together, then rewritten.\<close>

text \<open>How the memory is left: the text in the block, and around the block nothing changed unless the root is left over.\<close>

definition path_result :: "nat \<Rightarrow> string \<Rightarrow> smem \<Rightarrow> (nat \<times> smem) option \<Rightarrow> bool" where
  "path_result p full m r \<longleftrightarrow>
     (let e = p + length full + 1 in
      case resolve (cur full = CHR ''/'') [] (components full) of
        None \<Rightarrow> (\<exists>m'. r = Some (0, m') \<and> same_outside p e m m')
      | Some (lead, st) \<Rightarrow>
          if lead \<or> st \<noteq> []
          then \<exists>m'. r = Some (p, m') \<and> text_at m' p (path_text lead st @ NUL) \<and> same_outside p e m m'
          else case m (p - 1) of
            None \<Rightarrow> r = None
          | Some b \<Rightarrow> \<exists>m'. r = Some (p, m') \<and> text_at m' p (''/'' @ NUL) \<and>
              (if b = CHR ''/'' then m' (p - 1) = Some (CHR 0x00) \<and> same_outside (p - 1) e m m' else same_outside p e m m'))"

lemma normalize_from_text:
  assumes m1: "text_at m p (full @ NUL)" "full \<noteq> []" "CHR 0x00 \<notin> set full" "0 < p"
  shows "path_result p full m (do { r \<leftarrow> normalize_loop p p p m;
     case r of None \<Rightarrow> Some (0, m) | Some (dst, m) \<Rightarrow> do { m \<leftarrow> close_path p dst m; Some (p, m) } })"
proof -
  let ?e = "p + length full + 1"
  have a: "\<forall>x. p \<le> x \<and> x \<le> p + length full \<longrightarrow> m x \<noteq> None" using text_at_mapped [OF m1(1)] by simp
  have L: "loop_result (norm [] full) p (p + length full) m (normalize_loop p p p m)"
    using normalize_loop_ok [OF m1(1) _ _ m1(3,4) a, of "[]"] by simp
  note N = norm_path [of full] and E = norm_path_empty [of full]
  show ?thesis
  proof (cases "norm [] full")
    case None
    then have "resolve (cur full = CHR ''/'') [] (components full) = None" using N by simp
    then show ?thesis using L None by (simp add: loop_result_def path_result_def)
  next
    case (Some out)
    then obtain lead st where r: "resolve (cur full = CHR ''/'') [] (components full) = Some (lead, st)" "finish out = path_text lead st"
      using N Some by (cases "resolve (cur full = CHR ''/'') [] (components full)") auto
    have oe: "out = [] \<longleftrightarrow> \<not> lead \<and> st = []" using E Some r(1) by simp
    obtain m' where m': "normalize_loop p p p m = Some (Some (p + length out, m'))" "text_at m' p out" "p + length out \<le> p + length full"
      "same_outside p (p + length full) m m'"
      using L Some by (auto simp: loop_result_def)
    have so: "same_outside p ?e m m'" by (rule same_outside_mono [OF m'(4)]) simp
    have map: "\<forall>x. p \<le> x \<and> x < ?e \<longrightarrow> m' x \<noteq> None" using a same_outside_mapped [OF m'(4)] by simp
    have lt: "p + length out < ?e" "p + 1 < ?e" using m'(3) m1(2) by simp_all
    show ?thesis
    proof (cases "out = []")
      case False
      have "CHR 0x00 \<notin> set out" using norm_set [OF Some] m1(3) by auto
      then obtain m'' where "close_path p (p + length out) m' = Some m''" "text_at m'' p (finish out @ NUL)" "same_outside p ?e m' m''"
        using close_path_ok [OF m'(2) lt(1) False _ map] by blast
      then show ?thesis using m'(1) r oe False same_outside_trans [OF so] by (auto simp: path_result_def Let_def)
    next
      case True
      have mp: "m' p \<noteq> None" "m' (p + 1) \<noteq> None" using map lt(2) by simp_all
      have pm: "m' (p - 1) = m (p - 1)" using m'(4) m1(4) by (simp add: same_outside_def)
      note cl = close_path_empty [OF m1(4) mp]
      show ?thesis
      proof (cases "m (p - 1)")
        case None
        then show ?thesis using m'(1) r oe True cl pm by (simp add: path_result_def Let_def)
      next
        case (Some b)
        define n where "n = (if b = CHR ''/'' then m'(p - 1 \<mapsto> CHR 0x00) else m')(p \<mapsto> CHR ''/'', p + 1 \<mapsto> CHR 0x00)"
        have c: "close_path p p m' = Some n" using cl pm Some by (simp add: n_def)
        have o: "b \<noteq> CHR ''/'' \<Longrightarrow> same_outside p ?e m' n" "b = CHR ''/'' \<Longrightarrow> same_outside (p - 1) ?e m' n"
          "same_outside (p - 1) ?e m m'" "b = CHR ''/'' \<Longrightarrow> n (p - 1) = Some (CHR 0x00)"
          using mp lt(2) pm Some m1(4) so by (auto simp: same_outside_def n_def)
        have "if b = CHR ''/'' then n (p - 1) = Some (CHR 0x00) \<and> same_outside (p - 1) ?e m n else same_outside p ?e m n"
        proof (cases "b = CHR ''/''")
          case True
          with same_outside_trans [OF o(3) o(2)] o(4) show ?thesis by simp
        next
          case False
          with same_outside_trans [OF so o(1)] show ?thesis by simp
        qed
        moreover have "text_at n p (''/'' @ NUL)" by (simp add: n_def)
        ultimately show ?thesis using m'(1) r oe True c Some by (simp add: path_result_def Let_def split: if_splits)
      qed
    qed
  qed
qed

lemma normalize_ok:
  assumes p: "0 < p" "p + length (full_path wd dir file) + 1 < 2 ^ 64" "room m p (length (full_path wd dir file) + 1)"
    and n: "CHR 0x00 \<notin> set (full_path wd dir file)"
    and i: "cur file \<noteq> CHR ''/'' \<longrightarrow> length (full_path wd dir file) < 2 ^ 31"
  shows "path_result p (full_path wd dir file) m (dfs_normalize_path wd dir file p m)"
proof -
  let ?f = "full_path wd dir file"
  let ?m = "store m p (?f @ NUL)"
  have "?f \<noteq> []" by (auto simp: full_path_def cur_def)
  have s: "same_outside p (p + length ?f + 1) m ?m"
    using store_same_outside [of m p "?f @ NUL" "length ?f + 1"] p(3) by (simp add: add.assoc)
  have pm: "?m (p - 1) = m (p - 1)" using p(1) by (auto simp: store_def)
  have "(if cur file \<noteq> CHR ''/''
         then do { (_, m) \<leftarrow> rt_snprintf p (length (case dir of None \<Rightarrow> wd | Some d \<Rightarrow> d) + length file + 2) ''%s/%s''
                               [VStr (Some (case dir of None \<Rightarrow> wd | Some d \<Rightarrow> d)), VStr (Some file)] m;
                   Some m }
         else do { (_, m) \<leftarrow> puts (p + length file + 1) (file @ NUL) (p, m); Some m }) = Some ?m"
  proof (cases "cur file = CHR ''/''")
    case True
    then show ?thesis using p(2,3) puts_ok [of m p "p + length file + 1" "file @ NUL"] by (simp add: full_path_def)
  next
    case False
    let ?d = "case dir of None \<Rightarrow> wd | Some d \<Rightarrow> d"
    have "length ?d + length file + 2 = length ?f + 1" "?f = ?d @ ''/'' @ file" using False by (simp_all add: full_path_def)
    moreover have "length ?d < 2 ^ 31" "length file < 2 ^ 31" using i False calculation(2) by auto
    then have "format_text ''%s/%s'' [VStr (Some ?d), VStr (Some file)] = Some ?f" unfolding calculation(2) by (rule format_join)
    ultimately show ?thesis using vsnprintf_ok [of "''%s/%s''" "[VStr (Some ?d), VStr (Some file)]" ?f p "length ?f + 1" m] p(2,3) False
      by (simp add: rt_snprintf_def formatted_def)
  qed
  then have e: "dfs_normalize_path wd dir file p m = do { r \<leftarrow> normalize_loop p p p ?m;
     case r of None \<Rightarrow> Some (0, ?m) | Some (dst, m) \<Rightarrow> do { m \<leftarrow> close_path p dst m; Some (p, m) } }"
    using p(1) unfolding dfs_normalize_path_def Let_def by (simp del: puts.simps)
  have t: "path_result p ?f ?m (dfs_normalize_path wd dir file p m)"
    unfolding e by (rule normalize_from_text [OF store_text_at \<open>?f \<noteq> []\<close> n p(1)])
  have s1: "same_outside (p - 1) (p + length ?f + 1) m ?m" using s by (auto simp: same_outside_def)
  show ?thesis using t unfolding path_result_def Let_def pm
    by (auto split: option.splits prod.splits if_splits
        intro: same_outside_trans [OF s [simplified]] same_outside_trans [OF s1 [simplified]])
qed

subsection \<open>Canonical paths\<close>

lemma components_component: "c \<in> set (components s) \<Longrightarrow> component c"
proof (induction s rule: components.induct)
  case (1 s)
  have "component (part (skip s))" if "skip s \<noteq> []"
    using that hd_dropWhile [of "\<lambda>c. c = CHR ''/''" s] by (cases "skip s") (auto dest: set_takeWhileD)
  then show ?case using 1 components.simps [of s] by (auto split: if_splits simp del: dropWhile_eq_Nil_conv)
qed

lemma part_append:
  "CHR ''/'' \<notin> set c \<Longrightarrow> part (c @ CHR ''/'' # r) = c \<and> after_part (c @ CHR ''/'' # r) = CHR ''/'' # r"
  by (induction c) auto

lemma components_join: "\<forall>c \<in> set st. component c \<Longrightarrow> components (join st) = st"
proof (induction st rule: join.induct)
  case 1
  show ?case by (simp add: components.simps)
next
  case (2 c)
  then have "skip c = c" "part c = c" "after_part c = []" by (cases c, auto simp: takeWhile_eq_all_conv)
  then show ?case using 2 by (subst components.simps) (simp add: components.simps del: dropWhile_eq_Nil_conv)
next
  case (3 c d cs)
  have c: "c \<noteq> []" "CHR ''/'' \<notin> set c" using "3.prems" by simp_all
  then have "skip (c @ ''/'' @ join (d # cs)) = c @ ''/'' @ join (d # cs)" by (cases c) auto
  moreover have "part (c @ ''/'' @ join (d # cs)) = c" "after_part (c @ ''/'' @ join (d # cs)) = ''/'' @ join (d # cs)"
    using part_append [OF c(2)] by simp_all
  moreover have "components (''/'' @ join (d # cs)) = components (join (d # cs))"
    using components_skip [of "''/'' @ join (d # cs)"] components_skip [of "join (d # cs)"] by simp
  ultimately show ?case using 3 c by (subst components.simps) (simp del: join.simps dropWhile_eq_Nil_conv add: join.simps(3))
qed

lemma components_path_text: "\<forall>c \<in> set st. component c \<Longrightarrow> components (path_text True st) = st"
proof (cases "st = []")
  case False
  assume "\<forall>c \<in> set st. component c"
  then have "components (join st) = st" by (rule components_join)
  then show ?thesis using False components_skip [of "''/'' @ join st"] components_skip [of "join st"] by (simp add: path_text_def)
qed (simp add: path_text_def components.simps)

abbreviation plain :: "string \<Rightarrow> bool" where
  "plain c \<equiv> component c \<and> c \<noteq> ''.'' \<and> c \<noteq> ''..''"

lemma resolve_plain: "resolve lead st cs = Some (lead', st') \<Longrightarrow> \<forall>c \<in> set st. plain c \<Longrightarrow> \<forall>c \<in> set cs. component c \<Longrightarrow> \<forall>c \<in> set st'. plain c"
proof (induction lead st cs rule: resolve.induct)
  case (2 lead st c cs)
  have b: "\<forall>x \<in> set (butlast st). plain x" using "2.prems"(2) by (blast dest: in_set_butlastD)
  have c: "\<forall>x \<in> set cs. component x" "component c" using "2.prems"(3) by simp_all
  consider (dot) "c = ''.''" | (up) "c = ''..''" "st \<noteq> []" | (lost) "c = ''..''" "st = []" | (down) "c \<noteq> ''.''" "c \<noteq> ''..''" by blast
  then show ?case
  proof cases
    case dot
    then have "resolve lead st cs = Some (lead', st')" using "2.prems"(1) by simp
    then show ?thesis using "2.IH"(1) dot "2.prems"(2) c(1) by blast
  next
    case up
    then have "resolve lead (butlast st) cs = Some (lead', st')" using "2.prems"(1) by simp
    moreover have "c \<noteq> ''.''" using up by simp
    ultimately show ?thesis using "2.IH"(2) up b c(1) by blast
  next
    case lost
    then have "lead" "resolve False [] cs = Some (lead', st')" using "2.prems"(1) by (simp_all split: if_splits)
    moreover have "c \<noteq> ''.''" using lost by simp
    ultimately show ?thesis using "2.IH"(3) lost c(1) by (metis empty_iff empty_set)
  next
    case down
    then have "resolve lead (st @ [c]) cs = Some (lead', st')" using "2.prems"(1) by simp
    moreover have "\<forall>x \<in> set (st @ [c]). plain x" using "2.prems"(2) c(2) down by simp
    ultimately show ?thesis using "2.IH"(4) down c(1) by blast
  qed
qed simp

lemma resolve_same: "\<forall>c \<in> set cs. plain c \<Longrightarrow> resolve lead st cs = Some (lead, st @ cs)"
  by (induction cs arbitrary: st) auto

text \<open>A path stays below the root when no beginning of it goes up more often than down.\<close>

definition height :: "string list \<Rightarrow> int" where
  "height cs = (\<Sum>c \<leftarrow> cs. if c = ''.'' then 0 else if c = ''..'' then - 1 else 1)"

definition below_root :: "string list \<Rightarrow> bool" where
  "below_root cs \<longleftrightarrow> (\<forall>k \<le> length cs. 0 \<le> height (take k cs))"

lemma resolve_lost: "resolve False st cs = Some (lead, st') \<Longrightarrow> \<not> lead"
  by (induction "False" st cs rule: resolve.induct) (auto split: if_splits)

lemma resolve_lead: "(\<exists>st'. resolve True st cs = Some (True, st')) \<longleftrightarrow> (\<forall>k \<le> length cs. 0 \<le> int (length st) + height (take k cs))"
proof (induction cs arbitrary: st)
  case (Cons c cs)
  have h: "height (take (Suc k) (c # cs)) = height [c] + height (take k cs)" "height (take 0 (c # cs)) = 0" for k by (simp_all add: height_def)
  have "(\<forall>k \<le> Suc n. P k) \<longleftrightarrow> P 0 \<and> (\<forall>k \<le> n. P (Suc k))" for P and n :: nat by (metis Suc_le_mono not0_implies_Suc zero_le)
  from this [of "length cs" "\<lambda>k. 0 \<le> int (length st) + height (take k (c # cs))"]
  have all: "(\<forall>k \<le> length (c # cs). 0 \<le> int (length st) + height (take k (c # cs))) \<longleftrightarrow>
      (\<forall>k \<le> length cs. 0 \<le> int (length st) + height [c] + height (take k cs))"
    by (simp only: h list.size add_Suc_right add_0_right add.assoc) simp
  consider (dot) "c = ''.''" | (up) "c = ''..''" "st \<noteq> []" | (lost) "c = ''..''" "st = []" | (down) "c \<noteq> ''.''" "c \<noteq> ''..''" by blast
  then show ?case
  proof cases
    case dot
    then show ?thesis unfolding all using Cons.IH [of st] by (simp add: height_def)
  next
    case up
    then have "int (length (butlast st)) = int (length st) + height [c]" by (cases st) (simp_all add: height_def)
    then show ?thesis unfolding all using Cons.IH [of "butlast st"] up by simp
  next
    case lost
    have "\<not> (\<forall>k \<le> length cs. 0 \<le> int (length st) + height [c] + height (take k cs))"
      using lost by (auto simp: height_def intro!: exI [of _ 0])
    moreover have "resolve False [] cs \<noteq> Some (True, st')" for st' using resolve_lost by blast
    ultimately show ?thesis unfolding all using lost by simp
  next
    case down
    then have e: "int (length st) + height [c] = int (length (st @ [c]))" by (simp add: height_def)
    show ?thesis unfolding all e using Cons.IH [of "st @ [c]"] down by (simp del: length_append)
  qed
qed (simp add: height_def)

subsection \<open>Properties\<close>

text \<open>C17: \<open>dfs_normalize_path\<close> ends and leaves in its block the path its components resolve to: \<open>.\<close> stays, \<open>..\<close> goes up, anything
  else goes down; \<open>RT_NULL\<close> when it goes up from an empty path.  (A relative path is joined to its directory by
  \<open>rt_snprintf\<close>, which counts up to 2^31 - 1.)  It changes no memory outside its block, except when nothing but
  the lost root is left over (\<open>/..\<close>): then it reads the byte in front of the block, and writes a terminator over it when
  it is a slash.\<close>

theorem dfs_normalize_path_spec:
  assumes "0 < p" "p + length (full_path wd dir file) + 1 < 2 ^ 64" "room m p (length (full_path wd dir file) + 1)"
    and "CHR 0x00 \<notin> set (full_path wd dir file)" "cur file \<noteq> CHR ''/'' \<longrightarrow> length (full_path wd dir file) < 2 ^ 31"
  shows "path_result p (full_path wd dir file) m (dfs_normalize_path wd dir file p m)"
  by (rule normalize_ok [OF assms])

lemma sample_resolve: "resolve (cur (full_path ''/'' None ''a/.././/b'') = CHR ''/'') [] (components (full_path ''/'' None ''a/.././/b'')) = Some (True, [''b''])"
  by code_simp

theorem dfs_normalize_path_spec_witness:
  "\<exists>m'. dfs_normalize_path ''/'' None ''a/.././/b'' 16 (\<lambda>_. Some (CHR ''x'')) = Some (16, m') \<and> text_at m' 16 (''/b'' @ NUL)"
  using dfs_normalize_path_spec [of 16 "''/''" None "''a/.././/b''" "\<lambda>_. Some (CHR ''x'')"]
  unfolding path_result_def sample_resolve by (simp add: full_path_def cur_def room_def path_text_def) blast

text \<open>\<open>/..\<close> behind a slash: the byte in front of the block is overwritten.\<close>

lemma normalize_writes_before:
  "\<exists>m'. dfs_normalize_path ''/'' None ''/..'' 16 (\<lambda>_. Some (CHR ''/'')) = Some (16, m') \<and> m' 15 = Some (CHR 0x00)"
proof -
  have "resolve (cur ''/..'' = CHR ''/'') [] (components ''/..'') = Some (False, [])" by code_simp
  then show ?thesis using normalize_ok [of 16 "''/''" None "''/..''" "\<lambda>_. Some (CHR ''/'')"]
    by (auto simp: path_result_def full_path_def cur_def room_def Let_def)
qed

text \<open>C33: An absolute path that never goes above the root becomes the absolute path of the components it resolves to, none of which
  is \<open>.\<close>, \<open>..\<close> or empty, no memory outside the block is changed, and normalising the result once more leaves it as it is; a path
  that does go above the root never becomes an absolute path other than the root itself.\<close>

theorem dfs_normalize_path_canonical:
  assumes "0 < p" "p + length file + 1 < 2 ^ 64" "room m p (length file + 1)" "CHR 0x00 \<notin> set file" "cur file = CHR ''/''"
  shows "(below_root (components file) \<longrightarrow>
      (\<exists>m' st. dfs_normalize_path wd dir file p m = Some (p, m') \<and> resolve True [] (components file) = Some (True, st) \<and>
         text_at m' p (path_text True st @ NUL) \<and> same_outside p (p + length file + 1) m m' \<and> (\<forall>c \<in> set st. plain c) \<and>
         (\<forall>n. p + length (path_text True st) + 1 < 2 ^ 64 \<longrightarrow> room n p (length (path_text True st) + 1) \<longrightarrow>
            (\<exists>n'. dfs_normalize_path wd dir (path_text True st) p n = Some (p, n') \<and> text_at n' p (path_text True st @ NUL))))) \<and>
    (\<not> below_root (components file) \<longrightarrow> (\<forall>r m'. dfs_normalize_path wd dir file p m = Some (r, m') \<longrightarrow>
       r = 0 \<or> (\<exists>t. r = p \<and> text_at m' p (t @ NUL) \<and> (cur t \<noteq> CHR ''/'' \<or> t = ''/''))))"
proof -
  have f: "full_path wd dir file = file" using assms(5) by (simp add: full_path_def)
  have r: "path_result p file m (dfs_normalize_path wd dir file p m)"
    using normalize_ok [of p wd dir "file" m, unfolded f, OF assms(1-4)] assms(5) by simp
  have below: "below_root (components file) \<longleftrightarrow> (\<exists>st. resolve True [] (components file) = Some (True, st))"
    using resolve_lead [of "[]" "components file"] by (simp add: below_root_def)
  have cs: "\<forall>c \<in> set (components file). component c" using components_component by blast
  have pos: "\<exists>m' st. dfs_normalize_path wd dir file p m = Some (p, m') \<and> resolve True [] (components file) = Some (True, st) \<and>
         text_at m' p (path_text True st @ NUL) \<and> same_outside p (p + length file + 1) m m' \<and> (\<forall>c \<in> set st. plain c) \<and>
         (\<forall>n. p + length (path_text True st) + 1 < 2 ^ 64 \<longrightarrow> room n p (length (path_text True st) + 1) \<longrightarrow>
            (\<exists>n'. dfs_normalize_path wd dir (path_text True st) p n = Some (p, n') \<and> text_at n' p (path_text True st @ NUL)))"
    if b: "below_root (components file)"
  proof -
    obtain st where st: "resolve True [] (components file) = Some (True, st)" using b below by blast
    have pl: "\<forall>c \<in> set st. plain c" using resolve_plain [OF st _ cs] by simp
    let ?t = "path_text True st"
    have t: "cur ?t = CHR ''/''" "full_path wd dir ?t = ?t" "CHR 0x00 \<notin> set ?t"
    proof -
      show c: "cur ?t = CHR ''/''" by (simp add: path_text_def cur_def)
      then show "full_path wd dir ?t = ?t" by (simp add: full_path_def)
      obtain out where "norm [] file = Some out" "finish out = ?t" using norm_path [of "file"] st assms(5) by auto
      then show "CHR 0x00 \<notin> set ?t" using norm_set [of "[]" "file" out] finish_set [of out] assms(4) by auto
    qed
    have "resolve True [] (components ?t) = Some (True, st)"
      using pl components_path_text [of st] resolve_same [of st True "[]"] by simp
    then have again: "\<exists>n'. dfs_normalize_path wd dir ?t p n = Some (p, n') \<and> text_at n' p (?t @ NUL)"
      if "p + length ?t + 1 < 2 ^ 64" "room n p (length ?t + 1)" for n
      using normalize_ok [of p wd dir ?t n] t assms(1) that by (auto simp: path_result_def Let_def)
    show ?thesis using r st assms(5) pl again by (auto simp: path_result_def Let_def)
  qed
  have neg: "r = 0 \<or> (\<exists>t. r = p \<and> text_at m' p (t @ NUL) \<and> (cur t \<noteq> CHR ''/'' \<or> t = ''/''))"
    if b: "\<not> below_root (components file)" and e: "dfs_normalize_path wd dir file p m = Some (r, m')" for r m'
  proof (cases "resolve True [] (components file)")
    case None
    then show ?thesis using r assms(5) e by (simp add: path_result_def)
  next
    case (Some x)
    then obtain st where st: "resolve True [] (components file) = Some (False, st)" using b below by (cases x; cases "fst x") auto
    have pl: "\<forall>c \<in> set st. plain c" using resolve_plain [OF st _ cs] by simp
    have "cur (path_text False st) \<noteq> CHR ''/'' \<or> path_text False st = ''/''"
    proof (cases st)
      case (Cons c cs)
      then obtain x xs where "c = x # xs" "x \<noteq> CHR ''/''" using pl by (cases c) auto
      then show ?thesis using Cons by (cases cs) (simp_all add: path_text_def cur_def)
    qed (simp add: path_text_def)
    then have "path_text False st = ''/'' \<or> st \<noteq> []" "cur (path_text False st) \<noteq> CHR ''/'' \<or> path_text False st = ''/''"
      by (auto simp: path_text_def)
    moreover have "r = p \<and> text_at m' p ((if st = [] then ''/'' else path_text False st) @ NUL)"
      using r st assms(5) e by (cases "m (p - 1)") (auto simp: path_result_def Let_def split: if_splits)
    ultimately show ?thesis by metis
  qed
  show ?thesis using pos neg by blast
qed

lemma sample_below: "below_root (components ''/a/../b'')"
  by (simp add: below_root_def components.simps height_def All_less_Suc2 le_Suc_eq numeral_eq_Suc)

theorem dfs_normalize_path_canonical_witness:
  "\<exists>m' st. dfs_normalize_path ''/'' None ''/a/../b'' 16 (\<lambda>_. Some (CHR ''x'')) = Some (16, m') \<and>
     resolve True [] (components ''/a/../b'') = Some (True, st) \<and> text_at m' 16 (path_text True st @ NUL)"
  using dfs_normalize_path_canonical [of 16 "''/a/../b''" "\<lambda>_. Some (CHR ''x'')" "''/''" None] sample_below
  by (auto simp: room_def cur_def simp del: text_at_append)

text \<open>One step above the root the leading slash is lost.\<close>

lemma normalize_above_root: "resolve True [] (components ''/../etc'') = Some (False, [''etc''])" "path_text False [''etc''] = ''etc''"
  by code_simp+

end
