(* ===== verification/Dfs.thy ===== *)
theory Dfs
  imports DfsPath
begin

section \<open>The device file system (\<open>components/dfs/src/dfs.c\<close>, \<open>dfs_fs.c\<close>, \<open>dfs_file.c\<close>)\<close>

text \<open>
  The table of file system types, the mount table, the descriptor table and the operations that work on
  files through them.  What a file system does is a parameter: the functions in its record of operations
  (\<open>None\<close> a null pointer); those on open files are given the descriptor and return it as they leave it.  Descriptors are pointers (numbers) to structs;
  the results of \<open>rt_calloc\<close> and \<open>rt_realloc\<close> are arguments, and so is whether a path can be
  allocated (\<open>mem\<close>).  \<open>dfs_lock\<close> makes each operation exclusive and is left out.
\<close>

datatype errno = EEXIST | ENOSPC | ENODEV | ENOTDIR | EINVAL | ENOSYS | ENOENT | ENOMEM | EBUSY | EXDEV | ENXIO

text \<open>An \<open>int\<close> result: a value, or the negative of an error number.\<close>

datatype fs_result = Ret int | Err errno

text \<open>
  \<open>struct dfs_fd\<close>.  The table of file operations is named by its address, 0 for \<open>RT_NULL\<close>; \<open>fd_data\<close> is the
  word a file system keeps there.
\<close>

record dfs_fd =
  fd_magic :: u16
  fd_type :: nat
  fd_path :: "string option"
  fd_ref :: int
  fd_fs :: "nat option"
  fd_fops :: nat
  fd_flags :: u32
  fd_size :: int
  fd_pos :: int
  fd_data :: nat

text \<open>
  \<open>struct dfs_file_ops\<close>: each operation is given the descriptor and answers with a result and the descriptor as it
  leaves it (a file system may set size, position, type, its data and the operations to use from then on).
\<close>

type_synonym fd_op = "dfs_fd \<Rightarrow> int \<times> dfs_fd"

record file_ops =
  fo_open :: "fd_op option"
  fo_close :: "fd_op option"
  fo_ioctl :: "(int \<Rightarrow> int \<Rightarrow> fd_op) option"
  fo_read :: "(u64 \<Rightarrow> fd_op) option"
  fo_write :: "(u64 \<Rightarrow> fd_op) option"
  fo_flush :: "fd_op option"
  fo_lseek :: "(int \<Rightarrow> fd_op) option"
  fo_getdents :: "(u64 \<Rightarrow> fd_op) option"

text \<open>\<open>struct dfs_filesystem_ops\<close>; a mounted file system is named by its place in the mount table.\<close>

record fs_ops =
  op_name :: string
  op_fullpath :: bool
  op_fops :: nat
  op_mount :: "(nat \<Rightarrow> int) option"
  op_unmount :: "(nat \<Rightarrow> int) option"
  op_mkfs :: "(nat \<Rightarrow> int) option"
  op_statfs :: "(nat \<Rightarrow> int) option"
  op_unlink :: "(nat \<Rightarrow> string \<Rightarrow> int) option"
  op_stat :: "(nat \<Rightarrow> string \<Rightarrow> int) option"
  op_rename :: "(nat \<Rightarrow> string option \<Rightarrow> string option \<Rightarrow> int) option"

record dfs_filesystem =
  fs_dev :: nat
  fs_path :: "string option"
  fs_type :: "fs_ops option"

text \<open>\<open>df_ops\<close> is the memory the tables of file operations are in.\<close>

record dfs =
  df_wd :: string
  df_types :: "fs_ops option list"
  df_fs :: "dfs_filesystem list"
  df_tab :: "nat list"
  df_fd :: "nat \<Rightarrow> dfs_fd"
  df_errno :: "errno option"
  df_ops :: "nat \<Rightarrow> file_ops"

abbreviation (input) DFS_FILESYSTEM_TYPES_MAX :: nat where "DFS_FILESYSTEM_TYPES_MAX \<equiv> 16"
abbreviation (input) DFS_FILESYSTEMS_MAX :: nat where "DFS_FILESYSTEMS_MAX \<equiv> 16"
abbreviation (input) DFS_FD_MAX :: nat where "DFS_FD_MAX \<equiv> 64"
abbreviation (input) DFS_FD_MAGIC :: u16 where "DFS_FD_MAGIC \<equiv> 0xfdfd"
abbreviation (input) DFS_F_OPEN :: u32 where "DFS_F_OPEN \<equiv> 0x01000000"
abbreviation (input) DFS_F_DIRECTORY :: u32 where "DFS_F_DIRECTORY \<equiv> 0x02000000"
abbreviation (input) DFS_F_EOF :: u32 where "DFS_F_EOF \<equiv> 0x04000000"
abbreviation (input) O_APPEND :: u32 where "O_APPEND \<equiv> 0x400"
abbreviation (input) O_NONBLOCK :: u32 where "O_NONBLOCK \<equiv> 0x800"
abbreviation (input) O_DIRECTORY :: u32 where "O_DIRECTORY \<equiv> 0x10000"
abbreviation (input) FT_REGULAR :: nat where "FT_REGULAR \<equiv> 0"
abbreviation (input) FT_DIRECTORY :: nat where "FT_DIRECTORY \<equiv> 2"
abbreviation (input) F_GETFL :: int where "F_GETFL \<equiv> 3"
abbreviation (input) F_SETFL :: int where "F_SETFL \<equiv> 4"

definition no_fs :: dfs_filesystem where
  "no_fs = \<lparr>fs_dev = 0, fs_path = None, fs_type = None\<rparr>"

definition no_fd :: dfs_fd where
  "no_fd = \<lparr>fd_magic = 0, fd_type = 0, fd_path = None, fd_ref = 0, fd_fs = None, fd_fops = 0, fd_flags = 0, fd_size = 0, fd_pos = 0,
     fd_data = 0\<rparr>"

definition dfs_init :: "(nat \<Rightarrow> file_ops) \<Rightarrow> dfs" where
  "dfs_init ops = \<lparr>df_wd = ''/'', df_types = replicate DFS_FILESYSTEM_TYPES_MAX None, df_fs = replicate DFS_FILESYSTEMS_MAX no_fs,
     df_tab = [], df_fd = (\<lambda>_. no_fd), df_errno = None, df_ops = ops\<rparr>"

definition set_errno :: "errno \<Rightarrow> dfs \<Rightarrow> dfs" where
  "set_errno e d = d\<lparr>df_errno := Some e\<rparr>"

text \<open>What \<open>dfs_normalize_path(NULL, path)\<close> leaves in its block, \<open>None\<close> for \<open>RT_NULL\<close> (theory \<open>DfsPath\<close>).\<close>

definition normal_path :: "bool \<Rightarrow> dfs \<Rightarrow> string \<Rightarrow> string option" where
  "normal_path mem d path = (if mem then map_option finish (norm [] (full_path (df_wd d) None path)) else None)"

subsection \<open>File system types and mounted file systems\<close>

text \<open>The loop of \<open>dfs_register\<close>: the first empty entry, and whether the name is taken (which ends the loop).\<close>

fun register_scan :: "string \<Rightarrow> fs_ops option list \<Rightarrow> nat \<Rightarrow> nat option \<Rightarrow> nat option \<times> bool" where
  "register_scan name [] i slot = (slot, False)"
| "register_scan name (e # es) i slot =
     (case e of
        None \<Rightarrow> register_scan name es (i + 1) (if slot = None then Some i else slot)
      | Some ops \<Rightarrow> if op_name ops = name then (slot, True) else register_scan name es (i + 1) slot)"

definition dfs_register :: "fs_ops \<Rightarrow> dfs \<Rightarrow> int \<times> dfs" where
  "dfs_register ops d =
     (let (slot, taken) = register_scan (op_name ops) (df_types d) 0 None;
          d = (if taken then set_errno EEXIST d else d)
      in case slot of
           None \<Rightarrow> (- 1, set_errno ENOSPC d)
         | Some i \<Rightarrow> if taken then (- 1, d) else (0, d\<lparr>df_types := (df_types d)[i := Some ops]\<rparr>))"

text \<open>The longest mount path the path starts with, up to a separator.\<close>

definition fs_covers :: "string \<Rightarrow> string \<Rightarrow> bool" where
  "fs_covers mp path \<longleftrightarrow>
     take (length mp) path = mp \<and> \<not> (1 < length mp \<and> length mp < length path \<and> path ! length mp \<noteq> CHR ''/'')"

fun lookup_loop :: "string \<Rightarrow> dfs_filesystem list \<Rightarrow> nat \<Rightarrow> nat \<Rightarrow> nat option \<Rightarrow> nat option" where
  "lookup_loop path [] i prefixlen found = found"
| "lookup_loop path (f # fs) i prefixlen found =
     (case (fs_path f, fs_type f) of
        (Some mp, Some _) \<Rightarrow>
          if length mp < prefixlen \<or> take (length mp) path \<noteq> mp then lookup_loop path fs (i + 1) prefixlen found
          else if 1 < length mp \<and> length mp < length path \<and> path ! length mp \<noteq> CHR ''/''
          then lookup_loop path fs (i + 1) prefixlen found
          else lookup_loop path fs (i + 1) (length mp) (Some i)
      | _ \<Rightarrow> lookup_loop path fs (i + 1) prefixlen found)"

definition dfs_filesystem_lookup :: "string \<Rightarrow> dfs \<Rightarrow> nat option" where
  "dfs_filesystem_lookup path d = lookup_loop path (df_fs d) 0 0 None"

subsection \<open>Opening and closing a file\<close>

text \<open>The path below the mount point: \<open>dfs_subdir\<close>, or the root of the file system.\<close>

definition below_mount :: "string \<Rightarrow> string \<Rightarrow> string" where
  "below_mount mp fullpath = (case dfs_subdir mp fullpath of None \<Rightarrow> ''/'' | Some s \<Rightarrow> s)"

definition upd_fd :: "nat \<Rightarrow> (dfs_fd \<Rightarrow> dfs_fd) \<Rightarrow> dfs \<Rightarrow> dfs" where
  "upd_fd q f d = d\<lparr>df_fd := (df_fd d)(q := f (df_fd d q))\<rparr>"

text \<open>The operations of a descriptor (\<open>None\<close>: a null pointer is followed), and a call of one of them.\<close>

definition fops_of :: "nat \<Rightarrow> dfs \<Rightarrow> file_ops option" where
  "fops_of q d = (let a = fd_fops (df_fd d q) in if a = 0 then None else Some (df_ops d a))"

definition call_fop :: "nat \<Rightarrow> fd_op \<Rightarrow> dfs \<Rightarrow> int \<times> dfs" where
  "call_fop q f d = (let (r, fd) = f (df_fd d q) in (r, upd_fd q (\<lambda>_. fd) d))"

text \<open>\<open>dup\<close> says whether \<open>rt_strdup\<close> succeeds; a descriptor pointer of 0 is \<open>RT_NULL\<close>.\<close>

definition dfs_file_open :: "bool \<Rightarrow> bool \<Rightarrow> nat \<Rightarrow> string \<Rightarrow> u32 \<Rightarrow> dfs \<Rightarrow> (fs_result \<times> dfs) option" where
  "dfs_file_open mem dup q path flags d =
     (if q = 0 then Some (Err EINVAL, d)
      else case normal_path mem d path of
        None \<Rightarrow> Some (Err ENOMEM, d)
      | Some fullpath \<Rightarrow>
          (case dfs_filesystem_lookup fullpath d of
             None \<Rightarrow> Some (Err ENOENT, d)
           | Some i \<Rightarrow> do {
               ops \<leftarrow> fs_type (df_fs d ! i);
               mp \<leftarrow> fs_path (df_fs d ! i);
               let name = (if op_fullpath ops then Some fullpath else if dup then Some (below_mount mp fullpath) else None);
               let d = upd_fd q (\<lambda>f. f\<lparr>fd_fs := Some i, fd_fops := op_fops ops, fd_type := FT_REGULAR, fd_flags := flags,
                                        fd_size := 0, fd_pos := 0, fd_data := i, fd_path := name\<rparr>) d;
               fo \<leftarrow> fops_of q d;
               case fo_open fo of
                 None \<Rightarrow> Some (Err ENOSYS, upd_fd q (\<lambda>f. f\<lparr>fd_path := None\<rparr>) d)
               | Some opn \<Rightarrow>
                   let (result, d) = call_fop q opn d
                   in if result < 0 then Some (Ret result, upd_fd q (\<lambda>f. f\<lparr>fd_path := None\<rparr>) d)
                      else let d = upd_fd q (\<lambda>f. f\<lparr>fd_flags := fd_flags f OR DFS_F_OPEN\<rparr>) d;
                               d = (if flags AND O_DIRECTORY \<noteq> 0
                                    then upd_fd q (\<lambda>f. f\<lparr>fd_type := FT_DIRECTORY, fd_flags := fd_flags f OR DFS_F_DIRECTORY\<rparr>) d else d)
                           in Some (Ret 0, d) }))"

definition dfs_file_close :: "nat \<Rightarrow> dfs \<Rightarrow> (fs_result \<times> dfs) option" where
  "dfs_file_close q d =
     (if q = 0 then Some (Err ENXIO, d)
      else do {
        ops \<leftarrow> fops_of q d;
        let (result, d) = (case fo_close ops of None \<Rightarrow> (0, d) | Some cl \<Rightarrow> call_fop q cl d);
        if result < 0 then Some (Ret result, d) else Some (Ret result, upd_fd q (\<lambda>f. f\<lparr>fd_path := None\<rparr>) d) })"

text \<open>Whether a directory can be opened, as \<open>dfs_mount\<close> tries it: with a descriptor on the stack, closed again.\<close>

definition dir_opens :: "bool \<Rightarrow> bool \<Rightarrow> nat \<Rightarrow> string \<Rightarrow> dfs \<Rightarrow> bool option" where
  "dir_opens mem dup fd fullpath d =
     do { (result, d) \<leftarrow> dfs_file_open mem dup fd fullpath O_DIRECTORY d;
          case result of
            Err _ \<Rightarrow> Some False
          | Ret n \<Rightarrow> if n < 0 then Some False else do { _ \<leftarrow> dfs_file_close fd d; Some True } }"

subsection \<open>Mounting\<close>

fun dfs_filesystem_get_mounted_path :: "nat \<Rightarrow> dfs_filesystem list \<Rightarrow> string option" where
  "dfs_filesystem_get_mounted_path dev [] = None"
| "dfs_filesystem_get_mounted_path dev (f # fs) =
     (if fs_type f \<noteq> None \<and> fs_dev f = dev then fs_path f else dfs_filesystem_get_mounted_path dev fs)"

fun find_type :: "string \<Rightarrow> fs_ops option list \<Rightarrow> fs_ops option" where
  "find_type name [] = None"
| "find_type name (e # es) =
     (case e of Some ops \<Rightarrow> if op_name ops = name then Some ops else find_type name es | None \<Rightarrow> find_type name es)"

text \<open>
  The devices underneath: \<open>rt_device_find\<close> by name (0 when there is none), and what opening and closing one gives.
\<close>

record devices =
  dev_find :: "string \<Rightarrow> nat"
  dev_open :: "nat \<Rightarrow> int"

text \<open>The scan of the mount table: an empty entry, and whether the path is mounted already (by the path as it was given).\<close>

fun mount_scan :: "string \<Rightarrow> dfs_filesystem list \<Rightarrow> nat \<Rightarrow> nat option \<Rightarrow> (nat option \<times> bool) option" where
  "mount_scan path [] i slot = Some (slot, False)"
| "mount_scan path (f # fs) i slot =
     (case fs_type f of
        None \<Rightarrow> mount_scan path fs (i + 1) (if slot = None then Some i else slot)
      | Some _ \<Rightarrow> (case fs_path f of
                   None \<Rightarrow> None
                 | Some mp \<Rightarrow> if mp = path then Some (slot, True) else mount_scan path fs (i + 1) slot))"

text \<open>The part of \<open>dfs_mount\<close> that enters the file system and calls its \<open>mount\<close>.\<close>

definition mount_entry :: "devices \<Rightarrow> nat \<Rightarrow> fs_ops \<Rightarrow> (nat \<Rightarrow> int) \<Rightarrow> string \<Rightarrow> string \<Rightarrow> dfs \<Rightarrow> (int \<times> dfs) option" where
  "mount_entry dv dev_id ops mnt path fullpath d =
     do { (slot, mounted) \<leftarrow> mount_scan path (df_fs d) 0 None;
          if mounted then Some (- 1, set_errno EINVAL d)
          else case slot of
            None \<Rightarrow> Some (- 1, set_errno ENOSPC d)
          | Some i \<Rightarrow>
              let put = (\<lambda>f. d\<lparr>df_fs := (df_fs d)[i := f]\<rparr>);
                  fs = \<lparr>fs_dev = dev_id, fs_path = Some fullpath, fs_type = Some ops\<rparr>
              in if dev_id \<noteq> 0 \<and> dev_open dv dev_id \<noteq> 0 then Some (- 1, put no_fs)
                 else if mnt i < 0 then Some (- 1, put no_fs)
                 else Some (0, put fs) }"

definition dfs_mount :: "devices \<Rightarrow> bool \<Rightarrow> bool \<Rightarrow> nat \<Rightarrow> string option \<Rightarrow> string \<Rightarrow> string \<Rightarrow> dfs \<Rightarrow> (int \<times> dfs) option" where
  "dfs_mount dv mem dup fd device_name path filesystemtype d =
     (let dev_id = (case device_name of None \<Rightarrow> 0 | Some n \<Rightarrow> dev_find dv n) in
      if device_name \<noteq> None \<and> dev_id = 0 then Some (- 1, set_errno ENODEV d)
      else case find_type filesystemtype (df_types d) of
        None \<Rightarrow> Some (- 1, set_errno ENODEV d)
      | Some ops \<Rightarrow>
          (case op_mount ops of
             None \<Rightarrow> Some (- 1, set_errno ENOSYS d)
           | Some mnt \<Rightarrow>
               (case normal_path mem d path of
                  None \<Rightarrow> Some (- 1, set_errno ENOTDIR d)
                | Some fullpath \<Rightarrow> do {
                    opens \<leftarrow> (if fullpath \<noteq> ''/'' \<and> fullpath \<noteq> ''/dev'' then dir_opens mem dup fd fullpath d else Some True);
                    if opens then mount_entry dv dev_id ops mnt path fullpath d
                    else Some (- 1, set_errno ENOTDIR d) })))"

text \<open>The first entry mounted on the path.\<close>

fun mounted_on :: "string \<Rightarrow> dfs_filesystem list \<Rightarrow> nat \<Rightarrow> nat option" where
  "mounted_on path [] i = None"
| "mounted_on path (f # fs) i = (if fs_path f = Some path then Some i else mounted_on path fs (i + 1))"

definition dfs_unmount :: "bool \<Rightarrow> string \<Rightarrow> dfs \<Rightarrow> (int \<times> dfs) option" where
  "dfs_unmount mem specialfile d =
     (case normal_path mem d specialfile of
        None \<Rightarrow> Some (- 1, set_errno ENOTDIR d)
      | Some fullpath \<Rightarrow>
          (case mounted_on fullpath (df_fs d) 0 of
             None \<Rightarrow> Some (- 1, d)
           | Some i \<Rightarrow> do {
               ops \<leftarrow> fs_type (df_fs d ! i);
               case op_unmount ops of
                 None \<Rightarrow> Some (- 1, d)
               | Some um \<Rightarrow> if um i < 0 then Some (- 1, d) else Some (0, d\<lparr>df_fs := (df_fs d)[i := no_fs]\<rparr>) }))"

definition dfs_mkfs :: "devices \<Rightarrow> string \<Rightarrow> string option \<Rightarrow> dfs \<Rightarrow> int \<times> dfs" where
  "dfs_mkfs dv fs_name device_name d =
     (let dev_id = (case device_name of None \<Rightarrow> 0 | Some n \<Rightarrow> dev_find dv n) in
      if dev_id = 0 then (- 1, set_errno ENODEV d)
      else case find_type fs_name (df_types d) of
        None \<Rightarrow> (- 1, d)
      | Some ops \<Rightarrow> (case op_mkfs ops of None \<Rightarrow> (- 1, set_errno ENOSYS d) | Some mk \<Rightarrow> (mk dev_id, d)))"

definition dfs_statfs :: "string \<Rightarrow> dfs \<Rightarrow> int option" where
  "dfs_statfs path d =
     (case dfs_filesystem_lookup path d of
        None \<Rightarrow> Some (- 1)
      | Some i \<Rightarrow> do { ops \<leftarrow> fs_type (df_fs d ! i); Some (case op_statfs ops of None \<Rightarrow> - 1 | Some st \<Rightarrow> st i) })"

text \<open>An entry of the partition table in a boot sector: type, offset and size, or \<open>-EIO\<close>.\<close>

definition le_word :: "u8 list \<Rightarrow> nat \<Rightarrow> u32" where
  "le_word buf i = ucast (buf ! i) OR push_bit 8 (ucast (buf ! (i + 1))) OR push_bit 16 (ucast (buf ! (i + 2))) OR push_bit 24 (ucast (buf ! (i + 3)))"

definition dfs_filesystem_get_partition :: "u8 list \<Rightarrow> nat \<Rightarrow> (u8 \<times> u32 \<times> u32) option option" where
  "dfs_filesystem_get_partition buf pindex =
     (let dpt = 0x1be + pindex * 16 in
      if length buf < dpt + 16 then None
      else if buf ! dpt \<noteq> 0x80 \<and> buf ! dpt \<noteq> 0 then Some None
      else if buf ! (dpt + 4) = 0 then Some None
      else Some (Some (buf ! (dpt + 4), le_word buf (dpt + 8), le_word buf (dpt + 12))))"

subsection \<open>Descriptors\<close>

fun free_slot :: "nat list \<Rightarrow> (nat \<Rightarrow> dfs_fd) \<Rightarrow> nat \<Rightarrow> nat" where
  "free_slot [] fd idx = idx"
| "free_slot (p # ps) fd idx = (if p = 0 \<or> fd_ref (fd p) = 0 then idx else free_slot ps fd (idx + 1))"

text \<open>\<open>grow\<close> says whether \<open>rt_realloc\<close> succeeds, \<open>p\<close> is the result of \<open>rt_calloc\<close>.\<close>

definition fd_alloc :: "bool \<Rightarrow> nat \<Rightarrow> nat \<Rightarrow> dfs \<Rightarrow> nat \<times> dfs" where
  "fd_alloc grow p startfd d =
     (let idx = free_slot (drop startfd (df_tab d)) (df_fd d) startfd;
          maxfd = length (df_tab d);
          more = (idx = maxfd \<and> maxfd < DFS_FD_MAX)
      in if more \<and> \<not> grow then (idx, d)
         else let d = (if more
                       then let cnt = maxfd + 4; cnt = (if DFS_FD_MAX < cnt then DFS_FD_MAX else cnt)
                            in d\<lparr>df_tab := df_tab d @ replicate (cnt - maxfd) 0\<rparr>
                       else d)
              in if idx < length (df_tab d) \<and> df_tab d ! idx = 0
                 then if p = 0 then (length (df_tab d), d)
                      else (idx, d\<lparr>df_tab := (df_tab d)[idx := p], df_fd := (df_fd d)(p := no_fd)\<rparr>)
                 else (idx, d))"

definition fd_new :: "bool \<Rightarrow> nat \<Rightarrow> dfs \<Rightarrow> int \<times> dfs" where
  "fd_new grow p d =
     (let (idx, d) = fd_alloc grow p 0 d in
      if idx = length (df_tab d) then (- 1, d)
      else let q = df_tab d ! idx
           in (int idx + 3, d\<lparr>df_fd := (df_fd d)(q := (df_fd d q)\<lparr>fd_ref := 1, fd_magic := DFS_FD_MAGIC\<rparr>)\<rparr>))"

text \<open>0, 1 and 2 stand for the console's descriptor.\<close>

definition fd_get :: "int \<Rightarrow> int \<Rightarrow> dfs \<Rightarrow> nat \<times> dfs" where
  "fd_get console fd d =
     (let fd = (if 0 \<le> fd \<and> fd \<le> 2 then console else fd) - 3 in
      if fd < 0 \<or> int (length (df_tab d)) \<le> fd then (0, d)
      else let q = df_tab d ! nat fd
           in if q = 0 \<or> fd_magic (df_fd d q) \<noteq> DFS_FD_MAGIC then (0, d)
              else (q, d\<lparr>df_fd := (df_fd d)(q := (df_fd d q)\<lparr>fd_ref := int32 (fd_ref (df_fd d q) + 1)\<rparr>)\<rparr>))"

text \<open>The first entry of the table that holds the pointer is cleared.\<close>

fun clear_first :: "nat \<Rightarrow> nat list \<Rightarrow> nat list" where
  "clear_first q [] = []"
| "clear_first q (p # ps) = (if p = q then 0 # ps else p # clear_first q ps)"

definition fd_put :: "nat \<Rightarrow> dfs \<Rightarrow> dfs option" where
  "fd_put q d =
     (if q = 0 then None
      else let n = int32 (fd_ref (df_fd d q) - 1);
               d = d\<lparr>df_fd := (df_fd d)(q := (df_fd d q)\<lparr>fd_ref := n\<rparr>)\<rparr>
           in Some (if n = 0 then d\<lparr>df_tab := clear_first q (df_tab d)\<rparr> else d))"

definition fd_is_open :: "bool \<Rightarrow> string \<Rightarrow> dfs \<Rightarrow> int option" where
  "fd_is_open mem pathname d =
     (case normal_path mem d pathname of
        None \<Rightarrow> Some (- 1)
      | Some fullpath \<Rightarrow>
          (case dfs_filesystem_lookup fullpath d of
             None \<Rightarrow> Some (- 1)
           | Some i \<Rightarrow> do {
               mp \<leftarrow> fs_path (df_fs d ! i);
               let mountpath = (if mp = ''/'' then fullpath else drop (length mp) fullpath);
               Some (if \<exists>q \<in> set (df_tab d). q \<noteq> 0 \<and> fd_fops (df_fd d q) \<noteq> 0 \<and> fd_fs (df_fd d q) = Some i \<and>
                          fd_path (df_fd d q) = Some mountpath
                     then 0 else - 1) }))"

subsection \<open>Files through a descriptor\<close>

definition dfs_file_ioctl :: "nat \<Rightarrow> int \<Rightarrow> u64 \<Rightarrow> dfs \<Rightarrow> (fs_result \<times> dfs) option" where
  "dfs_file_ioctl q cmd args d =
     (if q = 0 then Some (Err EINVAL, d)
      else let f = df_fd d q in
        if fd_type f = FT_REGULAR \<and> cmd = F_GETFL then Some (Ret (sint (fd_flags f)), d)
        else if fd_type f = FT_REGULAR \<and> cmd = F_SETFL
        then let mask = O_NONBLOCK OR O_APPEND
             in Some (Ret 0, upd_fd q (\<lambda>f. f\<lparr>fd_flags := fd_flags f AND NOT mask OR (ucast args AND mask)\<rparr>) d)
        else do { ops \<leftarrow> fops_of q d;
                  Some (case fo_ioctl ops of
                          None \<Rightarrow> (Err ENOSYS, d)
                        | Some io \<Rightarrow> apfst Ret (call_fop q (io cmd (uint args)) d)) })"

definition dfs_file_read :: "nat \<Rightarrow> u64 \<Rightarrow> dfs \<Rightarrow> (fs_result \<times> dfs) option" where
  "dfs_file_read q len d =
     (if q = 0 then Some (Err EINVAL, d)
      else do {
        ops \<leftarrow> fops_of q d;
        case fo_read ops of
          None \<Rightarrow> Some (Err ENOSYS, d)
        | Some rd \<Rightarrow>
            let (result, d) = call_fop q (rd len) d
            in Some (Ret result, if result < 0 then upd_fd q (\<lambda>f. f\<lparr>fd_flags := fd_flags f OR DFS_F_EOF\<rparr>) d else d) })"

definition dfs_file_getdents :: "nat \<Rightarrow> u64 \<Rightarrow> dfs \<Rightarrow> (fs_result \<times> dfs) option" where
  "dfs_file_getdents q nbytes d =
     (if q = 0 \<or> fd_type (df_fd d q) \<noteq> FT_DIRECTORY then Some (Err EINVAL, d)
      else do { ops \<leftarrow> fops_of q d;
                Some (case fo_getdents ops of None \<Rightarrow> (Err ENOSYS, d) | Some gd \<Rightarrow> apfst Ret (call_fop q (gd nbytes) d)) })"

definition dfs_file_write :: "nat \<Rightarrow> u64 \<Rightarrow> dfs \<Rightarrow> (fs_result \<times> dfs) option" where
  "dfs_file_write q len d =
     (if q = 0 then Some (Err EINVAL, d)
      else do { ops \<leftarrow> fops_of q d;
                Some (case fo_write ops of None \<Rightarrow> (Err ENOSYS, d) | Some w \<Rightarrow> apfst Ret (call_fop q (w len) d)) })"

definition dfs_file_flush :: "nat \<Rightarrow> dfs \<Rightarrow> (fs_result \<times> dfs) option" where
  "dfs_file_flush q d =
     (if q = 0 then Some (Err EINVAL, d)
      else do { ops \<leftarrow> fops_of q d;
                Some (case fo_flush ops of None \<Rightarrow> (Err ENOSYS, d) | Some fl \<Rightarrow> apfst Ret (call_fop q fl d)) })"

definition dfs_file_lseek :: "nat \<Rightarrow> int \<Rightarrow> dfs \<Rightarrow> (fs_result \<times> dfs) option" where
  "dfs_file_lseek q offset d =
     (if q = 0 then Some (Err EINVAL, d)
      else do {
        ops \<leftarrow> fops_of q d;
        case fo_lseek ops of
          None \<Rightarrow> Some (Err ENOSYS, d)
        | Some sk \<Rightarrow>
            let (result, d) = call_fop q (sk offset) d
            in Some (Ret result, if 0 \<le> result then upd_fd q (\<lambda>f. f\<lparr>fd_pos := result\<rparr>) d else d) })"

definition dfs_file_ftruncate :: "nat \<Rightarrow> int \<Rightarrow> dfs \<Rightarrow> (fs_result \<times> dfs) option" where
  "dfs_file_ftruncate q len d =
     (if q = 0 \<or> fd_type (df_fd d q) \<noteq> FT_REGULAR \<or> len < 0 then Some (Err EINVAL, d)
      else do {
        ops \<leftarrow> fops_of q d;
        case fo_ioctl ops of
          None \<Rightarrow> Some (Err ENOSYS, d)
        | Some io \<Rightarrow>
            let (result, d) = call_fop q (io 0x52540000 len) d
            in Some (Ret result, if result = 0 then upd_fd q (\<lambda>f. f\<lparr>fd_size := len\<rparr>) d else d) })"

definition dfs_file_unlink :: "bool \<Rightarrow> bool \<Rightarrow> string \<Rightarrow> dfs \<Rightarrow> fs_result option" where
  "dfs_file_unlink mem mem2 path d =
     (case normal_path mem d path of
        None \<Rightarrow> Some (Err EINVAL)
      | Some fullpath \<Rightarrow>
          (case dfs_filesystem_lookup fullpath d of
             None \<Rightarrow> Some (Err ENOENT)
           | Some i \<Rightarrow> do {
               busy \<leftarrow> fd_is_open mem2 fullpath d;
               if busy = 0 then Some (Err EBUSY)
               else do {
                 ops \<leftarrow> fs_type (df_fs d ! i);
                 mp \<leftarrow> fs_path (df_fs d ! i);
                 Some (case op_unlink ops of
                         None \<Rightarrow> Err ENOSYS
                       | Some ul \<Rightarrow> Ret (ul i (if op_fullpath ops then fullpath else below_mount mp fullpath))) } }))"

text \<open>\<open>Ret 0\<close> for the root of a file system, whose attributes are made up.\<close>

definition dfs_file_stat :: "bool \<Rightarrow> string \<Rightarrow> dfs \<Rightarrow> fs_result option" where
  "dfs_file_stat mem path d =
     (case normal_path mem d path of
        None \<Rightarrow> Some (Ret (- 1))
      | Some fullpath \<Rightarrow>
          (case dfs_filesystem_lookup fullpath d of
             None \<Rightarrow> Some (Err ENOENT)
           | Some i \<Rightarrow> do {
               mp \<leftarrow> fs_path (df_fs d ! i);
               case dfs_subdir mp fullpath of
                 None \<Rightarrow> Some (Ret 0)
               | Some sub \<Rightarrow>
                   if fullpath = ''/'' then Some (Ret 0)
                   else do {
                     ops \<leftarrow> fs_type (df_fs d ! i);
                     Some (case op_stat ops of
                             None \<Rightarrow> Err ENOSYS
                           | Some st \<Rightarrow> Ret (st i (if op_fullpath ops then fullpath else sub))) } }))"

text \<open>When neither path lies in a mounted file system the null pointer is followed: \<open>None\<close>.\<close>

definition dfs_file_rename :: "bool \<Rightarrow> bool \<Rightarrow> string \<Rightarrow> string \<Rightarrow> dfs \<Rightarrow> fs_result option" where
  "dfs_file_rename mem mem2 oldpath newpath d =
     (case (normal_path mem d oldpath, normal_path mem2 d newpath) of
        (Some old, Some new) \<Rightarrow>
          let oldfs = dfs_filesystem_lookup old d; newfs = dfs_filesystem_lookup new d
          in if oldfs \<noteq> newfs then Some (Err EXDEV)
             else do {
               i \<leftarrow> oldfs;
               ops \<leftarrow> fs_type (df_fs d ! i);
               mp \<leftarrow> fs_path (df_fs d ! i);
               Some (case op_rename ops of
                       None \<Rightarrow> Err ENOSYS
                     | Some rn \<Rightarrow>
                         Ret (if op_fullpath ops then rn i (Some old) (Some new) else rn i (dfs_subdir mp old) (dfs_subdir mp new))) }
      | _ \<Rightarrow> Some (Err ENOENT))"

subsection \<open>Looking up the file system of a path\<close>

definition mounted :: "dfs_filesystem list \<Rightarrow> nat \<Rightarrow> string \<Rightarrow> bool" where
  "mounted fs i mp \<longleftrightarrow> i < length fs \<and> fs_path (fs ! i) = Some mp \<and> fs_type (fs ! i) \<noteq> None"

lemma mounted_Nil [simp]: "\<not> mounted [] i mp"
  by (simp add: mounted_def)

lemma mounted_Cons_0 [simp]: "mounted (f # fs) 0 mp \<longleftrightarrow> fs_path f = Some mp \<and> fs_type f \<noteq> None"
  by (simp add: mounted_def)

lemma mounted_Cons_Suc [simp]: "mounted (f # fs) (Suc i) mp \<longleftrightarrow> mounted fs i mp"
  by (simp add: mounted_def)

lemma ex_mounted_Cons: "(\<exists>j mp. mounted (f # fs) j mp \<and> P j mp) \<longleftrightarrow>
    (\<exists>mp. fs_path f = Some mp \<and> fs_type f \<noteq> None \<and> P 0 mp) \<or> (\<exists>j mp. mounted fs j mp \<and> P (Suc j) mp)"
  by (metis mounted_Cons_0 mounted_Cons_Suc not0_implies_Suc)

lemma all_mounted_Cons: "(\<forall>j mp. mounted (f # fs) j mp \<longrightarrow> P j mp) \<longleftrightarrow>
    (\<forall>mp. fs_path f = Some mp \<and> fs_type f \<noteq> None \<longrightarrow> P 0 mp) \<and> (\<forall>j mp. mounted fs j mp \<longrightarrow> P (Suc j) mp)"
  by (metis mounted_Cons_0 mounted_Cons_Suc not0_implies_Suc)

definition lookup_result :: "string \<Rightarrow> dfs_filesystem list \<Rightarrow> nat \<Rightarrow> nat \<Rightarrow> nat option \<Rightarrow> nat option \<Rightarrow> bool" where
  "lookup_result path fs i pl found r \<longleftrightarrow>
     r = found \<and> (\<forall>j mp. mounted fs j mp \<longrightarrow> fs_covers mp path \<longrightarrow> length mp < pl) \<or>
     (\<exists>j mp. mounted fs j mp \<and> r = Some (i + j) \<and> fs_covers mp path \<and> pl \<le> length mp \<and>
        (\<forall>k mq. mounted fs k mq \<longrightarrow> fs_covers mq path \<longrightarrow> length mq \<le> length mp))"

lemma lookup_loop_ok: "lookup_result path fs i pl found (lookup_loop path fs i pl found)"
proof (induction fs arbitrary: i pl found)
  case Nil
  then show ?case by (simp add: lookup_result_def)
next
  case (Cons f fs)
  show ?case
  proof (cases "\<exists>mp. fs_path f = Some mp \<and> fs_type f \<noteq> None \<and> fs_covers mp path \<and> pl \<le> length mp")
    case True
    then obtain mp where mp: "fs_path f = Some mp" "fs_type f \<noteq> None" "fs_covers mp path" "pl \<le> length mp" by blast
    have e: "lookup_loop path (f # fs) i pl found = lookup_loop path fs (i + 1) (length mp) (Some i)"
      using mp by (auto simp: fs_covers_def split: option.splits)
    from Cons.IH [of "i + 1" "length mp" "Some i"] show ?thesis unfolding e lookup_result_def ex_mounted_Cons all_mounted_Cons
      using mp by (auto intro: order_trans less_imp_le)
  next
    case False
    then have e: "lookup_loop path (f # fs) i pl found = lookup_loop path fs (i + 1) pl found"
      by (auto simp: fs_covers_def split: option.splits)
    have n: "\<forall>mp. fs_path f = Some mp \<and> fs_type f \<noteq> None \<longrightarrow> fs_covers mp path \<longrightarrow> length mp < pl" using False by auto
    from Cons.IH [of "i + 1" pl found, unfolded lookup_result_def] show ?thesis unfolding e
    proof (elim disjE exE conjE)
      fix j mp
      assume j: "mounted fs j mp" "lookup_loop path fs (i + 1) pl found = Some (i + 1 + j)" "fs_covers mp path" "pl \<le> length mp"
        "\<forall>k mq. mounted fs k mq \<longrightarrow> fs_covers mq path \<longrightarrow> length mq \<le> length mp"
      have "\<forall>k mq. mounted (f # fs) k mq \<longrightarrow> fs_covers mq path \<longrightarrow> length mq \<le> length mp"
        unfolding all_mounted_Cons using n j(4,5) by (meson less_le_trans less_imp_le)
      moreover have "mounted (f # fs) (Suc j) mp" using j(1) by simp
      ultimately show "lookup_result path (f # fs) i pl found (lookup_loop path fs (i + 1) pl found)"
        unfolding lookup_result_def using j(2,3,4) by (intro disjI2 exI [of _ "Suc j"] exI [of _ mp]) simp
    qed (use n in \<open>auto simp: lookup_result_def all_mounted_Cons\<close>)
  qed
qed

lemma lookup_ok:
  "(dfs_filesystem_lookup path d = None \<longleftrightarrow> \<not> (\<exists>i mp. mounted (df_fs d) i mp \<and> fs_covers mp path)) \<and>
   (dfs_filesystem_lookup path d = Some i \<longrightarrow>
      (\<exists>mp. mounted (df_fs d) i mp \<and> fs_covers mp path \<and>
        (\<forall>k mq. mounted (df_fs d) k mq \<longrightarrow> fs_covers mq path \<longrightarrow> length mq \<le> length mp)))"
  using lookup_loop_ok [of path "df_fs d" 0 0 None] by (auto simp: dfs_filesystem_lookup_def lookup_result_def)

subsection \<open>The descriptor table\<close>

definition fd_inv :: "dfs \<Rightarrow> bool" where
  "fd_inv d \<longleftrightarrow> length (df_tab d) \<le> DFS_FD_MAX \<and>
     (\<forall>i < length (df_tab d). \<forall>j < length (df_tab d). df_tab d ! i \<noteq> 0 \<longrightarrow> df_tab d ! i = df_tab d ! j \<longrightarrow> i = j) \<and>
     (\<forall>q \<in> set (df_tab d). q \<noteq> 0 \<longrightarrow> 1 \<le> fd_ref (df_fd d q) \<and> fd_ref (df_fd d q) < 2 ^ 31 \<and> fd_magic (df_fd d q) = DFS_FD_MAGIC)"

text \<open>The references held to each descriptor number, 0 for one that is not open.\<close>

definition fd_ptr :: "dfs \<Rightarrow> int \<Rightarrow> nat" where
  "fd_ptr d n = (if 3 \<le> n \<and> n - 3 < int (length (df_tab d)) then df_tab d ! nat (n - 3) else 0)"

definition fd_refs :: "dfs \<Rightarrow> int \<Rightarrow> int" where
  "fd_refs d n = (if fd_ptr d n = 0 then 0 else fd_ref (df_fd d (fd_ptr d n)))"

lemma free_slot_ok:
  "free_slot ps fd i \<le> i + length ps \<and> i \<le> free_slot ps fd i \<and>
   (\<forall>j. i \<le> j \<and> j < free_slot ps fd i \<longrightarrow> ps ! (j - i) \<noteq> 0 \<and> fd_ref (fd (ps ! (j - i))) \<noteq> 0) \<and>
   (free_slot ps fd i < i + length ps \<longrightarrow> ps ! (free_slot ps fd i - i) = 0 \<or> fd_ref (fd (ps ! (free_slot ps fd i - i))) = 0)"
proof (induction ps arbitrary: i)
  case (Cons p ps)
  show ?case
  proof (cases "p = 0 \<or> fd_ref (fd p) = 0")
    case False
    then show ?thesis using Cons.IH [of "i + 1"] by (auto simp: nth_Cons' Suc_le_eq)
  qed simp
qed simp

lemma fd_extend:
  assumes "fd_inv d" "length (df_tab d) + k \<le> DFS_FD_MAX"
  shows "fd_inv (d\<lparr>df_tab := df_tab d @ replicate k 0\<rparr>)" and "fd_refs (d\<lparr>df_tab := df_tab d @ replicate k 0\<rparr>) = fd_refs d"
proof -
  have z: "(df_tab d @ replicate k 0) ! i \<noteq> 0 \<Longrightarrow> i < length (df_tab d) \<and> (df_tab d @ replicate k 0) ! i = df_tab d ! i"
    if "i < length (df_tab d) + k" for i
    using that by (auto simp: nth_append split: if_splits)
  have "i = j" if "i < length (df_tab d) + k" "j < length (df_tab d) + k" "(df_tab d @ replicate k 0) ! i \<noteq> 0"
    "(df_tab d @ replicate k 0) ! i = (df_tab d @ replicate k 0) ! j" for i j
    using z [of i] z [of j] that assms(1) unfolding fd_inv_def by metis
  moreover have "\<forall>q \<in> set (df_tab d @ replicate k 0). q \<noteq> 0 \<longrightarrow> 1 \<le> fd_ref (df_fd d q) \<and> fd_ref (df_fd d q) < 2 ^ 31 \<and> fd_magic (df_fd d q) = DFS_FD_MAGIC"
    using assms(1) by (auto simp: fd_inv_def)
  ultimately show "fd_inv (d\<lparr>df_tab := df_tab d @ replicate k 0\<rparr>)" using assms(2) by (simp add: fd_inv_def del: set_append)
  show "fd_refs (d\<lparr>df_tab := df_tab d @ replicate k 0\<rparr>) = fd_refs d"
    by (rule ext) (auto simp: fd_refs_def fd_ptr_def nth_append)
qed

lemma fd_enter:
  assumes inv: "fd_inv d" and i: "i < length (df_tab d)" "df_tab d ! i = 0" and p: "p \<noteq> 0" "p \<notin> set (df_tab d)"
    and f: "fd_ref f = 1" "fd_magic f = DFS_FD_MAGIC"
  defines "d' \<equiv> d\<lparr>df_tab := (df_tab d)[i := p], df_fd := (df_fd d)(p := f)\<rparr>"
  shows "fd_inv d'" and "fd_refs d' = (fd_refs d)(int i + 3 := 1)" and "fd_ptr d' (int i + 3) = p" and "fd_refs d (int i + 3) = 0"
proof -
  have ne: "df_tab d ! j \<noteq> p" if "j < length (df_tab d)" for j using p(2) that by auto
  show "fd_inv d'"
  proof -
    have "1 \<le> fd_ref (df_fd d (df_tab d ! j)) \<and> fd_ref (df_fd d (df_tab d ! j)) < 2 ^ 31 \<and> fd_magic (df_fd d (df_tab d ! j)) = DFS_FD_MAGIC"
      if "j < length (df_tab d)" "df_tab d ! j \<noteq> 0" for j
      using inv that by (simp add: fd_inv_def)
    then show ?thesis using inv i p f ne unfolding fd_inv_def d'_def by (auto simp: nth_list_update in_set_conv_nth)
  qed
  show "fd_ptr d' (int i + 3) = p" using i by (simp add: fd_ptr_def d'_def)
  show "fd_refs d (int i + 3) = 0" using i by (simp add: fd_refs_def fd_ptr_def)
  show "fd_refs d' = (fd_refs d)(int i + 3 := 1)"
  proof
    fix n
    show "fd_refs d' n = ((fd_refs d)(int i + 3 := 1)) n"
    proof (cases "n = int i + 3")
      case True
      then show ?thesis using i p f by (simp add: fd_refs_def fd_ptr_def d'_def)
    next
      case False
      then have "fd_ptr d' n = fd_ptr d n" "fd_ptr d n \<noteq> p"
        using ne [of "nat (n - 3)"] p(1) by (auto simp: fd_ptr_def d'_def nth_list_update nat_less_iff)
      then show ?thesis using False by (simp add: fd_refs_def d'_def)
    qed
  qed
qed

lemma fd_alloc_ok:
  assumes inv: "fd_inv d" and p: "p = 0 \<or> p \<notin> set (df_tab d)" and e: "fd_alloc grow p 0 d = (i, d')"
  shows "i = length (df_tab d') \<and> fd_inv d' \<and> fd_refs d' = fd_refs d \<and>
           (p = 0 \<or> \<not> grow \<or> (\<forall>n. 3 \<le> n \<and> n < 3 + int DFS_FD_MAX \<longrightarrow> fd_refs d n \<noteq> 0)) \<or>
         (\<exists>d1. fd_inv d1 \<and> fd_refs d1 = fd_refs d \<and> p \<notin> set (df_tab d1) \<and> i < length (df_tab d1) \<and> df_tab d1 ! i = 0 \<and> p \<noteq> 0 \<and>
           d' = d1\<lparr>df_tab := (df_tab d1)[i := p], df_fd := (df_fd d1)(p := no_fd)\<rparr>) \<and>
         (\<forall>n. 3 \<le> n \<and> n < int i + 3 \<longrightarrow> fd_refs d n \<noteq> 0)"
proof -
  define k where "k = free_slot (df_tab d) (df_fd d) 0"
  have used: "df_tab d ! j \<noteq> 0" "fd_ref (df_fd d (df_tab d ! j)) \<noteq> 0" if "j < k" for j
    using free_slot_ok [of "df_tab d" "df_fd d" 0] that by (auto simp: k_def)
  have k: "k \<le> length (df_tab d)" "k < length (df_tab d) \<Longrightarrow> df_tab d ! k = 0"
    using free_slot_ok [of "df_tab d" "df_fd d" 0] inv by (auto simp: k_def [symmetric] fd_inv_def)
  have low: "\<forall>n. 3 \<le> n \<and> n < int k + 3 \<longrightarrow> fd_refs d n \<noteq> 0"
  proof (intro allI impI)
    fix n :: int
    assume "3 \<le> n \<and> n < int k + 3"
    then have "nat (n - 3) < k" "3 \<le> n" "n - 3 < int (length (df_tab d))" using k(1) by auto
    then show "fd_refs d n \<noteq> 0" using used [of "nat (n - 3)"] by (simp add: fd_refs_def fd_ptr_def)
  qed
  define more where "more \<longleftrightarrow> k = length (df_tab d) \<and> length (df_tab d) < DFS_FD_MAX"
  define c where "c = (if DFS_FD_MAX < length (df_tab d) + 4 then DFS_FD_MAX else length (df_tab d) + 4) - length (df_tab d)"
  define d1 where "d1 = (if more then d\<lparr>df_tab := df_tab d @ replicate c 0\<rparr> else d)"
  have a: "fd_alloc grow p 0 d = (if more \<and> \<not> grow then (k, d)
      else if k < length (df_tab d1) \<and> df_tab d1 ! k = 0
      then if p = 0 then (length (df_tab d1), d1) else (k, d1\<lparr>df_tab := (df_tab d1)[k := p], df_fd := (df_fd d1)(p := no_fd)\<rparr>)
      else (k, d1))"
    unfolding fd_alloc_def Let_def by (auto simp: k_def [symmetric] more_def [symmetric] d1_def c_def)
  have l: "length (df_tab d) \<le> DFS_FD_MAX" using inv by (simp add: fd_inv_def)
  have d1: "fd_inv d1 \<and> fd_refs d1 = fd_refs d"
    using fd_extend [OF inv, of c] inv l by (auto simp: d1_def c_def more_def)
  have all: "\<forall>n. 3 \<le> n \<and> n < 3 + int DFS_FD_MAX \<longrightarrow> fd_refs d n \<noteq> 0" if "k = length (df_tab d)" "\<not> more"
    using low that l by (auto simp: more_def)
  have s: "set (df_tab d1) \<subseteq> insert 0 (set (df_tab d))" by (auto simp: d1_def)
  have z: "k < length (df_tab d1) \<and> df_tab d1 ! k = 0" if "k < length (df_tab d) \<or> more"
    using that k l by (auto simp: d1_def more_def c_def nth_append)
  show ?thesis
  proof (cases "k < length (df_tab d) \<or> more")
    case True
    then show ?thesis using e a d1 z [OF True] low s p inv by (cases "more \<and> \<not> grow"; cases "p = 0") (auto simp: more_def)
  next
    case False
    then show ?thesis using e a d1 k(1) all inv by (auto simp: d1_def more_def)
  qed
qed

lemma fd_new_ok:
  assumes inv: "fd_inv d" and p: "p = 0 \<or> p \<notin> set (df_tab d)" and e: "fd_new grow p d = (n, d')"
  shows "fd_inv d' \<and>
    (n = - 1 \<and> fd_refs d' = fd_refs d \<and> (p = 0 \<or> \<not> grow \<or> (\<forall>n. 3 \<le> n \<and> n < 3 + int DFS_FD_MAX \<longrightarrow> fd_refs d n \<noteq> 0)) \<or>
     3 \<le> n \<and> fd_refs d n = 0 \<and> (\<forall>k. 3 \<le> k \<and> k < n \<longrightarrow> fd_refs d k \<noteq> 0) \<and> fd_refs d' = (fd_refs d)(n := 1) \<and> fd_ptr d' n = p)"
proof -
  obtain i d0 where a: "fd_alloc grow p 0 d = (i, d0)" by force
  show ?thesis using fd_alloc_ok [OF inv p a]
  proof (elim disjE)
    assume "i = length (df_tab d0) \<and> fd_inv d0 \<and> fd_refs d0 = fd_refs d \<and>
           (p = 0 \<or> \<not> grow \<or> (\<forall>n. 3 \<le> n \<and> n < 3 + int DFS_FD_MAX \<longrightarrow> fd_refs d n \<noteq> 0))"
    then show ?thesis using e a by (auto simp: fd_new_def Let_def)
  next
    assume "(\<exists>d1. fd_inv d1 \<and> fd_refs d1 = fd_refs d \<and> p \<notin> set (df_tab d1) \<and> i < length (df_tab d1) \<and> df_tab d1 ! i = 0 \<and> p \<noteq> 0 \<and>
           d0 = d1\<lparr>df_tab := (df_tab d1)[i := p], df_fd := (df_fd d1)(p := no_fd)\<rparr>) \<and>
         (\<forall>n. 3 \<le> n \<and> n < int i + 3 \<longrightarrow> fd_refs d n \<noteq> 0)"
    then obtain d1 where d1: "fd_inv d1" "fd_refs d1 = fd_refs d" "p \<notin> set (df_tab d1)" "i < length (df_tab d1)" "df_tab d1 ! i = 0" "p \<noteq> 0"
      "d0 = d1\<lparr>df_tab := (df_tab d1)[i := p], df_fd := (df_fd d1)(p := no_fd)\<rparr>" "\<forall>n. 3 \<le> n \<and> n < int i + 3 \<longrightarrow> fd_refs d n \<noteq> 0"
      by blast
    have "d' = d1\<lparr>df_tab := (df_tab d1)[i := p], df_fd := (df_fd d1)(p := no_fd\<lparr>fd_ref := 1, fd_magic := DFS_FD_MAGIC\<rparr>)\<rparr> \<and> n = int i + 3"
      using e a d1(4,7) by (auto simp: fd_new_def Let_def)
    then show ?thesis using fd_enter [OF d1(1,4,5,6,3), of "no_fd\<lparr>fd_ref := 1, fd_magic := DFS_FD_MAGIC\<rparr>"] d1(2,8) by simp
  qed
qed

lemma fd_invI:
  assumes "length (df_tab d) \<le> DFS_FD_MAX"
    and "\<And>i. i < length (df_tab d) \<Longrightarrow> df_tab d ! i \<noteq> 0 \<Longrightarrow>
           1 \<le> fd_ref (df_fd d (df_tab d ! i)) \<and> fd_ref (df_fd d (df_tab d ! i)) < 2 ^ 31 \<and> fd_magic (df_fd d (df_tab d ! i)) = DFS_FD_MAGIC"
    and "\<And>i j. i < length (df_tab d) \<Longrightarrow> j < length (df_tab d) \<Longrightarrow> df_tab d ! i \<noteq> 0 \<Longrightarrow> df_tab d ! i = df_tab d ! j \<Longrightarrow> i = j"
  shows "fd_inv d"
  unfolding fd_inv_def using assms by (simp add: all_set_conv_all_nth)

lemma fd_ptr_cases: "fd_ptr d n \<noteq> 0 \<Longrightarrow> \<exists>i < length (df_tab d). n = int i + 3 \<and> fd_ptr d n = df_tab d ! i"
  by (intro exI [of _ "nat (n - 3)"]) (auto simp: fd_ptr_def nat_less_iff split: if_splits)

lemma fd_ptr_inj: "fd_inv d \<Longrightarrow> fd_ptr d n \<noteq> 0 \<Longrightarrow> fd_ptr d n = fd_ptr d k \<Longrightarrow> n = k"
  using fd_ptr_cases [of d n] fd_ptr_cases [of d k] unfolding fd_inv_def by metis

lemma fd_ptr_in: "fd_ptr d n \<noteq> 0 \<Longrightarrow> fd_ptr d n \<in> set (df_tab d)"
  by (auto simp: fd_ptr_def nat_less_iff split: if_splits)

lemma fd_ptr_open: "fd_inv d \<Longrightarrow> fd_ptr d n \<noteq> 0 \<Longrightarrow>
  1 \<le> fd_refs d n \<and> fd_refs d n < 2 ^ 31 \<and> fd_magic (df_fd d (fd_ptr d n)) = DFS_FD_MAGIC"
  using fd_ptr_in [of d n] by (simp add: fd_inv_def fd_refs_def)

definition set_ref :: "nat \<Rightarrow> int \<Rightarrow> dfs \<Rightarrow> dfs" where
  "set_ref q r d = d\<lparr>df_fd := (df_fd d)(q := (df_fd d q)\<lparr>fd_ref := r\<rparr>)\<rparr>"

lemma fd_ptr_set [simp]: "fd_ptr (set_ref q r d) = fd_ptr d"
  by (rule ext) (simp add: fd_ptr_def set_ref_def)

lemma fd_refs_set: "fd_inv d \<Longrightarrow> fd_ptr d n \<noteq> 0 \<Longrightarrow> fd_refs (set_ref (fd_ptr d n) r d) = (fd_refs d)(n := r)"
proof
  fix k
  assume a: "fd_inv d" "fd_ptr d n \<noteq> 0"
  have e: "df_fd (set_ref (fd_ptr d n) r d) q = (if q = fd_ptr d n then (df_fd d q)\<lparr>fd_ref := r\<rparr> else df_fd d q)" for q
    by (simp add: set_ref_def)
  show "fd_refs (set_ref (fd_ptr d n) r d) k = ((fd_refs d)(n := r)) k"
  proof (cases "k = n")
    case False
    then have "fd_ptr d k \<noteq> fd_ptr d n" using fd_ptr_inj [OF a] by metis
    then show ?thesis using False by (simp add: fd_refs_def e)
  qed (use a in \<open>simp add: fd_refs_def e\<close>)
qed

lemma fd_inv_set: "fd_inv d \<Longrightarrow> 1 \<le> r \<Longrightarrow> r < 2 ^ 31 \<Longrightarrow> fd_inv (set_ref q r d)"
  by (auto simp: fd_inv_def set_ref_def)

lemma fd_get_ok:
  fixes console n :: int
  assumes "fd_inv d"
  defines "k \<equiv> if 0 \<le> n \<and> n \<le> 2 then console else n"
  shows "fd_get console n d = (if fd_ptr d k = 0 then (0, d) else (fd_ptr d k, set_ref (fd_ptr d k) (int32 (fd_refs d k + 1)) d))"
proof (cases "3 \<le> k \<and> k - 3 < int (length (df_tab d))")
  case True
  then have p: "fd_ptr d k = df_tab d ! nat (k - 3)" by (simp add: fd_ptr_def)
  show ?thesis using True fd_ptr_open [OF assms(1), of k] p
    by (auto simp: fd_get_def k_def [symmetric] Let_def set_ref_def fd_refs_def)
next
  case False
  then show ?thesis by (auto simp: fd_get_def k_def [symmetric] Let_def fd_ptr_def)
qed

lemma clear_first_update: "i < length ps \<Longrightarrow> ps ! i = q \<Longrightarrow> (\<forall>j < i. ps ! j \<noteq> q) \<Longrightarrow> clear_first q ps = ps[i := 0]"
proof (induction ps arbitrary: i)
  case (Cons p ps)
  then show ?case by (cases i) (auto simp: All_less_Suc2)
qed simp

lemma fd_put_ok:
  assumes inv: "fd_inv d" and n: "fd_ptr d n \<noteq> 0"
  shows "\<exists>d'. fd_put (fd_ptr d n) d = Some d' \<and> fd_inv d' \<and> fd_refs d' = (fd_refs d)(n := fd_refs d n - 1) \<and>
    fd_ptr d' = (if fd_refs d n = 1 then (fd_ptr d)(n := 0) else fd_ptr d)"
proof (cases "fd_refs d n = 1")
  case False
  have r: "1 \<le> fd_refs d n - 1" "fd_refs d n - 1 < 2 ^ 31" using False fd_ptr_open [OF inv n] by simp_all
  then have i32: "int32 (fd_refs d n - 1) = fd_refs d n - 1" by (intro int32_id) simp_all
  have "fd_put (fd_ptr d n) d = Some (set_ref (fd_ptr d n) (fd_refs d n - 1) d)"
    using n False i32 by (simp add: fd_put_def Let_def set_ref_def fd_refs_def)
  then show ?thesis using fd_inv_set [OF inv r] fd_refs_set [OF inv n] False by auto
next
  case True
  let ?q = "fd_ptr d n" and ?i = "nat (n - 3)"
  have i: "3 \<le> n" "n - 3 < int (length (df_tab d))" "?i < length (df_tab d)" "df_tab d ! ?i = ?q"
    using n by (auto simp: fd_ptr_def nat_less_iff split: if_splits)
  have u: "j = ?i" if "j < length (df_tab d)" "df_tab d ! j = ?q" for j
    using inv n i(3,4) that unfolding fd_inv_def by (metis (no_types))
  then have c: "clear_first ?q (df_tab d) = (df_tab d)[?i := 0]"
  proof (intro clear_first_update i allI impI)
    fix j
    assume "j < ?i"
    then show "df_tab d ! j \<noteq> ?q" using u [of j] i(3) by (metis less_irrefl less_trans)
  qed
  let ?d = "d\<lparr>df_tab := (df_tab d)[?i := 0], df_fd := (df_fd d)(?q := (df_fd d ?q)\<lparr>fd_ref := 0\<rparr>)\<rparr>"
  have "int32 0 = 0" by (rule int32_id) simp_all
  then have "fd_put ?q d = Some ?d" using n True c by (simp add: fd_put_def Let_def fd_refs_def)
  moreover have "fd_ptr ?d = (fd_ptr d)(n := 0)"
  proof
    fix k
    show "fd_ptr ?d k = ((fd_ptr d)(n := 0)) k"
    proof (cases "k = n")
      case False
      then have "3 \<le> k \<Longrightarrow> ?i \<noteq> nat (k - 3)" using i(1) by simp
      then show ?thesis using False by (auto simp: fd_ptr_def)
    qed (use i in \<open>simp add: fd_ptr_def\<close>)
  qed
  moreover have "fd_inv ?d"
  proof -
    have ne: "df_tab d ! j \<noteq> ?q" if "j < length (df_tab d)" "j \<noteq> ?i" for j using u that by blast
    have e: "df_tab ?d ! j = (if j = ?i then 0 else df_tab d ! j)" if "j < length (df_tab d)" for j
      using that by simp
    show ?thesis
    proof (rule fd_invI)
      fix a b
      assume ab: "a < length (df_tab ?d)" "b < length (df_tab ?d)" "df_tab ?d ! a \<noteq> 0" "df_tab ?d ! a = df_tab ?d ! b"
      then have "df_tab d ! a \<noteq> 0" "df_tab d ! a = df_tab d ! b" using e [of a] e [of b] by (auto split: if_splits)
      then show "a = b" using inv ab(1,2) by (simp add: fd_inv_def)
    next
      fix a
      assume a: "a < length (df_tab ?d)" "df_tab ?d ! a \<noteq> 0"
      then have x: "df_tab ?d ! a = df_tab d ! a" "a \<noteq> ?i" "a < length (df_tab d)" using e [of a] by (auto split: if_splits)
      then have "df_tab d ! a \<noteq> ?q" "df_tab d ! a \<noteq> 0" using ne a(2) by auto
      moreover from this x have "1 \<le> fd_ref (df_fd d (df_tab d ! a)) \<and> fd_ref (df_fd d (df_tab d ! a)) < 2 ^ 31 \<and> fd_magic (df_fd d (df_tab d ! a)) = DFS_FD_MAGIC"
        using inv by (simp add: fd_inv_def)
      ultimately show "1 \<le> fd_ref (df_fd ?d (df_tab ?d ! a)) \<and> fd_ref (df_fd ?d (df_tab ?d ! a)) < 2 ^ 31 \<and> fd_magic (df_fd ?d (df_tab ?d ! a)) = DFS_FD_MAGIC"
        unfolding x(1) by simp
    qed (use inv in \<open>simp add: fd_inv_def\<close>)
  qed
  moreover have "fd_refs ?d = (fd_refs d)(n := fd_refs d n - 1)"
  proof
    fix k
    have "fd_ptr d k \<noteq> ?q" if "k \<noteq> n" using fd_ptr_inj [OF inv n] that by metis
    then show "fd_refs ?d k = ((fd_refs d)(n := fd_refs d n - 1)) k"
      using True calculation(2) by (simp add: fd_refs_def)
  qed
  ultimately show ?thesis using True by auto
qed

text \<open>
  The states a client reaches that puts back only the references it holds, of which there are never more to one
  descriptor than its count can hold; the function counts what it holds.  \<open>p\<close> is the result of \<open>rt_calloc\<close>: 0, or
  memory that is not in use.
\<close>

inductive fd_run :: "dfs \<Rightarrow> (int \<Rightarrow> int) \<Rightarrow> bool" where
  start: "fd_run (dfs_init ops) (\<lambda>_. 0)"
| new: "fd_run d h \<Longrightarrow> p = 0 \<or> p \<notin> set (df_tab d) \<Longrightarrow> fd_new grow p d = (n, d') \<Longrightarrow> fd_run d' (if n < 0 then h else h(n := 1))"
| get: "fd_run d h \<Longrightarrow> 2 < n \<Longrightarrow> h n < 2 ^ 31 - 1 \<Longrightarrow> fd_get console n d = (q, d') \<Longrightarrow> fd_run d' (if q = 0 then h else h(n := h n + 1))"
| put: "fd_run d h \<Longrightarrow> 0 < h n \<Longrightarrow> fd_put (fd_ptr d n) d = Some d' \<Longrightarrow> fd_run d' (h(n := h n - 1))"

lemma fd_refs_ptr: "fd_inv d \<Longrightarrow> 0 < fd_refs d n \<longleftrightarrow> fd_ptr d n \<noteq> 0"
  using fd_ptr_open [of d n] by (auto simp: fd_refs_def)

lemma fd_run_ok: "fd_run d h \<Longrightarrow> fd_inv d \<and> fd_refs d = h"
proof (induction rule: fd_run.induct)
  case start
  show ?case by (simp add: fd_inv_def fd_refs_def fd_ptr_def dfs_init_def fun_eq_iff)
next
  case (new d h p grow n d')
  then show ?case using fd_new_ok [of d p grow n d'] by auto
next
  case (get d h n console q d')
  then have inv: "fd_inv d" "fd_refs d = h" by simp_all
  show ?case
  proof (cases "fd_ptr d n = 0")
    case True
    then show ?thesis using get fd_get_ok [OF inv(1), of console n] by simp
  next
    case False
    then have "q = fd_ptr d n" "d' = set_ref (fd_ptr d n) (int32 (fd_refs d n + 1)) d"
      using get fd_get_ok [OF inv(1), of console n] by auto
    moreover have "int32 (fd_refs d n + 1) = fd_refs d n + 1"
      using get(3) inv(2) fd_ptr_open [OF inv(1) False] by (intro int32_id) simp_all
    ultimately show ?thesis using False inv get(3) fd_inv_set [OF inv(1)] fd_refs_set [OF inv(1) False] fd_ptr_open [OF inv(1) False] by simp
  qed
next
  case (put d h n d')
  then have inv: "fd_inv d" "fd_refs d = h" "fd_ptr d n \<noteq> 0" using fd_refs_ptr [of d n] by auto
  then show ?case using put fd_put_ok [OF inv(1,3)] by auto
qed

subsection \<open>Mounting\<close>

lemma mounted_on_ok: "mounted_on path fs i = None \<longleftrightarrow> (\<forall>f \<in> set fs. fs_path f \<noteq> Some path)"
  by (induction fs arbitrary: i) auto

lemma mounted_on_update:
  "\<forall>f \<in> set fs. fs_path f \<noteq> Some path \<Longrightarrow> k < length fs \<Longrightarrow> fs_path f = Some path \<Longrightarrow> mounted_on path (fs[k := f]) i = Some (i + k)"
  by (induction fs arbitrary: i k) (auto split: nat.split)

lemma mount_scan_ok:
  "mount_scan path fs i slot = Some (s, b) \<Longrightarrow> s = slot \<or> (\<exists>k < length fs. s = Some (i + k) \<and> fs_type (fs ! k) = None)"
proof (induction path fs i slot rule: mount_scan.induct)
  case (2 path f fs i slot)
  show ?case
  proof (cases "fs_type f")
    case None
    then have "mount_scan path fs (i + 1) (if slot = None then Some i else slot) = Some (s, b)" using "2.prems" by simp
    from "2.IH"(1) [OF None this] show ?thesis
    proof
      assume "s = (if slot = None then Some i else slot)"
      then show ?thesis using None by (auto intro: exI [of _ 0] split: if_splits)
    next
      assume "\<exists>k < length fs. s = Some (i + 1 + k) \<and> fs_type (fs ! k) = None"
      then obtain k where "k < length fs" "s = Some (i + 1 + k)" "fs_type (fs ! k) = None" by blast
      then show ?thesis by (intro disjI2 exI [of _ "Suc k"]) simp
    qed
  next
    case (Some t)
    show ?thesis
    proof (cases "fs_path f = Some path \<or> fs_path f = None")
      case True
      then show ?thesis using "2.prems" Some by auto
    next
      case False
      then obtain mp where mp: "fs_path f = Some mp" "mp \<noteq> path" by auto
      then have "mount_scan path fs (i + 1) slot = Some (s, b)" using "2.prems" Some by simp
      from "2.IH"(2) [OF Some mp(1) mp(2) this] show ?thesis
      proof
        assume "\<exists>k < length fs. s = Some (i + 1 + k) \<and> fs_type (fs ! k) = None"
        then obtain k where "k < length fs" "s = Some (i + 1 + k)" "fs_type (fs ! k) = None" by blast
        then show ?thesis by (intro disjI2 exI [of _ "Suc k"]) simp
      qed simp
    qed
  qed
qed simp

text \<open>A successful mount fills one empty entry.\<close>

lemma mount_entry_ok:
  assumes "mount_entry dv v ops mnt path fullpath d = Some (0, d')"
  shows "\<exists>i < length (df_fs d). fs_type (df_fs d ! i) = None \<and>
    d' = d\<lparr>df_fs := (df_fs d)[i := \<lparr>fs_dev = v, fs_path = Some fullpath, fs_type = Some ops\<rparr>]\<rparr>"
proof -
  obtain slot b where s: "mount_scan path (df_fs d) 0 None = Some (slot, b)" "\<not> b"
    using assms by (auto simp: mount_entry_def bind_eq_Some_conv split: if_splits)
  then obtain i where "slot = Some i" "i < length (df_fs d)" "fs_type (df_fs d ! i) = None"
    using assms mount_scan_ok [OF s(1)] by (cases slot) (auto simp: mount_entry_def)
  then show ?thesis using assms s by (auto simp: mount_entry_def Let_def split: if_splits)
qed

lemma dfs_mount_ok:
  assumes "dfs_mount dv mem dup fd dev path ty d = Some (0, d')"
  obtains i fullpath v ops where "i < length (df_fs d)" "fs_type (df_fs d ! i) = None" "normal_path mem d path = Some fullpath"
    "find_type ty (df_types d) = Some ops"
    "d' = d\<lparr>df_fs := (df_fs d)[i := \<lparr>fs_dev = v, fs_path = Some fullpath, fs_type = Some ops\<rparr>]\<rparr>"
proof -
  obtain v ops mnt fullpath where o: "find_type ty (df_types d) = Some ops" "normal_path mem d path = Some fullpath"
    "mount_entry dv v ops mnt path fullpath d = Some (0, d')"
    using assms by (auto simp: dfs_mount_def Let_def bind_eq_Some_conv split: if_splits option.splits)
  then show thesis using mount_entry_ok [OF o(3)] that by blast
qed

lemma normal_path_fs [simp]: "normal_path mem (d\<lparr>df_fs := x\<rparr>) path = normal_path mem d path"
  by (simp add: normal_path_def)

lemma covers_self: "fs_covers mp mp"
  by (simp add: fs_covers_def)

lemma mount_unmount_ok:
  assumes m: "dfs_mount dv mem dup fd dev path ty d = Some (0, d')" and n: "normal_path mem d path = Some fullpath"
    and fresh: "\<forall>f \<in> set (df_fs d). fs_path f \<noteq> Some fullpath" and clear: "\<forall>f \<in> set (df_fs d). fs_type f = None \<longrightarrow> f = no_fs"
    and um: "find_type ty (df_types d) = Some ops" "op_unmount ops = Some u" "\<forall>i. 0 \<le> u i"
  shows "\<exists>i. dfs_filesystem_lookup fullpath d' = Some i \<and> fs_path (df_fs d' ! i) = Some fullpath \<and> fs_type (df_fs d' ! i) = Some ops \<and>
    dfs_unmount mem path d' = Some (0, d)"
proof -
  obtain i f where i: "i < length (df_fs d)" "fs_type (df_fs d ! i) = None" "fs_path f = Some fullpath" "fs_type f = Some ops"
    "d' = d\<lparr>df_fs := (df_fs d)[i := f]\<rparr>"
  proof -
    obtain i g v os where *: "i < length (df_fs d)" "fs_type (df_fs d ! i) = None" "normal_path mem d path = Some g"
      "find_type ty (df_types d) = Some os" "d' = d\<lparr>df_fs := (df_fs d)[i := \<lparr>fs_dev = v, fs_path = Some g, fs_type = Some os\<rparr>]\<rparr>"
      by (rule dfs_mount_ok [OF m])
    show thesis by (rule that [OF *(1,2) _ _ *(5)]) (use *(3,4) n um(1) in simp_all)
  qed
  have mt: "mounted (df_fs d') i fullpath" using i by (simp add: mounted_def)
  have uniq: "k = i" if k: "mounted (df_fs d') k fullpath" for k
    using k fresh i(1,5) by (cases "k = i") (auto simp: mounted_def)
  have "dfs_filesystem_lookup fullpath d' \<noteq> None" using lookup_ok [of fullpath d'] mt covers_self by blast
  then obtain j where j: "dfs_filesystem_lookup fullpath d' = Some j" by blast
  obtain mp where mp: "mounted (df_fs d') j mp" "fs_covers mp fullpath" "length fullpath \<le> length mp"
    using lookup_ok [of fullpath d' j] j mt covers_self by blast
  then have "mp = fullpath" by (simp add: fs_covers_def)
  then have "j = i" using uniq mp(1) by blast
  moreover have "normal_path mem d' path = Some fullpath" using n i(5) by simp
  moreover have "mounted_on fullpath (df_fs d') 0 = Some i" using mounted_on_update [OF fresh i(1,3), of 0] i(5) by simp
  moreover have "(df_fs d')[i := no_fs] = df_fs d" using clear i(1,2,5) by (metis list_update_id list_update_overwrite nth_mem dfs.select_convs(3) dfs.surjective dfs.update_convs(3))
  ultimately show ?thesis using i um(2,3) j by (simp add: dfs_unmount_def not_less)
qed

subsection \<open>Open files\<close>

lemma path_text_second: "\<forall>c \<in> set st. plain c \<Longrightarrow> cur (drop 1 (path_text True st)) \<noteq> CHR ''/''"
proof (cases st)
  case (Cons c cs)
  assume "\<forall>c \<in> set st. plain c"
  then obtain x xs where "c = x # xs" "x \<noteq> CHR ''/''" using Cons by (cases c) auto
  then show ?thesis using Cons by (cases cs) (simp_all add: path_text_def cur_def)
qed (simp add: path_text_def cur_def)

lemma below_mount_eq:
  assumes st: "\<forall>c \<in> set st. plain c" and c: "fs_covers mp (path_text True st)" and l: "length mp \<noteq> length (path_text True st)"
  shows "below_mount mp (path_text True st) = (if mp = ''/'' then path_text True st else drop (length mp) (path_text True st))"
proof -
  let ?p = "path_text True st"
  obtain r where r: "?p = mp @ r" using c by (metis append_take_drop_id fs_covers_def)
  have h: "\<exists>t. ?p = CHR ''/'' # t" by (simp add: path_text_def)
  have "r \<noteq> []" using l r by auto
  consider (root) "mp = ''/''" | (none) "mp = []" | (long) "1 < length mp" using h r by (cases mp; cases "tl mp") auto
  then show ?thesis
  proof cases
    case root
    have "cur r \<noteq> CHR ''/''" using path_text_second [OF st] r root by simp
    then show ?thesis using root r by (simp add: below_mount_def dfs_subdir_def)
  next
    case none
    then show ?thesis using h by (auto simp: below_mount_def dfs_subdir_def)
  next
    case long
    have "r ! 0 = CHR ''/''" using c long \<open>r \<noteq> []\<close> unfolding fs_covers_def r by (simp add: nth_append)
    then have "cur r = CHR ''/''" using \<open>r \<noteq> []\<close> by (cases r) (simp_all add: cur_def)
    then show ?thesis using long r l by (auto simp: below_mount_def dfs_subdir_def)
  qed
qed

lemma normal_path_same:
  assumes "\<forall>c \<in> set st. plain c"
  shows "normal_path True d (path_text True st) = Some (path_text True st)"
proof -
  let ?p = "path_text True st"
  have c: "cur ?p = CHR ''/''" by (simp add: path_text_def cur_def)
  have "components ?p = st" using components_path_text [of st] assms by blast
  then have "resolve (cur ?p = CHR ''/'') [] (components ?p) = Some (True, st)" using resolve_same [OF assms, of True "[]"] c by simp
  then have "map_option finish (norm [] ?p) = Some ?p" using norm_path [of ?p] by simp
  then show ?thesis using c by (simp add: normal_path_def full_path_def)
qed

text \<open>
  What the check relies on in a file system's \<open>open\<close> (and every one of the repository does): the descriptor keeps its
  path, its file system and a table of operations.
\<close>

definition open_keeps :: "fd_op \<Rightarrow> bool" where
  "open_keeps opn \<longleftrightarrow> (\<forall>f. fd_fops f \<noteq> 0 \<longrightarrow>
     fd_path (snd (opn f)) = fd_path f \<and> fd_fs (snd (opn f)) = fd_fs f \<and> fd_fops (snd (opn f)) \<noteq> 0)"

lemma fops_of_upd [simp]: "fops_of q (upd_fd q f d) = (if fd_fops (f (df_fd d q)) = 0 then None else Some (df_ops d (fd_fops (f (df_fd d q)))))"
  by (simp add: fops_of_def upd_fd_def Let_def)

lemma open_state:
  assumes o: "dfs_file_open mem True q path flags d = Some (Ret 0, d')" and n: "normal_path mem d path = Some p"
    and i: "dfs_filesystem_lookup p d = Some i" "fs_type (df_fs d ! i) = Some ops" "fs_path (df_fs d ! i) = Some mp"
    and q: "q \<noteq> 0" and k: "\<forall>opn. fo_open (df_ops d (op_fops ops)) = Some opn \<longrightarrow> open_keeps opn"
  shows "df_fs d' = df_fs d \<and> df_tab d' = df_tab d \<and> fd_fops (df_fd d' q) \<noteq> 0 \<and> fd_fs (df_fd d' q) = Some i \<and>
    fd_path (df_fd d' q) = Some (if op_fullpath ops then p else below_mount mp p)"
proof -
  let ?f = "(df_fd d q)\<lparr>fd_fs := Some i, fd_fops := op_fops ops, fd_type := FT_REGULAR, fd_flags := flags, fd_size := 0,
    fd_pos := 0, fd_data := i, fd_path := Some (if op_fullpath ops then p else below_mount mp p)\<rparr>"
  define d1 where "d1 = upd_fd q (\<lambda>_. ?f) d"
  have name: "(if op_fullpath ops then Some p else if True then Some (below_mount mp p) else None) =
      Some (if op_fullpath ops then p else below_mount mp p)" by simp
  have "dfs_file_open mem True q path flags d = do {
       fo \<leftarrow> fops_of q d1;
       case fo_open fo of
         None \<Rightarrow> Some (Err ENOSYS, upd_fd q (\<lambda>f. f\<lparr>fd_path := None\<rparr>) d1)
       | Some opn \<Rightarrow>
           let (result, d) = call_fop q opn d1
           in if result < 0 then Some (Ret result, upd_fd q (\<lambda>f. f\<lparr>fd_path := None\<rparr>) d)
              else let d = upd_fd q (\<lambda>f. f\<lparr>fd_flags := fd_flags f OR DFS_F_OPEN\<rparr>) d;
                       d = (if flags AND O_DIRECTORY \<noteq> 0
                            then upd_fd q (\<lambda>f. f\<lparr>fd_type := FT_DIRECTORY, fd_flags := fd_flags f OR DFS_F_DIRECTORY\<rparr>) d else d)
                   in Some (Ret 0, d) }"
    unfolding dfs_file_open_def using q n i by (simp add: name d1_def upd_fd_def Let_def cong: option.case_cong)
  note e = this [unfolded o]
  have f: "fops_of q d1 = (if op_fops ops = 0 then None else Some (df_ops d (op_fops ops)))"
    by (simp add: d1_def fops_of_def upd_fd_def Let_def)
  obtain opn where opn: "op_fops ops \<noteq> 0" "fo_open (df_ops d (op_fops ops)) = Some opn"
    using e by (auto simp: f split: option.splits if_splits)
  obtain r g where g: "opn ?f = (r, g)" by force
  have "open_keeps opn" using k opn(2) by blast
  from this [unfolded open_keeps_def, rule_format, of ?f]
  have kp: "fd_path g = Some (if op_fullpath ops then p else below_mount mp p)" "fd_fs g = Some i" "fd_fops g \<noteq> 0"
    using opn(1) by (simp_all add: g)
  have c: "call_fop q opn d1 = (r, upd_fd q (\<lambda>_. g) d1)" by (simp add: call_fop_def d1_def upd_fd_def g)
  from e have "\<not> r < 0" "d' = (let d = upd_fd q (\<lambda>f. f\<lparr>fd_flags := fd_flags f OR DFS_F_OPEN\<rparr>) (upd_fd q (\<lambda>_. g) d1)
      in if flags AND O_DIRECTORY \<noteq> 0
         then upd_fd q (\<lambda>f. f\<lparr>fd_type := FT_DIRECTORY, fd_flags := fd_flags f OR DFS_F_DIRECTORY\<rparr>) d else d)"
    by (simp_all add: f opn c Let_def split: if_splits)
  then show ?thesis using kp by (simp add: d1_def upd_fd_def Let_def)
qed

lemma open_busy:
  assumes o: "dfs_file_open mem True q path flags d = Some (Ret 0, d')" and q: "q \<in> set (df_tab d)" "q \<noteq> 0"
    and n: "normal_path mem d path = Some (path_text True st)" "\<forall>c \<in> set st. plain c"
    and i: "dfs_filesystem_lookup (path_text True st) d = Some i" "fs_type (df_fs d ! i) = Some ops" "fs_path (df_fs d ! i) = Some mp"
    and k: "\<forall>opn. fo_open (df_ops d (op_fops ops)) = Some opn \<longrightarrow> open_keeps opn"
    and p: "normal_path True d' path' = Some (path_text True st)"
    and seen: "op_fullpath ops \<longrightarrow> mp = ''/''" "mp = path_text True st \<longrightarrow> mp = ''/''"
  shows "dfs_file_unlink True True path' d' = Some (Err EBUSY)"
proof -
  let ?p = "path_text True st"
  have cv: "fs_covers mp ?p" using lookup_ok [of ?p d i] i(1,3) by (auto simp: mounted_def)
  have d': "df_fs d' = df_fs d" "df_tab d' = df_tab d" "fd_fops (df_fd d' q) \<noteq> 0" "fd_fs (df_fd d' q) = Some i"
    "fd_path (df_fd d' q) = Some (if op_fullpath ops then ?p else below_mount mp ?p)"
    using open_state [OF o n(1) i q(2) k] by simp_all
  have lk: "dfs_filesystem_lookup ?p d' = Some i" using i(1) d'(1) by (simp add: dfs_filesystem_lookup_def)
  have "(if op_fullpath ops then ?p else below_mount mp ?p) = (if mp = ''/'' then ?p else drop (length mp) ?p)"
  proof (cases "length mp = length ?p")
    case True
    then have "mp = ?p" using cv by (simp add: fs_covers_def)
    then show ?thesis using seen(2) by (auto simp: below_mount_def dfs_subdir_def)
  qed (use below_mount_eq [OF n(2) cv] seen(1) in auto)
  then have "fd_is_open True ?p d' = Some 0"
    using normal_path_same [OF n(2), of d'] lk i(3) d' q by (auto simp: fd_is_open_def Let_def)
  then show ?thesis using p lk by (simp add: dfs_file_unlink_def)
qed

text \<open>Without memory for its own copy of the path \<open>fd_is_open\<close> answers that the file is not open.\<close>

lemma unlink_no_memory:
  assumes "normal_path True d' path' = Some p" "dfs_filesystem_lookup p d' = Some i" "fs_type (df_fs d' ! i) = Some ops"
    "fs_path (df_fs d' ! i) = Some mp"
  shows "dfs_file_unlink True False path' d' = Some (case op_unlink ops of None \<Rightarrow> Err ENOSYS
     | Some ul \<Rightarrow> Ret (ul i (if op_fullpath ops then p else below_mount mp p)))"
proof -
  have "fd_is_open False p d' = Some (- 1)" by (simp add: fd_is_open_def normal_path_def)
  then show ?thesis using assms by (simp add: dfs_file_unlink_def)
qed

text \<open>A mount point that has been opened is not seen either: the descriptor holds \<open>/\<close>, the check looks for the empty path.\<close>

lemma open_mount_point_not_busy:
  assumes "normal_path True d' p = Some p" "dfs_filesystem_lookup p d' = Some i" "fs_path (df_fs d' ! i) = Some p" "p \<noteq> ''/''"
    and "\<forall>q \<in> set (df_tab d'). fd_fs (df_fd d' q) = Some i \<longrightarrow> fd_path (df_fd d' q) = Some (below_mount p p)"
  shows "fd_is_open True p d' = Some (- 1)"
  using assms by (auto simp: fd_is_open_def Let_def below_mount_def dfs_subdir_def)

text \<open>
  In a file system that takes whole paths the check does not see the open file: the descriptor holds the whole path,
  the check looks for the path below the mount point.
\<close>

lemma open_fullpath_not_busy:
  assumes "normal_path True d' p = Some p" "dfs_filesystem_lookup p d' = Some i" "fs_path (df_fs d' ! i) = Some mp" "mp \<noteq> ''/''" "mp \<noteq> []"
    and "\<forall>q \<in> set (df_tab d'). fd_fs (df_fd d' q) = Some i \<longrightarrow> fd_path (df_fd d' q) = Some p" "p \<noteq> []"
  shows "fd_is_open True p d' = Some (- 1)"
proof -
  have "drop (length mp) p \<noteq> p" using assms(5,7) by (metis diff_less length_drop length_greater_0_conv nat_neq_iff)
  then show ?thesis using assms by (auto simp: fd_is_open_def Let_def)
qed

subsection \<open>Properties\<close>

text \<open>The sample file system opens every file and notes a size; its table of operations is at the address 4.\<close>

definition sample_fops :: file_ops where
  "sample_fops = \<lparr>fo_open = Some (\<lambda>f. (0, f\<lparr>fd_size := 512\<rparr>)), fo_close = None, fo_ioctl = None, fo_read = None, fo_write = None,
     fo_flush = None, fo_lseek = None, fo_getdents = None\<rparr>"

definition sample_type :: fs_ops where
  "sample_type = \<lparr>op_name = ''elm'', op_fullpath = False, op_fops = 4, op_mount = Some (\<lambda>_. 0), op_unmount = Some (\<lambda>_. 0),
     op_mkfs = None, op_statfs = None, op_unlink = Some (\<lambda>_ _. 0), op_stat = None, op_rename = None\<rparr>"

definition sample_devices :: devices where
  "sample_devices = \<lparr>dev_find = (\<lambda>_. 0), dev_open = (\<lambda>_. 0)\<rparr>"

text \<open>One file system, mounted at \<open>/\<close>, and the descriptor 3 at address 8.\<close>

definition sample_dfs :: dfs where
  "sample_dfs = (let d = dfs_init (\<lambda>_. sample_fops) in d\<lparr>df_types := (df_types d)[0 := Some sample_type],
     df_fs := (df_fs d)[0 := \<lparr>fs_dev = 0, fs_path = Some ''/'', fs_type = Some sample_type\<rparr>],
     df_tab := [8, 0, 0, 0], df_fd := (\<lambda>_. no_fd\<lparr>fd_ref := 1, fd_magic := 0xfdfd\<rparr>)\<rparr>)"

text \<open>C19: In every state a client reaches that gives back only the references it holds, the descriptor table is well formed and counts
  exactly these references; a number that is held can be given back, and is free exactly when its last reference is; \<open>fd_get\<close> finds
  the numbers that are held and no others; \<open>fd_new\<close> gives the lowest free number, or fails and changes no count, which it does
  only when memory is short or all numbers are in use.\<close>

theorem fd_run_wf:
  assumes "fd_run d h"
  shows "fd_inv d \<and> fd_refs d = h \<and>
    (\<forall>n. 0 < h n \<longrightarrow> (\<exists>d'. fd_put (fd_ptr d n) d = Some d' \<and> fd_refs d' = h(n := h n - 1) \<and> (fd_ptr d' n = 0 \<longleftrightarrow> h n = 1))) \<and>
    (\<forall>n. 2 < n \<longrightarrow> (fst (fd_get console n d) \<noteq> 0 \<longleftrightarrow> 0 < h n)) \<and>
    (\<forall>grow p n d'. p = 0 \<or> p \<notin> set (df_tab d) \<longrightarrow> fd_new grow p d = (n, d') \<longrightarrow>
       n = - 1 \<and> fd_refs d' = h \<and> (p = 0 \<or> \<not> grow \<or> (\<forall>k. 3 \<le> k \<and> k < 67 \<longrightarrow> 0 < h k)) \<or>
       3 \<le> n \<and> h n = 0 \<and> (\<forall>k. 3 \<le> k \<and> k < n \<longrightarrow> 0 < h k) \<and> fd_refs d' = h(n := 1) \<and> fd_ptr d' n = p)"
proof -
  have inv: "fd_inv d" "fd_refs d = h" using fd_run_ok [OF assms] by simp_all
  have pos: "h k \<noteq> 0 \<longleftrightarrow> 0 < h k" for k using inv fd_ptr_open [OF inv(1), of k] by (cases "fd_ptr d k = 0") (auto simp: fd_refs_def)
  have put: "\<exists>d'. fd_put (fd_ptr d n) d = Some d' \<and> fd_refs d' = h(n := h n - 1) \<and> (fd_ptr d' n = 0 \<longleftrightarrow> h n = 1)" if "0 < h n" for n
    using fd_put_ok [OF inv(1), of n] fd_refs_ptr [OF inv(1), of n] inv(2) that by auto
  have get: "fst (fd_get console n d) \<noteq> 0 \<longleftrightarrow> 0 < h n" if "2 < n" for n
    using fd_get_ok [OF inv(1), of console n] fd_refs_ptr [OF inv(1), of n] inv(2) that by auto
  have new: "n = - 1 \<and> fd_refs d' = h \<and> (p = 0 \<or> \<not> grow \<or> (\<forall>k. 3 \<le> k \<and> k < 67 \<longrightarrow> 0 < h k)) \<or>
       3 \<le> n \<and> h n = 0 \<and> (\<forall>k. 3 \<le> k \<and> k < n \<longrightarrow> 0 < h k) \<and> fd_refs d' = h(n := 1) \<and> fd_ptr d' n = p"
    if "p = 0 \<or> p \<notin> set (df_tab d)" "fd_new grow p d = (n, d')" for grow p n d'
    using fd_new_ok [OF inv(1) that] unfolding inv(2) pos by simp
  show ?thesis by (intro conjI allI impI inv put get new)
qed

theorem fd_run_wf_witness:
  "\<exists>d d'. fd_new True 8 (dfs_init (\<lambda>_. sample_fops)) = (3, d) \<and> fd_refs d = (\<lambda>_. 0)(3 := 1) \<and> fd_put (fd_ptr d 3) d = Some d' \<and> fd_ptr d' 3 = 0"
proof -
  obtain n d where e: "fd_new True 8 (dfs_init (\<lambda>_. sample_fops)) = (n, d)" by force
  then have n: "n = 3" by (simp add: fd_new_def fd_alloc_def dfs_init_def Let_def eval_nat_numeral)
  have "8 = 0 \<or> 8 \<notin> set (df_tab (dfs_init (\<lambda>_. sample_fops)))" by (simp add: dfs_init_def)
  from fd_run.new [OF start this e] have r: "fd_run d ((\<lambda>_. 0)(3 := 1))" by (simp add: n)
  show ?thesis using fd_run_wf [OF r, of 0] e n by (auto dest: spec [of _ 3])
qed

text \<open>C20: The file system found for a path is one mounted on a path it starts with, up to a separator, and on the longest such;
  none is found exactly when there is none.\<close>

theorem dfs_lookup_longest:
  "(dfs_filesystem_lookup path d = None \<longleftrightarrow> \<not> (\<exists>i mp. mounted (df_fs d) i mp \<and> fs_covers mp path)) \<and>
   (dfs_filesystem_lookup path d = Some i \<longrightarrow>
      (\<exists>mp. mounted (df_fs d) i mp \<and> fs_covers mp path \<and>
        (\<forall>k mq. mounted (df_fs d) k mq \<longrightarrow> fs_covers mq path \<longrightarrow> length mq \<le> length mp)))"
  by (rule lookup_ok)

theorem dfs_lookup_longest_witness:
  "\<exists>mp. mounted (df_fs sample_dfs) 0 mp \<and> fs_covers mp ''/a''"
proof -
  have "dfs_filesystem_lookup ''/a'' sample_dfs = Some 0" by code_simp
  then show ?thesis using dfs_lookup_longest [of "''/a''" sample_dfs 0] by blast
qed

text \<open>C21: A path that has been mounted is found in the new file system, and unmounting it restores the mount table.\<close>

theorem dfs_mount_unmount:
  assumes "dfs_mount dv mem dup fd dev path ty d = Some (0, d')" "normal_path mem d path = Some fullpath"
    and "\<forall>f \<in> set (df_fs d). fs_path f \<noteq> Some fullpath" "\<forall>f \<in> set (df_fs d). fs_type f = None \<longrightarrow> f = no_fs"
    and "find_type ty (df_types d) = Some ops" "op_unmount ops = Some u" "\<forall>i. 0 \<le> u i"
  shows "\<exists>i. dfs_filesystem_lookup fullpath d' = Some i \<and> fs_path (df_fs d' ! i) = Some fullpath \<and> fs_type (df_fs d' ! i) = Some ops \<and>
    dfs_unmount mem path d' = Some (0, d)"
  by (rule mount_unmount_ok [OF assms])

theorem dfs_mount_unmount_witness:
  "\<exists>d'. dfs_mount sample_devices True True 1 None ''/sd/.'' ''elm'' sample_dfs = Some (0, d') \<and>
     dfs_unmount True ''/sd/.'' d' = Some (0, sample_dfs)"
proof -
  have n: "normal_path True sample_dfs ''/sd/.'' = Some ''/sd''" by code_simp
  have f: "\<forall>f \<in> set (df_fs sample_dfs). fs_path f \<noteq> Some ''/sd''" "\<forall>f \<in> set (df_fs sample_dfs). fs_type f = None \<longrightarrow> f = no_fs"
    by (simp_all add: sample_dfs_def Let_def dfs_init_def numeral_eq_Suc no_fs_def)
  have t: "find_type ''elm'' (df_types sample_dfs) = Some sample_type" "op_unmount sample_type = Some (\<lambda>_. 0)"
    by (simp_all add: sample_dfs_def Let_def dfs_init_def sample_type_def numeral_eq_Suc)
  have "map_option fst (dfs_mount sample_devices True True 1 None ''/sd/.'' ''elm'' sample_dfs) = Some 0"
    by code_simp
  then obtain d' where "dfs_mount sample_devices True True 1 None ''/sd/.'' ''elm'' sample_dfs = Some (0, d')"
    by auto
  with dfs_mount_unmount [OF this n f t] show ?thesis by auto
qed

text \<open>C22: A file that has been opened through a descriptor of the table cannot be unlinked by any name it has: \<open>-EBUSY\<close>; as
  long as \<open>fd_is_open\<close> has the memory for its copy of the path (without it the file system's \<open>unlink\<close> is called), the file
  system takes paths below its mount point or is mounted at the root, and the file is not itself a mount point.  The copy of
  the path for the descriptor was made, and the file system's \<open>open\<close> leaves path, file system and operations of the descriptor.\<close>

theorem open_file_not_unlinked:
  assumes "dfs_file_open mem True q path flags d = Some (Ret 0, d')" "q \<in> set (df_tab d)" "q \<noteq> 0"
    and "normal_path mem d path = Some (path_text True st)" "\<forall>c \<in> set st. plain c"
    and "dfs_filesystem_lookup (path_text True st) d = Some i" "fs_type (df_fs d ! i) = Some ops" "fs_path (df_fs d ! i) = Some mp"
    and "\<forall>opn. fo_open (df_ops d (op_fops ops)) = Some opn \<longrightarrow> open_keeps opn"
    and "normal_path True d' path' = Some (path_text True st)"
  shows "((op_fullpath ops \<longrightarrow> mp = ''/'') \<and> (mp = path_text True st \<longrightarrow> mp = ''/'') \<longrightarrow>
       dfs_file_unlink True True path' d' = Some (Err EBUSY)) \<and>
    dfs_file_unlink True False path' d' = Some (case op_unlink ops of None \<Rightarrow> Err ENOSYS
      | Some ul \<Rightarrow> Ret (ul i (if op_fullpath ops then path_text True st else below_mount mp (path_text True st))))"
proof -
  have "df_fs d' = df_fs d" using open_state [OF assms(1,4,6-8,3,9)] by simp
  then have "dfs_filesystem_lookup (path_text True st) d' = Some i" "fs_type (df_fs d' ! i) = Some ops" "fs_path (df_fs d' ! i) = Some mp"
    using assms(6-8) by (simp_all add: dfs_filesystem_lookup_def)
  with open_busy [OF assms] unlink_no_memory [OF assms(10)] show ?thesis by simp
qed

theorem open_file_not_unlinked_witness:
  "\<exists>d'. dfs_file_open True True 8 ''/x/../a'' 0 sample_dfs = Some (Ret 0, d') \<and>
     dfs_file_unlink True True ''/a/b/..'' d' = Some (Err EBUSY) \<and> dfs_file_unlink True False ''/a/b/..'' d' = Some (Ret 0)"
proof -
  have n: "normal_path True sample_dfs ''/x/../a'' = Some (path_text True [''a''])" by code_simp
  have l: "dfs_filesystem_lookup (path_text True [''a'']) sample_dfs = Some 0" by code_simp
  have f: "fs_type (df_fs sample_dfs ! 0) = Some sample_type" "fs_path (df_fs sample_dfs ! 0) = Some ''/''" "8 \<in> set (df_tab sample_dfs)"
    by (simp_all add: sample_dfs_def Let_def dfs_init_def)
  have ops: "df_ops sample_dfs 4 = sample_fops" "op_fops sample_type = 4"
    by (simp_all add: sample_dfs_def Let_def dfs_init_def sample_type_def)
  have k: "\<forall>opn. fo_open (df_ops sample_dfs (op_fops sample_type)) = Some opn \<longrightarrow> open_keeps opn"
    by (simp add: ops sample_fops_def open_keeps_def)
  obtain d' where d': "dfs_file_open True True 8 ''/x/../a'' 0 sample_dfs = Some (Ret 0, d')" "df_wd d' = df_wd sample_dfs"
    using ops by (simp add: dfs_file_open_def n l f Let_def call_fop_def upd_fd_def fops_of_def)
      (simp add: sample_fops_def call_fop_def upd_fd_def Let_def)
  have p: "normal_path True d' ''/a/b/..'' = Some (path_text True [''a''])"
    unfolding normal_path_def d'(2) by code_simp
  from open_file_not_unlinked [OF d'(1) f(3) _ n _ l f(1,2) k p] show ?thesis
    using d'(1) by (auto simp: sample_type_def path_text_def)
qed

end
