(* ===== verification/DataQueue.thy ===== *)
theory DataQueue
  imports Mailbox
begin

section \<open>Data queues (\<open>components/drivers/src/dataqueue.c\<close>)\<close>

text \<open>
  A circular buffer of pointers with their sizes, for drivers; its indices are bit fields of 15 bits.
  The list of the threads that wait to pop from the queue at address \<open>a\<close> is \<open>Suspend a\<close>, that of those that
  wait to push \<open>SuspendSender a\<close>.  \<open>evt_notify\<close> is the argument \<open>notify_fn\<close> of the operations (\<open>None\<close> for
  \<open>RT_NULL\<close>); the kernel's operations on threads are those of theory \<open>Kernel\<close>.
\<close>

type_synonym u15 = "15 word"

record rt_data_item =
  di_ptr :: u64
  di_size :: u64

record rt_data_queue =
  dq_magic :: u32
  dq_size :: u16
  dq_lwm :: u16
  dq_get_index :: u15
  dq_is_empty :: bool
  dq_put_index :: u15
  dq_is_full :: bool
  dq_queue :: "rt_data_item list"

abbreviation (input) DATAQUEUE_MAGIC :: u32 where "DATAQUEUE_MAGIC \<equiv> 0xbead0e0e"
abbreviation (input) RT_DATAQUEUE_EVENT_POP :: u32 where "RT_DATAQUEUE_EVENT_POP \<equiv> 1"
abbreviation (input) RT_DATAQUEUE_EVENT_PUSH :: u32 where "RT_DATAQUEUE_EVENT_PUSH \<equiv> 2"
abbreviation (input) RT_DATAQUEUE_EVENT_LWM :: u32 where "RT_DATAQUEUE_EVENT_LWM \<equiv> 3"

type_synonym evt_notify = "(u32 \<Rightarrow> rt_data_queue \<Rightarrow> kernel \<Rightarrow> (rt_data_queue \<times> kernel) option) option"

text \<open>
  How far a call has come: it returns, it waits, or it has called \<open>rt_schedule\<close> and will, when the
  thread runs again, notify and return.
\<close>

datatype 'r progress = Returns 'r | Blocked | Notifies 'r

text \<open>\<open>pool\<close> is what \<open>rt_malloc\<close> gives.\<close>

definition rt_data_queue_init :: "nat \<Rightarrow> u16 \<Rightarrow> u16 \<Rightarrow> rt_data_item list option \<Rightarrow> kernel \<Rightarrow> (rt_err \<times> rt_data_queue \<times> kernel) option" where
  "rt_data_queue_init a sz lwm pool k =
     do { rt_assert (a \<noteq> 0);
          rt_assert (0 < sz);
          let q = \<lparr>dq_magic = DATAQUEUE_MAGIC, dq_size = sz, dq_lwm = lwm, dq_get_index = 0, dq_is_empty = True,
                   dq_put_index = 0, dq_is_full = False, dq_queue = []\<rparr>;
          let k = senders_init a (on_s (upd_list (Suspend a) (\<lambda>_. [])) k);
          Some (case pool of None \<Rightarrow> (- RT_ENOMEM, q, k) | Some p \<Rightarrow> (RT_EOK, q\<lparr>dq_queue := p\<rparr>, k)) }"

text \<open>\<open>index += 1; if (index == size) index = 0\<close>.\<close>

definition dq_advance :: "u16 \<Rightarrow> u15 \<Rightarrow> u15" where
  "dq_advance sz i = (let i = i + 1 in if ucast i = sz then 0 else i)"

definition dq_put :: "rt_data_item \<Rightarrow> rt_data_queue \<Rightarrow> rt_data_queue option" where
  "dq_put it q =
     do { rt_assert (unat (dq_put_index q) < length (dq_queue q));
          let q = q\<lparr>dq_queue := (dq_queue q)[unat (dq_put_index q) := it]\<rparr>;
          let q = q\<lparr>dq_put_index := dq_advance (dq_size q) (dq_put_index q), dq_is_empty := False\<rparr>;
          Some (if dq_put_index q = dq_get_index q then q\<lparr>dq_is_full := True\<rparr> else q) }"

definition dq_get :: "rt_data_queue \<Rightarrow> (rt_data_item \<times> rt_data_queue) option" where
  "dq_get q =
     do { rt_assert (unat (dq_get_index q) < length (dq_queue q));
          let it = dq_queue q ! unat (dq_get_index q);
          let q = q\<lparr>dq_get_index := dq_advance (dq_size q) (dq_get_index q), dq_is_full := False\<rparr>;
          Some (it, if dq_put_index q = dq_get_index q then q\<lparr>dq_is_empty := True\<rparr> else q) }"

text \<open>\<open>len\<close> is an \<open>rt_int16_t\<close> returned as an \<open>rt_uint16_t\<close>.\<close>

definition rt_data_queue_len :: "rt_data_queue \<Rightarrow> u16 option" where
  "rt_data_queue_len q =
     do { rt_assert (dq_magic q = DATAQUEUE_MAGIC);
          Some (if dq_is_empty q then 0
                else if dq_get_index q < dq_put_index q then ucast (dq_put_index q) - ucast (dq_get_index q)
                else dq_size q + ucast (dq_put_index q) - ucast (dq_get_index q)) }"

definition dq_notify :: "evt_notify \<Rightarrow> u32 \<Rightarrow> rt_data_queue \<Rightarrow> kernel \<Rightarrow> (rt_data_queue \<times> kernel) option" where
  "dq_notify notify_fn e q k = (case notify_fn of None \<Rightarrow> Some (q, k) | Some f \<Rightarrow> f e q k)"

text \<open>The wait of thread \<open>t\<close> on the list \<open>h\<close> of the queue.\<close>

definition dq_wait :: "nat \<Rightarrow> lhead \<Rightarrow> nat \<Rightarrow> int \<Rightarrow> kernel \<Rightarrow> kernel option" where
  "dq_wait c h t timeout k =
     do { not_in_interrupt c k;
          k \<leftarrow> ipc_wait c h t RT_IPC_FLAG_FIFO timeout (set_error t RT_EOK k);
          kschedule c k }"

text \<open>One turn of the loop of \<open>rt_data_queue_push\<close>.\<close>

definition dq_push_turn ::
    "nat \<Rightarrow> nat \<Rightarrow> evt_notify \<Rightarrow> nat \<Rightarrow> rt_data_item \<Rightarrow> int \<Rightarrow> rt_data_queue \<Rightarrow> kernel \<Rightarrow> (rt_err progress \<times> rt_data_queue \<times> kernel) option" where
  "dq_push_turn c a notify_fn t it timeout q k =
     (if dq_is_full q
      then if timeout = 0 then Some (Returns (- RT_ETIMEOUT), q, k)
           else do { k \<leftarrow> dq_wait c (SuspendSender a) t timeout k; Some (Blocked, q, k) }
      else do {
        q \<leftarrow> dq_put it q;
        (if s_list (k_s k) (Suspend a) \<noteq> []
         then do { k \<leftarrow> ipc_list_resume c (Suspend a) k; k \<leftarrow> kschedule c k; Some (Returns RT_EOK, q, k) }
         else do { (q, k) \<leftarrow> dq_notify notify_fn RT_DATAQUEUE_EVENT_PUSH q k; Some (Returns RT_EOK, q, k) }) })"

definition rt_data_queue_push ::
    "nat \<Rightarrow> nat \<Rightarrow> evt_notify \<Rightarrow> rt_data_item \<Rightarrow> int \<Rightarrow> rt_data_queue \<Rightarrow> kernel \<Rightarrow> (rt_err progress \<times> rt_data_queue \<times> kernel) option" where
  "rt_data_queue_push c a notify_fn it timeout q k =
     do { rt_assert (a \<noteq> 0);
          rt_assert (dq_magic q = DATAQUEUE_MAGIC);
          dq_push_turn c a notify_fn (rt_thread_self c k) it timeout q k }"

definition rt_data_queue_push_resumed ::
    "nat \<Rightarrow> nat \<Rightarrow> evt_notify \<Rightarrow> nat \<Rightarrow> rt_data_item \<Rightarrow> int \<Rightarrow> rt_data_queue \<Rightarrow> kernel \<Rightarrow> (rt_err progress \<times> rt_data_queue \<times> kernel) option" where
  "rt_data_queue_push_resumed c a notify_fn t it timeout q k =
     (if th_error (thread k t) \<noteq> RT_EOK then Some (Returns (th_error (thread k t)), q, k)
      else dq_push_turn c a notify_fn t it timeout q k)"

text \<open>One turn of the loop of \<open>rt_data_queue_pop\<close>, with the item it yields.\<close>

definition dq_pop_turn ::
    "nat \<Rightarrow> nat \<Rightarrow> evt_notify \<Rightarrow> nat \<Rightarrow> int \<Rightarrow> rt_data_queue \<Rightarrow> kernel \<Rightarrow>
     ((rt_err \<times> rt_data_item option) progress \<times> rt_data_queue \<times> kernel) option" where
  "dq_pop_turn c a notify_fn t timeout q k =
     (if dq_is_empty q
      then if timeout = 0 then Some (Returns (- RT_ETIMEOUT, None), q, k)
           else do { k \<leftarrow> dq_wait c (Suspend a) t timeout k; Some (Blocked, q, k) }
      else do {
        (it, q) \<leftarrow> dq_get q;
        len \<leftarrow> rt_data_queue_len q;
        (if len \<le> dq_lwm q
         then if s_list (k_s k) (SuspendSender a) \<noteq> []
              then do { k \<leftarrow> ipc_list_resume c (SuspendSender a) k; k \<leftarrow> kschedule c k; Some (Notifies (RT_EOK, Some it), q, k) }
              else do { (q, k) \<leftarrow> dq_notify notify_fn RT_DATAQUEUE_EVENT_LWM q k; Some (Returns (RT_EOK, Some it), q, k) }
         else do { (q, k) \<leftarrow> dq_notify notify_fn RT_DATAQUEUE_EVENT_POP q k; Some (Returns (RT_EOK, Some it), q, k) }) })"

definition rt_data_queue_pop ::
    "nat \<Rightarrow> nat \<Rightarrow> evt_notify \<Rightarrow> int \<Rightarrow> rt_data_queue \<Rightarrow> kernel \<Rightarrow>
     ((rt_err \<times> rt_data_item option) progress \<times> rt_data_queue \<times> kernel) option" where
  "rt_data_queue_pop c a notify_fn timeout q k =
     do { rt_assert (a \<noteq> 0);
          rt_assert (dq_magic q = DATAQUEUE_MAGIC);
          dq_pop_turn c a notify_fn (rt_thread_self c k) timeout q k }"

definition rt_data_queue_pop_resumed ::
    "nat \<Rightarrow> nat \<Rightarrow> evt_notify \<Rightarrow> nat \<Rightarrow> int \<Rightarrow> rt_data_queue \<Rightarrow> kernel \<Rightarrow>
     ((rt_err \<times> rt_data_item option) progress \<times> rt_data_queue \<times> kernel) option" where
  "rt_data_queue_pop_resumed c a notify_fn t timeout q k =
     (if th_error (thread k t) \<noteq> RT_EOK then Some (Returns (th_error (thread k t), None), q, k)
      else dq_pop_turn c a notify_fn t timeout q k)"

text \<open>The rest of a pop that has woken a pusher.\<close>

definition rt_data_queue_pop_notify :: "evt_notify \<Rightarrow> rt_data_queue \<Rightarrow> kernel \<Rightarrow> (rt_data_queue \<times> kernel) option" where
  "rt_data_queue_pop_notify notify_fn q k = dq_notify notify_fn RT_DATAQUEUE_EVENT_LWM q k"

definition rt_data_queue_peek :: "rt_data_queue \<Rightarrow> (rt_err \<times> rt_data_item option) option" where
  "rt_data_queue_peek q =
     do { rt_assert (dq_magic q = DATAQUEUE_MAGIC);
          (if dq_is_empty q then Some (- RT_EEMPTY, None)
           else do { rt_assert (unat (dq_get_index q) < length (dq_queue q));
                     Some (RT_EOK, Some (dq_queue q ! unat (dq_get_index q))) }) }"

definition rt_data_queue_reset :: "nat \<Rightarrow> nat \<Rightarrow> rt_data_queue \<Rightarrow> kernel \<Rightarrow> (rt_data_queue \<times> kernel) option" where
  "rt_data_queue_reset c a q k =
     do { rt_assert (a \<noteq> 0);
          rt_assert (dq_magic q = DATAQUEUE_MAGIC);
          let q = q\<lparr>dq_get_index := 0, dq_put_index := 0, dq_is_empty := True, dq_is_full := False\<rparr>;
          k \<leftarrow> lift_s (rt_enter_critical c) k;
          k \<leftarrow> ipc_list_resume_all c (Suspend a) k;
          k \<leftarrow> ipc_list_resume_all c (SuspendSender a) k;
          k \<leftarrow> lift_s (rt_exit_critical c) k;
          k \<leftarrow> kschedule c k;
          Some (q, k) }"

text \<open>The block of items is freed: it is no longer there.\<close>

definition rt_data_queue_deinit :: "nat \<Rightarrow> nat \<Rightarrow> rt_data_queue \<Rightarrow> kernel \<Rightarrow> (rt_err \<times> rt_data_queue \<times> kernel) option" where
  "rt_data_queue_deinit c a q k =
     do { (q, k) \<leftarrow> rt_data_queue_reset c a q k;
          Some (RT_EOK, q\<lparr>dq_magic := 0, dq_queue := []\<rparr>, k) }"

subsection \<open>The queue as a bounded list\<close>

definition dq_length :: "rt_data_queue \<Rightarrow> nat" where
  "dq_length q = (if dq_is_empty q then 0
     else if unat (dq_get_index q) < unat (dq_put_index q) then unat (dq_put_index q) - unat (dq_get_index q)
     else unat (dq_size q) + unat (dq_put_index q) - unat (dq_get_index q))"

definition dq_wf :: "rt_data_queue \<Rightarrow> bool" where
  "dq_wf q \<longleftrightarrow> dq_magic q = DATAQUEUE_MAGIC \<and> 0 < unat (dq_size q) \<and> unat (dq_size q) \<le> 32768 \<and>
     unat (dq_size q) \<le> length (dq_queue q) \<and>
     unat (dq_get_index q) < unat (dq_size q) \<and> unat (dq_put_index q) < unat (dq_size q) \<and>
     (dq_get_index q = dq_put_index q \<longleftrightarrow> dq_is_empty q \<or> dq_is_full q) \<and> \<not> (dq_is_empty q \<and> dq_is_full q)"

definition dq_list :: "rt_data_queue \<Rightarrow> rt_data_item list" where
  "dq_list q = circ (dq_queue q) (unat (dq_size q)) (unat (dq_get_index q)) (dq_length q)"

lemma dq_advance_ok:
  assumes "unat i < unat sz" "unat sz \<le> 32768"
  shows "unat (dq_advance sz i) = (unat i + 1) mod unat sz"
proof -
  have b: "unat i < 32768" using unsigned_less [of i] by simp
  show ?thesis
  proof (cases "unat i = 32767")
    case True
    then have "i + 1 = 0" by (simp add: word_unat_eq_iff unat_word_ariths)
    moreover have "unat sz = 32768" using True assms by simp
    ultimately show ?thesis using True by (simp add: dq_advance_def Let_def)
  next
    case False
    then have u: "unat (i + 1) = unat i + 1" using b by (simp add: unat_word_ariths)
    have "unat (ucast (i + 1) :: u16) = unat i + 1" using u b by (simp add: unat_ucast_up)
    then have "ucast (i + 1) = sz \<longleftrightarrow> unat i + 1 = unat sz" by (simp add: word_unat_eq_iff)
    then show ?thesis using u assms by (simp add: dq_advance_def Let_def)
  qed
qed

text \<open>The well-formedness of the indices and flags as a statement on numbers.\<close>

definition indices_ok :: "nat \<Rightarrow> nat \<Rightarrow> nat \<Rightarrow> bool \<Rightarrow> bool \<Rightarrow> bool" where
  "indices_ok n g p e f \<longleftrightarrow> 0 < n \<and> n \<le> 32768 \<and> g < n \<and> p < n \<and> (g = p \<longleftrightarrow> e \<or> f) \<and> \<not> (e \<and> f)"

definition fill :: "nat \<Rightarrow> nat \<Rightarrow> nat \<Rightarrow> bool \<Rightarrow> nat" where
  "fill n g p e = (if e then 0 else if g < p then p - g else n + p - g)"

lemma fill_ok:
  assumes "indices_ok n g p e f"
  shows "p = (g + fill n g p e) mod n" "fill n g p e \<le> n" "f \<longleftrightarrow> fill n g p e = n" "e \<longleftrightarrow> fill n g p e = 0"
  using assms by (auto simp: indices_ok_def fill_def mod_if not_less)

abbreviation dq_idx :: "rt_data_queue \<Rightarrow> bool" where
  "dq_idx q \<equiv> indices_ok (unat (dq_size q)) (unat (dq_get_index q)) (unat (dq_put_index q)) (dq_is_empty q) (dq_is_full q)"

lemma dq_wf_idx: "dq_wf q \<longleftrightarrow> dq_magic q = DATAQUEUE_MAGIC \<and> unat (dq_size q) \<le> length (dq_queue q) \<and> dq_idx q"
  unfolding dq_wf_def indices_ok_def word_unat_eq_iff [of "dq_get_index q" "dq_put_index q"] by blast

lemma dq_length_fill: "dq_length q = fill (unat (dq_size q)) (unat (dq_get_index q)) (unat (dq_put_index q)) (dq_is_empty q)"
  unfolding dq_length_def fill_def ..

lemma dq_put_eq: "dq_wf q \<Longrightarrow> unat (dq_put_index q) = (unat (dq_get_index q) + dq_length q) mod unat (dq_size q)"
  and dq_length_bound: "dq_wf q \<Longrightarrow> dq_length q \<le> unat (dq_size q)"
  and dq_full_iff: "dq_wf q \<Longrightarrow> dq_is_full q \<longleftrightarrow> dq_length q = unat (dq_size q)"
  and dq_empty_iff: "dq_wf q \<Longrightarrow> dq_is_empty q \<longleftrightarrow> dq_length q = 0"
  unfolding dq_wf_idx dq_length_fill using fill_ok by blast+

lemma mod_add_eq_len:
  fixes i j n :: nat
  assumes "i \<le> n" "j \<le> n" "0 < i" "0 < j" "(r + i) mod n = (r + j) mod n"
  shows "i = j"
proof -
  have "(r + 1 + (i - 1)) mod n = (r + 1 + (j - 1)) mod n" using assms(3-5) by simp
  then have "i - 1 = j - 1" using assms(1-4) by (intro mod_add_inj [of "i - 1" n "j - 1" "r + 1"]) auto
  then show ?thesis using assms(3,4) by simp
qed

lemma dq_list_length [simp]: "length (dq_list q) = dq_length q"
  by (simp add: dq_list_def)

text \<open>The state is determined by what the indices and flags say.\<close>

lemma dq_len_ok: "dq_wf q \<Longrightarrow> rt_data_queue_len q = Some (of_nat (dq_length q))"
proof -
  assume wf: "dq_wf q"
  have e: "(ucast i :: u16) = of_nat (unat i)" for i :: u15
    using unsigned_less [of i] by (intro word_unat_eq_iff [THEN iffD2]) (simp add: unat_ucast_up unat_of_nat_small)
  have idx: "dq_idx q" "dq_magic q = DATAQUEUE_MAGIC" using wf by (simp_all add: dq_wf_idx)
  show ?thesis
  proof (cases "dq_is_empty q")
    case False
    have lt: "dq_get_index q < dq_put_index q \<longleftrightarrow> unat (dq_get_index q) < unat (dq_put_index q)" by (rule word_less_nat_alt)
    have s: "dq_size q = of_nat (unat (dq_size q))" by simp
    have le: "unat (dq_get_index q) \<le> unat (dq_size q) + unat (dq_put_index q)" using idx(1) by (simp add: indices_ok_def)
    have "(of_nat (unat (dq_size q) + unat (dq_put_index q) - unat (dq_get_index q)) :: u16) =
        of_nat (unat (dq_size q)) + of_nat (unat (dq_put_index q)) - of_nat (unat (dq_get_index q))"
      by (simp only: of_nat_diff [OF le] of_nat_add)
    then show ?thesis
      using False idx(2) unfolding rt_data_queue_len_def dq_length_def e lt s [symmetric] by (simp add: of_nat_diff)
  qed (use idx(2) in \<open>simp add: rt_data_queue_len_def dq_length_def\<close>)
qed

lemma dq_put_ok:
  assumes "dq_wf q" "dq_length q < unat (dq_size q)"
  shows "\<exists>q'. dq_put it q = Some q' \<and> dq_wf q' \<and> dq_list q' = dq_list q @ [it] \<and> dq_size q' = dq_size q \<and> dq_lwm q' = dq_lwm q"
proof -
  define n where "n = unat (dq_size q)"
  have W: "dq_magic q = DATAQUEUE_MAGIC" "n \<le> length (dq_queue q)" "dq_idx q" using assms(1) by (simp_all add: dq_wf_idx n_def)
  have I: "0 < n" "n \<le> 32768" "unat (dq_get_index q) < n" "unat (dq_put_index q) < n" using W(3) by (simp_all add: indices_ok_def n_def)
  define p where "p = dq_advance (dq_size q) (dq_put_index q)"
  have up: "unat p = (unat (dq_put_index q) + 1) mod n" using dq_advance_ok [of "dq_put_index q" "dq_size q"] I by (simp add: p_def n_def)
  define f where "f = (p = dq_get_index q)"
  let ?q = "q\<lparr>dq_queue := (dq_queue q)[unat (dq_put_index q) := it], dq_put_index := p, dq_is_empty := False, dq_is_full := f\<rparr>"
  have nf: "\<not> dq_is_full q" using dq_full_iff [OF assms(1)] assms(2) by simp
  have "dq_put it q = Some ?q" using W(2) I(4) nf by (simp add: dq_put_def Let_def p_def [symmetric] f_def)
  moreover have ix: "dq_idx ?q"
  proof -
    have "f \<longleftrightarrow> unat p = unat (dq_get_index q)" unfolding f_def by (rule word_unat_eq_iff)
    then show ?thesis using I up by (auto simp: indices_ok_def n_def [symmetric])
  qed
  moreover have len: "dq_length ?q = Suc (dq_length q)"
  proof -
    have "unat p = (unat (dq_get_index q) + Suc (dq_length q)) mod n"
      using up dq_put_eq [OF assms(1)] by (simp add: n_def [symmetric] mod_simps)
    moreover have "unat p = (unat (dq_get_index q) + dq_length ?q) mod n" "dq_length ?q \<le> n" "dq_length ?q \<noteq> 0"
      using fill_ok(1,2,4) [OF ix] by (simp_all add: dq_length_fill n_def [symmetric])
    ultimately show ?thesis using mod_add_eq_len [of "dq_length ?q" n "Suc (dq_length q)" "unat (dq_get_index q)"] assms(2) by (simp add: n_def)
  qed
  moreover have "dq_list ?q = dq_list q @ [it]"
    using circ_snoc [of "dq_length q" n "dq_queue q" "unat (dq_get_index q)" it] assms(2) W(2) len dq_put_eq [OF assms(1)]
    by (simp add: dq_list_def n_def [symmetric])
  ultimately show ?thesis using W by (intro exI [of _ ?q]) (simp add: dq_wf_idx n_def)
qed

lemma dq_get_ok:
  assumes "dq_wf q" "0 < dq_length q"
  shows "\<exists>it q'. dq_get q = Some (it, q') \<and> dq_wf q' \<and> dq_list q = it # dq_list q' \<and> dq_size q' = dq_size q \<and> dq_lwm q' = dq_lwm q"
proof -
  define n where "n = unat (dq_size q)"
  have W: "dq_magic q = DATAQUEUE_MAGIC" "n \<le> length (dq_queue q)" "dq_idx q" using assms(1) by (simp_all add: dq_wf_idx n_def)
  have I: "0 < n" "n \<le> 32768" "unat (dq_get_index q) < n" "unat (dq_put_index q) < n" using W(3) by (simp_all add: indices_ok_def n_def)
  define g where "g = dq_advance (dq_size q) (dq_get_index q)"
  have ug: "unat g = (unat (dq_get_index q) + 1) mod n" using dq_advance_ok [of "dq_get_index q" "dq_size q"] I by (simp add: g_def n_def)
  define e where "e = (dq_put_index q = g)"
  let ?q = "q\<lparr>dq_get_index := g, dq_is_full := False, dq_is_empty := e\<rparr>"
  have ne: "\<not> dq_is_empty q" using dq_empty_iff [OF assms(1)] assms(2) by simp
  have "dq_get q = Some (dq_queue q ! unat (dq_get_index q), ?q)"
    using W(2) I(3) ne by (simp add: dq_get_def Let_def g_def [symmetric] e_def)
  moreover have ix: "dq_idx ?q"
  proof -
    have "e \<longleftrightarrow> unat (dq_put_index q) = unat g" unfolding e_def by (rule word_unat_eq_iff)
    then show ?thesis using I ug by (auto simp: indices_ok_def n_def [symmetric])
  qed
  moreover have len: "dq_length q = Suc (dq_length ?q)"
  proof -
    have "unat (dq_put_index q) = (unat g + dq_length ?q) mod n" "dq_length ?q \<le> n" "dq_length ?q \<noteq> n"
      using fill_ok(1-3) [OF ix] by (simp_all add: dq_length_fill n_def [symmetric])
    then have "unat (dq_put_index q) = (unat (dq_get_index q) + Suc (dq_length ?q)) mod n" "Suc (dq_length ?q) \<le> n"
      using ug by (simp_all add: mod_simps)
    then show ?thesis
      using mod_add_eq_len [of "dq_length q" n "Suc (dq_length ?q)" "unat (dq_get_index q)"] dq_put_eq [OF assms(1)] dq_length_bound [OF assms(1)] assms(2)
      by (simp add: n_def)
  qed
  moreover have "dq_list q = dq_queue q ! unat (dq_get_index q) # dq_list ?q"
    using circ_Suc [of "unat (dq_get_index q)" n "dq_queue q" "dq_length ?q"] I(3) ug len by (simp add: dq_list_def n_def [symmetric])
  ultimately show ?thesis using W by (intro exI [of _ "dq_queue q ! unat (dq_get_index q)"] exI [of _ ?q]) (simp add: dq_wf_idx n_def)
qed

subsection \<open>Pushing and popping\<close>

lemma dq_wait_ok:
  assumes ok: "okc c k" and m: "may_wait c t timeout k" and h: "\<not> is_ready h" "h \<noteq> Defunct"
  shows "\<exists>k'. dq_wait c h t timeout k = Some k' \<and> okc c k' \<and> waits c h t RT_IPC_FLAG_FIFO timeout k k'"
proof -
  have C: "t = rt_thread_self c k" "running c k" "cpu_irq_nest (s_cpu (k_s k) c) = 0" "timeout < 0x7fffffff"
    using m by (simp_all add: may_wait_def)
  obtain k1 s' x' where w: "ipc_wait c h t RT_IPC_FLAG_FIFO timeout (set_error t RT_EOK k) = Some k1"
    "block c k1 = Some (None :: unit option, k\<lparr>k_s := s', k_o := x'\<rparr>)" "okc c (k\<lparr>k_s := s', k_o := x'\<rparr>)"
    "waits c h t RT_IPC_FLAG_FIFO timeout k (k\<lparr>k_s := s', k_o := x'\<rparr>)"
    using wait_plain_ok [OF ok C(2) h _ C(4), of RT_IPC_FLAG_FIFO, where ?'r = unit] unfolding C(1) [symmetric]
    by (auto simp: bind_eq_Some_conv)
  have "kschedule c k1 = Some (k\<lparr>k_s := s', k_o := x'\<rparr>)" using w(2) by (simp add: block_def bind_eq_Some_conv)
  then show ?thesis using w in_context(1) [OF C(3)] by (simp add: dq_wait_def)
qed

text \<open>What a push and a pop yield, by the state of the queue and of the list of waiters.\<close>

definition push_result where
  "push_result c a fn t it timeout q k R \<longleftrightarrow>
     (if dq_length q = unat (dq_size q)
      then if timeout = 0 then R = Some (Returns (- RT_ETIMEOUT), q, k)
           else \<exists>k'. R = Some (Blocked, q, k') \<and> okc c k' \<and> waits c (SuspendSender a) t RT_IPC_FLAG_FIFO timeout k k'
      else \<exists>q'. dq_wf q' \<and> dq_list q' = dq_list q @ [it] \<and> dq_size q' = dq_size q \<and>
        (case s_list (k_s k) (Suspend a) of
           [] \<Rightarrow> R = map_option (\<lambda>(q, k). (Returns RT_EOK, q, k)) (dq_notify fn RT_DATAQUEUE_EVENT_PUSH q' k)
         | u # us \<Rightarrow> \<exists>k'. R = Some (Returns RT_EOK, q', k') \<and> okc c k' \<and> wakes (Suspend a) u us k k'))"

lemma bind_map_Some: "do { (q, k) \<leftarrow> X; Some (r, q, k) } = map_option (\<lambda>(q, k). (r, q, k)) X"
  by (cases X) auto

lemma dq_push_turn_ok:
  assumes ok: "okc c k" "dq_wf q" and ctx: "timeout \<noteq> 0 \<Longrightarrow> may_wait c t timeout k"
  shows "push_result c a fn t it timeout q k (dq_push_turn c a fn t it timeout q k)"
proof (cases "dq_is_full q")
  case True
  then have l: "dq_length q = unat (dq_size q)" using dq_full_iff [OF ok(2)] by simp
  show ?thesis
    using True l dq_wait_ok [OF ok(1) ctx, of "SuspendSender a"]
    by (cases "timeout = 0") (auto simp: push_result_def dq_push_turn_def)
next
  case False
  then have l: "dq_length q < unat (dq_size q)" using dq_full_iff [OF ok(2)] dq_length_bound [OF ok(2)] by simp
  obtain q' where q': "dq_put it q = Some q'" "dq_wf q'" "dq_list q' = dq_list q @ [it]" "dq_size q' = dq_size q"
    using dq_put_ok [OF ok(2) l] by blast
  show ?thesis
  proof (cases "s_list (k_s k) (Suspend a)")
    case Nil
    then show ?thesis using False l q' by (auto simp: push_result_def dq_push_turn_def bind_map_Some)
  next
    case (Cons u us)
    obtain k' where "do { k1 \<leftarrow> ipc_list_resume c (Suspend a) k; kschedule c k1 } = Some k'" "okc c k'" "wakes (Suspend a) u us k k'"
      using wake_plain_ok [OF ok(1) _ _ Cons] by auto
    then show ?thesis using False l q' Cons by (auto simp: push_result_def dq_push_turn_def bind_eq_Some_conv)
  qed
qed

definition pop_result where
  "pop_result c a fn t timeout q k R \<longleftrightarrow>
     (case dq_list q of
        [] \<Rightarrow> if timeout = 0 then R = Some (Returns (- RT_ETIMEOUT, None), q, k)
              else \<exists>k'. R = Some (Blocked, q, k') \<and> okc c k' \<and> waits c (Suspend a) t RT_IPC_FLAG_FIFO timeout k k'
      | it # its \<Rightarrow> \<exists>q'. dq_wf q' \<and> dq_list q' = its \<and> dq_size q' = dq_size q \<and>
          (if length its \<le> unat (dq_lwm q)
           then (case s_list (k_s k) (SuspendSender a) of
                   [] \<Rightarrow> R = map_option (\<lambda>(q, k). (Returns (RT_EOK, Some it), q, k)) (dq_notify fn RT_DATAQUEUE_EVENT_LWM q' k)
                 | u # us \<Rightarrow> \<exists>k'. R = Some (Notifies (RT_EOK, Some it), q', k') \<and> okc c k' \<and> wakes (SuspendSender a) u us k k')
           else R = map_option (\<lambda>(q, k). (Returns (RT_EOK, Some it), q, k)) (dq_notify fn RT_DATAQUEUE_EVENT_POP q' k)))"

lemma dq_pop_turn_ok:
  assumes ok: "okc c k" "dq_wf q" and ctx: "timeout \<noteq> 0 \<Longrightarrow> may_wait c t timeout k"
  shows "pop_result c a fn t timeout q k (dq_pop_turn c a fn t timeout q k)"
proof (cases "dq_is_empty q")
  case True
  then have l: "dq_list q = []" using dq_empty_iff [OF ok(2)] by (simp flip: length_0_conv)
  show ?thesis
    using True l dq_wait_ok [OF ok(1) ctx, of "Suspend a"]
    by (cases "timeout = 0") (auto simp: pop_result_def dq_pop_turn_def)
next
  case False
  then have l: "0 < dq_length q" using dq_empty_iff [OF ok(2)] by simp
  obtain it q' where q': "dq_get q = Some (it, q')" "dq_wf q'" "dq_list q = it # dq_list q'" "dq_size q' = dq_size q" "dq_lwm q' = dq_lwm q"
    using dq_get_ok [OF ok(2) l] by blast
  have "unat (dq_size q') < 65536" using unsigned_less [of "dq_size q'"] by simp
  then have "dq_length q' < 65536" using dq_length_bound [OF q'(2)] by simp
  then have le: "of_nat (dq_length q') \<le> dq_lwm q \<longleftrightarrow> dq_length q' \<le> unat (dq_lwm q)"
    by (simp add: word_le_nat_alt unat_of_nat_small)
  show ?thesis
  proof (cases "dq_length q' \<le> unat (dq_lwm q) \<and> s_list (k_s k) (SuspendSender a) \<noteq> []")
    case True
    then obtain u us where us: "s_list (k_s k) (SuspendSender a) = u # us" by (cases "s_list (k_s k) (SuspendSender a)") auto
    obtain k' where k': "do { k1 \<leftarrow> ipc_list_resume c (SuspendSender a) k; kschedule c k1 } = Some k'" "okc c k'" "wakes (SuspendSender a) u us k k'"
      using wake_plain_ok [OF ok(1) _ _ us] by auto
    have "dq_pop_turn c a fn t timeout q k = Some (Notifies (RT_EOK, Some it), q', k')"
      using True False us k'(1) by (auto simp: dq_pop_turn_def q'(1,5) dq_len_ok [OF q'(2)] le bind_eq_Some_conv)
    then show ?thesis using q'(2-4) True us k'(2,3) by (auto simp: pop_result_def)
  next
    case other: False
    then show ?thesis
      using False q'(2-4) by (auto simp: pop_result_def dq_pop_turn_def q'(1,5) dq_len_ok [OF q'(2)] le bind_map_Some)
  qed
qed

subsection \<open>Resetting\<close>

text \<open>What a change of the locks and a call of the scheduler keep.\<close>

definition quiet :: "kernel \<Rightarrow> kernel \<Rightarrow> bool" where
  "quiet k k' \<longleftrightarrow> sframe (k_s k) (k_s k') \<and> (\<forall>h. \<not> is_ready h \<longrightarrow> s_list (k_s k') h = s_list (k_s k) h)"

lemma quiet_trans: "quiet k k1 \<Longrightarrow> quiet k1 k2 \<Longrightarrow> quiet k k2"
  unfolding quiet_def using sframe_trans by metis

lemma quiet_woken: "quiet k k' \<Longrightarrow> th_error (thread k' t) = th_error (thread k t) \<and>
    (stat_base (th_stat (thread k t)) \<in> {RT_THREAD_READY, RT_THREAD_RUNNING} \<longrightarrow>
     stat_base (th_stat (thread k' t)) \<in> {RT_THREAD_READY, RT_THREAD_RUNNING})"
proof -
  assume "quiet k k'"
  then have "same_run (thread k t) (thread k' t)" by (simp add: quiet_def sframe_def)
  then show ?thesis by (auto simp: same_run_def same_data_def)
qed

lemma kschedule_quiet: "okc c k \<Longrightarrow> \<exists>k'. kschedule c k = Some k' \<and> okc c k' \<and> quiet k k'"
  using kschedule_ok [of c k] by (fastforce simp: quiet_def)

text \<open>Changing the counters of locks in threads, and the lock of the CPUs.\<close>

definition lock_step :: "sched \<Rightarrow> sched \<Rightarrow> bool" where
  "lock_step s s' \<longleftrightarrow> s_list s' = s_list s \<and> s_cpu s' = s_cpu s \<and>
     (\<forall>t. core (s_thread s' t) = core (s_thread s t) \<and> th_stat (s_thread s' t) = th_stat (s_thread s t) \<and>
        same_data (s_thread s t) (s_thread s' t))"

lemma lock_step_ok:
  assumes "lock_step (k_s k) s'"
  shows "okc c (k\<lparr>k_s := s'\<rparr>) = okc c k" "quiet k (k\<lparr>k_s := s'\<rparr>)"
proof -
  have L: "s_list s' = s_list (k_s k)" "s_cpu s' = s_cpu (k_s k)" "core (s_thread s' t) = core (thread k t)"
    "th_stat (s_thread s' t) = th_stat (thread k t)" "same_data (thread k t) (s_thread s' t)" for t
    using assms by (simp_all add: lock_step_def)
  have inv: "sched_inv s' = sched_inv (k_s k)" by (rule inv_cong) (simp_all add: L)
  have cur: "current d s' = current d (k_s k)" for d by (simp add: L)
  show "okc c (k\<lparr>k_s := s'\<rparr>) = okc c k"
    using stack_same_data [OF L(5)] by (simp add: okc_def kinv_def kok_def all_stacks_def live_def inv L(4) cur rt_thread_self_def)
  show "quiet k (k\<lparr>k_s := s'\<rparr>)" using L by (simp add: quiet_def sframe_def same_run_def)
qed

lemma upd_thread_lock_step:
  assumes "lock_step s0 s" "\<And>th. core (f th) = core th" "\<And>th. th_stat (f th) = th_stat th" "\<And>th. same_data th (f th)"
  shows "lock_step s0 (upd_thread t f s)"
  using assms by (auto simp: lock_step_def upd_thread_def same_data_def)

lemma lock_step_refl: "lock_step s s" "lock_step s0 s \<Longrightarrow> lock_step s0 (s\<lparr>s_cpus_lock := x\<rparr>)"
  by (simp_all add: lock_step_def same_data_def)

lemma enter_critical_quiet:
  assumes "okc c k" "\<not> fst (s_cpus_lock (k_s k))"
  shows "\<exists>k'. lift_s (rt_enter_critical c) k = Some k' \<and> okc c k' \<and> quiet k k' \<and> k_o k' = k_o k"
proof -
  have "\<exists>s'. rt_enter_critical c (k_s k) = Some s' \<and> lock_step (k_s k) s'"
    using assms(2) by (auto simp: rt_enter_critical_def Let_def rt_spin_lock_cpus_def core_def same_data_def
        intro!: upd_thread_lock_step lock_step_refl)
  then obtain s' where s': "rt_enter_critical c (k_s k) = Some s'" "lock_step (k_s k) s'" by blast
  then show ?thesis using lock_step_ok [OF s'(2)] assms(1) by (simp add: lift_s_def)
qed

lemma exit_critical_quiet:
  assumes "okc c k"
  shows "\<exists>k'. lift_s (rt_exit_critical c) k = Some k' \<and> okc c k' \<and> quiet k k'"
proof -
  let ?t = "current c (k_s k)"
  define s0 where "s0 = upd_thread ?t (\<lambda>th. th\<lparr>th_scheduler_lock_nest := th_scheduler_lock_nest th - 1,
      th_critical_lock_nest := th_critical_lock_nest th - 1, th_cpus_lock_nest := th_cpus_lock_nest th - 1\<rparr>) (k_s k)"
  define s2 where "s2 = (if th_cpus_lock_nest (s_thread s0 ?t) = 0
      then rt_spin_unlock_cpus (upd_thread ?t (\<lambda>th. th\<lparr>th_scheduler_lock_nest := th_scheduler_lock_nest th - 1\<rparr>) s0) else s0)"
  have l0: "lock_step (k_s k) s0"
    unfolding s0_def by (rule upd_thread_lock_step [OF lock_step_refl(1)]) (simp_all add: core_def same_data_def)
  have l2: "lock_step (k_s k) s2"
    unfolding s2_def rt_spin_unlock_cpus_def using l0
    by (auto intro!: upd_thread_lock_step lock_step_refl(2) simp: core_def same_data_def)
  have l3: "lock_step (k_s k) (upd_thread ?t (\<lambda>th. th\<lparr>th_scheduler_lock_nest := 0\<rparr>) s2)"
    by (rule upd_thread_lock_step [OF l2]) (simp_all add: core_def same_data_def)
  have "rt_exit_critical c (k_s k) = (if ?t = 0 then Some (k_s k)
      else if th_scheduler_lock_nest (s_thread s2 ?t) \<le> 0
      then rt_schedule c (upd_thread ?t (\<lambda>th. th\<lparr>th_scheduler_lock_nest := 0\<rparr>) s2) else Some s2)"
    unfolding rt_exit_critical_def Let_def s2_def s0_def ..
  then obtain s1 where s1: "lock_step (k_s k) s1" "rt_exit_critical c (k_s k) = rt_schedule c s1 \<or> rt_exit_critical c (k_s k) = Some s1"
    using l2 l3 lock_step_refl(1) by (auto split: if_splits)
  define k1 where "k1 = k\<lparr>k_s := s1\<rparr>"
  have k1: "okc c k1" "quiet k k1" using lock_step_ok [OF s1(1)] assms by (simp_all add: k1_def)
  obtain k' where k': "kschedule c k1 = Some k'" "okc c k'" "quiet k1 k'" using kschedule_quiet [OF k1(1)] by blast
  have "lift_s (rt_exit_critical c) k = Some k' \<or> lift_s (rt_exit_critical c) k = Some k1"
    using s1(2) k'(1) by (auto simp: k1_def kschedule_def lift_s_def)
  then show ?thesis using k1 k'(2,3) quiet_trans by blast
qed

lemma resume_all_lists:
  assumes "okc c k" "\<not> is_ready h" "h \<noteq> Defunct"
  shows "\<exists>k'. ipc_list_resume_all c h k = Some k' \<and> okc c k' \<and>
    (\<forall>g. \<not> is_ready g \<longrightarrow> s_list (k_s k') g = (if g = h then [] else s_list (k_s k) g)) \<and>
    (\<forall>t \<in> set (s_list (k_s k) h). th_error (thread k' t) = - RT_ERROR \<and>
       stat_base (th_stat (thread k' t)) \<in> {RT_THREAD_READY, RT_THREAD_RUNNING}) \<and>
    (\<forall>t. t \<notin> set (s_list (k_s k) h) \<longrightarrow> thread k' t = thread k t)"
proof -
  obtain s' x' where r: "ipc_list_resume_all c h k = Some (k\<lparr>k_s := s', k_o := x'\<rparr>)" "okc c (k\<lparr>k_s := s', k_o := x'\<rparr>)"
    "\<forall>g. \<not> is_ready g \<longrightarrow> s_list s' g = (if g = h then [] else s_list (k_s k) g)"
    "\<forall>t \<in> set (s_list (k_s k) h). th_error (s_thread s' t) = - RT_ERROR \<and>
       stat_base (th_stat (s_thread s' t)) \<in> {RT_THREAD_READY, RT_THREAD_RUNNING} \<and> \<not> timer_activated (ThTimer t) x'"
    "\<forall>t. t \<notin> set (s_list (k_s k) h) \<longrightarrow> s_thread s' t = thread k t"
    using resume_all_ok [OF assms] by (elim exE conjE) (rule that; assumption)
  then show ?thesis by (intro exI [of _ "k\<lparr>k_s := s', k_o := x'\<rparr>"]) simp
qed

lemma dq_reset_ok:
  assumes ok: "okc c k" "a \<noteq> 0" "dq_wf q" and lock: "\<not> fst (s_cpus_lock (k_s k))"
  shows "\<exists>q' k'. rt_data_queue_reset c a q k = Some (q', k') \<and> okc c k' \<and> dq_wf q' \<and> dq_list q' = [] \<and> dq_size q' = dq_size q \<and>
    (\<forall>g. \<not> is_ready g \<longrightarrow> s_list (k_s k') g = (if g \<in> {Suspend a, SuspendSender a} then [] else s_list (k_s k) g)) \<and>
    (\<forall>t \<in> set (s_list (k_s k) (Suspend a) @ s_list (k_s k) (SuspendSender a)). th_error (thread k' t) = - RT_ERROR \<and>
       stat_base (th_stat (thread k' t)) \<in> {RT_THREAD_READY, RT_THREAD_RUNNING})"
proof -
  let ?q = "q\<lparr>dq_get_index := 0, dq_put_index := 0, dq_is_empty := True, dq_is_full := False\<rparr>"
  let ?err = "\<lambda>k' t. th_error (thread k' t) = - RT_ERROR \<and> stat_base (th_stat (thread k' t)) \<in> {RT_THREAD_READY, RT_THREAD_RUNNING}"
  have q: "dq_wf ?q" "dq_list ?q = []" "dq_magic q = DATAQUEUE_MAGIC"
    using ok(3) by (simp_all add: dq_wf_idx indices_ok_def dq_list_def dq_length_def)
  obtain k1 where k1: "lift_s (rt_enter_critical c) k = Some k1" "okc c k1" "quiet k k1"
    using enter_critical_quiet [OF ok(1) lock] by blast
  obtain k2 where k2: "ipc_list_resume_all c (Suspend a) k1 = Some k2" "okc c k2"
    "\<And>g. \<not> is_ready g \<Longrightarrow> s_list (k_s k2) g = (if g = Suspend a then [] else s_list (k_s k1) g)"
    "\<forall>t \<in> set (s_list (k_s k1) (Suspend a)). ?err k2 t"
    using resume_all_lists [OF k1(2), of "Suspend a"] by auto
  obtain k3 where k3: "ipc_list_resume_all c (SuspendSender a) k2 = Some k3" "okc c k3"
    "\<And>g. \<not> is_ready g \<Longrightarrow> s_list (k_s k3) g = (if g = SuspendSender a then [] else s_list (k_s k2) g)"
    "\<forall>t \<in> set (s_list (k_s k2) (SuspendSender a)). ?err k3 t"
    "\<And>t. t \<notin> set (s_list (k_s k2) (SuspendSender a)) \<Longrightarrow> thread k3 t = thread k2 t"
    using resume_all_lists [OF k2(2), of "SuspendSender a"] by auto
  obtain k4 where k4: "lift_s (rt_exit_critical c) k3 = Some k4" "okc c k4" "quiet k3 k4"
    using exit_critical_quiet [OF k3(2)] by blast
  obtain k5 where k5: "kschedule c k4 = Some k5" "okc c k5" "quiet k4 k5" using kschedule_quiet [OF k4(2)] by blast
  have quiet: "quiet k3 k5" by (rule quiet_trans [OF k4(3) k5(3)])
  have l1: "s_list (k_s k1) g = s_list (k_s k) g" if "\<not> is_ready g" for g using k1(3) that by (simp add: quiet_def)
  have run: "rt_data_queue_reset c a q k = Some (?q, k5)"
    using ok(2) q(3) k1(1) k2(1) k3(1) k4(1) k5(1) by (simp add: rt_data_queue_reset_def Let_def)
  have lists: "s_list (k_s k5) g = (if g \<in> {Suspend a, SuspendSender a} then [] else s_list (k_s k) g)" if "\<not> is_ready g" for g
    using quiet k3(3) k2(3) l1 that by (simp add: quiet_def)
  have resumed: "?err k5 t" if "t \<in> set (s_list (k_s k) (Suspend a) @ s_list (k_s k) (SuspendSender a))" for t
  proof -
    have "?err k3 t"
    proof (cases "t \<in> set (s_list (k_s k2) (SuspendSender a))")
      case False
      then have "t \<in> set (s_list (k_s k1) (Suspend a))" using that k2(3) l1 by auto
      then show ?thesis using k2(4) k3(5) [OF False] by simp
    qed (use k3(4) in blast)
    then show ?thesis using quiet_woken [OF quiet, of t] by simp
  qed
  show ?thesis using run k5(2) q(1,2) lists resumed by (intro exI [of _ ?q] exI [of _ k5]) simp
qed

subsection \<open>The contract of a bounded queue\<close>

text \<open>Pushing and popping without waiting, for a queue without an \<open>evt_notify\<close>.\<close>

definition dq_enq :: "nat \<Rightarrow> nat \<Rightarrow> rt_data_item \<Rightarrow> rt_data_queue \<times> kernel \<Rightarrow> (bool \<times> rt_data_queue \<times> kernel) option" where
  "dq_enq c a it s = (case rt_data_queue_push c a None it 0 (fst s) (snd s) of
     Some (Returns r, q, k) \<Rightarrow> if r = RT_EOK then Some (True, q, k) else if r = - RT_ETIMEOUT then Some (False, q, k) else None
   | _ \<Rightarrow> None)"

definition dq_deq :: "nat \<Rightarrow> nat \<Rightarrow> rt_data_queue \<times> kernel \<Rightarrow> (rt_data_item option \<times> rt_data_queue \<times> kernel) option" where
  "dq_deq c a s = (case rt_data_queue_pop c a None 0 (fst s) (snd s) of
     Some (Returns (r, Some it), q, k) \<Rightarrow> if r = RT_EOK then Some (Some it, q, k) else None
   | Some (Returns (r, None), q, k) \<Rightarrow> if r = - RT_ETIMEOUT then Some (None, q, k) else None
   | Some (Notifies (r, Some it), q, k) \<Rightarrow>
       if r = RT_EOK then map_option (Pair (Some it)) (rt_data_queue_pop_notify None q k) else None
   | _ \<Rightarrow> None)"

definition dq_inv :: "nat \<Rightarrow> nat \<Rightarrow> rt_data_queue \<times> kernel \<Rightarrow> bool" where
  "dq_inv c a s \<longleftrightarrow> okc c (snd s) \<and> a \<noteq> 0 \<and> dq_wf (fst s)"

lemma dq_magic_ok: "dq_wf q \<Longrightarrow> dq_magic q = DATAQUEUE_MAGIC"
  by (simp add: dq_wf_def)

lemma dq_push_ok:
  assumes "okc c k" "a \<noteq> 0" "dq_wf q" "timeout \<noteq> 0 \<Longrightarrow> may_wait c (rt_thread_self c k) timeout k"
  shows "push_result c a fn (rt_thread_self c k) it timeout q k (rt_data_queue_push c a fn it timeout q k)"
  using dq_push_turn_ok [OF assms(1,3,4), of a fn it] assms(2) dq_magic_ok [OF assms(3)] by (simp add: rt_data_queue_push_def)

lemma dq_pop_ok:
  assumes "okc c k" "a \<noteq> 0" "dq_wf q" "timeout \<noteq> 0 \<Longrightarrow> may_wait c (rt_thread_self c k) timeout k"
  shows "pop_result c a fn (rt_thread_self c k) timeout q k (rt_data_queue_pop c a fn timeout q k)"
  using dq_pop_turn_ok [OF assms(1,3,4), of a fn] assms(2) dq_magic_ok [OF assms(3)] by (simp add: rt_data_queue_pop_def)

interpretation dq: bounded_fifo "dq_inv c a" "\<lambda>s. dq_list (fst s)" "\<lambda>s. unat (dq_size (fst s))" "dq_enq c a" "dq_deq c a" for c a
proof
  fix s :: "rt_data_queue \<times> kernel" and it assume inv: "dq_inv c a s"
  obtain q k where s: "s = (q, k)" by force
  have I: "okc c k" "a \<noteq> 0" "dq_wf q" using inv by (simp_all add: dq_inv_def s)
  note pu = dq_push_ok [OF I, of 0 None it, unfolded push_result_def, simplified] and po = dq_pop_ok [OF I, of 0 None, unfolded pop_result_def, simplified]
  note defs = dq_enq_def dq_deq_def dq_inv_def dq_notify_def rt_data_queue_pop_notify_def
  show "\<exists>s'. dq_enq c a it s = Some (True, s') \<and> dq_inv c a s' \<and> dq_list (fst s') = dq_list (fst s) @ [it] \<and>
      unat (dq_size (fst s')) = unat (dq_size (fst s))" if "length (dq_list (fst s)) < unat (dq_size (fst s))"
    using pu that I unfolding s by (cases "s_list (k_s k) (Suspend a)") (auto simp: defs)
  show "dq_enq c a it s = Some (False, s)" if "unat (dq_size (fst s)) \<le> length (dq_list (fst s))"
    using pu that dq_length_bound [OF I(3)] unfolding s by (auto simp: defs)
  show "\<exists>s'. dq_deq c a s = Some (Some y, s') \<and> dq_inv c a s' \<and> dq_list (fst s') = ys \<and>
      unat (dq_size (fst s')) = unat (dq_size (fst s))" if "dq_list (fst s) = y # ys" for y ys
    using po that I unfolding s by (cases "s_list (k_s k) (SuspendSender a)"; cases "length ys \<le> unat (dq_lwm q)") (auto simp: defs)
  show "dq_deq c a s = Some (None, s)" if "dq_list (fst s) = []"
    using po that unfolding s by (auto simp: defs)
qed

lemma dq_peek_ok: "dq_wf q \<Longrightarrow> rt_data_queue_peek q =
    Some (case dq_list q of [] \<Rightarrow> (- RT_EEMPTY, None) | it # _ \<Rightarrow> (RT_EOK, Some it))"
proof -
  assume wf: "dq_wf q"
  then have I: "unat (dq_get_index q) < unat (dq_size q)" "unat (dq_get_index q) < length (dq_queue q)" by (simp_all add: dq_wf_def)
  show ?thesis
  proof (cases "dq_length q")
    case 0
    then show ?thesis using dq_empty_iff [OF wf] dq_magic_ok [OF wf] by (simp add: rt_data_queue_peek_def dq_list_def)
  next
    case (Suc n)
    then show ?thesis using dq_empty_iff [OF wf] dq_magic_ok [OF wf] I by (simp add: rt_data_queue_peek_def dq_list_def circ_Suc)
  qed
qed

subsection \<open>Properties\<close>

text \<open>C24: Any sequence of \<open>rt_data_queue_push\<close> and \<open>rt_data_queue_pop\<close> without waiting, on a queue without an \<open>evt_notify\<close>,
  runs without a failure and gives the answers that a list bounded by the queue's size would; items come out in the order in which
  they went in, and a refused call changes neither queue nor kernel.\<close>

theorem rt_data_queue_fifo:
  assumes "dq_inv c a s"
  shows "\<exists>rs s'. run_ops (dq_enq c a) (dq_deq c a) ops s = Some (rs, s') \<and>
    run_ops (spec_enq (unat (dq_size (fst s)))) spec_deq ops (dq_list (fst s)) = Some (rs, dq_list (fst s')) \<and> dq_inv c a s' \<and>
    dq_list (fst s) @ accepted ops rs = delivered rs @ dq_list (fst s') \<and>
    (\<forall>it. length (dq_list (fst s)) = unat (dq_size (fst s)) \<longrightarrow> dq_enq c a it s = Some (False, s)) \<and>
    (dq_list (fst s) = [] \<longrightarrow> dq_deq c a s = Some (None, s))"
  using dq.run_refines [OF assms, of ops] dq.enq_full [OF assms] dq.deq_empty [OF assms] by auto

definition sample_queue :: rt_data_queue where
  "sample_queue = \<lparr>dq_magic = DATAQUEUE_MAGIC, dq_size = 2, dq_lwm = 0, dq_get_index = 0, dq_is_empty = True,
     dq_put_index = 0, dq_is_full = False, dq_queue = replicate 2 \<lparr>di_ptr = 0, di_size = 0\<rparr>\<rparr>"

lemma sample_queue_ok: "dq_wf sample_queue" "dq_list sample_queue = []" "dq_size sample_queue = 2"
  by (simp_all add: sample_queue_def dq_wf_def dq_list_def dq_length_def)

theorem rt_data_queue_fifo_witness:
  "\<exists>s'. run_ops (dq_enq 0 100) (dq_deq 0 100) [Enq \<lparr>di_ptr = 7, di_size = 1\<rparr>, Deq, Deq] (sample_queue, sample_kernel 5) =
     Some ([Accepted True, Delivered (Some \<lparr>di_ptr = 7, di_size = 1\<rparr>), Delivered None], s') \<and> dq_list (fst s') = []"
proof -
  have inv: "dq_inv 0 100 (sample_queue, sample_kernel 5)" using sample_okc sample_queue_ok(1) by (simp add: dq_inv_def)
  show ?thesis using rt_data_queue_fifo [OF inv, of "[Enq \<lparr>di_ptr = 7, di_size = 1\<rparr>, Deq, Deq]"] sample_queue_ok
    by (auto simp: spec_enq_def spec_deq_def)
qed

text \<open>C25: Every branch of a push and a pop: with room (or an item) the item goes to the end (or comes from the front), then the
  first waiter of the other side is woken, a waiting pusher only once the queue is at its low water mark, or \<open>evt_notify\<close> is called;
  a full (or empty) queue refuses at once or makes the thread wait at the end of its list.  Length and first item can be asked for.\<close>

theorem rt_data_queue_push_pop:
  assumes "okc c k" "a \<noteq> 0" "dq_wf q" "timeout \<noteq> 0 \<longrightarrow> may_wait c (rt_thread_self c k) timeout k"
  shows "push_result c a fn (rt_thread_self c k) it timeout q k (rt_data_queue_push c a fn it timeout q k) \<and>
    pop_result c a fn (rt_thread_self c k) timeout q k (rt_data_queue_pop c a fn timeout q k) \<and>
    rt_data_queue_len q = Some (of_nat (length (dq_list q))) \<and>
    rt_data_queue_peek q = Some (case dq_list q of [] \<Rightarrow> (- RT_EEMPTY, None) | it # _ \<Rightarrow> (RT_EOK, Some it))"
  using dq_push_ok [OF assms(1-3)] dq_pop_ok [OF assms(1-3)] assms(4) dq_len_ok [OF assms(3)] dq_peek_ok [OF assms(3)] by simp

theorem rt_data_queue_push_pop_witness:
  "\<exists>q'. rt_data_queue_push 0 100 None \<lparr>di_ptr = 7, di_size = 1\<rparr> 0 sample_queue (sample_kernel 5) = Some (Returns RT_EOK, q', sample_kernel 5) \<and>
     dq_list q' = [\<lparr>di_ptr = 7, di_size = 1\<rparr>]"
  using rt_data_queue_push_pop [OF sample_okc _ sample_queue_ok(1), of 100 0 5 None "\<lparr>di_ptr = 7, di_size = 1\<rparr>"] sample_queue_ok
  by (auto simp: push_result_def dq_notify_def simp flip: dq_list_length)

text \<open>Fact: \<open>rt_data_queue_reset\<close> empties the queue and resumes every thread that waits to push or to pop, with \<open>-RT_ERROR\<close>.\<close>

theorem rt_data_queue_reset_wakes:
  assumes "okc c k" "a \<noteq> 0" "dq_wf q" "\<not> fst (s_cpus_lock (k_s k))"
  shows "\<exists>q' k'. rt_data_queue_reset c a q k = Some (q', k') \<and> okc c k' \<and> dq_wf q' \<and> dq_list q' = [] \<and>
    s_list (k_s k') (Suspend a) = [] \<and> s_list (k_s k') (SuspendSender a) = [] \<and>
    (\<forall>t \<in> set (s_list (k_s k) (Suspend a) @ s_list (k_s k) (SuspendSender a)). th_error (thread k' t) = - RT_ERROR \<and>
       stat_base (th_stat (thread k' t)) \<in> {RT_THREAD_READY, RT_THREAD_RUNNING})"
proof -
  obtain q' k' where r: "rt_data_queue_reset c a q k = Some (q', k')" "okc c k'" "dq_wf q'" "dq_list q' = []"
    "\<forall>g. \<not> is_ready g \<longrightarrow> s_list (k_s k') g = (if g \<in> {Suspend a, SuspendSender a} then [] else s_list (k_s k) g)"
    "\<forall>t \<in> set (s_list (k_s k) (Suspend a) @ s_list (k_s k) (SuspendSender a)). th_error (thread k' t) = - RT_ERROR \<and>
       stat_base (th_stat (thread k' t)) \<in> {RT_THREAD_READY, RT_THREAD_RUNNING}"
    using dq_reset_ok [OF assms] by (elim exE conjE) (rule that; assumption)
  then show ?thesis by (intro exI [of _ q'] exI [of _ k']) simp
qed

end
