(* ===== verification/Completion.thy ===== *)
theory Completion
  imports DataQueue ThreadProps
begin

section \<open>Completions and wait queues (\<open>components/drivers/src/completion.c\<close>, \<open>waitqueue.c\<close>)\<close>

text \<open>
  A completion is a flag one thread can wait for (its list is \<open>Suspend a\<close> for the completion at \<open>a\<close>).
  A wait queue is a list of nodes, each with the thread that waits and a function that says whether a
  wake-up is meant for it; those threads are on no list of the kernel.
\<close>

subsection \<open>Completions\<close>

abbreviation (input) RT_COMPLETED :: u32 where "RT_COMPLETED \<equiv> 1"
abbreviation (input) RT_UNCOMPLETED :: u32 where "RT_UNCOMPLETED \<equiv> 0"

text \<open>\<open>struct rt_completion\<close>: its flag.\<close>

definition rt_completion_init :: "nat \<Rightarrow> kernel \<Rightarrow> (u32 \<times> kernel) option" where
  "rt_completion_init a k =
     do { rt_assert (a \<noteq> 0); Some (RT_UNCOMPLETED, on_s (upd_list (Suspend a) (\<lambda>_. [])) k) }"

definition rt_completion_wait :: "nat \<Rightarrow> nat \<Rightarrow> int \<Rightarrow> u32 \<Rightarrow> kernel \<Rightarrow> (rt_err progress \<times> u32 \<times> kernel) option" where
  "rt_completion_wait c a timeout flag k =
     do { rt_assert (a \<noteq> 0);
          let t = rt_thread_self c k;
          (if flag \<noteq> RT_COMPLETED
           then do {
             rt_assert (s_list (k_s k) (Suspend a) = []);
             (if timeout = 0 then Some (Returns (- RT_ETIMEOUT), flag, k)
              else do {
                k \<leftarrow> ipc_list_suspend c (Suspend a) t RT_IPC_FLAG_FIFO (set_error t RT_EOK k);
                not_in_interrupt c k;
                k \<leftarrow> (if 0 < timeout then thread_timer_start c t (of_int timeout) k else Some k);
                k \<leftarrow> kschedule c k;
                Some (Blocked, flag, k) }) }
           else Some (Returns RT_EOK, RT_UNCOMPLETED, k)) }"

text \<open>What the thread does when it runs again.\<close>

definition rt_completion_wait_resumed :: "nat \<Rightarrow> u32 \<Rightarrow> kernel \<Rightarrow> rt_err \<times> u32" where
  "rt_completion_wait_resumed t flag k = (th_error (thread k t), RT_UNCOMPLETED)"

definition rt_completion_done :: "nat \<Rightarrow> nat \<Rightarrow> u32 \<Rightarrow> kernel \<Rightarrow> (u32 \<times> kernel) option" where
  "rt_completion_done c a flag k =
     do { rt_assert (a \<noteq> 0);
          (if flag = RT_COMPLETED then Some (flag, k)
           else if s_list (k_s k) (Suspend a) \<noteq> []
           then do { k \<leftarrow> ipc_list_resume c (Suspend a) k; k \<leftarrow> kschedule c k; Some (RT_COMPLETED, k) }
           else Some (RT_COMPLETED, k)) }"

lemma wait_as_dq_wait:
  assumes ok: "okc c k" and m: "may_wait c t timeout k"
  shows "do { k \<leftarrow> ipc_list_suspend c (Suspend a) t RT_IPC_FLAG_FIFO (set_error t RT_EOK k);
      not_in_interrupt c k;
      k \<leftarrow> (if 0 < timeout then thread_timer_start c t (of_int timeout) k else Some k);
      kschedule c k } = dq_wait c (Suspend a) t timeout k"
proof -
  have C: "t = rt_thread_self c k" "running c k" "cpu_irq_nest (s_cpu (k_s k) c) = 0"
    using m by (simp_all add: may_wait_def)
  let ?k = "set_error t RT_EOK k"
  have okk: "okc c ?k" "running c ?k" using ok C(2) by (simp_all only: set_error_ok set_error_simps)
  have self: "rt_thread_self c ?k = t" by (simp add: set_error_simps C(1))
  obtain s' where s': "ipc_list_suspend c (Suspend a) t RT_IPC_FLAG_FIFO ?k = Some (?k\<lparr>k_s := s'\<rparr>)" "joined c (Suspend a) t RT_IPC_FLAG_FIFO (k_s ?k) s'"
    using ipc_list_suspend_ok [OF okk, of "Suspend a" RT_IPC_FLAG_FIFO] unfolding self by auto
  obtain g where "s_cpu s' c = (s_cpu (k_s ?k) c)\<lparr>cpu_priority_group := g\<rparr>" using s'(2) unfolding joined_def by blast
  then have "cpu_irq_nest (s_cpu s' c) = 0" using C(3) by simp
  then have "not_in_interrupt c (?k\<lparr>k_s := s'\<rparr>) = Some ()" by (intro in_context(1)) simp
  then show ?thesis using s'(1) in_context(1) [OF C(3)] by (simp add: dq_wait_def ipc_wait_def)
qed

subsection \<open>Wait queues\<close>

abbreviation (input) RT_WQ_FLAG_CLEAN :: u32 where "RT_WQ_FLAG_CLEAN \<equiv> 0"
abbreviation (input) RT_WQ_FLAG_WAKEUP :: u32 where "RT_WQ_FLAG_WAKEUP \<equiv> 1"

record rt_wqueue_node =
  wn_polling_thread :: nat
  wn_wakeup :: "nat \<Rightarrow> int"

text \<open>A queue and the nodes at their addresses.\<close>

record rt_wqueue =
  wq_flag :: u32
  wq_waiting_list :: "nat list"
  wq_node :: "nat \<Rightarrow> rt_wqueue_node"

definition rt_wqueue_init :: "rt_wqueue \<Rightarrow> rt_wqueue" where
  "rt_wqueue_init w = w\<lparr>wq_flag := RT_WQ_FLAG_CLEAN, wq_waiting_list := []\<rparr>"

definition rt_wqueue_add :: "nat \<Rightarrow> rt_wqueue \<Rightarrow> rt_wqueue" where
  "rt_wqueue_add n w = w\<lparr>wq_waiting_list := wq_waiting_list w @ [n]\<rparr>"

definition rt_wqueue_remove :: "nat \<Rightarrow> rt_wqueue \<Rightarrow> rt_wqueue" where
  "rt_wqueue_remove n w = w\<lparr>wq_waiting_list := filter (\<lambda>x. x \<noteq> n) (wq_waiting_list w)\<rparr>"

definition wqueue_default_wake :: "nat \<Rightarrow> int" where
  "wqueue_default_wake wkey = 0"

text \<open>The loop: the first node whose function takes the wkey is resumed and unlinked.\<close>

fun wqueue_scan :: "nat \<Rightarrow> (nat \<Rightarrow> rt_wqueue_node) \<Rightarrow> nat list \<Rightarrow> nat option" where
  "wqueue_scan wkey node [] = None"
| "wqueue_scan wkey node (n # ns) = (if wn_wakeup (node n) wkey = 0 then Some n else wqueue_scan wkey node ns)"

definition rt_wqueue_wakeup :: "nat \<Rightarrow> nat \<Rightarrow> rt_wqueue \<Rightarrow> kernel \<Rightarrow> (rt_wqueue \<times> kernel) option" where
  "rt_wqueue_wakeup c wkey w k =
     (let w = w\<lparr>wq_flag := RT_WQ_FLAG_WAKEUP\<rparr> in
      case wqueue_scan wkey (wq_node w) (wq_waiting_list w) of
        None \<Rightarrow> Some (w, k)
      | Some n \<Rightarrow> do {
          (_, k) \<leftarrow> rt_thread_resume c (wn_polling_thread (wq_node w n)) k;
          let w = rt_wqueue_remove n w;
          k \<leftarrow> kschedule c k;
          Some (w, k) })"

text \<open>\<open>n\<close> is the address of the node \<open>__wait\<close> on the stack of the caller.\<close>

definition rt_wqueue_wait :: "nat \<Rightarrow> nat \<Rightarrow> bool \<Rightarrow> int \<Rightarrow> rt_wqueue \<Rightarrow> kernel \<Rightarrow> (int progress \<times> rt_wqueue \<times> kernel) option" where
  "rt_wqueue_wait c n condition msec w k =
     do { let tid = rt_thread_self c k;
          not_in_interrupt c k;
          let tick = rt_tick_from_millisecond msec;
          (if condition \<or> tick = 0 then Some (Returns 0, w, k)
           else do {
             let w = w\<lparr>wq_node := (wq_node w)(n := \<lparr>wn_polling_thread = tid, wn_wakeup = wqueue_default_wake\<rparr>)\<rparr>;
             (if wq_flag w = RT_WQ_FLAG_WAKEUP
              then Some (Returns 0, rt_wqueue_remove n (w\<lparr>wq_flag := RT_WQ_FLAG_CLEAN\<rparr>), k)
              else do {
                let w = rt_wqueue_add n w;
                (_, k) \<leftarrow> rt_thread_suspend c tid k;
                k \<leftarrow> (if tick \<noteq> - 1 then thread_timer_start c tid tick k else Some k);
                k \<leftarrow> kschedule c k;
                Some (Blocked, w, k) }) }) }"

definition rt_wqueue_wait_resumed :: "nat \<Rightarrow> rt_wqueue \<Rightarrow> int \<times> rt_wqueue" where
  "rt_wqueue_wait_resumed n w = (0, rt_wqueue_remove n (w\<lparr>wq_flag := RT_WQ_FLAG_CLEAN\<rparr>))"

text \<open>A thread that gives way on no list of the kernel, with its timer started or not.\<close>

lemma pause_ok:
  assumes ok: "okc c k" "running c k" and tick: "tick \<noteq> - 1 \<longrightarrow> tick < TICK_HALF"
  defines "t \<equiv> rt_thread_self c k"
  shows "\<exists>k1 k2 k'. rt_thread_suspend c t k = Some (RT_EOK, k1) \<and>
    (if tick \<noteq> - 1 then thread_timer_start c t tick k1 else Some k1) = Some k2 \<and> kschedule c k2 = Some k' \<and> okc c k' \<and>
    stat_base (th_stat (thread k' t)) = RT_THREAD_SUSPEND \<and> (timer_activated (ThTimer t) (k_o k') \<longleftrightarrow> tick \<noteq> - 1) \<and>
    (\<forall>g. \<not> is_ready g \<longrightarrow> s_list (k_s k') g = s_list (k_s k) g)"
proof -
  have t0: "t \<noteq> 0" and kv: "kinv k" using ok(1) by (simp_all add: okc_def t_def)
  have st: "stat_base (th_stat (thread k t)) = 3" using ok(2) by (simp add: running_def t_def)
  then have obj: "thread_obj t (k_o k)" using kok_obj [OF okc_kok [OF ok(1)] t0] by (simp add: live_def)
  then have tok: "timer_ok (ThTimer t) (k_o k)" by (simp add: thread_obj_def)
  obtain s1 where s1: "rt_thread_suspend c t k = Some (RT_EOK, k\<lparr>k_s := s1\<rparr>)" "kok s1 (k_o k)"
    "s_list s1 = (\<lambda>h. filter (\<lambda>x. x \<noteq> t) (s_list (k_s k) h))"
    "s_thread s1 = (s_thread (k_s k))(t := with_stat RT_THREAD_SUSPEND (thread k t))"
    "\<forall>d. \<exists>g. s_cpu s1 d = (s_cpu (k_s k) d)\<lparr>cpu_priority_group := g\<rparr>"
    using suspend_ok [OF kv t0, of c] st t_def by auto
  have cur: "current c s1 = current c (k_s k)" using spec [OF s1(5), of c] by auto
  let ?k1 = "k\<lparr>k_s := s1\<rparr>"
  have kk: "kok (k_s ?k1) (k_o ?k1)" "stat_base (th_stat (thread ?k1 t)) = 2" using s1(2,4) by simp_all
  have na: "\<not> timer_activated (ThTimer t) (k_o k)"
    using okc_kok [OF ok(1)] st by (auto simp: kok_def)
  obtain x where x: "(if tick \<noteq> - 1 then thread_timer_start c t tick ?k1 else Some ?k1) = Some (?k1\<lparr>k_o := x\<rparr>)" "kok s1 x"
    "timer_activated (ThTimer t) x \<longleftrightarrow> tick \<noteq> - 1"
  proof (cases "tick = - 1")
    case True
    then show ?thesis using that [of "k_o k"] s1(2) na by simp
  next
    case False
    then have h: "tick < TICK_HALF" using tick by simp
    show ?thesis
      using that [of "started (rt_tick_get c ?k1) t tick (k_o k)"] thread_timer_start_ok [OF kk(1) t0 kk(2) h, of c] started_facts [OF tok h] False by simp
  qed
  have stacks: "all_stacks s1" using ok(1) st by (auto simp: okc_def all_stacks_def s1(4) live_def)
  have "okc c (?k1\<lparr>k_o := x\<rparr>)" using x(2) ok(1) cur stacks by (simp add: okc_def kinv_def rt_thread_self_def)
  from kschedule_ok [OF this] obtain s' where s': "kschedule c (?k1\<lparr>k_o := x\<rparr>) = Some (?k1\<lparr>k_o := x, k_s := s'\<rparr>)"
    "okc c (?k1\<lparr>k_o := x, k_s := s'\<rparr>)" "sframe s1 s'" "\<forall>h. \<not> is_ready h \<longrightarrow> s_list s' h = s_list s1 h" by auto
  have nl: "t \<notin> set (s_list (k_s k) g)" for g
    using running_no_list [of "k_s k" t] okc_kok [OF ok(1)] st by (auto simp: kok_def sched_inv_def in_no_list_def)
  have "same_run (s_thread s1 t) (s_thread s' t)" using s'(3) by (simp add: sframe_def)
  then have "stat_base (th_stat (s_thread s' t)) = 2" by (auto simp: same_run_def s1(4))
  moreover have "s_list s' g = s_list (k_s k) g" if "\<not> is_ready g" for g
    using s'(4) that nl by (simp add: s1(3) filter_neq_id)
  ultimately show ?thesis
    using s1(1) x(1,3) s'(1,2) by (intro exI [of _ ?k1] exI [of _ "?k1\<lparr>k_o := x\<rparr>"] exI [of _ "?k1\<lparr>k_o := x, k_s := s'\<rparr>"]) simp
qed

lemma resume_schedule_ok:
  assumes ok: "okc c k" and t: "t \<noteq> 0" "stat_base (th_stat (thread k t)) = RT_THREAD_SUSPEND"
  shows "\<exists>k1 k'. rt_thread_resume c t k = Some (RT_EOK, k1) \<and> kschedule c k1 = Some k' \<and> okc c k' \<and>
    stat_base (th_stat (thread k' t)) \<in> {RT_THREAD_READY, RT_THREAD_RUNNING} \<and> \<not> timer_activated (ThTimer t) (k_o k')"
proof -
  obtain s1 where s1: "rt_thread_resume c t k = Some (RT_EOK, k\<lparr>k_s := s1, k_o := stopped t (k_o k)\<rparr>)"
    "okc c (k\<lparr>k_s := s1, k_o := stopped t (k_o k)\<rparr>)" "woken t (k_s k) s1"
    using resume_woken [OF ok t] by blast
  let ?k1 = "k\<lparr>k_s := s1, k_o := stopped t (k_o k)\<rparr>"
  obtain s' where s': "kschedule c ?k1 = Some (?k1\<lparr>k_s := s'\<rparr>)" "okc c (?k1\<lparr>k_s := s'\<rparr>)" "sframe s1 s'"
    using kschedule_ok [OF s1(2)] by auto
  have "same_run (s_thread s1 t) (s_thread s' t)" using s'(3) by (simp add: sframe_def)
  moreover have "stat_base (th_stat (s_thread s1 t)) \<in> {1, 3}" using s1(3) by (simp add: woken_def Let_def)
  ultimately have "stat_base (th_stat (s_thread s' t)) \<in> {1, 3}" by (auto simp: same_run_def)
  moreover have "\<not> timer_activated (ThTimer t) (k_o (?k1\<lparr>k_s := s'\<rparr>))" by simp
  ultimately show ?thesis using s1(1) s' by (intro exI [of _ ?k1] exI [of _ "?k1\<lparr>k_s := s'\<rparr>"]) simp
qed

subsection \<open>Properties\<close>

text \<open>Fact: A completion: once done, a wait returns at once and takes the flag; otherwise a wait refuses at once or makes the thread wait,
  the only one that can, and being done wakes it.\<close>

theorem rt_completion_ops:
  assumes "okc c k" "a \<noteq> 0" "timeout \<noteq> 0 \<longrightarrow> may_wait c (rt_thread_self c k) timeout k"
  shows "rt_completion_wait c a timeout RT_COMPLETED k = Some (Returns RT_EOK, RT_UNCOMPLETED, k) \<and>
    rt_completion_done c a RT_COMPLETED k = Some (RT_COMPLETED, k) \<and>
    (case s_list (k_s k) (Suspend a) of
       [] \<Rightarrow> rt_completion_done c a RT_UNCOMPLETED k = Some (RT_COMPLETED, k) \<and>
         (if timeout = 0 then rt_completion_wait c a timeout RT_UNCOMPLETED k = Some (Returns (- RT_ETIMEOUT), RT_UNCOMPLETED, k)
          else \<exists>k1 k2. rt_completion_wait c a timeout RT_UNCOMPLETED k = Some (Blocked, RT_UNCOMPLETED, k1) \<and> okc c k1 \<and>
            waits c (Suspend a) (rt_thread_self c k) RT_IPC_FLAG_FIFO timeout k k1 \<and>
            rt_completion_done c a RT_UNCOMPLETED k1 = Some (RT_COMPLETED, k2) \<and> okc c k2 \<and>
            wakes (Suspend a) (rt_thread_self c k) [] k1 k2 \<and>
            rt_completion_wait_resumed (rt_thread_self c k) RT_COMPLETED k2 = (RT_EOK, RT_UNCOMPLETED))
     | u # us \<Rightarrow> rt_completion_wait c a timeout RT_UNCOMPLETED k = None \<and>
         (\<exists>k'. rt_completion_done c a RT_UNCOMPLETED k = Some (RT_COMPLETED, k') \<and> okc c k' \<and> wakes (Suspend a) u us k k'))"
proof -
  let ?t = "rt_thread_self c k"
  have done_ok: "\<exists>k'. rt_completion_done c a RT_UNCOMPLETED k0 = Some (RT_COMPLETED, k') \<and> okc c k' \<and> wakes (Suspend a) u us k0 k'"
    if "okc c k0" "s_list (k_s k0) (Suspend a) = u # us" for k0 u us
  proof -
    note h = that
    obtain k' where "do { k1 \<leftarrow> ipc_list_resume c (Suspend a) k0; kschedule c k1 } = Some k'" "okc c k'" "wakes (Suspend a) u us k0 k'"
      using wake_plain_ok [OF h(1) _ _ h(2)] by auto
    then show ?thesis using assms(2) h(2) by (auto simp: rt_completion_done_def bind_eq_Some_conv)
  qed
  have wait_ok: "\<exists>k1 k2. rt_completion_wait c a timeout RT_UNCOMPLETED k = Some (Blocked, RT_UNCOMPLETED, k1) \<and> okc c k1 \<and>
      waits c (Suspend a) ?t RT_IPC_FLAG_FIFO timeout k k1 \<and> rt_completion_done c a RT_UNCOMPLETED k1 = Some (RT_COMPLETED, k2) \<and> okc c k2 \<and>
      wakes (Suspend a) ?t [] k1 k2 \<and> rt_completion_wait_resumed ?t RT_COMPLETED k2 = (RT_EOK, RT_UNCOMPLETED)"
    if "timeout \<noteq> 0" "s_list (k_s k) (Suspend a) = []"
  proof -
    have m: "may_wait c ?t timeout k" using assms(3) that(1) by simp
    obtain k1 where k1: "dq_wait c (Suspend a) ?t timeout k = Some k1" "okc c k1" "waits c (Suspend a) ?t RT_IPC_FLAG_FIFO timeout k k1"
      using dq_wait_ok [OF assms(1) m, of "Suspend a"] by auto
    have l: "s_list (k_s k1) (Suspend a) = [?t]" "th_error (thread k1 ?t) = RT_EOK"
      using k1(3) that(2) by (simp_all add: waits_def enq_def)
    obtain k2 where k2: "rt_completion_done c a RT_UNCOMPLETED k1 = Some (RT_COMPLETED, k2)" "okc c k2" "wakes (Suspend a) ?t [] k1 k2"
      using done_ok [OF k1(2) l(1)] by blast
    have "rt_completion_wait c a timeout RT_UNCOMPLETED k = Some (Blocked, RT_UNCOMPLETED, k1)"
      using assms(2) that k1(1) unfolding wait_as_dq_wait [OF assms(1) m, of a, symmetric]
      by (auto simp: rt_completion_wait_def Let_def bind_eq_Some_conv)
    moreover have "th_error (thread k2 ?t) = RT_EOK" using k2(3) l(2) by (simp add: wakes_def)
    ultimately show ?thesis using k1 k2 by (auto simp: rt_completion_wait_resumed_def)
  qed
  show ?thesis
    using assms(2) done_ok [OF assms(1)] wait_ok
    by (cases "s_list (k_s k) (Suspend a)") (auto simp: rt_completion_wait_def rt_completion_done_def Let_def)
qed

theorem rt_completion_ops_witness:
  "rt_completion_wait 0 100 0 1 (sample_kernel 5) = Some (Returns 0, 0, sample_kernel 5)"
  using rt_completion_ops [OF sample_okc, of 100 0 5] by simp

text \<open>Waking: the first node whose function takes the wake-up, if there is one.\<close>

abbreviation takes :: "nat \<Rightarrow> rt_wqueue \<Rightarrow> nat \<Rightarrow> bool" where
  "takes wkey w n \<equiv> wn_wakeup (wq_node w n) wkey = 0"

lemma wqueue_scan_None: "wqueue_scan wkey node ns = None \<longleftrightarrow> (\<forall>n \<in> set ns. wn_wakeup (node n) wkey \<noteq> 0)"
  by (induction ns) auto

lemma wqueue_scan_first:
  "\<forall>m \<in> set xs. wn_wakeup (node m) wkey \<noteq> 0 \<Longrightarrow> wn_wakeup (node n) wkey = 0 \<Longrightarrow> wqueue_scan wkey node (xs @ n # ys) = Some n"
  by (induction xs) auto

lemma resume_any_ok:
  assumes ok: "okc c k" and t: "t \<noteq> 0" "live (thread k t)"
  shows "\<exists>r k1 k'. rt_thread_resume c t k = Some (r, k1) \<and> kschedule c k1 = Some k' \<and> okc c k' \<and>
    (stat_base (th_stat (thread k t)) = RT_THREAD_SUSPEND \<longrightarrow>
       stat_base (th_stat (thread k' t)) \<in> {RT_THREAD_READY, RT_THREAD_RUNNING} \<and> \<not> timer_activated (ThTimer t) (k_o k'))"
proof (cases "stat_base (th_stat (thread k t)) = RT_THREAD_SUSPEND")
  case True
  then show ?thesis using resume_schedule_ok [OF ok t(1) True] by blast
next
  case False
  have "thread_obj t (k_o k)" by (rule kok_obj [OF okc_kok [OF ok] t])
  then have "rt_thread_resume c t k = Some (- RT_ERROR, k)" using False t(1) by (simp add: rt_thread_resume_def thread_obj_def)
  then show ?thesis using kschedule_ok [OF ok] False by auto
qed

lemma wqueue_wakeup_ok:
  assumes "okc c k" "wq_waiting_list w = xs @ n # ys" "\<forall>m \<in> set xs. \<not> takes wkey w m" "takes wkey w n" "distinct (wq_waiting_list w)"
    and t: "wn_polling_thread (wq_node w n) \<noteq> 0" "live (thread k (wn_polling_thread (wq_node w n)))"
  shows "\<exists>k'. rt_wqueue_wakeup c wkey w k = Some (w\<lparr>wq_flag := RT_WQ_FLAG_WAKEUP, wq_waiting_list := xs @ ys\<rparr>, k') \<and> okc c k' \<and>
    (stat_base (th_stat (thread k (wn_polling_thread (wq_node w n)))) = RT_THREAD_SUSPEND \<longrightarrow>
       stat_base (th_stat (thread k' (wn_polling_thread (wq_node w n)))) \<in> {RT_THREAD_READY, RT_THREAD_RUNNING} \<and>
       \<not> timer_activated (ThTimer (wn_polling_thread (wq_node w n))) (k_o k'))"
proof -
  have "filter (\<lambda>x. x \<noteq> n) (wq_waiting_list w) = xs @ ys" using assms(2,5) by (simp add: filter_neq_id)
  moreover have "wqueue_scan wkey (wq_node w) (xs @ n # ys) = Some n" using assms(3,4) by (intro wqueue_scan_first)
  ultimately show ?thesis using resume_any_ok [OF assms(1) t] assms(2)
    by (force simp: rt_wqueue_wakeup_def rt_wqueue_remove_def bind_eq_Some_conv)
qed

lemma wqueue_wait_ok:
  assumes "okc c k" "running c k" "cpu_irq_nest (s_cpu (k_s k) c) = 0" "rt_tick_from_millisecond msec \<noteq> 0"
    and "rt_tick_from_millisecond msec \<noteq> - 1 \<longrightarrow> rt_tick_from_millisecond msec < TICK_HALF" "wq_flag w \<noteq> RT_WQ_FLAG_WAKEUP"
  shows "\<exists>w' k'. rt_wqueue_wait c n False msec w k = Some (Blocked, w', k') \<and> okc c k' \<and>
    w' = w\<lparr>wq_waiting_list := wq_waiting_list w @ [n],
      wq_node := (wq_node w)(n := \<lparr>wn_polling_thread = rt_thread_self c k, wn_wakeup = wqueue_default_wake\<rparr>)\<rparr> \<and>
    stat_base (th_stat (thread k' (rt_thread_self c k))) = RT_THREAD_SUSPEND \<and>
    (timer_activated (ThTimer (rt_thread_self c k)) (k_o k') \<longleftrightarrow> rt_tick_from_millisecond msec \<noteq> - 1)"
proof -
  let ?t = "rt_thread_self c k" and ?tick = "rt_tick_from_millisecond msec"
  have nest: "not_in_interrupt c k = Some ()" by (rule in_context(1) [OF assms(3)])
  obtain k0 k' k1 where p: "rt_thread_suspend c ?t k = Some (RT_EOK, k0)"
    "(if ?tick \<noteq> - 1 then thread_timer_start c ?t ?tick k0 else Some k0) = Some k'" "kschedule c k' = Some k1" "okc c k1"
    "stat_base (th_stat (thread k1 ?t)) = RT_THREAD_SUSPEND" "timer_activated (ThTimer ?t) (k_o k1) \<longleftrightarrow> ?tick \<noteq> - 1"
    using pause_ok [OF assms(1,2,5)] by blast
  have "rt_wqueue_wait c n False msec w k = Some (Blocked, w\<lparr>wq_waiting_list := wq_waiting_list w @ [n],
      wq_node := (wq_node w)(n := \<lparr>wn_polling_thread = ?t, wn_wakeup = wqueue_default_wake\<rparr>)\<rparr>, k1)"
    using nest assms(4,6) p(1-3) by (simp add: rt_wqueue_wait_def Let_def rt_wqueue_add_def bind_eq_Some_conv)
  then show ?thesis using p(4-6) by blast
qed

text \<open>C26: A wake-up goes to the first thread of the wait queue whose function takes it, which is made runnable and whose node is
  unlinked, the others staying in their order; when none takes it the queue stays as it is.  Either way its flag is set,
  and the next wait returns at once and clears it.  A wait that finds the flag clear, its condition false
  and a time-out other than 0 makes the thread wait at the end of the queue, with its timer started exactly if the
  time-out is finite, and a wake-up then reaches it there: when no other node in front takes it, the thread is runnable
  again, its timer is stopped, and its node is gone when it goes on, which clears the flag.\<close>

theorem rt_wqueue_wait_wakeup:
  assumes "okc c k" "running c k" "cpu_irq_nest (s_cpu (k_s k) c) = 0"
    and "rt_tick_from_millisecond msec \<noteq> - 1 \<longrightarrow> rt_tick_from_millisecond msec < TICK_HALF"
    and "distinct (wq_waiting_list w)" "n \<notin> set (wq_waiting_list w)"
  defines "t \<equiv> rt_thread_self c k"
  shows "((\<forall>m \<in> set (wq_waiting_list w). \<not> takes wkey w m) \<longrightarrow>
      rt_wqueue_wakeup c wkey w k = Some (w\<lparr>wq_flag := RT_WQ_FLAG_WAKEUP\<rparr>, k)) \<and>
    (\<forall>xs m ys. wq_waiting_list w = xs @ m # ys \<and> (\<forall>x \<in> set xs. \<not> takes wkey w x) \<and> takes wkey w m \<and>
        wn_polling_thread (wq_node w m) \<noteq> 0 \<and> live (thread k (wn_polling_thread (wq_node w m))) \<longrightarrow>
      (\<exists>k'. rt_wqueue_wakeup c wkey w k = Some (w\<lparr>wq_flag := RT_WQ_FLAG_WAKEUP, wq_waiting_list := xs @ ys\<rparr>, k') \<and> okc c k' \<and>
        (stat_base (th_stat (thread k (wn_polling_thread (wq_node w m)))) = RT_THREAD_SUSPEND \<longrightarrow>
           stat_base (th_stat (thread k' (wn_polling_thread (wq_node w m)))) \<in> {RT_THREAD_READY, RT_THREAD_RUNNING} \<and>
           \<not> timer_activated (ThTimer (wn_polling_thread (wq_node w m))) (k_o k')))) \<and>
    (if condition \<or> rt_tick_from_millisecond msec = 0 then rt_wqueue_wait c n condition msec w k = Some (Returns 0, w, k)
     else if wq_flag w = RT_WQ_FLAG_WAKEUP
     then \<exists>w'. rt_wqueue_wait c n condition msec w k = Some (Returns 0, w', k) \<and>
       wq_flag w' = RT_WQ_FLAG_CLEAN \<and> wq_waiting_list w' = wq_waiting_list w \<and> (\<forall>m. m \<noteq> n \<longrightarrow> wq_node w' m = wq_node w m)
     else \<exists>w1 k1. rt_wqueue_wait c n condition msec w k = Some (Blocked, w1, k1) \<and> okc c k1 \<and>
       wq_flag w1 = wq_flag w \<and> wq_waiting_list w1 = wq_waiting_list w @ [n] \<and> wn_polling_thread (wq_node w1 n) = t \<and>
       (\<forall>m. m \<noteq> n \<longrightarrow> wq_node w1 m = wq_node w m) \<and> stat_base (th_stat (thread k1 t)) = RT_THREAD_SUSPEND \<and>
       (timer_activated (ThTimer t) (k_o k1) \<longleftrightarrow> rt_tick_from_millisecond msec \<noteq> - 1) \<and>
       ((\<forall>m \<in> set (wq_waiting_list w). \<not> takes wkey w m) \<longrightarrow>
          (\<exists>w2 k2. rt_wqueue_wakeup c wkey w1 k1 = Some (w2, k2) \<and> okc c k2 \<and> wq_waiting_list w2 = wq_waiting_list w \<and>
             stat_base (th_stat (thread k2 t)) \<in> {RT_THREAD_READY, RT_THREAD_RUNNING} \<and> \<not> timer_activated (ThTimer t) (k_o k2) \<and>
             rt_wqueue_wait_resumed n w2 = (0, w2\<lparr>wq_flag := RT_WQ_FLAG_CLEAN\<rparr>))))"
proof -
  have nest: "not_in_interrupt c k = Some ()" by (rule in_context(1) [OF assms(3)])
  have t0: "t \<noteq> 0" unfolding t_def by (rule okc_self [OF assms(1)])
  have none: "rt_wqueue_wakeup c wkey w k = Some (w\<lparr>wq_flag := RT_WQ_FLAG_WAKEUP\<rparr>, k)" if "\<forall>m \<in> set (wq_waiting_list w). \<not> takes wkey w m"
    using that wqueue_scan_None [of wkey "wq_node w" "wq_waiting_list w"] by (simp add: rt_wqueue_wakeup_def)
  have waked: "\<exists>w'. rt_wqueue_wait c n condition msec w k = Some (Returns 0, w', k) \<and>
       wq_flag w' = RT_WQ_FLAG_CLEAN \<and> wq_waiting_list w' = wq_waiting_list w \<and> (\<forall>m. m \<noteq> n \<longrightarrow> wq_node w' m = wq_node w m)"
    if "\<not> condition" "rt_tick_from_millisecond msec \<noteq> 0" "wq_flag w = RT_WQ_FLAG_WAKEUP"
    using nest that assms(6) by (simp add: rt_wqueue_wait_def rt_wqueue_remove_def filter_neq_id)
  have blocks: "\<exists>w1 k1. rt_wqueue_wait c n condition msec w k = Some (Blocked, w1, k1) \<and> okc c k1 \<and>
       wq_flag w1 = wq_flag w \<and> wq_waiting_list w1 = wq_waiting_list w @ [n] \<and> wn_polling_thread (wq_node w1 n) = t \<and>
       (\<forall>m. m \<noteq> n \<longrightarrow> wq_node w1 m = wq_node w m) \<and> stat_base (th_stat (thread k1 t)) = RT_THREAD_SUSPEND \<and>
       (timer_activated (ThTimer t) (k_o k1) \<longleftrightarrow> rt_tick_from_millisecond msec \<noteq> - 1) \<and>
       ((\<forall>m \<in> set (wq_waiting_list w). \<not> takes wkey w m) \<longrightarrow>
          (\<exists>w2 k2. rt_wqueue_wakeup c wkey w1 k1 = Some (w2, k2) \<and> okc c k2 \<and> wq_waiting_list w2 = wq_waiting_list w \<and>
             stat_base (th_stat (thread k2 t)) \<in> {RT_THREAD_READY, RT_THREAD_RUNNING} \<and> \<not> timer_activated (ThTimer t) (k_o k2) \<and>
             rt_wqueue_wait_resumed n w2 = (0, w2\<lparr>wq_flag := RT_WQ_FLAG_CLEAN\<rparr>)))"
    if "\<not> condition" "rt_tick_from_millisecond msec \<noteq> 0" "wq_flag w \<noteq> RT_WQ_FLAG_WAKEUP"
  proof -
    note h = that
    obtain w1 k1 where w1: "rt_wqueue_wait c n condition msec w k = Some (Blocked, w1, k1)" "okc c k1"
      "w1 = w\<lparr>wq_waiting_list := wq_waiting_list w @ [n], wq_node := (wq_node w)(n := \<lparr>wn_polling_thread = t, wn_wakeup = wqueue_default_wake\<rparr>)\<rparr>"
      "stat_base (th_stat (thread k1 t)) = RT_THREAD_SUSPEND" "timer_activated (ThTimer t) (k_o k1) \<longleftrightarrow> rt_tick_from_millisecond msec \<noteq> - 1"
      using wqueue_wait_ok [OF assms(1-3) h(2) assms(4) h(3), of n] h(1) unfolding t_def by auto
    have p: "wn_polling_thread (wq_node w1 n) = t" by (simp add: w1(3))
    have lv: "live (thread k1 t)" using w1(4) by (simp add: live_def)
    have "\<exists>w2 k2. rt_wqueue_wakeup c wkey w1 k1 = Some (w2, k2) \<and> okc c k2 \<and> wq_waiting_list w2 = wq_waiting_list w \<and>
             stat_base (th_stat (thread k2 t)) \<in> {RT_THREAD_READY, RT_THREAD_RUNNING} \<and> \<not> timer_activated (ThTimer t) (k_o k2) \<and>
             rt_wqueue_wait_resumed n w2 = (0, w2\<lparr>wq_flag := RT_WQ_FLAG_CLEAN\<rparr>)" if r: "\<forall>m \<in> set (wq_waiting_list w). \<not> takes wkey w m"
    proof -
      have no: "\<forall>m \<in> set (wq_waiting_list w). \<not> takes wkey w1 m" using r assms(6) by (auto simp: w1(3))
      have own: "takes wkey w1 n" by (simp add: w1(3) wqueue_default_wake_def)
      have d: "wq_waiting_list w1 = wq_waiting_list w @ n # []" "distinct (wq_waiting_list w1)" using assms(5,6) by (simp_all add: w1(3))
      obtain k2 where k2: "rt_wqueue_wakeup c wkey w1 k1 = Some (w1\<lparr>wq_flag := RT_WQ_FLAG_WAKEUP, wq_waiting_list := wq_waiting_list w @ []\<rparr>, k2)" "okc c k2"
        "stat_base (th_stat (thread k2 t)) \<in> {RT_THREAD_READY, RT_THREAD_RUNNING}" "\<not> timer_activated (ThTimer t) (k_o k2)"
        using wqueue_wakeup_ok [OF w1(2) d(1) no own d(2)] t0 lv w1(4) unfolding p by auto
      then show ?thesis using assms(6) by (auto simp: rt_wqueue_wait_resumed_def rt_wqueue_remove_def filter_neq_id)
    qed
    then show ?thesis using w1 by auto
  qed
  have first: "\<forall>xs m ys. wq_waiting_list w = xs @ m # ys \<and> (\<forall>x \<in> set xs. \<not> takes wkey w x) \<and> takes wkey w m \<and>
        wn_polling_thread (wq_node w m) \<noteq> 0 \<and> live (thread k (wn_polling_thread (wq_node w m))) \<longrightarrow>
      (\<exists>k'. rt_wqueue_wakeup c wkey w k = Some (w\<lparr>wq_flag := RT_WQ_FLAG_WAKEUP, wq_waiting_list := xs @ ys\<rparr>, k') \<and> okc c k' \<and>
        (stat_base (th_stat (thread k (wn_polling_thread (wq_node w m)))) = RT_THREAD_SUSPEND \<longrightarrow>
           stat_base (th_stat (thread k' (wn_polling_thread (wq_node w m)))) \<in> {RT_THREAD_READY, RT_THREAD_RUNNING} \<and>
           \<not> timer_activated (ThTimer (wn_polling_thread (wq_node w m))) (k_o k')))"
    using wqueue_wakeup_ok [OF assms(1) _ _ _ assms(5)] by blast
  have quick: "rt_wqueue_wait c n condition msec w k = Some (Returns 0, w, k)" if "condition \<or> rt_tick_from_millisecond msec = 0"
    using nest that by (simp add: rt_wqueue_wait_def Let_def)
  show ?thesis using none first quick waked blocks by (cases "condition \<or> rt_tick_from_millisecond msec = 0"; cases "wq_flag w = RT_WQ_FLAG_WAKEUP") simp_all
qed

theorem rt_wqueue_wait_wakeup_witness:
  "\<exists>w1 k1. rt_wqueue_wait 0 8 False 5 \<lparr>wq_flag = 0, wq_waiting_list = [], wq_node = \<lambda>_. \<lparr>wn_polling_thread = 0, wn_wakeup = \<lambda>_. 0\<rparr>\<rparr> (sample_kernel 2) =
     Some (Blocked, w1, k1) \<and> wq_waiting_list w1 = [8] \<and>
     (\<exists>w2 k2. rt_wqueue_wakeup 0 1 w1 k1 = Some (w2, k2) \<and> wq_waiting_list w2 = [] \<and>
        stat_base (th_stat (thread k2 (rt_thread_self 0 (sample_kernel 2)))) \<in> {RT_THREAD_READY, RT_THREAD_RUNNING})"
proof -
  have "rt_tick_from_millisecond 5 = 5" by (simp add: rt_tick_from_millisecond_def)
  then show ?thesis
    using rt_wqueue_wait_wakeup [OF sample_okc [of 2] sample_running(1), of 5 "\<lparr>wq_flag = 0, wq_waiting_list = [], wq_node = \<lambda>_. \<lparr>wn_polling_thread = 0, wn_wakeup = \<lambda>_. 0\<rparr>\<rparr>" 8 1 False]
    by auto
qed

text \<open>A second wake-up before the woken thread goes on is lost: it finds no node, and the thread then clears the flag it has set, so that
  the next wait does not return.\<close>

lemma second_wakeup_lost:
  assumes "okc c k" "running c k" "cpu_irq_nest (s_cpu (k_s k) c) = 0" "rt_tick_from_millisecond msec \<noteq> 0"
    and "rt_tick_from_millisecond msec \<noteq> - 1 \<longrightarrow> rt_tick_from_millisecond msec < TICK_HALF"
    and "wq_waiting_list w = []" "rt_wqueue_wakeup c wkey w k = Some (w1, k0)" "rt_wqueue_wait_resumed n w1 = (0, w2)"
  shows "\<exists>w3 k3. rt_wqueue_wait c n False msec w2 k = Some (Blocked, w3, k3)"
proof -
  have "wq_flag w2 = RT_WQ_FLAG_CLEAN" using assms(8) by (auto simp: rt_wqueue_wait_resumed_def rt_wqueue_remove_def)
  then show ?thesis using wqueue_wait_ok [OF assms(1-5), of w2 n] by auto
qed

end
