(* ===== verification/Device.thy ===== *)
theory Device
  imports Completion Mempool
begin

section \<open>The device framework (\<open>src/device.c\<close>)\<close>

text \<open>
  Devices are kernel objects (the device at \<open>a\<close> is \<open>Obj a\<close>) with flags, a count of how often they
  have been opened and the functions of a driver.  Those functions are a parameter, \<open>drv\<close>: each
  yields its result and what it leaves of the device's record; \<open>None\<close> is a null pointer.
\<close>

abbreviation (input) RT_Object_Class_Device :: u8 where "RT_Object_Class_Device \<equiv> 9"
abbreviation (input) RT_DEVICE_FLAG_STANDALONE :: u16 where "RT_DEVICE_FLAG_STANDALONE \<equiv> 8"
abbreviation (input) RT_DEVICE_FLAG_ACTIVATED :: u16 where "RT_DEVICE_FLAG_ACTIVATED \<equiv> 0x10"
abbreviation (input) RT_DEVICE_OFLAG_CLOSE :: u16 where "RT_DEVICE_OFLAG_CLOSE \<equiv> 0"
abbreviation (input) RT_DEVICE_OFLAG_OPEN :: u16 where "RT_DEVICE_OFLAG_OPEN \<equiv> 8"
abbreviation (input) RT_DEVICE_OFLAG_MASK :: u16 where "RT_DEVICE_OFLAG_MASK \<equiv> 0xf0f"
abbreviation (input) RT_ENOSYS :: rt_err where "RT_ENOSYS \<equiv> 6"

record rt_device =
  dev_type :: nat
  dev_flag :: u16
  dev_open_flag :: u16
  dev_ref_count :: u8
  dev_rx_indicate :: nat
  dev_tx_complete :: nat
  dev_fops :: nat
  dev_wait_queue :: rt_wqueue

record driver =
  drv_init :: "(rt_device \<Rightarrow> rt_err \<times> rt_device) option"
  drv_open :: "(rt_device \<Rightarrow> u16 \<Rightarrow> rt_err \<times> rt_device) option"
  drv_close :: "(rt_device \<Rightarrow> rt_err \<times> rt_device) option"
  drv_read :: "(rt_device \<Rightarrow> int \<Rightarrow> u64 \<Rightarrow> u64 \<times> u8 list \<times> rt_device) option"
  drv_write :: "(rt_device \<Rightarrow> int \<Rightarrow> u8 list \<Rightarrow> u64 \<times> rt_device) option"
  drv_control :: "(rt_device \<Rightarrow> int \<Rightarrow> u64 \<Rightarrow> rt_err \<times> rt_device) option"

text \<open>0 for \<open>RT_NULL\<close>.\<close>

definition rt_device_find :: "u8 list \<Rightarrow> kernel \<Rightarrow> nat" where
  "rt_device_find name k = (case rt_object_find name RT_Object_Class_Device (k_o k) of Some (Obj a) \<Rightarrow> a | _ \<Rightarrow> 0)"

definition rt_device_register :: "nat \<Rightarrow> u8 list \<Rightarrow> u16 \<Rightarrow> rt_device \<Rightarrow> kernel \<Rightarrow> (rt_err \<times> rt_device \<times> kernel) option" where
  "rt_device_register a name flags d k =
     (if a = 0 then Some (- RT_ERROR, d, k)
      else if rt_device_find name k \<noteq> 0 then Some (- RT_ERROR, d, k)
      else do {
        k \<leftarrow> lift_o (rt_object_init (Obj a) RT_Object_Class_Device name) k;
        let d = d\<lparr>dev_flag := flags, dev_ref_count := 0, dev_open_flag := 0\<rparr>;
        let d = d\<lparr>dev_fops := 0, dev_wait_queue := rt_wqueue_init (dev_wait_queue d)\<rparr>;
        Some (RT_EOK, d, k) })"

definition rt_device_unregister :: "nat \<Rightarrow> kernel \<Rightarrow> (rt_err \<times> kernel) option" where
  "rt_device_unregister a k =
     do { rt_assert (a \<noteq> 0);
          rt_assert (is_obj a RT_Object_Class_Device k);
          rt_assert (rt_object_is_systemobject (Obj a) (k_o k));
          k \<leftarrow> lift_o (rt_object_detach (Obj a)) k;
          Some (RT_EOK, k) }"

text \<open>\<open>mem\<close> is what \<open>rt_malloc\<close> gives; the block is cleared, the object in it too.\<close>

definition rt_device_create :: "nat \<Rightarrow> nat \<Rightarrow> rt_device \<Rightarrow> kernel \<Rightarrow> nat \<times> rt_device \<times> kernel" where
  "rt_device_create mem ty d k =
     (if mem = 0 then (0, d, k)
      else (mem,
        \<lparr>dev_type = ty, dev_flag = 0, dev_open_flag = 0, dev_ref_count = 0, dev_rx_indicate = 0, dev_tx_complete = 0,
         dev_fops = 0, dev_wait_queue = \<lparr>wq_flag = 0, wq_waiting_list = [], wq_node = wq_node (dev_wait_queue d)\<rparr>\<rparr>,
        on_o (upd_obj (Obj mem) (\<lambda>_. \<lparr>o_name = replicate 8 0, o_type = 0, o_flag = 0\<rparr>)) k))"

definition rt_device_destroy :: "nat \<Rightarrow> kernel \<Rightarrow> kernel option" where
  "rt_device_destroy a k =
     do { rt_assert (a \<noteq> 0);
          rt_assert (is_obj a RT_Object_Class_Device k);
          rt_assert (\<not> rt_object_is_systemobject (Obj a) (k_o k));
          lift_o (rt_object_detach (Obj a)) k }"

definition activated :: "rt_device \<Rightarrow> bool" where
  "activated d \<longleftrightarrow> dev_flag d AND RT_DEVICE_FLAG_ACTIVATED \<noteq> 0"

definition activate :: "rt_device \<Rightarrow> rt_device" where
  "activate d = d\<lparr>dev_flag := dev_flag d OR RT_DEVICE_FLAG_ACTIVATED\<rparr>"

definition rt_device_init :: "driver \<Rightarrow> nat \<Rightarrow> rt_device \<Rightarrow> (rt_err \<times> rt_device) option" where
  "rt_device_init drv a d =
     do { rt_assert (a \<noteq> 0);
          Some (case drv_init drv of
            None \<Rightarrow> (RT_EOK, d)
          | Some init \<Rightarrow>
              if \<not> activated d
              then let (result, d) = init d
                   in if result \<noteq> RT_EOK then (result, d) else (result, activate d)
              else (RT_EOK, d)) }"

text \<open>The end of \<open>rt_device_open\<close>: the count must not wrap.\<close>

definition device_opened :: "rt_err \<Rightarrow> rt_device \<Rightarrow> (rt_err \<times> rt_device) option" where
  "device_opened result d =
     (if result = RT_EOK \<or> result = - RT_ENOSYS
      then do { let d = d\<lparr>dev_open_flag := dev_open_flag d OR RT_DEVICE_OFLAG_OPEN, dev_ref_count := dev_ref_count d + 1\<rparr>;
                rt_assert (dev_ref_count d \<noteq> 0);
                Some (result, d) }
      else Some (result, d))"

definition rt_device_open :: "driver \<Rightarrow> nat \<Rightarrow> u16 \<Rightarrow> rt_device \<Rightarrow> kernel \<Rightarrow> (rt_err \<times> rt_device) option" where
  "rt_device_open drv a oflag d k =
     do { rt_assert (a \<noteq> 0);
          rt_assert (is_obj a RT_Object_Class_Device k);
          let (result, d) =
            (if activated d then (RT_EOK, d)
             else case drv_init drv of
               None \<Rightarrow> (RT_EOK, activate d)
             | Some init \<Rightarrow> let (result, d) = init d in if result \<noteq> RT_EOK then (result, d) else (RT_EOK, activate d));
          (if result \<noteq> RT_EOK then Some (result, d)
           else if dev_flag d AND RT_DEVICE_FLAG_STANDALONE \<noteq> 0 \<and> dev_open_flag d AND RT_DEVICE_OFLAG_OPEN \<noteq> 0
           then Some (- RT_EBUSY, d)
           else case drv_open drv of
             Some opn \<Rightarrow> let (result, d) = opn d oflag in device_opened result d
           | None \<Rightarrow> device_opened RT_EOK (d\<lparr>dev_open_flag := oflag AND RT_DEVICE_OFLAG_MASK\<rparr>)) }"

definition rt_device_close :: "driver \<Rightarrow> nat \<Rightarrow> rt_device \<Rightarrow> kernel \<Rightarrow> (rt_err \<times> rt_device) option" where
  "rt_device_close drv a d k =
     do { rt_assert (a \<noteq> 0);
          rt_assert (is_obj a RT_Object_Class_Device k);
          (if dev_ref_count d = 0 then Some (- RT_ERROR, d)
           else do {
             let d = d\<lparr>dev_ref_count := dev_ref_count d - 1\<rparr>;
             (if dev_ref_count d \<noteq> 0 then Some (RT_EOK, d)
              else do {
                let (result, d) = (case drv_close drv of None \<Rightarrow> (RT_EOK, d) | Some cl \<Rightarrow> cl d);
                Some (result, if result = RT_EOK \<or> result = - RT_ENOSYS then d\<lparr>dev_open_flag := RT_DEVICE_OFLAG_CLOSE\<rparr> else d) }) }) }"

definition rt_device_read :: "nat \<Rightarrow> driver \<Rightarrow> nat \<Rightarrow> int \<Rightarrow> u64 \<Rightarrow> rt_device \<Rightarrow> kernel \<Rightarrow> (u64 \<times> u8 list \<times> rt_device \<times> kernel) option" where
  "rt_device_read c drv a pos sz d k =
     do { rt_assert (a \<noteq> 0);
          rt_assert (is_obj a RT_Object_Class_Device k);
          Some (if dev_ref_count d = 0 then (0, [], d, rt_set_errno c (- RT_ERROR) k)
                else case drv_read drv of
                  Some rd \<Rightarrow> let (n, bytes, d) = rd d pos sz in (n, bytes, d, k)
                | None \<Rightarrow> (0, [], d, rt_set_errno c (- RT_ENOSYS) k)) }"

definition rt_device_write :: "nat \<Rightarrow> driver \<Rightarrow> nat \<Rightarrow> int \<Rightarrow> u8 list \<Rightarrow> rt_device \<Rightarrow> kernel \<Rightarrow> (u64 \<times> rt_device \<times> kernel) option" where
  "rt_device_write c drv a pos buf d k =
     do { rt_assert (a \<noteq> 0);
          rt_assert (is_obj a RT_Object_Class_Device k);
          Some (if dev_ref_count d = 0 then (0, d, rt_set_errno c (- RT_ERROR) k)
                else case drv_write drv of
                  Some wr \<Rightarrow> let (n, d) = wr d pos buf in (n, d, k)
                | None \<Rightarrow> (0, d, rt_set_errno c (- RT_ENOSYS) k)) }"

definition rt_device_control :: "driver \<Rightarrow> nat \<Rightarrow> int \<Rightarrow> u64 \<Rightarrow> rt_device \<Rightarrow> kernel \<Rightarrow> (rt_err \<times> rt_device) option" where
  "rt_device_control drv a cmd arg d k =
     do { rt_assert (a \<noteq> 0);
          rt_assert (is_obj a RT_Object_Class_Device k);
          Some (case drv_control drv of Some ctl \<Rightarrow> ctl d cmd arg | None \<Rightarrow> (- RT_ENOSYS, d)) }"

definition rt_device_set_rx_indicate :: "nat \<Rightarrow> nat \<Rightarrow> rt_device \<Rightarrow> kernel \<Rightarrow> (rt_err \<times> rt_device) option" where
  "rt_device_set_rx_indicate a rx_ind d k =
     do { rt_assert (a \<noteq> 0);
          rt_assert (is_obj a RT_Object_Class_Device k);
          Some (RT_EOK, d\<lparr>dev_rx_indicate := rx_ind\<rparr>) }"

definition rt_device_set_tx_complete :: "nat \<Rightarrow> nat \<Rightarrow> rt_device \<Rightarrow> kernel \<Rightarrow> (rt_err \<times> rt_device) option" where
  "rt_device_set_tx_complete a tx_done d k =
     do { rt_assert (a \<noteq> 0);
          rt_assert (is_obj a RT_Object_Class_Device k);
          Some (RT_EOK, d\<lparr>dev_tx_complete := tx_done\<rparr>) }"

subsection \<open>Counting the openings\<close>

text \<open>
  What is required of a driver: the count and the stand-alone flag are the framework's, and \<open>init\<close> and \<open>open\<close>
  leave the activated flag to it.  The open flags may change (\<open>serial.c\<close>, \<open>can.c\<close> and \<open>audio.c\<close> replace
  them on every open), a \<open>close\<close> may clear the activated flag (\<open>serial.c\<close>, \<open>hwtimer.c\<close>), and every function may fail.
\<close>

definition keeps_count :: "rt_device \<Rightarrow> rt_device \<Rightarrow> bool" where
  "keeps_count d d' \<longleftrightarrow> dev_ref_count d' = dev_ref_count d \<and>
     (dev_flag d' AND RT_DEVICE_FLAG_STANDALONE = 0 \<longleftrightarrow> dev_flag d AND RT_DEVICE_FLAG_STANDALONE = 0)"

definition fair_driver :: "driver \<Rightarrow> bool" where
  "fair_driver drv \<longleftrightarrow>
     (\<forall>f. drv_init drv = Some f \<longrightarrow> (\<forall>d. keeps_count d (snd (f d)) \<and> activated (snd (f d)) = activated d)) \<and>
     (\<forall>f. drv_open drv = Some f \<longrightarrow> (\<forall>d oflag. keeps_count d (snd (f d oflag)) \<and> activated (snd (f d oflag)) = activated d)) \<and>
     (\<forall>f. drv_close drv = Some f \<longrightarrow> (\<forall>d. keeps_count d (snd (f d))))"

text \<open>An opening has succeeded: \<open>-RT_ENOSYS\<close> of the driver's \<open>open\<close> counts, that of a failed \<open>init\<close> does not.\<close>

definition open_counted :: "rt_err \<Rightarrow> rt_device \<Rightarrow> bool" where
  "open_counted r d \<longleftrightarrow> r = RT_EOK \<or> r = - RT_ENOSYS \<and> activated d"

text \<open>
  The life of a device: \<open>n\<close> is how many openings have succeeded and are not closed yet.  Reading, writing, control
  functions and interrupts may change the record as long as count, stand-alone, activated and open flag stay.
\<close>

inductive device_run :: "driver \<Rightarrow> nat \<Rightarrow> kernel \<Rightarrow> rt_device \<Rightarrow> nat \<Rightarrow> bool" for drv a k where
  registered: "dev_ref_count d = 0 \<Longrightarrow> dev_open_flag d = 0 \<Longrightarrow> device_run drv a k d 0"
| opened: "device_run drv a k d n \<Longrightarrow> rt_device_open drv a oflag d k = Some (r, d') \<Longrightarrow>
    device_run drv a k d' (if open_counted r d' then Suc n else n)"
| closed: "device_run drv a k d n \<Longrightarrow> rt_device_close drv a d k = Some (r, d') \<Longrightarrow> device_run drv a k d' (n - 1)"
| initialised: "device_run drv a k d n \<Longrightarrow> rt_device_init drv a d = Some (r, d') \<Longrightarrow> device_run drv a k d' n"
| used: "device_run drv a k d n \<Longrightarrow> keeps_count d d' \<Longrightarrow> activated d' = activated d \<Longrightarrow>
    (dev_open_flag d' AND RT_DEVICE_OFLAG_OPEN = 0 \<longleftrightarrow> dev_open_flag d AND RT_DEVICE_OFLAG_OPEN = 0) \<Longrightarrow> device_run drv a k d' n"

definition dev_inv :: "rt_device \<Rightarrow> nat \<Rightarrow> bool" where
  "dev_inv d n \<longleftrightarrow> unat (dev_ref_count d) = n \<and> (0 < n \<longrightarrow> activated d) \<and>
     (dev_flag d AND RT_DEVICE_FLAG_STANDALONE \<noteq> 0 \<longrightarrow> n \<le> 1 \<and> (0 < n \<longrightarrow> dev_open_flag d AND RT_DEVICE_OFLAG_OPEN \<noteq> 0))"

lemma dev_flag_bits [simp]:
  "(x OR 0x10) AND 8 = x AND (8 :: u16)" "(x OR 0x10) AND 0x10 = (0x10 :: u16)" "(x OR 8) AND 8 = (8 :: u16)"
proof -
  show "(x OR 0x10) AND 8 = x AND (8 :: u16)" by (simp add: bit.conj_disj_distrib2)
  show "(x OR 0x10) AND 0x10 = (0x10 :: u16)" "(x OR 8) AND 8 = (8 :: u16)" by (rule bit_eqI, auto simp: bit_simps)+
qed

lemma activate_simps [simp]:
  "activated (activate d)" "keeps_count d (activate d)" "dev_open_flag (activate d) = dev_open_flag d"
  by (simp_all add: keeps_count_def activate_def activated_def)

lemma keeps_count_refl [simp]: "keeps_count d d"
  by (simp add: keeps_count_def)

lemma keeps_count_trans: "keeps_count d d' \<Longrightarrow> keeps_count d' d'' \<Longrightarrow> keeps_count d d''"
  by (simp add: keeps_count_def)

text \<open>Without a count nothing but the flag of the record matters.\<close>

lemma dev_inv_0: "dev_inv d 0 \<Longrightarrow> keeps_count d d' \<Longrightarrow> dev_inv d' 0"
  by (simp add: dev_inv_def keeps_count_def)

text \<open>Opening in two steps.\<close>

definition open_init :: "driver \<Rightarrow> rt_device \<Rightarrow> rt_err \<times> rt_device" where
  "open_init drv d =
     (if activated d then (RT_EOK, d)
      else case drv_init drv of
        None \<Rightarrow> (RT_EOK, activate d)
      | Some init \<Rightarrow> let (result, d) = init d in if result \<noteq> RT_EOK then (result, d) else (RT_EOK, activate d))"

abbreviation stands_open :: "rt_device \<Rightarrow> bool" where
  "stands_open d \<equiv> dev_flag d AND RT_DEVICE_FLAG_STANDALONE \<noteq> 0 \<and> dev_open_flag d AND RT_DEVICE_OFLAG_OPEN \<noteq> 0"

definition open_driver :: "driver \<Rightarrow> u16 \<Rightarrow> rt_device \<Rightarrow> rt_err \<times> rt_device" where
  "open_driver drv oflag d =
     (case drv_open drv of
        Some opn \<Rightarrow> opn d oflag
      | None \<Rightarrow> (RT_EOK, d\<lparr>dev_open_flag := oflag AND RT_DEVICE_OFLAG_MASK\<rparr>))"

lemma open_steps:
  assumes "a \<noteq> 0" "is_obj a RT_Object_Class_Device k"
  shows "rt_device_open drv a oflag d k =
    (let (r, d) = open_init drv d in
     if r \<noteq> RT_EOK then Some (r, d) else if stands_open d then Some (- RT_EBUSY, d)
     else case open_driver drv oflag d of (r, d) \<Rightarrow> device_opened r d)"
  using assms unfolding rt_device_open_def open_init_def [symmetric] open_driver_def
  by (simp add: Let_def split: prod.splits option.splits)

lemma open_init_ok:
  assumes "fair_driver drv" "open_init drv d = (r, d')"
  shows "keeps_count d d'" "r = RT_EOK \<Longrightarrow> activated d'" "r \<noteq> RT_EOK \<Longrightarrow> \<not> activated d' \<and> \<not> activated d" "activated d \<Longrightarrow> r = RT_EOK \<and> d' = d"
proof -
  have "keeps_count d d' \<and> (r = RT_EOK \<longrightarrow> activated d') \<and> (r \<noteq> RT_EOK \<longrightarrow> \<not> activated d' \<and> \<not> activated d) \<and> (activated d \<longrightarrow> r = RT_EOK \<and> d' = d)"
  proof (cases "drv_init drv")
    case (Some f)
    have f: "keeps_count d (snd (f d))" "activated (snd (f d)) = activated d" using assms(1) Some by (auto simp: fair_driver_def)
    have "keeps_count d (activate (snd (f d)))" using keeps_count_trans [OF f(1)] by simp
    then show ?thesis using f assms(2) Some by (auto simp: open_init_def split: if_splits prod.splits)
  qed (use assms(2) in \<open>auto simp: open_init_def split: if_splits\<close>)
  then show "keeps_count d d'" "r = RT_EOK \<Longrightarrow> activated d'" "r \<noteq> RT_EOK \<Longrightarrow> \<not> activated d' \<and> \<not> activated d" "activated d \<Longrightarrow> r = RT_EOK \<and> d' = d"
    by blast+
qed

lemma open_driver_ok:
  "fair_driver drv \<Longrightarrow> open_driver drv oflag d = (r, d') \<Longrightarrow> keeps_count d d' \<and> activated d' = activated d"
  by (auto simp: fair_driver_def open_driver_def keeps_count_def activated_def split: option.splits)
    (metis snd_conv)+

text \<open>What one opening does to the count.\<close>

lemma device_open_ok:
  assumes fair: "fair_driver drv" and op: "rt_device_open drv a oflag d k = Some (r, d')"
  shows "if open_counted r d'
     then unat (dev_ref_count d') = Suc (unat (dev_ref_count d)) \<and> dev_open_flag d' AND RT_DEVICE_OFLAG_OPEN \<noteq> 0 \<and> activated d' \<and>
       (dev_flag d' AND RT_DEVICE_FLAG_STANDALONE = 0 \<longleftrightarrow> dev_flag d AND RT_DEVICE_FLAG_STANDALONE = 0) \<and> \<not> (stands_open d \<and> activated d)
     else keeps_count d d' \<and> (activated d \<longrightarrow> activated d') \<and> (stands_open d \<and> activated d \<longrightarrow> d' = d)"
proof -
  have dev: "a \<noteq> 0" "is_obj a RT_Object_Class_Device k" using op by (auto simp: rt_device_open_def split: if_splits)
  obtain r1 d1 where i: "open_init drv d = (r1, d1)" by force
  note I = open_init_ok [OF fair i]
  show ?thesis
  proof (cases "r1 = RT_EOK \<and> \<not> stands_open d1")
    case False
    have c: "r1 \<noteq> RT_EOK \<and> r = r1 \<and> d' = d1 \<or> r1 = RT_EOK \<and> r = - RT_EBUSY \<and> d' = d1"
      using op False by (auto simp: open_steps [OF dev] i split: if_splits)
    then have "\<not> open_counted r d'" using I(3) by (auto simp: open_counted_def)
    then show ?thesis using c I by auto
  next
    case True
    obtain r2 d2 where o: "open_driver drv oflag d1 = (r2, d2)" by force
    note O = open_driver_ok [OF fair o]
    have d': "device_opened r2 d2 = Some (r, d')" using op True by (simp add: open_steps [OF dev] i o del: de_Morgan_conj)
    have k2: "keeps_count d d2" "activated d2" using keeps_count_trans [OF I(1)] O I(2) True by simp_all
    have nb: "\<not> (stands_open d \<and> activated d)" using True I(4) by auto
    show ?thesis
    proof (cases "r2 = RT_EOK \<or> r2 = - RT_ENOSYS")
      case True
      then have eq: "r = r2" "d' = d2\<lparr>dev_open_flag := dev_open_flag d2 OR RT_DEVICE_OFLAG_OPEN, dev_ref_count := dev_ref_count d2 + 1\<rparr>"
        "dev_ref_count d2 + 1 \<noteq> 0"
        using d' by (auto simp: device_opened_def bind_eq_Some_conv Let_def split: if_splits)
      then have "unat (dev_ref_count d2 + 1) = Suc (unat (dev_ref_count d))"
        using k2(1) unatSuc [of "dev_ref_count d2"] by (simp add: add.commute keeps_count_def)
      then show ?thesis using eq True k2 nb by (auto simp: open_counted_def keeps_count_def activated_def)
    next
      case False
      then have "r = r2" "d' = d2" using d' by (auto simp: device_opened_def)
      then show ?thesis using False k2 nb by (auto simp: open_counted_def)
    qed
  qed
qed

lemma device_open_inv:
  assumes "fair_driver drv" "dev_inv d n" "rt_device_open drv a oflag d k = Some (r, d')"
  shows "dev_inv d' (if open_counted r d' then Suc n else n)"
proof (cases "open_counted r d'")
  case True
  have s: "dev_flag d AND 8 \<noteq> 0 \<Longrightarrow> n = 0" using device_open_ok [OF assms(1,3)] assms(2) True by (auto simp: dev_inv_def)
  then show ?thesis using device_open_ok [OF assms(1,3)] assms(2) True by (auto simp: dev_inv_def)
next
  case False
  then have o: "keeps_count d d'" "activated d \<longrightarrow> activated d'" "stands_open d \<and> activated d \<longrightarrow> d' = d"
    using device_open_ok [OF assms(1,3)] by simp_all
  show ?thesis
  proof (cases "stands_open d \<and> activated d")
    case True
    then show ?thesis using o assms(2) False by simp
  next
    case nb: False
    then show ?thesis using o assms(2) False by (auto simp: dev_inv_def keeps_count_def)
  qed
qed

text \<open>The answer of a close: the driver is asked for the last one.\<close>

definition close_result :: "driver \<Rightarrow> rt_device \<Rightarrow> rt_err \<times> rt_device" where
  "close_result drv d =
     (case drv_close drv of
        None \<Rightarrow> (RT_EOK, d\<lparr>dev_open_flag := RT_DEVICE_OFLAG_CLOSE\<rparr>)
      | Some cl \<Rightarrow> let (r, d) = cl d in (r, if r = RT_EOK \<or> r = - RT_ENOSYS then d\<lparr>dev_open_flag := RT_DEVICE_OFLAG_CLOSE\<rparr> else d))"

lemma device_close_cases:
  assumes u: "unat (dev_ref_count d) = n" and dev: "a \<noteq> 0" "is_obj a RT_Object_Class_Device k"
  shows "n = 0 \<Longrightarrow> rt_device_close drv a d k = Some (- RT_ERROR, d)"
    and "1 < n \<Longrightarrow> rt_device_close drv a d k = Some (RT_EOK, d\<lparr>dev_ref_count := dev_ref_count d - 1\<rparr>)"
    and "n = 1 \<Longrightarrow> rt_device_close drv a d k = Some (close_result drv (d\<lparr>dev_ref_count := 0\<rparr>))"
proof -
  have zero: "dev_ref_count d = 0 \<longleftrightarrow> n = 0" using u by (metis unat_eq_0)
  have one: "dev_ref_count d - 1 = 0 \<longleftrightarrow> n = 1"
  proof -
    have "dev_ref_count d - 1 = 0 \<longleftrightarrow> dev_ref_count d = 1" by (metis diff_0 diff_add_cancel eq_iff_diff_eq_0)
    then show ?thesis using u by (simp add: word_unat_eq_iff)
  qed
  let ?d = "d\<lparr>dev_ref_count := dev_ref_count d - 1\<rparr>"
  show "n = 0 \<Longrightarrow> rt_device_close drv a d k = Some (- RT_ERROR, d)" using zero dev by (simp add: rt_device_close_def)
  show "1 < n \<Longrightarrow> rt_device_close drv a d k = Some (RT_EOK, ?d)" using zero one dev by (simp add: rt_device_close_def)
  assume n: "n = 1"
  have "?d = d\<lparr>dev_ref_count := 0\<rparr>" using one n by simp
  then show "rt_device_close drv a d k = Some (close_result drv (d\<lparr>dev_ref_count := 0\<rparr>))"
    using n zero one dev by (simp add: rt_device_close_def close_result_def Let_def split: option.splits prod.splits)
qed

lemma close_result_ok: "fair_driver drv \<Longrightarrow> keeps_count d (snd (close_result drv d))"
  by (auto simp: fair_driver_def close_result_def keeps_count_def split: option.splits prod.splits) (metis snd_conv)+

lemma device_close_ok:
  assumes fair: "fair_driver drv" and inv: "dev_inv d n" and cl: "rt_device_close drv a d k = Some (r, d')"
  shows "dev_inv d' (n - 1)"
proof -
  have dev: "a \<noteq> 0" "is_obj a RT_Object_Class_Device k" using cl by (auto simp: rt_device_close_def split: if_splits)
  have u: "unat (dev_ref_count d) = n" using inv by (simp add: dev_inv_def)
  note C = device_close_cases [OF u dev, of drv]
  consider "n = 0" | "n = 1" | "1 < n" by linarith
  then show ?thesis
  proof cases
    case 2
    have "dev_inv (d\<lparr>dev_ref_count := 0\<rparr>) 0" by (simp add: dev_inv_def)
    moreover have "close_result drv (d\<lparr>dev_ref_count := 0\<rparr>) = (r, d')" using C(3) [OF 2] cl by simp
    ultimately show ?thesis using dev_inv_0 close_result_ok [OF fair, of "d\<lparr>dev_ref_count := 0\<rparr>"] 2 by simp
  next
    case 3
    have nz: "dev_ref_count d \<noteq> 0" using u 3 by auto
    have "unat (dev_ref_count d - 1) = n - 1" using u unat_minus_one [OF nz] by simp
    then show ?thesis using C(2) [OF 3] 3 cl inv by (auto simp: dev_inv_def activated_def)
  qed (use C(1) cl inv in auto)
qed

lemma device_init_ok:
  assumes fair: "fair_driver drv" and inv: "dev_inv d n" and "rt_device_init drv a d = Some (r, d')"
  shows "dev_inv d' n"
proof (cases "activated d \<or> drv_init drv = None")
  case True
  then show ?thesis using assms by (auto simp: rt_device_init_def split: option.splits if_splits)
next
  case False
  then have "n = 0" using inv by (auto simp: dev_inv_def)
  obtain f where f: "drv_init drv = Some f" using False by auto
  then have k: "keeps_count d (snd (f d))" using fair by (auto simp: fair_driver_def)
  then have "keeps_count d (activate (snd (f d)))" by (rule keeps_count_trans) simp
  then have "keeps_count d d'" using assms(3) False f k by (auto simp: rt_device_init_def Let_def split: if_splits prod.splits)
  then show ?thesis using dev_inv_0 inv \<open>n = 0\<close> by simp
qed

lemma device_run_inv: "device_run drv a k d n \<Longrightarrow> fair_driver drv \<Longrightarrow> dev_inv d n"
proof (induction rule: device_run.induct)
  case (registered d)
  then show ?case by (simp add: dev_inv_def)
next
  case (used d n d')
  then show ?case by (auto simp: dev_inv_def keeps_count_def)
next
  case (opened d n oflag r d')
  show ?case by (rule device_open_inv [OF opened.prems opened.IH [OF opened.prems] opened.hyps(2)])
next
  case (closed d n r d')
  show ?case by (rule device_close_ok [OF closed.prems closed.IH [OF closed.prems] closed.hyps(2)])
next
  case (initialised d n r d')
  show ?case by (rule device_init_ok [OF initialised.prems initialised.IH [OF initialised.prems] initialised.hyps(2)])
qed

subsection \<open>Properties\<close>


definition sample_driver :: driver where
  "sample_driver = \<lparr>drv_init = None, drv_open = None, drv_close = None, drv_read = None, drv_write = None, drv_control = None\<rparr>"

definition sample_device :: rt_device where
  "sample_device = \<lparr>dev_type = 0, dev_flag = 3, dev_open_flag = 0, dev_ref_count = 0, dev_rx_indicate = 0, dev_tx_complete = 0,
     dev_fops = 0, dev_wait_queue = \<lparr>wq_flag = 0, wq_waiting_list = [], wq_node = \<lambda>_. \<lparr>wn_polling_thread = 0, wn_wakeup = \<lambda>_. 0\<rparr>\<rparr>\<rparr>"


text \<open>C27: A device registered under a free name is found by that name until it is unregistered, and the name is refused to another
  device as long.  \<open>rt_device_destroy\<close> fails its assertions for such a device, before and after.\<close>

theorem rt_device_register_find:
  assumes "containers_ok (k_o k)" "a \<noteq> 0" "\<And>cls. Obj a \<notin> set (ob_container (k_o k) cls)" "0 \<notin> set name"
    and "rt_device_find (name @ [0]) k = 0" "\<And>i. i \<in> set (ob_container (k_o k) RT_Object_Class_Device) \<Longrightarrow> \<exists>b. i = Obj b"
  shows "\<exists>d1 k1 k2. rt_device_register a (name @ [0]) flags d k = Some (RT_EOK, d1, k1) \<and> containers_ok (k_o k1) \<and>
    dev_ref_count d1 = 0 \<and> dev_open_flag d1 = 0 \<and> dev_flag d1 = flags \<and> is_obj a RT_Object_Class_Device k1 \<and>
    rt_device_find (name @ [0]) k1 = a \<and> rt_device_register b (name @ [0]) flags' d' k1 = Some (- RT_ERROR, d', k1) \<and>
    rt_device_unregister a k1 = Some (RT_EOK, k2) \<and> containers_ok (k_o k2) \<and> rt_device_find (name @ [0]) k2 = 0 \<and>
    rt_device_destroy a k1 = None \<and> rt_device_destroy a k2 = None"
proof -
  have info: "rt_object_get_information 9" by (simp add: rt_object_get_information_def)
  have a: "Obj a \<noteq> Obj 0" using assms(2) by simp
  obtain x1 where x1: "rt_object_init (Obj a) 9 (name @ [0]) (k_o k) = Some x1" "containers_ok x1"
    "ob_container x1 = (ob_container (k_o k))(9 := Obj a # ob_container (k_o k) 9)"
    "o_name (ob_obj x1 (Obj a)) = take 8 (name @ replicate 8 0)" "rt_object_get_type (Obj a) x1 = 9"
    "rt_object_is_systemobject (Obj a) x1" "\<forall>j. j \<noteq> Obj a \<longrightarrow> ob_obj x1 j = ob_obj (k_o k) j"
    using init_ok [OF assms(1) info a assms(3,4)] by blast
  obtain x2 where x2: "rt_object_detach (Obj a) x1 = Some x2" "containers_ok x2"
    "ob_container x2 = (\<lambda>c. filter (\<lambda>x. x \<noteq> Obj a) (ob_container x1 c))" "o_type (ob_obj x2 (Obj a)) = 0"
    using detach_ok [OF x1(2) a] by blast
  have o2: "ob_obj x2 j = ob_obj (k_o k) j" if "j \<noteq> Obj a" for j
    using x2(1) x1(7) that a by (auto simp: rt_object_detach_def)
  have c2: "ob_container x2 9 = ob_container (k_o k) 9"
    using assms(3) by (auto simp: x2(3) x1(3) filter_id_conv)
  let ?k1 = "k\<lparr>k_o := x1\<rparr>" and ?k2 = "k\<lparr>k_o := x2\<rparr>"
  let ?d1 = "d\<lparr>dev_flag := flags, dev_ref_count := 0, dev_open_flag := 0, dev_fops := 0, dev_wait_queue := rt_wqueue_init (dev_wait_queue d)\<rparr>"
  have reg: "rt_device_register a (name @ [0]) flags d k = Some (RT_EOK, ?d1, ?k1)"
    using assms(2,5) x1(1) by (simp add: rt_device_register_def lift_o_def)
  have find1: "rt_device_find (name @ [0]) ?k1 = a"
    using names_match_name [OF assms(4,4) x1(4)] info by (simp add: rt_device_find_def rt_object_find_def x1(3))
  have "find (\<lambda>i. names_match (o_name (ob_obj x2 i)) (name @ [0]) 8) (ob_container (k_o k) 9) =
      find (\<lambda>i. names_match (o_name (ob_obj (k_o k) i)) (name @ [0]) 8) (ob_container (k_o k) 9)"
  proof (intro find_cong refl)
    fix i assume "i \<in> set (ob_container (k_o k) 9)"
    then have "i \<noteq> Obj a" using assms(3) by metis
    then show "names_match (o_name (ob_obj x2 i)) (name @ [0]) 8 = names_match (o_name (ob_obj (k_o k) i)) (name @ [0]) 8"
      using o2 by simp
  qed
  then have find2: "rt_device_find (name @ [0]) ?k2 = rt_device_find (name @ [0]) k"
    using info by (simp add: rt_device_find_def rt_object_find_def c2)
  have un: "rt_device_unregister a ?k1 = Some (RT_EOK, ?k2)"
    using assms(2) x1(5,6) x2(1) by (simp add: rt_device_unregister_def lift_o_def)
  have refuse: "rt_device_register b (name @ [0]) flags' d' ?k1 = Some (- RT_ERROR, d', ?k1)"
    using find1 assms(2) by (simp add: rt_device_register_def)
  have "rt_device_destroy a ?k1 = None" "rt_device_destroy a ?k2 = None"
    using x1(6) x2(4) by (simp_all add: rt_device_destroy_def rt_object_get_type_def)
  then show ?thesis
    using reg find1 find2 un refuse x1(2,5) x2(2) assms(5) by (intro exI [of _ ?d1] exI [of _ ?k1] exI [of _ ?k2]) simp
qed

theorem rt_device_register_find_witness:
  "\<exists>d1 k1. rt_device_register 100 ([0x73, 0x64] @ [0]) 3 sample_device (sample_kernel 9) = Some (RT_EOK, d1, k1) \<and>
     rt_device_find ([0x73, 0x64] @ [0]) k1 = 100"
proof -
  have "containers_ok (k_o (sample_kernel 9))" by (simp add: containers_ok_def)
  moreover have "rt_device_find ([0x73, 0x64] @ [0]) (sample_kernel 9) = 0" by (simp add: rt_device_find_def rt_object_find_def)
  ultimately show ?thesis
    using rt_device_register_find [of "sample_kernel 9" 100 "[0x73, 0x64]" 3 sample_device 0 0 sample_device] by auto
qed

text \<open>A close the driver refuses leaves a stand-alone device for ever neither open nor closed: it cannot be opened and not closed.\<close>

lemma failed_close_stuck:
  assumes "a \<noteq> 0" "is_obj a RT_Object_Class_Device k" "dev_ref_count d = 1" "drv_close drv = Some (\<lambda>d. (- RT_ERROR, d))"
    and "activated d" "dev_flag d AND RT_DEVICE_FLAG_STANDALONE \<noteq> 0" "dev_open_flag d AND RT_DEVICE_OFLAG_OPEN \<noteq> 0"
  shows "\<exists>d'. rt_device_close drv a d k = Some (- RT_ERROR, d') \<and> rt_device_close drv a d' k = Some (- RT_ERROR, d') \<and>
    rt_device_open drv a oflag d' k = Some (- RT_EBUSY, d')"
  using assms by (simp add: rt_device_close_def rt_device_open_def activated_def)

end
