(* ===== verification/Memheap.thy ===== *)
theory Memheap
  imports RtList
begin

section \<open>Memory heaps on a given range (\<open>src/memheap.c\<close>)\<close>

text \<open>
  \<open>rt_memheap_init\<close>, \<open>rt_memheap_alloc\<close>, \<open>rt_memheap_realloc\<close>, \<open>rt_memheap_free\<close>.  A heap cuts its
  range into blocks, each behind a header (\<open>struct rt_memheap_item\<close>, 48 bytes with its alignment); the
  headers form a circle in address order, ended by a header in use that has no block, and the free ones a
  second circle through the header \<open>free_header\<close> in the heap's own struct.  Headers are found by address,
  a pointer is a number, and arithmetic on it wraps at 64 bits.  The heap's semaphore, which makes each
  call exclusive, is left out, and so are the object of the heap, the bytes of its blocks (\<open>rt_memheap_realloc\<close> yields the copy it makes) and debug prints.
\<close>

record mh_item =
  mi_magic :: u32
  mi_pool_ptr :: node
  mi_next :: node
  mi_prev :: node
  mi_next_free :: node
  mi_prev_free :: node

record memheap =
  mh_self :: node  \<comment> \<open>the address of the struct itself\<close>
  mh_start_addr :: node
  mh_pool_size :: u32
  mh_available_size :: u32
  mh_max_used_size :: u32
  mh_block_list :: node
  mh_free_list :: node  \<comment> \<open>always \<open>&heap->free_header\<close>\<close>
  mh_items :: "node \<Rightarrow> mh_item"  \<comment> \<open>the headers in memory, \<open>free_header\<close> among them\<close>

abbreviation (input) RT_MEMHEAP_MAGIC :: u32 where "RT_MEMHEAP_MAGIC \<equiv> 0x1ea01ea0"
abbreviation (input) RT_MEMHEAP_MASK :: u32 where "RT_MEMHEAP_MASK \<equiv> 0xfffffffe"
abbreviation (input) RT_MEMHEAP_USED :: u32 where "RT_MEMHEAP_USED \<equiv> 1"
abbreviation (input) RT_MEMHEAP_FREED :: u32 where "RT_MEMHEAP_FREED \<equiv> 0"
abbreviation (input) RT_MEMHEAP_MINIALLOC :: u64 where "RT_MEMHEAP_MINIALLOC \<equiv> 12"
abbreviation (input) RT_MEMHEAP_SIZE :: u64 where "RT_MEMHEAP_SIZE \<equiv> 48"

abbreviation item :: "memheap \<Rightarrow> node \<Rightarrow> mh_item" where
  "item h p \<equiv> mh_items h p"

definition ptr_add :: "node \<Rightarrow> u64 \<Rightarrow> node" where
  "ptr_add p n = unat (of_nat p + n)"

definition ptr_sub :: "node \<Rightarrow> u64 \<Rightarrow> node" where
  "ptr_sub p n = unat (of_nat p - n)"

definition memheap_is_used :: "memheap \<Rightarrow> node \<Rightarrow> bool" where
  "memheap_is_used h p \<longleftrightarrow> mi_magic (item h p) AND RT_MEMHEAP_USED \<noteq> 0"

definition MEMITEM_SIZE :: "memheap \<Rightarrow> node \<Rightarrow> u64" where
  "MEMITEM_SIZE h p = of_nat (mi_next (item h p)) - of_nat p - RT_MEMHEAP_SIZE"

definition upd_item :: "node \<Rightarrow> (mh_item \<Rightarrow> mh_item) \<Rightarrow> memheap \<Rightarrow> memheap" where
  "upd_item p f h = h\<lparr>mh_items := (mh_items h)(p := f (item h p))\<rparr>"

text \<open>The groups of assignments the operations share: a block put at the front of the free list, a block
  taken from it, a block put behind another one in the circle of blocks, and the mark of the most memory
  that was ever used.\<close>

definition free_push :: "node \<Rightarrow> memheap \<Rightarrow> memheap" where
  "free_push p h =
     (let h = upd_item p (\<lambda>i. i\<lparr>mi_next_free := mi_next_free (item h (mh_free_list h))\<rparr>) h;
          h = upd_item p (\<lambda>i. i\<lparr>mi_prev_free := mh_free_list h\<rparr>) h;
          h = upd_item (mi_next_free (item h (mh_free_list h))) (\<lambda>i. i\<lparr>mi_prev_free := p\<rparr>) h
      in upd_item (mh_free_list h) (\<lambda>i. i\<lparr>mi_next_free := p\<rparr>) h)"

definition free_unlink :: "node \<Rightarrow> memheap \<Rightarrow> memheap" where
  "free_unlink p h =
     (let h = upd_item (mi_next_free (item h p)) (\<lambda>i. i\<lparr>mi_prev_free := mi_prev_free (item h p)\<rparr>) h
      in upd_item (mi_prev_free (item h p)) (\<lambda>i. i\<lparr>mi_next_free := mi_next_free (item h p)\<rparr>) h)"

definition block_link :: "node \<Rightarrow> node \<Rightarrow> memheap \<Rightarrow> memheap" where
  "block_link new p h =
     (let h = upd_item new (\<lambda>i. i\<lparr>mi_prev := p\<rparr>) h;
          h = upd_item new (\<lambda>i. i\<lparr>mi_next := mi_next (item h p)\<rparr>) h;
          h = upd_item (mi_next (item h p)) (\<lambda>i. i\<lparr>mi_prev := new\<rparr>) h
      in upd_item p (\<lambda>i. i\<lparr>mi_next := new\<rparr>) h)"

definition memheap_set_max :: "memheap \<Rightarrow> memheap" where
  "memheap_set_max h =
     (if mh_pool_size h - mh_available_size h > mh_max_used_size h
      then h\<lparr>mh_max_used_size := mh_pool_size h - mh_available_size h\<rparr> else h)"

definition rt_memheap_init :: "node \<Rightarrow> node \<Rightarrow> node \<Rightarrow> u64 \<Rightarrow> (node \<Rightarrow> mh_item) \<Rightarrow> memheap" where
  "rt_memheap_init self free_header start_addr sz mem0 =
     (let pool = (ucast (RT_ALIGN_DOWN sz) :: u32);
          avail = pool - 2 * 48;
          h = \<lparr>mh_self = self, mh_start_addr = start_addr, mh_pool_size = pool, mh_available_size = avail,
               mh_max_used_size = pool - avail, mh_block_list = 0, mh_free_list = free_header, mh_items = mem0\<rparr>;
          h = upd_item free_header (\<lambda>_. \<lparr>mi_magic = RT_MEMHEAP_MAGIC OR RT_MEMHEAP_FREED, mi_pool_ptr = self,
                mi_next = RT_NULL, mi_prev = RT_NULL, mi_next_free = free_header, mi_prev_free = free_header\<rparr>) h;
          h = upd_item start_addr (\<lambda>_. \<lparr>mi_magic = RT_MEMHEAP_MAGIC OR RT_MEMHEAP_FREED, mi_pool_ptr = self,
                mi_next = RT_NULL, mi_prev = RT_NULL, mi_next_free = start_addr, mi_prev_free = start_addr\<rparr>) h;
          tailer = ptr_add start_addr (ucast avail + RT_MEMHEAP_SIZE);
          h = upd_item start_addr (\<lambda>i. i\<lparr>mi_next := tailer\<rparr>) h;
          h = upd_item start_addr (\<lambda>i. i\<lparr>mi_prev := mi_next i\<rparr>) h;
          h = h\<lparr>mh_block_list := start_addr\<rparr>;
          h = free_push start_addr h
      in upd_item tailer (\<lambda>_. \<lparr>mi_magic = RT_MEMHEAP_MAGIC OR RT_MEMHEAP_USED, mi_pool_ptr = self,
           mi_next = start_addr, mi_prev = start_addr, mi_next_free = RT_NULL, mi_prev_free = RT_NULL\<rparr>) h)"

text \<open>\<open>while (header_ptr != heap->free_list && free_size < size)\<close>\<close>

partial_function (option) free_search :: "memheap \<Rightarrow> u64 \<Rightarrow> node \<Rightarrow> u32 \<Rightarrow> (node \<times> u32) option" where
  "free_search h sz p free_size =
     (if p \<noteq> mh_free_list h \<and> ucast free_size < sz
      then let free_size = (ucast (MEMITEM_SIZE h p) :: u32)
           in free_search h sz (if ucast free_size < sz then mi_next_free (item h p) else p) free_size
      else Some (p, free_size))"

text \<open>The size a caller asks for, aligned and at least the least one.\<close>

definition memheap_request :: "u64 \<Rightarrow> u64" where
  "memheap_request sz = (let sz = RT_ALIGN sz in if sz < RT_MEMHEAP_MINIALLOC then RT_MEMHEAP_MINIALLOC else sz)"

text \<open>The block found is cut when what is left can hold a header and the least size.\<close>

definition memheap_take :: "u64 \<Rightarrow> node \<Rightarrow> u32 \<Rightarrow> memheap \<Rightarrow> memheap" where
  "memheap_take sz p free_size h =
     (let h = (if ucast free_size \<ge> sz + RT_MEMHEAP_SIZE + RT_MEMHEAP_MINIALLOC
       then let new = ptr_add p (sz + RT_MEMHEAP_SIZE);
                h = upd_item new (\<lambda>i. i\<lparr>mi_magic := RT_MEMHEAP_MAGIC OR RT_MEMHEAP_FREED, mi_pool_ptr := mh_self h\<rparr>) h;
                h = block_link new p h;
                h = free_unlink p h;
                h = upd_item p (\<lambda>i. i\<lparr>mi_next_free := RT_NULL, mi_prev_free := RT_NULL\<rparr>) h;
                h = free_push new h
            in memheap_set_max (h\<lparr>mh_available_size := ucast (ucast (mh_available_size h) - sz - RT_MEMHEAP_SIZE)\<rparr>)
       else let h = memheap_set_max (h\<lparr>mh_available_size := mh_available_size h - free_size\<rparr>);
                h = free_unlink p h
            in upd_item p (\<lambda>i. i\<lparr>mi_next_free := RT_NULL, mi_prev_free := RT_NULL\<rparr>) h)
      in upd_item p (\<lambda>i. i\<lparr>mi_magic := RT_MEMHEAP_MAGIC OR RT_MEMHEAP_USED\<rparr>) h)"

definition rt_memheap_alloc :: "u64 \<Rightarrow> memheap \<Rightarrow> (node \<times> memheap) option" where
  "rt_memheap_alloc sz h =
     (let sz = memheap_request sz
      in if sz < ucast (mh_available_size h)
         then do {
           (p, free_size) \<leftarrow> free_search h sz (mi_next_free (item h (mh_free_list h))) 0;
           (if ucast free_size \<ge> sz
            then Some (ptr_add p RT_MEMHEAP_SIZE, memheap_take sz p free_size h)
            else Some (RT_NULL, h)) }
         else Some (RT_NULL, h))"

text \<open>A block joined to the one in front of it, and to the one behind it.  The flag says whether the block
  is still to be put in the free list.\<close>

definition merge_left :: "node \<Rightarrow> memheap \<Rightarrow> node \<times> bool \<times> memheap" where
  "merge_left p h =
     (if \<not> memheap_is_used h (mi_prev (item h p))
      then let h = h\<lparr>mh_available_size := ucast (ucast (mh_available_size h) + RT_MEMHEAP_SIZE)\<rparr>;
               h = upd_item (mi_prev (item h p)) (\<lambda>i. i\<lparr>mi_next := mi_next (item h p)\<rparr>) h;
               h = upd_item (mi_next (item h p)) (\<lambda>i. i\<lparr>mi_prev := mi_prev (item h p)\<rparr>) h
           in (mi_prev (item h p), False, h)
      else (p, True, h))"

definition merge_right :: "node \<Rightarrow> memheap \<Rightarrow> memheap" where
  "merge_right p h =
     (if \<not> memheap_is_used h (mi_next (item h p))
      then let h = h\<lparr>mh_available_size := ucast (ucast (mh_available_size h) + RT_MEMHEAP_SIZE)\<rparr>;
               new = mi_next (item h p);
               h = upd_item (mi_next (item h new)) (\<lambda>i. i\<lparr>mi_prev := p\<rparr>) h;
               h = upd_item p (\<lambda>i. i\<lparr>mi_next := mi_next (item h new)\<rparr>) h
           in free_unlink new h
      else h)"

text \<open>The heap is found by the header's \<open>pool_ptr\<close>; a block of another heap is not in this state.\<close>

definition rt_memheap_free :: "node \<Rightarrow> memheap \<Rightarrow> memheap option" where
  "rt_memheap_free ptr h =
     (if ptr = RT_NULL then Some h
      else do {
        let p = ptr_sub ptr RT_MEMHEAP_SIZE;
        rt_assert (mi_magic (item h p) = RT_MEMHEAP_MAGIC OR RT_MEMHEAP_USED);
        rt_assert (mi_magic (item h (mi_next (item h p))) AND RT_MEMHEAP_MASK = RT_MEMHEAP_MAGIC);
        rt_assert (mi_pool_ptr (item h p) = mh_self h);
        let h = upd_item p (\<lambda>i. i\<lparr>mi_magic := RT_MEMHEAP_MAGIC OR RT_MEMHEAP_FREED\<rparr>) h;
        let h = h\<lparr>mh_available_size := ucast (ucast (mh_available_size h) + MEMITEM_SIZE h p)\<rparr>;
        let (p, insert_header, h) = merge_left p h;
        let h = merge_right p h;
        Some (if insert_header then free_push p h else h) })"

text \<open>A block grows into the free block behind it, which moves on.\<close>

definition realloc_grow :: "node \<Rightarrow> u64 \<Rightarrow> u64 \<Rightarrow> memheap \<Rightarrow> memheap" where
  "realloc_grow ptr newsize oldsize h =
     (let p = ptr_sub ptr RT_MEMHEAP_SIZE;
          nx = mi_next (item h p);
          h = memheap_set_max (h\<lparr>mh_available_size := ucast (ucast (mh_available_size h) - (newsize - oldsize))\<rparr>);
          h = free_unlink nx h;
          h = upd_item (mi_next (item h nx)) (\<lambda>i. i\<lparr>mi_prev := mi_prev (item h nx)\<rparr>) h;
          h = upd_item (mi_prev (item h nx)) (\<lambda>i. i\<lparr>mi_next := mi_next (item h nx)\<rparr>) h;
          nx = ptr_add ptr newsize;
          h = upd_item nx (\<lambda>i. i\<lparr>mi_magic := RT_MEMHEAP_MAGIC OR RT_MEMHEAP_FREED, mi_pool_ptr := mh_self h\<rparr>) h;
          h = block_link nx p h
      in free_push nx h)"

text \<open>A block gives back its tail, which is joined to the block behind it when that is free.\<close>

definition cut_merge_right :: "node \<Rightarrow> memheap \<Rightarrow> memheap" where
  "cut_merge_right new h =
     (if \<not> memheap_is_used h (mi_next (item h new))
      then let fr = mi_next (item h new);
               h = h\<lparr>mh_available_size := ucast (ucast (mh_available_size h) - MEMITEM_SIZE h fr)\<rparr>;
               h = upd_item (mi_next (item h fr)) (\<lambda>i. i\<lparr>mi_prev := new\<rparr>) h;
               h = upd_item new (\<lambda>i. i\<lparr>mi_next := mi_next (item h fr)\<rparr>) h
           in free_unlink fr h
      else h)"

definition realloc_cut :: "node \<Rightarrow> u64 \<Rightarrow> memheap \<Rightarrow> memheap" where
  "realloc_cut ptr newsize h =
     (let p = ptr_sub ptr RT_MEMHEAP_SIZE;
          new = ptr_add p (newsize + RT_MEMHEAP_SIZE);
          h = upd_item new (\<lambda>i. i\<lparr>mi_magic := RT_MEMHEAP_MAGIC OR RT_MEMHEAP_FREED, mi_pool_ptr := mh_self h\<rparr>) h;
          h = block_link new p h;
          h = cut_merge_right new h;
          h = free_push new h
      in h\<lparr>mh_available_size := ucast (ucast (mh_available_size h) + MEMITEM_SIZE h new)\<rparr>)"

text \<open>The middle component is the \<open>rt_memcpy\<close>: destination, source and length.\<close>

definition rt_memheap_realloc :: "node \<Rightarrow> u64 \<Rightarrow> memheap \<Rightarrow> (node \<times> (node \<times> node \<times> u64) option \<times> memheap) option" where
  "rt_memheap_realloc ptr newsize h =
     (if newsize = 0 then do { h \<leftarrow> rt_memheap_free ptr h; Some (RT_NULL, None, h) }
      else let newsize = memheap_request newsize in
      if ptr = RT_NULL then do { (q, h) \<leftarrow> rt_memheap_alloc newsize h; Some (q, None, h) }
      else let p = ptr_sub ptr RT_MEMHEAP_SIZE;
               oldsize = MEMITEM_SIZE h p;
               nx = mi_next (item h p)
      in if newsize > oldsize
         then do {
           rt_assert (nx > p);
           (if \<not> memheap_is_used h nx \<and>
               scast (ucast (MEMITEM_SIZE h nx) :: 32 word) + oldsize > newsize + RT_MEMHEAP_MINIALLOC
            then Some (ptr, None, realloc_grow ptr newsize oldsize h)
            else do {
              (q, h) \<leftarrow> rt_memheap_alloc newsize h;
              (if q \<noteq> RT_NULL
               then do { h \<leftarrow> rt_memheap_free ptr h;
                         Some (q, Some (q, ptr, if oldsize < newsize then oldsize else newsize), h) }
               else Some (q, None, h)) }) }
         else if newsize + RT_MEMHEAP_SIZE + RT_MEMHEAP_MINIALLOC \<ge> oldsize then Some (ptr, None, h)
         else Some (ptr, None, realloc_cut ptr newsize h))"

end
