(* ===== verification/MemheapInv.thy ===== *)
theory MemheapInv
  imports Memheap
begin

section \<open>The invariant of a memory heap\<close>

text \<open>
  The heap as a list of blocks in address order and the order of its free list; every group of
  assignments of the operations as an edit of these lists.
\<close>

subsection \<open>The two circles\<close>

definition block_links :: "memheap \<Rightarrow> list_heap" where
  "block_links h = \<lparr>nxt = \<lambda>p. mi_next (item h p), prv = \<lambda>p. mi_prev (item h p)\<rparr>"

definition free_links :: "memheap \<Rightarrow> list_heap" where
  "free_links h = \<lparr>nxt = \<lambda>p. mi_next_free (item h p), prv = \<lambda>p. mi_prev_free (item h p)\<rparr>"

lemma links_simps [simp]:
  "nxt (block_links h) = (\<lambda>p. mi_next (item h p))" "prv (block_links h) = (\<lambda>p. mi_prev (item h p))"
  "nxt (free_links h) = (\<lambda>p. mi_next_free (item h p))" "prv (free_links h) = (\<lambda>p. mi_prev_free (item h p))"
  by (simp_all add: block_links_def free_links_def)

lemma upd_item_simps [simp]:
  "mh_self (upd_item p f h) = mh_self h" "mh_start_addr (upd_item p f h) = mh_start_addr h"
  "mh_pool_size (upd_item p f h) = mh_pool_size h" "mh_available_size (upd_item p f h) = mh_available_size h"
  "mh_max_used_size (upd_item p f h) = mh_max_used_size h" "mh_free_list (upd_item p f h) = mh_free_list h"
  "mh_block_list (upd_item p f h) = mh_block_list h"
  "item (upd_item p f h) q = (if q = p then f (item h p) else item h q)"
  by (simp_all add: upd_item_def)

text \<open>The counters and the fixed fields the list operations leave alone.\<close>

lemma list_ops_simps [simp]:
  "mh_self (free_push p h) = mh_self h" "mh_start_addr (free_push p h) = mh_start_addr h"
  "mh_pool_size (free_push p h) = mh_pool_size h" "mh_available_size (free_push p h) = mh_available_size h"
  "mh_max_used_size (free_push p h) = mh_max_used_size h" "mh_free_list (free_push p h) = mh_free_list h"
  "mh_self (free_unlink p h) = mh_self h" "mh_start_addr (free_unlink p h) = mh_start_addr h"
  "mh_pool_size (free_unlink p h) = mh_pool_size h" "mh_available_size (free_unlink p h) = mh_available_size h"
  "mh_max_used_size (free_unlink p h) = mh_max_used_size h" "mh_free_list (free_unlink p h) = mh_free_list h"
  "mh_self (block_link n p h) = mh_self h" "mh_start_addr (block_link n p h) = mh_start_addr h"
  "mh_pool_size (block_link n p h) = mh_pool_size h" "mh_available_size (block_link n p h) = mh_available_size h"
  "mh_max_used_size (block_link n p h) = mh_max_used_size h" "mh_free_list (block_link n p h) = mh_free_list h"
  by (simp_all add: free_push_def free_unlink_def block_link_def Let_def)

lemma free_ops_fields [simp]:
  "mi_next (item (free_push p h) q) = mi_next (item h q)" "mi_prev (item (free_push p h) q) = mi_prev (item h q)"
  "mi_magic (item (free_push p h) q) = mi_magic (item h q)" "mi_pool_ptr (item (free_push p h) q) = mi_pool_ptr (item h q)"
  "mi_next (item (free_unlink p h) q) = mi_next (item h q)" "mi_prev (item (free_unlink p h) q) = mi_prev (item h q)"
  "mi_magic (item (free_unlink p h) q) = mi_magic (item h q)" "mi_pool_ptr (item (free_unlink p h) q) = mi_pool_ptr (item h q)"
  by (simp_all add: free_push_def free_unlink_def Let_def)

lemma block_link_fields [simp]:
  "mi_next_free (item (block_link n p h) q) = mi_next_free (item h q)"
  "mi_prev_free (item (block_link n p h) q) = mi_prev_free (item h q)"
  "mi_magic (item (block_link n p h) q) = mi_magic (item h q)" "mi_pool_ptr (item (block_link n p h) q) = mi_pool_ptr (item h q)"
  by (simp_all add: block_link_def Let_def)

lemma set_max_simps [simp]:
  "mh_self (memheap_set_max h) = mh_self h" "mh_start_addr (memheap_set_max h) = mh_start_addr h"
  "mh_pool_size (memheap_set_max h) = mh_pool_size h" "mh_available_size (memheap_set_max h) = mh_available_size h"
  "mh_free_list (memheap_set_max h) = mh_free_list h" "mh_items (memheap_set_max h) = mh_items h"
  "mh_pool_size h - mh_available_size h \<le> mh_max_used_size (memheap_set_max h)"
  by (simp_all add: memheap_set_max_def linorder_not_less)

text \<open>A circle looks only at its own nodes, and a node cut out of it may keep its links.\<close>

lemma ring_unlink:
  assumes "ring H l (xs @ q # ys)"
    and "\<And>x. x \<noteq> q \<Longrightarrow> nxt H' x = (if x = prv H q then nxt H q else nxt H x)"
    and "\<And>x. x \<noteq> q \<Longrightarrow> prv H' x = (if x = nxt H q then prv H q else prv H x)"
  shows "ring H' l (xs @ ys)"
proof (rule ring_frame)
  show "ring (rt_list_remove q H) l (xs @ ys)" using remove_ring [OF assms(1)] by blast
  fix x
  assume "x \<in> set (l # xs @ ys)"
  then have x: "x \<noteq> q" using assms(1) by (auto simp: ring_def)
  have "ring H q (ys @ l # xs)" using assms(1) by (rule ring_rotate)
  then have "nxt H q = hd (ys @ l # xs)" "prv H q = last (ys @ l # xs)" "q \<notin> set (ys @ l # xs)"
    using seg_last [of H q "ys @ l # xs" q] ring_next [of H q "ys @ l # xs"] by (simp_all add: ring_def)
  then have "nxt H q \<noteq> q" "prv H q \<noteq> q"
    using hd_in_set [of "ys @ l # xs"] last_in_set [of "ys @ l # xs"] by (metis append_is_Nil_conv list.distinct(1))+
  then show "nxt H' x = nxt (rt_list_remove q H) x \<and> prv H' x = prv (rt_list_remove q H) x"
    using assms(2,3) [OF x] x by (simp add: rt_list_remove_def Let_def)
qed

lemma free_push_ring:
  assumes "ring (free_links h) (mh_free_list h) fl" "p \<notin> set (mh_free_list h # fl)"
  shows "ring (free_links (free_push p h)) (mh_free_list h) (p # fl)"
proof -
  have n: "mi_next_free (item h (mh_free_list h)) \<noteq> p"
    using ring_boundary(1) [OF assms(1)] assms(2) by auto
  then have "free_links (free_push p h) = rt_list_insert_after (mh_free_list h) p (free_links h)"
    using assms(2) by (auto simp: free_links_def free_push_def rt_list_insert_after_def Let_def fun_eq_iff)
  then show ?thesis using insert_after_ring [OF assms] by simp
qed

lemma free_unlink_ring:
  assumes "ring (free_links h) l (xs @ p # ys)"
  shows "ring (free_links (free_unlink p h)) l (xs @ ys)"
  by (rule ring_unlink [OF assms]) (auto simp: free_unlink_def Let_def)


subsection \<open>The blocks\<close>

text \<open>A block is the address of its header, the bytes behind it, and whether it is in use.\<close>

type_synonym mh_blocks = "(node \<times> nat \<times> bool) list"

fun tiled :: "node \<Rightarrow> mh_blocks \<Rightarrow> node \<Rightarrow> bool" where
  "tiled a [] e \<longleftrightarrow> a = e"
| "tiled a ((p, n, u) # bs) e \<longleftrightarrow> p = a \<and> tiled (a + 48 + n) bs e"

definition mh_tail :: "memheap \<Rightarrow> node" where
  "mh_tail h = mh_start_addr h + unat (mh_pool_size h) - 48"

definition mh_header :: "memheap \<Rightarrow> node \<Rightarrow> bool \<Rightarrow> bool" where
  "mh_header h p u \<longleftrightarrow> mi_magic (item h p) = RT_MEMHEAP_MAGIC OR (if u then RT_MEMHEAP_USED else RT_MEMHEAP_FREED) \<and>
     mi_pool_ptr (item h p) = mh_self h"

definition mh_frame :: "memheap \<Rightarrow> bool" where
  "mh_frame h \<longleftrightarrow> 96 \<le> unat (mh_pool_size h) \<and> unat (mh_pool_size h) < 2 ^ 31 \<and>
     mh_start_addr h + unat (mh_pool_size h) < 2 ^ 64 \<and>
     (mh_free_list h < mh_start_addr h \<or> mh_start_addr h + unat (mh_pool_size h) \<le> mh_free_list h)"

definition mh_wf :: "memheap \<Rightarrow> mh_blocks \<Rightarrow> bool" where
  "mh_wf h bs \<longleftrightarrow> mh_frame h \<and> tiled (mh_start_addr h) bs (mh_tail h) \<and>
     ring (block_links h) (mh_tail h) (map fst bs) \<and> (\<forall>(p, n, u)\<in>set bs. mh_header h p u) \<and> mh_header h (mh_tail h) True"

definition same_mh :: "memheap \<Rightarrow> memheap \<Rightarrow> bool" where
  "same_mh h h' \<longleftrightarrow> mh_self h' = mh_self h \<and> mh_start_addr h' = mh_start_addr h \<and> mh_pool_size h' = mh_pool_size h \<and>
     mh_free_list h' = mh_free_list h"

lemma same_mh_tail: "same_mh h h' \<Longrightarrow> mh_tail h' = mh_tail h"
  by (simp add: same_mh_def mh_tail_def)

lemma same_mh_frame: "same_mh h h' \<Longrightarrow> mh_frame h \<Longrightarrow> mh_frame h'"
  by (simp add: same_mh_def mh_frame_def)

lemma tiled_append: "tiled a (xs @ ys) e \<longleftrightarrow> (\<exists>m. tiled a xs m \<and> tiled m ys e)"
  by (induction a xs e rule: tiled.induct) auto

lemma tiled_le: "tiled a bs e \<Longrightarrow> a \<le> e"
  by (induction a bs e rule: tiled.induct) auto

lemma tiled_range: "tiled a bs e \<Longrightarrow> (p, n, u) \<in> set bs \<Longrightarrow> a \<le> p \<and> p + 48 + n \<le> e"
  by (induction a bs e rule: tiled.induct) (auto dest: tiled_le)

lemma tiled_apart: "tiled a bs e \<Longrightarrow> (p, n, u) \<in> set bs \<Longrightarrow> (q, m, v) \<in> set bs \<Longrightarrow>
    (p, n, u) = (q, m, v) \<or> p + 48 + n \<le> q \<or> q + 48 + m \<le> p"
  by (induction a bs e rule: tiled.induct) (auto dest: tiled_range)

lemma tiled_next: "tiled a ((p, n, u) # bs) e \<Longrightarrow> hd (map fst bs @ [e]) = p + 48 + n"
  by (cases bs) auto

lemma mh_wf_cong:
  assumes "mh_wf h bs" "same_mh h h'"
    "\<And>p. p \<in> insert (mh_tail h) (fst ` set bs) \<Longrightarrow> mi_next (item h' p) = mi_next (item h p) \<and> mi_prev (item h' p) = mi_prev (item h p) \<and>
       mi_magic (item h' p) = mi_magic (item h p) \<and> mi_pool_ptr (item h' p) = mi_pool_ptr (item h p)"
  shows "mh_wf h' bs"
proof -
  have "ring (block_links h') (mh_tail h) (map fst bs)"
    by (rule ring_frame [of "block_links h"]) (use assms in \<open>auto simp: mh_wf_def\<close>)
  moreover have "(p, n, u) \<in> set bs \<Longrightarrow> mh_header h p u \<Longrightarrow> mh_header h' p u" for p n u
    using assms(2) assms(3) [of p] by (force simp: mh_header_def same_mh_def)
  moreover have "mh_header h (mh_tail h) True \<Longrightarrow> mh_header h' (mh_tail h) True"
    using assms(2) assms(3) [of "mh_tail h"] by (simp add: mh_header_def same_mh_def)
  ultimately show ?thesis
    using assms(1) same_mh_tail [OF assms(2)] same_mh_frame [OF assms(2)] assms(2)
    by (auto simp: mh_wf_def same_mh_def)
qed

lemma mh_wf_frameD:
  assumes "mh_wf h bs"
  shows "mh_tail h + 48 = mh_start_addr h + unat (mh_pool_size h)" "mh_start_addr h + 48 \<le> mh_tail h"
    "unat (mh_pool_size h) < 2 ^ 31" "mh_tail h + 48 < 2 ^ 64"
    "\<And>p. mh_start_addr h \<le> p \<Longrightarrow> p \<le> mh_tail h \<Longrightarrow> p \<noteq> mh_free_list h"
  using assms unfolding mh_wf_def mh_frame_def mh_tail_def by auto

lemma is_used_header: "mh_header h p u \<Longrightarrow> memheap_is_used h p = u"
  by (cases u) (simp_all add: mh_header_def memheap_is_used_def)

text \<open>What the header of a block holds.\<close>

lemma mh_wf_at:
  assumes "mh_wf h (xs @ (p, n, u) # ys)"
  shows "mi_next (item h p) = p + 48 + n" "mi_prev (item h p) = last (mh_tail h # map fst xs)"
    "mh_header h p u" "mh_start_addr h \<le> p" "p + 48 + n \<le> mh_tail h" "unat (MEMITEM_SIZE h p) = n" "n < 2 ^ 31"
    "p \<notin> set (mh_tail h # map fst xs @ map fst ys)" "mi_next (item h p) = hd (map fst ys @ [mh_tail h])"
proof -
  have r: "ring (block_links h) (mh_tail h) (map fst xs @ p # map fst ys)" and t: "tiled (mh_start_addr h) (xs @ (p, n, u) # ys) (mh_tail h)"
    using assms by (simp_all add: mh_wf_def)
  have g: "seg (block_links h) (mh_tail h) (map fst xs) p" "seg (block_links h) p (map fst ys) (mh_tail h)"
    using r by (simp_all add: ring_def)
  note F = mh_wf_frameD [OF assms]
  show m: "mi_next (item h p) = hd (map fst ys @ [mh_tail h])" using seg_first [OF g(2)] by simp
  moreover have "hd (map fst ys @ [mh_tail h]) = p + 48 + n"
    using t by (auto simp: tiled_append intro!: tiled_next)
  ultimately show nx: "mi_next (item h p) = p + 48 + n" by simp
  show "mi_prev (item h p) = last (mh_tail h # map fst xs)" using seg_last [OF g(1)] by simp
  show "mh_header h p u" using assms by (simp add: mh_wf_def)
  show s: "mh_start_addr h \<le> p" and e: "p + 48 + n \<le> mh_tail h" using tiled_range [OF t, of p n u] by simp_all
  show l: "n < 2 ^ 31" using s e F(1,3) by simp
  have "MEMITEM_SIZE h p = of_nat n" by (simp add: MEMITEM_SIZE_def nx)
  then show "unat (MEMITEM_SIZE h p) = n" using l by (simp add: unat_of_nat_small)
  show "p \<notin> set (mh_tail h # map fst xs @ map fst ys)" using r by (auto simp: ring_def)
qed

lemma mh_wf_prev: "mh_wf h (xs @ (q, m, v) # (p, n, u) # ys) \<Longrightarrow> mi_prev (item h p) = q"
  using mh_wf_at(2) [of h "xs @ [(q, m, v)]" p n u ys] by simp

lemma ptr_add_small: "p + unat n < 2 ^ 64 \<Longrightarrow> ptr_add p n = p + unat n"
  unfolding ptr_add_def by (subst unat_add_lem [THEN iffD1]) (simp_all add: unat_of_nat_small)

lemma ptr_sub_add: "p + 48 < 2 ^ 64 \<Longrightarrow> ptr_sub (p + 48) 48 = p"
  by (simp add: ptr_sub_def unat_of_nat_small)

subsection \<open>The steps of the operations\<close>

lemma mh_wf_tag:
  assumes "mh_wf h (xs @ (p, n, u) # ys)" "f = (\<lambda>i. i\<lparr>mi_magic := RT_MEMHEAP_MAGIC OR (if v then RT_MEMHEAP_USED else RT_MEMHEAP_FREED)\<rparr>)"
  shows "mh_wf (upd_item p f h) (xs @ (p, n, v) # ys)"
proof -
  note A = mh_wf_at [OF assms(1)]
  have "ring (block_links (upd_item p f h)) (mh_tail h) (map fst (xs @ (p, n, v) # ys))"
    by (rule ring_frame [of "block_links h"]) (use assms in \<open>auto simp: mh_wf_def\<close>)
  moreover have "tiled (mh_start_addr h) (xs @ (p, n, v) # ys) (mh_tail h)"
    using assms(1) by (auto simp: mh_wf_def tiled_append)
  moreover have "\<forall>(q, m, w)\<in>set (xs @ (p, n, v) # ys). mh_header (upd_item p f h) q w"
  proof clarify
    fix q m w
    assume "(q, m, w) \<in> set (xs @ (p, n, v) # ys)"
    then consider "q = p" "w = v" | "(q, m, w) \<in> set xs \<union> set ys" by auto
    then show "mh_header (upd_item p f h) q w"
    proof cases
      case 1
      then show ?thesis using A(3) by (simp add: mh_header_def assms(2))
    next
      case 2
      then have "q \<noteq> p" "mh_header h q w" using A(8) assms(1) by (force simp: mh_wf_def)+
      then show ?thesis by (simp add: mh_header_def)
    qed
  qed
  moreover have "mh_header (upd_item p f h) (mh_tail h) True" "mh_frame (upd_item p f h)"
    using assms(1) A(8) by (auto simp: mh_wf_def mh_header_def mh_frame_def)
  ultimately show ?thesis by (simp add: mh_wf_def mh_tail_def)
qed


lemma mh_wf_fresh:
  assumes "mh_wf h (xs @ (p, n, u) # ys)" "p < q" "q < p + 48 + n"
  shows "q \<notin> set (mh_tail h # map fst xs @ p # map fst ys)" "q \<noteq> mh_free_list h"
proof -
  note A = mh_wf_at [OF assms(1)]
  have t: "tiled (mh_start_addr h) xs p" "tiled (p + 48 + n) ys (mh_tail h)"
    using assms(1) by (auto simp: mh_wf_def tiled_append)
  show "q \<notin> set (mh_tail h # map fst xs @ p # map fst ys)"
    using assms(2,3) A(5) by (auto dest: tiled_range [OF t(1)] tiled_range [OF t(2)])
  show "q \<noteq> mh_free_list h" using mh_wf_frameD(5) [OF assms(1), of q] assms(2,3) A(4,5) by simp
qed

text \<open>A block is cut in two: the second part is free.\<close>

lemma mh_wf_cut:
  assumes wf: "mh_wf h (xs @ (p, m + 48 + k, u) # ys)" and new: "new = p + 48 + m"
    and f: "f = (\<lambda>i. i\<lparr>mi_magic := RT_MEMHEAP_MAGIC OR RT_MEMHEAP_FREED, mi_pool_ptr := mh_self h\<rparr>)"
  shows "mh_wf (block_link new p (upd_item new f h)) (xs @ (p, m, u) # (new, k, False) # ys)"
proof -
  let ?h = "block_link new p (upd_item new f h)"
  note A = mh_wf_at [OF wf]
  have fr: "new \<notin> set (mh_tail h # map fst xs @ p # map fst ys)" using mh_wf_fresh [OF wf, of new] new by simp
  have r: "ring (block_links h) (mh_tail h) ((map fst xs @ [p]) @ map fst ys)" using wf by (simp add: mh_wf_def)
  have e: "block_links ?h = rt_list_insert_after p new (block_links h)"
    using fr A(1) by (auto simp: block_links_def block_link_def rt_list_insert_after_def Let_def fun_eq_iff new f)
  have "ring (block_links ?h) (mh_tail h) (map fst xs @ p # new # map fst ys)"
    using insert_after_any [OF r, of new] fr by (simp add: e)
  moreover have "\<forall>(q, l, w)\<in>set (xs @ (p, m, u) # (new, k, False) # ys). mh_header ?h q w"
  proof clarify
    fix q l w
    assume "(q, l, w) \<in> set (xs @ (p, m, u) # (new, k, False) # ys)"
    then consider "q = new" "w = False" | "q = p" "w = u" | "(q, l, w) \<in> set xs \<union> set ys" by auto
    then show "mh_header ?h q w"
    proof cases
      case 3
      then have "q \<noteq> new" "mh_header h q w" using fr wf by (force simp: mh_wf_def)+
      then show ?thesis by (simp add: mh_header_def)
    qed (use A(3) in \<open>simp_all add: mh_header_def f new\<close>)
  qed
  moreover have "tiled (mh_start_addr h) (xs @ (p, m, u) # (new, k, False) # ys) (mh_tail h)"
    using wf by (auto simp: mh_wf_def tiled_append new add.assoc)
  moreover have "mh_header ?h (mh_tail h) True" "mh_frame ?h"
    using wf fr by (auto simp: mh_wf_def mh_header_def mh_frame_def)
  ultimately show ?thesis by (simp add: mh_wf_def mh_tail_def)
qed

text \<open>A block is joined to the one behind it.\<close>

lemma mh_wf_join:
  assumes wf: "mh_wf h (xs @ (p, n, u) # (q, m, v) # ys)" and s: "same_mh h h'"
    and n: "\<And>x. x \<noteq> q \<Longrightarrow> mi_next (item h' x) = (if x = p then mi_next (item h q) else mi_next (item h x))"
    and p: "\<And>x. x \<noteq> q \<Longrightarrow> mi_prev (item h' x) = (if x = mi_next (item h q) then p else mi_prev (item h x))"
    and m: "\<And>x. x \<noteq> q \<Longrightarrow> mi_magic (item h' x) = mi_magic (item h x) \<and> mi_pool_ptr (item h' x) = mi_pool_ptr (item h x)"
  shows "mh_wf h' (xs @ (p, n + 48 + m, u) # ys)"
proof -
  have wf': "mh_wf h ((xs @ [(p, n, u)]) @ (q, m, v) # ys)" using wf by simp
  note A = mh_wf_at [OF wf]
  have pq: "mi_prev (item h q) = p" by (rule mh_wf_prev [OF wf])
  have nq: "q \<notin> set (mh_tail h # map fst xs @ p # map fst ys)" using mh_wf_at(8) [OF wf'] by simp
  have "ring (block_links h') (mh_tail h) ((map fst xs @ [p]) @ map fst ys)"
    by (rule ring_unlink [of "block_links h" _ _ q]) (use wf n p pq in \<open>auto simp: mh_wf_def\<close>)
  moreover have "\<forall>(x, l, w)\<in>set (xs @ (p, n + 48 + m, u) # ys). mh_header h' x w"
  proof clarify
    fix x l w
    assume x: "(x, l, w) \<in> set (xs @ (p, n + 48 + m, u) # ys)"
    then consider "x = p" "w = u" | "(x, l, w) \<in> set (xs @ (p, n, u) # (q, m, v) # ys)" by auto
    then have "mh_header h x w" using wf A(3) by cases (auto simp only: mh_wf_def)
    moreover have "x \<noteq> q" using x nq by force
    ultimately show "mh_header h' x w" using m [of x] s by (simp add: mh_header_def same_mh_def)
  qed
  moreover have "tiled (mh_start_addr h) (xs @ (p, n + 48 + m, u) # ys) (mh_tail h)"
    using wf by (auto simp: mh_wf_def tiled_append add.assoc)
  moreover have "mh_header h' (mh_tail h) True"
    using wf nq m [of "mh_tail h"] s by (auto simp: mh_wf_def mh_header_def same_mh_def)
  ultimately show ?thesis
    using same_mh_frame [OF s] same_mh_tail [OF s] s wf by (simp add: mh_wf_def same_mh_def)
qed

subsection \<open>The free list and the counters\<close>

definition free_addrs :: "mh_blocks \<Rightarrow> node set" where
  "free_addrs bs = {p. \<exists>n. (p, n, False) \<in> set bs}"

definition free_bytes :: "mh_blocks \<Rightarrow> nat" where
  "free_bytes bs = sum_list (map (\<lambda>(p, n, u). if u then 0 else n) bs)"

text \<open>No two free blocks next to each other.\<close>

definition mh_merged :: "mh_blocks \<Rightarrow> bool" where
  "mh_merged bs \<longleftrightarrow> successively (\<lambda>b c. snd (snd b) \<or> snd (snd c)) bs"

definition mh_inv :: "memheap \<Rightarrow> mh_blocks \<Rightarrow> node list \<Rightarrow> bool" where
  "mh_inv h bs fl \<longleftrightarrow> mh_wf h bs \<and> ring (free_links h) (mh_free_list h) fl \<and> set fl = free_addrs bs \<and>
     unat (mh_available_size h) = free_bytes bs \<and> mh_merged bs \<and>
     unat (mh_pool_size h) - free_bytes bs \<le> unat (mh_max_used_size h)"

lemma mh_invI:
  "mh_wf h bs \<Longrightarrow> ring (free_links h) (mh_free_list h) fl \<Longrightarrow> set fl = free_addrs bs \<Longrightarrow>
   unat (mh_available_size h) = free_bytes bs \<Longrightarrow> mh_merged bs \<Longrightarrow>
   unat (mh_pool_size h) - free_bytes bs \<le> unat (mh_max_used_size h) \<Longrightarrow> mh_inv h bs fl"
  by (simp add: mh_inv_def)

lemma free_addrs_simps [simp]:
  "free_addrs [] = {}" "free_addrs ((p, n, u) # bs) = (if u then {} else {p}) \<union> free_addrs bs"
  "free_addrs (xs @ ys) = free_addrs xs \<union> free_addrs ys"
  by (auto simp: free_addrs_def)

lemma free_addrs_sub: "free_addrs bs \<subseteq> set (map fst bs)"
  by (force simp: free_addrs_def)

lemma free_bytes_simps [simp]:
  "free_bytes [] = 0" "free_bytes ((p, n, u) # bs) = (if u then 0 else n) + free_bytes bs"
  "free_bytes (xs @ ys) = free_bytes xs + free_bytes ys"
  by (simp_all add: free_bytes_def)

lemma mh_merged_simps [simp]:
  "mh_merged []" "mh_merged [b]" "mh_merged (b # c # bs) \<longleftrightarrow> (snd (snd b) \<or> snd (snd c)) \<and> mh_merged (c # bs)"
  "mh_merged (xs @ ys) \<longleftrightarrow> mh_merged xs \<and> mh_merged ys \<and> (xs = [] \<or> ys = [] \<or> snd (snd (last xs)) \<or> snd (snd (hd ys)))"
  by (simp_all add: mh_merged_def successively_append_iff)

lemma mh_merged_Cons: "mh_merged (b # bs) \<longleftrightarrow> mh_merged bs \<and> (bs = [] \<or> snd (snd b) \<or> snd (snd (hd bs)))"
  by (cases bs) auto

lemma free_bytes_tiled: "tiled a bs e \<Longrightarrow> a + free_bytes bs + 48 * length bs \<le> e"
  by (induction a bs e rule: tiled.induct) auto

lemma mh_free_bytes: "mh_wf h bs \<Longrightarrow> free_bytes bs + 48 * Suc (length bs) \<le> unat (mh_pool_size h)"
  using free_bytes_tiled [of "mh_start_addr h" bs "mh_tail h"] mh_wf_frameD(1) [of h bs] by (simp add: mh_wf_def)

end
