(* ===== verification/MemheapOps.thy ===== *)
theory MemheapOps
  imports MemheapInv
begin

section \<open>The operations on a memory heap\<close>

text \<open>
  Set-up, the search of the free list, allocation, release with the joining of neighbours, and the two
  ways of resizing in place: each keeps \<open>mh_inv\<close>, and the list of blocks after it is stated.
\<close>

subsection \<open>Counters\<close>

lemma avail_add: "unat (a :: u32) + unat (n :: u64) < 2 ^ 32 \<Longrightarrow> unat (ucast (ucast a + n) :: u32) = unat a + unat n"
proof -
  assume a: "unat a + unat n < 2 ^ 32"
  have "unat (ucast a + n :: u64) = unat a + unat n" using a by (subst unat_add_lem [THEN iffD1]) simp_all
  then show ?thesis using a by (subst unat_ucast_down) simp_all
qed

lemma avail_sub: "unat (n :: u64) \<le> unat (a :: u32) \<Longrightarrow> unat (ucast (ucast a - n) :: u32) = unat a - unat n"
proof -
  assume a: "unat n \<le> unat a"
  have "unat (ucast a - n :: u64) = unat a - unat n" using a by (subst unat_sub) (simp_all add: word_le_nat_alt)
  moreover have "unat a < 2 ^ LENGTH(32)" by (rule unsigned_less)
  ultimately show ?thesis by (subst unat_ucast_down) simp_all
qed

lemma set_max_bound:
  assumes "unat (mh_available_size h) \<le> unat (mh_pool_size h)"
  shows "unat (mh_pool_size h) - unat (mh_available_size h) \<le> unat (mh_max_used_size (memheap_set_max h))"
proof -
  have "unat (mh_pool_size h - mh_available_size h) = unat (mh_pool_size h) - unat (mh_available_size h)"
    using assms by (subst unat_sub) (simp_all add: word_le_nat_alt)
  then show ?thesis using set_max_simps(7) [of h] by (simp only: word_le_nat_alt)
qed

lemma set_max_bound_of:
  "h' = memheap_set_max h \<Longrightarrow> unat (mh_available_size h') \<le> unat (mh_pool_size h') \<Longrightarrow>
    unat (mh_pool_size h') - unat (mh_available_size h') \<le> unat (mh_max_used_size h')"
  using set_max_bound [of h] by simp

lemma mh_wf_counters [simp]:
  "mh_wf (h\<lparr>mh_available_size := a\<rparr>) bs = mh_wf h bs" "mh_wf (h\<lparr>mh_max_used_size := a\<rparr>) bs = mh_wf h bs"
  "mh_wf (memheap_set_max h) bs = mh_wf h bs"
  "free_links (h\<lparr>mh_available_size := a\<rparr>) = free_links h" "free_links (memheap_set_max h) = free_links h"
  by (simp_all add: mh_wf_def mh_frame_def mh_header_def mh_tail_def block_links_def free_links_def)

lemma mh_wf_free_ops [simp]:
  "mh_wf h bs \<Longrightarrow> mh_wf (free_push p h) bs" "mh_wf h bs \<Longrightarrow> mh_wf (free_unlink p h) bs"
  by (rule mh_wf_cong; simp add: same_mh_def)+

lemma mh_wf_upd:
  "mh_wf h bs \<Longrightarrow> (\<And>i. mi_next (f i) = mi_next i \<and> mi_prev (f i) = mi_prev i \<and> mi_magic (f i) = mi_magic i \<and> mi_pool_ptr (f i) = mi_pool_ptr i)
    \<Longrightarrow> mh_wf (upd_item p f h) bs"
  by (erule mh_wf_cong) (simp_all add: same_mh_def)

lemma free_links_block_ops [simp]:
  "free_links (block_link n p h) = free_links h"
  "(\<And>i. mi_next_free (f i) = mi_next_free i \<and> mi_prev_free (f i) = mi_prev_free i) \<Longrightarrow> free_links (upd_item p f h) = free_links h"
  by (auto simp: free_links_def fun_eq_iff)

text \<open>Writes to the links of a block outside the free list.\<close>

lemma free_ring_outside:
  "ring (free_links h) l fl \<Longrightarrow> p \<notin> set (l # fl) \<Longrightarrow> ring (free_links (upd_item p f h)) l fl"
  by (erule ring_frame) auto

subsection \<open>Set-up\<close>

definition memheap_room :: "node \<Rightarrow> node \<Rightarrow> u64 \<Rightarrow> bool" where
  "memheap_room free_header start sz \<longleftrightarrow> 96 \<le> unat sz \<and> unat sz < 2 ^ 31 \<and> start + unat sz < 2 ^ 64 \<and>
     (free_header < start \<or> start + unat sz \<le> free_header)"

lemma rt_memheap_init_ok:
  assumes "memheap_room hdr start sz" and h_def: "h = rt_memheap_init self hdr start sz mem0"
  shows "mh_inv h [(start, unat (RT_ALIGN_DOWN sz) - 96, False)] [start]" "mh_self h = self" "mh_start_addr h = start"
    "mh_pool_size h = ucast (RT_ALIGN_DOWN sz)" "unat (mh_pool_size h) = unat (RT_ALIGN_DOWN sz)"
proof -
  let ?p = "ucast (RT_ALIGN_DOWN sz) :: u32" and ?n = "unat (RT_ALIGN_DOWN sz)"
  have n: "96 \<le> ?n" "?n \<le> unat sz" using assms(1) unfolding memheap_room_def RT_ALIGN_DOWN_unat by presburger+
  have p: "unat ?p = ?n" using assms(1) n by (subst unat_ucast_down) (simp_all add: memheap_room_def)
  have a: "unat (?p - 96) = ?n - 96" using n p by (subst unat_sub) (simp_all add: word_le_nat_alt)
  have b: "unat (ucast (?p - 96) + 48 :: u64) = ?n - 48"
    using a n assms(1) by (subst unat_add_lem [THEN iffD1]) (auto simp: memheap_room_def)
  have t: "ptr_add start (ucast (?p - 96) + 48) = start + ?n - 48"
    using b n assms(1) by (subst ptr_add_small) (auto simp: memheap_room_def)
  have m: "unat (?p - (?p - 96)) = 96" by simp
  show "mh_self h = self" "mh_start_addr h = start" "mh_pool_size h = ucast (RT_ALIGN_DOWN sz)"
    by (simp_all add: h_def rt_memheap_init_def Let_def)
  show "unat (mh_pool_size h) = ?n" using p by (simp add: h_def rt_memheap_init_def Let_def)
  have ne: "start \<noteq> hdr" "start + ?n - 48 \<noteq> hdr" "start \<noteq> start + ?n - 48" "hdr < start \<or> start + ?n \<le> hdr"
    using assms(1) n by (auto simp: memheap_room_def)
  have i: "item h start = \<lparr>mi_magic = 0x1ea01ea0, mi_pool_ptr = self, mi_next = start + ?n - 48, mi_prev = start + ?n - 48,
      mi_next_free = hdr, mi_prev_free = hdr\<rparr>"
    "item h (start + ?n - 48) = \<lparr>mi_magic = 0x1ea01ea1, mi_pool_ptr = self, mi_next = start, mi_prev = start,
      mi_next_free = 0, mi_prev_free = 0\<rparr>"
    "mi_next_free (item h hdr) = start" "mi_prev_free (item h hdr) = start" "mh_free_list h = hdr"
    "mh_available_size h = ?p - 96" "mh_max_used_size h = ?p - (?p - 96)" "mh_pool_size h = ?p" "mh_self h = self" "mh_start_addr h = start"
    using ne by (simp_all add: h_def rt_memheap_init_def Let_def t free_push_def)
  have "mh_tail h = start + ?n - 48" by (simp add: mh_tail_def i p)
  then have "mh_wf h [(start, ?n - 96, False)]"
    using i p n ne assms(1) by (simp add: mh_wf_def mh_frame_def mh_header_def ring_def memheap_room_def)
  moreover have "ring (free_links h) (mh_free_list h) [start]" using i ne by (auto simp: ring_def)
  ultimately show "mh_inv h [(start, ?n - 96, False)] [start]"
    using i a p m n by (simp add: mh_inv_def)
qed


subsection \<open>Allocation\<close>

lemma free_search_find:
  assumes "seg (free_links h) a fl (mh_free_list h)" "mh_free_list h \<notin> set fl" "\<forall>q\<in>set fl. unat (MEMITEM_SIZE h q) < 2 ^ 31"
    "ucast fs < sz" "p = hd (fl @ [mh_free_list h])"
  obtains q fs' where "free_search h sz p fs = Some (q, fs')"
    "case find (\<lambda>p. sz \<le> MEMITEM_SIZE h p) fl of None \<Rightarrow> ucast fs' < sz | Some r \<Rightarrow> q = r \<and> ucast fs' = MEMITEM_SIZE h r \<and> sz \<le> ucast fs'"
  using assms
proof (induction fl arbitrary: a p fs thesis)
  case Nil
  show ?case by (rule Nil(1) [of "mh_free_list h" fs]) (use Nil in \<open>simp_all add: free_search.simps\<close>)
next
  case (Cons x fl)
  let ?fs = "ucast (MEMITEM_SIZE h x) :: u32"
  have px: "p = x" "x \<noteq> mh_free_list h" using Cons.prems by auto
  have "unat (ucast ?fs :: u64) = unat (MEMITEM_SIZE h x)"
    using Cons.prems(4) by (subst unat_ucast_up, simp, subst unat_ucast_down) simp_all
  then have u: "ucast ?fs = MEMITEM_SIZE h x" by (simp only: word_unat_eq_iff)
  show ?case
  proof (cases "MEMITEM_SIZE h x < sz")
    case True
    have n: "mi_next_free (item h x) = hd (fl @ [mh_free_list h])" using Cons.prems(2) seg_first [of "free_links h" x fl] by simp
    have s: "seg (free_links h) x fl (mh_free_list h)" "ucast ?fs < sz" using Cons.prems(2) True u by simp_all
    show ?thesis
    proof (rule Cons.IH [OF _ s(1) _ _ s(2) n])
      fix q fs'
      assume A: "free_search h sz (mi_next_free (item h x)) ?fs = Some (q, fs')"
        "case find (\<lambda>p. sz \<le> MEMITEM_SIZE h p) fl of None \<Rightarrow> ucast fs' < sz
          | Some r \<Rightarrow> q = r \<and> ucast fs' = MEMITEM_SIZE h r \<and> sz \<le> ucast fs'"
      have "free_search h sz p fs = Some (q, fs')"
        using A(1) Cons.prems(5) px True u by (subst free_search.simps) (simp add: Let_def)
      moreover have "\<not> sz \<le> MEMITEM_SIZE h x" using True by (simp add: linorder_not_le)
      ultimately show ?thesis using A(2) by (intro Cons.prems(1) [of q fs']) simp_all
    qed (use Cons.prems in simp_all)
  next
    case False
    then have "free_search h sz p fs = Some (x, ?fs)"
      using Cons.prems(5) px u by (subst free_search.simps) (simp add: Let_def, subst free_search.simps, simp)
    then show ?thesis using False u by (intro Cons.prems(1) [of x ?fs]) (simp_all add: linorder_not_less)
  qed
qed

text \<open>The blocks after a free one gave \<open>sz\<close> bytes.\<close>

definition mh_carve :: "nat \<Rightarrow> node \<Rightarrow> nat \<Rightarrow> mh_blocks" where
  "mh_carve sz p n = (if sz + 60 \<le> n then [(p, sz, True), (p + 48 + sz, n - 48 - sz, False)] else [(p, n, True)])"

lemma mh_merged_carve: "mh_merged (xs @ (p, n, False) # ys) \<Longrightarrow> mh_merged (xs @ mh_carve sz p n @ ys)"
  by (auto simp: mh_carve_def mh_merged_Cons)

lemma mh_wf_addrs:
  assumes "mh_wf h (xs @ (p, n, u) # ys)"
  shows "p \<notin> free_addrs xs" "p \<notin> free_addrs ys" "p \<noteq> mh_free_list h" "free_addrs xs \<inter> free_addrs ys = {}"
    "mh_free_list h \<notin> free_addrs xs \<union> free_addrs ys"
proof -
  note A = mh_wf_at [OF assms] and F = mh_wf_frameD [OF assms]
  have d: "distinct (map fst xs @ p # map fst ys)" using assms by (simp add: mh_wf_def ring_def)
  then show "p \<notin> free_addrs xs" "p \<notin> free_addrs ys" "free_addrs xs \<inter> free_addrs ys = {}"
    using free_addrs_sub [of xs] free_addrs_sub [of ys] by auto
  show "p \<noteq> mh_free_list h" using A(4,5) F(5) by simp
  have ne: "q \<noteq> mh_free_list h" if "(q, m, v) \<in> set (xs @ (p, n, u) # ys)" for q m v
  proof -
    have "tiled (mh_start_addr h) (xs @ (p, n, u) # ys) (mh_tail h)" using assms by (simp add: mh_wf_def)
    from tiled_range [OF this that] show ?thesis using F(5) [of q] by simp
  qed
  show "mh_free_list h \<notin> free_addrs xs \<union> free_addrs ys"
  proof
    assume "mh_free_list h \<in> free_addrs xs \<union> free_addrs ys"
    then obtain m where "(mh_free_list h, m, False) \<in> set (xs @ (p, n, u) # ys)" by (auto simp: free_addrs_def)
    from ne [OF this] show False by simp
  qed
qed


lemma take_whole_ok:
  assumes wf: "mh_wf h bs" and r: "ring (free_links h) (mh_free_list h) (fa @ p # fb)"
    and f: "f = (\<lambda>i. i\<lparr>mi_next_free := RT_NULL, mi_prev_free := RT_NULL\<rparr>)"
  shows "mh_wf (upd_item p f (free_unlink p h)) bs" "ring (free_links (upd_item p f (free_unlink p h))) (mh_free_list h) (fa @ fb)"
proof -
  show "mh_wf (upd_item p f (free_unlink p h)) bs" by (rule mh_wf_upd) (simp_all add: wf f)
  have "p \<notin> set (mh_free_list h # fa @ fb)" using r by (auto simp: ring_def)
  then show "ring (free_links (upd_item p f (free_unlink p h))) (mh_free_list h) (fa @ fb)"
    by (rule free_ring_outside [OF free_unlink_ring [OF r]])
qed

lemma take_facts:
  assumes inv: "mh_inv h (xs @ (p, n, False) # ys) (fa @ p # fb)" and sz: "unat (sz :: u64) \<le> n"
  shows "set (fa @ fb) = free_addrs xs \<union> free_addrs ys" "unat (sz + 48 + 12) = unat sz + 60" "unat (sz + 48) = unat sz + 48"
proof -
  have wf: "mh_wf h (xs @ (p, n, False) # ys)" using inv by (simp add: mh_inv_def)
  show "set (fa @ fb) = free_addrs xs \<union> free_addrs ys" using inv mh_wf_addrs [OF wf] by (auto simp: mh_inv_def ring_def)
  show "unat (sz + 48 + 12) = unat sz + 60" "unat (sz + 48) = unat sz + 48"
    using sz mh_wf_at(7) [OF wf] by (subst unat_add_lem [THEN iffD1]; simp)+
qed

lemma mh_wf_used:
  "mh_wf h (xs @ (p, n, False) # ys) \<Longrightarrow>
    mh_wf (upd_item p (\<lambda>i. i\<lparr>mi_magic := RT_MEMHEAP_MAGIC OR RT_MEMHEAP_USED\<rparr>) h) (xs @ (p, n, True) # ys)"
  "free_links (upd_item p (\<lambda>i. i\<lparr>mi_magic := RT_MEMHEAP_MAGIC OR RT_MEMHEAP_USED\<rparr>) h) = free_links h"
  using mh_wf_tag [of h xs p n False ys _ True] by simp_all

lemma memheap_take_cut:
  assumes inv: "mh_inv h (xs @ (p, n, False) # ys) (fa @ p # fb)" and sz: "unat sz + 60 \<le> n" and fs: "unat fs = n"
  shows "mh_inv (memheap_take sz p fs h) (xs @ mh_carve (unat sz) p n @ ys) ((p + 48 + unat sz) # fa @ fb)"
    "same_mh h (memheap_take sz p fs h)"
proof -
  let ?bs = "xs @ (p, n, False) # ys" and ?new = "p + 48 + unat sz"
  let ?cs = "xs @ (p, unat sz, False) # (?new, n - 48 - unat sz, False) # ys"
  have wf: "mh_wf h ?bs" and r: "ring (free_links h) (mh_free_list h) (fa @ p # fb)" and av: "unat (mh_available_size h) = free_bytes ?bs"
    and mg: "mh_merged ?bs" using inv by (simp_all add: mh_inv_def)
  have T: "set (fa @ fb) = free_addrs xs \<union> free_addrs ys" "unat (sz + 48 + 12) = unat sz + 60" "unat (sz + 48) = unat sz + 48"
    using take_facts [OF inv, of sz] sz by simp_all
  note A = mh_wf_at [OF wf] and FB = mh_free_bytes [OF wf] and F = mh_wf_frameD [OF wf]
  have new: "ptr_add p (sz + 48) = ?new" using T(3) A(5) F(4) sz by (subst ptr_add_small) simp_all
  define h1 where "h1 = block_link ?new p (upd_item ?new (\<lambda>i. i\<lparr>mi_magic := RT_MEMHEAP_MAGIC OR RT_MEMHEAP_FREED, mi_pool_ptr := mh_self h\<rparr>) h)"
  define h2 where "h2 = upd_item p (\<lambda>i. i\<lparr>mi_next_free := RT_NULL, mi_prev_free := RT_NULL\<rparr>) (free_unlink p h1)"
  define h3 where "h3 = memheap_set_max ((free_push ?new h2)\<lparr>mh_available_size := ucast (ucast (mh_available_size (free_push ?new h2)) - sz - 48)\<rparr>)"
  have w1: "mh_wf h1 ?cs" unfolding h1_def by (rule mh_wf_cut [where m = "unat sz"]) (use wf sz in simp_all)
  have s1: "free_links h1 = free_links h" "mh_free_list h1 = mh_free_list h" by (simp_all add: h1_def)
  have s2: "mh_free_list h2 = mh_free_list h" "mh_available_size h2 = mh_available_size h" "mh_pool_size h2 = mh_pool_size h" "same_mh h h2"
    by (simp_all add: h2_def h1_def same_mh_def)
  have w2: "mh_wf h2 ?cs" "ring (free_links h2) (mh_free_list h) (fa @ fb)"
    using take_whole_ok [OF w1, of fa p fb] r s1 unfolding h2_def by auto
  have nf: "?new \<notin> set (mh_free_list h # fa @ fb)"
    using mh_wf_fresh [OF wf, of ?new] sz T(1) free_addrs_sub [of xs] free_addrs_sub [of ys] by auto
  have w3: "mh_wf h3 ?cs" "ring (free_links h3) (mh_free_list h) (?new # fa @ fb)" "same_mh h h3"
    using w2 free_push_ring [of h2 "fa @ fb" ?new] nf s2 by (simp_all add: h3_def same_mh_def)
  have a3: "unat (mh_available_size h3) = free_bytes ?bs - (unat sz + 48)"
    using avail_sub [of "sz + 48" "mh_available_size h"] T(3) av sz s2 by (simp add: h3_def diff_diff_eq)
  have "ucast fs \<ge> sz + 48 + 12" using fs T(2) sz by (simp add: word_le_nat_alt)
  then have e: "memheap_take sz p fs h = upd_item p (\<lambda>i. i\<lparr>mi_magic := RT_MEMHEAP_MAGIC OR RT_MEMHEAP_USED\<rparr>) h3"
    by (simp only: memheap_take_def Let_def if_True new h3_def h2_def h1_def)
  have a3': "unat (mh_available_size h3) = free_bytes (xs @ mh_carve (unat sz) p n @ ys)" using a3 sz by (simp add: mh_carve_def)
  have "unat (mh_pool_size h3) - unat (mh_available_size h3) \<le> unat (mh_max_used_size h3)"
    by (rule set_max_bound_of [OF h3_def]) (use a3 s2 FB in \<open>simp add: h3_def\<close>)
  then show "mh_inv (memheap_take sz p fs h) (xs @ mh_carve (unat sz) p n @ ys) (?new # fa @ fb)"
    unfolding e a3' using w3 mh_wf_used(1) [OF w3(1)] a3' sz T(1) mh_merged_carve [OF mg, of "unat sz"]
    by (intro mh_invI) (simp_all add: mh_carve_def same_mh_def mh_wf_used(2))
  show "same_mh h (memheap_take sz p fs h)" using w3(3) by (simp add: e same_mh_def)
qed

lemma memheap_take_whole:
  assumes inv: "mh_inv h (xs @ (p, n, False) # ys) (fa @ p # fb)" and sz: "unat sz \<le> n" "\<not> unat sz + 60 \<le> n" and fs: "unat fs = n"
  shows "mh_inv (memheap_take sz p fs h) (xs @ mh_carve (unat sz) p n @ ys) (fa @ fb)" "same_mh h (memheap_take sz p fs h)"
proof -
  let ?bs = "xs @ (p, n, False) # ys"
  have wf: "mh_wf h ?bs" and r: "ring (free_links h) (mh_free_list h) (fa @ p # fb)" and av: "unat (mh_available_size h) = free_bytes ?bs"
    and mg: "mh_merged ?bs" using inv by (simp_all add: mh_inv_def)
  note T = take_facts [OF inv sz(1)] and FB = mh_free_bytes [OF wf]
  define h1 where "h1 = memheap_set_max (h\<lparr>mh_available_size := mh_available_size h - fs\<rparr>)"
  define h2 where "h2 = upd_item p (\<lambda>i. i\<lparr>mi_next_free := RT_NULL, mi_prev_free := RT_NULL\<rparr>) (free_unlink p h1)"
  have "mh_wf h1 ?bs" "ring (free_links h1) (mh_free_list h1) (fa @ p # fb)" using wf r by (simp_all add: h1_def)
  note w2 = take_whole_ok [OF this refl, folded h2_def]
  have s2: "same_mh h h2" "mh_free_list h1 = mh_free_list h" by (simp_all add: h2_def h1_def same_mh_def)
  have a2: "unat (mh_available_size h2) = free_bytes ?bs - n"
    using av fs by (simp add: h2_def h1_def) (subst unat_sub, simp_all add: word_le_nat_alt)
  have "\<not> ucast fs \<ge> sz + 48 + 12" using fs T(2) sz by (simp add: word_le_nat_alt)
  then have e: "memheap_take sz p fs h = upd_item p (\<lambda>i. i\<lparr>mi_magic := RT_MEMHEAP_MAGIC OR RT_MEMHEAP_USED\<rparr>) h2"
    by (simp only: memheap_take_def Let_def if_False h2_def h1_def)
  have a2': "unat (mh_available_size h2) = free_bytes (xs @ mh_carve (unat sz) p n @ ys)" using a2 sz by (simp add: mh_carve_def)
  have "unat (mh_pool_size h2) - unat (mh_available_size h2) \<le> unat (mh_max_used_size h2)"
    using set_max_bound [of "h\<lparr>mh_available_size := mh_available_size h - fs\<rparr>"] a2 FB by (simp add: h2_def h1_def)
  then show "mh_inv (memheap_take sz p fs h) (xs @ mh_carve (unat sz) p n @ ys) (fa @ fb)"
    unfolding e a2' using w2 mh_wf_used(1) [OF w2(1)] a2' sz T(1) s2 mh_merged_carve [OF mg, of "unat sz"]
    by (intro mh_invI) (simp_all add: mh_carve_def same_mh_def mh_wf_used(2))
  show "same_mh h (memheap_take sz p fs h)" using s2(1) by (simp add: e same_mh_def)
qed


text \<open>The block \<open>rt_memheap_alloc\<close> finds: the first of the free list that is large enough.\<close>

definition mh_fit :: "u64 \<Rightarrow> memheap \<Rightarrow> node list \<Rightarrow> node option" where
  "mh_fit sz h fl = (if sz < ucast (mh_available_size h) then find (\<lambda>p. sz \<le> MEMITEM_SIZE h p) fl else None)"

lemma mh_free_block:
  assumes "mh_inv h bs fl" "p \<in> set fl"
  obtains xs n ys where "bs = xs @ (p, n, False) # ys"
proof -
  obtain n where "(p, n, False) \<in> set bs" using assms by (auto simp: mh_inv_def free_addrs_def)
  then show thesis using that by (metis split_list)
qed

lemma request_pos: "0 < memheap_request n" "memheap_request n \<noteq> 0"
proof -
  have "12 \<le> memheap_request n" by (simp add: memheap_request_def Let_def linorder_not_less)
  then show "0 < memheap_request n" by (rule order.strict_trans2 [rotated]) simp
  then show "memheap_request n \<noteq> 0" by auto
qed

lemma rt_memheap_alloc_ok:
  assumes inv: "mh_inv h bs fl"
  shows "case mh_fit (memheap_request n) h fl of
      None \<Rightarrow> rt_memheap_alloc n h = Some (RT_NULL, h)
    | Some p \<Rightarrow> \<exists>xs m ys fl' h'. bs = xs @ (p, m, False) # ys \<and> unat (memheap_request n) \<le> m \<and> p + 48 + m < 2 ^ 64 \<and>
        rt_memheap_alloc n h = Some (p + 48, h') \<and> mh_inv h' (xs @ mh_carve (unat (memheap_request n)) p m @ ys) fl' \<and> same_mh h h'"
proof (cases "memheap_request n < ucast (mh_available_size h)")
  case True
  let ?sz = "memheap_request n"
  have r: "ring (free_links h) (mh_free_list h) fl" using inv by (simp add: mh_inv_def)
  have l: "\<forall>q\<in>set fl. unat (MEMITEM_SIZE h q) < 2 ^ 31"
  proof
    fix q
    assume "q \<in> set fl"
    then obtain xs m ys where "bs = xs @ (q, m, False) # ys" by (rule mh_free_block [OF inv])
    then show "unat (MEMITEM_SIZE h q) < 2 ^ 31" using inv mh_wf_at(6,7) [of h xs q m False ys] by (simp add: mh_inv_def)
  qed
  have s: "seg (free_links h) (mh_free_list h) fl (mh_free_list h)" "mh_free_list h \<notin> set fl" using r by (simp_all add: ring_def)
  have fst: "mi_next_free (item h (mh_free_list h)) = hd (fl @ [mh_free_list h])" using seg_first [OF s(1)] by simp
  obtain q fs where Q: "free_search h ?sz (mi_next_free (item h (mh_free_list h))) 0 = Some (q, fs)"
    "case find (\<lambda>p. ?sz \<le> MEMITEM_SIZE h p) fl of None \<Rightarrow> ucast fs < ?sz | Some r \<Rightarrow> q = r \<and> ucast fs = MEMITEM_SIZE h r \<and> ?sz \<le> ucast fs"
    by (rule free_search_find [OF s l, of 0]) (use request_pos(1) [of n] fst in simp_all)
  show ?thesis
  proof (cases "find (\<lambda>p. ?sz \<le> MEMITEM_SIZE h p) fl")
    case None
    then have "\<not> ?sz \<le> ucast fs" using Q(2) by (simp add: linorder_not_le)
    then show ?thesis using True Q(1) None by (simp add: rt_memheap_alloc_def mh_fit_def)
  next
    case (Some p)
    then have q: "q = p" "ucast fs = MEMITEM_SIZE h p" "?sz \<le> ucast fs" using Q(2) unfolding Some option.case by blast+
    have "p \<in> set fl" using Some by (metis find_Some_iff nth_mem)
    then obtain fa fb where fl: "fl = fa @ p # fb" by (metis split_list)
    obtain xs m ys where bs: "bs = xs @ (p, m, False) # ys" by (rule mh_free_block [OF inv \<open>p \<in> set fl\<close>])
    have inv': "mh_inv h (xs @ (p, m, False) # ys) (fa @ p # fb)" using inv by (simp add: bs fl)
    then have wf: "mh_wf h (xs @ (p, m, False) # ys)" by (simp add: mh_inv_def)
    note A = mh_wf_at [OF wf] and F = mh_wf_frameD [OF wf]
    have fs: "unat fs = m" using q(2) A(6) unat_ucast_simps(7) [of fs] by simp
    have sz: "unat ?sz \<le> m" using q(2,3) A(6) by (simp add: word_le_nat_alt)
    have p: "ptr_add p 48 = p + 48" using A(5) F(4) by (subst ptr_add_small) simp_all
    have e: "rt_memheap_alloc n h = Some (p + 48, memheap_take ?sz p fs h)"
      using True Q(1) q p by (simp add: rt_memheap_alloc_def Let_def)
    have "\<exists>fl'. mh_inv (memheap_take ?sz p fs h) (xs @ mh_carve (unat ?sz) p m @ ys) fl' \<and> same_mh h (memheap_take ?sz p fs h)"
      using memheap_take_cut [OF inv' _ fs, of ?sz] memheap_take_whole [OF inv' sz _ fs] by blast
    then obtain fl' where "mh_inv (memheap_take ?sz p fs h) (xs @ mh_carve (unat ?sz) p m @ ys) fl'" "same_mh h (memheap_take ?sz p fs h)"
      by blast
    moreover have "p + 48 + m < 2 ^ 64" using A(5) F(4) by simp
    ultimately show ?thesis unfolding mh_fit_def if_P [OF True] Some option.case using bs sz e by blast
  qed
qed (simp add: rt_memheap_alloc_def mh_fit_def)

subsection \<open>Release\<close>

text \<open>A heap on the way: the counters and the free list are right but for the block \<open>p\<close>.\<close>

definition mh_mid :: "memheap \<Rightarrow> mh_blocks \<Rightarrow> node list \<Rightarrow> node set \<Rightarrow> bool" where
  "mh_mid h bs fl out \<longleftrightarrow> mh_wf h bs \<and> ring (free_links h) (mh_free_list h) fl \<and> set fl = free_addrs bs - out \<and>
     unat (mh_available_size h) = free_bytes bs \<and> unat (mh_pool_size h) - free_bytes bs \<le> unat (mh_max_used_size h)"

lemma mh_mid_inv: "mh_mid h bs fl {} \<Longrightarrow> mh_merged bs \<Longrightarrow> mh_inv h bs fl"
  unfolding mh_mid_def mh_inv_def by simp_all

lemma mh_mid_push:
  assumes "mh_mid h (xs @ (p, n, False) # ys) fl {p}"
  shows "mh_mid (free_push p h) (xs @ (p, n, False) # ys) (p # fl) {}"
proof -
  have wf: "mh_wf h (xs @ (p, n, False) # ys)" using assms by (simp add: mh_mid_def)
  have sf: "set fl = free_addrs (xs @ (p, n, False) # ys) - {p}" using assms by (simp only: mh_mid_def)
  then have "p \<notin> set (mh_free_list h # fl)" using mh_wf_addrs(3) [OF wf] by simp
  moreover have "set (p # fl) = free_addrs (xs @ (p, n, False) # ys) - {}" by (auto simp: sf)
  ultimately show ?thesis using assms free_push_ring [of h fl p] unfolding mh_mid_def by simp
qed

lemma mh_release:
  assumes inv: "mh_inv h (xs @ (p, n, True) # ys) fl"
  defines "h1 \<equiv> upd_item p (\<lambda>i. i\<lparr>mi_magic := RT_MEMHEAP_MAGIC OR RT_MEMHEAP_FREED\<rparr>) h"
  shows "mh_mid (h1\<lparr>mh_available_size := ucast (ucast (mh_available_size h1) + MEMITEM_SIZE h1 p)\<rparr>) (xs @ (p, n, False) # ys) fl {p}"
proof -
  have wf: "mh_wf h (xs @ (p, n, True) # ys)" using inv by (simp add: mh_inv_def)
  have w1: "mh_wf h1 (xs @ (p, n, False) # ys)" using mh_wf_tag [OF wf, of _ False] by (simp add: h1_def)
  have s: "MEMITEM_SIZE h1 p = MEMITEM_SIZE h p" "free_links h1 = free_links h" "mh_available_size h1 = mh_available_size h"
    by (simp_all add: h1_def MEMITEM_SIZE_def)
  have "unat (mh_available_size h) + n < 2 ^ 32" using inv mh_free_bytes [OF w1] mh_wf_frameD(3) [OF w1]
    by (simp add: mh_inv_def h1_def)
  then have "unat (ucast (ucast (mh_available_size h) + MEMITEM_SIZE h p) :: u32) = unat (mh_available_size h) + n"
    using avail_add [of "mh_available_size h" "MEMITEM_SIZE h p"] mh_wf_at(6) [OF wf] by simp
  moreover have "set fl = free_addrs (xs @ (p, n, False) # ys) - {p}"
    using inv mh_wf_addrs(1,2) [OF wf] unfolding mh_inv_def by simp
  moreover have "ring (free_links h) (mh_free_list h) fl" "unat (mh_available_size h) = free_bytes xs + free_bytes ys"
    "unat (mh_pool_size h) - (free_bytes xs + free_bytes ys) \<le> unat (mh_max_used_size h)" using inv by (simp_all add: mh_inv_def)
  moreover have "mh_pool_size h1 = mh_pool_size h" "mh_max_used_size h1 = mh_max_used_size h" "mh_free_list h1 = mh_free_list h"
    by (simp_all add: h1_def)
  ultimately show ?thesis using w1 unfolding mh_mid_def by (simp add: s)
qed


definition mh_live :: "mh_blocks \<Rightarrow> (node \<times> nat) set" where
  "mh_live bs = {(p + 48, n) | p n. (p, n, True) \<in> set bs}"

lemma mh_live_simps [simp]:
  "mh_live [] = {}" "mh_live ((p, n, u) # bs) = (if u then {(p + 48, n)} else {}) \<union> mh_live bs"
  "mh_live (xs @ ys) = mh_live xs \<union> mh_live ys"
  by (auto simp: mh_live_def)

lemma avail_add_header:
  assumes "mh_wf h bs" "unat (a :: u32) + 48 \<le> free_bytes bs"
  shows "unat (ucast (ucast a + 48 :: u64) :: u32) = unat a + 48"
  using avail_add [of a 48] mh_free_bytes [OF assms(1)] mh_wf_frameD(3) [OF assms(1)] assms(2) by simp

lemma prev_used:
  assumes wf: "mh_wf h (xs @ (p, n, u) # ys)" and "xs = [] \<or> snd (snd (last xs))"
  shows "memheap_is_used h (mi_prev (item h p))"
proof (cases xs rule: rev_cases)
  case Nil
  then have "mi_prev (item h p) = mh_tail h" using mh_wf_at(2) [OF wf] by simp
  then show ?thesis using wf is_used_header [of h "mh_tail h" True] by (simp add: mh_wf_def)
next
  case (snoc us b)
  obtain q m where b: "b = (q, m, True)" using assms(2) by (cases b) (simp add: snoc)
  have wf': "mh_wf h (us @ (q, m, True) # (p, n, u) # ys)" using wf by (simp add: snoc b)
  show ?thesis using mh_wf_prev [OF wf'] is_used_header [OF mh_wf_at(3) [OF wf']] by simp
qed

lemma next_used:
  assumes wf: "mh_wf h (xs @ (p, n, u) # ys)"
  shows "memheap_is_used h (mi_next (item h p)) \<longleftrightarrow> ys = [] \<or> snd (snd (hd ys))"
proof (cases ys)
  case Nil
  then show ?thesis using mh_wf_at(9) [OF wf] wf is_used_header [of h "mh_tail h" True] by (simp add: mh_wf_def)
next
  case (Cons b us)
  obtain q m v where b: "b = (q, m, v)" by (cases b)
  have wf': "mh_wf h ((xs @ [(p, n, u)]) @ (q, m, v) # us)" using wf by (simp add: Cons b)
  show ?thesis using mh_wf_at(9) [OF wf] is_used_header [OF mh_wf_at(3) [OF wf']] by (simp add: Cons b)
qed

text \<open>Two neighbours are joined: the counter grows by the header that is given up.\<close>

lemma mh_mid_join:
  assumes mid: "mh_mid h (xs @ (p, n, False) # (q, m, False) # ys) fl out" and s: "same_mh h h'"
    and n: "\<And>x. x \<noteq> q \<Longrightarrow> mi_next (item h' x) = (if x = p then mi_next (item h q) else mi_next (item h x))"
    and p: "\<And>x. x \<noteq> q \<Longrightarrow> mi_prev (item h' x) = (if x = mi_next (item h q) then p else mi_prev (item h x))"
    and m: "\<And>x. x \<noteq> q \<Longrightarrow> mi_magic (item h' x) = mi_magic (item h x) \<and> mi_pool_ptr (item h' x) = mi_pool_ptr (item h x)"
    and a: "mh_available_size h' = ucast (ucast (mh_available_size h) + 48 :: u64)" "mh_max_used_size h' = mh_max_used_size h"
    and r: "ring (free_links h') (mh_free_list h') fl'" "set fl' = free_addrs (xs @ (p, n, False) # ys) - out'"
  shows "mh_mid h' (xs @ (p, n + 48 + m, False) # ys) fl' out'"
proof -
  have wf: "mh_wf h (xs @ (p, n, False) # (q, m, False) # ys)" using mid by (simp add: mh_mid_def)
  have w: "mh_wf h' (xs @ (p, n + 48 + m, False) # ys)" by (rule mh_wf_join [OF wf s n p m])
  have av: "unat (mh_available_size h) + 48 = free_bytes (xs @ (p, n + 48 + m, False) # ys)" using mid by (simp add: mh_mid_def)
  then have "unat (mh_available_size h') = free_bytes (xs @ (p, n + 48 + m, False) # ys)"
    using avail_add_header [OF w, of "mh_available_size h"] by (simp add: a)
  moreover have "unat (mh_pool_size h) - free_bytes (xs @ (p, n, False) # (q, m, False) # ys) \<le> unat (mh_max_used_size h)"
    using mid unfolding mh_mid_def by blast
  then have "unat (mh_pool_size h') - free_bytes (xs @ (p, n + 48 + m, False) # ys) \<le> unat (mh_max_used_size h')"
    using s a(2) by (simp add: same_mh_def)
  ultimately show ?thesis using w r s unfolding mh_mid_def same_mh_def by simp
qed

lemma merge_left_join:
  assumes mid: "mh_mid h (xs @ (q, m, False) # (p, n, False) # ys) fl {p}"
  obtains h' where "merge_left p h = (q, False, h')" "mh_mid h' (xs @ (q, m + 48 + n, False) # ys) fl {}" "same_mh h h'"
proof -
  have wf: "mh_wf h (xs @ (q, m, False) # (p, n, False) # ys)" using mid by (simp add: mh_mid_def)
  then have wf': "mh_wf h ((xs @ [(q, m, False)]) @ (p, n, False) # ys)" by simp
  note A = mh_wf_at [OF wf'] and pq = mh_wf_prev [OF wf] and D = mh_wf_addrs [OF wf']
  have nu: "\<not> memheap_is_used h q" using is_used_header [OF mh_wf_at(3) [OF wf]] by simp
  define h1 where "h1 = h\<lparr>mh_available_size := ucast (ucast (mh_available_size h) + 48 :: u64)\<rparr>"
  define h2 where "h2 = upd_item q (\<lambda>i. i\<lparr>mi_next := mi_next (item h1 p)\<rparr>) h1"
  define h3 where "h3 = upd_item (mi_next (item h2 p)) (\<lambda>i. i\<lparr>mi_prev := q\<rparr>) h2"
  have np: "q \<noteq> p" "mi_next (item h p) \<noteq> p" using A(1,8) by auto
  then have i: "item h2 p = item h p" "item h3 p = item h p" by (simp_all add: h3_def h2_def h1_def)
  have e: "merge_left p h = (q, False, h3)" using nu pq i np by (simp add: merge_left_def Let_def h3_def h2_def h1_def)
  have s: "same_mh h h3" by (simp add: same_mh_def h3_def h2_def h1_def)
  have f: "free_links h3 = free_links h" by (simp add: h3_def h2_def h1_def free_links_def fun_eq_iff)
  have "set fl = free_addrs (xs @ (q, m, False) # ys) - {}" using mid D(1,2) unfolding mh_mid_def by auto
  moreover have "ring (free_links h3) (mh_free_list h3) fl" using mid f s by (simp add: mh_mid_def same_mh_def)
  ultimately have "mh_mid h3 (xs @ (q, m + 48 + n, False) # ys) fl {}"
    by (intro mh_mid_join [OF mid s]) (use np i in \<open>auto simp: h3_def h2_def h1_def\<close>)
  then show thesis using that e s by blast
qed

lemma merge_left_ok:
  assumes mid: "mh_mid h (xs @ (p, n, False) # ys) fl {p}" and mg: "mh_merged xs"
  obtains zs q k ins h' where "merge_left p h = (q, ins, h')" "mh_mid h' (zs @ (q, k, False) # ys) fl (if ins then {q} else {})"
    "same_mh h h'" "mh_merged zs" "zs = [] \<or> snd (snd (last zs))" "mh_live zs = mh_live xs"
proof (cases "xs = [] \<or> snd (snd (last xs))")
  case True
  then have "merge_left p h = (p, True, h)" using prev_used [of h xs p n False ys] mid by (simp add: merge_left_def mh_mid_def)
  then show thesis using True mid mg by (intro that [of p True h xs n]) (simp_all add: same_mh_def)
next
  case False
  then obtain us q m where xs: "xs = us @ [(q, m, False)]" by (cases xs rule: rev_cases) auto
  obtain h' where "merge_left p h = (q, False, h')" "mh_mid h' (us @ (q, m + 48 + n, False) # ys) fl {}" "same_mh h h'"
    by (rule merge_left_join [of h us q m p n ys fl]) (use mid xs in simp_all)
  then show thesis using mg by (intro that [of q False h' us "m + 48 + n"]) (auto simp: xs)
qed

lemma merge_right_ok:
  assumes mid: "mh_mid h (xs @ (p, n, False) # ys) fl out" and out: "out \<subseteq> {p}" and mg: "mh_merged ys"
  obtains zs k h' fl' where "merge_right p h = h'" "mh_mid h' (xs @ (p, k, False) # zs) fl' out"
    "same_mh h h'" "mh_merged zs" "zs = [] \<or> snd (snd (hd zs))" "mh_live zs = mh_live ys"
proof (cases "ys = [] \<or> snd (snd (hd ys))")
  case True
  then have "merge_right p h = h" using next_used [of h xs p n False ys] mid by (simp add: merge_right_def mh_mid_def)
  then show thesis using True mid mg by (intro that [of h n ys fl]) (simp_all add: same_mh_def)
next
  case False
  then obtain q m us where ys: "ys = (q, m, False) # us" by (cases ys) auto
  have mid': "mh_mid h (xs @ (p, n, False) # (q, m, False) # us) fl out" using mid by (simp add: ys)
  then have wf: "mh_wf h (xs @ (p, n, False) # (q, m, False) # us)" by (simp add: mh_mid_def)
  then have wf': "mh_wf h ((xs @ [(p, n, False)]) @ (q, m, False) # us)" by simp
  note A = mh_wf_at [OF wf'] and D = mh_wf_addrs [OF wf']
  have nx: "mi_next (item h p) = q" using mh_wf_at(9) [OF wf] by simp
  have nu: "\<not> memheap_is_used h q" using is_used_header [OF mh_wf_at(3) [OF wf']] by simp
  define h1 where "h1 = h\<lparr>mh_available_size := ucast (ucast (mh_available_size h) + 48 :: u64)\<rparr>"
  define h2 where "h2 = upd_item (mi_next (item h1 q)) (\<lambda>i. i\<lparr>mi_prev := p\<rparr>) h1"
  define h3 where "h3 = upd_item p (\<lambda>i. i\<lparr>mi_next := mi_next (item h2 q)\<rparr>) h2"
  have np: "p \<noteq> q" "mi_next (item h q) \<noteq> q" using A(1,8) by auto
  then have i: "item h2 q = item h q" by (simp add: h2_def h1_def)
  have e: "merge_right p h = free_unlink q h3" using nu nx by (simp add: merge_right_def Let_def h3_def h2_def h1_def)
  have s: "same_mh h (free_unlink q h3)" by (simp add: same_mh_def h3_def h2_def h1_def)
  have f: "free_links h3 = free_links h" by (simp add: h3_def h2_def h1_def free_links_def fun_eq_iff)
  have sf: "set fl = free_addrs (xs @ (p, n, False) # (q, m, False) # us) - out" using mid' by (simp only: mh_mid_def)
  then have "q \<in> set fl" using out np by auto
  then obtain fa fb where fl: "fl = fa @ q # fb" by (metis split_list)
  have r: "ring (free_links h) (mh_free_list h) (fa @ q # fb)" using mid' by (simp add: mh_mid_def fl)
  have "set (fa @ fb) = free_addrs (xs @ (p, n, False) # us) - out"
    using sf r D(1,2) np out unfolding fl by (auto simp: ring_def)
  moreover have "ring (free_links (free_unlink q h3)) (mh_free_list (free_unlink q h3)) (fa @ fb)"
    using free_unlink_ring [of h3 "mh_free_list h" fa q fb] r f s by (simp add: same_mh_def)
  ultimately have "mh_mid (free_unlink q h3) (xs @ (p, n + 48 + m, False) # us) (fa @ fb) out"
    by (intro mh_mid_join [OF mid' s]) (use np i in \<open>auto simp: h3_def h2_def h1_def\<close>)
  then show thesis using e s mg by (intro that [of "free_unlink q h3" "n + 48 + m" us]) (simp_all add: ys mh_merged_Cons)
qed

end
