(* ===== verification/MemheapResize.thy ===== *)
theory MemheapResize
  imports MemheapOps
begin

section \<open>Release and resizing of the blocks of a memory heap\<close>

text \<open>
  The whole of \<open>rt_memheap_free\<close>, the two ways \<open>rt_memheap_realloc\<close> resizes a block where it stands,
  and \<open>rt_memheap_realloc\<close> itself, with the effect of each on the set of blocks in use.
\<close>

lemma header_masked: "mh_header h p u \<Longrightarrow> mi_magic (item h p) AND RT_MEMHEAP_MASK = RT_MEMHEAP_MAGIC"
  by (cases u) (simp_all add: mh_header_def)

lemma next_header:
  assumes wf: "mh_wf h (xs @ (p, n, u) # ys)"
  shows "mi_magic (item h (mi_next (item h p))) AND RT_MEMHEAP_MASK = RT_MEMHEAP_MAGIC"
proof (cases ys)
  case Nil
  then show ?thesis using mh_wf_at(9) [OF wf] wf header_masked [of h "mh_tail h" True] by (simp add: mh_wf_def)
next
  case (Cons b us)
  obtain q m v where b: "b = (q, m, v)" by (cases b)
  have wf': "mh_wf h ((xs @ [(p, n, u)]) @ (q, m, v) # us)" using wf by (simp add: Cons b)
  show ?thesis using mh_wf_at(9) [OF wf] header_masked [OF mh_wf_at(3) [OF wf']] by (simp add: Cons b)
qed

lemma live_fresh:
  assumes wf: "mh_wf h (xs @ (p, n, True) # ys)"
  shows "(p + 48, m) \<notin> mh_live xs \<union> mh_live ys"
  using mh_wf_at(8) [OF wf] by (force simp: mh_live_def)

lemma same_mh_trans: "same_mh a b \<Longrightarrow> same_mh b c \<Longrightarrow> same_mh a c"
  by (simp add: same_mh_def)

lemma rt_memheap_free_ok:
  assumes inv: "mh_inv h (xs @ (p, n, True) # ys) fl"
  obtains h' bs' fl' where "rt_memheap_free (p + 48) h = Some h'" "mh_inv h' bs' fl'" "same_mh h h'"
    "mh_live bs' = mh_live (xs @ (p, n, True) # ys) - {(p + 48, n)}"
proof -
  have wf: "mh_wf h (xs @ (p, n, True) # ys)" and mg: "mh_merged xs" "mh_merged ys"
    using inv by (simp_all add: mh_inv_def mh_merged_Cons)
  note A = mh_wf_at [OF wf] and F = mh_wf_frameD [OF wf]
  have p: "ptr_sub (p + 48) 48 = p" by (rule ptr_sub_add) (use A(5) F(4) in simp)
  define h1 where "h1 = upd_item p (\<lambda>i. i\<lparr>mi_magic := RT_MEMHEAP_MAGIC OR RT_MEMHEAP_FREED\<rparr>) h"
  define h2 where "h2 = h1\<lparr>mh_available_size := ucast (ucast (mh_available_size h1) + MEMITEM_SIZE h1 p)\<rparr>"
  have mid: "mh_mid h2 (xs @ (p, n, False) # ys) fl {p}" unfolding h2_def h1_def by (rule mh_release [OF inv])
  have s2: "same_mh h h2" by (simp add: h2_def h1_def same_mh_def)
  obtain zs q k ins h3 where L: "merge_left p h2 = (q, ins, h3)" "mh_mid h3 (zs @ (q, k, False) # ys) fl (if ins then {q} else {})"
      "same_mh h2 h3" "mh_merged zs" "zs = [] \<or> snd (snd (last zs))" "mh_live zs = mh_live xs"
    by (rule merge_left_ok [OF mid mg(1)])
  obtain vs k' h4 fl4 where R: "merge_right q h3 = h4" "mh_mid h4 (zs @ (q, k', False) # vs) fl4 (if ins then {q} else {})"
      "same_mh h3 h4" "mh_merged vs" "vs = [] \<or> snd (snd (hd vs))" "mh_live vs = mh_live ys"
    by (rule merge_right_ok [OF L(2) _ mg(2)]) (cases ins; simp)
  define h5 where "h5 = (if ins then free_push q h4 else h4)"
  have "\<exists>fl5. mh_mid h5 (zs @ (q, k', False) # vs) fl5 {}"
    using R(2) mh_mid_push [of h4 zs q k' vs fl4] by (cases ins) (auto simp: h5_def)
  then obtain fl5 where m5: "mh_mid h5 (zs @ (q, k', False) # vs) fl5 {}" ..
  have "mh_merged (zs @ (q, k', False) # vs)" using L(4,5) R(4,5) by (auto simp: mh_merged_Cons)
  then have inv5: "mh_inv h5 (zs @ (q, k', False) # vs) fl5" by (rule mh_mid_inv [OF m5])
  have "same_mh h h4" using s2 L(3) R(3) by (blast intro: same_mh_trans)
  then have s5: "same_mh h h5" by (simp add: h5_def same_mh_def)
  have "rt_memheap_free (p + 48) h = Some h5"
    using A(3) p next_header [OF wf] L(1) R(1) by (simp add: rt_memheap_free_def mh_header_def h5_def h2_def h1_def Let_def)
  moreover have "mh_live (zs @ (q, k', False) # vs) = mh_live (xs @ (p, n, True) # ys) - {(p + 48, n)}"
    using L(6) R(6) live_fresh [OF wf, of n] by auto
  ultimately show thesis using inv5 s5 that by blast
qed

subsection \<open>Resizing in place\<close>

lemma realloc_grow_ok:
  assumes inv: "mh_inv h (xs @ (p, n, True) # (q, m, False) # ys) fl" and old: "unat old = n" and new: "n < unat new" "unat new + 12 < n + m"
  obtains fl' where "mh_inv (realloc_grow (p + 48) new old h) (xs @ (p, unat new, True) # (p + 48 + unat new, n + m - unat new, False) # ys) fl'"
    "same_mh h (realloc_grow (p + 48) new old h)"
proof -
  let ?bs = "xs @ (p, n, True) # (q, m, False) # ys" and ?x = "p + 48 + unat new"
  let ?js = "xs @ (p, n + 48 + m, True) # ys" and ?cs = "xs @ (p, unat new, True) # (?x, n + m - unat new, False) # ys"
  have wf: "mh_wf h ?bs" and mg: "mh_merged ?bs" and av: "unat (mh_available_size h) = free_bytes ?bs" and sf: "set fl = free_addrs ?bs"
    and r: "ring (free_links h) (mh_free_list h) fl" using inv by (simp_all add: mh_inv_def)
  then have wf': "mh_wf h ((xs @ [(p, n, True)]) @ (q, m, False) # ys)" by simp
  note A = mh_wf_at [OF wf] and B = mh_wf_at [OF wf'] and F = mh_wf_frameD [OF wf] and D = mh_wf_addrs [OF wf'] and FB = mh_free_bytes [OF wf]
  have p: "ptr_sub (p + 48) 48 = p" by (rule ptr_sub_add) (use A(5) F(4) in simp)
  have nx: "mi_next (item h p) = q" "mi_prev (item h q) = p" using A(9) mh_wf_prev [OF wf] by simp_all
  have x: "ptr_add (p + 48) new = ?x" using new B(5) F(4) A(1) nx by (subst ptr_add_small) simp_all
  define h1 where "h1 = memheap_set_max (h\<lparr>mh_available_size := ucast (ucast (mh_available_size h) - (new - old))\<rparr>)"
  define h2 where "h2 = free_unlink q h1"
  define h3 where "h3 = upd_item (mi_next (item h2 q)) (\<lambda>i. i\<lparr>mi_prev := mi_prev (item h2 q)\<rparr>) h2"
  define h4 where "h4 = upd_item (mi_prev (item h3 q)) (\<lambda>i. i\<lparr>mi_next := mi_next (item h3 q)\<rparr>) h3"
  define h5 where "h5 = block_link ?x p (upd_item ?x (\<lambda>i. i\<lparr>mi_magic := RT_MEMHEAP_MAGIC OR RT_MEMHEAP_FREED, mi_pool_ptr := mh_self h4\<rparr>) h4)"
  have e: "realloc_grow (p + 48) new old h = free_push ?x h5"
    by (simp only: realloc_grow_def Let_def p nx x h1_def h2_def h3_def h4_def h5_def)
  have np: "p \<noteq> q" "mi_next (item h q) \<noteq> q" using B(1,8) by auto
  have i: "\<And>y. mi_next (item h2 y) = mi_next (item h y) \<and> mi_prev (item h2 y) = mi_prev (item h y)" by (simp add: h2_def h1_def)
  have s: "same_mh h h1" "same_mh h h4" by (simp_all add: same_mh_def h4_def h3_def h2_def h1_def)
  have "q \<in> set fl" using sf by simp
  then obtain fa fb where fl: "fl = fa @ q # fb" by (metis split_list)
  have h3': "h3 = upd_item (mi_next (item h q)) (\<lambda>i. i\<lparr>mi_prev := p\<rparr>) h2" by (simp add: h3_def i nx)
  then have h4': "h4 = upd_item p (\<lambda>i. i\<lparr>mi_next := mi_next (item h q)\<rparr>) h3" using np by (simp add: h4_def i nx)
  have k: "\<And>y. mi_magic (item h2 y) = mi_magic (item h y) \<and> mi_pool_ptr (item h2 y) = mi_pool_ptr (item h y)" by (simp add: h2_def h1_def)
  have w: "mh_wf h4 ?js" by (rule mh_wf_join [OF wf s(2)]) (simp_all add: h4' h3' i k)
  have "n + 48 + m = unat new + 48 + (n + m - unat new)" using new by simp
  then have w4: "mh_wf h4 (xs @ (p, unat new + 48 + (n + m - unat new), True) # ys)" using w by (simp only:)
  have w5: "mh_wf h5 ?cs" unfolding h5_def by (rule mh_wf_cut [OF w4]) simp_all
  have f5: "free_links h5 = free_links h2" by (simp add: h5_def h4_def h3_def)
  have r5: "ring (free_links h5) (mh_free_list h) (fa @ fb)"
    unfolding f5 h2_def by (rule free_unlink_ring) (use r fl in \<open>simp add: h1_def\<close>)
  have sf': "set (fa @ fb) = free_addrs xs \<union> free_addrs ys" using sf r D fl by (auto simp: ring_def)
  have nf: "?x \<notin> set (mh_free_list h # fa @ fb)"
    using mh_wf_fresh [OF w4, of ?x] new sf' free_addrs_sub [of xs] free_addrs_sub [of ys] s(2) by (auto simp: same_mh_def)
  have "unat (new - old) = unat new - n" using old new by (subst unat_sub) (simp_all add: word_le_nat_alt)
  then have a1: "unat (mh_available_size h1) = free_bytes ?cs"
    using avail_sub [of "new - old" "mh_available_size h"] av new by (simp add: h1_def)
  have c: "mh_available_size h5 = mh_available_size h1" "mh_pool_size h5 = mh_pool_size h1" "mh_max_used_size h5 = mh_max_used_size h1" "same_mh h h5"
    using s by (simp_all add: h5_def h4_def h3_def h2_def same_mh_def)
  have "unat (mh_pool_size h1) - free_bytes ?cs \<le> unat (mh_max_used_size h1)"
    unfolding a1 [symmetric] by (rule set_max_bound_of [OF h1_def]) (use a1 FB new in \<open>simp add: h1_def\<close>)
  then have "mh_inv (free_push ?x h5) ?cs (?x # fa @ fb)"
    using w5 free_push_ring [of h5 "fa @ fb" ?x] r5 nf c a1 sf' mg by (intro mh_invI) (auto simp: same_mh_def mh_merged_Cons)
  then show thesis using that c(4) by (simp add: e same_mh_def)
qed


lemma cut_merge_right_ok:
  assumes wf: "mh_wf h (us @ (x, k, False) # ys)" and r: "ring (free_links h) (mh_free_list h) fl"
    and sf: "set fl = free_addrs us \<union> free_addrs ys" and av: "unat (mh_available_size h) = free_bytes us + free_bytes ys" and mg: "mh_merged ys"
  obtains k' vs fl' where "mh_wf (cut_merge_right x h) (us @ (x, k', False) # vs)"
    "ring (free_links (cut_merge_right x h)) (mh_free_list h) fl'" "set fl' = free_addrs us \<union> free_addrs vs"
    "unat (mh_available_size (cut_merge_right x h)) = free_bytes us + free_bytes vs" "mh_merged vs" "vs = [] \<or> snd (snd (hd vs))"
    "mh_live vs = mh_live ys" "same_mh h (cut_merge_right x h)" "mh_max_used_size (cut_merge_right x h) = mh_max_used_size h"
    "free_bytes ys \<le> k' + free_bytes vs"
proof (cases "ys = [] \<or> snd (snd (hd ys))")
  case True
  then have "cut_merge_right x h = h" using next_used [OF wf] by (simp add: cut_merge_right_def)
  then show thesis using True assms by (intro that [of k ys fl]) (simp_all add: same_mh_def)
next
  case False
  then obtain q m vs where ys: "ys = (q, m, False) # vs" by (cases ys) auto
  have wf1: "mh_wf h (us @ (x, k, False) # (q, m, False) # vs)" using wf by (simp add: ys)
  then have wf': "mh_wf h ((us @ [(x, k, False)]) @ (q, m, False) # vs)" by simp
  note A = mh_wf_at [OF wf'] and D = mh_wf_addrs [OF wf']
  have nx: "mi_next (item h x) = q" using mh_wf_at(9) [OF wf1] by simp
  have nu: "\<not> memheap_is_used h q" using is_used_header [OF mh_wf_at(3) [OF wf']] by simp
  define h1 where "h1 = h\<lparr>mh_available_size := ucast (ucast (mh_available_size h) - MEMITEM_SIZE h q)\<rparr>"
  define h2 where "h2 = upd_item (mi_next (item h1 q)) (\<lambda>i. i\<lparr>mi_prev := x\<rparr>) h1"
  define h3 where "h3 = upd_item x (\<lambda>i. i\<lparr>mi_next := mi_next (item h2 q)\<rparr>) h2"
  have np: "x \<noteq> q" "mi_next (item h q) \<noteq> q" using A(1,8) by auto
  then have i: "item h2 q = item h q" by (simp add: h2_def h1_def)
  have e: "cut_merge_right x h = free_unlink q h3" using nu nx by (simp add: cut_merge_right_def Let_def h3_def h2_def h1_def)
  have s: "same_mh h (free_unlink q h3)" by (simp add: same_mh_def h3_def h2_def h1_def)
  have f: "free_links h3 = free_links h" by (simp add: h3_def h2_def h1_def free_links_def fun_eq_iff)
  have w: "mh_wf (free_unlink q h3) (us @ (x, k + 48 + m, False) # vs)"
    by (rule mh_wf_join [OF wf1 s]) (use np i in \<open>auto simp: h3_def h2_def h1_def\<close>)
  have "q \<in> set fl" using sf by (simp add: ys)
  then obtain fa fb where fl: "fl = fa @ q # fb" by (metis split_list)
  have r': "ring (free_links h) (mh_free_list h) (fa @ q # fb)" using r by (simp add: fl)
  have sf': "set (fa @ fb) = free_addrs us \<union> free_addrs vs"
    using sf r' D(1,2) unfolding fl ys by (auto simp: ring_def)
  have rr: "ring (free_links (free_unlink q h3)) (mh_free_list h) (fa @ fb)"
    by (rule free_unlink_ring) (simp add: f r')
  have a: "unat (mh_available_size (free_unlink q h3)) = free_bytes us + free_bytes vs"
    using avail_sub [of "MEMITEM_SIZE h q" "mh_available_size h"] A(6) av by (simp add: h3_def h2_def h1_def ys)
  have mx: "mh_max_used_size (free_unlink q h3) = mh_max_used_size h" by (simp add: h3_def h2_def h1_def)
  show thesis
    by (rule that [of "k + 48 + m" vs "fa @ fb"]) (use w rr sf' a mg s mx in \<open>simp_all add: e ys mh_merged_Cons\<close>)
qed

lemma realloc_cut_ok:
  assumes inv: "mh_inv h (xs @ (p, n, True) # ys) fl" and new: "unat new + 60 < n"
  obtains k vs fl' where "mh_inv (realloc_cut (p + 48) new h) (xs @ (p, unat new, True) # (p + 48 + unat new, k, False) # vs) fl'"
    "same_mh h (realloc_cut (p + 48) new h)" "mh_live vs = mh_live ys"
proof -
  let ?x = "p + 48 + unat new" and ?us = "xs @ [(p, unat new, True)]"
  have wf: "mh_wf h (xs @ (p, n, True) # ys)" and r: "ring (free_links h) (mh_free_list h) fl"
    and sf: "set fl = free_addrs ?us \<union> free_addrs ys" and av: "unat (mh_available_size h) = free_bytes ?us + free_bytes ys"
    and mx: "unat (mh_pool_size h) - (free_bytes ?us + free_bytes ys) \<le> unat (mh_max_used_size h)"
    and mg: "mh_merged ?us" "mh_merged ys"
    using inv by (simp_all add: mh_inv_def mh_merged_Cons)
  note A = mh_wf_at [OF wf] and F = mh_wf_frameD [OF wf]
  have p: "ptr_sub (p + 48) 48 = p" by (rule ptr_sub_add) (use A(5) F(4) in simp)
  have "unat (new + 48) = unat new + 48" using new A(7) by (subst unat_add_lem [THEN iffD1]) simp_all
  then have x: "ptr_add p (new + 48) = ?x" using new A(5) F(4) by (subst ptr_add_small) simp_all
  have "n = unat new + 48 + (n - 48 - unat new)" using new by simp
  then have wf0: "mh_wf h (xs @ (p, unat new + 48 + (n - 48 - unat new), True) # ys)" using wf by (simp only: )
  define h1 where "h1 = block_link ?x p (upd_item ?x (\<lambda>i. i\<lparr>mi_magic := RT_MEMHEAP_MAGIC OR RT_MEMHEAP_FREED, mi_pool_ptr := mh_self h\<rparr>) h)"
  have "mh_wf h1 (xs @ (p, unat new, True) # (?x, n - 48 - unat new, False) # ys)"
    unfolding h1_def by (rule mh_wf_cut [OF wf0]) simp_all
  then have w1: "mh_wf h1 (?us @ (?x, n - 48 - unat new, False) # ys)" by simp
  have s1: "free_links h1 = free_links h" "mh_free_list h1 = mh_free_list h" "mh_available_size h1 = mh_available_size h"
    "mh_max_used_size h1 = mh_max_used_size h" "same_mh h h1" by (simp_all add: h1_def same_mh_def)
  obtain k vs fl2 where C: "mh_wf (cut_merge_right ?x h1) (?us @ (?x, k, False) # vs)"
    "ring (free_links (cut_merge_right ?x h1)) (mh_free_list h1) fl2" "set fl2 = free_addrs ?us \<union> free_addrs vs"
    "unat (mh_available_size (cut_merge_right ?x h1)) = free_bytes ?us + free_bytes vs" "mh_merged vs" "vs = [] \<or> snd (snd (hd vs))"
    "mh_live vs = mh_live ys" "same_mh h1 (cut_merge_right ?x h1)" "mh_max_used_size (cut_merge_right ?x h1) = mh_max_used_size h1"
    "free_bytes ys \<le> k + free_bytes vs"
    by (rule cut_merge_right_ok [OF w1 _ sf _ mg(2)]) (use r av s1 in simp_all)
  define h2 where "h2 = cut_merge_right ?x h1"
  define h3 where "h3 = free_push ?x h2"
  note C = C [folded h2_def]
  have e: "realloc_cut (p + 48) new h = h3\<lparr>mh_available_size := ucast (ucast (mh_available_size h3) + MEMITEM_SIZE h3 ?x)\<rparr>"
    by (simp only: realloc_cut_def Let_def p x h1_def h2_def h3_def)
  have "?x \<notin> set (mh_free_list h2 # fl2)" using mh_wf_addrs(1-3) [OF C(1)] C(3) by simp
  then have r3: "ring (free_links h3) (mh_free_list h3) (?x # fl2)"
    using free_push_ring [of h2 fl2 ?x] C(2,8) by (simp add: h3_def same_mh_def)
  have w3: "mh_wf h3 (?us @ (?x, k, False) # vs)" using C(1) by (simp add: h3_def)
  have "unat (mh_available_size h3) + k < 2 ^ 32" using mh_free_bytes [OF w3] mh_wf_frameD(3) [OF w3] C(4) by (simp add: h3_def)
  then have a3: "unat (ucast (ucast (mh_available_size h3) + MEMITEM_SIZE h3 ?x) :: u32) = free_bytes (?us @ (?x, k, False) # vs)"
    using avail_add [of "mh_available_size h3" "MEMITEM_SIZE h3 ?x"] mh_wf_at(6) [OF w3] C(4) by (simp add: h3_def)
  have s3: "same_mh h h3" using s1(5) C(8) by (simp add: h3_def same_mh_def)
  have "unat (mh_pool_size h3) - free_bytes (?us @ (?x, k, False) # vs) \<le> unat (mh_max_used_size h3)"
    using mx C(9,10) s1(4) s3 by (simp add: h3_def same_mh_def)
  then have "mh_inv (realloc_cut (p + 48) new h) (?us @ (?x, k, False) # vs) (?x # fl2)"
    unfolding e using w3 r3 C(3,5,6) a3 mg(1) by (intro mh_invI) (auto simp: mh_merged_Cons)
  then show thesis using that C(7) s3 by (simp add: e same_mh_def)
qed

end
