(* ===== verification/MemheapProps.thy ===== *)
theory MemheapProps
  imports MemheapResize Allocator
begin

section \<open>Memory heaps as their clients see them\<close>

text \<open>
  What the operations do to the set of blocks in use, and the runs of a client from the set-up of a heap.
\<close>

lemma request_ge:
  assumes "unat n < 2 ^ 64 - 7"
  shows "unat n \<le> unat (memheap_request n)" "unat (memheap_request n) < unat n + 13"
proof -
  have "unat n \<le> unat (RT_ALIGN n)" "unat (RT_ALIGN n) < unat n + 8" unfolding RT_ALIGN_unat [OF assms] by simp_all
  then show "unat n \<le> unat (memheap_request n)" "unat (memheap_request n) < unat n + 13"
    by (auto simp: memheap_request_def Let_def word_less_nat_alt)
qed

lemma live_split_block:
  assumes "(p, n) \<in> mh_live bs"
  obtains xs a ys where "bs = xs @ (a, n, True) # ys" "p = a + 48"
proof -
  obtain a where "(a, n, True) \<in> set bs" "p = a + 48" using assms by (auto simp: mh_live_def)
  then show thesis using that by (metis split_list)
qed

lemma live_carve:
  assumes "mh_wf h (xs @ (p, m, False) # ys)" "sz \<le> m"
  obtains k where "mh_live (xs @ mh_carve sz p m @ ys) = insert (p + 48, k) (mh_live (xs @ (p, m, False) # ys))" "sz \<le> k" "k < sz + 60" "k \<le> m"
  using assms(2) by (cases "sz + 60 \<le> m") (fastforce simp: mh_carve_def)+

text \<open>Two blocks in use do not overlap, and each lies in the range of the heap, behind a header.\<close>

lemma mh_live_apart:
  assumes "mh_wf h bs" "(p, n) \<in> mh_live bs" "(q, m) \<in> mh_live bs"
  shows "(p, n) = (q, m) \<or> p + n + 48 \<le> q \<or> q + m + 48 \<le> p"
  using tiled_apart [of "mh_start_addr h" bs "mh_tail h"] assms by (fastforce simp: mh_live_def mh_wf_def)

lemma mh_live_range:
  assumes "mh_wf h bs" "(p, n) \<in> mh_live bs"
  shows "mh_start_addr h + 48 \<le> p" "p + n \<le> mh_tail h" "n < 2 ^ 31" "unat (MEMITEM_SIZE h (p - 48)) = n" "p < 2 ^ 64"
proof -
  obtain xs a ys where b: "bs = xs @ (a, n, True) # ys" "p = a + 48" by (rule live_split_block [OF assms(2)])
  note A = mh_wf_at [OF assms(1) [unfolded b]] and F = mh_wf_frameD [OF assms(1)]
  show "mh_start_addr h + 48 \<le> p" "p + n \<le> mh_tail h" "n < 2 ^ 31" "unat (MEMITEM_SIZE h (p - 48)) = n" "p < 2 ^ 64"
    using A(4-7) F(4) by (simp_all add: b)
qed

lemma memheap_alloc_live:
  assumes inv: "mh_inv h bs fl" and fit: "mh_fit (memheap_request n) h fl = Some x"
  obtains m h' bs' fl' where "rt_memheap_alloc n h = Some (x + 48, h')" "mh_inv h' bs' fl'" "same_mh h h'"
    "mh_live bs' = insert (x + 48, m) (mh_live bs)" "x + 48 \<notin> fst ` mh_live bs"
    "unat (memheap_request n) \<le> m" "m < unat (memheap_request n) + 60"
proof -
  obtain xs k ys fl' h' where A: "bs = xs @ (x, k, False) # ys" "unat (memheap_request n) \<le> k" "rt_memheap_alloc n h = Some (x + 48, h')"
      "mh_inv h' (xs @ mh_carve (unat (memheap_request n)) x k @ ys) fl'" "same_mh h h'"
    using rt_memheap_alloc_ok [OF inv, of n] unfolding fit option.case by blast
  have wf: "mh_wf h (xs @ (x, k, False) # ys)" using inv by (simp add: mh_inv_def A(1))
  obtain m where m: "mh_live (xs @ mh_carve (unat (memheap_request n)) x k @ ys) = insert (x + 48, m) (mh_live (xs @ (x, k, False) # ys))"
      "unat (memheap_request n) \<le> m" "m < unat (memheap_request n) + 60" "m \<le> k" by (rule live_carve [OF wf A(2)])
  have "x + 48 \<notin> fst ` mh_live bs" using mh_wf_at(8) [OF wf] by (force simp: A(1) mh_live_def)
  then show thesis using that [OF A(3,4,5)] m by (simp add: A(1))
qed

lemma memheap_alloc_none:
  "mh_inv h bs fl \<Longrightarrow> mh_fit (memheap_request n) h fl = None \<Longrightarrow> rt_memheap_alloc n h = Some (RT_NULL, h)"
  using rt_memheap_alloc_ok [of h bs fl n] by simp

lemma memheap_free_live:
  assumes inv: "mh_inv h bs fl" and l: "(p, n) \<in> mh_live bs"
  obtains h' bs' fl' where "rt_memheap_free p h = Some h'" "mh_inv h' bs' fl'" "same_mh h h'" "mh_live bs' = mh_live bs - {(p, n)}"
proof -
  obtain xs a ys where b: "bs = xs @ (a, n, True) # ys" "p = a + 48" by (rule live_split_block [OF l])
  show thesis by (rule rt_memheap_free_ok [OF inv [unfolded b(1)]]) (use that b in blast)
qed

text \<open>Sizes in the 32-bit variable \<open>nextsize\<close>.\<close>

lemma scast_small:
  assumes "unat (w :: u64) < 2 ^ 31"
  shows "scast (ucast w :: u32) = w"
proof -
  have "uint w < 2 ^ 31" using assms by (metis of_nat_less_iff of_nat_numeral of_nat_power uint_nat)
  moreover have "- (2 ^ 31) \<le> uint w" by (rule order_trans [of _ 0]) simp_all
  ultimately have "signed_take_bit 31 (uint w) = uint w" by (intro signed_take_bit_int_eq_self) simp_all
  then have "sint (ucast w :: u32) = uint w"
    using \<open>uint w < 2 ^ 31\<close> by (simp add: sint_uint unsigned_ucast_eq take_bit_int_eq_self)
  then show ?thesis by (metis scast_eq word_of_int_uint)
qed


text \<open>The branches of \<open>rt_memheap_realloc\<close>, with the comparisons on numbers instead of words.\<close>

lemma next_free_size:
  assumes wf: "mh_wf h (xs @ (a, n, True) # ys)" and nu: "\<not> memheap_is_used h (mi_next (item h a))"
  obtains q m vs where "ys = (q, m, False) # vs" "mi_next (item h a) = q" "unat (MEMITEM_SIZE h q) = m" "m < 2 ^ 31"
proof -
  have "\<not> (ys = [] \<or> snd (snd (hd ys)))" using next_used [OF wf] nu by simp
  then obtain q m vs where ys: "ys = (q, m, False) # vs" by (cases ys) auto
  have wf': "mh_wf h ((xs @ [(a, n, True)]) @ (q, m, False) # vs)" using wf by (simp add: ys)
  show thesis by (rule that [OF ys]) (use mh_wf_at(9) [OF wf] mh_wf_at(6,7) [OF wf'] in \<open>simp_all add: ys\<close>)
qed

lemma realloc_branches:
  assumes wf: "mh_wf h (xs @ (a, n, True) # ys)" and new: "new \<noteq> 0" "unat new < 2 ^ 63"
    and sz: "sz = memheap_request new" and nx: "nx = mi_next (item h a)"
  shows "rt_memheap_realloc (a + 48) new h =
    (if n < unat sz
     then if \<not> memheap_is_used h nx \<and> unat sz + 12 < n + unat (MEMITEM_SIZE h nx)
       then Some (a + 48, None, realloc_grow (a + 48) sz (of_nat n) h)
       else do { (q, h) \<leftarrow> rt_memheap_alloc sz h;
                 (if q \<noteq> RT_NULL
                  then do { h \<leftarrow> rt_memheap_free (a + 48) h; Some (q, Some (q, a + 48, of_nat n), h) }
                  else Some (q, None, h)) }
     else if unat sz + 60 < n then Some (a + 48, None, realloc_cut (a + 48) sz h)
     else Some (a + 48, None, h))"
proof -
  note A = mh_wf_at [OF wf] and F = mh_wf_frameD [OF wf]
  have a: "ptr_sub (a + 48) 48 = a" by (rule ptr_sub_add) (use A(5) F(4) in simp)
  have old: "MEMITEM_SIZE h a = of_nat n" "unat (of_nat n :: u64) = n" using A(6) by (simp_all add: MEMITEM_SIZE_def A(1))
  have ub: "unat sz < 2 ^ 63 + 13" using request_ge(2) [of new] new(2) by (simp add: sz)
  have c: "unat (sz + 48 + 12) = unat sz + 60" "unat (sz + 12) = unat sz + 12"
    using ub by (subst unat_add_lem [THEN iffD1]; simp)+
  have le: "sz > of_nat n \<longleftrightarrow> n < unat sz" by (simp only: word_less_nat_alt old(2))
  have room: "of_nat n \<le> sz + 48 + 12 \<longleftrightarrow> \<not> unat sz + 60 < n" by (simp only: word_le_nat_alt old(2) c linorder_not_less)
  have na: "nx > a" using A(1) by (simp add: nx)
  have grow: "(\<not> memheap_is_used h nx \<and> scast (ucast (MEMITEM_SIZE h nx) :: u32) + of_nat n > sz + 12) \<longleftrightarrow>
      (\<not> memheap_is_used h nx \<and> unat sz + 12 < n + unat (MEMITEM_SIZE h nx))"
  proof (cases "memheap_is_used h nx")
    case False
    obtain q m vs where Q: "nx = q" "unat (MEMITEM_SIZE h q) = m" "m < 2 ^ 31"
      by (rule next_free_size [OF wf False [unfolded nx]]) (simp add: nx)
    have "unat (MEMITEM_SIZE h nx + of_nat n) = m + n" using Q A(7) old(2) by (subst unat_add_lem [THEN iffD1]) simp_all
    then show ?thesis using scast_small [of "MEMITEM_SIZE h nx"] Q c(2) by (simp add: word_less_nat_alt add.commute)
  qed simp
  show ?thesis
    using new(1) na unfolding rt_memheap_realloc_def Let_def a sz [symmetric] nx [symmetric] old(1) le room grow
    by (simp add: le)
qed

lemma realloc_move:
  assumes inv: "mh_inv h bs fl" and l: "(p, n) \<in> mh_live bs" and fit: "mh_fit (memheap_request sz) h fl = Some x"
  obtains h1 m h2 bs2 fl2 where "rt_memheap_alloc sz h = Some (x + 48, h1)" "rt_memheap_free p h1 = Some h2" "mh_inv h2 bs2 fl2" "same_mh h h2"
    "mh_live bs2 = insert (x + 48, m) (mh_live bs - {(p, n)})" "unat (memheap_request sz) \<le> m" "x + 48 \<notin> fst ` mh_live bs"
proof -
  obtain m h1 bs1 fl1 where M: "rt_memheap_alloc sz h = Some (x + 48, h1)" "mh_inv h1 bs1 fl1" "same_mh h h1"
      "mh_live bs1 = insert (x + 48, m) (mh_live bs)" "x + 48 \<notin> fst ` mh_live bs" "unat (memheap_request sz) \<le> m"
    by (rule memheap_alloc_live [OF inv fit])
  have l1: "(p, n) \<in> mh_live bs1" using l M(4) by simp
  obtain h2 bs2 fl2 where R: "rt_memheap_free p h1 = Some h2" "mh_inv h2 bs2 fl2" "same_mh h1 h2" "mh_live bs2 = mh_live bs1 - {(p, n)}"
    by (rule memheap_free_live [OF M(2) l1])
  have "mh_live bs2 = insert (x + 48, m) (mh_live bs - {(p, n)})" using R(4) M(4,5) l by force
  then show thesis using that M R same_mh_trans by blast
qed

text \<open>What \<open>rt_memheap_realloc\<close> does to a block in use.\<close>

lemma memheap_realloc_live:
  assumes inv: "mh_inv h bs fl" and l: "(p, n) \<in> mh_live bs" and new: "new \<noteq> 0" "unat new < 2 ^ 63"
    and sz: "sz = memheap_request new" and nx: "nx = mi_next (item h (p - 48))"
  shows "\<exists>q c h' bs' fl'. rt_memheap_realloc p new h = Some (q, c, h') \<and> mh_inv h' bs' fl' \<and> same_mh h h' \<and>
    (if unat sz + 60 < n then q = p \<and> c = None \<and> mh_live bs' = insert (p, unat sz) (mh_live bs - {(p, n)})
     else if unat sz \<le> n then q = p \<and> c = None \<and> h' = h \<and> mh_live bs' = mh_live bs
     else if \<not> memheap_is_used h nx \<and> unat sz + 12 < n + unat (MEMITEM_SIZE h nx)
     then q = p \<and> c = None \<and> mh_live bs' = insert (p, unat sz) (mh_live bs - {(p, n)})
     else case mh_fit (memheap_request sz) h fl of
         None \<Rightarrow> q = RT_NULL \<and> c = None \<and> h' = h \<and> mh_live bs' = mh_live bs
       | Some x \<Rightarrow> q = x + 48 \<and> c = Some (q, p, of_nat n) \<and> q \<notin> fst ` mh_live bs \<and>
           (\<exists>m. unat (memheap_request sz) \<le> m \<and> mh_live bs' = insert (q, m) (mh_live bs - {(p, n)})))"
proof -
  obtain xs a ys where b: "bs = xs @ (a, n, True) # ys" "p = a + 48" by (rule live_split_block [OF l])
  have wf: "mh_wf h (xs @ (a, n, True) # ys)" using inv by (simp add: mh_inv_def b)
  have nx': "nx = mi_next (item h a)" by (simp add: nx b)
  note e = realloc_branches [OF wf new sz nx', folded b(2)]
  have out: "mh_live xs \<union> mh_live ys = mh_live bs - {(p, n)}" using live_fresh [OF wf, of n] by (auto simp: b)
  consider (cut) "unat sz + 60 < n" | (keep) "\<not> unat sz + 60 < n" "unat sz \<le> n"
    | (grow) "n < unat sz" "\<not> memheap_is_used h nx \<and> unat sz + 12 < n + unat (MEMITEM_SIZE h nx)"
    | (move) "n < unat sz" "\<not> (\<not> memheap_is_used h nx \<and> unat sz + 12 < n + unat (MEMITEM_SIZE h nx))" by linarith
  then show ?thesis
  proof cases
    case cut
    obtain k vs fl' where C: "mh_inv (realloc_cut p sz h) (xs @ (a, unat sz, True) # (p + unat sz, k, False) # vs) fl'"
        "same_mh h (realloc_cut p sz h)" "mh_live vs = mh_live ys" by (rule realloc_cut_ok [OF inv [unfolded b(1)] cut, folded b(2)])
    have "mh_live (xs @ (a, unat sz, True) # (p + unat sz, k, False) # vs) = insert (p, unat sz) (mh_live bs - {(p, n)})"
      using C(3) out by (auto simp: b(2))
    then show ?thesis using cut C(1,2) e by auto
  next
    case keep
    then show ?thesis using e inv by (auto simp: same_mh_def)
  next
    case grow
    obtain q m vs where Q: "ys = (q, m, False) # vs" "nx = q" "unat (MEMITEM_SIZE h q) = m"
      using grow(2) by (metis next_free_size [OF wf] nx')
    have "n < 2 ^ LENGTH(64)" using mh_wf_at(7) [OF wf] by simp
    then have old: "unat (of_nat n :: u64) = n" by (rule unat_of_nat_small)
    have room: "unat sz + 12 < n + m" using grow(2) Q(2,3) by simp
    obtain fl' where G: "mh_inv (realloc_grow p sz (of_nat n) h) (xs @ (a, unat sz, True) # (p + unat sz, n + m - unat sz, False) # vs) fl'"
        "same_mh h (realloc_grow p sz (of_nat n) h)"
      by (rule realloc_grow_ok [OF inv [unfolded b(1) Q(1)] old grow(1) room, folded b(2)])
    have "mh_live (xs @ (a, unat sz, True) # (p + unat sz, n + m - unat sz, False) # vs) = insert (p, unat sz) (mh_live bs - {(p, n)})"
      using out by (auto simp: b(2) Q(1))
    then show ?thesis using grow G e by auto
  next
    case move
    show ?thesis
    proof (cases "mh_fit (memheap_request sz) h fl")
      case None
      then show ?thesis using move e memheap_alloc_none [OF inv None] inv by (auto simp: same_mh_def)
    next
      case (Some x)
      show ?thesis by (rule realloc_move [OF inv l Some]) (use move e Some in auto)
    qed
  qed
qed


subsection \<open>Runs of a client\<close>

definition mh_held :: "memheap \<Rightarrow> mh_blocks \<times> node list \<Rightarrow> node set" where
  "mh_held h v = fst ` mh_live (fst v)"

definition memheap_realloc_ptr :: "node \<Rightarrow> u64 \<Rightarrow> memheap \<Rightarrow> (node \<times> memheap) option" where
  "memheap_realloc_ptr p n h = map_option (\<lambda>(q, c, h). (q, h)) (rt_memheap_realloc p n h)"

lemma held_block: "p \<in> mh_held h (bs, fl) \<Longrightarrow> \<exists>n. (p, n) \<in> mh_live bs"
  by (auto simp: mh_held_def)

lemma held_nonzero: "RT_NULL \<notin> mh_held h v"
  by (auto simp: mh_held_def mh_live_def)

lemma live_unique: "mh_wf h bs \<Longrightarrow> (p, n) \<in> mh_live bs \<Longrightarrow> (p, m) \<in> mh_live bs \<Longrightarrow> m = n"
  using mh_live_apart [of h bs p n p m] by simp

lemma held_remove:
  assumes "mh_wf h bs" "(p, n) \<in> mh_live bs"
  shows "fst ` (mh_live bs - {(p, n)}) = mh_held h (bs, fl) - {p}"
  using live_unique [OF assms] by (force simp: mh_held_def image_iff)

lemma memheap_alloc_held:
  assumes inv: "mh_inv h bs fl"
  obtains p h' bs' fl' where "rt_memheap_alloc n h = Some (p, h')" "mh_inv h' bs' fl'" "p \<notin> mh_held h (bs, fl)"
    "mh_held h' (bs', fl') = (if p = RT_NULL then mh_held h (bs, fl) else insert p (mh_held h (bs, fl)))"
proof (cases "mh_fit (memheap_request n) h fl")
  case None
  show thesis by (rule that [OF memheap_alloc_none [OF inv None] inv]) (use held_nonzero [of h "(bs, fl)"] in simp_all)
next
  case (Some x)
  obtain m h' bs' fl' where M: "rt_memheap_alloc n h = Some (x + 48, h')" "mh_inv h' bs' fl'"
      "mh_live bs' = insert (x + 48, m) (mh_live bs)" "x + 48 \<notin> fst ` mh_live bs"
    by (rule memheap_alloc_live [OF inv Some])
  show thesis by (rule that [OF M(1,2)]) (use M(3,4) in \<open>simp_all add: mh_held_def\<close>)
qed

lemma memheap_free_held:
  assumes inv: "mh_inv h bs fl" and p: "p = RT_NULL \<or> p \<in> mh_held h (bs, fl)"
  obtains h' bs' fl' where "rt_memheap_free p h = Some h'" "mh_inv h' bs' fl'" "mh_held h' (bs', fl') = mh_held h (bs, fl) - {p}"
proof (cases "p = RT_NULL")
  case True
  show thesis by (rule that [of h bs fl]) (use True inv held_nonzero [of h "(bs, fl)"] in \<open>simp_all add: rt_memheap_free_def\<close>)
next
  case False
  then obtain n where l: "(p, n) \<in> mh_live bs" using p held_block by blast
  obtain h' bs' fl' where R: "rt_memheap_free p h = Some h'" "mh_inv h' bs' fl'" "mh_live bs' = mh_live bs - {(p, n)}"
    by (rule memheap_free_live [OF inv l])
  have "mh_wf h bs" using inv by (simp add: mh_inv_def)
  then show thesis using that [OF R(1,2)] held_remove [OF _ l, of h fl] R(3) by (simp add: mh_held_def [of h'])
qed

lemma memheap_realloc_held:
  assumes inv: "mh_inv h bs fl" and p: "p = RT_NULL \<or> p \<in> mh_held h (bs, fl)" and n: "unat n < 2 ^ 63"
  obtains q h' bs' fl' where "memheap_realloc_ptr p n h = Some (q, h')" "mh_inv h' bs' fl'"
    "mh_held h' (bs', fl') = (if q \<noteq> RT_NULL then insert q (mh_held h (bs, fl) - {p}) else if n = 0 then mh_held h (bs, fl) - {p} else mh_held h (bs, fl))"
proof -
  consider (zero) "n = 0" | (null) "n \<noteq> 0" "p = RT_NULL" | (block) "n \<noteq> 0" "p \<noteq> RT_NULL" by blast
  then show thesis
  proof cases
    case zero
    obtain h' bs' fl' where "rt_memheap_free p h = Some h'" "mh_inv h' bs' fl'" "mh_held h' (bs', fl') = mh_held h (bs, fl) - {p}"
      by (rule memheap_free_held [OF inv p])
    then show thesis using zero by (intro that [of RT_NULL h' bs' fl']) (simp_all add: memheap_realloc_ptr_def rt_memheap_realloc_def)
  next
    case null
    obtain q h' bs' fl' where M: "rt_memheap_alloc (memheap_request n) h = Some (q, h')" "mh_inv h' bs' fl'" "q \<notin> mh_held h (bs, fl)"
      "mh_held h' (bs', fl') = (if q = RT_NULL then mh_held h (bs, fl) else insert q (mh_held h (bs, fl)))"
      by (rule memheap_alloc_held [OF inv])
    then show thesis using null held_nonzero [of h "(bs, fl)"]
      by (intro that [of q h' bs' fl']) (simp_all add: memheap_realloc_ptr_def rt_memheap_realloc_def Let_def)
  next
    case block
    then obtain k where l: "(p, k) \<in> mh_live bs" using p held_block by blast
    have wf: "mh_wf h bs" using inv by (simp add: mh_inv_def)
    have rm: "fst ` (mh_live bs - {(p, k)}) = mh_held h (bs, fl) - {p}" by (rule held_remove [OF wf l])
    have ins: "insert p (mh_held h (bs, fl) - {p}) = mh_held h (bs, fl)" using p block(2) by blast
    let ?sz = "memheap_request n" and ?nx = "mi_next (item h (p - 48))"
    obtain q c h' bs' fl' where R: "rt_memheap_realloc p n h = Some (q, c, h')" "mh_inv h' bs' fl'" and
      C: "if unat ?sz + 60 < k then q = p \<and> c = None \<and> mh_live bs' = insert (p, unat ?sz) (mh_live bs - {(p, k)})
       else if unat ?sz \<le> k then q = p \<and> c = None \<and> h' = h \<and> mh_live bs' = mh_live bs
       else if \<not> memheap_is_used h ?nx \<and> unat ?sz + 12 < k + unat (MEMITEM_SIZE h ?nx)
       then q = p \<and> c = None \<and> mh_live bs' = insert (p, unat ?sz) (mh_live bs - {(p, k)})
       else case mh_fit (memheap_request ?sz) h fl of
           None \<Rightarrow> q = RT_NULL \<and> c = None \<and> h' = h \<and> mh_live bs' = mh_live bs
         | Some x \<Rightarrow> q = x + 48 \<and> c = Some (q, p, of_nat k) \<and> q \<notin> fst ` mh_live bs \<and>
             (\<exists>m. unat (memheap_request ?sz) \<le> m \<and> mh_live bs' = insert (q, m) (mh_live bs - {(p, k)}))"
      using memheap_realloc_live [OF inv l block(1) n refl refl] by blast
    have "q = p \<and> mh_live bs' = mh_live bs \<or> q = RT_NULL \<and> mh_live bs' = mh_live bs \<or>
        q \<noteq> RT_NULL \<and> (\<exists>m. mh_live bs' = insert (q, m) (mh_live bs - {(p, k)}))"
      using C block(2) by (auto split: if_splits option.splits)
    then show thesis
    proof (elim disjE conjE exE)
      assume "q = p" "mh_live bs' = mh_live bs"
      then show thesis using block ins R by (intro that [of q h' bs' fl']) (simp_all add: memheap_realloc_ptr_def mh_held_def)
    next
      assume "q = RT_NULL" "mh_live bs' = mh_live bs"
      then show thesis using block R by (intro that [of q h' bs' fl']) (simp_all add: memheap_realloc_ptr_def mh_held_def)
    next
      fix m
      assume A: "q \<noteq> RT_NULL" "mh_live bs' = insert (q, m) (mh_live bs - {(p, k)})"
      have "mh_held h' (bs', fl') = insert q (mh_held h (bs, fl) - {p})" by (simp add: mh_held_def [of h'] A(2) rm)
      then show thesis using A(1) R by (intro that [of q h' bs' fl']) (simp_all add: memheap_realloc_ptr_def)
    qed
  qed
qed

interpretation mh: allocator "\<lambda>h v. mh_inv h (fst v) (snd v)" mh_held "\<lambda>h p. (p, unat (MEMITEM_SIZE h (p - 48)))"
  rt_memheap_alloc rt_memheap_free memheap_realloc_ptr RT_NULL "\<lambda>n. n = 0" "\<lambda>n. unat n < 2 ^ 63"
proof (unfold_locales, goal_cases)
  case (1 h v n)
  then show ?case using memheap_alloc_held [of h "fst v" "snd v" n] by (metis fst_conv prod.collapse snd_conv)
next
  case (2 h v p)
  then show ?case using memheap_free_held [of h "fst v" "snd v" p] by (metis fst_conv prod.collapse snd_conv)
next
  case (3 h v p n)
  then show ?case using memheap_realloc_held [of h "fst v" "snd v" p n] by (metis fst_conv prod.collapse snd_conv)
next
  case (4 h v p q)
  obtain n where p: "(p, n) \<in> mh_live (fst v)" using 4(2) by (auto simp: mh_held_def)
  obtain m where q: "(q, m) \<in> mh_live (fst v)" using 4(3) by (auto simp: mh_held_def)
  note l = p q
  have wf: "mh_wf h (fst v)" using 4 by (simp add: mh_inv_def)
  show ?case using mh_live_apart [OF wf l] 4(4) by (auto simp: mh_live_range(4) [OF wf l(1)] mh_live_range(4) [OF wf l(2)])
qed

subsection \<open>Correctness\<close>

text \<open>The states a client can bring a memory heap to, with the pointers it holds.\<close>

definition memheap_run :: "memheap \<Rightarrow> memheap \<Rightarrow> node set \<Rightarrow> bool" where
  "memheap_run = alloc_run rt_memheap_alloc rt_memheap_free memheap_realloc_ptr RT_NULL (\<lambda>n. n = 0) (\<lambda>n. unat n < 2 ^ 63)"

lemma all_free_one_block:
  assumes "mh_inv h bs fl" "mh_live bs = {}"
  shows "bs = [(mh_start_addr h, unat (mh_pool_size h) - 96, False)] \<and> fl = [mh_start_addr h]"
proof -
  have wf: "mh_wf h bs" and mg: "mh_merged bs" and sf: "set fl = free_addrs bs" and d: "distinct fl"
    using assms(1) by (simp_all add: mh_inv_def ring_def)
  note F = mh_wf_frameD [OF wf]
  have t: "tiled (mh_start_addr h) bs (mh_tail h)" using wf by (simp add: mh_wf_def)
  obtain p n u cs where bs: "bs = (p, n, u) # cs" using t F(2) by (cases bs) auto
  have fr: "\<not> w" if "(a, k, w) \<in> set bs" for a k w using assms(2) that by (cases w) (auto simp: mh_live_def)
  have "cs = []"
  proof (cases cs)
    case (Cons c ds)
    then show ?thesis using mg fr [of p n u] fr [of "fst c" "fst (snd c)" "snd (snd c)"] by (simp add: bs)
  qed
  moreover have "\<not> u" using fr [of p n u] by (simp add: bs)
  moreover have "p = mh_start_addr h" "mh_start_addr h + 48 + n = mh_tail h" using t \<open>cs = []\<close> by (simp_all add: bs)
  moreover from this have "n = unat (mh_pool_size h) - 96" using F(1,2) by linarith
  ultimately have b: "bs = [(mh_start_addr h, unat (mh_pool_size h) - 96, False)]" by (simp add: bs)
  have "set fl = {mh_start_addr h}" using sf b by simp
  then have "fl = [mh_start_addr h]" using d by (cases fl; cases "tl fl") auto
  then show ?thesis using b by simp
qed

text \<open>What a client that runs on a heap knows of it.\<close>

lemma memheap_run_inv:
  assumes room: "memheap_room hdr start sz" and run: "memheap_run (rt_memheap_init self hdr start sz mem0) h L"
  obtains bs fl where "mh_inv h bs fl" "L = fst ` mh_live bs"
proof -
  have "mh_inv (rt_memheap_init self hdr start sz mem0) [(start, unat (RT_ALIGN_DOWN sz) - 96, False)] [start]"
    by (rule rt_memheap_init_ok(1) [OF room refl])
  then have "\<exists>v. mh_inv h (fst v) (snd v) \<and> mh_held h v = L"
    by (intro mh.run_rel [OF run [unfolded memheap_run_def], of "([(start, unat (RT_ALIGN_DOWN sz) - 96, False)], [start])"])
      (simp_all add: mh_held_def)
  then show thesis using that by (auto simp: mh_held_def)
qed

definition sample_items :: "node \<Rightarrow> mh_item" where
  "sample_items = (\<lambda>_. \<lparr>mi_magic = 0, mi_pool_ptr = 0, mi_next = 0, mi_prev = 0, mi_next_free = 0, mi_prev_free = 0\<rparr>)"

definition sample_memheap :: memheap where
  "sample_memheap = rt_memheap_init 1000 1080 4096 1024 sample_items"

lemma sample_memheap_inv: "mh_inv sample_memheap [(4096, 928, False)] [4096]" "mh_available_size sample_memheap = 928"
proof -
  have "memheap_room 1080 4096 1024" by (simp add: memheap_room_def)
  from rt_memheap_init_ok(1) [OF this sample_memheap_def] show "mh_inv sample_memheap [(4096, 928, False)] [4096]"
    by (simp add: RT_ALIGN_DOWN_def)
  then show "mh_available_size sample_memheap = 928" by (simp add: mh_inv_def word_unat_eq_iff)
qed

lemma sample_memheap_fit: "mh_fit (memheap_request 100) sample_memheap [4096] = Some 4096"
proof -
  have "MEMITEM_SIZE sample_memheap 4096 = 928"
    using mh_wf_at(6) [of sample_memheap "[]" 4096 928 False "[]"] sample_memheap_inv(1) by (simp add: mh_inv_def word_unat_eq_iff)
  then show ?thesis by (simp add: mh_fit_def memheap_request_def RT_ALIGN_def sample_memheap_inv(2))
qed

text \<open>C10: rt_memheap_alloc takes the first block of the free list that is large enough: it returns NULL and changes nothing
  when there is none, or when the request is not smaller than all that is available, and otherwise a block
  that holds the request, wastes less than a header and two least blocks, and is apart from every block in use by a header.\<close>

theorem rt_memheap_alloc_spec:
  assumes "mh_inv h bs fl" "unat n < 2 ^ 64 - 7"
  shows "case mh_fit (memheap_request n) h fl of
      None \<Rightarrow> rt_memheap_alloc n h = Some (RT_NULL, h)
    | Some x \<Rightarrow> \<exists>m h' bs' fl'. rt_memheap_alloc n h = Some (x + 48, h') \<and> mh_inv h' bs' fl' \<and>
        mh_live bs' = insert (x + 48, m) (mh_live bs) \<and> unat n \<le> m \<and> m < unat n + 72 \<and>
        (\<forall>(q, k)\<in>mh_live bs. q + k + 48 \<le> x + 48 \<or> x + 48 + m + 48 \<le> q)"
proof (cases "mh_fit (memheap_request n) h fl")
  case None
  then show ?thesis using memheap_alloc_none [OF assms(1)] by simp
next
  case (Some x)
  obtain m h' bs' fl' where M: "rt_memheap_alloc n h = Some (x + 48, h')" "mh_inv h' bs' fl'"
      "mh_live bs' = insert (x + 48, m) (mh_live bs)" "x + 48 \<notin> fst ` mh_live bs"
      "unat (memheap_request n) \<le> m" "m < unat (memheap_request n) + 60"
    by (rule memheap_alloc_live [OF assms(1) Some])
  have wf: "mh_wf h' bs'" using M(2) by (simp add: mh_inv_def)
  have "q + k + 48 \<le> x + 48 \<or> x + 48 + m + 48 \<le> q" if "(q, k) \<in> mh_live bs" for q k
    using mh_live_apart [OF wf, of q k "x + 48" m] M(3,4) that by force
  moreover have "unat n \<le> m" "m < unat n + 72" using M(5,6) request_ge [OF assms(2)] by simp_all
  ultimately show ?thesis unfolding Some option.case using M(1-3) by blast
qed

theorem rt_memheap_alloc_spec_witness:
  "\<exists>m h' bs' fl'. rt_memheap_alloc 100 sample_memheap = Some (4144, h') \<and> mh_inv h' bs' fl' \<and> mh_live bs' = {(4144, m)} \<and> 100 \<le> m"
  using rt_memheap_alloc_spec [OF sample_memheap_inv(1), of 100] by (auto simp: sample_memheap_fit)

text \<open>C9: In every state a client can reach from rt_memheap_init by allocating, resizing and freeing what
  it holds, no operation fails an assertion or hangs, the blocks it holds lie in the range of the heap and do not
  overlap, and when it has given everything back the heap is one free block again and all of it is available.\<close>

theorem memheap_run_safe:
  assumes "memheap_room hdr start sz" "memheap_run (rt_memheap_init self hdr start sz mem0) h L"
  shows "rt_memheap_alloc n h \<noteq> None \<and>
    (p = RT_NULL \<or> p \<in> L \<longrightarrow> rt_memheap_free p h \<noteq> None \<and> (unat n < 2 ^ 63 \<longrightarrow> rt_memheap_realloc p n h \<noteq> None)) \<and>
    (p \<in> L \<and> q \<in> L \<and> p \<noteq> q \<longrightarrow> p + unat (MEMITEM_SIZE h (p - 48)) \<le> q \<or> q + unat (MEMITEM_SIZE h (q - 48)) \<le> p) \<and>
    (p \<in> L \<longrightarrow> mh_start_addr h + 48 \<le> p \<and> p + unat (MEMITEM_SIZE h (p - 48)) + 48 \<le> mh_start_addr h + unat (mh_pool_size h)) \<and>
    (L = {} \<longrightarrow> mh_inv h [(mh_start_addr h, unat (mh_pool_size h) - 96, False)] [mh_start_addr h] \<and>
       unat (mh_available_size h) = unat (mh_pool_size h) - 96)"
proof -
  obtain bs fl where I: "mh_inv h bs fl" and L: "L = fst ` mh_live bs" by (rule memheap_run_inv [OF assms])
  have wf: "mh_wf h bs" using I by (simp add: mh_inv_def)
  have init: "mh_inv (rt_memheap_init self hdr start sz mem0) (fst ([(start, unat (RT_ALIGN_DOWN sz) - 96, False)], [start]))
      (snd ([(start, unat (RT_ALIGN_DOWN sz) - 96, False)], [start]))"
    "mh_held (rt_memheap_init self hdr start sz mem0) ([(start, unat (RT_ALIGN_DOWN sz) - 96, False)], [start]) = {}"
    using rt_memheap_init_ok(1) [OF assms(1) refl] by (simp_all add: mh_held_def)
  note S = mh.run_safe [OF assms(2) [unfolded memheap_run_def] init]
  have range: "mh_start_addr h + 48 \<le> p \<and> p + unat (MEMITEM_SIZE h (p - 48)) + 48 \<le> mh_start_addr h + unat (mh_pool_size h)" if p: "p \<in> L"
  proof -
    obtain k where k: "(p, k) \<in> mh_live bs" using p L by auto
    show ?thesis using mh_live_range [OF wf k] mh_wf_frameD(1) [OF wf] by simp
  qed
  have empty: "mh_inv h [(mh_start_addr h, unat (mh_pool_size h) - 96, False)] [mh_start_addr h] \<and>
      unat (mh_available_size h) = unat (mh_pool_size h) - 96" if "L = {}"
    using all_free_one_block [OF I] that L I by (auto simp: mh_inv_def)
  show ?thesis
    using S(1) [of n] S(2) [of p] S(3) [of p n] S(4) [of p q] range empty by (auto simp: memheap_realloc_ptr_def)
qed

theorem memheap_run_safe_witness:
  "\<exists>h. memheap_run sample_memheap h {4144} \<and> rt_memheap_free 4144 h \<noteq> None \<and> rt_memheap_realloc 4144 200 h \<noteq> None"
proof -
  obtain h where h: "rt_memheap_alloc 100 sample_memheap = Some (4144, h)"
    using memheap_alloc_live [OF sample_memheap_inv(1) sample_memheap_fit] by auto
  have "alloc_run rt_memheap_alloc rt_memheap_free memheap_realloc_ptr RT_NULL (\<lambda>n. n = 0) (\<lambda>n. unat n < 2 ^ 63)
      sample_memheap sample_memheap {}" by (rule run_start)
  from run_alloc [of rt_memheap_alloc, OF this h] have r: "memheap_run sample_memheap h {4144}" by (simp add: memheap_run_def)
  have "memheap_room 1080 4096 1024" by (simp add: memheap_room_def)
  from memheap_run_safe [OF this r [unfolded sample_memheap_def], of 200 4144 0] r show ?thesis by auto
qed

text \<open>Fact: rt_memheap_realloc of a block in use, for every size below half of the address space: it is cut when it is
  larger than the request by more than a header and a least block, kept when it is large enough, grown into
  the free block behind it when that leaves more than a least block, and otherwise moved to the block
  rt_memheap_alloc finds, into which the old contents are copied, or refused without any change.\<close>

theorem rt_memheap_realloc_spec:
  assumes "mh_inv h bs fl" "(p, n) \<in> mh_live bs" "new \<noteq> 0" "unat new < 2 ^ 63"
  shows "let sz = memheap_request new; nx = mi_next (item h (p - 48)) in
    \<exists>q c h' bs' fl'. rt_memheap_realloc p new h = Some (q, c, h') \<and> mh_inv h' bs' fl' \<and> same_mh h h' \<and>
    (if unat sz + 60 < n then q = p \<and> c = None \<and> mh_live bs' = insert (p, unat sz) (mh_live bs - {(p, n)})
     else if unat sz \<le> n then q = p \<and> c = None \<and> h' = h \<and> mh_live bs' = mh_live bs
     else if \<not> memheap_is_used h nx \<and> unat sz + 12 < n + unat (MEMITEM_SIZE h nx)
     then q = p \<and> c = None \<and> mh_live bs' = insert (p, unat sz) (mh_live bs - {(p, n)})
     else case mh_fit (memheap_request sz) h fl of
         None \<Rightarrow> q = RT_NULL \<and> c = None \<and> h' = h \<and> mh_live bs' = mh_live bs
       | Some x \<Rightarrow> q = x + 48 \<and> c = Some (q, p, of_nat n) \<and> q \<notin> fst ` mh_live bs \<and>
           (\<exists>m. unat (memheap_request sz) \<le> m \<and> mh_live bs' = insert (q, m) (mh_live bs - {(p, n)})))"
  unfolding Let_def by (rule memheap_realloc_live [OF assms refl refl])


subsection \<open>Where the code does not keep its promises\<close>

text \<open>
  \<open>RT_MEMHEAP_MINIALLOC\<close> is 12, which is not a multiple of \<open>RT_ALIGN_SIZE\<close>: a request of 1 byte puts the next header, and
  all blocks behind it, at an address that is 4 modulo 8.
\<close>

lemma memheap_misaligned:
  "\<exists>h1 h2. rt_memheap_alloc 1 sample_memheap = Some (4144, h1) \<and> rt_memheap_alloc 8 h1 = Some (4204, h2) \<and> (4204 :: nat) mod 8 = 4"
proof -
  have r: "memheap_request 1 = 12" "memheap_request 8 = 12" by (simp_all add: memheap_request_def RT_ALIGN_def)
  have "MEMITEM_SIZE sample_memheap 4096 = 928"
    using mh_wf_at(6) [of sample_memheap "[]" 4096 928 False "[]"] sample_memheap_inv(1) by (simp add: mh_inv_def word_unat_eq_iff)
  then have "mh_fit (memheap_request 1) sample_memheap [4096] = Some 4096" by (simp add: mh_fit_def r sample_memheap_inv(2))
  from rt_memheap_alloc_ok [OF sample_memheap_inv(1), of 1, unfolded this option.case]
  obtain fl1 h1 where A: "rt_memheap_alloc 1 sample_memheap = Some (4144, h1)" "mh_inv h1 [(4096, 12, True), (4156, 868, False)] fl1"
    by (auto simp: r mh_carve_def Cons_eq_append_conv)
  have wf: "mh_wf h1 ([(4096, 12, True)] @ (4156, 868, False) # [])" using A(2) by (simp add: mh_inv_def)
  have fl: "fl1 = [4156]" using A(2) by (cases fl1; cases "tl fl1") (auto simp: mh_inv_def ring_def)
  have "mh_available_size h1 = 868" "MEMITEM_SIZE h1 4156 = 868"
    using A(2) mh_wf_at(6) [OF wf] by (simp_all add: mh_inv_def word_unat_eq_iff)
  then have "mh_fit (memheap_request 8) h1 [4156] = Some 4156" by (simp add: mh_fit_def r)
  from rt_memheap_alloc_ok [OF A(2) [unfolded fl], of 8, unfolded this option.case]
  obtain h2 where "rt_memheap_alloc 8 h1 = Some (4204, h2)" by auto
  then show ?thesis using A(1) by simp
qed

text \<open>A size near the end of the address space aligns to 0: the caller gets the least block instead of NULL.\<close>

lemma memheap_request_wraps: "memheap_request (- 1) = 12"
  by (simp add: memheap_request_def RT_ALIGN_wraps)

text \<open>The comparison for growing in place wraps as well: with a free block behind it a block \<open>grows\<close> to
  \<open>2 ^ 64 - 8\<close> bytes, and the new header is written over its own.\<close>

lemma memheap_realloc_wraps:
  assumes wf: "mh_wf h (xs @ (a, n, True) # (q, m, False) # ys)" and n: "4 < m + n"
  shows "rt_memheap_realloc (a + 48) (- 8) h = Some (a + 48, None, realloc_grow (a + 48) (- 8) (of_nat n) h)"
proof -
  note A = mh_wf_at [OF wf] and F = mh_wf_frameD [OF wf]
  have wf': "mh_wf h ((xs @ [(a, n, True)]) @ (q, m, False) # ys)" using wf by simp
  note B = mh_wf_at [OF wf']
  have a: "ptr_sub (a + 48) 48 = a" by (rule ptr_sub_add) (use A(5) F(4) in simp)
  have old: "MEMITEM_SIZE h a = of_nat n" "unat (of_nat n :: u64) = n" using A(6) by (simp_all add: MEMITEM_SIZE_def A(1))
  have sz: "memheap_request (- 8) = - 8" by (simp add: memheap_request_def RT_ALIGN_def)
  have q: "mi_next (item h a) = q" "a < q" "\<not> memheap_is_used h q" using A(1,9) is_used_header [OF B(3)] by simp_all
  have s: "scast (ucast (MEMITEM_SIZE h q) :: u32) = MEMITEM_SIZE h q" by (rule scast_small) (use B(6,7) in simp)
  have "unat (MEMITEM_SIZE h q + of_nat n) = m + n" using B(6,7) A(7) old(2) by (subst unat_add_lem [THEN iffD1]) simp_all
  then have g: "(4 :: u64) < MEMITEM_SIZE h q + of_nat n" using n by (simp add: word_less_nat_alt)
  have "(of_nat n :: u64) < - 8" using old(2) A(7) by (simp add: word_less_nat_alt)
  then show ?thesis using g by (simp add: rt_memheap_realloc_def Let_def a sz old(1) q s)
qed

end
