(* ===== verification/Spec2Isabelle.thy ===== *)
theory Spec2Isabelle
  imports RtList RingBuffer RingBlk SchedProps Objects Timer Blocking Sem ThreadProps ThreadLife Mutex Event Mailbox
    MsgQueue Mempool KernelAlloc Kprintf CTime Dfs Device MemheapProps
begin

text \<open>
  A verification library for the RT-Thread kernel of this repository (\<open>src/rt-thread\<close>), in the
  configuration of \<open>src/rtconfig.h\<close>: SMP with two CPUs, 32 priorities, names of 8 characters,
  1000 ticks a second, the small-memory heap, no hooks, no software-timer thread.

  \<^bold>\<open>The program.\<close>  Threads are kept in ready tables by priority (\<open>src/scheduler.c\<close>), one table for
  threads bound to a CPU and one for the others, and every CPU runs the highest it finds.  A thread
  that waits is linked to the waiting list of an IPC object (\<open>src/ipc.c\<close>, \<open>src/mempool.c\<close>) and may
  have a timer (\<open>src/timer.c\<close>), which the tick interrupt (\<open>src/clock.c\<close>) checks.  Threads, timers and
  IPC objects are kernel objects with names (\<open>src/object.c\<close>).  Dead threads wait for the idle thread
  (\<open>src/idle.c\<close>), which frees them to the heap (\<open>src/mem.c\<close>).  Lists (\<open>include/rtservice.h\<close>), ring
  buffers (\<open>components/drivers/src\<close>) and the kernel service library (\<open>src/kservice.c\<close>) are used by all.
  Above the kernel the device file system (\<open>components/dfs/src\<close>) maps path names to mounted file systems and
  descriptors to open files, and the libc layer converts calendar time (\<open>components/libc\<close>).

  \<^bold>\<open>Which theory models what.\<close>  Definitions carry the names of the C functions; static functions lose
  their leading underscore, loops and parts of a function that are definitions of their own are named
  after what they do.
  \<^item> \<open>Prelude\<close>: types \<open>u8\<close> to \<open>u64\<close>, error codes, alignment, assertions, conversion to the signed \<open>int\<close> and \<open>long\<close>.
  \<^item> \<open>RtList\<close>: \<open>rt_list_t\<close> and \<open>rt_slist_t\<close> on a heap of next and prev fields; the circular lists of
    the pointers are the HOL lists the later theories use.
  \<^item> \<open>Fifo\<close>: the locale of bounded queues, and circular buffers read as lists.  \<open>RingBuffer\<close>:
    \<open>ringbuffer.c\<close>, an interpretation of it.  \<open>RingBlk\<close>: \<open>ringblk_buf.c\<close>, blocks allocated in ring order.
  \<^item> \<open>Kservice\<close>, \<open>Kstring\<close>, \<open>Kprintf\<close>, \<open>KernelAlloc\<close>: \<open>kservice.c\<close>, that is find-first-set and names,
    memory and strings over a partial memory, formatted output, and aligned allocation and
    \<open>rt_strdup\<close> on top of the heap.  \<open>rt_set_errno\<close> is in \<open>Mempool\<close>, which uses it.
  \<^item> \<open>Sched\<close>: \<open>scheduler.c\<close>, \<open>cpu.c\<close> and \<open>irq.c\<close>; \<open>SchedInv\<close>, \<open>SchedFrame\<close>, \<open>SchedProps\<close>: its
    invariant, what it leaves alone, its properties.
  \<^item> \<open>Objects\<close>: \<open>object.c\<close>.  \<open>Timer\<close>: \<open>timer.c\<close>.
  \<^item> \<open>Kernel\<close>: the whole state, \<open>clock.c\<close>, and the parts of \<open>thread.c\<close> and \<open>ipc.c\<close> with which threads
    block and are woken; \<open>KernelInv\<close>, \<open>Blocking\<close>, \<open>Waiting\<close>: the invariant of that state and the
    lemmas on blocking and waking all IPC components share; \<open>Sample\<close>: the state of the witnesses.
  \<^item> \<open>Thread\<close>: the rest of \<open>thread.c\<close>, and \<open>idle.c\<close>; \<open>ThreadProps\<close>, \<open>ThreadLife\<close>: its properties.
  \<^item> \<open>Sem\<close>, \<open>Mutex\<close>, \<open>Event\<close>, \<open>Mailbox\<close>, \<open>MsgQueue\<close>: \<open>ipc.c\<close>.  \<open>Mempool\<close>: \<open>mempool.c\<close>.
  \<^item> \<open>SmallMem\<close>, \<open>SmallMemAlloc\<close>, \<open>SmallMemProps\<close>: \<open>mem.c\<close>, its heap as a list of blocks.
    \<open>Memheap\<close>, \<open>MemheapInv\<close>, \<open>MemheapOps\<close>, \<open>MemheapResize\<close>, \<open>MemheapProps\<close>: \<open>memheap.c\<close>, heaps on a given range, as
    a list of blocks and the order of the free list.  \<open>Allocator\<close>: the contract both heaps are interpretations of.
  \<^item> \<open>DfsPath\<close>: \<open>dfs_normalize_path\<close> of \<open>dfs.c\<close>, character by character in memory.  \<open>Dfs\<close>: the rest of
    \<open>dfs.c\<close>, \<open>dfs_fs.c\<close> and \<open>dfs_file.c\<close>; it reads a path through the text \<open>DfsPath\<close> proves to be left in memory.
  \<^item> \<open>CTime\<close>: \<open>time.c\<close> of the libc layer.
  \<^item> \<open>DataQueue\<close>, \<open>Completion\<close>: \<open>dataqueue.c\<close>, \<open>completion.c\<close> and \<open>waitqueue.c\<close> of the driver layer, on the
    same waiting lists as the IPC objects.  \<open>Device\<close>: \<open>device.c\<close>, devices as kernel objects.

  \<^bold>\<open>How the state corresponds.\<close>  A C struct is a record, an address a number with 0 for \<open>RT_NULL\<close>, a
  machine integer a word of its width, or an integer that goes through \<open>int32\<close> or \<open>int64\<close> where the code
  computes in \<open>int\<close> or converts to it (formatted output, calendar time, reference counts of descriptors).  State is passed explicitly.  A function that can fail an
  assertion, loop for ever or touch memory it may not is an \<open>option\<close>: \<open>None\<close> stands for each of these,
  so that a theorem that says \<open>Some\<close> says that none of them happens.  A call that may block is
  divided where it gives way: the operation yields no result when it has called \<open>rt_schedule\<close>, and
  the definition of the same name with \<open>_resumed\<close> is what the thread does when it is scheduled again;
  calls of a loop (mailboxes, message queues) are divided into turns.  \<open>rt_hw_interrupt_disable\<close> is
  \<open>rt_cpus_lock\<close> in this configuration and counts in the running thread only; pairs of it within one
  operation are left out, except where the scheduler reads the counters.  An operation is one step:
  its critical sections run one after the other without interleaving, which is what the lock
  ensures for each of them.  The context switch is setting the current thread.

  \<^bold>\<open>What the lemmas show.\<close>  For each component an invariant, that every operation keeps it, and what
  each operation does on every branch, errors included: \<open>sched_inv\<close> (tables, bitmaps, states and
  current threads agree) and \<open>kernel_inv\<close> (states agree with objects, timers and waiting lists);
  mailboxes, message queues, data queues and ring buffers refine a bounded queue, call by call, where a refused
  call leaves the state as it was (locale \<open>bounded_fifo\<close>); a device counts its
  openings whatever its driver answers (\<open>device_run\<close>); the heap refines first fit over
  a list of blocks, and a heap driven by any well-behaved client is safe (\<open>heap_run\<close>, and \<open>alloc_run\<close> for
  any allocator; inductive relations); a memory heap whose blocks have all been given back is one free block; paths are normalised to the components they resolve to, descriptors count the references
  their clients hold (\<open>fd_run\<close>); seconds and broken-down time determine each other up to
  the year 2^31 - 1; the memory and string routines equal their obvious counterparts on lists; formatted
  output equals a reference definition, for widths and precisions within an \<open>int\<close>, and stays within its buffer.

  \<^bold>\<open>Bounds.\<close>  No fuel is used.  Loops over lists are structural or have a measure; loops that could run
  for ever (walks over pointers or terminated strings, the timer check, the retry of blocking calls)
  are \<open>partial_function (option)\<close> and are proved to return under the invariant.

  \<^bold>\<open>Parameters.\<close>  Results of \<open>rt_malloc\<close> in theories that do not import the heap, time-out and cleanup
  functions of threads and timers, stack addresses, CPU usage, the arguments of formatted output, the
  operations of file systems (functions that change the descriptor they are given) and the devices under them, the functions of
  device drivers, the time zone.

  \<^bold>\<open>Not modelled.\<close>  Assembly and boot code (\<open>libcpu\<close>), interrupts of the hardware, the drivers and
  their SDK, USB, WLAN, the vendored FAT file system and network code, the POSIX layer and the parts of
  the libc layer that read a real-time clock, the shell.  Of the kernel: hooks, debug prints and the printing of lists, the bytes of heap blocks
  (\<open>rt_realloc\<close> and \<open>rt_calloc\<close> yield the copy and the fill they make), the semaphores of the heaps,
  \<open>rt_memheap_detach\<close> (it detaches an object and a semaphore), and \<open>slab.c\<close> and \<open>signal.c\<close>, which this configuration does not build.
\<close>

end
